(* ===== verification/Prelude.thy ===== *)
theory Prelude
  imports Main "HOL-Library.Word" "HOL-Library.Monad_Syntax"
begin

text \<open>
  Shared vocabulary of the development: the addresses and the \<open>size_t\<close> arithmetic of the
  modelled target, and the generic lemmas the component theories use.

  The target is a 32-bit one, with \<open>sizeof (size_t) = 4\<close>, \<open>__alignof__ (double) = 8\<close> and a
  4096-byte page. Addresses and sizes are natural numbers; unsigned arithmetic that the source
  performs on caller-supplied values is written with its wrap-around (\<open>sz_add\<close>).
\<close>

named_theorems heap_defs \<open>definitions of the allocator's elementary steps\<close>

type_synonym addr = nat
type_synonym byte = "8 word"

text \<open>Addition of two \<open>size_t\<close> values.\<close>

definition sz_add :: "nat \<Rightarrow> nat \<Rightarrow> nat" where
  "sz_add a b = (a + b) mod 2 ^ 32"

lemma sz_add_less: "a + b < 2 ^ 32 \<Longrightarrow> sz_add a b = a + b"
  by (simp add: sz_add_def)

lemma sz_add_bound: "sz_add a b < 2 ^ 32"
  by (simp add: sz_add_def)

text \<open>Rounding with a power-of-two mask, as in \<open>sz & ~(p - 1)\<close>.\<close>

definition round_down :: "nat \<Rightarrow> nat \<Rightarrow> nat" where
  "round_down p n = n - n mod p"

lemma round_down_dvd: "p dvd round_down p n"
  by (simp add: round_down_def)

lemma round_down_div: "round_down p n = p * (n div p)"
  by (simp add: round_down_def minus_mod_eq_mult_div)

lemma round_down_le: "round_down p n \<le> n"
  by (simp add: round_down_def)

lemma round_down_gt: "0 < p \<Longrightarrow> n < round_down p n + p"
proof -
  assume "0 < p"
  then have "n mod p < p" by simp
  moreover have "n mod p \<le> n" by simp
  ultimately show "n < round_down p n + p" unfolding round_down_def by linarith
qed

lemma round_down_id: "p dvd n \<Longrightarrow> round_down p n = n"
  by (simp add: round_down_def)

lemma round_up_ge: "0 < p \<Longrightarrow> n \<le> round_down p (n + (p - 1))"
  using round_down_gt [of p "n + (p - 1)"] by linarith

lemma round_up_le: "round_down p (n + (p - 1)) \<le> n + (p - 1)"
  by (rule round_down_le)

section \<open>Bytes\<close>

text \<open>The two upper and the six lower bits of a byte.\<close>

lemma and_mask6: "unat (and b 0x3f) = unat (b :: byte) mod 64"
proof -
  have "and b 0x3f = take_bit 6 b" by (simp add: take_bit_eq_mask mask_eq_exp_minus_1)
  then show ?thesis by (simp add: take_bit_eq_mod unat_mod)
qed

lemma and_mask_c0: "unat (and b 0xc0) = 64 * (unat (b :: byte) div 64)"
proof -
  have or: "b = or (and b 0xc0) (and b 0x3f)" and "and (and b 0xc0) (and b 0x3f) = 0"
    by (rule bit_word_eqI, auto simp: bit_simps less_Suc_eq numeral_eq_Suc)+
  then have "b = and b 0xc0 + and b 0x3f" by (metis disjunctive_add_eq_or)
  moreover have "and b 0xc0 \<le> b" by (metis or word_and_le2)
  ultimately have "unat b = unat (and b 0xc0) + unat (and b 0x3f)"
    by (metis add_diff_cancel_left' le_add_diff_inverse unat_sub word_le_nat_alt)
  then show ?thesis using and_mask6 [of b] by (simp add: minus_mod_eq_mult_div [symmetric])
qed

section \<open>Error numbers\<close>

definition ESRCH :: nat where "ESRCH = 3"

definition EINTR :: nat where "EINTR = 4"

definition EBADF :: nat where "EBADF = 9"

definition EAGAIN :: nat where "EAGAIN = 11"

definition ENOMEM :: nat where "ENOMEM = 12"

definition EINVAL :: nat where "EINVAL = 22"

definition EFBIG :: nat where "EFBIG = 27"

definition ERANGE :: nat where "ERANGE = 34"

definition EOVERFLOW :: nat where "EOVERFLOW = 75"

end
