(* ===== verification/Heap.thy ===== *)
theory Heap
  imports Prelude
begin

text \<open>
  The heap allocator under \<open>malloc\<close>: \<open>libc/stdlib/malloc/heap.h\<close>, \<open>heap_alloc.c\<close>,
  \<open>heap_alloc_at.c\<close> and \<open>heap_free.c\<close>.

  The heap is an address-ordered doubly linked list of free areas. The descriptor of an area
  (\<open>struct heap_free_area\<close>) is stored in the last bytes of the area itself. The model keeps
  that layout: \<open>hmem\<close> is the memory as 32-bit words at word-aligned addresses, the fields of the
  descriptor at \<open>fa\<close> are the words at \<open>fa\<close> (size), \<open>fa + 4\<close> (next) and \<open>fa + 8\<close> (prev), and
  \<open>heap\<close> is the variable the callers pass by reference (\<open>struct heap_free_area **\<close>). The loops
  over the list are \<open>partial_function (option)\<close>: a cyclic list has the value \<open>None\<close>.

  The second part relates this to an abstract heap, a list of \<open>(start, size)\<close> pairs sorted by
  address and separated by gaps, and proves that the pointer operations implement the abstract
  ones and never write a word outside the free areas.
\<close>

section \<open>The code's data and operations\<close>

definition HEAP_GRANULARITY :: nat where
  "HEAP_GRANULARITY = 8"

definition sizeof_heap_free_area :: nat where
  "sizeof_heap_free_area = 12"

definition HEAP_ADJUST_SIZE :: "nat \<Rightarrow> nat" where
  "HEAP_ADJUST_SIZE sz = round_down HEAP_GRANULARITY (sz_add sz (HEAP_GRANULARITY - 1))"

definition HEAP_MIN_SIZE :: nat where
  "HEAP_MIN_SIZE = HEAP_ADJUST_SIZE sizeof_heap_free_area"

definition HEAP_MIN_FREE_AREA_SIZE :: nat where
  "HEAP_MIN_FREE_AREA_SIZE = HEAP_ADJUST_SIZE (sizeof_heap_free_area + 32)"

record heap_state =
  hmem :: "addr \<Rightarrow> nat"
  heap :: addr

text \<open>Reading and writing the fields of the descriptor at \<open>fa\<close>.\<close>

definition fa_size :: "heap_state \<Rightarrow> addr \<Rightarrow> nat" where
  "fa_size s fa = hmem s fa"

definition fa_next :: "heap_state \<Rightarrow> addr \<Rightarrow> addr" where
  "fa_next s fa = hmem s (fa + 4)"

definition fa_prev :: "heap_state \<Rightarrow> addr \<Rightarrow> addr" where
  "fa_prev s fa = hmem s (fa + 8)"

definition set_size :: "addr \<Rightarrow> nat \<Rightarrow> heap_state \<Rightarrow> heap_state" where
  "set_size fa v s = s\<lparr>hmem := (hmem s)(fa := v)\<rparr>"

definition set_next :: "addr \<Rightarrow> addr \<Rightarrow> heap_state \<Rightarrow> heap_state" where
  "set_next fa v s = s\<lparr>hmem := (hmem s)(fa + 4 := v)\<rparr>"

definition set_prev :: "addr \<Rightarrow> addr \<Rightarrow> heap_state \<Rightarrow> heap_state" where
  "set_prev fa v s = s\<lparr>hmem := (hmem s)(fa + 8 := v)\<rparr>"

definition HEAP_FREE_AREA_END :: "addr \<Rightarrow> addr" where
  "HEAP_FREE_AREA_END fa = fa + sizeof_heap_free_area"

definition HEAP_FREE_AREA_START :: "heap_state \<Rightarrow> addr \<Rightarrow> addr" where
  "HEAP_FREE_AREA_START s fa = fa + sizeof_heap_free_area - fa_size s fa"

definition heap_delete :: "addr \<Rightarrow> heap_state \<Rightarrow> heap_state" where
  "heap_delete fa s =
     (let s1 = (if fa_next s fa \<noteq> 0 then set_prev (fa_next s fa) (fa_prev s fa) s else s)
      in if fa_prev s1 fa \<noteq> 0 then set_next (fa_prev s1 fa) (fa_next s1 fa) s1
         else s1\<lparr>heap := fa_next s1 fa\<rparr>)"

definition heap_link_free_area :: "addr \<Rightarrow> addr \<Rightarrow> addr \<Rightarrow> heap_state \<Rightarrow> heap_state" where
  "heap_link_free_area fa prev next s =
     (let s1 = set_next fa next s;
          s2 = set_prev fa prev s1;
          s3 = (if prev \<noteq> 0 then set_next prev fa s2 else s2\<lparr>heap := fa\<rparr>)
      in if next \<noteq> 0 then set_prev next fa s3 else s3)"

definition heap_link_free_area_after :: "addr \<Rightarrow> addr \<Rightarrow> heap_state \<Rightarrow> heap_state" where
  "heap_link_free_area_after fa prev s =
     (let s1 = (if prev \<noteq> 0 then set_next prev fa s else s\<lparr>heap := fa\<rparr>)
      in set_prev fa prev s1)"

definition heap_add_free_area ::
  "addr \<Rightarrow> nat \<Rightarrow> addr \<Rightarrow> addr \<Rightarrow> heap_state \<Rightarrow> addr \<times> heap_state" where
  "heap_add_free_area mem sz prev next s =
     (let fa = mem + sz - sizeof_heap_free_area;
          s1 = set_size fa sz s
      in (fa, heap_link_free_area fa prev next s1))"

definition heap_free_area_alloc :: "addr \<Rightarrow> nat \<Rightarrow> heap_state \<Rightarrow> nat \<times> heap_state" where
  "heap_free_area_alloc fa sz s =
     (let fa_sz = fa_size s fa
      in if fa_sz < sz_add sz HEAP_MIN_FREE_AREA_SIZE
         then (fa_sz, heap_delete fa s)
         else (sz, set_size fa (fa_sz - sz) s))"

text \<open>\<open>__heap_alloc\<close>: the search loop, then the whole function. The pair is the block
  (0 when there is none) and the updated \<open>*size\<close>.\<close>

partial_function (option) heap_alloc_loop ::
  "nat \<Rightarrow> addr \<Rightarrow> heap_state \<Rightarrow> (addr \<times> nat \<times> heap_state) option" where
  [code]: "heap_alloc_loop sz fa s =
     (if fa = 0 then Some (0, 0, s)
      else if fa_size s fa \<ge> sz then
        (let (n, s') = heap_free_area_alloc fa sz s
         in Some (HEAP_FREE_AREA_START s fa, n, s'))
      else heap_alloc_loop sz (fa_next s fa) s)"

definition heap_alloc :: "nat \<Rightarrow> heap_state \<Rightarrow> (addr \<times> nat \<times> heap_state) option" where
  "heap_alloc req s =
     (let sz0 = HEAP_ADJUST_SIZE req;
          sz = (if sz0 < sizeof_heap_free_area then HEAP_ADJUST_SIZE sizeof_heap_free_area else sz0)
      in case heap_alloc_loop sz (heap s) s of
           None \<Rightarrow> None
         | Some (mem, n, s') \<Rightarrow> Some (mem, (if mem = 0 then req else n), s'))"

partial_function (option) heap_alloc_at_loop ::
  "addr \<Rightarrow> nat \<Rightarrow> addr \<Rightarrow> heap_state \<Rightarrow> (nat \<times> heap_state) option" where
  [code]: "heap_alloc_at_loop mem sz fa s =
     (if fa = 0 then Some (0, s)
      else if HEAP_FREE_AREA_START s fa \<le> mem then
        (if HEAP_FREE_AREA_START s fa = mem \<and> fa_size s fa \<ge> sz
         then Some (heap_free_area_alloc fa sz s)
         else Some (0, s))
      else heap_alloc_at_loop mem sz (fa_next s fa) s)"

definition heap_alloc_at :: "addr \<Rightarrow> nat \<Rightarrow> heap_state \<Rightarrow> (nat \<times> heap_state) option" where
  "heap_alloc_at mem sz s = heap_alloc_at_loop mem (HEAP_ADJUST_SIZE sz) (heap s) s"

text \<open>\<open>__heap_free\<close>: the loop finds the position (\<open>prev_fa\<close>, \<open>fa\<close>) in the list.\<close>

partial_function (option) heap_free_find ::
  "addr \<Rightarrow> addr \<Rightarrow> addr \<Rightarrow> heap_state \<Rightarrow> (addr \<times> addr) option" where
  [code]: "heap_free_find mem prev_fa fa s =
     (if fa = 0 then Some (prev_fa, fa)
      else if HEAP_FREE_AREA_END fa \<ge> mem then Some (prev_fa, fa)
      else heap_free_find mem fa (fa_next s fa) s)"

definition heap_free_merge ::
  "addr \<Rightarrow> nat \<Rightarrow> addr \<Rightarrow> addr \<Rightarrow> heap_state \<Rightarrow> addr \<times> heap_state" where
  "heap_free_merge mem sz prev_fa fa s =
     (let end = mem + sz;
          new = fa_size s fa + sz
      in if HEAP_FREE_AREA_START s fa = end then
           (if prev_fa \<noteq> 0 \<and> mem = HEAP_FREE_AREA_END prev_fa then
              (let new' = new + fa_size s prev_fa;
                   s1 = heap_link_free_area_after fa (fa_prev s prev_fa) s
               in (fa, set_size fa new' s1))
            else (fa, set_size fa new s))
         else
           (let next_fa = fa_next s fa
            in if next_fa \<noteq> 0 \<and> end = HEAP_FREE_AREA_START s next_fa then
                 (let new' = new + fa_size s next_fa;
                      s1 = heap_link_free_area_after next_fa prev_fa s
                  in (next_fa, set_size next_fa new' s1))
               else
                 (let fa' = fa + sz;
                      s1 = heap_link_free_area fa' prev_fa next_fa s
                  in (fa', set_size fa' new s1))))"

definition heap_free :: "addr \<Rightarrow> nat \<Rightarrow> heap_state \<Rightarrow> (addr \<times> heap_state) option" where
  "heap_free mem sz s =
     (case heap_free_find mem 0 (heap s) s of
        None \<Rightarrow> None
      | Some (prev_fa, fa) \<Rightarrow>
          Some (if fa \<noteq> 0 \<and> HEAP_FREE_AREA_START s fa \<le> mem + sz
                then heap_free_merge mem sz prev_fa fa s
                else heap_add_free_area mem sz prev_fa fa s))"

section \<open>The abstract heap\<close>

text \<open>A free area is a pair of its start and its size; \<open>USER_TOP\<close> bounds user addresses (the
  last page of the address space is never mapped, so \<open>MAP_FAILED\<close> is no address).\<close>

type_synonym area = "nat \<times> nat"

definition USER_TOP :: nat where
  "USER_TOP = 2 ^ 32 - 4096"

definition area_ok :: "area \<Rightarrow> bool" where
  "area_ok a \<longleftrightarrow> 0 < fst a \<and> 8 dvd fst a \<and> 8 dvd snd a \<and> HEAP_MIN_SIZE \<le> snd a
     \<and> fst a + snd a \<le> USER_TOP"

definition before :: "area \<Rightarrow> area \<Rightarrow> bool" where
  "before a b \<longleftrightarrow> fst a + snd a < fst b"

definition areas_ok :: "area list \<Rightarrow> bool" where
  "areas_ok xs \<longleftrightarrow> (\<forall>a \<in> set xs. area_ok a) \<and> sorted_wrt before xs"

definition region :: "area \<Rightarrow> addr set" where
  "region a = {fst a ..< fst a + snd a}"

definition regions :: "area list \<Rightarrow> addr set" where
  "regions xs = (\<Union>a \<in> set xs. region a)"

text \<open>The descriptor of an area is at its end; a list of areas is linked in memory between the
  pointers \<open>pv\<close> and \<open>nx\<close>.\<close>

definition desc :: "area \<Rightarrow> addr" where
  "desc a = fst a + snd a - sizeof_heap_free_area"

fun ptr :: "area list \<Rightarrow> addr \<Rightarrow> addr" where
  "ptr [] nx = nx"
| "ptr (a # xs) nx = desc a"

fun lastp :: "addr \<Rightarrow> area list \<Rightarrow> addr" where
  "lastp pv [] = pv"
| "lastp pv (a # xs) = lastp (desc a) xs"

fun linked :: "heap_state \<Rightarrow> addr \<Rightarrow> area list \<Rightarrow> addr \<Rightarrow> bool" where
  "linked s pv [] nx = True"
| "linked s pv (a # xs) nx =
     (fa_size s (desc a) = snd a \<and> fa_prev s (desc a) = pv \<and> fa_next s (desc a) = ptr xs nx
      \<and> linked s (desc a) xs nx)"

definition heap_rep :: "heap_state \<Rightarrow> area list \<Rightarrow> bool" where
  "heap_rep s xs \<longleftrightarrow> heap s = ptr xs 0 \<and> linked s 0 xs 0 \<and> areas_ok xs"

text \<open>First fit, and the insertion that coalesces the freed block with its neighbours.\<close>

fun alloc_list :: "nat \<Rightarrow> area list \<Rightarrow> (addr \<times> nat \<times> area list) option" where
  "alloc_list sz [] = None"
| "alloc_list sz ((st, n) # xs) =
     (if sz \<le> n then
        (if n < sz + HEAP_MIN_FREE_AREA_SIZE then Some (st, n, xs)
         else Some (st, sz, (st + sz, n - sz) # xs))
      else (case alloc_list sz xs of
              None \<Rightarrow> None
            | Some (m, k, ys) \<Rightarrow> Some (m, k, (st, n) # ys)))"

fun free_list :: "addr \<Rightarrow> nat \<Rightarrow> area list \<Rightarrow> area list" where
  "free_list m n [] = [(m, n)]"
| "free_list m n ((st, sz) # xs) =
     (if st + sz < m then (st, sz) # free_list m n xs
      else if st + sz = m then
        (case xs of
           [] \<Rightarrow> [(st, sz + n)]
         | (st2, sz2) # ys \<Rightarrow>
             if m + n = st2 then (st, sz + n + sz2) # ys else (st, sz + n) # xs)
      else if m + n = st then (m, n + sz) # xs
      else (m, n) # (st, sz) # xs)"

text \<open>\<open>frame A s t\<close>: every word outside \<open>A\<close> is the same in \<open>s\<close> and \<open>t\<close>.\<close>

definition frame :: "addr set \<Rightarrow> heap_state \<Rightarrow> heap_state \<Rightarrow> bool" where
  "frame A s s' \<longleftrightarrow> (\<forall>w. w \<notin> A \<longrightarrow> hmem s' w = hmem s w)"

text \<open>The size \<open>__heap_alloc\<close> looks for: the request rounded up, and at least a descriptor.\<close>

definition alloc_size :: "nat \<Rightarrow> nat" where
  "alloc_size req = max HEAP_MIN_SIZE (HEAP_ADJUST_SIZE req)"

section \<open>Memory lemmas\<close>

lemma HEAP_consts [simp]:
  "sizeof_heap_free_area = 12" "HEAP_GRANULARITY = 8" "HEAP_MIN_SIZE = 16"
  "HEAP_MIN_FREE_AREA_SIZE = 48"
  by (simp_all add: HEAP_MIN_SIZE_def HEAP_MIN_FREE_AREA_SIZE_def HEAP_ADJUST_SIZE_def
      sizeof_heap_free_area_def HEAP_GRANULARITY_def round_down_def sz_add_def)

lemma area_ok_desc:
  assumes "area_ok a"
  shows "desc a \<noteq> 0" "desc a + 12 = fst a + snd a" "fst a + 4 \<le> desc a" "desc a mod 8 = 4"
proof -
  have sz: "16 \<le> snd a" and al: "8 dvd fst a" "8 dvd snd a"
    using assms by (auto simp: area_ok_def)
  then show *: "desc a + 12 = fst a + snd a" by (simp add: desc_def)
  show "desc a \<noteq> 0" "fst a + 4 \<le> desc a" using * sz by linarith+
  have "8 dvd desc a + 12" using al by (simp add: *)
  then show "desc a mod 8 = 4" by presburger
qed

lemma field_simps_heap [heap_defs]:
  "fa_size (set_size x v s) y = (if x = y then v else fa_size s y)"
  "fa_size (set_next x v s) y = (if x + 4 = y then v else fa_size s y)"
  "fa_size (set_prev x v s) y = (if x + 8 = y then v else fa_size s y)"
  "fa_next (set_size x v s) y = (if x = y + 4 then v else fa_next s y)"
  "fa_next (set_next x v s) y = (if x = y then v else fa_next s y)"
  "fa_next (set_prev x v s) y = (if x + 4 = y then v else fa_next s y)"
  "fa_prev (set_size x v s) y = (if x = y + 8 then v else fa_prev s y)"
  "fa_prev (set_next x v s) y = (if x = y + 4 then v else fa_prev s y)"
  "fa_prev (set_prev x v s) y = (if x = y then v else fa_prev s y)"
  "fa_size (s\<lparr>heap := h\<rparr>) y = fa_size s y"
  "fa_next (s\<lparr>heap := h\<rparr>) y = fa_next s y"
  "fa_prev (s\<lparr>heap := h\<rparr>) y = fa_prev s y"
  by (auto simp: fa_size_def fa_next_def fa_prev_def set_size_def set_next_def set_prev_def)

lemma heap_field_simps [simp]:
  "heap (set_size x v s) = heap s" "heap (set_next x v s) = heap s" "heap (set_prev x v s) = heap s"
  "hmem (set_size x v s) = (hmem s)(x := v)" "hmem (set_next x v s) = (hmem s)(x + 4 := v)"
  "hmem (set_prev x v s) = (hmem s)(x + 8 := v)"
  by (simp_all add: set_size_def set_next_def set_prev_def)

lemma linked_append:
  "linked s pv (xs @ ys) nx \<longleftrightarrow> linked s pv xs (ptr ys nx) \<and> linked s (lastp pv xs) ys nx"
proof (induction xs arbitrary: pv)
  case Nil
  then show ?case by simp
next
  case (Cons a xs)
  have "ptr (xs @ ys) nx = ptr xs (ptr ys nx)" by (cases xs) simp_all
  with Cons show ?case by auto
qed

lemma lastp_append [simp]: "lastp pv (xs @ [a]) = desc a"
  by (induction xs arbitrary: pv) simp_all

lemma ptr_append: "ptr (xs @ ys) nx = ptr xs (ptr ys nx)"
  by (cases xs) simp_all

text \<open>The chain only reads the descriptors of its areas.\<close>

lemma linked_cong:
  assumes "\<And>a. a \<in> set xs \<Longrightarrow> hmem s' (desc a) = hmem s (desc a)
     \<and> hmem s' (desc a + 4) = hmem s (desc a + 4) \<and> hmem s' (desc a + 8) = hmem s (desc a + 8)"
  shows "linked s' pv xs nx = linked s pv xs nx"
  using assms
  by (induction xs arbitrary: pv) (simp_all add: fa_size_def fa_next_def fa_prev_def)

lemma area_words_in_region:
  assumes "area_ok a"
  shows "desc a \<in> region a" "desc a + 4 \<in> region a" "desc a + 8 \<in> region a"
  using area_ok_desc [OF assms] by (auto simp: region_def)

lemma linked_frame:
  assumes "linked s pv xs nx" "\<forall>a \<in> set xs. area_ok a"
    and "\<And>w. w \<in> regions xs \<Longrightarrow> hmem s' w = hmem s w"
  shows "linked s' pv xs nx"
proof -
  have "hmem s' w = hmem s w" if "a \<in> set xs" "w \<in> region a" for a w
    using assms(3) that by (auto simp: regions_def)
  with assms(1,2) show ?thesis
    by (subst linked_cong [where s = s]) (auto simp: area_words_in_region)
qed

lemma regions_simps [simp]:
  "regions [] = {}" "regions (a # xs) = region a \<union> regions xs"
  "regions (xs @ ys) = regions xs \<union> regions ys"
  by (auto simp: regions_def)

lemma areas_ok_append:
  "areas_ok (xs @ ys) \<longleftrightarrow> areas_ok xs \<and> areas_ok ys \<and> (\<forall>x \<in> set xs. \<forall>y \<in> set ys. before x y)"
  by (auto simp: areas_ok_def sorted_wrt_append)

lemma areas_ok_Cons:
  "areas_ok (a # ys) \<longleftrightarrow> area_ok a \<and> areas_ok ys \<and> (\<forall>y \<in> set ys. before a y)"
  by (auto simp: areas_ok_def)

lemma areas_ok_area_ok: "areas_ok xs \<Longrightarrow> a \<in> set xs \<Longrightarrow> area_ok a"
  by (simp add: areas_ok_def)

lemma before_region_disjoint: "before a b \<Longrightarrow> region a \<inter> region b = {}"
  by (auto simp: before_def region_def)

lemma areas_ok_Nil [simp]: "areas_ok []"
  by (simp add: areas_ok_def)

lemma frame_refl [simp]: "frame A s s"
  by (simp add: frame_def)

lemma frame_trans: "frame A s t \<Longrightarrow> frame B t u \<Longrightarrow> A \<union> B \<subseteq> C \<Longrightarrow> frame C s u"
  unfolding frame_def by (metis UnI1 UnI2 subset_iff)

lemma frame_mono: "frame A s t \<Longrightarrow> A \<subseteq> B \<Longrightarrow> frame B s t"
  by (auto simp: frame_def)

lemma frame_heap [simp]: "frame A s (t\<lparr>heap := h\<rparr>) = frame A s t"
  by (simp add: frame_def)

lemma linked_heap [simp]: "linked (s\<lparr>heap := h\<rparr>) pv xs nx = linked s pv xs nx"
  by (rule linked_cong) simp

lemma frame_set:
  assumes "area_ok b"
  shows "frame (region b) s (set_size (desc b) v s)" "frame (region b) s (set_next (desc b) v s)"
    "frame (region b) s (set_prev (desc b) v s)"
  using area_words_in_region [OF assms] by (auto simp: frame_def)

lemma linked_frame':
  assumes "linked s pv xs nx" "areas_ok xs" "frame A s s'" "A \<inter> regions xs = {}"
  shows "linked s' pv xs nx"
  using assms(1) by (rule linked_frame) (use assms in \<open>auto simp: areas_ok_def frame_def\<close>)

lemma areas_ok_disjoint:
  assumes "areas_ok (xs @ ys)"
  shows "regions xs \<inter> regions ys = {}"
  using assms before_region_disjoint by (fastforce simp: areas_ok_append regions_def)

lemma linked_set_prev_hd:
  assumes "linked s pv (b # qs) nx" "areas_ok (b # qs)"
  shows "linked (set_prev (desc b) v s) v (b # qs) nx"
proof -
  have b: "area_ok b" and q: "areas_ok qs" and d: "region b \<inter> regions qs = {}"
    using assms(2) areas_ok_disjoint [of "[b]" qs] by (auto simp: areas_ok_Cons)
  then have "linked (set_prev (desc b) v s) (desc b) qs nx"
    using linked_frame' [OF _ q frame_set(3) [OF b] d] assms(1) by simp
  then show ?thesis using assms(1) by (simp add: heap_defs)
qed

lemma linked_set_next_last:
  assumes "linked s pv (ps @ [b]) nx" "areas_ok (ps @ [b])"
  shows "linked (set_next (desc b) v s) pv (ps @ [b]) v"
proof -
  have b: "area_ok b" and p: "areas_ok ps" and d: "region b \<inter> regions ps = {}"
    using assms(2) areas_ok_disjoint [of ps "[b]"] by (auto simp: areas_ok_append areas_ok_Cons)
  then have "linked (set_next (desc b) v s) pv ps (desc b)"
    using linked_frame' [OF _ p frame_set(2) [OF b] d] assms(1) by (simp add: linked_append)
  then show ?thesis using assms(1) by (simp add: linked_append heap_defs)
qed

lemma heap_rep_split:
  assumes "heap_rep s (ps @ a # qs)"
  shows "areas_ok ps" "areas_ok qs" "area_ok a" "areas_ok (ps @ qs)" "areas_ok (a # qs)" "areas_ok (ps @ [a])"
    "linked s 0 ps (desc a)" "linked s (desc a) qs 0" "fa_size s (desc a) = snd a"
    "fa_prev s (desc a) = lastp 0 ps" "fa_next s (desc a) = ptr qs 0"
    "heap s = ptr ps (desc a)"
    "region a \<inter> regions qs = {}" "region a \<inter> regions ps = {}" "regions ps \<inter> regions qs = {}"
  using assms areas_ok_disjoint [of ps "a # qs"] areas_ok_disjoint [of "[a]" qs]
  by (auto simp: heap_rep_def areas_ok_append areas_ok_Cons linked_append ptr_append)

lemma heap_repI:
  assumes "heap s = ptr ps (ptr qs 0)" "linked s 0 ps (ptr qs 0)" "linked s (lastp 0 ps) qs 0"
    "areas_ok (ps @ qs)"
  shows "heap_rep s (ps @ qs)"
  using assms by (simp add: heap_rep_def linked_append ptr_append)

text \<open>Relinking the two ends of a cut list: the common core of \<open>__heap_delete\<close> and the merges.\<close>

lemma relink_prev:
  assumes "linked s pv ps nx" "linked s pv' qs 0" "areas_ok (ps @ qs)"
    and t: "t = (if ptr qs 0 \<noteq> 0 then set_prev (ptr qs 0) v s else s)"
  shows "linked t pv ps nx" "linked t v qs 0" "heap t = heap s" "frame (regions qs) s t"
proof -
  have ok: "areas_ok ps" "areas_ok qs" and d: "regions ps \<inter> regions qs = {}"
    using assms(3) areas_ok_disjoint by (auto simp: areas_ok_append)
  show fr: "frame (regions qs) s t"
  proof (cases qs)
    case Nil
    then show ?thesis by (simp add: t)
  next
    case (Cons b qs')
    then have b: "area_ok b" using ok by (simp add: areas_ok_Cons)
    show ?thesis using frame_set(3) [OF b] by (auto simp: t Cons intro: frame_mono)
  qed
  show "heap t = heap s" by (simp add: t)
  show "linked t pv ps nx" using linked_frame' [OF assms(1) ok(1) fr] d by auto
  show "linked t v qs 0"
  proof (cases qs)
    case (Cons b qs')
    then have "area_ok b" using ok by (simp add: areas_ok_Cons)
    then have "t = set_prev (desc b) v s" using area_ok_desc(1) by (simp add: t Cons)
    then show ?thesis using linked_set_prev_hd [of s pv' b qs' 0 v] assms(2) ok(2) Cons by metis
  qed simp
qed

lemma relink_next:
  assumes "linked s 0 ps nx" "linked s pv qs 0" "areas_ok (ps @ qs)" "heap s = ptr ps nx"
    and t: "t = (if lastp 0 ps \<noteq> 0 then set_next (lastp 0 ps) v s else s\<lparr>heap := v\<rparr>)"
  shows "linked t 0 ps v" "linked t pv qs 0" "heap t = ptr ps v" "frame (regions ps) s t"
proof -
  have ok: "areas_ok ps" "areas_ok qs" and d: "regions ps \<inter> regions qs = {}"
    using assms(3) areas_ok_disjoint by (auto simp: areas_ok_append)
  have "(ps = [] \<and> t = s\<lparr>heap := v\<rparr>) \<or> (\<exists>ps' b. ps = ps' @ [b] \<and> area_ok b \<and> t = set_next (desc b) v s)"
    (is "?N \<or> ?S")
  proof (cases ps rule: rev_cases)
    case (snoc ps' b)
    then have "area_ok b" using ok by (simp add: areas_ok_append areas_ok_Cons)
    then show ?thesis using area_ok_desc(1) by (simp add: t snoc)
  qed (simp add: t)
  then show "linked t 0 ps v" "heap t = ptr ps v" "frame (regions ps) s t"
    using assms(1,4) linked_set_next_last ok(1)
    by (auto simp: ptr_append intro: frame_mono [OF frame_set(2)])
  then show "linked t pv qs 0" using linked_frame' [OF assms(2) ok(2)] d by blast
qed

lemma heap_delete_rep:
  assumes "heap_rep s (ps @ a # qs)"
  shows "heap_rep (heap_delete (desc a) s) (ps @ qs)"
    "frame (regions (ps @ qs)) s (heap_delete (desc a) s)"
proof -
  note sp = heap_rep_split [OF assms]
  define s1 where "s1 = (if ptr qs 0 \<noteq> 0 then set_prev (ptr qs 0) (lastp 0 ps) s else s)"
  note r1 = relink_prev [OF sp(7,8) sp(4) s1_def]
  have a1: "fa_prev s1 (desc a) = lastp 0 ps" "fa_next s1 (desc a) = ptr qs 0"
    using r1(4) sp(10,11,13) area_words_in_region [OF sp(3)]
    by (auto simp: fa_prev_def fa_next_def frame_def)
  define s2 where "s2 = (if lastp 0 ps \<noteq> 0 then set_next (lastp 0 ps) (ptr qs 0) s1
     else s1\<lparr>heap := ptr qs 0\<rparr>)"
  have h: "heap s1 = ptr ps (desc a)" using r1(3) sp(12) by simp
  note r2 = relink_next [OF r1(1,2) sp(4) h s2_def]
  have s1: "(if fa_next s (desc a) \<noteq> 0 then set_prev (fa_next s (desc a)) (fa_prev s (desc a)) s
     else s) = s1"
    by (simp only: s1_def sp(10,11))
  have eq: "heap_delete (desc a) s = s2"
    unfolding heap_delete_def Let_def s1 a1 s2_def ..
  show "heap_rep (heap_delete (desc a) s) (ps @ qs)"
    using r2(1-3) sp(4) by (auto simp: eq intro!: heap_repI)
  show "frame (regions (ps @ qs)) s (heap_delete (desc a) s)"
    unfolding eq using r1(4) r2(4) by (rule frame_trans) auto
qed

lemma set_size_rep:
  assumes "heap_rep s (ps @ a # qs)" "desc b = desc a" "areas_ok (ps @ b # qs)"
  shows "heap_rep (set_size (desc a) (snd b) s) (ps @ b # qs)"
    "frame (region b) s (set_size (desc a) (snd b) s)"
proof -
  note sp = heap_rep_split [OF assms(1)]
  have b: "area_ok b" using assms(3) by (simp add: areas_ok_append areas_ok_Cons)
  have d: "region b \<inter> regions ps = {}" "region b \<inter> regions qs = {}"
    using areas_ok_disjoint [of ps "b # qs"] areas_ok_disjoint [of "[b]" qs] assms(3)
    by (auto simp: areas_ok_append areas_ok_Cons)
  let ?t = "set_size (desc a) (snd b) s"
  show fr: "frame (region b) s ?t" using frame_set(1) [OF b] by (simp add: assms(2))
  have "linked ?t 0 ps (desc b)" "linked ?t (desc b) qs 0"
    using linked_frame' [OF sp(7) sp(1) fr d(1)] linked_frame' [OF sp(8) sp(2) fr d(2)]
    by (simp_all add: assms(2))
  moreover have "fa_size ?t (desc b) = snd b" "fa_prev ?t (desc b) = lastp 0 ps"
    "fa_next ?t (desc b) = ptr qs 0"
    using sp(9-11) by (simp_all add: heap_defs assms(2))
  ultimately show "heap_rep ?t (ps @ b # qs)"
    using sp(12) assms(2,3) by (intro heap_repI) simp_all
qed

section \<open>Allocation\<close>

lemma alloc_list_Some:
  assumes "alloc_list sz xs = Some (m, n, ys)" "areas_ok xs" "16 \<le> sz" "8 dvd sz"
  shows "sz \<le> n \<and> n < sz + 48 \<and> area_ok (m, n) \<and> areas_ok ys \<and> regions xs = region (m, n) \<union> regions ys
    \<and> region (m, n) \<inter> regions ys = {} \<and> (\<forall>y \<in> set ys. \<exists>x \<in> set xs. fst x \<le> fst y)"
  using assms
proof (induction sz xs arbitrary: m n ys rule: alloc_list.induct)
  case (2 sz st k xs)
  have ok: "area_ok (st, k)" "areas_ok xs" "\<forall>x \<in> set xs. before (st, k) x"
    using "2.prems"(2) by (auto simp: areas_ok_Cons)
  have dj: "region (st, k) \<inter> regions xs = {}"
    using areas_ok_disjoint [of "[(st, k)]" xs] "2.prems"(2) by simp
  show ?case
  proof (cases "sz \<le> k")
    case True
    show ?thesis
    proof (cases "k < sz + 48")
      case T: True
      then show ?thesis using "2.prems" True ok dj by auto
    next
      case False
      then have eq: "m = st" "n = sz" "ys = (st + sz, k - sz) # xs"
        using "2.prems"(1) True by auto
      have "region (st, k) = region (st, sz) \<union> region (st + sz, k - sz)"
        "region (st, sz) \<inter> region (st + sz, k - sz) = {}"
        using False by (auto simp: region_def)
      moreover have "area_ok (st, sz)" "area_ok (st + sz, k - sz)"
        using ok(1) "2.prems"(3,4) False by (auto simp: area_ok_def)
      moreover have "\<forall>x \<in> set xs. before (st + sz, k - sz) x"
        using ok(3) True by (auto simp: before_def)
      ultimately show ?thesis using ok dj by (auto simp: eq areas_ok_Cons)
    qed
  next
    case False
    then obtain zs where zs: "alloc_list sz xs = Some (m, n, zs)" "ys = (st, k) # zs"
      using "2.prems"(1) by (auto split: option.splits)
    note IH = "2.IH" [OF False zs(1) ok(2) "2.prems"(3,4)]
    have "\<forall>y \<in> set zs. before (st, k) y"
      using IH ok(3) by (fastforce simp: before_def)
    then show ?thesis using IH ok dj by (auto simp: zs(2) areas_ok_Cons)
  qed
qed simp

lemma alloc_list_None: "alloc_list sz xs = None \<longleftrightarrow> (\<forall>a \<in> set xs. snd a < sz)"
  by (induction sz xs rule: alloc_list.induct) (auto split: option.splits)

lemma USER_TOP_bound: "area_ok a \<Longrightarrow> snd a + 48 < 2 ^ 32" "USER_TOP < 2 ^ 32"
  by (auto simp: area_ok_def USER_TOP_def)

lemma heap_alloc_loop_sim:
  assumes "heap_rep s (ps @ qs)" "16 \<le> sz" "8 dvd sz"
  shows "case alloc_list sz qs of
      None \<Rightarrow> heap_alloc_loop sz (ptr qs 0) s = Some (0, 0, s)
    | Some (m, n, ys) \<Rightarrow> \<exists>s'. heap_alloc_loop sz (ptr qs 0) s = Some (m, n, s')
        \<and> heap_rep s' (ps @ ys) \<and> frame (regions (ps @ ys)) s s'"
  using assms
proof (induction sz qs arbitrary: ps rule: alloc_list.induct)
  case (1 sz)
  then show ?case by (simp add: heap_alloc_loop.simps)
next
  case (2 sz st k xs)
  let ?a = "(st, k)"
  note sp = heap_rep_split [OF "2.prems"(1)]
  note d = area_ok_desc [OF sp(3)]
  have unf: "heap_alloc_loop sz (ptr (?a # xs) 0) s = (if sz \<le> k then
      (let (n, s') = heap_free_area_alloc (desc ?a) sz s in Some (st, n, s'))
      else heap_alloc_loop sz (ptr xs 0) s)"
    using d(1,2) sp(9,11)
    by (simp add: heap_alloc_loop.simps [of sz "desc ?a" s] HEAP_FREE_AREA_START_def)
  show ?case
  proof (cases "sz \<le> k")
    case True
    have add: "sz_add sz 48 = sz + 48"
      using USER_TOP_bound(1) [OF sp(3)] True by (intro sz_add_less) simp
    show ?thesis
    proof (cases "k < sz + 48")
      case T: True
      then have "heap_free_area_alloc (desc ?a) sz s = (k, heap_delete (desc ?a) s)"
        using sp(9) by (simp add: heap_free_area_alloc_def add)
      then show ?thesis using unf True T heap_delete_rep [OF "2.prems"(1)] by simp
    next
      case False
      let ?b = "(st + sz, k - sz)"
      have al: "alloc_list sz (?a # xs) = Some (st, sz, ?b # xs)" using True False by simp
      have "areas_ok (ps @ ?b # xs)"
        using alloc_list_Some [OF al sp(5) "2.prems"(2,3)] "2.prems"(1) True
        by (auto simp: heap_rep_def areas_ok_append areas_ok_Cons before_def)
      moreover have "desc ?b = desc ?a" using True by (simp add: desc_def)
      moreover have "heap_free_area_alloc (desc ?a) sz s = (sz, set_size (desc ?a) (snd ?b) s)"
        using sp(9) False by (simp add: heap_free_area_alloc_def add)
      ultimately show ?thesis
        using unf True al set_size_rep [OF "2.prems"(1), of ?b] by (auto intro: frame_mono)
    qed
  next
    case False
    have "heap_rep s ((ps @ [?a]) @ xs)" using "2.prems"(1) by simp
    from "2.IH" [OF False this "2.prems"(2,3)] show ?thesis
      using unf False by (auto split: option.splits)
  qed
qed

lemma HEAP_ADJUST_SIZE_dvd: "8 dvd HEAP_ADJUST_SIZE n"
  by (simp add: HEAP_ADJUST_SIZE_def round_down_dvd)

lemma HEAP_ADJUST_SIZE_ge: "n + 7 < 2 ^ 32 \<Longrightarrow> n \<le> HEAP_ADJUST_SIZE n"
  using round_up_ge [of 8 n] by (simp add: HEAP_ADJUST_SIZE_def sz_add_less)

lemma alloc_size_props:
  "16 \<le> alloc_size req" "8 dvd alloc_size req" "req + 7 < 2 ^ 32 \<Longrightarrow> req \<le> alloc_size req"
  using HEAP_ADJUST_SIZE_dvd [of req] HEAP_ADJUST_SIZE_ge [of req]
  by (auto simp: alloc_size_def max_def)

lemma alloc_size_code:
  "(if HEAP_ADJUST_SIZE req < sizeof_heap_free_area then HEAP_ADJUST_SIZE sizeof_heap_free_area
    else HEAP_ADJUST_SIZE req) = alloc_size req"
proof -
  have "HEAP_ADJUST_SIZE 12 = 16"
    by (simp add: HEAP_ADJUST_SIZE_def round_down_def sz_add_def)
  moreover have "12 \<le> HEAP_ADJUST_SIZE req \<Longrightarrow> 16 \<le> HEAP_ADJUST_SIZE req"
    using HEAP_ADJUST_SIZE_dvd [of req] by presburger
  ultimately show ?thesis by (auto simp: alloc_size_def)
qed

lemma heap_alloc_sim:
  assumes "heap_rep s xs"
  shows "case alloc_list (alloc_size req) xs of
      None \<Rightarrow> heap_alloc req s = Some (0, req, s)
    | Some (m, n, ys) \<Rightarrow> \<exists>s'. heap_alloc req s = Some (m, n, s') \<and> heap_rep s' ys \<and> frame (regions ys) s s'"
proof -
  have h: "heap s = ptr xs 0" using assms by (simp add: heap_rep_def)
  have "m \<noteq> 0" if "alloc_list (alloc_size req) xs = Some (m, n, ys)" for m n ys
    using alloc_list_Some [OF that] assms alloc_size_props by (auto simp: heap_rep_def area_ok_def)
  moreover have "heap_alloc req s = (case heap_alloc_loop (alloc_size req) (ptr xs 0) s of
      None \<Rightarrow> None | Some (m, n, s') \<Rightarrow> Some (m, (if m = 0 then req else n), s'))"
    by (simp only: heap_alloc_def Let_def alloc_size_code h)
  ultimately show ?thesis
    using heap_alloc_loop_sim [of s "[]" xs "alloc_size req"] assms alloc_size_props(1,2) [of req]
    by (auto split: option.splits)
qed

section \<open>Freeing\<close>

lemma free_list_append:
  "\<forall>p \<in> set ps. fst p + snd p < m \<Longrightarrow> free_list m n (ps @ qs) = ps @ free_list m n qs"
  by (induction ps) auto

lemma area_disjoint_cases:
  assumes "region a \<inter> region b = {}" "area_ok a" "area_ok b"
  shows "fst a + snd a \<le> fst b \<or> fst b + snd b \<le> fst a"
proof (rule ccontr)
  assume "\<not> ?thesis"
  then have "max (fst a) (fst b) \<in> region a \<inter> region b"
    using assms(2,3) by (auto simp: region_def area_ok_def max_def)
  with assms(1) show False by simp
qed

lemma region_join: "fst a + snd a = fst b \<Longrightarrow> region (fst a, snd a + snd b) = region a \<union> region b"
  by (auto simp: region_def)

lemma area_ok_join: "area_ok a \<Longrightarrow> area_ok b \<Longrightarrow> fst a + snd a = fst b \<Longrightarrow> area_ok (fst a, snd a + snd b)"
  by (auto simp: area_ok_def)

text \<open>The block right after an area (with its merge into the successor), and before one.\<close>

lemma free_list_after:
  assumes ok: "areas_ok (a # xs)" "area_ok (m, n)" and dj: "region (m, n) \<inter> regions xs = {}"
    and eq: "fst a + snd a = m"
  shows "areas_ok (free_list m n (a # xs)) \<and> regions (free_list m n (a # xs)) = region (m, n) \<union> regions (a # xs)
    \<and> (\<forall>y \<in> set (free_list m n (a # xs)). fst a \<le> fst y)"
proof -
  obtain st sz where a: "a = (st, sz)" by force
  have oka: "area_ok a" "areas_ok xs" "\<forall>x \<in> set xs. before a x" using ok(1) by (auto simp: areas_ok_Cons)
  have j: "area_ok (st, sz + n)" "region (st, sz + n) = region a \<union> region (m, n)"
    using area_ok_join [OF oka(1) ok(2)] region_join [of a "(m, n)"] eq a by auto
  show ?thesis
  proof (cases xs)
    case Nil
    then show ?thesis using eq j a by (auto simp: areas_ok_Cons)
  next
    case (Cons c ys)
    obtain st2 sz2 where c: "c = (st2, sz2)" by force
    have okc: "area_ok c" "areas_ok ys" "\<forall>y \<in> set ys. before c y"
      using oka(2) Cons by (auto simp: areas_ok_Cons)
    have le: "m + n \<le> st2"
      using area_disjoint_cases [of "(m, n)" c] dj okc(1) ok(2) oka(3) Cons c eq
      by (auto simp: before_def)
    show ?thesis
    proof (cases "m + n = st2")
      case True
      then have "area_ok (st, sz + n + sz2)"
          "region (st, sz + n + sz2) = region (st, sz + n) \<union> region c"
        using area_ok_join [OF j(1) okc(1)] region_join [of "(st, sz + n)" c] eq c a by auto
      moreover have "\<forall>y \<in> set ys. before (st, sz + n + sz2) y"
        using okc(3) eq True c a by (auto simp: before_def)
      ultimately show ?thesis using okc j eq True c Cons oka(3) a by (auto simp: areas_ok_Cons before_def)
    next
      case False
      then have "\<forall>y \<in> set xs. before (st, sz + n) y"
        using okc(3) eq c le Cons a by (auto simp: before_def)
      then show ?thesis using j oka eq False c Cons a by (auto simp: areas_ok_Cons before_def)
    qed
  qed
qed

lemma free_list_before:
  assumes ok: "areas_ok (a # xs)" "area_ok (m, n)" and le: "m + n \<le> fst a"
  shows "areas_ok (free_list m n (a # xs)) \<and> regions (free_list m n (a # xs)) = region (m, n) \<union> regions (a # xs)
    \<and> (\<forall>y \<in> set (free_list m n (a # xs)). m \<le> fst y)"
proof -
  have oka: "area_ok a" "areas_ok xs" "\<forall>x \<in> set xs. before a x" using ok(1) by (auto simp: areas_ok_Cons)
  have nlt: "\<not> fst a + snd a < m" "fst a + snd a \<noteq> m" using le oka(1) ok(2) by (auto simp: area_ok_def)
  show ?thesis
  proof (cases "m + n = fst a")
    case True
    then have "area_ok (m, n + snd a)" "region (m, n + snd a) = region (m, n) \<union> region a"
      using area_ok_join [OF ok(2) oka(1)] region_join [of "(m, n)" a] by auto
    moreover have "\<forall>y \<in> set xs. before (m, n + snd a) y" using oka(3) True by (auto simp: before_def)
    ultimately show ?thesis
      using oka True nlt by (cases a) (auto simp: areas_ok_Cons before_def)
  next
    case False
    then have "\<forall>y \<in> set (a # xs). before (m, n) y" using oka(3) le by (fastforce simp: before_def)
    then show ?thesis
      using oka False nlt ok(2) le by (cases a) (auto simp: areas_ok_Cons before_def)
  qed
qed

lemma free_list_props:
  assumes "areas_ok xs" "area_ok (m, n)" "region (m, n) \<inter> regions xs = {}"
  shows "areas_ok (free_list m n xs) \<and> regions (free_list m n xs) = region (m, n) \<union> regions xs
    \<and> (\<forall>y \<in> set (free_list m n xs). \<exists>x \<in> set ((m, n) # xs). fst x \<le> fst y)"
  using assms
proof (induction m n xs rule: free_list.induct)
  case (2 m n st sz xs)
  let ?a = "(st, sz)"
  have ok: "area_ok ?a" "areas_ok xs" "\<forall>x \<in> set xs. before ?a x"
    using "2.prems"(1) by (auto simp: areas_ok_Cons)
  have dj: "region (m, n) \<inter> region ?a = {}" "region (m, n) \<inter> regions xs = {}"
    using "2.prems"(3) by auto
  consider (lt) "st + sz < m" | (eq) "st + sz = m" | (gt) "m + n \<le> st"
    using area_disjoint_cases [OF dj(1) "2.prems"(2) ok(1)] by fastforce
  then show ?case
  proof cases
    case lt
    note IH = "2.IH" [OF lt ok(2) "2.prems"(2) dj(2)]
    have "\<forall>y \<in> set (free_list m n xs). before ?a y"
      using IH ok(3) lt by (fastforce simp: before_def)
    then show ?thesis using IH ok(1) lt by (auto simp: areas_ok_Cons)
  next
    case eq
    then show ?thesis using free_list_after [OF "2.prems"(1,2) dj(2)] by fastforce
  next
    case gt
    then show ?thesis using free_list_before [OF "2.prems"(1,2)] by fastforce
  qed
qed (auto simp: areas_ok_Cons)

lemma heap_free_find_sim:
  assumes "heap_rep s (ps @ qs)"
  shows "heap_free_find m (lastp 0 ps) (ptr qs 0) s =
    Some (lastp 0 (ps @ takeWhile (\<lambda>a. fst a + snd a < m) qs),
          ptr (dropWhile (\<lambda>a. fst a + snd a < m) qs) 0)"
  using assms
proof (induction qs arbitrary: ps)
  case Nil
  then show ?case by (simp add: heap_free_find.simps)
next
  case (Cons a qs)
  note sp = heap_rep_split [OF Cons.prems] and IH = Cons.IH [of "ps @ [a]"]
  show ?case
    using area_ok_desc(1,2) [OF sp(3)] sp(11) IH Cons.prems
    by (simp add: heap_free_find.simps [of m _ "desc a"] HEAP_FREE_AREA_END_def)
qed

text \<open>\<open>__heap_link_free_area\<close> puts a descriptor between two cut ends of the list.\<close>

lemma heap_link_sim:
  assumes "linked s 0 ps nx" "linked s pv qs 0" "heap s = ptr ps nx" "areas_ok (ps @ c # qs)"
    and t: "t = heap_link_free_area (desc c) (lastp 0 ps) (ptr qs 0) s"
  shows "heap_rep (set_size (desc c) (snd c) t) (ps @ c # qs)" "frame (regions (ps @ c # qs)) s t"
    "fa_size t (desc c) = fa_size s (desc c)"
proof -
  have ok: "areas_ok ps" "areas_ok qs" "area_ok c" "areas_ok (ps @ qs)"
    using assms(4) by (auto simp: areas_ok_append areas_ok_Cons)
  have d: "region c \<inter> regions ps = {}" "region c \<inter> regions qs = {}"
    using areas_ok_disjoint [of ps "c # qs"] areas_ok_disjoint [of "[c]" qs] assms(4)
    by (auto simp: areas_ok_append areas_ok_Cons)
  define s2 where "s2 = set_prev (desc c) (lastp 0 ps) (set_next (desc c) (ptr qs 0) s)"
  define s3 where "s3 = (if lastp 0 ps \<noteq> 0 then set_next (lastp 0 ps) (desc c) s2
     else s2\<lparr>heap := desc c\<rparr>)"
  have t': "t = (if ptr qs 0 \<noteq> 0 then set_prev (ptr qs 0) (desc c) s3 else s3)"
    by (simp only: t heap_link_free_area_def Let_def s2_def s3_def)
  have f2: "frame (region c) s s2"
    unfolding s2_def using frame_set(2,3) [OF ok(3)] by (rule frame_trans) auto
  note l2 = linked_frame' [OF assms(1) ok(1) f2 d(1)] linked_frame' [OF assms(2) ok(2) f2 d(2)]
  have h2: "heap s2 = ptr ps nx" using assms(3) by (simp add: s2_def)
  note r3 = relink_next [OF l2 ok(4) h2 s3_def]
  note r4 = relink_prev [OF r3(1,2) ok(4) t']
  have f24: "frame (regions ps \<union> regions qs) s2 t" using r3(4) r4(4) by (rule frame_trans) auto
  show "frame (regions (ps @ c # qs)) s t" using f2 f24 by (rule frame_trans) auto
  have w: "hmem t w = hmem s2 w" if "w \<in> region c" for w
    using f24 that d by (auto simp: frame_def)
  have eqs: "hmem t (desc c) = hmem s2 (desc c)" "hmem t (desc c + 4) = hmem s2 (desc c + 4)"
    "hmem t (desc c + 8) = hmem s2 (desc c + 8)"
    using w area_words_in_region [OF ok(3)] by auto
  show "fa_size t (desc c) = fa_size s (desc c)"
    using eqs(1) by (simp add: fa_size_def s2_def)
  let ?u = "set_size (desc c) (snd c) t"
  have f5: "frame (region c) t ?u" by (rule frame_set(1) [OF ok(3)])
  have "fa_prev ?u (desc c) = lastp 0 ps" "fa_next ?u (desc c) = ptr qs 0" "fa_size ?u (desc c) = snd c"
    using eqs by (simp_all add: fa_prev_def fa_next_def fa_size_def s2_def)
  then show "heap_rep ?u (ps @ c # qs)"
    using linked_frame' [OF r4(1) ok(1) f5 d(1)] linked_frame' [OF r4(2) ok(2) f5 d(2)]
      r3(3) r4(3) assms(4)
    by (intro heap_repI) simp_all
qed

lemma set_size_id: "fa_size s x = v \<Longrightarrow> set_size x v s = s"
  by (cases s) (auto simp: set_size_def fa_size_def)

lemma heap_add_sim:
  assumes "heap_rep s (ps @ qs)" "areas_ok (ps @ c # qs)"
    and "heap_add_free_area (fst c) (snd c) (lastp 0 ps) (ptr qs 0) s = (fa, t)"
  shows "heap_rep t (ps @ c # qs)" "frame (regions (ps @ c # qs)) s t" "fa = desc c"
proof -
  let ?s1 = "set_size (desc c) (snd c) s"
  have ok: "areas_ok ps" "areas_ok qs" "area_ok c" using assms(2) by (auto simp: areas_ok_append areas_ok_Cons)
  have d: "region c \<inter> regions ps = {}" "region c \<inter> regions qs = {}"
    using areas_ok_disjoint [of ps "c # qs"] areas_ok_disjoint [of "[c]" qs] assms(2)
    by (auto simp: areas_ok_append areas_ok_Cons)
  have r: "linked s 0 ps (ptr qs 0)" "linked s (lastp 0 ps) qs 0" "heap s = ptr ps (ptr qs 0)"
    using assms(1) by (auto simp: heap_rep_def linked_append ptr_append)
  have f: "frame (region c) s ?s1" by (rule frame_set(1) [OF ok(3)])
  note l = linked_frame' [OF r(1) ok(1) f d(1)] linked_frame' [OF r(2) ok(2) f d(2)]
  have t: "fa = desc c" "t = heap_link_free_area (desc c) (lastp 0 ps) (ptr qs 0) ?s1"
    using assms(3) by (auto simp: heap_add_free_area_def desc_def Let_def)
  then show "fa = desc c" by simp
  have h: "heap ?s1 = ptr ps (ptr qs 0)" using r(3) by simp
  note L = heap_link_sim [OF l h assms(2) t(2)]
  have "fa_size t (desc c) = snd c" using L(3) by (simp add: heap_defs)
  then show "heap_rep t (ps @ c # qs)" using L(1) by (simp add: set_size_id)
  show "frame (regions (ps @ c # qs)) s t" using f L(2) by (rule frame_trans) auto
qed

text \<open>Merging the block into the area that ends at its start, whose successor starts at its end.\<close>

lemma heap_merge_next_sim:
  assumes "heap_rep s (ps @ a # b # qs)" "areas_ok (ps @ c # qs)" "desc c = desc b"
    and "regions [a, b] \<subseteq> region c"
    and t: "t = set_size (desc b) (snd c) (heap_link_free_area_after (desc b) (lastp 0 ps) s)"
  shows "heap_rep t (ps @ c # qs)" "frame (regions (ps @ c # qs)) s t"
proof -
  note sp = heap_rep_split [OF assms(1)]
  have "heap_rep s ((ps @ [a]) @ b # qs)" using assms(1) by simp
  note sb = heap_rep_split [OF this]
  have ok: "areas_ok ps" "areas_ok qs" "area_ok c" "areas_ok (ps @ b # qs)"
    using assms(2) sp(4) by (auto simp: areas_ok_append areas_ok_Cons)
  have d: "region c \<inter> regions ps = {}" "region c \<inter> regions qs = {}"
    using areas_ok_disjoint [of ps "c # qs"] areas_ok_disjoint [of "[c]" qs] assms(2)
    by (auto simp: areas_ok_append areas_ok_Cons)
  define s1 where "s1 = (if lastp 0 ps \<noteq> 0 then set_next (lastp 0 ps) (desc b) s else s\<lparr>heap := desc b\<rparr>)"
  note r1 = relink_next [OF sp(7,8) ok(4) sp(12) s1_def]
  have t': "t = set_size (desc b) (snd c) (set_prev (desc b) (lastp 0 ps) s1)"
    by (simp only: t heap_link_free_area_after_def s1_def Let_def)
  have f2: "frame (region c) s1 t"
    unfolding t' assms(3) [symmetric] using frame_set(3) [OF ok(3)] frame_set(1) [OF ok(3)]
    by (rule frame_trans) simp
  have "linked s1 (desc b) qs 0" using r1(2) by simp
  note l = linked_frame' [OF r1(1) ok(1) f2 d(1)] linked_frame' [OF this ok(2) f2 d(2)]
  have "fa_next s1 (desc b) = ptr qs 0" using r1(2) by simp
  then have "fa_prev t (desc c) = lastp 0 ps" "fa_next t (desc c) = ptr qs 0" "fa_size t (desc c) = snd c"
    by (simp_all add: t' heap_defs assms(3))
  then show "heap_rep t (ps @ c # qs)"
    using l r1(3) assms(2,3) by (intro heap_repI) (simp_all add: t')
  show "frame (regions (ps @ c # qs)) s t" using r1(4) f2 by (rule frame_trans) auto
qed

lemma rep_start_end:
  assumes "heap_rep s (ps @ a # qs)"
  shows "HEAP_FREE_AREA_START s (desc a) = fst a" "HEAP_FREE_AREA_END (desc a) = fst a + snd a"
    "desc a \<noteq> 0"
  using area_ok_desc [OF heap_rep_split(3) [OF assms]] heap_rep_split(9) [OF assms]
  by (auto simp: HEAP_FREE_AREA_START_def HEAP_FREE_AREA_END_def)

text \<open>The block lies just before \<open>a\<close>: the area grows down. The code's test for a further merge
  with the predecessor never succeeds, because the loop would have stopped there.\<close>

lemma heap_free_down_sim:
  assumes "heap_rep s (ps @ a # qs)" "areas_ok (ps @ (m, n + snd a) # qs)" "fst a = m + n"
    and "\<forall>p \<in> set ps. fst p + snd p < m"
    and "heap_free_merge m n (lastp 0 ps) (desc a) s = (fa, t)"
  shows "heap_rep t (ps @ (m, n + snd a) # qs) \<and> frame (regions (ps @ (m, n + snd a) # qs)) s t
    \<and> fa = desc (m, n + snd a)"
proof -
  note sp = heap_rep_split [OF assms(1)] and se = rep_start_end [OF assms(1)]
  have npv: "\<not> (lastp 0 ps \<noteq> 0 \<and> m = HEAP_FREE_AREA_END (lastp 0 ps))"
  proof (cases ps rule: rev_cases)
    case (snoc us p)
    then have "area_ok p" "fst p + snd p < m"
      using sp(1) assms(4) by (auto simp: areas_ok_append areas_ok_Cons)
    then show ?thesis using area_ok_desc(2) [of p] by (simp add: snoc HEAP_FREE_AREA_END_def)
  qed simp
  have dc: "desc (m, n + snd a) = desc a" by (simp add: desc_def assms(3) add.assoc)
  have t: "fa = desc a" "t = set_size (desc a) (snd (m, n + snd a)) s"
    using assms(3,5) npv se(1) sp(9) by (auto simp: heap_free_merge_def Let_def add.commute)
  show ?thesis
    using set_size_rep [OF assms(1) dc assms(2)] t dc by (auto intro: frame_mono)
qed

text \<open>The block lies just after \<open>a\<close>, and the next area starts where the block ends.\<close>

lemma heap_free_next_sim:
  assumes "heap_rep s (ps @ a # b # qs)" "fst a + snd a = m" "m + n = fst b" "0 < n"
    and "areas_ok (ps @ (fst a, snd a + n + snd b) # qs)"
    and "heap_free_merge m n (lastp 0 ps) (desc a) s = (fa, t)"
  shows "heap_rep t (ps @ (fst a, snd a + n + snd b) # qs)
    \<and> frame (regions (ps @ (fst a, snd a + n + snd b) # qs)) s t \<and> fa = desc (fst a, snd a + n + snd b)"
proof -
  note sp = heap_rep_split [OF assms(1)] and se = rep_start_end [OF assms(1)]
  have rb: "heap_rep s ((ps @ [a]) @ b # qs)" using assms(1) by simp
  note sb = heap_rep_split [OF rb] and seb = rep_start_end [OF rb]
  let ?c = "(fst a, snd a + n + snd b)"
  have dc: "desc ?c = desc b" using assms(2,3) by (auto simp: desc_def)
  have st: "fst a \<noteq> m + n" using assms(2,4) by simp
  have t: "fa = desc b"
    "t = set_size (desc b) (snd ?c) (heap_link_free_area_after (desc b) (lastp 0 ps) s)"
    using assms(3,6) st se(1) seb(1,3) sp(9,11) sb(9) by (auto simp: heap_free_merge_def Let_def)
  have "regions [a, b] \<subseteq> region ?c" using assms(2,3) by (auto simp: region_def)
  from heap_merge_next_sim [OF assms(1,5) dc this t(2)] show ?thesis using t(1) dc by simp
qed

text \<open>The block lies just after \<open>a\<close> and touches no other area: the descriptor moves up.\<close>

lemma heap_free_move_sim:
  assumes "heap_rep s (ps @ a # qs)" "fst a + snd a = m" "0 < n" "m + n \<noteq> fst (hd (qs @ [(0, 0)]))"
    and "areas_ok (ps @ (fst a, snd a + n) # qs)"
    and "heap_free_merge m n (lastp 0 ps) (desc a) s = (fa, t)"
  shows "heap_rep t (ps @ (fst a, snd a + n) # qs)
    \<and> frame (regions (ps @ (fst a, snd a + n) # qs)) s t \<and> fa = desc (fst a, snd a + n)"
proof -
  note sp = heap_rep_split [OF assms(1)] and se = rep_start_end [OF assms(1)]
  let ?c = "(fst a, snd a + n)"
  have dc: "desc ?c = desc a + n" using area_ok_desc(2) [OF sp(3)] by (simp add: desc_def)
  have nb: "\<not> (ptr qs 0 \<noteq> 0 \<and> m + n = HEAP_FREE_AREA_START s (ptr qs 0))"
  proof (cases qs)
    case (Cons b ys)
    have "heap_rep s ((ps @ [a]) @ b # ys)" using assms(1) Cons by simp
    from rep_start_end(1) [OF this] show ?thesis using assms(4) Cons by simp
  qed simp
  have st: "fst a \<noteq> m + n" using assms(2,3) by simp
  define u where "u = heap_link_free_area (desc ?c) (lastp 0 ps) (ptr qs 0) s"
  have t: "fa = desc ?c" "t = set_size (desc ?c) (snd ?c) u"
    using assms(6) st nb se(1) sp(9,11) dc by (auto simp: heap_free_merge_def Let_def u_def)
  have c1: "area_ok ?c" using assms(5) by (simp add: areas_ok_append areas_ok_Cons)
  note L = heap_link_sim [OF sp(7,8,12) assms(5) u_def]
  have "frame (regions (ps @ ?c # qs)) s t"
    unfolding t(2) using L(2) frame_set(1) [OF c1] by (rule frame_trans) auto
  then show ?thesis using L(1) t by simp
qed

lemma heap_free_merge_sim:
  assumes rep: "heap_rep s (ps @ a # qs)" and ok: "area_ok (m, n)"
    and dj: "region (m, n) \<inter> regions (ps @ a # qs) = {}"
    and ps: "\<forall>p \<in> set ps. fst p + snd p < m" and a: "m \<le> fst a + snd a" "fst a \<le> m + n"
    and t: "heap_free_merge m n (lastp 0 ps) (desc a) s = (fa, t)"
  shows "\<exists>c ys. free_list m n (a # qs) = c # ys \<and> heap_rep t (ps @ c # ys)
    \<and> frame (regions (ps @ c # ys)) s t \<and> fa = desc c \<and> region (m, n) \<subseteq> region c"
proof -
  have "areas_ok (ps @ a # qs)" using rep by (simp add: heap_rep_def)
  then have fok: "areas_ok (ps @ free_list m n (a # qs))"
    using free_list_props [OF _ ok dj] by (simp add: free_list_append [OF ps])
  have aok: "area_ok a" by (rule heap_rep_split(3) [OF rep])
  have pos: "0 < n" "0 < snd a" using ok aok by (auto simp: area_ok_def)
  have cs: "fst a + snd a \<le> m \<or> m + n \<le> fst a"
    using area_disjoint_cases [OF _ ok aok] dj by auto
  show ?thesis
  proof (cases "fst a = m + n")
    case True
    then have fl: "free_list m n (a # qs) = (m, n + snd a) # qs" using pos by (cases a) simp
    with heap_free_down_sim [OF rep _ True ps t] fok show ?thesis by (auto simp: region_def)
  next
    case False
    then have eq: "fst a + snd a = m" using cs a by simp
    show ?thesis
    proof (cases "\<exists>b ys. qs = b # ys \<and> m + n = fst b")
      case True
      then obtain b ys where b: "qs = b # ys" "m + n = fst b" by blast
      have fl: "free_list m n (a # qs) = (fst a, snd a + n + snd b) # ys"
        using eq b by (cases a; cases b) simp
      with heap_free_next_sim [OF rep [unfolded b(1)] eq b(2) pos(1) _ t] fok b(1) eq show ?thesis
        by (auto simp: region_def)
    next
      case no: False
      have fl: "free_list m n (a # qs) = (fst a, snd a + n) # qs"
        using eq no by (cases a) (auto split: list.splits)
      have "m + n \<noteq> fst (hd (qs @ [(0, 0)]))" using no pos by (cases qs) auto
      with heap_free_move_sim [OF rep eq pos(1) this _ t] fok fl eq show ?thesis
        by (auto simp: region_def)
    qed
  qed
qed

lemma heap_free_new_sim:
  assumes rep: "heap_rep s (ps @ qs)" and ok: "areas_ok (ps @ (m, n) # qs)"
    and ps: "\<forall>p \<in> set ps. fst p + snd p < m" and qs: "\<And>a q. qs = a # q \<Longrightarrow> m + n < fst a"
    and find: "heap_free_find m 0 (heap s) s = Some (lastp 0 ps, ptr qs 0)"
  shows "\<exists>t. heap_free m n s = Some (desc (m, n), t) \<and> heap_rep t (ps @ (m, n) # qs)
    \<and> frame (regions (ps @ (m, n) # qs)) s t"
proof -
  obtain fa t where ft: "heap_add_free_area m n (lastp 0 ps) (ptr qs 0) s = (fa, t)" by force
  have "\<not> (ptr qs 0 \<noteq> 0 \<and> HEAP_FREE_AREA_START s (ptr qs 0) \<le> m + n)"
  proof (cases qs)
    case (Cons a q)
    from rep_start_end(1) [OF rep [unfolded Cons]] qs [OF Cons] show ?thesis by (simp add: Cons)
  qed simp
  then have "heap_free m n s = Some (fa, t)" using find ft by (auto simp: heap_free_def)
  with heap_add_sim [OF rep ok, of fa t] ft show ?thesis by auto
qed

lemma heap_free_sim:
  assumes rep: "heap_rep s xs" and ok: "area_ok (m, n)" and dj: "region (m, n) \<inter> regions xs = {}"
  shows "\<exists>fa t c. heap_free m n s = Some (fa, t) \<and> heap_rep t (free_list m n xs)
    \<and> frame (regions (free_list m n xs)) s t
    \<and> c \<in> set (free_list m n xs) \<and> fa = desc c \<and> region (m, n) \<subseteq> region c"
proof -
  define ps qs where "ps = takeWhile (\<lambda>a. fst a + snd a < m) xs"
    and "qs = dropWhile (\<lambda>a. fst a + snd a < m) xs"
  have xs: "xs = ps @ qs" by (simp add: ps_def qs_def)
  have ps: "\<forall>p \<in> set ps. fst p + snd p < m" by (auto simp: ps_def dest: set_takeWhileD)
  have qs: "m \<le> fst a + snd a" if "qs = a # q" for a q
    using that dropWhile_eq_Cons_conv [of "\<lambda>a. fst a + snd a < m" xs a q] by (simp add: qs_def)
  have rep': "heap_rep s (ps @ qs)" using rep xs by simp
  have find: "heap_free_find m 0 (heap s) s = Some (lastp 0 ps, ptr qs 0)"
    using heap_free_find_sim [of s "[]" xs m] rep by (simp add: ps_def qs_def heap_rep_def)
  have fl: "free_list m n xs = ps @ free_list m n qs" using free_list_append [OF ps] xs by simp
  have fok: "areas_ok (ps @ free_list m n qs)"
    using free_list_props [of xs m n] rep ok dj fl by (simp add: heap_rep_def)
  show ?thesis
  proof (cases "\<exists>a q. qs = a # q \<and> fst a \<le> m + n")
    case True
    then obtain a q where a: "qs = a # q" "fst a \<le> m + n" by blast
    obtain fa t where ft: "heap_free_merge m n (lastp 0 ps) (desc a) s = (fa, t)" by force
    have "heap_free m n s = Some (fa, t)"
      using find a ft rep_start_end [OF rep' [unfolded a(1)]] by (simp add: heap_free_def)
    moreover have "m \<le> fst a + snd a" using qs a by simp
    from heap_free_merge_sim [OF rep' [unfolded a(1)] ok _ ps this a(2) ft]
    obtain c ys where "free_list m n qs = c # ys" "heap_rep t (ps @ c # ys)"
      "frame (regions (ps @ c # ys)) s t" "fa = desc c" "region (m, n) \<subseteq> region c"
      using dj a xs by auto
    ultimately show ?thesis unfolding fl by fastforce
  next
    case False
    have gt: "m + n < fst a" if "qs = a # q" for a q using that False by auto
    have fq: "free_list m n qs = (m, n) # qs"
    proof (cases qs)
      case (Cons a q)
      moreover have "area_ok a" by (rule heap_rep_split(3) [OF rep' [unfolded Cons]])
      ultimately show ?thesis using gt [OF Cons] qs [OF Cons] by (cases a) (auto simp: area_ok_def)
    qed simp
    with heap_free_new_sim [OF rep' _ ps gt find] fok show ?thesis unfolding fl by fastforce
  qed
qed

section \<open>Allocation at an address\<close>

text \<open>Allocation at a given address looks at the first free area only: the loop stops at the
  first area that starts at or below the address, and in an ascending list that is the first one.\<close>

lemma heap_alloc_at_skip:
  assumes "heap_rep s (ps @ qs)" "\<forall>a \<in> set qs. mem < fst a"
  shows "heap_alloc_at_loop mem sz (ptr qs 0) s = Some (0, s)"
  using assms
proof (induction qs arbitrary: ps)
  case Nil
  then show ?case by (simp add: heap_alloc_at_loop.simps)
next
  case (Cons a qs)
  then show ?case
    using Cons.IH [of "ps @ [a]"] rep_start_end [OF Cons.prems(1)] heap_rep_split(11) [OF Cons.prems(1)]
    by (simp add: heap_alloc_at_loop.simps [of mem sz "desc a"])
qed

lemma heap_alloc_at_first_area:
  assumes "heap_rep s (a # ys)"
  shows "heap_alloc_at mem n s =
     (if fst a = mem \<and> HEAP_ADJUST_SIZE n \<le> snd a
      then Some (heap_free_area_alloc (desc a) (HEAP_ADJUST_SIZE n) s) else Some (0, s))"
proof -
  have rep: "heap_rep s ([] @ a # ys)" using assms by simp
  note se = rep_start_end [OF rep] and sp = heap_rep_split [OF rep]
  have "heap_alloc_at_loop mem sz (ptr ys 0) s = Some (0, s)" if "mem < fst a" for sz
    using assms that
    by (intro heap_alloc_at_skip [of s "[a]"]) (fastforce simp: heap_rep_def areas_ok_Cons before_def)+
  then show ?thesis
    using se sp(9,11,12) by (auto simp: heap_alloc_at_def heap_alloc_at_loop.simps [of mem _ "desc a"])
qed

lemma heap_alloc_at_empty: "heap_rep s [] \<Longrightarrow> heap_alloc_at mem n s = Some (0, s)"
  by (simp add: heap_alloc_at_def heap_rep_def heap_alloc_at_loop.simps)

section \<open>Properties\<close>

text \<open>A heap of two free areas, for the witnesses.\<close>

definition two_areas :: heap_state where
  "two_areas = \<lparr>hmem = (\<lambda>_. 0)(4212 := 128, 4216 := 5108, 5108 := 512, 5116 := 4212), heap = 4212\<rparr>"

lemma two_areas_rep: "heap_rep two_areas [(4096, 128), (4608, 512)]"
  by (simp add: two_areas_def heap_rep_def areas_ok_def area_ok_def before_def desc_def fa_size_def
      fa_next_def fa_prev_def USER_TOP_def)

text \<open>C7: \<open>__heap_alloc\<close> implements first fit. On a heap whose free areas are \<open>xs\<close> it returns, and
  its result and the free areas it leaves are those of the abstract search \<open>alloc_list\<close> (the first
  area that is big enough, taken whole when the rest would be too small); when no area fits it
  returns null and changes nothing. Only words of areas that stay free are written.\<close>

theorem heap_alloc_refines:
  assumes "heap_rep s xs"
  shows "case alloc_list (alloc_size req) xs of
      None \<Rightarrow> heap_alloc req s = Some (0, req, s)
    | Some (m, n, ys) \<Rightarrow> \<exists>s'. heap_alloc req s = Some (m, n, s') \<and> heap_rep s' ys \<and> frame (regions ys) s s'"
  by (rule heap_alloc_sim [OF assms])

theorem heap_alloc_refines_witness:
  "\<exists>s'. heap_alloc 200 two_areas = Some (4608, 200, s') \<and> heap_rep s' [(4096, 128), (4808, 312)]"
  using heap_alloc_refines [OF two_areas_rep, of 200]
  by (auto simp: alloc_size_def HEAP_ADJUST_SIZE_def round_down_def sz_add_def)

text \<open>C6: \<open>__heap_free\<close> implements the sorted insertion that merges the freed block with the free
  areas that touch it. It returns, the free areas afterwards are \<open>free_list m n xs\<close>: they cover
  what was free and the block, are ascending and never touch; the descriptor it returns is that
  of the area which now holds the block; only words of free areas are written.\<close>

theorem heap_free_refines:
  assumes "heap_rep s xs" "area_ok (m, n)" "region (m, n) \<inter> regions xs = {}"
  shows "\<exists>fa t c. heap_free m n s = Some (fa, t) \<and> heap_rep t (free_list m n xs)
    \<and> regions (free_list m n xs) = region (m, n) \<union> regions xs \<and> sorted_wrt before (free_list m n xs)
    \<and> c \<in> set (free_list m n xs) \<and> fa = desc c \<and> region (m, n) \<subseteq> region c
    \<and> frame (regions (free_list m n xs)) s t"
proof -
  have "areas_ok xs" using assms(1) by (simp add: heap_rep_def)
  from free_list_props [OF this assms(2,3)] have
    "regions (free_list m n xs) = region (m, n) \<union> regions xs" "sorted_wrt before (free_list m n xs)"
    by (simp_all add: areas_ok_def)
  with heap_free_sim [OF assms] show ?thesis by blast
qed

theorem heap_free_refines_witness:
  "\<exists>fa t. heap_free 4224 384 two_areas = Some (fa, t) \<and> heap_rep t [(4096, 1024)] \<and> fa = 5108"
proof -
  have "area_ok (4224, 384)" "region (4224, 384) \<inter> regions [(4096, 128), (4608, 512)] = {}"
    by (auto simp: area_ok_def USER_TOP_def regions_def region_def)
  from heap_free_refines [OF two_areas_rep this] show ?thesis by (auto simp: desc_def)
qed

text \<open>\<open>__heap_alloc_at\<close> can only ever succeed in the free area with the lowest address. The
  test \<open>fa_mem <= mem\<close> ends the search at the first area that does not start above \<open>mem\<close>, which in
  an ascending list is the first area, whatever areas follow it.\<close>

theorem heap_alloc_at_only_first:
  assumes "heap_rep s (a # xs)" "fst a \<noteq> mem"
  shows "heap_alloc_at mem n s = Some (0, s)"
  using heap_alloc_at_first_area [OF assms(1)] assms(2) by simp

theorem heap_alloc_at_only_first_witness:
  "heap_alloc_at 4608 64 two_areas = Some (0, two_areas)"
  using heap_alloc_at_only_first [OF two_areas_rep, of 4608 64] by simp

end
