(* ===== verification/Malloc.thy ===== *)
theory Malloc
  imports Heap
begin

text \<open>
  The \<open>malloc\<close> family on top of the heap: \<open>libc/stdlib/malloc/malloc.c\<close>, \<open>free.c\<close>, \<open>realloc.c\<close>,
  \<open>calloc.c\<close>, \<open>memalign.c\<close>, the checker \<open>__heap_check\<close> of \<open>heap_debug.c\<close>, and \<open>brk\<close>/\<open>sbrk\<close>
  (\<open>libc/sysdeps/linux/common\<close>).

  The configuration is the one of a target with an MMU (\<open>MALLOC_USE_SBRK\<close>) without
  \<open>__MALLOC_GLIBC_COMPAT__\<close>. The kernel's \<open>brk\<close> system call is a parameter \<open>kern\<close> of the
  operations: \<open>kern cur req\<close> is the break it returns when the break is \<open>cur\<close> and the process
  asks for \<open>req\<close>. The locks are not modelled: each operation is one atomic step. Blocks of
  memory that \<open>memset\<close> and \<open>memcpy\<close> write are written word-wise, little-endian.
\<close>

section \<open>The break\<close>

record malloc_state =
  hs :: heap_state
  curbrk :: addr
  kbrk :: addr
  errno :: nat

type_synonym kernel = "addr \<Rightarrow> addr \<Rightarrow> addr"

definition brk :: "kernel \<Rightarrow> addr \<Rightarrow> malloc_state \<Rightarrow> bool \<times> malloc_state" where
  "brk kern a s =
     (let newbrk = kern (kbrk s) a;
          s1 = s\<lparr>kbrk := newbrk, curbrk := newbrk\<rparr>
      in if newbrk < a then (False, s1\<lparr>errno := ENOMEM\<rparr>) else (True, s1))"

text \<open>\<open>sbrk\<close> takes a signed increment; \<open>None\<close> is \<open>(void *) -1\<close>.\<close>

definition sbrk :: "kernel \<Rightarrow> int \<Rightarrow> malloc_state \<Rightarrow> addr option \<times> malloc_state" where
  "sbrk kern increment s =
     (let (ok, s1) = (if curbrk s = 0 then brk kern 0 s else (True, s))
      in if \<not> ok then (None, s1)
         else if increment = 0 then (Some (curbrk s1), s1)
         else (let oldbrk = curbrk s1;
                   (ok2, s2) = brk kern (nat ((int oldbrk + increment) mod 2 ^ 32)) s1
               in if \<not> ok2 then (None, s2) else (Some oldbrk, s2)))"

text \<open>A 32-bit unsigned value read as \<open>intptr_t\<close>.\<close>

definition as_signed :: "nat \<Rightarrow> int" where
  "as_signed n = (if n < 2 ^ 31 then int n else int n - 2 ^ 32)"

section \<open>malloc and free\<close>

definition MALLOC_PAGE_SIZE :: nat where "MALLOC_PAGE_SIZE = 4096"
definition MALLOC_ALIGNMENT :: nat where "MALLOC_ALIGNMENT = 8"
definition MALLOC_HEADER_SIZE :: nat where "MALLOC_HEADER_SIZE = 8"
definition MALLOC_HEAP_EXTEND_SIZE :: nat where "MALLOC_HEAP_EXTEND_SIZE = MALLOC_PAGE_SIZE"
definition MALLOC_UNMAP_THRESHOLD :: nat where "MALLOC_UNMAP_THRESHOLD = 8 * MALLOC_PAGE_SIZE"
definition MALLOC_MIN_SIZE :: nat where "MALLOC_MIN_SIZE = 2 * MALLOC_PAGE_SIZE"
definition MALLOC_REALLOC_MIN_FREE_SIZE :: nat where
  "MALLOC_REALLOC_MIN_FREE_SIZE = HEAP_MIN_SIZE + 16"

definition MALLOC_ROUND_UP :: "nat \<Rightarrow> nat \<Rightarrow> nat" where
  "MALLOC_ROUND_UP sz p = round_down p (sz_add sz (p - 1))"

definition MALLOC_BASE :: "addr \<Rightarrow> addr" where
  "MALLOC_BASE a = a - MALLOC_HEADER_SIZE"

definition MALLOC_SIZE :: "malloc_state \<Rightarrow> addr \<Rightarrow> nat" where
  "MALLOC_SIZE s a = hmem (hs s) (MALLOC_BASE a)"

definition set_word :: "addr \<Rightarrow> nat \<Rightarrow> malloc_state \<Rightarrow> malloc_state" where
  "set_word a v s = s\<lparr>hs := (hs s)\<lparr>hmem := (hmem (hs s))(a := v)\<rparr>\<rparr>"

definition MALLOC_SETUP :: "addr \<Rightarrow> nat \<Rightarrow> malloc_state \<Rightarrow> addr \<times> malloc_state" where
  "MALLOC_SETUP base sz s = (base + MALLOC_HEADER_SIZE, set_word base sz s)"

text \<open>The part of \<open>__malloc_from_heap\<close> that grows the heap, then the whole function.\<close>

definition malloc_grow :: "kernel \<Rightarrow> nat \<Rightarrow> malloc_state \<Rightarrow> (addr option \<times> malloc_state)" where
  "malloc_grow kern block_size s =
     (case sbrk kern (as_signed block_size) s of
        (None, s1) \<Rightarrow> (None, s1)
      | (Some block, s1) \<Rightarrow>
          (let aligned_block = MALLOC_ROUND_UP block MALLOC_ALIGNMENT
           in if block \<noteq> aligned_block
              then (Some aligned_block, snd (sbrk kern (int aligned_block - int block) s1))
              else (Some block, s1)))"

definition malloc_block_size :: "nat \<Rightarrow> nat" where
  "malloc_block_size sz =
     (if sz < MALLOC_HEAP_EXTEND_SIZE then MALLOC_HEAP_EXTEND_SIZE
      else MALLOC_ROUND_UP sz MALLOC_PAGE_SIZE)"

definition malloc_extend :: "kernel \<Rightarrow> nat \<Rightarrow> malloc_state \<Rightarrow> (addr \<times> malloc_state) option" where
  "malloc_extend kern sz s =
     (case malloc_grow kern (malloc_block_size sz) s of
        (None, s1) \<Rightarrow> Some (0, s1)
      | (Some block, s1) \<Rightarrow>
          (case heap_free block (malloc_block_size sz) (hs s1) of
             None \<Rightarrow> None
           | Some (_, h2) \<Rightarrow>
               (case heap_alloc sz h2 of
                  None \<Rightarrow> None
                | Some (mem, sz2, h3) \<Rightarrow>
                    if mem \<noteq> 0 then Some (MALLOC_SETUP mem sz2 (s1\<lparr>hs := h3\<rparr>))
                    else Some (0, s1\<lparr>hs := h3\<rparr>))))"

definition malloc_from_heap :: "kernel \<Rightarrow> nat \<Rightarrow> malloc_state \<Rightarrow> (addr \<times> malloc_state) option" where
  "malloc_from_heap kern req s =
     (case heap_alloc (sz_add req MALLOC_HEADER_SIZE) (hs s) of
        None \<Rightarrow> None
      | Some (mem, sz, h) \<Rightarrow>
          if mem \<noteq> 0 then Some (MALLOC_SETUP mem sz (s\<lparr>hs := h\<rparr>))
          else malloc_extend kern sz (s\<lparr>hs := h\<rparr>))"

definition malloc :: "kernel \<Rightarrow> nat \<Rightarrow> malloc_state \<Rightarrow> (addr \<times> malloc_state) option" where
  "malloc kern sz s =
     (if sz = 0 then Some (0, s\<lparr>errno := ENOMEM\<rparr>)
      else if sz > 2 ^ 32 - 2 * MALLOC_HEADER_SIZE then Some (0, s\<lparr>errno := ENOMEM\<rparr>)
      else case malloc_from_heap kern sz s of
             None \<Rightarrow> None
           | Some (mem, s1) \<Rightarrow>
               if mem = 0 then Some (0, s1\<lparr>errno := ENOMEM\<rparr>) else Some (mem, s1))"

text \<open>\<open>__heap_is_empty (heap)\<close> is \<open>! (heap)\<close>; \<open>__free_to_heap\<close> applies it to its parameter of
  type \<open>struct heap_free_area **\<close>, the address \<open>heapp\<close> of the heap variable.\<close>

definition heap_is_empty :: "addr \<Rightarrow> bool" where
  "heap_is_empty heapp \<longleftrightarrow> heapp = 0"

definition free_unmap :: "kernel \<Rightarrow> addr \<Rightarrow> addr \<Rightarrow> malloc_state \<Rightarrow> malloc_state option" where
  "free_unmap kern heapp fa s =
     (let start = HEAP_FREE_AREA_START (hs s) fa;
          end = HEAP_FREE_AREA_END fa;
          (lim, s1) = sbrk kern 0 s
      in if Some end \<noteq> lim then Some s1
         else
           (let s2 = s1\<lparr>hs := heap_delete fa (hs s1)\<rparr>
            in if heap_is_empty heapp then
                 (case heap_free start MALLOC_MIN_SIZE (hs s2) of
                    None \<Rightarrow> None
                  | Some (_, h) \<Rightarrow>
                      Some (snd (sbrk kern (int (start + MALLOC_MIN_SIZE) - int end) (s2\<lparr>hs := h\<rparr>))))
               else Some (snd (sbrk kern (int start - int end) s2))))"

definition free_to_heap :: "kernel \<Rightarrow> addr \<Rightarrow> addr \<Rightarrow> malloc_state \<Rightarrow> malloc_state option" where
  "free_to_heap kern heapp mem s =
     (if mem = 0 then Some s
      else case heap_free (MALLOC_BASE mem) (MALLOC_SIZE s mem) (hs s) of
             None \<Rightarrow> None
           | Some (fa, h) \<Rightarrow>
               if fa_size h fa < MALLOC_UNMAP_THRESHOLD then Some (s\<lparr>hs := h\<rparr>)
               else free_unmap kern heapp fa (s\<lparr>hs := h\<rparr>))"

definition free :: "kernel \<Rightarrow> addr \<Rightarrow> addr \<Rightarrow> malloc_state \<Rightarrow> malloc_state option" where
  "free kern heapp mem s = free_to_heap kern heapp mem s"

section \<open>calloc, realloc and memalign\<close>

text \<open>\<open>memset (p, 0, n)\<close> and \<open>memcpy (d, p, n)\<close> on word-aligned blocks of a little-endian memory;
  the last word of \<open>memset\<close> may be written in part.\<close>

fun zero_words :: "addr \<Rightarrow> nat \<Rightarrow> (addr \<Rightarrow> nat) \<Rightarrow> (addr \<Rightarrow> nat)" where
  "zero_words p n m =
     (if n = 0 then m
      else if n < 4 then m(p := m p div 256 ^ n * 256 ^ n)
      else zero_words (p + 4) (n - 4) (m(p := 0)))"

fun copy_words :: "addr \<Rightarrow> addr \<Rightarrow> nat \<Rightarrow> (addr \<Rightarrow> nat) \<Rightarrow> (addr \<Rightarrow> nat)" where
  "copy_words d p n m = (if n = 0 then m else copy_words (d + 4) (p + 4) (n - 4) (m(d := m p)))"

definition calloc :: "kernel \<Rightarrow> nat \<Rightarrow> nat \<Rightarrow> malloc_state \<Rightarrow> (addr \<times> malloc_state) option" where
  "calloc kern nmemb lsize s =
     (let sz = (lsize * nmemb) mod 2 ^ 32
      in if nmemb \<noteq> 0 \<and> lsize \<noteq> sz div nmemb then Some (0, s\<lparr>errno := ENOMEM\<rparr>)
         else case malloc kern sz s of
                None \<Rightarrow> None
              | Some (result, s1) \<Rightarrow>
                  if result \<noteq> 0
                  then Some (result, s1\<lparr>hs := (hs s1)\<lparr>hmem := zero_words result sz (hmem (hs s1))\<rparr>\<rparr>)
                  else Some (result, s1))"

definition realloc_move ::
  "kernel \<Rightarrow> addr \<Rightarrow> addr \<Rightarrow> nat \<Rightarrow> nat \<Rightarrow> malloc_state \<Rightarrow> (addr \<times> malloc_state) option" where
  "realloc_move kern heapp mem sz new_size s =
     (case malloc kern (new_size - MALLOC_HEADER_SIZE) s of
        None \<Rightarrow> None
      | Some (new_mem, s1) \<Rightarrow>
          if new_mem \<noteq> 0 then
            (let s2 = s1\<lparr>hs := (hs s1)\<lparr>hmem :=
                          copy_words new_mem mem (sz - MALLOC_HEADER_SIZE) (hmem (hs s1))\<rparr>\<rparr>
             in case free kern heapp mem s2 of
                  None \<Rightarrow> None
                | Some s3 \<Rightarrow> Some (new_mem, s3))
          else Some (new_mem, s1))"

definition realloc ::
  "kernel \<Rightarrow> addr \<Rightarrow> addr \<Rightarrow> nat \<Rightarrow> malloc_state \<Rightarrow> (addr \<times> malloc_state) option" where
  "realloc kern heapp mem new_size s =
     (if new_size = 0 then
        (case free kern heapp mem s of None \<Rightarrow> None | Some s1 \<Rightarrow> malloc kern new_size s1)
      else if mem = 0 then malloc kern new_size s
      else if new_size > 2 ^ 32 - 2 * MALLOC_HEADER_SIZE then Some (0, s)
      else
        (let base_mem = MALLOC_BASE mem;
             sz = MALLOC_SIZE s mem;
             new0 = HEAP_ADJUST_SIZE (sz_add new_size MALLOC_HEADER_SIZE);
             new = (if new0 < sizeof_heap_free_area then HEAP_ADJUST_SIZE sizeof_heap_free_area
                    else new0)
         in if new > sz then
              (case heap_alloc_at (base_mem + sz) (new - sz) (hs s) of
                 None \<Rightarrow> None
               | Some (extra, h) \<Rightarrow>
                   if extra \<noteq> 0 then Some (mem, set_word base_mem (sz + extra) (s\<lparr>hs := h\<rparr>))
                   else realloc_move kern heapp mem sz new (s\<lparr>hs := h\<rparr>))
            else if sz_add new MALLOC_REALLOC_MIN_FREE_SIZE \<le> sz then
              (case heap_free (base_mem + new) (sz - new) (hs s) of
                 None \<Rightarrow> None
               | Some (_, h) \<Rightarrow> Some (mem, set_word base_mem new (s\<lparr>hs := h\<rparr>)))
            else Some (mem, s)))"

definition memalign :: "kernel \<Rightarrow> nat \<Rightarrow> nat \<Rightarrow> malloc_state \<Rightarrow> (addr \<times> malloc_state) option" where
  "memalign kern alignment req s =
     (let sz = HEAP_ADJUST_SIZE req
      in case malloc kern ((sz + 2 * alignment) mod 2 ^ 32) s of
           None \<Rightarrow> None
         | Some (mem, s1) \<Rightarrow>
             if mem = 0 then Some (0, s1)
             else if alignment < MALLOC_ALIGNMENT then Some (mem, s1)
             else
               (let base = MALLOC_BASE mem;
                    tot_end_addr = base + MALLOC_SIZE s1 mem;
                    addr0 = MALLOC_ROUND_UP mem alignment;
                    addr = (if addr0 \<noteq> mem \<and> addr0 - mem < HEAP_MIN_SIZE
                            then MALLOC_ROUND_UP (mem + HEAP_MIN_SIZE) alignment else addr0);
                    init_size = addr - mem
                in case (if addr0 \<noteq> mem then map_option snd (heap_free base init_size (hs s1))
                         else Some (hs s1)) of
                     None \<Rightarrow> None
                   | Some h1 \<Rightarrow>
                       (let base1 = (if addr0 \<noteq> mem then base + init_size else base);
                            end_addr = addr + sz
                        in if sz_add end_addr MALLOC_REALLOC_MIN_FREE_SIZE < tot_end_addr then
                             (case heap_free end_addr (tot_end_addr - end_addr) h1 of
                                None \<Rightarrow> None
                              | Some (_, h2) \<Rightarrow>
                                  Some (MALLOC_SETUP base1 (end_addr - base1) (s1\<lparr>hs := h2\<rparr>)))
                           else Some (MALLOC_SETUP base1 (tot_end_addr - base1) (s1\<lparr>hs := h1\<rparr>)))))"

section \<open>The consistency checker\<close>

datatype heap_check_result = Check_OK | First_prev | Alignment | Prev_corrupt | Unmerged | Overlap

partial_function (option) heap_check_loop ::
  "heap_state \<Rightarrow> addr \<Rightarrow> addr \<Rightarrow> heap_check_result option" where
  [code]: "heap_check_loop s prev fa =
     (if fa = 0 then Some Check_OK
      else if HEAP_FREE_AREA_END fa mod HEAP_GRANULARITY \<noteq> 0 \<or> fa_size s fa mod HEAP_GRANULARITY \<noteq> 0
      then Some Alignment
      else if fa_prev s fa \<noteq> prev then Some Prev_corrupt
      else if prev \<noteq> 0 \<and> HEAP_FREE_AREA_END prev \<ge> HEAP_FREE_AREA_START s fa
      then Some (if HEAP_FREE_AREA_END prev = HEAP_FREE_AREA_START s fa then Unmerged else Overlap)
      else heap_check_loop s fa (fa_next s fa))"

definition heap_check :: "heap_state \<Rightarrow> heap_check_result option" where
  "heap_check s =
     (if heap s \<noteq> 0 \<and> fa_prev s (heap s) \<noteq> 0 then Some First_prev
      else heap_check_loop s 0 (heap s))"

section \<open>Specification: live blocks\<close>

text \<open>\<open>hinv h xs live lim\<close>: the free areas are \<open>xs\<close>, the allocated blocks \<open>live\<close>, all disjoint
  and below \<open>lim\<close>.\<close>

definition hinv :: "heap_state \<Rightarrow> area list \<Rightarrow> area set \<Rightarrow> addr \<Rightarrow> bool" where
  "hinv h xs live lim \<longleftrightarrow> heap_rep h xs \<and> (\<forall>b \<in> live. area_ok b \<and> region b \<inter> regions xs = {})
     \<and> (\<forall>a \<in> live. \<forall>b \<in> live. a \<noteq> b \<longrightarrow> region a \<inter> region b = {})
     \<and> (\<forall>a \<in> set xs \<union> live. fst a + snd a \<le> lim)"

text \<open>What the documentation of \<open>brk(2)\<close> promises: the call moves the break to the requested
  address, or leaves it and returns the current one.\<close>

definition kernel_ok :: "kernel \<Rightarrow> bool" where
  "kernel_ok kern \<longleftrightarrow> (\<forall>cur req. kern cur req = cur \<or> kern cur req = req \<and> 0 < req \<and> req \<le> USER_TOP)"

definition brk_ok :: "malloc_state \<Rightarrow> bool" where
  "brk_ok s \<longleftrightarrow> 0 < kbrk s \<and> 8 dvd kbrk s \<and> kbrk s \<le> USER_TOP \<and> curbrk s \<in> {0, kbrk s}"

definition minv :: "kernel \<Rightarrow> malloc_state \<Rightarrow> area set \<Rightarrow> bool" where
  "minv kern s live \<longleftrightarrow> kernel_ok kern \<and> (\<exists>xs. hinv (hs s) xs live (kbrk s))
     \<and> (\<forall>b \<in> live. hmem (hs s) (fst b) = snd b)
     \<and> 0 < kbrk s \<and> 8 dvd kbrk s \<and> kbrk s \<le> USER_TOP \<and> curbrk s \<in> {0, kbrk s}"

text \<open>The contents of a live block: its words, the header's included.\<close>

definition same_contents :: "area set \<Rightarrow> malloc_state \<Rightarrow> malloc_state \<Rightarrow> bool" where
  "same_contents live s t \<longleftrightarrow> (\<forall>b \<in> live. \<forall>w \<in> region b. hmem (hs t) w = hmem (hs s) w)"

definition malloc_ok :: "kernel \<Rightarrow> nat \<Rightarrow> malloc_state \<Rightarrow> area set \<Rightarrow> addr \<Rightarrow> malloc_state \<Rightarrow> bool" where
  "malloc_ok kern sz s live p s' \<longleftrightarrow> 8 dvd p \<and> (\<exists>n. sz + 8 \<le> n \<and> (p - 8, n) \<notin> live
     \<and> 8 < p \<and> minv kern s' (insert (p - 8, n) live) \<and> same_contents live s s')"

text \<open>A request of \<open>sz\<close> bytes may fail only when no free area has room for it with its header, and the kernel
  refuses to move the break up by the least number of pages that has.\<close>

definition no_memory :: "kernel \<Rightarrow> nat \<Rightarrow> malloc_state \<Rightarrow> bool" where
  "no_memory kern sz s \<longleftrightarrow> (\<forall>xs. heap_rep (hs s) xs \<longrightarrow> (\<forall>a \<in> set xs. snd a < sz + 8))
     \<and> kern (kbrk s) (kbrk s + 4096 * ((sz + 8 + 4095) div 4096)) = kbrk s"

definition malloc_fail :: "kernel \<Rightarrow> nat \<Rightarrow> malloc_state \<Rightarrow> area set \<Rightarrow> addr \<Rightarrow> malloc_state \<Rightarrow> bool" where
  "malloc_fail kern sz s live p s' \<longleftrightarrow> p = 0 \<and> minv kern s' live \<and> same_contents live s s' \<and> no_memory kern sz s"

section \<open>Heap steps with live blocks\<close>

lemma area_le_iff: "area_ok a \<Longrightarrow> fst a + snd a \<le> lim \<longleftrightarrow> region a \<subseteq> {..<lim}"
proof
  assume "area_ok a" and r: "region a \<subseteq> {..<lim}"
  then have "fst a + snd a - 1 \<in> region a" by (auto simp: region_def area_ok_def)
  with r have "fst a + snd a - 1 < lim" by blast
  then show "fst a + snd a \<le> lim" by linarith
qed (auto simp: region_def)

lemma hinv_regions:
  "hinv h xs live lim \<longleftrightarrow> heap_rep h xs \<and> (\<forall>b \<in> live. area_ok b \<and> region b \<inter> regions xs = {})
     \<and> (\<forall>a \<in> live. \<forall>b \<in> live. a \<noteq> b \<longrightarrow> region a \<inter> region b = {})
     \<and> regions xs \<union> (\<Union>b \<in> live. region b) \<subseteq> {..<lim}"
proof -
  have "(\<forall>a \<in> set xs \<union> live. fst a + snd a \<le> lim) = (regions xs \<union> (\<Union>b \<in> live. region b) \<subseteq> {..<lim})"
    if "heap_rep h xs" "\<forall>b \<in> live. area_ok b"
  proof -
    have "\<forall>a \<in> set xs \<union> live. area_ok a" using that by (auto simp: heap_rep_def areas_ok_def)
    then have "(\<forall>a \<in> set xs \<union> live. fst a + snd a \<le> lim) = (\<forall>a \<in> set xs \<union> live. region a \<subseteq> {..<lim})"
      using area_le_iff by blast
    then show ?thesis by (auto simp: regions_def)
  qed
  then have eq: "heap_rep h xs \<Longrightarrow> \<forall>b \<in> live. area_ok b \<Longrightarrow>
    (\<forall>a \<in> set xs \<union> live. fst a + snd a \<le> lim) = (regions xs \<union> (\<Union>b \<in> live. region b) \<subseteq> {..<lim})" .
  show ?thesis
  proof (cases "heap_rep h xs \<and> (\<forall>b \<in> live. area_ok b)")
    case True
    then show ?thesis using eq by (simp add: hinv_def)
  next
    case False
    then show ?thesis by (auto simp: hinv_def)
  qed
qed

lemma hinv_alloc:
  assumes inv: "hinv h xs live lim"
  shows "(alloc_list (alloc_size req) xs = None \<and> heap_alloc req h = Some (0, req, h))
    \<or> (\<exists>m n h' ys. heap_alloc req h = Some (m, n, h') \<and> m \<noteq> 0 \<and> alloc_size req \<le> n
        \<and> (m, n) \<notin> live \<and> hinv h' ys (insert (m, n) live) lim \<and> frame (regions xs) h h')"
proof (cases "alloc_list (alloc_size req) xs")
  case None
  then show ?thesis using heap_alloc_sim [of h xs req] inv by (simp add: hinv_def)
next
  case (Some r)
  then obtain m n ys where al: "alloc_list (alloc_size req) xs = Some (m, n, ys)" by (cases r) auto
  have rep: "heap_rep h xs" using inv by (simp add: hinv_def)
  from heap_alloc_sim [OF rep, of req] al obtain h' where
    h': "heap_alloc req h = Some (m, n, h')" "heap_rep h' ys" "frame (regions ys) h h'" by auto
  have p: "alloc_size req \<le> n" "area_ok (m, n)" "regions xs = region (m, n) \<union> regions ys"
    "region (m, n) \<inter> regions ys = {}"
    using alloc_list_Some [OF al] rep alloc_size_props by (auto simp: heap_rep_def)
  have "hinv h' ys (insert (m, n) live) lim"
    using inv h'(2) p by (auto simp: hinv_regions)
  moreover have "(m, n) \<notin> live"
  proof
    assume "(m, n) \<in> live"
    then have "region (m, n) \<inter> regions xs = {}" using inv by (auto simp: hinv_def)
    moreover have "m \<in> region (m, n)" using p(2) by (auto simp: region_def area_ok_def)
    ultimately show False using p(3) by blast
  qed
  moreover have "m \<noteq> 0" using p(2) by (simp add: area_ok_def)
  moreover have "frame (regions xs) h h'" using h'(3) p(3) by (auto intro: frame_mono)
  ultimately show ?thesis using h'(1) p(1) by blast
qed

lemma hinv_free:
  assumes inv: "hinv h xs (insert b live) lim" "b \<notin> live"
  shows "\<exists>fa h' c. heap_free (fst b) (snd b) h = Some (fa, h') \<and> hinv h' (free_list (fst b) (snd b) xs) live lim
    \<and> frame (regions xs \<union> region b) h h' \<and> c \<in> set (free_list (fst b) (snd b) xs) \<and> fa = desc c
    \<and> region b \<subseteq> region c"
proof -
  have rep: "heap_rep h xs" and ok: "area_ok (fst b, snd b)" and dj: "region (fst b, snd b) \<inter> regions xs = {}"
    using inv(1) by (auto simp: hinv_def)
  from heap_free_sim [OF this] obtain fa t c where
    t: "heap_free (fst b) (snd b) h = Some (fa, t)" "heap_rep t (free_list (fst b) (snd b) xs)"
      "frame (regions (free_list (fst b) (snd b) xs)) h t" "c \<in> set (free_list (fst b) (snd b) xs)"
      "fa = desc c" "region b \<subseteq> region c" by auto
  have fr: "regions (free_list (fst b) (snd b) xs) = region b \<union> regions xs"
    using free_list_props [OF _ ok dj] rep by (simp add: heap_rep_def)
  have dl: "\<forall>a \<in> live. region b \<inter> region a = {}" using inv by (auto simp: hinv_def)
  have "hinv t (free_list (fst b) (snd b) xs) live lim"
    using inv(1) t(2) fr dl by (fastforce simp: hinv_regions)
  then show ?thesis using t fr by (metis Un_commute)
qed

lemma hinv_extend:
  assumes "hinv h xs live lim" "area_ok (lim, n)"
  shows "hinv h xs (insert (lim, n) live) (lim + n)" "(lim, n) \<notin> live"
proof -
  have lt: "regions xs \<union> (\<Union>b \<in> live. region b) \<subseteq> {..<lim}" using assms(1) by (simp add: hinv_regions)
  moreover have "region (lim, n) \<inter> {..<lim} = {}" by (auto simp: region_def)
  ultimately have "region (lim, n) \<inter> regions xs = {}" "\<forall>b \<in> live. region (lim, n) \<inter> region b = {}"
    by blast+
  moreover have "regions xs \<union> (\<Union>b \<in> insert (lim, n) live. region b) \<subseteq> {..<lim + n}"
    using lt by (force simp: region_def)
  ultimately show "hinv h xs (insert (lim, n) live) (lim + n)"
    using assms unfolding hinv_regions by blast
  show "(lim, n) \<notin> live"
  proof
    assume "(lim, n) \<in> live"
    then have "region (lim, n) \<subseteq> {..<lim}" using lt by blast
    moreover have "lim \<in> region (lim, n)" using assms(2) by (auto simp: region_def area_ok_def)
    ultimately show False by blast
  qed
qed

lemma frame_same_contents:
  assumes "frame A (hs s) (hs t)" "\<forall>b \<in> live. region b \<inter> A = {}"
  shows "same_contents live s t"
  using assms by (auto simp: frame_def same_contents_def)

section \<open>The break grows only as the kernel allows\<close>

lemma MALLOC_consts [simp]:
  "MALLOC_PAGE_SIZE = 4096" "MALLOC_ALIGNMENT = 8" "MALLOC_HEADER_SIZE = 8"
  "MALLOC_HEAP_EXTEND_SIZE = 4096" "MALLOC_UNMAP_THRESHOLD = 32768" "MALLOC_MIN_SIZE = 8192"
  "MALLOC_REALLOC_MIN_FREE_SIZE = 32"
  by (simp_all add: MALLOC_PAGE_SIZE_def MALLOC_ALIGNMENT_def MALLOC_HEADER_SIZE_def
      MALLOC_HEAP_EXTEND_SIZE_def MALLOC_UNMAP_THRESHOLD_def MALLOC_MIN_SIZE_def
      MALLOC_REALLOC_MIN_FREE_SIZE_def)

lemma sbrk_unfold:
  assumes "kernel_ok kern" "brk_ok s"
  shows "sbrk kern inc s = (let s1 = s\<lparr>curbrk := kbrk s\<rparr> in
     if inc = 0 then (Some (kbrk s), s1)
     else (let (ok, s2) = brk kern (nat ((int (kbrk s) + inc) mod 2 ^ 32)) s1
           in if \<not> ok then (None, s2) else (Some (kbrk s), s2)))"
proof -
  have k: "kern (kbrk s) 0 = kbrk s" using assms(1) by (auto simp: kernel_ok_def)
  have "(if curbrk s = 0 then brk kern 0 s else (True, s)) = (True, s\<lparr>curbrk := kbrk s\<rparr>)"
    using assms(2) k by (cases s) (auto simp: brk_def brk_ok_def Let_def)
  then show ?thesis by (simp add: sbrk_def Let_def)
qed

lemma as_signed_mod: "n < 2 ^ 32 \<Longrightarrow> (int b + as_signed n) mod 2 ^ 32 = (int b + int n) mod 2 ^ 32"
proof -
  have "(int b + (int n - 2 ^ 32)) mod 2 ^ 32 = (int b + int n) mod 2 ^ 32"
    using minus_mod_self2 [of "int b + int n" "2 ^ 32"] by (simp only: add_diff_eq)
  then show "n < 2 ^ 32 \<Longrightarrow> ?thesis" by (simp add: as_signed_def)
qed

lemma as_signed_0: "n < 2 ^ 32 \<Longrightarrow> as_signed n = 0 \<longleftrightarrow> n = 0"
  by (auto simp: as_signed_def)

lemma round_up_8_id: "8 dvd b \<Longrightarrow> b \<le> USER_TOP \<Longrightarrow> MALLOC_ROUND_UP b 8 = b"
proof -
  assume "8 dvd b" "b \<le> USER_TOP"
  then have "sz_add b 7 = b + 7" "(b + 7) mod 8 = 7"
    by (auto simp: sz_add_def USER_TOP_def)
  then show ?thesis by (simp add: MALLOC_ROUND_UP_def round_down_def)
qed

lemma malloc_grow_cases:
  assumes k: "kernel_ok kern" and b: "brk_ok s" and n: "0 < n" "8 dvd n" "kbrk s + n < 2 ^ 32"
  shows "(malloc_grow kern n s = (None, s\<lparr>curbrk := kbrk s, errno := ENOMEM\<rparr>)
        \<and> kern (kbrk s) (kbrk s + n) = kbrk s)
    \<or> (malloc_grow kern n s = (Some (kbrk s), s\<lparr>kbrk := kbrk s + n, curbrk := kbrk s + n\<rparr>)
        \<and> kbrk s + n \<le> USER_TOP)"
proof -
  let ?s1 = "s\<lparr>curbrk := kbrk s\<rparr>"
  have arg: "nat ((int (kbrk s) + as_signed n) mod 2 ^ 32) = kbrk s + n"
    using n(3) as_signed_mod [of n "kbrk s"] by (simp add: nat_mod_distrib flip: of_nat_add)
  have nz: "as_signed n \<noteq> 0" using n as_signed_0 [of n] by simp
  have al: "MALLOC_ROUND_UP (kbrk s) 8 = kbrk s" using b round_up_8_id by (simp add: brk_ok_def)
  have sb: "sbrk kern (as_signed n) s = (let (ok, s2) = brk kern (kbrk s + n) ?s1
     in if \<not> ok then (None, s2) else (Some (kbrk s), s2))"
    using sbrk_unfold [OF k b, of "as_signed n"] arg nz by (simp add: Let_def)
  consider (keep) "kern (kbrk s) (kbrk s + n) = kbrk s"
    | (move) "kern (kbrk s) (kbrk s + n) = kbrk s + n" "kbrk s + n \<le> USER_TOP"
    using k by (auto simp: kernel_ok_def)
  then show ?thesis
  proof cases
    case keep
    then have "brk kern (kbrk s + n) ?s1 = (False, s\<lparr>curbrk := kbrk s, errno := ENOMEM\<rparr>)"
      using n(1) by (cases s) (simp add: brk_def Let_def)
    then have "sbrk kern (as_signed n) s = (None, s\<lparr>curbrk := kbrk s, errno := ENOMEM\<rparr>)"
      by (simp add: sb)
    with keep show ?thesis by (simp add: malloc_grow_def)
  next
    case move
    then have "brk kern (kbrk s + n) ?s1 = (True, s\<lparr>kbrk := kbrk s + n, curbrk := kbrk s + n\<rparr>)"
      by (cases s) (simp add: brk_def Let_def)
    then have "sbrk kern (as_signed n) s = (Some (kbrk s), s\<lparr>kbrk := kbrk s + n, curbrk := kbrk s + n\<rparr>)"
      by (simp add: sb)
    with move al show ?thesis by (simp add: malloc_grow_def Let_def)
  qed
qed

text \<open>When the requested size does not fit above the break, the sum wraps around; a kernel that
  then leaves the break alone makes \<open>sbrk\<close> report success.\<close>

lemma malloc_grow_wraps:
  assumes "kernel_ok kern" "brk_ok s" "n < 2 ^ 32" "2 ^ 32 \<le> kbrk s + n"
    and "kern (kbrk s) (kbrk s + n - 2 ^ 32) = kbrk s"
  shows "malloc_grow kern n s = (Some (kbrk s), s\<lparr>curbrk := kbrk s\<rparr>)"
proof -
  have lt: "kbrk s + n - 2 ^ 32 < 2 ^ 32"
    using assms(2,3) by (auto simp: brk_ok_def USER_TOP_def)
  have m: "(kbrk s + n) mod 2 ^ 32 = kbrk s + n - 2 ^ 32"
    using lt assms(4) by (simp add: le_mod_geq)
  have arg: "nat ((int (kbrk s) + as_signed n) mod 2 ^ 32) = kbrk s + n - 2 ^ 32"
    unfolding as_signed_mod [OF assms(3)] m [symmetric]
    by (simp add: nat_mod_distrib flip: of_nat_add)
  have nz: "as_signed n \<noteq> 0"
    using as_signed_0 [OF assms(3)] assms(2,4) by (auto simp: brk_ok_def USER_TOP_def)
  have "kbrk s + n - 2 ^ 32 \<le> kbrk s" using assms(3) by simp
  then have "brk kern (kbrk s + n - 2 ^ 32) (s\<lparr>curbrk := kbrk s\<rparr>) = (True, s\<lparr>curbrk := kbrk s\<rparr>)"
    using assms(5) by (cases s) (simp add: brk_def Let_def)
  then have "sbrk kern (as_signed n) s = (Some (kbrk s), s\<lparr>curbrk := kbrk s\<rparr>)"
    using sbrk_unfold [OF assms(1,2), of "as_signed n"] arg nz by (simp add: Let_def)
  moreover have "MALLOC_ROUND_UP (kbrk s) 8 = kbrk s"
    using assms(2) round_up_8_id by (simp add: brk_ok_def)
  ultimately show ?thesis by (simp add: malloc_grow_def Let_def)
qed

section \<open>malloc\<close>

lemma minv_brk_ok: "minv kern s live \<Longrightarrow> brk_ok s" "minv kern s live \<Longrightarrow> kernel_ok kern"
  by (auto simp: minv_def brk_ok_def)

lemma setup_minv:
  assumes "kernel_ok kern" "brk_ok s" "hinv (hs s) ys (insert (m, n) live) (kbrk s)" "(m, n) \<notin> live"
    and hd: "\<forall>b \<in> live. hmem (hs s) (fst b) = snd b"
  shows "\<exists>s'. MALLOC_SETUP m n s = (m + 8, s') \<and> minv kern s' (insert (m, n) live) \<and> same_contents live s s'"
proof -
  let ?t = "set_word m n s"
  have inv: "area_ok (m, n)" "region (m, n) \<inter> regions ys = {}" "heap_rep (hs s) ys"
    using assms(3) by (auto simp: hinv_def)
  have lv: "\<forall>b \<in> live. area_ok b \<and> region b \<inter> region (m, n) = {}"
    using assms(3,4) by (auto simp: hinv_def)
  have m: "m \<in> region (m, n)" using inv(1) by (auto simp: region_def area_ok_def)
  have fr: "frame {m} (hs s) (hs ?t)" by (simp add: frame_def set_word_def)
  have "linked (hs ?t) 0 ys 0"
    using inv m by (intro linked_frame' [OF _ _ fr]) (auto simp: heap_rep_def)
  then have "heap_rep (hs ?t) ys" using inv(3) by (simp add: heap_rep_def set_word_def)
  then have "hinv (hs ?t) ys (insert (m, n) live) (kbrk ?t)"
    using assms(3) by (simp add: hinv_def set_word_def)
  moreover have "\<forall>b \<in> live. hmem (hs ?t) (fst b) = snd b"
  proof
    fix b assume b: "b \<in> live"
    then have "fst b \<in> region b" using lv by (auto simp: region_def area_ok_def)
    then have "fst b \<noteq> m" using lv m b by blast
    then show "hmem (hs ?t) (fst b) = snd b" using hd b by (simp add: set_word_def)
  qed
  ultimately have "minv kern ?t (insert (m, n) live)"
    using assms(1,2) by (auto simp: minv_def brk_ok_def set_word_def)
  moreover have "same_contents live s ?t"
    using fr by (rule frame_same_contents) (use lv m in blast)
  ultimately show ?thesis by (simp add: MALLOC_SETUP_def)
qed

lemma setup_malloc_ok:
  assumes "kernel_ok kern" "brk_ok s1" "hinv (hs s1) ys (insert (m, n) live) (kbrk s1)" "(m, n) \<notin> live"
    and "\<forall>b \<in> live. hmem (hs s1) (fst b) = snd b" "same_contents live s s1" "sz + 8 \<le> n"
  shows "\<exists>p s'. Some (MALLOC_SETUP m n s1) = Some (p, s') \<and> malloc_ok kern sz s live p s'"
proof -
  have "area_ok (m, n)" using assms(3) by (auto simp: hinv_def)
  then have "0 < m" "8 dvd m" by (auto simp: area_ok_def)
  moreover obtain s' where "MALLOC_SETUP m n s1 = (m + 8, s')" "minv kern s' (insert (m, n) live)"
    "same_contents live s1 s'"
    using setup_minv [OF assms(1-5)] by blast
  moreover have "same_contents live s s'"
    using assms(6) calculation(5) by (simp add: same_contents_def)
  ultimately show ?thesis using assms(4,7) by (fastforce simp: malloc_ok_def)
qed

lemma MALLOC_ROUND_UP_props:
  assumes "n + 4095 < 2 ^ 32"
  shows "n \<le> MALLOC_ROUND_UP n 4096" "MALLOC_ROUND_UP n 4096 \<le> n + 4095" "8 dvd MALLOC_ROUND_UP n 4096"
proof -
  have eq: "MALLOC_ROUND_UP n 4096 = round_down 4096 (n + 4095)"
    using assms by (simp add: MALLOC_ROUND_UP_def sz_add_less)
  show "n \<le> MALLOC_ROUND_UP n 4096" using round_up_ge [of 4096 n] by (simp add: eq)
  show "MALLOC_ROUND_UP n 4096 \<le> n + 4095" by (simp add: eq round_down_le)
  have "4096 dvd round_down 4096 (n + 4095)" by (rule round_down_dvd)
  then show "8 dvd MALLOC_ROUND_UP n 4096" using dvd_trans [of 8 "4096 :: nat"] by (simp add: eq)
qed

lemma alloc_size_le:
  assumes "n \<le> k" "8 dvd k" "16 \<le> k" "n + 7 < 2 ^ 32"
  shows "alloc_size n \<le> k"
proof -
  have "HEAP_ADJUST_SIZE n = round_down 8 (n + 7)"
    using assms(4) by (simp add: HEAP_ADJUST_SIZE_def sz_add_less)
  moreover have "round_down 8 (n + 7) \<le> round_down 8 (k + 7)"
    using assms(1) by (simp add: round_down_div div_le_mono)
  moreover have "round_down 8 (k + 7) = k"
    using assms(2) by (auto simp: round_down_div elim!: dvdE)
  ultimately show ?thesis using assms(3) by (simp add: alloc_size_def)
qed

lemma malloc_after_grow:
  assumes inv: "hinv h xs live lim" and b: "area_ok (lim, bs)" and bs: "alloc_size sz \<le> bs"
    and hd: "\<forall>b \<in> live. hmem h (fst b) = snd b"
  shows "\<exists>fa h2 m n h3 zs. heap_free lim bs h = Some (fa, h2) \<and> heap_alloc sz h2 = Some (m, n, h3)
    \<and> m \<noteq> 0 \<and> alloc_size sz \<le> n \<and> (m, n) \<notin> live \<and> hinv h3 zs (insert (m, n) live) (lim + bs)
    \<and> (\<forall>b \<in> live. \<forall>w \<in> region b. hmem h3 w = hmem h w)"
proof -
  note ext = hinv_extend [OF inv b]
  from hinv_free [OF ext] obtain fa h2 c where
    f: "heap_free lim bs h = Some (fa, h2)" "hinv h2 (free_list lim bs xs) live (lim + bs)"
      "frame (regions xs \<union> region (lim, bs)) h h2" "c \<in> set (free_list lim bs xs)"
      "region (lim, bs) \<subseteq> region c" by auto
  have "bs \<le> snd c"
  proof -
    have "card (region (lim, bs)) \<le> card (region c)" using f(5) by (intro card_mono) (auto simp: region_def)
    then show ?thesis by (simp add: region_def)
  qed
  then have "\<not> snd c < alloc_size sz" using bs by simp
  then have "alloc_list (alloc_size sz) (free_list lim bs xs) \<noteq> None"
    using f(4) alloc_list_None by blast
  with hinv_alloc [OF f(2), of sz] obtain m n h3 zs where
    a: "heap_alloc sz h2 = Some (m, n, h3)" "m \<noteq> 0" "alloc_size sz \<le> n" "(m, n) \<notin> live"
      "hinv h3 zs (insert (m, n) live) (lim + bs)" "frame (regions (free_list lim bs xs)) h2 h3" by auto
  have "regions (free_list lim bs xs) = region (lim, bs) \<union> regions xs"
    using free_list_props [of xs lim bs] ext(1) b by (auto simp: hinv_def heap_rep_def)
  then have "frame (regions xs \<union> region (lim, bs)) h h3"
    using frame_trans [OF f(3) a(6)] by simp
  moreover have "\<forall>b \<in> live. region b \<inter> (regions xs \<union> region (lim, bs)) = {}"
    using ext by (auto simp: hinv_def)
  ultimately have "\<forall>b \<in> live. \<forall>w \<in> region b. hmem h3 w = hmem h w"
    by (auto simp: frame_def)
  then show ?thesis using f(1) a by blast
qed

lemma live_header_in_region: "hinv h xs live lim \<Longrightarrow> b \<in> live \<Longrightarrow> fst b \<in> region b"
  by (auto simp: hinv_def region_def area_ok_def)

lemma malloc_block_size_props:
  assumes "sz + 8192 < 2 ^ 32"
  shows "sz \<le> malloc_block_size sz" "8 dvd malloc_block_size sz" "4096 \<le> malloc_block_size sz"
    "malloc_block_size sz \<le> sz + 4096" "alloc_size sz \<le> malloc_block_size sz"
proof -
  have "sz + 4095 < 2 ^ 32" using assms by simp
  note ru = MALLOC_ROUND_UP_props [OF this]
  show *: "sz \<le> malloc_block_size sz" "8 dvd malloc_block_size sz" "4096 \<le> malloc_block_size sz"
    "malloc_block_size sz \<le> sz + 4096"
    using ru by (auto simp: malloc_block_size_def)
  show "alloc_size sz \<le> malloc_block_size sz"
    using * assms by (intro alloc_size_le) auto
qed

text \<open>The free areas are too small when \<open>__heap_alloc\<close> fails, and the heap grows by whole pages.\<close>

lemma heap_alloc_no_room:
  assumes "heap_rep h xs" "heap_alloc req h = Some (0, n, h')" "req + 7 < 2 ^ 32" "a \<in> set xs"
  shows "snd a < req"
proof -
  have "alloc_list (alloc_size req) xs = None"
  proof (rule ccontr)
    assume "alloc_list (alloc_size req) xs \<noteq> None"
    then obtain m k ys where al: "alloc_list (alloc_size req) xs = Some (m, k, ys)" by auto
    then have "m = 0" using heap_alloc_sim [OF assms(1), of req] assms(2) by auto
    then show False using alloc_list_Some [OF al] assms(1) alloc_size_props by (auto simp: heap_rep_def area_ok_def)
  qed
  then have lt: "snd a < alloc_size req" using assms(4) by (simp add: alloc_list_None)
  have a: "8 dvd snd a" "16 \<le> snd a" using assms(1,4) by (auto simp: heap_rep_def areas_ok_def area_ok_def)
  have "alloc_size req = max 16 (round_down 8 (req + 7))"
    using assms(3) by (simp add: alloc_size_def HEAP_ADJUST_SIZE_def sz_add_less add.commute)
  then have "snd a < round_down 8 (req + 7)" using lt a(2) by (simp add: max_def split: if_splits)
  moreover have "8 dvd round_down 8 (req + 7)" "round_down 8 (req + 7) \<le> req + 7" by (simp_all add: round_down_dvd round_down_le)
  ultimately show ?thesis using a(1) by (auto elim!: dvdE)
qed

lemma malloc_block_pages:
  assumes "0 < n" "n + 4095 < 2 ^ 32"
  shows "malloc_block_size n = 4096 * ((n + 4095) div 4096)"
proof (cases "n < 4096")
  case True
  then have "(n + 4095) div 4096 = 1" using assms(1) by simp
  then show ?thesis using True by (simp add: malloc_block_size_def)
next
  case False
  then show ?thesis using assms(2) by (simp add: malloc_block_size_def MALLOC_ROUND_UP_def sz_add_less round_down_div)
qed

lemma malloc_extend_correct:
  assumes inv: "minv kern s live" and sz: "kbrk s + (sz + 8) + 8192 \<le> 2 ^ 32"
    and no: "\<And>xs a. heap_rep (hs s) xs \<Longrightarrow> a \<in> set xs \<Longrightarrow> snd a < sz + 8"
  shows "\<exists>p s'. malloc_extend kern (sz + 8) s = Some (p, s')
    \<and> (malloc_ok kern sz s live p s' \<or> malloc_fail kern sz s live p s')"
proof -
  note k = minv_brk_ok [OF inv]
  obtain xs where xs: "hinv (hs s) xs live (kbrk s)" and hd: "\<forall>b \<in> live. hmem (hs s) (fst b) = snd b"
    using inv by (auto simp: minv_def)
  define bs where "bs = malloc_block_size (sz + 8)"
  have bs: "8 dvd bs" "4096 \<le> bs" "bs \<le> sz + 8 + 4096" "alloc_size (sz + 8) \<le> bs"
    using malloc_block_size_props [of "sz + 8"] sz k(1) by (auto simp: bs_def brk_ok_def)
  have lim: "kbrk s + bs < 2 ^ 32" "0 < bs" using bs sz by auto
  from malloc_grow_cases [OF k(2,1) lim(2) bs(1) lim(1)] show ?thesis
  proof (elim disjE conjE)
    assume g: "malloc_grow kern bs s = (None, s\<lparr>curbrk := kbrk s, errno := ENOMEM\<rparr>)"
      "kern (kbrk s) (kbrk s + bs) = kbrk s"
    have "minv kern (s\<lparr>curbrk := kbrk s, errno := ENOMEM\<rparr>) live" using inv by (auto simp: minv_def)
    moreover have "no_memory kern sz s"
      using g(2) no malloc_block_pages [of "sz + 8"] sz by (simp add: no_memory_def bs_def)
    ultimately show ?thesis
      using g by (simp add: malloc_extend_def bs_def [symmetric] malloc_fail_def same_contents_def)
  next
    assume g: "malloc_grow kern bs s = (Some (kbrk s), s\<lparr>kbrk := kbrk s + bs, curbrk := kbrk s + bs\<rparr>)"
      "kbrk s + bs \<le> USER_TOP"
    have ok: "area_ok (kbrk s, bs)" using k(1) bs g(2) by (auto simp: area_ok_def brk_ok_def)
    from malloc_after_grow [OF xs ok bs(4) hd] obtain fa h2 m n h3 zs where
      m: "heap_free (kbrk s) bs (hs s) = Some (fa, h2)" "heap_alloc (sz + 8) h2 = Some (m, n, h3)"
        "m \<noteq> 0" "alloc_size (sz + 8) \<le> n" "(m, n) \<notin> live" "hinv h3 zs (insert (m, n) live) (kbrk s + bs)"
        "\<forall>b \<in> live. \<forall>w \<in> region b. hmem h3 w = hmem (hs s) w" by blast
    let ?s1 = "s\<lparr>kbrk := kbrk s + bs, curbrk := kbrk s + bs, hs := h3\<rparr>"
    have same: "same_contents live s ?s1" using m(7) by (simp add: same_contents_def)
    have hd': "\<forall>b \<in> live. hmem (hs ?s1) (fst b) = snd b"
      using m(7) hd live_header_in_region [OF xs] by simp
    have bk: "brk_ok ?s1" using k(1) bs(1) g(2) by (auto simp: brk_ok_def)
    have ge: "sz + 8 \<le> n" using m(4) alloc_size_props(3) [of "sz + 8"] sz k(1) by (auto simp: brk_ok_def)
    have "hinv (hs ?s1) zs (insert (m, n) live) (kbrk ?s1)" using m(6) by simp
    from setup_malloc_ok [OF k(2) bk this m(5) hd' same ge] show ?thesis
      using m(1-3) g(1) by (auto simp: malloc_extend_def bs_def [symmetric])
  qed
qed

lemma malloc_from_heap_correct:
  assumes inv: "minv kern s live" and sz: "kbrk s + (sz + 8) + 8192 \<le> 2 ^ 32"
  shows "\<exists>p s'. malloc_from_heap kern sz s = Some (p, s')
    \<and> (malloc_ok kern sz s live p s' \<or> malloc_fail kern sz s live p s')"
proof -
  note k = minv_brk_ok [OF inv]
  obtain xs where xs: "hinv (hs s) xs live (kbrk s)" and hd: "\<forall>b \<in> live. hmem (hs s) (fst b) = snd b"
    using inv by (auto simp: minv_def)
  have szh: "sz_add sz 8 = sz + 8" using sz k(1) by (intro sz_add_less) (simp add: brk_ok_def)
  from hinv_alloc [OF xs, of "sz + 8"] show ?thesis
  proof (elim disjE exE conjE)
    fix m n h' ys
    assume a: "heap_alloc (sz + 8) (hs s) = Some (m, n, h')" "m \<noteq> 0" "alloc_size (sz + 8) \<le> n"
      "(m, n) \<notin> live" "hinv h' ys (insert (m, n) live) (kbrk s)" "frame (regions xs) (hs s) h'"
    let ?s1 = "s\<lparr>hs := h'\<rparr>"
    have same: "same_contents live s ?s1"
      using a(6) xs by (intro frame_same_contents [of "regions xs"]) (auto simp: hinv_def)
    then have hd': "\<forall>b \<in> live. hmem (hs ?s1) (fst b) = snd b"
      using hd live_header_in_region [OF xs] by (auto simp: same_contents_def)
    have bk: "brk_ok ?s1" using k(1) by (simp add: brk_ok_def)
    have ge: "sz + 8 \<le> n" using a(3) alloc_size_props(3) [of "sz + 8"] sz k(1) by (auto simp: brk_ok_def)
    have "hinv (hs ?s1) ys (insert (m, n) live) (kbrk ?s1)" using a(5) by simp
    from setup_malloc_ok [OF k(2) bk this a(4) hd' same ge] show ?thesis
      using a(1,2) by (auto simp: malloc_from_heap_def szh)
  next
    assume a: "heap_alloc (sz + 8) (hs s) = Some (0, sz + 8, hs s)"
    then have "malloc_from_heap kern sz s = malloc_extend kern (sz + 8) s"
      by (simp add: malloc_from_heap_def szh)
    moreover have "sz + 8 + 7 < 2 ^ 32" using sz by simp
    ultimately show ?thesis using malloc_extend_correct [OF inv sz] heap_alloc_no_room [OF _ a] by simp
  qed
qed

lemma malloc_correct_aux:
  assumes inv: "minv kern s live" and sz: "0 < sz" "kbrk s + sz + 8200 \<le> 2 ^ 32"
  shows "\<exists>p s'. malloc kern sz s = Some (p, s')
    \<and> (malloc_ok kern sz s live p s' \<or> malloc_fail kern sz s live p s' \<and> errno s' = ENOMEM)"
proof -
  have "kbrk s + (sz + 8) + 8192 \<le> 2 ^ 32" using sz by simp
  from malloc_from_heap_correct [OF inv this] obtain p s' where
    m: "malloc_from_heap kern sz s = Some (p, s')"
       "malloc_ok kern sz s live p s' \<or> malloc_fail kern sz s live p s'" by blast
  have le: "\<not> sz > 2 ^ 32 - 2 * MALLOC_HEADER_SIZE" using sz by simp
  show ?thesis
  proof (cases "p = 0")
    case True
    then have "malloc_fail kern sz s live p s'" using m(2) by (auto simp: malloc_ok_def)
    then have "malloc_fail kern sz s live p (s'\<lparr>errno := ENOMEM\<rparr>)"
      by (simp add: malloc_fail_def minv_def same_contents_def)
    then show ?thesis using m(1) sz(1) le True by (simp add: malloc_def)
  next
    case False
    then show ?thesis using m sz(1) le by (auto simp: malloc_def malloc_fail_def)
  qed
qed

section \<open>free\<close>

lemma sbrk_shrink:
  assumes "kernel_ok kern" "brk_ok s" "0 < st" "st < kbrk s"
  shows "\<exists>nb \<in> {st, kbrk s}. snd (sbrk kern (int st - int (kbrk s)) s) = s\<lparr>kbrk := nb, curbrk := nb\<rparr>"
proof -
  let ?nb = "kern (kbrk s) st"
  have nb: "?nb \<in> {st, kbrk s}" using assms(1) by (auto simp: kernel_ok_def)
  have "st < 2 ^ 32" using assms(2,4) by (auto simp: brk_ok_def USER_TOP_def)
  then have arg: "nat ((int (kbrk s) + (int st - int (kbrk s))) mod 2 ^ 32) = st" by simp
  have "brk kern st (s\<lparr>curbrk := kbrk s\<rparr>) = (True, s\<lparr>kbrk := ?nb, curbrk := ?nb\<rparr>)"
    using nb assms(4) by (cases s) (auto simp: brk_def Let_def)
  then have "sbrk kern (int st - int (kbrk s)) s = (Some (kbrk s), s\<lparr>kbrk := ?nb, curbrk := ?nb\<rparr>)"
    using sbrk_unfold [OF assms(1,2), of "int st - int (kbrk s)"] arg assms(4) by (simp add: Let_def)
  then show ?thesis using nb by (intro bexI [of _ ?nb]) simp
qed

lemma heap_rep_regions_mem: "c \<in> set xs \<Longrightarrow> region c \<subseteq> regions xs"
  by (auto simp: regions_def)

lemma hinv_delete:
  assumes inv: "hinv h xs live lim" and c: "c \<in> set xs" and lim: "fst c + snd c = lim"
  shows "\<exists>ys. hinv (heap_delete (desc c) h) ys live (fst c) \<and> frame (regions xs) h (heap_delete (desc c) h)
    \<and> hinv (heap_delete (desc c) h) ys live lim"
proof -
  obtain ps qs where xs: "xs = ps @ c # qs" using c by (meson split_list)
  have rep: "heap_rep h (ps @ c # qs)" using inv xs by (simp add: hinv_def)
  note del = heap_delete_rep [OF rep] and sp = heap_rep_split [OF rep]
  have all: "regions xs \<union> (\<Union>b \<in> live. region b) \<subseteq> {..<lim}"
    and lv: "\<forall>b \<in> live. area_ok b \<and> region b \<inter> regions xs = {}"
    using inv by (auto simp: hinv_regions)
  have below: "w < fst c" if "w < lim" "w \<notin> region c" for w
    using that lim by (auto simp: region_def)
  have "regions (ps @ qs) \<inter> region c = {}" using sp(13,14) by auto
  moreover have "regions (ps @ qs) \<subseteq> {..<lim}" using all xs by auto
  ultimately have "regions (ps @ qs) \<subseteq> {..<fst c}" using below by blast
  moreover have "(\<Union>b \<in> live. region b) \<subseteq> {..<fst c}"
  proof
    fix w assume "w \<in> (\<Union>b \<in> live. region b)"
    then obtain b where b: "b \<in> live" "w \<in> region b" by blast
    then have "w < lim" using all by blast
    moreover have "w \<notin> region c" using b lv heap_rep_regions_mem [OF c] by blast
    ultimately show "w \<in> {..<fst c}" using below by simp
  qed
  ultimately have "hinv (heap_delete (desc c) h) (ps @ qs) live (fst c)"
    using inv del(1) xs unfolding hinv_regions by auto
  moreover from this have "hinv (heap_delete (desc c) h) (ps @ qs) live lim"
    using lim unfolding hinv_def by (meson le_add1 le_trans)
  moreover have "frame (regions xs) h (heap_delete (desc c) h)"
    using del(2) xs by (auto intro: frame_mono)
  ultimately show ?thesis by blast
qed

lemma minvI:
  assumes "kernel_ok kern" "brk_ok s" "hinv (hs s) xs live (kbrk s)" "\<forall>b \<in> live. hmem (hs s) (fst b) = snd b"
  shows "minv kern s live"
  using assms by (auto simp: minv_def brk_ok_def)

lemma same_contents_headers:
  assumes "same_contents live s t" "\<forall>b \<in> live. hmem (hs s) (fst b) = snd b" "\<forall>b \<in> live. area_ok b"
  shows "\<forall>b \<in> live. hmem (hs t) (fst b) = snd b"
  using assms by (fastforce simp: same_contents_def region_def area_ok_def)

lemma free_unmap_correct:
  assumes k: "kernel_ok kern" and b: "brk_ok s" and inv: "hinv (hs s) xs live (kbrk s)"
    and hd: "\<forall>b \<in> live. hmem (hs s) (fst b) = snd b" and c: "c \<in> set xs" and hp: "heapp \<noteq> 0"
  shows "\<exists>s'. free_unmap kern heapp (desc c) s = Some s' \<and> minv kern s' live \<and> same_contents live s s'"
proof -
  have lv: "\<forall>b \<in> live. area_ok b" "\<forall>b \<in> live. region b \<inter> regions xs = {}" and rep: "heap_rep (hs s) xs"
    using inv by (auto simp: hinv_def)
  have cok: "area_ok c" using rep c by (auto simp: heap_rep_def areas_ok_def)
  obtain ps qs where xs: "xs = ps @ c # qs" using c by (meson split_list)
  note se = rep_start_end [OF rep [unfolded xs]]
  let ?s1 = "s\<lparr>curbrk := kbrk s\<rparr>"
  have sb0: "sbrk kern 0 s = (Some (kbrk s), ?s1)" using sbrk_unfold [OF k b, of 0] by (simp add: Let_def)
  show ?thesis
  proof (cases "fst c + snd c = kbrk s")
    case False
    then have "free_unmap kern heapp (desc c) s = Some ?s1"
      using se by (simp add: free_unmap_def sb0 Let_def)
    moreover have "minv kern ?s1 live" using k b inv hd by (intro minvI) (auto simp: brk_ok_def)
    ultimately show ?thesis by (simp add: same_contents_def)
  next
    case True
    let ?h = "heap_delete (desc c) (hs s)" and ?s2 = "s\<lparr>curbrk := kbrk s, hs := heap_delete (desc c) (hs s)\<rparr>"
    from hinv_delete [OF inv c True] obtain ys where
      ys: "hinv ?h ys live (fst c)" "frame (regions xs) (hs s) ?h" "hinv ?h ys live (kbrk s)" by blast
    have st: "0 < fst c" "fst c < kbrk s" "8 dvd fst c" using cok True by (auto simp: area_ok_def)
    have b2: "brk_ok ?s2" using b by (simp add: brk_ok_def)
    have e: "kbrk ?s2 = kbrk s" by simp
    obtain nb where nb: "nb \<in> {fst c, kbrk s}"
      "snd (sbrk kern (int (fst c) - int (kbrk s)) ?s2) = ?s2\<lparr>kbrk := nb, curbrk := nb\<rparr>"
      using sbrk_shrink [OF k b2 st(1), unfolded e] st(2) by blast
    let ?t = "?s2\<lparr>kbrk := nb, curbrk := nb\<rparr>"
    have fu: "free_unmap kern heapp (desc c) s = Some ?t"
      using se True hp nb(2) by (simp add: free_unmap_def sb0 Let_def heap_is_empty_def)
    have same: "same_contents live s ?t"
      using ys(2) lv(2) by (intro frame_same_contents [of "regions xs"]) auto
    moreover have "minv kern ?t live"
      using k b st ys nb(1) same_contents_headers [OF same hd lv(1)]
      by (intro minvI) (auto simp: brk_ok_def)
    ultimately show ?thesis using fu by blast
  qed
qed

lemma free_correct_aux:
  assumes inv: "minv kern s (insert b live)" "b \<notin> live" and hp: "heapp \<noteq> 0"
  shows "\<exists>s'. free kern heapp (fst b + 8) s = Some s' \<and> minv kern s' live \<and> same_contents live s s'"
proof -
  note k = minv_brk_ok [OF inv(1)]
  obtain xs where xs: "hinv (hs s) xs (insert b live) (kbrk s)"
    and hd: "\<forall>b \<in> insert b live. hmem (hs s) (fst b) = snd b"
    using inv(1) by (auto simp: minv_def)
  from hinv_free [OF xs inv(2)] obtain fa h' c where
    f: "heap_free (fst b) (snd b) (hs s) = Some (desc c, h')" "hinv h' (free_list (fst b) (snd b) xs) live (kbrk s)"
      "frame (regions xs \<union> region b) (hs s) h'" "c \<in> set (free_list (fst b) (snd b) xs)" by auto
  let ?s1 = "s\<lparr>hs := h'\<rparr>"
  have dj: "\<forall>a \<in> live. region a \<inter> (regions xs \<union> region b) = {}" and lv: "\<forall>a \<in> live. area_ok a"
    using xs inv(2) by (auto simp: hinv_def)
  have same: "same_contents live s ?s1" using f(3) dj by (intro frame_same_contents) auto
  have hd': "\<forall>b \<in> live. hmem (hs ?s1) (fst b) = snd b"
    using same_contents_headers [OF same] hd lv by simp
  have b1: "brk_ok ?s1" and f2: "hinv (hs ?s1) (free_list (fst b) (snd b) xs) live (kbrk ?s1)"
    using k(1) f(2) by (simp_all add: brk_ok_def)
  have unf: "free kern heapp (fst b + 8) s = (if fa_size h' (desc c) < MALLOC_UNMAP_THRESHOLD then Some ?s1
      else free_unmap kern heapp (desc c) ?s1)"
    using f(1) hd by (simp add: free_def free_to_heap_def MALLOC_BASE_def MALLOC_SIZE_def)
  show ?thesis
  proof (cases "fa_size h' (desc c) < MALLOC_UNMAP_THRESHOLD")
    case True
    then show ?thesis using unf same minvI [OF k(2) b1 f2 hd'] by simp
  next
    case False
    with unf have u: "free kern heapp (fst b + 8) s = free_unmap kern heapp (desc c) ?s1" by simp
    from free_unmap_correct [OF k(2) b1 f2 hd' f(4) hp] obtain s' where
      "free_unmap kern heapp (desc c) ?s1 = Some s'" "minv kern s' live" "same_contents live ?s1 s'" by blast
    then show ?thesis using u same by (auto simp: same_contents_def)
  qed
qed

section \<open>The checker accepts the heap\<close>

lemma heap_check_loop_ok:
  assumes "heap_rep s (ps @ qs)"
  shows "heap_check_loop s (lastp 0 ps) (ptr qs 0) = Some Check_OK"
  using assms
proof (induction qs arbitrary: ps)
  case Nil
  then show ?case by (simp add: heap_check_loop.simps)
next
  case (Cons a qs)
  note sp = heap_rep_split [OF Cons.prems] and se = rep_start_end [OF Cons.prems]
  have al: "HEAP_FREE_AREA_END (desc a) mod 8 = 0" "fa_size s (desc a) mod 8 = 0"
    using se(2) sp(3,9) by (auto simp: area_ok_def)
  have gap: "\<not> (lastp 0 ps \<noteq> 0 \<and> HEAP_FREE_AREA_END (lastp 0 ps) \<ge> HEAP_FREE_AREA_START s (desc a))"
  proof (cases ps rule: rev_cases)
    case (snoc us p)
    then have "area_ok p" "before p a"
      using sp(1) Cons.prems by (auto simp: heap_rep_def areas_ok_append areas_ok_Cons)
    then show ?thesis
      using se(1) area_ok_desc(2) [of p] by (simp add: snoc HEAP_FREE_AREA_END_def before_def)
  qed simp
  have "heap_check_loop s (desc a) (ptr qs 0) = Some Check_OK"
    using Cons.IH [of "ps @ [a]"] Cons.prems by simp
  then show ?case
    using al gap se(3) sp(10,11) by (auto simp: heap_check_loop.simps [of s _ "desc a"])
qed

lemma heap_check_ok: "heap_rep s xs \<Longrightarrow> heap_check s = Some Check_OK"
  using heap_check_loop_ok [of s "[]" xs]
  by (cases xs) (auto simp: heap_check_def heap_rep_def)

end
