(* ===== verification/Malloc_Client.thy ===== *)
theory Malloc_Client
  imports Malloc
begin

text \<open>
  What the clients of \<open>malloc\<close> rely on: \<open>realloc\<close> and \<open>calloc\<close> keep their promises, a program that
  only touches its own blocks keeps the allocator's invariant, and \<open>malloc\<close>/\<open>free\<close> implement
  the \<open>allocator\<close> interface, stated as a locale.
\<close>

section \<open>Definitions\<close>

text \<open>\<open>realloc_ok\<close>: the block \<open>b\<close> became a block of at least \<open>sz\<close> usable bytes whose words, up to
  the smaller of the two sizes, are those of \<open>b\<close>.\<close>

definition realloc_ok ::
  "kernel \<Rightarrow> nat \<Rightarrow> malloc_state \<Rightarrow> area \<Rightarrow> area set \<Rightarrow> addr \<Rightarrow> malloc_state \<Rightarrow> bool" where
  "realloc_ok kern sz s b live p s' \<longleftrightarrow> (\<exists>n. 8 < p \<and> sz + 8 \<le> n \<and> (p - 8, n) \<notin> live
     \<and> minv kern s' (insert (p - 8, n) live) \<and> same_contents live s s'
     \<and> (\<forall>i. i + 8 < min (snd b) n \<longrightarrow> i mod 4 = 0 \<longrightarrow> hmem (hs s') (p + i) = hmem (hs s) (fst b + 8 + i)))"

text \<open>The byte at address \<open>a\<close> of a little-endian memory of words.\<close>

definition mem_byte :: "(addr \<Rightarrow> nat) \<Rightarrow> addr \<Rightarrow> nat" where
  "mem_byte m a = m (a - a mod 4) div 256 ^ (a mod 4) mod 256"

text \<open>\<open>malloc.c\<close> starts with the static free area \<open>initial_fa\<close> of 256 bytes at \<open>a\<close>; \<open>b\<close> is the
  kernel's break, which \<open>__curbrk\<close> does not know yet.\<close>

definition malloc_init :: "addr \<Rightarrow> addr \<Rightarrow> malloc_state" where
  "malloc_init a b =
     \<lparr>hs = \<lparr>hmem = (\<lambda>_. 0)(a + 244 := 256), heap = a + 244\<rparr>, curbrk = 0, kbrk = b, errno = 0\<rparr>"

text \<open>The requests that do not make the address arithmetic of \<open>__malloc_from_heap\<close> wrap.\<close>

definition malloc_fits :: "nat \<Rightarrow> malloc_state \<Rightarrow> bool" where
  "malloc_fits n s \<longleftrightarrow> 0 < n \<and> kbrk s + n + 8216 \<le> 2 ^ 32"

text \<open>\<open>malloc\<close> and \<open>realloc\<close> turn away a size of 0 and a size that leaves no room for the header.\<close>

definition no_wrap :: "nat \<Rightarrow> malloc_state \<Rightarrow> bool" where
  "no_wrap n s \<longleftrightarrow> n = 0 \<or> 2 ^ 32 - 16 < n \<or> kbrk s + n + 8216 \<le> 2 ^ 32"

text \<open>A program that allocates, resizes, frees and writes into its own blocks; the set is the blocks
  it holds.\<close>

inductive client_step ::
  "kernel \<Rightarrow> addr \<Rightarrow> malloc_state \<times> area set \<Rightarrow> malloc_state \<times> area set \<Rightarrow> bool" for kern h where
  c_malloc: "no_wrap n s \<Longrightarrow> malloc kern n s = Some (p, s') \<Longrightarrow> p \<noteq> 0 \<Longrightarrow>
     client_step kern h (s, live) (s', insert (p - 8, MALLOC_SIZE s' p) live)"
| c_null: "no_wrap n s \<Longrightarrow> malloc kern n s = Some (0, s') \<Longrightarrow> client_step kern h (s, live) (s', live)"
| c_free: "b \<in> live \<Longrightarrow> free kern (Suc h) (fst b + 8) s = Some s' \<Longrightarrow>
     client_step kern h (s, live) (s', live - {b})"
| c_free_null: "free kern (Suc h) 0 s = Some s' \<Longrightarrow> client_step kern h (s, live) (s', live)"
| c_realloc: "b \<in> live \<Longrightarrow> no_wrap n s \<Longrightarrow> realloc kern (Suc h) (fst b + 8) n s = Some (p, s') \<Longrightarrow>
     p \<noteq> 0 \<Longrightarrow> client_step kern h (s, live) (s', insert (p - 8, MALLOC_SIZE s' p) (live - {b}))"
| c_realloc_fails: "b \<in> live \<Longrightarrow> no_wrap n s \<Longrightarrow> n \<noteq> 0 \<Longrightarrow> realloc kern (Suc h) (fst b + 8) n s = Some (0, s') \<Longrightarrow>
     client_step kern h (s, live) (s', live)"
| c_realloc_zero: "b \<in> live \<Longrightarrow> realloc kern (Suc h) (fst b + 8) 0 s = Some (0, s') \<Longrightarrow>
     client_step kern h (s, live) (s', live - {b})"
| c_realloc_new: "no_wrap n s \<Longrightarrow> realloc kern (Suc h) 0 n s = Some (p, s') \<Longrightarrow> p \<noteq> 0 \<Longrightarrow>
     client_step kern h (s, live) (s', insert (p - 8, MALLOC_SIZE s' p) live)"
| c_realloc_null: "no_wrap n s \<Longrightarrow> realloc kern (Suc h) 0 n s = Some (0, s') \<Longrightarrow> client_step kern h (s, live) (s', live)"
| c_store: "b \<in> live \<Longrightarrow> fst b + 8 \<le> a \<Longrightarrow> a < fst b + snd b \<Longrightarrow>
     client_step kern h (s, live) (set_word a v s, live)"

inductive_cases client_stepE: "client_step kern h (s, live) t"

section \<open>Growing in place\<close>

text \<open>A successful allocation at \<open>mem\<close> takes the front of the free area there.\<close>

lemma hinv_free_area_alloc:
  assumes inv: "hinv h (a # ys) live lim" and sz: "8 dvd sz" "0 < sz" "sz \<le> snd a"
  shows "\<exists>n h' zs. heap_free_area_alloc (desc a) sz h = (n, h') \<and> sz \<le> n \<and> 8 dvd n \<and> fst a + n \<le> fst a + snd a
    \<and> heap_rep h' zs \<and> frame (region a \<union> regions ys) h h' \<and> region a \<union> regions ys = region (fst a, n) \<union> regions zs
    \<and> region (fst a, n) \<inter> regions zs = {}"
proof -
  have rep: "heap_rep h ([] @ a # ys)" using inv by (simp add: hinv_def)
  note sp = heap_rep_split [OF rep]
  have add: "sz_add sz 48 = sz + 48"
    using USER_TOP_bound(1) [OF sp(3)] sz(3) by (intro sz_add_less) simp
  show ?thesis
  proof (cases "snd a < sz + 48")
    case True
    then have "heap_free_area_alloc (desc a) sz h = (snd a, heap_delete (desc a) h)"
      using sp(9) by (simp add: heap_free_area_alloc_def add)
    then show ?thesis
      using heap_delete_rep [OF rep] sz(3) sp(3,13) by (auto simp: area_ok_def intro: frame_mono)
  next
    case False
    let ?b = "(fst a + sz, snd a - sz)"
    have ok: "areas_ok ([] @ ?b # ys)"
      using sp(2,3,5) sz False by (auto simp: areas_ok_Cons area_ok_def before_def)
    have dc: "desc ?b = desc a" using sz(3) by (simp add: desc_def)
    have r: "region a = region (fst a, sz) \<union> region ?b" "region (fst a, sz) \<inter> region ?b = {}"
      using sz(3) by (auto simp: region_def)
    have "heap_free_area_alloc (desc a) sz h = (sz, set_size (desc a) (snd ?b) h)"
      using sp(9) False by (simp add: heap_free_area_alloc_def add)
    then show ?thesis
      using set_size_rep [OF rep dc ok] sz r sp(13)
      by (intro exI [of _ sz] exI [of _ "set_size (desc a) (snd ?b) h"] exI [of _ "?b # ys"])
        (auto intro: frame_mono)
  qed
qed

section \<open>realloc\<close>

lemma region_split: "region (m, k + n) = region (m, k) \<union> region (m + k, n)"
  "region (m, k) \<inter> region (m + k, n) = {}"
  by (auto simp: region_def)

lemma set_word_frame: "frame {a} (hs s) (hs (set_word a v s))"
  by (simp add: frame_def set_word_def)

text \<open>Changing the header of a live block together with its size.\<close>

lemma resize_minv:
  assumes "kernel_ok kern" "brk_ok s" "hinv (hs s) ys (insert (m, n) live) (kbrk s)" "(m, n) \<notin> live"
    and hd: "\<forall>b \<in> live. hmem (hs s) (fst b) = snd b"
  shows "minv kern (set_word m n s) (insert (m, n) live)" "same_contents live s (set_word m n s)"
  using setup_minv [OF assms] by (auto simp: MALLOC_SETUP_def)

lemma not_live_sub:
  assumes "hinv h xs (insert b live) lim" "b \<notin> live" "region c \<inter> region b \<noteq> {}"
  shows "c \<notin> live"
  using assms by (auto simp: hinv_def)

lemma hinv_split:
  assumes "hinv h xs (insert (m, k + n) live) lim" "(m, k + n) \<notin> live" "area_ok (m, k)" "area_ok (m + k, n)"
  shows "hinv h xs (insert (m + k, n) (insert (m, k) live)) lim" "(m + k, n) \<notin> insert (m, k) live"
    "(m, k) \<notin> live"
proof -
  have lv: "\<forall>b \<in> live. region (m, k + n) \<inter> region b = {}" using assms(1,2) by (auto simp: hinv_def)
  have ne: "m \<in> region (m, k)" "m + k \<in> region (m + k, n)"
    using assms(3,4) by (auto simp: region_def area_ok_def)
  show "(m + k, n) \<notin> insert (m, k) live" "(m, k) \<notin> live"
    using lv ne assms(3) region_split [of m k n] by (auto simp: area_ok_def)
  show "hinv h xs (insert (m + k, n) (insert (m, k) live)) lim"
    using assms(1,3,4) lv region_split [of m k n] unfolding hinv_regions by auto
qed

lemma hinv_join:
  assumes inv: "hinv h xs (insert (m, k) live) lim" "(m, k) \<notin> live"
    and rep: "heap_rep h' zs" "region (m + k, n) \<union> regions zs \<subseteq> regions xs" "region (m + k, n) \<inter> regions zs = {}"
    and ok: "area_ok (m, k + n)" "0 < n"
  shows "hinv h' zs (insert (m, k + n) live) lim" "(m, k + n) \<notin> live"
proof -
  have lv: "\<forall>b \<in> live. region (m, k) \<inter> region b = {}" "\<forall>b \<in> insert (m, k) live. region b \<inter> regions xs = {}"
    using inv by (auto simp: hinv_def)
  have ok1: "area_ok (m, k)" using inv by (auto simp: hinv_def)
  have m: "m \<in> region (m, k)" "m \<in> region (m, k + n)" using ok1 by (auto simp: region_def area_ok_def)
  then show "(m, k + n) \<notin> live" using lv(1) by blast
  have sub: "regions zs \<subseteq> regions xs" "region (m + k, n) \<subseteq> regions xs" using rep(2) by auto
  have a: "region (m, k + n) \<inter> regions zs = {}"
    using lv(2) sub(1) rep(3) region_split [of m k n] by blast
  have b: "\<forall>b \<in> live. region (m, k + n) \<inter> region b = {}"
    using lv sub(2) region_split [of m k n] by blast
  have c: "\<forall>b \<in> live. region b \<inter> regions zs = {}" using lv(2) sub(1) by blast
  show "hinv h' zs (insert (m, k + n) live) lim"
    unfolding hinv_regions
  proof (intro conjI ballI impI)
    have i: "\<forall>b \<in> live. area_ok b" "\<forall>a \<in> live. \<forall>b \<in> live. a \<noteq> b \<longrightarrow> region a \<inter> region b = {}"
      using inv(1) by (simp_all add: hinv_regions)
    show "heap_rep h' zs" by (rule rep(1))
    show "area_ok b" if "b \<in> insert (m, k + n) live" for b using that i(1) ok(1) by blast
    show "region b \<inter> regions zs = {}" if "b \<in> insert (m, k + n) live" for b using that a c by blast
    show "region x \<inter> region y = {}" if "x \<in> insert (m, k + n) live" "y \<in> insert (m, k + n) live" "x \<noteq> y" for x y
      using that i(2) b by blast
    have "regions xs \<union> (\<Union>b \<in> insert (m, k) live. region b) \<subseteq> {..<lim}"
      using inv(1) by (simp add: hinv_regions)
    then show "regions zs \<union> (\<Union>b \<in> insert (m, k + n) live. region b) \<subseteq> {..<lim}"
      using sub region_split(1) [of m k n] by blast
  qed
qed

lemma realloc_shrink_ok:
  assumes inv: "minv kern s (insert (m, k + n) live)" "(m, k + n) \<notin> live"
    and ok: "area_ok (m, k)" "area_ok (m + k, n)" and sz: "sz + 8 \<le> k"
  shows "\<exists>fa h. heap_free (m + k) n (hs s) = Some (fa, h)
    \<and> realloc_ok kern sz s (m, k + n) live (m + 8) (set_word m k (s\<lparr>hs := h\<rparr>))"
proof -
  note kb = minv_brk_ok [OF inv(1)]
  obtain xs where xs: "hinv (hs s) xs (insert (m, k + n) live) (kbrk s)"
    and hd: "\<forall>b \<in> live. hmem (hs s) (fst b) = snd b" using inv(1) by (auto simp: minv_def)
  note sp = hinv_split [OF xs inv(2) ok]
  from hinv_free [OF sp(1,2)] obtain fa h where
    f: "heap_free (m + k) n (hs s) = Some (fa, h)" "hinv h (free_list (m + k) n xs) (insert (m, k) live) (kbrk s)"
      "frame (regions xs \<union> region (m + k, n)) (hs s) h" by auto
  let ?s1 = "s\<lparr>hs := h\<rparr>"
  have dj: "\<forall>b \<in> insert (m, k) live. region b \<inter> (regions xs \<union> region (m + k, n)) = {}"
    using sp(1,2) by (auto simp: hinv_def)
  have sc: "same_contents (insert (m, k) live) s ?s1"
    using f(3) dj by (intro frame_same_contents) auto
  have lv: "\<forall>b \<in> live. area_ok b" using xs by (auto simp: hinv_def)
  have same: "same_contents live s ?s1" using sc by (simp add: same_contents_def)
  have hd1: "\<forall>b \<in> live. hmem (hs ?s1) (fst b) = snd b"
    using same_contents_headers [OF same hd lv] .
  have b1: "brk_ok ?s1" and inv1: "hinv (hs ?s1) (free_list (m + k) n xs) (insert (m, k) live) (kbrk ?s1)"
    using kb(1) f(2) by (simp_all add: brk_ok_def)
  note rs = resize_minv [OF kb(2) b1 inv1 sp(3) hd1]
  have "hmem (hs (set_word m k ?s1)) (m + 8 + i) = hmem (hs s) (m + 8 + i)" if "i + 8 < k" for i
    using sc that by (auto simp: set_word_def same_contents_def region_def)
  then show ?thesis
    using f(1) rs same sp(3) sz ok(1)
    by (auto simp: realloc_ok_def same_contents_def area_ok_def intro!: exI [of _ k])
qed

lemma realloc_grow_ok:
  assumes inv: "minv kern s (insert (m, k) live)" "(m, k) \<notin> live" and ex: "8 dvd ex" "0 < ex"
    and at: "heap_alloc_at (m + k) ex (hs s) = Some (extra, h)" "extra \<noteq> 0" and sz: "sz + 8 \<le> k + ex"
    and lt: "ex < 2 ^ 32 - 8"
  shows "realloc_ok kern sz s (m, k) live (m + 8) (set_word m (k + extra) (s\<lparr>hs := h\<rparr>))"
proof -
  note kb = minv_brk_ok [OF inv(1)]
  obtain xs where xs: "hinv (hs s) xs (insert (m, k) live) (kbrk s)"
    and hd: "\<forall>b \<in> live. hmem (hs s) (fst b) = snd b" using inv(1) by (auto simp: minv_def)
  have rep: "heap_rep (hs s) xs" and okm: "area_ok (m, k)" using xs by (auto simp: hinv_def)
  have adj: "HEAP_ADJUST_SIZE ex = ex"
    using ex(1) lt by (auto simp: HEAP_ADJUST_SIZE_def sz_add_less round_down_div elim!: dvdE)
  obtain a ys where a: "xs = a # ys" "fst a = m + k" "ex \<le> snd a"
    "heap_free_area_alloc (desc a) ex (hs s) = (extra, h)"
  proof (cases xs)
    case Nil
    then show ?thesis using heap_alloc_at_empty [of "hs s"] rep at by simp
  next
    case (Cons a ys)
    then show ?thesis
      using that heap_alloc_at_first_area [of "hs s" a ys "m + k" ex] rep at adj by (auto split: if_splits)
  qed
  obtain zs where z: "ex \<le> extra" "8 dvd extra" "m + k + extra \<le> fst a + snd a" "heap_rep h zs"
      "frame (regions xs) (hs s) h" "region (m + k, extra) \<union> regions zs = regions xs"
      "region (m + k, extra) \<inter> regions zs = {}"
    using hinv_free_area_alloc [OF xs [unfolded a(1)] ex a(3)] a(1,2,4) by auto
  have "area_ok a" using rep a(1) by (simp add: heap_rep_def areas_ok_Cons)
  then have ok: "area_ok (m, k + extra)" using okm z(2,3) by (auto simp: area_ok_def)
  have pos: "0 < extra" using z(1) ex by simp
  note j = hinv_join [OF xs inv(2) z(4) _ z(7) ok pos]
  let ?s1 = "s\<lparr>hs := h\<rparr>"
  have dj: "\<forall>b \<in> insert (m, k) live. region b \<inter> regions xs = {}" using xs by (auto simp: hinv_def)
  have sc: "same_contents (insert (m, k) live) s ?s1" using z(5) dj by (intro frame_same_contents) auto
  have lv: "\<forall>b \<in> live. area_ok b" using xs by (auto simp: hinv_def)
  have same: "same_contents live s ?s1" using sc by (simp add: same_contents_def)
  have hd1: "\<forall>b \<in> live. hmem (hs ?s1) (fst b) = snd b" using same_contents_headers [OF same hd lv] .
  have b1: "brk_ok ?s1" and inv1: "hinv (hs ?s1) zs (insert (m, k + extra) live) (kbrk ?s1)"
    using kb(1) j(1) z(6) by (simp_all add: brk_ok_def)
  have jn: "(m, k + extra) \<notin> live" using j(2) z(6) by simp
  note rs = resize_minv [OF kb(2) b1 inv1 jn hd1]
  have "hmem (hs (set_word m (k + extra) ?s1)) (m + 8 + i) = hmem (hs s) (m + 8 + i)" if "i + 8 < k" for i
    using sc that by (auto simp: set_word_def same_contents_def region_def)
  moreover have "0 < m" "sz + 8 \<le> k + extra" using okm sz z(1) by (auto simp: area_ok_def)
  ultimately show ?thesis
    using rs same jn by (auto simp: realloc_ok_def same_contents_def intro!: exI [of _ "k + extra"])
qed

section \<open>Writes of the owner of a block\<close>

text \<open>A write inside the user part of a live block keeps the invariant and the other blocks.\<close>

lemma write_minv:
  assumes inv: "minv kern s (insert b live)" "b \<notin> live"
    and fr: "frame A (hs s) h" "heap h = heap (hs s)" "A \<subseteq> region b - {fst b}"
  shows "minv kern (s\<lparr>hs := h\<rparr>) (insert b live)" "same_contents live s (s\<lparr>hs := h\<rparr>)"
proof -
  obtain xs where xs: "hinv (hs s) xs (insert b live) (kbrk s)"
    and hd: "\<forall>c \<in> insert b live. hmem (hs s) (fst c) = snd c" using inv(1) by (auto simp: minv_def)
  have rep: "heap_rep (hs s) xs" and dj: "region b \<inter> regions xs = {}"
    and lv: "\<forall>c \<in> live. region c \<inter> region b = {}" and ok: "\<forall>c \<in> insert b live. area_ok c"
    using xs inv(2) by (auto simp: hinv_def)
  have "linked h 0 xs 0"
    using rep dj fr(3) by (intro linked_frame' [OF _ _ fr(1)]) (auto simp: heap_rep_def)
  then have rep': "heap_rep h xs" using rep fr(2) by (simp add: heap_rep_def)
  then have h: "hinv h xs (insert b live) (kbrk s)" using xs by (simp add: hinv_def)
  show sc: "same_contents live s (s\<lparr>hs := h\<rparr>)"
    using fr(1) lv fr(3) by (intro frame_same_contents [of A]) auto
  have "\<forall>c \<in> live. hmem h (fst c) = snd c"
    using same_contents_headers [OF sc] hd ok by simp
  moreover have "hmem h (fst b) = snd b" using fr(1,3) hd by (auto simp: frame_def)
  ultimately show "minv kern (s\<lparr>hs := h\<rparr>) (insert b live)"
    using h inv(1) by (auto simp: minv_def)
qed

declare copy_words.simps [simp del] zero_words.simps [simp del]

lemma copy_words_frame: "4 dvd n \<Longrightarrow> frame {d..<d + n} h (h\<lparr>hmem := copy_words d p n (hmem h)\<rparr>)"
proof (induction n arbitrary: d p h rule: less_induct)
  case (less n)
  show ?case
  proof (cases "n = 0")
    case False
    then have n: "4 \<le> n" using less.prems by (auto elim: dvdE)
    have "4 dvd n - 4" using less.prems n by simp
    with less.IH [of "n - 4" "d + 4" "h\<lparr>hmem := (hmem h)(d := hmem h p)\<rparr>" "p + 4"] n
    have "frame {d + 4..<d + n} (h\<lparr>hmem := (hmem h)(d := hmem h p)\<rparr>)
        (h\<lparr>hmem := copy_words d p n (hmem h)\<rparr>)" by (subst copy_words.simps) (simp del: fun_upd_apply)
    then show ?thesis using n by (simp add: frame_def)
  qed (simp add: copy_words.simps)
qed

lemma copy_words_copies:
  assumes "4 dvd n" "{d..<d + n} \<inter> {p..<p + n} = {}" "i < n" "i mod 4 = 0"
  shows "copy_words d p n m (d + i) = m (p + i)"
  using assms
proof (induction n arbitrary: d p m i rule: less_induct)
  case (less n)
  have n: "4 \<le> n" "4 dvd n - 4" using less.prems(1,3) by (auto elim!: dvdE)
  have dj: "{d + 4..<d + 4 + (n - 4)} \<inter> {p + 4..<p + 4 + (n - 4)} = {}" using less.prems(2) n by fastforce
  let ?m = "m(d := m p)"
  have st: "copy_words d p n m = copy_words (d + 4) (p + 4) (n - 4) ?m" using n by (simp add: copy_words.simps [of d p n])
  show ?case
  proof (cases "i = 0")
    case True
    then show ?thesis
      using copy_words_frame [OF n(2), of "d + 4" "\<lparr>hmem = ?m, heap = 0\<rparr>" "p + 4"] st
      by (simp add: frame_def)
  next
    case False
    then have i: "4 \<le> i" "(i - 4) mod 4 = 0" using less.prems(4) by presburger+
    have "p + i \<noteq> d" using less.prems(2,3) n by fastforce
    then show ?thesis
      using less.IH [OF _ n(2) dj, of "i - 4" ?m] less.prems(3) i n st
      by (simp del: fun_upd_apply add: fun_upd_other)
  qed
qed

text \<open>The request of \<open>realloc\<close> is rounded up to 8 bytes, which does not change what it needs.\<close>

lemma pages_rounded:
  assumes "8 dvd (new :: nat)" "n \<le> new" "new \<le> n + 7"
  shows "(new + 4095) div 4096 = (n + 4095) div 4096"
proof -
  define r where "r = (new + 4095) mod 4096"
  have "r mod 8 = (new + 4095) mod 8" unfolding r_def by (rule mod_mod_cancel) simp
  also have "\<dots> = 7" using assms(1) by (auto elim!: dvdE)
  finally have "r mod 8 = 7" .
  then have r: "7 \<le> r" "r < 4096" using mod_less_eq_dividend [of r 8] by (simp_all add: r_def)
  have "new + 4095 = 4096 * ((new + 4095) div 4096) + r" unfolding r_def by simp
  then have "n + 4095 = 4096 * ((new + 4095) div 4096) + (r - (new - n))" using assms(2,3) r by linarith
  moreover have "r - (new - n) < 4096" using r by simp
  ultimately show ?thesis by (metis add.commute div_mult_self4 div_less add_0_right mult.commute zero_neq_numeral)
qed

lemma no_memory_rounded:
  assumes "8 dvd new" "sz + 8 \<le> new" "new \<le> sz + 15" "no_memory kern (new - 8) s"
  shows "no_memory kern sz s"
proof -
  obtain q where q: "new = 8 * q" using assms(1) by (auto elim: dvdE)
  have new: "new - 8 + 8 = new" using assms(2) by simp
  have "(new + 4095) div 4096 = (sz + 8 + 4095) div 4096" using pages_rounded [of new "sz + 8"] assms(1-3) by simp
  moreover have "snd a < sz + 8" if "heap_rep (hs s) xs" "a \<in> set xs" for xs a
  proof -
    have "snd a < new" using assms(4) that new by (auto simp: no_memory_def)
    moreover have "8 dvd snd a" using that by (auto simp: heap_rep_def areas_ok_def area_ok_def)
    ultimately show ?thesis using assms(3) unfolding q by (auto elim!: dvdE)
  qed
  ultimately show ?thesis using assms(4) new by (simp add: no_memory_def)
qed

lemma realloc_move_ok:
  assumes inv: "minv kern s (insert (m, k) live)" "(m, k) \<notin> live" and hp: "heapp \<noteq> 0"
    and new: "k < new" "8 dvd new" "kbrk s + new + 8192 \<le> 2 ^ 32" and sz: "sz + 8 \<le> new" "new \<le> sz + 15"
  shows "\<exists>p s'. realloc_move kern heapp (m + 8) k new s = Some (p, s')
    \<and> (realloc_ok kern sz s (m, k) live p s' \<or> malloc_fail kern sz s (insert (m, k) live) p s' \<and> errno s' = ENOMEM)"
proof -
  have okm: "area_ok (m, k)" using inv(1) by (auto simp: minv_def hinv_def)
  have "0 < new - 8" "kbrk s + (new - 8) + 8200 \<le> 2 ^ 32" using new okm by (auto simp: area_ok_def HEAP_MIN_SIZE_def)
  from malloc_correct_aux [OF inv(1) this] obtain q s1 where
    q: "malloc kern (new - 8) s = Some (q, s1)"
      "malloc_ok kern (new - 8) s (insert (m, k) live) q s1
        \<or> malloc_fail kern (new - 8) s (insert (m, k) live) q s1 \<and> errno s1 = ENOMEM"
    by blast
  show ?thesis
  proof (cases "malloc_fail kern (new - 8) s (insert (m, k) live) q s1 \<and> errno s1 = ENOMEM")
    case True
    then have "malloc_fail kern sz s (insert (m, k) live) q s1 \<and> errno s1 = ENOMEM"
      using no_memory_rounded [OF new(2) sz(1,2)] by (simp add: malloc_fail_def)
    then show ?thesis using q(1) by (auto simp: realloc_move_def malloc_fail_def)
  next
    case False
    then obtain n where n: "new \<le> n" "(q - 8, n) \<notin> insert (m, k) live" "8 < q"
      "minv kern s1 (insert (q - 8, n) (insert (m, k) live))" "same_contents (insert (m, k) live) s s1"
      using q(2) new(1) okm unfolding malloc_ok_def
      by (auto simp del: insert_iff simp: area_ok_def HEAP_MIN_SIZE_def)
    let ?b = "(q - 8, n)"
    let ?h = "(hs s1)\<lparr>hmem := copy_words q (m + 8) (k - 8) (hmem (hs s1))\<rparr>"
    let ?s2 = "s1\<lparr>hs := ?h\<rparr>"
    have k8: "8 \<le> k" "4 dvd k - 8" using okm by (auto simp: area_ok_def HEAP_MIN_SIZE_def elim!: dvdE)
    have fr: "frame {q..<q + (k - 8)} (hs s1) ?h" by (rule copy_words_frame [OF k8(2)])
    have sub: "{q..<q + (k - 8)} \<subseteq> region ?b - {fst ?b}" using n(1,3) new(1) k8(1) by (auto simp: region_def)
    have w: "minv kern ?s2 (insert ?b (insert (m, k) live))" "same_contents (insert (m, k) live) s1 ?s2"
      using write_minv [OF n(4,2) fr _ sub] by simp_all
    have dj: "region ?b \<inter> region (m, k) = {}" using n(2,4) by (auto simp: minv_def hinv_def)
    have dj2: "{q..<q + (k - 8)} \<inter> {m + 8..<m + 8 + (k - 8)} = {}"
      using dj sub k8(1) by (fastforce simp: region_def)
    have c: "hmem ?h (q + i) = hmem (hs s) (m + 8 + i)" if "i + 8 < k" "i mod 4 = 0" for i
      using copy_words_copies [OF k8(2) dj2, of i] that n(5) by (simp add: same_contents_def region_def)
    have w': "minv kern ?s2 (insert (m, k) (insert ?b live))" using w(1) by (simp add: insert_commute)
    have nl: "(m, k) \<notin> insert ?b live" using inv(2) n(2) by auto
    from free_correct_aux [OF w' nl hp] obtain s3 where
      s3: "free kern heapp (m + 8) ?s2 = Some s3" "minv kern s3 (insert ?b live)"
        "same_contents (insert ?b live) ?s2 s3" by auto
    have "hmem (hs s3) (q + i) = hmem (hs s) (m + 8 + i)" if "i + 8 < k" "i mod 4 = 0" for i
    proof -
      have "q + i \<in> region ?b" using that n(1,3) new(1) by (auto simp: region_def)
      then have "hmem (hs s3) (q + i) = hmem ?h (q + i)" using s3(3) by (auto simp: same_contents_def)
      then show ?thesis using c that by simp
    qed
    moreover have "same_contents live s s3"
      using n(5) w(2) s3(3) by (simp add: same_contents_def)
    ultimately have "realloc_ok kern sz s (m, k) live q s3"
      using n(1,2,3) s3(2) sz by (auto simp: realloc_ok_def intro!: exI [of _ n])
    moreover have "realloc_move kern heapp (m + 8) k new s = Some (q, s3)"
      using q(1) n(3) s3(1) by (simp add: realloc_move_def)
    ultimately show ?thesis by blast
  qed
qed

lemma realloc_size:
  assumes "0 < sz" "sz + 64 \<le> 2 ^ 32"
  defines "new0 \<equiv> HEAP_ADJUST_SIZE (sz_add sz MALLOC_HEADER_SIZE)"
  defines "new \<equiv> (if new0 < sizeof_heap_free_area then HEAP_ADJUST_SIZE sizeof_heap_free_area else new0)"
  shows "8 dvd new" "sz + 8 \<le> new" "new \<le> sz + 15" "16 \<le> new" "HEAP_MIN_SIZE \<le> new"
proof -
  have "8 dvd new0" "sz + 8 \<le> new0" "new0 \<le> sz + 15"
    using assms(2) round_up_ge [of 8 "sz + 8"] round_down_le [of 8 "sz + 15"]
    by (auto simp: new0_def HEAP_ADJUST_SIZE_def sz_add_less round_down_dvd add.commute)
  moreover have "new0 < 12 \<Longrightarrow> False" using calculation assms(1) by (auto elim!: dvdE)
  ultimately show "8 dvd new" "sz + 8 \<le> new" "new \<le> sz + 15" "16 \<le> new" "HEAP_MIN_SIZE \<le> new"
    using assms(1) by (auto simp: new_def sizeof_heap_free_area_def HEAP_MIN_SIZE_def elim!: dvdE)
qed

lemma heap_alloc_at_cases:
  assumes "heap_rep h xs" "0 < n" "n + 7 < 2 ^ 32"
  shows "\<exists>e h'. heap_alloc_at mem n h = Some (e, h') \<and> (e = 0 \<longrightarrow> h' = h)"
proof (cases xs)
  case Nil
  then show ?thesis using heap_alloc_at_empty assms by simp
next
  case (Cons a ys)
  have "fa_size h (desc a) = snd a" "area_ok a"
    using heap_rep_split(3,9) [of h "[]" a ys] assms(1) Cons by simp_all
  then have "fst (heap_free_area_alloc (desc a) z h) \<noteq> 0" if "0 < z" for z
    using that by (auto simp: heap_free_area_alloc_def area_ok_def Let_def)
  moreover have "0 < HEAP_ADJUST_SIZE n" using HEAP_ADJUST_SIZE_ge [OF assms(3)] assms(2) by linarith
  ultimately have nz: "fst (heap_free_area_alloc (desc a) (HEAP_ADJUST_SIZE n) h) \<noteq> 0" by blast
  obtain e h' where e: "heap_free_area_alloc (desc a) (HEAP_ADJUST_SIZE n) h = (e, h')" by fastforce
  have "heap_rep h (a # ys)" using assms(1) Cons by simp
  then show ?thesis using heap_alloc_at_first_area [of h a ys mem n] nz unfolding e by simp
qed

lemma realloc_correct_aux:
  assumes inv: "minv kern s (insert b live)" "b \<notin> live" and hp: "heapp \<noteq> 0"
    and sz: "0 < sz" "kbrk s + sz + 8216 \<le> 2 ^ 32"
  shows "\<exists>p s'. realloc kern heapp (fst b + 8) sz s = Some (p, s')
    \<and> (realloc_ok kern sz s b live p s'
       \<or> malloc_fail kern sz s (insert b live) p s' \<and> errno s' = ENOMEM \<and> snd b < sz + 8)"
proof -
  obtain m k where b: "b = (m, k)" by fastforce
  note inv = inv [unfolded b]
  have okm: "area_ok (m, k)" and hd: "hmem (hs s) m = k" using inv(1) by (auto simp: minv_def hinv_def)
  define new0 where "new0 = HEAP_ADJUST_SIZE (sz_add sz MALLOC_HEADER_SIZE)"
  define new where "new = (if new0 < sizeof_heap_free_area then HEAP_ADJUST_SIZE sizeof_heap_free_area else new0)"
  have "sz + 64 \<le> 2 ^ 32" using sz by simp
  note nw = realloc_size [OF sz(1) this, folded new0_def, folded new_def]
  have sm: "\<not> sz > 2 ^ 32 - 2 * MALLOC_HEADER_SIZE" using sz(2) by simp
  have base: "MALLOC_BASE (m + 8) = m" "MALLOC_SIZE s (m + 8) = k"
    using hd by (simp_all add: MALLOC_BASE_def MALLOC_SIZE_def)
  have unf: "realloc kern heapp (m + 8) sz s =
      (if new > k then
         (case heap_alloc_at (m + k) (new - k) (hs s) of
            None \<Rightarrow> None
          | Some (extra, h) \<Rightarrow>
              if extra \<noteq> 0 then Some (m + 8, set_word m (k + extra) (s\<lparr>hs := h\<rparr>))
              else realloc_move kern heapp (m + 8) k new (s\<lparr>hs := h\<rparr>))
       else if sz_add new MALLOC_REALLOC_MIN_FREE_SIZE \<le> k then
         (case heap_free (m + new) (k - new) (hs s) of
            None \<Rightarrow> None
          | Some (_, h) \<Rightarrow> Some (m + 8, set_word m new (s\<lparr>hs := h\<rparr>)))
       else Some (m + 8, s))"
    unfolding realloc_def base Let_def new_def new0_def using sz(1) sm by simp
  consider "new > k" | "new \<le> k" "sz_add new MALLOC_REALLOC_MIN_FREE_SIZE \<le> k"
    | "new \<le> k" "\<not> sz_add new MALLOC_REALLOC_MIN_FREE_SIZE \<le> k" by linarith
  then show ?thesis
  proof cases
    case 1
    obtain xs where rep: "heap_rep (hs s) xs" using inv(1) by (auto simp: minv_def hinv_def)
    have "\<exists>e h. heap_alloc_at (m + k) (new - k) (hs s) = Some (e, h) \<and> (e = 0 \<longrightarrow> h = hs s)"
      using heap_alloc_at_cases [OF rep, of "new - k"] 1 sz(2) nw(3) by simp
    then obtain e h where e: "heap_alloc_at (m + k) (new - k) (hs s) = Some (e, h)" "e = 0 \<longrightarrow> h = hs s" by blast
    have dv: "8 dvd new - k" "0 < new - k" "new - k < 2 ^ 32 - 8" using nw okm 1 sz(2) by (auto simp: area_ok_def)
    show ?thesis
    proof (cases "e = 0")
      case True
      have "kbrk s + new + 8192 \<le> 2 ^ 32" using sz(2) nw(3) by simp
      from realloc_move_ok [OF inv hp 1 nw(1) this nw(2,3)] obtain p s' where
        r: "realloc_move kern heapp (m + 8) k new s = Some (p, s')"
          "realloc_ok kern sz s (m, k) live p s' \<or> malloc_fail kern sz s (insert (m, k) live) p s' \<and> errno s' = ENOMEM" by blast
      moreover have "k < sz + 8" using okm 1 nw(1,3) by (auto simp: area_ok_def elim!: dvdE)
      ultimately show ?thesis using True e 1 unfolding b by (auto simp: unf)
    next
      case False
      then have "realloc_ok kern sz s (m, k) live (m + 8) (set_word m (k + e) (s\<lparr>hs := h\<rparr>))"
        using nw(2) 1 by (intro realloc_grow_ok [OF inv dv(1,2) e(1) _ _ dv(3)]) auto
      then show ?thesis using 1 e False unfolding b by (simp add: unf)
    qed
  next
    case 2
    have "new + 32 < 2 ^ 32" using sz nw(3) by simp
    then have gap: "new + 32 \<le> k" using 2(2) by (simp add: sz_add_less)
    have ok: "area_ok (m, new)" "area_ok (m + new, k - new)"
      using okm nw gap by (auto simp: area_ok_def)
    have k: "k = new + (k - new)" using 2 by simp
    have i: "minv kern s (insert (m, new + (k - new)) live)" "(m, new + (k - new)) \<notin> live" using inv k by simp_all
    from realloc_shrink_ok [OF i ok nw(2)] k show ?thesis using 2 unfolding b by (auto simp: unf)
  next
    case 3
    then have "realloc_ok kern sz s (m, k) live (m + 8) s"
      using inv nw(2) okm by (auto simp: realloc_ok_def same_contents_def area_ok_def intro!: exI [of _ k])
    then show ?thesis using 3 unfolding b by (simp add: unf)
  qed
qed

section \<open>calloc\<close>

lemma zero_words_frame: "frame {p..<p + n} h (h\<lparr>hmem := zero_words p n (hmem h)\<rparr>)"
proof (induction n arbitrary: p h rule: less_induct)
  case (less n)
  show ?case
  proof (cases "4 \<le> n")
    case True
    with less.IH [of "n - 4" "p + 4" "h\<lparr>hmem := (hmem h)(p := 0)\<rparr>"]
    have "frame {p + 4..<p + n} (h\<lparr>hmem := (hmem h)(p := 0)\<rparr>) (h\<lparr>hmem := zero_words p n (hmem h)\<rparr>)"
      by (subst zero_words.simps) (simp del: fun_upd_apply)
    then show ?thesis using True by (simp add: frame_def)
  qed (auto simp: zero_words.simps frame_def)
qed

lemma low_bytes_zero: "i < n \<Longrightarrow> (w div 256 ^ n * 256 ^ n) div 256 ^ i mod (256::nat) = 0"
proof -
  assume "i < n"
  then obtain k where k: "n = i + Suc k" using less_iff_Suc_add by auto
  have "(w div 256 ^ n * 256 ^ n) = (w div 256 ^ n * 256 ^ k * 256) * 256 ^ i"
    unfolding k by (simp add: power_add)
  then have "(w div 256 ^ n * 256 ^ n) div 256 ^ i = w div 256 ^ n * 256 ^ k * 256"
    by (simp only: nonzero_mult_div_cancel_right [of "256 ^ i :: nat"] power_not_zero) simp
  then show ?thesis by simp
qed

lemma zero_words_byte:
  assumes "i < n" "p mod 4 = 0"
  shows "mem_byte (zero_words p n m) (p + i) = 0"
  using assms
proof (induction n arbitrary: p m i rule: less_induct)
  case (less n)
  have im: "(p + i) mod 4 = i mod 4" using less.prems(2) by presburger
  show ?case
  proof (cases "4 \<le> n")
    case False
    then have "zero_words p n m = m(p := m p div 256 ^ n * 256 ^ n)" "i mod 4 = i"
      using less.prems(1) by (auto simp: zero_words.simps)
    then show ?thesis using low_bytes_zero [OF less.prems(1)] im by (simp add: mem_byte_def)
  next
    case True
    have st: "zero_words p n m = zero_words (p + 4) (n - 4) (m(p := 0))"
      using True by (simp add: zero_words.simps [of p n])
    show ?thesis
    proof (cases "i < 4")
      case i: True
      have "zero_words (p + 4) (n - 4) (m(p := 0)) p = 0"
        using zero_words_frame [of "p + 4" "n - 4" "\<lparr>hmem = m(p := 0), heap = 0\<rparr>"] by (simp add: frame_def)
      then show ?thesis using i im by (simp add: mem_byte_def st)
    next
      case i: False
      have "(p + 4) mod 4 = 0" using less.prems(2) by presburger
      then show ?thesis using less.IH [of "n - 4" "i - 4" "p + 4"] i True less.prems(1) by (simp add: st)
    qed
  qed
qed

lemma calloc_overflow_iff:
  fixes lsize nmemb :: nat
  assumes "lsize < 2 ^ 32" "nmemb < 2 ^ 32"
  shows "(nmemb \<noteq> 0 \<and> lsize \<noteq> lsize * nmemb mod 2 ^ 32 div nmemb) = (2 ^ 32 \<le> lsize * nmemb)"
proof (cases "2 ^ 32 \<le> lsize * nmemb")
  case True
  then have n: "nmemb \<noteq> 0" "lsize \<noteq> 0" by (auto intro: Nat.gr0I)
  have "lsize * nmemb mod 2 ^ 32 \<le> lsize * nmemb - 2 ^ 32"
    using True by (metis le_mod_geq mod_less_eq_dividend)
  also have "\<dots> < (lsize - 1) * nmemb + nmemb - nmemb + 1"
    using assms(2) True by (cases lsize) auto
  finally have "lsize * nmemb mod 2 ^ 32 \<le> (lsize - 1) * nmemb" by simp
  then have "lsize * nmemb mod 2 ^ 32 div nmemb \<le> lsize - 1"
    using n by (metis div_le_mono nonzero_mult_div_cancel_right)
  then show ?thesis using True n by auto
qed auto

lemma calloc_correct_aux:
  assumes inv: "minv kern s live" and lt: "lsize < 2 ^ 32" "nmemb < 2 ^ 32"
    and sz: "0 < lsize * nmemb" "kbrk s + lsize * nmemb + 8200 \<le> 2 ^ 32"
  shows "\<exists>p s'. calloc kern nmemb lsize s = Some (p, s')
    \<and> (malloc_ok kern (lsize * nmemb) s live p s' \<and> (\<forall>i < lsize * nmemb. mem_byte (hmem (hs s')) (p + i) = 0)
       \<or> malloc_fail kern (lsize * nmemb) s live p s' \<and> errno s' = ENOMEM)"
proof -
  let ?n = "lsize * nmemb"
  have n: "?n mod 2 ^ 32 = ?n" "\<not> (nmemb \<noteq> 0 \<and> lsize \<noteq> ?n mod 2 ^ 32 div nmemb)"
    using sz(2) calloc_overflow_iff [OF lt] by simp_all
  from malloc_correct_aux [OF inv sz] obtain p s1 where
    m: "malloc kern ?n s = Some (p, s1)"
      "malloc_ok kern ?n s live p s1 \<or> malloc_fail kern ?n s live p s1 \<and> errno s1 = ENOMEM" by blast
  show ?thesis
  proof (cases "malloc_ok kern ?n s live p s1")
    case False
    then have "malloc_fail kern (lsize * nmemb) s live p s1 \<and> errno s1 = ENOMEM" using m(2) by blast
    moreover from this have "p = 0" by (simp add: malloc_fail_def)
    ultimately show ?thesis using m(1) n by (auto simp: calloc_def)
  next
    case True
    then obtain k where k: "8 dvd p" "?n + 8 \<le> k" "(p - 8, k) \<notin> live" "8 < p"
      "minv kern s1 (insert (p - 8, k) live)" "same_contents live s s1" by (auto simp: malloc_ok_def)
    let ?h = "(hs s1)\<lparr>hmem := zero_words p ?n (hmem (hs s1))\<rparr>"
    let ?s2 = "s1\<lparr>hs := ?h\<rparr>"
    have sub: "{p..<p + ?n} \<subseteq> region (p - 8, k) - {fst (p - 8, k)}" using k(2,4) by (auto simp: region_def)
    have w: "minv kern ?s2 (insert (p - 8, k) live)" "same_contents live s1 ?s2"
      using write_minv [OF k(5,3) zero_words_frame _ sub] by simp_all
    have "same_contents live s ?s2" using k(6) w(2) by (simp add: same_contents_def)
    then have "malloc_ok kern ?n s live p ?s2" using k w(1) by (auto simp: malloc_ok_def)
    moreover have "p mod 4 = 0" using k(1) by presburger
    then have "\<forall>i < ?n. mem_byte (hmem (hs ?s2)) (p + i) = 0" using zero_words_byte by simp
    moreover have "calloc kern nmemb lsize s = Some (p, ?s2)"
      using m(1) n k(4) sz(1) by (auto simp: calloc_def)
    ultimately show ?thesis by blast
  qed
qed

section \<open>The program start\<close>

lemma malloc_init_minv:
  assumes "kernel_ok kern" "0 < a" "8 dvd a" "a + 256 \<le> b" "8 dvd b" "b \<le> USER_TOP"
  shows "minv kern (malloc_init a b) {}"
proof -
  have "hinv (hs (malloc_init a b)) [(a, 256)] {} b"
    using assms by (simp add: hinv_def malloc_init_def heap_rep_def linked.simps areas_ok_def area_ok_def
        ptr.simps desc_def fa_size_def fa_next_def fa_prev_def lastp.simps)
  then show ?thesis using assms by (auto simp: minv_def malloc_init_def)
qed

section \<open>Clients\<close>

text \<open>An allocator as its clients see it: \<open>inv s live\<close> says that the blocks \<open>live\<close>, headers
  included, are allocated in \<open>s\<close>, \<open>word\<close> reads the memory, \<open>fits\<close> bounds the requests.\<close>

locale allocator =
  fixes alloc :: "nat \<Rightarrow> 's \<Rightarrow> (addr \<times> 's) option"
    and release :: "addr \<Rightarrow> 's \<Rightarrow> 's option"
    and inv :: "'s \<Rightarrow> area set \<Rightarrow> bool"
    and word :: "'s \<Rightarrow> addr \<Rightarrow> nat"
    and fits :: "nat \<Rightarrow> 's \<Rightarrow> bool"
  assumes alloc_law: "inv s live \<Longrightarrow> fits n s \<Longrightarrow>
      \<exists>p s'. alloc n s = Some (p, s') \<and> (\<forall>b \<in> live. \<forall>w \<in> region b. word s' w = word s w)
        \<and> (p = 0 \<and> inv s' live \<or> 8 < p \<and> (\<exists>k. n + 8 \<le> k \<and> (p - 8, k) \<notin> live \<and> inv s' (insert (p - 8, k) live)))"
    and release_law: "inv s (insert b live) \<Longrightarrow> b \<notin> live \<Longrightarrow>
      \<exists>s'. release (fst b + 8) s = Some s' \<and> inv s' live \<and> (\<forall>b \<in> live. \<forall>w \<in> region b. word s' w = word s w)"
    and header_law: "inv s live \<Longrightarrow> b \<in> live \<Longrightarrow> word s (fst b) = snd b"
    and disjoint_law: "inv s live \<Longrightarrow> a \<in> live \<Longrightarrow> b \<in> live \<Longrightarrow> a \<noteq> b \<Longrightarrow> region a \<inter> region b = {}"
begin

text \<open>The size that the new block's header records identifies the block.\<close>

lemma alloc_block:
  assumes "inv s live" "fits n s" "alloc n s = Some (p, s')" "p \<noteq> 0"
  shows "inv s' (insert (p - 8, word s' (p - 8)) live)" "n + 8 \<le> word s' (p - 8)"
    "(p - 8, word s' (p - 8)) \<notin> live"
proof -
  obtain k where k: "n + 8 \<le> k" "(p - 8, k) \<notin> live" "inv s' (insert (p - 8, k) live)"
    using alloc_law [OF assms(1,2)] assms(3,4) by auto
  have "word s' (p - 8) = k" using header_law [OF k(3), of "(p - 8, k)"] by simp
  with k show "inv s' (insert (p - 8, word s' (p - 8)) live)" "n + 8 \<le> word s' (p - 8)"
    "(p - 8, word s' (p - 8)) \<notin> live" by simp_all
qed

lemma alloc_null:
  assumes "inv s live" "fits n s" "alloc n s = Some (0, s')"
  shows "inv s' live"
  using alloc_law [OF assms(1,2)] assms(3) by auto

lemma release_block:
  assumes "inv s live" "b \<in> live" "release (fst b + 8) s = Some s'"
  shows "inv s' (live - {b})"
proof -
  have "inv s (insert b (live - {b}))" using assms(1,2) by (simp add: insert_absorb)
  from release_law [OF this] assms(3) show ?thesis by auto
qed

text \<open>Allocating and releasing at once leaves every other block as it was.\<close>

lemma alloc_release:
  assumes "inv s live" "fits n s" "alloc n s = Some (p, s')" "p \<noteq> 0"
  shows "\<exists>t. release p s' = Some t \<and> inv t live \<and> (\<forall>b \<in> live. \<forall>w \<in> region b. word t w = word s w)"
proof -
  have p: "8 < p" and same: "\<forall>b \<in> live. \<forall>w \<in> region b. word s' w = word s w"
    using alloc_law [OF assms(1,2)] assms(3,4) by auto
  note b = alloc_block [OF assms]
  from release_law [OF b(1,3)] p same show ?thesis by auto
qed

end

interpretation um: allocator "malloc kern" "free kern (Suc h)" "minv kern" "\<lambda>s. hmem (hs s)" malloc_fits
  for kern h
proof unfold_locales
  fix s live n
  assume a: "minv kern s live" "malloc_fits n s"
  then have "0 < n" "kbrk s + n + 8200 \<le> 2 ^ 32" by (simp_all add: malloc_fits_def)
  from malloc_correct_aux [OF a(1) this] show "\<exists>p s'. malloc kern n s = Some (p, s')
      \<and> (\<forall>b \<in> live. \<forall>w \<in> region b. hmem (hs s') w = hmem (hs s) w)
      \<and> (p = 0 \<and> minv kern s' live
         \<or> 8 < p \<and> (\<exists>k. n + 8 \<le> k \<and> (p - 8, k) \<notin> live \<and> minv kern s' (insert (p - 8, k) live)))"
    unfolding malloc_ok_def malloc_fail_def same_contents_def by blast
next
  fix s b live
  assume "minv kern s (insert b live)" "b \<notin> live"
  from free_correct_aux [OF this, of "Suc h"] show "\<exists>s'. free kern (Suc h) (fst b + 8) s = Some s'
      \<and> minv kern s' live \<and> (\<forall>b \<in> live. \<forall>w \<in> region b. hmem (hs s') w = hmem (hs s) w)"
    by (simp add: same_contents_def)
next
  fix s live b
  assume "minv kern s live" "b \<in> live"
  then show "hmem (hs s) (fst b) = snd b" by (simp add: minv_def)
next
  fix s live a b
  assume "minv kern s live" "a \<in> live" "b \<in> live" "a \<noteq> b"
  then show "region a \<inter> region b = {}" unfolding minv_def hinv_def by blast
qed

lemma malloc_refuses: "n = 0 \<or> 2 ^ 32 - 16 < n \<Longrightarrow> malloc kern n s = Some (0, s\<lparr>errno := ENOMEM\<rparr>)"
  by (auto simp: malloc_def)

lemma minv_errno [simp]: "minv kern (s\<lparr>errno := e\<rparr>) live \<longleftrightarrow> minv kern s live"
  by (simp add: minv_def)

lemma same_contents_errno [simp]: "same_contents live s (t\<lparr>errno := e\<rparr>) \<longleftrightarrow> same_contents live s t"
  by (simp add: same_contents_def)

text \<open>The cases of a request, the ones that are turned away included.\<close>

lemma no_wrap_cases:
  assumes "no_wrap n s"
  obtains "n = 0 \<or> 2 ^ 32 - 16 < n" | "malloc_fits n s"
proof -
  have "n = 0 \<or> 2 ^ 32 - 16 < n \<or> malloc_fits n s" using assms by (auto simp: no_wrap_def malloc_fits_def)
  then show thesis using that by blast
qed

lemma client_malloc:
  assumes "minv kern s live" "no_wrap n s" "malloc kern n s = Some (p, s')"
  shows "minv kern s' (if p = 0 then live else insert (p - 8, MALLOC_SIZE s' p) live)"
  using assms(2)
proof (cases rule: no_wrap_cases)
  case 1
  then show ?thesis using malloc_refuses [OF 1] assms(1,3) by auto
next
  case 2
  then show ?thesis using um.alloc_block(1) [OF assms(1) 2 assms(3)] um.alloc_null [OF assms(1) 2] assms(3)
    by (auto simp: MALLOC_SIZE_def MALLOC_BASE_def)
qed

lemma realloc_null: "realloc kern heapp 0 n s = malloc kern n s"
  by (simp add: realloc_def free_def free_to_heap_def)

lemma realloc_zero:
  assumes "minv kern s (insert b live)" "b \<notin> live" "heapp \<noteq> 0"
  shows "\<exists>s'. realloc kern heapp (fst b + 8) 0 s = Some (0, s') \<and> minv kern s' live \<and> same_contents live s s'"
proof -
  obtain s1 where s1: "free kern heapp (fst b + 8) s = Some s1" "minv kern s1 live" "same_contents live s s1"
    using free_correct_aux [OF assms] by blast
  then show ?thesis using malloc_refuses [of 0 kern s1] by (simp add: realloc_def)
qed

lemma realloc_too_large: "2 ^ 32 - 16 < n \<Longrightarrow> 0 < a \<Longrightarrow> realloc kern heapp a n s = Some (0, s)"
  by (simp add: realloc_def)

lemma client_realloc:
  assumes "minv kern s live" "b \<in> live" "no_wrap n s" "realloc kern (Suc h) (fst b + 8) n s = Some (p, s')"
  shows "minv kern s' (if p \<noteq> 0 then insert (p - 8, MALLOC_SIZE s' p) (live - {b}) else if n = 0 then live - {b} else live)"
proof -
  have i: "minv kern s (insert b (live - {b}))" using assms(1,2) by (simp add: insert_absorb)
  consider "n = 0" | "2 ^ 32 - 16 < n" | "malloc_fits n s" using assms(3) by (auto elim: no_wrap_cases)
  then show ?thesis
  proof cases
    case 1
    then show ?thesis using realloc_zero [OF i, of "Suc h"] assms(4) by auto
  next
    case 2
    then show ?thesis using realloc_too_large [OF 2, of "fst b + 8"] assms(1,4) by auto
  next
    case 3
    then have fits: "0 < n" "kbrk s + n + 8216 \<le> 2 ^ 32" by (simp_all add: malloc_fits_def)
    from realloc_correct_aux [OF i _ _ fits, of "Suc h"] assms(4)
    have "realloc_ok kern n s b (live - {b}) p s' \<or> malloc_fail kern n s (insert b (live - {b})) p s'" by auto
    then show ?thesis
    proof
      assume "realloc_ok kern n s b (live - {b}) p s'"
      then obtain k where k: "minv kern s' (insert (p - 8, k) (live - {b}))" "8 < p" by (auto simp: realloc_ok_def)
      then have "MALLOC_SIZE s' p = k" by (auto simp: MALLOC_SIZE_def MALLOC_BASE_def minv_def)
      with k show ?thesis by simp
    qed (use assms(2) fits(1) in \<open>auto simp: malloc_fail_def insert_absorb\<close>)
  qed
qed

lemma client_step_minv:
  assumes "client_step kern h c d" "minv kern (fst c) (snd c)"
  shows "minv kern (fst d) (snd d)"
  using assms
proof (induction rule: client_step.induct)
  case (c_free b live s s')
  then show ?case using um.release_block by simp
next
  case (c_free_null s s' live)
  then show ?case by (simp add: free_def free_to_heap_def)
next
  case (c_realloc_zero b live s s')
  have "no_wrap 0 s" by (simp add: no_wrap_def)
  then show ?case using client_realloc [OF _ c_realloc_zero(1) _ c_realloc_zero(2)] c_realloc_zero by simp
next
  case (c_store b live a s v)
  have i: "minv kern s (insert b (live - {b}))" using c_store by (simp add: insert_absorb)
  have sub: "{a} \<subseteq> region b - {fst b}" using c_store by (auto simp: region_def)
  show ?case
    using write_minv(1) [OF i _ set_word_frame _ sub, of v] c_store(1) by (simp add: set_word_def insert_absorb)
qed (auto simp: realloc_null dest: client_malloc client_realloc)

lemma client_run_minv:
  assumes "(client_step kern h)\<^sup>*\<^sup>* c d" "minv kern (fst c) (snd c)"
  shows "minv kern (fst d) (snd d)"
  using assms by (induction rule: rtranclp_induct) (auto intro: client_step_minv)

section \<open>Properties\<close>

text \<open>A kernel that grants every break below the user limit, for the witnesses.\<close>

definition generous :: kernel where
  "generous cur req = (if 0 < req \<and> req \<le> USER_TOP then req else cur)"

lemma generous_ok: "kernel_ok generous"
  by (simp add: kernel_ok_def generous_def)

lemma start_minv: "minv generous (malloc_init 4096 8192) {}"
  by (rule malloc_init_minv) (simp_all add: generous_ok USER_TOP_def)

text \<open>A block of 256 bytes, the whole static area, taken from the fresh heap.\<close>

definition one_block :: malloc_state where
  "one_block = \<lparr>hs = \<lparr>hmem = (\<lambda>_. 0)(4096 := 256, 4340 := 256), heap = 0\<rparr>, curbrk = 0, kbrk = 8192, errno = 0\<rparr>"

lemma one_block_minv: "minv generous one_block {(4096, 256)}"
proof -
  have "hinv (hs one_block) [] {(4096, 256)} 8192"
    by (simp add: hinv_def one_block_def heap_rep_def areas_ok_def area_ok_def USER_TOP_def regions_def)
  moreover have "kbrk one_block = 8192" "curbrk one_block = 0" "hmem (hs one_block) 4096 = 256"
    by (simp_all add: one_block_def)
  ultimately show ?thesis by (auto simp: minv_def generous_ok USER_TOP_def intro!: exI [of _ "[]"])
qed

text \<open>C1: \<open>malloc\<close> returns, for every size that does not make the break plus the size wrap past the end of the address
  space; sizes of 0 and above \<open>2 ^ 32 - 16\<close> are covered. Either it returns an 8-byte aligned pointer to a new block of at
  least the requested size, disjoint from every live block and from the free areas, with the invariant
  kept and the contents of the live blocks untouched; or it returns null with \<open>ENOMEM\<close>, everything
  kept, and then the size is 0 or above \<open>2 ^ 32 - 16\<close>, or no free area has the size with its header of 8 bytes and the
  kernel refused to move the break up by the least number of pages of 4096 bytes that has. The invariant has a
  break that is a multiple of 8.\<close>

theorem malloc_correct:
  assumes "minv kern s live" "sz = 0 \<or> 2 ^ 32 - 16 < sz \<or> kbrk s + sz + 8200 \<le> 2 ^ 32"
  shows "\<exists>p s'. malloc kern sz s = Some (p, s') \<and> same_contents live s s'
    \<and> (8 < p \<and> 8 dvd p \<and> (\<exists>n \<ge> sz + 8. (p - 8, n) \<notin> live \<and> minv kern s' (insert (p - 8, n) live))
       \<or> p = 0 \<and> errno s' = ENOMEM \<and> minv kern s' live
         \<and> (sz = 0 \<or> 2 ^ 32 - 16 < sz
            \<or> (\<forall>xs. heap_rep (hs s) xs \<longrightarrow> (\<forall>a \<in> set xs. snd a < sz + 8))
               \<and> kern (kbrk s) (kbrk s + 4096 * ((sz + 8 + 4095) div 4096)) = kbrk s))"
proof (cases "sz = 0 \<or> 2 ^ 32 - 16 < sz")
  case True
  then show ?thesis using malloc_refuses [OF True, of kern s] assms(1) by (auto simp: same_contents_def)
next
  case False
  then have "0 < sz" "kbrk s + sz + 8200 \<le> 2 ^ 32" using assms(2) by auto
  from malloc_correct_aux [OF assms(1) this] show ?thesis
    unfolding malloc_ok_def malloc_fail_def no_memory_def by blast
qed

text \<open>The heap is used up and the kernel grants one more page.\<close>

theorem malloc_correct_witness:
  "\<exists>p s'. malloc generous 100 one_block = Some (p, s') \<and> 8 < p \<and> 8 dvd p
    \<and> (\<exists>n \<ge> 108. minv generous s' (insert (p - 8, n) {(4096, 256)}))"
proof -
  have "kbrk one_block = 8192" by (simp add: one_block_def)
  moreover have "generous 8192 12288 = 12288" by (simp add: generous_def USER_TOP_def)
  ultimately show ?thesis using malloc_correct [OF one_block_minv, of 100] by auto
qed

text \<open>C2: \<open>free\<close> of a live block returns, the remaining blocks stay live with their contents, and
  the invariant holds, also when the freed area is given back to the kernel.\<close>

theorem free_correct:
  assumes "minv kern s (insert b live)" "b \<notin> live" "heapp \<noteq> 0"
  shows "\<exists>s'. free kern heapp (fst b + 8) s = Some s' \<and> minv kern s' live \<and> same_contents live s s'"
  by (rule free_correct_aux [OF assms])

theorem free_correct_witness:
  "\<exists>s'. free generous 1 4104 one_block = Some s' \<and> minv generous s' {}"
  using free_correct [of generous one_block "(4096, 256)" "{}" 1] one_block_minv by auto

text \<open>C4: \<open>realloc\<close> of a live block returns, for every size that does not make the break plus the size wrap past the end of
  the address space. A size of 0 frees the block and gives null. For another size either the result is a live block of
  at least the new size, in place or moved, that replaces the old one and holds its words up to the smaller size, or
  it is null and the old block is still live with its contents, and then the size is above \<open>2 ^ 32 - 16\<close>, or the block
  is too small for it, no free area has room for it and the kernel refused the pages that \<open>malloc\<close> needs for it. No other
  block changes. The invariant has a break that is a multiple of 8.\<close>

theorem realloc_correct:
  assumes "minv kern s (insert b live)" "b \<notin> live" "heapp \<noteq> 0" "sz = 0 \<or> 2 ^ 32 - 16 < sz \<or> kbrk s + sz + 8216 \<le> 2 ^ 32"
  shows "\<exists>p s'. realloc kern heapp (fst b + 8) sz s = Some (p, s') \<and> same_contents live s s'
    \<and> (0 < sz \<and> 8 < p \<and> (\<exists>n \<ge> sz + 8. (p - 8, n) \<notin> live \<and> minv kern s' (insert (p - 8, n) live)
         \<and> (\<forall>i. i + 8 < min (snd b) n \<longrightarrow> i mod 4 = 0 \<longrightarrow> hmem (hs s') (p + i) = hmem (hs s) (fst b + 8 + i)))
       \<or> sz = 0 \<and> p = 0 \<and> minv kern s' live
       \<or> 0 < sz \<and> p = 0 \<and> minv kern s' (insert b live) \<and> same_contents {b} s s'
         \<and> (2 ^ 32 - 16 < sz
            \<or> snd b < sz + 8 \<and> errno s' = ENOMEM \<and> (\<forall>xs. heap_rep (hs s) xs \<longrightarrow> (\<forall>a \<in> set xs. snd a < sz + 8))
              \<and> kern (kbrk s) (kbrk s + 4096 * ((sz + 8 + 4095) div 4096)) = kbrk s))"
proof -
  consider "sz = 0" | "0 < sz" "2 ^ 32 - 16 < sz" | "0 < sz" "kbrk s + sz + 8216 \<le> 2 ^ 32" using assms(4) by auto
  then show ?thesis
  proof cases
    case 1
    then show ?thesis using realloc_zero [OF assms(1-3)] by auto
  next
    case 2
    then show ?thesis using realloc_too_large [OF 2(2), of "fst b + 8"] assms(1) by (auto simp: same_contents_def)
  next
    case 3
    from realloc_correct_aux [OF assms(1-3) 3] 3(1) show ?thesis
      unfolding realloc_ok_def malloc_fail_def no_memory_def same_contents_def by blast
  qed
qed

theorem realloc_correct_witness:
  "\<exists>p s'. realloc generous 1 4104 1000 one_block = Some (p, s') \<and> 8 < p \<and> (\<exists>n \<ge> 1008. minv generous s' {(p - 8, n)})"
proof -
  have "kbrk one_block = 8192" by (simp add: one_block_def)
  moreover have "generous 8192 12288 = 12288" by (simp add: generous_def USER_TOP_def)
  ultimately show ?thesis
    using realloc_correct [of generous one_block "(4096, 256)" "{}" 1 1000] one_block_minv by auto
qed

text \<open>\<open>calloc\<close> refuses every request whose product does not fit in \<open>size_t\<close> (with \<open>ENOMEM\<close> and
  without touching the heap), and otherwise behaves as \<open>malloc\<close> of the product, with every byte of
  the new block zero.\<close>

theorem calloc_correct:
  assumes "minv kern s live" "lsize < 2 ^ 32" "nmemb < 2 ^ 32"
  shows "(2 ^ 32 \<le> lsize * nmemb \<longrightarrow> calloc kern nmemb lsize s = Some (0, s\<lparr>errno := ENOMEM\<rparr>))
    \<and> (0 < lsize * nmemb \<and> kbrk s + lsize * nmemb + 8200 \<le> 2 ^ 32 \<longrightarrow>
        (\<exists>p s'. calloc kern nmemb lsize s = Some (p, s')
          \<and> (malloc_ok kern (lsize * nmemb) s live p s'
               \<and> (\<forall>i < lsize * nmemb. mem_byte (hmem (hs s')) (p + i) = 0)
             \<or> malloc_fail kern (lsize * nmemb) s live p s' \<and> errno s' = ENOMEM)))"
  using calloc_correct_aux [OF assms] calloc_overflow_iff [OF assms(2,3)] by (auto simp: calloc_def)

theorem calloc_correct_witness:
  "calloc generous 65536 65537 (malloc_init 4096 8192) = Some (0, (malloc_init 4096 8192)\<lparr>errno := ENOMEM\<rparr>)
    \<and> (\<exists>p s'. calloc generous 3 5 (malloc_init 4096 8192) = Some (p, s')
          \<and> (malloc_ok generous 15 (malloc_init 4096 8192) {} p s'
               \<and> (\<forall>i < 15. mem_byte (hmem (hs s')) (p + i) = 0)
             \<or> malloc_fail generous 15 (malloc_init 4096 8192) {} p s' \<and> errno s' = ENOMEM))"
proof
  show "calloc generous 65536 65537 (malloc_init 4096 8192) = Some (0, (malloc_init 4096 8192)\<lparr>errno := ENOMEM\<rparr>)"
    using calloc_correct [OF start_minv, of 65537 65536] by simp
  have "kbrk (malloc_init 4096 8192) + 5 * 3 + 8200 \<le> 2 ^ 32" by (simp add: malloc_init_def)
  with calloc_correct [OF start_minv, of 5 3] show "\<exists>p s'. calloc generous 3 5 (malloc_init 4096 8192) = Some (p, s')
          \<and> (malloc_ok generous 15 (malloc_init 4096 8192) {} p s'
               \<and> (\<forall>i < 15. mem_byte (hmem (hs s')) (p + i) = 0)
             \<or> malloc_fail generous 15 (malloc_init 4096 8192) {} p s' \<and> errno s' = ENOMEM)" by simp
qed

text \<open>C3: whatever a program that writes only into the blocks it holds does with \<open>malloc\<close>, \<open>free\<close>
  and \<open>realloc\<close> from the start of the process, with null pointers, sizes of 0 and sizes above \<open>2 ^ 32 - 16\<close> as well, but
  without a request that makes the break plus the size wrap past the end of the address space, and from a break
  that is a multiple of 8: the checker \<open>__heap_check\<close> finds the heap consistent
  at every moment, the blocks it holds are disjoint, and their headers still record their sizes.\<close>

theorem client_run_safe:
  assumes "kernel_ok kern" "0 < a" "8 dvd a" "a + 256 \<le> b" "8 dvd b" "b \<le> USER_TOP"
    and "(client_step kern h)\<^sup>*\<^sup>* (malloc_init a b, {}) (s, live)"
  shows "heap_check (hs s) = Some Check_OK \<and> (\<forall>x \<in> live. MALLOC_SIZE s (fst x + 8) = snd x)
    \<and> (\<forall>x \<in> live. \<forall>y \<in> live. x \<noteq> y \<longrightarrow> region x \<inter> region y = {})"
proof (intro conjI ballI impI)
  have inv: "minv kern s live"
    using client_run_minv [OF assms(7)] malloc_init_minv [OF assms(1-6)] by simp
  then show "heap_check (hs s) = Some Check_OK" by (auto simp: minv_def hinv_def intro: heap_check_ok)
  show "MALLOC_SIZE s (fst x + 8) = snd x" if "x \<in> live" for x
    using um.header_law [OF inv that] by (simp add: MALLOC_SIZE_def MALLOC_BASE_def)
  show "region x \<inter> region y = {}" if "x \<in> live" "y \<in> live" "x \<noteq> y" for x y
    using um.disjoint_law [OF inv that] .
qed

theorem client_run_safe_witness:
  "\<exists>s p. malloc generous 100 (malloc_init 4096 8192) = Some (p, s) \<and> heap_check (hs s) = Some Check_OK"
proof -
  have f: "malloc_fits 100 (malloc_init 4096 8192)" by (simp add: malloc_fits_def malloc_init_def)
  obtain p s where m: "malloc generous 100 (malloc_init 4096 8192) = Some (p, s)"
    using um.alloc_law [OF start_minv f] by blast
  have "no_wrap 100 (malloc_init 4096 8192)" by (simp add: no_wrap_def malloc_init_def)
  then have "\<exists>live. client_step generous 1 (malloc_init 4096 8192, {}) (s, live)"
    using m by (cases "p = 0") (auto intro: c_malloc c_null)
  then obtain live where "(client_step generous 1)\<^sup>*\<^sup>* (malloc_init 4096 8192, {}) (s, live)" by blast
  from client_run_safe [OF generous_ok _ _ _ _ _ this] m show ?thesis by (simp add: USER_TOP_def)
qed

text \<open>Freeing a block right after allocating it leaves the live blocks, their contents and the
  invariant as they were.\<close>

theorem malloc_free_restores:
  assumes "minv kern s live" "malloc_fits n s" "malloc kern n s = Some (p, s')" "p \<noteq> 0"
  shows "\<exists>t. free kern (Suc h) p s' = Some t \<and> minv kern t live \<and> same_contents live s t"
  using um.alloc_release [OF assms] by (simp add: same_contents_def)

theorem malloc_free_restores_witness:
  "\<exists>p s' t. malloc generous 100 (malloc_init 4096 8192) = Some (p, s')
    \<and> (p \<noteq> 0 \<longrightarrow> free generous 1 p s' = Some t \<and> minv generous t {})"
proof -
  have f: "malloc_fits 100 (malloc_init 4096 8192)" by (simp add: malloc_fits_def malloc_init_def)
  obtain p s where m: "malloc generous 100 (malloc_init 4096 8192) = Some (p, s)"
    using um.alloc_law [OF start_minv f] by blast
  with malloc_free_restores [OF start_minv f m, of 0] show ?thesis by auto
qed

text \<open>\<open>sbrk\<close> reports success without growing the heap when the break plus the block size passes
  the end of the address space: the sum wraps to a small address, \<open>brk\<close> asks the kernel for it, and
  the unchanged break that comes back is not below the request. \<open>__malloc_from_heap\<close> then believes
  that it owns the block above the old break.\<close>

theorem malloc_grow_wraparound:
  assumes "kernel_ok kern" "brk_ok s" "n < 2 ^ 32" "2 ^ 32 \<le> kbrk s + n"
    and "kern (kbrk s) (kbrk s + n - 2 ^ 32) = kbrk s"
  shows "malloc_grow kern n s = (Some (kbrk s), s\<lparr>curbrk := kbrk s\<rparr>)"
  by (rule malloc_grow_wraps [OF assms])

theorem malloc_grow_wraparound_witness:
  "malloc_grow (\<lambda>cur req. if 8192 \<le> req \<and> req \<le> USER_TOP then req else cur) 4294963200 (malloc_init 4096 8192)
    = (Some 8192, (malloc_init 4096 8192)\<lparr>curbrk := 8192\<rparr>)"
proof -
  have "kbrk (malloc_init 4096 8192) = 8192" by (simp add: malloc_init_def)
  then show ?thesis
    using malloc_grow_wraparound [of "\<lambda>cur req. if 8192 \<le> req \<and> req \<le> USER_TOP then req else cur"
        "malloc_init 4096 8192" 4294963200]
    by (simp add: kernel_ok_def brk_ok_def USER_TOP_def malloc_init_def)
qed

text \<open>\<open>__free_to_heap\<close> never keeps the reserve of \<open>MALLOC_MIN_SIZE\<close> bytes. The test
  \<open>__heap_is_empty (heap)\<close> looks at the address of the heap variable, which is not null, so the whole
  area at the break goes back to the kernel even when the heap is left without any free area.\<close>

theorem free_keeps_no_reserve:
  assumes "heapp \<noteq> 0" "curbrk s \<noteq> 0" "HEAP_FREE_AREA_END fa = curbrk s"
  shows "free_unmap kern heapp fa s
    = Some (snd (sbrk kern (- int (HEAP_FREE_AREA_END fa - HEAP_FREE_AREA_START (hs s) fa)) (s\<lparr>hs := heap_delete fa (hs s)\<rparr>)))"
  using assms by (simp add: free_unmap_def sbrk_def heap_is_empty_def HEAP_FREE_AREA_START_def
      HEAP_FREE_AREA_END_def of_nat_diff Let_def)

theorem free_keeps_no_reserve_witness:
  "free_unmap generous 1 8180 (malloc_init 7936 8192\<lparr>curbrk := 8192\<rparr>)
    = Some (snd (sbrk generous (- 256) (malloc_init 7936 8192
        \<lparr>curbrk := 8192, hs := \<lparr>hmem = (\<lambda>_. 0)(8180 := 256), heap = 0\<rparr>\<rparr>)))"
  using free_keeps_no_reserve [of 1 "malloc_init 7936 8192\<lparr>curbrk := 8192\<rparr>" 8180 generous]
  by (simp add: malloc_init_def HEAP_FREE_AREA_END_def HEAP_FREE_AREA_START_def heap_delete_def
      fa_size_def fa_next_def fa_prev_def)

end
