(* ===== verification/Xdr.thy ===== *)
theory Xdr
  imports Prelude
begin

text \<open>
  The XDR filters of \<open>libc/inet/rpc\<close>: \<open>xdr.c\<close>, \<open>xdr_intXX_t.c\<close>, \<open>xdr_array.c\<close>,
  \<open>xdr_reference.c\<close>, over the operation table of a stream (\<open>struct xdr_ops\<close>).

  A filter takes the stream and the object its pointer argument points to, and returns the
  \<open>bool_t\<close> result, the object afterwards and the stream afterwards. The width of \<open>long\<close> is the type
  parameter \<open>'l\<close>, so the conditional code on \<open>INT_MAX < LONG_MAX\<close> is in the model. A pointer to
  storage that may be null is an \<open>option\<close>; \<open>mem_alloc\<close> is the parameter \<open>alloc\<close>, which says
  whether a request of that many bytes succeeds. Storage that a caller supplies for decoding is
  assumed to be large enough, as the C code assumes; where the C code would follow a null pointer
  (encoding a missing object, which is undefined) the model returns \<open>False\<close>.
\<close>

section \<open>Streams\<close>

datatype xdr_op = XDR_ENCODE | XDR_DECODE | XDR_FREE | XDR_OTHER


text \<open>\<open>None\<close> and \<open>False\<close> are the result \<open>FALSE\<close> of an operation.\<close>

record ('w, 's) xdr_ops =
  x_getlong :: "'s \<Rightarrow> 'w option \<times> 's"
  x_putlong :: "'w \<Rightarrow> 's \<Rightarrow> bool \<times> 's"
  x_getbytes :: "nat \<Rightarrow> 's \<Rightarrow> byte list option \<times> 's"
  x_putbytes :: "byte list \<Rightarrow> 's \<Rightarrow> bool \<times> 's"
  x_getpostn :: "'s \<Rightarrow> 32 word"
  x_setpostn :: "32 word \<Rightarrow> 's \<Rightarrow> bool \<times> 's"
  x_inline :: "32 word \<Rightarrow> 's \<Rightarrow> 'w \<times> 's"
  x_destroy :: "'s \<Rightarrow> 's"
  x_getint32 :: "'s \<Rightarrow> 32 word option \<times> 's"
  x_putint32 :: "32 word \<Rightarrow> 's \<Rightarrow> bool \<times> 's"

record ('w, 's) XDR =
  x_op :: xdr_op
  x_ops :: "('w, 's) xdr_ops"
  x_stream :: 's

type_synonym ('l, 's, 'a) xdrproc = "('l word, 's) XDR \<Rightarrow> 'a \<Rightarrow> bool \<times> 'a \<times> ('l word, 's) XDR"

definition XDR_GETLONG :: "('l::len word, 's) XDR \<Rightarrow> 'l word option \<times> ('l word, 's) XDR" where
  "XDR_GETLONG x = (let (r, s) = x_getlong (x_ops x) (x_stream x) in (r, x\<lparr>x_stream := s\<rparr>))"

definition XDR_PUTLONG :: "'l word \<Rightarrow> ('l::len word, 's) XDR \<Rightarrow> bool \<times> ('l word, 's) XDR" where
  "XDR_PUTLONG l x = (let (r, s) = x_putlong (x_ops x) l (x_stream x) in (r, x\<lparr>x_stream := s\<rparr>))"

definition XDR_GETBYTES :: "nat \<Rightarrow> ('l::len word, 's) XDR \<Rightarrow> byte list option \<times> ('l word, 's) XDR" where
  "XDR_GETBYTES n x = (let (r, s) = x_getbytes (x_ops x) n (x_stream x) in (r, x\<lparr>x_stream := s\<rparr>))"

definition XDR_PUTBYTES :: "byte list \<Rightarrow> ('l::len word, 's) XDR \<Rightarrow> bool \<times> ('l word, 's) XDR" where
  "XDR_PUTBYTES bs x = (let (r, s) = x_putbytes (x_ops x) bs (x_stream x) in (r, x\<lparr>x_stream := s\<rparr>))"

definition XDR_GETINT32 :: "('l::len word, 's) XDR \<Rightarrow> 32 word option \<times> ('l word, 's) XDR" where
  "XDR_GETINT32 x = (let (r, s) = x_getint32 (x_ops x) (x_stream x) in (r, x\<lparr>x_stream := s\<rparr>))"

definition XDR_PUTINT32 :: "32 word \<Rightarrow> ('l::len word, 's) XDR \<Rightarrow> bool \<times> ('l word, 's) XDR" where
  "XDR_PUTINT32 v x = (let (r, s) = x_putint32 (x_ops x) v (x_stream x) in (r, x\<lparr>x_stream := s\<rparr>))"

section \<open>Integers\<close>

definition xdr_free :: "('l::len, 's, 'a) xdrproc \<Rightarrow> ('l word, 's) XDR \<Rightarrow> 'a \<Rightarrow> 'a" where
  "xdr_free proc x v = fst (snd (proc (x\<lparr>x_op := XDR_FREE\<rparr>) v))"

definition xdr_void :: "bool" where
  "xdr_void = True"

text \<open>The encoding part of a filter: put the long, the object unchanged.\<close>

definition put_long :: "('l::len word, 's) XDR \<Rightarrow> 'a \<Rightarrow> 'l word \<Rightarrow> bool \<times> 'a \<times> ('l word, 's) XDR" where
  "put_long x v l = (let (ok, x1) = XDR_PUTLONG l x in (ok, v, x1))"

text \<open>The decoding part: get a long and convert it.\<close>

definition get_long ::
  "('l::len word, 's) XDR \<Rightarrow> 'a \<Rightarrow> ('l word \<Rightarrow> 'a) \<Rightarrow> bool \<times> 'a \<times> ('l word, 's) XDR" where
  "get_long x v conv =
     (case XDR_GETLONG x of (None, x1) \<Rightarrow> (False, v, x1) | (Some l, x1) \<Rightarrow> (True, conv l, x1))"

definition xdr_long :: "('l::len, 's, 'l word) xdrproc" where
  "xdr_long x l =
     (if x_op x = XDR_ENCODE \<and> (LENGTH('l) = 32 \<or> scast (scast l :: 32 word) = l) then put_long x l l
      else if x_op x = XDR_DECODE then get_long x l (\<lambda>t. t)
      else if x_op x = XDR_FREE then (True, l, x)
      else (False, l, x))"

definition xdr_short :: "('l::len, 's, 16 word) xdrproc" where
  "xdr_short x s =
     (case x_op x of
        XDR_ENCODE \<Rightarrow> put_long x s (scast s)
      | XDR_DECODE \<Rightarrow> get_long x s scast
      | XDR_FREE \<Rightarrow> (True, s, x)
      | XDR_OTHER \<Rightarrow> (False, s, x))"

text \<open>Where \<open>int\<close> and \<open>long\<close> have the same width, the object is read as a \<open>long\<close>.\<close>

definition as_long :: "('l::len, 's, 'l word) xdrproc \<Rightarrow> ('l, 's, 32 word) xdrproc" where
  "as_long f x v = (let (ok, w, x1) = f x (scast v) in (ok, scast w, x1))"

definition xdr_int :: "('l::len, 's, 32 word) xdrproc" where
  "xdr_int x i =
     (if 32 < LENGTH('l) then
        (case x_op x of
           XDR_ENCODE \<Rightarrow> put_long x i (scast i)
         | XDR_DECODE \<Rightarrow> get_long x i scast
         | XDR_FREE \<Rightarrow> (True, i, x)
         | XDR_OTHER \<Rightarrow> (False, i, x))
      else as_long xdr_long x i)"

definition xdr_u_long :: "('l::len, 's, 'l word) xdrproc" where
  "xdr_u_long x u =
     (case x_op x of
        XDR_DECODE \<Rightarrow> get_long x u (\<lambda>tmp. ucast (ucast tmp :: 32 word))
      | XDR_ENCODE \<Rightarrow> if LENGTH('l) \<noteq> 32 \<and> ucast (ucast u :: 32 word) \<noteq> u then (False, u, x)
                      else put_long x u u
      | XDR_FREE \<Rightarrow> (True, u, x)
      | XDR_OTHER \<Rightarrow> (False, u, x))"

definition xdr_u_int :: "('l::len, 's, 32 word) xdrproc" where
  "xdr_u_int x u =
     (if 32 < LENGTH('l) then
        (case x_op x of
           XDR_ENCODE \<Rightarrow> put_long x u (ucast u)
         | XDR_DECODE \<Rightarrow> get_long x u ucast
         | XDR_FREE \<Rightarrow> (True, u, x)
         | XDR_OTHER \<Rightarrow> (False, u, x))
      else as_long xdr_u_long x u)"

text \<open>Two longs, the second only when the first went well.\<close>

definition put_longs ::
  "('l::len word, 's) XDR \<Rightarrow> 'a \<Rightarrow> 'l word \<Rightarrow> 'l word \<Rightarrow> bool \<times> 'a \<times> ('l word, 's) XDR" where
  "put_longs x v t1 t2 =
     (case XDR_PUTLONG t1 x of
        (False, x1) \<Rightarrow> (False, v, x1)
      | (True, x1) \<Rightarrow> put_long x1 v t2)"

definition get_longs ::
  "('l::len word, 's) XDR \<Rightarrow> 'a \<Rightarrow> ('l word \<Rightarrow> 'l word \<Rightarrow> 'a) \<Rightarrow> bool \<times> 'a \<times> ('l word, 's) XDR" where
  "get_longs x v conv =
     (case XDR_GETLONG x of
        (None, x1) \<Rightarrow> (False, v, x1)
      | (Some t1, x1) \<Rightarrow> get_long x1 v (conv t1))"

unbundle bit_operations_syntax

definition xdr_hyper :: "('l::len, 's, 64 word) xdrproc" where
  "xdr_hyper x ll =
     (if x_op x = XDR_ENCODE then put_longs x ll (scast (signed_drop_bit 32 ll)) (scast ll)
      else if x_op x = XDR_DECODE then get_longs x ll (\<lambda>t1 t2. push_bit 32 (scast t1) OR ucast t2)
      else if x_op x = XDR_FREE then (True, ll, x)
      else (False, ll, x))"

definition xdr_u_hyper :: "('l::len, 's, 64 word) xdrproc" where
  "xdr_u_hyper x ull =
     (if x_op x = XDR_ENCODE then put_longs x ull (ucast (drop_bit 32 ull)) (ucast ull)
      else if x_op x = XDR_DECODE then get_longs x ull (\<lambda>t1 t2. push_bit 32 (ucast t1) OR ucast t2)
      else if x_op x = XDR_FREE then (True, ull, x)
      else (False, ull, x))"

definition xdr_longlong_t :: "('l::len, 's, 64 word) xdrproc" where
  "xdr_longlong_t = xdr_hyper"

definition xdr_u_longlong_t :: "('l::len, 's, 64 word) xdrproc" where
  "xdr_u_longlong_t = xdr_u_hyper"

definition xdr_u_short :: "('l::len, 's, 16 word) xdrproc" where
  "xdr_u_short x us =
     (case x_op x of
        XDR_ENCODE \<Rightarrow> put_long x us (ucast us)
      | XDR_DECODE \<Rightarrow> get_long x us ucast
      | XDR_FREE \<Rightarrow> (True, us, x)
      | XDR_OTHER \<Rightarrow> (False, us, x))"

text \<open>\<open>char\<close> is signed.\<close>

definition xdr_char :: "('l::len, 's, byte) xdrproc" where
  "xdr_char x c =
     (case xdr_int x (scast c) of
        (False, _, x1) \<Rightarrow> (False, c, x1)
      | (True, i, x1) \<Rightarrow> (True, scast i, x1))"

definition xdr_u_char :: "('l::len, 's, byte) xdrproc" where
  "xdr_u_char x c =
     (case xdr_u_int x (ucast c) of
        (False, _, x1) \<Rightarrow> (False, c, x1)
      | (True, u, x1) \<Rightarrow> (True, ucast u, x1))"

text \<open>\<open>bool_t\<close> is \<open>int\<close>.\<close>

definition xdr_bool :: "('l::len, 's, 32 word) xdrproc" where
  "xdr_bool x b =
     (case x_op x of
        XDR_ENCODE \<Rightarrow> put_long x b (if b \<noteq> 0 then 1 else 0)
      | XDR_DECODE \<Rightarrow> get_long x b (\<lambda>lb. if lb = 0 then 0 else 1)
      | XDR_FREE \<Rightarrow> (True, b, x)
      | XDR_OTHER \<Rightarrow> (False, b, x))"

text \<open>An \<open>enum\<close> has 4 bytes, as on every target.\<close>

definition xdr_enum :: "('l::len, 's, 32 word) xdrproc" where
  "xdr_enum x e =
     (if 32 < LENGTH('l) then
        (case x_op x of
           XDR_ENCODE \<Rightarrow> put_long x e (scast e)
         | XDR_DECODE \<Rightarrow> get_long x e scast
         | XDR_FREE \<Rightarrow> (True, e, x)
         | XDR_OTHER \<Rightarrow> (False, e, x))
      else as_long xdr_long x e)"

section \<open>Fixed-width integers\<close>

definition put_int32 :: "('l::len word, 's) XDR \<Rightarrow> 'a \<Rightarrow> 32 word \<Rightarrow> bool \<times> 'a \<times> ('l word, 's) XDR" where
  "put_int32 x v l = (let (ok, x1) = XDR_PUTINT32 l x in (ok, v, x1))"

definition get_int32 ::
  "('l::len word, 's) XDR \<Rightarrow> 'a \<Rightarrow> (32 word \<Rightarrow> 'a) \<Rightarrow> bool \<times> 'a \<times> ('l word, 's) XDR" where
  "get_int32 x v conv =
     (case XDR_GETINT32 x of (None, x1) \<Rightarrow> (False, v, x1) | (Some l, x1) \<Rightarrow> (True, conv l, x1))"

definition xdr_int64_t :: "('l::len, 's, 64 word) xdrproc" where
  "xdr_int64_t x ip =
     (case x_op x of
        XDR_ENCODE \<Rightarrow>
          (case XDR_PUTINT32 (scast (signed_drop_bit 32 ip)) x of
             (False, x1) \<Rightarrow> (False, ip, x1)
           | (True, x1) \<Rightarrow> put_int32 x1 ip (scast ip))
      | XDR_DECODE \<Rightarrow>
          (case XDR_GETINT32 x of
             (None, x1) \<Rightarrow> (False, ip, x1)
           | (Some t1, x1) \<Rightarrow> get_int32 x1 ip (\<lambda>t2. push_bit 32 (scast t1) OR ucast t2))
      | XDR_FREE \<Rightarrow> (True, ip, x)
      | XDR_OTHER \<Rightarrow> (False, ip, x))"

definition xdr_uint64_t :: "('l::len, 's, 64 word) xdrproc" where
  "xdr_uint64_t x uip =
     (case x_op x of
        XDR_ENCODE \<Rightarrow>
          (case XDR_PUTINT32 (ucast (drop_bit 32 uip)) x of
             (False, x1) \<Rightarrow> (False, uip, x1)
           | (True, x1) \<Rightarrow> put_int32 x1 uip (ucast uip))
      | XDR_DECODE \<Rightarrow>
          (case XDR_GETINT32 x of
             (None, x1) \<Rightarrow> (False, uip, x1)
           | (Some t1, x1) \<Rightarrow> get_int32 x1 uip (\<lambda>t2. push_bit 32 (ucast t1) OR ucast t2))
      | XDR_FREE \<Rightarrow> (True, uip, x)
      | XDR_OTHER \<Rightarrow> (False, uip, x))"

definition xdr_int32_t :: "('l::len, 's, 32 word) xdrproc" where
  "xdr_int32_t x l =
     (case x_op x of
        XDR_ENCODE \<Rightarrow> put_int32 x l l
      | XDR_DECODE \<Rightarrow> get_int32 x l (\<lambda>t. t)
      | XDR_FREE \<Rightarrow> (True, l, x)
      | XDR_OTHER \<Rightarrow> (False, l, x))"

definition xdr_uint32_t :: "('l::len, 's, 32 word) xdrproc" where
  "xdr_uint32_t x ul =
     (case x_op x of
        XDR_ENCODE \<Rightarrow> put_int32 x ul ul
      | XDR_DECODE \<Rightarrow> get_int32 x ul (\<lambda>t. t)
      | XDR_FREE \<Rightarrow> (True, ul, x)
      | XDR_OTHER \<Rightarrow> (False, ul, x))"

definition xdr_int16_t :: "('l::len, 's, 16 word) xdrproc" where
  "xdr_int16_t x ip =
     (case x_op x of
        XDR_ENCODE \<Rightarrow> put_int32 x ip (scast ip)
      | XDR_DECODE \<Rightarrow> get_int32 x ip scast
      | XDR_FREE \<Rightarrow> (True, ip, x)
      | XDR_OTHER \<Rightarrow> (False, ip, x))"

definition xdr_uint16_t :: "('l::len, 's, 16 word) xdrproc" where
  "xdr_uint16_t x uip =
     (case x_op x of
        XDR_ENCODE \<Rightarrow> put_int32 x uip (ucast uip)
      | XDR_DECODE \<Rightarrow> get_int32 x uip ucast
      | XDR_FREE \<Rightarrow> (True, uip, x)
      | XDR_OTHER \<Rightarrow> (False, uip, x))"

definition xdr_int8_t :: "('l::len, 's, byte) xdrproc" where
  "xdr_int8_t x ip =
     (case x_op x of
        XDR_ENCODE \<Rightarrow> put_int32 x ip (scast ip)
      | XDR_DECODE \<Rightarrow> get_int32 x ip scast
      | XDR_FREE \<Rightarrow> (True, ip, x)
      | XDR_OTHER \<Rightarrow> (False, ip, x))"

definition xdr_uint8_t :: "('l::len, 's, byte) xdrproc" where
  "xdr_uint8_t x uip =
     (case x_op x of
        XDR_ENCODE \<Rightarrow> put_int32 x uip (ucast uip)
      | XDR_DECODE \<Rightarrow> get_int32 x uip ucast
      | XDR_FREE \<Rightarrow> (True, uip, x)
      | XDR_OTHER \<Rightarrow> (False, uip, x))"

section \<open>Bytes and strings\<close>

definition BYTES_PER_XDR_UNIT :: nat where "BYTES_PER_XDR_UNIT = 4"

definition xdr_rndup :: "nat \<Rightarrow> nat" where
  "xdr_rndup cnt =
     (if cnt mod BYTES_PER_XDR_UNIT > 0 then BYTES_PER_XDR_UNIT - cnt mod BYTES_PER_XDR_UNIT else 0)"

text \<open>The object is the storage at \<open>cp\<close>, of which the first \<open>cnt\<close> bytes are transferred.\<close>

definition xdr_opaque :: "nat \<Rightarrow> ('l::len, 's, byte list) xdrproc" where
  "xdr_opaque cnt x cp =
     (if cnt = 0 then (True, cp, x)
      else
        (case x_op x of
           XDR_DECODE \<Rightarrow>
             (case XDR_GETBYTES cnt x of
                (None, x1) \<Rightarrow> (False, cp, x1)
              | (Some bs, x1) \<Rightarrow>
                  (let cp1 = bs @ drop cnt cp
                   in if xdr_rndup cnt = 0 then (True, cp1, x1)
                      else case XDR_GETBYTES (xdr_rndup cnt) x1 of
                             (None, x2) \<Rightarrow> (False, cp1, x2)
                           | (Some _, x2) \<Rightarrow> (True, cp1, x2)))
         | XDR_ENCODE \<Rightarrow>
             (case XDR_PUTBYTES (take cnt cp) x of
                (False, x1) \<Rightarrow> (False, cp, x1)
              | (True, x1) \<Rightarrow>
                  if xdr_rndup cnt = 0 then (True, cp, x1)
                  else (let (ok, x2) = XDR_PUTBYTES (replicate (xdr_rndup cnt) 0) x1 in (ok, cp, x2)))
         | XDR_FREE \<Rightarrow> (True, cp, x)
         | XDR_OTHER \<Rightarrow> (False, cp, x)))"

text \<open>Uninitialised storage of \<open>n\<close> bytes from \<open>mem_alloc\<close>; its bytes are overwritten before use.\<close>

definition fresh_bytes :: "nat \<Rightarrow> byte list" where
  "fresh_bytes n = replicate n 0"

definition xdr_bytes ::
  "(nat \<Rightarrow> bool) \<Rightarrow> 32 word \<Rightarrow> ('l::len, 's, byte list option \<times> 32 word) xdrproc" where
  "xdr_bytes alloc maxsize x v =
     (let (sp, sizep) = v
      in case xdr_u_int x sizep of
           (False, n, x1) \<Rightarrow> (False, (sp, n), x1)
         | (True, nodesize, x1) \<Rightarrow>
             if nodesize > maxsize \<and> x_op x1 \<noteq> XDR_FREE then (False, (sp, nodesize), x1)
             else
               (case x_op x1 of
                  XDR_DECODE \<Rightarrow>
                    if nodesize = 0 then (True, (sp, nodesize), x1)
                    else
                      (case (if sp = None \<and> alloc (unat nodesize) then Some (fresh_bytes (unat nodesize)) else sp) of
                         None \<Rightarrow> (False, (None, nodesize), x1)
                       | Some st \<Rightarrow>
                           (let (ok, st1, x2) = xdr_opaque (unat nodesize) x1 st in (ok, (Some st1, nodesize), x2)))
                | XDR_ENCODE \<Rightarrow>
                    (case sp of
                       None \<Rightarrow> (nodesize = 0, (None, nodesize), x1)
                     | Some st \<Rightarrow>
                         (let (ok, _, x2) = xdr_opaque (unat nodesize) x1 st in (ok, (sp, nodesize), x2)))
                | XDR_FREE \<Rightarrow> (True, (None, nodesize), x1)
                | XDR_OTHER \<Rightarrow> (False, (sp, nodesize), x1)))"

definition MAX_NETOBJ_SZ :: "32 word" where "MAX_NETOBJ_SZ = 1024"

record netobj =
  n_len :: "32 word"
  n_bytes :: "byte list option"

definition xdr_netobj :: "(nat \<Rightarrow> bool) \<Rightarrow> ('l::len, 's, netobj) xdrproc" where
  "xdr_netobj alloc x np =
     (let (ok, (bs, n), x1) = xdr_bytes alloc MAX_NETOBJ_SZ x (n_bytes np, n_len np)
      in (ok, \<lparr>n_len = n, n_bytes = bs\<rparr>, x1))"

fun xdr_union_search ::
  "(32 word \<times> ('l::len, 's, 'u) xdrproc) list \<Rightarrow> 32 word \<Rightarrow> ('l, 's, 'u) xdrproc option
     \<Rightarrow> ('l, 's, 'u) xdrproc option" where
  "xdr_union_search [] dscm dfault = dfault"
| "xdr_union_search ((v, p) # choices) dscm dfault =
     (if v = dscm then Some p else xdr_union_search choices dscm dfault)"

definition xdr_union ::
  "(32 word \<times> ('l::len, 's, 'u) xdrproc) list \<Rightarrow> ('l, 's, 'u) xdrproc option
     \<Rightarrow> ('l, 's, 32 word \<times> 'u) xdrproc" where
  "xdr_union choices dfault x v =
     (let (dscmp, unp) = v
      in case xdr_enum x dscmp of
           (False, d, x1) \<Rightarrow> (False, (d, unp), x1)
         | (True, dscm, x1) \<Rightarrow>
             (case xdr_union_search choices dscm dfault of
                None \<Rightarrow> (False, (dscm, unp), x1)
              | Some p \<Rightarrow> (let (ok, u, x2) = p x1 unp in (ok, (dscm, u), x2))))"

text \<open>\<open>strlen\<close> of the string stored at the start of \<open>st\<close>.\<close>

definition strlen_bytes :: "byte list \<Rightarrow> nat" where
  "strlen_bytes st = length (takeWhile (\<lambda>b. b \<noteq> 0) st)"

definition xdr_string_body ::
  "(nat \<Rightarrow> bool) \<Rightarrow> 32 word \<Rightarrow> 32 word \<Rightarrow> ('l::len, 's, byte list option) xdrproc" where
  "xdr_string_body alloc maxsize size0 x sp =
     (case xdr_u_int x size0 of
        (False, _, x1) \<Rightarrow> (False, sp, x1)
      | (True, sz, x1) \<Rightarrow>
          if sz > maxsize then (False, sp, x1)
          else
            (let nodesize = sz + 1
             in case x_op x1 of
                  XDR_DECODE \<Rightarrow>
                    if nodesize = 0 then (True, sp, x1)
                    else
                      (case (if sp = None \<and> alloc (unat nodesize) then Some (fresh_bytes (unat nodesize)) else sp) of
                         None \<Rightarrow> (False, None, x1)
                       | Some st \<Rightarrow>
                           (let (ok, st1, x2) = xdr_opaque (unat sz) x1 (st[unat sz := 0])
                            in (ok, Some st1, x2)))
                | XDR_ENCODE \<Rightarrow>
                    (case sp of
                       None \<Rightarrow> (False, None, x1)
                     | Some st \<Rightarrow> (let (ok, _, x2) = xdr_opaque (unat sz) x1 st in (ok, sp, x2)))
                | XDR_FREE \<Rightarrow> (True, None, x1)
                | XDR_OTHER \<Rightarrow> (False, sp, x1)))"

definition xdr_string ::
  "(nat \<Rightarrow> bool) \<Rightarrow> 32 word \<Rightarrow> ('l::len, 's, byte list option) xdrproc" where
  "xdr_string alloc maxsize x sp =
     (case x_op x of
        XDR_FREE \<Rightarrow>
          (case sp of
             None \<Rightarrow> (True, sp, x)
           | Some st \<Rightarrow> xdr_string_body alloc maxsize (of_nat (strlen_bytes st)) x sp)
      | XDR_ENCODE \<Rightarrow>
          (case sp of
             None \<Rightarrow> (False, sp, x)
           | Some st \<Rightarrow> xdr_string_body alloc maxsize (of_nat (strlen_bytes st)) x sp)
      | _ \<Rightarrow> xdr_string_body alloc maxsize 0 x sp)"

definition LASTUNSIGNED :: "32 word" where "LASTUNSIGNED = 0 - 1"

definition xdr_wrapstring :: "(nat \<Rightarrow> bool) \<Rightarrow> ('l::len, 's, byte list option) xdrproc" where
  "xdr_wrapstring alloc = xdr_string alloc LASTUNSIGNED"

section \<open>Arrays, references and pointers\<close>

text \<open>The loop over the first \<open>c\<close> elements; it stops at the first failure, and at the end of the
  storage.\<close>

fun xdr_elems :: "('l::len, 's, 'a) xdrproc \<Rightarrow> nat \<Rightarrow> ('l, 's, 'a list) xdrproc" where
  "xdr_elems elproc 0 x vs = (True, vs, x)"
| "xdr_elems elproc (Suc c) x [] = (False, [], x)"
| "xdr_elems elproc (Suc c) x (v # vs) =
     (case elproc x v of
        (False, v1, x1) \<Rightarrow> (False, v1 # vs, x1)
      | (True, v1, x1) \<Rightarrow> (let (ok, vs1, x2) = xdr_elems elproc c x1 vs in (ok, v1 # vs1, x2)))"

text \<open>An array is its elements; \<open>zero\<close> is the element whose bytes are all zero.\<close>

definition xdr_array ::
  "(nat \<Rightarrow> bool) \<Rightarrow> 'a \<Rightarrow> 32 word \<Rightarrow> 32 word \<Rightarrow> ('l::len, 's, 'a) xdrproc
     \<Rightarrow> ('l, 's, 'a list option \<times> 32 word) xdrproc" where
  "xdr_array alloc zero maxsize elsize elproc x v =
     (let (addrp, sizep) = v
      in case xdr_u_int x sizep of
           (False, n, x1) \<Rightarrow> (False, (addrp, n), x1)
         | (True, c, x1) \<Rightarrow>
             if (c > maxsize \<or> c > (- 1) div elsize) \<and> x_op x1 \<noteq> XDR_FREE then (False, (addrp, c), x1)
             else
               (case addrp of
                  None \<Rightarrow>
                    (case x_op x1 of
                       XDR_DECODE \<Rightarrow>
                         if c = 0 then (True, (None, c), x1)
                         else if \<not> alloc (unat (c * elsize)) then (False, (None, c), x1)
                         else (let (ok, vs, x2) = xdr_elems elproc (unat c) x1 (replicate (unat c) zero)
                               in (ok, (Some vs, c), x2))
                     | XDR_FREE \<Rightarrow> (True, (None, c), x1)
                     | _ \<Rightarrow> (c = 0, (None, c), x1))
                | Some target \<Rightarrow>
                    (let (ok, vs, x2) = xdr_elems elproc (unat c) x1 target
                     in (ok, (if x_op x1 = XDR_FREE then None else Some vs, c), x2))))"

definition xdr_vector :: "nat \<Rightarrow> ('l::len, 's, 'a) xdrproc \<Rightarrow> ('l, 's, 'a list) xdrproc" where
  "xdr_vector nelem xdr_elem x basep = xdr_elems xdr_elem nelem x basep"

definition xdr_reference ::
  "(nat \<Rightarrow> bool) \<Rightarrow> 'a \<Rightarrow> 32 word \<Rightarrow> ('l::len, 's, 'a) xdrproc \<Rightarrow> ('l, 's, 'a option) xdrproc" where
  "xdr_reference alloc zero sz proc x pp =
     (case (case pp of
              Some v \<Rightarrow> Inr v
            | None \<Rightarrow>
                (case x_op x of
                   XDR_FREE \<Rightarrow> Inl True
                 | XDR_DECODE \<Rightarrow> if alloc (unat sz) then Inr zero else Inl False
                 | _ \<Rightarrow> Inl False)) of
        Inl stat \<Rightarrow> (stat, None, x)
      | Inr loc \<Rightarrow>
          (let (stat, v, x1) = proc x loc
           in (stat, if x_op x = XDR_FREE then None else Some v, x1)))"

definition xdr_pointer ::
  "(nat \<Rightarrow> bool) \<Rightarrow> 'a \<Rightarrow> 32 word \<Rightarrow> ('l::len, 's, 'a) xdrproc \<Rightarrow> ('l, 's, 'a option) xdrproc" where
  "xdr_pointer alloc zero obj_size xdr_obj x objpp =
     (case xdr_bool x (if objpp \<noteq> None then 1 else 0) of
        (False, _, x1) \<Rightarrow> (False, objpp, x1)
      | (True, more_data, x1) \<Rightarrow>
          if more_data = 0 then (True, None, x1)
          else xdr_reference alloc zero obj_size xdr_obj x1 objpp)"

section \<open>Casts and byte order\<close>

definition be32 :: "32 word \<Rightarrow> byte list" where
  "be32 w = [ucast (drop_bit 24 w), ucast (drop_bit 16 w), ucast (drop_bit 8 w), ucast w]"

definition of_be32 :: "byte list \<Rightarrow> 32 word" where
  "of_be32 bs = push_bit 24 (ucast (bs ! 0)) OR push_bit 16 (ucast (bs ! 1)) OR push_bit 8 (ucast (bs ! 2)) OR ucast (bs ! 3)"

lemma length_be32 [simp]: "length (be32 w) = 4"
  by (simp add: be32_def)

lemma of_be32_be32: "of_be32 (be32 w @ r) = w"
proof (rule bit_word_eqI)
  fix n assume "n < LENGTH(32)"
  then consider "n < 8" | "8 \<le> n" "n < 16" | "16 \<le> n" "n < 24" | "24 \<le> n" "n < 32" by force
  then show "bit (of_be32 (be32 w @ r)) n = bit w n"
    by cases (auto simp: of_be32_def be32_def bit_simps)
qed

lemma cast_32:
  fixes v :: "32 word"
  assumes "32 \<le> LENGTH('l::len)"
  shows "ucast (scast v :: 'l word) = v" "scast (scast v :: 'l word) = v"
    "ucast (ucast v :: 'l word) = v" "scast (ucast v :: 'l word) = v"
  using assms by (auto intro!: bit_word_eqI simp: bit_simps)

lemma cast_16:
  fixes v :: "16 word"
  assumes "32 \<le> LENGTH('l::len)"
  shows "ucast (scast v :: 'l word) = (scast v :: 32 word)" "ucast (ucast v :: 'l word) = (ucast v :: 32 word)"
    "scast (scast (scast v :: 32 word) :: 'l word) = v" "ucast (scast (ucast v :: 32 word) :: 'l word) = v"
proof -
  have m: "min (LENGTH('l) - Suc 0) n = n" if "n < 32" for n using assms that by simp
  show "ucast (scast v :: 'l word) = (scast v :: 32 word)" "ucast (ucast v :: 'l word) = (ucast v :: 32 word)"
    using assms by (auto intro!: bit_word_eqI simp: bit_simps)
  show "scast (scast (scast v :: 32 word) :: 'l word) = v" "ucast (scast (ucast v :: 32 word) :: 'l word) = v"
    using assms by (auto intro!: bit_word_eqI simp: bit_simps m)
qed

lemma cast_8:
  fixes v :: "8 word"
  shows "ucast (ucast v :: 32 word) = v" "scast (scast v :: 32 word) = v"
  by (auto intro!: bit_word_eqI simp: bit_simps)

lemma join64: "push_bit 32 (ucast (ucast (drop_bit 32 v) :: 32 word)) OR ucast (ucast v :: 32 word) = (v :: 64 word)"
proof (rule bit_word_eqI)
  fix n assume "n < LENGTH(64)"
  then show "bit (push_bit 32 (ucast (ucast (drop_bit 32 v) :: 32 word)) OR ucast (ucast v :: 32 word) :: 64 word) n = bit v n"
    by (cases "n < 32") (auto simp: bit_simps)
qed

section \<open>The stream interface\<close>

text \<open>What the filters rely on: \<open>ok\<close> is the stream's invariant, \<open>out\<close> the bytes written so far,
  \<open>room\<close> how many more fit, \<open>pending\<close> the bytes still to be read.\<close>

locale xdr_stream =
  fixes ops :: "('l::len word, 's) xdr_ops"
    and ok :: "'s \<Rightarrow> bool"
    and out :: "'s \<Rightarrow> byte list"
    and room :: "'s \<Rightarrow> nat"
    and pending :: "'s \<Rightarrow> byte list"
  assumes len: "32 \<le> LENGTH('l)"
    and putlong: "ok s \<Longrightarrow> 4 \<le> room s \<Longrightarrow> \<exists>s'. x_putlong ops l s = (True, s') \<and> ok s'
          \<and> out s' = out s @ be32 (ucast l) \<and> room s' = room s - 4"
    and putlong_full: "ok s \<Longrightarrow> room s < 4 \<Longrightarrow> x_putlong ops l s = (False, s)"
    and putint32: "ok s \<Longrightarrow> 4 \<le> room s \<Longrightarrow> \<exists>s'. x_putint32 ops w s = (True, s') \<and> ok s'
          \<and> out s' = out s @ be32 w \<and> room s' = room s - 4"
    and putint32_full: "ok s \<Longrightarrow> room s < 4 \<Longrightarrow> x_putint32 ops w s = (False, s)"
    and putbytes: "ok s \<Longrightarrow> length bs \<le> room s \<Longrightarrow> length bs < 2 ^ 32 \<Longrightarrow> \<exists>s'. x_putbytes ops bs s = (True, s') \<and> ok s'
          \<and> out s' = out s @ bs \<and> room s' = room s - length bs"
    and putbytes_full: "ok s \<Longrightarrow> room s < length bs \<Longrightarrow> length bs < 2 ^ 32 \<Longrightarrow> x_putbytes ops bs s = (False, s)"
    and getlong: "ok s \<Longrightarrow> pending s = be32 w @ r \<Longrightarrow>
          \<exists>s'. x_getlong ops s = (Some (scast w), s') \<and> ok s' \<and> pending s' = r"
    and getint32: "ok s \<Longrightarrow> pending s = be32 w @ r \<Longrightarrow>
          \<exists>s'. x_getint32 ops s = (Some w, s') \<and> ok s' \<and> pending s' = r"
    and getbytes: "ok s \<Longrightarrow> pending s = bs @ r \<Longrightarrow> length bs < 2 ^ 32 \<Longrightarrow>
          \<exists>s'. x_getbytes ops (length bs) s = (Some bs, s') \<and> ok s' \<and> pending s' = r"
begin

definition enc :: "'s \<Rightarrow> ('l word, 's) XDR" where
  "enc s = \<lparr>x_op = XDR_ENCODE, x_ops = ops, x_stream = s\<rparr>"

definition dec :: "'s \<Rightarrow> ('l word, 's) XDR" where
  "dec s = \<lparr>x_op = XDR_DECODE, x_ops = ops, x_stream = s\<rparr>"

text \<open>\<open>encodes f v bs\<close>: encoding \<open>v\<close> succeeds exactly when there is room for \<open>bs\<close>, and then writes
  \<open>bs\<close>. \<open>decodes f bs v0 v\<close>: decoding \<open>bs\<close> into an object that held \<open>v0\<close> makes it \<open>v\<close> and consumes
  \<open>bs\<close>.\<close>

definition encodes :: "('l, 's, 'a) xdrproc \<Rightarrow> 'a \<Rightarrow> byte list \<Rightarrow> bool" where
  "encodes f v bs \<longleftrightarrow> (\<forall>s. ok s \<longrightarrow>
     (if length bs \<le> room s
      then \<exists>s'. f (enc s) v = (True, v, enc s') \<and> ok s' \<and> out s' = out s @ bs \<and> room s' = room s - length bs
      else \<exists>x'. f (enc s) v = (False, v, x')))"

definition decodes :: "('l, 's, 'a) xdrproc \<Rightarrow> byte list \<Rightarrow> 'a \<Rightarrow> 'a \<Rightarrow> bool" where
  "decodes f bs v0 v \<longleftrightarrow> (\<forall>s r. ok s \<longrightarrow> pending s = bs @ r \<longrightarrow>
     (\<exists>s'. f (dec s) v0 = (True, v, dec s') \<and> ok s' \<and> pending s' = r))"

lemma enc_simps [simp]: "x_op (enc s) = XDR_ENCODE" "x_ops (enc s) = ops" "x_stream (enc s) = s"
  "enc s\<lparr>x_stream := t\<rparr> = enc t" "x_op (dec s) = XDR_DECODE" "x_ops (dec s) = ops" "x_stream (dec s) = s"
  "dec s\<lparr>x_stream := t\<rparr> = dec t"
  by (simp_all add: enc_def dec_def)

lemma encodesI:
  assumes "\<And>s. ok s \<Longrightarrow> length bs \<le> room s \<Longrightarrow>
      \<exists>s'. f (enc s) v = (True, v, enc s') \<and> ok s' \<and> out s' = out s @ bs \<and> room s' = room s - length bs"
    and "\<And>s. ok s \<Longrightarrow> room s < length bs \<Longrightarrow> \<exists>x'. f (enc s) v = (False, v, x')"
  shows "encodes f v bs"
  using assms by (auto simp: encodes_def)

lemma encodes_fits:
  "encodes f v bs \<Longrightarrow> ok s \<Longrightarrow> length bs \<le> room s \<Longrightarrow>
    \<exists>s'. f (enc s) v = (True, v, enc s') \<and> ok s' \<and> out s' = out s @ bs \<and> room s' = room s - length bs"
  by (auto simp: encodes_def)

lemma encodes_full: "encodes f v bs \<Longrightarrow> ok s \<Longrightarrow> room s < length bs \<Longrightarrow> \<exists>x'. f (enc s) v = (False, v, x')"
  by (auto simp: encodes_def)

lemma decodesD:
  "decodes f bs v0 v \<Longrightarrow> ok s \<Longrightarrow> pending s = bs @ r \<Longrightarrow>
    \<exists>s'. f (dec s) v0 = (True, v, dec s') \<and> ok s' \<and> pending s' = r"
  by (auto simp: decodes_def)

text \<open>A filter that behaves as another one on the given operation.\<close>

lemma encodes_cong: "(\<And>s. f (enc s) v = g (enc s) v) \<Longrightarrow> encodes f v bs = encodes g v bs"
  by (simp add: encodes_def)

lemma decodes_cong: "(\<And>s. f (dec s) v0 = g (dec s) v0) \<Longrightarrow> decodes f bs v0 v = decodes g bs v0 v"
  by (simp add: decodes_def)

lemma encodes_put_long: "encodes (\<lambda>x v. put_long x v (g v)) v (be32 (ucast (g v)))"
proof (rule encodesI)
  fix s assume "ok s" "length (be32 (ucast (g v))) \<le> room s"
  with putlong [of s "g v"] show "\<exists>s'. put_long (enc s) v (g v) = (True, v, enc s') \<and> ok s'
      \<and> out s' = out s @ be32 (ucast (g v)) \<and> room s' = room s - length (be32 (ucast (g v)))"
    by (auto simp: put_long_def XDR_PUTLONG_def)
qed (simp add: put_long_def XDR_PUTLONG_def putlong_full)

lemma decodes_get_long: "decodes (\<lambda>x v. get_long x v g) (be32 w) v0 (g (scast w))"
  unfolding decodes_def
proof (intro allI impI)
  fix s r assume "ok s" "pending s = be32 w @ r"
  from getlong [OF this] show "\<exists>s'. get_long (dec s) v0 g = (True, g (scast w), dec s') \<and> ok s' \<and> pending s' = r"
    by (auto simp: get_long_def XDR_GETLONG_def)
qed

lemma encodes_put_int32: "encodes (\<lambda>x v. put_int32 x v (g v)) v (be32 (g v))"
proof (rule encodesI)
  fix s assume "ok s" "length (be32 (g v)) \<le> room s"
  with putint32 [of s "g v"] show "\<exists>s'. put_int32 (enc s) v (g v) = (True, v, enc s') \<and> ok s'
      \<and> out s' = out s @ be32 (g v) \<and> room s' = room s - length (be32 (g v))"
    by (auto simp: put_int32_def XDR_PUTINT32_def)
qed (simp add: put_int32_def XDR_PUTINT32_def putint32_full)

lemma decodes_get_int32: "decodes (\<lambda>x v. get_int32 x v g) (be32 w) v0 (g w)"
  unfolding decodes_def
proof (intro allI impI)
  fix s r assume "ok s" "pending s = be32 w @ r"
  from getint32 [OF this] show "\<exists>s'. get_int32 (dec s) v0 g = (True, g w, dec s') \<and> ok s' \<and> pending s' = r"
    by (auto simp: get_int32_def XDR_GETINT32_def)
qed

text \<open>One part after another.\<close>

lemma encodes_put_longs: "encodes (\<lambda>x v. put_longs x v (g v) (h v)) v (be32 (ucast (g v)) @ be32 (ucast (h v)))"
proof (rule encodesI)
  fix s assume s: "ok s" "length (be32 (ucast (g v)) @ be32 (ucast (h v))) \<le> room s"
  then obtain t where t: "x_putlong ops (g v) s = (True, t)" "ok t" "out t = out s @ be32 (ucast (g v))" "room t = room s - 4"
    using putlong [of s "g v"] by auto
  with s encodes_fits [OF encodes_put_long [of h v] t(2)]
  show "\<exists>s'. put_longs (enc s) v (g v) (h v) = (True, v, enc s') \<and> ok s'
      \<and> out s' = out s @ be32 (ucast (g v)) @ be32 (ucast (h v))
      \<and> room s' = room s - length (be32 (ucast (g v)) @ be32 (ucast (h v)))"
    by (auto simp: put_longs_def XDR_PUTLONG_def)
next
  fix s assume s: "ok s" "room s < length (be32 (ucast (g v)) @ be32 (ucast (h v)))"
  show "\<exists>x'. put_longs (enc s) v (g v) (h v) = (False, v, x')"
  proof (cases "room s < 4")
    case True
    then show ?thesis using s(1) by (simp add: put_longs_def XDR_PUTLONG_def putlong_full)
  next
    case False
    then obtain t where t: "x_putlong ops (g v) s = (True, t)" "ok t" "room t = room s - 4"
      using putlong [of s "g v"] s by auto
    with s encodes_full [OF encodes_put_long [of h v] t(2)] show ?thesis
      by (auto simp: put_longs_def XDR_PUTLONG_def)
  qed
qed

lemma decodes_get_longs:
  "decodes (\<lambda>x v. get_longs x v g) (be32 a @ be32 b) v0 (g (scast a) (scast b))"
  unfolding decodes_def
proof (intro allI impI)
  fix s r assume s: "ok s" "pending s = (be32 a @ be32 b) @ r"
  obtain t where t: "x_getlong ops s = (Some (scast a), t)" "ok t" "pending t = be32 b @ r"
    using getlong [of s a "be32 b @ r"] s by auto
  from decodesD [OF decodes_get_long [of "g (scast a)" b] t(2,3)] t(1)
  show "\<exists>s'. get_longs (dec s) v0 g = (True, g (scast a) (scast b), dec s') \<and> ok s' \<and> pending s' = r"
    by (auto simp: get_longs_def XDR_GETLONG_def)
qed

lemma encodes_longI:
  assumes "\<And>s. f (enc s) v = put_long (enc s) v l" "ucast l = w"
  shows "encodes f v (be32 w)"
  using encodes_put_long [of "\<lambda>_. l" v] encodes_cong [of f v "\<lambda>x v. put_long x v l"] assms by simp

lemma decodes_longI:
  assumes "\<And>s. f (dec s) v0 = get_long (dec s) v0 g" "g (scast w) = v"
  shows "decodes f (be32 w) v0 v"
  using decodes_get_long [of g w v0] decodes_cong [of f v0 "\<lambda>x v. get_long x v g"] assms by simp

lemma encodes_int32I:
  assumes "\<And>s. f (enc s) v = put_int32 (enc s) v w"
  shows "encodes f v (be32 w)"
  using encodes_put_int32 [of "\<lambda>_. w" v] encodes_cong [of f v "\<lambda>x v. put_int32 x v w"] assms by simp

lemma decodes_int32I:
  assumes "\<And>s. f (dec s) v0 = get_int32 (dec s) v0 g" "g w = v"
  shows "decodes f (be32 w) v0 v"
  using decodes_get_int32 [of g w v0] decodes_cong [of f v0 "\<lambda>x v. get_int32 x v g"] assms by simp

lemma encodes_longsI:
  assumes "\<And>s. f (enc s) v = put_longs (enc s) v l m" "ucast l = a" "ucast m = b"
  shows "encodes f v (be32 a @ be32 b)"
  using encodes_put_longs [of "\<lambda>_. l" "\<lambda>_. m" v] encodes_cong [of f v "\<lambda>x v. put_longs x v l m"] assms by simp

lemma decodes_longsI:
  assumes "\<And>s. f (dec s) v0 = get_longs (dec s) v0 g" "g (scast a) (scast b) = v"
  shows "decodes f (be32 a @ be32 b) v0 v"
  using decodes_get_longs [of g a b v0] decodes_cong [of f v0 "\<lambda>x v. get_longs x v g"] assms by simp

text \<open>One filter and then another.\<close>

lemma encodes_seq:
  assumes f: "encodes f a ba" and g: "encodes G v bg"
    and no: "\<And>s x'. f (enc s) a = (False, a, x') \<Longrightarrow> \<exists>x''. F (enc s) v = (False, v, x'')"
    and yes: "\<And>s t. f (enc s) a = (True, a, enc t) \<Longrightarrow> F (enc s) v = G (enc t) v"
  shows "encodes F v (ba @ bg)"
proof (rule encodesI)
  fix s assume s: "ok s" "length (ba @ bg) \<le> room s"
  then obtain t where t: "f (enc s) a = (True, a, enc t)" "ok t" "out t = out s @ ba" "room t = room s - length ba"
    using encodes_fits [OF f, of s] by auto
  with encodes_fits [OF g, of t] yes [OF t(1)] s
  show "\<exists>s'. F (enc s) v = (True, v, enc s') \<and> ok s' \<and> out s' = out s @ ba @ bg \<and> room s' = room s - length (ba @ bg)"
    by auto
next
  fix s assume s: "ok s" "room s < length (ba @ bg)"
  show "\<exists>x'. F (enc s) v = (False, v, x')"
  proof (cases "room s < length ba")
    case True
    then show ?thesis using encodes_full [OF f s(1)] no by blast
  next
    case False
    then obtain t where t: "f (enc s) a = (True, a, enc t)" "ok t" "room t = room s - length ba"
      using encodes_fits [OF f, of s] s by auto
    then show ?thesis using encodes_full [OF g, of t] yes [OF t(1)] s False by auto
  qed
qed

lemma decodes_seq:
  assumes f: "decodes f ba a0 a" and g: "decodes G bg w0 v"
    and yes: "\<And>s t. f (dec s) a0 = (True, a, dec t) \<Longrightarrow> F (dec s) v0 = G (dec t) w0"
  shows "decodes F (ba @ bg) v0 v"
  unfolding decodes_def
proof (intro allI impI)
  fix s r assume "ok s" "pending s = (ba @ bg) @ r"
  then obtain t where t: "f (dec s) a0 = (True, a, dec t)" "ok t" "pending t = bg @ r"
    using decodesD [OF f, of s "bg @ r"] by auto
  from decodesD [OF g t(2,3)] yes [OF t(1)]
  show "\<exists>s'. F (dec s) v0 = (True, v, dec s') \<and> ok s' \<and> pending s' = r" by simp
qed

lemma encodes_nothing: "(\<And>s. f (enc s) v = (True, v, enc s)) \<Longrightarrow> encodes f v []"
  by (auto simp: encodes_def)

lemma decodes_nothing: "(\<And>s. f (dec s) v0 = (True, v, dec s)) \<Longrightarrow> decodes f [] v0 v"
  by (auto simp: decodes_def)

section \<open>Integer filters\<close>

lemma len32: "\<not> 32 < LENGTH('l) \<Longrightarrow> LENGTH('l) = 32"
  using len by simp

lemmas casts = cast_32 [where 'l = 'l, OF len] cast_16 [where 'l = 'l, OF len] cast_8

lemma xdr_int_codec: "encodes xdr_int i (be32 i)" "decodes xdr_int (be32 i) v0 i"
proof -
  show "encodes xdr_int i (be32 i)"
    by (rule encodes_longI [of _ _ "scast i"])
      (auto simp: xdr_int_def as_long_def xdr_long_def put_long_def casts dest: len32 split: prod.split)
  show "decodes xdr_int (be32 i) v0 i"
    by (rule decodes_longI [of _ _ scast])
      (auto simp: xdr_int_def as_long_def xdr_long_def get_long_def casts split: prod.split option.split)
qed

lemma xdr_enum_codec: "encodes xdr_enum i (be32 i)" "decodes xdr_enum (be32 i) v0 i"
proof -
  have "xdr_enum = (xdr_int :: ('l, 's, 32 word) xdrproc)" by (intro ext) (simp add: xdr_enum_def xdr_int_def)
  with xdr_int_codec show "encodes xdr_enum i (be32 i)" "decodes xdr_enum (be32 i) v0 i" by simp_all
qed

lemma xdr_u_int_codec: "encodes xdr_u_int u (be32 u)" "decodes xdr_u_int (be32 u) v0 u"
proof -
  show "encodes xdr_u_int u (be32 u)"
    by (rule encodes_longI [of _ _ "if 32 < LENGTH('l) then ucast u else scast u"])
      (auto simp: xdr_u_int_def as_long_def xdr_u_long_def put_long_def casts dest: len32 split: prod.split)
  show "decodes xdr_u_int (be32 u) v0 u"
    by (rule decodes_longI [of _ _ ucast])
      (auto simp: xdr_u_int_def as_long_def xdr_u_long_def get_long_def casts split: prod.split option.split)
qed

lemma xdr_short_codec: "encodes xdr_short s (be32 (scast s))" "decodes xdr_short (be32 (scast s)) v0 s"
proof -
  show "encodes xdr_short s (be32 (scast s))" by (rule encodes_longI [of _ _ "scast s"]) (simp_all add: xdr_short_def casts)
  show "decodes xdr_short (be32 (scast s)) v0 s" by (rule decodes_longI [of _ _ scast]) (simp_all add: xdr_short_def casts)
qed

lemma xdr_u_short_codec: "encodes xdr_u_short s (be32 (ucast s))" "decodes xdr_u_short (be32 (ucast s)) v0 s"
proof -
  show "encodes xdr_u_short s (be32 (ucast s))" by (rule encodes_longI [of _ _ "ucast s"]) (simp_all add: xdr_u_short_def casts)
  show "decodes xdr_u_short (be32 (ucast s)) v0 s" by (rule decodes_longI [of _ _ ucast]) (simp_all add: xdr_u_short_def casts)
qed

lemma xdr_bool_codec:
  "encodes xdr_bool b (be32 (if b \<noteq> 0 then 1 else 0))"
  "decodes xdr_bool (be32 (if c then 1 else 0)) v0 (if c then 1 else 0)"
proof -
  have "scast (1 :: 32 word) = (1 :: 'l word)"
    using len by (auto intro!: bit_word_eqI simp: bit_simps)
  then show "decodes xdr_bool (be32 (if c then 1 else 0)) v0 (if c then 1 else 0)"
    by (intro decodes_longI [of _ _ "\<lambda>lb. if lb = 0 then 0 else 1"]) (auto simp: xdr_bool_def)
  show "encodes xdr_bool b (be32 (if b \<noteq> 0 then 1 else 0))"
    by (rule encodes_longI [of _ _ "if b \<noteq> 0 then 1 else 0"]) (auto simp: xdr_bool_def)
qed

text \<open>A filter on a narrower object through a temporary.\<close>

lemma encodes_temp:
  assumes "encodes f (g v) bs" "h (g v) = v"
    and "\<And>s. F (enc s) v = (case f (enc s) (g v) of (False, _, x1) \<Rightarrow> (False, v, x1) | (True, i, x1) \<Rightarrow> (True, h i, x1))"
  shows "encodes F v bs"
proof (rule encodesI)
  fix s assume s: "ok s" "length bs \<le> room s"
  from encodes_fits [OF assms(1) s] assms(2,3)
  show "\<exists>s'. F (enc s) v = (True, v, enc s') \<and> ok s' \<and> out s' = out s @ bs \<and> room s' = room s - length bs"
    by auto
next
  fix s assume s: "ok s" "room s < length bs"
  from encodes_full [OF assms(1) s] assms(3) show "\<exists>x'. F (enc s) v = (False, v, x')" by auto
qed

lemma decodes_temp:
  assumes "decodes f bs (g v0) w" "h w = v"
    and "\<And>s. F (dec s) v0 = (case f (dec s) (g v0) of (False, _, x1) \<Rightarrow> (False, v0, x1) | (True, i, x1) \<Rightarrow> (True, h i, x1))"
  shows "decodes F bs v0 v"
  unfolding decodes_def
proof (intro allI impI)
  fix s r assume "ok s" "pending s = bs @ r"
  from decodesD [OF assms(1) this] assms(2,3)
  show "\<exists>s'. F (dec s) v0 = (True, v, dec s') \<and> ok s' \<and> pending s' = r" by auto
qed

lemma xdr_char_codec: "encodes xdr_char c (be32 (scast c))" "decodes xdr_char (be32 (scast c)) v0 c"
proof -
  show "encodes xdr_char c (be32 (scast c))"
    by (rule encodes_temp [where g = scast and h = scast, OF xdr_int_codec(1)]) (simp_all add: xdr_char_def casts)
  show "decodes xdr_char (be32 (scast c)) v0 c"
    by (rule decodes_temp [where g = scast and h = scast, OF xdr_int_codec(2)]) (simp_all add: xdr_char_def casts)
qed

lemma xdr_u_char_codec: "encodes xdr_u_char c (be32 (ucast c))" "decodes xdr_u_char (be32 (ucast c)) v0 c"
proof -
  show "encodes xdr_u_char c (be32 (ucast c))"
    by (rule encodes_temp [where g = ucast and h = ucast, OF xdr_u_int_codec(1)]) (simp_all add: xdr_u_char_def casts)
  show "decodes xdr_u_char (be32 (ucast c)) v0 c"
    by (rule decodes_temp [where g = ucast and h = ucast, OF xdr_u_int_codec(2)]) (simp_all add: xdr_u_char_def casts)
qed

text \<open>64-bit objects are two words, the high one first.\<close>

lemma xdr_u_hyper_encodes: "encodes xdr_u_hyper v (be32 (ucast (drop_bit 32 v)) @ be32 (ucast v))"
proof (rule encodes_longsI [of _ _ "ucast (drop_bit 32 v)" "ucast v"])
  show "ucast (ucast (drop_bit 32 v) :: 'l word) = (ucast (drop_bit 32 v) :: 32 word)"
    "ucast (ucast v :: 'l word) = (ucast v :: 32 word)"
    using len by (auto intro!: bit_word_eqI simp: bit_simps)
qed (simp add: xdr_u_hyper_def)

lemma xdr_hyper_encodes: "encodes xdr_hyper v (be32 (ucast (drop_bit 32 v)) @ be32 (ucast v))"
proof (rule encodes_longsI [of _ _ "scast (signed_drop_bit 32 v)" "scast v"])
  show "ucast (scast (signed_drop_bit 32 v) :: 'l word) = (ucast (drop_bit 32 v) :: 32 word)"
    "ucast (scast v :: 'l word) = (ucast v :: 32 word)"
    using len by (auto intro!: bit_word_eqI simp: bit_simps)
qed (simp add: xdr_hyper_def)

text \<open>With a 32-bit \<open>long\<close> the halves come back as they were; a 64-bit \<open>long\<close> arrives sign-extended,
  and the low half spills into the high one.\<close>

lemma hyper_halves:
  fixes v :: "64 word"
  defines "hi \<equiv> ucast (drop_bit 32 v) :: 32 word" and "lo \<equiv> ucast v :: 32 word"
  defines "w \<equiv> (if bit v 31 \<and> 32 < LENGTH('l) then v OR push_bit 32 (mask (LENGTH('l) - 32)) else v)"
  shows "push_bit 32 (scast (scast hi :: 'l word)) OR ucast (scast lo :: 'l word) = w"
    "push_bit 32 (ucast (scast hi :: 'l word)) OR ucast (scast lo :: 'l word) = w"
proof -
  have m: "min (LENGTH('l) - Suc 0) n = n" if "n < 32" for n using len that by simp
  have "push_bit 32 (scast (scast hi :: 'l word)) = (push_bit 32 (ucast hi) :: 64 word)"
    "push_bit 32 (ucast (scast hi :: 'l word)) = (push_bit 32 (ucast hi) :: 64 word)"
    using len by (auto intro!: bit_word_eqI simp: bit_simps m)
  moreover have "push_bit 32 (ucast hi) OR ucast (scast lo :: 'l word) = w"
  proof (rule bit_word_eqI)
    fix n assume n: "n < LENGTH(64)"
    consider "n < 31" | "n = 31" | "32 \<le> n" by linarith
    then show "bit (push_bit 32 (ucast hi) OR ucast (scast lo :: 'l word) :: 64 word) n = bit w n"
    proof cases
      case 3
      then show ?thesis using n len by (auto simp: bit_simps w_def lo_def hi_def)
    qed (use len in \<open>auto simp: bit_simps w_def lo_def\<close>)
  qed
  ultimately show "push_bit 32 (scast (scast hi :: 'l word)) OR ucast (scast lo :: 'l word) = w"
    "push_bit 32 (ucast (scast hi :: 'l word)) OR ucast (scast lo :: 'l word) = w" by simp_all
qed

lemma xdr_hyper_decodes:
  "decodes xdr_hyper (be32 (ucast (drop_bit 32 v)) @ be32 (ucast v)) v0
     (if bit v 31 \<and> 32 < LENGTH('l) then v OR push_bit 32 (mask (LENGTH('l) - 32)) else v)"
  by (rule decodes_longsI [where g = "\<lambda>t1 t2. push_bit 32 (scast t1) OR ucast t2"])
    (simp_all add: xdr_hyper_def hyper_halves)

lemma xdr_u_hyper_decodes:
  "decodes xdr_u_hyper (be32 (ucast (drop_bit 32 v)) @ be32 (ucast v)) v0
     (if bit v 31 \<and> 32 < LENGTH('l) then v OR push_bit 32 (mask (LENGTH('l) - 32)) else v)"
  by (rule decodes_longsI [where g = "\<lambda>t1 t2. push_bit 32 (ucast t1) OR ucast t2"])
    (simp_all add: xdr_u_hyper_def hyper_halves)

lemma xdr_int64_codec:
  "encodes xdr_int64_t v (be32 (ucast (drop_bit 32 v)) @ be32 (ucast v))"
  "decodes xdr_int64_t (be32 (ucast (drop_bit 32 v)) @ be32 (ucast v)) v0 v"
proof -
  let ?hi = "ucast (drop_bit 32 v) :: 32 word"
  have hi: "scast (signed_drop_bit 32 v) = ?hi" "scast v = (ucast v :: 32 word)"
    by (auto intro!: bit_word_eqI simp: bit_simps)
  show "encodes xdr_int64_t v (be32 ?hi @ be32 (ucast v))"
    by (rule encodes_seq [OF encodes_put_int32 [of "\<lambda>_. ?hi"] encodes_put_int32 [of "\<lambda>_. ucast v" v]])
      (auto simp: xdr_int64_t_def put_int32_def hi split: prod.splits)
  have "push_bit 32 (scast ?hi) OR ucast (ucast v :: 32 word) = v"
  proof -
    have "push_bit 32 (scast ?hi) = (push_bit 32 (ucast ?hi) :: 64 word)"
      by (auto intro!: bit_word_eqI simp: bit_simps)
    then show ?thesis using join64 by simp
  qed
  then have d: "decodes (\<lambda>x v. get_int32 x v (\<lambda>t2. push_bit 32 (scast ?hi) OR ucast t2)) (be32 (ucast v)) v0 v"
    using decodes_get_int32 [of "\<lambda>t2. push_bit 32 (scast ?hi) OR ucast t2" "ucast v" v0] by simp
  show "decodes xdr_int64_t (be32 ?hi @ be32 (ucast v)) v0 v"
    by (rule decodes_seq [OF decodes_get_int32 [of "\<lambda>t. t" ?hi 0] d])
      (auto simp: xdr_int64_t_def get_int32_def split: prod.splits option.splits)
qed

lemma xdr_uint64_codec:
  "encodes xdr_uint64_t v (be32 (ucast (drop_bit 32 v)) @ be32 (ucast v))"
  "decodes xdr_uint64_t (be32 (ucast (drop_bit 32 v)) @ be32 (ucast v)) v0 v"
proof -
  let ?hi = "ucast (drop_bit 32 v) :: 32 word"
  show "encodes xdr_uint64_t v (be32 ?hi @ be32 (ucast v))"
    by (rule encodes_seq [OF encodes_put_int32 [of "\<lambda>_. ?hi"] encodes_put_int32 [of "\<lambda>_. ucast v" v]])
      (auto simp: xdr_uint64_t_def put_int32_def split: prod.splits)
  have d: "decodes (\<lambda>x v. get_int32 x v (\<lambda>t2. push_bit 32 (ucast ?hi) OR ucast t2)) (be32 (ucast v)) v0 v"
    using decodes_get_int32 [of "\<lambda>t2. push_bit 32 (ucast ?hi) OR ucast t2" "ucast v" v0] join64 by simp
  show "decodes xdr_uint64_t (be32 ?hi @ be32 (ucast v)) v0 v"
    by (rule decodes_seq [OF decodes_get_int32 [of "\<lambda>t. t" ?hi 0] d])
      (auto simp: xdr_uint64_t_def get_int32_def split: prod.splits option.splits)
qed

end

lemma unat32_less: "unat (n :: 32 word) < 2 ^ 32"
  using unsigned_less [of n] by simp

section \<open>Opaque data, bytes and strings\<close>

context xdr_stream
begin

lemma encodes_put_bytes:
  "length bs < 2 ^ 32 \<Longrightarrow> encodes (\<lambda>x v. let (k, x1) = XDR_PUTBYTES bs x in (k, v, x1)) v bs"
proof (rule encodesI)
  fix s assume l: "length bs < 2 ^ 32" and "ok s" "length bs \<le> room s"
  with putbytes [of s bs] show "\<exists>s'. (let (k, x1) = XDR_PUTBYTES bs (enc s) in (k, v, x1)) = (True, v, enc s') \<and> ok s'
      \<and> out s' = out s @ bs \<and> room s' = room s - length bs"
    by (auto simp: XDR_PUTBYTES_def)
qed (simp add: XDR_PUTBYTES_def putbytes_full)

lemma encodes_pad:
  "encodes (\<lambda>x v. if xdr_rndup cnt = 0 then (True, v, x)
      else (let (k, x1) = XDR_PUTBYTES (replicate (xdr_rndup cnt) 0) x in (k, v, x1))) v (replicate (xdr_rndup cnt) 0)"
proof (cases "xdr_rndup cnt = 0")
  case True
  then show ?thesis by (auto intro: encodes_nothing)
next
  case False
  have "length (replicate (xdr_rndup cnt) (0 :: byte)) < 2 ^ 32" by (auto simp: xdr_rndup_def BYTES_PER_XDR_UNIT_def)
  from encodes_put_bytes [OF this] False show ?thesis by simp
qed

lemma xdr_opaque_encodes:
  assumes "cnt \<le> length cp" "cnt < 2 ^ 32"
  shows "encodes (xdr_opaque cnt) cp (take cnt cp @ replicate (xdr_rndup cnt) 0)"
proof (cases "cnt = 0")
  case True
  then show ?thesis by (auto intro: encodes_nothing simp: xdr_opaque_def xdr_rndup_def)
next
  case False
  have l: "length (take cnt cp) < 2 ^ 32" using assms by simp
  show ?thesis
    by (rule encodes_seq [OF encodes_put_bytes [OF l] encodes_pad])
      (use False in \<open>auto simp: xdr_opaque_def split: prod.splits\<close>)
qed

lemma decodes_get_bytes:
  assumes "length bs < 2 ^ 32"
  shows "decodes (\<lambda>x v. case XDR_GETBYTES (length bs) x of (None, x1) \<Rightarrow> (False, v, x1) | (Some cs, x1) \<Rightarrow> (True, g cs v, x1))
    bs v0 (g bs v0)"
  unfolding decodes_def
proof (intro allI impI)
  fix s r assume "ok s" "pending s = bs @ r"
  from getbytes [OF this assms] show "\<exists>s'. (case XDR_GETBYTES (length bs) (dec s) of (None, x1) \<Rightarrow> (False, v0, x1)
      | (Some cs, x1) \<Rightarrow> (True, g cs v0, x1)) = (True, g bs v0, dec s') \<and> ok s' \<and> pending s' = r"
    by (auto simp: XDR_GETBYTES_def)
qed

lemma decodes_pad:
  assumes "length pad = n" "n < 2 ^ 32"
  shows "decodes (\<lambda>x v. if n = 0 then (True, v, x)
      else (case XDR_GETBYTES n x of (None, x1) \<Rightarrow> (False, v, x1) | (Some cs, x1) \<Rightarrow> (True, v, x1))) pad v v"
proof (cases "n = 0")
  case True
  then show ?thesis using assms by (auto intro: decodes_nothing)
next
  case False
  have "length pad < 2 ^ 32" using assms by simp
  from decodes_get_bytes [OF this, of "\<lambda>_ v. v" v] False assms(1) show ?thesis by simp
qed

lemma xdr_opaque_decodes:
  assumes "length bs < 2 ^ 32" "length pad = xdr_rndup (length bs)"
  shows "decodes (xdr_opaque (length bs)) (bs @ pad) cp (bs @ drop (length bs) cp)"
proof (cases "bs = []")
  case True
  then show ?thesis using assms by (auto intro: decodes_nothing simp: xdr_opaque_def xdr_rndup_def)
next
  case False
  have p: "xdr_rndup (length bs) < 2 ^ 32" by (auto simp: xdr_rndup_def BYTES_PER_XDR_UNIT_def)
  show ?thesis
    by (rule decodes_seq [OF decodes_get_bytes [OF assms(1), of "\<lambda>cs cp. cs @ drop (length bs) cp" cp]
          decodes_pad [OF assms(2) p]])
      (use False in \<open>auto simp: xdr_opaque_def XDR_GETBYTES_def Let_def split: prod.splits option.splits\<close>)
qed

text \<open>Counted bytes.\<close>

lemma decodes_wrap:
  "decodes f bs st0 st \<Longrightarrow> decodes (\<lambda>x v. let (k, st1, x2) = f x st0 in (k, g st1, x2)) bs v0 (g st)"
  unfolding decodes_def by (fastforce simp: Let_def split: prod.splits)

lemma encodes_wrap:
  "encodes f st bs \<Longrightarrow> encodes (\<lambda>x v. let (k, st1, x2) = f x st in (k, g st1 v, x2)) v bs" if "g st v = v"
  using that unfolding encodes_def by (fastforce simp: Let_def split: prod.splits if_splits)

lemma xdr_bytes_codec:
  assumes "length st = unat n" "n \<le> maxsize"
  defines "w \<equiv> be32 n @ st @ replicate (xdr_rndup (unat n)) 0"
  shows "encodes (xdr_bytes alloc maxsize) (Some st, n) w"
    "alloc (unat n) \<Longrightarrow> 0 < n \<Longrightarrow> decodes (xdr_bytes alloc maxsize) w (None, m) (Some st, n)"
    "length st0 = unat n \<Longrightarrow> 0 < n \<Longrightarrow> decodes (xdr_bytes alloc maxsize) w (Some st0, m) (Some st, n)"
proof -
  have lt: "unat n < 2 ^ 32" by (rule unat32_less)
  have le: "\<not> n > maxsize" using assms(2) by simp
  have b: "encodes (\<lambda>x v. let (k, _, x2) = xdr_opaque (unat n) x st in (k, v, x2)) (Some st, n)
      (st @ replicate (xdr_rndup (unat n)) 0)"
    using encodes_wrap [where g = "\<lambda>_ v. v", OF _ xdr_opaque_encodes [of "unat n" st]] assms(1) lt by simp
  show "encodes (xdr_bytes alloc maxsize) (Some st, n) w"
    unfolding w_def by (rule encodes_seq [OF xdr_u_int_codec(1) b]) (use le in \<open>auto simp: xdr_bytes_def\<close>)
  have d: "decodes (\<lambda>x v. let (k, st1, x2) = xdr_opaque (unat n) x st0 in (k, (Some st1, n), x2))
      (st @ replicate (xdr_rndup (unat n)) 0) w0 (Some st, n)" if "length st0 = unat n" for st0 and w0 :: "byte list option \<times> 32 word"
    using decodes_wrap [where g = "\<lambda>st1. (Some st1, n)", OF xdr_opaque_decodes [of st "replicate (xdr_rndup (unat n)) 0" st0]]
      that assms(1) lt by simp
  show "decodes (xdr_bytes alloc maxsize) w (None, m) (Some st, n)" if "alloc (unat n)" "0 < n"
    unfolding w_def by (rule decodes_seq [OF xdr_u_int_codec(2) [of _ m] d [of "fresh_bytes (unat n)"]])
      (use le that in \<open>auto simp: xdr_bytes_def fresh_bytes_def\<close>)
  show "decodes (xdr_bytes alloc maxsize) w (Some st0, m) (Some st, n)" if "length st0 = unat n" "0 < n"
    unfolding w_def by (rule decodes_seq [OF xdr_u_int_codec(2) [of _ m] d [OF that(1)]])
      (use le that in \<open>auto simp: xdr_bytes_def\<close>)
qed

text \<open>Strings: \<open>cs\<close> is the string, stored with its terminator.\<close>

lemma xdr_string_codec:
  assumes cs: "0 \<notin> set cs" "length cs = unat n" "n \<le> maxsize" "n + 1 \<noteq> 0"
  defines "w \<equiv> be32 n @ cs @ replicate (xdr_rndup (unat n)) 0"
  shows "encodes (xdr_string alloc maxsize) (Some (cs @ 0 # rs)) w"
    "alloc (Suc (unat n)) \<Longrightarrow> decodes (xdr_string alloc maxsize) w None (Some (cs @ [0]))"
proof -
  have lt: "unat n < 2 ^ 32" by (rule unat32_less)
  have le: "\<not> n > maxsize" using cs(3) by simp
  have "takeWhile (\<lambda>b. b \<noteq> 0) (cs @ 0 # rs) = cs" using cs(1) by (induction cs) auto
  then have n: "of_nat (strlen_bytes (cs @ 0 # rs)) = n" using cs(2) by (simp add: strlen_bytes_def)
  have b: "encodes (\<lambda>x v. let (k, _, x2) = xdr_opaque (unat n) x (cs @ 0 # rs) in (k, v, x2)) (Some (cs @ 0 # rs))
      (cs @ replicate (xdr_rndup (unat n)) 0)"
    using encodes_wrap [where g = "\<lambda>_ v. v", OF _ xdr_opaque_encodes [of "unat n" "cs @ 0 # rs"]] cs(2) lt by simp
  show "encodes (xdr_string alloc maxsize) (Some (cs @ 0 # rs)) w"
    unfolding w_def by (rule encodes_seq [OF xdr_u_int_codec(1) b])
      (use le cs(4) n in \<open>auto simp: xdr_string_def xdr_string_body_def\<close>)
  have un: "unat (n + 1) = Suc (unat n)" using unatSuc [of n] cs(4) by (simp add: add.commute)
  have up: "(fresh_bytes (Suc (unat n)))[unat n := 0] = replicate (Suc (unat n)) 0"
    using list_update_same_conv [of "unat n" "replicate (Suc (unat n)) 0" 0]
    by (simp add: fresh_bytes_def del: replicate_Suc)
  have dr: "drop (unat n) (replicate (Suc (unat n)) (0 :: byte)) = [0]"
    unfolding drop_replicate by simp
  have d: "decodes (\<lambda>x v. let (k, st1, x2) = xdr_opaque (unat n) x (replicate (Suc (unat n)) 0) in (k, Some st1, x2))
      (cs @ replicate (xdr_rndup (unat n)) 0) None (Some (cs @ [0]))"
    using decodes_wrap [where g = Some, OF xdr_opaque_decodes [of cs "replicate (xdr_rndup (unat n)) 0" "replicate (Suc (unat n)) 0"]]
      cs(2) lt dr by (simp del: replicate_Suc)
  show "decodes (xdr_string alloc maxsize) w None (Some (cs @ [0]))" if "alloc (Suc (unat n))"
    unfolding w_def by (rule decodes_seq [OF xdr_u_int_codec(2) [of _ 0] d])
      (use le that un up cs(4) in \<open>auto simp: xdr_string_def xdr_string_body_def\<close>)
qed

section \<open>Unions, arrays and pointers\<close>

lemma xdr_union_codec:
  assumes "xdr_union_search choices d dfault = Some p"
  shows "encodes p u bs \<Longrightarrow> encodes (xdr_union choices dfault) (d, u) (be32 d @ bs)"
    "decodes p bs u0 u \<Longrightarrow> decodes (xdr_union choices dfault) (be32 d @ bs) (d0, u0) (d, u)"
proof -
  show "encodes (xdr_union choices dfault) (d, u) (be32 d @ bs)" if "encodes p u bs"
    by (rule encodes_seq [OF xdr_enum_codec(1) encodes_wrap [where g = "\<lambda>u' v. (fst v, u')", OF _ that]])
      (use assms in \<open>auto simp: xdr_union_def\<close>)
  show "decodes (xdr_union choices dfault) (be32 d @ bs) (d0, u0) (d, u)" if "decodes p bs u0 u"
    by (rule decodes_seq [OF xdr_enum_codec(2) [of _ d0] decodes_wrap [where g = "\<lambda>u'. (d, u')", OF that]])
      (use assms in \<open>auto simp: xdr_union_def\<close>)
qed

text \<open>The elements of an array, one after another.\<close>

lemma xdr_elems_encodes:
  assumes "\<forall>v \<in> set vs. encodes p v (e v)"
  shows "encodes (xdr_elems p (length vs)) vs (concat (map e vs))"
  using assms
proof (induction vs)
  case Nil
  then show ?case by (auto intro: encodes_nothing)
next
  case (Cons v vs)
  have p: "encodes p v (e v)" and g: "encodes (\<lambda>x v'. let (k, ws, x2) = xdr_elems p (length vs) x vs in (k, v # ws, x2)) (v # vs) (concat (map e vs))"
    using Cons encodes_wrap [where g = "\<lambda>ws _. v # ws", OF _ Cons.IH] by simp_all
  show ?case unfolding list.map concat.simps by (rule encodes_seq [OF p g]) auto
qed

lemma xdr_elems_decodes:
  assumes "length v0s = length vs" "\<forall>i < length vs. decodes p (e (vs ! i)) (v0s ! i) (vs ! i)"
  shows "decodes (xdr_elems p (length vs)) (concat (map e vs)) v0s vs"
  using assms
proof (induction vs arbitrary: v0s)
  case Nil
  then show ?case by (auto intro: decodes_nothing)
next
  case (Cons v vs)
  then obtain z zs where z: "v0s = z # zs" by (cases v0s) auto
  have p: "decodes p (e v) z v" using Cons.prems(2) z by force
  have "decodes (xdr_elems p (length vs)) (concat (map e vs)) zs vs" using Cons z by force
  then show ?case
    unfolding list.map concat.simps z
    by (rule decodes_seq [OF p decodes_wrap [where g = "\<lambda>ws. v # ws"]]) auto
qed

lemma xdr_vector_codec:
  shows "\<forall>v \<in> set vs. encodes p v (e v) \<Longrightarrow> encodes (xdr_vector (length vs) p) vs (concat (map e vs))"
    "length v0s = length vs \<Longrightarrow> \<forall>i < length vs. decodes p (e (vs ! i)) (v0s ! i) (vs ! i) \<Longrightarrow>
      decodes (xdr_vector (length vs) p) (concat (map e vs)) v0s vs"
proof -
  have v: "xdr_vector (length vs) p = xdr_elems p (length vs)" by (intro ext) (simp add: xdr_vector_def)
  show "\<forall>v \<in> set vs. encodes p v (e v) \<Longrightarrow> encodes (xdr_vector (length vs) p) vs (concat (map e vs))"
    unfolding v by (rule xdr_elems_encodes)
  show "length v0s = length vs \<Longrightarrow> \<forall>i < length vs. decodes p (e (vs ! i)) (v0s ! i) (vs ! i) \<Longrightarrow>
      decodes (xdr_vector (length vs) p) (concat (map e vs)) v0s vs"
    unfolding v by (rule xdr_elems_decodes)
qed

lemma xdr_array_codec:
  assumes "length vs = unat n" "n \<le> maxsize" "n \<le> (- 1) div elsize"
  shows "\<forall>v \<in> set vs. encodes p v (e v) \<Longrightarrow>
      encodes (xdr_array alloc zero maxsize elsize p) (Some vs, n) (be32 n @ concat (map e vs))"
    "\<forall>v \<in> set vs. decodes p (e v) zero v \<Longrightarrow> alloc (unat (n * elsize)) \<Longrightarrow> 0 < n \<Longrightarrow>
      decodes (xdr_array alloc zero maxsize elsize p) (be32 n @ concat (map e vs)) (None, m) (Some vs, n)"
proof -
  have le: "\<not> n > maxsize" "\<not> n > (- 1) div elsize" using assms(2,3) by simp_all
  show "encodes (xdr_array alloc zero maxsize elsize p) (Some vs, n) (be32 n @ concat (map e vs))"
    if "\<forall>v \<in> set vs. encodes p v (e v)"
    by (rule encodes_seq [OF xdr_u_int_codec(1) encodes_wrap [where g = "\<lambda>ws v. (Some ws, n)", OF _ xdr_elems_encodes [OF that]]])
      (use le assms(1) in \<open>auto simp: xdr_array_def\<close>)
  show "decodes (xdr_array alloc zero maxsize elsize p) (be32 n @ concat (map e vs)) (None, m) (Some vs, n)"
    if d: "\<forall>v \<in> set vs. decodes p (e v) zero v" "alloc (unat (n * elsize))" "0 < n"
  proof -
    have "decodes (xdr_elems p (length vs)) (concat (map e vs)) (replicate (unat n) zero) vs"
      using d assms(1) by (intro xdr_elems_decodes) auto
    from decodes_wrap [where g = "\<lambda>ws. (Some ws, n)", OF this] show ?thesis
      by (rule decodes_seq [OF xdr_u_int_codec(2) [of _ m]]) (use le assms(1) d in \<open>auto simp: xdr_array_def\<close>)
  qed
qed

lemma xdr_pointer_codec:
  shows "encodes p v bs \<Longrightarrow> encodes (xdr_pointer alloc zero sz p) (Some v) (be32 1 @ bs)"
    "decodes p bs zero v \<Longrightarrow> alloc (unat sz) \<Longrightarrow> decodes (xdr_pointer alloc zero sz p) (be32 1 @ bs) None (Some v)"
    "encodes (xdr_pointer alloc zero sz p) None (be32 0)"
    "decodes (xdr_pointer alloc zero sz p) (be32 0) v0 None"
proof -
  note one = xdr_bool_codec(1) [of 1, simplified]
  show "encodes (xdr_pointer alloc zero sz p) (Some v) (be32 1 @ bs)" if "encodes p v bs"
    by (rule encodes_seq [OF one encodes_wrap [where g = "\<lambda>u _. Some u", OF _ that]])
      (auto simp: xdr_pointer_def xdr_reference_def)
  show "decodes (xdr_pointer alloc zero sz p) (be32 1 @ bs) None (Some v)" if "decodes p bs zero v" "alloc (unat sz)"
    by (rule decodes_seq [OF xdr_bool_codec(2) [of True 0, simplified] decodes_wrap [where g = Some, OF that(1)]])
      (use that(2) in \<open>auto simp: xdr_pointer_def xdr_reference_def\<close>)
  have "encodes (xdr_pointer alloc zero sz p) None (be32 0 @ [])"
    by (rule encodes_seq [OF xdr_bool_codec(1) [of 0, simplified] encodes_nothing [of "\<lambda>x v. (True, None, x)"]])
      (auto simp: xdr_pointer_def)
  then show "encodes (xdr_pointer alloc zero sz p) None (be32 0)" by simp
  have "decodes (xdr_pointer alloc zero sz p) (be32 0 @ []) v0 None"
    by (rule decodes_seq [OF xdr_bool_codec(2) [of False "if v0 \<noteq> None then 1 else 0", simplified]
          decodes_nothing [of "\<lambda>x v. (True, None, x)" v0]])
      (auto simp: xdr_pointer_def)
  then show "decodes (xdr_pointer alloc zero sz p) (be32 0) v0 None" by simp
qed

end

end
