(* ===== verification/XdrMem.thy ===== *)
theory XdrMem
  imports Xdr
begin

text \<open>
  The memory stream of \<open>libc/inet/rpc/xdr_mem.c\<close>, the proof that it implements the stream interface
  \<open>xdr_stream\<close> for 32-bit and 64-bit \<open>long\<close>, and the round trips of the filters through a buffer.
\<close>

section \<open>The memory stream\<close>

text \<open>\<open>libc/inet/rpc/xdr_mem.c\<close>: \<open>mem\<close> is the memory, \<open>x_private\<close> the next byte, \<open>x_base\<close> the start of the
  buffer, \<open>x_handy\<close> the bytes left. Pointers have the width of \<open>long\<close> and wrap.\<close>

record 'w xdrmem =
  mem :: "'w \<Rightarrow> byte"
  x_private :: "'w"
  x_base :: "'w"
  x_handy :: "32 word"

definition load_bytes :: "('l::len word \<Rightarrow> byte) \<Rightarrow> 'l word \<Rightarrow> nat \<Rightarrow> byte list" where
  "load_bytes m p n = map (\<lambda>i. m (p + of_nat i)) [0..<n]"

fun store_bytes :: "'l::len word \<Rightarrow> byte list \<Rightarrow> ('l word \<Rightarrow> byte) \<Rightarrow> ('l word \<Rightarrow> byte)" where
  "store_bytes p [] m = m"
| "store_bytes p (b # bs) m = store_bytes (p + 1) bs (m(p := b))"

text \<open>\<open>ntohl\<close> of the word at \<open>p\<close> and the store of \<open>htonl (v)\<close>: in memory the word is big-endian,
  whatever the byte order of the machine.\<close>

definition xdrmem_destroy :: "'l::len word xdrmem \<Rightarrow> 'l word xdrmem" where
  "xdrmem_destroy s = s"

definition xdrmem_getint32 :: "'l::len word xdrmem \<Rightarrow> 32 word option \<times> 'l word xdrmem" where
  "xdrmem_getint32 s =
     (if x_handy s < 4 then (None, s)
      else (Some (of_be32 (load_bytes (mem s) (x_private s) 4)),
            s\<lparr>x_handy := x_handy s - 4, x_private := x_private s + 4\<rparr>))"

definition xdrmem_putint32 :: "32 word \<Rightarrow> 'l::len word xdrmem \<Rightarrow> bool \<times> 'l word xdrmem" where
  "xdrmem_putint32 v s =
     (if x_handy s < 4 then (False, s)
      else (True, s\<lparr>x_handy := x_handy s - 4, mem := store_bytes (x_private s) (be32 v) (mem s),
                    x_private := x_private s + 4\<rparr>))"

definition xdrmem_getlong :: "'l::len word xdrmem \<Rightarrow> 'l word option \<times> 'l word xdrmem" where
  "xdrmem_getlong s =
     (if x_handy s < 4 then (None, s)
      else (Some (scast (of_be32 (load_bytes (mem s) (x_private s) 4))),
            s\<lparr>x_handy := x_handy s - 4, x_private := x_private s + 4\<rparr>))"

definition xdrmem_putlong :: "'l::len word \<Rightarrow> 'l word xdrmem \<Rightarrow> bool \<times> 'l word xdrmem" where
  "xdrmem_putlong l s =
     (if x_handy s < 4 then (False, s)
      else (True, s\<lparr>x_handy := x_handy s - 4, mem := store_bytes (x_private s) (be32 (ucast l)) (mem s),
                    x_private := x_private s + 4\<rparr>))"

definition xdrmem_getbytes :: "nat \<Rightarrow> 'l::len word xdrmem \<Rightarrow> byte list option \<times> 'l word xdrmem" where
  "xdrmem_getbytes len s =
     (if unat (x_handy s) < len then (None, s)
      else (Some (load_bytes (mem s) (x_private s) len),
            s\<lparr>x_handy := x_handy s - of_nat len, x_private := x_private s + of_nat len\<rparr>))"

definition xdrmem_putbytes :: "byte list \<Rightarrow> 'l::len word xdrmem \<Rightarrow> bool \<times> 'l word xdrmem" where
  "xdrmem_putbytes bs s =
     (if unat (x_handy s) < length bs then (False, s)
      else (True, s\<lparr>x_handy := x_handy s - of_nat (length bs), mem := store_bytes (x_private s) bs (mem s),
                    x_private := x_private s + of_nat (length bs)\<rparr>))"

definition xdrmem_getpos :: "'l::len word xdrmem \<Rightarrow> 32 word" where
  "xdrmem_getpos s = ucast (x_private s - x_base s)"

definition xdrmem_setpos :: "32 word \<Rightarrow> 'l::len word xdrmem \<Rightarrow> bool \<times> 'l word xdrmem" where
  "xdrmem_setpos pos s =
     (let newaddr = x_base s + ucast pos;
          lastaddr = x_private s + ucast (x_handy s)
      in if sint newaddr > sint lastaddr \<or> 32 < LENGTH('l) \<and> 2 ^ 32 - 1 < sint lastaddr - sint newaddr
         then (False, s)
         else (True, s\<lparr>x_private := newaddr, x_handy := word_of_int (sint lastaddr - sint newaddr)\<rparr>))"

definition xdrmem_inline :: "32 word \<Rightarrow> 'l::len word xdrmem \<Rightarrow> 'l word \<times> 'l word xdrmem" where
  "xdrmem_inline len s =
     (if len \<le> x_handy s
      then (x_private s, s\<lparr>x_handy := x_handy s - len, x_private := x_private s + ucast len\<rparr>)
      else (0, s))"

definition xdrmem_ops :: "('l::len word, 'l word xdrmem) xdr_ops" where
  "xdrmem_ops =
     \<lparr>x_getlong = xdrmem_getlong, x_putlong = xdrmem_putlong, x_getbytes = xdrmem_getbytes,
      x_putbytes = xdrmem_putbytes, x_getpostn = xdrmem_getpos, x_setpostn = xdrmem_setpos,
      x_inline = xdrmem_inline, x_destroy = xdrmem_destroy, x_getint32 = xdrmem_getint32,
      x_putint32 = xdrmem_putint32\<rparr>"

definition xdrmem_create ::
  "('l::len word \<Rightarrow> byte) \<Rightarrow> 'l word \<Rightarrow> 32 word \<Rightarrow> xdr_op \<Rightarrow> ('l word, 'l word xdrmem) XDR" where
  "xdrmem_create m addr sz op =
     \<lparr>x_op = op, x_ops = xdrmem_ops,
      x_stream = \<lparr>mem = m, x_private = addr, x_base = addr, x_handy = sz\<rparr>\<rparr>"

section \<open>The memory stream implements the interface\<close>

text \<open>The buffer starts at \<open>a\<close>, and from the current position on the memory is still \<open>m\<close>.\<close>

definition mem_ok :: "'l::len word \<Rightarrow> ('l word \<Rightarrow> byte) \<Rightarrow> 'l word xdrmem \<Rightarrow> bool" where
  "mem_ok a m s \<longleftrightarrow> x_base s = a \<and> unat (x_private s - x_base s) + unat (x_handy s) < 2 ^ 32
     \<and> (\<forall>q. unat (x_private s - a) \<le> unat (q - a) \<longrightarrow> mem s q = m q)"

definition mem_out :: "'l::len word xdrmem \<Rightarrow> byte list" where
  "mem_out s = load_bytes (mem s) (x_base s) (unat (x_private s - x_base s))"

definition mem_room :: "'l::len word xdrmem \<Rightarrow> nat" where
  "mem_room s = unat (x_handy s)"

definition mem_pending :: "'l::len word xdrmem \<Rightarrow> byte list" where
  "mem_pending s = load_bytes (mem s) (x_private s) (unat (x_handy s))"

lemma length_load_bytes [simp]: "length (load_bytes m p n) = n"
  by (simp add: load_bytes_def)

lemma load_bytes_add: "load_bytes m p (a + b) = load_bytes m p a @ load_bytes m (p + of_nat a) b"
  by (induction b) (simp_all add: load_bytes_def add_ac)

lemma store_bytes_other:
  fixes p :: "'l::len word"
  assumes "\<And>i. i < length bs \<Longrightarrow> q \<noteq> p + of_nat i"
  shows "store_bytes p bs m q = m q"
  using assms
proof (induction bs arbitrary: p m)
  case (Cons b bs)
  have "q \<noteq> p" using Cons.prems [of 0] by simp
  moreover have "q \<noteq> p + 1 + of_nat i" if "i < length bs" for i
    using Cons.prems [of "Suc i"] that by (simp add: add_ac)
  ultimately show ?case using Cons.IH [of "p + 1"] by simp
qed simp

lemma of_nat_add_eq:
  assumes "i < 2 ^ LENGTH('l::len)" "j < 2 ^ LENGTH('l)"
  shows "(p :: 'l word) + of_nat i = p + of_nat j \<longleftrightarrow> i = j"
  using assms by (auto simp: of_nat_inverse dest: arg_cong [of _ _ unat])

lemma load_store:
  fixes p :: "'l::len word"
  assumes "length bs < 2 ^ LENGTH('l)"
  shows "load_bytes (store_bytes p bs m) p (length bs) = bs"
  using assms
proof (induction bs arbitrary: p m)
  case (Cons b bs)
  have o: "store_bytes (p + 1) bs (m(p := b)) p = b"
  proof -
    have "p \<noteq> p + 1 + of_nat i" if "i < length bs" for i
      using of_nat_add_eq [of 0 "Suc i" p] that Cons.prems by (simp add: add_ac)
    then show ?thesis by (subst store_bytes_other) auto
  qed
  have "load_bytes (store_bytes (p + 1) bs (m(p := b))) p (1 + length bs)
      = b # load_bytes (store_bytes (p + 1) bs (m(p := b))) (p + 1) (length bs)"
    unfolding load_bytes_add by (simp add: load_bytes_def o)
  then show ?case using Cons.IH [of "p + 1"] Cons.prems by simp
qed (simp add: load_bytes_def)

lemma load_store_before:
  fixes p :: "'l::len word"
  assumes "n + length bs < 2 ^ LENGTH('l)"
  shows "load_bytes (store_bytes (p + of_nat n) bs m) p n = load_bytes m p n"
proof -
  have "store_bytes (p + of_nat n) bs m (p + of_nat i) = m (p + of_nat i)" if "i < n" for i
  proof (rule store_bytes_other)
    fix j assume "j < length bs"
    then show "p + of_nat i \<noteq> p + of_nat n + of_nat j"
      using of_nat_add_eq [of i "n + j" p] that assms by (simp add: add_ac)
  qed
  then show ?thesis by (simp add: load_bytes_def)
qed

lemma handy_sub:
  fixes h :: "32 word"
  assumes "n \<le> unat h"
  shows "unat (h - of_nat n) = unat h - n"
proof -
  have "n < 2 ^ 32" using assms unat32_less [of h] by simp
  then have "unat (of_nat n :: 32 word) = n" by (simp add: of_nat_inverse)
  then show ?thesis using assms unat_sub [of "of_nat n" h] by (simp add: word_le_nat_alt)
qed

lemma advance:
  fixes p b :: "'l::len word"
  assumes "32 \<le> LENGTH('l)" "unat (p - b) + n < 2 ^ 32"
  shows "unat (p + of_nat n - b) = unat (p - b) + n"
proof -
  have le: "(2::nat) ^ 32 \<le> 2 ^ LENGTH('l)" using assms(1) by (rule power_increasing) simp
  then have n: "unat (of_nat n :: 'l word) = n" using assms(2) by (simp add: of_nat_inverse)
  have "unat ((p - b) + of_nat n) = unat (p - b) + n"
    using unat_add_lem [of "p - b" "of_nat n"] assms(2) le n by simp
  then show ?thesis by (simp add: algebra_simps)
qed

text \<open>The write and the read of \<open>bs\<close>, shared by the operations.\<close>

lemma mem_write:
  fixes s :: "'l::len word xdrmem"
  assumes l: "32 \<le> LENGTH('l)" and s: "mem_ok a m s" "length bs \<le> mem_room s"
  defines "t \<equiv> s\<lparr>x_handy := x_handy s - of_nat (length bs), mem := store_bytes (x_private s) bs (mem s),
                    x_private := x_private s + of_nat (length bs)\<rparr>"
  shows "mem_ok a m t" "mem_out t = mem_out s @ bs" "mem_room t = mem_room s - length bs"
proof -
  let ?n = "unat (x_private s - x_base s)"
  have le: "(2::nat) ^ 32 \<le> 2 ^ LENGTH('l)" using l by (rule power_increasing) simp
  have adv: "unat (x_private s + of_nat (length bs) - x_base s) = ?n + length bs"
    using s by (intro advance [OF l]) (auto simp: mem_ok_def mem_room_def)
  have h: "unat (x_handy s - of_nat (length bs)) = unat (x_handy s) - length bs"
    using s by (intro handy_sub) (simp add: mem_room_def)
  show "mem_room t = mem_room s - length bs" by (simp add: mem_room_def t_def h)
  have base: "x_base s = a" using s(1) by (simp add: mem_ok_def)
  have "store_bytes (x_private s) bs (mem s) q = mem s q" if q: "?n + length bs \<le> unat (q - a)" for q
  proof (rule store_bytes_other)
    fix i assume "i < length bs"
    then have "unat (x_private s + of_nat i - x_base s) = ?n + i"
      using s by (intro advance [OF l]) (auto simp: mem_ok_def mem_room_def)
    then show "q \<noteq> x_private s + of_nat i" using q \<open>i < length bs\<close> base by auto
  qed
  then show "mem_ok a m t" using s adv h by (auto simp: mem_ok_def mem_room_def t_def)
  have p: "x_base s + of_nat ?n = x_private s" by simp
  have lt: "?n + length bs < 2 ^ LENGTH('l)" using s le by (auto simp: mem_ok_def mem_room_def)
  have "load_bytes (store_bytes (x_private s) bs (mem s)) (x_base s) (?n + length bs) = mem_out s @ bs"
    unfolding load_bytes_add p
    using load_store_before [of ?n bs "x_base s" "mem s", unfolded p, OF lt] load_store [of bs "x_private s" "mem s"] lt
    by (simp add: mem_out_def)
  then show "mem_out t = mem_out s @ bs" by (simp add: mem_out_def t_def adv)
qed

lemma mem_read:
  fixes s :: "'l::len word xdrmem"
  assumes l: "32 \<le> LENGTH('l)" and s: "mem_ok a m s" "mem_pending s = bs @ r"
  defines "t \<equiv> s\<lparr>x_handy := x_handy s - of_nat (length bs), x_private := x_private s + of_nat (length bs)\<rparr>"
  shows "length bs \<le> unat (x_handy s)" "load_bytes (mem s) (x_private s) (length bs) = bs" "mem_ok a m t" "mem_pending t = r"
proof -
  have "length (mem_pending s) = unat (x_handy s)" by (simp add: mem_pending_def)
  then have n: "unat (x_handy s) = length bs + length r" using s(2) by simp
  then show "length bs \<le> unat (x_handy s)" by simp
  have eq: "load_bytes (mem s) (x_private s) (length bs) @ load_bytes (mem s) (x_private s + of_nat (length bs)) (length r) = bs @ r"
    using s(2) by (simp add: mem_pending_def n load_bytes_add)
  then show "load_bytes (mem s) (x_private s) (length bs) = bs" by simp
  have h: "unat (x_handy s - of_nat (length bs)) = length r" using n handy_sub [of "length bs" "x_handy s"] by simp
  show "mem_pending t = r" using eq by (simp add: mem_pending_def t_def h)
  have "unat (x_private s + of_nat (length bs) - x_base s) = unat (x_private s - x_base s) + length bs"
    using s n by (intro advance [OF l]) (auto simp: mem_ok_def)
  then show "mem_ok a m t" using s n h by (auto simp: mem_ok_def t_def)
qed

lemma mem_stream:
  assumes l: "32 \<le> LENGTH('l::len)"
  shows "xdr_stream (xdrmem_ops :: ('l word, 'l word xdrmem) xdr_ops) (mem_ok a m) mem_out mem_room mem_pending"
proof unfold_locales
  show "32 \<le> LENGTH('l)" by (rule l)
  fix s :: "'l word xdrmem" and v :: "'l word" and w and bs r :: "byte list"
  have h: "\<not> x_handy s < 4 \<longleftrightarrow> 4 \<le> mem_room s" by (simp add: mem_room_def word_less_nat_alt not_less)
  show "mem_room s < 4 \<Longrightarrow> x_putlong xdrmem_ops v s = (False, s)"
    "mem_room s < 4 \<Longrightarrow> x_putint32 xdrmem_ops w s = (False, s)"
    "mem_room s < length bs \<Longrightarrow> x_putbytes xdrmem_ops bs s = (False, s)"
    using h by (auto simp: xdrmem_ops_def xdrmem_putlong_def xdrmem_putint32_def xdrmem_putbytes_def mem_room_def)
  show "\<exists>s'. x_putlong xdrmem_ops v s = (True, s') \<and> mem_ok a m s' \<and> mem_out s' = mem_out s @ be32 (ucast v)
      \<and> mem_room s' = mem_room s - 4" if "mem_ok a m s" "4 \<le> mem_room s"
    using mem_write [OF l that(1), of "be32 (ucast v)"] that h by (simp add: xdrmem_ops_def xdrmem_putlong_def)
  show "\<exists>s'. x_putint32 xdrmem_ops w s = (True, s') \<and> mem_ok a m s' \<and> mem_out s' = mem_out s @ be32 w
      \<and> mem_room s' = mem_room s - 4" if "mem_ok a m s" "4 \<le> mem_room s"
    using mem_write [OF l that(1), of "be32 w"] that h by (simp add: xdrmem_ops_def xdrmem_putint32_def)
  show "\<exists>s'. x_putbytes xdrmem_ops bs s = (True, s') \<and> mem_ok a m s' \<and> mem_out s' = mem_out s @ bs
      \<and> mem_room s' = mem_room s - length bs" if "mem_ok a m s" "length bs \<le> mem_room s"
    using mem_write [OF l that] that by (simp add: xdrmem_ops_def xdrmem_putbytes_def mem_room_def)
  show "\<exists>s'. x_getbytes xdrmem_ops (length bs) s = (Some bs, s') \<and> mem_ok a m s' \<and> mem_pending s' = r"
    if "mem_ok a m s" "mem_pending s = bs @ r"
    using mem_read [OF l that] by (simp add: xdrmem_ops_def xdrmem_getbytes_def)
  have rd: "\<not> x_handy s < 4 \<and> of_be32 (load_bytes (mem s) (x_private s) 4) = w
      \<and> mem_ok a m (s\<lparr>x_handy := x_handy s - 4, x_private := x_private s + 4\<rparr>)
      \<and> mem_pending (s\<lparr>x_handy := x_handy s - 4, x_private := x_private s + 4\<rparr>) = r"
    if "mem_ok a m s" "mem_pending s = be32 w @ r"
    using mem_read [OF l that] of_be32_be32 [of w "[]"] h by (simp add: mem_room_def)
  show "\<exists>s'. x_getlong xdrmem_ops s = (Some (scast w), s') \<and> mem_ok a m s' \<and> mem_pending s' = r"
    "\<exists>s'. x_getint32 xdrmem_ops s = (Some w, s') \<and> mem_ok a m s' \<and> mem_pending s' = r"
    if "mem_ok a m s" "mem_pending s = be32 w @ r"
    using rd [OF that] by (simp_all add: xdrmem_ops_def xdrmem_getlong_def xdrmem_getint32_def)
qed

interpretation mem32: xdr_stream "xdrmem_ops :: (32 word, 32 word xdrmem) xdr_ops" "mem_ok a m" mem_out mem_room mem_pending for a m
  by (rule mem_stream) simp

interpretation mem64: xdr_stream "xdrmem_ops :: (64 word, 64 word xdrmem) xdr_ops" "mem_ok a m" mem_out mem_room mem_pending for a m
  by (rule mem_stream) simp

section \<open>Round trips through a buffer\<close>

text \<open>\<open>transmits f v0 v w n\<close>: encoding \<open>v\<close> into any buffer succeeds exactly when the buffer has \<open>n\<close>
  bytes; the position is then \<open>n\<close>, nothing outside the \<open>n\<close> bytes was written, and decoding the buffer
  into an object that held \<open>v0\<close> makes it \<open>w\<close>.\<close>

definition transmits :: "('l::len, 'l word xdrmem, 'a) xdrproc \<Rightarrow> 'a \<Rightarrow> 'a \<Rightarrow> 'a \<Rightarrow> nat \<Rightarrow> bool" where
  "transmits f v0 v w n \<longleftrightarrow> (\<forall>m addr sz.
     if n \<le> unat sz
     then \<exists>x' x''. f (xdrmem_create m addr sz XDR_ENCODE) v = (True, v, x')
            \<and> xdrmem_getpos (x_stream x') = of_nat n \<and> (\<forall>q. n \<le> unat (q - addr) \<longrightarrow> mem (x_stream x') q = m q)
            \<and> f (xdrmem_create (mem (x_stream x')) addr sz XDR_DECODE) v0 = (True, w, x'')
     else \<exists>x'. f (xdrmem_create m addr sz XDR_ENCODE) v = (False, v, x'))"

definition roundtrips :: "('l::len, 'l word xdrmem, 'a) xdrproc \<Rightarrow> 'a \<Rightarrow> 'a \<Rightarrow> nat \<Rightarrow> bool" where
  "roundtrips f v0 v n \<longleftrightarrow> transmits f v0 v v n"

lemma transmitsI:
  fixes f :: "('l::len, 'l word xdrmem, 'a) xdrproc"
  assumes l: "32 \<le> LENGTH('l)"
    and e: "\<And>a m. xdr_stream.encodes xdrmem_ops (mem_ok a m) mem_out mem_room f v bs"
    and d: "\<And>a m. xdr_stream.decodes xdrmem_ops (mem_ok a m) mem_pending f bs v0 w"
  shows "transmits f v0 v w (length bs)"
proof -
  have "(length bs \<le> unat sz \<longrightarrow> (\<exists>x' x''. f (xdrmem_create m addr sz XDR_ENCODE) v = (True, v, x')
            \<and> xdrmem_getpos (x_stream x') = of_nat (length bs)
            \<and> (\<forall>q. length bs \<le> unat (q - addr) \<longrightarrow> mem (x_stream x') q = m q)
            \<and> f (xdrmem_create (mem (x_stream x')) addr sz XDR_DECODE) v0 = (True, w, x'')))
     \<and> (unat sz < length bs \<longrightarrow> (\<exists>x'. f (xdrmem_create m addr sz XDR_ENCODE) v = (False, v, x')))"
    for m and addr :: "'l word" and sz :: "32 word"
  proof (intro conjI impI)
    note st = mem_stream [OF l, of addr m]
    let ?s = "\<lparr>mem = m, x_private = addr, x_base = addr, x_handy = sz\<rparr>"
    have s: "mem_ok addr m ?s" "mem_out ?s = []" "mem_room ?s = unat sz"
      using unat32_less [of sz] by (simp_all add: mem_ok_def mem_out_def mem_room_def load_bytes_def)
    have en: "xdrmem_create m addr sz XDR_ENCODE = xdr_stream.enc xdrmem_ops ?s"
      by (simp add: xdrmem_create_def xdr_stream.enc_def [OF st])
    show "\<exists>x'. f (xdrmem_create m addr sz XDR_ENCODE) v = (False, v, x')" if "unat sz < length bs"
      using xdr_stream.encodes_full [OF st e s(1)] s(3) en that by simp
    assume fit: "length bs \<le> unat sz"
    then obtain t where t: "f (xdrmem_create m addr sz XDR_ENCODE) v = (True, v, xdr_stream.enc xdrmem_ops t)"
        "mem_ok addr m t" "mem_out t = bs"
      using xdr_stream.encodes_fits [OF st e s(1)] s(2,3) en by auto
    have base: "x_base t = addr" using t(2) by (simp add: mem_ok_def)
    have pos: "unat (x_private t - addr) = length bs"
      using t(3) base by (metis length_load_bytes mem_out_def)
    then have ld: "load_bytes (mem t) addr (length bs) = bs" using t(3) base by (simp add: mem_out_def)
    have gp: "xdrmem_getpos t = of_nat (length bs)"
      using base pos by (simp add: xdrmem_getpos_def unsigned_ucast_eq flip: pos)
    let ?d = "\<lparr>mem = mem t, x_private = addr, x_base = addr, x_handy = sz\<rparr>"
    have dn: "xdrmem_create (mem t) addr sz XDR_DECODE = xdr_stream.dec xdrmem_ops ?d"
      by (simp add: xdrmem_create_def xdr_stream.dec_def [OF st])
    have "mem_pending ?d = load_bytes (mem t) addr (length bs + (unat sz - length bs))"
      using fit by (simp add: mem_pending_def)
    then have pd: "mem_pending ?d = bs @ load_bytes (mem t) (addr + of_nat (length bs)) (unat sz - length bs)"
      unfolding load_bytes_add ld .
    have ok: "mem_ok addr (mem t) ?d" using unat32_less [of sz] by (simp add: mem_ok_def)
    obtain x'' where "f (xdrmem_create (mem t) addr sz XDR_DECODE) v0 = (True, w, x'')"
      using xdr_stream.decodesD [OF mem_stream [OF l] d ok pd] dn by auto
    then show "\<exists>x' x''. f (xdrmem_create m addr sz XDR_ENCODE) v = (True, v, x')
            \<and> xdrmem_getpos (x_stream x') = of_nat (length bs)
            \<and> (\<forall>q. length bs \<le> unat (q - addr) \<longrightarrow> mem (x_stream x') q = m q)
            \<and> f (xdrmem_create (mem (x_stream x')) addr sz XDR_DECODE) v0 = (True, w, x'')"
      using t gp pos by (auto simp: xdr_stream.enc_def [OF st] mem_ok_def)
  qed
  then show ?thesis by (auto simp: transmits_def not_le)
qed

lemmas roundtripsI = transmitsI [where v = v and w = v for v, folded roundtrips_def]

section \<open>Properties\<close>

text \<open>On every target whose \<open>long\<close> has at least 32 bits, the integer filters round-trip through
  a memory stream: an encoded object takes 4 bytes (8 for the 64-bit ones), encoding fails exactly
  when the buffer is smaller, nothing behind it is touched, and decoding restores the object.\<close>

theorem xdr_integers_roundtrip:
  fixes v0 :: "32 word"
  assumes "32 \<le> LENGTH('l::len)"
  shows "roundtrips (xdr_int :: ('l, 'l word xdrmem, 32 word) xdrproc) v0 i 4
    \<and> roundtrips (xdr_u_int :: ('l, 'l word xdrmem, 32 word) xdrproc) v0 i 4
    \<and> roundtrips (xdr_enum :: ('l, 'l word xdrmem, 32 word) xdrproc) v0 i 4
    \<and> roundtrips (xdr_short :: ('l, 'l word xdrmem, 16 word) xdrproc) s0 s 4
    \<and> roundtrips (xdr_u_short :: ('l, 'l word xdrmem, 16 word) xdrproc) s0 s 4
    \<and> roundtrips (xdr_char :: ('l, 'l word xdrmem, 8 word) xdrproc) c0 c 4
    \<and> roundtrips (xdr_u_char :: ('l, 'l word xdrmem, 8 word) xdrproc) c0 c 4
    \<and> roundtrips (xdr_int64_t :: ('l, 'l word xdrmem, 64 word) xdrproc) q0 q 8
    \<and> roundtrips (xdr_uint64_t :: ('l, 'l word xdrmem, 64 word) xdrproc) q0 q 8"
proof -
  note st = mem_stream [OF assms]
  show ?thesis
    using roundtripsI [OF assms xdr_stream.xdr_int_codec [OF st], of v0 i]
      roundtripsI [OF assms xdr_stream.xdr_u_int_codec [OF st], of v0 i]
      roundtripsI [OF assms xdr_stream.xdr_enum_codec [OF st], of v0 i]
      roundtripsI [OF assms xdr_stream.xdr_short_codec [OF st], of s0 s]
      roundtripsI [OF assms xdr_stream.xdr_u_short_codec [OF st], of s0 s]
      roundtripsI [OF assms xdr_stream.xdr_char_codec [OF st], of c0 c]
      roundtripsI [OF assms xdr_stream.xdr_u_char_codec [OF st], of c0 c]
      roundtripsI [OF assms xdr_stream.xdr_int64_codec [OF st], of q0 q]
      roundtripsI [OF assms xdr_stream.xdr_uint64_codec [OF st], of q0 q]
    by (simp only: length_be32 length_append) simp
qed

theorem xdr_integers_roundtrip_witness:
  "roundtrips (xdr_int :: (64, 64 word xdrmem, 32 word) xdrproc) 0 (- 5) 4
    \<and> roundtrips (xdr_int64_t :: (32, 32 word xdrmem, 64 word) xdrproc) 0 (- 5) 8"
  using xdr_integers_roundtrip [where 'l = 64, of 0 "- 5"] xdr_integers_roundtrip [where 'l = 32, of _ _ _ _ _ _ 0 "- 5"]
  by simp

text \<open>With a 32-bit \<open>long\<close>, \<open>xdr_hyper\<close> and \<open>xdr_u_hyper\<close> round-trip every 64-bit integer.\<close>

theorem xdr_hyper_roundtrip32:
  "roundtrips (xdr_hyper :: (32, 32 word xdrmem, 64 word) xdrproc) v0 v 8
    \<and> roundtrips (xdr_u_hyper :: (32, 32 word xdrmem, 64 word) xdrproc) v0 v 8"
proof
  show "roundtrips (xdr_hyper :: (32, 32 word xdrmem, 64 word) xdrproc) v0 v 8"
    using roundtripsI [OF _ mem32.xdr_hyper_encodes, of v v0] mem32.xdr_hyper_decodes [of _ _ v v0] by simp
  show "roundtrips (xdr_u_hyper :: (32, 32 word xdrmem, 64 word) xdrproc) v0 v 8"
    using roundtripsI [OF _ mem32.xdr_u_hyper_encodes, of v v0] mem32.xdr_u_hyper_decodes [of _ _ v v0] by simp
qed

text \<open>With a 64-bit \<open>long\<close> they do not. \<open>XDR_GETLONG\<close> sign-extends the low half into the 64-bit
  \<open>t2\<close>, although a comment says that being unsigned is enough, and \<open>*llp |= t2\<close> then sets the whole
  high half whenever bit 31 of the number is set.\<close>

theorem xdr_hyper_lp64_corrupts:
  fixes v :: "64 word"
  assumes "bit v 31"
  shows "transmits (xdr_hyper :: (64, 64 word xdrmem, 64 word) xdrproc) v0 v (v OR push_bit 32 (mask 32)) 8
    \<and> transmits (xdr_u_hyper :: (64, 64 word xdrmem, 64 word) xdrproc) v0 v (v OR push_bit 32 (mask 32)) 8"
proof
  show "transmits (xdr_hyper :: (64, 64 word xdrmem, 64 word) xdrproc) v0 v (v OR push_bit 32 (mask 32)) 8"
    using transmitsI [OF _ mem64.xdr_hyper_encodes mem64.xdr_hyper_decodes, of v0 v] assms by simp
  show "transmits (xdr_u_hyper :: (64, 64 word xdrmem, 64 word) xdrproc) v0 v (v OR push_bit 32 (mask 32)) 8"
    using transmitsI [OF _ mem64.xdr_u_hyper_encodes mem64.xdr_u_hyper_decodes, of v0 v] assms by simp
qed

theorem xdr_hyper_lp64_corrupts_witness:
  "transmits (xdr_hyper :: (64, 64 word xdrmem, 64 word) xdrproc) 0 0x80000000 0xFFFFFFFF80000000 8"
proof -
  have "bit (0x80000000 :: 64 word) 31" by (simp add: bit_numeral_word_iff)
  from xdr_hyper_lp64_corrupts [OF this, of 0] show ?thesis by (simp add: mask_eq_exp_minus_1)
qed

text \<open>C5: \<open>xdr_string\<close> round-trips every string that is not longer than \<open>maxsize\<close>: length word,
  characters, zero padding to a multiple of 4; the decoder allocates the string and terminates it.\<close>

theorem xdr_string_roundtrip:
  assumes "0 \<notin> set cs" "length cs = unat n" "n \<le> maxsize" "n + 1 \<noteq> 0" "alloc (Suc (unat n))"
  shows "roundtrips (xdr_string alloc maxsize :: (32, 32 word xdrmem, byte list option) xdrproc)
      None (Some (cs @ [0])) (4 + unat n + xdr_rndup (unat n))
    \<and> roundtrips (xdr_string alloc maxsize :: (64, 64 word xdrmem, byte list option) xdrproc)
      None (Some (cs @ [0])) (4 + unat n + xdr_rndup (unat n))"
proof -
  let ?w = "be32 n @ cs @ replicate (xdr_rndup (unat n)) 0"
  have "length ?w = 4 + unat n + xdr_rndup (unat n)" using assms(2) by simp
  moreover have "roundtrips (xdr_string alloc maxsize :: (32, 32 word xdrmem, byte list option) xdrproc) None (Some (cs @ [0])) (length ?w)"
    by (rule roundtripsI [OF _ mem32.xdr_string_codec(1) mem32.xdr_string_codec(2)]) (use assms in simp_all)
  moreover have "roundtrips (xdr_string alloc maxsize :: (64, 64 word xdrmem, byte list option) xdrproc) None (Some (cs @ [0])) (length ?w)"
    by (rule roundtripsI [OF _ mem64.xdr_string_codec(1) mem64.xdr_string_codec(2)]) (use assms in simp_all)
  ultimately show ?thesis by (simp add: add.assoc)
qed

theorem xdr_string_roundtrip_witness:
  "roundtrips (xdr_string (\<lambda>_. True) 255 :: (32, 32 word xdrmem, byte list option) xdrproc)
      None (Some [104, 101, 108, 108, 111, 0]) 12"
  using xdr_string_roundtrip [of "[104, 101, 108, 108, 111]" 5 255 "\<lambda>_. True"]
  by (simp add: xdr_rndup_def BYTES_PER_XDR_UNIT_def)

text \<open>\<open>xdr_array\<close> of integers round-trips: the count, then every element in order; a null pointer
  makes the decoder allocate. The guards reject counts above \<open>maxsize\<close> and counts whose size in bytes
  does not fit in \<open>u_int\<close>.\<close>

theorem xdr_array_roundtrip:
  assumes "length vs = unat n" "0 < n" "n \<le> maxsize" "n \<le> (- 1) div 4" "alloc (unat (n * 4))"
  shows "roundtrips (xdr_array alloc 0 maxsize 4 xdr_int :: (32, 32 word xdrmem, 32 word list option \<times> 32 word) xdrproc)
      (None, m) (Some vs, n) (4 + 4 * unat n)
    \<and> roundtrips (xdr_array alloc 0 maxsize 4 xdr_int :: (64, 64 word xdrmem, 32 word list option \<times> 32 word) xdrproc)
      (None, m) (Some vs, n) (4 + 4 * unat n)"
proof -
  let ?w = "be32 n @ concat (map be32 vs)"
  have "length (concat (map be32 vs)) = 4 * length vs" by (induction vs) simp_all
  then have "length ?w = 4 + 4 * unat n" using assms(1) by simp
  moreover have "roundtrips (xdr_array alloc 0 maxsize 4 xdr_int :: (32, 32 word xdrmem, 32 word list option \<times> 32 word) xdrproc)
      (None, m) (Some vs, n) (length ?w)"
    by (rule roundtripsI [OF _ mem32.xdr_array_codec(1) mem32.xdr_array_codec(2)])
      (use assms in \<open>simp_all add: mem32.xdr_int_codec\<close>)
  moreover have "roundtrips (xdr_array alloc 0 maxsize 4 xdr_int :: (64, 64 word xdrmem, 32 word list option \<times> 32 word) xdrproc)
      (None, m) (Some vs, n) (length ?w)"
    by (rule roundtripsI [OF _ mem64.xdr_array_codec(1) mem64.xdr_array_codec(2)])
      (use assms in \<open>simp_all add: mem64.xdr_int_codec\<close>)
  ultimately show ?thesis by simp
qed

theorem xdr_array_roundtrip_witness:
  "roundtrips (xdr_array (\<lambda>_. True) 0 16 4 xdr_int :: (32, 32 word xdrmem, 32 word list option \<times> 32 word) xdrproc)
      (None, 0) (Some [7, 8, 9], 3) 16"
  using xdr_array_roundtrip [of "[7, 8, 9]" 3 16 "\<lambda>_. True" 0] by simp

text \<open>A linked object through \<open>xdr_pointer\<close>: a present pointer is a one and its object, which the
  decoder allocates; a null pointer is a zero and comes back null. The object here is a
  discriminated union whose arm is chosen by \<open>xdr_union\<close>.\<close>

theorem xdr_pointer_union_roundtrip:
  assumes "alloc (unat sz)" "d \<in> {1, 2}"
  shows "roundtrips (xdr_pointer alloc (0, 0) sz (xdr_union [(1, xdr_int), (2, xdr_u_int)] None)
        :: (32, 32 word xdrmem, (32 word \<times> 32 word) option) xdrproc) None (Some (d, u)) 12
    \<and> roundtrips (xdr_pointer alloc (0, 0) sz (xdr_union [(1, xdr_int), (2, xdr_u_int)] None)
        :: (32, 32 word xdrmem, (32 word \<times> 32 word) option) xdrproc) None None 4"
proof
  let ?p = "[(1, xdr_int), (2, xdr_u_int)] :: (32 word \<times> (32, 32 word xdrmem, 32 word) xdrproc) list"
  have u: "mem32.encodes a m (xdr_union ?p None) (d, u) (be32 d @ be32 u)
      \<and> mem32.decodes a m (xdr_union ?p None) (be32 d @ be32 u) (0, 0) (d, u)" for a m
  proof (cases "d = 1")
    case True
    then have "xdr_union_search ?p d None = Some xdr_int" by simp
    from mem32.xdr_union_codec [OF this] show ?thesis using mem32.xdr_int_codec by blast
  next
    case False
    then have "xdr_union_search ?p d None = Some xdr_u_int" using assms(2) by simp
    from mem32.xdr_union_codec [OF this] show ?thesis using mem32.xdr_u_int_codec by blast
  qed
  have "roundtrips (xdr_pointer alloc (0, 0) sz (xdr_union ?p None)) None (Some (d, u)) (length (be32 1 @ be32 d @ be32 u))"
    by (rule roundtripsI [OF _ mem32.xdr_pointer_codec(1) mem32.xdr_pointer_codec(2)]) (use u assms(1) in simp_all)
  then show "roundtrips (xdr_pointer alloc (0, 0) sz (xdr_union ?p None)) None (Some (d, u)) 12" by simp
  have "roundtrips (xdr_pointer alloc (0, 0) sz (xdr_union ?p None)) None None (length (be32 0))"
    by (rule roundtripsI [OF _ mem32.xdr_pointer_codec(3) mem32.xdr_pointer_codec(4)]) simp
  then show "roundtrips (xdr_pointer alloc (0, 0) sz (xdr_union ?p None)) None None 4" by simp
qed

theorem xdr_pointer_union_roundtrip_witness:
  "roundtrips (xdr_pointer (\<lambda>_. True) (0, 0) 8 (xdr_union [(1, xdr_int), (2, xdr_u_int)] None)
        :: (32, 32 word xdrmem, (32 word \<times> 32 word) option) xdrproc) None (Some (2, 77)) 12"
  using xdr_pointer_union_roundtrip [of "\<lambda>_. True" 8 2 77] by simp

end
