(* ===== verification/Dictionary.thy ===== *)
theory Dictionary
  imports Prelude
begin

text \<open>
  The interface of the search tables (\<open>hsearch\<close>, \<open>tsearch\<close>, \<open>lsearch\<close>): a finite map in which the first
  value entered for a key stays. \<open>spare s\<close> bounds how many keys can still be entered.
\<close>

locale dictionary =
  fixes lookup :: "'s \<Rightarrow> 'k \<Rightarrow> 'v option"
    and enter :: "'k \<Rightarrow> 'v \<Rightarrow> 's \<Rightarrow> 's"
    and ok :: "'s \<Rightarrow> bool"
    and content :: "'s \<Rightarrow> 'k \<rightharpoonup> 'v"
    and spare :: "'s \<Rightarrow> nat"
  assumes lookup_law: "ok s \<Longrightarrow> lookup s k = content s k"
    and enter_ok: "ok s \<Longrightarrow> 0 < spare s \<Longrightarrow> ok (enter k v s)"
    and enter_content: "ok s \<Longrightarrow> 0 < spare s \<Longrightarrow>
          content (enter k v s) = (if content s k = None then (content s)(k \<mapsto> v) else content s)"
    and enter_spare: "ok s \<Longrightarrow> 0 < spare s \<Longrightarrow> spare s - 1 \<le> spare (enter k v s)"
begin

definition enter_all :: "('k \<times> 'v) list \<Rightarrow> 's \<Rightarrow> 's" where
  "enter_all kvs s = fold (\<lambda>(k, v). enter k v) kvs s"

lemma enter_all_content:
  assumes "ok s" "length kvs \<le> spare s"
  shows "ok (enter_all kvs s) \<and> content (enter_all kvs s) = map_of kvs ++ content s"
  using assms
proof (induction kvs arbitrary: s)
  case Nil
  then show ?case by (simp add: enter_all_def)
next
  case (Cons kv kvs)
  obtain k v where kv: "kv = (k, v)" by fastforce
  have sp: "0 < spare s" using Cons.prems by simp
  let ?s = "enter k v s"
  have "ok ?s" "length kvs \<le> spare ?s"
    using enter_ok [OF Cons.prems(1) sp] enter_spare [OF Cons.prems(1) sp, of k v] Cons.prems(2) by simp_all
  from Cons.IH [OF this] have ih: "ok (enter_all kvs ?s)" "content (enter_all kvs ?s) = map_of kvs ++ content ?s"
    by simp_all
  have "map_of kvs ++ content ?s = map_of (kv # kvs) ++ content s"
    by (auto simp: kv enter_content [OF Cons.prems(1) sp] map_add_def split: option.splits)
  then show ?case using ih by (simp add: kv enter_all_def del: fun_upd_apply)
qed

text \<open>Entering a list of entries into an empty table: a lookup finds the first one for its key.\<close>

lemma lookup_enter_all:
  assumes "ok s" "content s = Map.empty" "length kvs \<le> spare s"
  shows "lookup (enter_all kvs s) k = map_of kvs k"
  using enter_all_content [OF assms(1,3)] assms(2) lookup_law by simp

end

end
