(* ===== verification/Hsearch.thy ===== *)
theory Hsearch
  imports Dictionary
begin

text \<open>
  The hash tables of \<open>libc/misc/search/_hsearch_r.c\<close>: \<open>hcreate_r\<close>, \<open>hdestroy_r\<close>, \<open>hsearch_r\<close>.

  A table is the list of its slots, slot 0 included; a key is the bytes of the C string. \<open>unsigned int\<close>
  values are natural numbers below \<open>2 ^ 32\<close> with the wrap-around written out. The pointer returned
  through \<open>retval\<close> is the index of the slot. Whether \<open>calloc\<close> succeeds is the parameter \<open>calloc_ok\<close>.
\<close>

section \<open>Model\<close>

type_synonym key = "8 word list"

record hentry =
  used :: nat
  hkey :: key
  hdata :: nat

record hsearch_data =
  htable :: "hentry list option"
  hsize :: nat
  filled :: nat

datatype ACTION = FIND | ENTER

definition empty_entry :: hentry where
  "empty_entry = \<lparr>used = 0, hkey = [], hdata = 0\<rparr>"

partial_function (option) isprime_loop :: "nat \<Rightarrow> nat \<Rightarrow> nat option" where
  [code]: "isprime_loop number divisor =
     (if divisor * divisor mod 2 ^ 32 < number \<and> number mod divisor \<noteq> 0
      then isprime_loop number (sz_add divisor 2) else Some divisor)"

definition isprime :: "nat \<Rightarrow> bool option" where
  "isprime number =
     (case isprime_loop number 3 of None \<Rightarrow> None | Some divisor \<Rightarrow> Some (number mod divisor \<noteq> 0))"

partial_function (option) hcreate_prime :: "nat \<Rightarrow> nat option" where
  [code]: "hcreate_prime nel =
     (case isprime nel of
        None \<Rightarrow> None
      | Some b \<Rightarrow> if b then Some nel else hcreate_prime (sz_add nel 2))"

text \<open>The result, the descriptor and \<open>errno\<close>; the descriptor is \<open>None\<close> for a null pointer.\<close>

definition hcreate_r ::
  "(nat \<Rightarrow> bool) \<Rightarrow> nat \<Rightarrow> hsearch_data option \<Rightarrow> nat \<Rightarrow> (bool \<times> hsearch_data option \<times> nat) option" where
  "hcreate_r calloc_ok nel htab err =
     (case htab of
        None \<Rightarrow> Some (False, None, EINVAL)
      | Some h \<Rightarrow>
          if htable h \<noteq> None then Some (False, htab, err)
          else (case hcreate_prime (if even nel then nel + 1 else nel) of
                  None \<Rightarrow> None
                | Some n \<Rightarrow>
                    (let h1 = h\<lparr>hsize := n, filled := 0\<rparr>
                     in if calloc_ok (sz_add n 1)
                        then Some (True, Some (h1\<lparr>htable := Some (replicate (sz_add n 1) empty_entry)\<rparr>), err)
                        else Some (False, Some h1, ENOMEM))))"

definition hdestroy_r :: "hsearch_data option \<Rightarrow> nat \<Rightarrow> hsearch_data option \<times> nat" where
  "hdestroy_r htab err =
     (case htab of None \<Rightarrow> (None, EINVAL) | Some h \<Rightarrow> (Some (h\<lparr>htable := None\<rparr>), err))"

fun hash_loop :: "key \<Rightarrow> nat \<Rightarrow> 32 word \<Rightarrow> 32 word" where
  "hash_loop k 0 hval = hval"
| "hash_loop k (Suc count) hval = hash_loop k count (push_bit 4 hval + scast (k ! count))"

definition hash1 :: "nat \<Rightarrow> key \<Rightarrow> nat" where
  "hash1 sz k =
     (let hval = unat (hash_loop k (length k) (of_nat (length k))) mod sz
      in if hval = 0 then 1 else hval)"

definition hash2 :: "nat \<Rightarrow> nat \<Rightarrow> nat" where
  "hash2 sz hval = sz_add 1 (hval mod ((sz + 2 ^ 32 - 2) mod 2 ^ 32))"

definition probe_next :: "nat \<Rightarrow> nat \<Rightarrow> nat \<Rightarrow> nat" where
  "probe_next sz hval2 idx = (if idx \<le> hval2 then sz + idx - hval2 else idx - hval2)"

definition entry_matches :: "nat \<Rightarrow> key \<Rightarrow> hentry \<Rightarrow> bool" where
  "entry_matches hval k e \<longleftrightarrow> used e = hval \<and> hkey e = k"

text \<open>The \<open>do\<close> loop: whether the key was found, and the index.\<close>

partial_function (option) hsearch_probe ::
  "hentry list \<Rightarrow> nat \<Rightarrow> key \<Rightarrow> nat \<Rightarrow> nat \<Rightarrow> nat \<Rightarrow> (bool \<times> nat) option" where
  [code]: "hsearch_probe t sz k hval hval2 idx =
     (let i = probe_next sz hval2 idx
      in if i = hval then Some (False, i)
         else if entry_matches hval k (t ! i) then Some (True, i)
         else if used (t ! i) \<noteq> 0 then hsearch_probe t sz k hval hval2 i
         else Some (False, i))"

definition hsearch_find :: "hentry list \<Rightarrow> nat \<Rightarrow> key \<Rightarrow> (bool \<times> nat) option" where
  "hsearch_find t sz k =
     (let hval = hash1 sz k
      in if used (t ! hval) \<noteq> 0 then
           (if entry_matches hval k (t ! hval) then Some (True, hval)
            else hsearch_probe t sz k hval (hash2 sz hval) hval)
         else Some (False, hval))"

text \<open>The result is the slot, \<open>None\<close> when the function returns 0 with a null \<open>retval\<close>.\<close>

definition hsearch_r ::
  "key \<Rightarrow> nat \<Rightarrow> ACTION \<Rightarrow> hsearch_data \<Rightarrow> nat \<Rightarrow> (nat option \<times> hsearch_data \<times> nat) option" where
  "hsearch_r k data action htab err =
     (case htable htab of
        None \<Rightarrow> None
      | Some t \<Rightarrow>
          (case hsearch_find t (hsize htab) k of
             None \<Rightarrow> None
           | Some (True, idx) \<Rightarrow> Some (Some idx, htab, err)
           | Some (False, idx) \<Rightarrow>
               (case action of
                  ENTER \<Rightarrow>
                    if filled htab = hsize htab then Some (None, htab, ENOMEM)
                    else Some (Some idx,
                      htab\<lparr>htable := Some (t[idx := \<lparr>used = hash1 (hsize htab) k, hkey = k, hdata = data\<rparr>]),
                           filled := sz_add (filled htab) 1\<rparr>, err)
                | FIND \<Rightarrow> Some (None, htab, ESRCH))))"

section \<open>Specification\<close>

definition prime_num :: "nat \<Rightarrow> bool" where
  "prime_num n \<longleftrightarrow> 1 < n \<and> (\<forall>d. d dvd n \<longrightarrow> d = 1 \<or> d = n)"

text \<open>The finite map that a table represents.\<close>

definition hmap :: "hentry list \<Rightarrow> key \<rightharpoonup> nat" where
  "hmap t k = map_option hdata (List.find (\<lambda>e. used e \<noteq> 0 \<and> hkey e = k) t)"

text \<open>The slot that the \<open>n\<close>-th probe for a key with hash value \<open>hval\<close> looks at.\<close>

definition probe :: "nat \<Rightarrow> nat \<Rightarrow> nat \<Rightarrow> nat" where
  "probe sz hval n = (probe_next sz (hash2 sz hval) ^^ n) hval"

definition table_inv :: "hsearch_data \<Rightarrow> bool" where
  "table_inv htab \<longleftrightarrow> (\<exists>t. htable htab = Some t \<and> prime_num (hsize htab) \<and> 5 \<le> hsize htab \<and> hsize htab < 2 ^ 32 - 1
     \<and> length t = hsize htab + 1 \<and> used (t ! 0) = 0
     \<and> filled htab = card {i \<in> {1..hsize htab}. used (t ! i) \<noteq> 0}
     \<and> (\<forall>i \<in> {1..hsize htab}. \<forall>j \<in> {1..hsize htab}.
          used (t ! i) \<noteq> 0 \<longrightarrow> used (t ! j) \<noteq> 0 \<longrightarrow> hkey (t ! i) = hkey (t ! j) \<longrightarrow> i = j)
     \<and> (\<forall>i \<in> {1..hsize htab}. used (t ! i) \<noteq> 0 \<longrightarrow> used (t ! i) = hash1 (hsize htab) (hkey (t ! i))
          \<and> (\<exists>n < hsize htab. probe (hsize htab) (used (t ! i)) n = i
               \<and> (\<forall>m < n. used (t ! probe (hsize htab) (used (t ! i)) m) \<noteq> 0))))"

section \<open>Probing visits every slot\<close>

lemma hash2_range:
  assumes "5 \<le> p" "p < 2 ^ 32"
  shows "1 \<le> hash2 p h" "hash2 p h < p"
proof -
  have m: "(p + 2 ^ 32 - 2) mod 2 ^ 32 = p - 2"
    using assms by (subst le_mod_geq) auto
  have "h mod (p - 2) < p - 2" using assms by simp
  then have "sz_add 1 (h mod (p - 2)) = 1 + h mod (p - 2)"
    using assms by (intro sz_add_less) linarith
  then show "1 \<le> hash2 p h" "hash2 p h < p"
    unfolding hash2_def m using \<open>h mod (p - 2) < p - 2\<close> by simp_all
qed

lemma probe_next_range: "i \<in> {1..p} \<Longrightarrow> s < p \<Longrightarrow> 0 < s \<Longrightarrow> probe_next p s i \<in> {1..p}"
  by (auto simp: probe_next_def)

lemma probe_next_mod: "i \<in> {1..p} \<Longrightarrow> s < p \<Longrightarrow> int p dvd int (probe_next p s i) - (int i - int s)"
  by (auto simp: probe_next_def of_nat_diff)

lemma probe_iter:
  assumes "i \<in> {1..p}" "0 < s" "s < p"
  shows "(probe_next p s ^^ n) i \<in> {1..p} \<and> int p dvd int ((probe_next p s ^^ n) i) - (int i - int n * int s)"
proof (induction n)
  case (Suc n)
  let ?j = "(probe_next p s ^^ n) i"
  have r: "?j \<in> {1..p}" and d: "int p dvd int ?j - (int i - int n * int s)" using Suc by simp_all
  have "int (probe_next p s ?j) - (int i - int (Suc n) * int s)
      = (int (probe_next p s ?j) - (int ?j - int s)) + (int ?j - (int i - int n * int s))"
    by (simp add: algebra_simps)
  then have "int p dvd int (probe_next p s ?j) - (int i - int (Suc n) * int s)"
    using probe_next_mod [OF r assms(3)] d by (metis dvd_add)
  then show ?case using probe_next_range [OF r assms(3,2)] by simp
qed (use assms in simp)

lemma prime_coprime: "prime_num p \<Longrightarrow> 0 < s \<Longrightarrow> s < p \<Longrightarrow> coprime (int p) (int s)"
proof -
  assume p: "prime_num p" "0 < s" "s < p"
  have "gcd p s dvd p" by simp
  then have "gcd p s = 1 \<or> gcd p s = p" using p(1) by (simp add: prime_num_def)
  moreover have "gcd p s \<le> s" using p(2) by (simp add: gcd_le2_nat)
  ultimately have "gcd p s = 1" using p(3) by linarith
  then show ?thesis by (simp add: coprime_iff_gcd_eq_1)
qed

lemma dvd_range_eq: "int p dvd int i - int j \<Longrightarrow> i \<in> {1..p} \<Longrightarrow> j \<in> {1..p} \<Longrightarrow> i = j"
proof -
  assume d: "int p dvd int i - int j" and r: "i \<in> {1..p}" "j \<in> {1..p}"
  have "\<bar>int i - int j\<bar> < int p" using r by auto
  then have "int i - int j = 0" using d by (metis abs_dvd_iff abs_ge_zero dvd_abs_iff zdvd_not_zless zero_less_abs_iff)
  then show "i = j" by simp
qed

lemma probe_inj:
  assumes "prime_num p" "i \<in> {1..p}" "0 < s" "s < p" "m < p" "n < p"
    and eq: "(probe_next p s ^^ m) i = (probe_next p s ^^ n) i"
  shows "m = n"
proof -
  have "int p dvd int ((probe_next p s ^^ m) i) - (int i - int m * int s)"
    "int p dvd int ((probe_next p s ^^ n) i) - (int i - int n * int s)"
    using probe_iter [OF assms(2-4)] by blast+
  from dvd_diff [OF this] have "int p dvd (int m - int n) * int s" by (simp add: eq algebra_simps)
  then have "int p dvd int m - int n"
    using prime_coprime [OF assms(1,3,4)] by (simp add: coprime_dvd_mult_left_iff)
  moreover have "\<bar>int m - int n\<bar> < int p" using assms(5,6) by auto
  ultimately have "int m - int n = 0"
    by (metis abs_dvd_iff abs_ge_zero dvd_abs_iff zdvd_not_zless zero_less_abs_iff)
  then show ?thesis by simp
qed

lemma probe_onto:
  assumes "prime_num p" "i \<in> {1..p}" "0 < s" "s < p"
  shows "(\<lambda>n. (probe_next p s ^^ n) i) ` {..<p} = {1..p}"
proof (rule card_subset_eq)
  show "(\<lambda>n. (probe_next p s ^^ n) i) ` {..<p} \<subseteq> {1..p}" using probe_iter [OF assms(2-4)] by blast
  have "inj_on (\<lambda>n. (probe_next p s ^^ n) i) {..<p}" using probe_inj [OF assms] by (auto intro: inj_onI)
  then show "card ((\<lambda>n. (probe_next p s ^^ n) i) ` {..<p}) = card {1..p}" by (simp add: card_image)
qed simp

lemma probe_cycle:
  assumes "prime_num p" "i \<in> {1..p}" "0 < s" "s < p"
  shows "(probe_next p s ^^ p) i = i"
proof -
  have "int p dvd int ((probe_next p s ^^ p) i) - (int i - int p * int s)" "(probe_next p s ^^ p) i \<in> {1..p}"
    using probe_iter [OF assms(2-4)] by blast+
  then have "int p dvd int ((probe_next p s ^^ p) i) - int i"
    by (metis add.commute diff_add_eq diff_diff_eq2 dvd_add_times_triv_right_iff mult.commute)
  then show ?thesis using dvd_range_eq assms(2) probe_iter [OF assms(2-4)] by blast
qed

section \<open>What the search returns\<close>

lemma hash1_range: "1 < p \<Longrightarrow> hash1 p k \<in> {1..p}"
  using mod_less_divisor [of p "unat (hash_loop k (length k) (of_nat (length k)))"]
  by (auto simp: hash1_def Let_def)

lemma probe_facts:
  assumes "prime_num p" "5 \<le> p" "p < 2 ^ 32" "h \<in> {1..p}"
  shows "probe p h 0 = h" "probe p h (Suc n) = probe_next p (hash2 p h) (probe p h n)" "probe p h n \<in> {1..p}"
    "probe p h p = h" "0 < n \<Longrightarrow> n < p \<Longrightarrow> probe p h n \<noteq> h" "i \<in> {1..p} \<Longrightarrow> \<exists>n < p. probe p h n = i"
    "m < p \<Longrightarrow> n < p \<Longrightarrow> probe p h m = probe p h n \<Longrightarrow> m = n"
proof -
  have s: "0 < hash2 p h" "hash2 p h < p" using hash2_range [OF assms(2,3), of h] by simp_all
  show "probe p h 0 = h" "probe p h (Suc n) = probe_next p (hash2 p h) (probe p h n)" by (simp_all add: probe_def)
  show "probe p h n \<in> {1..p}" using probe_iter [OF assms(4) s] by (simp add: probe_def)
  show "probe p h p = h" using probe_cycle [OF assms(1,4) s] by (simp add: probe_def)
  show inj: "m < p \<Longrightarrow> n < p \<Longrightarrow> probe p h m = probe p h n \<Longrightarrow> m = n" for m n
    using probe_inj [OF assms(1,4) s] by (simp add: probe_def)
  show "0 < n \<Longrightarrow> n < p \<Longrightarrow> probe p h n \<noteq> h" using inj [of n 0] by (auto simp: probe_def)
  show "\<exists>n < p. probe p h n = i" if "i \<in> {1..p}"
  proof -
    have "i \<in> (\<lambda>n. (probe_next p (hash2 p h) ^^ n) h) ` {..<p}"
      using probe_onto [OF assms(1,4) s] that by simp
    then show ?thesis by (auto simp: probe_def)
  qed
qed

text \<open>The loop stops at the first slot that matches or is free, or when it is back at the start.\<close>

lemma hsearch_probe_run:
  assumes p: "prime_num p" "5 \<le> p" "p < 2 ^ 32" "h \<in> {1..p}" and a: "a < n" "n \<le> p"
    and run: "\<And>m. 0 < m \<Longrightarrow> m < n \<Longrightarrow> used (t ! probe p h m) \<noteq> 0 \<and> \<not> entry_matches h k (t ! probe p h m)"
  shows "hsearch_probe t p k h (hash2 p h) (probe p h a) =
     (if n = p then Some (False, h)
      else if entry_matches h k (t ! probe p h n) then Some (True, probe p h n)
      else if used (t ! probe p h n) \<noteq> 0 then hsearch_probe t p k h (hash2 p h) (probe p h n)
      else Some (False, probe p h n))"
  using a(1)
proof (induction "n - a" arbitrary: a)
  case (Suc d)
  note pf = probe_facts [OF p]
  have unf: "hsearch_probe t p k h (hash2 p h) (probe p h a) =
     (if probe p h (Suc a) = h then Some (False, h)
      else if entry_matches h k (t ! probe p h (Suc a)) then Some (True, probe p h (Suc a))
      else if used (t ! probe p h (Suc a)) \<noteq> 0 then hsearch_probe t p k h (hash2 p h) (probe p h (Suc a))
      else Some (False, probe p h (Suc a)))"
    by (subst hsearch_probe.simps) (simp add: Let_def flip: pf(2))
  show ?case
  proof (cases "Suc a = n")
    case True
    have "probe p h (Suc a) = h \<longleftrightarrow> n = p"
    proof (cases "n = p")
      case True
      then show ?thesis using \<open>Suc a = n\<close> pf(4) by simp
    next
      case False
      then show ?thesis using \<open>Suc a = n\<close> pf(5) [of n] a(2) by simp
    qed
    then show ?thesis using unf True by simp
  next
    case False
    then have lt: "Suc a < n" using Suc.prems by simp
    have "d = n - Suc a" using Suc.hyps(2) by simp
    from Suc.hyps(1) [OF this lt] show ?thesis
      using unf run [of "Suc a"] pf(5) [of "Suc a"] lt a(2) by simp
  qed
qed simp

text \<open>The first index, if any, at which the probing sequence meets a predicate.\<close>

lemma first_probe:
  assumes "\<exists>n < (p::nat). P n"
  shows "\<exists>n < p. P n \<and> (\<forall>m < n. \<not> P m)"
proof -
  obtain n where "n < p \<and> P n" "\<forall>m < n. \<not> (m < p \<and> P m)"
    using assms exists_least_iff [of "\<lambda>n. n < p \<and> P n"] by blast
  then show ?thesis by (meson less_trans)
qed

definition slots :: "hsearch_data \<Rightarrow> hentry list" where
  "slots htab = (case htable htab of None \<Rightarrow> [] | Some t \<Rightarrow> t)"

lemma table_invD:
  assumes "table_inv htab"
  defines "t \<equiv> slots htab" and "p \<equiv> hsize htab"
  shows "htable htab = Some t" "prime_num p" "5 \<le> p" "p < 2 ^ 32 - 1" "length t = p + 1" "used (t ! 0) = 0"
    "filled htab = card {i \<in> {1..p}. used (t ! i) \<noteq> 0}"
    "\<And>i j. i \<in> {1..p} \<Longrightarrow> j \<in> {1..p} \<Longrightarrow> used (t ! i) \<noteq> 0 \<Longrightarrow> used (t ! j) \<noteq> 0 \<Longrightarrow> hkey (t ! i) = hkey (t ! j) \<Longrightarrow> i = j"
    "\<And>i. i \<in> {1..p} \<Longrightarrow> used (t ! i) \<noteq> 0 \<Longrightarrow> used (t ! i) = hash1 p (hkey (t ! i))
          \<and> (\<exists>n < p. probe p (used (t ! i)) n = i \<and> (\<forall>m < n. used (t ! probe p (used (t ! i)) m) \<noteq> 0))"
  using assms unfolding table_inv_def slots_def by auto

definition has_key :: "hsearch_data \<Rightarrow> key \<Rightarrow> nat \<Rightarrow> bool" where
  "has_key htab k i \<longleftrightarrow> i \<in> {1..hsize htab} \<and> used (slots htab ! i) \<noteq> 0 \<and> hkey (slots htab ! i) = k"

lemma hsearch_find_present:
  assumes inv: "table_inv htab" and k: "has_key htab k i"
  shows "hsearch_find (slots htab) (hsize htab) k = Some (True, i)"
proof -
  let ?t = "slots htab" and ?p = "hsize htab" and ?h = "hash1 (hsize htab) k"
  note d = table_invD [OF inv]
  have i: "i \<in> {1..?p}" "used (?t ! i) \<noteq> 0" "hkey (?t ! i) = k" using k by (auto simp: has_key_def)
  have p: "prime_num ?p" "5 \<le> ?p" "?p < 2 ^ 32" "?h \<in> {1..?p}" using d(2,3,4) hash1_range [of ?p k] by simp_all
  note pf = probe_facts [OF p]
  obtain n where n: "n < ?p" "probe ?p ?h n = i" "\<forall>m < n. used (?t ! probe ?p ?h m) \<noteq> 0" and u: "used (?t ! i) = ?h"
    using d(9) [OF i(1,2)] i(3) by auto
  have m: "entry_matches ?h k (?t ! i)" using u i(3) by (simp add: entry_matches_def)
  have nm: "\<not> entry_matches ?h k (?t ! probe ?p ?h m)" if "m < n" for m
  proof
    assume "entry_matches ?h k (?t ! probe ?p ?h m)"
    then have "probe ?p ?h m = i"
      using d(8) [OF pf(3) i(1)] n(3) that i by (auto simp: entry_matches_def)
    then show False using pf(7) [of m n] n that by simp
  qed
  show ?thesis
  proof (cases "n = 0")
    case True
    then show ?thesis using n(2) m i(2) pf(1) by (simp add: hsearch_find_def Let_def)
  next
    case False
    then have "hsearch_probe ?t ?p k ?h (hash2 ?p ?h) (probe ?p ?h 0) = Some (True, i)"
      using hsearch_probe_run [OF p, of 0 n ?t k] n nm m by simp
    then show ?thesis using False nm [of 0] n(3) [rule_format, of 0] pf(1) by (simp add: hsearch_find_def Let_def)
  qed
qed

lemma hsearch_find_absent:
  assumes inv: "table_inv htab" and k: "\<And>i. \<not> has_key htab k i"
  defines "t \<equiv> slots htab" and "p \<equiv> hsize htab" and "h \<equiv> hash1 (hsize htab) k"
  shows "(\<exists>n < p. hsearch_find t p k = Some (False, probe p h n) \<and> used (t ! probe p h n) = 0
            \<and> (\<forall>m < n. used (t ! probe p h m) \<noteq> 0))
    \<or> hsearch_find t p k = Some (False, h) \<and> (\<forall>i \<in> {1..p}. used (t ! i) \<noteq> 0)"
proof -
  note d = table_invD [OF inv, folded t_def p_def]
  have p: "prime_num p" "5 \<le> p" "p < 2 ^ 32" "h \<in> {1..p}"
    using d(2,3,4) hash1_range [of p k] by (simp_all add: h_def p_def)
  note pf = probe_facts [OF p]
  have nm: "\<not> (used (t ! probe p h m) \<noteq> 0 \<and> entry_matches h k (t ! probe p h m))" for m
    using k [of "probe p h m"] pf(3) by (auto simp: has_key_def entry_matches_def t_def p_def)
  have nm': "\<not> entry_matches h k (t ! probe p h m)" for m
    using nm [of m] p(4) by (auto simp: entry_matches_def)
  have unf: "hsearch_find t p k = (if used (t ! probe p h 0) \<noteq> 0 then hsearch_probe t p k h (hash2 p h) (probe p h 0)
      else Some (False, probe p h 0))"
    using nm' [of 0] pf(1) by (simp add: hsearch_find_def Let_def h_def p_def)
  show ?thesis
  proof (cases "\<exists>n < p. used (t ! probe p h n) = 0")
    case True
    then obtain n where n: "n < p" "used (t ! probe p h n) = 0" "\<forall>m < n. used (t ! probe p h m) \<noteq> 0"
      using first_probe [of p "\<lambda>n. used (t ! probe p h n) = 0"] by auto
    have "hsearch_find t p k = Some (False, probe p h n)"
    proof (cases "n = 0")
      case False
      then show ?thesis using hsearch_probe_run [OF p, of 0 n t k] n nm' unf by simp
    qed (use n unf in simp)
    then show ?thesis using n by blast
  next
    case False
    then have "hsearch_find t p k = Some (False, h)"
      using hsearch_probe_run [OF p, of 0 p t k] nm' unf p(2) by simp
    moreover have "\<forall>i \<in> {1..p}. used (t ! i) \<noteq> 0" using False pf(6) by metis
    ultimately show ?thesis by blast
  qed
qed

section \<open>The table as a finite map\<close>

lemma hmap_present:
  assumes inv: "table_inv htab" and k: "has_key htab k i"
  shows "hmap (slots htab) k = Some (hdata (slots htab ! i))"
proof -
  note d = table_invD [OF inv]
  let ?P = "\<lambda>e. used e \<noteq> 0 \<and> hkey e = k"
  have i: "i < length (slots htab)" "?P (slots htab ! i)" using k d(5) by (auto simp: has_key_def)
  have "\<not> ?P (slots htab ! j)" if "j < i" for j
  proof
    assume P: "?P (slots htab ! j)"
    then have "j \<noteq> 0" using d(6) by metis
    then have "j = i" using d(8) [of j i] P k that by (auto simp: has_key_def)
    then show False using that by simp
  qed
  then have "List.find ?P (slots htab) = Some (slots htab ! i)" using i by (auto simp: find_Some_iff)
  then show ?thesis by (simp add: hmap_def)
qed

lemma hmap_absent:
  assumes inv: "table_inv htab" and k: "\<And>i. \<not> has_key htab k i"
  shows "hmap (slots htab) k = None"
proof -
  note d = table_invD [OF inv]
  have "\<not> (used e \<noteq> 0 \<and> hkey e = k)" if e: "e \<in> set (slots htab)" for e
  proof
    assume P: "used e \<noteq> 0 \<and> hkey e = k"
    obtain i where i: "i < length (slots htab)" "e = slots htab ! i" using e by (auto simp: in_set_conv_nth)
    have "i \<noteq> 0" using d(6) P i by metis
    then have "has_key htab k i" using i P d(5) by (simp add: has_key_def)
    then show False using k by blast
  qed
  then show ?thesis by (auto simp: hmap_def find_None_iff)
qed

lemma hmap_None_iff: "table_inv htab \<Longrightarrow> hmap (slots htab) k = None \<longleftrightarrow> (\<forall>i. \<not> has_key htab k i)"
  using hmap_present hmap_absent by (metis option.distinct(1))

text \<open>A full table, seen from the counter.\<close>

lemma filled_full:
  assumes inv: "table_inv htab"
  shows "filled htab \<le> hsize htab" "filled htab = hsize htab \<longleftrightarrow> (\<forall>i \<in> {1..hsize htab}. used (slots htab ! i) \<noteq> 0)"
proof -
  note d = table_invD [OF inv]
  let ?U = "{i \<in> {1..hsize htab}. used (slots htab ! i) \<noteq> 0}"
  have sub: "?U \<subseteq> {1..hsize htab}" by blast
  show "filled htab \<le> hsize htab" using card_mono [OF _ sub] d(7) by simp
  have "card ?U = card {1..hsize htab} \<longleftrightarrow> ?U = {1..hsize htab}" using card_subset_eq [OF _ sub] by auto
  then show "filled htab = hsize htab \<longleftrightarrow> (\<forall>i \<in> {1..hsize htab}. used (slots htab ! i) \<noteq> 0)"
    using d(7) by auto
qed

definition enter_slot :: "nat \<Rightarrow> hentry \<Rightarrow> hsearch_data \<Rightarrow> hsearch_data" where
  "enter_slot i e htab = htab\<lparr>htable := Some ((slots htab)[i := e]), filled := sz_add (filled htab) 1\<rparr>"

lemma enter_slot_inv:
  fixes v :: nat
  assumes inv: "table_inv htab" and k: "\<And>i. \<not> has_key htab k i"
  defines "p \<equiv> hsize htab" and "h \<equiv> hash1 (hsize htab) k"
  assumes n: "n < p" "used (slots htab ! probe p h n) = 0" "\<forall>m < n. used (slots htab ! probe p h m) \<noteq> 0"
  defines "e \<equiv> \<lparr>used = h, hkey = k, hdata = v\<rparr>"
  shows "table_inv (enter_slot (probe p h n) e htab)"
    "hmap (slots (enter_slot (probe p h n) e htab)) = (hmap (slots htab))(k \<mapsto> v)"
proof -
  note d = table_invD [OF inv, folded p_def]
  let ?t = "slots htab" and ?i = "probe p h n"
  let ?t' = "?t[?i := e]" and ?htab = "enter_slot ?i e htab"
  have p: "prime_num p" "5 \<le> p" "p < 2 ^ 32" "h \<in> {1..p}"
    using d(2,3,4) hash1_range [of p k] by (simp_all add: h_def p_def)
  note pf = probe_facts [OF p]
  have i: "?i \<in> {1..p}" "?i < length ?t" "?i \<noteq> 0" using pf(3) [of n] d(5) by auto
  have h0: "h \<noteq> 0" using p(4) by auto
  have nth: "?t' ! j = (if j = ?i then e else ?t ! j)" if "j < length ?t" for j using that by (simp add: nth_list_update)
  have nth': "?t' ! j = (if j = ?i then e else ?t ! j)" if "j \<in> {1..p}" for j using that d(5) nth by auto
  have ue: "used e = h" "hkey e = k" "hdata e = v" by (simp_all add: e_def)
  have fl: "filled htab < p"
    using filled_full [OF inv] n(2) i(1) unfolding p_def by (metis le_neq_implies_less)
  have nk: "hkey (?t ! j) \<noteq> k" if "j \<in> {1..p}" "used (?t ! j) \<noteq> 0" for j
    using k [of j] that by (auto simp: has_key_def p_def)
  have upd: "used (?t' ! j) \<noteq> 0" if "used (?t ! j) \<noteq> 0" "j \<in> {1..p}" for j
    using that nth' [of j] n(2) ue h0 by auto
  have U: "{j \<in> {1..p}. used (?t' ! j) \<noteq> 0} = insert ?i {j \<in> {1..p}. used (?t ! j) \<noteq> 0}"
  proof -
    have "j \<in> {1..p} \<Longrightarrow> used (?t' ! j) \<noteq> 0 \<longleftrightarrow> j = ?i \<or> used (?t ! j) \<noteq> 0" for j
      using nth' [of j] ue h0 n(2) by auto
    then show ?thesis using i(1) by blast
  qed
  have "?i \<notin> {j \<in> {1..p}. used (?t ! j) \<noteq> 0}" using n(2) by simp
  then have card: "card {j \<in> {1..p}. used (?t' ! j) \<noteq> 0} = filled htab + 1" unfolding U using d(7) by simp
  have sz: "sz_add (filled htab) 1 = filled htab + 1" using fl p(3) by (intro sz_add_less) simp
  have uniq: "a = b" if ab: "a \<in> {1..p}" "b \<in> {1..p}" "used (?t' ! a) \<noteq> 0" "used (?t' ! b) \<noteq> 0" "hkey (?t' ! a) = hkey (?t' ! b)" for a b
    using ab nk [of a] nk [of b] d(8) [of a b] unfolding nth' [OF ab(1)] nth' [OF ab(2)]
    by (auto simp: ue split: if_splits)
  have path: "used (?t' ! j) = hash1 p (hkey (?t' ! j))
      \<and> (\<exists>n < p. probe p (used (?t' ! j)) n = j \<and> (\<forall>m < n. used (?t' ! probe p (used (?t' ! j)) m) \<noteq> 0))"
    if j: "j \<in> {1..p}" "used (?t' ! j) \<noteq> 0" for j
  proof (cases "j = ?i")
    case True
    then have tj: "?t' ! j = e" using nth' j(1) by simp
    have "\<forall>m < n. used (?t' ! probe p h m) \<noteq> 0" using n(3) upd pf(3) by blast
    then show ?thesis unfolding tj ue using n(1) True by (auto simp: h_def p_def)
  next
    case False
    then have tj: "?t' ! j = ?t ! j" "used (?t ! j) \<noteq> 0" using nth' [OF j(1)] j(2) by auto
    obtain n' where n': "used (?t ! j) = hash1 p (hkey (?t ! j))" "n' < p" "probe p (used (?t ! j)) n' = j"
        "\<forall>m < n'. used (?t ! probe p (used (?t ! j)) m) \<noteq> 0" using d(9) [OF j(1) tj(2)] by auto
    have hj: "used (?t ! j) \<in> {1..p}" using n'(1) hash1_range [of p] p(2) by simp
    have "probe p (used (?t ! j)) m \<in> {1..p}" for m using probe_facts(3) [OF p(1,2,3) hj] .
    then show ?thesis unfolding tj(1) using n' upd by blast
  qed
  have t': "htable ?htab = Some ?t'" "hsize ?htab = p" "filled ?htab = filled htab + 1"
    using sz by (simp_all add: enter_slot_def p_def)
  have len: "length ?t' = p + 1" "used (?t' ! 0) = 0" using d(5,6) i(3) by simp_all
  show inv': "table_inv ?htab"
    unfolding table_inv_def t'(2,3)
  proof (intro exI [of _ ?t'] conjI ballI impI)
    show "filled htab + 1 = card {j \<in> {1..p}. used (?t' ! j) \<noteq> 0}" using card by simp
  qed (fact t'(1) p(1,2) d(4) len | use uniq path in blast)+
  have sl: "slots ?htab = ?t'" using t'(1) by (simp add: slots_def)
  show "hmap (slots ?htab) = (hmap ?t)(k \<mapsto> v)"
  proof
    fix k'
    have hk: "has_key ?htab k' j \<longleftrightarrow> (if j = ?i then k' = k else has_key htab k' j)" for j
      using nth' [of j] i(1) ue h0 unfolding has_key_def sl t'(2) p_def [symmetric] by auto
    show "hmap (slots ?htab) k' = ((hmap ?t)(k \<mapsto> v)) k'"
    proof (cases "k' = k")
      case True
      then show ?thesis using hmap_present [OF inv', of k ?i] hk nth' [OF i(1)] ue sl by simp
    next
      case False
      have ni: "\<not> has_key htab k' ?i" using n(2) by (simp add: has_key_def)
      show ?thesis
      proof (cases "\<exists>j. has_key htab k' j")
        case True
        then obtain j where j: "has_key htab k' j" by blast
        then have "j \<noteq> ?i" using ni by blast
        then have "has_key ?htab k' j" "?t' ! j = ?t ! j" using j hk by auto
        then show ?thesis using hmap_present [OF inv'] hmap_present [OF inv j] False sl by simp
      next
        case False': False
        then have "\<not> has_key ?htab k' j" for j using hk False ni by auto
        then show ?thesis using hmap_absent [OF inv', of k'] hmap_absent [OF inv, of k'] False False' by simp
      qed
    qed
  qed
qed

section \<open>Table sizes\<close>

lemma odd_step: "odd (d::nat) \<Longrightarrow> odd n \<Longrightarrow> d < n \<Longrightarrow> d + 2 \<le> n"
  by presburger

lemma isprime_loop_returns:
  assumes "odd n" "odd d" "3 \<le> d" "d \<le> n" "n < 2 ^ 32"
  shows "\<exists>e. isprime_loop n d = Some e \<and> d \<le> e \<and> e \<le> n \<and> odd e \<and> (e * e mod 2 ^ 32 < n \<longrightarrow> n mod e = 0)
    \<and> (\<forall>x. odd x \<longrightarrow> d \<le> x \<longrightarrow> x < e \<longrightarrow> x * x mod 2 ^ 32 < n \<and> n mod x \<noteq> 0)"
  using assms
proof (induction "n - d" arbitrary: d rule: less_induct)
  case less
  show ?case
  proof (cases "d * d mod 2 ^ 32 < n \<and> n mod d \<noteq> 0")
    case False
    then have "isprime_loop n d = Some d" by (subst isprime_loop.simps) (simp only: if_False)
    then show ?thesis using less.prems False by auto
  next
    case True
    then have "d \<noteq> n" using less.prems by auto
    then have le: "d + 2 \<le> n" using odd_step less.prems by simp
    then have sz: "sz_add d 2 = d + 2" using less.prems(5) by (intro sz_add_less) simp
    have "n - (d + 2) < n - d" using le by simp
    from less.hyps [OF this] less.prems le obtain e where
      e: "isprime_loop n (d + 2) = Some e" "d + 2 \<le> e" "e \<le> n" "odd e" "e * e mod 2 ^ 32 < n \<longrightarrow> n mod e = 0"
        "\<forall>x. odd x \<longrightarrow> d + 2 \<le> x \<longrightarrow> x < e \<longrightarrow> x * x mod 2 ^ 32 < n \<and> n mod x \<noteq> 0" by auto
    have "isprime_loop n d = Some e" using True e(1) sz by (subst isprime_loop.simps) simp
    moreover have "x * x mod 2 ^ 32 < n \<and> n mod x \<noteq> 0" if x: "odd x" "d \<le> x" "x < e" for x
    proof (cases "x = d")
      case False
      then have "d + 2 \<le> x" using odd_step [of d x] less.prems(2) x by simp
      then show ?thesis using e(6) x by blast
    qed (use True in simp)
    ultimately show ?thesis using e(2-5) by (intro exI [of _ e]) auto
  qed
qed

lemma isprime_one: "isprime 1 = Some True"
  unfolding isprime_def by (subst isprime_loop.simps) simp

lemma isprime_returns:
  assumes "odd n" "n < 2 ^ 32"
  shows "\<exists>b. isprime n = Some b"
proof (cases "3 \<le> n")
  case True
  then show ?thesis using isprime_loop_returns [of n 3] assms by (auto simp: isprime_def)
next
  case False
  then have "n = 1" using assms(1) by presburger
  then show ?thesis using isprime_one by blast
qed

text \<open>The test is right for odd numbers from 5 to \<open>65535 ^ 2\<close>, where the squares do not wrap.\<close>

lemma isprime_correct_aux:
  assumes "odd n" "5 \<le> n" "n \<le> 65535 * 65535"
  shows "isprime n = Some (prime_num n)"
proof -
  have "n < 2 ^ 32" using assms(3) by simp
  then obtain e where e: "isprime_loop n 3 = Some e" "3 \<le> e" "e \<le> n" "odd e" "e * e mod 2 ^ 32 < n \<longrightarrow> n mod e = 0"
      "\<forall>x. odd x \<longrightarrow> 3 \<le> x \<longrightarrow> x < e \<longrightarrow> x * x mod 2 ^ 32 < n \<and> n mod x \<noteq> 0"
    using isprime_loop_returns [of n 3] assms by auto
  have "e \<le> 65535"
  proof (rule ccontr)
    assume "\<not> e \<le> 65535"
    then have "(65535::nat) * 65535 mod 2 ^ 32 < n" using e(6) [rule_format, of 65535] by simp
    then show False using assms(3) by simp
  qed
  then have small: "x * x mod 2 ^ 32 = x * x" if "x \<le> e" for x
  proof -
    have "x * x \<le> 65535 * 65535" using that \<open>e \<le> 65535\<close> by (intro mult_le_mono) simp_all
    then show ?thesis by simp
  qed
  have "n mod e \<noteq> 0 \<longleftrightarrow> prime_num n"
  proof
    assume ne: "n mod e \<noteq> 0"
    then have sq: "n \<le> e * e" using e(5) small [of e] by simp
    have "d = 1 \<or> d = n" if dn: "d dvd n" for d
    proof (rule ccontr)
      assume d: "\<not> (d = 1 \<or> d = n)"
      obtain c where c: "n = d * c" using dn by (auto elim: dvdE)
      have od: "odd d" "odd c" using assms(1) c by simp_all
      have "1 < d" "1 < c" using d c assms(2) by (auto intro: Nat.gr0I simp: nat_neq_iff)
      then have g: "3 \<le> d" "3 \<le> c" using od by presburger+
      have "d < e \<or> c < e \<or> d = e"
      proof (rule ccontr)
        assume "\<not> (d < e \<or> c < e \<or> d = e)"
        then have "e * e < d * c" using e(2) by (intro mult_less_le_imp_less) auto
        then show False using sq c by simp
      qed
      then show False
      proof (elim disjE)
        assume "d < e" then show False using e(6) od(1) g(1) c by auto
      next
        assume "c < e" then show False using e(6) od(2) g(2) c by auto
      next
        assume "d = e" then show False using ne c by simp
      qed
    qed
    then show "prime_num n" using assms(2) by (auto simp: prime_num_def)
  next
    assume p: "prime_num n"
    show "n mod e \<noteq> 0"
    proof
      assume "n mod e = 0"
      then have "e dvd n" by auto
      then have "e = n" using p e(2) by (auto simp: prime_num_def)
      then have "(n - 2) * (n - 2) < n"
      proof -
        have "odd (n - 2)" "3 \<le> n - 2" "n - 2 < e" "n - 2 \<le> e" using assms(1,2) \<open>e = n\<close> by simp_all
        then show ?thesis using e(6) small [of "n - 2"] by metis
      qed
      moreover have "n * 1 \<le> (n - 2) * (n - 2)" if "5 \<le> n"
      proof -
        have m: "n = (n - 5) + 5" using that by simp
        show ?thesis by (subst (1 2 3) m) (simp add: algebra_simps)
      qed
      ultimately show False using assms(2) by simp
    qed
  qed
  then show ?thesis using e(1) by (simp add: isprime_def)
qed

lemma hcreate_prime_returns:
  assumes "odd n" "n < 2 ^ 32"
  shows "\<exists>m. hcreate_prime n = Some m"
  using assms
proof (induction "2 ^ 32 - n" arbitrary: n rule: less_induct)
  case less
  obtain b where b: "isprime n = Some b" using isprime_returns [OF less.prems] by blast
  have one: "hcreate_prime 1 = Some 1"
    using isprime_one by (subst hcreate_prime.simps) simp
  show ?case
  proof (cases b)
    case True
    then show ?thesis using b by (subst hcreate_prime.simps) simp
  next
    case False
    then have st: "hcreate_prime n = hcreate_prime (sz_add n 2)" using b by (subst hcreate_prime.simps) simp
    show ?thesis
    proof (cases "n + 2 < 2 ^ 32")
      case True
      then have "sz_add n 2 = n + 2" by (rule sz_add_less)
      then show ?thesis using less.hyps [of "n + 2"] less.prems True st by simp
    next
      case False
      then have "n = 2 ^ 32 - 1 \<or> n = 2 ^ 32 - 2" using less.prems by auto
      then have "n = 2 ^ 32 - 1" using less.prems(1) by auto
      then show ?thesis using st one by (simp add: sz_add_def)
    qed
  qed
qed

text \<open>From \<open>n\<close> the search stops at the first prime, provided there is one before the squares wrap.\<close>

lemma hcreate_prime_first:
  assumes "odd n" "5 \<le> n" "n \<le> q" "prime_num q" "q \<le> 65535 * 65535"
  shows "\<exists>m. hcreate_prime n = Some m \<and> prime_num m \<and> n \<le> m \<and> m \<le> q \<and> (\<forall>x. odd x \<longrightarrow> n \<le> x \<longrightarrow> x < m \<longrightarrow> \<not> prime_num x)"
  using assms
proof (induction "q - n" arbitrary: n rule: less_induct)
  case less
  have b: "isprime n = Some (prime_num n)" using isprime_correct_aux less.prems by simp
  have oq: "odd q"
  proof
    assume "even q"
    then have "2 = (1::nat) \<or> 2 = q" using less.prems(4) by (auto simp: prime_num_def)
    then show False using less.prems by simp
  qed
  show ?case
  proof (cases "prime_num n")
    case True
    then have "hcreate_prime n = Some n" using b by (subst hcreate_prime.simps) simp
    then show ?thesis using True less.prems(3) by auto
  next
    case False
    then have "n \<noteq> q" using less.prems by auto
    then have le: "n + 2 \<le> q" using odd_step [OF less.prems(1) oq] less.prems(3) by simp
    then have "sz_add n 2 = n + 2" using less.prems(5) by (intro sz_add_less) simp
    then have st: "hcreate_prime n = hcreate_prime (n + 2)" using b False by (subst hcreate_prime.simps) simp
    obtain m where m: "hcreate_prime (n + 2) = Some m" "prime_num m" "n + 2 \<le> m" "m \<le> q"
        "\<forall>x. odd x \<longrightarrow> n + 2 \<le> x \<longrightarrow> x < m \<longrightarrow> \<not> prime_num x"
    proof -
      have "q - (n + 2) < q - n" "odd (n + 2)" "5 \<le> n + 2" using le less.prems(1,2) by simp_all
      from less.hyps [OF this le less.prems(4,5)] show thesis using that by blast
    qed
    have "\<not> prime_num x" if x: "odd x" "n \<le> x" "x < m" for x
    proof (cases "x = n")
      case False
      then show ?thesis using m(5) odd_step [of n x] less.prems(1) x by auto
    qed (use \<open>\<not> prime_num n\<close> in simp)
    then show ?thesis using st m by auto
  qed
qed

section \<open>The operations on the finite map\<close>

lemma hsearch_present:
  assumes "table_inv htab" "hmap (slots htab) k = Some d"
  shows "\<exists>i. hsearch_r k v action htab err = Some (Some i, htab, err) \<and> i \<in> {1..hsize htab}
    \<and> hkey (slots htab ! i) = k \<and> hdata (slots htab ! i) = d"
proof -
  obtain i where i: "has_key htab k i" using hmap_None_iff [OF assms(1), of k] assms(2) by auto
  have "hdata (slots htab ! i) = d" using hmap_present [OF assms(1) i] assms(2) by simp
  moreover have "hsearch_r k v action htab err = Some (Some i, htab, err)"
    using hsearch_find_present [OF assms(1) i] table_invD(1) [OF assms(1)] by (simp add: hsearch_r_def)
  ultimately show ?thesis using i by (auto simp: has_key_def)
qed

lemma hsearch_find_none:
  assumes "table_inv htab" "hmap (slots htab) k = None"
  shows "hsearch_r k v FIND htab err = Some (None, htab, ESRCH)"
proof -
  have "\<And>i. \<not> has_key htab k i" using hmap_None_iff [OF assms(1), of k] assms(2) by simp
  from hsearch_find_absent [OF assms(1) this] table_invD(1) [OF assms(1)] show ?thesis
    by (auto simp: hsearch_r_def)
qed

lemma hsearch_enter_full:
  assumes "table_inv htab" "hmap (slots htab) k = None" "filled htab = hsize htab"
  shows "hsearch_r k v ENTER htab err = Some (None, htab, ENOMEM)"
proof -
  have "\<And>i. \<not> has_key htab k i" using hmap_None_iff [OF assms(1), of k] assms(2) by simp
  from hsearch_find_absent [OF assms(1) this] table_invD(1) [OF assms(1)] assms(3) show ?thesis
    by (auto simp: hsearch_r_def)
qed

lemma hsearch_enter_new:
  assumes inv: "table_inv htab" and none: "hmap (slots htab) k = None" and room: "filled htab < hsize htab"
  shows "\<exists>i htab'. hsearch_r k v ENTER htab err = Some (Some i, htab', err) \<and> table_inv htab'
    \<and> hmap (slots htab') = (hmap (slots htab))(k \<mapsto> v) \<and> hsize htab' = hsize htab \<and> filled htab' = filled htab + 1
    \<and> hkey (slots htab' ! i) = k \<and> hdata (slots htab' ! i) = v"
proof -
  let ?t = "slots htab" and ?p = "hsize htab" and ?h = "hash1 (hsize htab) k"
  note d = table_invD [OF inv]
  have nk: "\<And>i. \<not> has_key htab k i" using hmap_None_iff [OF inv, of k] none by simp
  have "\<not> (\<forall>i \<in> {1..?p}. used (?t ! i) \<noteq> 0)" using filled_full(2) [OF inv] room by simp
  then obtain n where n: "n < ?p" "hsearch_find ?t ?p k = Some (False, probe ?p ?h n)" "used (?t ! probe ?p ?h n) = 0"
      "\<forall>m < n. used (?t ! probe ?p ?h m) \<noteq> 0"
    using hsearch_find_absent [OF inv nk] by blast
  let ?e = "\<lparr>used = ?h, hkey = k, hdata = v\<rparr>" and ?i = "probe ?p ?h n"
  note es = enter_slot_inv [OF inv nk n(1,3,4), of v]
  have p: "?i < length ?t"
    using probe_facts(3) [OF d(2,3) _ hash1_range, of k n] d(3,4,5) by simp
  have "hsearch_r k v ENTER htab err = Some (Some ?i, enter_slot ?i ?e htab, err)"
    using n(2) d(1) room by (simp add: hsearch_r_def enter_slot_def)
  moreover have "slots (enter_slot ?i ?e htab) ! ?i = ?e" using p by (simp add: slots_def enter_slot_def)
  moreover have "filled (enter_slot ?i ?e htab) = filled htab + 1"
    using room d(4) sz_add_less [of "filled htab" 1] by (simp add: enter_slot_def)
  ultimately show ?thesis using es by (intro exI [of _ ?i] exI [of _ "enter_slot ?i ?e htab"]) (auto simp: enter_slot_def)
qed

lemma hcreate_correct_aux:
  assumes "2 \<le> nel" "nel \<le> q" "prime_num q" "5 \<le> q" "q \<le> 65535 * 65535" "htable h = None" "\<forall>n. calloc_ok n"
  shows "\<exists>h'. hcreate_r calloc_ok nel (Some h) err = Some (True, Some h', err) \<and> table_inv h'
    \<and> hmap (slots h') = Map.empty \<and> filled h' = 0 \<and> nel \<le> hsize h' \<and> hsize h' \<le> q"
proof -
  define n where "n = (if even nel then nel + 1 else nel)"
  have oq: "odd q"
  proof
    assume "even q"
    then have "2 = (1::nat) \<or> 2 = q" using assms(3) by (auto simp: prime_num_def)
    then show False using assms(4) by simp
  qed
  have n: "odd n" "nel \<le> n" "n \<le> q" "3 \<le> n" using assms(1,2) oq unfolding n_def by presburger+
  have three: "isprime 3 = Some False" unfolding isprime_def by (subst isprime_loop.simps) simp
  obtain m where m: "hcreate_prime n = Some m" "prime_num m" "5 \<le> m" "nel \<le> m" "m \<le> q"
  proof (cases "n = 3")
    case True
    have "hcreate_prime 3 = hcreate_prime 5" using three by (subst hcreate_prime.simps) (simp add: sz_add_def)
    then show ?thesis using that hcreate_prime_first [of 5 q] assms(3-5) True n(2) by auto
  next
    case False
    then have "5 \<le> n" using n by presburger
    then show ?thesis using that hcreate_prime_first [of n q] n assms(3,5) by fastforce
  qed
  let ?t = "replicate (Suc m) empty_entry"
  let ?h = "h\<lparr>hsize := m, filled := 0, htable := Some ?t\<rparr>"
  have e: "?t ! i = empty_entry" if "i \<le> m" for i using that by (simp del: replicate_Suc)
  have sz: "sz_add m 1 = Suc m" using m(5) assms(5) sz_add_less [of m 1] by simp
  have u: "used empty_entry = 0" by (simp add: empty_entry_def)
  have "table_inv ?h"
    unfolding table_inv_def using m assms(5) e u by (intro exI [of _ ?t]) (auto simp del: replicate_Suc)
  moreover have "hmap (slots ?h) = Map.empty"
    by (rule ext) (auto simp: hmap_def slots_def find_None_iff empty_entry_def)
  moreover have "hcreate_r calloc_ok nel (Some h) err = Some (True, Some ?h, err)"
    using m(1) assms(6,7) sz by (simp add: hcreate_r_def n_def Let_def)
  ultimately show ?thesis using m(4,5) by (intro exI [of _ ?h]) simp
qed

text \<open>The table as a dictionary.\<close>

definition hlookup :: "hsearch_data \<Rightarrow> key \<Rightarrow> nat option" where
  "hlookup htab k =
     (case hsearch_r k 0 FIND htab 0 of
        Some (Some i, _, _) \<Rightarrow> Some (hdata (slots htab ! i)) | _ \<Rightarrow> None)"

definition henter :: "key \<Rightarrow> nat \<Rightarrow> hsearch_data \<Rightarrow> hsearch_data" where
  "henter k v htab = (case hsearch_r k v ENTER htab 0 of Some (_, htab', _) \<Rightarrow> htab' | None \<Rightarrow> htab)"

lemma henter_cases:
  assumes "table_inv htab" "filled htab < hsize htab"
  shows "table_inv (henter k v htab)"
    "hmap (slots (henter k v htab)) = (if hmap (slots htab) k = None then (hmap (slots htab))(k \<mapsto> v) else hmap (slots htab))"
    "hsize (henter k v htab) = hsize htab" "filled (henter k v htab) \<le> filled htab + 1"
proof -
  have "table_inv (henter k v htab) \<and> hmap (slots (henter k v htab)) = (if hmap (slots htab) k = None then (hmap (slots htab))(k \<mapsto> v) else hmap (slots htab))
    \<and> hsize (henter k v htab) = hsize htab \<and> filled (henter k v htab) \<le> filled htab + 1"
  proof (cases "hmap (slots htab) k")
    case None
    then show ?thesis using hsearch_enter_new [OF assms(1) None assms(2), of v 0] by (auto simp: henter_def)
  next
    case (Some d)
    then show ?thesis using hsearch_present [OF assms(1) Some, of v ENTER 0] assms(1) by (auto simp: henter_def)
  qed
  then show "table_inv (henter k v htab)"
    "hmap (slots (henter k v htab)) = (if hmap (slots htab) k = None then (hmap (slots htab))(k \<mapsto> v) else hmap (slots htab))"
    "hsize (henter k v htab) = hsize htab" "filled (henter k v htab) \<le> filled htab + 1" by blast+
qed

interpretation htab: dictionary hlookup henter table_inv "\<lambda>h. hmap (slots h)" "\<lambda>h. hsize h - filled h"
proof unfold_locales
  fix s k assume inv: "table_inv s"
  show "hlookup s k = hmap (slots s) k"
  proof (cases "hmap (slots s) k")
    case None
    then show ?thesis using hsearch_find_none [OF inv None, of 0 0] by (simp add: hlookup_def)
  next
    case (Some d)
    then show ?thesis using hsearch_present [OF inv Some, of 0 FIND 0] by (auto simp: hlookup_def)
  qed
next
  fix s k v assume s: "table_inv s" "0 < hsize s - filled s"
  then have lt: "filled s < hsize s" by simp
  note c = henter_cases [OF s(1) lt, of k v]
  show "table_inv (henter k v s)" by (rule c(1))
  show "hmap (slots (henter k v s)) = (if hmap (slots s) k = None then (hmap (slots s))(k \<mapsto> v) else hmap (slots s))"
    by (rule c(2))
  show "hsize s - filled s - 1 \<le> hsize (henter k v s) - filled (henter k v s)" using c(3,4) by simp
qed

section \<open>Properties\<close>

text \<open>C15: on a table that \<open>hcreate_r\<close> made and \<open>hsearch_r\<close> filled, the double-hashing search is a finite
  map. \<open>FIND\<close> and \<open>ENTER\<close> of a present key return its slot and change nothing; \<open>FIND\<close> of an absent key
  fails with \<open>ESRCH\<close>; \<open>ENTER\<close> of an absent key adds it if the table is not full and fails with \<open>ENOMEM\<close>
  if it is. The search always returns.\<close>

theorem hsearch_r_correct:
  assumes "table_inv htab"
  shows "case hmap (slots htab) k of
      Some d \<Rightarrow> \<exists>i. hsearch_r k v action htab err = Some (Some i, htab, err)
                  \<and> hkey (slots htab ! i) = k \<and> hdata (slots htab ! i) = d
    | None \<Rightarrow> (case action of
        FIND \<Rightarrow> hsearch_r k v action htab err = Some (None, htab, ESRCH)
      | ENTER \<Rightarrow>
          if filled htab = hsize htab then hsearch_r k v action htab err = Some (None, htab, ENOMEM)
          else \<exists>i htab'. hsearch_r k v action htab err = Some (Some i, htab', err) \<and> table_inv htab'
                 \<and> hmap (slots htab') = (hmap (slots htab))(k \<mapsto> v)
                 \<and> hkey (slots htab' ! i) = k \<and> hdata (slots htab' ! i) = v)"
proof (cases "hmap (slots htab) k")
  case (Some d)
  then show ?thesis using hsearch_present [OF assms Some, of v action err] by auto
next
  case None
  have le: "filled htab \<le> hsize htab" by (rule filled_full(1) [OF assms])
  show ?thesis
  proof (cases action)
    case FIND
    then show ?thesis using None hsearch_find_none [OF assms None] by simp
  next
    case ENTER
    then show ?thesis
      using None le hsearch_enter_full [OF assms None, of v err] hsearch_enter_new [OF assms None, of v err] by auto
  qed
qed

text \<open>A fresh table for the witnesses.\<close>

definition table5 :: hsearch_data where
  "table5 = \<lparr>htable = Some (replicate 6 empty_entry), hsize = 5, filled = 0\<rparr>"

lemma prime5: "prime_num 5"
proof -
  have "d = 1 \<or> d = 5" if "d dvd (5::nat)" for d
  proof -
    have "d \<in> {0, 1, 2, 3, 4, 5}" using dvd_imp_le [OF that] by auto
    then show ?thesis using that by auto
  qed
  then show ?thesis by (simp add: prime_num_def)
qed

lemma table5_inv: "table_inv table5" "hmap (slots table5) = Map.empty"
proof -
  have "replicate 6 empty_entry ! i = empty_entry" if "i \<in> {0..5}" for i using that by (intro nth_replicate) auto
  then show "table_inv table5" using prime5
    unfolding table_inv_def table5_def by (intro exI [of _ "replicate 6 empty_entry"]) (auto simp: empty_entry_def)
  show "hmap (slots table5) = Map.empty"
    by (rule ext) (auto simp: hmap_def slots_def table5_def find_None_iff empty_entry_def)
qed

theorem hsearch_r_correct_witness:
  "hsearch_r [65] 7 FIND table5 0 = Some (None, table5, ESRCH)
    \<and> (\<exists>i htab'. hsearch_r [65] 7 ENTER table5 0 = Some (Some i, htab', 0) \<and> hmap (slots htab') = [[65] \<mapsto> 7])"
  using hsearch_r_correct [OF table5_inv(1), of "[65]" 7 FIND 0] hsearch_r_correct [OF table5_inv(1), of "[65]" 7 ENTER 0]
    table5_inv(2) by (auto simp: table5_def [THEN arg_cong [of _ _ filled]] table5_def [THEN arg_cong [of _ _ hsize]])

text \<open>\<open>hcreate_r\<close> makes an empty table for at least \<open>nel\<close> keys whose size is the first prime from
  \<open>nel\<close> on (5 for 2 and 3), provided a prime follows before \<open>65535 ^ 2\<close>, above which the squares of the
  primality test wrap.\<close>

theorem hcreate_r_correct:
  assumes "2 \<le> nel" "nel \<le> q" "prime_num q" "5 \<le> q" "q \<le> 65535 * 65535" "htable h = None" "\<forall>n. calloc_ok n"
  shows "\<exists>h'. hcreate_r calloc_ok nel (Some h) err = Some (True, Some h', err) \<and> table_inv h'
    \<and> hmap (slots h') = Map.empty \<and> filled h' = 0 \<and> nel \<le> hsize h' \<and> hsize h' \<le> q"
  by (rule hcreate_correct_aux [OF assms])

theorem hcreate_r_correct_witness:
  "\<exists>h'. hcreate_r (\<lambda>_. True) 4 (Some \<lparr>htable = None, hsize = 0, filled = 0\<rparr>) 0 = Some (True, Some h', 0)
    \<and> table_inv h' \<and> hsize h' = 5"
  using hcreate_r_correct [of 4 5 "\<lparr>htable = None, hsize = 0, filled = 0\<rparr>" "\<lambda>_. True" 0] prime5
  by (auto simp: table_inv_def prime_num_def)

text \<open>The primality test is right for odd numbers from 5 to \<open>65535 ^ 2\<close>, and every call returns.\<close>

theorem isprime_correct:
  assumes "odd n" "5 \<le> n" "n \<le> 65535 * 65535"
  shows "isprime n = Some (prime_num n)"
  by (rule isprime_correct_aux [OF assms])

theorem isprime_correct_witness: "isprime 5 = Some True"
  using isprime_correct [of 5] prime5 by simp

text \<open>Entering any list of entries into a fresh table that has room for them, and looking a key up,
  finds the first value entered for it.\<close>

theorem hsearch_enter_then_find:
  assumes "table_inv htab" "hmap (slots htab) = Map.empty" "filled htab + length kvs \<le> hsize htab"
  shows "hlookup (fold (\<lambda>(k, v). henter k v) kvs htab) k = map_of kvs k"
  using htab.lookup_enter_all [OF assms(1,2), of kvs k] assms(3) by (simp add: htab.enter_all_def)

theorem hsearch_enter_then_find_witness:
  "hlookup (fold (\<lambda>(k, v). henter k v) [([65], 1), ([66], 2), ([65], 3)] table5) [65] = Some 1"
  using hsearch_enter_then_find [OF table5_inv, of "[([65], 1), ([66], 2), ([65], 3)]" "[65]"]
  by (simp add: table5_def)

text \<open>The primality test rejects 3 and accepts 1, so \<open>hcreate_r\<close> does not take the first prime
  that is not smaller than \<open>nel\<close>, as its comment says: for 3 it takes 5, and for 0 and 1 the size 1.\<close>

theorem hcreate_small_sizes: "isprime 3 = Some False \<and> isprime 1 = Some True \<and> hcreate_prime 3 = Some 5 \<and> hcreate_prime 1 = Some 1"
proof -
  have three: "isprime 3 = Some False" unfolding isprime_def by (subst isprime_loop.simps) simp
  have five: "hcreate_prime 5 = Some 5" using isprime_correct_aux [of 5] prime5 by (subst hcreate_prime.simps) simp
  have "hcreate_prime 3 = hcreate_prime 5" using three by (subst hcreate_prime.simps) (simp add: sz_add_def)
  moreover have "hcreate_prime 1 = Some 1" using isprime_one by (subst hcreate_prime.simps) simp
  ultimately show ?thesis using three five isprime_one by simp
qed

end
