(* ===== verification/Tsearch.thy ===== *)
theory Tsearch
  imports Dictionary
begin

text \<open>
  The binary trees of \<open>libc/misc/search/_tsearch.c\<close>, the linear search of \<open>_lsearch.c\<close> and the queues of
  \<open>insremque.c\<close>.

  A tree is a value: following \<open>rootp\<close> is recursion into the subtree whose link is overwritten. The
  comparison function is a parameter; a pointer to a node is the node's key. Whether \<open>malloc\<close> succeeds
  is the parameter \<open>malloc_ok\<close>. The calls of the user's functions in \<open>twalk\<close> and \<open>tdestroy\<close> are the list
  of their arguments. Queue elements live in a memory of links, where 0 is the null pointer.
\<close>

section \<open>Trees\<close>

datatype 'k node = Null | Node (left: "'k node") (key: 'k) (right: "'k node")

fun tsearch_loop :: "bool \<Rightarrow> ('k \<Rightarrow> 'k \<Rightarrow> int) \<Rightarrow> 'k \<Rightarrow> 'k node \<Rightarrow> 'k option \<times> 'k node" where
  "tsearch_loop malloc_ok compar k Null = (if malloc_ok then (Some k, Node Null k Null) else (None, Null))"
| "tsearch_loop malloc_ok compar k (Node l x r) =
     (let c = compar k x
      in if c = 0 then (Some x, Node l x r)
         else if c < 0 then (let (q, l1) = tsearch_loop malloc_ok compar k l in (q, Node l1 x r))
         else (let (q, r1) = tsearch_loop malloc_ok compar k r in (q, Node l x r1)))"

text \<open>The root pointer may be null.\<close>

definition tsearch ::
  "bool \<Rightarrow> ('k \<Rightarrow> 'k \<Rightarrow> int) \<Rightarrow> 'k \<Rightarrow> 'k node option \<Rightarrow> 'k option \<times> 'k node option" where
  "tsearch malloc_ok compar k rootp =
     (case rootp of
        None \<Rightarrow> (None, None)
      | Some t \<Rightarrow> (let (q, t1) = tsearch_loop malloc_ok compar k t in (q, Some t1)))"

fun tfind_loop :: "('k \<Rightarrow> 'k \<Rightarrow> int) \<Rightarrow> 'k \<Rightarrow> 'k node \<Rightarrow> 'k option" where
  "tfind_loop compar k Null = None"
| "tfind_loop compar k (Node l x r) =
     (let c = compar k x
      in if c = 0 then Some x else if c < 0 then tfind_loop compar k l else tfind_loop compar k r)"

definition tfind :: "('k \<Rightarrow> 'k \<Rightarrow> int) \<Rightarrow> 'k \<Rightarrow> 'k node option \<Rightarrow> 'k option" where
  "tfind compar k rootp = (case rootp of None \<Rightarrow> None | Some t \<Rightarrow> tfind_loop compar k t)"

text \<open>The loop D3 down the left links of \<open>r\<close>: the leftmost key, and \<open>r\<close> without it.\<close>

fun tdelete_successor :: "'k node \<Rightarrow> 'k option \<times> 'k node" where
  "tdelete_successor Null = (None, Null)"
| "tdelete_successor (Node Null x r) = (Some x, r)"
| "tdelete_successor (Node (Node ll y lr) x r) =
     (let (q, l1) = tdelete_successor (Node ll y lr) in (q, Node l1 x r))"

definition tdelete_node :: "'k node \<Rightarrow> 'k node \<Rightarrow> 'k node" where
  "tdelete_node l r =
     (if l = Null then r
      else case r of
             Null \<Rightarrow> l
           | Node Null y rr \<Rightarrow> Node l y rr
           | Node rl y rr \<Rightarrow>
               (case tdelete_successor r of
                  (Some q, r1) \<Rightarrow> Node l q r1
                | (None, r1) \<Rightarrow> r1))"

text \<open>\<open>p\<close> is the key of the parent, or of the root at the start.\<close>

fun tdelete_loop :: "('k \<Rightarrow> 'k \<Rightarrow> int) \<Rightarrow> 'k \<Rightarrow> 'k \<Rightarrow> 'k node \<Rightarrow> 'k option \<times> 'k node" where
  "tdelete_loop compar k p Null = (None, Null)"
| "tdelete_loop compar k p (Node l x r) =
     (let c = compar k x
      in if c = 0 then (Some p, tdelete_node l r)
         else if c < 0 then (let (q, l1) = tdelete_loop compar k x l in (q, Node l1 x r))
         else (let (q, r1) = tdelete_loop compar k x r in (q, Node l x r1)))"

definition tdelete :: "('k \<Rightarrow> 'k \<Rightarrow> int) \<Rightarrow> 'k \<Rightarrow> 'k node option \<Rightarrow> 'k option \<times> 'k node option" where
  "tdelete compar k rootp =
     (case rootp of
        None \<Rightarrow> (None, None)
      | Some Null \<Rightarrow> (None, Some Null)
      | Some (Node l x r) \<Rightarrow> (let (q, t1) = tdelete_loop compar k x (Node l x r) in (q, Some t1)))"

datatype VISIT = preorder | postorder | endorder | leaf

fun trecurse :: "'k node \<Rightarrow> int \<Rightarrow> ('k \<times> VISIT \<times> int) list" where
  "trecurse Null level = []"
| "trecurse (Node l x r) level =
     (if l = Null \<and> r = Null then [(x, leaf, level)]
      else [(x, preorder, level)] @ trecurse l (level + 1) @ [(x, postorder, level)]
           @ trecurse r (level + 1) @ [(x, endorder, level)])"

definition twalk :: "'k node \<Rightarrow> bool \<Rightarrow> ('k \<times> VISIT \<times> int) list" where
  "twalk root action_given = (if root \<noteq> Null \<and> action_given then trecurse root 0 else [])"

fun tdestroy_recurse :: "'k node \<Rightarrow> 'k list" where
  "tdestroy_recurse Null = []"
| "tdestroy_recurse (Node l x r) = tdestroy_recurse l @ tdestroy_recurse r @ [x]"

definition tdestroy :: "'k node \<Rightarrow> 'k list" where
  "tdestroy root = (if root \<noteq> Null then tdestroy_recurse root else [])"

section \<open>Linear search\<close>

text \<open>The array is the list of its elements; the result is an index. \<open>n\<close> counts down to 0.\<close>

fun lfind_loop :: "('k \<Rightarrow> 'k \<Rightarrow> int) \<Rightarrow> 'k \<Rightarrow> 'k list \<Rightarrow> nat \<Rightarrow> nat \<Rightarrow> nat option" where
  "lfind_loop compar k base i 0 = None"
| "lfind_loop compar k base i (Suc n) =
     (if compar k (base ! i) = 0 then Some i else lfind_loop compar k base (Suc i) n)"

definition lfind :: "('k \<Rightarrow> 'k \<Rightarrow> int) \<Rightarrow> 'k \<Rightarrow> 'k list \<Rightarrow> nat \<Rightarrow> nat option" where
  "lfind compar k base nmemb = lfind_loop compar k base 0 nmemb"

text \<open>The array has room behind its \<open>nmemb\<close> elements for the new one.\<close>

definition lsearch :: "('k \<Rightarrow> 'k \<Rightarrow> int) \<Rightarrow> 'k \<Rightarrow> 'k list \<Rightarrow> nat \<Rightarrow> nat \<times> 'k list \<times> nat" where
  "lsearch compar k base nmemb =
     (case lfind compar k base nmemb of
        Some p \<Rightarrow> (p, base, nmemb)
      | None \<Rightarrow> (nmemb, take nmemb base @ k # drop (Suc nmemb) base, Suc nmemb))"

section \<open>Queues\<close>

record qmem =
  q_forw :: "addr \<Rightarrow> addr"
  q_back :: "addr \<Rightarrow> addr"

definition set_forw :: "addr \<Rightarrow> addr \<Rightarrow> qmem \<Rightarrow> qmem" where
  "set_forw a v m = m\<lparr>q_forw := (q_forw m)(a := v)\<rparr>"

definition set_back :: "addr \<Rightarrow> addr \<Rightarrow> qmem \<Rightarrow> qmem" where
  "set_back a v m = m\<lparr>q_back := (q_back m)(a := v)\<rparr>"

definition insque :: "addr \<Rightarrow> addr \<Rightarrow> qmem \<Rightarrow> qmem" where
  "insque elem prev m =
     (if prev = 0 then set_back elem 0 (set_forw elem 0 m)
      else
        (let next = q_forw m prev;
             m1 = set_forw prev elem m;
             m2 = (if next \<noteq> 0 then set_back next elem m1 else m1)
         in set_back elem prev (set_forw elem next m2)))"

definition remque :: "addr \<Rightarrow> qmem \<Rightarrow> qmem" where
  "remque elem m =
     (let next = q_forw m elem;
          prev = q_back m elem;
          m1 = (if next \<noteq> 0 then set_back next prev m else m)
      in if prev \<noteq> 0 then set_forw prev next m1 else m1)"

section \<open>Ordered trees\<close>

text \<open>\<open>compar\<close> orders its arguments as \<open>rank\<close> does.\<close>

definition orders :: "('k \<Rightarrow> 'k \<Rightarrow> int) \<Rightarrow> ('k \<Rightarrow> 'o::linorder) \<Rightarrow> bool" where
  "orders compar rank \<longleftrightarrow> (\<forall>x y. (compar x y < 0 \<longleftrightarrow> rank x < rank y) \<and> (compar x y = 0 \<longleftrightarrow> rank x = rank y))"

fun inorder :: "'k node \<Rightarrow> 'k list" where
  "inorder Null = []"
| "inorder (Node l x r) = inorder l @ x # inorder r"

definition bst :: "('k \<Rightarrow> 'o::linorder) \<Rightarrow> 'k node \<Rightarrow> bool" where
  "bst rank t \<longleftrightarrow> sorted_wrt (<) (map rank (inorder t))"

definition with_rank :: "('k \<Rightarrow> 'o::linorder) \<Rightarrow> 'o \<Rightarrow> 'k list \<Rightarrow> 'k option" where
  "with_rank rank a xs = List.find (\<lambda>x. rank x = a) xs"

lemma ordersD:
  assumes "orders compar rank"
  shows "compar x y < 0 \<longleftrightarrow> rank x < rank y" "compar x y = 0 \<longleftrightarrow> rank x = rank y" "0 < compar x y \<longleftrightarrow> rank y < rank x"
proof -
  show 1: "compar x y < 0 \<longleftrightarrow> rank x < rank y" and 2: "compar x y = 0 \<longleftrightarrow> rank x = rank y"
    using assms by (simp_all add: orders_def)
  show "0 < compar x y \<longleftrightarrow> rank y < rank x" 
    by (cases "rank x" "rank y" rule: linorder_cases) (use 1 2 in auto)
qed

lemma bst_Null [simp]: "bst rank Null"
  by (simp add: bst_def)

lemma bst_Node [simp]:
  "bst rank (Node l x r) \<longleftrightarrow> bst rank l \<and> bst rank r
     \<and> (\<forall>y \<in> set (inorder l). rank y < rank x) \<and> (\<forall>y \<in> set (inorder r). rank x < rank y)"
  by (auto simp: bst_def sorted_wrt_append intro: less_trans)

lemma with_rank_Nil [simp]: "with_rank rank a [] = None"
  by (simp add: with_rank_def)

lemma with_rank_append: "with_rank rank a (xs @ ys) = (case with_rank rank a xs of None \<Rightarrow> with_rank rank a ys | Some x \<Rightarrow> Some x)"
  by (induction xs) (simp_all add: with_rank_def)

lemma with_rank_Cons [simp]: "with_rank rank a (x # xs) = (if rank x = a then Some x else with_rank rank a xs)"
  by (simp add: with_rank_def)

lemma with_rank_None: "with_rank rank a xs = None \<longleftrightarrow> (\<forall>x \<in> set xs. rank x \<noteq> a)"
  by (auto simp: with_rank_def find_None_iff)

text \<open>In an ordered tree a rank is looked up on one side.\<close>

lemma with_rank_Node:
  assumes "bst rank (Node l x r)"
  shows "with_rank rank a (inorder (Node l x r)) =
     (if a = rank x then Some x else if a < rank x then with_rank rank a (inorder l) else with_rank rank a (inorder r))"
proof -
  have "with_rank rank a (inorder l) = None" if "rank x \<le> a"
    using assms that by (force simp: with_rank_None)
  moreover have "with_rank rank a (inorder r) = None" if "a \<le> rank x"
    using assms that by (force simp: with_rank_None)
  ultimately show ?thesis by (auto simp: with_rank_append split: option.split)
qed

lemma tfind_loop_correct:
  assumes "orders compar rank" "bst rank t"
  shows "tfind_loop compar k t = with_rank rank (rank k) (inorder t)"
  using assms(2)
proof (induction t)
  case (Node l x r)
  then show ?case
    unfolding with_rank_Node [OF Node.prems]
    using ordersD [OF assms(1), of k x] by (auto simp: Let_def)
qed simp

lemma tsearch_loop_correct:
  assumes "orders compar rank" "bst rank t"
  shows "tsearch_loop True compar k t = (q, t') \<Longrightarrow>
      bst rank t' \<and> set (inorder t') = (if with_rank rank (rank k) (inorder t) = None then insert k (set (inorder t)) else set (inorder t))
      \<and> (\<forall>a. with_rank rank a (inorder t') =
           (if with_rank rank (rank k) (inorder t) = None \<and> a = rank k then Some k else with_rank rank a (inorder t)))
      \<and> q = with_rank rank (rank k) (inorder t')"
  using assms(2)
proof (induction t arbitrary: q t')
  case (Node l x r)
  note o = ordersD [OF assms(1), of k x]
  consider "compar k x = 0" | "compar k x < 0" | "0 < compar k x" by linarith
  then show ?case
  proof cases
    case 1
    then have t: "q = Some x" "t' = Node l x r" using Node.prems by auto
    have w: "with_rank rank (rank k) (inorder (Node l x r)) = Some x"
      using 1 o(2) with_rank_Node [OF Node.prems(2), of "rank k"] by simp
    show ?thesis unfolding t w using Node.prems(2) by simp
  next
    case 2
    obtain q1 l1 where l1: "tsearch_loop True compar k l = (q1, l1)" by fastforce
    then have t: "q = q1" "t' = Node l1 x r" using 2 Node.prems(1) by auto
    have ih: "bst rank l1" "set (inorder l1) = (if with_rank rank (rank k) (inorder l) = None then insert k (set (inorder l)) else set (inorder l))"
      "\<forall>a. with_rank rank a (inorder l1) =
           (if with_rank rank (rank k) (inorder l) = None \<and> a = rank k then Some k else with_rank rank a (inorder l))"
      "q1 = with_rank rank (rank k) (inorder l1)"
      using Node.IH(1) [OF l1] Node.prems(2) by simp_all
    have lt: "rank k < rank x" using 2 o by simp
    have b: "bst rank (Node l1 x r)" using Node.prems(2) ih(1,2) lt by (auto split: if_splits)
    show ?thesis
      unfolding t with_rank_Node [OF Node.prems(2)] with_rank_Node [OF b]
      using b ih lt by (auto split: if_splits)
  next
    case 3
    obtain q1 r1 where r1: "tsearch_loop True compar k r = (q1, r1)" by fastforce
    then have t: "q = q1" "t' = Node l x r1" using 3 Node.prems(1) by auto
    have ih: "bst rank r1" "set (inorder r1) = (if with_rank rank (rank k) (inorder r) = None then insert k (set (inorder r)) else set (inorder r))"
      "\<forall>a. with_rank rank a (inorder r1) =
           (if with_rank rank (rank k) (inorder r) = None \<and> a = rank k then Some k else with_rank rank a (inorder r))"
      "q1 = with_rank rank (rank k) (inorder r1)"
      using Node.IH(2) [OF r1] Node.prems(2) by simp_all
    have lt: "rank x < rank k" using 3 o by simp
    have b: "bst rank (Node l x r1)" using Node.prems(2) ih(1,2) lt by (auto split: if_splits)
    show ?thesis
      unfolding t with_rank_Node [OF Node.prems(2)] with_rank_Node [OF b]
      using b ih lt by (auto split: if_splits)
  qed
qed auto

text \<open>Deletion.\<close>

lemma tdelete_successor_inorder:
  "t \<noteq> Null \<Longrightarrow> \<exists>q t'. tdelete_successor t = (Some q, t') \<and> inorder t = q # inorder t'"
  by (induction t rule: tdelete_successor.induct) auto

lemma tdelete_node_inorder: "inorder (tdelete_node l r) = inorder l @ inorder r"
proof (cases r)
  case (Node rl y rr)
  show ?thesis
  proof (cases rl)
    case Null
    then show ?thesis using Node by (auto simp: tdelete_node_def)
  next
    case (Node rll z rlr)
    then show ?thesis using \<open>r = Node rl y rr\<close> tdelete_successor_inorder [of r] by (auto simp: tdelete_node_def)
  qed
qed (auto simp: tdelete_node_def)

lemma tdelete_loop_inorder:
  assumes "orders compar rank" "bst rank t"
  shows "inorder (snd (tdelete_loop compar k p t)) = filter (\<lambda>x. rank x \<noteq> rank k) (inorder t)
    \<and> (fst (tdelete_loop compar k p t) = None \<longleftrightarrow> with_rank rank (rank k) (inorder t) = None)"
  using assms(2)
proof (induction t arbitrary: p)
  case (Node l x r)
  note o = ordersD [OF assms(1), of k x]
  have fl: "filter (\<lambda>y. rank y \<noteq> rank k) (inorder l) = inorder l" if "rank x \<le> rank k"
    using Node.prems that by (intro filter_True) force
  have fr: "filter (\<lambda>y. rank y \<noteq> rank k) (inorder r) = inorder r" if "rank k \<le> rank x"
    using Node.prems that by (intro filter_True) force
  have ih: "inorder (snd (tdelete_loop compar k x l)) = filter (\<lambda>x. rank x \<noteq> rank k) (inorder l)"
    "inorder (snd (tdelete_loop compar k x r)) = filter (\<lambda>x. rank x \<noteq> rank k) (inorder r)"
    "fst (tdelete_loop compar k x l) = None \<longleftrightarrow> with_rank rank (rank k) (inorder l) = None"
    "fst (tdelete_loop compar k x r) = None \<longleftrightarrow> with_rank rank (rank k) (inorder r) = None"
    using Node.IH Node.prems by simp_all
  consider "compar k x = 0" | "compar k x < 0" | "0 < compar k x" by linarith
  then show "inorder (snd (tdelete_loop compar k p (Node l x r))) = filter (\<lambda>x. rank x \<noteq> rank k) (inorder (Node l x r))
    \<and> (fst (tdelete_loop compar k p (Node l x r)) = None \<longleftrightarrow> with_rank rank (rank k) (inorder (Node l x r)) = None)"
  proof cases
    case 1
    then show ?thesis using o fl fr unfolding with_rank_Node [OF Node.prems] by (simp add: tdelete_node_inorder)
  next
    case 2
    then show ?thesis using o fr ih unfolding with_rank_Node [OF Node.prems] by (auto simp: split_beta)
  next
    case 3
    then show ?thesis using o fl ih unfolding with_rank_Node [OF Node.prems] by (auto simp: split_beta)
  qed
qed simp_all

lemma bst_filter: "bst rank t \<Longrightarrow> inorder t' = filter P (inorder t) \<Longrightarrow> bst rank t'"
  unfolding bst_def by (metis filter_map sorted_wrt_filter sorted_wrt_map)

section \<open>Walking and destroying\<close>

definition visits :: "('k \<times> VISIT \<times> int) list \<Rightarrow> 'k list" where
  "visits tr = map fst (filter (\<lambda>(_, v, _). v = postorder \<or> v = leaf) tr)"

lemma visits_append [simp]: "visits (xs @ ys) = visits xs @ visits ys"
  by (simp add: visits_def)

lemma trecurse_visits: "visits (trecurse t n) = inorder t"
proof (induction t arbitrary: n)
  case (Node l x r)
  show ?case
  proof (cases "l = Null \<and> r = Null")
    case False
    have v: "visits [(x, preorder, n)] = []" "visits [(x, postorder, n)] = [x]" "visits [(x, endorder, n)] = []"
      by (simp_all add: visits_def)
    show ?thesis using False Node v by (simp add: del: if_split) (simp add: visits_def)
  qed (auto simp: visits_def)
qed (simp add: visits_def)

section \<open>Dictionaries\<close>

text \<open>Trees and arrays of key-value pairs that are compared by their keys.\<close>

definition pair_compar :: "int \<times> nat \<Rightarrow> int \<times> nat \<Rightarrow> int" where
  "pair_compar a b = fst a - fst b"

lemma pair_orders: "orders pair_compar fst"
  by (auto simp: orders_def pair_compar_def)

definition tree_lookup :: "(int \<times> nat) node \<Rightarrow> int \<Rightarrow> nat option" where
  "tree_lookup t k = map_option snd (tfind pair_compar (k, 0) (Some t))"

definition tree_enter :: "int \<Rightarrow> nat \<Rightarrow> (int \<times> nat) node \<Rightarrow> (int \<times> nat) node" where
  "tree_enter k v t = (case tsearch True pair_compar (k, v) (Some t) of (_, Some t') \<Rightarrow> t' | _ \<Rightarrow> t)"

interpretation tree: dictionary tree_lookup tree_enter "bst fst"
    "\<lambda>t k. map_option snd (with_rank fst k (inorder t))" "\<lambda>_. n" for n
proof unfold_locales
  fix t :: "(int \<times> nat) node" and k and v assume b: "bst fst t"
  show "tree_lookup t k = map_option snd (with_rank fst k (inorder t))"
    using tfind_loop_correct [OF pair_orders b, of "(k, 0)"] by (simp add: tree_lookup_def tfind_def)
  obtain q t' where t': "tsearch_loop True pair_compar (k, v) t = (q, t')" by fastforce
  then have e: "tree_enter k v t = t'" by (simp add: tree_enter_def tsearch_def)
  note c = tsearch_loop_correct [OF pair_orders b t']
  show "bst fst (tree_enter k v t)" using c e by simp
  show "(\<lambda>a. map_option snd (with_rank fst a (inorder (tree_enter k v t)))) =
      (if map_option snd (with_rank fst k (inorder t)) = None
       then (\<lambda>a. map_option snd (with_rank fst a (inorder t)))(k \<mapsto> v)
       else (\<lambda>a. map_option snd (with_rank fst a (inorder t))))"
    using c unfolding e by (auto intro!: ext)
qed simp

lemma lfind_loop_correct:
  "lfind_loop compar k base i n = (case List.find (\<lambda>j. compar k (base ! j) = 0) [i..<i + n] of None \<Rightarrow> None | Some j \<Rightarrow> Some j)"
proof (induction n arbitrary: i)
  case (Suc n)
  have "[i..<i + Suc n] = i # [Suc i..<Suc i + n]" by (simp add: upt_conv_Cons)
  then show ?case using Suc by simp
qed simp

lemma lfind_Some:
  "lfind compar k base n = Some i \<longleftrightarrow> i < n \<and> compar k (base ! i) = 0 \<and> (\<forall>j < i. compar k (base ! j) \<noteq> 0)"
proof -
  have "lfind compar k base n = List.find (\<lambda>j. compar k (base ! j) = 0) [0..<n]"
    by (simp add: lfind_def lfind_loop_correct split: option.split)
  then show ?thesis by (auto simp: find_Some_iff)
qed

lemma lfind_None: "lfind compar k base n = None \<longleftrightarrow> (\<forall>j < n. compar k (base ! j) \<noteq> 0)"
proof -
  have "lfind compar k base n = List.find (\<lambda>j. compar k (base ! j) = 0) [0..<n]"
    by (simp add: lfind_def lfind_loop_correct split: option.split)
  then show ?thesis by (auto simp: find_None_iff)
qed

section \<open>Queues in memory\<close>

text \<open>\<open>queue m pv xs nx\<close>: the elements \<open>xs\<close> are linked in order, between \<open>pv\<close> and \<open>nx\<close>.\<close>

fun queue :: "qmem \<Rightarrow> addr \<Rightarrow> addr list \<Rightarrow> addr \<Rightarrow> bool" where
  "queue m pv [] nx = True"
| "queue m pv (x # xs) nx =
     (x \<noteq> 0 \<and> q_back m x = pv \<and> q_forw m x = (case xs of [] \<Rightarrow> nx | y # _ \<Rightarrow> y) \<and> queue m x xs nx)"

lemma queue_append:
  "queue m pv (xs @ ys) nx \<longleftrightarrow> queue m pv xs (case ys of [] \<Rightarrow> nx | y # _ \<Rightarrow> y)
     \<and> queue m (if xs = [] then pv else last xs) ys nx"
  by (induction xs arbitrary: pv) (auto split: list.split)

lemma queue_frame:
  assumes "queue m pv xs nx" "\<forall>x \<in> set xs. q_forw m' x = q_forw m x \<and> q_back m' x = q_back m x"
  shows "queue m' pv xs nx"
  using assms by (induction xs arbitrary: pv) auto

lemma insque_queue:
  assumes q: "queue m 0 (xs @ p # ys) 0" "distinct (xs @ p # ys)" and e: "e \<noteq> 0" "e \<notin> set (xs @ p # ys)"
  shows "queue (insque e p m) 0 (xs @ p # e # ys) 0"
proof -
  let ?m = "insque e p m"
  have p: "p \<noteq> 0" "queue m 0 xs p" "q_back m p = (if xs = [] then 0 else last xs)"
    "q_forw m p = (case ys of [] \<Rightarrow> 0 | y # _ \<Rightarrow> y)" "queue m p ys 0"
    using q(1) by (auto simp: queue_append)
  have xs: "queue ?m 0 xs p"
    by (rule queue_frame [OF p(2)])
      (use q(2) e p(1,4) in \<open>auto simp: insque_def set_forw_def set_back_def Let_def split: list.splits\<close>)
  have pe: "q_back ?m p = q_back m p" "q_forw ?m p = e" "q_back ?m e = p" "q_forw ?m e = (case ys of [] \<Rightarrow> 0 | y # _ \<Rightarrow> y)"
    using p(1,4) q(2) e by (auto simp: insque_def set_forw_def set_back_def Let_def split: list.splits)
  have ys: "queue ?m e ys 0"
  proof (cases ys)
    case (Cons y zs)
    have y: "y \<noteq> 0" "queue m y zs 0" "q_forw m y = (case zs of [] \<Rightarrow> 0 | z # _ \<Rightarrow> z)" using p(5) Cons by auto
    have "queue ?m y zs 0"
      by (rule queue_frame [OF y(2)])
        (use q(2) e p(1,4) Cons y(1) in \<open>auto simp: insque_def set_forw_def set_back_def Let_def\<close>)
    moreover have "q_back ?m y = e" "q_forw ?m y = q_forw m y"
      using p(1,4) q(2) e Cons y(1) by (auto simp: insque_def set_forw_def set_back_def Let_def)
    ultimately show ?thesis using Cons y by simp
  qed simp
  show ?thesis using xs pe ys p(1,3) e(1) by (auto simp: queue_append split: list.splits)
qed

lemma remque_queue:
  assumes q: "queue m 0 (xs @ e # ys) 0" "distinct (xs @ e # ys)"
  shows "queue (remque e m) 0 (xs @ ys) 0"
proof -
  let ?m = "remque e m"
  let ?pv = "if xs = [] then 0 else last xs" and ?nx = "case ys of [] \<Rightarrow> 0 | y # _ \<Rightarrow> y"
  have e: "e \<noteq> 0" "queue m 0 xs e" "q_back m e = ?pv" "q_forw m e = ?nx" "queue m e ys 0"
    using q(1) by (auto simp: queue_append)
  have xs: "queue ?m 0 xs ?nx"
  proof (cases xs rule: rev_cases)
    case (snoc zs p)
    have z: "queue m 0 zs p" "p \<noteq> 0" "q_back m p = (if zs = [] then 0 else last zs)"
      using e(2) snoc by (auto simp: queue_append)
    have "queue ?m 0 zs p"
      by (rule queue_frame [OF z(1)])
        (use q(2) e(3,4) snoc in \<open>auto simp: remque_def set_forw_def set_back_def Let_def split: list.splits\<close>)
    moreover have "q_back ?m p = q_back m p" "q_forw ?m p = ?nx"
      using q(2) e(3,4) snoc z(2) by (auto simp: remque_def set_forw_def set_back_def Let_def split: list.splits)
    ultimately show ?thesis using z snoc by (auto simp: queue_append)
  qed simp
  have ys: "queue ?m ?pv ys 0"
  proof (cases ys)
    case (Cons y zs)
    have y: "y \<noteq> 0" "queue m y zs 0" "q_forw m y = (case zs of [] \<Rightarrow> 0 | z # _ \<Rightarrow> z)" using e(5) Cons by auto
    have lx: "xs \<noteq> [] \<Longrightarrow> last xs \<notin> set zs \<and> last xs \<noteq> y"
      using q(2) Cons last_in_set [of xs] by (auto simp: disjoint_iff)
    have "queue ?m y zs 0"
      by (rule queue_frame [OF y(2)])
        (use q(2) e(3,4) Cons y(1) lx in \<open>auto simp: remque_def set_forw_def set_back_def Let_def\<close>)
    moreover have "q_back ?m y = ?pv" "q_forw ?m y = q_forw m y"
      using q(2) e(3,4) Cons y(1) lx by (auto simp: remque_def set_forw_def set_back_def Let_def)
    ultimately show ?thesis using Cons y by simp
  qed simp
  show ?thesis using xs ys by (simp add: queue_append)
qed

section \<open>Properties\<close>

text \<open>On an ordered tree \<open>tsearch\<close> returns the node whose key compares equal, or inserts a new one
  and returns it; the tree stays ordered, and no other key is added, lost or changed. \<open>tfind\<close> finds
  exactly the keys of the tree.\<close>

theorem tsearch_correct:
  assumes "orders compar rank" "bst rank t"
  shows "tfind compar k (Some t) = with_rank rank (rank k) (inorder t)
    \<and> (\<exists>q t'. tsearch True compar k (Some t) = (q, Some t') \<and> bst rank t'
       \<and> q = with_rank rank (rank k) (inorder t')
       \<and> (\<forall>a. with_rank rank a (inorder t') =
            (if with_rank rank (rank k) (inorder t) = None \<and> a = rank k then Some k else with_rank rank a (inorder t))))"
proof -
  obtain q t' where t': "tsearch_loop True compar k t = (q, t')" by fastforce
  then show ?thesis
    using tsearch_loop_correct [OF assms t'] tfind_loop_correct [OF assms, of k] by (auto simp: tsearch_def tfind_def)
qed

theorem tsearch_correct_witness:
  "tfind (-) (4::int) (Some (Node (Node Null 1 Null) 3 Null)) = None
    \<and> (\<exists>t'. tsearch True (-) (4::int) (Some (Node (Node Null 1 Null) 3 Null)) = (Some 4, Some t') \<and> bst id t')"
proof -
  have "orders (-) (id :: int \<Rightarrow> int)" "bst id (Node (Node Null (1::int) Null) 3 Null)" by (auto simp: orders_def)
  from tsearch_correct [OF this, of 4] show ?thesis by auto
qed

text \<open>C16: \<open>tdelete\<close> removes exactly the key that compares equal, by any of its three cases (no left child,
  the right child is the successor, the successor is deeper), and keeps the tree ordered; it returns
  null exactly when the key is not there.\<close>

theorem tdelete_correct:
  assumes "orders compar rank" "bst rank t"
  shows "\<exists>q t'. tdelete compar k (Some t) = (q, Some t') \<and> bst rank t'
    \<and> inorder t' = filter (\<lambda>x. rank x \<noteq> rank k) (inorder t)
    \<and> (q = None \<longleftrightarrow> tfind compar k (Some t) = None)"
proof (cases t)
  case (Node l x r)
  obtain q t' where t': "tdelete_loop compar k x t = (q, t')" by fastforce
  have "inorder t' = filter (\<lambda>x. rank x \<noteq> rank k) (inorder t)" "q = None \<longleftrightarrow> with_rank rank (rank k) (inorder t) = None"
    using tdelete_loop_inorder [OF assms, of k x] t' by simp_all
  then show ?thesis
    using t' Node bst_filter [OF assms(2)] tfind_loop_correct [OF assms, of k] by (auto simp: tdelete_def tfind_def)
qed (simp add: tdelete_def tfind_def)

theorem tdelete_correct_witness:
  "\<exists>t'. tdelete (-) (3::int) (Some (Node (Node Null 1 Null) 3 (Node (Node Null 4 Null) 5 Null))) = (Some 3, Some t')
    \<and> inorder t' = [1, 4, 5]"
proof -
  let ?t = "Node (Node Null (1::int) Null) 3 (Node (Node Null 4 Null) 5 Null)"
  have "orders (-) (id :: int \<Rightarrow> int)" "bst id ?t" by (auto simp: orders_def)
  from tdelete_correct [OF this, of 3] show ?thesis by (auto simp: tdelete_def tdelete_node_def)
qed

text \<open>The \<open>postorder\<close> and \<open>leaf\<close> calls of \<open>twalk\<close> visit every key once, in ascending order.\<close>

theorem twalk_in_order:
  assumes "bst rank t"
  shows "visits (twalk t True) = inorder t \<and> sorted_wrt (<) (map rank (visits (twalk t True)))"
  using assms trecurse_visits [of t 0] by (cases t) (simp_all add: twalk_def bst_def visits_def)

theorem twalk_in_order_witness:
  "visits (twalk (Node (Node Null 1 Null) (3::int) Null) True) = [1, 3]"
  using twalk_in_order [of id "Node (Node Null 1 Null) (3::int) Null"] by simp

text \<open>Entries put into an empty tree with \<open>tsearch\<close> are found again with \<open>tfind\<close>, the first one of each
  key.\<close>

theorem tsearch_then_tfind:
  "tree_lookup (fold (\<lambda>(k, v). tree_enter k v) kvs Null) k = map_of kvs k"
  using tree.lookup_enter_all [of Null kvs "length kvs" k] by (simp add: tree.enter_all_def)

text \<open>\<open>lsearch\<close> returns the index of the first element that compares equal, and appends the key when
  there is none; the elements before stay as they were.\<close>

theorem lsearch_correct:
  assumes "nmemb < length base" "\<forall>k. compar k k = 0" "lsearch compar k base nmemb = (p, base', n')"
  shows "compar k (base' ! p) = 0 \<and> p < n' \<and> take nmemb base' = take nmemb base \<and> length base' = length base
    \<and> (if \<exists>j < nmemb. compar k (base ! j) = 0 then n' = nmemb \<and> base' = base \<and> (\<forall>j < p. compar k (base ! j) \<noteq> 0)
       else n' = Suc nmemb \<and> base' ! nmemb = k)"
proof (cases "lfind compar k base nmemb")
  case None
  then have "p = nmemb" "base' = take nmemb base @ k # drop (Suc nmemb) base" "n' = Suc nmemb"
    using assms(3) by (auto simp: lsearch_def)
  then show ?thesis using None assms(1,2) by (auto simp: lfind_None nth_append)
next
  case (Some i)
  then have "p = i" "base' = base" "n' = nmemb" using assms(3) by (auto simp: lsearch_def)
  then show ?thesis using Some by (auto simp: lfind_Some)
qed

theorem lsearch_correct_witness:
  "lsearch (-) 7 [5, 6, 0 :: int] 2 = (2, [5, 6, 7], 3) \<and> [5, 6, 7 :: int] ! 2 = 7"
proof -
  have "lsearch (-) 7 [5, 6, 0 :: int] 2 = (2, [5, 6, 7], 3)"
    by (simp add: lsearch_def lfind_def numeral_2_eq_2 numeral_3_eq_3)
  from lsearch_correct [OF _ _ this] this show ?thesis by simp
qed

text \<open>\<open>insque\<close> links an element behind \<open>prev\<close> and \<open>remque\<close> takes an element out, both with all forward and
  backward links right; \<open>remque\<close> undoes \<open>insque\<close>.\<close>

theorem insque_remque_correct:
  assumes "queue m 0 (xs @ p # ys) 0" "distinct (xs @ p # ys)" "e \<noteq> 0" "e \<notin> set (xs @ p # ys)"
  shows "queue (insque e p m) 0 (xs @ p # e # ys) 0 \<and> queue (remque e (insque e p m)) 0 (xs @ p # ys) 0
    \<and> queue (remque p m) 0 (xs @ ys) 0"
proof -
  have i: "queue (insque e p m) 0 ((xs @ [p]) @ e # ys) 0" using insque_queue [OF assms] by simp
  moreover have "distinct ((xs @ [p]) @ e # ys)" using assms(2,4) by auto
  ultimately show ?thesis using remque_queue [OF i] remque_queue [OF assms(1,2)] by simp
qed

theorem insque_remque_correct_witness:
  "queue (insque 7 5 \<lparr>q_forw = (\<lambda>_. 0)(5 := 6), q_back = (\<lambda>_. 0)(6 := 5)\<rparr>) 0 [5, 7, 6] 0"
  using insque_remque_correct [of "\<lparr>q_forw = (\<lambda>_. 0)(5 := 6), q_back = (\<lambda>_. 0)(6 := 5)\<rparr>" "[]" 5 "[6]" 7] by simp

end
