(* ===== verification/Numeric.thy ===== *)
theory Numeric
  imports Prelude
begin

text \<open>
  Numbers and strings: \<open>_uintmaxtostr\<close> (\<open>libc/stdio/_uintmaxtostr.c\<close>) and the \<open>strtol\<close> family
  (\<open>libc/stdlib/stdlib.c\<close>), in the C locale.

  A character is the value of a C \<open>char\<close>, a string the list of its characters without the
  terminator; reading at the end of the list gives the terminating 0, and a pointer into a string
  is the rest of the list. Unsigned integers of \<open>L\<close> bits are natural numbers below \<open>2 ^ L\<close>.
\<close>

section \<open>Characters\<close>

type_synonym cstring = "int list"

definition cur :: "cstring \<Rightarrow> int" where
  "cur s = (case s of [] \<Rightarrow> 0 | c # _ \<Rightarrow> c)"

definition isdigit_c :: "int \<Rightarrow> bool" where
  "isdigit_c c \<longleftrightarrow> 48 \<le> c \<and> c \<le> 57"

definition isspace_c :: "int \<Rightarrow> bool" where
  "isspace_c c \<longleftrightarrow> c = 32 \<or> 9 \<le> c \<and> c \<le> 13"

definition uchar :: "int \<Rightarrow> int" where
  "uchar c = c mod 256"

section \<open>Printing\<close>

definition UIM_LOWER :: int where "UIM_LOWER = 87"
definition UIM_UPPER :: int where "UIM_UPPER = 55"
definition UIM_DECIMAL :: int where "UIM_DECIMAL = 0"

definition uim_digit :: "int \<Rightarrow> nat \<Rightarrow> int" where
  "uim_digit alphacase digit = (if digit < 10 then int digit + 48 else int digit + alphacase)"

text \<open>The loop over the digits of \<open>uval\<close>, where \<open>uintmax_t\<close> division is used.\<close>

function uim_loop :: "nat \<Rightarrow> int \<Rightarrow> nat \<Rightarrow> cstring \<Rightarrow> cstring" where
  "uim_loop base alphacase uval buf =
     (let digit = uval mod base; uval1 = uval div base; buf1 = uim_digit alphacase digit # buf
      in if uval1 \<noteq> 0 \<and> 1 < base then uim_loop base alphacase uval1 buf1 else buf1)"
  by pat_completeness auto
termination
  by (relation "measure (\<lambda>(b, a, u, s). u)") (auto simp: div_eq_0_iff intro!: div_less_dividend)

text \<open>The loop that \<open>INTERNAL_DIV_MOD\<close> selects: the value is kept in two 32-bit halves, and the
  division by the base uses \<open>H\<close> and \<open>L\<close>, the quotient and remainder of \<open>2 ^ 32\<close>.\<close>

definition uim_H :: "nat \<Rightarrow> nat" where
  "uim_H base =
     (let H = (2 ^ 32 - 1) div base; L = (2 ^ 32 - 1) mod base + 1
      in if L = base then H + 1 else H)"

definition uim_L :: "nat \<Rightarrow> nat" where
  "uim_L base = (let L = (2 ^ 32 - 1) mod base + 1 in if L = base then 0 else L)"

text \<open>One step: the digit and the new halves.\<close>

definition uim_step :: "nat \<Rightarrow> nat \<Rightarrow> nat \<Rightarrow> nat \<times> nat \<times> nat" where
  "uim_step base high low =
     (if high \<noteq> 0 then
        (let rh = high mod base;
             digit = (low mod base + uim_L base * rh) mod 2 ^ 32;
             low1 = (low div base + uim_H base * rh + digit div base) mod 2 ^ 32
         in (digit mod base, high div base, low1))
      else (low mod base, high, low div base))"

partial_function (option) uim_loop2 :: "nat \<Rightarrow> int \<Rightarrow> nat \<Rightarrow> nat \<Rightarrow> cstring \<Rightarrow> cstring option" where
  [code]: "uim_loop2 base alphacase high low buf =
     (let (digit, high1, low1) = uim_step base high low; buf1 = uim_digit alphacase digit # buf
      in if low1 \<noteq> 0 \<or> high1 \<noteq> 0 then uim_loop2 base alphacase high1 low1 buf1 else Some buf1)"

text \<open>\<open>base < 0\<close> marks a signed value. Both variants of the function, with 64-bit \<open>uintmax_t\<close>.\<close>

definition uim_prepare :: "nat \<Rightarrow> int \<Rightarrow> nat \<times> nat \<times> bool" where
  "uim_prepare uval base =
     (if base < 0 then
        (if uval > 2 ^ 63 - 1 then ((2 ^ 64 - uval) mod 2 ^ 64, nat (- base), True)
         else (uval, nat (- base), False))
      else (uval, nat base, False))"

definition uintmaxtostr :: "nat \<Rightarrow> int \<Rightarrow> int \<Rightarrow> cstring option" where
  "uintmaxtostr uval base alphacase =
     (let (u, b, negative) = uim_prepare uval base
      in map_option (\<lambda>s. if negative then 45 # s else s) (uim_loop2 b alphacase (u div 2 ^ 32) (u mod 2 ^ 32) []))"

definition uintmaxtostr_div :: "nat \<Rightarrow> int \<Rightarrow> int \<Rightarrow> cstring" where
  "uintmaxtostr_div uval base alphacase =
     (let (u, b, negative) = uim_prepare uval base; s = uim_loop b alphacase u []
      in if negative then 45 # s else s)"

definition int10tostr :: "nat \<Rightarrow> cstring option" where
  "int10tostr intval = uintmaxtostr intval (- 10) UIM_DECIMAL"

section \<open>Parsing\<close>

fun skip_space :: "cstring \<Rightarrow> cstring" where
  "skip_space [] = []"
| "skip_space (c # s) = (if isspace_c c then skip_space s else c # s)"

definition strto_sign :: "cstring \<Rightarrow> bool \<times> cstring" where
  "strto_sign s = (if cur s = 45 then (True, tl s) else if cur s = 43 then (False, tl s) else (False, s))"

text \<open>The base in use, the rest of the string and the place \<open>fail_char\<close> reported so far.\<close>

definition strto_base :: "int \<Rightarrow> cstring \<Rightarrow> cstring \<Rightarrow> int \<times> cstring \<times> cstring" where
  "strto_base base s fail =
     (if and base (not 16) = 0 then
        (let b1 = base + 10;
             (b2, s2, fail2) =
               (if cur s = 48 then
                  (let s1 = tl s; b = b1 - 2
                   in if or 32 (cur s1) = 120 then (b + b, tl s1, s1) else (b, s1, s1))
                else (b1, s, fail))
         in (if b2 > 16 then 16 else b2, s2, fail2))
      else (base, s, fail))"

definition strto_digit :: "int \<Rightarrow> int" where
  "strto_digit c =
     (if uchar (c - 48) \<le> 9 then uchar (c - 48)
      else if uchar (or 32 c) \<ge> 97 then uchar (uchar (or 32 c) - 87)
      else 40)"

text \<open>One digit: the new number, or \<open>None\<close> for an overflow.\<close>

definition strto_l_step :: "nat \<Rightarrow> nat \<Rightarrow> nat \<Rightarrow> nat \<Rightarrow> nat option" where
  "strto_l_step L base number digit =
     (let cutoff_digit = (2 ^ L - 1) mod base; cutoff = (2 ^ L - 1) div base
      in if number > cutoff \<or> number = cutoff \<and> digit > cutoff_digit then None
         else Some ((number * base + digit) mod 2 ^ L))"

text \<open>The digit loop: the number, the flags \<open>negative\<close> and \<open>ERANGE\<close>, and \<open>fail_char\<close>.\<close>

fun strto_l_loop :: "nat \<Rightarrow> nat \<Rightarrow> bool \<Rightarrow> cstring \<Rightarrow> nat \<Rightarrow> bool \<Rightarrow> bool \<Rightarrow> cstring \<Rightarrow> nat \<times> bool \<times> bool \<times> cstring" where
  "strto_l_loop L base sflag [] number negative erange fail = (number, negative, erange, fail)"
| "strto_l_loop L base sflag (c # s) number negative erange fail =
     (let digit = nat (strto_digit c)
      in if digit \<ge> base then (number, negative, erange, fail)
         else (case strto_l_step L base number digit of
                 None \<Rightarrow> strto_l_loop L base sflag s (2 ^ L - 1) (negative \<and> sflag) True s
               | Some n \<Rightarrow> strto_l_loop L base sflag s n negative erange s))"

text \<open>The same of \<open>_stdlib_strto_ll\<close>, which multiplies 64-bit numbers in two parts.\<close>

definition strto_ll_step :: "nat \<Rightarrow> nat \<Rightarrow> nat \<Rightarrow> nat option" where
  "strto_ll_step base number digit =
     (if number \<le> (2 ^ 64 - 1) div 2 ^ 6 then Some ((number * base + digit) mod 2 ^ 64)
      else
        (let n1 = (number mod 256 * base + digit) mod 2 ^ 32;
             num = (number div 256 * base) mod 2 ^ 64
         in if (num + n1 div 256) mod 2 ^ 64 \<le> (2 ^ 64 - 1) div 256
            then Some ((num * 256 + n1) mod 2 ^ 64) else None))"

fun strto_ll_loop :: "nat \<Rightarrow> bool \<Rightarrow> cstring \<Rightarrow> nat \<Rightarrow> bool \<Rightarrow> bool \<Rightarrow> cstring \<Rightarrow> nat \<times> bool \<times> bool \<times> cstring" where
  "strto_ll_loop base sflag [] number negative erange fail = (number, negative, erange, fail)"
| "strto_ll_loop base sflag (c # s) number negative erange fail =
     (let digit = nat (strto_digit c)
      in if digit \<ge> base then (number, negative, erange, fail)
         else (case strto_ll_step base number digit of
                 None \<Rightarrow> strto_ll_loop base sflag s (2 ^ 64 - 1) (negative \<and> sflag) True s
               | Some n \<Rightarrow> strto_ll_loop base sflag s n negative erange s))"

text \<open>The common end: clamping for signed results, the sign, and what is stored.\<close>

definition strto_finish :: "nat \<Rightarrow> bool \<Rightarrow> nat \<times> bool \<times> bool \<times> cstring \<Rightarrow> nat \<times> cstring \<times> nat option" where
  "strto_finish L sflag r =
     (let (number, negative, erange, fail) = r;
          tmp = (if negative then 2 ^ (L - 1) else 2 ^ (L - 1) - 1);
          (number1, erange1) = (if sflag \<and> number > tmp then (tmp, True) else (number, erange))
      in (if negative then (2 ^ L - number1) mod 2 ^ L else number1, fail, if erange1 then Some ERANGE else None))"

definition stdlib_strto_l :: "nat \<Rightarrow> cstring \<Rightarrow> int \<Rightarrow> bool \<Rightarrow> nat \<times> cstring \<times> nat option" where
  "stdlib_strto_l L str base sflag =
     (let (negative, s1) = strto_sign (skip_space str);
          (b, s2, fail) = strto_base base s1 str
      in strto_finish L sflag
           (if 2 \<le> b \<and> b < 37 then strto_l_loop L (nat b) sflag s2 0 negative False fail
            else (0, negative, False, fail)))"

definition stdlib_strto_ll :: "cstring \<Rightarrow> int \<Rightarrow> bool \<Rightarrow> nat \<times> cstring \<times> nat option" where
  "stdlib_strto_ll str base sflag =
     (let (negative, s1) = strto_sign (skip_space str);
          (b, s2, fail) = strto_base base s1 str
      in strto_finish 64 sflag
           (if 2 \<le> b \<and> b < 37 then strto_ll_loop (nat b) sflag s2 0 negative False fail
            else (0, negative, False, fail)))"

text \<open>A value of \<open>L\<close> bits as a signed number.\<close>

definition to_signed :: "nat \<Rightarrow> nat \<Rightarrow> int" where
  "to_signed L n = (if n < 2 ^ (L - 1) then int n else int n - 2 ^ L)"

definition strtol :: "nat \<Rightarrow> cstring \<Rightarrow> int \<Rightarrow> int \<times> cstring \<times> nat option" where
  "strtol L str base = (let (v, e, err) = stdlib_strto_l L str base True in (to_signed L v, e, err))"

definition strtoul :: "nat \<Rightarrow> cstring \<Rightarrow> int \<Rightarrow> nat \<times> cstring \<times> nat option" where
  "strtoul L str base = stdlib_strto_l L str base False"

definition strtoll :: "cstring \<Rightarrow> int \<Rightarrow> int \<times> cstring \<times> nat option" where
  "strtoll str base = (let (v, e, err) = stdlib_strto_ll str base True in (to_signed 64 v, e, err))"

definition strtoull :: "cstring \<Rightarrow> int \<Rightarrow> nat \<times> cstring \<times> nat option" where
  "strtoull str base = stdlib_strto_ll str base False"

definition atol :: "nat \<Rightarrow> cstring \<Rightarrow> int" where
  "atol L nptr = fst (strtol L nptr 10)"

text \<open>\<open>int\<close> has 32 bits.\<close>

definition atoi :: "nat \<Rightarrow> cstring \<Rightarrow> int" where
  "atoi L nptr = to_signed 32 (nat (fst (strtol L nptr 10) mod 2 ^ 32))"

definition atoll :: "cstring \<Rightarrow> int" where
  "atoll nptr = fst (strtoll nptr 10)"

definition rpmatch :: "cstring \<Rightarrow> int" where
  "rpmatch response =
     (if cur response = 121 \<or> cur response = 89 then 1
      else if cur response = 110 \<or> cur response = 78 then 0 else - 1)"

section \<open>Lemmas on printing\<close>

declare uim_loop.simps [simp del]

lemma uim_HL:
  assumes "2 \<le> b"
  shows "uim_H b * b + uim_L b = 2 ^ 32" "uim_L b < b"
proof -
  define q where "q = (2 ^ 32 - 1 :: nat) div b"
  define r where "r = (2 ^ 32 - 1 :: nat) mod b"
  have e: "q * b + r = 2 ^ 32 - 1" "r < b" using assms by (simp_all add: q_def r_def)
  have H: "uim_H b = (if r + 1 = b then q + 1 else q)" and L: "uim_L b = (if r + 1 = b then 0 else r + 1)"
    by (simp_all add: uim_H_def uim_L_def q_def r_def Let_def)
  show "uim_H b * b + uim_L b = 2 ^ 32" "uim_L b < b"
    using e unfolding H L by (auto simp: algebra_simps split: if_splits)
qed

text \<open>The division of a two-word number by the base never overflows a word.\<close>

lemma uim_step_correct:
  assumes b: "2 \<le> b" "b \<le> 36" and "high < 2 ^ 32" "low < 2 ^ 32"
    and s: "uim_step b high low = (d, h, l)"
  shows "d = (high * 2 ^ 32 + low) mod b \<and> h * 2 ^ 32 + l = (high * 2 ^ 32 + low) div b \<and> h < 2 ^ 32 \<and> l < 2 ^ 32"
proof (cases "high = 0")
  case True
  then show ?thesis using s assms(4) div_le_dividend [of low b] by (auto simp: uim_step_def)
next
  case False
  define rh where "rh = high mod b"
  define D where "D = low mod b + uim_L b * rh"
  define E where "E = low div b + uim_H b * rh + D div b"
  note HL = uim_HL [OF b(1)]
  have rh: "rh < b" using b by (simp add: rh_def)
  then have rh2: "rh \<le> 35" using b by linarith
  have "uim_L b * rh \<le> 35 * 35" by (rule mult_le_mono) (use HL(2) b rh2 in auto)
  moreover have "low mod b \<le> 35" using b mod_less_divisor [of b low] by linarith
  ultimately have D: "D < 2 ^ 32" by (simp add: D_def)
  have high: "high = high div b * b + rh" by (simp add: rh_def)
  have "rh * 2 ^ 32 + low = rh * (uim_H b * b + uim_L b) + (low div b * b + low mod b)" using HL(1) by simp
  also have "\<dots> = (low div b + uim_H b * rh) * b + D" by (simp add: D_def algebra_simps)
  also have "\<dots> = E * b + D mod b" by (simp add: E_def algebra_simps)
  finally have sum: "rh * 2 ^ 32 + low = E * b + D mod b" .
  have "E * b < b * 2 ^ 32"
  proof -
    have "rh * 2 ^ 32 + 2 ^ 32 \<le> b * 2 ^ 32" using rh by (metis Suc_leI add.commute mult_Suc mult_le_mono1)
    then show ?thesis using sum assms(4) by linarith
  qed
  then have E: "E < 2 ^ 32" using b by (simp add: mult.commute)
  have "high * 2 ^ 32 + low = high div b * b * 2 ^ 32 + (rh * 2 ^ 32 + low)"
    by (subst high) (simp only: add_mult_distrib add.assoc)
  also have "\<dots> = (high div b * 2 ^ 32 + E) * b + D mod b"
    unfolding sum by (simp only: add_mult_distrib mult.assoc mult.commute [of b] add.assoc)
  finally have "high * 2 ^ 32 + low = (high div b * 2 ^ 32 + E) * b + D mod b" .
  moreover have "D mod b < b" using b by simp
  ultimately have "(high * 2 ^ 32 + low) mod b = D mod b" "(high * 2 ^ 32 + low) div b = high div b * 2 ^ 32 + E"
    by simp_all
  moreover have "d = D mod b" "h = high div b" "l = E"
    using s False D E by (auto simp: uim_step_def Let_def rh_def D_def E_def)
  moreover have "high div b < 2 ^ 32" using assms(3) div_le_dividend [of high b] by linarith
  ultimately show ?thesis using E by simp
qed

lemma uim_loop2_eq:
  assumes "2 \<le> b" "b \<le> 36"
  shows "\<lbrakk>high < 2 ^ 32; low < 2 ^ 32; u = high * 2 ^ 32 + low\<rbrakk>
    \<Longrightarrow> uim_loop2 b a high low buf = Some (uim_loop b a u buf)"
proof (induction u arbitrary: high low buf rule: less_induct)
  case (less u)
  obtain d h l where s: "uim_step b high low = (d, h, l)" by (metis prod_cases3)
  note st = uim_step_correct [OF assms less.prems(1,2) s]
  show ?case
  proof (cases "u div b = 0")
    case True
    then show ?thesis using st s less.prems(3)
      by (subst uim_loop2.simps, subst uim_loop.simps) (simp add: Let_def)
  next
    case False
    then have "u div b < u" using assms(1) by (auto intro!: div_less_dividend Nat.gr0I)
    moreover have "l \<noteq> 0 \<or> h \<noteq> 0" using False st less.prems(3) by auto
    ultimately show ?thesis using st s less.prems(3) False assms(1) less.IH [of "u div b" h l]
      by (subst uim_loop2.simps, subst uim_loop.simps) (simp add: Let_def)
  qed
qed

lemma uim_loop_append: "uim_loop b a u buf = uim_loop b a u [] @ buf"
proof (induction u arbitrary: buf rule: less_induct)
  case (less u)
  show ?case
  proof (cases "u div b \<noteq> 0 \<and> 1 < b")
    case True
    then have "u div b < u" by (auto simp: div_eq_0_iff intro!: div_less_dividend)
    from less.IH [OF this, of "uim_digit a (u mod b) # buf"] less.IH [OF this, of "[uim_digit a (u mod b)]"]
    show ?thesis using True by (subst (1 2) uim_loop.simps) (simp add: Let_def)
  next
    case False
    then show ?thesis by (subst (1 2) uim_loop.simps) (auto simp: Let_def)
  qed
qed

lemma uim_loop_rec:
  assumes "2 \<le> b"
  shows "uim_loop b a u [] = (if u < b then [] else uim_loop b a (u div b) []) @ [uim_digit a (u mod b)]"
  using assms uim_loop_append [of b a "u div b" "[uim_digit a (u mod b)]"]
  by (subst uim_loop.simps) (auto simp: Let_def div_eq_0_iff)

lemma uim_loop_induct:
  assumes "2 \<le> b" "\<And>u. (b \<le> u \<Longrightarrow> P (u div b)) \<Longrightarrow> P u"
  shows "P (u :: nat)"
proof (induction u rule: less_induct)
  case (less u)
  show ?case
  proof (rule assms(2))
    assume "b \<le> u"
    then show "P (u div b)" using less.IH assms(1) by (intro less.IH div_less_dividend) auto
  qed
qed

section \<open>Digits\<close>

text \<open>The value of a character as a digit: \<open>0\<close> to \<open>9\<close>, then the letters of the ASCII alphabet in either case as 10 to 35; the
  36 of any other character is not below any base. Then the value of a list of digits as a numeral.\<close>

definition digit_val :: "int \<Rightarrow> nat" where
  "digit_val c =
     (let u = nat (c mod 256)
      in if 48 \<le> u \<and> u \<le> 57 then u - 48
         else if 65 \<le> u \<and> u \<le> 90 then u - 65 + 10
         else if 97 \<le> u \<and> u \<le> 122 then u - 97 + 10
         else 36)"

text \<open>The code computes these values, with numbers of 36 and above for the other characters.\<close>

lemma strto_digit_byte: "strto_digit c = strto_digit (c mod 256)"
proof -
  have "take_bit 8 (or 32 c) = take_bit 8 (or 32 (take_bit 8 c))" by (simp add: take_bit_or)
  then have "or 32 c mod 256 = or 32 (c mod 256) mod 256" by (simp add: take_bit_eq_mod)
  moreover have "(c - 48) mod 256 = (c mod 256 - 48) mod 256" by (simp add: mod_diff_left_eq)
  ultimately show ?thesis by (simp add: strto_digit_def uchar_def)
qed

lemma strto_digit_val:
  shows "digit_val c < 36 \<Longrightarrow> nat (strto_digit c) = digit_val c" "b \<le> 36 \<Longrightarrow> b \<le> nat (strto_digit c) \<longleftrightarrow> b \<le> digit_val c"
proof -
  have "list_all (\<lambda>c. if digit_val c < 36 then nat (strto_digit c) = digit_val c else digit_val c = 36 \<and> 36 \<le> nat (strto_digit c)) [0..255]"
    by code_simp
  then have "\<forall>c. 0 \<le> c \<and> c \<le> 255 \<longrightarrow>
      (if digit_val c < 36 then nat (strto_digit c) = digit_val c else digit_val c = 36 \<and> 36 \<le> nat (strto_digit c))"
    by (simp add: list_all_iff)
  moreover have "0 \<le> c mod 256 \<and> c mod 256 \<le> 255" using pos_mod_bound [of 256 c] by simp
  moreover have "digit_val (c mod 256) = digit_val c" by (simp add: digit_val_def)
  ultimately have v: "if digit_val c < 36 then nat (strto_digit c) = digit_val c else digit_val c = 36 \<and> 36 \<le> nat (strto_digit c)"
    using strto_digit_byte [of c] by metis
  show "digit_val c < 36 \<Longrightarrow> nat (strto_digit c) = digit_val c" "b \<le> 36 \<Longrightarrow> b \<le> nat (strto_digit c) \<longleftrightarrow> b \<le> digit_val c"
    using v by (auto split: if_splits)
qed

definition num_val :: "nat \<Rightarrow> cstring \<Rightarrow> nat" where
  "num_val b ds = foldl (\<lambda>n c. n * b + digit_val c) 0 ds"

lemma num_val_simps [simp]: "num_val b [] = 0" "num_val b (ds @ [c]) = num_val b ds * b + digit_val c"
  by (simp_all add: num_val_def)

lemma digit_val_uim_digit [simp]:
  assumes "d < 36" "d < 10 \<or> a = UIM_LOWER \<or> a = UIM_UPPER"
  shows "digit_val (uim_digit a d) = d"
proof (cases "d < 10")
  case True
  have "list_all (\<lambda>d. digit_val (int d + 48) = d) [0..<10]" by code_simp
  then show ?thesis using True by (auto simp: list_all_iff uim_digit_def)
next
  case False
  have "list_all (\<lambda>d. digit_val (uim_digit UIM_LOWER d) = d \<and> digit_val (uim_digit UIM_UPPER d) = d) [0..<36]"
    by code_simp
  then show ?thesis using assms False by (auto simp: list_all_iff)
qed

lemma digit_val_base:
  assumes "b \<le> 36" "b \<le> 10 \<or> a = UIM_LOWER \<or> a = UIM_UPPER" "d < b"
  shows "digit_val (uim_digit a d) = d"
  using assms by (intro digit_val_uim_digit) auto

lemma uim_loop_val:
  assumes "2 \<le> b" "b \<le> 36" "b \<le> 10 \<or> a = UIM_LOWER \<or> a = UIM_UPPER"
  shows "num_val b (uim_loop b a u []) = u"
proof (induction u rule: uim_loop_induct [OF assms(1)])
  case (1 u)
  have "digit_val (uim_digit a (u mod b)) = u mod b" using assms by (intro digit_val_base) auto
  then show ?case using 1 assms(1) by (subst uim_loop_rec) auto
qed

lemma uim_loop_digits:
  assumes "2 \<le> b" "b \<le> 36" "b \<le> 10 \<or> a = UIM_LOWER \<or> a = UIM_UPPER"
  shows "\<forall>c \<in> set (uim_loop b a u []). digit_val c < b"
proof (induction u rule: uim_loop_induct [OF assms(1)])
  case (1 u)
  have "u mod b < b" using assms by simp
  with digit_val_base [OF assms(2,3) this] have "digit_val (uim_digit a (u mod b)) < b" by simp
  then show ?case using 1 assms(1) by (subst uim_loop_rec) auto
qed

lemma uim_loop_hd:
  assumes "2 \<le> b"
  shows "\<exists>d ds. uim_loop b a u [] = uim_digit a d # ds \<and> d < b \<and> (d = 0 \<longleftrightarrow> u = 0) \<and> (u = 0 \<longrightarrow> ds = [])"
proof (induction u rule: uim_loop_induct [OF assms(1)])
  case (1 u)
  show ?case
  proof (cases "u < b")
    case True
    then show ?thesis by (subst uim_loop_rec [OF assms]) auto
  next
    case False
    then obtain d ds where "uim_loop b a (u div b) [] = uim_digit a d # ds" "d < b" "d = 0 \<longleftrightarrow> u div b = 0"
      using 1 by auto
    then show ?thesis using False assms by (subst uim_loop_rec [OF assms]) (auto simp: div_eq_0_iff)
  qed
qed

section \<open>Lemmas on parsing\<close>

lemma strto_l_step_eq:
  assumes "2 \<le> b" "digit < b"
  shows "strto_l_step L b number digit =
    (if number * b + digit < 2 ^ L then Some (number * b + digit) else None)"
proof -
  define M :: nat where "M = 2 ^ L - 1"
  define q where "q = M div b"
  define r where "r = M mod b"
  have M: "M = q * b + r" "r < b" "2 ^ L = M + 1" using assms(1) by (simp_all add: q_def r_def M_def)
  consider "number < q" | "number = q" | "q < number" by linarith
  then have "number > q \<or> number = q \<and> digit > r \<longleftrightarrow> \<not> number * b + digit < 2 ^ L"
  proof cases
    case 1
    then have "number * b + b \<le> q * b" by (metis Suc_leI add.commute mult_Suc mult_le_mono1)
    then show ?thesis using 1 M assms(2) by linarith
  next
    case 2
    then show ?thesis using M by auto
  next
    case 3
    then have "q * b + b \<le> number * b" by (metis Suc_leI add.commute mult_Suc mult_le_mono1)
    then show ?thesis using 3 M assms(2) by linarith
  qed
  then show ?thesis unfolding strto_l_step_def Let_def M_def [symmetric] q_def [symmetric] r_def [symmetric]
    by auto
qed

text \<open>The two-part multiplication of \<open>_stdlib_strto_ll\<close> detects the same overflows.\<close>

lemma strto_ll_step_eq:
  assumes "2 \<le> b" "b \<le> 36" "digit < b" "number < 2 ^ 64"
  shows "strto_ll_step b number digit = strto_l_step 64 b number digit"
proof (cases "number \<le> (2 ^ 64 - 1) div 2 ^ 6")
  case True
  then have "number \<le> 2 ^ 58 - 1" by simp
  then have "number * b \<le> (2 ^ 58 - 1) * 36" using assms(2) by (intro mult_le_mono)
  then have "number * b + digit < 2 ^ 64" using assms(2,3) by simp
  then show ?thesis using True strto_l_step_eq [OF assms(1,3), of 64 number] by (simp add: strto_ll_step_def)
next
  case False
  define p r where "p = number div 256" and "r = number mod 256"
  define n1 where "n1 = r * b + digit"
  have "r < 256" by (simp add: r_def)
  then have "r * b \<le> 255 * 36" using assms(2) by (intro mult_le_mono) auto
  then have n1: "n1 < 2 ^ 32" using assms(2,3) by (simp add: n1_def)
  have "p < 2 ^ 56" using assms(4) by (simp add: p_def less_mult_imp_div_less)
  then have "p * b \<le> (2 ^ 56 - 1) * 36" using assms(2) by (intro mult_le_mono) auto
  then have pb: "p * b < 2 ^ 62" by simp
  have "number = p * 256 + r" by (simp add: p_def r_def)
  then have "number * b + digit = p * b * 256 + n1" by (simp add: n1_def algebra_simps)
  moreover have "n1 = n1 div 256 * 256 + n1 mod 256" "n1 mod 256 < 256" by simp_all
  ultimately have "p * b + n1 div 256 \<le> 2 ^ 56 - 1 \<longleftrightarrow> number * b + digit < 2 ^ 64"
    and v: "number * b + digit = p * b * 256 + n1" by simp_all linarith
  moreover have "(p * b + n1 div 256) mod 2 ^ 64 = p * b + n1 div 256" using pb n1 by simp
  ultimately show ?thesis
    using False n1 pb strto_l_step_eq [OF assms(1,3), of 64 number]
    by (simp add: strto_ll_step_def Let_def flip: p_def r_def n1_def)
qed

lemma strto_l_step_bound: "strto_l_step L b number digit = Some n \<Longrightarrow> n < 2 ^ L"
  by (auto simp: strto_l_step_def Let_def split: if_splits)

lemma strto_ll_loop_eq:
  assumes "2 \<le> b" "b \<le> 36"
  shows "number < 2 ^ 64 \<Longrightarrow>
    strto_ll_loop b sflag s number negative erange fail = strto_l_loop 64 b sflag s number negative erange fail"
proof (induction s arbitrary: number negative erange fail)
  case (Cons c s)
  show ?case
  proof (cases "b \<le> nat (strto_digit c)")
    case False
    then have "strto_ll_step b number (nat (strto_digit c)) = strto_l_step 64 b number (nat (strto_digit c))"
      using assms Cons.prems by (intro strto_ll_step_eq) auto
    then show ?thesis using False Cons.IH strto_l_step_bound [of 64 b number "nat (strto_digit c)"]
      by (auto simp: Let_def split: option.split)
  qed simp
qed simp

text \<open>The digit loop reads the longest numeral, and saturates.\<close>

lemma strto_l_loop_stuck:
  assumes "2 \<le> b" "0 < L" "b \<le> 36"
  shows "\<forall>c \<in> set ds. digit_val c < b \<Longrightarrow> rest = [] \<or> b \<le> digit_val (hd rest) \<Longrightarrow>
    strto_l_loop L b sflag (ds @ rest) (2 ^ L - 1) (negative \<and> sflag) True (ds @ rest)
      = (2 ^ L - 1, negative \<and> sflag, True, rest)"
proof (induction ds arbitrary: negative)
  case Nil
  then show ?case by (cases rest) (auto simp: Let_def strto_digit_val(2) [OF assms(3)])
next
  case (Cons c ds)
  have d: "digit_val c < b" using Cons.prems by simp
  then have v: "nat (strto_digit c) = digit_val c" using assms(3) by (intro strto_digit_val(1)) simp
  have "(2::nat) ^ 1 \<le> 2 ^ L" using assms(2) by (intro power_increasing) auto
  then have "2 ^ L \<le> (2 ^ L - 1) * (2::nat)" by simp
  also have "\<dots> \<le> (2 ^ L - 1) * b" using assms(1) by (intro mult_le_mono) auto
  finally have "\<not> (2 ^ L - 1) * b + digit_val c < 2 ^ L" by linarith
  then have "strto_l_step L b (2 ^ L - 1) (digit_val c) = None" using strto_l_step_eq [OF assms(1) d] by simp
  then show ?case using d v Cons by (simp add: Let_def)
qed

lemma num_foldl_mono:
  assumes "1 \<le> b"
  shows "n \<le> foldl (\<lambda>n c. n * b + digit_val c) n ds"
proof (induction ds arbitrary: n)
  case (Cons c ds)
  have "n * 1 \<le> n * b" using assms by (intro mult_le_mono) auto
  then show ?case using Cons.IH [of "n * b + digit_val c"] unfolding foldl.simps by linarith
qed simp

lemma strto_l_loop_reads:
  assumes "2 \<le> b" "0 < L" "b \<le> 36"
  shows "\<lbrakk>\<forall>c \<in> set ds. digit_val c < b; rest = [] \<or> b \<le> digit_val (hd rest); n < 2 ^ L\<rbrakk> \<Longrightarrow>
    strto_l_loop L b sflag (ds @ rest) n negative erange fail
      = (let v = foldl (\<lambda>n c. n * b + digit_val c) n ds; e = (if ds = [] then fail else rest)
         in if v < 2 ^ L then (v, negative, erange, e) else (2 ^ L - 1, negative \<and> sflag, True, e))"
proof (induction ds arbitrary: n fail)
  case Nil
  then show ?case by (cases rest) (auto simp: Let_def strto_digit_val(2) [OF assms(3)])
next
  case (Cons c ds)
  have d: "digit_val c < b" using Cons.prems by simp
  then have v: "nat (strto_digit c) = digit_val c" using assms(3) by (intro strto_digit_val(1)) simp
  note step = strto_l_step_eq [OF assms(1) d, of L n]
  show ?case
  proof (cases "n * b + digit_val c < 2 ^ L")
    case True
    then show ?thesis using step d v Cons by (simp add: Let_def)
  next
    case False
    then have "\<not> foldl (\<lambda>n c. n * b + digit_val c) (n * b + digit_val c) ds < 2 ^ L"
      using num_foldl_mono [of b "n * b + digit_val c" ds] assms(1) by linarith
    then show ?thesis using step d v False Cons.prems strto_l_loop_stuck [OF assms, of ds rest sflag negative]
      by (simp add: Let_def)
  qed
qed

lemma dynamic_base: "and base (not 16) = (0::int) \<longleftrightarrow> base = 0 \<or> base = 16"
proof
  assume a: "and base (not 16) = 0"
  have bit16: "bit (2 ^ 4 :: int) n \<longleftrightarrow> n = 4" for n unfolding bit_exp_iff by auto
  have only: "bit base n \<Longrightarrow> n = 4" for n
  proof -
    assume "bit base n"
    moreover have "\<not> bit (and base (not 16)) n" using a by simp
    ultimately have "bit (2 ^ 4 :: int) n" by (simp add: bit_simps)
    then show "n = 4" by (simp only: bit16)
  qed
  show "base = 0 \<or> base = 16"
  proof (cases "bit base 4")
    case True
    have "base = 2 ^ 4"
    proof (rule bit_eqI)
      fix n
      show "bit base n \<longleftrightarrow> bit (2 ^ 4 :: int) n" unfolding bit16 using True only by blast
    qed
    then show ?thesis by simp
  next
    case False
    then have "base = 0" using only by (intro bit_eqI) auto
    then show ?thesis by simp
  qed
qed auto

lemma dynamic_base_num: "and base (- 17) = (0::int) \<longleftrightarrow> base = 0 \<or> base = 16"
  using dynamic_base [of base] by simp

lemma digit_val_special:
  "isspace_c c \<Longrightarrow> digit_val c = 36" "digit_val 45 = 36" "digit_val 43 = 36" "digit_val 48 = 0"
  "digit_val 120 = 33" "digit_val 88 = 33"
proof -
  have "list_all (\<lambda>c. digit_val c = 36) [9, 10, 11, 12, 13, 32]" by code_simp
  moreover assume "isspace_c c"
  then have "c = 9 \<or> c = 10 \<or> c = 11 \<or> c = 12 \<or> c = 13 \<or> c = 32" by (auto simp: isspace_c_def)
  ultimately show "digit_val c = 36" by auto
qed code_simp+

lemma or_32_x: "or 32 c = (120::int) \<Longrightarrow> c = 120 \<or> c = 88"
proof -
  assume a: "or 32 c = 120"
  then have nn: "0 \<le> c" by (metis or_nonnegative_int_iff zero_le_numeral)
  have "c \<le> 120" using or_greater_eq [of 32 c] a by (simp add: or.commute)
  moreover have "list_all (\<lambda>c. or 32 c = 120 \<longrightarrow> c = 120 \<or> c = 88) [0..120]" by code_simp
  ultimately show ?thesis using nn a by (auto simp: list_all_iff)
qed

lemma or_32_x_iff: "or 32 c = (120::int) \<longleftrightarrow> c = 120 \<or> c = 88"
  using or_32_x by auto

text \<open>What the functions read: white space, a sign, a prefix and a numeral in base \<open>b\<close>, followed by
  something that does not continue it. \<open>base\<close> is the argument of the call.\<close>

definition hex_follows :: "cstring \<Rightarrow> bool" where
  "hex_follows s \<longleftrightarrow> (case s of x # c # _ \<Rightarrow> (x = 120 \<or> x = 88) \<and> digit_val c < 16 | _ \<Rightarrow> False)"

definition strto_prefix :: "int \<Rightarrow> cstring \<Rightarrow> cstring \<Rightarrow> nat \<Rightarrow> bool" where
  "strto_prefix base pre s b \<longleftrightarrow>
     2 \<le> base \<and> base \<le> 36 \<and> base \<noteq> 16 \<and> pre = [] \<and> b = nat base
   \<or> (base = 0 \<or> base = 16) \<and> (pre = [48, 120] \<or> pre = [48, 88]) \<and> b = 16
   \<or> base = 16 \<and> pre = [] \<and> b = 16 \<and> (hd s = 48 \<longrightarrow> \<not> hex_follows (tl s))
   \<or> base = 0 \<and> pre = [] \<and> b = 10 \<and> hd s \<noteq> 48
   \<or> base = 0 \<and> pre = [] \<and> b = 8 \<and> hd s = 48 \<and> \<not> hex_follows (tl s)"

definition strto_input :: "cstring \<Rightarrow> int \<Rightarrow> bool \<Rightarrow> nat \<Rightarrow> cstring \<Rightarrow> cstring \<Rightarrow> bool" where
  "strto_input str base negative b ds rest \<longleftrightarrow>
     ds \<noteq> [] \<and> (\<forall>c \<in> set ds. digit_val c < b) \<and> (rest = [] \<or> b \<le> digit_val (hd rest))
   \<and> (\<exists>sp sg pre. str = sp @ sg @ pre @ ds @ rest \<and> (\<forall>c \<in> set sp. isspace_c c)
        \<and> sg \<in> (if negative then {[45]} else {[], [43]}) \<and> strto_prefix base pre (ds @ rest) b)"

lemma skip_space_append:
  "\<forall>c \<in> set sp. isspace_c c \<Longrightarrow> s = [] \<or> \<not> isspace_c (hd s) \<Longrightarrow> skip_space (sp @ s) = s"
  by (induction sp) (auto, cases s, auto)

lemma strto_prefix_bounds:
  assumes "strto_prefix base pre s b"
  shows "2 \<le> b" "b \<le> 36"
  using assms by (auto simp: strto_prefix_def)

lemma not_special:
  assumes "digit_val c < b" "b \<le> 36"
  shows "\<not> isspace_c c" "c \<noteq> 45" "c \<noteq> 43"
  using assms digit_val_special(1) [of c] digit_val_special(2,3) by auto

lemma strto_sign_skip:
  assumes "\<forall>c \<in> set sp. isspace_c c" "sg \<in> (if negative then {[45]} else {[], [43]})"
    and s: "s \<noteq> []" "\<not> isspace_c (hd s)" "hd s \<noteq> 45" "hd s \<noteq> 43"
  shows "strto_sign (skip_space (sp @ sg @ s)) = (negative, s)"
proof -
  have "sg @ s \<noteq> [] \<and> \<not> isspace_c (hd (sg @ s))" using assms by (auto simp: isspace_c_def split: if_splits)
  then have "skip_space (sp @ sg @ s) = sg @ s" using skip_space_append assms(1) by blast
  then show ?thesis using assms by (cases s) (auto simp: strto_sign_def cur_def split: if_splits)
qed

definition strto_read :: "nat \<Rightarrow> cstring \<Rightarrow> int \<Rightarrow> bool \<Rightarrow> nat \<times> bool \<times> bool \<times> cstring" where
  "strto_read L str base sflag =
     (let (negative, s1) = strto_sign (skip_space str);
          (b, s2, fail) = strto_base base s1 str
      in if 2 \<le> b \<and> b < 37 then strto_l_loop L (nat b) sflag s2 0 negative False fail
         else (0, negative, False, fail))"

lemma stdlib_strto_l_read: "stdlib_strto_l L str base sflag = strto_finish L sflag (strto_read L str base sflag)"
  by (simp add: stdlib_strto_l_def strto_read_def Let_def split: prod.split)

abbreviation accumulate :: "nat \<Rightarrow> nat \<Rightarrow> cstring \<Rightarrow> nat" where
  "accumulate b \<equiv> foldl (\<lambda>n c. n * b + digit_val c)"

lemma num_val_zero: "num_val b (48 # ds) = num_val b ds"
  by (simp add: num_val_def digit_val_special)

text \<open>The base, the digits to read and the end pointer after \<open>strto_base\<close>.\<close>

lemma strto_base_prefix:
  assumes p: "strto_prefix base pre (ds @ rest) b" and ds: "ds \<noteq> []" "\<forall>c \<in> set ds. digit_val c < b"
    and rest: "rest = [] \<or> b \<le> digit_val (hd rest)"
  obtains b' ds' rest' fail' where "strto_base base (pre @ ds @ rest) fail = (int b', ds' @ rest', fail')"
    "2 \<le> b'" "b' \<le> 36" "\<forall>c \<in> set ds'. digit_val c < b'" "rest' = [] \<or> b' \<le> digit_val (hd rest')"
    "num_val b' ds' = num_val b ds" "(if ds' = [] then fail' else rest') = rest"
proof -
  obtain c cs where cs: "ds = c # cs" using ds(1) by (cases ds) auto
  consider (plain) "2 \<le> base" "base \<le> 36" "base \<noteq> 16" "pre = []" "b = nat base"
    | (hex) "base = 0 \<or> base = 16" "pre = [48, 120] \<or> pre = [48, 88]" "b = 16"
    | (dec) "base = 0 \<and> b = 10 \<or> base = 16 \<and> b = 16" "pre = []" "c \<noteq> 48"
    | (zero) "base = 0 \<and> b = 8 \<or> base = 16 \<and> b = 16" "pre = []" "c = 48" "\<not> hex_follows (cs @ rest)"
    using p cs unfolding strto_prefix_def by auto
  then show ?thesis
  proof cases
    case plain
    then show ?thesis using ds rest by (intro that [of b ds rest fail]) (auto simp: strto_base_def dynamic_base_num)
  next
    case hex
    then show ?thesis using ds rest
      by (intro that [of 16 ds rest "tl pre @ ds @ rest"])
         (auto simp: strto_base_def dynamic_base_num cur_def or_32_x_iff Let_def)
  next
    case dec
    then show ?thesis using ds rest cs
      by (intro that [of b ds rest fail]) (auto simp: strto_base_def dynamic_base_num cur_def Let_def)
  next
    case zero
    show ?thesis
    proof (cases "\<exists>x r. cs @ rest = x # r \<and> (x = 120 \<or> x = 88)")
      case True
      then obtain x r where x: "cs @ rest = x # r" "x = 120 \<or> x = 88" by blast
      then have "16 \<le> digit_val x" using digit_val_special(5,6) by auto
      then have "cs = []" using ds(2) cs x(1) zero(1) by (cases cs) auto
      moreover have "r = [] \<or> 16 \<le> digit_val (hd r)" using zero(4) x by (cases r) (auto simp: hex_follows_def)
      ultimately show ?thesis using x zero cs
        by (intro that [of 16 "[]" r "x # r"])
           (auto simp: strto_base_def dynamic_base_num cur_def or_32_x_iff Let_def num_val_zero)
    next
      case False
      then have "or 32 (cur (cs @ rest)) \<noteq> 120" by (cases "cs @ rest") (auto simp: cur_def or_32_x_iff)
      then show ?thesis using zero cs ds rest
        by (intro that [of b cs rest "cs @ rest"])
           (auto simp: strto_base_def dynamic_base_num Let_def num_val_zero cur_def [of "48 # _"])
    qed
  qed
qed

lemma strto_read_input:
  assumes i: "strto_input str base negative b ds rest" and L: "0 < L"
  shows "strto_read L str base sflag =
    (if num_val b ds < 2 ^ L then (num_val b ds, negative, False, rest)
     else (2 ^ L - 1, negative \<and> sflag, True, rest))"
proof -
  obtain sp sg pre where str: "str = sp @ sg @ (pre @ ds @ rest)" "\<forall>c \<in> set sp. isspace_c c"
    "sg \<in> (if negative then {[45]} else {[], [43]})" and p: "strto_prefix base pre (ds @ rest) b"
    and ds: "ds \<noteq> []" "\<forall>c \<in> set ds. digit_val c < b" and rest: "rest = [] \<or> b \<le> digit_val (hd rest)"
    using i unfolding strto_input_def by auto
  have "pre = [] \<or> hd pre = 48 \<and> pre \<noteq> []" using p by (auto simp: strto_prefix_def)
  moreover have "digit_val (hd ds) < b" using ds by simp
  moreover have "hd (pre @ ds @ rest) = (if pre = [] then hd ds else hd pre)" using ds by (auto simp: hd_append)
  ultimately have "strto_sign (skip_space str) = (negative, pre @ ds @ rest)"
    unfolding str(1) using ds not_special [OF _ strto_prefix_bounds(2) [OF p]]
    by (intro strto_sign_skip [OF str(2,3)]) (auto simp: isspace_c_def)
  moreover obtain b' ds' rest' fail' where b: "strto_base base (pre @ ds @ rest) str = (int b', ds' @ rest', fail')"
    "2 \<le> b'" "b' \<le> 36" "\<forall>c \<in> set ds'. digit_val c < b'" "rest' = [] \<or> b' \<le> digit_val (hd rest')"
    "num_val b' ds' = num_val b ds" "(if ds' = [] then fail' else rest') = rest"
    using strto_base_prefix [OF p ds rest] by metis
  moreover have "b' < 37" using b(3) by simp
  ultimately show ?thesis
    using strto_l_loop_reads [OF b(2) L b(3-5), of 0 sflag negative False fail'] b(6,7)
    by (simp add: strto_read_def b(1-3) Let_def num_val_def split: if_splits)
qed

lemma strto_finish_unsigned:
  "strto_finish L False (number, negative, erange, fail) =
     (if negative then (2 ^ L - number) mod 2 ^ L else number, fail, if erange then Some ERANGE else None)"
  by (simp add: strto_finish_def Let_def)

text \<open>The nearest value of a signed type of \<open>L\<close> bits.\<close>

definition clamp :: "nat \<Rightarrow> int \<Rightarrow> int" where
  "clamp L x = max (- (2 ^ (L - 1))) (min (2 ^ (L - 1) - 1) x)"

lemma clamp_large:
  assumes "0 < L" "2 ^ L - 1 \<le> x"
  shows "clamp L x = 2 ^ (L - 1) - 1" "clamp L (- x) = - (2 ^ (L - 1))"
proof -
  have "(2::int) ^ L = 2 * 2 ^ (L - 1)" "(1::int) \<le> 2 ^ (L - 1)" using assms(1) by (cases L; simp)+
  then show "clamp L x = 2 ^ (L - 1) - 1" "clamp L (- x) = - (2 ^ (L - 1))"
    using assms(2) unfolding clamp_def by linarith+
qed

lemma strto_finish_signed:
  assumes "0 < L" "number < 2 ^ L" "strto_finish L True (number, negative, erange, fail) = (v, e, r)"
  defines "x \<equiv> if negative then - int number else int number"
  shows "to_signed L v = clamp L x \<and> e = fail \<and> r = (if erange \<or> x \<noteq> clamp L x then Some ERANGE else None)"
proof -
  obtain K where K: "L = Suc K" using assms(1) by (cases L) auto
  define P :: nat where "P = 2 ^ K"
  have e: "2 ^ L = 2 * P" "2 ^ (L - 1) = P" "(2::int) ^ (L - 1) = int P" "(2::int) ^ L = 2 * int P" "0 < P"
    "int (P - Suc 0) = int P - 1"
    by (simp_all add: K P_def of_nat_diff)
  show ?thesis using assms(2,3)
    unfolding strto_finish_def to_signed_def clamp_def x_def Let_def e prod.case
    by (cases negative; cases "number > P"; cases "number = P"; cases "number = 0"; cases "number > P - 1")
       (auto split: if_splits simp: of_nat_diff e)
qed

lemma strtol_correct_aux:
  assumes "strto_input str base negative b ds rest" "0 < L"
  shows "strtol L str base =
    (let x = (if negative then - int (num_val b ds) else int (num_val b ds))
     in (clamp L x, rest, if x = clamp L x then None else Some ERANGE))"
proof -
  define n where "n = num_val b ds"
  obtain v e r where f: "stdlib_strto_l L str base True = (v, e, r)" by (metis prod_cases3)
  show ?thesis
  proof (cases "n < 2 ^ L")
    case True
    then have "strto_finish L True (n, negative, False, rest) = (v, e, r)"
      using f strto_read_input [OF assms, of True] unfolding stdlib_strto_l_read by (simp add: n_def)
    from strto_finish_signed [OF assms(2) True this] show ?thesis
      by (simp add: strtol_def f Let_def flip: n_def)
  next
    case False
    then have "strto_finish L True (2 ^ L - 1, negative, True, rest) = (v, e, r)"
      using f strto_read_input [OF assms, of True] unfolding stdlib_strto_l_read by (simp add: n_def)
    from strto_finish_signed [OF assms(2) _ this] have
      v: "to_signed L v = (if negative then - (2 ^ (L - 1)) else 2 ^ (L - 1) - 1)" "e = rest" "r = Some ERANGE"
      using clamp_large [OF assms(2), of "2 ^ L - 1"] by (auto simp: of_nat_diff)
    have n: "2 ^ L \<le> int n" using False by (simp add: not_less of_nat_le_iff [symmetric] del: of_nat_le_iff)
    have "(1::int) \<le> 2 ^ (L - 1)" "(2::int) ^ (L - 1) < 2 ^ L" using assms(2) by simp_all
    moreover have c: "clamp L (int n) = 2 ^ (L - 1) - 1" "clamp L (- int n) = - (2 ^ (L - 1))"
      by (rule clamp_large [OF assms(2)], use n in linarith)+
    ultimately have "clamp L (int n) \<noteq> int n" "clamp L (- int n) \<noteq> - int n" using n by linarith+
    then show ?thesis using v c by (auto simp: strtol_def f Let_def simp flip: n_def)
  qed
qed

lemma strtoul_correct_aux:
  assumes "strto_input str base negative b ds rest" "0 < L"
  shows "strtoul L str base =
    (if num_val b ds < 2 ^ L
     then (if negative then (2 ^ L - num_val b ds) mod 2 ^ L else num_val b ds, rest, None)
     else (2 ^ L - 1, rest, Some ERANGE))"
  using strto_read_input [OF assms, of False]
  by (auto simp: strtoul_def stdlib_strto_l_read strto_finish_unsigned)

lemma strto_ll_equiv_aux: "stdlib_strto_ll str base sflag = stdlib_strto_l 64 str base sflag"
proof -
  have "strto_ll_loop (nat b) sflag s 0 negative erange fail = strto_l_loop 64 (nat b) sflag s 0 negative erange fail"
    if "2 \<le> b" "b < 37" for b s negative erange fail
    using that by (intro strto_ll_loop_eq) auto
  then show ?thesis by (auto simp: stdlib_strto_ll_def stdlib_strto_l_def split: prod.split)
qed

lemma uintmaxtostr_equiv_aux:
  assumes "2 \<le> \<bar>base\<bar>" "\<bar>base\<bar> \<le> 36" "uval < 2 ^ 64"
  shows "uintmaxtostr uval base alphacase = Some (uintmaxtostr_div uval base alphacase)"
proof -
  obtain u b negative where p: "uim_prepare uval base = (u, b, negative)" by (metis prod_cases3)
  then have "2 \<le> b" "b \<le> 36" "u < 2 ^ 64" using assms by (auto simp: uim_prepare_def split: if_splits)
  moreover have "u = u div 2 ^ 32 * 2 ^ 32 + u mod 2 ^ 32" by simp
  ultimately have "uim_loop2 b alphacase (u div 2 ^ 32) (u mod 2 ^ 32) [] = Some (uim_loop b alphacase u [])"
    by (intro uim_loop2_eq) auto
  then show ?thesis by (simp add: uintmaxtostr_def uintmaxtostr_div_def p)
qed

text \<open>A printed number is an input of the parser.\<close>

lemma printed_input:
  assumes b: "2 \<le> b" "b \<le> 36" and a: "b \<le> 10 \<or> a = UIM_LOWER \<or> a = UIM_UPPER"
  shows "strto_input ((if negative then [45] else []) @ uim_loop b a u []) (int b) negative b (uim_loop b a u []) []"
proof -
  obtain d ds where hd: "uim_loop b a u [] = uim_digit a d # ds" "d < b" "d = 0 \<longleftrightarrow> u = 0" "u = 0 \<longrightarrow> ds = []"
    using uim_loop_hd [OF b(1)] by blast
  have "\<not> (hd (uim_loop b a u []) = 48 \<and> hex_follows (tl (uim_loop b a u [])))"
  proof (cases "u = 0")
    case True
    then show ?thesis using hd by (simp add: hex_follows_def)
  next
    case False
    then have "0 < d" using hd by auto
    have "digit_val (uim_digit a d) = d" using digit_val_base [OF b(2) a hd(2)] .
    then have "uim_digit a d \<noteq> 48" using \<open>0 < d\<close> digit_val_special(4) by auto
    then show ?thesis using hd(1) by simp
  qed
  then have "strto_prefix (int b) [] (uim_loop b a u [] @ []) b" using b by (auto simp: strto_prefix_def)
  then show ?thesis unfolding strto_input_def using hd(1) uim_loop_digits [OF b a, of u]
    by (intro conjI exI [of _ "[]"] exI [of _ "if negative then [45] else []"]) auto
qed

lemma uintmaxtostr_unsigned:
  assumes "2 \<le> b" "b \<le> 36" "u < 2 ^ 64"
  shows "uintmaxtostr u (int b) a = Some (uim_loop b a u [])"
proof -
  have "2 \<le> \<bar>int b\<bar>" "\<bar>int b\<bar> \<le> 36" using assms by auto
  from uintmaxtostr_equiv_aux [OF this assms(3)] show ?thesis
    by (simp add: uintmaxtostr_div_def uim_prepare_def)
qed

lemma uintmaxtostr_signed:
  assumes "2 \<le> b" "b \<le> 36" "- (2 ^ 63) \<le> v" "v < 2 ^ 63"
  shows "uintmaxtostr (nat (v mod 2 ^ 64)) (- int b) a
    = Some ((if v < 0 then [45] else []) @ uim_loop b a (nat \<bar>v\<bar>) [])"
proof -
  have b: "2 \<le> \<bar>- int b\<bar>" "\<bar>- int b\<bar> \<le> 36" using assms by auto
  have m: "v mod 2 ^ 64 = (if v < 0 then v + 2 ^ 64 else v)"
    using assms(3,4) mod_pos_pos_trivial [of "v + 2 ^ 64" "2 ^ 64"] by (auto simp: mod_pos_pos_trivial)
  have "uim_prepare (nat (v mod 2 ^ 64)) (- int b) = (nat \<bar>v\<bar>, b, v < 0)"
  proof (cases "v < 0")
    case True
    then have "nat (v mod 2 ^ 64) = 2 ^ 64 - nat (- v)" "nat (- v) \<le> 2 ^ 63" "0 < nat (- v)"
      unfolding m using assms(3) by auto
    then show ?thesis using True assms(1) by (simp add: uim_prepare_def)
  next
    case False
    then have "nat (v mod 2 ^ 64) = nat v" "nat v < 2 ^ 63" unfolding m using assms(4) by auto
    then show ?thesis using False assms(1) by (simp add: uim_prepare_def)
  qed
  moreover have "nat (v mod 2 ^ 64) < 2 ^ 64" by (simp add: nat_less_iff)
  ultimately show ?thesis using uintmaxtostr_equiv_aux [OF b, of "nat (v mod 2 ^ 64)" a]
    by (simp add: uintmaxtostr_div_def)
qed

lemma strtoull_printed:
  assumes "2 \<le> b" "b \<le> 36" "b \<le> 10 \<or> a = UIM_LOWER \<or> a = UIM_UPPER" "u < 2 ^ 64"
  shows "strtoull (uim_loop b a u []) (int b) = (u, [], None)"
  using strtoul_correct_aux [OF printed_input [OF assms(1-3), of False u], of 64] assms(4)
  by (simp add: strtoull_def strto_ll_equiv_aux strtoul_def uim_loop_val [OF assms(1-3)])

lemma strtoll_printed:
  assumes "2 \<le> b" "b \<le> 36" "b \<le> 10 \<or> a = UIM_LOWER \<or> a = UIM_UPPER" "- (2 ^ 63) \<le> v" "v < 2 ^ 63"
  shows "strtoll ((if v < 0 then [45] else []) @ uim_loop b a (nat \<bar>v\<bar>) []) (int b) = (v, [], None)"
proof -
  have "strtoll s base = strtol 64 s base" for s base
    by (simp add: strtoll_def strtol_def strto_ll_equiv_aux)
  moreover have "(if v < 0 then - \<bar>v\<bar> else \<bar>v\<bar>) = v" by auto
  moreover have "clamp 64 v = v" using assms(4,5) by (simp add: clamp_def)
  ultimately show ?thesis
    using strtol_correct_aux [OF printed_input [OF assms(1-3), of "v < 0" "nat \<bar>v\<bar>"], of 64]
    by (simp add: uim_loop_val [OF assms(1-3)] Let_def)
qed

section \<open>Properties\<close>

text \<open>C17: \<open>strtol\<close> reads the longest numeral of its base (with the prefixes \<open>0x\<close> and \<open>0\<close> of the bases 0
  and 16) after white space and a sign, returns its value, clamped to the range of \<open>long\<close> with
  \<open>ERANGE\<close>, and reports the rest of the string, for every width of \<open>long\<close>. \<open>strtoul\<close> reads the same
  inputs; it negates modulo the width, and returns the largest value with \<open>ERANGE\<close> for a numeral
  that does not fit. The inputs are the strings with a numeral of at least one digit; the values of the digits are
  those of the characters \<open>0\<close> to \<open>9\<close> and of the letters of either case, 10 to 35.\<close>

theorem strtol_correct:
  assumes "strto_input str base negative b ds rest" "0 < L"
  shows "strtol L str base =
      (let x = (if negative then - int (num_val b ds) else int (num_val b ds))
       in (clamp L x, rest, if x = clamp L x then None else Some ERANGE))
    \<and> strtoul L str base =
      (if num_val b ds < 2 ^ L
       then (if negative then (2 ^ L - num_val b ds) mod 2 ^ L else num_val b ds, rest, None)
       else (2 ^ L - 1, rest, Some ERANGE))"
  by (rule conjI [OF strtol_correct_aux [OF assms] strtoul_correct_aux [OF assms]])

theorem strtol_correct_witness:
  "strtol 8 [32, 45, 48, 120, 56, 49, 33] 0 = (- 128, [33], Some ERANGE)"
proof -
  have "strto_input [32, 45, 48, 120, 56, 49, 33] 0 True 16 [56, 49] [33]"
    unfolding strto_input_def
  proof (intro conjI exI)
    show "[32, 45, 48, 120, 56, 49, 33] = [32] @ [45] @ [48, 120] @ [56, 49] @ [33 :: int]" by simp
    show "\<forall>c\<in>set [56, 49]. digit_val c < 16" "[33] = [] \<or> 16 \<le> digit_val (hd [33])" by code_simp+
  qed (simp_all add: isspace_c_def strto_prefix_def)
  moreover have "num_val 16 [56, 49] = 129" by code_simp
  ultimately show ?thesis using strtol_correct [of _ 0 True 16 "[56, 49]" "[33]" 8] by (simp add: clamp_def Let_def)
qed

text \<open>With no digit of the base, or an illegal base, the result is 0, the end pointer is the start of
  the string and \<open>errno\<close> is not touched.\<close>

theorem strtol_no_number:
  assumes "s = snd (strto_sign (skip_space str))"
    "base \<noteq> 0 \<and> (base < 2 \<or> 36 < base) \<or> s = [] \<or> (if base = 0 then 10 else nat base) \<le> digit_val (hd s)"
    "0 < L"
  shows "strtol L str base = (0, str, None) \<and> strtoul L str base = (0, str, None)"
proof -
  obtain negative where s: "strto_sign (skip_space str) = (negative, s)" using assms(1) by (metis prod.collapse)
  have "strto_read L str base sflag = (0, negative, False, str)" for sflag
  proof (cases "base = 0 \<or> base = 16")
    case True
    then have "s = [] \<or> (if base = 0 then 10 else 16) \<le> digit_val (hd s)" using assms(2) by auto
    then show ?thesis using True digit_val_special(4)
      by (cases s) (auto simp: strto_read_def s strto_base_def dynamic_base_num cur_def Let_def strto_digit_val)
  next
    case False
    then show ?thesis using assms(2)
      by (cases s) (auto simp: strto_read_def s strto_base_def dynamic_base_num Let_def strto_digit_val)
  qed
  moreover have "0 < (2::nat) ^ (L - 1)" by simp
  ultimately show ?thesis
    by (auto simp: strtol_def strtoul_def stdlib_strto_l_read strto_finish_def Let_def to_signed_def)
qed

theorem strtol_no_number_witness: "strtol 32 [32, 45, 120] 10 = (0, [32, 45, 120], None)"
proof -
  have "snd (strto_sign (skip_space [32, 45, 120])) = [120]" by code_simp
  then show ?thesis using strtol_no_number [of "[120]" "[32, 45, 120]" 10 32] digit_val_special(5) by simp
qed

text \<open>The 64-bit function computes in two parts to avoid long division, and is the same function as
  the general one at 64 bits.\<close>

theorem strto_ll_equiv: "stdlib_strto_ll str base sflag = stdlib_strto_l 64 str base sflag"
  by (rule strto_ll_equiv_aux)

text \<open>The digit loop that works on two 32-bit halves prints the same digits as 64-bit division, for
  every base from 2 to 36 and every value, and it returns.\<close>

theorem uintmaxtostr_equiv:
  assumes "2 \<le> \<bar>base\<bar>" "\<bar>base\<bar> \<le> 36" "uval < 2 ^ 64"
  shows "uintmaxtostr uval base alphacase = Some (uintmaxtostr_div uval base alphacase)"
  by (rule uintmaxtostr_equiv_aux [OF assms])

theorem uintmaxtostr_equiv_witness:
  "uintmaxtostr 65535 16 UIM_LOWER = Some (uintmaxtostr_div 65535 16 UIM_LOWER)"
  by (rule uintmaxtostr_equiv) simp_all

text \<open>C18: printing a 64-bit number in any base and parsing it again gives the number back, signed and
  unsigned.\<close>

theorem uintmaxtostr_strtoll_roundtrip:
  assumes "2 \<le> b" "b \<le> 36" "b \<le> 10 \<or> a = UIM_LOWER \<or> a = UIM_UPPER"
    and "u < 2 ^ 64" "- (2 ^ 63) \<le> v" "v < 2 ^ 63"
  shows "(\<exists>s. uintmaxtostr u (int b) a = Some s \<and> strtoull s (int b) = (u, [], None))
    \<and> (\<exists>s. uintmaxtostr (nat (v mod 2 ^ 64)) (- int b) a = Some s \<and> strtoll s (int b) = (v, [], None))"
  using uintmaxtostr_unsigned [OF assms(1,2,4)] uintmaxtostr_signed [OF assms(1,2,5,6)]
    strtoull_printed [OF assms(1-4)] strtoll_printed [OF assms(1-3,5,6)] by auto

theorem uintmaxtostr_strtoll_roundtrip_witness:
  "\<exists>s. uintmaxtostr (2 ^ 64 - 5) (- 10) UIM_LOWER = Some s \<and> strtoll s 10 = (- 5, [], None)"
  using uintmaxtostr_strtoll_roundtrip [of 10 UIM_LOWER 0 "- 5"] by simp

end
