(* ===== verification/Sort.thy ===== *)
theory Sort
  imports Prelude "HOL-Library.Multiset"
begin

text \<open>
  Sorting and searching arrays: \<open>qsort_r\<close>, \<open>qsort\<close> and \<open>bsearch\<close> of \<open>libc/stdlib/stdlib.c\<close>.

  The array is a list of bytes, \<open>a\<close> and \<open>b\<close> are byte offsets from \<open>base\<close>, and sizes are 32-bit
  \<open>size_t\<close> values. The comparison function sees the bytes of the two elements. \<open>None\<close> is an access
  outside the array, or a loop that does not end.
\<close>

type_synonym bytes = "8 word list"
type_synonym comparison = "bytes \<Rightarrow> bytes \<Rightarrow> int"

section \<open>Model\<close>

definition element :: "bytes \<Rightarrow> nat \<Rightarrow> nat \<Rightarrow> bytes option" where
  "element base width p = (if p + width \<le> length base then Some (take width (drop p base)) else None)"

text \<open>The \<open>do\<close> loop that swaps two elements byte by byte; \<open>k\<close> counts down to 0.\<close>

fun swap_loop :: "bytes \<Rightarrow> nat \<Rightarrow> nat \<Rightarrow> nat \<Rightarrow> bytes" where
  "swap_loop base a b 0 = base"
| "swap_loop base a b (Suc k) = (let tmp = base ! a in swap_loop (base[a := base ! b, b := tmp]) (a + 1) (b + 1) k)"

text \<open>The innermost loop, which moves one element down by steps of \<open>wgap\<close>.\<close>

partial_function (option) sort_down :: "comparison \<Rightarrow> nat \<Rightarrow> nat \<Rightarrow> bytes \<Rightarrow> nat \<Rightarrow> bytes option" where
  [code]: "sort_down compar width wgap base j =
     (let a = j - wgap; b = a + wgap
      in case element base width a of
           None \<Rightarrow> None
         | Some x \<Rightarrow>
             (case element base width b of
                None \<Rightarrow> None
              | Some y \<Rightarrow>
                  if compar x y \<le> 0 then Some base
                  else (let base1 = swap_loop base a b width
                        in if a \<ge> wgap then sort_down compar width wgap base1 a else Some base1)))"

partial_function (option) sort_pass :: "comparison \<Rightarrow> nat \<Rightarrow> nat \<Rightarrow> nat \<Rightarrow> bytes \<Rightarrow> nat \<Rightarrow> bytes option" where
  [code]: "sort_pass compar width wgap wnel base i =
     (case sort_down compar width wgap base i of
        None \<Rightarrow> None
      | Some base1 \<Rightarrow>
          (let i1 = sz_add i width
           in if i1 < wnel then sort_pass compar width wgap wnel base1 i1 else Some base1))"

partial_function (option) sort_passes :: "comparison \<Rightarrow> nat \<Rightarrow> nat \<Rightarrow> bytes \<Rightarrow> nat \<Rightarrow> bytes option" where
  [code]: "sort_passes compar width wnel base wgap =
     (case sort_pass compar width wgap wnel base wgap of
        None \<Rightarrow> None
      | Some base1 \<Rightarrow>
          (let wgap1 = (wgap - width) div 3
           in if wgap1 \<noteq> 0 then sort_passes compar width wnel base1 wgap1 else Some base1))"

partial_function (option) first_gap :: "nat \<Rightarrow> nat \<Rightarrow> nat option" where
  [code]: "first_gap nel wgap =
     (let wgap1 = (3 * wgap + 1) mod 2 ^ 32
      in if wgap1 < (nel - 1) div 3 then first_gap nel wgap1 else Some wgap1)"

definition qsort_r :: "bytes \<Rightarrow> nat \<Rightarrow> nat \<Rightarrow> comparison \<Rightarrow> bytes option" where
  "qsort_r base nel width compar =
     (if nel > 1 \<and> width > 0 then
        (case first_gap nel 0 of
           None \<Rightarrow> None
         | Some gap \<Rightarrow> sort_passes compar width ((nel * width) mod 2 ^ 32) base ((gap * width) mod 2 ^ 32))
      else Some base)"

definition qsort :: "bytes \<Rightarrow> nat \<Rightarrow> nat \<Rightarrow> comparison \<Rightarrow> bytes option" where
  "qsort base nel width compar = qsort_r base nel width compar"

text \<open>The offset of the element found, \<open>Some None\<close> for a null pointer.\<close>

partial_function (option) bsearch_loop ::
  "comparison \<Rightarrow> bytes \<Rightarrow> bytes \<Rightarrow> nat \<Rightarrow> nat \<Rightarrow> nat \<Rightarrow> nat option option" where
  [code]: "bsearch_loop compar key base sz low high =
     (if low < high then
        (let mid = sz_add low (drop_bit 1 (high - low)); p = (mid * sz) mod 2 ^ 32
         in case element base sz p of
              None \<Rightarrow> None
            | Some x \<Rightarrow>
                (let r = compar key x
                 in if r > 0 then bsearch_loop compar key base sz (sz_add mid 1) high
                    else if r < 0 then bsearch_loop compar key base sz low mid
                    else Some (Some p)))
      else Some None)"

definition bsearch :: "bytes \<Rightarrow> bytes \<Rightarrow> nat \<Rightarrow> nat \<Rightarrow> comparison \<Rightarrow> nat option option" where
  "bsearch key base high sz compar =
     (if sz > 0 then bsearch_loop compar key base sz 0 high else Some None)"

section \<open>The array as a list of elements\<close>

definition elements :: "nat \<Rightarrow> bytes list \<Rightarrow> bool" where
  "elements w xs \<longleftrightarrow> (\<forall>x \<in> set xs. length x = w)"

lemma elements_nth: "elements w xs \<Longrightarrow> i < length xs \<Longrightarrow> length (xs ! i) = w"
  by (simp add: elements_def)

lemma length_elements: "elements w xs \<Longrightarrow> length (concat xs) = length xs * w"
  by (induction xs) (auto simp: elements_def)

lemma element_concat:
  assumes "elements w xs" "i < length xs"
  shows "element (concat xs) w (i * w) = Some (xs ! i)"
proof -
  have "take w (drop (i * w) (concat xs)) = xs ! i" using assms
  proof (induction xs arbitrary: i)
    case (Cons x xs)
    then show ?case by (cases i) (auto simp: elements_def)
  qed simp
  moreover have "i * w + w \<le> length xs * w" using assms(2) mult_le_mono1 [of "Suc i" "length xs" w] by simp
  ultimately show ?thesis using length_elements [OF assms(1)] by (simp add: element_def)
qed

abbreviation swap_nth :: "'a list \<Rightarrow> nat \<Rightarrow> nat \<Rightarrow> 'a list" where
  "swap_nth xs i j \<equiv> xs[i := xs ! j, j := xs ! i]"

lemma swap_loop_append:
  "\<lbrakk>length x = k; length y = k; a = length P; b = length P + k + length Q\<rbrakk>
    \<Longrightarrow> swap_loop (P @ x @ Q @ y @ R) a b k = P @ y @ Q @ x @ R"
proof (induction k arbitrary: x y a b P Q)
  case (Suc k)
  obtain c x' d y' where xy: "x = c # x'" "y = d # y'" using Suc.prems(1,2) by (metis length_Suc_conv)
  have "swap_loop (P @ x @ Q @ y @ R) a b (Suc k) = swap_loop ((P @ [d]) @ x' @ (Q @ [c]) @ y' @ R) (a + 1) (b + 1) k"
    using Suc.prems xy by (simp add: Let_def nth_append list_update_append)
  also have "\<dots> = (P @ [d]) @ y' @ (Q @ [c]) @ x' @ R" using Suc.prems xy by (intro Suc.IH) auto
  finally show ?case using xy by simp
qed simp

lemma split_two:
  assumes "i < j" "j < length xs"
  obtains P x Q y R where "xs = P @ x # Q @ y # R" "i = length P" "j = Suc (length P + length Q)"
proof
  have "take j xs = take i xs @ xs ! i # drop (Suc i) (take j xs)"
    using id_take_nth_drop [of i "take j xs"] assms by (simp add: min_def)
  then show "xs = take i xs @ xs ! i # drop (Suc i) (take j xs) @ xs ! j # drop (Suc j) xs"
    using id_take_nth_drop [OF assms(2)] by (metis append.assoc append_Cons)
qed (use assms in auto)

lemma swap_loop_concat:
  assumes e: "elements w xs" and ij: "i < j" "j < length xs"
  shows "swap_loop (concat xs) (i * w) (j * w) w = concat (swap_nth xs i j)"
proof -
  obtain P x Q y R where xs: "xs = P @ x # Q @ y # R" "i = length P" "j = Suc (length P + length Q)"
    using split_two [OF ij] .
  have el: "elements w P" "elements w Q" "length x = w" "length y = w" using e by (auto simp: elements_def xs(1))
  have sw: "swap_nth xs i j = P @ y # Q @ x # R" by (simp add: xs nth_append list_update_append)
  have "swap_loop (concat P @ x @ concat Q @ y @ concat R) (i * w) (j * w) w = concat P @ y @ concat Q @ x @ concat R"
    using length_elements [OF el(1)] length_elements [OF el(2)] el(3,4) xs(2,3)
    by (intro swap_loop_append) (auto simp: algebra_simps)
  then show ?thesis unfolding sw by (simp add: xs(1))
qed

lemma swap_nth_props:
  assumes "elements w xs" "i < length xs" "j < length xs"
  shows "elements w (swap_nth xs i j)" "mset (swap_nth xs i j) = mset xs"
proof -
  show m: "mset (swap_nth xs i j) = mset xs" using assms by (simp add: mset_swap)
  then have "set (swap_nth xs i j) = set xs" by (metis set_mset_mset)
  then show "elements w (swap_nth xs i j)" using assms(1) by (simp add: elements_def)
qed

section \<open>The Shell sort\<close>

text \<open>What the comparison function has to be: a total preorder.\<close>

definition preorder :: "comparison \<Rightarrow> bool" where
  "preorder compar \<longleftrightarrow>
     (\<forall>x y. compar x y \<le> 0 \<or> compar y x \<le> 0) \<and>
     (\<forall>x y z. compar x y \<le> 0 \<longrightarrow> compar y z \<le> 0 \<longrightarrow> compar x z \<le> 0)"

text \<open>The elements up to \<open>J\<close> are in order, those before position \<open>j\<close> with the one at \<open>j\<close> excepted.\<close>

definition in_order :: "comparison \<Rightarrow> nat \<Rightarrow> bytes list \<Rightarrow> bool" where
  "in_order compar n xs \<longleftrightarrow> (\<forall>q < n. \<forall>p < q. compar (xs ! p) (xs ! q) \<le> 0)"

definition in_order_but :: "comparison \<Rightarrow> nat \<Rightarrow> nat \<Rightarrow> bytes list \<Rightarrow> bool" where
  "in_order_but compar j n xs \<longleftrightarrow> (\<forall>q < n. q \<noteq> j \<longrightarrow> (\<forall>p < q. compar (xs ! p) (xs ! q) \<le> 0))"

lemma in_order_found:
  assumes "preorder compar" "in_order_but compar (Suc i) n xs" "Suc i < n" "compar (xs ! i) (xs ! Suc i) \<le> 0"
  shows "in_order compar n xs"
  unfolding in_order_def
proof (intro allI impI)
  fix q p assume qp: "q < n" "p < q"
  show "compar (xs ! p) (xs ! q) \<le> 0"
  proof (cases "q = Suc i")
    case True
    then show ?thesis using assms qp unfolding preorder_def in_order_but_def
      by (metis Suc_lessD less_Suc_eq n_not_Suc_n)
  qed (use assms(2) qp in \<open>simp add: in_order_but_def\<close>)
qed

lemma in_order_swap:
  assumes "preorder compar" "in_order_but compar (Suc i) n xs" "Suc i < n" "n \<le> length xs"
    "\<not> compar (xs ! i) (xs ! Suc i) \<le> 0"
  shows "in_order_but compar i n (swap_nth xs i (Suc i))"
  unfolding in_order_but_def
proof (intro allI impI)
  fix q p assume qp: "q < n" "q \<noteq> i" "p < q"
  have le: "compar (xs ! Suc i) (xs ! i) \<le> 0" using assms(1,5) by (auto simp: preorder_def)
  have ord: "compar (xs ! p) (xs ! q) \<le> 0" if "p < q" "q < n" "q \<noteq> Suc i" for p q
    using assms(2) that by (simp add: in_order_but_def)
  have "swap_nth xs i (Suc i) ! m = xs ! (if m = i then Suc i else if m = Suc i then i else m)" if "m < n" for m
    using that assms(3,4) by (auto simp: nth_list_update)
  then show "compar (swap_nth xs i (Suc i) ! p) (swap_nth xs i (Suc i) ! q) \<le> 0"
    using qp le assms(3) by (auto intro!: ord)
qed

lemma sort_down_correct:
  assumes "0 < g" "preorder compar" "0 < w"
  shows "\<lbrakk>elements w xs; g \<le> j; j < length xs\<rbrakk> \<Longrightarrow>
    \<exists>ys. sort_down compar w (g * w) (concat xs) (j * w) = Some (concat ys) \<and> elements w ys \<and> mset ys = mset xs
      \<and> (g = 1 \<longrightarrow> j < n \<longrightarrow> n \<le> length xs \<longrightarrow> in_order_but compar j n xs \<longrightarrow> in_order compar n ys)"
proof (induction j arbitrary: xs rule: less_induct)
  case (less j)
  define i where "i = j - g"
  have i: "i < j" "j = i + g" using less.prems assms(1) by (simp_all add: i_def)
  have off: "j * w - g * w = i * w" "i * w + g * w = j * w" by (simp_all add: i(2) algebra_simps)
  have el: "element (concat xs) w (i * w) = Some (xs ! i)" "element (concat xs) w (j * w) = Some (xs ! j)"
    using element_concat less.prems i by simp_all
  show ?case
  proof (cases "compar (xs ! i) (xs ! j) \<le> 0")
    case True
    then have "sort_down compar w (g * w) (concat xs) (j * w) = Some (concat xs)"
      by (subst sort_down.simps) (simp add: Let_def off el)
    then show ?thesis using less.prems in_order_found [OF assms(2)] True i by (intro exI [of _ xs]) auto
  next
    case False
    define zs where "zs = swap_nth xs i j"
    have zs: "elements w zs" "mset zs = mset xs" "length zs = length xs"
      using swap_nth_props [of w xs i j] less.prems i by (simp_all add: zs_def)
    have sw: "swap_loop (concat xs) (i * w) (j * w) w = concat zs"
      using swap_loop_concat [of w xs i j] less.prems i by (simp add: zs_def)
    have ord: "g = 1 \<longrightarrow> j < n \<longrightarrow> n \<le> length xs \<longrightarrow> in_order_but compar j n xs \<longrightarrow> in_order_but compar i n zs"
      using in_order_swap [OF assms(2)] False i by (auto simp: zs_def)
    show ?thesis
    proof (cases "i < g")
      case True
      then have "sort_down compar w (g * w) (concat xs) (j * w) = Some (concat zs)"
        using False assms(3) by (subst sort_down.simps) (simp add: Let_def off el sw)
      moreover have "in_order_but compar 0 n zs \<Longrightarrow> in_order compar n zs"
        by (auto simp: in_order_but_def in_order_def)
      ultimately show ?thesis using zs True ord by (intro exI [of _ zs]) auto
    next
      case ig: False
      then have "sort_down compar w (g * w) (concat xs) (j * w) = sort_down compar w (g * w) (concat zs) (i * w)"
        using False assms(3) by (subst sort_down.simps) (simp add: Let_def off el sw)
      then show ?thesis using less.IH [OF i(1) zs(1)] ig i zs(2,3) less.prems(3) ord by (simp add: not_less) (metis (lifting) Suc_lessD less_imp_Suc_add order_less_trans)
    qed
  qed
qed

lemma elements_length: "mset ys = mset xs \<Longrightarrow> length ys = length xs"
  by (metis size_mset)

lemma sort_pass_correct:
  assumes "0 < g" "preorder compar" "0 < w" "n * w < 2 ^ 32"
  shows "\<lbrakk>elements w xs; length xs = n; g \<le> i; i < n; g = 1 \<longrightarrow> in_order compar i xs\<rbrakk> \<Longrightarrow>
    \<exists>ys. sort_pass compar w (g * w) (n * w) (concat xs) (i * w) = Some (concat ys) \<and> elements w ys \<and> mset ys = mset xs
      \<and> (g = 1 \<longrightarrow> in_order compar n ys)"
proof (induction "n - i" arbitrary: xs i)
  case (Suc m)
  obtain zs where zs: "sort_down compar w (g * w) (concat xs) (i * w) = Some (concat zs)" "elements w zs"
    "mset zs = mset xs" "g = 1 \<longrightarrow> in_order_but compar i (Suc i) xs \<longrightarrow> in_order compar (Suc i) zs"
    using sort_down_correct [OF assms(1-3) Suc.prems(1,3), of "Suc i"] Suc.prems(2,4) by auto
  have ord: "g = 1 \<longrightarrow> in_order compar (Suc i) zs"
    using zs(4) Suc.prems(5) by (auto simp: in_order_but_def in_order_def less_Suc_eq)
  have le: "Suc i * w \<le> n * w" using Suc.prems(4) by (intro mult_le_mono1) auto
  then have next_i: "sz_add (i * w) w = Suc i * w" using assms(4) by (simp add: sz_add_def)
  show ?case
  proof (cases "Suc i < n")
    case True
    then have "sort_pass compar w (g * w) (n * w) (concat xs) (i * w)
        = sort_pass compar w (g * w) (n * w) (concat zs) (Suc i * w)"
      using assms(3) by (subst sort_pass.simps) (simp add: zs(1) next_i Let_def del: mult_Suc)
    then show ?thesis
      using Suc.hyps(1) [of "Suc i" zs] Suc.hyps(2) Suc.prems zs ord True elements_length [OF zs(3)] by simp
  next
    case False
    then have "Suc i = n" using Suc.prems by simp
    moreover have "sort_pass compar w (g * w) (n * w) (concat xs) (i * w) = Some (concat zs)"
      using False assms(3) by (subst sort_pass.simps) (simp add: zs(1) next_i Let_def del: mult_Suc)
    ultimately show ?thesis using zs ord by auto
  qed
qed simp

text \<open>The gaps 1, 4, 13, 40, ...\<close>

fun gap :: "nat \<Rightarrow> nat" where
  "gap 0 = 0"
| "gap (Suc k) = 3 * gap k + 1"

lemma sort_passes_correct:
  assumes "preorder compar" "0 < w" "n * w < 2 ^ 32" "1 < n"
  shows "\<lbrakk>elements w xs; length xs = n; gap (Suc k) < n\<rbrakk> \<Longrightarrow>
    \<exists>ys. sort_passes compar w (n * w) (concat xs) (gap (Suc k) * w) = Some (concat ys) \<and> elements w ys
      \<and> mset ys = mset xs \<and> in_order compar n ys"
proof (induction k arbitrary: xs)
  case 0
  have "gap (Suc 0) = 1" by simp
  moreover have "in_order compar 1 xs" by (simp add: in_order_def)
  ultimately obtain ys where "sort_pass compar w (gap (Suc 0) * w) (n * w) (concat xs) (gap (Suc 0) * w) = Some (concat ys)"
    "elements w ys" "mset ys = mset xs" "in_order compar n ys"
    using sort_pass_correct [OF _ assms(1-3) 0(1,2), of 1 1] assms(4) by auto
  then show ?case by (subst sort_passes.simps) auto
next
  case (Suc k)
  have g: "0 < gap (Suc (Suc k))" "gap (Suc (Suc k)) \<noteq> 1" by auto
  have wg: "(gap (Suc (Suc k)) * w - w) div 3 = gap (Suc k) * w" by (simp add: algebra_simps)
  obtain zs where zs: "sort_pass compar w (gap (Suc (Suc k)) * w) (n * w) (concat xs) (gap (Suc (Suc k)) * w) = Some (concat zs)"
    "elements w zs" "mset zs = mset xs"
    using sort_pass_correct [OF g(1) assms(1-3) Suc.prems(1,2) order_refl Suc.prems(3)] g(2) by metis
  have "sort_passes compar w (n * w) (concat xs) (gap (Suc (Suc k)) * w)
      = sort_passes compar w (n * w) (concat zs) (gap (Suc k) * w)"
    using assms(2) by (subst sort_passes.simps) (simp only: zs(1) option.case Let_def wg, simp)
  then show ?case using Suc.IH [of zs] zs Suc.prems elements_length [OF zs(3)] by auto
qed

lemma first_gap_correct:
  assumes "1 < nel" "nel < 2 ^ 32"
  shows "k = 0 \<or> gap k < (nel - 1) div 3 \<Longrightarrow> \<exists>m. first_gap nel (gap k) = Some (gap (Suc m)) \<and> gap (Suc m) < nel"
proof (induction "nel - gap k" arbitrary: k rule: less_induct)
  case less
  have lt: "gap (Suc k) < nel" using less.prems assms(1) by auto
  then have "(3 * gap k + 1) mod 2 ^ 32 = gap (Suc k)" using assms(2) by simp
  then have "first_gap nel (gap k) =
      (if gap (Suc k) < (nel - 1) div 3 then first_gap nel (gap (Suc k)) else Some (gap (Suc k)))"
    by (subst first_gap.simps) (simp only: Let_def)
  moreover have "nel - gap (Suc k) < nel - gap k" using lt by simp
  ultimately show ?case using less.hyps [of "Suc k"] lt by auto
qed

section \<open>Binary search\<close>

definition key_sorted :: "comparison \<Rightarrow> bytes \<Rightarrow> bytes list \<Rightarrow> bool" where
  "key_sorted compar key xs \<longleftrightarrow> (\<forall>q < length xs. \<forall>p < q.
     (compar key (xs ! q) > 0 \<longrightarrow> compar key (xs ! p) > 0) \<and> (compar key (xs ! p) < 0 \<longrightarrow> compar key (xs ! q) < 0))"

lemma bsearch_loop_correct:
  assumes "elements w xs" "length xs * w < 2 ^ 32" "length xs < 2 ^ 32" "key_sorted compar key xs"
  shows "\<lbrakk>low \<le> high; high \<le> length xs; \<forall>i < low. compar key (xs ! i) > 0;
      \<forall>i < length xs. high \<le> i \<longrightarrow> compar key (xs ! i) < 0\<rbrakk> \<Longrightarrow>
    \<exists>r. bsearch_loop compar key (concat xs) w low high = Some r \<and>
      (case r of Some p \<Rightarrow> (\<exists>i < length xs. p = i * w \<and> compar key (xs ! i) = 0)
               | None \<Rightarrow> (\<forall>x \<in> set xs. compar key x \<noteq> 0))"
proof (induction "high - low" arbitrary: low high rule: less_induct)
  case less
  show ?case
  proof (cases "low < high")
    case False
    then have "compar key (xs ! i) \<noteq> 0" if "i < length xs" for i
    proof (cases "i < low")
      case True
      then show ?thesis using less.prems(3) by (metis less_irrefl)
    next
      case i: False
      then have "high \<le> i" using False by linarith
      then show ?thesis using less.prems(4) that by (metis less_irrefl)
    qed
    then have "\<forall>x \<in> set xs. compar key x \<noteq> 0" by (auto simp: in_set_conv_nth)
    then show ?thesis using False by (subst bsearch_loop.simps) simp
  next
    case True
    define mid where "mid = low + (high - low) div 2"
    have mid: "low \<le> mid" "mid < high" "mid < length xs" "Suc mid < 2 ^ 32"
      using True less.prems(2) assms(3) by (auto simp: mid_def)
    have "mid * w \<le> length xs * w" using mid by (intro mult_le_mono1) auto
    then have p: "mid * w mod 2 ^ 32 = mid * w" by (intro mod_less le_less_trans [OF _ assms(2)])
    have m: "sz_add low (drop_bit 1 (high - low)) = mid" "sz_add mid 1 = Suc mid"
      using mid by (simp_all add: mid_def sz_add_def drop_bit_eq_div)
    note step = bsearch_loop.simps [of compar key "concat xs" w low high]
    have step': "bsearch_loop compar key (concat xs) w low high =
      (let r = compar key (xs ! mid)
       in if r > 0 then bsearch_loop compar key (concat xs) w (Suc mid) high
          else if r < 0 then bsearch_loop compar key (concat xs) w low mid else Some (Some (mid * w)))"
      by (subst step) (simp only: True if_True m p Let_def element_concat [OF assms(1) mid(3)] option.case)
    consider "compar key (xs ! mid) > 0" | "compar key (xs ! mid) < 0" | "compar key (xs ! mid) = 0" by linarith
    then show ?thesis
    proof cases
      case 1
      then have "\<forall>i < Suc mid. compar key (xs ! i) > 0"
        using assms(4) mid(3) by (auto simp: key_sorted_def less_Suc_eq)
      then show ?thesis using 1 less.hyps [of high "Suc mid"] mid less.prems by (simp add: step')
    next
      case 2
      then have "\<forall>i < length xs. mid \<le> i \<longrightarrow> compar key (xs ! i) < 0"
        using assms(4) by (metis key_sorted_def order_le_less)
      moreover have "bsearch_loop compar key (concat xs) w low high = bsearch_loop compar key (concat xs) w low mid"
        using 2 by (simp add: step' Let_def)
      ultimately show ?thesis using less.hyps [of mid low] mid less.prems by simp
    next
      case 3
      then show ?thesis using mid(3) by (auto simp: step')
    qed
  qed
qed

lemma bsearch_correct_aux:
  assumes "elements w xs" "0 < w" "length xs * w < 2 ^ 32" "key_sorted compar key xs"
  shows "\<exists>r. bsearch key (concat xs) (length xs) w compar = Some r \<and>
      (case r of Some p \<Rightarrow> (\<exists>i < length xs. p = i * w \<and> compar key (xs ! i) = 0)
               | None \<Rightarrow> (\<forall>x \<in> set xs. compar key x \<noteq> 0))"
proof -
  have "length xs * 1 \<le> length xs * w" using assms(2) by (intro mult_le_mono) auto
  then have "length xs < 2 ^ 32" using assms(3) by linarith
  from bsearch_loop_correct [OF assms(1,3) this assms(4), of 0 "length xs"] show ?thesis
    using assms(2) by (simp add: bsearch_def)
qed

lemma qsort_correct_aux:
  assumes "preorder compar" "elements w xs" "0 < w" "length xs * w < 2 ^ 32"
  shows "\<exists>ys. qsort (concat xs) (length xs) w compar = Some (concat ys) \<and> elements w ys \<and> mset ys = mset xs
    \<and> sorted_wrt (\<lambda>x y. compar x y \<le> 0) ys"
proof (cases "1 < length xs")
  case False
  then have "sorted_wrt (\<lambda>x y. compar x y \<le> 0) xs" by (auto simp: sorted_wrt_iff_nth_less)
  then show ?thesis using assms(2) False by (auto simp: qsort_def qsort_r_def)
next
  case True
  have "length xs * 1 \<le> length xs * w" using assms(3) by (intro mult_le_mono) auto
  then have "length xs < 2 ^ 32" using assms(4) by linarith
  then obtain m where m: "first_gap (length xs) (gap 0) = Some (gap (Suc m))" "gap (Suc m) < length xs"
    using first_gap_correct [OF True, of 0] by blast
  then have "gap (Suc m) * w \<le> length xs * w" by (intro mult_le_mono1) auto
  then have "gap (Suc m) * w mod 2 ^ 32 = gap (Suc m) * w" "length xs * w mod 2 ^ 32 = length xs * w"
    using assms(4) by simp_all
  then have "qsort (concat xs) (length xs) w compar = sort_passes compar w (length xs * w) (concat xs) (gap (Suc m) * w)"
    using True assms(3) m(1) by (simp add: qsort_def qsort_r_def del: gap.simps(2))
  moreover obtain ys where "sort_passes compar w (length xs * w) (concat xs) (gap (Suc m) * w) = Some (concat ys)"
    "elements w ys" "mset ys = mset xs" "in_order compar (length xs) ys"
    using sort_passes_correct [OF assms(1,3,4) True assms(2) refl m(2)] by blast
  ultimately show ?thesis using elements_length [of ys xs]
    by (intro exI [of _ ys]) (auto simp: in_order_def sorted_wrt_iff_nth_less)
qed

text \<open>A comparison function whose sign does not depend on the order of its arguments.\<close>

definition antisymmetric :: "comparison \<Rightarrow> bool" where
  "antisymmetric compar \<longleftrightarrow> (\<forall>x y. compar x y < 0 \<longleftrightarrow> 0 < compar y x)"

lemma sorted_key_sorted:
  assumes "preorder compar" "antisymmetric compar" "sorted_wrt (\<lambda>x y. compar x y \<le> 0) xs"
  shows "key_sorted compar key xs"
  unfolding key_sorted_def
proof (intro allI impI)
  fix p q assume "q < length xs" "p < q"
  then have le: "compar (xs ! p) (xs ! q) \<le> 0" using assms(3) by (simp add: sorted_wrt_iff_nth_less)
  have tr: "compar x y \<le> 0 \<Longrightarrow> compar y z \<le> 0 \<Longrightarrow> compar x z \<le> 0" for x y z
    using assms(1) unfolding preorder_def by blast
  have "0 < compar key (xs ! q) \<longrightarrow> 0 < compar key (xs ! p)" using tr [OF _ le] by (meson not_less)
  moreover have "compar key (xs ! p) < 0 \<longrightarrow> compar key (xs ! q) < 0"
    using tr [OF le, of key] assms(2) unfolding antisymmetric_def by (meson not_less)
  ultimately show "(0 < compar key (xs ! q) \<longrightarrow> 0 < compar key (xs ! p)) \<and>
    (compar key (xs ! p) < 0 \<longrightarrow> compar key (xs ! q) < 0)" by blast
qed

section \<open>Properties\<close>

text \<open>C19: for every total preorder, \<open>qsort\<close> returns, never accesses a byte outside the array, and leaves
  a sorted permutation of the elements. No index computation wraps.\<close>

theorem qsort_correct:
  assumes "preorder compar" "elements w xs" "0 < w" "length xs * w < 2 ^ 32"
  shows "\<exists>ys. qsort (concat xs) (length xs) w compar = Some (concat ys) \<and> elements w ys \<and> mset ys = mset xs
    \<and> sorted_wrt (\<lambda>x y. compar x y \<le> 0) ys"
  by (rule qsort_correct_aux [OF assms])

text \<open>Comparing elements by their first byte.\<close>

definition by_first :: comparison where
  "by_first x y = int (unat (hd x)) - int (unat (hd y))"

lemma by_first_order: "preorder by_first" "antisymmetric by_first"
  by (auto simp: preorder_def antisymmetric_def by_first_def)

theorem qsort_correct_witness:
  "\<exists>ys. qsort [3, 0, 1, 7, 2, 5] 3 2 by_first = Some (concat ys) \<and> mset ys = {#[3, 0], [1, 7], [2, 5]#}
    \<and> sorted_wrt (\<lambda>x y. by_first x y \<le> 0) ys"
  using qsort_correct [OF by_first_order(1), of 2 "[[3, 0], [1, 7], [2, 5]]"]
  by (auto simp: elements_def numeral_3_eq_3)

text \<open>On an array whose elements are in the order of their comparison with the key, \<open>bsearch\<close> returns the
  address of an element that compares equal, and a null pointer exactly when there is none.\<close>

theorem bsearch_correct:
  assumes "elements w xs" "0 < w" "length xs * w < 2 ^ 32" "key_sorted compar key xs"
  shows "\<exists>r. bsearch key (concat xs) (length xs) w compar = Some r \<and>
      (case r of Some p \<Rightarrow> (\<exists>i < length xs. p = i * w \<and> compar key (xs ! i) = 0)
               | None \<Rightarrow> (\<forall>x \<in> set xs. compar key x \<noteq> 0))"
  by (rule bsearch_correct_aux [OF assms])

theorem bsearch_correct_witness:
  "\<exists>r. bsearch [2] [1, 7, 2, 5, 3, 0] 3 2 by_first = Some r \<and> r \<noteq> None"
proof -
  have "sorted_wrt (\<lambda>x y. by_first x y \<le> 0) [[1, 7], [2, 5], [3, 0]]" by (simp add: by_first_def)
  from bsearch_correct [OF _ _ _ sorted_key_sorted [OF by_first_order this], of 2 "[2]"]
  show ?thesis by (auto simp: elements_def by_first_def [of "[2]"] numeral_3_eq_3 split: option.splits)
qed

text \<open>After \<open>qsort\<close> with a comparison function that is a total preorder and whose sign is
  antisymmetric, \<open>bsearch\<close> finds a key exactly when the original array had an element equal to it.\<close>

theorem qsort_then_bsearch:
  assumes "preorder compar" "antisymmetric compar" "elements w xs" "0 < w" "length xs * w < 2 ^ 32"
  shows "\<exists>base r. qsort (concat xs) (length xs) w compar = Some base \<and> bsearch key base (length xs) w compar = Some r
    \<and> (r \<noteq> None \<longleftrightarrow> (\<exists>x \<in> set xs. compar key x = 0))"
proof -
  obtain ys where ys: "qsort (concat xs) (length xs) w compar = Some (concat ys)" "elements w ys" "mset ys = mset xs"
    "sorted_wrt (\<lambda>x y. compar x y \<le> 0) ys"
    using qsort_correct_aux [OF assms(1,3-5)] by blast
  have same: "length ys = length xs" "set ys = set xs" using ys(3) elements_length mset_eq_setD by blast+
  obtain r where "bsearch key (concat ys) (length xs) w compar = Some r"
    "case r of Some p \<Rightarrow> (\<exists>i < length ys. p = i * w \<and> compar key (ys ! i) = 0)
             | None \<Rightarrow> (\<forall>x \<in> set ys. compar key x \<noteq> 0)"
    using bsearch_correct_aux [OF ys(2) assms(4), of compar key] sorted_key_sorted [OF assms(1,2) ys(4)]
      assms(5) same(1) by auto
  moreover then have "r \<noteq> None \<longleftrightarrow> (\<exists>x \<in> set ys. compar key x = 0)" by (auto split: option.splits)
  ultimately show ?thesis using ys(1) same(2) by blast
qed

theorem qsort_then_bsearch_witness:
  "\<exists>base r. qsort [3, 0, 1, 7, 2, 5] 3 2 by_first = Some base \<and> bsearch [1] base 3 2 by_first = Some r \<and> r \<noteq> None"
  using qsort_then_bsearch [OF by_first_order, of 2 "[[3, 0], [1, 7], [2, 5]]" "[1]"]
  by (auto simp: elements_def by_first_def [of "[1]"] numeral_3_eq_3)

end
