(* ===== verification/Inet.thy ===== *)
theory Inet
  imports Numeric
begin

text \<open>
  Internet and Ethernet addresses: \<open>libc/inet/addr.c\<close>, \<open>ntohl.c\<close>, \<open>ntop.c\<close> and \<open>ether_addr.c\<close>.

  Strings are lists of characters as in the theory of numerals, octets are natural numbers below
  256, and an \<open>in_addr_t\<close> is a 32-bit word in network order, so that what it means depends on the
  byte order of the host (the parameter \<open>big\<close>).
\<close>

section \<open>Byte order\<close>

definition bswap_32 :: "32 word \<Rightarrow> 32 word" where
  "bswap_32 x =
     or (or (drop_bit 24 (and x 0xff000000)) (drop_bit 8 (and x 0x00ff0000)))
        (or (push_bit 8 (and x 0x0000ff00)) (push_bit 24 (and x 0x000000ff)))"

definition bswap_16 :: "16 word \<Rightarrow> 16 word" where
  "bswap_16 x = or (and (drop_bit 8 x) 0xff) (push_bit 8 (and x 0xff))"

definition ntohl :: "bool \<Rightarrow> 32 word \<Rightarrow> 32 word" where
  "ntohl big x = (if big then x else bswap_32 x)"

definition htonl :: "bool \<Rightarrow> 32 word \<Rightarrow> 32 word" where
  "htonl big x = ntohl big x"

definition ntohs :: "bool \<Rightarrow> 16 word \<Rightarrow> 16 word" where
  "ntohs big x = (if big then x else bswap_16 x)"

definition htons :: "bool \<Rightarrow> 16 word \<Rightarrow> 16 word" where
  "htons big x = ntohs big x"

section \<open>Dotted quads and network classes\<close>

text \<open>The value of a run of digits and the rest, or \<open>None\<close> when it passes 255.\<close>

fun aton_value :: "cstring \<Rightarrow> int \<Rightarrow> (int \<times> cstring) option" where
  "aton_value [] v = Some (v, [])"
| "aton_value (c # cp) v =
     (if isdigit_c c then
        (let v1 = v * 10 + (c - 48) in if v1 > 255 then None else aton_value cp v1)
      else Some (v, c # cp))"

function aton_parts :: "nat \<Rightarrow> cstring \<Rightarrow> 32 word \<Rightarrow> 32 word option" where
  "aton_parts part cp a =
     (if part \<le> 4 then
        (if \<not> isdigit_c (cur cp) then None
         else (case aton_value cp 0 of
                 None \<Rightarrow> None
               | Some (v, cp1) \<Rightarrow>
                   (let c = cur cp1; a1 = or (push_bit 8 a) (word_of_int v)
                    in if part < 4 then (if c \<noteq> 46 then None else aton_parts (part + 1) (tl cp1) a1)
                       else (if c \<noteq> 0 \<and> \<not> isspace_c c then None else aton_parts (part + 1) (tl cp1) a1))))
      else Some a)"
  by pat_completeness auto
termination by (relation "measure (\<lambda>(part, cp, a). 5 - part)") auto

text \<open>The address in network order; \<open>None\<close> for the result 0 of \<open>inet_aton\<close>.\<close>

definition inet_aton :: "bool \<Rightarrow> cstring option \<Rightarrow> 32 word option" where
  "inet_aton big cp = (case cp of None \<Rightarrow> None | Some s \<Rightarrow> map_option (htonl big) (aton_parts 1 s 0))"

definition INADDR_NONE :: "32 word" where "INADDR_NONE = 0xffffffff"

definition inet_addr :: "bool \<Rightarrow> cstring option \<Rightarrow> 32 word" where
  "inet_addr big cp = (case inet_aton big cp of None \<Rightarrow> INADDR_NONE | Some a \<Rightarrow> a)"

definition INET_NTOA_MAX_LEN :: nat where "INET_NTOA_MAX_LEN = 16"

text \<open>\<open>_int10tostr (p, v)\<close> in the buffer: the new contents and the start of the digits. \<open>None\<close> is a
  write before the buffer.\<close>

definition int10tostr_at :: "cstring \<Rightarrow> int \<Rightarrow> nat \<Rightarrow> (cstring \<times> int) option" where
  "int10tostr_at buf p v =
     (case int10tostr v of
        None \<Rightarrow> None
      | Some s \<Rightarrow>
          (let k = p - int (length s)
           in if k < 0 then None
              else Some (take (nat k) buf @ s @ [0] @ drop (nat p + 1) buf, k)))"

fun ntoa_loop :: "nat \<Rightarrow> 32 word \<Rightarrow> cstring \<Rightarrow> int \<Rightarrow> int option \<Rightarrow> (cstring \<times> int) option" where
  "ntoa_loop 0 a buf p q = Some (buf, p)"
| "ntoa_loop (Suc n) a buf p q =
     (case int10tostr_at buf p (unat (and a 0xff)) of
        None \<Rightarrow> None
      | Some (buf1, k) \<Rightarrow>
          (let p1 = k - 1; buf2 = (case q of None \<Rightarrow> buf1 | Some i \<Rightarrow> buf1[nat i := 46])
           in ntoa_loop n (drop_bit 8 a) buf2 p1 (Some p1)))"

text \<open>The string in the buffer at the pointer that is returned.\<close>

definition inet_ntoa_r :: "bool \<Rightarrow> 32 word \<Rightarrow> cstring \<Rightarrow> cstring option" where
  "inet_ntoa_r big s_addr buf =
     (case ntoa_loop 4 (ntohl big s_addr) buf (int INET_NTOA_MAX_LEN - 1) None of
        None \<Rightarrow> None
      | Some (buf1, p) \<Rightarrow> Some (takeWhile (\<lambda>c. c \<noteq> 0) (drop (nat (p + 1)) buf1)))"

definition inet_ntoa :: "bool \<Rightarrow> 32 word \<Rightarrow> cstring option" where
  "inet_ntoa big s_addr = inet_ntoa_r big s_addr (replicate INET_NTOA_MAX_LEN 0)"

definition IN_CLASSA :: "32 word \<Rightarrow> bool" where "IN_CLASSA a \<longleftrightarrow> and a 0x80000000 = 0"
definition IN_CLASSB :: "32 word \<Rightarrow> bool" where "IN_CLASSB a \<longleftrightarrow> and a 0xc0000000 = 0x80000000"

definition inet_makeaddr :: "bool \<Rightarrow> 32 word \<Rightarrow> 32 word \<Rightarrow> 32 word" where
  "inet_makeaddr big net host =
     htonl big
       (if net < 128 then or (push_bit 24 net) (and host 0x00ffffff)
        else if net < 65536 then or (push_bit 16 net) (and host 0x0000ffff)
        else if net < 16777216 then or (push_bit 8 net) (and host 0x000000ff)
        else or net host)"

definition inet_lnaof :: "bool \<Rightarrow> 32 word \<Rightarrow> 32 word" where
  "inet_lnaof big s_addr =
     (let i = ntohl big s_addr
      in if IN_CLASSA i then and i 0x00ffffff else if IN_CLASSB i then and i 0x0000ffff else and i 0x000000ff)"

definition inet_netof :: "bool \<Rightarrow> 32 word \<Rightarrow> 32 word" where
  "inet_netof big s_addr =
     (let i = ntohl big s_addr
      in if IN_CLASSA i then drop_bit 24 (and i 0xff000000)
         else if IN_CLASSB i then drop_bit 16 (and i 0xffff0000) else drop_bit 8 (and i 0xffffff00))"

section \<open>Presentation format\<close>

definition ENOSPC :: nat where "ENOSPC = 28"
definition EAFNOSUPPORT :: nat where "EAFNOSUPPORT = 97"

text \<open>The digits of one octet, with leading zeros dropped.\<close>

definition ntop4_octet :: "nat \<Rightarrow> cstring" where
  "ntop4_octet n =
     (let h = 48 + int (n div 100); t = 48 + int (n div 10 mod 10)
      in (if h = 48 then (if t = 48 then [] else [t]) else [h, t]) @ [48 + int (n mod 10)])"

fun ntop4_loop :: "nat list \<Rightarrow> cstring" where
  "ntop4_loop [] = []"
| "ntop4_loop (n # src) = ntop4_octet n @ [46] @ ntop4_loop src"

text \<open>The string that is copied to \<open>dst\<close> with its terminator, or the error number.\<close>

definition inet_ntop4 :: "nat list \<Rightarrow> nat \<Rightarrow> nat + cstring" where
  "inet_ntop4 src sz =
     (let tmp = butlast (ntop4_loop (take 4 src))
      in if length tmp > sz then Inl ENOSPC else Inr tmp)"

text \<open>A run of zero words; \<open>base = -1\<close> when there is none.\<close>

record run =
  base :: int
  len :: nat

fun zero_runs :: "nat list \<Rightarrow> int \<Rightarrow> run \<Rightarrow> run \<Rightarrow> run \<times> run" where
  "zero_runs [] i best cur_run = (best, cur_run)"
| "zero_runs (w # words) i best cur_run =
     (if w = 0 then
        zero_runs words (i + 1) best
          (if base cur_run = - 1 then \<lparr>base = i, len = 1\<rparr> else cur_run\<lparr>len := len cur_run + 1\<rparr>)
      else if base cur_run \<noteq> - 1 then
        zero_runs words (i + 1) (if base best = - 1 \<or> len cur_run > len best then cur_run else best)
          (cur_run\<lparr>base := - 1\<rparr>)
      else zero_runs words (i + 1) best cur_run)"

definition best_run :: "nat list \<Rightarrow> run" where
  "best_run words =
     (let (best, cur_run) = zero_runs words 0 \<lparr>base = - 1, len = 0\<rparr> \<lparr>base = - 1, len = 0\<rparr>;
          best1 = (if base cur_run \<noteq> - 1 \<and> (base best = - 1 \<or> len cur_run > len best) then cur_run else best)
      in if base best1 \<noteq> - 1 \<and> len best1 < 2 then best1\<lparr>base := - 1\<rparr> else best1)"

definition hex_str :: "nat \<Rightarrow> cstring" where
  "hex_str n = uim_loop 16 UIM_LOWER n []"

definition v4_embedded :: "run \<Rightarrow> nat list \<Rightarrow> bool" where
  "v4_embedded best words \<longleftrightarrow> base best = 0 \<and> (len best = 6 \<or> len best = 5 \<and> words ! 5 = 0xffff)"

definition in_run :: "run \<Rightarrow> nat \<Rightarrow> bool" where
  "in_run best i \<longleftrightarrow> base best \<noteq> - 1 \<and> int i \<ge> base best \<and> int i < base best + int (len best)"

text \<open>The formatting loop from word \<open>i\<close> on, with \<open>tmp\<close> as written so far. \<open>n\<close> is the number of words
  left. The buffer has 46 bytes.\<close>

fun ntop6_loop :: "nat \<Rightarrow> nat \<Rightarrow> nat list \<Rightarrow> nat list \<Rightarrow> run \<Rightarrow> cstring \<Rightarrow> nat + cstring" where
  "ntop6_loop 0 i src words best tmp = Inr tmp"
| "ntop6_loop (Suc n) i src words best tmp =
     (if in_run best i then
        ntop6_loop n (i + 1) src words best (tmp @ (if int i = base best then [58] else []))
      else
        (let tmp1 = tmp @ (if i \<noteq> 0 then [58] else [])
         in if i = 6 \<and> v4_embedded best words then
              (case inet_ntop4 (drop 12 src) (46 - length tmp1) of
                 Inl e \<Rightarrow> Inl e
               | Inr s \<Rightarrow> Inr (tmp1 @ s))
            else ntop6_loop n (i + 1) src words best (tmp1 @ hex_str (words ! i))))"

definition src_words :: "nat list \<Rightarrow> nat list" where
  "src_words src = map (\<lambda>i. or (push_bit 8 (src ! (2 * i))) (src ! (2 * i + 1))) [0..<8]"

definition inet_ntop6 :: "nat list \<Rightarrow> nat \<Rightarrow> nat + cstring" where
  "inet_ntop6 src sz =
     (let words = src_words src; best = best_run words
      in case ntop6_loop 8 0 src words best [] of
           Inl e \<Rightarrow> Inl e
         | Inr tmp \<Rightarrow>
             (let tmp1 = tmp @ (if base best \<noteq> - 1 \<and> base best + int (len best) = 8 then [58] else [])
              in if length tmp1 + 1 > sz then Inl ENOSPC else Inr tmp1))"

text \<open>The loop of \<open>inet_pton4\<close>: \<open>tmp\<close> with the index \<open>tp\<close>, \<open>saw_digit\<close> and \<open>octets\<close>.\<close>

fun pton4_loop :: "cstring \<Rightarrow> nat list \<Rightarrow> nat \<Rightarrow> bool \<Rightarrow> nat \<Rightarrow> (nat list \<times> nat) option" where
  "pton4_loop [] tmp tp saw_digit octets = Some (tmp, octets)"
| "pton4_loop (ch # src) tmp tp saw_digit octets =
     (if ch \<ge> 48 \<and> ch \<le> 57 then
        (let new = tmp ! tp * 10 + nat (ch - 48)
         in if new > 255 then None
            else if \<not> saw_digit then
              (if octets + 1 > 4 then None else pton4_loop src (tmp[tp := new]) tp True (octets + 1))
            else pton4_loop src (tmp[tp := new]) tp saw_digit octets)
      else if ch = 46 \<and> saw_digit then
        (if octets = 4 then None else pton4_loop src (tmp[tp + 1 := 0]) (tp + 1) False octets)
      else None)"

text \<open>The uninitialised octets of \<open>tmp\<close> are an argument.\<close>

definition inet_pton4 :: "nat list \<Rightarrow> cstring \<Rightarrow> nat list option" where
  "inet_pton4 tmp src =
     (case pton4_loop src (tmp[0 := 0]) 0 False 0 of
        None \<Rightarrow> None
      | Some (tmp1, octets) \<Rightarrow> if octets < 4 then None else Some tmp1)"

definition xdigits :: cstring where
  "xdigits = [48, 49, 50, 51, 52, 53, 54, 55, 56, 57, 97, 98, 99, 100, 101, 102]"

fun strchr_index :: "cstring \<Rightarrow> int \<Rightarrow> nat option" where
  "strchr_index [] c = None"
| "strchr_index (x # s) c = (if x = c then Some 0 else map_option Suc (strchr_index s c))"

text \<open>The loop of \<open>inet_pton6\<close>. The result holds \<open>tmp\<close>, \<open>tp\<close>, \<open>colonp\<close>, \<open>saw_xdigit\<close> and \<open>val\<close>. A character
  0 ends the string.\<close>

fun pton6_loop :: "nat list \<Rightarrow> cstring \<Rightarrow> cstring \<Rightarrow> nat list \<Rightarrow> nat \<Rightarrow> nat option \<Rightarrow> bool \<Rightarrow> nat
    \<Rightarrow> (nat list \<times> nat \<times> nat option \<times> bool \<times> nat) option" where
  "pton6_loop junk [] curtok tmp tp colonp saw_xdigit val = Some (tmp, tp, colonp, saw_xdigit, val)"
| "pton6_loop junk (ch # src) curtok tmp tp colonp saw_xdigit val =
     (case strchr_index xdigits (or ch 0x20) of
        Some d \<Rightarrow>
          (let val1 = or (push_bit 4 val) d
           in if val1 > 0xffff then None else pton6_loop junk src curtok tmp tp colonp True val1)
      | None \<Rightarrow>
          if ch = 58 then
            (if \<not> saw_xdigit then
               (if colonp \<noteq> None then None else pton6_loop junk src src tmp tp (Some tp) saw_xdigit val)
             else if src = [] then None
             else if tp + 2 > 16 then None
             else pton6_loop junk src src (tmp[tp := drop_bit 8 val mod 256, tp + 1 := val mod 256]) (tp + 2)
                    colonp False 0)
          else if ch = 46 \<and> tp + 4 \<le> 16 then
            (case inet_pton4 junk curtok of
               None \<Rightarrow> None
             | Some v4 \<Rightarrow> Some (take tp tmp @ v4 @ drop (tp + 4) tmp, tp + 4, colonp, False, val))
          else None)"

text \<open>The loop that moves the octets after the double colon to the end.\<close>

fun pton6_shift :: "nat \<Rightarrow> nat \<Rightarrow> nat \<Rightarrow> nat list \<Rightarrow> nat list" where
  "pton6_shift colonp n 0 tmp = tmp"
| "pton6_shift colonp n (Suc k) tmp =
     (let i = n - k
      in pton6_shift colonp n k (tmp[16 - i := tmp ! (colonp + (n - i)), colonp + (n - i) := 0]))"

definition pton6_finish :: "nat list \<times> nat \<times> nat option \<times> bool \<times> nat \<Rightarrow> nat list option" where
  "pton6_finish r =
     (let (tmp, tp, colonp, saw_xdigit, val) = r
      in if saw_xdigit \<and> tp + 2 > 16 then None
         else
           (let (tmp1, tp1) = (if saw_xdigit then (tmp[tp := drop_bit 8 val mod 256, tp + 1 := val mod 256], tp + 2)
                               else (tmp, tp))
            in case colonp of
                 Some c \<Rightarrow>
                   if tp1 = 16 then None else Some (pton6_shift c (tp1 - c) (tp1 - c) tmp1)
               | None \<Rightarrow> if tp1 \<noteq> 16 then None else Some tmp1))"

definition inet_pton6 :: "nat list \<Rightarrow> cstring \<Rightarrow> nat list option" where
  "inet_pton6 junk src =
     (let run = (\<lambda>s. case pton6_loop junk s s (replicate 16 0) 0 None False 0 of
                       None \<Rightarrow> None | Some r \<Rightarrow> pton6_finish r)
      in if cur src = 58 then (if cur (tl src) \<noteq> 58 then None else run (tl src)) else run src)"

definition AF_INET :: nat where "AF_INET = 2"
definition AF_INET6 :: nat where "AF_INET6 = 10"

definition inet_ntop :: "nat \<Rightarrow> nat list \<Rightarrow> nat \<Rightarrow> nat + cstring" where
  "inet_ntop af src sz =
     (if af = AF_INET then inet_ntop4 src sz
      else if af = AF_INET6 then inet_ntop6 src sz else Inl EAFNOSUPPORT)"

text \<open>\<open>Inl\<close> for the result -1, \<open>Inr None\<close> for 0, and the address for 1.\<close>

definition inet_pton :: "nat list \<Rightarrow> nat \<Rightarrow> cstring \<Rightarrow> nat + nat list option" where
  "inet_pton junk af src =
     (if af = AF_INET then Inr (inet_pton4 junk src)
      else if af = AF_INET6 then Inr (inet_pton6 junk src) else Inl EAFNOSUPPORT)"

section \<open>Ethernet addresses\<close>

definition xdigit_c :: "int \<Rightarrow> bool" where
  "xdigit_c ch \<longleftrightarrow> \<not> ((ch < 48 \<or> ch > 57) \<and> (ch < 97 \<or> ch > 102))"

definition xvalue :: "int \<Rightarrow> nat" where
  "xvalue ch = (if \<not> ch > 57 then nat (ch - 48) else nat (ch - 97 + 10))"

text \<open>The octets stored, or \<open>None\<close> for a null pointer.\<close>

fun ether_aton_loop :: "nat \<Rightarrow> nat \<Rightarrow> cstring \<Rightarrow> nat list option" where
  "ether_aton_loop 0 cnt asc = Some []"
| "ether_aton_loop (Suc n) cnt asc =
     (if cur asc < 0x20 then None
      else
        (let ch = or (cur asc) 0x20
         in if \<not> xdigit_c ch then None
            else
              (let number = xvalue ch; ch2 = cur (tl asc); asc2 = tl (tl asc)
               in if cnt \<noteq> 5 \<and> ch2 \<noteq> 58 \<or> cnt = 5 \<and> ch2 \<noteq> 0 then
                    (let ch3 = or ch2 0x20
                     in if \<not> xdigit_c ch3 then None
                        else
                          (let number2 = (push_bit 4 number + xvalue ch3) mod 256
                           in if cnt \<noteq> 5 then
                                (if cur asc2 \<noteq> 58 then None
                                 else map_option ((#) number2) (ether_aton_loop n (cnt + 1) (tl asc2)))
                              else map_option ((#) number2) (ether_aton_loop n (cnt + 1) asc2)))
                  else map_option ((#) number) (ether_aton_loop n (cnt + 1) asc2))))"

definition ether_aton_r :: "cstring \<Rightarrow> nat list option" where
  "ether_aton_r asc = ether_aton_loop 6 0 asc"

definition ether_ntoa_r :: "nat list \<Rightarrow> cstring" where
  "ether_ntoa_r octets =
     hex_str (octets ! 0) @ [58] @ hex_str (octets ! 1) @ [58] @ hex_str (octets ! 2) @ [58] @
     hex_str (octets ! 3) @ [58] @ hex_str (octets ! 4) @ [58] @ hex_str (octets ! 5)"

lemma bits32: "P 0 \<Longrightarrow> P 1 \<Longrightarrow> P 2 \<Longrightarrow> P 3 \<Longrightarrow> P 4 \<Longrightarrow> P 5 \<Longrightarrow> P 6 \<Longrightarrow> P 7 \<Longrightarrow>
  P 8 \<Longrightarrow> P 9 \<Longrightarrow> P 10 \<Longrightarrow> P 11 \<Longrightarrow> P 12 \<Longrightarrow> P 13 \<Longrightarrow> P 14 \<Longrightarrow> P 15 \<Longrightarrow>
  P 16 \<Longrightarrow> P 17 \<Longrightarrow> P 18 \<Longrightarrow> P 19 \<Longrightarrow> P 20 \<Longrightarrow> P 21 \<Longrightarrow> P 22 \<Longrightarrow> P 23 \<Longrightarrow>
  P 24 \<Longrightarrow> P 25 \<Longrightarrow> P 26 \<Longrightarrow> P 27 \<Longrightarrow> P 28 \<Longrightarrow> P 29 \<Longrightarrow> P 30 \<Longrightarrow> P 31 \<Longrightarrow> n < 32 \<Longrightarrow> P (n :: nat)"
  by (simp add: numeral_eq_Suc less_Suc_eq) auto

lemma bswap_bit: "n < 32 \<Longrightarrow> bit (bswap_32 x) n \<longleftrightarrow> bit x (24 - n div 8 * 8 + n mod 8)"
  unfolding bswap_32_def by (erule bits32 [rotated 32]) (simp_all add: bit_simps, simp_all add: eval_nat_numeral)


definition bswap_pos :: "nat \<Rightarrow> nat" where
  "bswap_pos n = 24 - n div 8 * 8 + n mod 8"

lemma bswap_pos: "n < 32 \<Longrightarrow> bswap_pos n < 32 \<and> bswap_pos (bswap_pos n) = n"
  unfolding bswap_pos_def by (erule bits32 [rotated 32]) simp_all

lemma bswap_bswap [simp]: "bswap_32 (bswap_32 x) = x"
proof (rule bit_word_eqI)
  fix n assume "n < LENGTH(32)"
  then have "n < 32" by simp
  then show "bit (bswap_32 (bswap_32 x)) n \<longleftrightarrow> bit x n"
    using bswap_pos [of n] bswap_bit [of n "bswap_32 x"] bswap_bit [of "bswap_pos n" x]
    by (simp flip: bswap_pos_def)
qed

lemma ntohl_htonl [simp]: "ntohl big (htonl big x) = x" "htonl big (ntohl big x) = x"
  by (simp_all add: ntohl_def htonl_def)

section \<open>Dotted quads\<close>

text \<open>The decimal numeral of an octet.\<close>

definition dec :: "nat \<Rightarrow> cstring" where
  "dec n = uim_loop 10 UIM_DECIMAL n []"

lemma octet_cases:
  assumes "n < 256" "list_all P [0..<256]"
  shows "P (n::nat)"
  using assms by (simp add: list_all_iff)

lemma dec_octet: "n < 256 \<Longrightarrow> dec n = ntop4_octet n"
  by (erule octet_cases) code_simp

lemma int10tostr_octet: "n < 256 \<Longrightarrow> int10tostr n = Some (dec n)"
  using uintmaxtostr_signed [of 10 "int n" UIM_DECIMAL] by (simp add: int10tostr_def dec_def)

lemma dec_length: "n < 256 \<Longrightarrow> length (dec n) \<le> 3"
  by (simp add: dec_octet ntop4_octet_def Let_def)

lemma dec_digits:
  assumes "n < 256"
  shows "\<forall>c \<in> set (dec n). isdigit_c c" "dec n \<noteq> []"
  using assms by (auto simp: dec_octet ntop4_octet_def Let_def isdigit_c_def)

lemma aton_value_append: "aton_value ds v = Some (u, []) \<Longrightarrow> aton_value (ds @ rest) v = aton_value rest u"
  by (induction ds v rule: aton_value.induct) (auto simp: Let_def split: if_splits)

lemma aton_value_dec:
  assumes "n < 256" "\<not> isdigit_c (cur rest)"
  shows "aton_value (dec n @ rest) 0 = Some (int n, rest)"
proof -
  have v: "aton_value (dec n) 0 = Some (int n, [])" using assms(1) by (rule octet_cases) code_simp
  show ?thesis using assms(2) v aton_value_append [OF v, of rest] by (cases rest) (auto simp: cur_def)
qed

text \<open>The dotted quad of four octets, most significant first.\<close>

fun dotted :: "nat list \<Rightarrow> cstring" where
  "dotted [] = []"
| "dotted [n] = dec n"
| "dotted (n # ns) = dec n @ 46 # dotted ns"

definition octets_word :: "nat list \<Rightarrow> 32 word" where
  "octets_word ns = foldl (\<lambda>a n. or (push_bit 8 a) (of_nat n)) 0 ns"

declare aton_parts.simps [simp del]

lemma aton_parts_dotted:
  assumes "cur rest = 0 \<or> isspace_c (cur rest)"
  shows "\<lbrakk>ns \<noteq> []; \<forall>n \<in> set ns. n < 256; part + length ns = 5; 1 \<le> part\<rbrakk> \<Longrightarrow>
    aton_parts part (dotted ns @ rest) a = Some (foldl (\<lambda>a n. or (push_bit 8 a) (of_nat n)) a ns)"
proof (induction ns arbitrary: part a rule: dotted.induct)
  case (2 n)
  have "\<not> isdigit_c (cur rest)" using assms by (auto simp: isdigit_c_def isspace_c_def)
  moreover have "isdigit_c (cur (dec n @ rest))" using dec_digits [of n] 2 by (cases "dec n") (auto simp: cur_def)
  ultimately show ?case using 2 aton_value_dec [of n rest] assms
    by (subst aton_parts.simps) (auto simp: Let_def aton_parts.simps [of 5])
next
  case (3 n m ns)
  let ?r = "46 # dotted (m # ns) @ rest"
  have "\<not> isdigit_c (cur ?r)" by (simp add: isdigit_c_def cur_def)
  moreover have "isdigit_c (cur (dec n @ ?r))" using dec_digits [of n] 3 by (cases "dec n") (auto simp: cur_def)
  ultimately show ?case using 3 aton_value_dec [of n ?r]
    by (subst aton_parts.simps) (auto simp: Let_def cur_def [of ?r])
qed simp

fun octs :: "nat \<Rightarrow> 32 word \<Rightarrow> nat list" where
  "octs 0 a = []"
| "octs (Suc n) a = octs n (drop_bit 8 a) @ [unat (and a 0xff)]"

lemma octs_bound: "\<forall>m \<in> set (octs n a). m < 256"
proof (induction n arbitrary: a)
  case (Suc n)
  have "unat (and a 0xff) < 256"
    using word_and_le1 [of a "0xff"] by (simp add: word_le_nat_alt)
  then show ?case using Suc by simp
qed simp

lemma octs_length [simp]: "length (octs n a) = n"
  by (induction n arbitrary: a) auto

definition with_dots :: "nat list \<Rightarrow> cstring" where
  "with_dots ns = concat (map (\<lambda>m. dec m @ [46]) ns)"

lemma with_dots_dotted: "dotted (ns @ [m]) = with_dots ns @ dec m"
  by (induction ns rule: dotted.induct) (auto simp: with_dots_def)

lemma with_dots_length: "\<forall>m \<in> set ns. m < 256 \<Longrightarrow> length (with_dots ns) \<le> 4 * length ns"
  using dec_length by (induction ns) (auto simp: with_dots_def, fastforce)

lemma int10tostr_at_octet:
  assumes "m < 256" "length (dec m) \<le> length V"
  shows "int10tostr_at (V @ y # T) (int (length V)) m =
    Some (take (length V - length (dec m)) V @ dec m @ 0 # T, int (length V - length (dec m)))"
  using assms by (simp add: int10tostr_at_def int10tostr_octet Let_def nat_diff_distrib)

lemma ntoa_loop_dots:
  "length (with_dots (octs n a)) \<le> length V \<Longrightarrow>
    ntoa_loop n a (V @ T) (int (length V) - 1) (Some (int (length V) - 1)) =
      Some (take (length V - length (with_dots (octs n a))) V @ with_dots (octs n a) @ T,
            int (length V - length (with_dots (octs n a))) - 1)"
proof (induction n arbitrary: a V T)
  case (Suc n)
  define m where "m = unat (and a 0xff)"
  have m: "m < 256" using octs_bound [of "Suc n" a] by (simp add: m_def)
  have len: "length (with_dots (octs n (drop_bit 8 a))) + length (dec m) + 1 \<le> length V"
    using Suc.prems by (simp add: with_dots_def m_def)
  then obtain U y where V: "V = U @ [y]" by (cases V rule: rev_cases) auto
  define W where "W = take (length U - length (dec m)) U"
  have W: "length W = length U - length (dec m)" by (simp add: W_def)
  have "int10tostr_at (V @ T) (int (length V) - 1) m = Some (W @ dec m @ 0 # T, int (length W))"
    using int10tostr_at_octet [OF m, of U y T] len by (simp add: V W W_def)
  moreover have "(W @ dec m @ 0 # T)[length U := 46] = W @ dec m @ 46 # T"
    using W len V by (simp add: list_update_append)
  ultimately have "ntoa_loop (Suc n) a (V @ T) (int (length V) - 1) (Some (int (length V) - 1)) =
      ntoa_loop n (drop_bit 8 a) (W @ dec m @ 46 # T) (int (length W) - 1) (Some (int (length W) - 1))"
    by (simp add: m_def Let_def V)
  also have "\<dots> = Some (take (length W - length (with_dots (octs n (drop_bit 8 a)))) W
      @ with_dots (octs n (drop_bit 8 a)) @ dec m @ 46 # T,
      int (length W - length (with_dots (octs n (drop_bit 8 a)))) - 1)"
    using Suc.IH [of "drop_bit 8 a" W "dec m @ 46 # T"] len W V by simp
  finally have r: "ntoa_loop (Suc n) a (V @ T) (int (length V) - 1) (Some (int (length V) - 1)) = \<dots>" .
  have d: "with_dots (octs (Suc n) a) = with_dots (octs n (drop_bit 8 a)) @ dec m @ [46]"
    by (simp add: with_dots_def m_def)
  have "length W - length (with_dots (octs n (drop_bit 8 a))) = length V - length (with_dots (octs (Suc n) a))"
    using V W arg_cong [OF d, of length] by simp
  moreover have "take k W = take k V" if "k \<le> length W" for k using that by (simp add: W_def V)
  ultimately show ?case unfolding r d by simp
qed (simp add: with_dots_def)

lemma dotted_nonzero: "\<forall>m \<in> set ns. m < 256 \<Longrightarrow> 0 \<notin> set (dotted ns)"
proof (induction ns rule: dotted.induct)
  case (2 m)
  then show ?case using dec_digits(1) [of m] by (auto simp: isdigit_c_def)
next
  case (3 m k ns)
  then show ?case using dec_digits(1) [of m] by (auto simp: isdigit_c_def)
qed simp

lemma inet_ntoa_r_dotted:
  assumes "length buf = 16"
  shows "inet_ntoa_r big s_addr buf = Some (dotted (octs 4 (ntohl big s_addr)))"
proof -
  define a where "a = ntohl big s_addr"
  define m where "m = unat (and a 0xff)"
  define ns where "ns = octs 3 (drop_bit 8 a)"
  have o4: "octs 4 a = ns @ [m]" by (simp add: ns_def m_def numeral_eq_Suc)
  have b: "m < 256" "\<forall>k \<in> set ns. k < 256" using octs_bound [of 4 a] by (simp_all add: o4)
  have len: "length (dec m) \<le> 3" "length (with_dots ns) \<le> 12"
    using dec_length [OF b(1)] with_dots_length [OF b(2)] by (simp_all add: ns_def)
  obtain U y where buf: "buf = U @ [y]" "length U = 15" using assms by (cases buf rule: rev_cases) auto
  define V where "V = take (15 - length (dec m)) U"
  have V: "length V = 15 - length (dec m)" using buf by (simp add: V_def)
  have "int10tostr_at buf 15 m = Some (V @ dec m @ [0], int (length V))"
    using int10tostr_at_octet [OF b(1), of U y "[]"] len buf V by (simp add: V_def)
  then have "ntoa_loop 4 a buf 15 None = ntoa_loop 3 (drop_bit 8 a) (V @ dec m @ [0]) (int (length V) - 1) (Some (int (length V) - 1))"
    by (simp add: m_def Let_def numeral_eq_Suc)
  also have "\<dots> = Some (take (length V - length (with_dots ns)) V @ with_dots ns @ dec m @ [0],
      int (length V - length (with_dots ns)) - 1)"
    using ntoa_loop_dots [of 3 "drop_bit 8 a" V "dec m @ [0]"] V len by (simp add: ns_def)
  finally have loop: "ntoa_loop 4 a buf 15 None = \<dots>" .
  have "takeWhile (\<lambda>c. c \<noteq> 0) (dotted (ns @ [m]) @ [0]) = dotted (ns @ [m])"
    using dotted_nonzero [of "ns @ [m]"] b by (subst takeWhile_append2) auto
  then show ?thesis using loop V
    by (simp add: inet_ntoa_r_def INET_NTOA_MAX_LEN_def o4 with_dots_dotted flip: a_def)
qed

lemma octets_word_octs: "octets_word (octs 4 a) = a"
proof -
  have "octs (Suc (Suc (Suc (Suc 0)))) a =
      [unat (and (drop_bit 24 a) 0xff), unat (and (drop_bit 16 a) 0xff), unat (and (drop_bit 8 a) 0xff), unat (and a 0xff)]"
    by simp
  moreover have "4 = Suc (Suc (Suc (Suc 0)))" by simp
  ultimately have "octs 4 a = [unat (and (drop_bit 24 a) 0xff), unat (and (drop_bit 16 a) 0xff), unat (and (drop_bit 8 a) 0xff), unat (and a 0xff)]"
    by (simp only:)
  then have "octets_word (octs 4 a) = or (push_bit 8 (or (push_bit 8 (or (push_bit 8 (and (drop_bit 24 a) 0xff))
      (and (drop_bit 16 a) 0xff))) (and (drop_bit 8 a) 0xff))) (and a 0xff)"
    by (simp add: octets_word_def)
  also have "\<dots> = a"
  proof (rule bit_word_eqI)
    fix n assume "n < LENGTH(32)"
    then have "n < 32" by simp
    then show "bit (or (push_bit 8 (or (push_bit 8 (or (push_bit 8 (and (drop_bit 24 a) 0xff))
      (and (drop_bit 16 a) 0xff))) (and (drop_bit 8 a) 0xff))) (and a 0xff)) n \<longleftrightarrow> bit a n"
      by (rule bits32 [rotated 32]) (simp_all add: bit_simps)
  qed
  finally show ?thesis .
qed


section \<open>Network classes\<close>

lemma word_split:
  "or (push_bit 24 (drop_bit 24 (and i 0xff000000))) (and i 0x00ffffff) = (i :: 32 word)"
  "or (push_bit 16 (drop_bit 16 (and i 0xffff0000))) (and i 0x0000ffff) = i"
  "or (push_bit 8 (drop_bit 8 (and i 0xffffff00))) (and i 0x000000ff) = i"
proof -
  have "n < 32 \<Longrightarrow> bit (or (push_bit 24 (drop_bit 24 (and i 0xff000000))) (and i 0x00ffffff)) n \<longleftrightarrow> bit i n" for n
    by (erule bits32 [rotated 32]) (simp_all add: bit_simps)
  then show "or (push_bit 24 (drop_bit 24 (and i 0xff000000))) (and i 0x00ffffff) = i" by (intro bit_word_eqI) simp
  have "n < 32 \<Longrightarrow> bit (or (push_bit 16 (drop_bit 16 (and i 0xffff0000))) (and i 0x0000ffff)) n \<longleftrightarrow> bit i n" for n
    by (erule bits32 [rotated 32]) (simp_all add: bit_simps)
  then show "or (push_bit 16 (drop_bit 16 (and i 0xffff0000))) (and i 0x0000ffff) = i" by (intro bit_word_eqI) simp
  have "n < 32 \<Longrightarrow> bit (or (push_bit 8 (drop_bit 8 (and i 0xffffff00))) (and i 0x000000ff)) n \<longleftrightarrow> bit i n" for n
    by (erule bits32 [rotated 32]) (simp_all add: bit_simps)
  then show "or (push_bit 8 (drop_bit 8 (and i 0xffffff00))) (and i 0x000000ff) = i" by (intro bit_word_eqI) simp
qed

lemma high_part:
  "drop_bit 24 (and i 0xff000000) = drop_bit 24 (i :: 32 word)"
  "drop_bit 16 (and i 0xffff0000) = drop_bit 16 i"
  "drop_bit 8 (and i 0xffffff00) = drop_bit 8 i"
proof -
  have "n < 32 \<Longrightarrow> bit (drop_bit 24 (and i 0xff000000)) n \<longleftrightarrow> bit (drop_bit 24 i) n" for n
    by (erule bits32 [rotated 32]) (simp_all add: bit_simps, auto dest: bit_imp_le_length)
  then show "drop_bit 24 (and i 0xff000000) = drop_bit 24 i" by (intro bit_word_eqI) simp
  have "n < 32 \<Longrightarrow> bit (drop_bit 16 (and i 0xffff0000)) n \<longleftrightarrow> bit (drop_bit 16 i) n" for n
    by (erule bits32 [rotated 32]) (simp_all add: bit_simps, auto dest: bit_imp_le_length)
  then show "drop_bit 16 (and i 0xffff0000) = drop_bit 16 i" by (intro bit_word_eqI) simp
  have "n < 32 \<Longrightarrow> bit (drop_bit 8 (and i 0xffffff00)) n \<longleftrightarrow> bit (drop_bit 8 i) n" for n
    by (erule bits32 [rotated 32]) (simp_all add: bit_simps, auto dest: bit_imp_le_length)
  then show "drop_bit 8 (and i 0xffffff00) = drop_bit 8 i" by (intro bit_word_eqI) simp
qed

lemma class_a: "IN_CLASSA i \<longleftrightarrow> unat i < 2 ^ 31"
proof -
  have "IN_CLASSA i \<longleftrightarrow> \<not> bit i 31"
    using and_exp_eq_0_iff_not_bit [of i 31] by (simp add: IN_CLASSA_def)
  also have "bit i 31 \<longleftrightarrow> odd (unat i div 2 ^ 31)"
    using bit_iff_odd [of "unat i" 31] by (simp add: bit_unsigned_iff)
  also have "unat i < 2 ^ 32" using unsigned_less [of i] by simp
  then have "unat i div 2 ^ 31 = 0 \<or> unat i div 2 ^ 31 = 1" by auto
  then have "odd (unat i div 2 ^ 31) \<longleftrightarrow> \<not> unat i < 2 ^ 31" by auto
  finally show ?thesis by simp
qed

lemma net_bounds:
  "IN_CLASSA i \<Longrightarrow> drop_bit 24 i < (128 :: 32 word)"
  "\<not> IN_CLASSA i \<Longrightarrow> \<not> drop_bit 16 i < (128 :: 32 word)"
  "drop_bit 16 i < (65536 :: 32 word)"
  "\<not> IN_CLASSA i \<Longrightarrow> \<not> drop_bit 8 i < (65536 :: 32 word)" "\<not> IN_CLASSA i \<Longrightarrow> \<not> drop_bit 8 i < (128 :: 32 word)"
  "drop_bit 8 i < (16777216 :: 32 word)"
proof -
  have "unat i < 2 ^ 32" using unsigned_less [of i] by simp
  then show "IN_CLASSA i \<Longrightarrow> drop_bit 24 i < (128 :: 32 word)"
  "\<not> IN_CLASSA i \<Longrightarrow> \<not> drop_bit 16 i < (128 :: 32 word)"
  "drop_bit 16 i < (65536 :: 32 word)"
  "\<not> IN_CLASSA i \<Longrightarrow> \<not> drop_bit 8 i < (65536 :: 32 word)" "\<not> IN_CLASSA i \<Longrightarrow> \<not> drop_bit 8 i < (128 :: 32 word)"
  "drop_bit 8 i < (16777216 :: 32 word)"
    by (auto simp: class_a word_less_nat_alt unat_drop_bit_eq drop_bit_eq_div [where 'a = nat])
qed

lemma makeaddr_split: "inet_makeaddr big (inet_netof big a) (inet_lnaof big a) = a"
proof -
  define i where "i = ntohl big a"
  have "and (and i m) m = and i m" for m by (simp add: and.assoc)
  then have "inet_makeaddr big (inet_netof big a) (inet_lnaof big a) = htonl big i"
    using word_split [of i] net_bounds [of i]
    unfolding inet_makeaddr_def inet_netof_def inet_lnaof_def Let_def high_part i_def [symmetric]
    by simp
  then show ?thesis by (simp add: i_def)
qed

end
