(* ===== verification/Inet_Text.thy ===== *)
theory Inet_Text
  imports Inet
begin

text \<open>
  Proofs about the text forms of addresses: the printers and parsers of \<open>libc/inet/ntop.c\<close> and
  \<open>ether_addr.c\<close> are inverse to each other, and where they deviate from what they should do.
\<close>

section \<open>Presentation format of IPv4 addresses\<close>

lemma pton4_digits:
  "\<lbrakk>aton_value ds (int (tmp ! tp)) = Some (int u, []); tp < length tmp\<rbrakk> \<Longrightarrow>
    pton4_loop (ds @ rest) tmp tp True octets = pton4_loop rest (tmp[tp := u]) tp True octets"
proof (induction ds arbitrary: tmp)
  case (Cons c ds)
  have c: "isdigit_c c" using Cons.prems(1) by (auto split: if_splits)
  define v where "v = tmp ! tp * 10 + nat (c - 48)"
  have v: "int v = int (tmp ! tp) * 10 + (c - 48)" using c by (simp add: v_def isdigit_c_def)
  have le: "\<not> 255 < int v" using Cons.prems(1) c unfolding v by (auto simp: Let_def split: if_splits)
  then have "aton_value ds (int v) = Some (int u, [])" using Cons.prems(1) c by (simp add: Let_def flip: v)
  moreover have "(tmp[tp := v]) ! tp = v" using Cons.prems(2) by simp
  ultimately have "pton4_loop (ds @ rest) (tmp[tp := v]) tp True octets
      = pton4_loop rest (tmp[tp := v, tp := u]) tp True octets"
    using Cons.IH [of "tmp[tp := v]"] Cons.prems(2) by simp
  then show ?case using c le Cons.prems(2) by (simp add: isdigit_c_def Let_def flip: v_def)
qed (use list_update_id in fastforce)

lemma pton4_octet:
  assumes "n < 256" "tp < length tmp" "tmp ! tp = 0" "octets < 4"
  shows "pton4_loop (dec n @ rest) tmp tp False octets = pton4_loop rest (tmp[tp := n]) tp True (octets + 1)"
proof -
  have v: "aton_value (dec n) 0 = Some (int n, [])" using aton_value_dec [OF assms(1), of "[]"] by (simp add: cur_def isdigit_c_def)
  obtain c ds where d: "dec n = c # ds" using dec_digits(2) [OF assms(1)] by (cases "dec n") auto
  have c: "isdigit_c c" using dec_digits(1) [OF assms(1)] d by simp
  have "pton4_loop (dec n @ rest) tmp tp True (octets + 1) = pton4_loop rest (tmp[tp := n]) tp True (octets + 1)"
    using pton4_digits [of "dec n" tmp tp n rest] v assms(2,3) by simp
  moreover have "pton4_loop (dec n @ rest) tmp tp False octets = pton4_loop (dec n @ rest) tmp tp True (octets + 1)"
    using c assms(4) unfolding d by (simp add: isdigit_c_def Let_def)
  ultimately show ?thesis by simp
qed

definition quad :: "nat list \<Rightarrow> bool" where
  "quad src \<longleftrightarrow> length src = 4 \<and> (\<forall>n \<in> set src. n < 256)"

lemma quad_cases:
  assumes "quad src"
  obtains a b c d where "src = [a, b, c, d]" "a < 256" "b < 256" "c < 256" "d < 256"
proof -
  have "length src = Suc (Suc (Suc (Suc 0)))" using assms by (simp add: quad_def)
  then obtain a b c d where "src = [a, b, c, d]" by (auto simp: length_Suc_conv)
  then show ?thesis using that assms by (auto simp: quad_def)
qed

lemma pton4_dot:
  "octets \<noteq> 4 \<Longrightarrow> pton4_loop (46 # src) tmp tp True octets = pton4_loop src (tmp[tp + 1 := 0]) (tp + 1) False octets"
  by simp

lemma pton4_dotted:
  assumes "quad src" "length junk = 4"
  shows "inet_pton4 junk (dotted src) = Some src"
proof -
  obtain a b c d where s: "src = [a, b, c, d]" "a < 256" "b < 256" "c < 256" "d < 256"
    using quad_cases [OF assms(1)] .
  have "length junk = Suc (Suc (Suc (Suc 0)))" using assms(2) by simp
  then obtain w x y z where j: "junk = [w, x, y, z]" by (auto simp: length_Suc_conv)
  have "pton4_loop (dec a @ 46 # dec b @ 46 # dec c @ 46 # dec d @ []) [0, x, y, z] 0 False 0 = Some ([a, b, c, d], 4)"
    using s(2-5) pton4_octet [of d "Suc (Suc (Suc 0))" "[a, b, c, 0]" "Suc (Suc (Suc 0))" "[]"]
    by (simp add: pton4_octet pton4_dot del: pton4_loop.simps(2))
  then show ?thesis by (simp add: inet_pton4_def s j)
qed

lemma ntop4_dotted:
  assumes "quad src"
  shows "butlast (ntop4_loop (take 4 (src @ rest))) = dotted src" "length (dotted src) \<le> 15"
proof -
  obtain a b c d where s: "src = [a, b, c, d]" "a < 256" "b < 256" "c < 256" "d < 256"
    using quad_cases [OF assms(1)] .
  show "butlast (ntop4_loop (take 4 (src @ rest))) = dotted src" using s
    by (simp add: dec_octet butlast_append)
  show "length (dotted src) \<le> 15" using s dec_length [of a] dec_length [of b] dec_length [of c] dec_length [of d] by simp
qed

section \<open>Presentation format of IPv6 addresses\<close>

lemma or_shift:
  assumes "d < 2 ^ k"
  shows "or (push_bit k v) d = v * 2 ^ k + (d :: nat)"
proof -
  have "\<not> (bit (push_bit k v) n \<and> bit d n)" for n
    using assms by (metis bit_push_bit_iff bit_take_bit_iff not_less take_bit_nat_eq_self)
  then have "and (push_bit k v) d = 0" by (intro bit_eqI) (auto simp: bit_simps)
  then have "push_bit k v + d = or (push_bit k v) d" by (rule disjunctive_add_eq_or)
  then show ?thesis by (simp add: push_bit_eq_mult)
qed

lemma strchr_hex: "d < 16 \<Longrightarrow> strchr_index xdigits (or (uim_digit UIM_LOWER d) 0x20) = Some d"
proof -
  have "list_all (\<lambda>d. strchr_index xdigits (or (uim_digit UIM_LOWER d) 0x20) = Some d) [0..<16]" by code_simp
  then show "d < 16 \<Longrightarrow> strchr_index xdigits (or (uim_digit UIM_LOWER d) 0x20) = Some d" by (simp add: list_all_iff)
qed

lemma strchr_other: "strchr_index xdigits 58 = None" "strchr_index xdigits 46 = None"
  by code_simp+

lemma hex_str_rec: "hex_str w = (if w < 16 then [] else hex_str (w div 16)) @ [uim_digit UIM_LOWER (w mod 16)]"
  unfolding hex_str_def by (rule uim_loop_rec) simp

declare pton6_loop.simps(2) [simp del]

lemma pton6_hex:
  "w < 65536 \<Longrightarrow> pton6_loop junk (hex_str w @ rest) ct tmp tp cp saw 0 = pton6_loop junk rest ct tmp tp cp True w"
proof (induction w arbitrary: rest saw rule: uim_loop_induct [of 16])
  case (2 w)
  have step: "pton6_loop junk (uim_digit UIM_LOWER (w mod 16) # rest) ct tmp tp cp s (w div 16)
      = pton6_loop junk rest ct tmp tp cp True w" for s
    using 2(2) strchr_hex [of "w mod 16"] or_shift [of "w mod 16" 4 "w div 16"]
    by (simp add: pton6_loop.simps Let_def)
  show ?case
  proof (cases "w < 16")
    case True
    then show ?thesis using step [of saw] by (subst hex_str_rec) simp
  next
    case False
    then show ?thesis using step 2 by (subst hex_str_rec) simp
  qed
qed simp

text \<open>The octets written so far in the buffer, and the two octets of a word.\<close>

definition buf6 :: "nat list \<Rightarrow> nat list" where
  "buf6 D = D @ replicate (16 - length D) 0"

definition word_octets :: "nat \<Rightarrow> nat list" where
  "word_octets w = [w div 256, w mod 256]"

definition words_octets :: "nat list \<Rightarrow> nat list" where
  "words_octets ws = concat (map word_octets ws)"

lemma words_octets_simps [simp]:
  "words_octets [] = []" "words_octets (w # ws) = word_octets w @ words_octets ws"
  "words_octets (us @ ws) = words_octets us @ words_octets ws" "length (words_octets ws) = 2 * length ws"
  "length (word_octets w) = 2"
  by (induction ws) (auto simp: words_octets_def word_octets_def)

lemma buf6_put:
  assumes "length D + 2 \<le> 16" "w < 65536"
  shows "(buf6 D)[length D := drop_bit 8 w mod 256, length D + 1 := w mod 256] = buf6 (D @ word_octets w)"
proof -
  have "replicate (16 - length D) (0::nat) = 0 # 0 # replicate (16 - (length D + 2)) 0"
    using assms(1) by (simp flip: replicate_Suc add: Suc_diff_le)
  moreover have "w div 256 mod 256 = w div 256" using assms(2) by simp
  ultimately show ?thesis by (simp add: buf6_def word_octets_def list_update_append drop_bit_eq_div)
qed

lemma pton6_group:
  assumes "length D + 2 \<le> 16" "w < 65536" "rest \<noteq> []"
  shows "pton6_loop junk (hex_str w @ 58 # rest) ct (buf6 D) (length D) cp False 0
    = pton6_loop junk rest rest (buf6 (D @ word_octets w)) (length D + 2) cp False 0"
  using assms by (simp add: pton6_hex) (simp add: pton6_loop.simps strchr_other buf6_put [simplified])

definition groups :: "nat list \<Rightarrow> cstring" where
  "groups ws = concat (map (\<lambda>w. hex_str w @ [58]) ws)"

lemma pton6_groups:
  "\<lbrakk>length D + 2 * length ws \<le> 16; \<forall>w \<in> set ws. w < 65536; rest \<noteq> []\<rbrakk> \<Longrightarrow>
    pton6_loop junk (groups ws @ rest) ct (buf6 D) (length D) cp False 0
      = pton6_loop junk rest (if ws = [] then ct else rest) (buf6 (D @ words_octets ws)) (length D + 2 * length ws) cp False 0"
proof (induction ws arbitrary: D ct)
  case (Cons w ws)
  have "pton6_loop junk (hex_str w @ 58 # (groups ws @ rest)) ct (buf6 D) (length D) cp False 0
      = pton6_loop junk (groups ws @ rest) (groups ws @ rest) (buf6 (D @ word_octets w)) (length (D @ word_octets w)) cp False 0"
    using Cons.prems by (subst pton6_group) auto
  also have "\<dots> = pton6_loop junk rest rest (buf6 ((D @ word_octets w) @ words_octets ws))
      (length (D @ word_octets w) + 2 * length ws) cp False 0"
    using Cons.prems Cons.IH [of "D @ word_octets w" "groups ws @ rest"] by (auto simp: groups_def)
  finally show ?case by (simp add: groups_def)
qed (simp add: groups_def)

lemma pton6_double_colon:
  "pton6_loop junk (58 # rest) ct tmp tp None False 0 = pton6_loop junk rest rest tmp tp (Some tp) False 0"
  by (simp add: pton6_loop.simps strchr_other)

lemma pton6_last:
  "w < 65536 \<Longrightarrow> pton6_loop junk (hex_str w) ct tmp tp cp saw 0 = Some (tmp, tp, cp, True, w)"
  using pton6_hex [of w junk "[]"] by simp


text \<open>A dotted quad at the end.\<close>

lemma pton6_decimal:
  assumes "\<forall>c \<in> set ds. isdigit_c c" "length ds \<le> k" "k \<le> 4" "v < 16 ^ (4 - k)"
  shows "\<exists>u. pton6_loop junk (ds @ rest) ct tmp tp cp saw v = pton6_loop junk rest ct tmp tp cp (saw \<or> ds \<noteq> []) u"
  using assms
proof (induction ds arbitrary: k v saw)
  case (Cons c ds)
  have "list_all (\<lambda>c. strchr_index xdigits (or c 0x20) = Some (nat (c - 48))) [48..57]" by code_simp
  then have "\<forall>c \<in> set [48..57]. strchr_index xdigits (or c 0x20) = Some (nat (c - 48))" unfolding list_all_iff .
  moreover have "48 \<le> c" "c \<le> 57" using Cons.prems(1) by (auto simp: isdigit_c_def)
  ultimately have x: "strchr_index xdigits (or c 0x20) = Some (nat (c - 48))" "nat (c - 48) < 16"
    by (metis atLeastAtMost_iff set_upto, linarith)
  obtain j where k: "k = Suc j" using Cons.prems(2) by (cases k) auto
  define u where "u = v * 16 + nat (c - 48)"
  have e: "(16::nat) ^ (4 - j) = 16 * 16 ^ (4 - k)" using Cons.prems(3) by (simp add: k Suc_diff_le flip: power_Suc)
  then have u: "u < 16 ^ (4 - j)" using Cons.prems(4) x(2) by (simp add: u_def)
  also have "(16::nat) ^ (4 - j) \<le> 16 ^ 4" by (intro power_increasing) auto
  finally have le: "u \<le> 65535" by simp
  have or_u: "or (push_bit 4 v) (nat (c - 48)) = u" using or_shift [of "nat (c - 48)" 4 v] x(2) by (simp add: u_def)
  obtain u' where "pton6_loop junk (ds @ rest) ct tmp tp cp True u = pton6_loop junk rest ct tmp tp cp True u'"
    using Cons.IH [of j u True] Cons.prems u k by auto
  then show ?case using x le or_u by (auto simp: pton6_loop.simps)
qed auto

lemma pton6_quad:
  assumes "quad src" "length junk = 4" "length D + 4 \<le> 16"
  shows "\<exists>v. pton6_loop junk (dotted src) (dotted src) (buf6 D) (length D) cp False 0
    = Some (buf6 (D @ src), length D + 4, cp, False, v)"
proof -
  obtain a b c d where s: "src = [a, b, c, d]" "a < 256" "b < 256" "c < 256" "d < 256"
    using quad_cases [OF assms(1)] .
  obtain v where "pton6_loop junk (dotted src) (dotted src) (buf6 D) (length D) cp False 0
      = pton6_loop junk (46 # dotted [b, c, d]) (dotted src) (buf6 D) (length D) cp True v"
    using pton6_decimal [of "dec a" 3 0 junk "46 # dotted [b, c, d]" "dotted src" "buf6 D" "length D" cp False]
      dec_digits [OF s(2)] dec_length [OF s(2)] by (auto simp: s(1))
  moreover have "take (length D) (buf6 D) @ src @ drop (length D + 4) (buf6 D) = buf6 (D @ src)"
    using assms(3) by (simp add: buf6_def s(1))
  ultimately show ?thesis using assms(3) pton4_dotted [OF assms(1,2)]
    by (simp add: pton6_loop.simps strchr_other del: dotted.simps)
qed

text \<open>Moving the octets after the double colon.\<close>

lemma pton6_shift_move:
  "\<lbrakk>length A = c; length B = k; length R = n - k; k \<le> n; c + n + z = 16; 0 < z\<rbrakk> \<Longrightarrow>
    pton6_shift c n k (A @ B @ replicate z 0 @ R) = A @ replicate z 0 @ B @ R"
proof (induction k arbitrary: B R)
  case (Suc k)
  obtain B' b where B: "B = B' @ [b]" "length B' = k" using Suc.prems(2) by (cases B rule: rev_cases) auto
  have z: "replicate z (0::nat) = replicate (z - 1) 0 @ [0]" "replicate z (0::nat) = 0 # replicate (z - 1) 0"
    using Suc.prems(6) by (cases z; simp flip: replicate_append_same)+
  have i: "16 - (n - k) = c + k + 1 + (z - 1)" "c + (n - (n - k)) = c + k" using Suc.prems by auto
  have "(A @ B @ replicate z 0 @ R)[16 - (n - k) := (A @ B @ replicate z 0 @ R) ! (c + (n - (n - k))), c + (n - (n - k)) := 0]
      = A @ B' @ replicate z 0 @ (b # R)"
    unfolding i B(1) using Suc.prems(1) B(2)
    by (subst (1 2) z(1), subst z(2)) (simp add: nth_append list_update_append)
  then show ?case using Suc.IH [of B' "b # R"] Suc.prems B by (simp add: Let_def)
qed simp

lemma pton6_finish_run:
  assumes "c \<le> length D" "length D < 16"
  shows "pton6_finish (buf6 D, length D, Some c, False, v) =
    Some (take c D @ replicate (16 - length D) 0 @ drop c D)"
proof -
  have "buf6 D = take c D @ drop c D @ replicate (16 - length D) 0 @ []"
    by (simp add: buf6_def flip: append.assoc)
  then show ?thesis using assms pton6_shift_move [of "take c D" c "drop c D" "length D - c" "[]" "length D - c" "16 - length D"]
    by (simp add: pton6_finish_def)
qed

lemma pton6_finish_saw:
  assumes "length D + 2 \<le> 16" "w < 65536"
  shows "pton6_finish (buf6 D, length D, cp, True, w) = pton6_finish (buf6 (D @ word_octets w), length (D @ word_octets w), cp, False, v)"
  unfolding pton6_finish_def prod.case Let_def using assms
  by (cases cp) (simp_all only: buf6_put [OF assms] if_True if_False simp_thms prod.case option.case
      length_append words_octets_simps not_less [symmetric])

text \<open>The run that is printed as a double colon consists of zero words.\<close>

definition zero_run :: "nat list \<Rightarrow> run \<Rightarrow> bool" where
  "zero_run ws r \<longleftrightarrow> base r = - 1 \<or>
     0 \<le> base r \<and> base r + int (len r) \<le> int (length ws) \<and>
     (\<forall>k. base r \<le> int k \<and> int k < base r + int (len r) \<longrightarrow> ws ! k = 0)"

lemma zero_run_append: "zero_run ws r \<Longrightarrow> zero_run (ws @ [w]) r"
  by (auto simp: zero_run_def nth_append)

lemma zero_runs_zero:
  "\<lbrakk>zero_run P best; zero_run P c; base c \<noteq> - 1 \<longrightarrow> base c + int (len c) = int (length P); i = int (length P);
    zero_runs ws i best c = (best', c')\<rbrakk> \<Longrightarrow> zero_run (P @ ws) best' \<and> zero_run (P @ ws) c'"
proof (induction ws arbitrary: P i best c)
  case (Cons w ws)
  have step: "zero_run (P @ [w]) b \<Longrightarrow> zero_run (P @ [w]) d \<Longrightarrow> base d \<noteq> - 1 \<longrightarrow> base d + int (len d) = int (length (P @ [w])) \<Longrightarrow>
      zero_runs ws (i + 1) b d = (best', c') \<Longrightarrow> zero_run (P @ w # ws) best' \<and> zero_run (P @ w # ws) c'" for b d
    using Cons.IH [of "P @ [w]" b d "i + 1"] Cons.prems(4) by simp
  show ?case
  proof (cases "w = 0")
    case True
    let ?d = "if base c = - 1 then \<lparr>base = i, len = 1\<rparr> else c\<lparr>len := len c + 1\<rparr>"
    have "zero_run (P @ [w]) ?d"
      using Cons.prems(2-4) True by (auto simp: zero_run_def nth_append)
    then show ?thesis using True Cons.prems zero_run_append by (intro step) (auto split: if_splits)
  next
    case False
    have "zero_run (P @ [w]) (c\<lparr>base := - 1\<rparr>)" by (simp add: zero_run_def)
    show ?thesis
    proof (cases "base c = - 1")
      case True
      then show ?thesis using \<open>w \<noteq> 0\<close> Cons.prems zero_run_append by (intro step [of best c]) auto
    next
      case c: False
      let ?b = "if base best = - 1 \<or> len c > len best then c else best"
      have "zero_run (P @ [w]) ?b" using Cons.prems zero_run_append by simp
      then show ?thesis using c \<open>w \<noteq> 0\<close> Cons.prems \<open>zero_run (P @ [w]) (c\<lparr>base := - 1\<rparr>)\<close>
        by (intro step [of ?b "c\<lparr>base := - 1\<rparr>"]) auto
    qed
  qed
qed simp

lemma best_run_zero: "zero_run ws (best_run ws)" "base (best_run ws) \<noteq> - 1 \<Longrightarrow> 2 \<le> len (best_run ws)"
proof -
  obtain b c where z: "zero_runs ws 0 \<lparr>base = - 1, len = 0\<rparr> \<lparr>base = - 1, len = 0\<rparr> = (b, c)" by fastforce
  have "zero_run ws b \<and> zero_run ws c"
    using zero_runs_zero [OF _ _ _ _ z, of "[]"] by (simp add: zero_run_def [of "[]"])
  moreover have "zero_run ws (r\<lparr>base := - 1\<rparr>)" for r by (simp add: zero_run_def)
  ultimately show "zero_run ws (best_run ws)" by (simp add: best_run_def z Let_def)
  show "base (best_run ws) \<noteq> - 1 \<Longrightarrow> 2 \<le> len (best_run ws)"
    by (auto simp: best_run_def z Let_def split: if_splits)
qed

text \<open>What follows the run: hexadecimal groups, or an embedded dotted quad.\<close>

definition tail_str :: "nat list \<Rightarrow> nat list \<Rightarrow> bool \<Rightarrow> cstring" where
  "tail_str ws quad4 v4 =
     (if v4 then groups (butlast (butlast ws)) @ dotted quad4
      else if ws = [] then [] else groups (butlast ws) @ hex_str (last ws))"

definition words8 :: "nat list \<Rightarrow> bool" where
  "words8 ws \<longleftrightarrow> length ws = 8 \<and> (\<forall>w \<in> set ws. w < 65536)"

lemma words8_cases:
  assumes "length ws = 8"
  obtains a b c d e f g h where "ws = [a, b, c, d, e, f, g, h]"
proof -
  have "length ws = Suc (Suc (Suc (Suc (Suc (Suc (Suc (Suc 0)))))))" using assms by simp
  then show ?thesis using that by (auto simp: length_Suc_conv)
qed

lemma in_run_none: "base best = - 1 \<Longrightarrow> \<not> in_run best i" "base best = - 1 \<Longrightarrow> \<not> v4_embedded best ws"
  by (simp_all add: in_run_def v4_embedded_def)

lemma eight: "8 = Suc (Suc (Suc (Suc (Suc (Suc (Suc (Suc 0)))))))"
  by simp

lemma ntop6_no_run:
  assumes "base best = - 1" "length ws = 8"
  shows "ntop6_loop 8 0 src ws best [] = Inr (groups (take 7 ws) @ hex_str (ws ! 7))"
proof -
  obtain a b c d e f g h where "ws = [a, b, c, d, e, f, g, h]" using words8_cases [OF assms(2)] .
  then show ?thesis unfolding eight using assms(1)
    by (simp add: in_run_none groups_def)
qed

lemma ntop4_quad: "quad src \<Longrightarrow> 15 \<le> sz \<Longrightarrow> inet_ntop4 src sz = Inr (dotted src)"
  using ntop4_dotted(1) [of src "[]"] ntop4_dotted(2) [of src] by (simp add: inet_ntop4_def)

lemma hex_ffff: "hex_str 65535 = [102, 102, 102, 102]"
  by (simp add: hex_str_rec [of 65535] hex_str_rec [of 4095] hex_str_rec [of 255] hex_str_rec [of 15]
      uim_digit_def UIM_LOWER_def)

lemma ntop6_run:
  assumes "base best = int b" "2 \<le> len best" "b + len best \<le> 8" "length ws = 8" "quad (drop 12 src)"
  shows "\<exists>s. ntop6_loop 8 0 src ws best [] = Inr s \<and>
    s @ (if b + len best = 8 then [58] else []) =
      (if b = 0 then [58] else groups (take b ws)) @ 58 # tail_str (drop (b + len best) ws) (drop 12 src) (v4_embedded best ws)"
proof -
  obtain a0 a1 a2 a3 a4 a5 a6 a7 where ws: "ws = [a0, a1, a2, a3, a4, a5, a6, a7]" using words8_cases [OF assms(4)] .
  have "b = 0 \<or> b = 1 \<or> b = 2 \<or> b = 3 \<or> b = 4 \<or> b = 5 \<or> b = 6" using assms(2,3) by linarith
  moreover have "len best = 2 \<or> len best = 3 \<or> len best = 4 \<or> len best = 5 \<or> len best = 6 \<or> len best = 7 \<or> len best = 8"
    using assms(2,3) by linarith
  ultimately show ?thesis unfolding eight ws using assms(1,3,5)
    apply (elim disjE)
    apply (simp_all add: in_run_def v4_embedded_def groups_def tail_str_def ntop4_quad hex_ffff)
    done
qed

definition finishes :: "(nat list \<times> nat \<times> nat option \<times> bool \<times> nat) option \<Rightarrow> nat list option" where
  "finishes r = (case r of None \<Rightarrow> None | Some t \<Rightarrow> pton6_finish t)"

lemma pton6_end_hex:
  assumes "length D + 2 * length X + 2 \<le> 14" "\<forall>w \<in> set X. w < 65536" "x < 65536" "c \<le> length D"
  defines "D' \<equiv> D @ words_octets X @ word_octets x"
  shows "finishes (pton6_loop junk (groups X @ hex_str x) ct (buf6 D) (length D) (Some c) False 0)
    = Some (take c D' @ replicate (16 - length D') 0 @ drop c D')"
proof -
  define E where "E = D @ words_octets X"
  have E: "length E = length D + 2 * length X" "D' = E @ word_octets x" by (simp_all add: E_def D'_def)
  have ne: "hex_str x \<noteq> []" by (subst hex_str_rec) simp
  have "pton6_loop junk (groups X @ hex_str x) ct (buf6 D) (length D) (Some c) False 0
      = Some (buf6 E, length E, Some c, True, x)"
    using pton6_groups [OF _ assms(2) ne, of D junk ct "Some c"] pton6_last [OF assms(3)] assms(1) E(1)
    by (simp add: E_def)
  moreover have "pton6_finish (buf6 E, length E, Some c, True, x) = pton6_finish (buf6 D', length D', Some c, False, 0)"
    using pton6_finish_saw [OF _ assms(3), of E "Some c" 0] assms(1) E by simp
  moreover have "c \<le> length D'" "length D' < 16" using assms(1,4) by (simp_all add: D'_def)
  ultimately show ?thesis using pton6_finish_run [of c D' 0] by (simp add: finishes_def)
qed

lemma pton6_end_quad:
  assumes "length D + 2 * length C + 4 \<le> 14" "\<forall>w \<in> set C. w < 65536" "quad q" "length junk = 4" "c \<le> length D"
    "C = [] \<longrightarrow> ct = dotted q"
  defines "D' \<equiv> D @ words_octets C @ q"
  shows "finishes (pton6_loop junk (groups C @ dotted q) ct (buf6 D) (length D) (Some c) False 0)
    = Some (take c D' @ replicate (16 - length D') 0 @ drop c D')"
proof -
  define E where "E = D @ words_octets C"
  have lE: "length E = length D + 2 * length C" by (simp add: E_def)
  have q: "length q = 4" using assms(3) by (simp add: quad_def)
  obtain a b d e where s: "q = [a, b, d, e]" "a < 256" using quad_cases [OF assms(3)] by metis
  have ne: "dotted q \<noteq> []" by (simp add: s(1))
  obtain v where "pton6_loop junk (dotted q) (dotted q) (buf6 E) (length E) (Some c) False 0
      = Some (buf6 (E @ q), length E + 4, Some c, False, v)"
    using pton6_quad [OF assms(3,4), of E "Some c"] assms(1) lE by auto
  then have "pton6_loop junk (groups C @ dotted q) ct (buf6 D) (length D) (Some c) False 0
      = Some (buf6 D', length D', Some c, False, v)"
    using pton6_groups [OF _ assms(2) ne, of D junk ct "Some c"] assms(1,6) q
    by (cases "C = []") (simp_all add: E_def D'_def)
  then show ?thesis using pton6_finish_run [of c D' v] assms(1,5) q by (simp add: finishes_def D'_def)
qed

lemma pton6_tail:
  assumes "length D + 2 * length C \<le> 12 \<or> \<not> v4 \<and> length D + 2 * length C \<le> 14" "\<forall>w \<in> set C. w < 65536" "c \<le> length D"
    "length junk = 4" "v4 \<longrightarrow> quad q \<and> 2 \<le> length C \<and> words_octets C = words_octets (butlast (butlast C)) @ q"
  defines "D' \<equiv> D @ words_octets C"
  shows "finishes (pton6_loop junk (tail_str C q v4) (tail_str C q v4) (buf6 D) (length D) (Some c) False 0)
    = Some (take c D' @ replicate (16 - length D') 0 @ drop c D')"
proof (cases v4)
  case True
  have "\<forall>w \<in> set (butlast (butlast C)). w < 65536" using assms(2) by (auto dest: in_set_butlastD)
  moreover have "length D + 2 * length (butlast (butlast C)) + 4 \<le> 14" using True assms(1,5) by auto
  ultimately show ?thesis using True assms pton6_end_quad [of D "butlast (butlast C)" q junk c "tail_str C q v4"]
    by (simp add: tail_str_def groups_def)
next
  case False
  show ?thesis
  proof (cases C rule: rev_cases)
    case Nil
    then show ?thesis using False assms pton6_finish_run [of c D 0] by (auto simp: tail_str_def finishes_def)
  next
    case (snoc X x)
    then show ?thesis using False assms pton6_end_hex [of D X x c junk "tail_str C q v4"]
      by (auto simp: tail_str_def)
  qed
qed

text \<open>The octets of an address and its words.\<close>

definition octets16 :: "nat list \<Rightarrow> bool" where
  "octets16 src \<longleftrightarrow> length src = 16 \<and> (\<forall>n \<in> set src. n < 256)"

lemma src_words_octets:
  assumes "octets16 src"
  shows "words_octets (src_words src) = src" "words8 (src_words src)" "quad (drop 12 src)"
proof -
  have l: "length src = 16" and b: "\<And>i. i < 16 \<Longrightarrow> src ! i < 256" using assms by (auto simp: octets16_def)
  define w where "w i = src ! (2 * i) * 256 + src ! (2 * i + 1)" for i
  have w: "or (push_bit 8 (src ! (2 * i))) (src ! (2 * i + 1)) = w i" "w i < 65536"
    "word_octets (w i) = [src ! (2 * i), src ! (2 * i + 1)]" if "i < 8" for i
    using or_shift [of "src ! (2 * i + 1)" 8 "src ! (2 * i)"] b [of "2 * i + 1"] b [of "2 * i"] that
    by (simp_all add: w_def word_octets_def)
  have ws: "src_words src = map w [0..<8]" using w(1) by (simp add: src_words_def)
  have "words_octets (src_words src) = concat (map (\<lambda>i. [src ! (2 * i), src ! (2 * i + 1)]) [0..<8])"
    unfolding ws words_octets_def map_map comp_def
    by (intro arg_cong [of _ _ concat] map_cong refl) (simp add: w(3))
  also have "\<dots> = map ((!) src) [0..<16]" by (simp add: numeral_eq_Suc)
  also have "\<dots> = src" using map_nth [of src] l by simp
  finally show "words_octets (src_words src) = src" .
  show "words8 (src_words src)" unfolding words8_def ws using w(2) by auto
  show "quad (drop 12 src)" using assms l unfolding quad_def octets16_def by (auto dest: in_set_dropD)
qed


lemma hex_str_hd: "w < 65536 \<Longrightarrow> hex_str w = x # xs \<Longrightarrow> x \<noteq> 58"
proof -
  assume w: "w < 65536" "hex_str w = x # xs"
  obtain d ds where "hex_str w = uim_digit UIM_LOWER d # ds" "d < 16"
    using uim_loop_hd [of 16 UIM_LOWER w] by (auto simp: hex_str_def)
  moreover then have "list_all (\<lambda>d. uim_digit UIM_LOWER d \<noteq> 58) [0..<16]" by code_simp
  ultimately show "x \<noteq> 58" using w(2) by (auto simp: list_all_iff)
qed

lemma cur_groups: "\<lbrakk>us \<noteq> []; \<forall>w \<in> set us. w < 65536\<rbrakk> \<Longrightarrow> cur (groups us @ rest) \<noteq> 58"
proof -
  assume us: "us \<noteq> []" "\<forall>w \<in> set us. w < 65536"
  then obtain w ws where w: "us = w # ws" by (cases us) auto
  have "hex_str w \<noteq> []" by (subst hex_str_rec) simp
  then obtain x xs where "hex_str w = x # xs" by (auto simp: neq_Nil_conv)
  then show "cur (groups us @ rest) \<noteq> 58" using hex_str_hd [of w x xs] us w by (simp add: groups_def cur_def)
qed

lemma inet_pton6_finishes:
  "inet_pton6 junk src =
     (if cur src = 58 then (if cur (tl src) \<noteq> 58 then None
        else finishes (pton6_loop junk (tl src) (tl src) (buf6 []) 0 None False 0))
      else finishes (pton6_loop junk src src (buf6 []) 0 None False 0))"
  by (simp add: inet_pton6_def finishes_def buf6_def)

text \<open>Parsing what the formatting loop printed around a run of zeros.\<close>

lemma pton6_printed_run:
  assumes "\<forall>w \<in> set A. w < 65536" "\<forall>w \<in> set C. w < 65536" "length A + length C \<le> 6" "length junk = 4"
    "v4 \<longrightarrow> quad q \<and> 2 \<le> length C \<and> words_octets C = words_octets (butlast (butlast C)) @ q"
  shows "inet_pton6 junk ((if A = [] then [58] else groups A) @ 58 # tail_str C q v4) =
    Some (words_octets A @ replicate (16 - 2 * (length A + length C)) 0 @ words_octets C)"
proof -
  let ?t = "tail_str C q v4"
  let ?D = "words_octets A"
  have lD: "length ?D = 2 * length A" by simp
  have "finishes (pton6_loop junk ?t ?t (buf6 ?D) (length ?D) (Some (length ?D)) False 0)
      = Some (?D @ replicate (16 - 2 * (length A + length C)) 0 @ words_octets C)"
    using pton6_tail [of ?D C v4 "length ?D" junk q] assms by (simp add: algebra_simps)
  moreover have "pton6_loop junk (groups A @ 58 # ?t) ct (buf6 []) 0 None False 0
      = pton6_loop junk ?t ?t (buf6 ?D) (length ?D) (Some (length ?D)) False 0" for ct
    using pton6_groups [of "[]" A "58 # ?t" junk ct None] assms(1,3) by (simp add: pton6_double_colon)
  ultimately have f: "finishes (pton6_loop junk (groups A @ 58 # ?t) ct (buf6 []) 0 None False 0)
      = Some (?D @ replicate (16 - 2 * (length A + length C)) 0 @ words_octets C)" for ct by simp
  show ?thesis
  proof (cases "A = []")
    case True
    then show ?thesis using f by (simp add: inet_pton6_finishes cur_def groups_def)
  next
    case False
    then show ?thesis using f cur_groups [OF False assms(1), of "58 # ?t"] by (simp add: inet_pton6_finishes)
  qed
qed

lemma pton6_printed_full:
  assumes "words8 ws"
  shows "inet_pton6 junk (groups (take 7 ws) @ hex_str (ws ! 7)) = Some (words_octets ws)"
proof -
  have l: "length ws = 8" "\<forall>w \<in> set (take 7 ws). w < 65536" "ws ! 7 < 65536"
    using assms by (auto simp: words8_def dest: in_set_takeD)
  have ws: "ws = take 7 ws @ [ws ! 7]" using l(1) id_take_nth_drop [of 7 ws] by simp
  have ne: "hex_str (ws ! 7) \<noteq> []" by (subst hex_str_rec) simp
  let ?E = "words_octets (take 7 ws)"
  have lE: "length ?E = 14" using l(1) by simp
  have eq: "words_octets ws = ?E @ word_octets (ws ! 7)" by (subst ws) (simp only: words_octets_simps append_Nil2)
  have "pton6_loop junk (groups (take 7 ws) @ hex_str (ws ! 7)) ct (buf6 []) 0 None False 0
      = Some (buf6 ?E, length ?E, None, True, ws ! 7)" for ct
    using pton6_groups [OF _ l(2) ne, of "[]" junk ct None] pton6_last [OF l(3)] l(1) by simp
  moreover have "pton6_finish (buf6 ?E, length ?E, None, True, ws ! 7)
      = pton6_finish (buf6 (words_octets ws), length (words_octets ws), None, False, 0)"
    using pton6_finish_saw [OF _ l(3), of ?E None 0] lE eq by simp
  moreover have "pton6_finish (buf6 (words_octets ws), length (words_octets ws), None, False, 0) = Some (words_octets ws)"
    using l(1) by (simp add: pton6_finish_def buf6_def)
  moreover have "cur (groups (take 7 ws) @ hex_str (ws ! 7)) \<noteq> 58"
    using l(1,2) by (intro cur_groups) auto
  ultimately show ?thesis by (simp add: inet_pton6_finishes finishes_def)
qed

lemma words_octets_zero: "words_octets (replicate l 0) = replicate (2 * l) 0"
  by (induction l) (simp_all add: word_octets_def)

lemma zero_run_split:
  assumes "zero_run ws r" "base r = int b" "len r = l"
  shows "ws = take b ws @ replicate l 0 @ drop (b + l) ws" "b + l \<le> length ws"
proof -
  have z: "b + l \<le> length ws" "\<And>k. b \<le> k \<Longrightarrow> k < b + l \<Longrightarrow> ws ! k = 0"
    using assms by (auto simp: zero_run_def)
  show "b + l \<le> length ws" by (rule z(1))
  have "take l (drop b ws) = replicate l 0"
    by (rule nth_equalityI) (use z in auto)
  moreover have "ws = take b ws @ take l (drop b ws) @ drop l (drop b ws)" by (simp only: append_take_drop_id)
  ultimately show "ws = take b ws @ replicate l 0 @ drop (b + l) ws" by (simp add: add.commute)
qed

lemma drop_words_octets: "drop (2 * k) (words_octets ws) = words_octets (drop k ws)"
proof (induction k arbitrary: ws)
  case (Suc k)
  then show ?case by (cases ws) (simp_all add: word_octets_def)
qed simp

lemma v4_tail:
  assumes "v4_embedded best ws" "base best = int b" "length ws = 8"
  defines "C \<equiv> drop (b + len best) ws"
  shows "2 \<le> length C" "words_octets C = words_octets (butlast (butlast C)) @ drop 12 (words_octets ws)"
proof -
  have bl: "b = 0" "len best = 5 \<or> len best = 6" using assms(1,2) by (auto simp: v4_embedded_def)
  obtain a0 a1 a2 a3 a4 a5 a6 a7 where ws: "ws = [a0, a1, a2, a3, a4, a5, a6, a7]" using words8_cases [OF assms(3)] .
  show "2 \<le> length C" using bl by (auto simp: C_def ws)
  have "drop 12 (words_octets ws) = words_octets (drop 6 ws)" using drop_words_octets [of 6 ws] by simp
  then show "words_octets C = words_octets (butlast (butlast C)) @ drop 12 (words_octets ws)"
    using bl by (auto simp: C_def ws)
qed

lemma hex_str_length: "w < 16 ^ Suc k \<Longrightarrow> length (hex_str w) \<le> Suc k"
proof (induction k arbitrary: w)
  case 0
  then show ?case by (subst hex_str_rec) simp
next
  case (Suc k)
  then have "w div 16 < 16 ^ Suc k" by (simp add: less_mult_imp_div_less mult.commute)
  then show ?case using Suc.IH [of "w div 16"] by (subst hex_str_rec) simp
qed

lemma groups_length: "\<forall>w \<in> set ws. w < 65536 \<Longrightarrow> length (groups ws) \<le> 5 * length ws"
proof (induction ws)
  case (Cons w ws)
  then show ?case using hex_str_length [of w 3] by (simp add: groups_def)
qed (simp add: groups_def)

lemma tail_str_length:
  assumes "\<forall>w \<in> set C. w < 65536" "v4 \<longrightarrow> quad q \<and> 2 \<le> length C"
  shows "length (tail_str C q v4) \<le> 5 * length C + 5"
proof (cases v4)
  case True
  then have "length (dotted q) \<le> 15" using ntop4_dotted(2) assms(2) by blast
  moreover have "length (groups (butlast (butlast C))) \<le> 5 * length (butlast (butlast C))"
    using assms(1) by (intro groups_length) (auto dest: in_set_butlastD)
  moreover have "length (butlast (butlast C)) + 2 = length C" using True assms(2) by auto
  ultimately show ?thesis using True by (simp add: tail_str_def)
next
  case False
  show ?thesis
  proof (cases C rule: rev_cases)
    case (snoc X x)
    then show ?thesis using False assms(1) groups_length [of X] hex_str_length [of x 3] by (simp add: tail_str_def)
  qed (use False in \<open>simp add: tail_str_def\<close>)
qed

lemma ntop6_loop_printed:
  assumes "octets16 src" "length junk = 4"
  defines "ws \<equiv> src_words src" and "best \<equiv> best_run (src_words src)"
  shows "\<exists>s. ntop6_loop 8 0 src ws best [] = Inr s
    \<and> inet_pton6 junk (s @ (if base best \<noteq> - 1 \<and> base best + int (len best) = 8 then [58] else [])) = Some src
    \<and> length (s @ (if base best \<noteq> - 1 \<and> base best + int (len best) = 8 then [58] else [])) \<le> 45"
proof -
  note sw = src_words_octets [OF assms(1)]
  have ws: "length ws = 8" "\<forall>w \<in> set ws. w < 65536" "words_octets ws = src" "words8 ws"
    using sw by (simp_all add: ws_def words8_def)
  note z = best_run_zero [of ws]
  show ?thesis
  proof (cases "base best = - 1")
    case True
    have "length (groups (take 7 ws)) \<le> 5 * length (take 7 ws)" "length (hex_str (ws ! 7)) \<le> Suc 3"
      using ws(1,2) by (intro groups_length hex_str_length; auto dest: in_set_takeD)+
    then show ?thesis using True ntop6_no_run [OF True ws(1)] pton6_printed_full [OF ws(4)] ws(1,3) by simp
  next
    case False
    then obtain b where b: "base best = int b"
      using z(1) by (auto simp: zero_run_def best_def ws_def intro: nonneg_int_cases)
    define l where "l = len best"
    have l: "2 \<le> l" using z(2) False by (simp add: l_def best_def ws_def)
    have sp: "ws = take b ws @ replicate l 0 @ drop (b + l) ws" "b + l \<le> 8"
      using zero_run_split [of ws best b l] z(1) b ws(1) by (simp_all add: best_def ws_def l_def)
    obtain s where s: "ntop6_loop 8 0 src ws best [] = Inr s"
      "s @ (if b + l = 8 then [58] else []) =
        (if b = 0 then [58] else groups (take b ws)) @ 58 # tail_str (drop (b + l) ws) (drop 12 src) (v4_embedded best ws)"
      using ntop6_run [OF b _ _ ws(1) sw(3)] l sp(2) unfolding l_def by blast
    let ?C = "drop (b + l) ws"
    have v4: "v4_embedded best ws \<longrightarrow> quad (drop 12 src) \<and> 2 \<le> length ?C
        \<and> words_octets ?C = words_octets (butlast (butlast ?C)) @ drop 12 src"
      using v4_tail [OF _ b ws(1)] sw(3) ws(3) l_def by simp
    have len: "length (take b ws) + length ?C = 8 - l" "length (take b ws) = b" using ws(1) sp(2) by auto
    have w: "\<forall>w \<in> set (take b ws). w < 65536" "\<forall>w \<in> set ?C. w < 65536" "length (take b ws) + length ?C \<le> 6"
      using ws(2) len l by (auto dest: in_set_takeD in_set_dropD)
    have "take b ws = [] \<longleftrightarrow> b = 0" using ws(1) by auto
    then have "inet_pton6 junk (s @ (if b + l = 8 then [58] else [])) =
        Some (words_octets (take b ws) @ replicate (16 - 2 * (8 - l)) 0 @ words_octets ?C)"
      using pton6_printed_run [OF w assms(2) v4] unfolding s(2) len(1) by simp
    moreover have "words_octets (take b ws) @ replicate (16 - 2 * (8 - l)) 0 @ words_octets ?C = src"
    proof -
      have "16 - 2 * (8 - l) = 2 * l" using sp(2) by simp
      then have "words_octets (take b ws) @ replicate (16 - 2 * (8 - l)) 0 @ words_octets ?C
          = words_octets (take b ws @ replicate l 0 @ ?C)" by (simp add: words_octets_zero)
      then show ?thesis using sp(1) ws(3) by simp
    qed
    moreover have "(base best \<noteq> - 1 \<and> base best + int (len best) = 8) \<longleftrightarrow> b + l = 8" using b by (auto simp: l_def)
    moreover have "length (s @ (if b + l = 8 then [58] else [])) \<le> 45"
      unfolding s(2) using groups_length [OF w(1)] w(3)
        tail_str_length [OF w(2), of "v4_embedded best ws" "drop 12 src"] v4 by auto
    ultimately show ?thesis using s(1) by simp
  qed
qed

lemma ntop_pton4:
  assumes "quad src" "length junk = 4"
  shows "15 \<le> sz \<Longrightarrow> \<exists>s. inet_ntop4 src sz = Inr s" "inet_ntop4 src sz = Inr s \<Longrightarrow> inet_pton4 junk s = Some src"
  using ntop4_dotted(1) [OF assms(1), of "[]"] ntop4_dotted(2) [OF assms(1)] pton4_dotted [OF assms]
  by (auto simp: inet_ntop4_def Let_def split: if_splits)

lemma ntop_pton6:
  assumes "octets16 src" "length junk = 4"
  shows "46 \<le> sz \<Longrightarrow> \<exists>s. inet_ntop6 src sz = Inr s" "inet_ntop6 src sz = Inr s \<Longrightarrow> inet_pton6 junk s = Some src"
  using ntop6_loop_printed [OF assms] by (auto simp: inet_ntop6_def Let_def split: if_splits)

section \<open>Ethernet addresses\<close>

lemma hex_digit_facts:
  assumes "d < 16"
  defines "c \<equiv> uim_digit UIM_LOWER d"
  shows "or c 0x20 = c" "xdigit_c c" "xvalue c = d" "\<not> c < 0x20" "c \<noteq> 58" "c \<noteq> 0"
proof -
  have "list_all (\<lambda>d. let c = uim_digit UIM_LOWER d in or c 0x20 = c \<and> xdigit_c c \<and> xvalue c = d \<and> \<not> c < 0x20 \<and> c \<noteq> 58 \<and> c \<noteq> 0)
      [0..<16]" by code_simp
  then show "or c 0x20 = c" "xdigit_c c" "xvalue c = d" "\<not> c < 0x20" "c \<noteq> 58" "c \<noteq> 0"
    using assms(1) by (auto simp: list_all_iff c_def Let_def)
qed

lemma hex_str_octet:
  assumes "n < 256"
  shows "hex_str n = (if n < 16 then [] else [uim_digit UIM_LOWER (n div 16)]) @ [uim_digit UIM_LOWER (n mod 16)]"
  using assms hex_str_rec [of n] hex_str_rec [of "n div 16"] by auto

lemma octet_sum: "n < 256 \<Longrightarrow> (push_bit 4 (n div 16) + n mod 16) mod 256 = (n::nat)"
  by (simp add: push_bit_eq_mult)

lemma ether_aton_group:
  assumes "n < 256" "cnt \<noteq> 5"
  shows "ether_aton_loop (Suc k) cnt (hex_str n @ 58 # rest) = map_option ((#) n) (ether_aton_loop k (cnt + 1) rest)"
proof -
  have d: "n div 16 < 16" "n mod 16 < 16" using assms(1) by auto
  show ?thesis using assms(2) octet_sum [OF assms(1)] hex_digit_facts [OF d(1)] hex_digit_facts [OF d(2)]
    unfolding hex_str_octet [OF assms(1)]
    by (cases "n < 16") (simp_all add: cur_def Let_def)
qed

lemma ether_aton_last:
  assumes "n < 256"
  shows "ether_aton_loop (Suc 0) 5 (hex_str n) = Some [n]"
proof -
  have d: "n div 16 < 16" "n mod 16 < 16" using assms(1) by auto
  show ?thesis using octet_sum [OF assms(1)] hex_digit_facts [OF d(1)] hex_digit_facts [OF d(2)]
    unfolding hex_str_octet [OF assms(1)]
    by (cases "n < 16") (simp_all add: cur_def Let_def)
qed

lemma ether_roundtrip_aux:
  assumes "length octets = 6" "\<forall>n \<in> set octets. n < 256"
  shows "ether_aton_r (ether_ntoa_r octets) = Some octets"
proof -
  have "length octets = Suc (Suc (Suc (Suc (Suc (Suc 0)))))" using assms(1) by simp
  then obtain a b c d e f where o: "octets = [a, b, c, d, e, f]" by (auto simp: length_Suc_conv)
  have six: "6 = Suc (Suc (Suc (Suc (Suc (Suc 0)))))" by simp
  show ?thesis using assms(2) ether_aton_last [of f] unfolding ether_aton_r_def ether_ntoa_r_def six o
    by (simp add: ether_aton_group numeral_eq_Suc del: ether_aton_loop.simps)
qed

section \<open>Properties\<close>

text \<open>\<open>inet_aton\<close> reads back what \<open>inet_ntoa\<close> prints, for every address and both byte orders, and
  \<open>inet_ntoa_r\<close> stays within its buffer of 16 bytes.\<close>

theorem inet_ntoa_aton_roundtrip:
  assumes "length buf = 16"
  shows "\<exists>s. inet_ntoa_r big a buf = Some s \<and> length s < 16 \<and> inet_aton big (Some s) = Some a \<and> inet_addr big (Some s) = a"
proof -
  let ?ns = "octs 4 (ntohl big a)"
  have q: "quad ?ns" using octs_bound [of 4 "ntohl big a"] by (simp add: quad_def)
  then have "aton_parts 1 (dotted ?ns @ []) 0 = Some (octets_word ?ns)"
    using octs_bound [of 4 "ntohl big a"] octs_length [of 4 "ntohl big a"]
    by (subst aton_parts_dotted) (auto simp: cur_def octets_word_def simp del: octs_length)
  then have "inet_aton big (Some (dotted ?ns)) = Some a" by (simp add: inet_aton_def octets_word_octs)
  then show ?thesis using inet_ntoa_r_dotted [OF assms, of big a] ntop4_dotted(2) [OF q] by (simp add: inet_addr_def)
qed

theorem inet_ntoa_aton_roundtrip_witness:
  "\<exists>s. inet_ntoa_r True 0x7f000001 (replicate 16 0) = Some s \<and> inet_aton True (Some s) = Some 0x7f000001"
  using inet_ntoa_aton_roundtrip [of "replicate 16 0" True "0x7f000001"] by auto

text \<open>C20: \<open>inet_pton\<close> reads back what \<open>inet_ntop\<close> prints, for every IPv4 and every IPv6 address, whatever run of
  zeros is abbreviated and whether or not an IPv4 address is embedded; \<open>inet_ntop\<close> succeeds when the
  buffer has \<open>INET6_ADDRSTRLEN\<close> bytes.\<close>

theorem inet_ntop_pton_roundtrip:
  assumes "af = AF_INET \<and> quad src \<or> af = AF_INET6 \<and> octets16 src" "length junk = 4" "46 \<le> sz"
  shows "\<exists>s. inet_ntop af src sz = Inr s \<and> inet_pton junk af s = Inr (Some src)"
  using assms ntop_pton4 [of src junk sz] ntop_pton6 [of src junk sz]
  by (auto simp: inet_ntop_def inet_pton_def AF_INET_def AF_INET6_def)

theorem inet_ntop_pton_roundtrip_witness:
  "\<exists>s. inet_ntop AF_INET6 [0, 0, 0, 0, 0, 0, 0, 0, 0, 0, 255, 255, 127, 0, 0, 1] 46 = Inr s
     \<and> inet_pton [9, 9, 9, 9] AF_INET6 s = Inr (Some [0, 0, 0, 0, 0, 0, 0, 0, 0, 0, 255, 255, 127, 0, 0, 1])"
  by (rule inet_ntop_pton_roundtrip) (simp_all add: octets16_def)

text \<open>\<open>ether_aton_r\<close> reads back what \<open>ether_ntoa_r\<close> prints.\<close>

theorem ether_ntoa_aton_roundtrip:
  assumes "length octets = 6" "\<forall>n \<in> set octets. n < 256"
  shows "ether_aton_r (ether_ntoa_r octets) = Some octets"
  by (rule ether_roundtrip_aux [OF assms])

theorem ether_ntoa_aton_roundtrip_witness:
  "ether_aton_r (ether_ntoa_r [0, 17, 34, 171, 205, 255]) = Some [0, 17, 34, 171, 205, 255]"
  by (rule ether_ntoa_aton_roundtrip) auto

text \<open>The network and host parts that \<open>inet_netof\<close> and \<open>inet_lnaof\<close> take out of an address give the
  address back through \<open>inet_makeaddr\<close>, for every class and both byte orders.\<close>

theorem inet_makeaddr_split: "inet_makeaddr big (inet_netof big a) (inet_lnaof big a) = a"
  by (rule makeaddr_split)

text \<open>\<open>inet_ntop\<close> for IPv4 accepts a buffer that has no room for the terminator: with a size of exactly
  the length of the text it succeeds, and copies one byte more.\<close>

theorem inet_ntop4_overflow:
  assumes "quad src"
  shows "inet_ntop AF_INET src (length (dotted src)) = Inr (dotted src)"
  using ntop4_dotted(1) [OF assms, of "[]"] by (simp add: inet_ntop_def inet_ntop4_def)

theorem inet_ntop4_overflow_witness:
  "inet_ntop AF_INET [10, 0, 0, 1] 8 = Inr [49, 48, 46, 48, 46, 48, 46, 49]"
proof -
  have "dotted [10, 0, 0, 1] = [49, 48, 46, 48, 46, 48, 46, 49]" by (simp add: dec_octet ntop4_octet_def)
  moreover have "quad [10, 0, 0, 1]" by (simp add: quad_def)
  ultimately show ?thesis using inet_ntop4_overflow [of "[10, 0, 0, 1]"] by (simp add: numeral_eq_Suc)
qed

text \<open>The parsers fold case by setting bit 5, so \<open>inet_pton\<close> for IPv6 takes the control characters
  16 to 25 for digits, and so does \<open>ether_aton_r\<close> in the second place of a group.\<close>

theorem control_characters_accepted:
  "inet_pton [0, 0, 0, 0] AF_INET6 [58, 58, 17] = Inr (Some [0, 0, 0, 0, 0, 0, 0, 0, 0, 0, 0, 0, 0, 0, 0, 1])
   \<and> ether_aton_r [49, 17, 58, 49, 58, 49, 58, 49, 58, 49, 58, 49] = Some [17, 1, 1, 1, 1, 1]"
proof
  have c: "strchr_index xdigits 58 = None" "strchr_index xdigits 49 = Some 1" by code_simp+
  have "pton6_loop [0, 0, 0, 0] [58, 17] [58, 17] (replicate 16 0) 0 None False 0
      = Some (buf6 [], length ([] :: nat list), Some 0, True, 1)"
    using or_shift [of 1 4 0] by (simp add: pton6_loop.simps c buf6_def)
  moreover have "replicate 14 (0 :: nat) = [0, 0, 0, 0, 0, 0, 0, 0, 0, 0, 0, 0, 0, 0]" by (simp add: numeral_eq_Suc)
  then have "pton6_finish (buf6 [], length ([] :: nat list), Some 0, True, 1)
      = Some [0, 0, 0, 0, 0, 0, 0, 0, 0, 0, 0, 0, 0, 0, 0, 1]"
    using pton6_finish_saw [of "[]" 1 "Some 0" 0] pton6_finish_run [of 0 "word_octets 1" 0]
    by (simp add: word_octets_def)
  ultimately show "inet_pton [0, 0, 0, 0] AF_INET6 [58, 58, 17] = Inr (Some [0, 0, 0, 0, 0, 0, 0, 0, 0, 0, 0, 0, 0, 0, 0, 1])"
    by (simp add: inet_pton_def AF_INET_def AF_INET6_def inet_pton6_def cur_def Let_def)
  show "ether_aton_r [49, 17, 58, 49, 58, 49, 58, 49, 58, 49, 58, 49] = Some [17, 1, 1, 1, 1, 1]" by code_simp
qed

end
