(* ===== verification/Strings.thy ===== *)
theory Strings
  imports Prelude "HOL-Library.Sublist" "HOL-Library.List_Lexorder"
begin

text \<open>
  The byte-at-a-time routines of \<open>libc/string\<close>, and the word-at-a-time \<open>strlen\<close> of
  \<open>libc/string/generic\<close>.

  Memory is a function from addresses to bytes; a pointer is an address, \<open>None\<close> a null pointer.
  Loops that end only at a terminator are partial: \<open>None\<close> is a loop that runs on for ever.
\<close>

type_synonym memory = "addr \<Rightarrow> byte"

section \<open>Lengths and searches\<close>

partial_function (option) strlen_loop :: "memory \<Rightarrow> addr \<Rightarrow> addr option" where
  [code]: "strlen_loop m p = (if m p \<noteq> 0 then strlen_loop m (p + 1) else Some p)"

definition strlen :: "memory \<Rightarrow> addr \<Rightarrow> nat option" where
  "strlen m s = map_option (\<lambda>p. p - s) (strlen_loop m s)"

fun strnlen_loop :: "memory \<Rightarrow> addr \<Rightarrow> nat \<Rightarrow> addr" where
  "strnlen_loop m p 0 = p"
| "strnlen_loop m p (Suc mx) = (if m p \<noteq> 0 then strnlen_loop m (p + 1) mx else p)"

definition strnlen :: "memory \<Rightarrow> addr \<Rightarrow> nat \<Rightarrow> nat" where
  "strnlen m s mx = strnlen_loop m s mx - s"

text \<open>The result of \<open>strchr\<close> and its relatives is \<open>Some None\<close> for a null pointer.\<close>

partial_function (option) strchr :: "memory \<Rightarrow> addr \<Rightarrow> byte \<Rightarrow> addr option option" where
  [code]: "strchr m s c =
     (if m s = c then Some (Some s) else if m s \<noteq> 0 then strchr m (s + 1) c else Some None)"

partial_function (option) strchrnul :: "memory \<Rightarrow> addr \<Rightarrow> byte \<Rightarrow> addr option" where
  [code]: "strchrnul m s c = (if m s \<noteq> 0 \<and> m s \<noteq> c then strchrnul m (s + 1) c else Some s)"

partial_function (option) strrchr_loop :: "memory \<Rightarrow> addr \<Rightarrow> byte \<Rightarrow> addr option \<Rightarrow> addr option option" where
  [code]: "strrchr_loop m s c p =
     (let p1 = (if m s = c then Some s else p)
      in if m s \<noteq> 0 then strrchr_loop m (s + 1) c p1 else Some p1)"

definition strrchr :: "memory \<Rightarrow> addr \<Rightarrow> byte \<Rightarrow> addr option option" where
  "strrchr m s c = strrchr_loop m s c None"

partial_function (option) strspn_loop :: "memory \<Rightarrow> addr \<Rightarrow> addr \<Rightarrow> addr \<Rightarrow> addr option" where
  [code]: "strspn_loop m s2 s p =
     (if m p \<noteq> 0 then
        (if m p = m s then strspn_loop m s2 (s + 1) s2 else strspn_loop m s2 s (p + 1))
      else Some s)"

definition strspn :: "memory \<Rightarrow> addr \<Rightarrow> addr \<Rightarrow> nat option" where
  "strspn m s1 s2 = map_option (\<lambda>s. s - s1) (strspn_loop m s2 s1 s2)"

text \<open>The inner loop of \<open>strcspn\<close> and \<open>strpbrk\<close>: whether a character is in the string at \<open>p\<close>.\<close>

partial_function (option) accept_loop :: "memory \<Rightarrow> byte \<Rightarrow> addr \<Rightarrow> bool option" where
  [code]: "accept_loop m c p = (if m p \<noteq> 0 then (if m p = c then Some True else accept_loop m c (p + 1)) else Some False)"

partial_function (option) strcspn_loop :: "memory \<Rightarrow> addr \<Rightarrow> addr \<Rightarrow> addr option" where
  [code]: "strcspn_loop m s2 s =
     (if m s \<noteq> 0 then
        (case accept_loop m (m s) s2 of
           None \<Rightarrow> None
         | Some b \<Rightarrow> if b then Some s else strcspn_loop m s2 (s + 1))
      else Some s)"

definition strcspn :: "memory \<Rightarrow> addr \<Rightarrow> addr \<Rightarrow> nat option" where
  "strcspn m s1 s2 = map_option (\<lambda>s. s - s1) (strcspn_loop m s2 s1)"

partial_function (option) strpbrk :: "memory \<Rightarrow> addr \<Rightarrow> addr \<Rightarrow> addr option option" where
  [code]: "strpbrk m s s2 =
     (if m s \<noteq> 0 then
        (case accept_loop m (m s) s2 of
           None \<Rightarrow> None
         | Some b \<Rightarrow> if b then Some (Some s) else strpbrk m (s + 1) s2)
      else Some None)"

partial_function (option) strstr_loop :: "memory \<Rightarrow> addr \<Rightarrow> addr \<Rightarrow> addr \<Rightarrow> addr \<Rightarrow> addr option option" where
  [code]: "strstr_loop m s2 s1 s p =
     (if m p = 0 then Some (Some s1)
      else if m p = m s then strstr_loop m s2 s1 (s + 1) (p + 1)
      else if m s = 0 then Some None
      else strstr_loop m s2 (s1 + 1) (s1 + 1) s2)"

definition strstr :: "memory \<Rightarrow> addr \<Rightarrow> addr \<Rightarrow> addr option option" where
  "strstr m s1 s2 = strstr_loop m s2 s1 s1 s2"

section \<open>Comparison\<close>

partial_function (option) strcmp :: "memory \<Rightarrow> addr \<Rightarrow> addr \<Rightarrow> int option" where
  [code]: "strcmp m s1 s2 =
     (let r = uint (m s1) - uint (m s2)
      in if r = 0 \<and> m s1 \<noteq> 0 then strcmp m (s1 + 1) (s2 + 1) else Some r)"

fun strncmp_loop :: "memory \<Rightarrow> addr \<Rightarrow> addr \<Rightarrow> nat \<Rightarrow> int \<Rightarrow> int" where
  "strncmp_loop m s1 s2 0 r = r"
| "strncmp_loop m s1 s2 (Suc n) r =
     (let r1 = uint (m s1) - uint (m s2)
      in if r1 = 0 \<and> m s1 \<noteq> 0 then strncmp_loop m (s1 + 1) (s2 + 1) n r1 else r1)"

definition strncmp :: "memory \<Rightarrow> addr \<Rightarrow> addr \<Rightarrow> nat \<Rightarrow> int" where
  "strncmp m s1 s2 n = strncmp_loop m s1 s2 n 0"

fun memcmp_loop :: "memory \<Rightarrow> addr \<Rightarrow> addr \<Rightarrow> nat \<Rightarrow> int \<Rightarrow> int" where
  "memcmp_loop m r1 r2 0 r = r"
| "memcmp_loop m r1 r2 (Suc n) r =
     (let d = uint (m r1) - uint (m r2) in if d = 0 then memcmp_loop m (r1 + 1) (r2 + 1) n d else d)"

definition memcmp :: "memory \<Rightarrow> addr \<Rightarrow> addr \<Rightarrow> nat \<Rightarrow> int" where
  "memcmp m s1 s2 n = memcmp_loop m s1 s2 n 0"

section \<open>Copying\<close>

text \<open>The loop \<open>while ((*s++ = *s2++) != 0)\<close>: the memory and the final \<open>s\<close>.\<close>

partial_function (option) copy_loop :: "memory \<Rightarrow> addr \<Rightarrow> addr \<Rightarrow> (memory \<times> addr) option" where
  [code]: "copy_loop m s s2 =
     (let m1 = m(s := m s2) in if m1 s \<noteq> 0 then copy_loop m1 (s + 1) (s2 + 1) else Some (m1, s + 1))"

definition strcpy :: "memory \<Rightarrow> addr \<Rightarrow> addr \<Rightarrow> (addr \<times> memory) option" where
  "strcpy m s1 s2 = map_option (\<lambda>(m1, s). (s1, m1)) (copy_loop m s1 s2)"

definition stpcpy :: "memory \<Rightarrow> addr \<Rightarrow> addr \<Rightarrow> (addr \<times> memory) option" where
  "stpcpy m s1 s2 = map_option (\<lambda>(m1, s). (s - 1, m1)) (copy_loop m s1 s2)"

text \<open>The loop \<open>while (*s++)\<close>.\<close>

partial_function (option) strend_loop :: "memory \<Rightarrow> addr \<Rightarrow> addr option" where
  [code]: "strend_loop m s = (if m s \<noteq> 0 then strend_loop m (s + 1) else Some (s + 1))"

definition strcat :: "memory \<Rightarrow> addr \<Rightarrow> addr \<Rightarrow> (addr \<times> memory) option" where
  "strcat m s1 s2 =
     (case strend_loop m s1 of
        None \<Rightarrow> None
      | Some s \<Rightarrow> map_option (\<lambda>(m1, _). (s1, m1)) (copy_loop m (s - 1) s2))"

fun strncpy_loop :: "memory \<Rightarrow> addr \<Rightarrow> addr \<Rightarrow> nat \<Rightarrow> memory \<times> addr" where
  "strncpy_loop m s s2 0 = (m, s2)"
| "strncpy_loop m s s2 (Suc n) =
     (let m1 = m(s := m s2) in strncpy_loop m1 (s + 1) (if m1 s \<noteq> 0 then s2 + 1 else s2) n)"

definition strncpy :: "memory \<Rightarrow> addr \<Rightarrow> addr \<Rightarrow> nat \<Rightarrow> addr \<times> memory" where
  "strncpy m s1 s2 n = (s1, fst (strncpy_loop m s1 s2 n))"

definition stpncpy :: "memory \<Rightarrow> addr \<Rightarrow> addr \<Rightarrow> nat \<Rightarrow> addr \<times> memory" where
  "stpncpy m s1 s2 n = (let (m1, p) = strncpy_loop m s1 s2 n in (s1 + (p - s2), m1))"

fun strncat_loop :: "memory \<Rightarrow> addr \<Rightarrow> addr \<Rightarrow> nat \<Rightarrow> memory \<times> addr" where
  "strncat_loop m s s2 0 = (m, s)"
| "strncat_loop m s s2 (Suc n) =
     (let m1 = m(s := m s2) in if m1 s \<noteq> 0 then strncat_loop m1 (s + 1) (s2 + 1) n else (m1, s))"

definition strncat :: "memory \<Rightarrow> addr \<Rightarrow> addr \<Rightarrow> nat \<Rightarrow> (addr \<times> memory) option" where
  "strncat m s1 s2 n =
     (case strend_loop m s1 of
        None \<Rightarrow> None
      | Some s \<Rightarrow> (let (m1, e) = strncat_loop m (s - 1) s2 n in Some (s1, m1(e := 0))))"

text \<open>A store to the array \<open>dummy\<close> (\<open>None\<close>) is lost.\<close>

definition store :: "memory \<Rightarrow> addr option \<Rightarrow> byte \<Rightarrow> memory" where
  "store m dst c = (case dst of None \<Rightarrow> m | Some d \<Rightarrow> m(d := c))"

partial_function (option) strlcpy_loop :: "memory \<Rightarrow> addr option \<Rightarrow> addr \<Rightarrow> nat \<Rightarrow> (memory \<times> addr) option" where
  [code]: "strlcpy_loop m dst src n =
     (let c = m src; m1 = store m dst c
      in if c \<noteq> 0 then
           (if n \<noteq> 0 then strlcpy_loop m1 (map_option Suc dst) (src + 1) (n - 1)
            else strlcpy_loop m1 dst (src + 1) n)
         else Some (m1, src))"

definition strlcpy :: "memory \<Rightarrow> addr \<Rightarrow> addr \<Rightarrow> nat \<Rightarrow> (nat \<times> memory) option" where
  "strlcpy m dst src n =
     map_option (\<lambda>(m1, s). (s - src, m1))
       (if n = 0 then strlcpy_loop m None src 0 else strlcpy_loop m (Some dst) src (n - 1))"

text \<open>The first loop of \<open>strlcat\<close> finds the end of the destination within \<open>n\<close> bytes.\<close>

partial_function (option) strlcat_find :: "memory \<Rightarrow> addr \<Rightarrow> nat \<Rightarrow> nat \<Rightarrow> (addr option \<times> nat) option" where
  [code]: "strlcat_find m dst len n =
     (if len \<ge> n then Some (None, len)
      else if m dst = 0 then Some (Some dst, len)
      else strlcat_find m (dst + 1) (len + 1) n)"

partial_function (option) strlcat_loop ::
  "memory \<Rightarrow> addr option \<Rightarrow> addr \<Rightarrow> nat \<Rightarrow> nat \<Rightarrow> (memory \<times> nat) option" where
  [code]: "strlcat_loop m dst src len n =
     (let c = m src; m1 = store m dst c
      in if c \<noteq> 0 then
           strlcat_loop m1 (if len + 1 < n then map_option Suc dst else dst) (src + 1) (len + 1) n
         else Some (m1, len))"

definition strlcat :: "memory \<Rightarrow> addr \<Rightarrow> addr \<Rightarrow> nat \<Rightarrow> (nat \<times> memory) option" where
  "strlcat m dst src n =
     (case strlcat_find m dst 0 n of
        None \<Rightarrow> None
      | Some (d, len) \<Rightarrow> map_option (\<lambda>(m1, l). (l, m1)) (strlcat_loop m d src len n))"

section \<open>Memory blocks\<close>

fun memchr :: "memory \<Rightarrow> addr \<Rightarrow> byte \<Rightarrow> nat \<Rightarrow> addr option" where
  "memchr m r c 0 = None"
| "memchr m r c (Suc n) = (if m r = c then Some r else memchr m (r + 1) c n)"

fun memrchr_loop :: "memory \<Rightarrow> addr \<Rightarrow> byte \<Rightarrow> nat \<Rightarrow> addr option" where
  "memrchr_loop m r c 0 = None"
| "memrchr_loop m r c (Suc n) = (if m (r - 1) = c then Some (r - 1) else memrchr_loop m (r - 1) c n)"

definition memrchr :: "memory \<Rightarrow> addr \<Rightarrow> byte \<Rightarrow> nat \<Rightarrow> addr option" where
  "memrchr m s c n = memrchr_loop m (s + n) c n"

fun memccpy :: "memory \<Rightarrow> addr \<Rightarrow> addr \<Rightarrow> byte \<Rightarrow> nat \<Rightarrow> addr option \<times> memory" where
  "memccpy m r1 r2 c 0 = (None, m)"
| "memccpy m r1 r2 c (Suc n) =
     (let m1 = m(r1 := m r2)
      in if m1 r1 \<noteq> c then memccpy m1 (r1 + 1) (r2 + 1) c n else (Some (r1 + 1), m1))"

fun memcpy_loop :: "memory \<Rightarrow> addr \<Rightarrow> addr \<Rightarrow> nat \<Rightarrow> memory" where
  "memcpy_loop m r1 r2 0 = m"
| "memcpy_loop m r1 r2 (Suc n) = memcpy_loop (m(r1 := m r2)) (r1 + 1) (r2 + 1) n"

definition memcpy :: "memory \<Rightarrow> addr \<Rightarrow> addr \<Rightarrow> nat \<Rightarrow> addr \<times> memory" where
  "memcpy m s1 s2 n = (s1, memcpy_loop m s1 s2 n)"

fun mempcpy_loop :: "memory \<Rightarrow> addr \<Rightarrow> addr \<Rightarrow> nat \<Rightarrow> addr \<times> memory" where
  "mempcpy_loop m r1 r2 0 = (r1, m)"
| "mempcpy_loop m r1 r2 (Suc n) = mempcpy_loop (m(r1 := m r2)) (r1 + 1) (r2 + 1) n"

definition mempcpy :: "memory \<Rightarrow> addr \<Rightarrow> addr \<Rightarrow> nat \<Rightarrow> addr \<times> memory" where
  "mempcpy m s1 s2 n = mempcpy_loop m s1 s2 n"

fun memmove_down :: "memory \<Rightarrow> addr \<Rightarrow> addr \<Rightarrow> nat \<Rightarrow> memory" where
  "memmove_down m s p 0 = m"
| "memmove_down m s p (Suc n) = memmove_down (m(s + n := m (p + n))) s p n"

definition memmove :: "memory \<Rightarrow> addr \<Rightarrow> addr \<Rightarrow> nat \<Rightarrow> addr \<times> memory" where
  "memmove m s1 s2 n = (s1, if s2 \<ge> s1 then memcpy_loop m s1 s2 n else memmove_down m s1 s2 n)"

fun memset_loop :: "memory \<Rightarrow> addr \<Rightarrow> byte \<Rightarrow> nat \<Rightarrow> memory" where
  "memset_loop m p c 0 = m"
| "memset_loop m p c (Suc n) = memset_loop (m(p := c)) (p + 1) c n"

definition memset :: "memory \<Rightarrow> addr \<Rightarrow> byte \<Rightarrow> nat \<Rightarrow> addr \<times> memory" where
  "memset m s c n = (s, memset_loop m s c n)"

definition bcopy :: "memory \<Rightarrow> addr \<Rightarrow> addr \<Rightarrow> nat \<Rightarrow> memory" where
  "bcopy m s2 s1 n = snd (memmove m s1 s2 n)"

definition bzero :: "memory \<Rightarrow> addr \<Rightarrow> nat \<Rightarrow> memory" where
  "bzero m s n = snd (memset m s 0 n)"

partial_function (option) rawmemchr :: "memory \<Rightarrow> addr \<Rightarrow> byte \<Rightarrow> addr option" where
  [code]: "rawmemchr m r c = (if m r \<noteq> c then rawmemchr m (r + 1) c else Some r)"

text \<open>The inner loop of \<open>memmem\<close>: whether the needle is at \<open>ph\<close>.\<close>

partial_function (option) memmem_match :: "memory \<Rightarrow> addr \<Rightarrow> addr \<Rightarrow> nat \<Rightarrow> nat \<Rightarrow> bool option" where
  [code]: "memmem_match m ph pn needlelen n =
     (if m (ph + n) = m (pn + n) then
        (if n + 1 = needlelen then Some True else memmem_match m ph pn needlelen (n + 1))
      else Some False)"

partial_function (option) memmem_loop :: "memory \<Rightarrow> addr \<Rightarrow> addr \<Rightarrow> nat \<Rightarrow> addr \<Rightarrow> addr option option" where
  [code]: "memmem_loop m ph pn needlelen plast =
     (case memmem_match m ph pn needlelen 0 of
        None \<Rightarrow> None
      | Some b \<Rightarrow>
          if b then Some (Some ph)
          else if ph + 1 \<le> plast then memmem_loop m (ph + 1) pn needlelen plast else Some None)"

definition memmem :: "memory \<Rightarrow> addr \<Rightarrow> nat \<Rightarrow> addr \<Rightarrow> nat \<Rightarrow> addr option option" where
  "memmem m haystack haystacklen needle needlelen =
     (if needlelen = 0 then Some (Some haystack)
      else if haystacklen \<ge> needlelen
      then memmem_loop m haystack needle needlelen (haystack + (haystacklen - needlelen))
      else Some None)"

section \<open>Tokens\<close>

text \<open>The returned pointer, the new \<open>*s1\<close> and the memory.\<close>

definition strsep :: "memory \<Rightarrow> addr option \<Rightarrow> addr \<Rightarrow> (addr option \<times> addr option \<times> memory) option" where
  "strsep m s1 s2 =
     (case s1 of
        None \<Rightarrow> Some (None, None, m)
      | Some s \<Rightarrow>
          if m s \<noteq> 0 then
            (case strpbrk m s s2 of
               None \<Rightarrow> None
             | Some None \<Rightarrow> Some (Some s, None, m)
             | Some (Some p) \<Rightarrow> Some (Some s, Some (p + 1), m(p := 0)))
          else Some (Some s, None, m))"

text \<open>The same with \<open>*next_start\<close>.\<close>

definition strtok_r ::
  "memory \<Rightarrow> addr option \<Rightarrow> addr \<Rightarrow> addr option \<Rightarrow> (addr option \<times> addr option \<times> memory) option" where
  "strtok_r m s1 s2 next_start =
     (case (case s1 of Some s \<Rightarrow> Some s | None \<Rightarrow> next_start) of
        None \<Rightarrow> Some (None, next_start, m)
      | Some s0 \<Rightarrow>
          (case strspn m s0 s2 of
             None \<Rightarrow> None
           | Some k \<Rightarrow>
               (let s = s0 + k
                in if m s \<noteq> 0 then
                     (case strpbrk m s s2 of
                        None \<Rightarrow> None
                      | Some None \<Rightarrow> Some (Some s, None, m)
                      | Some (Some p) \<Rightarrow> Some (Some s, Some (p + 1), m(p := 0)))
                   else Some (None, None, m))))"

section \<open>The word-at-a-time strlen\<close>

text \<open>The 32-bit variant on a little-endian machine.\<close>

definition longword_at :: "memory \<Rightarrow> addr \<Rightarrow> 32 word" where
  "longword_at m p =
     word_of_int (uint (m p) + 2 ^ 8 * uint (m (p + 1)) + 2 ^ 16 * uint (m (p + 2)) + 2 ^ 24 * uint (m (p + 3)))"

definition maybe_zero :: "32 word \<Rightarrow> bool" where
  "maybe_zero longword \<longleftrightarrow> and (longword - 0x01010101) 0x80808080 \<noteq> 0"

partial_function (option) strlen_words :: "memory \<Rightarrow> addr \<Rightarrow> addr option" where
  [code]: "strlen_words m cp =
     (if maybe_zero (longword_at m cp) then
        (if m cp = 0 then Some cp
         else if m (cp + 1) = 0 then Some (cp + 1)
         else if m (cp + 2) = 0 then Some (cp + 2)
         else if m (cp + 3) = 0 then Some (cp + 3)
         else strlen_words m (cp + 4))
      else strlen_words m (cp + 4))"

partial_function (option) strlen_align :: "memory \<Rightarrow> addr \<Rightarrow> (addr + addr) option" where
  [code]: "strlen_align m char_ptr =
     (if and char_ptr 3 \<noteq> 0 then
        (if m char_ptr = 0 then Some (Inl char_ptr) else strlen_align m (char_ptr + 1))
      else Some (Inr char_ptr))"

definition strlen_generic :: "memory \<Rightarrow> addr \<Rightarrow> nat option" where
  "strlen_generic m str =
     (case strlen_align m str of
        None \<Rightarrow> None
      | Some (Inl p) \<Rightarrow> Some (p - str)
      | Some (Inr p) \<Rightarrow> map_option (\<lambda>q. q - str) (strlen_words m p))"

section \<open>Bits and paths\<close>

text \<open>The binary search for the lowest set bit, on 32-bit \<open>int\<close>s; \<open>>>\<close> of a signed integer is
  arithmetic.\<close>

definition ffs_step :: "nat \<Rightarrow> 32 word \<times> nat \<Rightarrow> 32 word \<times> nat" where
  "ffs_step k = (\<lambda>(i, n). if and i (mask k) = 0 then (signed_drop_bit k i, n + k) else (i, n))"

definition ffs :: "32 word \<Rightarrow> nat" where
  "ffs i0 =
     (let (i, n) = ffs_step 2 (ffs_step 4 (ffs_step 8 (ffs_step 16 (i0, 1))))
      in if i \<noteq> 0 then n + unat (and (i + 1) 1) else 0)"

definition ffsll :: "64 word \<Rightarrow> nat" where
  "ffsll i =
     (if and i (- i) \<le> 0xffffffff then ffs (ucast i) else 32 + ffs (ucast (signed_drop_bit 32 i)))"

partial_function (option) basename_loop :: "memory \<Rightarrow> addr \<Rightarrow> addr \<Rightarrow> addr option" where
  [code]: "basename_loop m s p =
     (if m s \<noteq> 0 then basename_loop m (s + 1) (if m s = 47 then s + 1 else p) else Some p)"

definition basename :: "memory \<Rightarrow> addr \<Rightarrow> addr option" where
  "basename m path = basename_loop m path path"

end
