(* ===== verification/Strings_Proofs.thy ===== *)
theory Strings_Proofs
  imports Strings
begin

text \<open>
  The behaviour of the string functions. \<open>str_at m p s\<close> says that the memory holds the string \<open>s\<close>,
  terminated, at \<open>p\<close>; \<open>write_bytes\<close> and \<open>block\<close> write and read a sequence of bytes. Every routine is
  proved to return and to compute a function on lists: first and last places, \<open>takeWhile\<close>, the
  first occurrence of a list in another one, the lexicographic order, the tokens of a string. The
  copying routines are given by the bytes they write.
\<close>

section \<open>Strings in memory\<close>

definition str_at :: "memory \<Rightarrow> addr \<Rightarrow> byte list \<Rightarrow> bool" where
  "str_at m p s \<longleftrightarrow> 0 \<notin> set s \<and> (\<forall>i < length s. m (p + i) = s ! i) \<and> m (p + length s) = 0"

definition write_bytes :: "memory \<Rightarrow> addr \<Rightarrow> byte list \<Rightarrow> memory" where
  "write_bytes m p bs = (\<lambda>a. if p \<le> a \<and> a < p + length bs then bs ! (a - p) else m a)"

lemma str_at_simps [simp]:
  "str_at m p [] \<longleftrightarrow> m p = 0"
  "str_at m p (c # s) \<longleftrightarrow> c \<noteq> 0 \<and> m p = c \<and> str_at m (Suc p) s"
  by (auto simp: str_at_def All_less_Suc2)

lemma str_at_upd: "a < p \<or> p + length s < a \<Longrightarrow> str_at (m(a := c)) p s \<longleftrightarrow> str_at m p s"
proof -
  assume "a < p \<or> p + length s < a"
  then have "(m(a := c)) (p + i) = m (p + i)" if "i \<le> length s" for i using that by auto
  then show "str_at (m(a := c)) p s \<longleftrightarrow> str_at m p s" unfolding str_at_def by (simp del: fun_upd_apply)
qed

lemma str_at_append: "str_at m p (s @ t) \<longleftrightarrow> 0 \<notin> set s \<and> (\<forall>i < length s. m (p + i) = s ! i) \<and> str_at m (p + length s) t"
proof (induction s arbitrary: p)
  case (Cons c s)
  have "(\<forall>i < length (c # s). m (p + i) = (c # s) ! i) \<longleftrightarrow> m p = c \<and> (\<forall>i < length s. m (Suc p + i) = s ! i)"
    by (simp add: All_less_Suc2)
  then show ?case using Cons by auto
qed simp

lemma write_simps [simp]: "write_bytes m p [] = m" "write_bytes m p (c # bs) = write_bytes (m(p := c)) (Suc p) bs"
  by (rule ext, auto simp: write_bytes_def nth_Cons')+

lemma write_at: "p \<le> a \<Longrightarrow> a < p + length bs \<Longrightarrow> write_bytes m p bs a = bs ! (a - p)"
  "a < p \<or> p + length bs \<le> a \<Longrightarrow> write_bytes m p bs a = m a"
  by (auto simp: write_bytes_def)

lemma str_at_write: "0 \<notin> set s \<Longrightarrow> str_at (write_bytes m p (s @ [0])) p s"
  by (auto simp: str_at_def write_at nth_append)

lemma write_twice: "write_bytes (m(p := c)) p (d # bs) = write_bytes m p (d # bs)"
  by simp

section \<open>Lengths and searches\<close>

lemma strlen_loop_str: "str_at m p s \<Longrightarrow> strlen_loop m p = Some (p + length s)"
proof (induction s arbitrary: p)
  case Nil
  then show ?case by (subst strlen_loop.simps) simp
next
  case (Cons c s)
  then show ?case by (subst strlen_loop.simps) simp
qed

lemma strlen_str: "str_at m p s \<Longrightarrow> strlen m p = Some (length s)"
  by (simp add: strlen_def strlen_loop_str)

lemma strnlen_str: "str_at m p s \<Longrightarrow> strnlen m p n = min n (length s)"
proof -
  have "str_at m p s \<Longrightarrow> strnlen_loop m p n = p + min n (length s)"
  proof (induction s arbitrary: p n)
    case Nil
    then show ?case by (cases n) auto
  next
    case (Cons c s)
    then show ?case by (cases n) auto
  qed
  then show "str_at m p s \<Longrightarrow> strnlen m p n = min n (length s)" by (simp add: strnlen_def)
qed

lemma strchr_str:
  "str_at m p s \<Longrightarrow> strchr m p c =
     Some (if c \<in> set (s @ [0]) then Some (p + length (takeWhile (\<lambda>x. x \<noteq> c) (s @ [0]))) else None)"
proof (induction s arbitrary: p)
  case Nil
  then show ?case by (subst strchr.simps) simp
next
  case (Cons d s)
  then show ?case by (subst strchr.simps) auto
qed

lemma strchrnul_str:
  "str_at m p s \<Longrightarrow> strchrnul m p c = Some (p + length (takeWhile (\<lambda>x. x \<noteq> c) s))"
proof (induction s arbitrary: p)
  case Nil
  then show ?case by (subst strchrnul.simps) simp
next
  case (Cons d s)
  then show ?case by (subst strchrnul.simps) auto
qed

lemma accept_loop_str: "str_at m p s \<Longrightarrow> accept_loop m c p = Some (c \<in> set s)"
proof (induction s arbitrary: p)
  case Nil
  then show ?case by (subst accept_loop.simps) simp
next
  case (Cons d s)
  then show ?case by (subst accept_loop.simps) auto
qed

lemma strcspn_loop_str:
  assumes "str_at m q acc"
  shows "str_at m p s \<Longrightarrow> strcspn_loop m q p = Some (p + length (takeWhile (\<lambda>x. x \<notin> set acc) s))"
proof (induction s arbitrary: p)
  case Nil
  then show ?case by (subst strcspn_loop.simps) simp
next
  case (Cons d s)
  then show ?case using accept_loop_str [OF assms] by (subst strcspn_loop.simps) auto
qed

lemma strpbrk_str:
  assumes "str_at m q acc"
  shows "str_at m p s \<Longrightarrow> strpbrk m p q =
    Some (if set s \<inter> set acc = {} then None else Some (p + length (takeWhile (\<lambda>x. x \<notin> set acc) s)))"
proof (induction s arbitrary: p)
  case Nil
  then show ?case by (subst strpbrk.simps) simp
next
  case (Cons d s)
  then show ?case using accept_loop_str [OF assms] by (subst strpbrk.simps) auto
qed

lemma strspn_scan:
  "str_at m p suf \<Longrightarrow> strspn_loop m q s p = (if m s \<in> set suf then strspn_loop m q (s + 1) q else Some s)"
proof (induction suf arbitrary: p)
  case Nil
  then show ?case by (subst strspn_loop.simps) simp
next
  case (Cons d suf)
  then show ?case by (subst strspn_loop.simps) auto
qed

lemma strspn_loop_str:
  assumes "str_at m q acc"
  shows "str_at m p s \<Longrightarrow> strspn_loop m q p q = Some (p + length (takeWhile (\<lambda>x. x \<in> set acc) s))"
proof (induction s arbitrary: p)
  case Nil
  moreover have "0 \<notin> set acc" using assms by (simp add: str_at_def)
  ultimately show ?case using strspn_scan [OF assms, of q p] by simp
next
  case (Cons d s)
  then show ?case using strspn_scan [OF assms, of q p] by auto
qed

section \<open>Substrings\<close>

fun find_sub :: "'a list \<Rightarrow> 'a list \<Rightarrow> nat option" where
  "find_sub nd s = (if prefix nd s then Some 0 else case s of [] \<Rightarrow> None | _ # t \<Rightarrow> map_option Suc (find_sub nd t))"

declare find_sub.simps [simp del]

lemma find_sub_short: "length s < length nd \<Longrightarrow> find_sub nd s = None"
proof (induction s)
  case Nil
  then show ?case by (subst find_sub.simps) auto
next
  case (Cons c s)
  then have "\<not> prefix nd (c # s)" using prefix_length_le by fastforce
  then show ?case using Cons by (subst find_sub.simps) simp
qed

lemma find_sub_Some: "find_sub nd s = Some k \<longleftrightarrow> k \<le> length s \<and> prefix nd (drop k s) \<and> (\<forall>j < k. \<not> prefix nd (drop j s))"
proof (induction s arbitrary: k)
  case Nil
  then show ?case by (subst find_sub.simps) auto
next
  case (Cons c s)
  show ?case
  proof (cases "prefix nd (c # s)")
    case True
    then show ?thesis by (subst find_sub.simps) auto
  next
    case False
    then have "find_sub nd (c # s) = map_option Suc (find_sub nd s)" by (subst find_sub.simps) simp
    then show ?thesis using False Cons.IH
      by (cases k) (auto simp: All_less_Suc2 split: nat.splits)
  qed
qed

lemma strstr_loop_scan:
  "\<lbrakk>str_at m p nd; str_at m s suf; q + j = p; s1 + j = s\<rbrakk> \<Longrightarrow>
    strstr_loop m q s1 s p =
      (if prefix nd suf then Some (Some s1)
       else if length suf < length nd \<and> prefix suf nd then Some None
       else strstr_loop m q (s1 + 1) (s1 + 1) q)"
proof (induction nd arbitrary: p s suf j)
  case Nil
  then show ?case by (subst strstr_loop.simps) simp
next
  case (Cons c nd)
  show ?case
  proof (cases suf)
    case Nil
    then show ?thesis using Cons.prems by (subst strstr_loop.simps) auto
  next
    case (Cons d suf')
    then show ?thesis using Cons.prems Cons.IH [of "Suc p" "Suc s" suf' "Suc j"] by (subst strstr_loop.simps) auto
  qed
qed

lemma strstr_str:
  assumes "str_at m q nd"
  shows "str_at m p s \<Longrightarrow> strstr m p q = Some (map_option ((+) p) (find_sub nd s))"
proof (induction s arbitrary: p)
  case Nil
  then show ?case using strstr_loop_scan [OF assms Nil, of q 0 p]
    by (subst find_sub.simps) (auto simp: strstr_def)
next
  case (Cons c s)
  note scan = strstr_loop_scan [OF assms Cons.prems, of q 0 p]
  have fs: "find_sub nd (c # s) = (if prefix nd (c # s) then Some 0 else map_option Suc (find_sub nd s))"
    by (subst find_sub.simps) simp
  show ?case
  proof (cases "length (c # s) < length nd \<and> prefix (c # s) nd")
    case True
    then have "find_sub nd s = None" by (intro find_sub_short) simp
    then show ?thesis using scan True by (auto simp: strstr_def fs dest: prefix_length_le)
  next
    case False
    then show ?thesis using scan Cons by (auto simp: strstr_def fs option.map_comp comp_def)
  qed
qed

section \<open>Comparison\<close>

lemma strcmp_str:
  "\<lbrakk>str_at m p s; str_at m q t\<rbrakk> \<Longrightarrow>
    \<exists>r. strcmp m p q = Some r \<and> (r = 0 \<longleftrightarrow> s = t) \<and> (r < 0 \<longleftrightarrow> s < t)"
proof (induction s arbitrary: p q t)
  case Nil
  show ?case
  proof (cases t)
    case Nil
    then show ?thesis using Nil.prems \<open>str_at m p []\<close> by (subst strcmp.simps) (simp add: Let_def)
  next
    case (Cons d t')
    then have "0 < uint (m q)" using Nil.prems by (simp add: unsigned_eq_0_iff order.strict_iff_order)
    then show ?thesis using Nil.prems Cons by (subst strcmp.simps) (simp add: Let_def)
  qed
next
  case (Cons c s)
  show ?case
  proof (cases t)
    case Nil
    then show ?thesis using Cons.prems by (subst strcmp.simps) (auto simp: Let_def word_less_def unsigned_eq_0_iff)
  next
    case (Cons d t')
    show ?thesis
    proof (cases "c = d")
      case True
      then show ?thesis using Cons.prems Cons Cons.IH [of "Suc p" "Suc q" t']
        by (subst strcmp.simps) (auto simp: Let_def)
    next
      case False
      then have "uint c - uint d \<noteq> 0" by (simp add: word_uint_eq_iff)
      then show ?thesis using Cons.prems Cons False
        by (subst strcmp.simps) (auto simp: Let_def word_less_def)
    qed
  qed
qed

section \<open>Copying\<close>

lemma copy_loop_str:
  "\<lbrakk>str_at m p s; d \<le> p \<or> p + length s < d\<rbrakk> \<Longrightarrow>
    copy_loop m d p = Some (write_bytes m d (s @ [0]), d + length s + 1)"
proof (induction s arbitrary: m d p)
  case Nil
  then show ?case by (subst copy_loop.simps) (simp add: Let_def)
next
  case (Cons c s)
  then have str: "str_at (m(d := c)) (Suc p) s" by (subst str_at_upd) auto
  then have "copy_loop (m(d := c)) (Suc d) (Suc p) = Some (write_bytes (m(d := c)) (Suc d) (s @ [0]), Suc d + length s + 1)"
    using Cons.prems by (intro Cons.IH [OF str]) auto
  then show ?case using Cons.prems by (subst copy_loop.simps) (simp add: Let_def del: fun_upd_apply add: fun_upd_same)
qed

lemma strend_loop_str: "str_at m p s \<Longrightarrow> strend_loop m p = Some (p + length s + 1)"
proof (induction s arbitrary: p)
  case Nil
  then show ?case by (subst strend_loop.simps) simp
next
  case (Cons c s)
  then show ?case by (subst strend_loop.simps) simp
qed

lemma strncpy_loop_zero: "m p = 0 \<Longrightarrow> p < d \<or> d + n \<le> p \<Longrightarrow> strncpy_loop m d p n = (write_bytes m d (replicate n 0), p)"
  by (induction n arbitrary: m d) (auto simp: Let_def)

lemma strncpy_loop_str:
  "\<lbrakk>str_at m p s; p + length s < d \<or> d + n \<le> p\<rbrakk> \<Longrightarrow>
    strncpy_loop m d p n = (write_bytes m d (take n s @ replicate (n - length s) 0), p + min n (length s))"
proof (induction s arbitrary: m d p n)
  case Nil
  then show ?case using strncpy_loop_zero by auto
next
  case (Cons c s)
  show ?case
  proof (cases n)
    case (Suc k)
    then have str: "str_at (m(d := c)) (Suc p) s" using Cons.prems by (subst str_at_upd) auto
    then have "strncpy_loop (m(d := c)) (Suc d) (Suc p) k =
        (write_bytes (m(d := c)) (Suc d) (take k s @ replicate (k - length s) 0), Suc p + min k (length s))"
      using Cons.prems Suc by (intro Cons.IH [OF str]) auto
    then show ?thesis using Cons.prems Suc by (simp add: Let_def del: fun_upd_apply add: fun_upd_same)
  qed simp
qed

lemma strncat_loop_str:
  "\<lbrakk>str_at m p s; p + length s < d \<or> d + n \<le> p\<rbrakk> \<Longrightarrow>
    \<exists>m1. strncat_loop m d p n = (m1, d + min n (length s)) \<and> m1(d + min n (length s) := 0) = write_bytes m d (take n s @ [0])"
proof (induction s arbitrary: m d p n)
  case Nil
  then show ?case by (cases n) (auto simp: Let_def)
next
  case (Cons c s)
  show ?case
  proof (cases n)
    case (Suc k)
    then have str: "str_at (m(d := c)) (Suc p) s" using Cons.prems by (subst str_at_upd) auto
    then have "\<exists>m1. strncat_loop (m(d := c)) (Suc d) (Suc p) k = (m1, Suc d + min k (length s)) \<and>
        m1(Suc d + min k (length s) := 0) = write_bytes (m(d := c)) (Suc d) (take k s @ [0])"
      using Cons.prems Suc by (intro Cons.IH [OF str]) auto
    then show ?thesis using Cons.prems Suc by (simp add: Let_def del: fun_upd_apply add: fun_upd_same)
  qed simp
qed

lemma strlcpy_loop_str:
  "\<lbrakk>str_at m p s; d + min n (length s) < p \<or> p + length s < d\<rbrakk> \<Longrightarrow>
    strlcpy_loop m (Some d) p n = Some (write_bytes m d (take n s @ [0]), p + length s)"
proof (induction s arbitrary: m d p n)
  case Nil
  then show ?case by (subst strlcpy_loop.simps) (simp add: Let_def store_def)
next
  case (Cons c s)
  have str: "str_at (m(d := c)) (Suc p) s" using Cons.prems by (subst str_at_upd) (auto simp: min_def split: if_splits)
  show ?case
  proof (cases n)
    case 0
    have "strlcpy_loop (m(d := c)) (Some d) (Suc p) 0 = Some (write_bytes (m(d := c)) d (take 0 s @ [0]), Suc p + length s)"
      using Cons.prems 0 str by (intro Cons.IH [OF str]) auto
    then show ?thesis using Cons.prems 0
      by (subst strlcpy_loop.simps) (simp add: Let_def store_def del: fun_upd_apply add: fun_upd_same)
  next
    case (Suc k)
    have "strlcpy_loop (m(d := c)) (Some (Suc d)) (Suc p) k = Some (write_bytes (m(d := c)) (Suc d) (take k s @ [0]), Suc p + length s)"
      using Cons.prems Suc str by (intro Cons.IH [OF str]) auto
    then show ?thesis using Cons.prems Suc
      by (subst strlcpy_loop.simps) (simp add: Let_def store_def del: fun_upd_apply add: fun_upd_same)
  qed
qed

lemma strlcpy_loop_dummy: "str_at m p s \<Longrightarrow> strlcpy_loop m None p 0 = Some (m, p + length s)"
proof (induction s arbitrary: p)
  case Nil
  then show ?case by (subst strlcpy_loop.simps) (simp add: Let_def store_def)
next
  case (Cons c s)
  then show ?case by (subst strlcpy_loop.simps) (simp add: Let_def store_def)
qed

lemma strlcpy_str:
  assumes "str_at m p s" "n \<noteq> 0 \<longrightarrow> d + min (n - 1) (length s) < p \<or> p + length s < d"
  shows "strlcpy m d p n = Some (length s, if n = 0 then m else write_bytes m d (take (n - 1) s @ [0]))"
  using assms strlcpy_loop_str [of m p s d "n - 1"] strlcpy_loop_dummy [of m p s] by (auto simp: strlcpy_def)

lemma strlcat_find_str:
  "str_at m p s \<Longrightarrow> len \<le> n \<Longrightarrow>
    strlcat_find m p len n = Some (if len + length s < n then (Some (p + length s), len + length s) else (None, n))"
proof (induction s arbitrary: p len)
  case Nil
  then show ?case by (subst strlcat_find.simps) auto
next
  case (Cons c s)
  then show ?case by (subst strlcat_find.simps) auto
qed

lemma strlcat_loop_str:
  "\<lbrakk>str_at m p s; d + min (n - 1 - len) (length s) < p \<or> p + length s < d\<rbrakk> \<Longrightarrow>
    strlcat_loop m (Some d) p len n = Some (write_bytes m d (take (n - 1 - len) s @ [0]), len + length s)"
proof (induction s arbitrary: m d p len)
  case Nil
  then show ?case by (subst strlcat_loop.simps) (simp add: Let_def store_def)
next
  case (Cons c s)
  have str: "str_at (m(d := c)) (Suc p) s" using Cons.prems by (subst str_at_upd) (auto simp: min_def split: if_splits)
  show ?case
  proof (cases "len + 1 < n")
    case True
    then have "n - 1 - len = Suc (n - 1 - Suc len)" by simp
    moreover have "strlcat_loop (m(d := c)) (Some (Suc d)) (Suc p) (Suc len) n =
        Some (write_bytes (m(d := c)) (Suc d) (take (n - 1 - Suc len) s @ [0]), Suc len + length s)"
      using Cons.prems True str by (intro Cons.IH [OF str]) auto
    ultimately show ?thesis using True Cons.prems
      by (subst strlcat_loop.simps) (simp add: Let_def store_def del: fun_upd_apply add: fun_upd_same)
  next
    case False
    then have "n - 1 - len = 0" "n - 1 - Suc len = 0" by auto
    moreover have "strlcat_loop (m(d := c)) (Some d) (Suc p) (Suc len) n =
        Some (write_bytes (m(d := c)) d (take (n - 1 - Suc len) s @ [0]), Suc len + length s)"
      using Cons.prems False str by (intro Cons.IH [OF str]) auto
    ultimately show ?thesis using False Cons.prems
      by (subst strlcat_loop.simps) (simp add: Let_def store_def del: fun_upd_apply add: fun_upd_same)
  qed
qed

lemma strlcat_loop_dummy: "str_at m p s \<Longrightarrow> strlcat_loop m None p len n = Some (m, len + length s)"
proof (induction s arbitrary: p len)
  case Nil
  then show ?case by (subst strlcat_loop.simps) (simp add: Let_def store_def)
next
  case (Cons c s)
  then show ?case by (subst strlcat_loop.simps) (simp add: Let_def store_def)
qed

lemma strlcat_str:
  assumes "str_at m d ds" "str_at m p s"
    "length ds < n \<longrightarrow> d + length ds + min (n - 1 - length ds) (length s) < p \<or> p + length s < d + length ds"
  shows "strlcat m d p n =
    (if length ds < n
     then Some (length ds + length s, write_bytes m (d + length ds) (take (n - 1 - length ds) s @ [0]))
     else Some (n + length s, m))"
  using strlcat_find_str [OF assms(1), of 0 n] strlcat_loop_str [OF assms(2), of "d + length ds" n "length ds"]
    strlcat_loop_dummy [OF assms(2), of n n] assms(3)
  by (auto simp: strlcat_def)

section \<open>Memory blocks\<close>

definition block :: "memory \<Rightarrow> addr \<Rightarrow> nat \<Rightarrow> byte list" where
  "block m p n = map (\<lambda>i. m (p + i)) [0..<n]"

lemma block_length [simp]: "length (block m p n) = n"
  by (simp add: block_def)

lemma memcpy_loop_block:
  "d \<le> p \<or> p + n \<le> d \<Longrightarrow> memcpy_loop m d p n = write_bytes m d (block m p n)"
proof (induction n arbitrary: m d p)
  case (Suc n)
  have "block m p (Suc n) = m p # block (m(d := m p)) (Suc p) n"
    using Suc.prems by (auto simp: block_def upt_conv_Cons map_Suc_upt [symmetric] simp del: upt_Suc)
  moreover have "memcpy_loop (m(d := m p)) (Suc d) (Suc p) n = write_bytes (m(d := m p)) (Suc d) (block (m(d := m p)) (Suc p) n)"
    using Suc.prems by (intro Suc.IH) auto
  ultimately show ?case by (simp del: fun_upd_apply)
qed (simp add: block_def)

lemma memmove_down_block: "p < d \<Longrightarrow> memmove_down m d p n = write_bytes m d (block m p n)"
proof (induction n arbitrary: m)
  case (Suc n)
  have "block (m(d + n := m (p + n))) p n = block m p n" using Suc.prems by (auto simp: block_def)
  then have "memmove_down m d p (Suc n) = write_bytes (m(d + n := m (p + n))) d (block m p n)"
    using Suc by simp
  also have "\<dots> = write_bytes m d (block m p (Suc n))"
    by (rule ext) (auto simp: write_bytes_def block_def nth_append)
  finally show ?case .
qed (simp add: block_def)

lemma memmove_block: "memmove m d p n = (d, write_bytes m d (block m p n))"
  using memcpy_loop_block [of d p n m] memmove_down_block [of p d m n] by (auto simp: memmove_def)

lemma memset_block: "memset m p c n = (p, write_bytes m p (replicate n c))"
proof -
  have "memset_loop m p c n = write_bytes m p (replicate n c)" by (induction n arbitrary: m p) auto
  then show ?thesis by (simp add: memset_def)
qed

section \<open>Searching backwards, bounded searches\<close>

text \<open>The places of the first and of the last occurrence of a byte.\<close>

fun first_index :: "'a \<Rightarrow> 'a list \<Rightarrow> nat option" where
  "first_index c [] = None"
| "first_index c (x # xs) = (if x = c then Some 0 else map_option Suc (first_index c xs))"

fun last_index :: "'a \<Rightarrow> 'a list \<Rightarrow> nat option" where
  "last_index c [] = None"
| "last_index c (x # xs) =
     (case last_index c xs of Some k \<Rightarrow> Some (Suc k) | None \<Rightarrow> if x = c then Some 0 else None)"

lemma first_index_None: "first_index c xs = None \<longleftrightarrow> c \<notin> set xs"
  by (induction xs) auto

lemma first_index_Some:
  "first_index c xs = Some k \<longleftrightarrow> k < length xs \<and> xs ! k = c \<and> (\<forall>j < k. xs ! j \<noteq> c)"
proof (induction xs arbitrary: k)
  case (Cons x xs)
  then show ?case by (cases k) (auto simp: All_less_Suc2)
qed simp

lemma last_index_None: "last_index c xs = None \<longleftrightarrow> c \<notin> set xs"
  by (induction xs) (auto split: option.splits)

lemma last_index_Some:
  "last_index c xs = Some k \<Longrightarrow> k < length xs \<and> xs ! k = c \<and> (\<forall>j < length xs. k < j \<longrightarrow> xs ! j \<noteq> c)"
proof (induction xs arbitrary: k)
  case (Cons x xs)
  show ?case
  proof (cases "last_index c xs")
    case None
    then have "\<forall>j < length xs. xs ! j \<noteq> c" by (simp add: last_index_None in_set_conv_nth)
    then show ?thesis using Cons.prems None by (auto simp: nth_Cons' split: if_splits)
  next
    case (Some i)
    then show ?thesis using Cons.prems Cons.IH [OF Some] by (auto simp: nth_Cons')
  qed
qed simp

lemma last_index_snoc: "last_index c (xs @ [x]) = (if x = c then Some (length xs) else last_index c xs)"
  by (induction xs) (auto split: option.splits)

lemma strchr_first:
  "str_at m p s \<Longrightarrow> strchr m p c = Some (map_option ((+) p) (first_index c (s @ [0])))"
proof (induction s arbitrary: p)
  case Nil
  then show ?case by (subst strchr.simps) auto
next
  case (Cons d s)
  then show ?case by (subst strchr.simps) (auto simp: option.map_comp comp_def)
qed

lemma strrchr_loop_last:
  "str_at m p s \<Longrightarrow> strrchr_loop m p c q =
     Some (case last_index c (s @ [0]) of Some k \<Rightarrow> Some (p + k) | None \<Rightarrow> q)"
proof (induction s arbitrary: p q)
  case Nil
  then show ?case by (subst strrchr_loop.simps) (auto simp: Let_def)
next
  case (Cons d s)
  then show ?case by (subst strrchr_loop.simps) (auto simp: Let_def split: option.splits)
qed

lemma strrchr_last:
  "str_at m p s \<Longrightarrow> strrchr m p c = Some (map_option ((+) p) (last_index c (s @ [0])))"
  by (simp add: strrchr_def strrchr_loop_last split: option.splits)

lemma block_0 [simp]: "block m p 0 = []"
  by (simp add: block_def)

lemma block_Suc: "block m p (Suc n) = m p # block m (Suc p) n"
  by (simp add: block_def upt_conv_Cons map_Suc_upt [symmetric] del: upt_Suc)

lemma block_snoc: "block m p (Suc n) = block m p n @ [m (p + n)]"
  by (simp add: block_def)

lemma block_upd: "a < p \<or> p + n \<le> a \<Longrightarrow> block (m(a := c)) p n = block m p n"
  by (auto simp: block_def)

lemma memchr_first: "memchr m p c n = map_option ((+) p) (first_index c (block m p n))"
proof (induction n arbitrary: p)
  case (Suc n)
  then show ?case by (cases "first_index c (block m (Suc p) n)") (auto simp: block_Suc)
qed simp

lemma memrchr_loop_last: "memrchr_loop m (p + n) c n = map_option ((+) p) (last_index c (block m p n))"
  by (induction n) (auto simp: block_snoc last_index_snoc)

lemma memrchr_last: "memrchr m p c n = map_option ((+) p) (last_index c (block m p n))"
  by (simp add: memrchr_def memrchr_loop_last)

lemma memccpy_stop:
  "d \<le> p \<or> p + n \<le> d \<Longrightarrow> memccpy m d p c n =
     (case first_index c (block m p n) of
        None \<Rightarrow> (None, write_bytes m d (block m p n))
      | Some k \<Rightarrow> (Some (d + k + 1), write_bytes m d (block m p (k + 1))))"
proof (induction n arbitrary: m d p)
  case (Suc n)
  let ?m = "m(d := m p)"
  have blk: "block ?m (Suc p) k = block m (Suc p) k" if "k \<le> n" for k
    using Suc.prems that by (intro block_upd) auto
  have IH: "memccpy ?m (Suc d) (Suc p) c n =
     (case first_index c (block ?m (Suc p) n) of
        None \<Rightarrow> (None, write_bytes ?m (Suc d) (block ?m (Suc p) n))
      | Some k \<Rightarrow> (Some (Suc d + k + 1), write_bytes ?m (Suc d) (block ?m (Suc p) (k + 1))))"
    using Suc.prems by (intro Suc.IH) auto
  have lt: "k < n" if "first_index c (block m (Suc p) n) = Some k" for k
    using that by (simp add: first_index_Some)
  show ?case
  proof (cases "m p = c")
    case True
    then show ?thesis by (simp add: block_Suc Let_def)
  next
    case False
    have "block ?m (Suc p) (k + 1) = block m (Suc p) (k + 1)" if "first_index c (block m (Suc p) n) = Some k" for k
      using blk [of "k + 1"] lt [OF that] by simp
    then show ?thesis using False IH
      by (cases "first_index c (block m (Suc p) n)")
        (simp_all add: block_Suc [of m p] Let_def blk del: fun_upd_apply add: fun_upd_same)
  qed
qed simp

lemma memcmp_block:
  "sgn (memcmp m p q n) = (if block m p n = block m q n then 0 else if block m p n < block m q n then - 1 else 1)"
proof -
  have "sgn (memcmp_loop m p q n 0) =
      (if block m p n = block m q n then 0 else if block m p n < block m q n then - 1 else 1)"
  proof (induction n arbitrary: p q)
    case (Suc n)
    then show ?case by (auto simp: block_Suc Let_def word_less_def word_uint_eq_iff)
  qed simp
  then show ?thesis by (simp add: memcmp_def)
qed

lemma strncmp_str:
  "\<lbrakk>str_at m p s; str_at m q t\<rbrakk> \<Longrightarrow>
    sgn (strncmp m p q n) = (if take n s = take n t then 0 else if take n s < take n t then - 1 else 1)"
proof -
  have pos: "0 < uint c" if "c \<noteq> 0" for c :: byte using that by (simp add: unsigned_eq_0_iff order.strict_iff_order)
  have "\<lbrakk>str_at m p s; str_at m q t\<rbrakk> \<Longrightarrow> sgn (strncmp_loop m p q n 0) =
      (if take n s = take n t then 0 else if take n s < take n t then - 1 else 1)"
  proof (induction n arbitrary: p q s t)
    case (Suc n)
    then show ?case using pos [of "m p"] pos [of "m q"]
      by (cases s; cases t) (auto simp: Let_def word_less_def word_uint_eq_iff)
  qed simp
  then show "\<lbrakk>str_at m p s; str_at m q t\<rbrakk> \<Longrightarrow> sgn (strncmp m p q n) = (if take n s = take n t then 0 else if take n s < take n t then - 1 else 1)" by (simp add: strncmp_def)
qed

lemma memmem_match_scan:
  "n < l \<Longrightarrow> memmem_match m ph pn l n = Some (\<forall>i. n \<le> i \<and> i < l \<longrightarrow> m (ph + i) = m (pn + i))"
proof (induction "l - n" arbitrary: n)
  case (Suc k)
  show ?case
  proof (cases "n + 1 = l")
    case True
    then show ?thesis by (subst memmem_match.simps) (auto simp: less_Suc_eq le_less_Suc_eq)
  next
    case False
    then have "memmem_match m ph pn l (n + 1) = Some (\<forall>i. n + 1 \<le> i \<and> i < l \<longrightarrow> m (ph + i) = m (pn + i))"
      using Suc by (intro Suc.hyps) auto
    moreover have "(\<forall>i. n \<le> i \<and> i < l \<longrightarrow> m (ph + i) = m (pn + i)) \<longleftrightarrow>
        m (ph + n) = m (pn + n) \<and> (\<forall>i. n + 1 \<le> i \<and> i < l \<longrightarrow> m (ph + i) = m (pn + i))"
      using Suc.prems by (auto simp: Suc_le_eq) (metis le_less)
    ultimately show ?thesis using False by (subst memmem_match.simps) auto
  qed
qed simp

lemma block_eq_iff: "block m p n = block m q n \<longleftrightarrow> (\<forall>i < n. m (p + i) = m (q + i))"
  by (auto simp: block_def)

lemma prefix_block: "prefix (block m q l) (block m p n) \<longleftrightarrow> l \<le> n \<and> block m q l = block m p l"
proof -
  have "take l (block m p n) = block m p l" if "l \<le> n" using that by (simp add: block_def take_map)
  moreover have "prefix xs ys \<longleftrightarrow> length xs \<le> length ys \<and> xs = take (length xs) ys" for xs ys :: "byte list"
    by (metis append_eq_conv_conj prefix_def prefix_length_le)
  ultimately show ?thesis by (metis block_length)
qed

lemma memmem_loop_find:
  assumes "0 < l"
  shows "l \<le> n \<Longrightarrow> memmem_loop m p q l (p + (n - l)) = Some (map_option ((+) p) (find_sub (block m q l) (block m p n)))"
proof (induction n arbitrary: p)
  case 0
  then show ?case using assms by simp
next
  case (Suc n)
  have fs: "find_sub (block m q l) (block m p (Suc n)) =
      (if prefix (block m q l) (block m p (Suc n)) then Some 0
       else map_option Suc (find_sub (block m q l) (block m (Suc p) n)))"
    by (subst find_sub.simps) (simp add: block_Suc)
  have mt: "memmem_match m p q l 0 = Some (prefix (block m q l) (block m p (Suc n)))"
    using assms Suc.prems by (simp add: memmem_match_scan prefix_block block_eq_iff eq_commute)
  show ?case
  proof (cases "l \<le> n")
    case True
    then have "p + (Suc n - l) = Suc p + (n - l)" by simp
    then show ?thesis using True Suc.IH [OF True, of "Suc p"] mt fs
      by (subst memmem_loop.simps) (auto simp: option.map_comp comp_def)
  next
    case False
    then have "find_sub (block m q l) (block m (Suc p) n) = None" by (intro find_sub_short) simp
    then show ?thesis using False Suc.prems mt fs by (subst memmem_loop.simps) auto
  qed
qed

lemma memmem_find: "memmem m p n q l = Some (map_option ((+) p) (find_sub (block m q l) (block m p n)))"
proof -
  have "find_sub [] xs = Some 0" for xs :: "byte list" by (subst find_sub.simps) simp
  then show ?thesis using memmem_loop_find [of l n m p q] find_sub_short [of "block m p n" "block m q l"]
    by (auto simp: memmem_def)
qed

section \<open>The word-at-a-time strlen\<close>

lemma byte_bounds: "0 \<le> uint (b :: byte)" "uint (b :: byte) < 256" "b \<noteq> 0 \<Longrightarrow> 1 \<le> uint (b :: byte)"
proof -
  show "0 \<le> uint (b :: byte)" "uint (b :: byte) < 256" using uint_lt2p [of b] by auto
  show "b \<noteq> 0 \<Longrightarrow> 1 \<le> uint (b :: byte)"
    using uint_0_iff [of b] uint_ge_0 [of b] by (auto simp: uint_0_iff le_less)
qed

lemma uint_longword_at:
  "uint (longword_at m p) = uint (m p) + 256 * uint (m (p + 1)) + 65536 * uint (m (p + 2)) + 16777216 * uint (m (p + 3))"
proof -
  let ?v = "uint (m p) + 2 ^ 8 * uint (m (p + 1)) + 2 ^ 16 * uint (m (p + 2)) + 2 ^ 24 * uint (m (p + 3))"
  have "uint (longword_at m p) = ?v mod 2 ^ 32" unfolding longword_at_def by (subst uint_word_of_int) simp
  moreover have "0 \<le> ?v" "?v < 2 ^ 32"
    using byte_bounds [of "m p"] byte_bounds [of "m (p + 1)"] byte_bounds [of "m (p + 2)"] byte_bounds [of "m (p + 3)"] by simp_all
  ultimately show ?thesis by (simp del: uint_word_of_int)
qed

lemma odd_div_mod_pow: "n < 32 \<Longrightarrow> odd ((v :: int) mod 2 ^ 32 div 2 ^ n) \<longleftrightarrow> odd (v div 2 ^ n)"
proof -
  assume "n < 32"
  have "odd (v mod 2 ^ 32 div 2 ^ n) \<longleftrightarrow> bit (take_bit 32 v) n" by (simp add: take_bit_eq_mod bit_iff_odd)
  also have "\<dots> \<longleftrightarrow> bit v n" using \<open>n < 32\<close> by (simp add: bit_take_bit_iff)
  finally show ?thesis by (simp add: bit_iff_odd)
qed

lemma maybe_zero_bit:
  assumes "n \<in> {7, 15, 23, 31}" "odd ((uint w - 0x01010101) div 2 ^ n)"
  shows "maybe_zero w"
proof -
  have n: "n < 32" using assms(1) by auto
  have "uint (w - 0x01010101) = (uint w - 0x01010101) mod 2 ^ 32" by (simp add: uint_word_ariths)
  then have "bit (w - 0x01010101) n" using assms(2) n odd_div_mod_pow [OF n]
    by (metis bit_iff_odd bit_uint_iff)
  moreover have "bit (0x80808080 :: 32 word) n" using assms(1) by auto
  ultimately have "bit (and (w - 0x01010101) 0x80808080) n" by (simp add: bit_and_iff)
  then show ?thesis unfolding maybe_zero_def by (metis bit_0_eq bot_apply bot_bool_def)
qed


lemma maybe_zero_zero_byte:
  assumes "m p = 0 \<or> m (p + 1) = 0 \<or> m (p + 2) = 0 \<or> m (p + 3) = 0"
  shows "maybe_zero (longword_at m p)"
proof -
  note b = byte_bounds [of "m p"] byte_bounds [of "m (p + 1)"] byte_bounds [of "m (p + 2)"] byte_bounds [of "m (p + 3)"]
  let ?v = "uint (longword_at m p) - 0x01010101"
  have o: "odd (v div k)" if "v = k * (2 * a + 1) + r" "0 \<le> r" "r < k" for v a r k :: int
  proof -
    have "v div k = 2 * a + 1" using that by (simp add: int_div_pos_eq)
    then show ?thesis by simp
  qed
  consider "m p = 0" | "m p \<noteq> 0" "m (p + 1) = 0" | "m p \<noteq> 0" "m (p + 1) \<noteq> 0" "m (p + 2) = 0"
    | "m p \<noteq> 0" "m (p + 1) \<noteq> 0" "m (p + 2) \<noteq> 0" "m (p + 3) = 0" using assms by blast
  then show ?thesis
  proof cases
    case 1
    have "odd (?v div 2 ^ 7)"
      by (rule o [where a = "uint (m (p + 1)) + 256 * uint (m (p + 2)) + 65536 * uint (m (p + 3)) - 0x010102" and r = 127])
        (simp_all add: uint_longword_at 1)
    then show ?thesis by (intro maybe_zero_bit [of 7]) auto
  next
    case 2
    have "odd (?v div 2 ^ 15)"
      by (rule o [where a = "uint (m (p + 2)) + 256 * uint (m (p + 3)) - 0x0102" and r = "uint (m p) + 0x7eff"])
        (use b 2 in \<open>simp_all add: uint_longword_at\<close>)
    then show ?thesis by (intro maybe_zero_bit [of 15]) auto
  next
    case 3
    have "odd (?v div 2 ^ 23)"
      by (rule o [where a = "uint (m (p + 3)) - 2" and r = "uint (m p) + 256 * uint (m (p + 1)) + 0x7efeff"])
        (use b 3 in \<open>simp_all add: uint_longword_at\<close>)
    then show ?thesis by (intro maybe_zero_bit [of 23]) auto
  next
    case 4
    have "odd (?v div 2 ^ 31)"
      by (rule o [where a = "- 1" and r = "uint (m p) + 256 * uint (m (p + 1)) + 65536 * uint (m (p + 2)) + 0x7efefeff"])
        (use b 4 in \<open>simp_all add: uint_longword_at\<close>)
    then show ?thesis by (intro maybe_zero_bit [of 31]) auto
  qed
qed

lemma strlen_words_step:
  "strlen_words m p =
     (if m p = 0 then Some p else if m (p + 1) = 0 then Some (p + 1)
      else if m (p + 2) = 0 then Some (p + 2) else if m (p + 3) = 0 then Some (p + 3)
      else strlen_words m (p + 4))"
  using maybe_zero_zero_byte [of m p] by (subst strlen_words.simps) auto

lemma strlen_words_str: "str_at m p s \<Longrightarrow> strlen_words m p = Some (p + length s)"
proof (induction s arbitrary: p rule: measure_induct_rule [of length])
  case (less s)
  consider "s = []" | a where "s = [a]" | a b where "s = [a, b]" | a b c where "s = [a, b, c]"
    | a b c d t where "s = a # b # c # d # t" by (metis list.exhaust)
  then show ?case
  proof cases
    case 5
    then have "strlen_words m (p + 4) = Some (p + 4 + length t)"
      using less.prems less.IH [of t "p + 4"] by (simp add: numeral_eq_Suc)
    then show ?thesis using 5 less.prems by (subst strlen_words_step) (simp add: numeral_eq_Suc)
  qed (use less.prems in \<open>subst strlen_words_step, simp add: numeral_eq_Suc\<close>)+
qed

lemma strlen_align_str:
  "str_at m p s \<Longrightarrow> \<exists>k \<le> length s.
     (strlen_align m p = Some (Inl (p + k)) \<and> k = length s) \<or> strlen_align m p = Some (Inr (p + k))"
proof (induction s arbitrary: p)
  case Nil
  then show ?case by (auto simp: strlen_align.simps [of m p])
next
  case (Cons c s)
  show ?case
  proof (cases "and p 3 = 0")
    case True
    then show ?thesis by (intro exI [of _ 0]) (simp add: strlen_align.simps)
  next
    case False
    obtain k where "k \<le> length s" "(strlen_align m (Suc p) = Some (Inl (Suc p + k)) \<and> k = length s) \<or> strlen_align m (Suc p) = Some (Inr (Suc p + k))"
      using Cons.IH [of "Suc p"] Cons.prems by auto
    then show ?thesis using False Cons.prems by (intro exI [of _ "Suc k"]) (auto simp: strlen_align.simps [of m p])
  qed
qed

lemma str_at_drop: "str_at m p s \<Longrightarrow> k \<le> length s \<Longrightarrow> str_at m (p + k) (drop k s)"
  using str_at_append [of m p "take k s" "drop k s"] by (simp add: min_absorb2)

lemma strlen_generic_str: "str_at m p s \<Longrightarrow> strlen_generic m p = Some (length s)"
proof -
  assume s: "str_at m p s"
  obtain k where "k \<le> length s" "(strlen_align m p = Some (Inl (p + k)) \<and> k = length s) \<or> strlen_align m p = Some (Inr (p + k))"
    using strlen_align_str [OF s] by blast
  then show ?thesis using strlen_words_str [OF str_at_drop [OF s, of k]] by (auto simp: strlen_generic_def)
qed

lemma strlen_loop_end: "strlen_loop m p = Some q \<Longrightarrow> p \<le> q \<and> m q = 0"
  by (rule strlen_loop.raw_induct [of "\<lambda>m p q. p \<le> q \<and> m q = 0"]) (fastforce split: if_splits)+

lemma strlen_align_end:
  "strlen_align m p = Some r \<Longrightarrow> (case r of Inl q \<Rightarrow> p \<le> q \<and> m q = 0 | Inr q \<Rightarrow> p \<le> q)"
  by (rule strlen_align.raw_induct [of "\<lambda>m p r. case r of Inl q \<Rightarrow> p \<le> q \<and> m q = 0 | Inr q \<Rightarrow> p \<le> q"])
    (fastforce split: if_splits sum.splits)+

lemma strlen_words_end: "strlen_words m p = Some q \<Longrightarrow> p \<le> q \<and> m q = 0"
  by (rule strlen_words.raw_induct [of "\<lambda>m p q. p \<le> q \<and> m q = 0"]) (fastforce split: if_splits)+

lemma terminator_str_at: "p \<le> q \<Longrightarrow> m q = 0 \<Longrightarrow> \<exists>s. str_at m p s"
proof (induction "q - p" arbitrary: p)
  case (Suc n)
  show ?case
  proof (cases "m p = 0")
    case True
    then show ?thesis by (intro exI [of _ "[]"]) simp
  next
    case False
    obtain s where "str_at m (Suc p) s" using Suc by (metis Suc_leI diff_Suc_1' diff_Suc_Suc le_neq_implies_less diff_self_eq_0 Suc_diff_Suc nat.inject old.nat.distinct(1))
    then show ?thesis using False by (intro exI [of _ "m p # s"]) simp
  qed
qed (auto intro: exI [of _ "[]"])

lemma strlen_generic_eq: "strlen_generic m p = strlen m p"
proof (cases "\<exists>s. str_at m p s")
  case True
  then show ?thesis by (auto simp: strlen_generic_str strlen_str)
next
  case False
  then have nz: "m q \<noteq> 0" if "p \<le> q" for q using terminator_str_at [OF that] by blast
  have "strlen m p = None" using strlen_loop_end [of m p] nz by (cases "strlen_loop m p") (auto simp: strlen_def)
  moreover have "strlen_generic m p = None"
  proof (cases "strlen_align m p")
    case (Some r)
    then show ?thesis using strlen_align_end [OF Some] strlen_words_end [of m "projr r"] nz
      by (cases r; cases "strlen_words m (projr r)") (auto simp: strlen_generic_def dest: le_trans)
  qed (simp add: strlen_generic_def)
  ultimately show ?thesis by simp
qed

section \<open>Tokens\<close>

lemma strtok_r_str:
  assumes s: "str_at m p s" and q: "str_at m q ds"
    and r: "r = dropWhile (\<lambda>x. x \<in> set ds) s" and t: "t = takeWhile (\<lambda>x. x \<notin> set ds) r"
    and st: "st = p + (length s - length r)" and p: "s1 = Some p \<or> s1 = None \<and> ns = Some p"
  shows "strtok_r m s1 q ns =
    Some (if r = [] then (None, None, m)
          else if t = r then (Some st, None, m)
          else (Some st, Some (st + length t + 1), m(st + length t := 0)))"
proof -
  have len: "length (takeWhile (\<lambda>x. x \<in> set ds) s) = length s - length r"
    using takeWhile_dropWhile_id [of "\<lambda>x. x \<in> set ds" s] r
    by (metis add_diff_cancel_right' length_append)
  then have sp: "strspn m p q = Some (length s - length r)" using strspn_loop_str [OF q s] by (simp add: strspn_def)
  have "r = drop (length s - length r) s"
    using len r by (simp add: dropWhile_eq_drop)
  then have rat: "str_at m st r" using str_at_drop [OF s, of "length s - length r"] st by simp
  have ne: "m st = 0 \<longleftrightarrow> r = []" using rat by (cases r) auto
  have none: "set r \<inter> set ds = {} \<longleftrightarrow> t = r" by (auto simp: t takeWhile_eq_all_conv)
  have "strpbrk m st q = Some (if t = r then None else Some (st + length t))"
    using strpbrk_str [OF q rat] none by (simp add: t)
  then show ?thesis using p sp ne st by (auto simp: strtok_r_def Let_def)
qed

text \<open>The tokens of a string: the maximal runs of characters that are not delimiters.\<close>

function tokens_of :: "'a set \<Rightarrow> 'a list \<Rightarrow> 'a list list" where
  "tokens_of D s =
     (let r = dropWhile (\<lambda>x. x \<in> D) s; t = takeWhile (\<lambda>x. x \<notin> D) r
      in if r = [] then [] else t # tokens_of D (drop (length t + 1) r))"
  by auto
termination
proof (relation "measure (length \<circ> snd)", simp, clarsimp)
  fix D :: "'a set" and s :: "'a list" and x
  assume "x \<in> set s" "x \<notin> D"
  then have "dropWhile (\<lambda>x. x \<in> D) s \<noteq> []" by auto
  moreover have "length (dropWhile (\<lambda>x. x \<in> D) s) \<le> length s" by (rule length_dropWhile_le)
  ultimately show "length (dropWhile (\<lambda>x. x \<in> D) s) -
      Suc (length (takeWhile (\<lambda>x. x \<notin> D) (dropWhile (\<lambda>x. x \<in> D) s))) < length s"
    by (cases "dropWhile (\<lambda>x. x \<in> D) s") auto
qed

declare tokens_of.simps [simp del]

lemma tokens_of_Nil [simp]: "tokens_of D [] = []"
  by (simp add: tokens_of.simps)

text \<open>The calls of a client that reads tokens until the null pointer: the pointers returned.\<close>

partial_function (option) strtok_all ::
  "memory \<Rightarrow> addr option \<Rightarrow> addr \<Rightarrow> addr option \<Rightarrow> (addr list \<times> memory) option" where
  "strtok_all m s1 q ns =
     (case strtok_r m s1 q ns of
        None \<Rightarrow> None
      | Some (None, _, m1) \<Rightarrow> Some ([], m1)
      | Some (Some t, ns1, m1) \<Rightarrow>
          Option.bind (strtok_all m1 None q ns1) (\<lambda>(ts, m2). Some (t # ts, m2)))"

lemma strtok_all_None: "strtok_all m None q None = Some ([], m)"
  by (subst strtok_all.simps) (simp add: strtok_r_def)

lemma str_at_frame: "(\<And>i. i \<le> length s \<Longrightarrow> m' (p + i) = m (p + i)) \<Longrightarrow> str_at m' p s = str_at m p s"
  by (simp add: str_at_def)

lemma strtok_all_str:
  "\<lbrakk>str_at m p s; str_at m q ds; q + length ds < p \<or> p + length s < q; s1 = Some p \<or> s1 = None \<and> ns = Some p\<rbrakk> \<Longrightarrow>
    \<exists>ps m'. strtok_all m s1 q ns = Some (ps, m') \<and> list_all2 (str_at m') ps (tokens_of (set ds) s) \<and>
      (\<forall>a. a < p \<or> p + length s \<le> a \<longrightarrow> m' a = m a)"
proof (induction "set ds" s arbitrary: m p s1 ns rule: tokens_of.induct)
  case (1 s)
  define r where "r = dropWhile (\<lambda>x. x \<in> set ds) s"
  define t where "t = takeWhile (\<lambda>x. x \<notin> set ds) r"
  define st where "st = p + (length s - length r)"
  note call = strtok_r_str [OF 1(2,3) r_def t_def st_def 1(5)]
  have tok: "tokens_of (set ds) s = (if r = [] then [] else t # tokens_of (set ds) (drop (length t + 1) r))"
    by (subst tokens_of.simps) (simp add: r_def t_def Let_def)
  have rs: "length r \<le> length s" by (simp add: r_def length_dropWhile_le)
  have "r = drop (length s - length r) s" unfolding r_def
    by (metis add_diff_cancel_left' dropWhile_eq_drop length_append takeWhile_dropWhile_id diff_diff_cancel length_dropWhile_le add_diff_cancel_right')
  then have rat: "str_at m st r" using str_at_drop [OF 1(2), of "length s - length r"] st_def by simp
  have st_end: "st + length r = p + length s" using rs by (simp add: st_def)
  have tr: "length t \<le> length r" by (simp add: t_def length_takeWhile_le)
  show ?case
  proof (cases "r = []")
    case True
    then show ?thesis using call tok by (subst strtok_all.simps) simp
  next
    case False
    show ?thesis
    proof (cases "t = r")
      case True
      then show ?thesis using False call tok rat by (subst strtok_all.simps) (simp add: strtok_all_None)
    next
      case neq: False
      then have tr': "length t < length r"
        using tr t_def by (metis le_neq_implies_less length_takeWhile_le takeWhile_eq_take take_all order_refl)
      let ?m = "m(st + length t := 0)" and ?p = "st + length t + 1" and ?s = "drop (length t + 1) r"
      have "str_at m ?p ?s" using str_at_drop [OF rat, of "length t + 1"] tr' by simp
      then have s': "str_at ?m ?p ?s" by (subst str_at_upd) auto
      have q': "str_at ?m q ds" using 1(3,4) st_end tr' by (subst str_at_upd) (auto simp: st_def)
      have end': "?p + length ?s = p + length s" using st_end tr' by simp
      have sep: "q + length ds < ?p \<or> ?p + length ?s < q" using 1(4) end' by (auto simp: st_def)
      have "\<exists>ps m'. strtok_all ?m None q (Some ?p) = Some (ps, m') \<and> list_all2 (str_at m') ps (tokens_of (set ds) ?s) \<and>
          (\<forall>a. a < ?p \<or> ?p + length ?s \<le> a \<longrightarrow> m' a = ?m a)"
        by (rule 1(1) [OF r_def t_def False s' q' sep]) simp
      then obtain ps m' where ih: "strtok_all ?m None q (Some ?p) = Some (ps, m')"
        "list_all2 (str_at m') ps (tokens_of (set ds) ?s)" "\<forall>a. a < ?p \<or> ?p + length ?s \<le> a \<longrightarrow> m' a = ?m a"
        by (elim exE conjE)
      have "take (length t) r = t" unfolding t_def by (rule takeWhile_eq_take [symmetric])
      then have "\<forall>i < length t. m (st + i) = t ! i" "0 \<notin> set t"
        using rat tr' by (auto simp: str_at_def) (metis nth_take, metis in_set_takeD)
      then have "str_at m' st t" using ih(3) by (simp add: str_at_def)
      moreover have "strtok_all m s1 q ns = Some (st # ps, m')"
        using call False neq ih(1) by (subst strtok_all.simps) (simp del: fun_upd_apply)
      moreover have "m' a = m a" if "a < p \<or> p + length s \<le> a" for a
        using that ih(3) end' st_end tr' by (auto simp: st_def)
      ultimately show ?thesis using ih(2) tok False by auto
    qed
  qed
qed

lemma find_sub_None: "find_sub nd s = None \<longleftrightarrow> (\<forall>k \<le> length s. \<not> prefix nd (drop k s))"
proof
  assume none: "find_sub nd s = None"
  show "\<forall>k \<le> length s. \<not> prefix nd (drop k s)"
  proof (rule ccontr)
    let ?P = "\<lambda>k. k \<le> length s \<and> prefix nd (drop k s)"
    assume "\<not> (\<forall>k \<le> length s. \<not> prefix nd (drop k s))"
    then obtain k where k: "?P k" "\<forall>j < k. \<not> ?P j" using exists_least_iff [of ?P] by blast
    then have "find_sub nd s = Some k" by (auto simp: find_sub_Some)
    then show False using none by simp
  qed
next
  assume "\<forall>k \<le> length s. \<not> prefix nd (drop k s)"
  then show "find_sub nd s = None" using find_sub_Some [of nd s] by (cases "find_sub nd s") auto
qed

lemma mempcpy_loop_memcpy: "mempcpy_loop m d p n = (d + n, memcpy_loop m d p n)"
  by (induction n arbitrary: m d p) simp_all

lemma basename_loop_str:
  "str_at m p s \<Longrightarrow> basename_loop m p b = Some (case last_index 47 s of Some k \<Rightarrow> p + k + 1 | None \<Rightarrow> b)"
proof (induction s arbitrary: p b)
  case Nil
  then show ?case by (subst basename_loop.simps) simp
next
  case (Cons c s)
  then show ?case by (subst basename_loop.simps) (auto split: option.splits)
qed

lemma rawmemchr_first: "first_index c (block m p n) = Some k \<Longrightarrow> rawmemchr m p c = Some (p + k)"
proof (induction n arbitrary: p k)
  case (Suc n)
  show ?case
  proof (cases "m p = c")
    case True
    then show ?thesis using Suc.prems by (subst rawmemchr.simps) (simp add: block_Suc)
  next
    case False
    then obtain i where "first_index c (block m (Suc p) n) = Some i" "k = Suc i"
      using Suc.prems by (auto simp: block_Suc)
    then show ?thesis using Suc.IH [of "Suc p" i] False by (subst rawmemchr.simps) simp
  qed
qed simp

section \<open>The lowest set bit\<close>

definition lowest_bit :: "'a::len word \<Rightarrow> nat \<Rightarrow> bool" where
  "lowest_bit w l \<longleftrightarrow> bit w l \<and> (\<forall>k < l. \<not> bit w k)"

lemma lowest_bit_exists: "w \<noteq> 0 \<Longrightarrow> \<exists>l < LENGTH('a). lowest_bit (w :: 'a::len word) l"
proof -
  assume "w \<noteq> 0"
  then obtain k where "bit w k" by (auto simp: bit_eq_iff)
  then obtain l where "bit w l" "\<forall>j < l. \<not> bit w j" using exists_least_iff [of "bit w"] by blast
  then show ?thesis by (auto simp: lowest_bit_def dest: bit_imp_le_length)
qed

lemma lowest_bit_mask: "lowest_bit w l \<Longrightarrow> and w (mask k) = 0 \<longleftrightarrow> k \<le> l"
  for w :: "'a::len word"
proof
  assume l: "lowest_bit w l" and z: "and w (mask k) = 0"
  have "\<not> bit (and w (mask k)) l" using z by simp
  moreover have "l < LENGTH('a)" "bit w l" using l by (auto simp: lowest_bit_def dest: bit_imp_le_length)
  ultimately show "k \<le> l" by (auto simp: bit_and_iff bit_mask_iff)
next
  assume "lowest_bit w l" "k \<le> l"
  then show "and w (mask k) = 0" by (auto simp: lowest_bit_def bit_eq_iff bit_simps)
qed

lemma ffs_step_lowest:
  assumes "lowest_bit i l" "l < 2 * k" "k \<le> 16"
  shows "\<exists>i1 l1. ffs_step k (i, n) = (i1, n + (l - l1)) \<and> lowest_bit i1 l1 \<and> l1 < k \<and> l1 \<le> l"
proof (cases "k \<le> l")
  case True
  have "l < 32" using assms(1) by (auto simp: lowest_bit_def dest: bit_imp_le_length)
  have "bit (signed_drop_bit k i) (l - k)" "\<forall>j < l - k. \<not> bit (signed_drop_bit k i) j"
    using assms True by (auto simp: lowest_bit_def bit_signed_drop_bit_iff)
  then have "lowest_bit (signed_drop_bit k i) (l - k)" by (simp add: lowest_bit_def)
  then show ?thesis using True assms lowest_bit_mask [OF assms(1), of k]
    by (intro exI [of _ "signed_drop_bit k i"] exI [of _ "l - k"]) (simp add: ffs_step_def)
next
  case False
  then show ?thesis using assms lowest_bit_mask [OF assms(1), of k] by (auto simp: ffs_step_def)
qed

lemma ffs_lowest: "lowest_bit i l \<Longrightarrow> ffs i = l + 1"
proof -
  assume l: "lowest_bit i l"
  then have "l < 32" by (auto simp: lowest_bit_def dest: bit_imp_le_length)
  then obtain i1 l1 where 1: "ffs_step 16 (i, 1) = (i1, 1 + (l - l1))" "lowest_bit i1 l1" "l1 < 16" "l1 \<le> l"
    using ffs_step_lowest [OF l, of 16 1] by auto
  obtain i2 l2 where 2: "ffs_step 8 (i1, 1 + (l - l1)) = (i2, 1 + (l - l1) + (l1 - l2))" "lowest_bit i2 l2" "l2 < 8" "l2 \<le> l1"
    using ffs_step_lowest [OF 1(2), of 8 "1 + (l - l1)"] 1(3) by auto
  obtain i3 l3 where 3: "ffs_step 4 (i2, 1 + (l - l1) + (l1 - l2)) = (i3, 1 + (l - l1) + (l1 - l2) + (l2 - l3))"
    "lowest_bit i3 l3" "l3 < 4" "l3 \<le> l2"
    using ffs_step_lowest [OF 2(2), of 4 "1 + (l - l1) + (l1 - l2)"] 2(3) by auto
  obtain i4 l4 where 4: "ffs_step 2 (i3, 1 + (l - l1) + (l1 - l2) + (l2 - l3)) = (i4, 1 + (l - l1) + (l1 - l2) + (l2 - l3) + (l3 - l4))"
    "lowest_bit i4 l4" "l4 < 2" "l4 \<le> l3"
    using ffs_step_lowest [OF 3(2), of 2 "1 + (l - l1) + (l1 - l2) + (l2 - l3)"] 3(3) by auto
  have "bit i4 0 \<longleftrightarrow> l4 = 0" using 4(2,3) by (auto simp: lowest_bit_def less_2_cases_iff)
  moreover have "unat (and (i4 + 1) 1) = (if bit i4 0 then 0 else 1)"
    by (cases "bit i4 0") (simp_all add: and_one_eq bit_0 mod_2_eq_odd)
  moreover have "i4 \<noteq> 0" using 4(2) by (auto simp: lowest_bit_def)
  moreover have "l4 = 0 \<or> l4 = 1" using 4(3) by auto
  ultimately show ?thesis using 1 2 3 4 by (auto simp: ffs_def)
qed

lemma ffs_zero: "ffs 0 = 0"
  by (simp add: ffs_def ffs_step_def)

lemma ffsll_lowest: "lowest_bit i l \<Longrightarrow> ffsll i = l + 1"
proof -
  assume l: "lowest_bit i l"
  then have l64: "l < 64" by (auto simp: lowest_bit_def dest: bit_imp_le_length)
  let ?j = "unset_bit l i"
  have "i = or ?j (push_bit l 1)" using l by (intro bit_word_eqI) (auto simp: lowest_bit_def bit_simps)
  also have "\<dots> = ?j + push_bit l 1" by (rule disjunctive_add_eq_or [symmetric]) (auto simp: bit_eq_iff bit_simps)
  finally have "i - 1 = ?j + mask l" by (simp add: mask_eq_exp_minus_1 push_bit_eq_mult)
  also have "\<dots> = or ?j (mask l)"
    using l by (intro disjunctive_add_eq_or) (auto simp: lowest_bit_def bit_eq_iff bit_simps)
  finally have "and i (- i) = and i (not (or ?j (mask l)))" by (simp add: minus_eq_not_minus_1)
  also have "\<dots> = push_bit l 1" using l by (intro bit_word_eqI) (auto simp: lowest_bit_def bit_simps)
  finally have iso: "and i (- i) = 2 ^ l" by (simp add: push_bit_eq_mult)
  have "uint (2 ^ l :: 64 word) = 2 ^ l" 
  proof -
    have "bit (2 ^ l :: 64 word) l" using l64 by (simp add: bit_simps)
    then have "(2 ^ l :: 64 word) \<noteq> 0" by (metis bit_0_eq bot_apply bot_bool_def)
    then show ?thesis by (intro uint_2p) (simp add: word_greater_zero_iff)
  qed
  then have test: "and i (- i) \<le> 0xffffffff \<longleftrightarrow> l < 32"
  proof (cases "l < 32")
    case True
    then have "(2 :: int) ^ l \<le> 2 ^ 31" by (intro power_increasing) auto
    then show ?thesis using True iso \<open>uint (2 ^ l :: 64 word) = 2 ^ l\<close> by (simp add: word_le_def)
  next
    case False
    then have "(2 :: int) ^ 32 \<le> 2 ^ l" by (intro power_increasing) auto
    then show ?thesis using False iso \<open>uint (2 ^ l :: 64 word) = 2 ^ l\<close> by (simp add: word_le_def)
  qed
  show ?thesis
  proof (cases "l < 32")
    case True
    have "lowest_bit (ucast i :: 32 word) l" using l True by (auto simp: lowest_bit_def bit_simps)
    then show ?thesis using True test by (simp add: ffsll_def ffs_lowest)
  next
    case False
    have "lowest_bit (ucast (signed_drop_bit 32 i) :: 32 word) (l - 32)"
      using l False l64 by (auto simp: lowest_bit_def bit_simps bit_signed_drop_bit_iff)
    then show ?thesis using False test by (simp add: ffsll_def ffs_lowest)
  qed
qed

lemma ffs_spec: "if i = 0 then ffs i = 0 else 0 < ffs i \<and> lowest_bit i (ffs i - 1)"
  using ffs_lowest [of i] lowest_bit_exists [of i] ffs_zero by auto

lemma ffsll_spec: "if i = 0 then ffsll i = 0 else 0 < ffsll i \<and> lowest_bit i (ffsll i - 1)"
  using ffsll_lowest [of i] lowest_bit_exists [of i] by (auto simp: ffsll_def ffs_zero)

section \<open>The properties of the string functions\<close>

lemma write_bytes_block: "block (write_bytes m d bs) d (length bs) = bs"
  by (rule nth_equalityI) (simp_all add: block_def write_at)

lemma str_at_write_tail: "str_at m d ds \<Longrightarrow> 0 \<notin> set s \<Longrightarrow> str_at (write_bytes m (d + length ds) (s @ [0])) d (ds @ s)"
  using str_at_write [of s m "d + length ds"] by (auto simp: str_at_append str_at_def [of m] write_at(2))

lemma str_at_no_zero: "str_at m p s \<Longrightarrow> 0 \<notin> set (take k s)"
  by (auto simp: str_at_def dest: in_set_takeD)

text \<open>C21: \<open>strlcpy\<close> and \<open>strlcat\<close> into a buffer of \<open>n\<close> bytes, from a string that the bytes written
  do not overlap, return. \<open>strlcpy\<close> returns the length of the source; \<open>strlcat\<close> the length of the
  string it tried to make (with \<open>n\<close> for a destination that has no terminator among its first \<open>n\<close>
  bytes). Both leave a terminated string cut to \<open>n - 1\<close> bytes, and no byte outside the buffer
  changes; in the two cases where nothing fits, no byte changes at all.\<close>

theorem strlcpy_strlcat_correct:
  assumes src: "str_at m p s" and apart: "p + length s < d \<or> d + n \<le> p"
    and ds: "str_at m d ds"
  shows "(\<exists>m1. strlcpy m d p n = Some (length s, m1) \<and>
      (n = 0 \<longrightarrow> m1 = m) \<and> (0 < n \<longrightarrow> str_at m1 d (take (n - 1) s)) \<and> (\<forall>a. a < d \<or> d + n \<le> a \<longrightarrow> m1 a = m a)) \<and>
    (\<exists>m2. strlcat m d p n = Some (min n (length ds) + length s, m2) \<and>
      (n \<le> length ds \<longrightarrow> m2 = m) \<and> (length ds < n \<longrightarrow> str_at m2 d (take (n - 1) (ds @ s))) \<and>
      (\<forall>a. a < d \<or> d + n \<le> a \<longrightarrow> m2 a = m a))"
proof (intro conjI)
  have "n \<noteq> 0 \<longrightarrow> d + min (n - 1) (length s) < p \<or> p + length s < d" using apart by auto
  note c = strlcpy_str [OF src this]
  have "str_at (write_bytes m d (take (n - 1) s @ [0])) d (take (n - 1) s)"
    by (intro str_at_write str_at_no_zero [OF src])
  then show "\<exists>m1. strlcpy m d p n = Some (length s, m1) \<and>
      (n = 0 \<longrightarrow> m1 = m) \<and> (0 < n \<longrightarrow> str_at m1 d (take (n - 1) s)) \<and> (\<forall>a. a < d \<or> d + n \<le> a \<longrightarrow> m1 a = m a)"
    using c by (intro exI [of _ "if n = 0 then m else write_bytes m d (take (n - 1) s @ [0])"])
      (auto intro!: write_at(2))
  have "length ds < n \<longrightarrow> d + length ds + min (n - 1 - length ds) (length s) < p \<or> p + length s < d + length ds"
    using apart by auto
  note e = strlcat_str [OF ds src this]
  let ?m2 = "write_bytes m (d + length ds) (take (n - 1 - length ds) s @ [0])"
  have "str_at ?m2 d (ds @ take (n - 1 - length ds) s)"
    by (intro str_at_write_tail ds str_at_no_zero [OF src])
  then have "length ds < n \<longrightarrow> str_at ?m2 d (take (n - 1) (ds @ s))" by (auto simp: take_all)
  then show "\<exists>m2. strlcat m d p n = Some (min n (length ds) + length s, m2) \<and>
      (n \<le> length ds \<longrightarrow> m2 = m) \<and> (length ds < n \<longrightarrow> str_at m2 d (take (n - 1) (ds @ s))) \<and>
      (\<forall>a. a < d \<or> d + n \<le> a \<longrightarrow> m2 a = m a)"
    using e by (intro exI [of _ "if length ds < n then ?m2 else m"]) (auto intro!: write_at(2))
qed

text \<open>\<open>strcpy\<close>, \<open>stpcpy\<close>, \<open>strcat\<close>, \<open>strncpy\<close>, \<open>stpncpy\<close> and \<open>strncat\<close> return, and change
  exactly the bytes that the standard says: the copy with its terminator, the copy padded with
  zeros to \<open>n\<close> bytes, and the bytes from the end of the destination on. The results are the
  destination, and for the \<open>stp\<close> forms the place of the terminator.\<close>

theorem string_copy_correct:
  assumes src: "str_at m p s" and dst: "str_at m d ds"
    and apart: "p + length s < d \<or> d + length ds + length s + n < p"
  shows "strcpy m d p = Some (d, write_bytes m d (s @ [0])) \<and>
    stpcpy m d p = Some (d + length s, write_bytes m d (s @ [0])) \<and>
    strcat m d p = Some (d, write_bytes m (d + length ds) (s @ [0])) \<and>
    strncpy m d p n = (d, write_bytes m d (take n s @ replicate (n - length s) 0)) \<and>
    stpncpy m d p n = (d + min n (length s), write_bytes m d (take n s @ replicate (n - length s) 0)) \<and>
    strncat m d p n = Some (d, write_bytes m (d + length ds) (take n s @ [0]))"
proof (intro conjI)
  note loop = copy_loop_str [OF src] and nloop = strncpy_loop_str [OF src, of d n]
  show "strcpy m d p = Some (d, write_bytes m d (s @ [0]))"
    "stpcpy m d p = Some (d + length s, write_bytes m d (s @ [0]))"
    using loop [of d] apart by (auto simp: strcpy_def stpcpy_def)
  show "strcat m d p = Some (d, write_bytes m (d + length ds) (s @ [0]))"
    using loop [of "d + length ds"] apart by (auto simp: strcat_def strend_loop_str [OF dst])
  show "strncpy m d p n = (d, write_bytes m d (take n s @ replicate (n - length s) 0))"
    "stpncpy m d p n = (d + min n (length s), write_bytes m d (take n s @ replicate (n - length s) 0))"
    using nloop apart by (auto simp: strncpy_def stpncpy_def)
  show "strncat m d p n = Some (d, write_bytes m (d + length ds) (take n s @ [0]))"
    using strncat_loop_str [OF src, of "d + length ds" n] apart by (auto simp: strncat_def strend_loop_str [OF dst])
qed

text \<open>C23: \<open>memmove\<close> copies a block correctly whatever the overlap of source and destination and
  changes no byte outside the destination; \<open>memcpy\<close>, \<open>mempcpy\<close> and \<open>bcopy\<close> do the same (\<open>memcpy\<close>
  and \<open>mempcpy\<close> when the source is not overwritten before it is read), \<open>memset\<close> and \<open>bzero\<close>
  fill exactly their block, and \<open>memccpy\<close> stops behind the first place of its character.\<close>

theorem memmove_correct:
  "(\<exists>m1. memmove m d p n = (d, m1) \<and> bcopy m p d n = m1 \<and> block m1 d n = block m p n \<and>
      (\<forall>a. a < d \<or> d + n \<le> a \<longrightarrow> m1 a = m a)) \<and>
   (d \<le> p \<or> p + n \<le> d \<longrightarrow>
      memcpy m d p n = memmove m d p n \<and> mempcpy m d p n = (d + n, snd (memmove m d p n)) \<and>
      memccpy m d p c n =
        (case first_index c (block m p n) of
           None \<Rightarrow> (None, write_bytes m d (block m p n))
         | Some k \<Rightarrow> (Some (d + k + 1), write_bytes m d (block m p (k + 1))))) \<and>
   memset m d c n = (d, write_bytes m d (replicate n c)) \<and> bzero m d n = write_bytes m d (replicate n 0)"
proof (intro conjI impI)
  have "block (write_bytes m d (block m p n)) d n = block m p n"
    using write_bytes_block [of m d "block m p n"] by simp
  then show "\<exists>m1. memmove m d p n = (d, m1) \<and> bcopy m p d n = m1 \<and> block m1 d n = block m p n \<and>
      (\<forall>a. a < d \<or> d + n \<le> a \<longrightarrow> m1 a = m a)"
    by (auto simp: memmove_block bcopy_def write_at)
  assume apart: "d \<le> p \<or> p + n \<le> d"
  then show "memcpy m d p n = memmove m d p n" "mempcpy m d p n = (d + n, snd (memmove m d p n))"
    using memcpy_loop_block [OF apart] by (simp_all add: memcpy_def memmove_block mempcpy_def mempcpy_loop_memcpy)
  show "memccpy m d p c n =
        (case first_index c (block m p n) of
           None \<Rightarrow> (None, write_bytes m d (block m p n))
         | Some k \<Rightarrow> (Some (d + k + 1), write_bytes m d (block m p (k + 1))))"
    by (rule memccpy_stop [OF apart])
qed (simp_all add: memset_block bzero_def)

text \<open>The searches return. \<open>strchr\<close> and \<open>memchr\<close> give the first place of a character and
  \<open>strrchr\<close> and \<open>memrchr\<close> the last one, null exactly when there is none (the terminator counts
  for the string functions); \<open>strspn\<close>, \<open>strcspn\<close> and \<open>strpbrk\<close> stop at the first character outside,
  or inside, the set.\<close>

theorem string_search_correct:
  assumes "str_at m p s" "str_at m q acc"
  shows "strchr m p c = Some (map_option ((+) p) (first_index c (s @ [0]))) \<and>
    strrchr m p c = Some (map_option ((+) p) (last_index c (s @ [0]))) \<and>
    memchr m p c n = map_option ((+) p) (first_index c (block m p n)) \<and>
    memrchr m p c n = map_option ((+) p) (last_index c (block m p n)) \<and>
    strspn m p q = Some (length (takeWhile (\<lambda>x. x \<in> set acc) s)) \<and>
    strcspn m p q = Some (length (takeWhile (\<lambda>x. x \<notin> set acc) s)) \<and>
    strpbrk m p q = Some (if set s \<inter> set acc = {} then None
           else Some (p + length (takeWhile (\<lambda>x. x \<notin> set acc) s)))"
  using strchr_first [OF assms(1)] strrchr_last [OF assms(1)] memchr_first memrchr_last
    strspn_loop_str [OF assms(2,1)] strcspn_loop_str [OF assms(2,1)] strpbrk_str [OF assms(2,1)]
  by (simp add: strspn_def strcspn_def)

text \<open>C24: \<open>strstr\<close> returns the first place where the needle occurs, and null exactly when it occurs
  nowhere; the search ends although it goes back after every partial match. \<open>memmem\<close> does the same
  on blocks.\<close>

theorem substring_search_correct:
  assumes "str_at m p s" "str_at m q nd"
  shows "(\<exists>r. strstr m p q = Some r \<and> (r = None \<longleftrightarrow> (\<forall>k \<le> length s. \<not> prefix nd (drop k s))) \<and>
      (\<forall>a. r = Some a \<longrightarrow> (\<exists>k \<le> length s. a = p + k \<and> prefix nd (drop k s) \<and> (\<forall>j < k. \<not> prefix nd (drop j s))))) \<and>
    memmem m p n q l = Some (map_option ((+) p) (find_sub (block m q l) (block m p n)))"
proof (intro conjI)
  show "\<exists>r. strstr m p q = Some r \<and> (r = None \<longleftrightarrow> (\<forall>k \<le> length s. \<not> prefix nd (drop k s))) \<and>
      (\<forall>a. r = Some a \<longrightarrow> (\<exists>k \<le> length s. a = p + k \<and> prefix nd (drop k s) \<and> (\<forall>j < k. \<not> prefix nd (drop j s))))"
    using strstr_str [OF assms(2,1)] find_sub_Some [of nd s] find_sub_None [of nd s] by auto
qed (rule memmem_find)

text \<open>\<open>strcmp\<close> returns, and the sign of \<open>strcmp\<close>, \<open>strncmp\<close> and \<open>memcmp\<close> is the order of the
  strings as sequences of unsigned characters.\<close>

theorem string_compare_correct:
  assumes "str_at m p s" "str_at m q t"
  shows "(\<exists>r. strcmp m p q = Some r \<and> sgn r = (if s = t then 0 else if s < t then - 1 else 1)) \<and>
    sgn (strncmp m p q n) = (if take n s = take n t then 0 else if take n s < take n t then - 1 else 1) \<and>
    sgn (memcmp m p q n) = (if block m p n = block m q n then 0 else if block m p n < block m q n then - 1 else 1)"
proof (intro conjI)
  show "\<exists>r. strcmp m p q = Some r \<and> sgn r = (if s = t then 0 else if s < t then - 1 else 1)"
    using strcmp_str [OF assms] by (force simp: sgn_if)
qed (rule strncmp_str [OF assms], rule memcmp_block)

text \<open>C22: the word-at-a-time \<open>strlen\<close> computes the same as the byte loop on every memory, also in
  that neither returns where there is no terminator.\<close>

theorem strlen_generic_equiv: "strlen_generic m p = strlen m p"
  by (rule strlen_generic_eq)

text \<open>The calls of \<open>strtok_r\<close> on a string, first with the string and then with a null pointer
  until they return null, end; they return the places where the memory holds the tokens of the
  string in order, as terminated strings, and change no byte outside the string.\<close>

theorem strtok_r_tokens:
  assumes "str_at m p s" "str_at m q ds" "q + length ds < p \<or> p + length s < q"
  shows "\<exists>ps m'. strtok_all m (Some p) q ns = Some (ps, m') \<and> list_all2 (str_at m') ps (tokens_of (set ds) s) \<and>
    (\<forall>a. a < p \<or> p + length s \<le> a \<longrightarrow> m' a = m a)"
  by (rule strtok_all_str [OF assms]) simp

text \<open>\<open>ffs\<close> and \<open>ffsll\<close> return 0 for 0, and otherwise the number of the lowest set bit, counted
  from 1, for negative numbers too.\<close>

theorem ffs_correct:
  "(ffs i = 0 \<longleftrightarrow> i = 0) \<and> (i \<noteq> 0 \<longrightarrow> bit i (ffs i - 1) \<and> (\<forall>k. k + 1 < ffs i \<longrightarrow> \<not> bit i k)) \<and>
   (ffsll j = 0 \<longleftrightarrow> j = 0) \<and> (j \<noteq> 0 \<longrightarrow> bit j (ffsll j - 1) \<and> (\<forall>k. k + 1 < ffsll j \<longrightarrow> \<not> bit j k))"
proof (intro conjI)
  show "ffs i = 0 \<longleftrightarrow> i = 0" "i \<noteq> 0 \<longrightarrow> bit i (ffs i - 1) \<and> (\<forall>k. k + 1 < ffs i \<longrightarrow> \<not> bit i k)"
    using ffs_spec [of i] by (auto simp: lowest_bit_def split: if_splits)
  show "ffsll j = 0 \<longleftrightarrow> j = 0" "j \<noteq> 0 \<longrightarrow> bit j (ffsll j - 1) \<and> (\<forall>k. k + 1 < ffsll j \<longrightarrow> \<not> bit j k)"
    using ffsll_spec [of j] by (auto simp: lowest_bit_def split: if_splits)
qed

subsection \<open>Witnesses\<close>

text \<open>A memory with the strings \<open>abab\<close> at 10, \<open>xab\<close> at 20 and \<open>ab\<close> at 30.\<close>

definition sample_memory :: memory where
  "sample_memory = write_bytes (write_bytes (write_bytes (\<lambda>_. 0) 10 [97, 98, 97, 98]) 20 [120, 97, 98]) 30 [97, 98]"

lemma sample_strings:
  "str_at sample_memory 10 [97, 98, 97, 98]" "str_at sample_memory 20 [120, 97, 98]" "str_at sample_memory 30 [97, 98]"
  by (simp_all add: sample_memory_def)

theorem strlcpy_strlcat_correct_witness:
  "(\<exists>m1. strlcpy sample_memory 30 10 4 = Some (4, m1) \<and> str_at m1 30 [97, 98, 97]) \<and>
   (\<exists>m2. strlcat sample_memory 30 10 4 = Some (6, m2) \<and> str_at m2 30 [97, 98, 97])"
  using strlcpy_strlcat_correct [OF sample_strings(1) _ sample_strings(3), of 4] by auto

theorem string_copy_correct_witness:
  "strcat sample_memory 30 10 = Some (30, write_bytes sample_memory 32 [97, 98, 97, 98, 0])"
  using string_copy_correct [OF sample_strings(1,3), of 0] by simp

theorem string_search_correct_witness:
  "strspn sample_memory 10 30 = Some 4 \<and> strrchr sample_memory 10 97 = Some (Some 12)"
  using string_search_correct [OF sample_strings(1,3)] by simp

theorem substring_search_correct_witness: "\<exists>k. strstr sample_memory 20 30 = Some (Some k) \<and> k \<le> 23"
proof -
  have "\<exists>k \<le> 3. prefix [97, 98] (drop k [120, 97, 98 :: byte])" by (intro exI [of _ 1]) simp
  then show ?thesis using substring_search_correct [OF sample_strings(2,3)] by fastforce
qed

theorem string_compare_correct_witness: "\<exists>r. strcmp sample_memory 10 20 = Some r \<and> sgn r = - 1"
  using string_compare_correct [OF sample_strings(1,2)] by simp

theorem strtok_r_tokens_witness:
  "\<exists>m'. \<exists>ps. strtok_all sample_memory (Some 20) 30 None = Some (ps, m') \<and> list_all2 (str_at m') ps [[120]]"
  using strtok_r_tokens [OF sample_strings(2,3), of None] by (auto simp: tokens_of.simps [of _ "[120, 97, 98]"] tokens_of.simps [of _ "[98]"] Let_def)

theorem memmove_correct_witness:
  "memcpy sample_memory 40 10 2 = memmove sample_memory 40 10 2 \<and>
   memccpy sample_memory 40 10 98 4 = (Some 42, write_bytes sample_memory 40 [97, 98])"
  using memmove_correct [of sample_memory 40 10 2] memmove_correct [of sample_memory 40 10 4 98]
  by (simp add: block_def sample_memory_def upt_rec)

theorem ffs_correct_witness: "0 < ffs 80 \<and> bit (80 :: 32 word) (ffs 80 - 1)"
  using ffs_correct [of 80 0] by simp

end
