(* ===== verification/Calendar.thy ===== *)
theory Calendar
  imports Prelude "HOL-Library.Signed_Division"
begin

text \<open>
  The calendar of \<open>libc/misc/time/time.c\<close>: \<open>_time_t2tm\<close>, \<open>gmtime_r\<close>, \<open>__time_localtime_tzi\<close> with
  the rules of daylight saving time, \<open>_time_mktime_tzi\<close>, \<open>timegm\<close>, \<open>asctime_r\<close> and \<open>dysize\<close>.

  A \<open>struct tm\<close> is the list of its nine \<open>int\<close> fields in the order of the structure, which the code
  indexes as an array too. \<open>time_t\<close> is \<open>long\<close>, with the number \<open>w\<close> of its bits as a parameter;
  the sums that the theorems do not bound beforehand, the year and \<open>1900 + tm_year\<close> of \<open>_time_t2tm\<close> and the
  shifted time of \<open>__time_localtime_tzi\<close>, wrap at their widths. The other integers are unbounded here, and the theorems
  about \<open>mktime\<close> bound the fields so that no \<open>int\<close> operation of the code overflows. The configuration is the one without the extra fields
  \<open>tm_gmtoff\<close> and \<open>tm_zone\<close>. C's division truncates: it is \<open>sdiv\<close> and \<open>smod\<close>.
\<close>

type_synonym tm = "int list"

abbreviation tm_sec :: "tm \<Rightarrow> int" where "tm_sec p \<equiv> p ! 0"
abbreviation tm_min :: "tm \<Rightarrow> int" where "tm_min p \<equiv> p ! 1"
abbreviation tm_hour :: "tm \<Rightarrow> int" where "tm_hour p \<equiv> p ! 2"
abbreviation tm_mday :: "tm \<Rightarrow> int" where "tm_mday p \<equiv> p ! 3"
abbreviation tm_mon :: "tm \<Rightarrow> int" where "tm_mon p \<equiv> p ! 4"
abbreviation tm_year :: "tm \<Rightarrow> int" where "tm_year p \<equiv> p ! 5"
abbreviation tm_wday :: "tm \<Rightarrow> int" where "tm_wday p \<equiv> p ! 6"
abbreviation tm_yday :: "tm \<Rightarrow> int" where "tm_yday p \<equiv> p ! 7"
abbreviation tm_isdst_field :: "tm \<Rightarrow> int" where "tm_isdst_field p \<equiv> p ! 8"

definition LONG_MIN :: "nat \<Rightarrow> int" where "LONG_MIN w = - (2 ^ (w - 1))"

definition LONG_MAX :: "nat \<Rightarrow> int" where "LONG_MAX w = 2 ^ (w - 1) - 1"

text \<open>The values that an \<open>int\<close> and a \<open>long\<close> keep of a sum.\<close>

definition int32 :: "int \<Rightarrow> int" where "int32 x = (x + 2 ^ 31) mod 2 ^ 32 - 2 ^ 31"

definition wrap_long :: "nat \<Rightarrow> int \<Rightarrow> int" where "wrap_long w x = (x + 2 ^ (w - 1)) mod 2 ^ w - 2 ^ (w - 1)"

record rule_struct =
  gmt_offset :: int
  dst_offset :: int
  rday :: int
  rweek :: int
  rmonth :: int
  rule_type :: char
  tzname :: string

definition isleap :: "int \<Rightarrow> bool" where
  "isleap y \<longleftrightarrow> y smod 4 = 0 \<and> (y smod 100 \<noteq> 0 \<or> y smod 400 = 0)"

definition dysize :: "int \<Rightarrow> int" where
  "dysize year = (if isleap year then 366 else 365)"

section \<open>From seconds to fields\<close>

definition vals :: "int list" where
  "vals = [60, 60, 24, 7, 36524, 1461, 365, 0]"

definition month_days :: "int list" where
  "month_days = [31, 28, 31, 30, 31, 30, 31, 31, 30, 31, 30, 31, 29]"

text \<open>The division loop at index \<open>i\<close> of \<open>_vals\<close>, with \<open>p = result + i\<close>: \<open>Inl\<close> is the return of a
  null pointer.\<close>

function t2tm_loop :: "nat \<Rightarrow> int \<Rightarrow> nat \<Rightarrow> int \<Rightarrow> int \<Rightarrow> tm \<Rightarrow> tm + (int \<times> int \<times> tm)" where
  "t2tm_loop w offset i t wday r =
     (if 7 \<le> i then Inr (t, wday, r)
      else let special = vals ! i = 7 in
        if special \<and> 32 < w \<and> \<not> (0 \<le> t + offset + 784223472856 \<and> t + offset + 784223472856 \<le> 784223421720 + 784223472856)
        then Inl r
        else
          (let wday1 = (if special then (t smod 7 + 11) smod 7 else wday);
               v = (if special then vals ! (i + 1) * 4 + 1 else vals ! i);
               t0 = (if special then t + (135140 - 366) + offset else t);
               q = t0 sdiv v;
               rest = t0 - q * v;
               t1 = (if rest < 0 then q - 1 else q);
               t2 = (if rest < 0 then rest + v else rest);
               stash = special \<and> t2 = v - 1;
               t3 = (if stash then t2 - 1 else t2);
               r1 = (if stash then r[i + 4 := r ! (i + 4) + 1] else r)
           in if v \<le> 60 then t2tm_loop w offset (i + 1) t1 wday1 (r1[i := t3])
              else t2tm_loop w offset (i + 1) t3 wday1 (r1[i := t1])))"
  by auto
termination
  by (relation "measure (\<lambda>(w, offset, i, t, wday, r). 7 - i)") auto

declare t2tm_loop.simps [simp del]

text \<open>The loop that takes months off the day of the year; \<open>d\<close> is the index into \<open>days\<close>.\<close>

partial_function (option) t2tm_month :: "int \<Rightarrow> nat \<Rightarrow> int \<Rightarrow> (int \<times> int) option" where
  [code]: "t2tm_month wday d mon =
     (if wday > month_days ! d then
        t2tm_month (wday - month_days ! d) ((if month_days ! d = 29 then d - 11 else d) + 1) (mon + 1)
      else Some (wday, mon))"

text \<open>\<open>_time_t2tm\<close>: whether the result is not null, and \<open>*result\<close>.\<close>

definition time_t2tm :: "nat \<Rightarrow> int \<Rightarrow> int \<Rightarrow> tm \<Rightarrow> (bool \<times> tm) option" where
  "time_t2tm w timer offset result =
     (case t2tm_loop w offset 0 timer 0 (result[7 := 0]) of
        Inl r \<Rightarrow> Some (False, r)
      | Inr (t, wday, r) \<Rightarrow>
          (let (r1, t1) = (if r ! 6 = 4 then (r[6 := r ! 6 - 1], 365) else (r, t));
               r2 = r1[7 := r1 ! 7 + t1];
               year = int32 (((r2 ! 3 * 4 + r2 ! 4) * 25 + r2 ! 5) * 4 + (r2 ! 6 - 299));
               r3 = r2[5 := year, 6 := wday]
           in case t2tm_month (r3 ! 7 + 1) (if isleap (int32 (1900 + year)) then 11 else 0) 0 of
                None \<Rightarrow> None
              | Some (mday, mon) \<Rightarrow> Some (True, r3[4 := mon, 3 := mday, 8 := 0])))"

definition gmtime_r :: "nat \<Rightarrow> int \<Rightarrow> tm \<Rightarrow> (bool \<times> tm) option" where
  "gmtime_r w timer result = time_t2tm w timer 0 result"

section \<open>Daylight saving time\<close>

definition day_cor :: "int list" where
  "day_cor = [31, 31, 34, 34, 35, 35, 36, 36, 36, 37, 37, 38, 38]"

text \<open>The day of the year on which a rule changes the clock.\<close>

definition rule_day :: "bool \<Rightarrow> int \<Rightarrow> rule_struct \<Rightarrow> int" where
  "rule_day leap day0 r =
     (if rule_type r = CHR ''J'' then (if \<not> leap \<or> rday r < 31 + 29 then rday r - 1 else rday r)
      else if rule_type r = CHR ''M'' then
        (let day = 31 * rmonth r - day_cor ! nat (rmonth r - 1);
             day1 = (if leap \<and> day \<ge> 59 then day + 1 else day);
             monlen = 31 + day_cor ! nat (rmonth r - 1) - day_cor ! nat (rmonth r);
             monlen1 = (if leap \<and> rmonth r = 2 then monlen + 1 else monlen);
             mday = rday r - (day0 + day1) smod 7;
             mday1 = (if mday \<ge> 0 then mday - 7 else mday);
             mday2 = mday1 + 7 * rweek r;
             mday3 = (if mday2 \<ge> monlen1 then mday2 - 7 else mday2)
         in day1 + mday3)
      else rday r)"

text \<open>The weekday of the first of January.\<close>

definition year_day0 :: "int \<Rightarrow> int" where
  "year_day0 y = (let i = y - 1 in (1 + i + i sdiv 4 - i sdiv 100 + i sdiv 400) smod 7)"

definition tm_isdst :: "tm \<Rightarrow> rule_struct \<times> rule_struct \<Rightarrow> int" where
  "tm_isdst ptm r =
     (if tzname (snd r) \<noteq> [] then
        (let sec = tm_sec ptm + 60 * (tm_min ptm + 60 * (tm_hour ptm + 24 * tm_yday ptm));
             y = tm_year ptm smod 400 + 1900;
             leap = isleap y;
             day0 = year_day0 y;
             oday = rule_day leap day0 (fst r);
             isdst0 = (if sec \<ge> oday * 86400 + dst_offset (fst r) then 1 else 0);
             day = rule_day leap day0 (snd r);
             sec1 = sec + (gmt_offset (fst r) - gmt_offset (snd r));
             isdst1 = (if oday > day then isdst0 + 1 else isdst0);
             isdst2 = (if sec1 \<ge> day * 86400 + dst_offset (snd r) then isdst1 + 1 else isdst1)
         in isdst2 mod 2)
      else 0)"

text \<open>One pass of the loop of \<open>__time_localtime_tzi\<close>.\<close>

definition localtime_pass :: "nat \<Rightarrow> int \<Rightarrow> int \<Rightarrow> rule_struct \<Rightarrow> tm \<Rightarrow> tm option" where
  "localtime_pass w timer dst rule result =
     (let offset = 604800 - gmt_offset rule;
          (days, offset1) = (if timer > LONG_MAX w - 604800 then (7, - offset) else (- 7, offset))
      in map_option (\<lambda>(_, r). r[8 := dst]) (time_t2tm w (wrap_long w (timer + offset1)) days result))"

definition time_localtime_tzi :: "nat \<Rightarrow> int \<Rightarrow> tm \<Rightarrow> rule_struct \<times> rule_struct \<Rightarrow> tm option" where
  "time_localtime_tzi w timer result tzi =
     (case localtime_pass w timer 0 (fst tzi) result of
        None \<Rightarrow> None
      | Some r \<Rightarrow>
          (let isdst = tm_isdst r tzi; r1 = r[8 := isdst]
           in if isdst \<noteq> 0 then localtime_pass w timer 1 (snd tzi) r1 else Some r1))"

section \<open>From fields to seconds\<close>

definition mktime_vals :: "int list" where
  "mktime_vals = [31, 28, 31, 30, 31, 30, 31, 31, 30, 31, 30, 31, 29]"

text \<open>The loop that adds the months before month \<open>d\<close>; \<open>s\<close> is the index into \<open>__vals\<close>.\<close>

fun mktime_months :: "nat \<Rightarrow> nat \<Rightarrow> int \<Rightarrow> int" where
  "mktime_months 0 s yday = yday"
| "mktime_months (Suc d) s yday =
     mktime_months d ((if mktime_vals ! s = 29 then s - 11 else s) + 1) (yday + mktime_vals ! s)"

text \<open>From the label \<open>DST_CORRECT\<close> on: the result and the new \<open>*timeptr\<close>.\<close>

partial_function (option) mktime_dst ::
  "nat \<Rightarrow> int \<Rightarrow> int \<Rightarrow> tm \<Rightarrow> bool \<Rightarrow> tm \<Rightarrow> rule_struct \<times> rule_struct \<Rightarrow> (int \<times> tm) option" where
  [code]: "mktime_dst w secs default_dst p store timeptr tzi =
     (if \<not> (LONG_MIN w \<le> secs \<and> secs \<le> LONG_MAX w) then Some (- 1, timeptr)
      else let d = tm_isdst_field p
        in (case time_localtime_tzi w secs p tzi of
              None \<Rightarrow> None
            | Some p1 \<Rightarrow>
                if secs = - 1 then Some (secs, timeptr)
                else if d < 0 \<and> tm_isdst_field p1 \<noteq> default_dst then
                  mktime_dst w
                    (secs + (gmt_offset (if default_dst = 0 then snd tzi else fst tzi)
                             - gmt_offset (if default_dst = 0 then fst tzi else snd tzi)))
                    default_dst p1 store timeptr tzi
                else Some (secs, if store then p1 else timeptr)))"

text \<open>The parts of \<open>_time_mktime_tzi\<close>: the normalisation of \<open>tm_isdst\<close>, with the index of the rule to
  start with; that of the year and the month, with the cycles of 400 years in field 6, the expanded
  year in field 5 and the days before the month in field 7; and the number of seconds.\<close>

definition mktime_isdst :: "tm \<Rightarrow> rule_struct \<times> rule_struct \<Rightarrow> int \<times> tm" where
  "mktime_isdst timeptr tzi =
     (let p = (if tzname (snd tzi) = [] then timeptr[8 := 0] else timeptr)
      in if p ! 8 \<noteq> 0 then (1, p[8 := if p ! 8 > 0 then 1 else - 1]) else (0, p))"

definition mktime_norm :: "tm \<Rightarrow> tm" where
  "mktime_norm p =
     (let q = p ! 5 sdiv 400;
          m = p ! 4 sdiv 12;
          year = (p ! 5 - q * 400) + m;
          mon = p ! 4 - 12 * m;
          (mon1, year1) = (if mon < 0 then (mon + 12, year - 1) else (mon, year));
          year2 = year1 + 1900
      in p[6 := q, 4 := mon1, 5 := year2,
           7 := mktime_months (nat mon1) (if isleap year2 then 11 else 0) 0])"

definition mktime_secs :: "tm \<Rightarrow> int \<Rightarrow> int" where
  "mktime_secs p offset =
     (let d = p ! 5 - 1;
          days = - 719163 + d * 365 + d sdiv 4 - d sdiv 100 + d sdiv 400
      in p ! 0 + offset
           + 60 * (p ! 1 + 60 * (p ! 2 + 24 * (146073 * (p ! 6) + days + p ! 3 + p ! 7))))"

text \<open>The argument \<open>tzset\<close> is what the call of \<open>_time_tzset\<close> does to the rules behind \<open>tzi\<close>.\<close>

definition time_mktime_tzi ::
  "(bool \<Rightarrow> rule_struct \<times> rule_struct \<Rightarrow> rule_struct \<times> rule_struct) \<Rightarrow> nat \<Rightarrow> tm \<Rightarrow> bool \<Rightarrow>
   rule_struct \<times> rule_struct \<Rightarrow> (int \<times> tm) option" where
  "time_mktime_tzi tzset w timeptr store tzi =
     (let (default_dst, p1) = mktime_isdst timeptr tzi;
          p2 = mktime_norm p1;
          tzi1 = tzset (p2 ! 5 < 2007) tzi;
          secs = mktime_secs p2 (gmt_offset (if default_dst = 0 then fst tzi1 else snd tzi1))
      in mktime_dst w secs default_dst p2 store timeptr tzi1)"

definition zero_rule :: rule_struct where
  "zero_rule = \<lparr>gmt_offset = 0, dst_offset = 0, rday = 0, rweek = 0, rmonth = 0, rule_type = CHR 0x00, tzname = []\<rparr>"

text \<open>The rules that \<open>timegm\<close> passes are a local array, which \<open>_time_tzset\<close> does not touch.\<close>

definition timegm :: "nat \<Rightarrow> tm \<Rightarrow> (int \<times> tm) option" where
  "timegm w timeptr =
     time_mktime_tzi (\<lambda>_ r. r) w timeptr True (zero_rule\<lparr>tzname := ''GMT''\<rparr>, zero_rule)"

section \<open>The text form\<close>

definition at_names :: string where
  "at_names = ''SunMonTueWedThuFriSatJanFebMarAprMayJunJulAugSepOctNovDec''"

text \<open>The template of \<open>asctime_r\<close> as bytes. The bytes 12, 8, 4 and 0 are the offsets of \<open>tm_mday\<close>,
  \<open>tm_hour\<close>, \<open>tm_min\<close> and \<open>tm_sec\<close> in the structure.\<close>

definition at_tail :: "int list" where
  "at_tail = map (of_char :: char \<Rightarrow> int) ''??? ??? 0'' @ [12] @ map of_char '' 0'' @ [8] @ map of_char '':0'' @ [4] @
     map of_char '':0'' @ [0] @ map of_char '' ????'' @ [10, 0]"

definition put3 :: "int list \<Rightarrow> nat \<Rightarrow> string \<Rightarrow> int list" where
  "put3 buf i cs = take i buf @ map of_char cs @ drop (i + length cs) buf"

text \<open>The digits of the year, from index \<open>i\<close> downwards as long as the template has question marks.\<close>

partial_function (option) asctime_year :: "int list \<Rightarrow> nat \<Rightarrow> int \<Rightarrow> (int list \<times> nat) option" where
  [code]: "asctime_year buf i tmp =
     (let buf1 = buf[i := 48 + tmp smod 10]
      in if buf1 ! (i - 1) = 63 then asctime_year buf1 (i - 1) (tmp sdiv 10) else Some (buf1, i - 1))"

text \<open>The two-digit fields.\<close>

partial_function (option) asctime_fields :: "tm \<Rightarrow> int list \<Rightarrow> nat \<Rightarrow> (int list \<times> nat) option" where
  [code]: "asctime_fields ptm buf i0 =
     (let i = i0 - 1;
          tmp = ptm ! nat (buf ! i sdiv 4);
          buf1 = (if tmp < 0 \<or> tmp \<ge> 100 then buf[i := 63, i - 1 := 63]
                  else buf[i := 48 + tmp smod 10, i - 1 := buf ! (i - 1) + tmp sdiv 10])
      in if buf1 ! (i - 2 - 2) = 48 then asctime_fields ptm buf1 (i - 2) else Some (buf1, i - 2))"

text \<open>\<open>asctime_r\<close>: the index of the result in the buffer, and the buffer.\<close>

definition asctime_r :: "tm \<Rightarrow> (nat \<times> int list) option" where
  "asctime_r ptm =
     (let b0 = at_tail;
          b1 = (if 0 \<le> tm_wday ptm \<and> tm_wday ptm \<le> 6 then put3 b0 0 (take 3 (drop (3 * nat (tm_wday ptm)) at_names)) else b0);
          b2 = (if 0 \<le> tm_mon ptm \<and> tm_mon ptm \<le> 11 then put3 b1 4 (take 3 (drop (21 + 3 * nat (tm_mon ptm)) at_names)) else b1);
          tmp = tm_year ptm + 1900
      in case (if 0 \<le> tmp \<and> tmp < 10000 then asctime_year b2 23 tmp else Some (b2, 19)) of
           None \<Rightarrow> None
         | Some (b3, i) \<Rightarrow>
             (case asctime_fields ptm b3 i of
                None \<Rightarrow> None
              | Some (b4, j) \<Rightarrow> Some (j + 1 - 8, if b4 ! (j + 1) = 48 then b4[j + 1 := 32] else b4)))"

end
