(* ===== verification/Calendar_Proofs.thy ===== *)
theory Calendar_Proofs
  imports Calendar
begin

text \<open>
  The calendar against the Gregorian rules. \<open>year_start\<close> and \<open>month_start\<close> count days, \<open>date_seconds\<close> is
  the time that a \<open>struct tm\<close> denotes and \<open>tm_ok\<close> says that its fields are in their ranges and agree;
  a time has one such representation. The lemmas follow the code: the division loop and the month
  loop of \<open>_time_t2tm\<close>, the passes of \<open>__time_localtime_tzi\<close>, the arithmetic of \<open>_time_mktime_tzi\<close>, the
  rules of daylight saving time, and the text form.
\<close>

section \<open>The Gregorian calendar\<close>

definition leap_year :: "int \<Rightarrow> bool" where
  "leap_year y \<longleftrightarrow> 4 dvd y \<and> (\<not> 100 dvd y \<or> 400 dvd y)"

definition year_days :: "int \<Rightarrow> int" where
  "year_days y = (if leap_year y then 366 else 365)"

text \<open>Days from the epoch to the first of January.\<close>

definition year_start :: "int \<Rightarrow> int" where
  "year_start y = 365 * (y - 1) + (y - 1) div 4 - (y - 1) div 100 + (y - 1) div 400 - 719162"

text \<open>Thirty days have April, June, September and November, months 3, 5, 8 and 10 when January is 0.\<close>

definition month_length :: "bool \<Rightarrow> nat \<Rightarrow> int" where
  "month_length leap m =
     (if m = 1 then (if leap then 29 else 28) else if m = 3 \<or> m = 5 \<or> m = 8 \<or> m = 10 then 30 else 31)"

definition month_start :: "bool \<Rightarrow> nat \<Rightarrow> int" where
  "month_start leap m = (\<Sum>k<m. month_length leap k)"

text \<open>The seconds from the epoch to a date, for months beyond the year too.\<close>

definition date_seconds :: "tm \<Rightarrow> int" where
  "date_seconds p =
     (let y = 1900 + tm_year p + tm_mon p div 12
      in tm_sec p + 60 * (tm_min p + 60 * (tm_hour p + 24 *
           (year_start y + month_start (leap_year y) (nat (tm_mon p mod 12)) + tm_mday p - 1))))"

text \<open>A \<open>struct tm\<close> whose fields are in their ranges and agree with each other.\<close>

definition tm_ok :: "tm \<Rightarrow> bool" where
  "tm_ok p \<longleftrightarrow>
     (let leap = leap_year (1900 + tm_year p); m = nat (tm_mon p)
      in length p = 9 \<and> 0 \<le> tm_sec p \<and> tm_sec p < 60 \<and> 0 \<le> tm_min p \<and> tm_min p < 60 \<and>
         0 \<le> tm_hour p \<and> tm_hour p < 24 \<and> 0 \<le> tm_mon p \<and> tm_mon p < 12 \<and>
         1 \<le> tm_mday p \<and> tm_mday p \<le> month_length leap m \<and>
         tm_yday p = month_start leap m + tm_mday p - 1 \<and>
         tm_wday p = (year_start (1900 + tm_year p) + tm_yday p + 4) mod 7)"

lemma div_pred: "0 < k \<Longrightarrow> (y :: int) div k = (y - 1) div k + (if k dvd y then 1 else 0)"
proof -
  assume k: "0 < k"
  have eq: "y = k * (y div k) + y mod k" by simp
  show ?thesis
  proof (cases "k dvd y")
    case True
    then have "y - 1 = k * (y div k - 1) + (k - 1)" by (simp add: algebra_simps)
    then have "(y - 1) div k = y div k - 1" using k int_div_pos_eq [of "y - 1" k "y div k - 1" "k - 1"] by simp
    then show ?thesis using True by simp
  next
    case False
    then have "y mod k \<noteq> 0" by (simp add: dvd_eq_mod_eq_0)
    moreover have "0 \<le> y mod k" "y mod k < k" using k by simp_all
    ultimately have "(y - 1) div k = y div k"
      using eq int_div_pos_eq [of "y - 1" k "y div k" "y mod k - 1"] by linarith
    then show ?thesis using False by simp
  qed
qed

lemma dvd_chain: "(400 :: int) dvd y \<Longrightarrow> 100 dvd y" "(100 :: int) dvd y \<Longrightarrow> 4 dvd y"
  using dvd_trans [of 100 400 y] dvd_trans [of 4 100 y] by simp_all

definition bool_int :: "bool \<Rightarrow> int" where
  "bool_int b = (if b then 1 else 0)"

lemma leap_count: "(C \<Longrightarrow> B) \<Longrightarrow> (B \<Longrightarrow> A) \<Longrightarrow>
    (if A \<and> (\<not> B \<or> C) then 366 else 365) = 365 + bool_int A - bool_int B + bool_int C"
  by (cases A; cases B; cases C) (simp_all add: bool_int_def)

lemma year_start_Suc: "year_start (y + 1) = year_start y + year_days y"
proof -
  define a b c where "a = (y - 1) div 4" and "b = (y - 1) div 100" and "c = (y - 1) div 400"
  define A B C where "A = bool_int (4 dvd y)" and "B = bool_int (100 dvd y)" and "C = bool_int (400 dvd y)"
  have "y div 4 = a + A" "y div 100 = b + B" "y div 400 = c + C"
    using div_pred [of 4 y] div_pred [of 100 y] div_pred [of 400 y]
    by (simp_all add: a_def b_def c_def A_def B_def C_def bool_int_def)
  then have "year_start (y + 1) = 365 * y + (a + A) - (b + B) + (c + C) - 719162"
    by (simp only: year_start_def add_diff_cancel_right')
  moreover have "year_start y = 365 * (y - 1) + a - b + c - 719162" by (simp only: year_start_def a_def b_def c_def)
  moreover have "year_days y = 365 + A - B + C"
    unfolding year_days_def leap_year_def A_def B_def C_def by (rule leap_count [OF dvd_chain])
  ultimately show ?thesis by simp
qed

lemma smod_eq_0: "(y :: int) smod k = 0 \<longleftrightarrow> k dvd y"
  by (auto simp: smod_int_alt_def sgn_eq_0_iff dvd_eq_mod_eq_0 [symmetric])

lemma isleap_leap: "isleap y = leap_year y"
  by (simp add: isleap_def leap_year_def smod_eq_0)

section \<open>Division in \<open>_time_t2tm\<close>\<close>

lemma floor_division:
  fixes t v :: int
  assumes "0 < v"
  shows "(if t - t sdiv v * v < 0 then t sdiv v - 1 else t sdiv v) = t div v" (is ?div)
    and "(if t - t sdiv v * v < 0 then t - t sdiv v * v + v else t - t sdiv v * v) = t mod v" (is ?mod)
proof -
  let ?b = "sgn t \<noteq> sgn v \<and> \<not> v dvd t"
  have rest: "t - t sdiv v * v = t mod v - v * of_bool ?b"
    by (simp add: minus_sdiv_mult_eq_smod signed_modulo_int_eq_modulo_int)
  moreover have "0 \<le> t mod v" "t mod v < v" using assms by simp_all
  ultimately have neg: "t - t sdiv v * v < 0 \<longleftrightarrow> ?b" by auto
  show ?mod using rest neg by auto
  show ?div using neg assms by (auto simp: divide_int_eq_signed_divide_int)
qed

lemma smod_mod_same: "(t smod v) mod v = t mod (v :: int)"
  by (simp add: signed_modulo_int_eq_modulo_int mod_diff_eq [symmetric])

lemma weekday_smod: "(t smod 7 + 11) smod 7 = (t + 4) mod (7 :: int)"
proof -
  have "- 7 < t smod 7" using smod_int_range [of 7 t] by simp
  then have "(t smod 7 + 11) smod 7 = (t smod 7 + 11) mod 7" by (simp add: smod_mod_positive)
  also have "\<dots> = (t mod 7 + 11) mod 7" by (metis mod_add_left_eq smod_mod_same)
  also have "\<dots> = (t + 11) mod 7" by (rule mod_add_left_eq)
  also have "\<dots> = (t + 4 + 7) mod 7" by (simp only: add.assoc) simp
  finally show ?thesis by (simp only: mod_add_self2)
qed

text \<open>The quotients and remainders that the loop of \<open>_time_t2tm\<close> computes from a number of days
  since the beginning of 1601: cycles of 400 years, the extra day of a cycle, centuries, groups of
  four years, years, days.\<close>

definition cyc :: "int \<Rightarrow> int" where "cyc N = N div 146097"
definition stash :: "int \<Rightarrow> int" where "stash N = (if N mod 146097 = 146096 then 1 else 0)"
definition cen :: "int \<Rightarrow> int" where "cen N = (N mod 146097 - stash N) div 36524"
definition quad :: "int \<Rightarrow> int" where "quad N = (N mod 146097 - stash N) mod 36524 div 1461"
definition yr :: "int \<Rightarrow> int" where "yr N = (N mod 146097 - stash N) mod 36524 mod 1461 div 365"
definition dy :: "int \<Rightarrow> int" where "dy N = (N mod 146097 - stash N) mod 36524 mod 1461 mod 365"

lemmas split_defs = cyc_def stash_def cen_def quad_def yr_def dy_def

lemma t2tm_step:
  assumes "i < 7" "i \<noteq> 3"
  shows "t2tm_loop w off i t wd r =
    (if vals ! i \<le> 60 then t2tm_loop w off (i + 1) (t div vals ! i) wd (r[i := t mod vals ! i])
     else t2tm_loop w off (i + 1) (t mod vals ! i) wd (r[i := t div vals ! i]))"
proof -
  have v: "0 < vals ! i" "vals ! i \<noteq> 7" using assms by (auto simp: vals_def nth_Cons' less_Suc_eq numeral_eq_Suc)
  show ?thesis using floor_division [OF v(1), of t] v(2) assms(1)
    by (subst t2tm_loop.simps) (simp add: Let_def)
qed

lemma t2tm_step3:
  "t2tm_loop w off 3 t wd r =
    (if 32 < w \<and> \<not> (- 784223472856 \<le> t + off \<and> t + off \<le> 784223421720) then Inl r
     else let N = t + 134774 + off
       in t2tm_loop w off 4 (N mod 146097 - stash N) ((t + 4) mod 7)
            ((if stash N = 1 then r[7 := r ! 7 + 1] else r)[3 := cyc N]))"
  using floor_division [of 146097 "t + 134774 + off"]
  by (subst t2tm_loop.simps) (auto simp: Let_def vals_def weekday_smod stash_def cyc_def)

lemma t2tm_loop_split:
  fixes t off :: int
  assumes "length r = 9"
  defines "D \<equiv> t div 60 div 60 div 24" and "N \<equiv> t div 60 div 60 div 24 + 134774 + off"
  shows "t2tm_loop w off 0 t 0 (r[7 := 0]) =
    (if 32 < w \<and> \<not> (- 784223472856 \<le> D + off \<and> D + off \<le> 784223421720)
     then Inl (r[7 := 0, 0 := t mod 60, 1 := t div 60 mod 60, 2 := t div 60 div 60 mod 24])
     else Inr (dy N, (D + 4) mod 7,
       [t mod 60, t div 60 mod 60, t div 60 div 60 mod 24, cyc N, cen N, quad N, yr N, stash N, r ! 8]))"
proof -
  obtain a0 a1 a2 a3 a4 a5 a6 a7 a8 where r: "r = [a0, a1, a2, a3, a4, a5, a6, a7, a8]"
    using assms(1) by (auto simp: length_Suc_conv numeral_eq_Suc)
  have v: "vals ! 0 = 60" "vals ! 1 = 60" "vals ! 2 = 24" "vals ! 4 = 36524" "vals ! 5 = 1461" "vals ! 6 = 365"
    by (simp_all add: vals_def)
  have s0: "t2tm_loop w off 0 t wd r = t2tm_loop w off 1 (t div 60) wd (r[0 := t mod 60])"
    and s1: "t2tm_loop w off 1 t wd r = t2tm_loop w off 2 (t div 60) wd (r[1 := t mod 60])"
    and s2: "t2tm_loop w off 2 t wd r = t2tm_loop w off 3 (t div 24) wd (r[2 := t mod 24])"
    and s4: "t2tm_loop w off 4 t wd r = t2tm_loop w off 5 (t mod 36524) wd (r[4 := t div 36524])"
    and s5: "t2tm_loop w off 5 t wd r = t2tm_loop w off 6 (t mod 1461) wd (r[5 := t div 1461])"
    and s6: "t2tm_loop w off 6 t wd r = t2tm_loop w off 7 (t mod 365) wd (r[6 := t div 365])"
    and s7: "t2tm_loop w off 7 t wd r = Inr (t, wd, r)" for t wd r
    using t2tm_step [of 0 w off t wd r] t2tm_step [of 1 w off t wd r] t2tm_step [of 2 w off t wd r]
      t2tm_step [of 4 w off t wd r] t2tm_step [of 5 w off t wd r] t2tm_step [of 6 w off t wd r]
    unfolding v by (simp_all add: numeral_2_eq_2 numeral_3_eq_3 t2tm_loop.simps [of w off 7])
  have stash: "(if stash N = 1 then r[7 := r ! 7 + 1] else r) = r[7 := r ! 7 + stash N]" if "length r = 9" for r N
    using that by (simp add: stash_def)
  have tail: "t2tm_loop w off 4 (N mod 146097 - stash N) wd r = Inr (dy N, wd, r[4 := cen N, 5 := quad N, 6 := yr N])" for N wd r
    unfolding s4 s5 s6 s7 cen_def quad_def yr_def dy_def by (rule refl)
  have "t2tm_loop w off 0 t 0 (r[7 := 0]) =
      t2tm_loop w off 3 D 0 (r[7 := 0, 0 := t mod 60, 1 := t div 60 mod 60, 2 := t div 60 div 60 mod 24])"
    unfolding s0 s1 s2 D_def by (rule refl)
  moreover have "D + 134774 + off = N" by (simp only: D_def N_def)
  ultimately show ?thesis unfolding t2tm_step3 Let_def tail by (simp add: r stash)
qed

lemma split_sum: "N = 146097 * cyc N + 36524 * cen N + 1461 * quad N + 365 * yr N + dy N + stash N"
proof -
  define n where "n = N mod 146097 - stash N"
  define c where "c = n mod 36524"
  define q where "q = c mod 1461"
  have eqs: "cen N = n div 36524" "quad N = c div 1461" "yr N = q div 365" "dy N = q mod 365"
    unfolding cen_def quad_def yr_def dy_def n_def c_def q_def by (rule refl)+
  have "N = 146097 * cyc N + (n + stash N)" unfolding cyc_def n_def by (simp only: diff_add_cancel mult_div_mod_eq)
  moreover have "n = 36524 * cen N + c" "c = 1461 * quad N + q" "q = 365 * yr N + dy N"
    unfolding eqs q_def c_def by (simp_all only: mult_div_mod_eq)
  ultimately show ?thesis by linarith
qed

lemma split_range:
  "0 \<le> cen N" "cen N \<le> 3" "0 \<le> quad N" "quad N \<le> 24" "0 \<le> yr N" "yr N \<le> 4" "0 \<le> dy N" "dy N \<le> 364"
  "yr N = 4 \<Longrightarrow> dy N = 0 \<and> quad N \<le> 23"
  "stash N = 0 \<or> stash N = 1 \<and> cen N = 3 \<and> quad N = 24 \<and> yr N = 3 \<and> dy N = 364"
proof -
  define n where "n = N mod 146097 - stash N"
  have b: "0 \<le> N mod 146097" "N mod 146097 < 146097" by simp_all
  then have n: "0 \<le> n" "n < 146096" by (auto simp: n_def stash_def)
  define c where "c = n mod 36524"
  define q where "q = c mod 1461"
  have c: "0 \<le> c" "c < 36524" and q: "0 \<le> q" "q < 1461" by (simp_all add: c_def q_def)
  have eqs: "cen N = n div 36524" "quad N = c div 1461" "yr N = q div 365" "dy N = q mod 365"
    by (simp_all add: cen_def quad_def yr_def dy_def n_def c_def q_def)
  have rel: "n = 36524 * cen N + c" "c = 1461 * quad N + q" "q = 365 * yr N + dy N"
    unfolding eqs q_def c_def by (simp_all only: mult_div_mod_eq)
  show d: "0 \<le> dy N" "dy N \<le> 364" using eqs(4) by simp_all
  show cen: "0 \<le> cen N" "cen N \<le> 3" using rel(1) n c by linarith+
  show quad: "0 \<le> quad N" "quad N \<le> 24" using rel(2) c q by linarith+
  show yr: "0 \<le> yr N" "yr N \<le> 4" using rel(3) q d by linarith+
  show "yr N = 4 \<Longrightarrow> dy N = 0 \<and> quad N \<le> 23" using rel c q d by linarith
  show "stash N = 0 \<or> stash N = 1 \<and> cen N = 3 \<and> quad N = 24 \<and> yr N = 3 \<and> dy N = 364"
  proof (cases "N mod 146097 = 146096")
    case True
    then have n': "n = 146095" "stash N = 1" by (simp_all add: n_def stash_def)
    have "c = 36523" unfolding c_def n'(1) by simp
    then have "q = 1459" unfolding q_def by simp
    then show ?thesis using n' \<open>c = 36523\<close> by (simp add: eqs)
  qed (simp add: stash_def)
qed

definition split_year :: "int \<Rightarrow> int" where
  "split_year N = 1601 + 400 * cyc N + 100 * cen N + 4 * quad N + (if yr N = 4 then 3 else yr N)"

definition split_yday :: "int \<Rightarrow> int" where
  "split_yday N = (if yr N = 4 then 365 else dy N) + stash N"

lemma split_year_start: "year_start (split_year N) + split_yday N = N - 134774"
proof -
  define z where "z = (if yr N = 4 then 3 else yr N)"
  have z: "0 \<le> z" "z \<le> 3" using split_range(5,6) [of N] by (auto simp: z_def)
  have y: "split_year N - 1 = 400 * (4 + cyc N) + (100 * cen N + 4 * quad N + z)"
    "split_year N - 1 = 100 * (16 + 4 * cyc N + cen N) + (4 * quad N + z)"
    "split_year N - 1 = 4 * (400 + 100 * cyc N + 25 * cen N + quad N) + z"
    by (simp_all add: split_year_def z_def)
  note r = split_range(1-4) [of N]
  have d: "(split_year N - 1) div 400 = 4 + cyc N" "(split_year N - 1) div 100 = 16 + 4 * cyc N + cen N"
    "(split_year N - 1) div 4 = 400 + 100 * cyc N + 25 * cen N + quad N"
    using int_div_pos_eq [OF y(1)] int_div_pos_eq [OF y(2)] int_div_pos_eq [OF y(3)] z r by linarith+
  have "365 * z + split_yday N = 365 * yr N + dy N + stash N"
    using split_range(9) [of N] by (auto simp: z_def split_yday_def)
  then show ?thesis using split_sum [of N] y(3) unfolding year_start_def d by algebra
qed

lemma split_yday_range: "0 \<le> split_yday N" "split_yday N < year_days (split_year N)"
proof -
  note r = split_range [of N]
  show "0 \<le> split_yday N" using r(7,10) by (auto simp: split_yday_def)
  show "split_yday N < year_days (split_year N)"
  proof (cases "yr N = 4 \<or> stash N = 1")
    case False
    then show ?thesis using r(8,10) by (auto simp: split_yday_def year_days_def)
  next
    case True
    have 4: "split_year N = 4 * (401 + 100 * cyc N + 25 * cen N + quad N)"
      using True r(10) by (auto simp: split_year_def)
    have leap: "leap_year (split_year N)"
    proof (cases "stash N = 1")
      case True
      then have "split_year N = 400 * (5 + cyc N)" using r(10) by (auto simp: split_year_def)
      then have "400 dvd split_year N" by simp
      then show ?thesis using dvd_chain [of "split_year N"] by (simp add: leap_year_def)
    next
      case False
      then have "yr N = 4" "quad N \<le> 23" using True r(9) by auto
      then have "split_year N = 100 * (16 + 4 * cyc N + cen N) + (4 * quad N + 4)" by (simp add: split_year_def)
      then have "split_year N mod 100 = 4 * quad N + 4"
        by (rule int_mod_pos_eq) (use \<open>quad N \<le> 23\<close> r(3) in auto)
      then have "\<not> 100 dvd split_year N" using r(3) by (simp add: dvd_eq_mod_eq_0)
      moreover have "4 dvd split_year N" unfolding 4 by simp
      ultimately show ?thesis by (simp add: leap_year_def)
    qed
    then show ?thesis using r(8,10) by (auto simp: split_yday_def year_days_def)
  qed
qed

section \<open>Months\<close>

text \<open>The index of a month in the table of month lengths, which has the lengths of January and
  February of a leap year at its end.\<close>

definition month_pos :: "bool \<Rightarrow> nat \<Rightarrow> nat" where
  "month_pos leap m = (if leap \<and> m < 2 then m + 11 else m)"

lemma month_cases:
  assumes "m < 12"
  obtains "m = 0" | "m = 1" | "m = 2" | "m = 3" | "m = 4" | "m = 5" | "m = 6" | "m = 7" | "m = 8" | "m = 9" | "m = 10" | "m = (11 :: nat)"
proof -
  have "m = 0 \<or> m = 1 \<or> m = 2 \<or> m = 3 \<or> m = 4 \<or> m = 5 \<or> m = 6 \<or> m = 7 \<or> m = 8 \<or> m = 9 \<or> m = 10 \<or> m = 11"
    using assms by presburger
  then show thesis using that by blast
qed

lemma month_pos_0: "month_pos leap 0 = (if leap then 11 else 0)"
  by (simp add: month_pos_def)

lemma month_start_0 [simp]: "month_start leap 0 = 0"
  by (simp add: month_start_def)

lemma month_pos_length: "m < 12 \<Longrightarrow> month_days ! month_pos leap m = month_length leap m"
  by (erule month_cases) (simp_all add: month_pos_def month_length_def month_days_def)

lemma month_pos_Suc:
  "m < 11 \<Longrightarrow> (if month_days ! month_pos leap m = 29 then month_pos leap m - 11 else month_pos leap m) + 1 = month_pos leap (m + 1)"
  by (rule month_cases [of m]) (simp_all add: month_pos_def month_days_def)

lemma month_length_range: "m < 12 \<Longrightarrow> 28 \<le> month_length leap m \<and> month_length leap m \<le> 31"
  by (erule month_cases) (simp_all add: month_length_def month_days_def)

lemma month_start_Suc: "month_start leap (Suc m) = month_start leap m + month_length leap m"
  by (simp add: month_start_def)

lemma month_start_12: "month_start leap 12 = (if leap then 366 else 365)"
  by (simp add: month_start_def month_length_def month_days_def lessThan_nat_numeral lessThan_Suc)

lemma t2tm_month_loop:
  "\<lbrakk>m < 12; 1 \<le> x; month_start leap m + x \<le> month_start leap 12\<rbrakk> \<Longrightarrow>
    \<exists>k d. t2tm_month x (month_pos leap m) (int m) = Some (d, int k) \<and> k < 12 \<and> 1 \<le> d \<and> d \<le> month_length leap k \<and>
      month_start leap k + d = month_start leap m + x"
proof (induction "12 - m" arbitrary: m x)
  case (Suc n)
  show ?case
  proof (cases "x > month_length leap m")
    case False
    then show ?thesis using Suc.prems by (subst t2tm_month.simps) (auto simp: month_pos_length)
  next
    case True
    then have m: "m < 11"
      using Suc.prems month_start_Suc [of leap 11] by (cases "m = 11") (auto simp: numeral_eq_Suc)
    have "\<exists>k d. t2tm_month (x - month_length leap m) (month_pos leap (m + 1)) (int (m + 1)) = Some (d, int k) \<and> k < 12 \<and> 1 \<le> d \<and>
        d \<le> month_length leap k \<and> month_start leap k + d = month_start leap (m + 1) + (x - month_length leap m)"
      using Suc.hyps(2) Suc.prems True m by (intro Suc.hyps(1)) (auto simp: month_start_Suc)
    moreover have "t2tm_month x (month_pos leap m) (int m) =
        t2tm_month (x - month_length leap m) (month_pos leap (m + 1)) (int (m + 1))"
      using True Suc.prems(1) month_pos_Suc [OF m] by (subst t2tm_month.simps) (simp add: month_pos_length add.commute)
    ultimately show ?thesis by (auto simp: month_start_Suc)
  qed
qed simp

lemma mktime_vals_days: "mktime_vals = month_days"
  by (simp add: mktime_vals_def month_days_def)

lemma mktime_months_sum:
  "m + d < 12 \<Longrightarrow> mktime_months d (month_pos leap m) x + month_start leap m = x + month_start leap (m + d)"
proof (induction d arbitrary: m x)
  case (Suc d)
  then have "(if month_days ! month_pos leap m = 29 then month_pos leap m - 11 else month_pos leap m) + 1 = month_pos leap (m + 1)"
    by (intro month_pos_Suc) simp
  then show ?case using Suc.IH [of "m + 1" "x + month_length leap m"] Suc.prems
    by (simp add: month_pos_length month_start_Suc mktime_vals_days)
qed simp

lemma mktime_months_start:
  "d < 12 \<Longrightarrow> mktime_months d (if leap then 11 else 0) 0 = month_start leap d"
  using mktime_months_sum [of 0 d leap 0] unfolding month_pos_0 by simp

section \<open>The conversion of seconds to fields\<close>

lemma date_seconds_ok:
  "tm_ok p \<Longrightarrow> date_seconds p =
    tm_sec p + 60 * (tm_min p + 60 * (tm_hour p + 24 * (year_start (1900 + tm_year p) + tm_yday p)))"
  by (simp add: date_seconds_def tm_ok_def Let_def)

lemma year_start_mono: "a \<le> b \<Longrightarrow> year_start a + 365 * (b - a) \<le> year_start b"
proof -
  have "year_start a + 365 * int n \<le> year_start (a + int n)" for n
  proof (induction n)
    case (Suc n)
    have "year_start (a + int n + 1) = year_start (a + int n) + year_days (a + int n)" by (rule year_start_Suc)
    moreover have "365 \<le> year_days (a + int n)" by (simp add: year_days_def)
    ultimately show ?case using Suc by (simp add: algebra_simps)
  qed simp
  from this [of "nat (b - a)"] show "a \<le> b \<Longrightarrow> year_start a + 365 * (b - a) \<le> year_start b" by simp
qed

lemma int32_id: "- (2 ^ 31) \<le> x \<Longrightarrow> x < 2 ^ 31 \<Longrightarrow> int32 x = x"
  by (simp add: int32_def)

definition t2tm_range :: "nat \<Rightarrow> int \<Rightarrow> bool" where
  "t2tm_range w days \<longleftrightarrow> w \<le> 32 \<or> - 784223472856 \<le> days \<and> days \<le> 784223421720"

text \<open>The days that \<open>_time_t2tm\<close> accepts for a wide \<open>long\<close>; for a \<open>long\<close> of 32 bits there are no others.\<close>

definition day_ok :: "int \<Rightarrow> bool" where
  "day_ok days \<longleftrightarrow> - 784223472856 \<le> days \<and> days \<le> 784223421720"

lemma day_ok_range: "day_ok days \<Longrightarrow> t2tm_range w days"
  by (simp add: day_ok_def t2tm_range_def)

text \<open>On these days neither the year nor \<open>1900 + tm_year\<close> overflows an \<open>int\<close>.\<close>

lemma day_ok_year:
  assumes "day_ok days" "year_start (1900 + y) \<le> days" "days < year_start (1900 + y + 1)"
  shows "- (2 ^ 31) \<le> y" "1900 + y < 2 ^ 31"
proof -
  have e: "year_start (2 ^ 31) = 784351576777" "year_start (1900 - 2 ^ 31) = - 784352321872" by (simp_all add: year_start_def)
  show "1900 + y < 2 ^ 31"
  proof (rule ccontr)
    assume "\<not> ?thesis"
    then have "year_start (2 ^ 31) \<le> year_start (1900 + y)" using year_start_mono [of "2 ^ 31" "1900 + y"] by simp
    then show False using assms e(1) by (simp add: day_ok_def)
  qed
  show "- (2 ^ 31) \<le> y"
  proof (rule ccontr)
    assume "\<not> ?thesis"
    then have "year_start (1900 + y + 1) \<le> year_start (1900 - 2 ^ 31)" using year_start_mono [of "1900 + y + 1" "1900 - 2 ^ 31"] by simp
    then show False using assms e(2) by (simp add: day_ok_def)
  qed
qed

lemma mixed_radix: "t = 60 * a + s \<Longrightarrow> a = 60 * b + m \<Longrightarrow> b = 24 * c + h \<Longrightarrow> s + 60 * (m + 60 * (h + 24 * c)) = (t :: int)"
  by simp

lemma time_split: "t mod 60 + 60 * (t div 60 mod 60 + 60 * (t div 60 div 60 mod 24 + 24 * (t div 60 div 60 div 24))) = (t :: int)"
  by (rule mixed_radix) (rule mult_div_mod_eq [symmetric])+

lemma time_t2tm_finish:
  assumes "t2tm_loop w off 0 timer 0 (r[7 := 0]) = Inr (t, wd, [sc, mn, hr, a3, a4, a5, a6, a7, a8])"
    and year: "year = ((a3 * 4 + a4) * 25 + a5) * 4 + ((if a6 = 4 then 3 else a6) - 299)"
    and fits: "- (2 ^ 31) \<le> year" "1900 + year < 2 ^ 31"
    and yday: "yday = a7 + (if a6 = 4 then 365 else t)"
    and "t2tm_month (yday + 1) (if isleap (1900 + year) then 11 else 0) 0 = Some (d, k)"
  shows "time_t2tm w timer off r = Some (True, [sc, mn, hr, d, k, year, wd, yday, 0])"
proof -
  have wrap: "int32 year = year" "int32 (1900 + year) = 1900 + year" using fits by (simp_all add: int32_id)
  show ?thesis
  proof (cases "a6 = 4")
    case True
    then have "year = ((a3 * 4 + a4) * 25 + a5) * 4 + (3 - 299)" "yday = a7 + 365" using year yday by auto
    then show ?thesis using assms(1,6) wrap True unfolding time_t2tm_def by (simp add: Let_def)
  next
    case False
    then have "year = ((a3 * 4 + a4) * 25 + a5) * 4 + (a6 - 299)" "yday = a7 + t" using year yday by auto
    then show ?thesis using assms(1,6) wrap False unfolding time_t2tm_def by (simp add: Let_def)
  qed
qed

lemma time_t2tm_ok:
  assumes len: "length r = 9" and off: "7 dvd off" and rng: "day_ok (t div 60 div 60 div 24 + off)"
  shows "\<exists>p. time_t2tm w t off r = Some (True, p) \<and> tm_ok p \<and> date_seconds p = t + 86400 * off \<and> p ! 8 = 0"
proof -
  define D where "D = t div 60 div 60 div 24"
  define sc mn hr where "sc = t mod 60" and "mn = t div 60 mod 60" and "hr = t div 60 div 60 mod 24"
  have fields: "0 \<le> sc" "sc < 60" "0 \<le> mn" "mn < 60" "0 \<le> hr" "hr < 24" by (simp_all add: sc_def mn_def hr_def)
  have split: "sc + 60 * (mn + 60 * (hr + 24 * D)) = t" unfolding sc_def mn_def hr_def D_def by (rule time_split)
  define N where "N = D + 134774 + off"
  define y where "y = split_year N - 1900"
  have loop: "t2tm_loop w off 0 t 0 (r[7 := 0]) = Inr (dy N, (D + 4) mod 7,
       [sc, mn, hr, cyc N, cen N, quad N, yr N, stash N, r ! 8])"
    using t2tm_loop_split [OF len, of w off t] day_ok_range [OF rng, of w]
    unfolding t2tm_range_def N_def sc_def [symmetric] mn_def [symmetric] hr_def [symmetric] D_def [symmetric] by auto
  have yd: "0 \<le> split_yday N" "split_yday N < (if leap_year (1900 + y) then 366 else 365)"
    using split_yday_range [of N] by (simp_all add: y_def year_days_def)
  have start: "year_start (1900 + y) + split_yday N = D + off"
    using split_year_start [of N] by (simp add: y_def N_def)
  have "day_ok (D + off)" using rng by (simp add: D_def)
  moreover have "year_start (1900 + y + 1) = year_start (1900 + y) + year_days (1900 + y)" by (rule year_start_Suc)
  ultimately have fits: "- (2 ^ 31) \<le> y" "1900 + y < 2 ^ 31"
    using day_ok_year [of "D + off" y] start yd by (simp_all add: year_days_def)
  have "\<exists>k d. t2tm_month (split_yday N + 1) (month_pos (leap_year (1900 + y)) 0) (int 0) = Some (d, int k) \<and> k < 12 \<and> 1 \<le> d \<and>
      d \<le> month_length (leap_year (1900 + y)) k \<and>
      month_start (leap_year (1900 + y)) k + d = month_start (leap_year (1900 + y)) 0 + (split_yday N + 1)"
    using yd by (intro t2tm_month_loop) (auto simp: month_start_12)
  then obtain k d where kd: "t2tm_month (split_yday N + 1) (if leap_year (1900 + y) then 11 else 0) 0 = Some (d, int k)"
    "k < 12" "1 \<le> d" "d \<le> month_length (leap_year (1900 + y)) k" "month_start (leap_year (1900 + y)) k + d = split_yday N + 1"
    unfolding month_pos_0 by auto
  have year: "((cyc N * 4 + cen N) * 25 + quad N) * 4 + ((if yr N = 4 then 3 else yr N) - 299) = y"
    by (simp add: y_def split_year_def)
  have yday: "split_yday N = stash N + (if yr N = 4 then 365 else dy N)" by (simp add: split_yday_def)
  define p where "p = [sc, mn, hr, d, int k, y, (D + 4) mod 7, split_yday N, 0]"
  have "time_t2tm w t off r = Some (True, p)"
    unfolding p_def by (rule time_t2tm_finish [OF loop year [symmetric] fits yday]) (simp only: isleap_leap kd(1))
  moreover have ok: "tm_ok p"
  proof -
    have "(year_start (1900 + y) + split_yday N + 4) mod 7 = (D + 4 + off) mod 7" unfolding start by (simp add: algebra_simps)
    also have "\<dots> = (D + 4) mod 7" using off by (metis add.right_neutral dvd_eq_mod_eq_0 mod_add_right_eq)
    finally show ?thesis using yd kd fields unfolding tm_ok_def p_def by (simp add: Let_def)
  qed
  moreover have "date_seconds p = t + 86400 * off"
    using date_seconds_ok [OF ok] split start unfolding p_def by simp
  ultimately show ?thesis by (auto simp: p_def)
qed

lemma time_t2tm_null:
  assumes "length r = 9" "\<not> t2tm_range w (t div 60 div 60 div 24 + off)"
  shows "\<exists>p. time_t2tm w t off r = Some (False, p) \<and> length p = 9"
  using t2tm_loop_split [OF assms(1), of w off t] assms by (auto simp: time_t2tm_def t2tm_range_def)

definition in_long :: "nat \<Rightarrow> int \<Rightarrow> bool" where
  "in_long w t \<longleftrightarrow> LONG_MIN w \<le> t \<and> t \<le> LONG_MAX w"

lemma in_long_narrow: "in_long w t \<Longrightarrow> w \<le> 32 \<Longrightarrow> \<bar>t\<bar> \<le> 2147483648"
proof -
  assume "in_long w t" "w \<le> 32"
  moreover from this have "(2 :: int) ^ (w - 1) \<le> 2 ^ 31" by (intro power_increasing) auto
  ultimately show ?thesis by (auto simp: in_long_def LONG_MIN_def LONG_MAX_def)
qed

lemma in_long_32: "in_long 32 t \<Longrightarrow> \<bar>t\<bar> \<le> 2147483648"
  using in_long_narrow [of 32 t] by simp

lemma div_day: "t div 60 div 60 div 24 = (t :: int) div 86400"
  by (simp add: div_mult2_eq [symmetric] zdiv_zmult2_eq [symmetric])

lemma day_ok_long:
  assumes "in_long w t" "\<bar>off\<bar> \<le> 7"
  shows "day_ok (t div 86400 + off) \<longleftrightarrow> t2tm_range w (t div 86400 + off)"
proof (cases "w \<le> 32")
  case True
  then have "\<bar>t\<bar> \<le> 2147483648" using assms(1) by (intro in_long_narrow)
  then have "- 100000 \<le> t div 86400" "t div 86400 \<le> 100000" by linarith+
  then have "- 784223472856 \<le> t div 86400 + off" "t div 86400 + off \<le> 784223421720" using assms(2) by linarith+
  then show ?thesis using True by (simp add: day_ok_def t2tm_range_def)
qed (simp add: day_ok_def t2tm_range_def)

lemma wrap_long_in: "in_long w (wrap_long w x)"
proof -
  have "(2 :: int) ^ w \<le> 2 ^ (w - 1) * 2" by (cases w) simp_all
  moreover have "0 \<le> (x + 2 ^ (w - 1)) mod 2 ^ w" "(x + 2 ^ (w - 1)) mod 2 ^ w < 2 ^ w" by simp_all
  ultimately show ?thesis unfolding in_long_def LONG_MIN_def LONG_MAX_def wrap_long_def by linarith
qed

lemma wrap_long_id: "in_long w x \<Longrightarrow> 0 < w \<Longrightarrow> wrap_long w x = x"
proof -
  assume "in_long w x" "0 < w"
  moreover from \<open>0 < w\<close> have "(2 :: int) ^ w = 2 ^ (w - 1) + 2 ^ (w - 1)" by (cases w) simp_all
  ultimately have "0 \<le> x + 2 ^ (w - 1)" "x + 2 ^ (w - 1) < 2 ^ w" by (auto simp: in_long_def LONG_MIN_def LONG_MAX_def)
  then show ?thesis by (simp add: wrap_long_def)
qed

lemma time_t2tm_total:
  assumes "length r = 9" "7 dvd off" "in_long w t" "\<bar>off\<bar> \<le> 7"
  shows "\<exists>b p. time_t2tm w t off r = Some (b, p) \<and> length p = 9"
proof (cases "t2tm_range w (t div 60 div 60 div 24 + off)")
  case True
  then show ?thesis using time_t2tm_ok [OF assms(1,2), of t w] day_ok_long [OF assms(3,4)] by (auto simp: div_day tm_ok_def Let_def)
next
  case False
  then show ?thesis using time_t2tm_null [OF assms(1)] by blast
qed

section \<open>Local time\<close>

lemma tm_ok_upd8 [simp]: "tm_ok (p[8 := x]) = tm_ok p"
  by (simp add: tm_ok_def)

lemma date_seconds_upd8 [simp]: "date_seconds (p[8 := x]) = date_seconds p"
  by (simp add: date_seconds_def)

lemma tm_ok_length: "tm_ok p \<Longrightarrow> length p = 9"
  by (simp add: tm_ok_def Let_def)

text \<open>What a pass takes for the difference between universal and local time.\<close>

definition pass_offset :: "nat \<Rightarrow> int \<Rightarrow> rule_struct \<Rightarrow> int" where
  "pass_offset w timer rule = (if timer > LONG_MAX w - 604800 then gmt_offset rule else - gmt_offset rule)"

definition pass_time :: "nat \<Rightarrow> int \<Rightarrow> rule_struct \<Rightarrow> int" where
  "pass_time w timer rule =
     (if timer > LONG_MAX w - 604800 then timer - (604800 - gmt_offset rule) else timer + (604800 - gmt_offset rule))"

definition pass_range :: "nat \<Rightarrow> int \<Rightarrow> rule_struct \<Rightarrow> bool" where
  "pass_range w timer rule \<longleftrightarrow> 0 < w \<and> in_long w (pass_time w timer rule) \<and>
     t2tm_range w (pass_time w timer rule div 86400 + (if timer > LONG_MAX w - 604800 then 7 else - 7))"

lemma localtime_pass_unfold:
  "localtime_pass w timer dst rule r = map_option (\<lambda>(_, r). r[8 := dst])
     (time_t2tm w (wrap_long w (pass_time w timer rule)) (if timer > LONG_MAX w - 604800 then 7 else - 7) r)"
  by (simp add: localtime_pass_def pass_time_def)

lemma localtime_pass_ok:
  assumes "length r = 9" "pass_range w timer rule"
  shows "\<exists>p. localtime_pass w timer dst rule r = Some p \<and> tm_ok p \<and>
    date_seconds p = timer + pass_offset w timer rule \<and> p ! 8 = dst"
proof -
  let ?x = "pass_time w timer rule" and ?d = "if timer > LONG_MAX w - 604800 then 7 else - 7 :: int"
  have d: "7 dvd ?d" by simp
  have "day_ok (?x div 86400 + ?d)" using assms(2) day_ok_long [of w ?x ?d] by (auto simp: pass_range_def)
  then obtain p where p: "time_t2tm w ?x ?d r = Some (True, p)" "tm_ok p" "date_seconds p = ?x + 86400 * ?d"
    using time_t2tm_ok [OF assms(1) d, of ?x w] by (auto simp: div_day)
  have "wrap_long w ?x = ?x" using assms(2) by (simp add: pass_range_def wrap_long_id)
  then have "localtime_pass w timer dst rule r = Some (p[8 := dst])" using p(1) by (simp only: localtime_pass_unfold) simp
  moreover have "?x + 86400 * ?d = timer + pass_offset w timer rule" by (simp add: pass_time_def pass_offset_def)
  ultimately show ?thesis using p(2,3) by (simp add: tm_ok_length)
qed

lemma localtime_pass_total:
  assumes "length r = 9"
  shows "\<exists>p. localtime_pass w timer dst rule r = Some p \<and> length p = 9 \<and> p ! 8 = dst"
proof -
  let ?x = "wrap_long w (pass_time w timer rule)" and ?d = "if timer > LONG_MAX w - 604800 then 7 else - 7 :: int"
  have "7 dvd ?d" "\<bar>?d\<bar> \<le> 7" by simp_all
  then obtain b p where "time_t2tm w ?x ?d r = Some (b, p)" "length p = 9"
    using time_t2tm_total [OF assms _ wrap_long_in] by blast
  then show ?thesis by (simp add: localtime_pass_unfold)
qed

lemma tm_isdst_bit: "tm_isdst p tzi = 0 \<or> tm_isdst p tzi = 1"
  by (auto simp: tm_isdst_def Let_def)

lemma tm_isdst_name: "tm_isdst p tzi \<noteq> 0 \<Longrightarrow> tzname (snd tzi) \<noteq> []"
  by (auto simp: tm_isdst_def)

lemma time_localtime_total:
  assumes "length r = 9"
  shows "\<exists>p. time_localtime_tzi w timer r tzi = Some p \<and> length p = 9 \<and> (p ! 8 = 0 \<or> p ! 8 = 1 \<and> tzname (snd tzi) \<noteq> [])"
proof -
  obtain p where p: "localtime_pass w timer 0 (fst tzi) r = Some p" "length p = 9"
    using localtime_pass_total [OF assms] by blast
  obtain q where q: "localtime_pass w timer 1 (snd tzi) (p[8 := tm_isdst p tzi]) = Some q" "length q = 9" "q ! 8 = 1"
    using localtime_pass_total [of "p[8 := tm_isdst p tzi]" w timer 1 "snd tzi"] p(2) by auto
  show ?thesis
  proof (cases "tm_isdst p tzi = 0")
    case True
    then show ?thesis using p by (simp add: time_localtime_tzi_def Let_def)
  next
    case False
    then show ?thesis using p q tm_isdst_name [OF False] by (simp add: time_localtime_tzi_def Let_def)
  qed
qed

lemma time_localtime_ok:
  assumes "length r = 9" "pass_range w timer (fst tzi)" "pass_range w timer (snd tzi)"
  shows "\<exists>p. time_localtime_tzi w timer r tzi = Some p \<and> tm_ok p \<and>
    (p ! 8 = 0 \<and> date_seconds p = timer + pass_offset w timer (fst tzi) \<or>
     p ! 8 = 1 \<and> date_seconds p = timer + pass_offset w timer (snd tzi) \<and> tzname (snd tzi) \<noteq> [])"
proof -
  obtain p where p: "localtime_pass w timer 0 (fst tzi) r = Some p" "tm_ok p"
    "date_seconds p = timer + pass_offset w timer (fst tzi)"
    using localtime_pass_ok [OF assms(1,2)] by blast
  obtain q where q: "localtime_pass w timer 1 (snd tzi) (p[8 := tm_isdst p tzi]) = Some q" "tm_ok q"
    "date_seconds q = timer + pass_offset w timer (snd tzi)" "q ! 8 = 1"
    using localtime_pass_ok [OF _ assms(3), of "p[8 := tm_isdst p tzi]" 1] p(2) by (auto simp: tm_ok_length)
  show ?thesis
  proof (cases "tm_isdst p tzi = 0")
    case True
    then show ?thesis using p by (simp add: time_localtime_tzi_def Let_def tm_ok_length)
  next
    case False
    then show ?thesis using p q tm_isdst_name [OF False] by (simp add: time_localtime_tzi_def Let_def)
  qed
qed

section \<open>From fields to seconds\<close>

lemma year_start_400: "year_start (y + 400 * k) = year_start y + 146097 * k"
proof -
  have "(y + 400 * k - 1) div 4 = (y - 1) div 4 + 100 * k" "(y + 400 * k - 1) div 100 = (y - 1) div 100 + 4 * k"
    "(y + 400 * k - 1) div 400 = (y - 1) div 400 + k"
    using div_mult_self1 [of 4 "y - 1" "100 * k"] div_mult_self1 [of 100 "y - 1" "4 * k"] div_mult_self1 [of 400 "y - 1" k]
    by (simp_all add: algebra_simps)
  then show ?thesis unfolding year_start_def by algebra
qed

lemma leap_year_400: "leap_year (y + 400 * k) = leap_year y"
proof -
  have "d dvd 400 * k \<Longrightarrow> d dvd y + 400 * k \<longleftrightarrow> d dvd y" for d :: int by (simp add: dvd_add_left_iff)
  then have "4 dvd y + 400 * k \<longleftrightarrow> 4 dvd y" "100 dvd y + 400 * k \<longleftrightarrow> 100 dvd y" "400 dvd y + 400 * k \<longleftrightarrow> 400 dvd y"
    by (auto intro: dvd_mult2)
  then show ?thesis by (simp only: leap_year_def)
qed


text \<open>The code counts 146073 days for 400 years: 24 days too few, for every 400 in \<open>tm_year\<close>.\<close>

definition cycle_error :: "tm \<Rightarrow> int" where
  "cycle_error p = 86400 * 24 * (tm_year p sdiv 400)"

definition mktime_base :: "tm \<Rightarrow> int" where
  "mktime_base p = date_seconds p - cycle_error p"

text \<open>The rule that \<open>_time_mktime_tzi\<close> starts with, and the normalised \<open>tm_isdst\<close>.\<close>

definition norm_isdst :: "tm \<Rightarrow> rule_struct \<times> rule_struct \<Rightarrow> int" where
  "norm_isdst p tzi = (if tzname (snd tzi) = [] then 0 else sgn (p ! 8))"

lemma month_floor:
  fixes a :: int
  shows "(if a - 12 * (a sdiv 12) < 0 then (a - 12 * (a sdiv 12) + 12, y + a sdiv 12 - 1) else (a - 12 * (a sdiv 12), y + a sdiv 12))
    = (a mod 12, y + a div 12)"
  using floor_division [of 12 a] by (auto simp: mult.commute split: if_splits)

lemma year_days_sdiv:
  "1 \<le> y \<Longrightarrow> - 719163 + (y - 1) * 365 + (y - 1) sdiv 4 - (y - 1) sdiv 100 + (y - 1) sdiv 400 = year_start y - 1"
proof -
  assume "1 \<le> y"
  then have "(y - 1) sdiv k = (y - 1) div k" if "0 < k" for k using that by (simp add: signed_divide_int_def sgn_if zsgn_def)
  then show ?thesis by (simp add: year_start_def)
qed

lemma mktime_isdst_norm:
  assumes "length p = 9"
  shows "mktime_isdst p tzi = (if norm_isdst p tzi = 0 then 0 else 1, p[8 := norm_isdst p tzi])"
proof -
  have "p ! 8 = 0 \<Longrightarrow> p[8 := 0] = p" by (metis list_update_id)
  then show ?thesis using assms by (auto simp: mktime_isdst_def norm_isdst_def Let_def sgn_if)
qed

lemma mktime_norm_fields:
  assumes len: "length p = 9"
  defines "y \<equiv> tm_year p - tm_year p sdiv 400 * 400 + tm_mon p div 12 + 1900"
  shows "mktime_norm p = p[6 := tm_year p sdiv 400, 4 := tm_mon p mod 12, 5 := y, 7 := month_start (leap_year y) (nat (tm_mon p mod 12))]"
proof -
  have "nat (tm_mon p mod 12) < 12" by simp
  then show ?thesis unfolding mktime_norm_def Let_def month_floor prod.case y_def
    by (simp add: isleap_leap mktime_months_start)
qed

lemma mktime_secs_base:
  assumes len: "length p = 9" and pos: "1 \<le> 1900 + tm_year p smod 400 + tm_mon p div 12"
  shows "mktime_secs (mktime_norm (p[8 := d])) offset = mktime_base p + offset"
proof -
  define q where "q = tm_year p sdiv 400"
  define y where "y = tm_year p - q * 400 + tm_mon p div 12 + 1900"
  define m where "m = nat (tm_mon p mod 12)"
  have norm: "mktime_norm (p[8 := d]) = p[8 := d, 6 := q, 4 := tm_mon p mod 12, 5 := y, 7 := month_start (leap_year y) m]"
    using mktime_norm_fields [of "p[8 := d]"] len by (simp add: q_def y_def m_def)
  have "1 \<le> y" using pos by (simp add: y_def q_def minus_sdiv_mult_eq_smod)
  note days = year_days_sdiv [OF this]
  have "1900 + tm_year p + tm_mon p div 12 = y + 400 * q" by (simp add: y_def)
  then have base: "date_seconds p = tm_sec p + 60 * (tm_min p + 60 * (tm_hour p + 24 *
      (year_start y + 146097 * q + month_start (leap_year y) m + tm_mday p - 1)))"
    unfolding date_seconds_def Let_def m_def by (simp only: year_start_400 leap_year_400)
  show ?thesis unfolding mktime_secs_def Let_def norm mktime_base_def cycle_error_def base q_def [symmetric]
    using len days by simp
qed

lemma mktime_dst_known:
  assumes "time_localtime_tzi w secs p tzi = Some p1" "0 \<le> p ! 8"
  shows "mktime_dst w secs dst p store timeptr tzi =
    Some (if in_long w secs then (secs, if store \<and> secs \<noteq> - 1 then p1 else timeptr) else (- 1, timeptr))"
  using assms by (subst mktime_dst.simps) (auto simp: in_long_def Let_def)

text \<open>The offset of the other rule.\<close>

definition rule_diff :: "int \<Rightarrow> rule_struct \<times> rule_struct \<Rightarrow> int" where
  "rule_diff dst tzi =
     gmt_offset (if dst = 0 then snd tzi else fst tzi) - gmt_offset (if dst = 0 then fst tzi else snd tzi)"

lemma mktime_dst_returns:
  assumes "length p = 9"
  shows "\<exists>t tp. mktime_dst w secs dst p store timeptr tzi = Some (t, tp) \<and>
    (t = - 1 \<or> in_long w t \<and> (t = secs \<or> p ! 8 < 0 \<and> t = secs + rule_diff dst tzi))"
proof -
  obtain p1 where p1: "time_localtime_tzi w secs p tzi = Some p1" "length p1 = 9" "0 \<le> p1 ! 8"
    using time_localtime_total [OF assms, of w secs tzi] by auto
  obtain p2 where p2: "time_localtime_tzi w (secs + rule_diff dst tzi) p1 tzi = Some p2"
    using time_localtime_total [OF p1(2)] by blast
  show ?thesis
  proof (cases "0 \<le> p ! 8 \<or> p1 ! 8 = dst")
    case True
    then show ?thesis using p1(1) by (subst mktime_dst.simps) (auto simp: in_long_def Let_def)
  next
    case False
    then show ?thesis using p1(1) mktime_dst_known [OF p2 p1(3), of dst store timeptr]
      by (subst mktime_dst.simps) (auto simp: in_long_def Let_def rule_diff_def)
  qed
qed

lemma time_mktime_base:
  assumes "length p = 9" "1 \<le> 1900 + tm_year p smod 400 + tm_mon p div 12" "\<And>b. tzset b tzi = tzi"
  shows "\<exists>p2. length p2 = 9 \<and> p2 ! 8 = norm_isdst p tzi \<and> time_mktime_tzi tzset w p store tzi =
    mktime_dst w (mktime_base p + gmt_offset (if norm_isdst p tzi = 0 then fst tzi else snd tzi))
      (if norm_isdst p tzi = 0 then 0 else 1) p2 store p tzi"
proof -
  let ?p2 = "mktime_norm (p[8 := norm_isdst p tzi])"
  have "length ?p2 = 9" "?p2 ! 8 = norm_isdst p tzi"
    using assms(1) by (simp_all add: mktime_norm_fields)
  then show ?thesis using mktime_secs_base [OF assms(1,2)] mktime_isdst_norm [OF assms(1)] assms(3)
    by (intro exI [of _ ?p2]) (simp add: time_mktime_tzi_def)
qed

text \<open>The rules of \<open>timegm\<close>.\<close>

definition gmt_rules :: "rule_struct \<times> rule_struct" where
  "gmt_rules = (zero_rule\<lparr>tzname := ''GMT''\<rparr>, zero_rule)"

lemma gmt_rules_simps [simp]:
  "gmt_offset (fst gmt_rules) = 0" "gmt_offset (snd gmt_rules) = 0" "tzname (snd gmt_rules) = []"
  by (simp_all add: gmt_rules_def zero_rule_def)

lemma timegm_base:
  assumes "length p = 9" "1 \<le> 1900 + tm_year p smod 400 + tm_mon p div 12"
  shows "\<exists>p2 p1. length p2 = 9 \<and> time_localtime_tzi w (mktime_base p) p2 gmt_rules = Some p1 \<and>
    timegm w p = Some (if in_long w (mktime_base p) then (mktime_base p, if mktime_base p \<noteq> - 1 then p1 else p) else (- 1, p))"
proof -
  obtain p2 where p2: "length p2 = 9" "p2 ! 8 = norm_isdst p gmt_rules"
    "time_mktime_tzi (\<lambda>_ r. r) w p True gmt_rules =
      mktime_dst w (mktime_base p + gmt_offset (if norm_isdst p gmt_rules = 0 then fst gmt_rules else snd gmt_rules))
      (if norm_isdst p gmt_rules = 0 then 0 else 1) p2 True p gmt_rules"
    using time_mktime_base [OF assms, of "\<lambda>_ r. r" gmt_rules w True] by auto
  obtain p1 where p1: "time_localtime_tzi w (mktime_base p) p2 gmt_rules = Some p1"
    using time_localtime_total [OF p2(1)] by blast
  have dst: "norm_isdst p gmt_rules = 0" by (simp add: norm_isdst_def)
  have "timegm w p = mktime_dst w (mktime_base p) 0 p2 True p gmt_rules"
    using p2(3) dst by (simp add: timegm_def gmt_rules_def [symmetric])
  then show ?thesis using p2 p1 mktime_dst_known [OF p1, of 0 True p] dst by auto
qed

lemma cycle_error_0: "- 400 < tm_year p \<Longrightarrow> tm_year p < 400 \<Longrightarrow> mktime_base p = date_seconds p"
proof -
  assume "- 400 < tm_year p" "tm_year p < 400"
  then have "\<bar>tm_year p\<bar> div 400 = 0" by simp
  then show ?thesis by (simp add: mktime_base_def cycle_error_def signed_divide_int_def)
qed

text \<open>The years of 32-bit times.\<close>

lemma month_start_mono: "m \<le> n \<Longrightarrow> n \<le> 12 \<Longrightarrow> month_start leap m \<le> month_start leap n"
proof (induction n)
  case (Suc n)
  then show ?case using month_length_range [of n leap] by (cases "m = Suc n") (auto simp: month_start_Suc)
qed simp

lemma tm_ok_yday: "tm_ok p \<Longrightarrow> 0 \<le> tm_yday p \<and> tm_yday p < year_days (1900 + tm_year p)"
proof -
  assume ok: "tm_ok p"
  define leap m where "leap = leap_year (1900 + tm_year p)" and "m = nat (tm_mon p)"
  have f: "m < 12" "1 \<le> tm_mday p" "tm_mday p \<le> month_length leap m" "tm_yday p = month_start leap m + tm_mday p - 1"
    using ok by (auto simp: tm_ok_def Let_def leap_def m_def)
  have "month_start leap 0 \<le> month_start leap m" "month_start leap (Suc m) \<le> month_start leap 12"
    using f(1) by (intro month_start_mono; simp)+
  then show ?thesis using f by (simp add: month_start_Suc month_start_12 year_days_def leap_def [symmetric])
qed

lemma tm_ok_day: "tm_ok p \<Longrightarrow> 86400 * (year_start (1900 + tm_year p)) \<le> date_seconds p \<and>
    date_seconds p < 86400 * year_start (1900 + tm_year p + 1)"
proof -
  assume ok: "tm_ok p"
  have "0 \<le> tm_sec p" "tm_sec p < 60" "0 \<le> tm_min p" "tm_min p < 60" "0 \<le> tm_hour p" "tm_hour p < 24"
    using ok by (auto simp: tm_ok_def Let_def)
  moreover have "year_start (1900 + tm_year p + 1) = year_start (1900 + tm_year p) + year_days (1900 + tm_year p)"
    by (rule year_start_Suc)
  moreover have "0 \<le> tm_yday p" "tm_yday p + 1 \<le> year_days (1900 + tm_year p)" using tm_ok_yday [OF ok] by auto
  ultimately show ?thesis unfolding date_seconds_ok [OF ok] by simp
qed

lemma tm_ok_years:
  assumes "tm_ok p" "\<bar>date_seconds p\<bar> \<le> 5000000000"
  shows "- 400 < tm_year p" "tm_year p < 400"
proof -
  note d = tm_ok_day [OF assms(1)]
  have e: "year_start 1501 = - 171299" "year_start 2300 = 120530" by (simp_all add: year_start_def)
  show "- 400 < tm_year p"
  proof (rule ccontr)
    assume "\<not> - 400 < tm_year p"
    then have "year_start (1900 + tm_year p + 1) \<le> year_start 1501"
      using year_start_mono [of "1900 + tm_year p + 1" 1501] by simp
    then show False using d assms(2) e(1) by linarith
  qed
  show "tm_year p < 400"
  proof (rule ccontr)
    assume "\<not> tm_year p < 400"
    then have "year_start 2300 \<le> year_start (1900 + tm_year p)" using year_start_mono [of 2300 "1900 + tm_year p"] by simp
    then show False using d assms(2) e(2) by linarith
  qed
qed

lemma tm_ok_base:
  assumes "tm_ok p" "\<bar>date_seconds p\<bar> \<le> 5000000000"
  shows "length p = 9" "1 \<le> 1900 + tm_year p smod 400 + tm_mon p div 12" "mktime_base p = date_seconds p"
proof -
  show "length p = 9" using assms(1) by (rule tm_ok_length)
  have "tm_mon p div 12 = 0" using assms(1) by (auto simp: tm_ok_def Let_def)
  moreover have "- 400 < tm_year p smod 400" using smod_int_range [of 400 "tm_year p"] by simp
  ultimately show "1 \<le> 1900 + tm_year p smod 400 + tm_mon p div 12" by simp
  show "mktime_base p = date_seconds p" using tm_ok_years [OF assms] by (rule cycle_error_0)
qed

section \<open>A time has one representation\<close>

lemma tm_ok_year_unique:
  assumes "tm_ok p" "tm_ok q" "date_seconds p = date_seconds q"
  shows "tm_year p \<le> tm_year q"
proof (rule ccontr)
  assume "\<not> tm_year p \<le> tm_year q"
  then have "year_start (1900 + tm_year q + 1) \<le> year_start (1900 + tm_year p)"
    using year_start_mono [of "1900 + tm_year q + 1" "1900 + tm_year p"] by simp
  then show False using tm_ok_day [OF assms(1)] tm_ok_day [OF assms(2)] assms(3) by linarith
qed

lemma radix_digits:
  fixes s m h x :: int
  assumes "0 \<le> s" "s < 60" "0 \<le> m" "m < 60" "0 \<le> h" "h < 24" "t = s + 60 * (m + 60 * (h + 24 * x))"
  shows "s = t mod 60" "m = t div 60 mod 60" "h = t div 60 div 60 mod 24" "x = t div 60 div 60 div 24"
proof -
  have d: "(a + k * b) mod k = a \<and> (a + k * b) div k = b" if "0 \<le> a" "a < k" for a b k :: int
    using that by simp
  have t: "t mod 60 = s" "t div 60 = m + 60 * (h + 24 * x)" unfolding assms(7) using d [OF assms(1,2)] by blast+
  have u: "t div 60 mod 60 = m" "t div 60 div 60 = h + 24 * x" unfolding t(2) using d [OF assms(3,4)] by blast+
  have "t div 60 div 60 mod 24 = h" "t div 60 div 60 div 24 = x" unfolding u(2) using d [OF assms(5,6)] by blast+
  then show "s = t mod 60" "m = t div 60 mod 60" "h = t div 60 div 60 mod 24" "x = t div 60 div 60 div 24"
    using t(1) u(1) by (simp_all only:)
qed

lemma month_unique:
  assumes "m < 12" "n < 12" "1 \<le> c" "1 \<le> d" "c \<le> month_length leap m" "d \<le> month_length leap n"
    "month_start leap m + c = month_start leap n + d"
  shows "m \<le> n"
proof (rule ccontr)
  assume "\<not> m \<le> n"
  then have "month_start leap (Suc n) \<le> month_start leap m" using assms(1) by (intro month_start_mono) auto
  then show False using assms by (simp add: month_start_Suc)
qed

lemma tm_ok_unique:
  assumes p: "tm_ok p" and q: "tm_ok q" and eq: "date_seconds p = date_seconds q"
  shows "p[8 := x] = q[8 := x]"
proof -
  have y: "tm_year p = tm_year q"
    using tm_ok_year_unique [OF p q eq] tm_ok_year_unique [OF q p eq [symmetric]] by simp
  define leap where "leap = leap_year (1900 + tm_year p)"
  note up = p [unfolded tm_ok_def Let_def, folded leap_def] and uq = q [unfolded tm_ok_def Let_def, folded y, folded leap_def]
  have rp: "date_seconds p = tm_sec p + 60 * (tm_min p + 60 * (tm_hour p + 24 * (year_start (1900 + tm_year p) + tm_yday p)))"
    using date_seconds_ok [OF p] .
  have rq: "date_seconds p = tm_sec q + 60 * (tm_min q + 60 * (tm_hour q + 24 * (year_start (1900 + tm_year p) + tm_yday q)))"
    using date_seconds_ok [OF q] eq y by simp
  have f: "tm_sec p = tm_sec q" "tm_min p = tm_min q" "tm_hour p = tm_hour q" "tm_yday p = tm_yday q"
  proof -
    have b: "0 \<le> tm_sec p" "tm_sec p < 60" "0 \<le> tm_min p" "tm_min p < 60" "0 \<le> tm_hour p" "tm_hour p < 24"
      and c: "0 \<le> tm_sec q" "tm_sec q < 60" "0 \<le> tm_min q" "tm_min q < 60" "0 \<le> tm_hour q" "tm_hour q < 24"
      using up uq by blast+
    note dp = radix_digits [OF b rp] and dq = radix_digits [OF c rq]
    show "tm_sec p = tm_sec q" "tm_min p = tm_min q" "tm_hour p = tm_hour q"
      by (rule trans [OF dp(1) dq(1) [symmetric]] trans [OF dp(2) dq(2) [symmetric]] trans [OF dp(3) dq(3) [symmetric]])+
    show "tm_yday p = tm_yday q" by (rule add_left_imp_eq [OF trans [OF dp(4) dq(4) [symmetric]]])
  qed
  have ms: "month_start leap (nat (tm_mon p)) + tm_mday p = month_start leap (nat (tm_mon q)) + tm_mday q"
    using up uq f(4) by linarith
  have r: "nat (tm_mon p) < 12" "nat (tm_mon q) < 12" "1 \<le> tm_mday p" "1 \<le> tm_mday q"
    "tm_mday p \<le> month_length leap (nat (tm_mon p))" "tm_mday q \<le> month_length leap (nat (tm_mon q))"
    using up uq by linarith+
  have mon: "nat (tm_mon p) = nat (tm_mon q)"
    by (rule antisym [OF month_unique [OF r ms] month_unique [OF r(2,1,4,3,6,5) ms [symmetric]]])
  then have g: "tm_mon p = tm_mon q" "tm_mday p = tm_mday q" "tm_wday p = tm_wday q" using up uq ms f(4) by auto
  show ?thesis
  proof (rule nth_equalityI)
    fix i assume "i < length (p[8 := x])"
    then have "i = 0 \<or> i = 1 \<or> i = 2 \<or> i = 3 \<or> i = 4 \<or> i = 5 \<or> i = 6 \<or> i = 7 \<or> i = 8" using up by auto
    then show "p[8 := x] ! i = q[8 := x] ! i" using f g y up uq by (elim disjE) simp_all
  qed (use up uq in simp)
qed

lemma tm_ok_same: "tm_ok p \<Longrightarrow> tm_ok q \<Longrightarrow> date_seconds p = date_seconds q \<Longrightarrow> p ! 8 = q ! 8 \<Longrightarrow> p = q"
  using tm_ok_unique [of p q "p ! 8"] by (metis list_update_id)

section \<open>The properties of the calendar\<close>

lemma pass_range_32:
  assumes "in_long 32 t" "\<bar>gmt_offset rule\<bar> < 604800" "t \<le> LONG_MAX 32 - 604800 \<Longrightarrow> t + 604800 - gmt_offset rule \<le> LONG_MAX 32"
  shows "pass_range 32 t rule"
  using assms by (auto simp: pass_range_def t2tm_range_def pass_time_def in_long_def LONG_MAX_def LONG_MIN_def)

lemma long_wide: "32 \<le> w \<Longrightarrow> 2147483648 \<le> (2 :: int) ^ (w - 1)"
proof -
  assume "32 \<le> w"
  then have "(2 :: int) ^ 31 \<le> 2 ^ (w - 1)" by (intro power_increasing) auto
  then show ?thesis by simp
qed

lemma pass_range_gmt:
  assumes "gmt_offset rule = 0" "t2tm_range w (t div 86400)" "in_long w t" "32 \<le> w"
  shows "pass_range w t rule"
proof -
  have "(t - 604800) div 86400 + 7 = t div 86400" "(t + 604800) div 86400 - 7 = t div 86400"
    using div_mult_self1 [of 86400 t "- 7"] div_mult_self1 [of 86400 t 7] by simp_all
  then show ?thesis using assms long_wide [OF assms(4)]
    by (auto simp: pass_range_def pass_time_def in_long_def LONG_MAX_def LONG_MIN_def)
qed

text \<open>C25: \<open>gmtime_r\<close> returns, for every value of a \<open>time_t\<close>. It fills in the fields of the Gregorian calendar: all in their
  ranges, with the month and the day that belong to the day of the year and the right weekday, so that they denote
  exactly the given number of seconds. With a \<open>long\<close> of more than 32 bits it returns a null pointer just on the days
  outside the range that the code checks, \<open>- 784223472856\<close> to \<open>784223421720\<close> days from the epoch; inside that range
  neither the year nor \<open>1900 + tm_year\<close> overflows an \<open>int\<close>.\<close>

theorem gmtime_r_correct:
  assumes "length r = 9" "in_long w t"
  shows "\<exists>b p. gmtime_r w t r = Some (b, p) \<and> (b \<longleftrightarrow> t2tm_range w (t div 86400)) \<and>
    (b \<longrightarrow> tm_ok p \<and> date_seconds p = t \<and> p ! 8 = 0)"
proof (cases "t2tm_range w (t div 86400)")
  case True
  then have "day_ok (t div 60 div 60 div 24 + 0)" using day_ok_long [OF assms(2), of 0] by (simp add: div_day)
  then show ?thesis using time_t2tm_ok [OF assms(1), of 0 t w] True by (auto simp: gmtime_r_def)
next
  case False
  then show ?thesis using time_t2tm_null [OF assms(1), of w t 0] by (auto simp: gmtime_r_def div_day)
qed

text \<open>\<open>timegm\<close> returns the number of seconds that the fields denote, whatever their ranges, less
  24 days for every 400 years in \<open>tm_year\<close> (the code counts 146073 days for them instead of
  146097), and - 1 without storing anything where that number does not fit a \<open>long\<close>. It stores the
  normalised fields of its result.\<close>

theorem timegm_correct:
  assumes "length p = 9" "1 \<le> 1900 + tm_year p smod 400 + tm_mon p div 12" "32 \<le> w"
  defines "t \<equiv> date_seconds p - 86400 * 24 * (tm_year p sdiv 400)"
  shows "\<exists>p'. timegm w p = Some (if in_long w t then t else - 1, p') \<and>
    (in_long w t \<and> t \<noteq> - 1 \<longrightarrow> t2tm_range w (t div 86400) \<longrightarrow> tm_ok p' \<and> date_seconds p' = t \<and> p' ! 8 = 0) \<and>
    (\<not> in_long w t \<longrightarrow> p' = p)"
proof -
  have t: "mktime_base p = t" by (simp add: t_def mktime_base_def cycle_error_def)
  obtain p2 p1 where g: "length p2 = 9" "time_localtime_tzi w t p2 gmt_rules = Some p1"
    "timegm w p = Some (if in_long w t then (t, if t \<noteq> - 1 then p1 else p) else (- 1, p))"
    using timegm_base [OF assms(1,2), of w] unfolding t by blast
  have "tm_ok p1 \<and> date_seconds p1 = t \<and> p1 ! 8 = 0" if "in_long w t" "t2tm_range w (t div 86400)"
    using time_localtime_ok [OF g(1), of w t gmt_rules] g(2) pass_range_gmt [OF _ that(2,1) assms(3)] by (auto simp: pass_offset_def)
  then show ?thesis using g(3) by auto
qed

text \<open>Every 32-bit time survives the round trip through \<open>gmtime_r\<close> and \<open>timegm\<close>, and \<open>timegm\<close>
  leaves the fields as they are.\<close>

theorem timegm_gmtime_roundtrip:
  assumes "length r = 9" "in_long 32 t"
  shows "\<exists>p. gmtime_r 32 t r = Some (True, p) \<and> timegm 32 p = Some (t, p)"
proof -
  obtain p where p: "gmtime_r 32 t r = Some (True, p)" "tm_ok p" "date_seconds p = t" "p ! 8 = 0"
    using time_t2tm_ok [OF assms(1), of 0 t 32] day_ok_long [OF assms(2), of 0] by (auto simp: gmtime_r_def t2tm_range_def div_day)
  have small: "\<bar>date_seconds p\<bar> \<le> 5000000000" using in_long_32 [OF assms(2)] p(3) by simp
  note b = tm_ok_base [OF p(2) small]
  obtain p2 p1 where g: "length p2 = 9" "time_localtime_tzi 32 t p2 gmt_rules = Some p1"
    "timegm 32 p = Some (if in_long 32 t then (t, if t \<noteq> - 1 then p1 else p) else (- 1, p))"
    using timegm_base [OF b(1,2), of 32] unfolding b(3) p(3) by blast
  have "tm_ok p1 \<and> date_seconds p1 = t \<and> p1 ! 8 = 0"
    using time_localtime_ok [OF g(1) pass_range_32 pass_range_32, of t gmt_rules] g(2) assms(2) by (auto simp: pass_offset_def)
  then have "p1 = p" using p by (intro tm_ok_same) auto
  then show ?thesis using p(1) g(3) assms(2) by (auto split: if_splits)
qed

text \<open>C26: \<open>mktime\<close> gives back a 32-bit time from its local time, for every table of rules with offsets of less than a week,
  with daylight saving time in effect or not. Left out are the times of the last week before \<open>LONG_MAX\<close>, and those before
  it from which on \<open>*timer + 604800 - gmt_offset\<close> overflows, which are the last seconds of a zone east of Greenwich. The call
  of \<open>_time_tzset\<close> in \<open>mktime\<close> is taken to leave the rules as they are.\<close>

theorem mktime_localtime_roundtrip:
  assumes "length r = 9" "in_long 32 t" "t \<le> LONG_MAX 32 - 604800" "\<And>b. tzset b tzi = tzi"
    and off: "\<bar>gmt_offset (fst tzi)\<bar> < 604800" "\<bar>gmt_offset (snd tzi)\<bar> < 604800"
      "t + 604800 - gmt_offset (fst tzi) \<le> LONG_MAX 32" "t + 604800 - gmt_offset (snd tzi) \<le> LONG_MAX 32"
  shows "\<exists>p p'. time_localtime_tzi 32 t r tzi = Some p \<and> time_mktime_tzi tzset 32 p store tzi = Some (t, p')"
proof -
  obtain p where p: "time_localtime_tzi 32 t r tzi = Some p" "tm_ok p"
    "p ! 8 = 0 \<and> date_seconds p = t - gmt_offset (fst tzi) \<or>
     p ! 8 = 1 \<and> date_seconds p = t - gmt_offset (snd tzi) \<and> tzname (snd tzi) \<noteq> []"
    using time_localtime_ok [OF assms(1) pass_range_32 pass_range_32, of t tzi] assms(2,3) off by (auto simp: pass_offset_def)
  have "\<bar>t\<bar> \<le> 2147483648" by (rule in_long_32 [OF assms(2)])
  then have small: "\<bar>date_seconds p\<bar> \<le> 5000000000" using p(3) off by auto
  note b = tm_ok_base [OF p(2) small]
  have dst: "norm_isdst p tzi = p ! 8" using p(3) by (auto simp: norm_isdst_def)
  obtain p2 where p2: "length p2 = 9" "p2 ! 8 = norm_isdst p tzi" "time_mktime_tzi tzset 32 p store tzi =
    mktime_dst 32 (mktime_base p + gmt_offset (if norm_isdst p tzi = 0 then fst tzi else snd tzi))
      (if norm_isdst p tzi = 0 then 0 else 1) p2 store p tzi"
    using time_mktime_base [where tzset = tzset and tzi = tzi, OF b(1,2) assms(4)] by blast
  have secs: "mktime_base p + gmt_offset (if norm_isdst p tzi = 0 then fst tzi else snd tzi) = t"
    using p(3) dst b(3) by auto
  obtain p1 where p1: "time_localtime_tzi 32 t p2 tzi = Some p1" using time_localtime_total [OF p2(1)] by blast
  have "0 \<le> p2 ! 8" using p2(2) dst p(3) by auto
  then show ?thesis using p(1) p2(3) secs mktime_dst_known [OF p1] assms(2) by auto
qed

text \<open>In the last week of 32-bit time \<open>localtime\<close> adds the offset of the time zone where it has to
  subtract it.\<close>

theorem localtime_last_week:
  assumes "length r = 9" "in_long 32 t" "LONG_MAX 32 - 604800 < t" "\<bar>gmt_offset (fst tzi)\<bar> < 604800" "\<bar>gmt_offset (snd tzi)\<bar> < 604800"
  shows "\<exists>p. time_localtime_tzi 32 t r tzi = Some p \<and> tm_ok p \<and>
    (date_seconds p = t + gmt_offset (fst tzi) \<or> date_seconds p = t + gmt_offset (snd tzi) \<and> tzname (snd tzi) \<noteq> [])"
  using time_localtime_ok [OF assms(1) pass_range_32 pass_range_32, of t tzi] assms(2-5) by (auto simp: pass_offset_def)

text \<open>East of Greenwich \<open>localtime\<close> is wrong by \<open>2 ^ 32\<close> seconds just before the last week already, where the shifted time
  overflows (and signed arithmetic wraps).\<close>

theorem localtime_east_overflow:
  assumes "length r = 9" "in_long 32 t" "t \<le> LONG_MAX 32 - 604800" "LONG_MAX 32 < t + 604800 - gmt_offset (fst tzi)"
    and "\<bar>gmt_offset (fst tzi)\<bar> < 604800" "tzname (snd tzi) = []"
  shows "\<exists>p. time_localtime_tzi 32 t r tzi = Some p \<and> date_seconds p = t - gmt_offset (fst tzi) - 2 ^ 32"
proof -
  let ?x = "t + 604800 - gmt_offset (fst tzi)"
  have x: "wrap_long 32 ?x = ?x - 2 ^ 32"
  proof -
    have "0 \<le> ?x + 2 ^ 31 - 2 ^ 32" "?x + 2 ^ 31 - 2 ^ 32 < 2 ^ 32"
      using assms(3-5) by (simp_all add: LONG_MAX_def)
    then have "(?x + 2 ^ 31) mod 2 ^ 32 = ?x + 2 ^ 31 - 2 ^ 32" by (intro int_mod_pos_eq [where q = 1]) simp_all
    then show ?thesis by (simp add: wrap_long_def)
  qed
  obtain p where p: "time_t2tm 32 (?x - 2 ^ 32) (- 7) r = Some (True, p)" "tm_ok p" "date_seconds p = ?x - 2 ^ 32 + 86400 * - 7"
    using time_t2tm_ok [OF assms(1), of "- 7" "?x - 2 ^ 32" 32] wrap_long_in [of 32 ?x] day_ok_long [of 32 "?x - 2 ^ 32" "- 7"] unfolding x
    by (auto simp: div_day t2tm_range_def)
  have "localtime_pass 32 t 0 (fst tzi) r = Some (p[8 := 0])"
  proof -
    have "pass_time 32 t (fst tzi) = ?x" "\<not> t > LONG_MAX 32 - 604800" using assms(3) by (simp_all add: pass_time_def)
    then show ?thesis using p(1) by (simp only: localtime_pass_unfold x) simp
  qed
  then show ?thesis using p assms(6) by (simp add: time_localtime_tzi_def tm_isdst_def Let_def)
qed

text \<open>\<open>mktime\<close> returns for all fields and all rules, also where \<open>tm_isdst\<close> is negative and the loop
  goes back to correct its guess; the result is - 1 or the seconds of the fields with the offset of one
  of the two rules.\<close>

theorem mktime_returns:
  assumes "length p = 9" "1 \<le> 1900 + tm_year p smod 400 + tm_mon p div 12" "\<And>b. tzset b tzi = tzi"
  shows "\<exists>t p'. time_mktime_tzi tzset w p store tzi = Some (t, p') \<and>
    (t = - 1 \<or> in_long w t \<and> (\<exists>rule \<in> {fst tzi, snd tzi}. t = mktime_base p + gmt_offset rule))"
proof -
  obtain p2 where p2: "length p2 = 9" "time_mktime_tzi tzset w p store tzi =
    mktime_dst w (mktime_base p + gmt_offset (if norm_isdst p tzi = 0 then fst tzi else snd tzi))
      (if norm_isdst p tzi = 0 then 0 else 1) p2 store p tzi"
    using time_mktime_base [where tzset = tzset and tzi = tzi, OF assms] by blast
  then show ?thesis
    using mktime_dst_returns [OF p2(1), of w "mktime_base p + gmt_offset (if norm_isdst p tzi = 0 then fst tzi else snd tzi)"
        "if norm_isdst p tzi = 0 then 0 else 1" store p tzi]
    by (auto simp: rule_diff_def split: if_splits)
qed

section \<open>The rules of daylight saving time\<close>

lemma mod_eq_add: "a = b + k * c \<Longrightarrow> a mod k = b mod (k :: int)"
  by simp

lemma year_day0_start: "1 \<le> y \<Longrightarrow> year_day0 y = (year_start y + 4) mod 7"
proof -
  assume y: "1 \<le> y"
  define i a b c where "i = y - 1" and "a = i div 4" and "b = i div 100" and "c = i div 400"
  have i: "0 \<le> i" using y by (simp add: i_def)
  have sd: "i sdiv 4 = a" "i sdiv 100 = b" "i sdiv 400 = c"
    using i by (simp_all add: a_def b_def c_def signed_divide_int_def sgn_if)
  have "b \<le> a" "0 \<le> c" using i zdiv_mono2 [of i 4 100] by (simp_all add: a_def b_def c_def pos_imp_zdiv_nonneg_iff)
  then have "year_day0 y = (1 + i + a - b + c) mod 7"
    using i by (simp add: year_day0_def Let_def i_def [symmetric] sd smod_mod_positive)
  also have "\<dots> = (year_start y + 4) mod 7"
    by (rule mod_eq_add [where c = "102737 - 52 * i"])
      (simp add: year_start_def i_def [symmetric] a_def [symmetric] b_def [symmetric] c_def [symmetric])
  finally show ?thesis .
qed

lemma year_cycle: "\<exists>k. tm_year p smod 400 + 1900 + 400 * k = 1900 + tm_year p"
  using mult_sdiv_smod_eq [of 400 "tm_year p"] by (intro exI [of _ "tm_year p sdiv 400"]) simp

lemma year_cycle_props:
  "leap_year (tm_year p smod 400 + 1900) = leap_year (1900 + tm_year p)"
  "year_day0 (tm_year p smod 400 + 1900) = (year_start (1900 + tm_year p) + 4) mod 7"
proof -
  obtain k where k: "tm_year p smod 400 + 1900 + 400 * k = 1900 + tm_year p" using year_cycle by blast
  show "leap_year (tm_year p smod 400 + 1900) = leap_year (1900 + tm_year p)"
    using leap_year_400 [of "tm_year p smod 400 + 1900" k] k by simp
  have "1 \<le> tm_year p smod 400 + 1900" using smod_int_range [of 400 "tm_year p"] by simp
  then have "year_day0 (tm_year p smod 400 + 1900) = (year_start (tm_year p smod 400 + 1900) + 4) mod 7" by (rule year_day0_start)
  also have "\<dots> = (year_start (1900 + tm_year p) + 4) mod 7"
    by (rule mod_eq_add [where c = "- 20871 * k"]) (simp add: year_start_400 k [symmetric])
  finally show "year_day0 (tm_year p smod 400 + 1900) = (year_start (1900 + tm_year p) + 4) mod 7" .
qed

lemma day_cor_start:
  assumes "m < 12"
  defines "day \<equiv> 31 * (int m + 1) - day_cor ! m"
  shows "(if leap \<and> day \<ge> 59 then day + 1 else day) = month_start leap m"
    and "(if leap \<and> int m + 1 = 2 then 31 + day_cor ! m - day_cor ! (m + 1) + 1 else 31 + day_cor ! m - day_cor ! (m + 1)) = month_length leap m"
proof -
  show "(if leap \<and> day \<ge> 59 then day + 1 else day) = month_start leap m"
    using assms(1) unfolding day_def
    by (rule month_cases)
      (simp_all add: day_cor_def month_start_def month_length_def month_days_def lessThan_nat_numeral lessThan_Suc)
  show "(if leap \<and> int m + 1 = 2 then 31 + day_cor ! m - day_cor ! (m + 1) + 1 else 31 + day_cor ! m - day_cor ! (m + 1)) = month_length leap m"
    using assms(1) by (rule month_cases) (simp_all add: day_cor_def month_length_def month_days_def)
qed

text \<open>The last steps of the rule for the \<open>week\<close>-th weekday of a month that has \<open>len\<close> days and begins on
  weekday \<open>w1\<close>.\<close>

lemma nth_weekday:
  fixes d w1 week len :: int
  assumes "0 \<le> d" "d < 7" "0 \<le> w1" "w1 < 7" "1 \<le> week" "week \<le> 5" "28 \<le> len" "len \<le> 31"
  defines "x \<equiv> (if d - w1 \<ge> 0 then d - w1 - 7 else d - w1) + 7 * week"
  defines "z \<equiv> (if x \<ge> len then x - 7 else x)"
  shows "0 \<le> z" "z < len" "(w1 + z) mod 7 = d" "week < 5 \<Longrightarrow> z div 7 = week - 1" "week = 5 \<Longrightarrow> len \<le> z + 7"
proof -
  have x: "7 * (week - 1) \<le> x" "x < 7 * week" using assms(1-4) by (auto simp: x_def)
  have four: "z = x" if "week < 5" using that x assms(7) by (auto simp: z_def)
  show "0 \<le> z" "z < len" using x assms(5-8) by (auto simp: z_def)
  show "week < 5 \<Longrightarrow> z div 7 = week - 1" using four x by (intro int_div_pos_eq [where r = "z - 7 * (week - 1)"]) auto
  show "week = 5 \<Longrightarrow> len \<le> z + 7" using x assms(8) by (auto simp: z_def)
  have "\<exists>c. w1 + z = d + 7 * c"
    by (auto simp: z_def x_def intro: exI [of _ week] exI [of _ "week - 1"] exI [of _ "week - 2"])
  then show "(w1 + z) mod 7 = d" using assms(1,2) by auto
qed

definition m_rule :: "rule_struct \<Rightarrow> bool" where
  "m_rule r \<longleftrightarrow> rule_type r = CHR ''M'' \<and> 1 \<le> rmonth r \<and> rmonth r \<le> 12 \<and> 1 \<le> rweek r \<and> rweek r \<le> 5 \<and> 0 \<le> rday r \<and> rday r < 7"

lemma rule_day_M:
  fixes leap :: bool and day0 :: int
  assumes "m_rule r"
  defines "m \<equiv> nat (rmonth r - 1)" and "x \<equiv> rule_day leap day0 r"
  assumes day0: "0 \<le> day0"
  shows "month_start leap m \<le> x" "x < month_start leap (m + 1)" "(day0 + x) mod 7 = rday r"
    "rweek r < 5 \<Longrightarrow> (x - month_start leap m) div 7 = rweek r - 1"
    "rweek r = 5 \<Longrightarrow> month_start leap (m + 1) \<le> x + 7"
proof -
  have m: "m < 12" "rmonth r = int m + 1" using assms(1) by (auto simp: m_rule_def m_def)
  let ?s = "month_start leap m" and ?l = "month_length leap m"
  define w1 where "w1 = (day0 + ?s) mod 7"
  have s0: "0 \<le> ?s" using month_start_mono [of 0 m leap] m(1) by simp
  have w1: "0 \<le> w1" "w1 < 7" "(day0 + ?s) smod 7 = w1" using day0 s0 by (simp_all add: w1_def smod_mod_positive)
  have nats: "nat (rmonth r - 1) = m" "nat (rmonth r) = m + 1" using m(2) by simp_all
  note cor = day_cor_start [OF m(1), of leap, folded m(2)]
  have l: "28 \<le> ?l" "?l \<le> 31" using month_length_range [OF m(1), of leap] by auto
  let ?x0 = "(if rday r - w1 \<ge> 0 then rday r - w1 - 7 else rday r - w1) + 7 * rweek r"
  have x: "x = ?s + (if ?x0 \<ge> ?l then ?x0 - 7 else ?x0)"
    using assms(1) unfolding x_def rule_day_def Let_def nats cor w1(3) by (simp add: m_rule_def)
  have r: "0 \<le> rday r" "rday r < 7" "1 \<le> rweek r" "rweek r \<le> 5" using assms(1) by (auto simp: m_rule_def)
  note nth = nth_weekday [OF r(1,2) w1(1,2) r(3,4) l]
  show "?s \<le> x" "x < month_start leap (m + 1)" using nth(1,2) unfolding x by (auto simp: month_start_Suc)
  show "rweek r < 5 \<Longrightarrow> (x - ?s) div 7 = rweek r - 1" using nth(4) unfolding x by simp
  show "rweek r = 5 \<Longrightarrow> month_start leap (m + 1) \<le> x + 7" using nth(5) unfolding x by (simp add: month_start_Suc)
  show "(day0 + x) mod 7 = rday r" using nth(3) unfolding x w1_def by (simp add: mod_simps add.assoc)
qed

section \<open>The text form\<close>

lemma sdiv_smod_pos: "0 \<le> t \<Longrightarrow> t sdiv 10 = t div (10 :: int)" "0 \<le> t \<Longrightarrow> t smod 10 = t mod (10 :: int)"
  by (simp_all add: signed_divide_int_def sgn_if smod_mod_positive)

definition digits2 :: "int \<Rightarrow> int list" where
  "digits2 n = [48 + n div 10, 48 + n mod 10]"

definition digits4 :: "int \<Rightarrow> int list" where
  "digits4 n = [48 + n div 10 div 10 div 10 mod 10, 48 + n div 10 div 10 mod 10, 48 + n div 10 mod 10, 48 + n mod 10]"

lemma asctime_year_digits:
  assumes "0 \<le> y"
  shows "asctime_year [n0, n1, n2, 32, m0, m1, m2, 32, 48, 12, 32, 48, 8, 58, 48, 4, 58, 48, 0, 32, 63, 63, 63, 63, 10, 0] 23 y =
    Some ([n0, n1, n2, 32, m0, m1, m2, 32, 48, 12, 32, 48, 8, 58, 48, 4, 58, 48, 0, 32] @ digits4 y @ [10, 0], 19)"
proof -
  define a b c where "a = y div 10" and "b = a div 10" and "c = b div 10"
  have q: "0 \<le> a" "0 \<le> b" "0 \<le> c" using assms by (simp_all add: a_def b_def c_def pos_imp_zdiv_nonneg_iff)
  have e: "y sdiv 10 = a" "a sdiv 10 = b" "b sdiv 10 = c" "y smod 10 = y mod 10" "a smod 10 = a mod 10" "b smod 10 = b mod 10" "c smod 10 = c mod 10"
    using q assms by (simp_all add: sdiv_smod_pos a_def [symmetric] b_def [symmetric] c_def [symmetric])
  show ?thesis unfolding digits4_def a_def [symmetric] b_def [symmetric] c_def [symmetric]
    by (simp add: asctime_year.simps [of _ 23] asctime_year.simps [of _ 22] asctime_year.simps [of _ 21] asctime_year.simps [of _ 20] Let_def e)
qed


definition asctime_field :: "int \<Rightarrow> bool" where
  "asctime_field n \<longleftrightarrow> 0 \<le> n \<and> n < 100"

lemma asctime_fields_digits:
  assumes "asctime_field s" "asctime_field m" "asctime_field h" "asctime_field d" "m1 \<noteq> 48"
    and p: "tm_sec p = s" "tm_min p = m" "tm_hour p = h" "tm_mday p = d"
  shows "asctime_fields p ([n0, n1, n2, 32, m0, m1, m2, 32, 48, 12, 32, 48, 8, 58, 48, 4, 58, 48, 0, 32] @ r) 19 =
    Some ([n0, n1, n2, 32, m0, m1, m2, 32] @ digits2 d @ [32] @ digits2 h @ [58] @ digits2 m @ [58] @ digits2 s @ [32] @ r, 7)"
proof -
  have e: "x sdiv 10 = x div 10" "x smod 10 = x mod 10" "\<not> x < 0" "\<not> 100 \<le> x" if "asctime_field x" for x
    using that by (simp_all add: asctime_field_def sdiv_smod_pos)
  show ?thesis using assms(5) unfolding digits2_def
    by (simp add: asctime_fields.simps [of _ _ 19] asctime_fields.simps [of _ _ 16] asctime_fields.simps [of _ _ 13]
        asctime_fields.simps [of _ _ 10] Let_def p [simplified] e [OF assms(1)] e [OF assms(2)] e [OF assms(3)] e [OF assms(4)])
qed

definition day_name :: "int \<Rightarrow> string" where
  "day_name w = [''Sun'', ''Mon'', ''Tue'', ''Wed'', ''Thu'', ''Fri'', ''Sat''] ! nat w"

definition month_name :: "int \<Rightarrow> string" where
  "month_name m = [''Jan'', ''Feb'', ''Mar'', ''Apr'', ''May'', ''Jun'', ''Jul'', ''Aug'', ''Sep'', ''Oct'', ''Nov'', ''Dec''] ! nat m"

lemma at_names_day: "0 \<le> w \<Longrightarrow> w \<le> 6 \<Longrightarrow> take 3 (drop (3 * nat w) at_names) = day_name w"
proof -
  assume "0 \<le> w" "w \<le> 6"
  then have "w = 0 \<or> w = 1 \<or> w = 2 \<or> w = 3 \<or> w = 4 \<or> w = 5 \<or> w = 6" by arith
  then show ?thesis by (elim disjE) (simp_all add: at_names_def day_name_def)
qed

lemma at_names_month:
  assumes "0 \<le> m" "m \<le> 11"
  shows "take 3 (drop (21 + 3 * nat m) at_names) = month_name m"
    and "\<exists>a b c. month_name m = [a, b, c] \<and> of_char b \<noteq> (48 :: int)"
proof -
  have "nat m < 12" using assms by simp
  then show "take 3 (drop (21 + 3 * nat m) at_names) = month_name m"
    "\<exists>a b c. month_name m = [a, b, c] \<and> of_char b \<noteq> (48 :: int)"
    by (rule month_cases; simp add: at_names_def month_name_def)+
qed

lemma day_name_3: "0 \<le> w \<Longrightarrow> w \<le> 6 \<Longrightarrow> \<exists>a b c. day_name w = [a, b, c]"
proof -
  assume "0 \<le> w" "w \<le> 6"
  then have "w = 0 \<or> w = 1 \<or> w = 2 \<or> w = 3 \<or> w = 4 \<or> w = 5 \<or> w = 6" by arith
  then show ?thesis by (elim disjE) (simp_all add: day_name_def)
qed

definition asctime_text :: "tm \<Rightarrow> int list" where
  "asctime_text p =
     map of_char (day_name (tm_wday p)) @ [32] @ map of_char (month_name (tm_mon p)) @ [32] @
     (if tm_mday p < 10 then [32, 48 + tm_mday p] else digits2 (tm_mday p)) @ [32] @
     digits2 (tm_hour p) @ [58] @ digits2 (tm_min p) @ [58] @ digits2 (tm_sec p) @ [32] @
     digits4 (1900 + tm_year p) @ [10, 0]"

lemma asctime_r_text:
  assumes "0 \<le> tm_wday p" "tm_wday p \<le> 6" "0 \<le> tm_mon p" "tm_mon p \<le> 11"
    and y: "0 \<le> 1900 + tm_year p" "1900 + tm_year p < 10000"
    and f: "asctime_field (tm_sec p)" "asctime_field (tm_min p)" "asctime_field (tm_hour p)" "asctime_field (tm_mday p)"
  shows "asctime_r p = Some (0, asctime_text p)"
proof -
  obtain a b c where dn: "day_name (tm_wday p) = [a, b, c]" using day_name_3 [OF assms(1,2)] by blast
  obtain d e g where mn: "month_name (tm_mon p) = [d, e, g]" "of_char e \<noteq> (48 :: int)"
    using at_names_month(2) [OF assms(3,4)] by blast
  have tens: "tm_mday p div 10 = 0 \<longleftrightarrow> tm_mday p < 10" "tm_mday p < 10 \<Longrightarrow> tm_mday p mod 10 = tm_mday p"
    using f(4) by (auto simp: asctime_field_def zdiv_eq_0_iff)
  have tail: "at_tail = [63, 63, 63, 32, 63, 63, 63, 32, 48, 12, 32, 48, 8, 58, 48, 4, 58, 48, 0, 32, 63, 63, 63, 63, 10, 0]"
    by (simp add: at_tail_def of_char_def)
  let ?b = "[of_char a, of_char b, of_char c, 32, of_char d, of_char e, of_char g, 32, 48, 12, 32, 48, 8, 58, 48, 4, 58, 48, 0, 32, 63, 63, 63, 63, 10, 0]"
  have "put3 (put3 at_tail 0 [a, b, c]) 4 [d, e, g] = ?b" by (simp add: put3_def tail)
  then have "asctime_r p = (case asctime_year ?b 23 (1900 + tm_year p) of None \<Rightarrow> None
      | Some (b3, i) \<Rightarrow> (case asctime_fields p b3 i of None \<Rightarrow> None
         | Some (b4, j) \<Rightarrow> Some (j + 1 - 8, if b4 ! (j + 1) = 48 then b4[j + 1 := 32] else b4)))"
    using assms(1-4) y unfolding asctime_r_def Let_def
    by (simp only: at_names_day at_names_month(1) dn mn(1) conj_absorb if_True add.commute [of "tm_year p"] simp_thms)
  also have "\<dots> = Some (0, asctime_text p)"
    unfolding asctime_year_digits [OF y(1)] option.case prod.case
      asctime_fields_digits [OF f mn(2) refl refl refl refl]
    using tens by (simp add: asctime_text_def dn mn(1) digits2_def)
  finally show ?thesis .
qed

text \<open>\<open>x\<close> is the day of the year \<open>y\<close> that a rule of type M names: the given weekday, the given week of
  the month, week 5 being the last one.\<close>

definition is_rule_day :: "int \<Rightarrow> rule_struct \<Rightarrow> int \<Rightarrow> bool" where
  "is_rule_day y r x \<longleftrightarrow>
     (let first = month_start (leap_year y) (nat (rmonth r - 1)); next = month_start (leap_year y) (nat (rmonth r))
      in first \<le> x \<and> x < next \<and> (year_start y + x + 4) mod 7 = rday r \<and>
         (if rweek r = 5 then next \<le> x + 7 else (x - first) div 7 = rweek r - 1))"

lemma rule_day_is:
  assumes "m_rule r"
  shows "is_rule_day (1900 + tm_year p) r
    (rule_day (leap_year (1900 + tm_year p)) ((year_start (1900 + tm_year p) + 4) mod 7) r)"
proof -
  let ?leap = "leap_year (1900 + tm_year p)" and ?d0 = "(year_start (1900 + tm_year p) + 4) mod 7"
  have "nat (rmonth r) = nat (rmonth r - 1) + 1" using assms by (simp add: m_rule_def Suc_nat_eq_nat_zadd1)
  moreover have "(year_start (1900 + tm_year p) + rule_day ?leap ?d0 r + 4) mod 7 = rday r"
    using rule_day_M(3) [OF assms, of ?d0 ?leap] by (simp add: mod_simps algebra_simps)
  moreover have "rweek r = 5 \<or> rweek r < 5" using assms by (auto simp: m_rule_def)
  ultimately show ?thesis
    using rule_day_M(1,2,4,5) [OF assms, of ?d0 ?leap] unfolding is_rule_day_def Let_def by auto
qed

lemma tm_isdst_seconds:
  fixes p :: tm
  assumes "tzname (snd tzi) \<noteq> []"
  defines "y \<equiv> 1900 + tm_year p"
  defines "s \<equiv> rule_day (leap_year y) ((year_start y + 4) mod 7) (fst tzi)"
    and "e \<equiv> rule_day (leap_year y) ((year_start y + 4) mod 7) (snd tzi)"
    and "now \<equiv> tm_sec p + 60 * (tm_min p + 60 * (tm_hour p + 24 * tm_yday p))"
  shows "tm_isdst p tzi =
    ((if now \<ge> s * 86400 + dst_offset (fst tzi) then 1 else 0) + (if s > e then 1 else 0) +
     (if now \<ge> e * 86400 + dst_offset (snd tzi) + gmt_offset (snd tzi) - gmt_offset (fst tzi) then 1 else 0)) mod 2"
  using assms(1) unfolding tm_isdst_def Let_def isleap_leap year_cycle_props y_def [symmetric] s_def [symmetric] e_def [symmetric] now_def [symmetric]
  by auto

lemma dst_parity:
  fixes s e now on off :: int
  shows "s \<le> e \<and> on \<le> off \<longrightarrow> ((if now \<ge> on then 1 else 0) + (if s > e then 1 else 0) + (if now \<ge> off then 1 else 0)) mod 2 =
      (if on \<le> now \<and> now < off then 1 else (0 :: int))"
    and "e < s \<and> off \<le> on \<longrightarrow> ((if now \<ge> on then 1 else 0) + (if s > e then 1 else 0) + (if now \<ge> off then 1 else 0)) mod 2 =
      (if now < off \<or> on \<le> now then 1 else (0 :: int))"
  by auto

text \<open>Daylight saving time is in effect exactly between the two changes of the rules, north and south
  of the equator: from the start (in standard time) to the end (in daylight saving time) when the
  start comes first in the year, and outside that interval when the end comes first. The days of
  the changes are the named weekdays of the named weeks of the months, the fifth week standing for
  the last one, in leap years too.\<close>

theorem dst_rules_correct:
  assumes "tzname (snd tzi) \<noteq> []" "m_rule (fst tzi)" "m_rule (snd tzi)"
  shows "\<exists>s e. is_rule_day (1900 + tm_year p) (fst tzi) s \<and> is_rule_day (1900 + tm_year p) (snd tzi) e \<and>
    (let now = tm_sec p + 60 * (tm_min p + 60 * (tm_hour p + 24 * tm_yday p));
         on = s * 86400 + dst_offset (fst tzi);
         off = e * 86400 + dst_offset (snd tzi) + gmt_offset (snd tzi) - gmt_offset (fst tzi)
     in (s \<le> e \<and> on \<le> off \<longrightarrow> tm_isdst p tzi = (if on \<le> now \<and> now < off then 1 else 0)) \<and>
        (e < s \<and> off \<le> on \<longrightarrow> tm_isdst p tzi = (if now < off \<or> on \<le> now then 1 else 0)))"
  using rule_day_is [OF assms(2), of p] rule_day_is [OF assms(3), of p]
  unfolding tm_isdst_seconds [OF assms(1)] Let_def by (intro exI conjI) (assumption | rule dst_parity)+

text \<open>\<open>asctime_r\<close> of a broken-down time whose year has at most four digits returns the text of the
  standard: weekday, month, day padded with a blank, time, year, newline and terminator, at the
  start of the 26-byte buffer.\<close>

theorem asctime_r_correct:
  assumes "tm_ok p" "0 \<le> 1900 + tm_year p" "1900 + tm_year p < 10000"
  shows "asctime_r p = Some (0, asctime_text p) \<and> length (asctime_text p) = 26"
proof -
  have f: "asctime_field (tm_sec p)" "asctime_field (tm_min p)" "asctime_field (tm_hour p)" "0 \<le> tm_mon p" "tm_mon p \<le> 11"
    using assms(1) by (auto simp: tm_ok_def Let_def asctime_field_def)
  have "nat (tm_mon p) < 12" using f(4,5) by simp
  then have "asctime_field (tm_mday p)"
    using assms(1) month_length_range [of "nat (tm_mon p)" "leap_year (1900 + tm_year p)"]
    by (auto simp: tm_ok_def Let_def asctime_field_def)
  moreover have w: "0 \<le> tm_wday p" "tm_wday p \<le> 6"
    using assms(1) pos_mod_bound [of 7 "year_start (1900 + tm_year p) + tm_yday p + 4"] by (auto simp: tm_ok_def Let_def)
  ultimately have "asctime_r p = Some (0, asctime_text p)"
    using f assms(2,3) by (intro asctime_r_text)
  moreover obtain a b c d e g where "day_name (tm_wday p) = [a, b, c]" "month_name (tm_mon p) = [d, e, g]"
    using day_name_3 [OF w] at_names_month(2) [OF f(4,5)] by blast
  ultimately show ?thesis by (simp add: asctime_text_def digits2_def digits4_def)
qed

subsection \<open>Witnesses\<close>

definition zero_tm :: tm where "zero_tm = replicate 9 0"

definition est_rules :: "rule_struct \<times> rule_struct" where
  "est_rules =
     (\<lparr>gmt_offset = 18000, dst_offset = 7200, rday = 0, rweek = 2, rmonth = 3, rule_type = CHR ''M'', tzname = ''EST''\<rparr>,
      \<lparr>gmt_offset = 14400, dst_offset = 7200, rday = 0, rweek = 1, rmonth = 11, rule_type = CHR ''M'', tzname = ''EDT''\<rparr>)"

theorem gmtime_r_correct_witness:
  "\<exists>p. gmtime_r 32 1000000000 zero_tm = Some (True, p) \<and> tm_ok p \<and> date_seconds p = 1000000000"
  using gmtime_r_correct [of zero_tm 32 1000000000] by (auto simp: zero_tm_def t2tm_range_def in_long_def LONG_MIN_def LONG_MAX_def)

theorem timegm_correct_witness:
  "date_seconds [0, 0, 0, 1, - 3600, 400, 0, 0, 0] = 946684800 \<and>
   (\<exists>p. timegm 32 [0, 0, 0, 1, - 3600, 400, 0, 0, 0] = Some (944611200, p))"
proof -
  have d: "date_seconds [0, 0, 0, 1, - 3600, 400, 0, 0, 0] = 946684800"
    by (simp add: date_seconds_def Let_def year_start_def)
  show ?thesis using timegm_correct [of "[0, 0, 0, 1, - 3600, 400, 0, 0, 0]" 32] d
    by (auto simp: in_long_def LONG_MIN_def LONG_MAX_def)
qed

theorem timegm_gmtime_roundtrip_witness:
  "\<exists>p. gmtime_r 32 (- 1000000000) zero_tm = Some (True, p) \<and> timegm 32 p = Some (- 1000000000, p)"
  using timegm_gmtime_roundtrip [of zero_tm "- 1000000000"] by (simp add: zero_tm_def in_long_def LONG_MIN_def LONG_MAX_def)

theorem mktime_localtime_roundtrip_witness:
  "\<exists>p p'. time_localtime_tzi 32 1000000000 zero_tm est_rules = Some p \<and>
     time_mktime_tzi (\<lambda>_ r. r) 32 p True est_rules = Some (1000000000, p')"
  using mktime_localtime_roundtrip [of zero_tm 1000000000 "\<lambda>_ r. r" est_rules True]
  by (simp add: zero_tm_def in_long_def LONG_MIN_def LONG_MAX_def est_rules_def)

theorem localtime_last_week_witness:
  "\<exists>p. time_localtime_tzi 32 2147483647 zero_tm (fst est_rules, zero_rule) = Some p \<and> tm_ok p \<and> date_seconds p = 2147483647 + 18000"
  using localtime_last_week [of zero_tm 2147483647 "(fst est_rules, zero_rule)"]
  by (auto simp: zero_tm_def in_long_def LONG_MIN_def LONG_MAX_def est_rules_def zero_rule_def)

theorem localtime_east_overflow_witness:
  "\<exists>p. time_localtime_tzi 32 2146878847 zero_tm (zero_rule\<lparr>gmt_offset := - 3600\<rparr>, zero_rule) = Some p \<and>
     date_seconds p = 2146878847 + 3600 - 2 ^ 32"
  using localtime_east_overflow [of zero_tm 2146878847 "(zero_rule\<lparr>gmt_offset := - 3600\<rparr>, zero_rule)"]
  by (auto simp: zero_tm_def in_long_def LONG_MIN_def LONG_MAX_def zero_rule_def)

theorem mktime_returns_witness:
  "\<exists>t p'. time_mktime_tzi (\<lambda>_ r. r) 32 [0, 0, 0, 1, 6, 110, 0, 0, - 1] True est_rules = Some (t, p')"
  using mktime_returns [of "[0, 0, 0, 1, 6, 110, 0, 0, - 1]" "\<lambda>_ r. r" est_rules 32 True] by (auto simp: smod_int_alt_def)

theorem dst_rules_correct_witness:
  "\<exists>s. is_rule_day 2010 (fst est_rules) s \<and> 66 \<le> s \<and> s < 73"
proof -
  obtain s where s: "is_rule_day 2010 (fst est_rules) s"
    using dst_rules_correct [of est_rules "[0, 0, 0, 1, 6, 110, 0, 0, 0]"] by (auto simp: est_rules_def m_rule_def)
  have "\<not> leap_year 2010" by (simp add: leap_year_def)
  then have "(s - 59) div 7 = 1"
    using s by (simp add: is_rule_day_def est_rules_def Let_def month_start_def month_length_def month_days_def lessThan_nat_numeral lessThan_Suc)
  then show ?thesis using s by (intro exI [of _ s]) auto
qed

theorem asctime_r_correct_witness: "asctime_r [0, 0, 0, 1, 0, 70, 4, 0, 0] = Some (0, asctime_text [0, 0, 0, 1, 0, 70, 4, 0, 0])"
proof -
  have "tm_ok [0, 0, 0, 1, 0, 70, 4, 0, 0]" by (simp add: tm_ok_def Let_def month_length_def month_days_def year_start_def)
  then show ?thesis using asctime_r_correct [of "[0, 0, 0, 1, 0, 70, 4, 0, 0]"] by simp
qed

end
