(* ===== verification/Utf8.thy ===== *)
theory Utf8
  imports Prelude
begin

text \<open>
  The conversions of \<open>libc/misc/wchar/wchar.c\<close> between multibyte and wide characters, in a build with
  locales, 32-bit wide characters, 8-bit locales and UTF-8, and with \<open>KUHN\<close> defined: \<open>_wchar_utf8sntowcs\<close>,
  \<open>_wchar_wcsntoutf8s\<close> and the functions of the interface that call them. An operation on a null \<open>ps\<close> is
  the operation on its static state.

  The \<open>n\<close> bytes at \<open>*src\<close> are a list; the new value of \<open>*src\<close> is an offset from the old one. The
  result of a conversion has what it returns, what it stored, and the new \<open>*src\<close> and \<open>*ps\<close>.
\<close>

type_synonym wchar = "32 word"

record mbstate =
  ps_mask :: wchar
  ps_wc :: wchar

text \<open>Where a conversion puts its characters: into a buffer, nowhere (a null pointer), or nowhere with
  the limit on their number kept (the address of \<open>ps\<close> or of \<open>src\<close>).\<close>

datatype dest = Store | Null | Count

definition SIZE_MAX :: nat where "SIZE_MAX = 2 ^ 32 - 1"

record 'c conv_result =
  ret :: int
  out :: "'c list"
  new_src :: "int option option"
  new_ps :: mbstate
  ilseq :: bool

section \<open>Decoding\<close>

datatype outcome = Bad wchar | Complete wchar "byte list" | Incomplete wchar wchar

text \<open>The test of a completed character, after \<open>mask >>= 5\<close>.\<close>

definition utf8_invalid :: "wchar \<Rightarrow> wchar \<Rightarrow> bool" where
  "utf8_invalid msk wc \<longleftrightarrow> wc < msk \<or> wc - 0xfffe < 2 \<or> wc - 0xd800 < 0xe000 - 0xd800"

text \<open>The code from the labels \<open>START\<close> and \<open>CONTINUE\<close> on, as one function each.\<close>

fun utf8_start :: "wchar \<Rightarrow> wchar \<Rightarrow> byte list \<Rightarrow> outcome"
  and utf8_continue :: "wchar \<Rightarrow> wchar \<Rightarrow> byte list \<Rightarrow> outcome" where
  "utf8_start msk wc0 bs =
     (let wc = and wc0 (not (push_bit 1 msk))
      in if and wc msk = 0 then
           (let mask1 = drop_bit 5 msk;
                mask2 = (if mask1 = 0x40 then mask1 + mask1 else mask1)
            in if utf8_invalid mask2 wc then Bad mask2 else Complete wc bs)
         else utf8_continue msk wc bs)"
| "utf8_continue msk wc [] = Incomplete msk wc"
| "utf8_continue msk wc (b # bs) =
     (if and b 0xc0 \<noteq> 0x80 then Bad msk
      else utf8_start (push_bit 5 msk) (push_bit 6 wc + ucast (and b 0x3f)) bs)"

declare utf8_start.simps [simp del]

definition utf8_char :: "byte \<Rightarrow> byte list \<Rightarrow> outcome" where
  "utf8_char b bs =
     (if b < 0x80 then Complete (ucast b) bs
      else if b - 0xc0 < 0xfe - 0xc0 \<and> b \<noteq> 0xc0 \<and> b \<noteq> 0xc1 then utf8_start 0x40 (ucast b) bs
      else Bad 0x40)"

datatype stop = Done nat "byte list" | Nul nat | Ill wchar | More nat wchar wchar

text \<open>The main loop with \<open>count\<close> characters to go, and what has been stored; \<open>utf8_after\<close> starts it behind
  a character.\<close>

fun utf8_run :: "nat \<Rightarrow> byte list \<Rightarrow> wchar list \<Rightarrow> wchar list \<times> stop" where
  "utf8_run 0 bs ws = (ws, Done 0 bs)"
| "utf8_run (Suc c) [] ws = (ws, Done (Suc c) [])"
| "utf8_run (Suc c) (b # bs) ws =
     (case utf8_char b bs of
        Bad m \<Rightarrow> (ws, Ill m)
      | Incomplete m wc \<Rightarrow> (ws, More (Suc c) m wc)
      | Complete wc rest \<Rightarrow> if wc = 0 then (ws @ [wc], Nul (Suc c)) else utf8_run c rest (ws @ [wc]))"

definition utf8_after :: "nat \<Rightarrow> outcome \<Rightarrow> wchar list \<times> stop" where
  "utf8_after count oc =
     (case oc of
        Bad m \<Rightarrow> ([], Ill m)
      | Incomplete m wc \<Rightarrow> ([], More count m wc)
      | Complete wc rest \<Rightarrow> if wc = 0 then ([wc], Nul count) else utf8_run (count - 1) rest [wc])"

lemma drop_bit_smaller: "drop_bit 5 w \<noteq> 0 \<Longrightarrow> unat (drop_bit 5 w) < unat (w :: wchar)"
proof -
  assume "drop_bit 5 w \<noteq> 0"
  then have "unat (drop_bit 5 w) \<noteq> 0" by (simp add: unat_eq_0)
  moreover have "unat (drop_bit 5 w) = unat w div 32" by (simp add: drop_bit_eq_div unat_div)
  ultimately show ?thesis by simp
qed

text \<open>The number of bytes that the loop \<open>do --s; while ((mask >>= 5) >= 0x40)\<close> takes back.\<close>

function utf8_back :: "wchar \<Rightarrow> int" where
  "utf8_back msk = 1 + (if drop_bit 5 msk \<ge> 0x40 then utf8_back (drop_bit 5 msk) else 0)"
  by auto
termination
proof (relation "measure unat", simp)
  fix msk :: wchar
  assume "0x40 \<le> drop_bit 5 msk"
  then have "drop_bit 5 msk \<noteq> 0" by auto
  then show "(drop_bit 5 msk, msk) \<in> measure unat" by (simp add: drop_bit_smaller)
qed

declare utf8_back.simps [simp del]

definition utf8_pass :: "nat \<Rightarrow> byte list \<Rightarrow> mbstate \<Rightarrow> wchar list \<times> stop" where
  "utf8_pass wn bs ps =
     (if ps_mask ps \<noteq> 0 then
        (if bs = [] then ([], Done wn []) else utf8_after wn (utf8_continue (ps_mask ps) (ps_wc ps) bs))
      else utf8_run wn bs [])"

definition utf8sntowcs :: "dest \<Rightarrow> nat \<Rightarrow> byte list \<Rightarrow> mbstate \<Rightarrow> bool \<Rightarrow> wchar conv_result" where
  "utf8sntowcs pwc wn0 bs ps allow_continuation =
     (let wn = (if pwc = Null then SIZE_MAX else wn0);
          done = (\<lambda>ws c pos.
            \<lparr>ret = int (wn - c), out = (if pwc = Store then ws else []),
             new_src = (if pwc = Store then Some pos else None), new_ps = ps\<lparr>ps_mask := 0\<rparr>, ilseq = False\<rparr>)
      in if wn = 0 then \<lparr>ret = 0, out = [], new_src = None, new_ps = ps, ilseq = False\<rparr>
         else if ps_mask ps \<noteq> 0 \<and> ps_wc ps = 0xffff
         then \<lparr>ret = - 1, out = [], new_src = None, new_ps = ps, ilseq = True\<rparr>
         else
           (case utf8_pass wn bs ps of
              (ws, Done c rest) \<Rightarrow> done ws c (Some (int (length bs) - int (length rest)))
            | (ws, Nul c) \<Rightarrow> done ws c None
            | (ws, Ill m) \<Rightarrow>
                \<lparr>ret = - 1, out = (if pwc = Store then ws else []), new_src = None,
                 new_ps = \<lparr>ps_mask = m, ps_wc = 0xffff\<rparr>, ilseq = True\<rparr>
            | (ws, More c m wc) \<Rightarrow>
                if \<not> allow_continuation then
                  (if c \<noteq> wn then
                     \<lparr>ret = 0, out = (if pwc = Store then ws else []), new_src = None, new_ps = ps, ilseq = False\<rparr>
                   else done ws c (Some (int (length bs) - utf8_back m)))
                else
                  \<lparr>ret = - 2, out = (if pwc = Store then ws else []), new_src = Some (Some (int (length bs))),
                   new_ps = \<lparr>ps_mask = m, ps_wc = wc\<rparr>, ilseq = False\<rparr>))"

section \<open>Encoding\<close>

text \<open>The loop that counts the bytes of a character, after \<open>wc >>= 1\<close>.\<close>

function utf8_len :: "wchar \<Rightarrow> nat" where
  "utf8_len wc = 1 + (if drop_bit 5 wc \<noteq> 0 then utf8_len (drop_bit 5 wc) else 0)"
  by auto
termination
proof (relation "measure unat", simp)
  fix wc :: wchar
  assume "drop_bit 5 wc \<noteq> 0"
  then have "drop_bit 5 wc \<noteq> 0" by auto
  then show "(drop_bit 5 wc, wc) \<in> measure unat" by (simp add: drop_bit_smaller)
qed

declare utf8_len.simps [simp del]

text \<open>The loop that fills in the bytes from the end, with the marker \<open>m\<close>.\<close>

fun utf8_fill :: "nat \<Rightarrow> wchar \<Rightarrow> byte \<Rightarrow> byte list \<Rightarrow> byte \<times> byte list" where
  "utf8_fill 0 wc m acc = (m, acc)"
| "utf8_fill (Suc k) wc m acc =
     utf8_fill k (drop_bit 6 wc) (or (drop_bit 1 m) 0x80) (or (ucast (and wc 0x3f)) 0x80 # acc)"

definition utf8_put :: "wchar \<Rightarrow> byte list" where
  "utf8_put wc =
     (case utf8_fill (utf8_len (drop_bit 1 wc)) wc 0x80 [] of
        (m, []) \<Rightarrow> []
      | (m, b # bs) \<Rightarrow> or b (push_bit 1 m) # bs)"

text \<open>The loop of \<open>_wchar_wcsntoutf8s\<close> with \<open>t\<close> bytes left: \<open>None\<close> is the error return. The byte that is
  stored before the character is looked at is part of what has been stored.\<close>

fun utf8_write :: "wchar list \<Rightarrow> nat \<Rightarrow> byte list \<Rightarrow> byte list \<times> (nat \<times> wchar list option) option" where
  "utf8_write [] t bs = (bs, Some (t, Some []))"
| "utf8_write (wc # ws) t bs =
     (if t = 0 then (bs, Some (t, Some (wc # ws)))
      else if wc \<ge> 0x80 then
        (if wc > 0x7fffffff \<or> wc - 0xfffe < 2 \<or> wc - 0xd800 < 0xe000 - 0xd800 then (bs @ [ucast wc], None)
         else (let len = utf8_len (drop_bit 1 wc)
               in if len > t then (bs @ [ucast wc], Some (t, Some (wc # ws)))
                  else utf8_write ws (t - len) (bs @ utf8_put wc)))
      else if wc = 0 then (bs @ [0], Some (t, None))
      else utf8_write ws (t - 1) (bs @ [ucast wc]))"

definition wcsntoutf8s :: "dest \<Rightarrow> nat \<Rightarrow> wchar list \<Rightarrow> byte conv_result" where
  "wcsntoutf8s s n0 ws =
     (let n = (if s = Null then SIZE_MAX else n0);
          (bs, r) = utf8_write ws n []
      in case r of
           None \<Rightarrow> \<lparr>ret = - 1, out = (if s = Store then bs else []), new_src = None,
                    new_ps = \<lparr>ps_mask = 0, ps_wc = 0\<rparr>, ilseq = True\<rparr>
         | Some (t, p) \<Rightarrow>
             \<lparr>ret = int (n - t), out = (if s = Store then bs else []),
              new_src = (if s = Store then Some (map_option (\<lambda>rest. int (length ws) - int (length rest)) p) else None),
              new_ps = \<lparr>ps_mask = 0, ps_wc = 0\<rparr>, ilseq = False\<rparr>)"

section \<open>Single-byte encodings\<close>

datatype ctype_encoding = encoding_7_bit | encoding_utf8 | encoding_8_bit

text \<open>What the conversions read of the current locale; the tables are generated from character maps, the
  constants are those of \<open>extra/locale/gen_wc8bit.c\<close>.\<close>

record cur_locale =
  encoding :: ctype_encoding
  idx8c2wc :: "nat \<Rightarrow> byte"
  tbl8c2wc :: "nat \<Rightarrow> 16 word"
  idx8wc2c :: "nat \<Rightarrow> byte"
  tbl8wc2c :: "nat \<Rightarrow> byte"
  Cwc2c_TI_LEN :: nat

definition Cwc2c_DOMAIN_MAX :: wchar where "Cwc2c_DOMAIN_MAX = 0x25ff"

definition c2wc :: "cur_locale \<Rightarrow> byte \<Rightarrow> wchar" where
  "c2wc l b = (let wc = unat b - 0x80 in ucast (tbl8c2wc l (unat (idx8c2wc l (wc div 8)) * 8 + wc mod 8)))"

definition wc2c :: "cur_locale \<Rightarrow> wchar \<Rightarrow> byte" where
  "wc2c l wc =
     (if wc \<le> Cwc2c_DOMAIN_MAX then
        (let u = idx8wc2c l (unat wc div 256);
             u = tbl8wc2c l (unat u * 16 + unat wc div 16 mod 16)
         in tbl8wc2c l (Cwc2c_TI_LEN l + unat u * 16 + unat wc mod 16))
      else 0)"

fun mbs_8_bit :: "cur_locale \<Rightarrow> nat \<Rightarrow> byte list \<Rightarrow> wchar list \<Rightarrow> wchar list \<times> stop" where
  "mbs_8_bit l 0 bs ws = (ws, Done 0 bs)"
| "mbs_8_bit l (Suc c) [] ws = (ws, Done (Suc c) [])"
| "mbs_8_bit l (Suc c) (b # bs) ws =
     (if b \<ge> 0x80 \<and> c2wc l b = 0 then (ws, Ill 0)
      else (let wc = (if b \<ge> 0x80 then c2wc l b else ucast b)
            in if wc = 0 then (ws @ [wc], Nul (Suc c)) else mbs_8_bit l c bs (ws @ [wc])))"

fun mbs_7_bit :: "nat \<Rightarrow> byte list \<Rightarrow> wchar list \<Rightarrow> wchar list \<times> stop" where
  "mbs_7_bit 0 bs ws = (ws, Done 0 bs)"
| "mbs_7_bit (Suc c) [] ws = (ws, Done (Suc c) [])"
| "mbs_7_bit (Suc c) (b # bs) ws =
     (if b = 0 then (ws @ [0], Nul (Suc c))
      else if b \<ge> 0x80 then (ws @ [ucast b], Ill 0)
      else mbs_7_bit c bs (ws @ [ucast b]))"

text \<open>The loops of \<open>wcsnrtombs\<close>: the bytes stored, and where the loop stopped (\<open>None\<close> is \<open>BAD\<close>).\<close>

fun wcs_8_bit :: "cur_locale \<Rightarrow> nat \<Rightarrow> wchar list \<Rightarrow> byte list \<Rightarrow> byte list \<times> (nat \<times> wchar list option) option" where
  "wcs_8_bit l 0 ws bs = (bs, Some (0, Some ws))"
| "wcs_8_bit l (Suc c) [] bs = (bs, Some (Suc c, Some []))"
| "wcs_8_bit l (Suc c) (wc # ws) bs =
     (if wc \<le> 0x7f then
        (if wc = 0 then (bs @ [0], Some (Suc c, None)) else wcs_8_bit l c ws (bs @ [ucast wc]))
      else if wc2c l wc = 0 then (bs, None)
      else wcs_8_bit l c ws (bs @ [wc2c l wc]))"

fun wcs_7_bit :: "nat \<Rightarrow> wchar list \<Rightarrow> byte list \<Rightarrow> byte list \<times> (nat \<times> wchar list option) option" where
  "wcs_7_bit 0 ws bs = (bs, Some (0, Some ws))"
| "wcs_7_bit (Suc c) [] bs = (bs, Some (Suc c, Some []))"
| "wcs_7_bit (Suc c) (wc # ws) bs =
     (if wc \<ge> 0x80 then (bs, None)
      else if wc = 0 then (bs @ [0], Some (Suc c, None))
      else wcs_7_bit c ws (bs @ [ucast wc]))"

section \<open>The interface\<close>

definition mbsinit :: "mbstate option \<Rightarrow> bool" where
  "mbsinit ps = (case ps of None \<Rightarrow> True | Some p \<Rightarrow> ps_mask p = 0)"

definition mbsnrtowcs :: "cur_locale \<Rightarrow> dest \<Rightarrow> byte list \<Rightarrow> nat \<Rightarrow> mbstate \<Rightarrow> wchar conv_result" where
  "mbsnrtowcs l dst bs len0 ps =
     (if encoding l = encoding_utf8 then
        (let r = utf8sntowcs dst len0 bs ps True in if ret r \<noteq> - 2 then r else r\<lparr>ret := 0\<rparr>)
      else
        (let len = min (if dst = Null then SIZE_MAX else len0) (length bs);
             (ws, st) = (if encoding l = encoding_8_bit then mbs_8_bit l len bs [] else mbs_7_bit len bs []);
             res = \<lparr>ret = - 1, out = (if dst = Store then ws else []), new_src = None, new_ps = ps, ilseq = True\<rparr>
         in case st of
              Done c rest \<Rightarrow>
                res\<lparr>ret := int (len - c), ilseq := False,
                    new_src := (if dst = Store then Some (Some (int (length bs) - int (length rest))) else None)\<rparr>
            | Nul c \<Rightarrow> res\<lparr>ret := int (len - c), ilseq := False, new_src := (if dst = Store then Some None else None)\<rparr>
            | _ \<Rightarrow> res))"

text \<open>\<open>mbsrtowcs\<close> reads a string with its end mark, whatever its length.\<close>

definition mbsrtowcs :: "cur_locale \<Rightarrow> dest \<Rightarrow> byte list \<Rightarrow> nat \<Rightarrow> mbstate \<Rightarrow> wchar conv_result" where
  "mbsrtowcs l dst s len ps = mbsnrtowcs l dst (s @ [0]) len ps"

text \<open>\<open>mbrtowc\<close> with a state: \<open>bs\<close> has the \<open>n\<close> bytes at \<open>s\<close>; \<open>b0\<close> is the byte at \<open>s\<close>, which is read also
  when \<open>n\<close> is 0. The result has the returned number, the character for a \<open>pwc\<close> that is not null, and the
  state. The single-byte encodings pass \<open>SIZE_MAX\<close> on and read the byte \<open>b0\<close> alone.\<close>

definition mbrtowc_go :: "cur_locale \<Rightarrow> byte \<Rightarrow> byte list \<Rightarrow> bool \<Rightarrow> mbstate \<Rightarrow> int \<times> wchar option \<times> mbstate" where
  "mbrtowc_go l b0 bs pwc ps =
     (if encoding l = encoding_utf8 then
        (let r = utf8sntowcs Store 1 bs ps True
         in (if ret r = 1 then (case new_src r of Some (Some k) \<Rightarrow> k | _ \<Rightarrow> 0) else ret r,
             (case out r of wc # _ \<Rightarrow> if pwc then Some wc else None | [] \<Rightarrow> None), new_ps r))
      else
        (let r = mbsnrtowcs l Store [b0] 1 ps
         in (ret r, if ret r \<ge> 0 \<and> pwc then Some (hd (out r)) else None, new_ps r)))"

definition mbrtowc :: "cur_locale \<Rightarrow> (byte \<times> byte list) option \<Rightarrow> mbstate \<Rightarrow> int \<times> wchar option \<times> mbstate" where
  "mbrtowc l s ps =
     (case s of
        Some (b0, bs) \<Rightarrow> if b0 = 0 then (0, Some 0, ps) else if bs = [] then (0, None, ps) else mbrtowc_go l b0 bs True ps
      | None \<Rightarrow> mbrtowc_go l 0 [0] False ps)"

definition mbrlen :: "cur_locale \<Rightarrow> (byte \<times> byte list) option \<Rightarrow> mbstate \<Rightarrow> int \<times> mbstate" where
  "mbrlen l s ps = (let (r, _, ps') = mbrtowc l s ps in (r, ps'))"

definition wcsnrtombs :: "cur_locale \<Rightarrow> dest \<Rightarrow> wchar list \<Rightarrow> nat \<Rightarrow> byte conv_result" where
  "wcsnrtombs l dst ws len0 =
     (if encoding l = encoding_utf8 then wcsntoutf8s dst len0 ws
      else
        (let len = min (if dst = Null then SIZE_MAX else len0) (length ws);
             (bs, st) = (if encoding l = encoding_8_bit then wcs_8_bit l len ws [] else wcs_7_bit len ws []);
             res = \<lparr>ret = - 1, out = (if dst = Store then bs else []), new_src = None,
                    new_ps = \<lparr>ps_mask = 0, ps_wc = 0\<rparr>, ilseq = True\<rparr>
         in case st of
              None \<Rightarrow> res
            | Some (c, p) \<Rightarrow>
                res\<lparr>ret := int (len - c), ilseq := False,
                    new_src := (if dst = Store then Some (map_option (\<lambda>rest. int (length ws) - int (length rest)) p)
                                else None)\<rparr>))"

definition wcsrtombs :: "cur_locale \<Rightarrow> dest \<Rightarrow> wchar list \<Rightarrow> nat \<Rightarrow> byte conv_result" where
  "wcsrtombs l dst ws len = wcsnrtombs l dst (ws @ [0]) len"

definition MB_LEN_MAX :: nat where "MB_LEN_MAX = 16"

definition wcrtomb :: "cur_locale \<Rightarrow> wchar option \<Rightarrow> int \<times> byte list" where
  "wcrtomb l wc =
     (let r = wcsnrtombs l Store [case wc of None \<Rightarrow> 0 | Some w \<Rightarrow> w] MB_LEN_MAX
      in (if ret r \<noteq> 0 then ret r else 1, if wc = None then [] else out r))"

text \<open>\<open>None\<close> is \<open>WEOF\<close> and \<open>EOF\<close>; as a \<open>size_t\<close> the results -1 and -2 of \<open>mbrtowc\<close> are above 1.\<close>

definition btowc :: "cur_locale \<Rightarrow> int \<Rightarrow> wchar option" where
  "btowc l c =
     (if c = - 1 then None
      else (let (r, wc, _) = mbrtowc l (Some (of_int c, [of_int c])) \<lparr>ps_mask = 0, ps_wc = 0\<rparr>
            in if r = 0 \<or> r = 1 then wc else None))"

definition wctob :: "cur_locale \<Rightarrow> wchar \<Rightarrow> byte option" where
  "wctob l c = (let (r, bs) = wcrtomb l (Some c) in if r = 1 then Some (hd bs) else None)"

end
