(* ===== verification/Utf8_Proofs.thy ===== *)
theory Utf8_Proofs
  imports Utf8
begin

text \<open>
  Properties of the conversions in \<open>Utf8\<close>. The decoder is described on natural numbers: \<open>start_at\<close> is the
  code at label \<open>START\<close> with the marker bit taken out of the number, \<open>utf8_bytes\<close> the shortest encoding of a
  character and \<open>utf8_valid\<close> the characters that are accepted. The proofs show that the bit operations of the
  code compute exactly these, that the state between two calls stays one of \<open>mb_ok\<close>, and that the input may be
  cut anywhere.
\<close>

section \<open>The decoder on numbers\<close>

lemma bit_high: "r < 2 ^ n \<Longrightarrow> n \<le> k \<Longrightarrow> \<not> bit (r :: nat) k"
proof -
  assume "r < 2 ^ n" "n \<le> k"
  then have "r < 2 ^ k" by (meson less_le_trans one_le_numeral power_increasing)
  then show ?thesis by (simp add: bit_iff_odd)
qed

lemma bit_add_pow: "r < 2 ^ n \<Longrightarrow> bit (2 ^ n + r :: nat) k \<longleftrightarrow> k = n \<or> bit r k"
proof -
  assume r: "r < 2 ^ n"
  have "and (2 ^ n) r = 0" by (rule bit_eqI) (use bit_high [OF r] in \<open>auto simp: bit_simps\<close>)
  then have "2 ^ n + r = or (2 ^ n) r" by (rule disjunctive_add_eq_or)
  then show ?thesis by (simp add: bit_simps)
qed

lemma bit_word_of_nat: "bit (of_nat n :: 'a::len word) k \<longleftrightarrow> k < LENGTH('a) \<and> bit n k"
  by (simp add: bit_simps)

lemma strip_marker:
  assumes "r < 2 ^ (j + 1)"
  shows "and (of_nat (2 ^ (j + 1) + r)) (not (push_bit 1 (2 ^ j))) = (of_nat r :: wchar)"
proof (rule bit_word_eqI)
  fix n assume n: "n < LENGTH(32)"
  have p: "push_bit 1 (2 ^ j) = (2 ^ (j + 1) :: wchar)" by (simp add: push_bit_eq_mult)
  have "bit (2 ^ (j + 1) :: wchar) n \<longleftrightarrow> n = j + 1" using n by (simp only: bit_exp_iff) auto
  then show "bit (and (of_nat (2 ^ (j + 1) + r)) (not (push_bit 1 (2 ^ j))) :: wchar) n = bit (of_nat r :: wchar) n"
    using n bit_high [OF assms, of n] bit_add_pow [OF assms, of n]
    unfolding p bit_and_iff bit_not_iff bit_word_of_nat by auto
qed

lemma test_bit:
  assumes "r < 2 ^ (j + 1)" "j < 32"
  shows "and (of_nat r) (2 ^ j) = (0 :: wchar) \<longleftrightarrow> r < 2 ^ j"
proof
  assume z: "and (of_nat r) (2 ^ j) = (0 :: wchar)"
  have nb: "\<not> bit r j" using arg_cong [OF z, of "\<lambda>w. bit w j"] assms(2) by (simp add: bit_simps)
  show "r < 2 ^ j"
  proof (rule ccontr)
    assume "\<not> r < 2 ^ j"
    then have "r - 2 ^ j < 2 ^ j" "2 ^ j + (r - 2 ^ j) = r" using assms(1) by auto
    then show False using bit_add_pow [of "r - 2 ^ j" j j] nb by simp
  qed
next
  assume "r < 2 ^ j"
  then show "and (of_nat r) (2 ^ j) = (0 :: wchar)"
    using bit_high [of r j] by (intro bit_word_eqI) (auto simp: bit_simps)
qed

text \<open>The decoder at label \<open>START\<close> with \<open>mask\<close> at bit \<open>j\<close>: \<open>r\<close> is the number without the leading marker
  bit.\<close>

definition start_at :: "nat \<Rightarrow> nat \<Rightarrow> byte list \<Rightarrow> outcome" where
  "start_at j r bs = utf8_start (2 ^ j) (of_nat (2 ^ (j + 1) + r)) bs"

definition min_mask :: "nat \<Rightarrow> wchar" where
  "min_mask j = (if j = 11 then 0x80 else drop_bit 5 (2 ^ j))"

lemma start_complete:
  assumes "r < 2 ^ j" "j < 32"
  shows "start_at j r bs = (if utf8_invalid (min_mask j) (of_nat r) then Bad (min_mask j) else Complete (of_nat r) bs)"
proof -
  have r: "r < 2 ^ (j + 1)" using assms(1) by simp
  have "drop_bit 5 (2 ^ j :: wchar) = 0x40 \<longleftrightarrow> j = 11"
  proof
    assume e: "drop_bit 5 (2 ^ j :: wchar) = 0x40"
    have "bit (drop_bit 5 (2 ^ j :: wchar)) 6" unfolding e by simp
    then show "j = 11" by (simp add: bit_simps)
  qed simp
  then show ?thesis unfolding start_at_def
    by (subst utf8_start.simps) (use strip_marker [OF r] test_bit [OF r assms(2)] assms(1) in \<open>simp add: min_mask_def Let_def\<close>)
qed

lemma start_more:
  assumes "2 ^ j \<le> r" "r < 2 ^ (j + 1)" "j < 32"
  shows "start_at j r bs = utf8_continue (2 ^ j) (of_nat r) bs"
  unfolding start_at_def
  by (subst utf8_start.simps) (use strip_marker [OF assms(2)] test_bit [OF assms(2,3)] assms(1) in \<open>simp add: Let_def\<close>)

text \<open>Continuation bytes.\<close>

definition cont_byte :: "byte \<Rightarrow> bool" where
  "cont_byte b \<longleftrightarrow> and b 0xc0 = 0x80"

lemma cont_byte_range: "cont_byte b \<longleftrightarrow> 128 \<le> unat b \<and> unat b < 192"
proof -
  have "cont_byte b \<longleftrightarrow> unat b div 64 = 2" using and_mask_c0 [of b] by (simp add: cont_byte_def word_unat_eq_iff)
  then show ?thesis by auto
qed

lemma start_cont:
  assumes "cont_byte b" "2 ^ j \<le> r"
  shows "utf8_continue (2 ^ j) (of_nat r) (b # bs) = start_at (j + 5) ((r - 2 ^ j) * 64 + (unat b - 128)) bs"
proof -
  have b: "unat (and b 0x3f) = unat b - 128"
  proof -
    obtain c where c: "unat b = c + 64 * 2" "c < 64"
      using assms(1) unfolding cont_byte_range by (intro that [of "unat b - 128"]) auto
    then show ?thesis unfolding and_mask6 c(1) mod_mult_self2 by simp
  qed
  have "push_bit 6 (of_nat r :: wchar) + ucast (and b 0x3f) = of_nat (r * 64 + (unat b - 128))"
  proof -
    have "ucast (and b 0x3f) = (of_nat (unat (and b 0x3f)) :: wchar)" by (rule of_nat_unat [symmetric])
    then show ?thesis unfolding b by (simp add: push_bit_eq_mult)
  qed
  moreover have "r * 64 + (unat b - 128) = 2 ^ (j + 5 + 1) + ((r - 2 ^ j) * 64 + (unat b - 128))"
    using assms(2) by (simp add: diff_mult_distrib power_add)
  moreover have "push_bit 5 (2 ^ j) = (2 ^ (j + 5) :: wchar)" by (simp add: push_bit_eq_mult power_add)
  ultimately show ?thesis using assms(1) by (simp add: start_at_def cont_byte_def)
qed

lemma start_bad: "\<not> cont_byte b \<Longrightarrow> utf8_continue m wc (b # bs) = Bad m"
  by (simp add: cont_byte_def)

section \<open>The sequences of UTF-8\<close>

text \<open>The number that continuation bytes add digits to.\<close>

fun cval :: "nat \<Rightarrow> byte list \<Rightarrow> nat" where
  "cval r [] = r"
| "cval r (b # bs) = cval (r * 64 + (unat b - 128)) bs"

lemma cval_bound: "list_all cont_byte cs \<Longrightarrow> r < m \<Longrightarrow> cval r cs < m * 64 ^ length cs"
proof (induction cs arbitrary: r m)
  case (Cons b cs)
  then have "unat b - 128 < 64" by (auto simp: cont_byte_range)
  moreover have "r * 64 + 64 \<le> m * 64" using Cons.prems(2) by (metis Suc_leI mult_Suc mult_le_mono1 add.commute)
  ultimately have "r * 64 + (unat b - 128) < m * 64" by linarith
  then show ?case using Cons.IH [of "r * 64 + (unat b - 128)" "m * 64"] Cons.prems(1) by (simp add: ac_simps)
qed simp

lemma pow_split: "a = 6 + b \<Longrightarrow> (2 :: nat) ^ a = 64 * 2 ^ b"
  by (simp add: power_add)

lemma digit_split: "A * 64 + c = B * 64 + r \<Longrightarrow> c < 64 \<Longrightarrow> r mod 64 = c \<and> A = B + r div (64 :: nat)"
proof -
  assume eq: "A * 64 + c = B * 64 + r" and c: "c < 64"
  have "c = (A * 64 + c) mod 64" "A = (A * 64 + c) div 64" using c by simp_all
  then show ?thesis unfolding eq by (metis div_mult_self3 mod_mult_self3 zero_neq_numeral)
qed

lemma start_run:
  "\<lbrakk>list_all cont_byte cs; length cs \<le> j; r0 < 2 ^ (j - length cs); j + 5 * length cs < 32;
    r + 2 ^ (j + 1 - length cs) = 2 ^ (j + 1) + r0\<rbrakk> \<Longrightarrow>
   start_at j r (cs @ rest) = start_at (j + 5 * length cs) (cval r0 cs) rest"
proof (induction cs arbitrary: j r r0)
  case (Cons b cs)
  let ?k = "length cs"
  have b: "cont_byte b" "128 \<le> unat b" "unat b < 192" using Cons.prems(1) by (auto simp: cont_byte_range)
  have kj: "Suc ?k \<le> j" using Cons.prems(2) by simp
  have e: "r + 2 ^ (j - ?k) = 2 ^ (j + 1) + r0" using Cons.prems(5) by simp
  have le: "(2 :: nat) ^ (j - ?k) \<le> 2 ^ j" by (intro power_increasing) auto
  have half: "(2 :: nat) ^ (j - ?k) = 2 * 2 ^ (j - Suc ?k)" using kj by (simp flip: power_Suc add: Suc_diff_Suc)
  have r0: "r0 < 2 ^ (j - Suc ?k)" using Cons.prems(3) by simp
  have r: "2 ^ j \<le> r" "r < 2 ^ (j + 1)" using e le r0 half by auto
  define c where "c = unat b - 128"
  have c: "c < 64" using b by (simp add: c_def)
  have "start_at j r ((b # cs) @ rest) = start_at (j + 5) ((r - 2 ^ j) * 64 + c) (cs @ rest)"
    using start_more [OF r] start_cont [OF b(1) r(1)] Cons.prems(4) by (simp add: c_def)
  also have "\<dots> = start_at (j + 5 + 5 * ?k) (cval (r0 * 64 + c) cs) rest"
  proof (rule Cons.IH)
    show "list_all cont_byte cs" "?k \<le> j + 5" "j + 5 + 5 * ?k < 32" using Cons.prems by auto
    have "(2 :: nat) ^ (j + 5 - ?k) = 64 * 2 ^ (j - Suc ?k)"
      by (rule pow_split) (use kj in simp)
    then show "r0 * 64 + c < 2 ^ (j + 5 - ?k)" using r0 c by simp
    have "(2 :: nat) ^ (j + 5 + 1 - ?k) = 64 * 2 ^ (j - ?k)"
      by (rule pow_split) (use kj in simp)
    moreover have "(2 :: nat) ^ (j + 5 + 1) = 64 * 2 ^ j" by (simp add: power_add)
    ultimately show "(r - 2 ^ j) * 64 + c + 2 ^ (j + 5 + 1 - ?k) = 2 ^ (j + 5 + 1) + (r0 * 64 + c)"
      using e r(1) by (simp add: diff_mult_distrib)
  qed
  finally show ?case by (simp add: c_def add.assoc)
qed simp

lemma start_sound:
  "\<lbrakk>start_at j r bs = Complete wc rest; j + 5 * K = 36; 1 \<le> K; K \<le> 6; r + 2 ^ (j + 1 - K) < 2 ^ (j + 1)\<rbrakk> \<Longrightarrow>
   \<exists>cs r0. bs = cs @ rest \<and> list_all cont_byte cs \<and> length cs < K \<and>
     r + 2 ^ (j + 1 - length cs) = 2 ^ (j + 1) + r0 \<and> r0 < 2 ^ (j - length cs) \<and>
     wc = of_nat (cval r0 cs) \<and> \<not> utf8_invalid (min_mask (j + 5 * length cs)) wc"
proof (induction bs arbitrary: j r K)
  case Nil
  then have j: "j < 32" by simp
  show ?case
  proof (cases "r < 2 ^ j")
    case True
    then show ?thesis using Nil.prems start_complete [OF True j, of "[]"]
      by (intro exI [of _ "[]"] exI [of _ r]) (auto split: if_splits)
  next
    case False
    then show ?thesis using Nil.prems start_more [of j r "[]"] j by simp
  qed
next
  case (Cons b bs)
  then have j: "j < 32" "6 \<le> j" by auto
  show ?case
  proof (cases "r < 2 ^ j")
    case True
    then show ?thesis using Cons.prems start_complete [OF True j(1), of "b # bs"]
      by (intro exI [of _ "[]"] exI [of _ r]) (auto split: if_splits)
  next
    case False
    then have r: "2 ^ j \<le> r" "r < 2 ^ (j + 1)" using Cons.prems(5) by auto
    then have cont: "utf8_continue (2 ^ j) (of_nat r) (b # bs) = Complete wc rest"
      using Cons.prems(1) start_more [OF r j(1)] by simp
    then have b: "cont_byte b" using start_bad by fastforce
    define c where "c = unat b - 128"
    have c: "c < 64" using b by (auto simp: c_def cont_byte_range)
    have K: "2 \<le> K"
    proof (rule ccontr)
      assume "\<not> 2 \<le> K"
      then have "K = 1" using Cons.prems(3) by simp
      then show False using Cons.prems(5) r(1) by simp
    qed
    have p1: "(2 :: nat) ^ (j + 5 + 1) = 64 * 2 ^ j" by (simp add: power_add)
    have pK: "(2 :: nat) ^ (j + 5 + 1 - (K - 1)) = 64 * 2 ^ (j + 1 - K)"
      by (rule pow_split) (use K Cons.prems(4) j in simp)
    have st: "start_at (j + 5) ((r - 2 ^ j) * 64 + c) bs = Complete wc rest"
      using cont start_cont [OF b r(1), of bs] by (simp add: c_def)
    have "(r - 2 ^ j) + 2 ^ (j + 1 - K) < 2 ^ j" using Cons.prems(5) r(1) by simp
    then have "((r - 2 ^ j) + 2 ^ (j + 1 - K) + 1) * 64 \<le> 2 ^ j * 64" by (intro mult_le_mono1) simp
    then have less: "(r - 2 ^ j) * 64 + c + 2 ^ (j + 5 + 1 - (K - 1)) < 2 ^ (j + 5 + 1)" unfolding p1 pK using c by (simp add: add_mult_distrib)
    have jK: "j + 5 + 5 * (K - 1) = 36" "1 \<le> K - 1" "K - 1 \<le> 6" using K Cons.prems(2,4) by auto
    obtain cs r0 where ih: "bs = cs @ rest" "list_all cont_byte cs" "length cs < K - 1"
      "(r - 2 ^ j) * 64 + c + 2 ^ (j + 5 + 1 - length cs) = 2 ^ (j + 5 + 1) + r0" "r0 < 2 ^ (j + 5 - length cs)"
      "wc = of_nat (cval r0 cs)" "\<not> utf8_invalid (min_mask (j + 5 + 5 * length cs)) wc"
      using Cons.IH [OF st jK less] by blast
    let ?k = "length cs"
    have k: "Suc ?k \<le> j" using ih(3) Cons.prems(4) j by simp
    have p2: "(2 :: nat) ^ (j + 5 + 1 - ?k) = 64 * 2 ^ (j - ?k)"
      by (rule pow_split) (use k in simp)
    have p3: "(2 :: nat) ^ (j + 5 - ?k) = 64 * 2 ^ (j - Suc ?k)"
      by (rule pow_split) (use k in simp)
    have eq: "((r - 2 ^ j) + 2 ^ (j - ?k)) * 64 + c = 2 ^ j * 64 + r0" using ih(4) unfolding p1 p2 by (simp add: add_mult_distrib)
    have r0c: "r0 mod 64 = c" and r0d: "(r - 2 ^ j) + 2 ^ (j - ?k) = 2 ^ j + r0 div 64"
      using digit_split [OF eq c] by auto
    have "r0 div 64 * 64 + c = r0" using r0c by (metis div_mult_mod_eq)
    moreover have "r0 div 64 < 2 ^ (j - Suc ?k)" using ih(5) unfolding p3 by (simp add: less_mult_imp_div_less mult.commute)
    moreover have "r + 2 ^ (j - ?k) = 2 ^ (j + 1) + r0 div 64" using r0d r(1) by simp
    ultimately show ?thesis using ih b K
      by (intro exI [of _ "b # cs"] exI [of _ "r0 div 64"]) (auto simp: c_def [symmetric] ac_simps)
  qed
qed

text \<open>The encoding of a number below \<open>2 ^ 31\<close>: how many continuation bytes it has, and its bytes.\<close>

definition conts :: "nat \<Rightarrow> nat" where
  "conts v = (if v < 2 ^ 7 then 0 else if v < 2 ^ 11 then 1 else if v < 2 ^ 16 then 2 else if v < 2 ^ 21 then 3
     else if v < 2 ^ 26 then 4 else 5)"

fun cbytes :: "nat \<Rightarrow> nat \<Rightarrow> byte list" where
  "cbytes 0 v = []"
| "cbytes (Suc k) v = cbytes k (v div 64) @ [of_nat (128 + v mod 64)]"

definition utf8_bytes :: "nat \<Rightarrow> byte list" where
  "utf8_bytes v =
     (if v < 128 then [of_nat v]
      else of_nat (256 - 2 ^ (7 - conts v) + v div 64 ^ conts v) # cbytes (conts v) v)"

definition utf8_valid :: "nat \<Rightarrow> bool" where
  "utf8_valid v \<longleftrightarrow> v < 2 ^ 31 \<and> v \<noteq> 0xfffe \<and> v \<noteq> 0xffff \<and> \<not> (0xd800 \<le> v \<and> v < 0xe000)"

lemma cval_append: "cval r (cs @ ds) = cval (cval r cs) ds"
  by (induction cs arbitrary: r) auto

lemma unat_of_small: "n < 2 ^ LENGTH('a) \<Longrightarrow> unat (of_nat n :: 'a::len word) = n"
  by (simp add: unat_of_nat take_bit_nat_eq_self)

lemma unat_digit: "unat (of_nat (128 + v mod 64) :: byte) = 128 + v mod 64"
proof -
  have "v mod 64 < 64" by simp
  then have "128 + v mod 64 < 2 ^ LENGTH(8)" by simp
  then show ?thesis by (rule unat_of_small)
qed

lemma cbytes_cont: "list_all cont_byte (cbytes k v) \<and> length (cbytes k v) = k"
proof (induction k arbitrary: v)
  case (Suc k)
  have "cont_byte (of_nat (128 + v mod 64))" unfolding cont_byte_range unat_digit by simp
  then show ?case using Suc by simp
qed simp

lemma cval_cbytes: "cval (v div 64 ^ k) (cbytes k v) = v"
proof (induction k arbitrary: v)
  case (Suc k)
  have "cval (v div 64 ^ Suc k) (cbytes (Suc k) v) = cval (v div 64 div 64 ^ k) (cbytes k (v div 64)) * 64 + (128 + v mod 64 - 128)"
    using unat_digit [of v] by (simp add: cval_append div_mult2_eq)
  then show ?case using Suc [of "v div 64"] by simp
qed simp

lemma cbytes_cval: "list_all cont_byte cs \<Longrightarrow> cbytes (length cs) (cval r cs) = cs \<and> cval r cs div 64 ^ length cs = r"
proof (induction cs rule: rev_induct)
  case (snoc b cs)
  let ?c = "unat b - 128" and ?v = "cval r cs"
  have b: "cont_byte b" using snoc.prems by simp
  then have c: "?c < 64" "128 + ?c = unat b" by (auto simp: cont_byte_range)
  have dm: "(?v * 64 + ?c) div 64 = ?v" "(?v * 64 + ?c) mod 64 = ?c" using c(1) by simp_all
  have "of_nat (128 + ?c) = b" unfolding c(2) by simp
  moreover have "(?v * 64 + ?c) div 64 ^ Suc (length cs) = ?v div 64 ^ length cs"
    unfolding power_Suc div_mult2_eq dm by (rule refl)
  moreover have "?c mod 64 = ?c" using c(1) by simp
  ultimately show ?case using snoc by (simp add: cval_append dm del: power_Suc)
qed simp

lemma utf8_invalid_char:
  assumes "v < 2 ^ 31"
  shows "utf8_invalid m (of_nat v) \<longleftrightarrow> of_nat v < m \<or> \<not> utf8_valid v"
proof -
  let ?w = "of_nat v :: wchar"
  have w: "unat ?w = v" using assms by (intro unat_of_small) simp
  have sub: "?w - c < d \<longleftrightarrow> unat c \<le> v \<and> v - unat c < unat d" if "unat c + unat d \<le> 2 ^ 31" for c d :: wchar
  proof (cases "unat c \<le> v")
    case True
    then have "unat (?w - c) = v - unat c" by (simp add: unat_sub word_le_nat_alt w)
    then show ?thesis using True by (simp add: word_less_nat_alt)
  next
    case False
    then have "unat (?w - c) = v + 2 ^ 32 - unat c" using unat_sub_if' [of ?w c] w by (simp add: word_size)
    then have "2 ^ 31 \<le> unat (?w - c)" using False that by simp
    then show ?thesis using False that by (simp add: word_less_nat_alt)
  qed
  have "?w - 0xfffe < 2 \<longleftrightarrow> v = 0xfffe \<or> v = 0xffff" by (subst sub) auto
  moreover have "?w - 0xd800 < 0xe000 - 0xd800 \<longleftrightarrow> 0xd800 \<le> v \<and> v < 0xe000" by (subst sub) auto
  ultimately show ?thesis using assms by (auto simp: utf8_invalid_def utf8_valid_def)
qed

lemma five_cases:
  assumes "1 \<le> k" "k \<le> 5"
  obtains "k = 1" | "k = 2" | "k = 3" | "k = 4" | "k = (5 :: nat)"
  using assms by linarith

definition conts_min :: "nat \<Rightarrow> nat" where
  "conts_min k = (if k = 1 then 128 else 2 ^ (5 * k + 1))"

lemma min_mask_conts:
  assumes "1 \<le> k" "k \<le> 5"
  shows "unat (min_mask (6 + 5 * k)) = conts_min k"
  using assms by (rule five_cases) (simp_all add: min_mask_def conts_min_def)

lemma conts_range: "1 \<le> k \<Longrightarrow> k \<le> 5 \<Longrightarrow> v < 2 ^ 31 \<Longrightarrow> conts v = k \<longleftrightarrow> conts_min k \<le> v \<and> v < 2 ^ (6 + 5 * k)"
  by (erule (1) five_cases) (auto simp: conts_def conts_min_def)

lemma conts_bounds: "128 \<le> v \<Longrightarrow> 1 \<le> conts v \<and> conts v \<le> 5"
  by (simp add: conts_def)

lemma valid_test:
  assumes "1 \<le> k" "k \<le> 5" "v < 2 ^ (6 + 5 * k)"
  shows "utf8_invalid (min_mask (6 + 5 * k)) (of_nat v) \<longleftrightarrow> \<not> (conts v = k \<and> utf8_valid v)"
proof -
  have "(2 :: nat) ^ (6 + 5 * k) \<le> 2 ^ 31" using assms(2) by (intro power_increasing) auto
  then have v: "v < 2 ^ 31" using assms(3) by linarith
  then have "unat (of_nat v :: wchar) = v" by (intro unat_of_small) simp
  then have "of_nat v < min_mask (6 + 5 * k) \<longleftrightarrow> v < conts_min k"
    by (simp add: word_less_nat_alt min_mask_conts [OF assms(1,2)])
  then show ?thesis unfolding utf8_invalid_char [OF v] conts_range [OF assms(1,2) v] using assms(3) by (simp add: not_le)
qed

text \<open>The first byte of a sequence with \<open>k\<close> continuation bytes.\<close>

lemma lead_byte:
  fixes b :: byte
  assumes "1 \<le> k" "k \<le> 5" "d < 2 ^ (6 - k)"
  shows "unat (of_nat (256 - 2 ^ (7 - k) + d) :: byte) = 256 - 2 ^ (7 - k) + d" "192 + d \<le> 256 - 2 ^ (7 - k) + d"
    "256 - 2 ^ (7 - k) + d \<le> 253" "256 - 2 ^ (7 - k) + d - 128 + 2 ^ (7 - k) = 2 ^ 7 + d"
proof -
  show s: "192 + d \<le> 256 - 2 ^ (7 - k) + d" "256 - 2 ^ (7 - k) + d \<le> 253" "256 - 2 ^ (7 - k) + d - 128 + 2 ^ (7 - k) = 2 ^ 7 + d"
    using assms(3) by (cases rule: five_cases [OF assms(1,2)]; simp)+
  show "unat (of_nat (256 - 2 ^ (7 - k) + d) :: byte) = 256 - 2 ^ (7 - k) + d"
    using s(2) by (intro unat_of_small) simp
qed

definition lead_ok :: "byte \<Rightarrow> bool" where
  "lead_ok b \<longleftrightarrow> b - 0xc0 < 0xfe - 0xc0 \<and> b \<noteq> 0xc0 \<and> b \<noteq> 0xc1"

lemma lead_ok_range: "lead_ok b \<longleftrightarrow> 194 \<le> unat b \<and> unat b \<le> 253"
proof (cases "192 \<le> unat b")
  case True
  then have "unat (b - 0xc0) = unat b - 192" by (simp add: unat_sub word_le_nat_alt)
  then show ?thesis using True by (auto simp: lead_ok_def word_less_nat_alt word_unat_eq_iff)
next
  case False
  then have "unat (b - 0xc0) = unat b + 256 - 192" using unat_sub_if' [of b "0xc0"] by simp
  then show ?thesis using False by (simp add: lead_ok_def word_less_nat_alt)
qed

lemma utf8_char_start:
  assumes "128 \<le> unat b"
  shows "utf8_char b bs = (if lead_ok b then start_at 6 (unat b - 128) bs else Bad 0x40)"
proof -
  have "2 ^ (6 + 1) + (unat b - 128) = unat b" using assms by simp
  moreover have "of_nat (unat b) = (ucast b :: wchar)" by (rule of_nat_unat)
  moreover have "\<not> b < 0x80" using assms by (simp add: word_less_nat_alt)
  ultimately show ?thesis unfolding utf8_char_def lead_ok_def start_at_def by simp
qed

lemma utf8_char_ascii: "unat b < 128 \<Longrightarrow> utf8_char b bs = Complete (of_nat (unat b)) bs"
  by (simp add: utf8_char_def word_less_nat_alt)

lemma utf8_char_sound:
  assumes "utf8_char b bs = Complete wc rest"
  shows "\<exists>v. utf8_valid v \<and> wc = of_nat v \<and> b # bs = utf8_bytes v @ rest"
proof (cases "unat b < 128")
  case True
  then show ?thesis using assms by (intro exI [of _ "unat b"]) (auto simp: utf8_char_ascii utf8_valid_def utf8_bytes_def)
next
  case False
  have st: "lead_ok b" "start_at 6 (unat b - 128) bs = Complete wc rest"
    using assms False by (auto simp: utf8_char_start split: if_splits)
  then have b: "194 \<le> unat b" "unat b \<le> 253" by (auto simp: lead_ok_range)
  then have "unat b - 128 + 2 ^ (6 + 1 - 6) < 2 ^ (6 + 1)" by simp
  then obtain cs r0 where cs: "bs = cs @ rest" "list_all cont_byte cs" "length cs < 6"
    "unat b - 128 + 2 ^ (6 + 1 - length cs) = 2 ^ (6 + 1) + r0" "r0 < 2 ^ (6 - length cs)"
    "wc = of_nat (cval r0 cs)" "\<not> utf8_invalid (min_mask (6 + 5 * length cs)) wc"
    using start_sound [OF st(2), of 6] by auto
  let ?k = "length cs" and ?v = "cval r0 cs"
  have "?k \<noteq> 0"
  proof
    assume "?k = 0"
    then show False using cs(4,5) b by simp
  qed
  then have k: "1 \<le> ?k" "?k \<le> 5" using cs(3) by linarith+
  have "?v < 2 ^ (6 - ?k) * 64 ^ ?k" by (rule cval_bound [OF cs(2,5)])
  also have "\<dots> = 2 ^ (6 + 5 * ?k)" using k by (rule five_cases) simp_all
  finally have v: "?v < 2 ^ (6 + 5 * ?k)" .
  have val: "conts ?v = ?k" "utf8_valid ?v" using cs(7) valid_test [OF k v] unfolding cs(6) by auto
  have "128 \<le> ?v" using val(1) k by (auto simp: conts_def split: if_splits)
  moreover have "256 - 2 ^ (7 - ?k) + r0 = unat b" using cs(4) b lead_byte(4) [OF k cs(5)] by simp
  moreover have "cbytes ?k ?v = cs" "?v div 64 ^ ?k = r0" using cbytes_cval [OF cs(2), of r0] by auto
  ultimately have "utf8_bytes ?v = b # cs" by (simp add: utf8_bytes_def val(1))
  then show ?thesis using val(2) cs(1,6) by (intro exI [of _ ?v]) simp
qed

lemma utf8_char_complete:
  assumes "utf8_valid v" "b # bs = utf8_bytes v @ rest"
  shows "utf8_char b bs = Complete (of_nat v) rest"
proof (cases "v < 128")
  case True
  then have "b = of_nat v" "bs = rest" using assms(2) by (simp_all add: utf8_bytes_def)
  moreover have "unat (of_nat v :: byte) = v" using True by (intro unat_of_small) simp
  ultimately show ?thesis using True by (simp add: utf8_char_ascii)
next
  case False
  let ?k = "conts v" and ?d = "v div 64 ^ conts v"
  have k: "1 \<le> ?k" "?k \<le> 5" using conts_bounds [of v] False by auto
  have v: "v < 2 ^ 31" using assms(1) by (simp add: utf8_valid_def)
  have r: "conts_min ?k \<le> v" "v < 2 ^ (6 + 5 * ?k)" using conts_range [OF k v] by auto
  have "v < 2 ^ (6 - ?k) * 64 ^ ?k"
  proof -
    have "(2 :: nat) ^ (6 - ?k) * 64 ^ ?k = 2 ^ (6 + 5 * ?k)" using k by (rule five_cases) simp_all
    then show ?thesis using r(2) by simp
  qed
  then have d: "?d < 2 ^ (6 - ?k)" by (simp add: less_mult_imp_div_less)
  note lead = lead_byte [OF k d]
  have b: "b = of_nat (256 - 2 ^ (7 - ?k) + ?d)" "bs = cbytes ?k v @ rest"
    using assms(2) False by (simp_all add: utf8_bytes_def)
  have ub: "unat b = 256 - 2 ^ (7 - ?k) + ?d" unfolding b(1) by (rule lead(1))
  have "2 \<le> ?d" if "?k = 1" using r(1) that by (simp add: conts_min_def)
  moreover have "224 \<le> 256 - 2 ^ (7 - ?k) + ?d" if "?k \<noteq> 1" using that by (cases rule: five_cases [OF k]) simp_all
  ultimately have "194 \<le> unat b" using ub lead(2) by (cases "?k = 1") auto
  then have ok: "lead_ok b" "128 \<le> unat b" using ub lead(3) by (simp_all add: lead_ok_range)
  have "start_at 6 (unat b - 128) (cbytes ?k v @ rest) = start_at (6 + 5 * ?k) (cval ?d (cbytes ?k v)) rest"
    using start_run [of "cbytes ?k v" 6 ?d "unat b - 128" rest] cbytes_cont [of ?k v] k d lead(4) ub by simp
  also have "\<dots> = Complete (of_nat v) rest"
    using start_complete [OF r(2)] valid_test [OF k r(2)] assms(1) k by (simp add: cval_cbytes)
  finally show ?thesis using ok b(2) by (simp add: utf8_char_start)
qed

section \<open>The encoder\<close>

lemma unat_drop: "unat (drop_bit n w :: 'a::len word) = unat w div 2 ^ n"
proof -
  have "drop_bit n (unat w) < 2 ^ LENGTH('a)"
    by (rule le_less_trans [OF _ unsigned_less [of w]]) (simp add: drop_bit_eq_div)
  moreover have "unat (drop_bit n w) = drop_bit n (unat w)"
    unfolding unsigned_drop_bit_eq using unsigned_less [of w] by (simp add: take_bit_nat_eq_self)
  ultimately show ?thesis by (simp add: drop_bit_eq_div [of n "unat w"])
qed

lemma utf8_len_digits: "unat w < 2 ^ (5 * k + 5) \<Longrightarrow> k = 0 \<or> 2 ^ (5 * k) \<le> unat w \<Longrightarrow> utf8_len w = k + 1"
proof (induction k arbitrary: w)
  case 0
  then have "drop_bit 5 w = 0" by (simp add: word_unat_eq_iff unat_drop)
  then show ?case by (subst utf8_len.simps) simp
next
  case (Suc k)
  let ?u = "unat w div 32"
  have d: "unat (drop_bit 5 w) = ?u" by (simp add: unat_drop)
  have p: "(2 :: nat) ^ (5 * Suc k) = 32 * 2 ^ (5 * k)" "(2 :: nat) ^ (5 * Suc k + 5) = 32 * 2 ^ (5 * k + 5)"
    by (simp_all add: power_add)
  have "unat w < 2 ^ (5 * k + 5) * 32" using Suc.prems(1) unfolding p by simp
  then have u1: "?u < 2 ^ (5 * k + 5)" by (rule less_mult_imp_div_less)
  have "2 ^ (5 * k) * 32 \<le> unat w" using Suc.prems(2) unfolding p by simp
  then have u2: "2 ^ (5 * k) \<le> ?u" using div_le_mono [of "2 ^ (5 * k) * 32" "unat w" 32] by simp
  have "0 < (2 :: nat) ^ (5 * k)" by simp
  from this u2 have "0 < ?u" by (rule less_le_trans)
  then have "drop_bit 5 w \<noteq> 0" by (metis d less_numeral_extra(3) unat_0)
  then show ?case using Suc.IH [of "drop_bit 5 w"] u1 u2 unfolding d by (subst utf8_len.simps) simp
qed

lemma low_digit: "v < 2 ^ 32 \<Longrightarrow> or (ucast (and (of_nat v :: wchar) 0x3f)) 0x80 = (of_nat (128 + v mod 64) :: byte)"
proof -
  assume v: "v < 2 ^ 32"
  have "and (of_nat v :: wchar) 0x3f = of_nat (and v 63)" by (simp add: of_nat_and_eq)
  also have "and v 63 = v mod 64"
  proof -
    have "and v 63 = take_bit 6 v" by (simp add: take_bit_eq_mask mask_eq_exp_minus_1)
    then show ?thesis by (simp add: take_bit_eq_mod)
  qed
  finally have "ucast (and (of_nat v :: wchar) 0x3f) = (of_nat (v mod 64) :: byte)"
    by (simp add: word_unat_eq_iff unsigned_ucast_eq unat_of_small take_bit_nat_eq_self)
  then have "or (ucast (and (of_nat v :: wchar) 0x3f)) 0x80 = (of_nat (or (v mod 64) 128) :: byte)"
    by (simp add: of_nat_or_eq)
  also have "or (v mod 64) 128 = 128 + v mod 64"
  proof -
    have "v mod 64 < 2 ^ 7" by (rule less_le_trans [of _ 64]) simp_all
    then show ?thesis
      using bit_add_pow [of 0 7] bit_add_pow [of "v mod 64" 7] by (intro bit_eqI) (auto simp: bit_or_iff)
  qed
  finally show ?thesis .
qed

lemma utf8_fill_bytes:
  "v < 2 ^ 32 \<Longrightarrow> utf8_fill k (of_nat v) m acc = (((\<lambda>m. or (drop_bit 1 m) 0x80) ^^ k) m, cbytes k v @ acc)"
proof (induction k arbitrary: v m acc)
  case (Suc k)
  have "drop_bit 6 (of_nat v :: wchar) = of_nat (v div 64)"
    using Suc.prems by (simp add: word_unat_eq_iff unat_drop unat_of_small)
  then show ?case using Suc.IH [of "v div 64"] Suc.prems low_digit [OF Suc.prems]
    by (simp add: funpow_swap1 [of "\<lambda>m. or (drop_bit (Suc 0) m) 128"])
qed simp

lemma cbytes_Cons: "cbytes (Suc k) v = of_nat (128 + v div 64 ^ k mod 64) # cbytes k v"
proof (induction k arbitrary: v)
  case (Suc k)
  show ?case using Suc [of "v div 64"] by (simp add: div_mult2_eq)
qed simp

lemma lead_or_table:
  "list_all (\<lambda>k. list_all (\<lambda>d. or (of_nat (128 + d)) (push_bit 1 (((\<lambda>m. or (drop_bit 1 m) 0x80) ^^ (k + 1)) 0x80)) =
     (of_nat (256 - 2 ^ (7 - k) + d) :: byte)) [0..<2 ^ (6 - k)]) [1, 2, 3, 4, 5]"
  by code_simp

lemma lead_or:
  assumes "1 \<le> k" "k \<le> 5" "d < 2 ^ (6 - k)"
  shows "or (of_nat (128 + d)) (push_bit 1 (((\<lambda>m. or (drop_bit 1 m) 0x80) ^^ (k + 1)) 0x80)) = (of_nat (256 - 2 ^ (7 - k) + d) :: byte)"
proof -
  from assms have "k \<in> set [1, 2, 3, 4, 5]" by auto
  moreover from assms have "d \<in> set [0..<2 ^ (6 - k)]" by simp
  ultimately show ?thesis using lead_or_table unfolding list_all_iff by blast
qed

lemma conts_high: "128 \<le> v \<Longrightarrow> v < 2 ^ 31 \<Longrightarrow> v div 64 ^ conts v < 2 ^ (6 - conts v)"
  by (simp add: conts_def div_less_iff_less_mult)

lemma utf8_len_conts:
  assumes "128 \<le> v" "v < 2 ^ 31"
  shows "utf8_len (drop_bit 1 (of_nat v)) = conts v + 1"
proof (rule utf8_len_digits)
  have u: "unat (drop_bit 1 (of_nat v :: wchar)) = v div 2" using assms by (simp add: unat_drop unat_of_small)
  show "unat (drop_bit 1 (of_nat v :: wchar)) < 2 ^ (5 * conts v + 5)" unfolding u using assms by (simp add: conts_def div_less_iff_less_mult)
  show "conts v = 0 \<or> 2 ^ (5 * conts v) \<le> unat (drop_bit 1 (of_nat v :: wchar))"
    unfolding u using assms by (simp add: conts_def less_eq_div_iff_mult_less_eq)
qed

lemma utf8_put_bytes:
  assumes "128 \<le> v" "v < 2 ^ 31"
  shows "utf8_put (of_nat v) = utf8_bytes v"
proof -
  let ?k = "conts v"
  let ?d = "v div 64 ^ ?k"
  have k: "1 \<le> ?k" "?k \<le> 5" using conts_bounds [OF assms(1)] by auto
  have d: "?d < 2 ^ (6 - ?k)" by (rule conts_high [OF assms])
  have "(2 :: nat) ^ (6 - ?k) \<le> 2 ^ 6" by (rule power_increasing) simp_all
  then have "?d < 64" using d by simp
  then have m: "?d mod 64 = ?d" by simp
  have v: "v < 2 ^ 32" using assms by simp
  have "utf8_fill (Suc ?k) (of_nat v) 0x80 [] =
    (((\<lambda>m. or (drop_bit 1 m) 0x80) ^^ Suc ?k) 0x80, of_nat (128 + ?d) # cbytes ?k v)"
    using utf8_fill_bytes [OF v, of "Suc ?k" "0x80" "[]"] unfolding cbytes_Cons m by simp
  then show ?thesis
    using lead_or [OF k d] assms utf8_len_conts [OF assms] by (simp add: utf8_put_def utf8_bytes_def)
qed

lemma length_utf8_bytes: "length (utf8_bytes v) = conts v + 1"
  using cbytes_cont [of "conts v" v] by (auto simp: utf8_bytes_def conts_def)

lemma utf8_bytes_nonempty: "utf8_bytes v \<noteq> []"
  using length_utf8_bytes [of v] by auto

abbreviation utf8_text :: "nat list \<Rightarrow> byte list" where
  "utf8_text vs \<equiv> concat (map utf8_bytes vs)"

lemma utf8_char_valid: "utf8_char b bs = Complete wc rest \<longleftrightarrow> (\<exists>v. utf8_valid v \<and> wc = of_nat v \<and> b # bs = utf8_bytes v @ rest)"
  using utf8_char_sound utf8_char_complete by blast

lemma of_nat_char_eq: "utf8_valid v \<Longrightarrow> (of_nat v :: wchar) = 0 \<longleftrightarrow> v = 0"
proof -
  assume "utf8_valid v"
  then have "unat (of_nat v :: wchar) = v" by (simp add: utf8_valid_def unat_of_small)
  then show ?thesis by (simp add: word_unat_eq_iff)
qed

lemma utf8_run_char:
  assumes "utf8_valid v"
  shows "utf8_run (Suc c) (utf8_bytes v @ rest) ws =
    (if v = 0 then (ws @ [0], Nul (Suc c)) else utf8_run c rest (ws @ [of_nat v]))"
proof -
  obtain b bs where b: "utf8_bytes v @ rest = b # bs" using utf8_bytes_nonempty [of v] by (cases "utf8_bytes v") auto
  with assms have "utf8_char b bs = Complete (of_nat v) rest" by (intro utf8_char_complete) auto
  then show ?thesis using assms by (simp add: b of_nat_char_eq)
qed

lemma utf8_run_text:
  "list_all (\<lambda>v. utf8_valid v \<and> v \<noteq> 0) vs \<Longrightarrow> length vs \<le> c \<Longrightarrow>
   utf8_run c (utf8_text vs @ rest) ws = utf8_run (c - length vs) rest (ws @ map of_nat vs)"
proof (induction vs arbitrary: c ws)
  case (Cons v vs)
  then obtain c' where c: "c = Suc c'" by (cases c) auto
  with Cons.IH [of c' "ws @ [of_nat v]"] Cons.prems show ?case by (simp add: utf8_run_char)
qed simp

section \<open>Conversion in pieces\<close>

definition then_feed :: "outcome \<Rightarrow> byte list \<Rightarrow> outcome" where
  "then_feed oc ys =
     (case oc of Bad m \<Rightarrow> Bad m | Complete wc rest \<Rightarrow> Complete wc (rest @ ys) | Incomplete m wc \<Rightarrow> utf8_continue m wc ys)"

lemma utf8_feed:
  "utf8_start m wc (xs @ ys) = then_feed (utf8_start m wc xs) ys"
  "utf8_continue m wc (xs @ ys) = then_feed (utf8_continue m wc xs) ys"
proof (induction m wc xs and m wc xs rule: utf8_start_utf8_continue.induct)
  case (1 m wc bs)
  then show ?case by (auto simp: utf8_start.simps then_feed_def Let_def)
qed (auto simp: then_feed_def)

lemma utf8_char_feed: "utf8_char b (xs @ ys) = then_feed (utf8_char b xs) ys"
  by (simp add: utf8_char_def utf8_feed then_feed_def)

text \<open>What a stopped run does with more input.\<close>

definition run_more :: "wchar list \<times> stop \<Rightarrow> byte list \<Rightarrow> wchar list \<times> stop" where
  "run_more r ys =
     (case r of
        (ws, Done 0 rest) \<Rightarrow> (ws, Done 0 (rest @ ys))
      | (ws, Done (Suc c) rest) \<Rightarrow> utf8_run (Suc c) ys ws
      | (ws, Nul c) \<Rightarrow> (ws, Nul c)
      | (ws, Ill m) \<Rightarrow> (ws, Ill m)
      | (ws, More c m wc) \<Rightarrow> (case utf8_after c (utf8_continue m wc ys) of (vs, st) \<Rightarrow> (ws @ vs, st)))"

lemma utf8_run_acc: "utf8_run c bs (us @ ws) = (case utf8_run c bs ws of (vs, st) \<Rightarrow> (us @ vs, st))"
  by (induction c bs ws rule: utf8_run.induct) (auto split: outcome.splits)

lemma utf8_run_acc0: "utf8_run c bs ws = (case utf8_run c bs [] of (vs, st) \<Rightarrow> (ws @ vs, st))"
  using utf8_run_acc [of c bs ws "[]"] by simp

lemma utf8_run_feed: "utf8_run c (xs @ ys) ws = run_more (utf8_run c xs ws) ys"
proof (induction c xs ws rule: utf8_run.induct)
  case (3 c b bs ws)
  show ?case
  proof (cases "utf8_char b bs")
    case (Incomplete m wc)
    show ?thesis
    proof (cases "utf8_continue m wc ys")
      case (Complete wc' rest)
      then show ?thesis
        using Incomplete utf8_run_acc [of c rest ws "[wc']"]
        by (simp add: utf8_char_feed then_feed_def run_more_def utf8_after_def split: prod.splits)
    qed (use Incomplete in \<open>simp_all add: utf8_char_feed then_feed_def run_more_def utf8_after_def\<close>)
  qed (use 3 in \<open>auto simp: utf8_char_feed then_feed_def run_more_def\<close>)
qed (auto simp: run_more_def)

lemma utf8_after_feed:
  assumes "0 < c"
  shows "utf8_after c (then_feed oc ys) = run_more (utf8_after c oc) ys"
proof (cases oc)
  case (Complete wc rest)
  then show ?thesis
    by (simp add: utf8_after_def then_feed_def utf8_run_feed run_more_def)
next
  case (Incomplete m wc)
  then show ?thesis by (simp add: utf8_after_def then_feed_def run_more_def split: prod.splits)
qed (simp add: utf8_after_def then_feed_def run_more_def)

lemma utf8_run_count:
  "utf8_run c bs ws = (vs, st) \<Longrightarrow> \<exists>us. vs = ws @ us \<and> 
     (case st of Done c' rest \<Rightarrow> c' + length us = c \<and> (c' = 0 \<or> rest = []) | Nul c' \<Rightarrow> c' + length us = Suc c \<and> 0 < c'
      | Ill m \<Rightarrow> length us < c | More c' m wc \<Rightarrow> c' + length us = c \<and> 0 < c')"
proof (induction c bs ws rule: utf8_run.induct)
  case (3 c b bs ws)
  show ?case
  proof (cases "utf8_char b bs")
    case (Complete wc rest)
    show ?thesis
    proof (cases "wc = 0")
      case True
      then show ?thesis using 3(2) Complete by auto
    next
      case False
      then have "utf8_run c rest (ws @ [wc]) = (vs, st)" using 3(2) Complete by simp
      from 3(1) [OF Complete False this] show ?thesis by (fastforce split: stop.splits)
    qed
  qed (use 3(2) in auto)
qed auto

section \<open>The states between calls\<close>

text \<open>In the middle of a character after \<open>k\<close> continuation bytes.\<close>

definition mid :: "nat \<Rightarrow> nat \<Rightarrow> bool" where
  "mid k r \<longleftrightarrow> k \<le> 4 \<and> 2 ^ (6 + 5 * k) \<le> r \<and> r + 2 ^ (6 * k + 1) < 2 ^ (7 + 5 * k)"

definition mid_state :: "wchar \<Rightarrow> wchar \<Rightarrow> bool" where
  "mid_state m wc \<longleftrightarrow> (\<exists>k r. mid k r \<and> m = 2 ^ (6 + 5 * k) \<and> wc = of_nat r)"

definition outcome_ok :: "outcome \<Rightarrow> bool" where
  "outcome_ok oc \<longleftrightarrow>
     (case oc of Bad m \<Rightarrow> m \<noteq> 0 | Complete wc rest \<Rightarrow> utf8_valid (unat wc) | Incomplete m wc \<Rightarrow> mid_state m wc)"

lemma pow2_wchar_nz: "j < 32 \<Longrightarrow> (2 ^ j :: wchar) \<noteq> 0"
  by simp

lemma start_at_ok:
  assumes "r + 2 ^ (6 * k + 1) < 2 ^ (7 + 5 * k)" "1 \<le> k" "k \<le> 5"
    and "\<And>r'. mid k r \<Longrightarrow> outcome_ok (utf8_continue (2 ^ (6 + 5 * k)) (of_nat r) bs)"
  shows "outcome_ok (start_at (6 + 5 * k) r bs)"
proof (cases "r < 2 ^ (6 + 5 * k)")
  case True
  have "(2 :: nat) ^ (6 + 5 * k) \<le> 2 ^ 31" using assms(3) by (intro power_increasing) auto
  then have r: "r < 2 ^ 31" using True by linarith
  have u: "unat (of_nat r :: wchar) = r" using r by (intro unat_of_small) simp
  have "unat (min_mask (6 + 5 * k)) \<noteq> 0" unfolding min_mask_conts [OF assms(2,3)] conts_min_def by simp
  then have "min_mask (6 + 5 * k) \<noteq> 0" by auto
  moreover have j: "6 + 5 * k < 32" using assms(3) by simp
  ultimately show ?thesis
    unfolding start_complete [OF True j] using r by (auto simp: outcome_ok_def utf8_invalid_char u)
next
  case False
  have j: "6 + 5 * k < 32" using assms(3) by simp
  have "k \<noteq> 5" using False assms(1) by auto
  then have "mid k r" using assms(1,3) False by (auto simp: mid_def)
  moreover have "r < 2 ^ (6 + 5 * k + 1)" using assms(1) by simp
  ultimately show ?thesis using assms(4) start_more [of "6 + 5 * k" r bs] False j by simp
qed

lemma continue_ok: "mid k r \<Longrightarrow> outcome_ok (utf8_continue (2 ^ (6 + 5 * k)) (of_nat r) bs)"
proof (induction bs arbitrary: k r)
  case Nil
  then show ?case by (auto simp: outcome_ok_def mid_state_def)
next
  case (Cons b bs)
  then have k: "k \<le> 4" "6 + 5 * k < 32" and r: "2 ^ (6 + 5 * k) \<le> r" by (auto simp: mid_def)
  show ?case
  proof (cases "cont_byte b")
    case True
    let ?r = "(r - 2 ^ (6 + 5 * k)) * 64 + (unat b - 128)"
    have c: "unat b - 128 < 64" using True by (auto simp: cont_byte_range)
    have p: "(2 :: nat) ^ (6 * Suc k + 1) = 64 * 2 ^ (6 * k + 1)" "(2 :: nat) ^ (7 + 5 * Suc k) = 64 * 2 ^ (6 + 5 * k)"
      "(2 :: nat) ^ (7 + 5 * k) = 2 * 2 ^ (6 + 5 * k)" by (simp_all add: power_add)
    have "(r - 2 ^ (6 + 5 * k)) + 2 ^ (6 * k + 1) < 2 ^ (6 + 5 * k)"
      using Cons.prems r unfolding mid_def p(3) by linarith
    then have "?r + 2 ^ (6 * Suc k + 1) < 2 ^ (7 + 5 * Suc k)" unfolding p using c by linarith
    moreover have "outcome_ok (utf8_continue (2 ^ (6 + 5 * Suc k)) (of_nat ?r) bs)" if "mid (Suc k) ?r"
      by (rule Cons.IH [OF that])
    ultimately have "outcome_ok (start_at (6 + 5 * Suc k) ?r bs)" using k(1) by (intro start_at_ok) simp_all
    then show ?thesis using start_cont [OF True r, of bs] by (simp add: algebra_simps)
  next
    case False
    then have "utf8_continue (2 ^ (6 + 5 * k)) (of_nat r) (b # bs) = Bad (2 ^ (6 + 5 * k))" by (rule start_bad)
    then show ?thesis using k(2) by (simp add: outcome_ok_def)
  qed
qed

lemma utf8_char_ok: "outcome_ok (utf8_char b bs)"
proof (cases "unat b < 128")
  case True
  then have "unat (ucast b :: wchar) = unat b" by (simp add: unsigned_ucast_eq take_bit_nat_eq_self)
  with True show ?thesis by (simp add: utf8_char_ascii outcome_ok_def utf8_valid_def)
next
  case False
  show ?thesis
  proof (cases "lead_ok b")
    case True
    then have r: "64 \<le> unat b - 128" "unat b - 128 < 126" by (auto simp: lead_ok_range)
    then have "mid 0 (unat b - 128)" by (simp add: mid_def)
    from continue_ok [OF this] show ?thesis
      using start_more [of 6 "unat b - 128" bs] r False True by (simp add: utf8_char_start)
  next
    case f: False
    then show ?thesis using False by (simp add: utf8_char_start outcome_ok_def)
  qed
qed

lemma mid_state_not_error: "mid_state m wc \<Longrightarrow> m \<noteq> 0 \<and> wc \<noteq> 0xffff"
proof -
  assume "mid_state m wc"
  then obtain k r where k: "mid k r" "m = 2 ^ (6 + 5 * k)" "wc = of_nat r" by (auto simp: mid_state_def)
  then have kr: "k = 0 \<or> k = 1 \<or> k = 2 \<or> k = 3 \<or> k = 4" by (auto simp: mid_def)
  then have "r < 2 ^ 32" using k(1) by (auto simp: mid_def)
  then have u: "unat wc = r" unfolding k(3) by (intro unat_of_small) simp
  have "r \<noteq> 65535" using k(1) kr by (auto simp: mid_def)
  then have "wc \<noteq> 0xffff" using u by auto
  moreover have "m \<noteq> 0" unfolding k(2) using kr by (intro pow2_wchar_nz) auto
  ultimately show ?thesis by simp
qed

definition mb_ok :: "mbstate \<Rightarrow> bool" where
  "mb_ok ps \<longleftrightarrow> ps_mask ps = 0 \<or> ps_wc ps = 0xffff \<or> mid_state (ps_mask ps) (ps_wc ps)"

text \<open>A run stores valid characters, no more than it may, and leaves a state of this kind.\<close>

definition pass_ok :: "nat \<Rightarrow> wchar list \<times> stop \<Rightarrow> bool" where
  "pass_ok c p \<longleftrightarrow> list_all (\<lambda>w. utf8_valid (unat w)) (fst p) \<and> length (fst p) \<le> c \<and>
     (case snd p of
        Done c' rest \<Rightarrow> c' + length (fst p) = c \<and> 0 \<notin> set (fst p) \<and> (c' = 0 \<or> rest = [])
      | Nul c' \<Rightarrow> c' + length (fst p) = Suc c \<and> 0 < c' \<and> 0 \<in> set (fst p)
      | Ill m \<Rightarrow> length (fst p) < c \<and> m \<noteq> 0 \<and> 0 \<notin> set (fst p)
      | More c' m wc \<Rightarrow> c' + length (fst p) = c \<and> 0 < c' \<and> mid_state m wc \<and> 0 \<notin> set (fst p))"

lemma pass_ok_Cons:
  "pass_ok c p \<Longrightarrow> utf8_valid (unat w) \<Longrightarrow> w \<noteq> 0 \<Longrightarrow> pass_ok (Suc c) (w # fst p, snd p)"
  by (cases "snd p") (auto simp: pass_ok_def)

lemma utf8_run_ok: "pass_ok c (utf8_run c bs [])"
proof (induction c arbitrary: bs)
  case 0
  then show ?case by (simp add: pass_ok_def)
next
  case (Suc c)
  show ?case
  proof (cases bs)
    case (Cons b bs')
    have ok: "outcome_ok (utf8_char b bs')" by (rule utf8_char_ok)
    show ?thesis
    proof (cases "utf8_char b bs'")
      case (Complete wc rest)
      show ?thesis
      proof (cases "wc = 0")
        case False
        then have "utf8_run (Suc c) bs [] = (wc # fst (utf8_run c rest []), snd (utf8_run c rest []))"
          using Complete Cons utf8_run_acc0 [of c rest "[wc]"] by (simp split: prod.splits)
        then show ?thesis using pass_ok_Cons [OF Suc] False ok Complete by (simp add: outcome_ok_def)
      qed (use Cons Complete in \<open>simp add: pass_ok_def utf8_valid_def\<close>)
    qed (use Cons ok in \<open>auto simp: pass_ok_def outcome_ok_def\<close>)
  qed (simp add: pass_ok_def)
qed

lemma utf8_after_ok:
  assumes "outcome_ok oc" "0 < c"
  shows "pass_ok c (utf8_after c oc)"
proof (cases oc)
  case (Complete wc rest)
  obtain c' where c: "c = Suc c'" using assms(2) by (cases c) auto
  show ?thesis
  proof (cases "wc = 0")
    case False
    then have "utf8_after c oc = (wc # fst (utf8_run c' rest []), snd (utf8_run c' rest []))"
      using Complete utf8_run_acc0 [of c' rest "[wc]"] by (simp add: utf8_after_def c split: prod.splits)
    then show ?thesis using pass_ok_Cons [OF utf8_run_ok] False assms(1) Complete by (simp add: outcome_ok_def c)
  qed (use Complete c in \<open>simp add: pass_ok_def utf8_after_def utf8_valid_def\<close>)
qed (use assms in \<open>auto simp: pass_ok_def outcome_ok_def utf8_after_def\<close>)

lemma utf8_pass_ok:
  assumes "mb_ok ps" "0 < c" "\<not> (ps_mask ps \<noteq> 0 \<and> ps_wc ps = 0xffff)"
  shows "pass_ok c (utf8_pass c bs ps)"
proof (cases "ps_mask ps = 0")
  case True
  then show ?thesis by (simp add: utf8_pass_def utf8_run_ok)
next
  case False
  then obtain k r where "mid k r" "ps_mask ps = 2 ^ (6 + 5 * k)" "ps_wc ps = of_nat r"
    using assms by (auto simp: mb_ok_def mid_state_def)
  then have "outcome_ok (utf8_continue (ps_mask ps) (ps_wc ps) bs)" by (simp add: continue_ok)
  with False assms(2) show ?thesis by (simp add: utf8_pass_def utf8_after_ok) (simp add: pass_ok_def)
qed

section \<open>Whole conversions\<close>

lemma utf8sntowcs_ok:
  assumes "mb_ok ps"
  shows "list_all (\<lambda>w. utf8_valid (unat w)) (out (utf8sntowcs Store n bs ps a))"
    "length (out (utf8sntowcs Store n bs ps a)) \<le> n" "ret (utf8sntowcs Store n bs ps a) \<le> int n"
    "mb_ok (new_ps (utf8sntowcs Store n bs ps a))"
proof -
  let ?r = "utf8sntowcs Store n bs ps a"
  have "list_all (\<lambda>w. utf8_valid (unat w)) (out ?r) \<and> length (out ?r) \<le> n \<and> ret ?r \<le> int n \<and> mb_ok (new_ps ?r)"
  proof (cases "n = 0 \<or> (ps_mask ps \<noteq> 0 \<and> ps_wc ps = 0xffff)")
    case True
    then show ?thesis using assms by (auto simp: utf8sntowcs_def Let_def)
  next
    case False
    obtain ws st where p: "utf8_pass n bs ps = (ws, st)" by (cases "utf8_pass n bs ps")
    have "pass_ok n (ws, st)" using utf8_pass_ok [OF assms, of n bs] False p by auto
    then show ?thesis using False assms by (cases st) (auto simp: utf8sntowcs_def Let_def p pass_ok_def mb_ok_def)
  qed
  then show "list_all (\<lambda>w. utf8_valid (unat w)) (out ?r)" "length (out ?r) \<le> n" "ret ?r \<le> int n" "mb_ok (new_ps ?r)"
    by auto
qed

lemma utf8_pass_feed:
  assumes "0 < n" "ps_mask ps = 0 \<or> xs \<noteq> []"
  shows "utf8_pass n (xs @ ys) ps = run_more (utf8_pass n xs ps) ys"
  using assms by (auto simp: utf8_pass_def utf8_run_feed utf8_feed utf8_after_feed)

definition same_state :: "mbstate \<Rightarrow> mbstate \<Rightarrow> bool" where
  "same_state p q \<longleftrightarrow> ps_mask p = ps_mask q \<and> (ps_mask p = 0 \<or> ps_wc p = ps_wc q)"

lemma stored:
  assumes "0 < n" "\<not> (ps_mask ps \<noteq> 0 \<and> ps_wc ps = 0xffff)" "utf8_pass n bs ps = (ws, st)"
  shows "out (utf8sntowcs Store n bs ps True) = ws"
    "new_ps (utf8sntowcs Store n bs ps True) =
       (case st of Ill m \<Rightarrow> \<lparr>ps_mask = m, ps_wc = 0xffff\<rparr> | More c m wc \<Rightarrow> \<lparr>ps_mask = m, ps_wc = wc\<rparr> | _ \<Rightarrow> ps\<lparr>ps_mask := 0\<rparr>)"
    "ilseq (utf8sntowcs Store n bs ps True) = (case st of Ill m \<Rightarrow> True | _ \<Rightarrow> False)"
  using assms by (cases st; auto simp: utf8sntowcs_def Let_def)+

lemma utf8_pieces:
  fixes n xs ys ps
  defines "r1 \<equiv> utf8sntowcs Store n xs ps True"
  defines "r2 \<equiv> utf8sntowcs Store (n - length (out r1)) ys (new_ps r1) True"
  defines "r \<equiv> utf8sntowcs Store n (xs @ ys) ps True"
  assumes ok: "mb_ok ps" and ne: "ps_mask ps = 0 \<or> xs \<noteq> []" "ys \<noteq> []"
  shows "if 0 \<in> set (out r1) then out r = out r1 \<and> ilseq r = ilseq r1 \<and> new_ps r = new_ps r1
    else out r = out r1 @ out r2 \<and> ilseq r = ilseq r2 \<and> same_state (new_ps r) (new_ps r2)"
proof (cases "n = 0 \<or> (ps_mask ps \<noteq> 0 \<and> ps_wc ps = 0xffff)")
  case True
  then have "r1 = r" "out r1 = []" "r2 = r" by (auto simp: r1_def r2_def r_def utf8sntowcs_def Let_def)
  then show ?thesis by (simp add: same_state_def)
next
  case False
  then have n: "0 < n" "\<not> (ps_mask ps \<noteq> 0 \<and> ps_wc ps = 0xffff)" by auto
  obtain ws st where p: "utf8_pass n xs ps = (ws, st)" by (cases "utf8_pass n xs ps")
  have ok1: "pass_ok n (ws, st)" using utf8_pass_ok [OF ok n, of xs] p by simp
  note s1 = stored [OF n p, folded r1_def]
  obtain vs st' where q: "run_more (ws, st) ys = (vs, st')" by (cases "run_more (ws, st) ys")
  then have "utf8_pass n (xs @ ys) ps = (vs, st')" using utf8_pass_feed [OF n(1) ne(1), of ys] p by simp
  note s = stored [OF n this, folded r_def]
  have e1: "out r1 = ws" by (rule s1)
  show ?thesis
  proof (cases st)
    case (Done c rest)
    show ?thesis
    proof (cases "c = 0")
      case True
      then have "out r2 = []" "ilseq r2 = False" "new_ps r2 = new_ps r1"
        using Done ok1 e1 by (auto simp: r2_def utf8sntowcs_def Let_def pass_ok_def)
      then show ?thesis using s s1 q Done True ok1 by (auto simp: run_more_def pass_ok_def same_state_def)
    next
      case c: False
      obtain us st2 where u: "utf8_run c ys [] = (us, st2)" by (cases "utf8_run c ys []")
      have n1: "n - length ws = c" using Done ok1 by (auto simp: pass_ok_def)
      have "utf8_pass c ys (new_ps r1) = (us, st2)" using u s1 Done by (simp add: utf8_pass_def)
      note s2 = stored [OF _ _ this]
      have "run_more (ws, st) ys = (ws @ us, st2)"
        using c Done utf8_run_acc0 [of c ys ws] u by (cases c) (auto simp: run_more_def)
      then have v: "vs = ws @ us" "st' = st2" using q by auto
      show ?thesis
        using s s1 s2 c v Done ok1 n1 by (cases st2) (auto simp: r2_def pass_ok_def same_state_def)
    qed
  next
    case (Nul c)
    then show ?thesis using s s1 q ok1 by (auto simp: run_more_def pass_ok_def)
  next
    case (Ill m)
    then have "out r2 = []" "ilseq r2 = True" "new_ps r2 = new_ps r1"
      using s1 ok1 by (auto simp: r2_def utf8sntowcs_def Let_def pass_ok_def)
    then show ?thesis using s s1 q Ill ok1 by (auto simp: run_more_def pass_ok_def same_state_def)
  next
    case (More c m wc)
    have n1: "n - length ws = c" "0 < c" and mid: "mid_state m wc" using More ok1 by (auto simp: pass_ok_def)
    have m: "m \<noteq> 0" "wc \<noteq> 0xffff" using mid_state_not_error [OF mid] by auto
    obtain us st2 where u: "utf8_after c (utf8_continue m wc ys) = (us, st2)"
      by (cases "utf8_after c (utf8_continue m wc ys)")
    have "utf8_pass c ys (new_ps r1) = (us, st2)" using u s1 More m ne(2) by (simp add: utf8_pass_def)
    note s2 = stored [OF n1(2) _ this]
    have v: "vs = ws @ us" "st' = st2" using q More u by (auto simp: run_more_def)
    show ?thesis
      using s s1 s2 v More ok1 n1 m by (cases st2) (auto simp: r2_def pass_ok_def same_state_def)
  qed
qed

section \<open>Encoding text\<close>

definition text_ok :: "nat list \<Rightarrow> bool" where
  "text_ok vs \<longleftrightarrow> list_all (\<lambda>v. utf8_valid v \<and> v \<noteq> 0) vs"

definition unencodable :: "wchar \<Rightarrow> bool" where
  "unencodable wc \<longleftrightarrow> wc > 0x7fffffff \<or> wc - 0xfffe < 2 \<or> wc - 0xd800 < 0xe000 - 0xd800"

lemma encodable:
  assumes "v < 2 ^ 32" "128 \<le> v"
  shows "utf8_valid v \<longleftrightarrow> \<not> unencodable (of_nat v)"
proof -
  have u: "unat (of_nat v :: wchar) = v" using assms by (intro unat_of_small) simp
  show ?thesis
  proof (cases "v < 2 ^ 31")
    case True
    have "of_nat v \<le> (0x7fffffff :: wchar)" unfolding word_le_nat_alt u using True by simp
    then show ?thesis
      using utf8_invalid_char [OF True, of 0] by (auto simp: utf8_invalid_def unencodable_def)
  next
    case False
    then have "of_nat v > (0x7fffffff :: wchar)" unfolding word_less_nat_alt u by simp
    then show ?thesis using False by (simp add: utf8_valid_def unencodable_def)
  qed
qed

lemma utf8_write_char:
  assumes "utf8_valid v" "v \<noteq> 0" "0 < t"
  shows "utf8_write (of_nat v # ws) t bs =
    (if length (utf8_bytes v) \<le> t then utf8_write ws (t - length (utf8_bytes v)) (bs @ utf8_bytes v)
     else (bs @ [of_nat v], Some (t, Some (of_nat v # ws))))"
proof -
  have v: "v < 2 ^ 31" using assms(1) by (simp add: utf8_valid_def)
  then have u: "unat (of_nat v :: wchar) = v" by (intro unat_of_small) simp
  have c: "ucast (of_nat v :: wchar) = (of_nat v :: byte)"
  proof -
    have "ucast (of_nat v :: wchar) = (of_nat (unat (of_nat v :: wchar)) :: byte)" by (rule of_nat_unat [symmetric])
    then show ?thesis unfolding u .
  qed
  show ?thesis
  proof (cases "v < 128")
    case True
    then have "\<not> (0x80 :: wchar) \<le> of_nat v" unfolding word_le_nat_alt u by simp
    moreover have "(of_nat v :: wchar) \<noteq> 0" using assms of_nat_char_eq by simp
    moreover have "utf8_bytes v = [of_nat v]" using True by (simp add: utf8_bytes_def)
    ultimately show ?thesis using assms(3) by (simp add: c)
  next
    case False
    then have "(0x80 :: wchar) \<le> of_nat v" unfolding word_le_nat_alt u by simp
    moreover have "\<not> unencodable (of_nat v)" using encodable [of v] v False assms(1) by simp
    ultimately show ?thesis
      using assms(3) utf8_len_conts [of v] utf8_put_bytes [of v] length_utf8_bytes [of v] v False
      unfolding utf8_write.simps(2) unencodable_def [symmetric] by (simp add: c Let_def)
  qed
qed

lemma utf8_write_text:
  "text_ok vs \<Longrightarrow> length (utf8_text vs) \<le> t \<Longrightarrow>
   utf8_write (map of_nat vs @ ws) t bs =
     (if ws = [] then (bs @ utf8_text vs, Some (t - length (utf8_text vs), Some []))
      else utf8_write ws (t - length (utf8_text vs)) (bs @ utf8_text vs))"
proof (induction vs arbitrary: t bs)
  case Nil
  then show ?case by simp
next
  case (Cons v vs)
  have "0 < length (utf8_bytes v)" using utf8_bytes_nonempty [of v] by simp
  moreover have "length (utf8_bytes v) \<le> t" using Cons.prems by simp
  ultimately have t: "0 < t" by (rule less_le_trans)
  have vs: "text_ok vs" and v: "utf8_valid v" "v \<noteq> 0" using Cons.prems(1) by (auto simp: text_ok_def)
  have l: "length (utf8_text vs) \<le> t - length (utf8_bytes v)" "length (utf8_bytes v) \<le> t" using Cons.prems(2) by auto
  show ?case using utf8_write_char [OF v t] Cons.IH [OF vs l(1)] l by simp
qed

text \<open>The number of characters that fit into \<open>n\<close> bytes.\<close>

fun fit :: "nat \<Rightarrow> nat list \<Rightarrow> nat" where
  "fit n [] = 0"
| "fit n (v # vs) = (if length (utf8_bytes v) \<le> n then Suc (fit (n - length (utf8_bytes v)) vs) else 0)"

lemma fit_greatest: "j \<le> length vs \<Longrightarrow> length (utf8_text (take j vs)) \<le> n \<longleftrightarrow> j \<le> fit n vs"
proof (induction n vs arbitrary: j rule: fit.induct)
  case (2 n v vs)
  show ?case
  proof (cases j)
    case (Suc i)
    with "2.prems" "2.IH" [of i] show ?thesis by (auto simp: le_diff_conv2)
  qed simp
qed simp

lemma fit_le: "fit n vs \<le> length vs"
  by (induction n vs rule: fit.induct) auto

lemma utf8_write_fit:
  "text_ok vs \<Longrightarrow> \<exists>junk. utf8_write (map of_nat vs) t bs =
     (bs @ utf8_text (take (fit t vs) vs) @ junk,
      Some (t - length (utf8_text (take (fit t vs) vs)), Some (map of_nat (drop (fit t vs) vs)))) \<and>
     length (utf8_text (take (fit t vs) vs) @ junk) \<le> t"
proof (induction t vs arbitrary: bs rule: fit.induct)
  case (1 n)
  then show ?case by simp
next
  case (2 t v vs)
  have vs: "text_ok vs" and v: "utf8_valid v" "v \<noteq> 0" using "2.prems" by (auto simp: text_ok_def)
  have pos: "0 < length (utf8_bytes v)" using utf8_bytes_nonempty [of v] by simp
  show ?case
  proof (cases "length (utf8_bytes v) \<le> t")
    case True
    with pos have "0 < t" by (rule less_le_trans)
    then show ?thesis
      using "2.IH" [OF True vs, of "bs @ utf8_bytes v"] True utf8_write_char [OF v, of t "map of_nat vs" bs] by auto
  next
    case False
    then show ?thesis using utf8_write_char [OF v, of t "map of_nat vs" bs] by (cases "t = 0") auto
  qed
qed

section \<open>Single-byte text\<close>

definition sb_wide :: "cur_locale \<Rightarrow> byte \<Rightarrow> wchar" where
  "sb_wide l b = (if b \<ge> 0x80 then c2wc l b else ucast b)"

definition sb_ok :: "cur_locale \<Rightarrow> byte \<Rightarrow> bool" where
  "sb_ok l b \<longleftrightarrow> b \<noteq> 0 \<and> (b \<ge> 0x80 \<longrightarrow> encoding l = encoding_8_bit \<and> c2wc l b \<noteq> 0)"

definition inverse_tables :: "cur_locale \<Rightarrow> bool" where
  "inverse_tables l \<longleftrightarrow> (\<forall>b. b \<ge> 0x80 \<and> c2wc l b \<noteq> 0 \<longrightarrow> c2wc l b > 0x7f \<and> wc2c l (c2wc l b) = b)"

lemma ascii_wide: "(b :: byte) < 0x80 \<Longrightarrow> (ucast b :: wchar) < 0x80 \<and> ((ucast b :: wchar) = 0 \<longleftrightarrow> b = 0) \<and> ucast (ucast b :: wchar) = b"
proof -
  assume b: "b < 0x80"
  have u: "unat (ucast b :: wchar) = unat b" using b by (simp add: unsigned_ucast_eq take_bit_nat_eq_self word_less_nat_alt)
  have "ucast (ucast b :: wchar) = (of_nat (unat (ucast b :: wchar)) :: byte)" by (rule of_nat_unat [symmetric])
  then have "ucast (ucast b :: wchar) = b" unfolding u by simp
  then show ?thesis using b u by (auto simp: word_less_nat_alt word_unat_eq_iff)
qed

lemma mbs_8_bit_text:
  "list_all (sb_ok l) bs \<Longrightarrow> length bs < c \<Longrightarrow> mbs_8_bit l c (bs @ [0]) ws = (ws @ map (sb_wide l) bs @ [0], Nul (c - length bs))"
proof (induction bs arbitrary: c ws)
  case Nil
  then show ?case by (cases c) auto
next
  case (Cons b bs)
  then obtain c' where c: "c = Suc c'" by (cases c) auto
  have "sb_wide l b \<noteq> 0" using Cons.prems(1) ascii_wide [of b] by (auto simp: sb_wide_def sb_ok_def)
  then show ?case
    using Cons.IH [of c' "ws @ [sb_wide l b]"] Cons.prems c by (auto simp: sb_wide_def sb_ok_def Let_def)
qed

lemma mbs_7_bit_text:
  "list_all (sb_ok l) bs \<Longrightarrow> encoding l \<noteq> encoding_8_bit \<Longrightarrow> length bs < c \<Longrightarrow>
   mbs_7_bit c (bs @ [0]) ws = (ws @ map (sb_wide l) bs @ [0], Nul (c - length bs))"
proof (induction bs arbitrary: c ws)
  case Nil
  then show ?case by (cases c) auto
next
  case (Cons b bs)
  then obtain c' where c: "c = Suc c'" by (cases c) auto
  then show ?case using Cons.IH [of c' "ws @ [sb_wide l b]"] Cons.prems by (auto simp: sb_wide_def sb_ok_def)
qed

lemma wcs_8_bit_text:
  "inverse_tables l \<Longrightarrow> list_all (sb_ok l) bs \<Longrightarrow> length bs < c \<Longrightarrow>
   wcs_8_bit l c (map (sb_wide l) bs @ [0]) us = (us @ bs @ [0], Some (c - length bs, None))"
proof (induction bs arbitrary: c us)
  case Nil
  then show ?case by (cases c) auto
next
  case (Cons b bs)
  then obtain c' where c: "c = Suc c'" by (cases c) auto
  have "if b < 0x80 then sb_wide l b \<le> 0x7f \<and> sb_wide l b \<noteq> 0 \<and> ucast (sb_wide l b) = b
    else \<not> sb_wide l b \<le> 0x7f \<and> wc2c l (sb_wide l b) = b \<and> b \<noteq> 0"
    using Cons.prems ascii_wide [of b]
    by (auto simp: inverse_tables_def sb_wide_def sb_ok_def not_le not_less word_less_nat_alt word_le_nat_alt)
  then show ?case using Cons.IH [of c' "us @ [b]"] Cons.prems c by (auto split: if_splits)
qed

lemma wcs_7_bit_text:
  "encoding l \<noteq> encoding_8_bit \<Longrightarrow> list_all (sb_ok l) bs \<Longrightarrow> length bs < c \<Longrightarrow>
   wcs_7_bit c (map (sb_wide l) bs @ [0]) us = (us @ bs @ [0], Some (c - length bs, None))"
proof (induction bs arbitrary: c us)
  case Nil
  then show ?case by (cases c) auto
next
  case (Cons b bs)
  then obtain c' where c: "c = Suc c'" by (cases c) auto
  have "sb_wide l b < 0x80 \<and> sb_wide l b \<noteq> 0 \<and> ucast (sb_wide l b) = b"
    using Cons.prems ascii_wide [of b] by (auto simp: sb_wide_def sb_ok_def not_le)
  then show ?case using Cons.IH [of c' "us @ [b]"] Cons.prems c by (auto simp: not_le)
qed

section \<open>Properties\<close>

text \<open>C27: in a UTF-8 locale \<open>mbrtowc\<close> from the initial state accepts exactly the bytes that start with the
  shortest encoding of a valid character, stores that character and returns the length of its encoding;
  everything else is refused as ill-formed (-1) or incomplete (-2).\<close>

theorem mbrtowc_exact:
  assumes "encoding l = encoding_utf8" "ps_mask ps = 0" "b \<noteq> 0"
  shows "(\<exists>v rest. utf8_valid v \<and> b # bs = utf8_bytes v @ rest \<and>
            mbrtowc l (Some (b, b # bs)) ps = (int (length (utf8_bytes v)), Some (of_nat v), ps)) \<or>
         (\<nexists>v rest. utf8_valid v \<and> b # bs = utf8_bytes v @ rest) \<and> fst (mbrtowc l (Some (b, b # bs)) ps) \<in> {- 1, - 2}"
proof (cases "utf8_char b bs")
  case (Complete wc rest)
  then obtain v where v: "utf8_valid v" "wc = of_nat v" "b # bs = utf8_bytes v @ rest" using utf8_char_sound by blast
  have "wc \<noteq> 0"
  proof
    assume "wc = 0"
    then have "v = 0" using v of_nat_char_eq by simp
    then show False using v(3) assms(3) by (simp add: utf8_bytes_def)
  qed
  moreover have "length (b # bs) - length rest = length (utf8_bytes v)" unfolding v(3) by simp
  moreover have "length rest \<le> length bs" using v(3) utf8_bytes_nonempty [of v] by (cases "utf8_bytes v") auto
  ultimately have "mbrtowc l (Some (b, b # bs)) ps = (int (length (utf8_bytes v)), Some (of_nat v), ps)"
    using assms Complete v(2)
    by (auto simp: mbrtowc_def mbrtowc_go_def utf8sntowcs_def utf8_pass_def Let_def)
  with v show ?thesis by blast
next
  case (Bad m)
  then have "\<nexists>v rest. utf8_valid v \<and> b # bs = utf8_bytes v @ rest" using utf8_char_complete by fastforce
  with Bad assms show ?thesis by (simp add: mbrtowc_def mbrtowc_go_def utf8sntowcs_def utf8_pass_def Let_def)
next
  case (Incomplete m wc)
  then have "\<nexists>v rest. utf8_valid v \<and> b # bs = utf8_bytes v @ rest" using utf8_char_complete by fastforce
  with Incomplete assms show ?thesis by (simp add: mbrtowc_def mbrtowc_go_def utf8sntowcs_def utf8_pass_def Let_def)
qed

text \<open>C28: in a UTF-8 locale a text of valid characters that fits is encoded as the concatenation of the shortest
  encodings, and decoding gives the text back.\<close>

theorem utf8_roundtrip:
  assumes "encoding l = encoding_utf8" "text_ok vs" "length (utf8_text vs) < n" "length vs < m" "ps_mask ps = 0"
  shows "out (wcsrtombs l Store (map of_nat vs) n) = utf8_text vs @ [0] \<and>
    ret (wcsrtombs l Store (map of_nat vs) n) = int (length (utf8_text vs)) \<and>
    new_src (wcsrtombs l Store (map of_nat vs) n) = Some None \<and>
    out (mbsrtowcs l Store (utf8_text vs) m ps) = map of_nat vs @ [0] \<and>
    ret (mbsrtowcs l Store (utf8_text vs) m ps) = int (length vs) \<and>
    new_src (mbsrtowcs l Store (utf8_text vs) m ps) = Some None \<and>
    mbsinit (Some (new_ps (mbsrtowcs l Store (utf8_text vs) m ps)))"
proof -
  have "utf8_write (map of_nat vs @ [0]) n [] = (utf8_text vs @ [0], Some (n - length (utf8_text vs), None))"
    using utf8_write_text [OF assms(2), of n "[0]" "[]"] assms(3) by simp
  then have w: "wcsrtombs l Store (map of_nat vs) n = \<lparr>ret = int (length (utf8_text vs)), out = utf8_text vs @ [0],
      new_src = Some None, new_ps = \<lparr>ps_mask = 0, ps_wc = 0\<rparr>, ilseq = False\<rparr>"
    using assms(1,3) by (simp add: wcsrtombs_def wcsnrtombs_def wcsntoutf8s_def)
  have "utf8_bytes 0 = [0]" by (simp add: utf8_bytes_def)
  moreover obtain d where d: "m - length vs = Suc d" using assms(4) by (cases "m - length vs") auto
  ultimately have "utf8_run m (utf8_text vs @ [0]) [] = (map of_nat vs @ [0], Nul (m - length vs))"
    using utf8_run_text [of vs m "[0]" "[]"] utf8_run_char [of 0 d "[]" "map of_nat vs"] assms(2,4)
    by (simp add: text_ok_def utf8_valid_def)
  then show ?thesis
    using assms(1,4,5)
    by (simp add: w mbsrtowcs_def mbsnrtowcs_def utf8sntowcs_def utf8_pass_def Let_def mbsinit_def)
qed

text \<open>A conversion of bytes in two calls, the second one from the state that the first one left, stores
  the same characters, reports the same error and ends in the same state as one call on all the bytes;
  a null character ends the conversion in the first call.\<close>

theorem utf8_restart_equiv:
  assumes "encoding l = encoding_utf8" "mb_ok ps" "ps_mask ps = 0 \<or> xs \<noteq> []" "ys \<noteq> []"
    and "r1 = mbsnrtowcs l Store xs n ps"
    and "r2 = mbsnrtowcs l Store ys (n - length (out r1)) (new_ps r1)"
    and "r = mbsnrtowcs l Store (xs @ ys) n ps"
  shows "if 0 \<in> set (out r1) then out r = out r1 \<and> ilseq r = ilseq r1 \<and> new_ps r = new_ps r1
    else out r = out r1 @ out r2 \<and> ilseq r = ilseq r2 \<and> same_state (new_ps r) (new_ps r2)"
proof -
  have s: "out (mbsnrtowcs l Store bs k p) = out (utf8sntowcs Store k bs p True)"
    "ilseq (mbsnrtowcs l Store bs k p) = ilseq (utf8sntowcs Store k bs p True)"
    "new_ps (mbsnrtowcs l Store bs k p) = new_ps (utf8sntowcs Store k bs p True)" for bs k p
    using assms(1) by (simp_all add: mbsnrtowcs_def Let_def)
  show ?thesis unfolding assms(5-7) s by (rule utf8_pieces [OF assms(2-4)])
qed

text \<open>C29: whatever the bytes are, \<open>mbsnrtowcs\<close> in a UTF-8 locale stores only valid characters, at most as many as
  it was given room for, and keeps the state one that it can be called with again.\<close>

theorem mbsnrtowcs_typed:
  assumes "encoding l = encoding_utf8" "mb_ok ps"
  shows "list_all (\<lambda>w. utf8_valid (unat w)) (out (mbsnrtowcs l Store bs n ps)) \<and>
    length (out (mbsnrtowcs l Store bs n ps)) \<le> n \<and> ret (mbsnrtowcs l Store bs n ps) \<le> int n \<and>
    mb_ok (new_ps (mbsnrtowcs l Store bs n ps))"
  using utf8sntowcs_ok [OF assms(2), of n bs True] assms(1) by (simp add: mbsnrtowcs_def Let_def)

text \<open>Into \<open>n\<close> bytes \<open>wcsnrtombs\<close> puts the encodings of as many of the characters as fit, never half a
  character, returns their length, and leaves the source at the first character that did not fit.\<close>

theorem wcsnrtombs_fits:
  assumes "encoding l = encoding_utf8" "text_ok vs" "r = wcsnrtombs l Store (map of_nat vs) n"
  shows "\<exists>k \<le> length vs. (\<forall>j \<le> length vs. length (utf8_text (take j vs)) \<le> n \<longleftrightarrow> j \<le> k) \<and>
    ret r = int (length (utf8_text (take k vs))) \<and> take (nat (ret r)) (out r) = utf8_text (take k vs) \<and>
    length (out r) \<le> n \<and> new_src r = Some (Some (int k)) \<and> \<not> ilseq r"
proof -
  let ?k = "fit n vs"
  obtain junk where j: "utf8_write (map of_nat vs) n [] =
     (utf8_text (take ?k vs) @ junk, Some (n - length (utf8_text (take ?k vs)), Some (map of_nat (drop ?k vs))))"
     "length (utf8_text (take ?k vs) @ junk) \<le> n"
    using utf8_write_fit [OF assms(2), of n "[]"] by auto
  have k: "?k \<le> length vs" by (rule fit_le)
  have "ret r = int (length (utf8_text (take ?k vs)))" "out r = utf8_text (take ?k vs) @ junk"
    "new_src r = Some (Some (int ?k))" "\<not> ilseq r"
    using assms(1,3) j k by (simp_all add: wcsnrtombs_def wcsntoutf8s_def)
  then show ?thesis using k j(2) fit_greatest [of _ vs n] by (intro exI [of _ ?k]) simp
qed

text \<open>A character that UTF-8 cannot encode (a surrogate, \<open>U+FFFE\<close>, \<open>U+FFFF\<close>, or 2 ^ 31 and above)
  makes \<open>wcsnrtombs\<close> fail with \<open>EILSEQ\<close>.\<close>

theorem wcsnrtombs_invalid:
  assumes "encoding l = encoding_utf8" "text_ok vs" "length (utf8_text vs) < n" "\<not> utf8_valid (unat wc)"
    and "r = wcsnrtombs l Store (map of_nat vs @ wc # ws) n"
  shows "ret r = - 1 \<and> ilseq r \<and> new_src r = None \<and> take (length (utf8_text vs)) (out r) = utf8_text vs"
proof -
  have "unat wc < 2 ^ LENGTH(32)" by (rule unsigned_less)
  moreover have "128 \<le> unat wc" using assms(4) by (auto simp: utf8_valid_def)
  ultimately have "(0x80 :: wchar) \<le> wc" "unencodable wc"
    using encodable [of "unat wc"] assms(4) by (auto simp: word_le_nat_alt)
  then have "utf8_write (wc # ws) (n - length (utf8_text vs)) (utf8_text vs) = (utf8_text vs @ [ucast wc], None)"
    using assms(3) unfolding utf8_write.simps(2) unencodable_def [symmetric] by simp
  then have "utf8_write (map of_nat vs @ wc # ws) n [] = (utf8_text vs @ [ucast wc], None)"
    using utf8_write_text [OF assms(2), of n "wc # ws" "[]"] assms(3) by simp
  then show ?thesis using assms(1,5) by (simp add: wcsnrtombs_def wcsntoutf8s_def)
qed

text \<open>In a 7-bit or 8-bit locale whose tables are inverse to each other, decoding a string of characters of
  the encoding and encoding the result gives the string back.\<close>

theorem single_byte_roundtrip:
  assumes "encoding l \<noteq> encoding_utf8" "inverse_tables l" "list_all (sb_ok l) bs" "length bs < n"
  shows "out (mbsrtowcs l Store bs n ps) = map (sb_wide l) bs @ [0] \<and>
    ret (mbsrtowcs l Store bs n ps) = int (length bs) \<and>
    out (wcsrtombs l Store (map (sb_wide l) bs) n) = bs @ [0] \<and>
    ret (wcsrtombs l Store (map (sb_wide l) bs) n) = int (length bs)"
proof -
  let ?c = "min n (Suc (length bs))"
  have c: "length bs < ?c" using assms(4) by simp
  show ?thesis
    using assms(1,4) mbs_8_bit_text [OF assms(3) c] mbs_7_bit_text [OF assms(3) _ c]
      wcs_8_bit_text [OF assms(2,3) c] wcs_7_bit_text [OF _ assms(3) c]
    by (cases "encoding l = encoding_8_bit")
      (simp_all add: mbsrtowcs_def mbsnrtowcs_def wcsrtombs_def wcsnrtombs_def)
qed

text \<open>When the bytes end inside a character, \<open>mbsnrtowcs\<close> stores the characters before it and returns 0,
  although POSIX asks for their number: the caller cannot tell how much was stored.\<close>

theorem mbsnrtowcs_loses_count:
  assumes "encoding l = encoding_utf8" "text_ok vs" "length vs < n" "ps_mask ps = 0"
    and "utf8_valid v" "utf8_bytes v = b # xs @ ys" "ys \<noteq> []"
    and "r = mbsnrtowcs l Store (utf8_text vs @ b # xs) n ps"
  shows "out r = map of_nat vs \<and> ret r = 0 \<and> new_src r = Some (Some (int (length (utf8_text vs @ b # xs)))) \<and>
    \<not> mbsinit (Some (new_ps r))"
proof -
  have "utf8_char b (xs @ ys) = Complete (of_nat v) []" using assms(5,6) by (intro utf8_char_complete) auto
  then have f: "then_feed (utf8_char b xs) ys = Complete (of_nat v) []" by (simp add: utf8_char_feed)
  then obtain m wc where i: "utf8_char b xs = Incomplete m wc"
    using assms(7) by (cases "utf8_char b xs") (auto simp: then_feed_def)
  then have m: "m \<noteq> 0" using utf8_char_ok [of b xs] mid_state_not_error by (auto simp: outcome_ok_def)
  obtain d where d: "n - length vs = Suc d" using assms(3) by (cases "n - length vs") auto
  have "utf8_run n (utf8_text vs @ b # xs) [] = (map of_nat vs, More (Suc d) m wc)"
    using utf8_run_text [of vs n "b # xs" "[]"] assms(2,3) i by (simp add: text_ok_def d)
  then show ?thesis
    using assms(1,3,4,8) m by (auto simp: mbsnrtowcs_def utf8sntowcs_def utf8_pass_def mbsinit_def Let_def)
qed

section \<open>Witnesses\<close>

definition utf8_locale :: cur_locale where
  "utf8_locale = \<lparr>encoding = encoding_utf8, idx8c2wc = (\<lambda>_. 0), tbl8c2wc = (\<lambda>_. 0), idx8wc2c = (\<lambda>_. 0),
     tbl8wc2c = (\<lambda>_. 0), Cwc2c_TI_LEN = 0\<rparr>"

definition mb_initial :: mbstate where
  "mb_initial = \<lparr>ps_mask = 0, ps_wc = 0\<rparr>"

lemma sample_locale: "encoding utf8_locale = encoding_utf8" "ps_mask mb_initial = 0" "mb_ok mb_initial"
  by (simp_all add: utf8_locale_def mb_initial_def mb_ok_def)

lemma cbytes_numeral: "cbytes (numeral k) v = cbytes (pred_numeral k) (v div 64) @ [of_nat (128 + v mod 64)]"
  unfolding numeral_eq_Suc [of k] by (rule cbytes.simps)

lemma sample_bytes: "utf8_bytes 0x41 = [0x41]" "utf8_bytes 0xe9 = [0xc3, 0xa9]" "utf8_bytes 0x20ac = [0xe2, 0x82, 0xac]"
proof -
  have c: "conts 0xe9 = 1" "conts 0x20ac = 2" by (simp_all add: conts_def)
  show "utf8_bytes 0x41 = [0x41]" by (simp add: utf8_bytes_def)
  show "utf8_bytes 0xe9 = [0xc3, 0xa9]" unfolding utf8_bytes_def c by simp
  show "utf8_bytes 0x20ac = [0xe2, 0x82, 0xac]" unfolding utf8_bytes_def c by (simp add: cbytes_numeral)
qed

lemma sample_text: "text_ok [0x41, 0xe9, 0x20ac]" "utf8_text [0x41, 0xe9, 0x20ac] = [0x41, 0xc3, 0xa9, 0xe2, 0x82, 0xac]"
  by (simp add: text_ok_def utf8_valid_def) (simp add: sample_bytes)

theorem mbrtowc_exact_witness:
  "(\<exists>v rest. utf8_valid v \<and> 0xe2 # [0x82, 0xac, 0x20] = utf8_bytes v @ rest \<and>
     mbrtowc utf8_locale (Some (0xe2, 0xe2 # [0x82, 0xac, 0x20])) mb_initial = (int (length (utf8_bytes v)), Some (of_nat v), mb_initial)) \<or>
   (\<nexists>v rest. utf8_valid v \<and> 0xe2 # [0x82, 0xac, 0x20] = utf8_bytes v @ rest) \<and>
     fst (mbrtowc utf8_locale (Some (0xe2, 0xe2 # [0x82, 0xac, 0x20])) mb_initial) \<in> {- 1, - 2}"
  by (rule mbrtowc_exact) (simp_all add: sample_locale)

theorem utf8_roundtrip_witness:
  "out (wcsrtombs utf8_locale Store [0x41, 0xe9, 0x20ac] 20) = [0x41, 0xc3, 0xa9, 0xe2, 0x82, 0xac, 0] \<and>
   out (mbsrtowcs utf8_locale Store [0x41, 0xc3, 0xa9, 0xe2, 0x82, 0xac] 10 mb_initial) = [0x41, 0xe9, 0x20ac, 0]"
  using utf8_roundtrip [OF sample_locale(1) sample_text(1) _ _ sample_locale(2), of 20 10]
  unfolding sample_text(2) by simp

theorem utf8_restart_equiv_witness:
  "\<exists>r1 r2 r. r1 = mbsnrtowcs utf8_locale Store [0x41, 0xe2] 5 mb_initial \<and>
     r2 = mbsnrtowcs utf8_locale Store [0x82, 0xac] (5 - length (out r1)) (new_ps r1) \<and>
     r = mbsnrtowcs utf8_locale Store ([0x41, 0xe2] @ [0x82, 0xac]) 5 mb_initial \<and>
     (if 0 \<in> set (out r1) then out r = out r1 \<and> ilseq r = ilseq r1 \<and> new_ps r = new_ps r1
      else out r = out r1 @ out r2 \<and> ilseq r = ilseq r2 \<and> same_state (new_ps r) (new_ps r2))"
  by (intro exI conjI, rule refl, rule refl, rule refl, rule utf8_restart_equiv [OF sample_locale(1,3) _ _ refl refl refl])
    simp_all

theorem mbsnrtowcs_typed_witness:
  "list_all (\<lambda>w. utf8_valid (unat w)) (out (mbsnrtowcs utf8_locale Store [0x41, 0xed, 0xa0, 0x80] 9 mb_initial)) \<and>
   length (out (mbsnrtowcs utf8_locale Store [0x41, 0xed, 0xa0, 0x80] 9 mb_initial)) \<le> 9 \<and>
   ret (mbsnrtowcs utf8_locale Store [0x41, 0xed, 0xa0, 0x80] 9 mb_initial) \<le> 9 \<and>
   mb_ok (new_ps (mbsnrtowcs utf8_locale Store [0x41, 0xed, 0xa0, 0x80] 9 mb_initial))"
  using mbsnrtowcs_typed [OF sample_locale(1,3), of "[0x41, 0xed, 0xa0, 0x80]" 9] by simp

theorem wcsnrtombs_fits_witness:
  "\<exists>k. k \<le> 3 \<and> ret (wcsnrtombs utf8_locale Store [0x41, 0xe9, 0x20ac] 4) = int (length (utf8_text (take k [0x41, 0xe9, 0x20ac])))
     \<and> length (out (wcsnrtombs utf8_locale Store [0x41, 0xe9, 0x20ac] 4)) \<le> 4"
  using wcsnrtombs_fits [OF sample_locale(1) sample_text(1) refl, of 4] by (auto simp: eval_nat_numeral)

theorem wcsnrtombs_invalid_witness:
  "ret (wcsnrtombs utf8_locale Store [0x41, 0xe9, 0x20ac, 0xd800, 0x42] 20) = - 1"
  using wcsnrtombs_invalid [OF sample_locale(1) sample_text(1) _ _ refl, of 20 "0xd800" "[0x42]"]
  unfolding sample_text(2) by (simp add: utf8_valid_def)

theorem mbsnrtowcs_loses_count_witness:
  "out (mbsnrtowcs utf8_locale Store [0x41, 0xc3, 0xa9, 0xe2, 0x82, 0xac, 0xc3] 9 mb_initial) = [0x41, 0xe9, 0x20ac] \<and>
   ret (mbsnrtowcs utf8_locale Store [0x41, 0xc3, 0xa9, 0xe2, 0x82, 0xac, 0xc3] 9 mb_initial) = 0"
proof -
  have "utf8_valid 0xe9" "utf8_bytes 0xe9 = 0xc3 # [] @ [0xa9]"
    by (simp add: utf8_valid_def) (simp add: sample_bytes)
  from mbsnrtowcs_loses_count [OF sample_locale(1) sample_text(1) _ sample_locale(2) this _ refl, of 9]
  show ?thesis unfolding sample_text(2) by simp
qed

definition latin_locale :: cur_locale where
  "latin_locale = \<lparr>encoding = encoding_8_bit, idx8c2wc = (\<lambda>i. of_nat i), tbl8c2wc = (\<lambda>i. of_nat (128 + i)),
     idx8wc2c = (\<lambda>i. 0), tbl8wc2c = (\<lambda>i. of_nat (if i < 16 then i else i - 16)), Cwc2c_TI_LEN = 16\<rparr>"

lemma latin_inverse: "inverse_tables latin_locale"
proof -
  have "c2wc latin_locale b = ucast b \<and> wc2c latin_locale (ucast b) = b \<and> (0x7f :: wchar) < ucast b" if b: "b \<ge> 0x80" for b
  proof -
    obtain x where x: "unat b = 128 + x" "x < 128"
    proof (rule that [of "unat b - 128"])
      have "unat b < 2 ^ LENGTH(8)" by (rule unsigned_less)
      then show "unat b - 128 < 128" by simp
    qed (use b in \<open>simp add: word_le_nat_alt\<close>)
    have "unat (of_nat (x div 8) :: byte) = x div 8" using x(2) by (intro unat_of_small) simp
    then have "tbl8c2wc latin_locale (unat (idx8c2wc latin_locale (x div 8)) * 8 + x mod 8) = of_nat (128 + x)"
      by (simp add: latin_locale_def)
    moreover have "ucast (of_nat (128 + x) :: 16 word) = (of_nat (128 + x) :: wchar)"
    proof -
      have s: "unat (of_nat (128 + x) :: 16 word) = 128 + x" using x(2) by (intro unat_of_small) simp
      have "ucast (of_nat (128 + x) :: 16 word) = (of_nat (unat (of_nat (128 + x) :: 16 word)) :: wchar)"
        by (rule of_nat_unat [symmetric])
      then show ?thesis unfolding s .
    qed
    moreover have wb: "ucast b = (of_nat (128 + x) :: wchar)" unfolding x(1) [symmetric] by (rule of_nat_unat [symmetric])
    ultimately have c: "c2wc latin_locale b = ucast b" by (simp add: c2wc_def x(1))
    have u: "unat (of_nat (128 + x) :: wchar) = 128 + x" using x(2) by (intro unat_of_small) simp
    have h: "unat (of_nat ((128 + x) div 16) :: byte) = (128 + x) div 16" using x(2) by (intro unat_of_small) simp
    have "(128 + x) div 16 < 16" "(128 + x) div 256 = 0" using x(2) by simp_all
    moreover have "(of_nat (128 + x) :: wchar) \<le> Cwc2c_DOMAIN_MAX"
      unfolding word_le_nat_alt u Cwc2c_DOMAIN_MAX_def using x(2) by simp
    ultimately have "wc2c latin_locale (of_nat (128 + x)) = of_nat (128 + x)"
      using h x(2) unfolding wc2c_def Let_def u by (simp add: latin_locale_def)
    then have "wc2c latin_locale (ucast b) = b" unfolding wb x(1) [symmetric] by simp
    moreover have "(0x7f :: wchar) < ucast b" unfolding wb word_less_nat_alt u by simp
    ultimately show ?thesis using c by simp
  qed
  then show ?thesis by (auto simp: inverse_tables_def)
qed

theorem single_byte_roundtrip_witness:
  "out (mbsrtowcs latin_locale Store [0x41, 0xe9] 5 mb_initial) = map (sb_wide latin_locale) [0x41, 0xe9] @ [0] \<and>
   out (wcsrtombs latin_locale Store (map (sb_wide latin_locale) [0x41, 0xe9]) 5) = [0x41, 0xe9, 0]"
proof -
  have "list_all (sb_ok latin_locale) [0x41, 0xe9]"
    by (simp add: sb_ok_def latin_locale_def c2wc_def)
  moreover have "encoding latin_locale \<noteq> encoding_utf8" by (simp add: latin_locale_def)
  ultimately show ?thesis using single_byte_roundtrip [OF _ latin_inverse, of "[0x41, 0xe9]" 5] by simp
qed

end
