(* ===== verification/Exit.thy ===== *)
theory Exit
  imports Prelude "HOL-Library.Multiset"
begin

text \<open>
  Process termination: \<open>libc/stdlib/_atexit.c\<close> with a table that grows (\<open>__UCLIBC_DYNAMIC_ATEXIT__\<close>).

  Functions and pointers are numbers, 0 is null. What a function does when it is called, as far as it
  concerns this component, is the parameter \<open>body\<close>: the calls it makes of the operations below. Whether
  \<open>realloc\<close> succeeds for a number of slots is the parameter \<open>ok\<close>. The state has a log of the calls made.
\<close>

section \<open>The table of exit functions\<close>

datatype ef_type = ef_free | ef_in_use | ef_on_exit | ef_cxa_atexit

text \<open>The two members of the union share \<open>func\<close> and \<open>arg\<close>.\<close>

record exit_function =
  ef_kind :: ef_type
  ef_func :: nat
  ef_arg :: nat
  ef_dso :: nat

datatype exit_call = Call_cxa nat nat | Call_on nat int nat

datatype exit_action = Cxa_atexit nat nat nat | On_exit nat nat | Cxa_finalize nat

record exit_state =
  exit_function_table :: "nat \<Rightarrow> exit_function"
  exit_count :: nat
  exit_slots :: nat
  exit_cleanup :: bool
  table_freed :: bool
  exit_log :: "exit_call list"

fun trim_free :: "(nat \<Rightarrow> exit_function) \<Rightarrow> nat \<Rightarrow> nat" where
  "trim_free t 0 = 0"
| "trim_free t (Suc n) = (if ef_kind (t n) = ef_free then trim_free t n else Suc n)"

definition new_exitfn :: "(nat \<Rightarrow> bool) \<Rightarrow> exit_state \<Rightarrow> nat option \<times> exit_state" where
  "new_exitfn ok st =
     (let n = trim_free (exit_function_table st) (exit_count st);
          st1 = st\<lparr>exit_count := n\<rparr>;
          take = (\<lambda>s. (Some n, s\<lparr>exit_cleanup := True, exit_count := n + 1,
            exit_function_table := (exit_function_table s)(n := (exit_function_table s n)\<lparr>ef_kind := ef_in_use\<rparr>)\<rparr>))
      in if exit_slots st < n + 1 then
           (if ok (exit_slots st + 20) then take (st1\<lparr>exit_slots := exit_slots st + 20\<rparr>) else (None, st1))
         else take st1)"

definition cxa_atexit :: "(nat \<Rightarrow> bool) \<Rightarrow> nat \<Rightarrow> nat \<Rightarrow> nat \<Rightarrow> exit_state \<Rightarrow> int \<times> exit_state" where
  "cxa_atexit ok func arg dso st =
     (if func = 0 then (0, st)
      else case new_exitfn ok st of
             (None, st1) \<Rightarrow> (- 1, st1)
           | (Some i, st1) \<Rightarrow>
               (0, st1\<lparr>exit_function_table := (exit_function_table st1)
                  (i := \<lparr>ef_kind = ef_cxa_atexit, ef_func = func, ef_arg = arg, ef_dso = dso\<rparr>)\<rparr>))"

definition atexit :: "(nat \<Rightarrow> bool) \<Rightarrow> nat \<Rightarrow> nat \<Rightarrow> exit_state \<Rightarrow> int \<times> exit_state" where
  "atexit ok dso_handle func st = cxa_atexit ok func 0 dso_handle st"

definition on_exit :: "(nat \<Rightarrow> bool) \<Rightarrow> nat \<Rightarrow> nat \<Rightarrow> exit_state \<Rightarrow> int \<times> exit_state" where
  "on_exit ok func arg st =
     (if func = 0 then (0, st)
      else case new_exitfn ok st of
             (None, st1) \<Rightarrow> (- 1, st1)
           | (Some i, st1) \<Rightarrow>
               (0, st1\<lparr>exit_function_table := (exit_function_table st1)
                  (i := (exit_function_table st1 i)\<lparr>ef_kind := ef_on_exit, ef_func := func, ef_arg := arg\<rparr>)\<rparr>))"

section \<open>Running them\<close>

text \<open>The procedures that call functions: a list of actions, \<open>__exit_handler\<close> with the status, and the loop of
  \<open>__cxa_finalize\<close> with its counter and handle. They call each other through the functions they run.\<close>

datatype exit_proc = Actions "exit_action list" | Exit_handler int | Finalize nat nat

definition log_call :: "exit_call \<Rightarrow> exit_state \<Rightarrow> exit_state" where
  "log_call c st = st\<lparr>exit_log := exit_log st @ [c]\<rparr>"

text \<open>One step of a procedure: it ends, goes on, or runs another one before it goes on.\<close>

datatype exit_next = Ends exit_state | Goes exit_proc exit_state | Runs exit_proc exit_state exit_proc

fun exit_handler_step :: "(exit_call \<Rightarrow> exit_action list) \<Rightarrow> int \<Rightarrow> exit_state \<Rightarrow> exit_next" where
  "exit_handler_step body status st =
     (if exit_count st = 0 then Ends (st\<lparr>table_freed := True\<rparr>)
      else
        (let i = exit_count st - 1;
             st1 = st\<lparr>exit_count := i\<rparr>;
             e = exit_function_table st i
         in if ef_kind e = ef_on_exit \<and> ef_func e \<noteq> 0 then
              (let c = Call_on (ef_func e) status (ef_arg e)
               in Runs (Actions (body c)) (log_call c st1) (Exit_handler status))
            else if ef_kind e = ef_cxa_atexit \<and> ef_func e \<noteq> 0 then
              (let c = Call_cxa (ef_func e) (ef_arg e)
               in Runs (Actions (body c)) (log_call c st1) (Exit_handler status))
            else Goes (Exit_handler status) st1))"

fun finalize_step :: "(exit_call \<Rightarrow> exit_action list) \<Rightarrow> nat \<Rightarrow> nat \<Rightarrow> exit_state \<Rightarrow> exit_next" where
  "finalize_step body 0 d st = Ends st"
| "finalize_step body (Suc n) d st =
     (let e = exit_function_table st n
      in if (d = 0 \<or> d = ef_dso e) \<and> ef_kind e = ef_cxa_atexit then
           (let c = Call_cxa (ef_func e) (ef_arg e);
                st1 = st\<lparr>exit_function_table := (exit_function_table st)(n := e\<lparr>ef_kind := ef_free\<rparr>)\<rparr>
            in Runs (Actions (body c)) (log_call c st1) (Finalize n d))
         else Goes (Finalize n d) st)"

fun exit_step :: "(exit_call \<Rightarrow> exit_action list) \<Rightarrow> (nat \<Rightarrow> bool) \<Rightarrow> exit_proc \<Rightarrow> exit_state \<Rightarrow> exit_next" where
  "exit_step body ok (Actions []) st = Ends st"
| "exit_step body ok (Actions (Cxa_atexit f x d # as)) st = Goes (Actions as) (snd (cxa_atexit ok f x d st))"
| "exit_step body ok (Actions (On_exit f x # as)) st = Goes (Actions as) (snd (on_exit ok f x st))"
| "exit_step body ok (Actions (Cxa_finalize d # as)) st = Runs (Finalize (exit_count st) d) st (Actions as)"
| "exit_step body ok (Exit_handler status) st = exit_handler_step body status st"
| "exit_step body ok (Finalize n d) st = finalize_step body n d st"

partial_function (option) exit_run ::
  "(exit_call \<Rightarrow> exit_action list) \<Rightarrow> (nat \<Rightarrow> bool) \<Rightarrow> exit_proc \<Rightarrow> exit_state \<Rightarrow> exit_state option" where
  [code]: "exit_run body ok p st =
     (case exit_step body ok p st of
        Ends st1 \<Rightarrow> Some st1
      | Goes p1 st1 \<Rightarrow> exit_run body ok p1 st1
      | Runs p1 st1 p2 \<Rightarrow> Option.bind (exit_run body ok p1 st1) (\<lambda>st2. exit_run body ok p2 st2))"

definition cxa_finalize :: "(exit_call \<Rightarrow> exit_action list) \<Rightarrow> (nat \<Rightarrow> bool) \<Rightarrow> nat \<Rightarrow> exit_state \<Rightarrow> exit_state option" where
  "cxa_finalize body ok d st = exit_run body ok (Finalize (exit_count st) d) st"

text \<open>\<open>exit\<close>: the functions, then \<open>__uClibc_fini\<close>, which runs the destructors \<open>fini\<close>, then \<open>_stdio_term\<close> if it is
  linked, then \<open>_exit\<close>.\<close>

datatype exit_event = Stdio_term | Exit_now int

definition exit_process ::
  "(exit_call \<Rightarrow> exit_action list) \<Rightarrow> (nat \<Rightarrow> bool) \<Rightarrow> exit_action list \<Rightarrow> bool \<Rightarrow> int \<Rightarrow> exit_state
     \<Rightarrow> (exit_state \<times> exit_event list) option" where
  "exit_process body ok fini stdio rv st =
     Option.bind (if exit_cleanup st then exit_run body ok (Exit_handler rv) st else Some st)
       (\<lambda>st1. Option.bind (exit_run body ok (Actions fini) st1)
         (\<lambda>st2. Some (st2, (if stdio then [Stdio_term] else []) @ [Exit_now rv])))"

definition exit_start :: exit_state where
  "exit_start = \<lparr>exit_function_table = (\<lambda>_. \<lparr>ef_kind = ef_free, ef_func = 0, ef_arg = 0, ef_dso = 0\<rparr>),
     exit_count = 0, exit_slots = 0, exit_cleanup = False, table_freed = False, exit_log = []\<rparr>"

section \<open>The registered functions\<close>

definition live :: "exit_state \<Rightarrow> exit_function list" where
  "live st = map (exit_function_table st) (filter (\<lambda>i. ef_kind (exit_function_table st i) \<noteq> ef_free) [0..<exit_count st])"

definition exit_inv :: "exit_state \<Rightarrow> bool" where
  "exit_inv st \<longleftrightarrow> exit_count st \<le> exit_slots st \<and> (0 < exit_count st \<longrightarrow> exit_cleanup st) \<and>
     (\<forall>i < exit_count st. ef_kind (exit_function_table st i) \<noteq> ef_in_use \<and> ef_func (exit_function_table st i) \<noteq> 0)"

lemma trim_free_le: "trim_free t n \<le> n"
  by (induction n) auto

lemma trim_free_above: "trim_free t n \<le> i \<Longrightarrow> i < n \<Longrightarrow> ef_kind (t i) = ef_free"
  by (induction n) (auto simp: less_Suc_eq split: if_splits)

lemma trim_free_last: "0 < trim_free t n \<Longrightarrow> ef_kind (t (trim_free t n - 1)) \<noteq> ef_free"
  by (induction n) auto

lemma filter_trim:
  "filter (\<lambda>i. ef_kind (t i) \<noteq> ef_free) [0..<trim_free t n] = filter (\<lambda>i. ef_kind (t i) \<noteq> ef_free) [0..<n]"
  by (induction n) auto

lemma live_push:
  "n = trim_free (exit_function_table st) (exit_count st) \<Longrightarrow> ef_kind e \<noteq> ef_free \<Longrightarrow>
   exit_function_table st' = (exit_function_table st)(n := e) \<Longrightarrow> exit_count st' = n + 1 \<Longrightarrow> live st' = live st @ [e]"
proof -
  assume n: "n = trim_free (exit_function_table st) (exit_count st)" and e: "ef_kind e \<noteq> ef_free"
    and t: "exit_function_table st' = (exit_function_table st)(n := e)" and c: "exit_count st' = n + 1"
  let ?f = "\<lambda>i. ef_kind (exit_function_table st i) \<noteq> ef_free"
  have "filter (\<lambda>i. ef_kind (exit_function_table st' i) \<noteq> ef_free) [0..<n] = filter ?f [0..<n]"
    by (rule filter_cong) (auto simp: t)
  moreover have "map (exit_function_table st') (filter ?f [0..<n]) = map (exit_function_table st) (filter ?f [0..<n])"
    by (auto simp: t)
  ultimately have "live st' = map (exit_function_table st) (filter ?f [0..<n]) @ [e]"
    using e by (simp add: live_def c t)
  then show ?thesis unfolding n filter_trim by (simp add: live_def)
qed

lemma new_exitfn_cases:
  assumes "exit_inv st" "new_exitfn ok st = (r, st1)"
  obtains (full) "r = None" "exit_inv st1" "live st1 = live st" "exit_log st1 = exit_log st"
      "table_freed st1 = table_freed st" "\<not> ok (exit_slots st + 20)" "exit_slots st1 = exit_slots st"
    | (slot) n where "r = Some n" "n = trim_free (exit_function_table st) (exit_count st)" "n < exit_slots st1" "exit_count st1 = n + 1"
      "exit_function_table st1 = (exit_function_table st)(n := (exit_function_table st n)\<lparr>ef_kind := ef_in_use\<rparr>)"
      "exit_cleanup st1" "exit_log st1 = exit_log st" "table_freed st1 = table_freed st"
proof -
  define n where "n = trim_free (exit_function_table st) (exit_count st)"
  have le: "n \<le> exit_count st" unfolding n_def by (rule trim_free_le)
  have inv: "exit_inv (st\<lparr>exit_count := n\<rparr>)" using assms(1) le by (auto simp: exit_inv_def)
  have lv: "live (st\<lparr>exit_count := n\<rparr>) = live st" by (simp add: live_def n_def filter_trim)
  show ?thesis
  proof (cases "exit_slots st < n + 1 \<and> \<not> ok (exit_slots st + 20)")
    case True
    then have "r = None" "st1 = st\<lparr>exit_count := n\<rparr>"
      using assms(2) by (simp_all add: new_exitfn_def Let_def flip: n_def)
    then show ?thesis using True inv lv by (intro full) simp_all
  next
    case False
    have "n \<le> exit_slots st" using assms(1) le by (simp add: exit_inv_def)
    then show ?thesis
      using assms(2) False by (intro slot [of n]) (auto simp: new_exitfn_def Let_def n_def [symmetric] split: if_splits)
  qed
qed

definition registers :: "exit_function \<Rightarrow> exit_state \<Rightarrow> exit_state \<Rightarrow> bool" where
  "registers e st st' \<longleftrightarrow> exit_inv st' \<and> live st' = live st @ [e] \<and> exit_log st' = exit_log st \<and>
     table_freed st' = table_freed st \<and> exit_cleanup st'"

lemma registersI:
  assumes "exit_inv st" "new_exitfn ok st = (Some n, st1)" "ef_kind e \<noteq> ef_free" "ef_kind e \<noteq> ef_in_use" "ef_func e \<noteq> 0"
  shows "registers e st (st1\<lparr>exit_function_table := (exit_function_table st1)(n := e)\<rparr>)"
  using assms(1,2)
proof (cases rule: new_exitfn_cases)
  case (slot m)
  have le: "m \<le> exit_count st" unfolding slot(2) by (rule trim_free_le)
  have "live (st1\<lparr>exit_function_table := (exit_function_table st1)(n := e)\<rparr>) = live st @ [e]"
    by (rule live_push [OF slot(2) assms(3)]) (use slot in auto)
  moreover have "exit_inv (st1\<lparr>exit_function_table := (exit_function_table st1)(n := e)\<rparr>)"
    using assms slot le by (auto simp: exit_inv_def less_Suc_eq)
  ultimately show ?thesis using slot by (simp add: registers_def)
qed simp

definition cxa_entry :: "nat \<Rightarrow> nat \<Rightarrow> nat \<Rightarrow> exit_function" where
  "cxa_entry f x d = \<lparr>ef_kind = ef_cxa_atexit, ef_func = f, ef_arg = x, ef_dso = d\<rparr>"

lemma cxa_atexit_registers:
  assumes "exit_inv st" "cxa_atexit ok f x d st = (r, st')" "f \<noteq> 0"
  shows "r = 0 \<and> registers (cxa_entry f x d) st st' \<or>
    r = - 1 \<and> \<not> ok (exit_slots st + 20) \<and> exit_inv st' \<and> live st' = live st \<and> exit_log st' = exit_log st"
proof -
  obtain q st1 where n: "new_exitfn ok st = (q, st1)" by (cases "new_exitfn ok st")
  show ?thesis
  proof (cases q)
    case None
    with n have "new_exitfn ok st = (None, st1)" by simp
    with assms(1) show ?thesis
      by (cases rule: new_exitfn_cases) (use n None assms(2,3) in \<open>auto simp: cxa_atexit_def\<close>)
  next
    case (Some i)
    then show ?thesis
      using registersI [OF assms(1), of ok i st1 "cxa_entry f x d"] n assms(2,3) by (auto simp: cxa_atexit_def cxa_entry_def)
  qed
qed

lemma on_exit_registers:
  assumes "exit_inv st" "on_exit ok f x st = (r, st')" "f \<noteq> 0"
  shows "(\<exists>d. r = 0 \<and> registers \<lparr>ef_kind = ef_on_exit, ef_func = f, ef_arg = x, ef_dso = d\<rparr> st st') \<or>
    r = - 1 \<and> \<not> ok (exit_slots st + 20) \<and> exit_inv st' \<and> live st' = live st \<and> exit_log st' = exit_log st"
proof -
  obtain q st1 where n: "new_exitfn ok st = (q, st1)" by (cases "new_exitfn ok st")
  show ?thesis
  proof (cases q)
    case None
    with n have "new_exitfn ok st = (None, st1)" by simp
    with assms(1) show ?thesis
      by (cases rule: new_exitfn_cases) (use n None assms(2,3) in \<open>auto simp: on_exit_def\<close>)
  next
    case (Some i)
    let ?e = "(exit_function_table st1 i)\<lparr>ef_kind := ef_on_exit, ef_func := f, ef_arg := x\<rparr>"
    have "?e = \<lparr>ef_kind = ef_on_exit, ef_func = f, ef_arg = x, ef_dso = ef_dso (exit_function_table st1 i)\<rparr>"
      by (cases "exit_function_table st1 i") simp
    moreover have "registers ?e st st'" "r = 0"
      using registersI [OF assms(1), of ok i st1 ?e] n assms(2,3) Some by (auto simp: on_exit_def)
    ultimately show ?thesis by metis
  qed
qed

section \<open>The order of the calls\<close>

definition call_of :: "int \<Rightarrow> exit_function \<Rightarrow> exit_call" where
  "call_of status e = (if ef_kind e = ef_on_exit then Call_on (ef_func e) status (ef_arg e) else Call_cxa (ef_func e) (ef_arg e))"

fun registered :: "int \<Rightarrow> exit_action \<Rightarrow> exit_call list" where
  "registered status (Cxa_atexit f x d) = (if f = 0 then [] else [Call_cxa f x])"
| "registered status (On_exit f x) = (if f = 0 then [] else [Call_on f status x])"
| "registered status (Cxa_finalize d) = []"

fun only_registers :: "exit_action \<Rightarrow> bool" where
  "only_registers (Cxa_finalize d) = False"
| "only_registers a = True"

text \<open>The calls of a stack of functions, where a call pushes the functions that it registers.\<close>

inductive lifo :: "(exit_call \<Rightarrow> exit_action list) \<Rightarrow> int \<Rightarrow> exit_call list \<Rightarrow> exit_call list \<Rightarrow> bool" for body status where
  lifo_Nil: "lifo body status [] []"
| lifo_Cons: "lifo body status (rev (concat (map (registered status) (body c))) @ cs) log \<Longrightarrow> lifo body status (c # cs) (c # log)"

inductive_cases lifo_NilE: "lifo body status [] log"
inductive_cases lifo_ConsE: "lifo body status (c # cs) log"

lemma lifo_append: "lifo body status xs l1 \<Longrightarrow> lifo body status ys l2 \<Longrightarrow> lifo body status (xs @ ys) (l1 @ l2)"
  by (induction rule: lifo.induct) (auto intro: lifo.intros simp: append_assoc [symmetric] simp del: append_assoc)

lemma lifo_subset: "lifo body status cs log \<Longrightarrow> mset cs \<subseteq># mset log"
proof (induction rule: lifo.induct)
  case (lifo_Cons c cs log)
  have "mset cs \<subseteq># mset (rev (concat (map (registered status) (body c))) @ cs)" by simp
  then show ?case using subset_mset.order_trans [OF _ lifo_Cons.IH] by simp
qed simp

lemma lifo_list:
  "(\<And>c. c \<in> set cs \<Longrightarrow> \<exists>log. lifo body status [c] log) \<Longrightarrow> \<exists>log. lifo body status cs log"
proof (induction cs)
  case (Cons c cs)
  obtain l1 where "lifo body status [c] l1" using Cons.prems [of c] by auto
  moreover obtain l2 where "lifo body status cs l2" using Cons by auto
  ultimately have "lifo body status [c] l1" "lifo body status cs l2" .
  from lifo_append [OF this] show ?case by auto
qed (auto intro: lifo.intros)

lemma lifo_exists:
  assumes "\<And>c c'. c' \<in> set (concat (map (registered status) (body c))) \<Longrightarrow> rank c' < (rank c :: nat)"
  shows "\<exists>log. lifo body status cs log"
proof (rule lifo_list)
  fix c
  show "\<exists>log. lifo body status [c] log"
  proof (induction c rule: measure_induct_rule [of rank])
    case (less c)
    have "\<exists>log. lifo body status (rev (concat (map (registered status) (body c)))) log"
      by (rule lifo_list) (use less assms in auto)
    then show ?case using lifo_Cons [of body status c "[]"] by auto
  qed
qed

abbreviation always :: "nat \<Rightarrow> bool" where "always \<equiv> \<lambda>_. True"

lemma actions_run:
  "list_all only_registers as \<Longrightarrow> exit_inv st \<Longrightarrow>
   \<exists>st'. exit_run body always (Actions as) st = Some st' \<and> exit_inv st' \<and> exit_log st' = exit_log st \<and>
     table_freed st' = table_freed st \<and>
     map (call_of status) (live st') = map (call_of status) (live st) @ concat (map (registered status) as)"
proof (induction as arbitrary: st)
  case Nil
  then show ?case by (simp add: exit_run.simps)
next
  case (Cons a as)
  define st1 where "st1 = (case a of Cxa_atexit f x d \<Rightarrow> snd (cxa_atexit always f x d st) | On_exit f x \<Rightarrow> snd (on_exit always f x st) | _ \<Rightarrow> st)"
  have s: "exit_inv st1 \<and> exit_log st1 = exit_log st \<and> table_freed st1 = table_freed st \<and>
    map (call_of status) (live st1) = map (call_of status) (live st) @ registered status a"
  proof (cases a)
    case (Cxa_atexit f x d)
    show ?thesis
    proof (cases "f = 0")
      case True
      then show ?thesis using Cons.prems Cxa_atexit by (simp add: st1_def cxa_atexit_def)
    next
      case False
      obtain r s where c: "cxa_atexit always f x d st = (r, s)" by (cases "cxa_atexit always f x d st")
      show ?thesis using cxa_atexit_registers [OF Cons.prems(2) c False] Cxa_atexit c False
        by (auto simp: st1_def registers_def cxa_entry_def call_of_def)
    qed
  next
    case (On_exit f x)
    show ?thesis
    proof (cases "f = 0")
      case True
      then show ?thesis using Cons.prems On_exit by (simp add: st1_def on_exit_def)
    next
      case False
      obtain r s where c: "on_exit always f x st = (r, s)" by (cases "on_exit always f x st")
      show ?thesis using on_exit_registers [OF Cons.prems(2) c False] On_exit c False
        by (auto simp: st1_def registers_def call_of_def)
    qed
  qed (use Cons.prems in auto)
  have "exit_run body always (Actions (a # as)) st = exit_run body always (Actions as) st1"
    using Cons.prems by (subst exit_run.simps) (cases a; simp add: st1_def)
  then show ?case using Cons.IH [of st1] Cons.prems s by auto
qed

lemma handler_skip:
  "exit_run body ok (Exit_handler status) st =
   exit_run body ok (Exit_handler status) (st\<lparr>exit_count := trim_free (exit_function_table st) (exit_count st)\<rparr>)"
proof (induction "exit_count st" arbitrary: st)
  case 0
  then have "st\<lparr>exit_count := trim_free (exit_function_table st) (exit_count st)\<rparr> = st" by simp
  then show ?case by simp
next
  case (Suc n)
  show ?case
  proof (cases "ef_kind (exit_function_table st n) = ef_free")
    case True
    have n: "exit_count st = Suc n" using Suc by simp
    have "exit_run body ok (Exit_handler status) st = exit_run body ok (Exit_handler status) (st\<lparr>exit_count := n\<rparr>)"
      using True n by (subst exit_run.simps) (simp add: Let_def)
    also have "\<dots> = exit_run body ok (Exit_handler status) (st\<lparr>exit_count := trim_free (exit_function_table st) n\<rparr>)"
      using Suc.hyps(1) [of "st\<lparr>exit_count := n\<rparr>"] by simp
    finally show ?thesis using True n by simp
  next
    case False
    then have "st\<lparr>exit_count := trim_free (exit_function_table st) (exit_count st)\<rparr> = st"
      using Suc.hyps(2) [symmetric] by simp
    then show ?thesis by simp
  qed
qed

lemma live_pop:
  assumes "live st = es @ [e]" "n = trim_free (exit_function_table st) (exit_count st)"
  shows "0 < n" "exit_function_table st (n - 1) = e" "live (st\<lparr>exit_count := n - 1\<rparr>) = es" "ef_kind e \<noteq> ef_free"
proof -
  let ?t = "exit_function_table st"
  have l: "map ?t (filter (\<lambda>i. ef_kind (?t i) \<noteq> ef_free) [0..<n]) = es @ [e]"
    using assms by (simp add: live_def filter_trim)
  then show n: "0 < n" by (cases n) auto
  then obtain m where m: "n = Suc m" by (cases n) auto
  have k: "ef_kind (?t m) \<noteq> ef_free" using trim_free_last [of ?t "exit_count st", folded assms(2)] n unfolding m by simp
  with l m have "map ?t (filter (\<lambda>i. ef_kind (?t i) \<noteq> ef_free) [0..<m]) = es \<and> ?t m = e" by simp
  then show "?t (n - 1) = e" "live (st\<lparr>exit_count := n - 1\<rparr>) = es" "ef_kind e \<noteq> ef_free"
    using k m by (auto simp: live_def)
qed

lemma handler_run:
  assumes "\<And>c. list_all only_registers (body c)"
  shows "lifo body status cs log \<Longrightarrow> exit_inv st \<Longrightarrow> cs = rev (map (call_of status) (live st)) \<Longrightarrow>
    \<exists>st'. exit_run body always (Exit_handler status) st = Some st' \<and> exit_log st' = exit_log st @ log \<and> live st' = [] \<and>
      table_freed st' \<and> exit_inv st'"
proof (induction arbitrary: st rule: lifo.induct)
  case lifo_Nil
  define n where "n = trim_free (exit_function_table st) (exit_count st)"
  have "live st = []" using lifo_Nil.prems(2) by simp
  then have "n = 0" using trim_free_last [of "exit_function_table st" "exit_count st"] filter_trim [of "exit_function_table st" "exit_count st"]
    by (cases n) (auto simp: live_def n_def [symmetric] simp flip: n_def)
  then have "exit_run body always (Exit_handler status) st = Some (st\<lparr>exit_count := 0, table_freed := True\<rparr>)"
    by (subst handler_skip, subst exit_run.simps) (simp add: n_def)
  then show ?case using lifo_Nil.prems(1) by (simp add: live_def exit_inv_def)
next
  case (lifo_Cons c cs log)
  define n where "n = trim_free (exit_function_table st) (exit_count st)"
  obtain es e where l: "live st = es @ [e]" "call_of status e = c" "cs = rev (map (call_of status) es)"
    using lifo_Cons.prems(2) by (cases "live st" rule: rev_cases) auto
  note p = live_pop [OF l(1) n_def]
  have le: "n \<le> exit_count st" unfolding n_def by (rule trim_free_le)
  define st1 where "st1 = log_call c (st\<lparr>exit_count := n - 1\<rparr>)"
  have e: "ef_kind e \<noteq> ef_in_use" "ef_func e \<noteq> 0"
    using lifo_Cons.prems(1) p(1,2) le unfolding exit_inv_def by (metis Suc_diff_1 Suc_le_lessD le_less_trans diff_le_self le_eq_less_or_eq lessI order_less_le_trans)+
  have st1: "exit_inv st1" "live st1 = es" "exit_log st1 = exit_log st @ [c]"
    using lifo_Cons.prems(1) le p(3) by (auto simp: st1_def log_call_def exit_inv_def live_def)
  obtain st2 where r: "exit_run body always (Actions (body c)) st1 = Some st2" "exit_inv st2"
    "exit_log st2 = exit_log st1" "map (call_of status) (live st2) = map (call_of status) es @ concat (map (registered status) (body c))"
    using actions_run [of "body c" st1 body status] assms [of c] st1(1,2) by auto
  have "exit_run body always (Exit_handler status) st = Option.bind (exit_run body always (Actions (body c)) st1) (exit_run body always (Exit_handler status))"
    using p e l(2) by (subst handler_skip, subst exit_run.simps) (cases "ef_kind e"; simp add: st1_def Let_def call_of_def flip: n_def)
  then have "exit_run body always (Exit_handler status) st = exit_run body always (Exit_handler status) st2"
    using r(1) by simp
  then show ?case using lifo_Cons.IH [OF r(2)] r(3,4) st1(3) l(3) by auto
qed

section \<open>Finalisation\<close>

definition of_dso :: "nat \<Rightarrow> exit_function \<Rightarrow> bool" where
  "of_dso d e \<longleftrightarrow> (d = 0 \<or> d = ef_dso e) \<and> ef_kind e = ef_cxa_atexit"

definition finalized :: "nat \<Rightarrow> nat \<Rightarrow> exit_state \<Rightarrow> exit_state" where
  "finalized n d st = st\<lparr>
     exit_function_table := (\<lambda>i. if i < n \<and> of_dso d (exit_function_table st i)
       then (exit_function_table st i)\<lparr>ef_kind := ef_free\<rparr> else exit_function_table st i),
     exit_log := exit_log st @ rev (map (call_of 0) (filter (of_dso d) (map (exit_function_table st) [0..<n])))\<rparr>"

lemma finalize_run:
  assumes "\<And>c. body c = []"
  shows "exit_run body ok (Finalize n d) st = Some (finalized n d st)"
proof (induction n arbitrary: st)
  case 0
  then show ?case by (simp add: exit_run.simps finalized_def)
next
  case (Suc n)
  let ?e = "exit_function_table st n"
  show ?case
  proof (cases "of_dso d ?e")
    case True
    let ?c = "Call_cxa (ef_func ?e) (ef_arg ?e)"
    let ?st = "log_call ?c (st\<lparr>exit_function_table := (exit_function_table st)(n := ?e\<lparr>ef_kind := ef_free\<rparr>)\<rparr>)"
    have a: "exit_run body ok (Actions (body ?c)) ?st = Some ?st" using assms by (simp add: exit_run.simps)
    have "exit_run body ok (Finalize (Suc n) d) st =
        Option.bind (exit_run body ok (Actions (body ?c)) ?st) (\<lambda>s. exit_run body ok (Finalize n d) s)"
      by (subst exit_run.simps) (use True in \<open>simp add: Let_def of_dso_def\<close>)
    also have "\<dots> = Some (finalized n d ?st)" unfolding a by (simp add: Suc)
    also have "finalized n d ?st = finalized (Suc n) d st"
    proof (rule exit_state.equality)
      show "exit_function_table (finalized n d ?st) = exit_function_table (finalized (Suc n) d st)"
        using True by (intro ext) (auto simp: finalized_def log_call_def less_Suc_eq of_dso_def)
      have "map (exit_function_table ?st) [0..<n] = map (exit_function_table st) [0..<n]" by (simp add: log_call_def)
      then show "exit_log (finalized n d ?st) = exit_log (finalized (Suc n) d st)"
        using True by (simp add: finalized_def log_call_def call_of_def of_dso_def del: map_eq_conv)
    qed (simp_all add: finalized_def log_call_def)
    finally show ?thesis .
  next
    case False
    have "exit_run body ok (Finalize (Suc n) d) st = exit_run body ok (Finalize n d) st"
      by (subst exit_run.simps) (use False in \<open>auto simp: Let_def of_dso_def\<close>)
    also have "\<dots> = Some (finalized n d st)" by (rule Suc)
    also have "finalized n d st = finalized (Suc n) d st" 
    proof (rule exit_state.equality)
      show "exit_function_table (finalized n d st) = exit_function_table (finalized (Suc n) d st)"
        using False by (intro ext) (auto simp: finalized_def less_Suc_eq)
    qed (use False in \<open>simp_all add: finalized_def\<close>)
    finally show ?thesis .
  qed
qed

lemma of_dso_live: "of_dso d e \<Longrightarrow> ef_kind e \<noteq> ef_free"
  by (simp add: of_dso_def)

lemma filter_live: "filter (of_dso d) (map (exit_function_table st) [0..<exit_count st]) = filter (of_dso d) (live st)"
proof -
  have "filter (of_dso d) (map t (filter (\<lambda>i. ef_kind (t i) \<noteq> ef_free) xs)) = filter (of_dso d) (map t xs)" for t and xs :: "nat list"
    by (induction xs) (auto dest: of_dso_live)
  then show ?thesis by (simp add: live_def)
qed

lemma finalized_live:
  "live (finalized (exit_count st) d st) = filter (\<lambda>e. \<not> of_dso d e) (live st)"
proof -
  let ?t = "exit_function_table st" and ?n = "exit_count st"
  let ?u = "\<lambda>i. if i < ?n \<and> of_dso d (?t i) then (?t i)\<lparr>ef_kind := ef_free\<rparr> else ?t i"
  have "map ?u (filter (\<lambda>i. ef_kind (?u i) \<noteq> ef_free) xs) = filter (\<lambda>e. \<not> of_dso d e) (map ?t (filter (\<lambda>i. ef_kind (?t i) \<noteq> ef_free) xs))"
    if "\<forall>i \<in> set xs. i < ?n" for xs
    using that by (induction xs) (auto simp: of_dso_live)
  then show ?thesis by (simp add: live_def finalized_def)
qed

lemma finalized_inv: "exit_inv st \<Longrightarrow> exit_inv (finalized (exit_count st) d st)"
  by (auto simp: exit_inv_def finalized_def)

text \<open>The same for \<open>__exit_handler\<close>, when no function registers another one.\<close>

definition handled :: "int \<Rightarrow> exit_state \<Rightarrow> exit_state" where
  "handled status st = st\<lparr>exit_count := 0, table_freed := True,
     exit_log := exit_log st @ rev (map (call_of status) (live st))\<rparr>"

lemma handler_plain:
  assumes "\<And>c. body c = []"
  shows "exit_inv st \<Longrightarrow> exit_run body ok (Exit_handler status) st = Some (handled status st)"
proof (induction "exit_count st" arbitrary: st)
  case 0
  then show ?case by (subst exit_run.simps) (simp add: handled_def live_def)
next
  case (Suc n)
  note n = Suc.hyps(2) [symmetric]
  let ?e = "exit_function_table st n"
  let ?st = "st\<lparr>exit_count := n\<rparr>"
  have a: "exit_run body ok (Actions (body c)) s = Some s" for c s using assms by (simp add: exit_run.simps)
  have e: "ef_kind ?e \<noteq> ef_in_use" "ef_func ?e \<noteq> 0" using Suc.prems n by (auto simp: exit_inv_def)
  have l: "live st = live ?st @ (if ef_kind ?e = ef_free then [] else [?e])" by (simp add: live_def n)
  show ?case
  proof (cases "ef_kind ?e = ef_free")
    case True
    have "exit_run body ok (Exit_handler status) st = exit_run body ok (Exit_handler status) ?st"
      by (subst exit_run.simps) (use True n in \<open>simp add: Let_def\<close>)
    also have "\<dots> = Some (handled status ?st)" using Suc.prems n by (intro Suc.hyps(1)) (auto simp: exit_inv_def)
    finally show ?thesis using l True by (simp add: handled_def)
  next
    case False
    let ?s = "log_call (call_of status ?e) ?st"
    have "exit_run body ok (Exit_handler status) st =
        Option.bind (exit_run body ok (Actions (body (call_of status ?e))) ?s) (\<lambda>s. exit_run body ok (Exit_handler status) s)"
      by (subst exit_run.simps) (use False n e in \<open>cases "ef_kind ?e"; simp add: Let_def call_of_def\<close>)
    also have "\<dots> = exit_run body ok (Exit_handler status) ?s" unfolding a by simp
    also have "\<dots> = Some (handled status ?s)"
      using Suc.prems n by (intro Suc.hyps(1)) (auto simp: exit_inv_def log_call_def)
    finally show ?thesis using l False by (simp add: handled_def log_call_def live_def)
  qed
qed

section \<open>Properties\<close>

text \<open>C30: \<open>exit\<close> ends and calls every registered function, in the reverse order of registration; functions that are
  registered by a function while it runs are called next. The conditions are that the functions do not register each
  other for ever and do not call \<open>__cxa_finalize\<close> while they run (they may register functions with \<open>atexit\<close>, \<open>on_exit\<close> and
  \<open>__cxa_atexit\<close>), that every \<open>realloc\<close> of the table for these registrations succeeds, and that there are no destructors
  for \<open>__uClibc_fini\<close> to run.\<close>

theorem exit_runs_all:
  assumes "exit_inv st" "\<And>c. list_all only_registers (body c)"
    and "\<And>c c'. c' \<in> set (concat (map (registered rv) (body c))) \<Longrightarrow> rank c' < (rank c :: nat)"
  shows "\<exists>st' log. exit_process body always [] stdio rv st = Some (st', (if stdio then [Stdio_term] else []) @ [Exit_now rv]) \<and>
    exit_log st' = exit_log st @ log \<and> lifo body rv (rev (map (call_of rv) (live st))) log \<and>
    mset (map (call_of rv) (live st)) \<subseteq># mset log \<and> live st' = []"
proof -
  obtain log where l: "lifo body rv (rev (map (call_of rv) (live st))) log" using lifo_exists [of rv body rank] assms(3) by blast
  obtain st' where r: "exit_run body always (Exit_handler rv) st = Some st'" "exit_log st' = exit_log st @ log" "live st' = []"
    using handler_run [OF assms(2) l assms(1) refl] by auto
  have n: "log = [] \<and> live st = []" if "\<not> exit_cleanup st"
  proof -
    have "exit_count st = 0" using that assms(1) by (auto simp: exit_inv_def)
    then show ?thesis using l by (auto simp: live_def elim: lifo_NilE)
  qed
  have a: "exit_run body always (Actions []) s = Some s" for s by (simp add: exit_run.simps)
  show ?thesis
  proof (cases "exit_cleanup st")
    case True
    then have "exit_process body always [] stdio rv st = Some (st', (if stdio then [Stdio_term] else []) @ [Exit_now rv])"
      using r a by (simp add: exit_process_def)
    then show ?thesis using r l lifo_subset [OF l] by (intro exI [of _ st'] exI [of _ log]) simp
  next
    case False
    then have "exit_process body always [] stdio rv st = Some (st, (if stdio then [Stdio_term] else []) @ [Exit_now rv])"
      using a by (simp add: exit_process_def)
    then show ?thesis using l n [OF False] by (intro exI [of _ st] exI [of _ "[]"]) simp
  qed
qed

text \<open>C31: a registration that succeeds adds the function behind all the others and overwrites none of them, also
  when free slots are reused and when the table grows; one that fails for want of memory leaves the registered functions as they
  were.\<close>

theorem atexit_refines:
  assumes "exit_inv st" "f \<noteq> 0" "cxa_atexit ok f x d st = (r, st')" "on_exit ok f x st = (q, st'')"
  shows "exit_inv st' \<and> exit_inv st'' \<and> exit_log st' = exit_log st \<and> exit_log st'' = exit_log st \<and>
    (if ok (exit_slots st + 20) \<or> r = 0
     then r = 0 \<and> live st' = live st @ [\<lparr>ef_kind = ef_cxa_atexit, ef_func = f, ef_arg = x, ef_dso = d\<rparr>]
     else r = - 1 \<and> live st' = live st) \<and>
    (if ok (exit_slots st + 20) \<or> q = 0
     then q = 0 \<and> map (call_of s) (live st'') = map (call_of s) (live st) @ [Call_on f s x]
     else q = - 1 \<and> live st'' = live st)"
  using cxa_atexit_registers [OF assms(1,3,2)] on_exit_registers [OF assms(1,4,2)]
  by (auto simp: registers_def cxa_entry_def call_of_def)

text \<open>\<open>__cxa_finalize\<close> calls exactly the functions that were registered with \<open>__cxa_atexit\<close> for the handle, in
  reverse order, and removes them; a second call calls nothing, and \<open>exit\<close> calls the others.\<close>

theorem cxa_finalize_once:
  assumes "exit_inv st" "\<And>c. body c = []"
  shows "\<exists>st1. cxa_finalize body ok d st = Some st1 \<and> exit_inv st1 \<and>
    exit_log st1 = exit_log st @ map (call_of 0) (rev (filter (of_dso d) (live st))) \<and>
    live st1 = filter (\<lambda>e. \<not> of_dso d e) (live st) \<and>
    (\<exists>st2. cxa_finalize body ok d st1 = Some st2 \<and> exit_log st2 = exit_log st1 \<and> live st2 = live st1) \<and>
    (\<exists>st3. exit_run body ok (Exit_handler rv) st1 = Some st3 \<and>
       exit_log st3 = exit_log st1 @ map (call_of rv) (rev (live st1)))"
proof -
  let ?s = "finalized (exit_count st) d st"
  have i: "exit_inv ?s" by (rule finalized_inv [OF assms(1)])
  have c: "exit_count (finalized n d s) = exit_count s" for n s by (simp add: finalized_def)
  have lg: "exit_log (finalized (exit_count s) d s) = exit_log s @ map (call_of 0) (rev (filter (of_dso d) (live s)))" for s
    by (simp add: finalized_def filter_live rev_map)
  have l: "live ?s = filter (\<lambda>e. \<not> of_dso d e) (live st)" by (rule finalized_live)
  have "exit_run body ok (Exit_handler rv) ?s = Some (handled rv ?s)" by (rule handler_plain [OF assms(2) i])
  moreover have "cxa_finalize body ok d s = Some (finalized (exit_count s) d s)" for s
    unfolding cxa_finalize_def by (rule finalize_run [OF assms(2)])
  moreover have "exit_log (finalized (exit_count ?s) d ?s) = exit_log ?s" "live (finalized (exit_count ?s) d ?s) = live ?s"
    unfolding lg finalized_live l by (simp_all add: filter_empty_conv)
  ultimately show ?thesis using i lg [of st] l by (intro exI [of _ ?s]) (auto simp: rev_map handled_def)
qed

text \<open>\<open>exit\<close> frees the table and then runs the destructors with its address and size unchanged: a
  function that a destructor registers is stored into the freed table with success, and never called.\<close>

theorem atexit_in_destructor_lost:
  assumes "exit_inv st" "\<And>c. body c = []" "live st \<noteq> []" "f \<noteq> 0"
  shows "\<exists>st' ev. exit_process body ok [Cxa_atexit f x d] stdio rv st = Some (st', ev) \<and> table_freed st' \<and>
    exit_slots st' = exit_slots st \<and> live st' = [\<lparr>ef_kind = ef_cxa_atexit, ef_func = f, ef_arg = x, ef_dso = d\<rparr>] \<and>
    exit_log st' = exit_log st @ map (call_of rv) (rev (live st))"
proof -
  let ?s = "handled rv st"
  have h: "exit_run body ok (Exit_handler rv) st = Some ?s" by (rule handler_plain [OF assms(2,1)])
  have "exit_count st \<noteq> 0"
  proof
    assume "exit_count st = 0"
    then have "live st = []" by (simp add: live_def)
    with assms(3) show False by simp
  qed
  then have c: "exit_cleanup st" "0 < exit_slots st" using assms(1) by (auto simp: exit_inv_def)
  let ?r = "snd (cxa_atexit ok f x d ?s)"
  have "exit_run body ok (Actions [Cxa_atexit f x d]) ?s = Some ?r" by (simp add: exit_run.simps)
  then have "exit_process body ok [Cxa_atexit f x d] stdio rv st = Some (?r, (if stdio then [Stdio_term] else []) @ [Exit_now rv])"
    using h c(1) by (simp add: exit_process_def)
  moreover have "table_freed ?r \<and> exit_slots ?r = exit_slots st \<and> live ?r = [\<lparr>ef_kind = ef_cxa_atexit, ef_func = f, ef_arg = x, ef_dso = d\<rparr>] \<and>
    exit_log ?r = exit_log st @ map (call_of rv) (rev (live st))"
    using c(2) assms(4) by (simp add: handled_def cxa_atexit_def new_exitfn_def live_def rev_map Let_def)
  ultimately show ?thesis by blast
qed

section \<open>Witnesses\<close>

definition three_functions :: exit_state where
  "three_functions = snd (on_exit always 7 70 (snd (cxa_atexit always 6 60 2 (snd (cxa_atexit always 5 50 1 exit_start)))))"

lemma three_functions_live:
  "exit_inv three_functions" "exit_log three_functions = []"
  "map (call_of 3) (live three_functions) = [Call_cxa 5 50, Call_cxa 6 60, Call_on 7 3 70]"
  by (simp_all add: three_functions_def on_exit_def cxa_atexit_def new_exitfn_def exit_start_def exit_inv_def live_def call_of_def
    less_Suc_eq)

fun sample_body :: "exit_call \<Rightarrow> exit_action list" where
  "sample_body (Call_cxa f x) = (if f = 6 then [Cxa_atexit 8 80 1] else [])"
| "sample_body (Call_on f s x) = []"

theorem exit_runs_all_witness:
  "\<exists>st' log. exit_process sample_body always [] True 3 three_functions = Some (st', [Stdio_term, Exit_now 3]) \<and>
    exit_log st' = log \<and> lifo sample_body 3 [Call_on 7 3 70, Call_cxa 6 60, Call_cxa 5 50] log"
proof -
  define rank where "rank = (\<lambda>c. case c of Call_cxa f x \<Rightarrow> if f = 6 then 1 else 0 | Call_on f s x \<Rightarrow> (0 :: nat))"
  have b: "list_all only_registers (sample_body c)" for c by (cases c) auto
  have r: "c' \<in> set (concat (map (registered 3) (sample_body c))) \<Longrightarrow> rank c' < rank c" for c c'
    by (cases c) (auto simp: rank_def split: if_splits)
  show ?thesis using exit_runs_all [where body = sample_body and rv = 3 and rank = rank and stdio = True, OF three_functions_live(1) b r] three_functions_live by auto
qed

theorem atexit_refines_witness:
  "\<exists>r st'. cxa_atexit always 9 90 2 three_functions = (r, st') \<and> r = 0 \<and>
     live st' = live three_functions @ [\<lparr>ef_kind = ef_cxa_atexit, ef_func = 9, ef_arg = 90, ef_dso = 2\<rparr>]"
proof -
  obtain r st' q st'' where "cxa_atexit always 9 90 2 three_functions = (r, st')" "on_exit always 9 90 three_functions = (q, st'')"
    by (metis surj_pair)
  with atexit_refines [OF three_functions_live(1) _ this] show ?thesis by auto
qed

theorem cxa_finalize_once_witness:
  "\<exists>st1. cxa_finalize (\<lambda>_. []) always 1 three_functions = Some st1 \<and> exit_inv st1 \<and>
    live st1 = filter (\<lambda>e. \<not> of_dso 1 e) (live three_functions)"
  using cxa_finalize_once [OF three_functions_live(1), of "\<lambda>_. []" always 1 0] by auto

theorem atexit_in_destructor_lost_witness:
  "\<exists>st' ev. exit_process (\<lambda>_. []) always [Cxa_atexit 9 90 2] True 0 three_functions = Some (st', ev) \<and> table_freed st' \<and>
    live st' = [\<lparr>ef_kind = ef_cxa_atexit, ef_func = 9, ef_arg = 90, ef_dso = 2\<rparr>]"
proof -
  have "live three_functions \<noteq> []" using three_functions_live(3) by auto
  from atexit_in_destructor_lost [OF three_functions_live(1) _ this, of "\<lambda>_. []" 9 always 90 2 True 0]
  show ?thesis by auto
qed

end
