(* ===== verification/Environ.thy ===== *)
theory Environ
  imports Strings_Proofs
begin

text \<open>
  The environment: \<open>libc/stdlib/setenv.c\<close> and \<open>libc/stdlib/getenv.c\<close> on the byte memory of \<open>Strings\<close>, whose
  string functions they call. \<open>__environ\<close> is the list of pointers before the null pointer at the end of
  the array, or \<open>None\<close> when it is null; the array that \<open>last_environ\<close> owns holds the same pointers when it is in
  use and is not observable otherwise. The allocator is a parameter: \<open>al\<close> gives the address of a new block, \<open>grow\<close>
  says if the array can be reallocated for a number of pointers. \<open>None\<close> as the result of an operation is a run
  that does not end, on a string without a terminator.
\<close>

record env_state =
  env_mem :: memory
  environ :: "addr list option"
  env_errno :: nat

definition env_matches :: "memory \<Rightarrow> addr \<Rightarrow> addr \<Rightarrow> nat \<Rightarrow> bool" where
  "env_matches m e name len \<longleftrightarrow> strncmp m e name len = 0 \<and> m (e + len) = 0x3d"

text \<open>The search of \<open>__add_to_environ\<close>: the index of the entry.\<close>

fun find_entry :: "memory \<Rightarrow> addr list \<Rightarrow> addr \<Rightarrow> nat \<Rightarrow> nat option" where
  "find_entry m [] name len = None"
| "find_entry m (e # es) name len =
     (if env_matches m e name len then Some 0 else map_option Suc (find_entry m es name len))"

text \<open>The code from the label \<open>REPLACE\<close> on, for the slot \<open>i\<close> of the array.\<close>

definition put_entry ::
  "(env_state \<Rightarrow> nat \<Rightarrow> addr option) \<Rightarrow> addr \<Rightarrow> nat \<Rightarrow> addr option \<Rightarrow> addr list \<Rightarrow> nat \<Rightarrow> env_state
     \<Rightarrow> (int \<times> env_state) option" where
  "put_entry al name namelen value es i st =
     (case value of
        None \<Rightarrow> Some (0, st\<lparr>environ := Some (take i es @ name # drop (i + 1) es)\<rparr>)
      | Some v \<Rightarrow>
          (case strlen (env_mem st) v of
             None \<Rightarrow> None
           | Some l \<Rightarrow>
               (case al st (namelen + 1 + (l + 1)) of
                  None \<Rightarrow> Some (- 1, st\<lparr>env_errno := ENOMEM\<rparr>)
                | Some p \<Rightarrow>
                    (let m1 = snd (memcpy (env_mem st) p name namelen);
                         m2 = m1(p + namelen := 0x3d);
                         m3 = snd (memcpy m2 (p + namelen + 1) v (l + 1))
                     in Some (0, st\<lparr>env_mem := m3, environ := Some (take i es @ p # drop (i + 1) es)\<rparr>)))))"

definition add_to_environ ::
  "(env_state \<Rightarrow> nat \<Rightarrow> addr option) \<Rightarrow> (nat \<Rightarrow> bool) \<Rightarrow> addr \<Rightarrow> addr option \<Rightarrow> bool \<Rightarrow> env_state
     \<Rightarrow> (int \<times> env_state) option" where
  "add_to_environ al grow name value replace st =
     (case strchrnul (env_mem st) name 0x3d of
        None \<Rightarrow> None
      | Some q \<Rightarrow>
          (let namelen = q - name;
               es = (case environ st of None \<Rightarrow> [] | Some es \<Rightarrow> es)
           in case find_entry (env_mem st) es name namelen of
                Some i \<Rightarrow> if \<not> replace then Some (0, st) else put_entry al name namelen value es i st
              | None \<Rightarrow>
                  if \<not> grow (length es + 2) then Some (- 1, st\<lparr>env_errno := ENOMEM\<rparr>)
                  else put_entry al name namelen value es (length es) (st\<lparr>environ := Some es\<rparr>)))"

definition setenv ::
  "(env_state \<Rightarrow> nat \<Rightarrow> addr option) \<Rightarrow> (nat \<Rightarrow> bool) \<Rightarrow> addr \<Rightarrow> addr option \<Rightarrow> addr option \<Rightarrow> bool \<Rightarrow> env_state
     \<Rightarrow> (int \<times> env_state) option" where
  "setenv al grow empty_string name value replace st =
     (case name of
        None \<Rightarrow> Some (- 1, st\<lparr>env_errno := EINVAL\<rparr>)
      | Some n \<Rightarrow>
          if env_mem st n = 0 then Some (- 1, st\<lparr>env_errno := EINVAL\<rparr>)
          else (case strchr (env_mem st) n 0x3d of
                  None \<Rightarrow> None
                | Some (Some _) \<Rightarrow> Some (- 1, st\<lparr>env_errno := EINVAL\<rparr>)
                | Some None \<Rightarrow>
                    add_to_environ al grow n (Some (case value of None \<Rightarrow> empty_string | Some v \<Rightarrow> v)) replace st))"

fun unset_loop :: "memory \<Rightarrow> addr list \<Rightarrow> addr \<Rightarrow> nat \<Rightarrow> addr list" where
  "unset_loop m [] name len = []"
| "unset_loop m (e # es) name len =
     (if env_matches m e name len then unset_loop m es name len else e # unset_loop m es name len)"

definition unsetenv :: "addr option \<Rightarrow> env_state \<Rightarrow> (int \<times> env_state) option" where
  "unsetenv name st =
     (case name of
        None \<Rightarrow> Some (- 1, st\<lparr>env_errno := EINVAL\<rparr>)
      | Some n \<Rightarrow>
          if env_mem st n = 0 then Some (- 1, st\<lparr>env_errno := EINVAL\<rparr>)
          else (case strchrnul (env_mem st) n 0x3d of
                  None \<Rightarrow> None
                | Some eq \<Rightarrow>
                    if env_mem st eq = 0x3d then Some (- 1, st\<lparr>env_errno := EINVAL\<rparr>)
                    else Some (0, st\<lparr>environ := map_option (\<lambda>es. unset_loop (env_mem st) es n (eq - n)) (environ st)\<rparr>)))"

definition clearenv :: "env_state \<Rightarrow> int \<times> env_state" where
  "clearenv st = (0, st\<lparr>environ := None\<rparr>)"

definition putenv ::
  "(env_state \<Rightarrow> nat \<Rightarrow> addr option) \<Rightarrow> (nat \<Rightarrow> bool) \<Rightarrow> addr \<Rightarrow> env_state \<Rightarrow> (int \<times> env_state) option" where
  "putenv al grow str st =
     (case strchr (env_mem st) str 0x3d of
        None \<Rightarrow> None
      | Some (Some _) \<Rightarrow> add_to_environ al grow str None True st
      | Some None \<Rightarrow> unsetenv (Some str) st)"

fun getenv_loop :: "memory \<Rightarrow> addr list \<Rightarrow> addr \<Rightarrow> nat \<Rightarrow> addr option" where
  "getenv_loop m [] var len = None"
| "getenv_loop m (e # es) var len =
     (if memcmp m var e len = 0 \<and> m (e + len) = 0x3d then Some (e + len + 1) else getenv_loop m es var len)"

definition getenv :: "addr \<Rightarrow> env_state \<Rightarrow> addr option option" where
  "getenv var st =
     (case environ st of
        None \<Rightarrow> Some None
      | Some es \<Rightarrow> map_option (\<lambda>len. getenv_loop (env_mem st) es var len) (strlen (env_mem st) var))"

section \<open>The variables\<close>

text \<open>The strings of the environment, and the entries of a name.\<close>

definition env_strings :: "env_state \<Rightarrow> byte list list \<Rightarrow> bool" where
  "env_strings st ss \<longleftrightarrow> list_all2 (str_at (env_mem st)) (case environ st of None \<Rightarrow> [] | Some es \<Rightarrow> es) ss"

definition defines_var :: "byte list \<Rightarrow> byte list \<Rightarrow> bool" where
  "defines_var name s \<longleftrightarrow> prefix (name @ [0x3d]) s"

fun env_value :: "byte list \<Rightarrow> byte list list \<Rightarrow> byte list option" where
  "env_value name [] = None"
| "env_value name (s # ss) = (if defines_var name s then Some (drop (length name + 1) s) else env_value name ss)"

text \<open>Assignment in the list of strings.\<close>

fun env_assign :: "byte list \<Rightarrow> byte list \<Rightarrow> byte list list \<Rightarrow> byte list list" where
  "env_assign name t [] = [t]"
| "env_assign name t (s # ss) = (if defines_var name s then t # ss else s # env_assign name t ss)"

lemma string_byte: "str_at m e s \<Longrightarrow> k \<le> length s \<Longrightarrow> m (e + k) = (s @ [0]) ! k"
  by (auto simp: str_at_def nth_append)

lemma defines_var_take: "defines_var name s \<longleftrightarrow> take (length name) s = name \<and> length name < length s \<and> s ! length name = 0x3d"
proof
  assume "defines_var name s"
  then obtain t where "s = name @ 0x3d # t" by (auto simp: defines_var_def prefix_def)
  then show "take (length name) s = name \<and> length name < length s \<and> s ! length name = 0x3d" by simp
next
  assume a: "take (length name) s = name \<and> length name < length s \<and> s ! length name = 0x3d"
  then have "s = name @ 0x3d # drop (Suc (length name)) s" by (metis id_take_nth_drop)
  then show "defines_var name s" unfolding defines_var_def prefix_def by (metis append_Cons append_Nil append_assoc)
qed

lemma equals_sign:
  assumes "str_at m e s" "take l s = name" "length name = l"
  shows "m (e + l) = 0x3d \<longleftrightarrow> l < length s \<and> s ! l = 0x3d"
proof -
  have "l \<le> length s" using assms(2,3) by auto
  then show ?thesis using string_byte [OF assms(1), of l] by (auto simp: nth_append)
qed

lemma env_matches_iff:
  assumes "str_at m e s" "str_at m q t" "name = takeWhile (\<lambda>c. c \<noteq> 0x3d) t"
  shows "env_matches m e q (length name) \<longleftrightarrow> defines_var name s"
proof -
  have t: "take (length name) t = name" unfolding assms(3) by (rule takeWhile_eq_take [symmetric])
  have "strncmp m e q (length name) = 0 \<longleftrightarrow> sgn (strncmp m e q (length name)) = 0" by (simp add: sgn_0_0)
  also have "\<dots> \<longleftrightarrow> take (length name) s = name" using strncmp_str [OF assms(1,2), of "length name"] t by (auto split: if_splits)
  finally show ?thesis
    using equals_sign [OF assms(1), of "length name" name] by (auto simp: env_matches_def defines_var_take)
qed

lemma memcmp_match_iff:
  assumes "str_at m e s" "str_at m q name"
  shows "memcmp m q e (length name) = 0 \<and> m (e + length name) = 0x3d \<longleftrightarrow> defines_var name s"
proof -
  have b: "block m q (length name) = name"
    by (rule nth_equalityI) (use assms(2) in \<open>auto simp: block_def str_at_def\<close>)
  have "memcmp m q e (length name) = 0 \<longleftrightarrow> block m e (length name) = name"
    using memcmp_block [of m q e "length name"] b by (auto simp: sgn_0_0 split: if_splits)
  also have "\<dots> \<longleftrightarrow> take (length name) s = name"
  proof (cases "length name \<le> length s")
    case True
    have "block m e (length name) = take (length name) s"
      by (rule nth_equalityI) (use True assms(1) in \<open>auto simp: block_def str_at_def\<close>)
    then show ?thesis by simp
  next
    case False
    then have "block m e (length name) ! length s = 0" using assms(1) by (simp add: block_def str_at_def)
    then have "block m e (length name) \<noteq> name" using assms(2) False by (metis not_le nth_mem str_at_def)
    moreover have "length (take (length name) s) \<noteq> length name" using False by simp
    ultimately show ?thesis by metis
  qed
  finally show ?thesis using equals_sign [OF assms(1), of "length name" name] by (auto simp: defines_var_take)
qed

lemma find_entry_assign:
  assumes "str_at m q t" "name = takeWhile (\<lambda>c. c \<noteq> 0x3d) t"
  shows "list_all2 (str_at m) es ss \<Longrightarrow>
    (case find_entry m es q (length name) of
       None \<Rightarrow> env_value name ss = None \<and> (\<forall>u. env_assign name u ss = ss @ [u])
     | Some i \<Rightarrow> i < length es \<and> env_value name ss \<noteq> None \<and> (\<forall>u. env_assign name u ss = take i ss @ u # drop (i + 1) ss))"
proof (induction es ss rule: list_all2_induct)
  case (Cons e es s ss)
  then show ?case
    using env_matches_iff [OF Cons(1) assms] by (auto split: option.splits)
qed simp

lemma getenv_loop_value:
  assumes "str_at m q name"
  shows "list_all2 (str_at m) es ss \<Longrightarrow>
    (case getenv_loop m es q (length name) of
       None \<Rightarrow> env_value name ss = None
     | Some a \<Rightarrow> \<exists>v. env_value name ss = Some v \<and> str_at m a v)"
proof (induction es ss rule: list_all2_induct)
  case (Cons e es s ss)
  show ?case
  proof (cases "defines_var name s")
    case True
    then have "length name + 1 \<le> length s" by (simp add: defines_var_take)
    then show ?thesis using memcmp_match_iff [OF Cons(1) assms] True str_at_drop [OF Cons(1), of "length name + 1"] by simp
  next
    case False
    then have "\<not> (memcmp m q e (length name) = 0 \<and> m (e + length name) = 0x3d)" using memcmp_match_iff [OF Cons(1) assms] by simp
    then show ?thesis using False Cons.IH by (auto split: option.splits)
  qed
qed simp

lemma unset_loop_filter:
  assumes "str_at m q name" "0x3d \<notin> set name"
  shows "list_all2 (str_at m) es ss \<Longrightarrow> list_all2 (str_at m) (unset_loop m es q (length name)) (filter (\<lambda>s. \<not> defines_var name s) ss)"
proof (induction es ss rule: list_all2_induct)
  case (Cons e es s ss)
  have "name = takeWhile (\<lambda>c. c \<noteq> 0x3d) name" using assms(2) by (intro sym [OF takeWhile_eq_all_conv [THEN iffD2]]) auto
  from env_matches_iff [OF Cons(1) assms(1) this] show ?case using Cons(1,3) by simp
qed simp

section \<open>A new entry\<close>

definition apart :: "addr \<Rightarrow> nat \<Rightarrow> addr \<Rightarrow> byte list \<Rightarrow> bool" where
  "apart p n a s \<longleftrightarrow> p + n \<le> a \<or> a + length s < p"

lemma str_at_apart: "str_at m a s \<Longrightarrow> apart p (length bs) a s \<Longrightarrow> str_at (write_bytes m p bs) a s"
proof -
  assume s: "str_at m a s" and d: "apart p (length bs) a s"
  have "write_bytes m p bs (a + i) = m (a + i)" if "i \<le> length s" for i
    using d that by (intro write_at(2)) (auto simp: apart_def)
  then show ?thesis using s by (subst str_at_frame) auto
qed

lemma block_str: "str_at m a s \<Longrightarrow> k \<le> length s \<Longrightarrow> block m a k = take k s"
  by (rule nth_equalityI) (auto simp: block_def str_at_def)

lemma block_str0: "str_at m a s \<Longrightarrow> block m a (length s + 1) = s @ [0]"
  by (simp add: block_snoc block_str) (simp add: str_at_def)

lemma write_bytes_append: "write_bytes (write_bytes m p xs) (p + length xs) ys = write_bytes m p (xs @ ys)"
  by (rule ext) (auto simp: write_bytes_def nth_append)

lemma entry_written:
  assumes "str_at m q t" "name = takeWhile (\<lambda>c. c \<noteq> 0x3d) t" "str_at m v val"
    and "n = length name + 1 + (length val + 1)" "apart p n q t" "apart p n v val"
  shows "snd (memcpy ((snd (memcpy m p q (length name)))(p + length name := 0x3d)) (p + length name + 1) v (length val + 1)) =
    write_bytes m p ((name @ 0x3d # val) @ [0])"
proof -
  have l: "length name \<le> length t" unfolding assms(2) by (rule length_takeWhile_le)
  have "take (length name) t = name" unfolding assms(2) by (rule takeWhile_eq_take [symmetric])
  then have "block m q (length name) = name" using block_str [OF assms(1) l] by simp
  moreover have "p \<le> q \<or> q + length name \<le> p" using assms(4,5) l by (auto simp: apart_def)
  ultimately have 1: "memcpy_loop m p q (length name) = write_bytes m p name" by (simp add: memcpy_loop_block)
  let ?m = "(write_bytes m p name)(p + length name := 0x3d)"
  have 2: "?m = write_bytes m p (name @ [0x3d])" using write_bytes_append [of m p name "[0x3d]"] by simp
  have "str_at ?m v val" unfolding 2 by (rule str_at_apart [OF assms(3)]) (use assms(4,6) in \<open>auto simp: apart_def\<close>)
  then have "block ?m v (length val + 1) = val @ [0]" by (rule block_str0)
  moreover have "p + length name + 1 \<le> v \<or> v + (length val + 1) \<le> p + length name + 1"
    using assms(4,6) by (auto simp: apart_def)
  ultimately have "memcpy_loop ?m (p + length name + 1) v (length val + 1) = write_bytes ?m (p + length name + 1) (val @ [0])"
    by (simp only: memcpy_loop_block)
  also have "\<dots> = write_bytes m p ((name @ 0x3d # val) @ [0])"
    unfolding 2 using write_bytes_append [of m p "name @ [0x3d]" "val @ [0]"] by simp
  finally show ?thesis by (simp add: memcpy_def 1)
qed

definition env_ptrs :: "env_state \<Rightarrow> addr list" where
  "env_ptrs st = (case environ st of None \<Rightarrow> [] | Some es \<Rightarrow> es)"

lemma env_strings_ptrs: "env_strings st ss \<longleftrightarrow> list_all2 (str_at (env_mem st)) (env_ptrs st) ss"
  by (simp add: env_strings_def env_ptrs_def)

text \<open>What the allocator promises: a block apart from the strings in use.\<close>

definition fresh_for :: "(env_state \<Rightarrow> nat \<Rightarrow> addr option) \<Rightarrow> env_state \<Rightarrow> byte list list \<Rightarrow> (addr \<times> byte list) list \<Rightarrow> bool" where
  "fresh_for al st ss args \<longleftrightarrow> (\<forall>st' n p. env_mem st' = env_mem st \<and> env_ptrs st' = env_ptrs st \<and> al st' n = Some p \<longrightarrow>
     list_all2 (apart p n) (env_ptrs st) ss \<and> list_all (\<lambda>(a, s). apart p n a s) args)"

lemma list_all2_put:
  "list_all2 R xs ys \<Longrightarrow> R x y \<Longrightarrow> list_all2 R (take i xs @ x # drop (i + 1) xs) (take i ys @ y # drop (i + 1) ys)"
  by (intro list_all2_appendI) (auto intro: list_all2_takeI list_all2_dropI)

lemma put_entry_value:
  assumes "str_at (env_mem st) q t" "name = takeWhile (\<lambda>c. c \<noteq> 0x3d) t" "str_at (env_mem st) v val"
    and "env_strings st ss" "fresh_for al st ss [(q, t), (v, val)]"
    and "put_entry al q (length name) (Some v) (env_ptrs st) i st = Some (r, st')"
  shows "if al st (length name + 1 + (length val + 1)) = None then r = - 1 \<and> st' = st\<lparr>env_errno := ENOMEM\<rparr>
    else r = 0 \<and> env_strings st' (take i ss @ (name @ 0x3d # val) # drop (i + 1) ss) \<and> env_errno st' = env_errno st \<and>
      str_at (env_mem st') q t \<and> str_at (env_mem st') v val"
proof (cases "al st (length name + 1 + (length val + 1))")
  case None
  then show ?thesis using assms(6) strlen_str [OF assms(3)] by (simp add: put_entry_def)
next
  case (Some p)
  let ?n = "length name + 1 + (length val + 1)" and ?bs = "(name @ 0x3d # val) @ [0]"
  have ap: "list_all2 (apart p ?n) (env_ptrs st) ss" "apart p ?n q t" "apart p ?n v val"
    using assms(5) Some unfolding fresh_for_def by fastforce+
  have len: "length ?bs = ?n" by simp
  have m: "snd (memcpy ((snd (memcpy (env_mem st) p q (length name)))(p + length name := 0x3d)) (p + length name + 1) v (length val + 1)) =
      write_bytes (env_mem st) p ?bs"
    by (rule entry_written [OF assms(1,2,3) refl ap(2,3)])
  have st': "r = 0" "st' = st\<lparr>env_mem := write_bytes (env_mem st) p ?bs, environ := Some (take i (env_ptrs st) @ p # drop (i + 1) (env_ptrs st))\<rparr>"
    using assms(6) strlen_str [OF assms(3)] Some m by (simp_all add: put_entry_def Let_def)
  have z: "0 \<notin> set (name @ 0x3d # val)"
    using assms(1-3) by (auto simp: str_at_def dest: set_takeWhileD)
  have old: "list_all2 (str_at (write_bytes (env_mem st) p ?bs)) (env_ptrs st) ss"
    using assms(4) ap(1) unfolding env_strings_ptrs list_all2_conv_all_nth
    by (auto intro!: str_at_apart simp del: write_simps)
  have new: "str_at (write_bytes (env_mem st) p ?bs) p (name @ 0x3d # val)" by (rule str_at_write [OF z])
  have "env_strings st' (take i ss @ (name @ 0x3d # val) # drop (i + 1) ss)"
    unfolding env_strings_def st' using list_all2_put [OF old new, of i] by simp
  moreover have "str_at (env_mem st') q t" "str_at (env_mem st') v val"
    using str_at_apart [OF assms(1), of p ?bs] str_at_apart [OF assms(3), of p ?bs] ap(2,3) unfolding len st' by simp_all
  ultimately show ?thesis using Some st' by simp
qed

section \<open>Names and values\<close>

lemma defines_var_entry: "0x3d \<notin> set a \<Longrightarrow> 0x3d \<notin> set b \<Longrightarrow> defines_var a (b @ 0x3d # v) \<longleftrightarrow> a = b"
proof (induction a arbitrary: b)
  case Nil
  then show ?case by (cases b) (auto simp: defines_var_def)
next
  case (Cons c a)
  then show ?case by (cases b) (auto simp: defines_var_def)
qed

lemma env_value_assign:
  assumes "0x3d \<notin> set a" "0x3d \<notin> set b"
  shows "env_value a (env_assign b (b @ 0x3d # v) ss) = (if a = b then Some v else env_value a ss)"
proof (induction ss)
  case Nil
  then show ?case using defines_var_entry [OF assms, of v] by auto
next
  case (Cons s ss)
  have "defines_var b s \<Longrightarrow> \<exists>t. s = b @ 0x3d # t" by (auto simp: defines_var_def prefix_def)
  then have "defines_var b s \<Longrightarrow> a \<noteq> b \<Longrightarrow> \<not> defines_var a s" using defines_var_entry [OF assms] by blast
  then show ?case using Cons defines_var_entry [OF assms, of v] by auto
qed

lemma env_value_filter:
  assumes "0x3d \<notin> set a" "0x3d \<notin> set b"
  shows "env_value a (filter (\<lambda>s. \<not> defines_var b s) ss) = (if a = b then None else env_value a ss)"
proof (induction ss)
  case (Cons s ss)
  have "defines_var b s \<Longrightarrow> \<exists>t. s = b @ 0x3d # t" by (auto simp: defines_var_def prefix_def)
  then have "defines_var b s \<Longrightarrow> a \<noteq> b \<Longrightarrow> \<not> defines_var a s" using defines_var_entry [OF assms] by blast
  then show ?case using Cons by auto
qed simp

lemma takeWhile_name: "0x3d \<notin> set name \<Longrightarrow> takeWhile (\<lambda>c. c \<noteq> 0x3d) name = (name :: byte list)"
  by (rule takeWhile_eq_all_conv [THEN iffD2]) auto

lemma name_valid:
  assumes "str_at m n name" "name \<noteq> []" "0x3d \<notin> set name"
  shows "m n \<noteq> 0" "strchr m n 0x3d = Some None" "strchrnul m n 0x3d = Some (n + length name)" "m (n + length name) \<noteq> 0x3d"
proof -
  show "m n \<noteq> 0" using assms(1,2) by (cases name) auto
  show "strchr m n 0x3d = Some None" using strchr_str [OF assms(1), of "0x3d"] assms(3) by simp
  show "strchrnul m n 0x3d = Some (n + length name)" using strchrnul_str [OF assms(1), of "0x3d"] takeWhile_name [OF assms(3)] by simp
  show "m (n + length name) \<noteq> 0x3d" using assms(1) by (simp add: str_at_def)
qed

lemma getenv_found:
  assumes "env_strings st ss" "str_at (env_mem st) n name" "env_value name ss \<noteq> None"
  shows "\<exists>p w. getenv n st = Some (Some p) \<and> str_at (env_mem st) p w \<and> env_value name ss = Some w"
proof -
  have "environ st \<noteq> None" using assms(1,3) by (cases "environ st") (auto simp: env_strings_def)
  then obtain es where es: "environ st = Some es" by auto
  then have "list_all2 (str_at (env_mem st)) es ss" using assms(1) by (simp add: env_strings_def)
  from getenv_loop_value [OF assms(2) this] show ?thesis
    using assms(3) strlen_str [OF assms(2)] es by (auto simp: getenv_def split: option.splits)
qed

text \<open>An entry put into slot \<open>i\<close>, in a state \<open>s\<close> that differs from \<open>st\<close> in what is not observable.\<close>

lemma put_entry_cases:
  assumes "str_at (env_mem st) n name" "0x3d \<notin> set name" "str_at (env_mem st) v val" "env_strings st ss"
    and "fresh_for al st ss [(n, name), (v, val)]" "env_mem s = env_mem st" "env_ptrs s = env_ptrs st"
  shows "\<exists>r st'. put_entry al n (length name) (Some v) (env_ptrs st) i s = Some (r, st') \<and>
      (r = 0 \<and> env_strings st' (take i ss @ (name @ 0x3d # val) # drop (i + 1) ss) \<and> str_at (env_mem st') n name \<or>
       r = - 1 \<and> env_errno st' = ENOMEM \<and> env_strings st' ss \<and> (\<exists>st1. al st1 (length name + length val + 2) = None))"
proof -
  have ok: "env_strings s ss" "fresh_for al s ss [(n, name), (v, val)]"
    using assms(4-7) by (simp_all add: env_strings_ptrs fresh_for_def)
  obtain r st' where p: "put_entry al n (length name) (Some v) (env_ptrs st) i s = Some (r, st')"
    using strlen_str [OF assms(3)] assms(6)
    by (cases "al s (length name + 1 + (length val + 1))") (auto simp: put_entry_def Let_def)
  have q: "put_entry al n (length name) (Some v) (env_ptrs s) i s = Some (r, st')" using p assms(7) by simp
  have at: "str_at (env_mem s) n name" "str_at (env_mem s) v val" using assms(1,3,6) by simp_all
  note pv = put_entry_value [OF at(1) takeWhile_name [OF assms(2), symmetric] at(2) ok q]
  show ?thesis
  proof (cases "al s (length name + 1 + (length val + 1)) = None")
    case True
    with pv have "r = - 1" "st' = s\<lparr>env_errno := ENOMEM\<rparr>" by simp_all
    moreover have "env_strings (s\<lparr>env_errno := ENOMEM\<rparr>) ss" using ok(1) by (simp add: env_strings_def)
    ultimately show ?thesis using p True by (intro exI [of _ r] exI [of _ st']) auto
  next
    case False
    with pv p show ?thesis by auto
  qed
qed

lemma setenv_steps:
  assumes "str_at (env_mem st) n name" "name \<noteq> []" "0x3d \<notin> set name" "length (env_ptrs st) = k"
  shows "setenv al grow e (Some n) (Some v) rep st =
    (case find_entry (env_mem st) (env_ptrs st) n (length name) of
       Some i \<Rightarrow> if \<not> rep then Some (0, st) else put_entry al n (length name) (Some v) (env_ptrs st) i st
     | None \<Rightarrow> if \<not> grow (k + 2) then Some (- 1, st\<lparr>env_errno := ENOMEM\<rparr>)
         else put_entry al n (length name) (Some v) (env_ptrs st) k (st\<lparr>environ := Some (env_ptrs st)\<rparr>))"
  using name_valid [OF assms(1-3)] assms(4)
  unfolding setenv_def add_to_environ_def env_ptrs_def [symmetric] Let_def by (simp split: option.split)

section \<open>Properties\<close>

text \<open>C32: \<open>setenv\<close> gives the name the value, in the place of its first entry or behind all entries, keeps an old value
  unless it was told to replace it, leaves the other entries alone, and reports a failure of the allocator
  without a change; after a success \<open>getenv\<close> finds the value.\<close>

theorem setenv_correct:
  assumes "str_at (env_mem st) n name" "name \<noteq> []" "0x3d \<notin> set name" "str_at (env_mem st) v val"
    and "env_strings st ss" "fresh_for al st ss [(n, name), (v, val)]"
  shows "\<exists>r st'. setenv al grow e (Some n) (Some v) rep st = Some (r, st') \<and>
    (r = 0 \<and> env_strings st' (if env_value name ss = None \<or> rep then env_assign name (name @ 0x3d # val) ss else ss) \<and>
       (\<exists>p w. getenv n st' = Some (Some p) \<and> str_at (env_mem st') p w \<and>
          w = (if rep then val else case env_value name ss of None \<Rightarrow> val | Some old \<Rightarrow> old)) \<or>
     r = - 1 \<and> env_errno st' = ENOMEM \<and> env_strings st' ss \<and>
       (\<not> grow (length ss + 2) \<or> (\<exists>st1. al st1 (length name + length val + 2) = None)))"
proof -
  let ?es = "env_ptrs st" and ?m = "env_mem st"
  have ss: "list_all2 (str_at ?m) ?es ss" using assms(5) by (simp add: env_strings_ptrs)
  note sg = setenv_steps [OF assms(1-3) list_all2_lengthD [OF ss], where al = al and grow = grow and e = e and v = v and rep = rep]
  note put = put_entry_cases [OF assms(1,3-6)]
  have val: "env_value name (env_assign name (name @ 0x3d # val) ss) = Some val"
    using env_value_assign [OF assms(3,3)] by simp
  note fe = find_entry_assign [OF assms(1) takeWhile_name [OF assms(3), symmetric] ss]
  show ?thesis
  proof (cases "find_entry ?m ?es n (length name)")
    case None
    then have as: "env_value name ss = None" "env_assign name u ss = ss @ [u]" for u using fe by simp_all
    show ?thesis
    proof (cases "grow (length ss + 2)")
      case True
      then have "setenv al grow e (Some n) (Some v) rep st = put_entry al n (length name) (Some v) ?es (length ss) (st\<lparr>environ := Some ?es\<rparr>)"
        using sg None by simp
      moreover have "take (length ss) ss @ (name @ 0x3d # val) # drop (length ss + 1) ss = env_assign name (name @ 0x3d # val) ss"
        using as by simp
      ultimately show ?thesis using put [of "st\<lparr>environ := Some ?es\<rparr>" "length ss"] getenv_found val as(1) by (fastforce simp: env_ptrs_def)
    next
      case False
      moreover have "env_strings (st\<lparr>env_errno := ENOMEM\<rparr>) ss" using assms(5) by (simp add: env_strings_def)
      ultimately show ?thesis using sg None by simp
    qed
  next
    case (Some i)
    then have as: "env_value name ss \<noteq> None" "env_assign name u ss = take i ss @ u # drop (i + 1) ss" for u using fe by simp_all
    show ?thesis
    proof (cases rep)
      case True
      then have "setenv al grow e (Some n) (Some v) rep st = put_entry al n (length name) (Some v) ?es i st" using sg Some by simp
      then show ?thesis using put [of st i] getenv_found val as True by fastforce
    next
      case False
      then have "setenv al grow e (Some n) (Some v) rep st = Some (0, st)" using sg Some by simp
      then show ?thesis using False getenv_found [OF assms(5,1) as(1)] assms(5) as(1) by auto
    qed
  qed
qed

text \<open>\<open>unsetenv\<close> removes every entry of the name and nothing else: afterwards \<open>getenv\<close> finds nothing, and every
  other name has the value it had.\<close>

theorem unsetenv_correct:
  assumes "str_at (env_mem st) n name" "name \<noteq> []" "0x3d \<notin> set name" "env_strings st ss"
    and "str_at (env_mem st) q other" "0x3d \<notin> set other"
  shows "\<exists>st'. unsetenv (Some n) st = Some (0, st') \<and> env_strings st' (filter (\<lambda>s. \<not> defines_var name s) ss) \<and>
    env_mem st' = env_mem st \<and> getenv n st' = Some None \<and>
    (if other = name \<or> env_value other ss = None then getenv q st' = Some None
     else \<exists>p w. getenv q st' = Some (Some p) \<and> str_at (env_mem st') p w \<and> env_value other ss = Some w)"
proof -
  let ?f = "filter (\<lambda>s. \<not> defines_var name s) ss"
  let ?s = "st\<lparr>environ := map_option (\<lambda>es. unset_loop (env_mem st) es n (length name)) (environ st)\<rparr>"
  have u: "unsetenv (Some n) st = Some (0, ?s)" using name_valid [OF assms(1-3)] by (simp add: unsetenv_def)
  have ok: "env_strings ?s ?f"
    using assms(4) unset_loop_filter [OF assms(1,3)] by (cases "environ st") (auto simp: env_strings_def)
  have none: "getenv a ?s = Some None" if "str_at (env_mem ?s) a nm" "env_value nm ?f = None" for a nm
  proof (cases "environ ?s")
    case (Some es)
    then have "list_all2 (str_at (env_mem ?s)) es ?f" using ok by (auto simp: env_strings_def)
    from getenv_loop_value [OF that(1) this] Some strlen_str [OF that(1)] that(2) show ?thesis
      by (auto simp: getenv_def split: option.splits)
  qed (simp add: getenv_def)
  have v: "env_value nm ?f = (if nm = name then None else env_value nm ss)" if "0x3d \<notin> set nm" for nm
    by (rule env_value_filter [OF that assms(3)])
  show ?thesis
    using u ok none [of n name] none [of q other] v [OF assms(3)] v [OF assms(6)] getenv_found [OF ok, of q other] assms(1,5)
    by auto
qed

text \<open>\<open>putenv\<close> of a string with an equals sign puts the string itself into the environment: the memory is not
  copied, and what the caller later writes into the string shows in the environment.\<close>

theorem putenv_shares_string:
  assumes "str_at (env_mem st) s (name @ 0x3d # val)" "0x3d \<notin> set name" "env_strings st ss" "\<And>k. grow k"
  shows "\<exists>st'. putenv al grow s st = Some (0, st') \<and> env_mem st' = env_mem st \<and>
    env_strings st' (env_assign name (name @ 0x3d # val) ss) \<and> (\<exists>es. environ st' = Some es \<and> s \<in> set es)"
proof -
  let ?m = "env_mem st" and ?es = "env_ptrs st" and ?t = "name @ 0x3d # val"
  have ss: "list_all2 (str_at ?m) ?es ss" using assms(3) by (simp add: env_strings_ptrs)
  have tw: "name = takeWhile (\<lambda>c. c \<noteq> 0x3d) ?t" using assms(2) by (subst takeWhile_append2) auto
  have c: "strchr ?m s 0x3d = Some (Some (s + length name))" "strchrnul ?m s 0x3d = Some (s + length name)"
    using strchr_str [OF assms(1), of "0x3d"] strchrnul_str [OF assms(1), of "0x3d"] tw
    by (auto simp: takeWhile_append takeWhile_name [OF assms(2)])
  have put: "\<exists>st'. Some (0, s1\<lparr>environ := Some (take i ?es @ s # drop (i + 1) ?es)\<rparr>) = Some (0 :: int, st') \<and> env_mem st' = ?m \<and>
      env_strings st' (take i ss @ ?t # drop (i + 1) ss) \<and> (\<exists>es. environ st' = Some es \<and> s \<in> set es)"
    if "env_mem s1 = ?m" for s1 i
    using list_all2_put [OF ss assms(1), of i] that by (auto simp: env_strings_def)
  have sg: "putenv al grow s st = (case find_entry ?m ?es s (length name) of
      Some i \<Rightarrow> Some (0, st\<lparr>environ := Some (take i ?es @ s # drop (i + 1) ?es)\<rparr>)
    | None \<Rightarrow> Some (0, st\<lparr>environ := Some (take (length ss) ?es @ s # drop (length ss + 1) ?es)\<rparr>))"
    using c assms(4) list_all2_lengthD [OF ss]
    unfolding putenv_def add_to_environ_def env_ptrs_def [symmetric] Let_def put_entry_def by (simp split: option.split)
  show ?thesis
    using find_entry_assign [OF assms(1) tw ss] put [of st] put [of st "length ss"] sg
    by (cases "find_entry ?m ?es s (length name)") auto
qed

text \<open>\<open>setenv\<close> and \<open>unsetenv\<close> refuse a null or empty name and a name with an equals sign with \<open>EINVAL\<close> and change
  nothing else.\<close>

theorem setenv_invalid_name:
  assumes "name = None \<or> (\<exists>n s. name = Some n \<and> str_at (env_mem st) n s \<and> (s = [] \<or> 0x3d \<in> set s))"
  shows "setenv al grow e name v rep st = Some (- 1, st\<lparr>env_errno := EINVAL\<rparr>) \<and>
    unsetenv name st = Some (- 1, st\<lparr>env_errno := EINVAL\<rparr>)"
proof (cases name)
  case (Some n)
  then obtain s where s: "str_at (env_mem st) n s" "s = [] \<or> 0x3d \<in> set s" using assms by auto
  show ?thesis
  proof (cases "s = []")
    case True
    then show ?thesis using s(1) Some by (simp add: setenv_def unsetenv_def)
  next
    case False
    then have eq: "0x3d \<in> set s" and nz: "env_mem st n \<noteq> 0" using s by (cases s, auto)+
    let ?k = "length (takeWhile (\<lambda>c. c \<noteq> 0x3d) s)"
    have k: "?k < length s"
    proof (rule ccontr)
      assume "\<not> ?k < length s"
      then have "takeWhile (\<lambda>c. c \<noteq> 0x3d) s = s" 
        using takeWhile_eq_take [of "\<lambda>c. c \<noteq> 0x3d" s] by simp
      then show False using eq unfolding takeWhile_eq_all_conv by blast
    qed
    then have "s ! ?k = 0x3d" using nth_length_takeWhile [of "\<lambda>c. c \<noteq> 0x3d" s] by simp
    with k have "env_mem st (n + ?k) = 0x3d" using s(1) by (simp add: str_at_def)
    then show ?thesis
      using nz eq Some strchr_str [OF s(1), of "0x3d"] strchrnul_str [OF s(1), of "0x3d"] by (simp add: setenv_def unsetenv_def)
  qed
qed (simp add: setenv_def unsetenv_def)

section \<open>Witnesses\<close>

text \<open>The name \<open>A\<close> at 10, the string \<open>xy\<close> at 20, the entries \<open>A=b\<close> at 30 and \<open>C=\<close> at 40, and a block at 100.\<close>

definition sample_env :: env_state where
  "sample_env = \<lparr>env_mem = write_bytes (write_bytes (write_bytes (write_bytes (\<lambda>_. 0) 10 [0x41, 0]) 20 [0x78, 0x79, 0])
      30 [0x41, 0x3d, 0x62, 0]) 40 [0x43, 0x3d, 0], environ = Some [30, 40], env_errno = 0\<rparr>"

definition sample_al :: "env_state \<Rightarrow> nat \<Rightarrow> addr option" where
  "sample_al st n = Some 100"

lemma sample_env_facts:
  "str_at (env_mem sample_env) 10 [0x41]" "str_at (env_mem sample_env) 20 [0x78, 0x79]"
  "str_at (env_mem sample_env) 40 [0x43, 0x3d]" "str_at (env_mem sample_env) 30 [0x41, 0x3d, 0x62]"
  "env_strings sample_env [[0x41, 0x3d, 0x62], [0x43, 0x3d]]"
  "fresh_for sample_al sample_env [[0x41, 0x3d, 0x62], [0x43, 0x3d]] [(10, [0x41]), (20, [0x78, 0x79])]"
  by (simp_all add: sample_env_def env_strings_def fresh_for_def sample_al_def env_ptrs_def apart_def)

theorem setenv_correct_witness:
  "\<exists>r st'. setenv sample_al (\<lambda>_. True) 0 (Some 10) (Some 20) True sample_env = Some (r, st') \<and>
    (r = 0 \<and> env_strings st' [[0x41, 0x3d, 0x78, 0x79], [0x43, 0x3d]] \<or> r = - 1 \<and> env_errno st' = ENOMEM)"
  using setenv_correct [OF sample_env_facts(1) _ _ sample_env_facts(2,5,6), of "\<lambda>_. True" 0 True]
  by (fastforce simp: defines_var_def)

theorem unsetenv_correct_witness:
  "\<exists>st'. unsetenv (Some 10) sample_env = Some (0, st') \<and> env_strings st' [[0x43, 0x3d]] \<and> getenv 10 st' = Some None"
  using unsetenv_correct [OF sample_env_facts(1) _ _ sample_env_facts(5,1)] by (auto simp: defines_var_def)

theorem putenv_shares_string_witness:
  "\<exists>st'. putenv sample_al (\<lambda>_. True) 30 sample_env = Some (0, st') \<and> env_mem st' = env_mem sample_env"
  using putenv_shares_string [of sample_env 30 "[0x41]" "[0x62]" _ "\<lambda>_. True" sample_al] sample_env_facts(4,5) by auto

theorem setenv_invalid_name_witness:
  "setenv sample_al (\<lambda>_. True) 0 (Some 40) (Some 20) True sample_env = Some (- 1, sample_env\<lparr>env_errno := EINVAL\<rparr>)"
proof -
  have "\<exists>n s. Some 40 = Some n \<and> str_at (env_mem sample_env) n s \<and> (s = [] \<or> 0x3d \<in> set s)"
    using sample_env_facts(3) by (intro exI [of _ 40] exI [of _ "[0x43, 0x3d]"]) simp
  then show ?thesis using setenv_invalid_name [of "Some 40" sample_env sample_al "\<lambda>_. True" 0 "Some 20" True] by simp
qed

end
