(* ===== verification/Dns.thy ===== *)
theory Dns
  imports Prelude
begin

unbundle bit_operations_syntax

text \<open>
  DNS messages: the encoders and decoders of \<open>libc/inet/resolv.c\<close>. A message is a list of bytes, and an offset into
  it a natural number; the destination of an encoder is the list of the bytes that were written from its start.
  Strings are lists of bytes without the terminator, \<open>None\<close> is the null pointer. Lengths and offsets are \<open>int\<close> or \<open>nat\<close>,
  since they stay in the range of \<open>int\<close>; where the source compares with an \<open>unsigned\<close> the wrap-around is written
  out. The fields of headers and records are not negative, the time to live has its 32 bits.
\<close>

section \<open>Headers\<close>

record resolv_header =
  hid :: nat
  qdcount :: nat
  ancount :: nat
  nscount :: nat
  arcount :: nat
  qr :: bool
  opcode :: nat
  aa :: bool
  tc :: bool
  rd :: bool
  ra :: bool
  rcode :: nat

definition HFIXEDSZ :: int where "HFIXEDSZ = 12"

definition RRFIXEDSZ :: int where "RRFIXEDSZ = 10"

text \<open>The two bytes of a 16-bit number.\<close>

definition put16 :: "nat \<Rightarrow> byte list" where
  "put16 n = [of_nat (n div 256 mod 256), of_nat (n mod 256)]"

definition get16 :: "byte list \<Rightarrow> nat \<Rightarrow> nat" where
  "get16 bs i = unat (bs ! i) * 256 + unat (bs ! (i + 1))"

definition encode_header :: "resolv_header \<Rightarrow> int \<Rightarrow> int \<times> byte list" where
  "encode_header h maxlen =
     (if maxlen < HFIXEDSZ then (- 1, [])
      else (HFIXEDSZ,
        put16 (hid h) @
        [(if qr h then 0x80 else 0) OR push_bit 3 (of_nat (opcode h) AND 0x0f) OR (if aa h then 0x04 else 0)
           OR (if tc h then 0x02 else 0) OR (if rd h then 0x01 else 0),
         (if ra h then 0x80 else 0) OR (of_nat (rcode h) AND 0x0f)] @
        put16 (qdcount h) @ put16 (ancount h) @ put16 (nscount h) @ put16 (arcount h)))"

definition decode_header :: "byte list \<Rightarrow> resolv_header" where
  "decode_header d = \<lparr>hid = get16 d 0, qdcount = get16 d 4, ancount = get16 d 6, nscount = get16 d 8, arcount = get16 d 10,
     qr = (d ! 2 AND 0x80 \<noteq> 0), opcode = unat (drop_bit 3 (d ! 2) AND 0x0f), aa = (d ! 2 AND 0x04 \<noteq> 0),
     tc = (d ! 2 AND 0x02 \<noteq> 0), rd = (d ! 2 AND 0x01 \<noteq> 0), ra = (d ! 3 AND 0x80 \<noteq> 0),
     rcode = unat (d ! 3 AND 0x0f)\<rparr>"

section \<open>Dotted names\<close>

definition encode_end :: "int \<Rightarrow> byte list \<Rightarrow> int \<times> byte list" where
  "encode_end maxlen out = (if maxlen < 1 then (- 1, out) else (int (length out) + 1, out @ [0]))"

text \<open>The loop of \<open>__encode_dotted\<close>; \<open>used\<close> is the number of bytes written. \<open>maxlen - used - 1\<close> is unsigned.\<close>

function encode_labels :: "byte list \<Rightarrow> int \<Rightarrow> byte list \<Rightarrow> int \<times> byte list" where
  "encode_labels [] maxlen out = encode_end maxlen out"
| "encode_labels (c # cs) maxlen out =
     (let s = c # cs;
          l = length (takeWhile (\<lambda>x. x \<noteq> 0x2e) s)
      in if l = 0 then (- 1, out)
         else if int l \<ge> (maxlen - int (length out) - 1) mod 2 ^ 32 then (- 1, out)
         else (let out1 = out @ of_nat l # take l s
               in if l = length s then encode_end maxlen out1 else encode_labels (drop (l + 1) s) maxlen out1))"
  by pat_completeness auto
termination by (relation "measure (length \<circ> fst)") auto

definition encode_dotted :: "byte list option \<Rightarrow> int \<Rightarrow> int \<times> byte list" where
  "encode_dotted dotted maxlen = encode_labels (case dotted of None \<Rightarrow> [] | Some s \<Rightarrow> s) maxlen []"

text \<open>The loop of \<open>__decode_dotted\<close>; \<open>out\<close> has the \<open>used\<close> bytes that were written to \<open>dest\<close>. A name whose
  compression pointers lead nowhere is followed for ever, which is the result \<open>None\<close>.\<close>

partial_function (option) decode_loop ::
  "byte list \<Rightarrow> nat \<Rightarrow> nat \<Rightarrow> bool \<Rightarrow> nat \<Rightarrow> byte list \<Rightarrow> (int \<times> byte list) option" where
  [code]: "decode_loop packet dest_len offset measuring tot out =
     (if offset \<ge> length packet then Some (- 1, out)
      else
        (let b = packet ! offset
         in if b = 0 then Some (int (if measuring then tot + 1 else tot), out)
            else
              (let tot1 = (if measuring then tot + 1 else tot)
               in if b AND 0xc0 = 0xc0 then
                    (if offset + 1 \<ge> length packet then Some (- 1, out)
                     else decode_loop packet dest_len (unat (b AND 0x3f) * 256 + unat (packet ! (offset + 1))) False
                            (if measuring then tot1 + 1 else tot1) out)
                  else if length out + unat b + 1 \<ge> dest_len then Some (- 1, out)
                  else if offset + 1 + unat b \<ge> length packet then Some (- 1, out)
                  else decode_loop packet dest_len (offset + 1 + unat b) measuring
                         (if measuring then tot1 + unat b else tot1)
                         (out @ take (unat b) (drop (offset + 1) packet) @
                           [if packet ! (offset + 1 + unat b) \<noteq> 0 then 0x2e else 0]))))"

definition decode_dotted :: "byte list option \<Rightarrow> nat \<Rightarrow> nat \<Rightarrow> (int \<times> byte list) option" where
  "decode_dotted packet offset dest_len =
     (case packet of None \<Rightarrow> Some (- 1, []) | Some p \<Rightarrow> decode_loop p dest_len offset True 0 [])"

section \<open>Questions and answers\<close>

record resolv_question =
  qdotted :: "byte list option"
  qtype :: nat
  qclass :: nat

record resolv_answer =
  adotted :: "byte list option"
  atype :: nat
  aclass :: nat
  ttl :: "32 word"
  rdlength :: nat
  rdata :: "byte list"
  rdoffset :: nat

definition encode_question :: "resolv_question \<Rightarrow> int \<Rightarrow> int \<times> byte list" where
  "encode_question q maxlen =
     (let (i, out) = encode_dotted (qdotted q) maxlen
      in if i < 0 then (i, out)
         else if maxlen - i < 4 then (- 1, out)
         else (i + 4, out @ put16 (qtype q) @ put16 (qclass q)))"

definition put32 :: "nat \<Rightarrow> byte list" where
  "put32 n = put16 (n div 65536) @ put16 n"

definition encode_answer :: "resolv_answer \<Rightarrow> int \<Rightarrow> int \<times> byte list" where
  "encode_answer a maxlen =
     (let (i, out) = encode_dotted (adotted a) maxlen
      in if i < 0 then (i, out)
         else if maxlen - i < RRFIXEDSZ + int (rdlength a) then (- 1, out)
         else (i + RRFIXEDSZ + int (rdlength a),
               out @ put16 (atype a) @ put16 (aclass a) @ put32 (unat (ttl a)) @ put16 (rdlength a) @ take (rdlength a) (rdata a)))"

lemma minus_less_uint: "- 1 < uint w"
  by (rule less_le_trans [of _ 0]) simp_all

text \<open>The loop of \<open>__length_question\<close> that skips a name: the bytes skipped and what is left of \<open>maxlen\<close>.\<close>

function skip_question :: "byte list \<Rightarrow> nat \<Rightarrow> int \<Rightarrow> (nat \<times> int) option" where
  "skip_question d off maxlen =
     (if maxlen \<le> 0 then None
      else
        (let b = d ! off
         in if b = 0 then Some (off + 1, maxlen)
            else if b AND 0xc0 = 0xc0 then Some (off + 2, maxlen - 2)
            else skip_question d (off + 1 + unat b) (maxlen - (int (unat b) + 1))))"
  by auto
termination by (relation "measure (\<lambda>(d, off, maxlen). nat maxlen)") (auto simp: minus_less_uint)

declare skip_question.simps [simp del]

definition length_question :: "byte list option \<Rightarrow> int \<Rightarrow> int" where
  "length_question data maxlen =
     (case data of
        None \<Rightarrow> - 1
      | Some d \<Rightarrow>
          (case skip_question d 0 maxlen of
             None \<Rightarrow> - 1
           | Some (n, left) \<Rightarrow> if left < 4 then - 1 else int n + 4))"

text \<open>\<open>__decode_answer\<close>: the number of bytes used, and the answer when its fields were filled in. \<open>temp\<close> is the
  buffer of 256 bytes that the name is decoded into, with what was in it before.\<close>

definition c_string :: "byte list \<Rightarrow> byte list" where
  "c_string bs = takeWhile (\<lambda>b. b \<noteq> 0) bs"

definition get32 :: "byte list \<Rightarrow> nat \<Rightarrow> nat" where
  "get32 bs i = get16 bs i * 65536 + get16 bs (i + 2)"

definition decode_answer :: "byte list \<Rightarrow> byte list \<Rightarrow> nat \<Rightarrow> (int \<times> resolv_answer option) option" where
  "decode_answer temp message offset =
     (case decode_dotted (Some message) offset 256 of
        None \<Rightarrow> None
      | Some (i, out) \<Rightarrow>
          if i < 0 then Some (i, None)
          else
            (let len = int (length message) - (i + RRFIXEDSZ + int offset)
             in if len < 0 then Some (len, None)
                else
                  (let m = offset + nat i;
                       rdl = get16 message (m + 8);
                       a = \<lparr>adotted = Some (c_string (out @ drop (length out) temp)), atype = get16 message m,
                            aclass = get16 message (m + 2), ttl = of_nat (get32 message (m + 4)), rdlength = rdl,
                            rdata = drop (m + 10) message, rdoffset = m + 10\<rparr>
                   in if len < int rdl then Some (- 1, Some a) else Some (i + RRFIXEDSZ + int rdl, Some a))))"

section \<open>Compressed names\<close>

text \<open>\<open>ns_name_unpack\<close> from the offset \<open>off\<close> with \<open>checked\<close>, \<open>len\<close> and what was written to \<open>dst\<close>; \<open>None\<close> is -1 with
  \<open>EMSGSIZE\<close>.\<close>

function unpack_loop :: "byte list \<Rightarrow> nat \<Rightarrow> nat \<Rightarrow> nat \<Rightarrow> nat \<Rightarrow> nat option \<Rightarrow> byte list \<Rightarrow> (nat \<times> byte list) option" where
  "unpack_loop msg src dstsiz off checked len out =
     (if off \<ge> length msg then None
      else
        (let n = msg ! off
         in if n = 0 then Some ((case len of None \<Rightarrow> off + 1 - src | Some l \<Rightarrow> l), out @ [0])
            else if n AND 0xc0 = 0 then
              (if length out + unat n + 1 \<ge> dstsiz \<or> off + 1 + unat n \<ge> length msg then None
               else unpack_loop msg src dstsiz (off + 1 + unat n) (checked + unat n + 1) len
                      (out @ n # take (unat n) (drop (off + 1) msg)))
            else if n AND 0xc0 = 0xc0 then
              (if off + 1 \<ge> length msg then None
               else
                 (let len1 = (case len of None \<Rightarrow> Some (off + 1 - src + 1) | Some l \<Rightarrow> Some l);
                      off1 = unat (n AND 0x3f) * 256 + unat (msg ! (off + 1))
                  in if off1 \<ge> length msg then None
                     else if checked + 2 \<ge> length msg then None
                     else unpack_loop msg src dstsiz off1 (checked + 2) len1 out))
            else None))"
  by auto
termination
  by (relation "measures [\<lambda>(msg, src, dstsiz, off, checked, len, out). length msg - checked, \<lambda>(msg, src, dstsiz, off, checked, len, out). length msg - off]") auto

declare unpack_loop.simps [simp del]

definition ns_name_unpack :: "byte list \<Rightarrow> nat \<Rightarrow> nat \<Rightarrow> (nat \<times> byte list) option" where
  "ns_name_unpack msg src dstsiz = unpack_loop msg src dstsiz src 0 None []"

text \<open>\<open>ns_name_ntop\<close>: the printed form of an uncompressed name, which the list \<open>src\<close> holds with its end mark; \<open>None\<close> is
  -1 with \<open>EMSGSIZE\<close>.\<close>

definition special :: "byte \<Rightarrow> bool" where
  "special c \<longleftrightarrow> c \<in> {0x22, 0x2e, 0x3b, 0x5c, 0x40, 0x24}"

definition printable :: "byte \<Rightarrow> bool" where
  "printable c \<longleftrightarrow> c > 0x20 \<and> c < 0x7f"

definition digit_char :: "nat \<Rightarrow> byte" where
  "digit_char d = of_nat (48 + d)"

fun ntop_chars :: "nat \<Rightarrow> byte list \<Rightarrow> byte list \<Rightarrow> byte list option" where
  "ntop_chars dstsiz [] out = Some out"
| "ntop_chars dstsiz (c # cs) out =
     (if special c then
        (if length out + 1 \<ge> dstsiz then None else ntop_chars dstsiz cs (out @ [0x5c, c]))
      else if \<not> printable c then
        (if length out + 3 \<ge> dstsiz then None
         else ntop_chars dstsiz cs
                (out @ [0x5c, digit_char (unat c div 100), digit_char (unat c mod 100 div 10), digit_char (unat c mod 100 mod 10)]))
      else if length out \<ge> dstsiz then None else ntop_chars dstsiz cs (out @ [c]))"

definition ntop_end :: "nat \<Rightarrow> byte list \<Rightarrow> byte list option" where
  "ntop_end dstsiz out =
     (if out = [] \<and> dstsiz = 0 then None
      else (let out1 = (if out = [] then [0x2e] else out)
            in if length out1 \<ge> dstsiz then None else Some (out1 @ [0])))"

function ntop_loop :: "nat \<Rightarrow> byte list \<Rightarrow> byte list \<Rightarrow> byte list option" where
  "ntop_loop dstsiz [] out = None"
| "ntop_loop dstsiz (b # src) out =
     (if b = 0 then ntop_end dstsiz out
      else if b AND 0xc0 \<noteq> 0 then None
      else if out \<noteq> [] \<and> length out \<ge> dstsiz then None
      else
        (let n = unat b;
             out1 = (if out \<noteq> [] then out @ [0x2e] else out)
         in if length out1 + n \<ge> dstsiz then None
            else (case ntop_chars dstsiz (take n src) out1 of
                    None \<Rightarrow> None
                  | Some out2 \<Rightarrow> ntop_loop dstsiz (drop n src) out2)))"
  by pat_completeness auto
termination by (relation "measure (\<lambda>(dstsiz, src, out). length src)") auto

definition ns_name_ntop :: "byte list \<Rightarrow> nat \<Rightarrow> byte list option" where
  "ns_name_ntop src dstsiz = ntop_loop dstsiz src []"

definition NS_MAXCDNAME :: nat where "NS_MAXCDNAME = 255"

definition ns_name_uncompress :: "byte list \<Rightarrow> nat \<Rightarrow> nat \<Rightarrow> (nat \<times> byte list) option" where
  "ns_name_uncompress msg src dstsiz =
     (case ns_name_unpack msg src NS_MAXCDNAME of
        None \<Rightarrow> None
      | Some (n, tmp) \<Rightarrow> (case ns_name_ntop tmp dstsiz of None \<Rightarrow> None | Some dst \<Rightarrow> Some (n, dst)))"

definition dn_expand :: "byte list \<Rightarrow> nat \<Rightarrow> nat \<Rightarrow> (nat \<times> byte list) option" where
  "dn_expand msg src dstsiz =
     (case ns_name_uncompress msg src dstsiz of
        None \<Rightarrow> None
      | Some (n, dst) \<Rightarrow> Some (n, if n > 0 \<and> dst ! 0 = 0x2e then dst[0 := 0] else dst))"

text \<open>\<open>ns_name_skip\<close>: the offset behind the name. A label of type \<open>NS_TYPE_ELT\<close> has its length in the byte
  after it.\<close>

definition labellen :: "byte list \<Rightarrow> nat \<Rightarrow> nat option" where
  "labellen msg lp =
     (let l = msg ! lp
      in if l AND 0xc0 = 0xc0 then None
         else if l AND 0xc0 = 0x40 then
           (if l = 0x41 then
              (let bitlen = (if msg ! (lp + 1) = 0 then 256 else unat (msg ! (lp + 1))) in Some ((bitlen + 7) div 8 + 1))
            else None)
         else Some (unat l))"

function skip_loop :: "byte list \<Rightarrow> nat \<Rightarrow> nat option" where
  "skip_loop msg cp =
     (if cp \<ge> length msg then Some cp
      else
        (let n = msg ! cp
         in if n = 0 then Some (cp + 1)
            else if n AND 0xc0 = 0 then skip_loop msg (cp + 1 + unat n)
            else if n AND 0xc0 = 0x40 then
              (case labellen msg cp of None \<Rightarrow> None | Some l \<Rightarrow> skip_loop msg (cp + 1 + l))
            else if n AND 0xc0 = 0xc0 then Some (cp + 2)
            else None))"
  by auto
termination by (relation "measure (\<lambda>(msg, cp). length msg - cp)") auto

declare skip_loop.simps [simp del]

definition ns_name_skip :: "byte list \<Rightarrow> nat \<Rightarrow> nat option" where
  "ns_name_skip msg ptr =
     (case skip_loop msg ptr of None \<Rightarrow> None | Some cp \<Rightarrow> if cp > length msg then None else Some cp)"

definition dn_skipname :: "byte list \<Rightarrow> nat \<Rightarrow> nat option" where
  "dn_skipname msg ptr = map_option (\<lambda>cp. cp - ptr) (ns_name_skip msg ptr)"

end
