(* ===== verification/Dns_Pack.thy ===== *)
theory Dns_Pack
  imports Dns Numeric
begin

unbundle bit_operations_syntax

text \<open>
  DNS names: the parser of printed names and the compressor of \<open>libc/inet/resolv.c\<close> (\<open>ns_name_pton\<close>, \<open>ns_name_pack\<close>
  and what they call). A printed name is the list of its characters without the terminator; the array \<open>dst\<close> is the
  list of the bytes from its start to \<open>bp\<close>, where a length byte that is reserved but not written yet is 0. The
  result \<open>Inl e\<close> is -1 with \<open>errno\<close> set to \<open>e\<close>.
\<close>

definition EMSGSIZE :: nat where "EMSGSIZE = 90"

section \<open>Bit strings\<close>

text \<open>The variables of \<open>encode_bitstring\<close>; \<open>beg_blen\<close> is the text from there on, and \<open>bits\<close> the bytes written between
  \<open>*dst + 1\<close> and \<open>tp\<close>.\<close>

record bit_state =
  afterslash :: bool
  beg_blen :: "byte list option"
  bit_value :: "32 word"
  bit_count :: nat
  tbcount :: nat
  bits :: "byte list"

definition isdigit_b :: "byte \<Rightarrow> bool" where
  "isdigit_b c \<longleftrightarrow> 0x30 \<le> c \<and> c \<le> 0x39"

definition isxdigit_b :: "byte \<Rightarrow> bool" where
  "isxdigit_b c \<longleftrightarrow> isdigit_b c \<or> 0x41 \<le> c \<and> c \<le> 0x46 \<or> 0x61 \<le> c \<and> c \<le> 0x66"

text \<open>The \<open>default\<close> case of the switch, for the character \<open>c\<close> with \<open>cs\<close> behind it.\<close>

definition bits_char :: "byte \<Rightarrow> byte list \<Rightarrow> bit_state \<Rightarrow> nat + bit_state" where
  "bits_char c cs st =
     (if afterslash st then
        (if \<not> isdigit_b c then Inl EINVAL
         else if beg_blen st = None then
           (if c = 0x30 then Inl EINVAL else Inr (st\<lparr>beg_blen := Some (c # cs)\<rparr>))
         else Inr st)
      else if \<not> isdigit_b c \<and> (c OR 0x20) - 0x61 > 5 then Inl EINVAL
      else
        (let d = (if isdigit_b c then c else (c OR 0x20) - 0x61 + (10 + 0x30));
             v = push_bit 4 (bit_value st) + ucast (d - 0x30);
             n = bit_count st + 4;
             st1 = st\<lparr>bit_value := v, bit_count := n, tbcount := tbcount st + 4\<rparr>
         in if tbcount st1 > 256 then Inl EINVAL
            else if n = 8 then Inr (st1\<lparr>bits := bits st @ [ucast v], bit_count := 0\<rparr>)
            else Inr st1))"

text \<open>The length behind the slash; \<open>L\<close> is the width of \<open>long\<close>.\<close>

definition bits_blen :: "nat \<Rightarrow> bit_state \<Rightarrow> nat + int" where
  "bits_blen L st =
     (if \<not> afterslash st then Inr 0
      else (case beg_blen st of
              None \<Rightarrow> Inl EINVAL
            | Some s \<Rightarrow>
                (case strtol L (map uint s) 10 of
                   (v, end_blen, _) \<Rightarrow>
                     if cur end_blen \<noteq> 0x5d then Inl EINVAL else Inr (to_signed 32 (nat (v mod 2 ^ 32))))))"

text \<open>The loop over the text up to \<open>end\<close>: the rest of that text, the length and the state. \<open>room\<close> is \<open>eom - *dst\<close>.\<close>

fun bits_loop :: "nat \<Rightarrow> nat \<Rightarrow> byte list \<Rightarrow> bit_state \<Rightarrow> nat + byte list \<times> int \<times> bit_state" where
  "bits_loop L room [] st = Inr ([], 0, st)"
| "bits_loop L room (c # cs) st =
     (if \<not> (1 + length (bits st) < room) then Inr (c # cs, 0, st)
      else if c = 0x5d then
        (case bits_blen L st of
           Inl e \<Rightarrow> Inl e
         | Inr blen \<Rightarrow>
             Inr (cs, blen, if bit_count st \<noteq> 0 then st\<lparr>bits := bits st @ [ucast (push_bit 4 (bit_value st))]\<rparr> else st))
      else if c = 0x2f then bits_loop L room cs (st\<lparr>afterslash := True\<rparr>)
      else (case bits_char c cs st of Inl e \<Rightarrow> Inl e | Inr st1 \<Rightarrow> bits_loop L room cs st1))"

text \<open>\<open>encode_bitstring\<close> on the text \<open>src\<close> behind the bracket, where \<open>i\<close> is the place of the closing bracket; the text
  behind it and the new contents of \<open>dst\<close>.\<close>

definition encode_bitstring ::
  "nat \<Rightarrow> nat \<Rightarrow> byte list \<Rightarrow> nat \<Rightarrow> nat \<Rightarrow> byte list \<Rightarrow> nat + byte list \<times> byte list" where
  "encode_bitstring L dstsiz src i label out =
     (let cs = take (i + 2) (src @ [0]);
          room = dstsiz - length out;
          st0 = \<lparr>afterslash = False, beg_blen = None, bit_value = 0, bit_count = 0, tbcount = 0, bits = []\<rparr>
      in if length cs < 2 then Inl EINVAL
         else if cs ! 0 \<noteq> 0x78 then Inl EINVAL
         else if \<not> isxdigit_b (cs ! 1) then Inl EINVAL
         else
           (case bits_loop L room (drop 1 cs) st0 of
              Inl e \<Rightarrow> Inl e
            | Inr (rest, blen, st) \<Rightarrow>
                if rest = [] \<or> 1 + length (bits st) \<ge> room then Inl EMSGSIZE
                else if blen > 0 \<and> ((blen + 3) div 4 * 4 \<noteq> int (tbcount st) \<or>
                    push_bit (8 - (tbcount st - nat blen)) (bit_value st) AND 0xff \<noteq> 0) then Inl EINVAL
                else
                  (let blen1 = (if blen > 0 then blen else int (tbcount st));
                       blen2 = (if blen1 = 256 then 0 else blen1)
                   in Inr (drop (length cs - length rest) src, out[label := 0x41] @ of_int blen2 # bits st))))"

section \<open>Printed names\<close>

text \<open>A backslash with a character or three digits: the byte and what follows.\<close>

definition pton_escape :: "byte \<Rightarrow> byte list \<Rightarrow> (byte \<times> byte list) option" where
  "pton_escape c src =
     (if isdigit_b c then
        (case src of
           c1 # c2 # src1 \<Rightarrow>
             (let n = unat (c - 0x30) * 100 + unat (c1 - 0x30) * 10 + unat (c2 - 0x30)
              in if isdigit_b c1 \<and> isdigit_b c2 \<and> n \<le> 255 then Some (of_nat n, src1) else None)
         | _ \<Rightarrow> None)
      else Some (c, src))"

text \<open>The code from the label \<open>done\<close> on.\<close>

definition pton_done :: "nat \<Rightarrow> nat \<Rightarrow> byte list \<Rightarrow> nat \<Rightarrow> nat + nat \<times> byte list" where
  "pton_done dstsiz label out c =
     (if label \<ge> dstsiz then Inl EMSGSIZE
      else if c \<noteq> 0 \<and> length out \<ge> dstsiz then Inl EMSGSIZE
      else
        (let out1 = (if c \<noteq> 0 then out[label := of_nat c] @ [0] else out[label := of_nat c])
         in if length out1 > NS_MAXCDNAME then Inl EMSGSIZE else Inr (0, out1)))"

definition pton_end :: "nat \<Rightarrow> nat \<Rightarrow> byte list \<Rightarrow> nat + nat \<times> byte list" where
  "pton_end dstsiz label out =
     (let c = length out - label - 1
      in if c AND 0xc0 \<noteq> 0 then Inl EMSGSIZE else pton_done dstsiz label out c)"

text \<open>A dot that is the last character.\<close>

definition pton_qualified :: "nat \<Rightarrow> byte list \<Rightarrow> nat \<Rightarrow> nat + nat \<times> byte list" where
  "pton_qualified dstsiz out c =
     (if c \<noteq> 0 \<and> length out \<ge> dstsiz then Inl EMSGSIZE
      else
        (let out1 = (if c \<noteq> 0 then out @ [0] else out)
         in if length out1 > NS_MAXCDNAME then Inl EMSGSIZE else Inr (1, out1)))"

lemma encode_bitstring_rest: "encode_bitstring L dstsiz src i label out = Inr (src1, out1) \<Longrightarrow> length src1 \<le> length src"
  by (auto simp: encode_bitstring_def Let_def split: if_splits sum.splits prod.splits)

lemma pton_escape_rest: "pton_escape c src = Some (b, src1) \<Longrightarrow> length src1 \<le> length src"
  by (auto simp: pton_escape_def Let_def split: if_splits list.splits)

function pton_loop :: "nat \<Rightarrow> nat \<Rightarrow> byte list \<Rightarrow> bool \<Rightarrow> nat \<Rightarrow> byte list \<Rightarrow> nat + nat \<times> byte list" where
  "pton_loop L dstsiz [] escaped label out = pton_end dstsiz label out"
| "pton_loop L dstsiz (c # src) escaped label out =
     (if escaped then
        (if c = 0x5b then
           (if 0x5d \<notin> set src then Inl EINVAL
            else (case encode_bitstring L dstsiz src (length (takeWhile (\<lambda>x. x \<noteq> 0x5d) src)) label out of
                    Inl e \<Rightarrow> Inl e
                  | Inr (src1, out1) \<Rightarrow>
                      (case src1 of
                         [] \<Rightarrow> pton_done dstsiz (length out1) (out1 @ [0]) 0
                       | d # src2 \<Rightarrow>
                           if d \<noteq> 0x2e then Inl EINVAL
                           else pton_loop L dstsiz src2 False (length out1) (out1 @ [0]))))
         else (case pton_escape c src of
                 None \<Rightarrow> Inl EMSGSIZE
               | Some (b, src1) \<Rightarrow>
                   if length out \<ge> dstsiz then Inl EMSGSIZE else pton_loop L dstsiz src1 False label (out @ [b])))
      else if c = 0x5c then pton_loop L dstsiz src True label out
      else if c = 0x2e then
        (let n = length out - label - 1
         in if n AND 0xc0 \<noteq> 0 then Inl EMSGSIZE
            else if label \<ge> dstsiz then Inl EMSGSIZE
            else
              (let out1 = out[label := of_nat n]
               in if src = [] then pton_qualified dstsiz out1 n
                  else if n = 0 \<or> hd src = 0x2e then Inl EMSGSIZE
                  else pton_loop L dstsiz src False (length out1) (out1 @ [0])))
      else if length out \<ge> dstsiz then Inl EMSGSIZE
      else pton_loop L dstsiz src False label (out @ [c]))"
  by pat_completeness auto
termination
  by (relation "measure (\<lambda>(L, dstsiz, src, escaped, label, out). length src)")
    (auto dest!: encode_bitstring_rest pton_escape_rest)

definition ns_name_pton :: "nat \<Rightarrow> byte list \<Rightarrow> nat \<Rightarrow> nat + nat \<times> byte list" where
  "ns_name_pton L src dstsiz = pton_loop L dstsiz src False 0 [0]"

section \<open>Compression\<close>

definition mklower :: "byte \<Rightarrow> byte" where
  "mklower ch = (if ch \<ge> 0x41 \<and> ch \<le> 0x5a then ch + 0x20 else ch)"

text \<open>The comparison of \<open>dn_find\<close> between the name at \<open>cp\<close> and the uncompressed name \<open>dn\<close>, which the list has up to and
  with its end mark. \<open>None\<close> is a run that does not end.\<close>

datatype dn_cmp = Cmp_found | Cmp_next | Cmp_illegal

partial_function (option) dn_match :: "byte list \<Rightarrow> byte list \<Rightarrow> nat \<Rightarrow> dn_cmp option" where
  [code]: "dn_match msg dn cp =
     (let n = msg ! cp
      in if n = 0 then Some Cmp_next
         else if n AND 0xc0 = 0 then
           (let l = unat n;
                dn1 = drop 1 dn
            in if n \<noteq> dn ! 0 then Some Cmp_next
               else if map mklower (take l dn1) \<noteq> map mklower (take l (drop (cp + 1) msg)) then Some Cmp_next
               else
                 (let dn2 = drop l dn1;
                      cp2 = cp + 1 + l
                  in if dn2 ! 0 = 0 \<and> msg ! cp2 = 0 then Some Cmp_found
                     else if dn2 ! 0 \<noteq> 0 then dn_match msg dn2 cp2
                     else Some Cmp_next))
         else if n AND 0xc0 = 0xc0 then dn_match msg dn (unat (n AND 0x3f) * 256 + unat (msg ! (cp + 1)))
         else Some Cmp_illegal)"

text \<open>\<open>Dn_illegal\<close> and \<open>Dn_absent\<close> are -1 with \<open>EMSGSIZE\<close> and with \<open>ENOENT\<close>.\<close>

datatype dn_result = Dn_found nat | Dn_illegal | Dn_absent

function dn_suffixes :: "byte list \<Rightarrow> byte list \<Rightarrow> nat \<Rightarrow> dn_result option" where
  "dn_suffixes msg domain sp =
     (if msg ! sp \<noteq> 0 \<and> msg ! sp AND 0xc0 = 0 \<and> sp < 0x4000 then
        (case dn_match msg domain sp of
           None \<Rightarrow> None
         | Some Cmp_found \<Rightarrow> Some (Dn_found sp)
         | Some Cmp_illegal \<Rightarrow> Some Dn_illegal
         | Some Cmp_next \<Rightarrow> dn_suffixes msg domain (sp + unat (msg ! sp) + 1))
      else Some Dn_absent)"
  by auto
termination by (relation "measure (\<lambda>(msg, domain, sp). 0x4000 - sp)") auto

declare dn_suffixes.simps [simp del]

fun dn_find :: "byte list \<Rightarrow> byte list \<Rightarrow> nat list \<Rightarrow> dn_result option" where
  "dn_find msg domain [] = Some Dn_absent"
| "dn_find msg domain (p # ps) =
     (case dn_suffixes msg domain p of
        None \<Rightarrow> None
      | Some Dn_absent \<Rightarrow> dn_find msg domain ps
      | Some r \<Rightarrow> Some r)"

text \<open>The check of \<open>ns_name_pack\<close> that the name is legal: \<open>None\<close>, or the value of \<open>errno\<close>.\<close>

function legal_loop :: "byte list \<Rightarrow> nat \<Rightarrow> nat \<Rightarrow> nat option" where
  "legal_loop src pos l =
     (let n = src ! pos
      in if n AND 0xc0 = 0xc0 then Some EMSGSIZE
         else (case labellen src pos of
                 None \<Rightarrow> Some EINVAL
               | Some l0 \<Rightarrow>
                   if l + l0 + 1 > NS_MAXCDNAME then Some EMSGSIZE
                   else if n \<noteq> 0 then legal_loop src (pos + l0 + 1) (l + l0 + 1)
                   else None))"
  by auto
termination by (relation "measure (\<lambda>(src, pos, l). 256 - l)") (auto simp: NS_MAXCDNAME_def)

declare legal_loop.simps [simp del]

text \<open>The copying loop of \<open>ns_name_pack\<close>. The message so far is \<open>m\<close> and \<open>dst\<close> is its end; \<open>ptrs\<close> are the names in
  \<open>dnptrs\<close> as offsets into the message, \<open>None\<close> when there is no message to refer to; \<open>cap\<close> is \<open>lastdnptr - dnptrs\<close>, \<open>None\<close>
  when \<open>lastdnptr\<close> is null; \<open>added\<close> has the name that was saved, and \<open>first\<close> holds while it is empty. A label length
  that the check above has refused cannot occur and is treated as the error it is there.\<close>

type_synonym pack_result = "(nat + nat) \<times> byte list \<times> nat list option"

definition pack_cleanup :: "byte list \<Rightarrow> nat list option \<Rightarrow> pack_result" where
  "pack_cleanup out ptrs = (Inl EMSGSIZE, out, ptrs)"

definition pack_search :: "byte list \<Rightarrow> byte list \<Rightarrow> nat list option \<Rightarrow> dn_result option" where
  "pack_search msg domain ptrs =
     (case ptrs of
        None \<Rightarrow> Some Dn_absent
      | Some ps \<Rightarrow> if domain ! 0 = 0 then Some Dn_absent else dn_find msg domain ps)"

definition pack_save :: "nat \<Rightarrow> byte \<Rightarrow> nat list option \<Rightarrow> nat option \<Rightarrow> nat list \<Rightarrow> nat list" where
  "pack_save dstp n ptrs cap added =
     (case (ptrs, cap) of
        (Some ps, Some c) \<Rightarrow> if n \<noteq> 0 \<and> length ps + 1 < c \<and> dstp < 0x4000 \<and> added = [] then [dstp] else added
      | _ \<Rightarrow> added)"

definition pack_ptrs :: "nat list option \<Rightarrow> nat list \<Rightarrow> nat list option" where
  "pack_ptrs ptrs added = map_option (\<lambda>ps. ps @ added) ptrs"

function pack_loop ::
  "byte list \<Rightarrow> byte list \<Rightarrow> nat \<Rightarrow> nat list option \<Rightarrow> nat option \<Rightarrow> nat \<Rightarrow> nat list \<Rightarrow> byte list \<Rightarrow> pack_result option" where
  "pack_loop m src dstsiz ptrs cap pos added out =
     (let n = src ! pos
      in case pack_search (m @ out) (drop pos src) ptrs of
           None \<Rightarrow> None
         | Some (Dn_found l) \<Rightarrow>
             if length out + 1 \<ge> dstsiz then Some (pack_cleanup out ptrs)
             else Some (Inr (length out + 2), out @ [of_nat (l div 256) OR 0xc0, of_nat (l mod 256)], pack_ptrs ptrs added)
         | Some _ \<Rightarrow>
             (let added1 = pack_save (length m + length out) n ptrs cap added
              in if n AND 0xc0 = 0xc0 then Some (pack_cleanup out ptrs)
                 else (case labellen src pos of
                         None \<Rightarrow> Some (pack_cleanup out ptrs)
                       | Some l \<Rightarrow>
                           if length out + 1 + l \<ge> dstsiz then Some (pack_cleanup out ptrs)
                           else
                             (let out1 = out @ map (\<lambda>i. src ! (pos + i)) [0..<l + 1]
                              in if l \<noteq> 0 then pack_loop m src dstsiz ptrs cap (pos + l + 1) added1 out1
                                 else if length out1 > dstsiz then Some (pack_cleanup out1 ptrs)
                                 else Some (Inr (length out1), out1, pack_ptrs ptrs added1)))))"
  by auto
termination by (relation "measure (\<lambda>(m, src, dstsiz, ptrs, cap, pos, added, out). dstsiz - length out)") auto

declare pack_loop.simps [simp del]

definition ns_name_pack ::
  "byte list \<Rightarrow> byte list \<Rightarrow> nat \<Rightarrow> nat list option \<Rightarrow> nat option \<Rightarrow> pack_result option" where
  "ns_name_pack m src dstsiz ptrs cap =
     (case legal_loop src 0 0 of
        Some e \<Rightarrow> Some (Inl e, [], ptrs)
      | None \<Rightarrow> pack_loop m src dstsiz ptrs cap 0 [] [])"

definition ns_name_compress ::
  "nat \<Rightarrow> byte list \<Rightarrow> byte list \<Rightarrow> nat \<Rightarrow> nat list option \<Rightarrow> nat option \<Rightarrow> pack_result option" where
  "ns_name_compress L m src dstsiz ptrs cap =
     (case ns_name_pton L src NS_MAXCDNAME of
        Inl e \<Rightarrow> Some (Inl e, [], ptrs)
      | Inr (_, tmp) \<Rightarrow> ns_name_pack m tmp dstsiz ptrs cap)"

definition dn_comp ::
  "nat \<Rightarrow> byte list \<Rightarrow> byte list \<Rightarrow> nat \<Rightarrow> nat list option \<Rightarrow> nat option \<Rightarrow> pack_result option" where
  "dn_comp L m src dstsiz ptrs cap = ns_name_compress L m src dstsiz ptrs cap"

end
