(* ===== verification/Dns_Proofs.thy ===== *)
theory Dns_Proofs
  imports Dns
begin

text \<open>
  DNS messages: the proofs. \<open>dname\<close> says which labels the name at an offset of a message has, compression pointers
  included; the decoders of \<open>libc/inet/resolv.c\<close> are proved to return exactly those names, the encoders to write
  messages that hold them, and the records to survive being encoded and decoded.
\<close>

section \<open>Numbers in messages\<close>

lemma unat_byte: "n < 256 \<Longrightarrow> unat (of_nat n :: byte) = n"
  by (simp add: unat_of_nat take_bit_nat_eq_self)

lemma get16_put16: "n < 65536 \<Longrightarrow> length xs = i \<Longrightarrow> get16 (xs @ put16 n @ ys) i = n"
proof -
  assume n: "n < 65536" and i: "length xs = i"
  have "n div 256 < 256" using n by (simp add: div_less_iff_less_mult)
  then have "n div 256 mod 256 = n div 256" by simp
  then have "unat (of_nat (n div 256 mod 256) :: byte) = n div 256" "unat (of_nat (n mod 256) :: byte) = n mod 256"
    by (subst unat_byte; simp)+
  moreover have "(xs @ put16 n @ ys) ! i = of_nat (n div 256 mod 256)" "(xs @ put16 n @ ys) ! (i + 1) = of_nat (n mod 256)"
    unfolding i [symmetric] by (simp_all add: put16_def nth_append)
  ultimately show ?thesis unfolding get16_def by simp
qed

lemma length_put16 [simp]: "length (put16 n) = 2"
  by (simp add: put16_def)

lemma length_put32 [simp]: "length (put32 n) = 4"
  by (simp add: put32_def)

lemma get32_put32: "n < 2 ^ 32 \<Longrightarrow> length xs = i \<Longrightarrow> get32 (xs @ put32 n @ ys) i = n"
proof -
  assume n: "n < 2 ^ 32" and i: "length xs = i"
  have "n div 65536 < 65536" using n by (simp add: div_less_iff_less_mult)
  then have h: "get16 (xs @ put16 (n div 65536) @ (put16 n @ ys)) i = n div 65536" using i by (rule get16_put16)
  have p: "put16 n = put16 (n mod 65536)"
  proof -
    have "n div 256 mod 256 = n mod 65536 div 256 mod 256" "n mod 256 = n mod 65536 mod 256"
      using mod_mult2_eq [of n 256 256] by (simp_all add: mod_mod_cancel)
    then show ?thesis unfolding put16_def by simp
  qed
  have "get16 ((xs @ put16 (n div 65536)) @ put16 (n mod 65536) @ ys) (i + 2) = n mod 65536"
    using i by (intro get16_put16) simp_all
  then show ?thesis using h unfolding get32_def put32_def p by simp
qed

definition flag_byte :: "bool \<Rightarrow> nat \<Rightarrow> bool \<Rightarrow> bool \<Rightarrow> bool \<Rightarrow> byte" where
  "flag_byte q opc a t r = (if q then 0x80 else 0) OR push_bit 3 (of_nat opc AND 0x0f) OR (if a then 0x04 else 0)
     OR (if t then 0x02 else 0) OR (if r then 0x01 else 0)"

definition flags_ok :: "bool \<Rightarrow> nat \<Rightarrow> bool \<Rightarrow> bool \<Rightarrow> bool \<Rightarrow> bool" where
  "flags_ok q opc a t r \<longleftrightarrow> (let d = flag_byte q opc a t r in (d AND 0x80 \<noteq> 0) = q \<and> unat (drop_bit 3 d AND 0x0f) = opc \<and>
     (d AND 0x04 \<noteq> 0) = a \<and> (d AND 0x02 \<noteq> 0) = t \<and> (d AND 0x01 \<noteq> 0) = r)"

lemma flags_table:
  "list_all (\<lambda>q. list_all (\<lambda>opc. list_all (\<lambda>a. list_all (\<lambda>t. list_all (\<lambda>r. flags_ok q opc a t r) [True, False]) [True, False])
     [True, False]) [0..<16]) [True, False]"
  by code_simp

lemma flags_all: "opc < 16 \<Longrightarrow> flags_ok q opc a t r"
proof -
  assume "opc < 16"
  then have "opc \<in> set [0..<16]" by simp
  moreover have "x \<in> set [True, False]" for x by simp
  ultimately show ?thesis using flags_table unfolding list_all_iff by blast
qed

definition rcode_ok :: "bool \<Rightarrow> nat \<Rightarrow> bool" where
  "rcode_ok r c \<longleftrightarrow> (let d = (if r then 0x80 else 0) OR (of_nat c AND 0x0f) :: byte in (d AND 0x80 \<noteq> 0) = r \<and> unat (d AND 0x0f) = c)"

lemma rcode_table: "list_all (\<lambda>r. list_all (\<lambda>c. rcode_ok r c) [0..<16]) [True, False]"
  by code_simp

lemma rcode_all: "c < 16 \<Longrightarrow> rcode_ok r c"
proof -
  assume "c < 16"
  then have "c \<in> set [0..<16]" by simp
  moreover have "x \<in> set [True, False]" for x by simp
  ultimately show ?thesis using rcode_table unfolding list_all_iff by blast
qed

definition header_ok :: "resolv_header \<Rightarrow> bool" where
  "header_ok h \<longleftrightarrow> hid h < 65536 \<and> qdcount h < 65536 \<and> ancount h < 65536 \<and> nscount h < 65536 \<and> arcount h < 65536 \<and>
     opcode h < 16 \<and> rcode h < 16"

lemma header_roundtrip:
  assumes "header_ok h" "12 \<le> maxlen"
  shows "fst (encode_header h maxlen) = 12" "length (snd (encode_header h maxlen)) = 12"
    "decode_header (snd (encode_header h maxlen) @ rest) = h"
proof -
  define f1 where "f1 = flag_byte (qr h) (opcode h) (aa h) (tc h) (rd h)"
  define f2 where "f2 = ((if ra h then 0x80 else 0) OR (of_nat (rcode h) AND 0x0f) :: byte)"
  have e: "encode_header h maxlen = (12, put16 (hid h) @ [f1, f2] @ put16 (qdcount h) @ put16 (ancount h) @ put16 (nscount h) @ put16 (arcount h))"
    using assms(2) by (simp add: encode_header_def HFIXEDSZ_def f1_def f2_def flag_byte_def)
  show "fst (encode_header h maxlen) = 12" "length (snd (encode_header h maxlen)) = 12" by (simp_all add: e)
  let ?d = "put16 (hid h) @ [f1, f2] @ put16 (qdcount h) @ put16 (ancount h) @ put16 (nscount h) @ put16 (arcount h) @ rest"
  have g: "get16 ?d 0 = hid h" "get16 ?d 4 = qdcount h" "get16 ?d 6 = ancount h" "get16 ?d 8 = nscount h" "get16 ?d 10 = arcount h"
    using assms(1) get16_put16 [of "hid h" "[]" 0 "[f1, f2] @ put16 (qdcount h) @ put16 (ancount h) @ put16 (nscount h) @ put16 (arcount h) @ rest"]
      get16_put16 [of "qdcount h" "put16 (hid h) @ [f1, f2]" 4 "put16 (ancount h) @ put16 (nscount h) @ put16 (arcount h) @ rest"]
      get16_put16 [of "ancount h" "put16 (hid h) @ [f1, f2] @ put16 (qdcount h)" 6 "put16 (nscount h) @ put16 (arcount h) @ rest"]
      get16_put16 [of "nscount h" "put16 (hid h) @ [f1, f2] @ put16 (qdcount h) @ put16 (ancount h)" 8 "put16 (arcount h) @ rest"]
      get16_put16 [of "arcount h" "put16 (hid h) @ [f1, f2] @ put16 (qdcount h) @ put16 (ancount h) @ put16 (nscount h)" 10 rest]
    by (simp_all add: header_ok_def)
  have b: "?d ! 2 = f1" "?d ! 3 = f2" by (simp_all add: put16_def)
  have "flags_ok (qr h) (opcode h) (aa h) (tc h) (rd h)" "rcode_ok (ra h) (rcode h)"
    using assms(1) by (auto simp: header_ok_def intro: flags_all rcode_all)
  then show "decode_header (snd (encode_header h maxlen) @ rest) = h"
    unfolding e using g b by (simp add: decode_header_def flags_ok_def rcode_ok_def Let_def flip: f1_def f2_def)
qed

section \<open>Names in messages\<close>

text \<open>The message has the name with the labels \<open>ls\<close> at \<open>off\<close>, in \<open>k\<close> bytes there. \<open>adj\<close> says that the end of the name
  follows its last label directly and is not reached through a pointer, \<open>v\<close> is the number of bytes before the end
  that were visited.\<close>

inductive dname :: "byte list \<Rightarrow> nat \<Rightarrow> byte list list \<Rightarrow> nat \<Rightarrow> bool \<Rightarrow> nat \<Rightarrow> bool" for msg where
  dname_end: "off < length msg \<Longrightarrow> msg ! off = 0 \<Longrightarrow> dname msg off [] 1 True 0"
| dname_label: "off < length msg \<Longrightarrow> n = unat (msg ! off) \<Longrightarrow> 0 < n \<Longrightarrow> n < 64 \<Longrightarrow> off + 1 + n < length msg \<Longrightarrow>
    l = take n (drop (off + 1) msg) \<Longrightarrow> dname msg (off + 1 + n) ls k adj v \<Longrightarrow> dname msg off (l # ls) (1 + n + k) adj (1 + n + v)"
| dname_ptr: "off + 1 < length msg \<Longrightarrow> 192 \<le> unat (msg ! off) \<Longrightarrow>
    dname msg (unat (msg ! off) mod 64 * 256 + unat (msg ! (off + 1))) ls k adj v \<Longrightarrow> dname msg off ls 2 (ls \<noteq> [] \<and> adj) (2 + v)"

fun dotted :: "byte list list \<Rightarrow> byte list" where
  "dotted [] = []"
| "dotted [l] = l"
| "dotted (l # l' # ls) = l @ 0x2e # dotted (l' # ls)"

lemma label_byte:
  assumes "unat (b :: byte) = n" "0 < n" "n < 64"
  shows "b \<noteq> 0" "b AND 0xc0 = 0"
proof -
  show "b \<noteq> 0" using assms by auto
  have "unat (b AND 0xc0) = 0" unfolding and_mask_c0 using assms by simp
  then show "b AND 0xc0 = 0" by (simp add: word_unat_eq_iff)
qed

lemma pointer_byte:
  assumes "192 \<le> unat (b :: byte)"
  shows "b \<noteq> 0" "b AND 0xc0 = 0xc0" "unat (b AND 0x3f) = unat b mod 64"
proof -
  show "b \<noteq> 0" using assms by auto
  have "unat b < 2 ^ LENGTH(8)" by (rule unsigned_less)
  then have "unat (b AND 0xc0) = 192" unfolding and_mask_c0 using assms by simp
  then show "b AND 0xc0 = 0xc0" by (simp add: word_unat_eq_iff)
  show "unat (b AND 0x3f) = unat b mod 64" by (rule and_mask6)
qed

lemma dname_bound: "dname msg off ls k adj v \<Longrightarrow> off < length msg"
  by (induction rule: dname.induct) auto

lemma dname_zero: "dname msg off ls k adj v \<Longrightarrow> msg ! off = 0 \<Longrightarrow> ls = [] \<and> adj"
  by (erule dname.cases) auto

lemma dname_nonzero: "dname msg off [] k adj v \<Longrightarrow> msg ! off \<noteq> 0 \<Longrightarrow> \<not> adj"
  by (erule dname.cases) auto

lemma decode_loop_name:
  "dname msg off ls k adj v \<Longrightarrow> (ls = [] \<or> length out + length (dotted ls) + 1 < dest_len) \<Longrightarrow>
   decode_loop msg dest_len off measuring tot out =
     Some (int (if measuring then tot + k else tot), out @ (if ls = [] then [] else dotted ls @ [if adj then 0 else 0x2e]))"
proof (induction arbitrary: out measuring tot rule: dname.induct)
  case (dname_end off)
  then show ?case by (subst decode_loop.simps) simp
next
  case (dname_label off n l ls k adj v)
  have b: "msg ! off \<noteq> 0" "msg ! off AND 0xc0 = 0" using label_byte [OF dname_label(2) [symmetric] dname_label(3,4)] by auto
  let ?c = "if msg ! (off + 1 + n) \<noteq> 0 then 0x2e else 0 :: byte"
  have ll: "length l = n" using dname_label(5,6) by simp
  have len: "length l \<le> length (dotted (l # ls))" by (cases ls) simp_all
  have "decode_loop msg dest_len off measuring tot out =
      decode_loop msg dest_len (off + 1 + n) measuring (if measuring then tot + 1 + n else tot) (out @ l @ [?c])"
    using dname_label(1-6) b dname_label.prems len ll by (subst decode_loop.simps) (simp add: Let_def)
  also have "\<dots> = Some (int (if measuring then (if measuring then tot + 1 + n else tot) + k else (if measuring then tot + 1 + n else tot)),
      (out @ l @ [?c]) @ (if ls = [] then [] else dotted ls @ [if adj then 0 else 0x2e]))"
    by (rule dname_label.IH) (use dname_label.prems in \<open>cases ls; simp\<close>)
  finally show ?case
    using dname_zero [OF dname_label(7)] dname_nonzero [of msg "off + 1 + n" k adj v] dname_label(7) by (cases ls) auto
next
  case (dname_ptr off ls k adj v)
  note b = pointer_byte [OF dname_ptr(2)]
  have "decode_loop msg dest_len off measuring tot out =
      decode_loop msg dest_len (unat (msg ! off) mod 64 * 256 + unat (msg ! (off + 1))) False (if measuring then tot + 2 else tot) out"
    using dname_ptr(1) b by (subst decode_loop.simps) (simp add: Let_def)
  also have "\<dots> = Some (int (if measuring then tot + 2 else tot), out @ (if ls = [] then [] else dotted ls @ [if adj then 0 else 0x2e]))"
    using dname_ptr.IH [of out False] dname_ptr.prems by simp
  finally show ?case by auto
qed

text \<open>A name without compression.\<close>

definition wire :: "byte list list \<Rightarrow> byte list" where
  "wire ls = concat (map (\<lambda>l. of_nat (length l) # l) ls) @ [0]"

definition labels_ok :: "byte list list \<Rightarrow> bool" where
  "labels_ok ls \<longleftrightarrow> list_all (\<lambda>l. l \<noteq> [] \<and> length l < 64) ls"

lemma wire_Cons: "wire (l # ls) = of_nat (length l) # l @ wire ls"
  by (simp add: wire_def)

lemma wire_dname: "labels_ok ls \<Longrightarrow> dname (pre @ wire ls @ post) (length pre) ls (length (wire ls)) True (length (wire ls) - 1)"
proof (induction ls arbitrary: pre)
  case Nil
  then show ?case using dname_end [of "length pre" "pre @ 0 # post"] by (simp add: wire_def)
next
  case (Cons l ls)
  let ?m = "pre @ wire (l # ls) @ post"
  have l: "0 < length l" "length l < 64" using Cons.prems by (auto simp: labels_ok_def)
  have m: "?m = (pre @ of_nat (length l) # l) @ wire ls @ post" by (simp add: wire_Cons)
  have ne: "wire ls \<noteq> []" by (simp add: wire_def)
  have "dname ?m (length (pre @ of_nat (length l) # l)) ls (length (wire ls)) True (length (wire ls) - 1)"
    unfolding m by (rule Cons.IH) (use Cons.prems in \<open>simp add: labels_ok_def\<close>)
  then have "dname ?m (length pre + 1 + length l) ls (length (wire ls)) True (length (wire ls) - 1)" by simp
  moreover have "unat (?m ! length pre) = length l" "l = take (length l) (drop (length pre + 1) ?m)"
    "length pre + 1 + length l < length ?m" "length pre < length ?m"
    using l ne by (simp_all add: wire_Cons unat_byte nth_append)
  ultimately have "dname ?m (length pre) (l # ls) (1 + length l + length (wire ls)) True (1 + length l + (length (wire ls) - 1))"
    using l by (intro dname_label) simp_all
  moreover have "1 + length l + length (wire ls) = length (wire (l # ls))" by (simp add: wire_Cons)
  moreover have "1 + length l + (length (wire ls) - 1) = length (wire (l # ls)) - 1"
    using ne by (simp add: wire_Cons Suc_leI flip: length_greater_0_conv)
  ultimately show ?case by (simp only:)
qed

section \<open>The encoder\<close>

definition host_labels :: "byte list list \<Rightarrow> bool" where
  "host_labels ls \<longleftrightarrow> list_all (\<lambda>l. l \<noteq> [] \<and> length l < 64 \<and> 0x2e \<notin> set l \<and> 0 \<notin> set l) ls"

lemma host_labels_ok: "host_labels ls \<Longrightarrow> labels_ok ls"
  by (auto simp: host_labels_def labels_ok_def list_all_iff)

lemma length_wire: "length (wire ls) = sum_list (map (\<lambda>l. length l + 1) ls) + 1"
  by (induction ls) (auto simp: wire_def)

lemma takeWhile_label: "0x2e \<notin> set l \<Longrightarrow> takeWhile (\<lambda>x. x \<noteq> 0x2e) (l @ 0x2e # r) = l"
  "0x2e \<notin> set l \<Longrightarrow> takeWhile (\<lambda>x. x \<noteq> 0x2e) l = (l :: byte list)"
proof -
  assume l: "0x2e \<notin> set l"
  show "takeWhile (\<lambda>x. x \<noteq> 0x2e) (l @ 0x2e # r) = l" using l by (subst takeWhile_append2) auto
  show "takeWhile (\<lambda>x. x \<noteq> 0x2e) l = l" by (rule takeWhile_eq_all_conv [THEN iffD2]) (use l in auto)
qed

lemma encode_labels_Cons:
  assumes "s \<noteq> []"
  shows "encode_labels s maxlen out =
     (let l = length (takeWhile (\<lambda>x. x \<noteq> 0x2e) s)
      in if l = 0 then (- 1, out)
         else if int l \<ge> (maxlen - int (length out) - 1) mod 2 ^ 32 then (- 1, out)
         else (let out1 = out @ of_nat l # take l s
               in if l = length s then encode_end maxlen out1 else encode_labels (drop (l + 1) s) maxlen out1))"
  using assms by (cases s) (simp_all add: Let_def)

lemma encode_labels_wire:
  "host_labels ls \<Longrightarrow> ls \<noteq> [] \<Longrightarrow> int (length out + length (wire ls)) \<le> maxlen \<Longrightarrow> maxlen < 2 ^ 31 \<Longrightarrow>
   encode_labels (dotted ls) maxlen out = (int (length out + length (wire ls)), out @ wire ls)"
proof (induction ls arbitrary: out rule: dotted.induct)
  case (2 l)
  then have l: "l \<noteq> []" "0x2e \<notin> set l" "length l < 64" by (auto simp: host_labels_def)
  have w: "length (wire [l]) = length l + 2" by (simp add: length_wire)
  have m: "(maxlen - int (length out) - 1) mod 2 ^ 32 = maxlen - int (length out) - 1"
    using 2(3,4) w by (intro mod_pos_pos_trivial) simp_all
  show ?case unfolding dotted.simps(2) encode_labels_Cons [OF l(1)] m takeWhile_label(2) [OF l(2)]
    using 2(3) w l by (simp add: Let_def encode_end_def wire_def)
next
  case (3 l l' ls)
  then have l: "l \<noteq> []" "0x2e \<notin> set l" "length l < 64" and h: "host_labels (l' # ls)" by (auto simp: host_labels_def)
  have w: "length (wire (l # l' # ls)) = length l + 1 + length (wire (l' # ls))" by (simp add: wire_Cons)
  have p: "1 \<le> length (wire (l' # ls))" by (simp add: length_wire)
  have m: "(maxlen - int (length out) - 1) mod 2 ^ 32 = maxlen - int (length out) - 1"
    using 3(4,5) w by (intro mod_pos_pos_trivial) simp_all
  let ?out = "out @ of_nat (length l) # l"
  have "encode_labels (dotted (l # l' # ls)) maxlen out = encode_labels (dotted (l' # ls)) maxlen ?out"
    unfolding dotted.simps(3) by (subst encode_labels_Cons, simp) (use m takeWhile_label(1) [OF l(2)] 3(4) w p l in \<open>simp add: Let_def\<close>)
  also have "\<dots> = (int (length ?out + length (wire (l' # ls))), ?out @ wire (l' # ls))"
    using 3(4,5) w h by (intro 3(1)) simp_all
  finally show ?case using w by (simp add: wire_Cons)
qed simp

lemma encode_dotted_wire:
  assumes "host_labels ls" "int (length (wire ls)) \<le> maxlen" "maxlen < 2 ^ 31"
  shows "encode_dotted (Some (dotted ls)) maxlen = (int (length (wire ls)), wire ls)"
proof (cases "ls = []")
  case True
  then show ?thesis using assms by (simp add: encode_dotted_def encode_end_def wire_def)
next
  case False
  then show ?thesis using encode_labels_wire [OF assms(1) False, of "[]" maxlen] assms by (simp add: encode_dotted_def)
qed

text \<open>The bytes written stay inside the buffer, whatever the string is.\<close>

lemma encode_labels_bound:
  "0 < maxlen \<Longrightarrow> maxlen < 2 ^ 31 \<Longrightarrow> int (length out) < maxlen \<Longrightarrow> int (length (snd (encode_labels s maxlen out))) \<le> maxlen"
proof (induction s maxlen out rule: encode_labels.induct)
  case (1 maxlen out)
  then show ?case by (simp add: encode_end_def)
next
  case (2 c cs maxlen out)
  let ?s = "c # cs"
  define l where "l = length (takeWhile (\<lambda>x. x \<noteq> 0x2e) ?s)"
  let ?out = "out @ of_nat l # take l ?s"
  have m: "(maxlen - int (length out) - 1) mod 2 ^ 32 = maxlen - int (length out) - 1"
    using "2.prems" by (intro mod_pos_pos_trivial) simp_all
  have le: "l \<le> length ?s" unfolding l_def by (rule length_takeWhile_le)
  have eq: "encode_labels ?s maxlen out = (if l = 0 then (- 1, out) else if int l \<ge> maxlen - int (length out) - 1 then (- 1, out)
      else if l = length ?s then encode_end maxlen ?out else encode_labels (drop (l + 1) ?s) maxlen ?out)"
    using encode_labels_Cons [of ?s maxlen out] unfolding l_def [symmetric] m Let_def by (simp del: encode_labels.simps)
  show ?case
  proof (cases "l = 0 \<or> int l \<ge> maxlen - int (length out) - 1")
    case True
    then show ?thesis unfolding eq using "2.prems" by auto
  next
    case False
    then have b: "int (length ?out) < maxlen" using le by simp
    then have e: "int (length (snd (encode_end maxlen ?out))) \<le> maxlen" by (simp add: encode_end_def)
    have "int (length (snd (encode_labels (drop (l + 1) ?s) maxlen ?out))) \<le> maxlen" if "l \<noteq> length ?s"
      by (rule "2.IH" [OF refl l_def]) (use False that m b "2.prems" in simp_all)
    then show ?thesis unfolding eq using False e by (auto simp only: if_False if_True split: if_split)
  qed
qed

section \<open>Expanding compressed names\<close>

lemma unpack_label:
  assumes "off < length msg" "n = unat (msg ! off)" "0 < n" "n < 64" "off + 1 + n < length msg"
  shows "unpack_loop msg src dstsiz off checked len out =
    (if length out + n + 1 \<ge> dstsiz then None
     else unpack_loop msg src dstsiz (off + 1 + n) (checked + n + 1) len (out @ msg ! off # take n (drop (off + 1) msg)))"
proof -
  have b: "msg ! off \<noteq> 0" "msg ! off AND 0xc0 = 0" using label_byte [OF assms(2) [symmetric] assms(3,4)] by auto
  show ?thesis using assms b by (subst unpack_loop.simps) (simp add: Let_def)
qed

lemma unpack_complete:
  "dname msg off ls k adj v \<Longrightarrow> checked + v < length msg \<Longrightarrow> length out + length (wire ls) \<le> dstsiz \<Longrightarrow> src \<le> off \<or> len \<noteq> None \<Longrightarrow>
   unpack_loop msg src dstsiz off checked len out =
     Some (case len of None \<Rightarrow> off + k - src | Some l \<Rightarrow> l, out @ wire ls)"
proof (induction arbitrary: checked out len rule: dname.induct)
  case (dname_end off)
  then show ?case by (subst unpack_loop.simps) (simp add: wire_def Let_def)
next
  case (dname_label off n l ls k adj v)
  have ll: "length l = n" "msg ! off = of_nat n" using dname_label(2,5,6) by simp_all
  have p: "1 \<le> length (wire ls)" by (simp add: length_wire)
  have "unpack_loop msg src dstsiz off checked len out =
      unpack_loop msg src dstsiz (off + 1 + n) (checked + n + 1) len (out @ of_nat n # l)"
    using unpack_label [OF dname_label(1-5)] dname_label.prems p ll dname_label(6) by (simp add: wire_Cons)
  also have "\<dots> = Some (case len of None \<Rightarrow> (off + 1 + n) + k - src | Some l \<Rightarrow> l, (out @ of_nat n # l) @ wire ls)"
    by (rule dname_label.IH) (use dname_label.prems ll in \<open>auto simp: wire_Cons\<close>)
  finally show ?case using ll by (simp add: wire_Cons add.assoc split: option.split)
next
  case (dname_ptr off ls k adj v)
  note b = pointer_byte [OF dname_ptr(2)]
  have t: "unat (msg ! off) mod 64 * 256 + unat (msg ! (off + 1)) < length msg" by (rule dname_bound [OF dname_ptr(3)])
  let ?len = "case len of None \<Rightarrow> Some (off + 1 - src + 1) | Some l \<Rightarrow> Some l"
  have "unpack_loop msg src dstsiz off checked len out =
      unpack_loop msg src dstsiz (unat (msg ! off) mod 64 * 256 + unat (msg ! (off + 1))) (checked + 2) ?len out"
    using dname_ptr(1) b t dname_ptr.prems by (subst unpack_loop.simps) (simp add: Let_def)
  also have "\<dots> = Some (case ?len of None \<Rightarrow> unat (msg ! off) mod 64 * 256 + unat (msg ! (off + 1)) + k - src | Some l \<Rightarrow> l, out @ wire ls)"
    by (rule dname_ptr.IH) (use dname_ptr.prems in \<open>auto split: option.splits\<close>)
  finally show ?case using dname_ptr.prems(3) by (auto split: option.splits)
qed

lemma byte_class: "(b :: byte) AND 0xc0 = 0 \<longleftrightarrow> unat b < 64" "b AND 0xc0 = 0xc0 \<longleftrightarrow> 192 \<le> unat b"
proof -
  have "unat b < 2 ^ LENGTH(8)" by (rule unsigned_less)
  then have b: "unat b < 256" by simp
  show "b AND 0xc0 = 0 \<longleftrightarrow> unat b < 64" using and_mask_c0 [of b] by (auto simp: word_unat_eq_iff)
  show "b AND 0xc0 = 0xc0 \<longleftrightarrow> 192 \<le> unat b" using and_mask_c0 [of b] b by (auto simp: word_unat_eq_iff)
qed

lemma unpack_sound:
  "unpack_loop msg src dstsiz off checked len out = Some (n, dst) \<Longrightarrow> src \<le> off \<or> len \<noteq> None \<Longrightarrow>
   \<exists>ls k adj v. dname msg off ls k adj v \<and> dst = out @ wire ls \<and> n = (case len of None \<Rightarrow> off + k - src | Some l \<Rightarrow> l) \<and>
     length dst \<le> max dstsiz (length out + 1)"
proof (induction msg src dstsiz off checked len out rule: unpack_loop.induct)
  case (1 msg src dstsiz off checked len out)
  let ?b = "msg ! off"
  have off: "off < length msg" using "1.prems"(1) by (subst (asm) unpack_loop.simps) (auto split: if_splits)
  consider (zero) "?b = 0" | (label) "?b \<noteq> 0" "?b AND 0xc0 = 0" | (ptr) "?b \<noteq> 0" "?b AND 0xc0 = 0xc0"
    using "1.prems"(1) off by (subst (asm) unpack_loop.simps) (auto simp: Let_def split: if_splits)
  then show ?case
  proof cases
    case zero
    then have "dst = out @ wire []" "n = (case len of None \<Rightarrow> off + 1 - src | Some l \<Rightarrow> l)"
      using off "1.prems"(1) by (auto simp: unpack_loop.simps [of msg src dstsiz off] wire_def)
    moreover have "dname msg off [] 1 True 0" by (rule dname_end [OF off zero])
    ultimately show ?thesis by (intro exI [of _ "[]"] exI [of _ 1]) (auto simp: wire_def)
  next
    case label
    let ?n = "unat ?b" and ?l = "take (unat ?b) (drop (off + 1) msg)"
    have nn: "0 < ?n" "?n < 64" using label byte_class(1) [of ?b] by (auto simp: unat_gt_0)
    have g: "length out + ?n + 1 < dstsiz" "off + 1 + ?n < length msg"
      "unpack_loop msg src dstsiz (off + 1 + ?n) (checked + ?n + 1) len (out @ ?b # ?l) = Some (n, dst)"
      using "1.prems"(1) off label by (auto simp: unpack_loop.simps [of msg src dstsiz off] Let_def not_le split: if_splits)
    have ll: "length ?l = ?n" using g(2) by simp
    obtain ls k adj v where d: "dname msg (off + 1 + ?n) ls k adj v" "dst = (out @ ?b # ?l) @ wire ls"
      "n = (case len of None \<Rightarrow> off + 1 + ?n + k - src | Some l \<Rightarrow> l)" "length dst \<le> max dstsiz (length (out @ ?b # ?l) + 1)"
      using "1.IH"(1) [OF _ refl label(1) label(2) _ g(3)] off g(1,2) "1.prems"(2) by fastforce
    have "dname msg off (?l # ls) (1 + ?n + k) adj (1 + ?n + v)" by (rule dname_label [OF off refl nn g(2) refl d(1)])
    moreover have "dst = out @ wire (?l # ls)" using d(2) ll by (simp add: wire_Cons)
    ultimately show ?thesis using d(3,4) g(1) ll by (intro exI [of _ "?l # ls"] exI [of _ "1 + ?n + k"]) (auto simp: add.assoc split: option.splits)
  next
    case ptr
    let ?t = "unat (?b AND 0x3f) * 256 + unat (msg ! (off + 1))"
    let ?len = "case len of None \<Rightarrow> Some (off + 1 - src + 1) | Some l \<Rightarrow> Some l"
    have nz: "?b AND 0xc0 \<noteq> 0" using ptr by simp
    have g: "off + 1 < length msg" "?t < length msg" "\<not> checked + 2 \<ge> length msg"
      "unpack_loop msg src dstsiz ?t (checked + 2) ?len out = Some (n, dst)"
      using "1.prems"(1) off ptr by (auto simp: unpack_loop.simps [of msg src dstsiz off] Let_def not_le split: if_splits)
    have "\<exists>ls k adj v. dname msg ?t ls k adj v \<and> dst = out @ wire ls \<and> n = (case ?len of None \<Rightarrow> ?t + k - src | Some l \<Rightarrow> l) \<and>
      length dst \<le> max dstsiz (length out + 1)"
      by (rule "1.IH"(2) [OF _ refl ptr(1) nz ptr(2) _ refl refl _ g(3) g(4)]) (use off g in \<open>auto split: option.splits\<close>)
    then obtain ls k adj v where d: "dname msg ?t ls k adj v" "dst = out @ wire ls" "n = (case ?len of None \<Rightarrow> ?t + k - src | Some l \<Rightarrow> l)"
      "length dst \<le> max dstsiz (length out + 1)" by blast
    have "dname msg (unat ?b mod 64 * 256 + unat (msg ! (off + 1))) ls k adj v" using d(1) by (simp add: and_mask6)
    from dname_ptr [OF g(1) _ this] have "dname msg off ls 2 (ls \<noteq> [] \<and> adj) (2 + v)" using ptr byte_class(2) by auto
    moreover have "n = (case len of None \<Rightarrow> off + 2 - src | Some l \<Rightarrow> l)"
      using d(3) "1.prems"(2) by (auto split: option.splits)
    ultimately show ?thesis using d(2,4) by blast
  qed
qed

section \<open>The printed form\<close>

definition escape :: "byte \<Rightarrow> byte list" where
  "escape c = (if special c then [0x5c, c]
     else if \<not> printable c then [0x5c, digit_char (unat c div 100), digit_char (unat c mod 100 div 10), digit_char (unat c mod 100 mod 10)]
     else [c])"

definition escapes :: "byte list \<Rightarrow> byte list" where
  "escapes l = concat (map escape l)"

definition present :: "byte list list \<Rightarrow> byte list" where
  "present ls = (if ls = [] then [0x2e] else dotted (map escapes ls))"

lemma ntop_chars_escapes:
  "length out \<le> dstsiz \<Longrightarrow>
   ntop_chars dstsiz cs out = (if length out + length (escapes cs) \<le> dstsiz then Some (out @ escapes cs) else None)"
proof (induction cs arbitrary: out)
  case (Cons c cs)
  have "ntop_chars dstsiz (c # cs) out = (if length out + length (escape c) \<le> dstsiz then ntop_chars dstsiz cs (out @ escape c) else None)"
    by (simp add: escape_def)
  then show ?case using Cons.IH [of "out @ escape c"] by (auto simp: escapes_def)
qed (simp add: escapes_def)

lemma escapes_longer: "length l \<le> length (escapes l)"
proof (induction l)
  case (Cons c l)
  have "1 \<le> length (escape c)" by (simp add: escape_def)
  then show ?case using Cons by (simp add: escapes_def)
qed (simp add: escapes_def)

lemma ntop_label:
  assumes "l \<noteq> []" "length l < 64" "length out \<le> dstsiz"
  shows "ntop_loop dstsiz (of_nat (length l) # l @ src) out =
    (let out1 = (if out \<noteq> [] then out @ [0x2e] else out)
     in if length out1 + length l \<ge> dstsiz then None
        else if length out1 + length (escapes l) \<le> dstsiz then ntop_loop dstsiz src (out1 @ escapes l) else None)"
proof -
  have u: "unat (of_nat (length l) :: byte) = length l" using assms(2) by (intro unat_byte) simp
  have b: "(of_nat (length l) :: byte) \<noteq> 0" "(of_nat (length l) :: byte) AND 0xc0 = 0"
    using label_byte [OF u] assms(1,2) by auto
  show ?thesis
  proof (cases "out \<noteq> [] \<and> length out \<ge> dstsiz")
    case True
    then show ?thesis using b by (simp add: Let_def)
  next
    case False
    then have "length (if out \<noteq> [] then out @ [0x2e] else out) \<le> dstsiz" using assms(3) by auto
    from ntop_chars_escapes [OF this, of l] show ?thesis
      using False b u by (auto simp: Let_def split: option.splits)
  qed
qed

lemma ntop_rest:
  "labels_ok ls \<Longrightarrow> out \<noteq> [] \<Longrightarrow> length out \<le> dstsiz \<Longrightarrow>
   ntop_loop dstsiz (wire ls @ post) out =
     (let t = out @ concat (map (\<lambda>l. 0x2e # escapes l) ls) in if length t < dstsiz then Some (t @ [0]) else None)"
proof (induction ls arbitrary: out)
  case Nil
  then show ?case by (auto simp: wire_def ntop_end_def Let_def)
next
  case (Cons l ls)
  have l: "l \<noteq> []" "length l < 64" and ls: "labels_ok ls" using Cons.prems(1) by (auto simp: labels_ok_def)
  let ?o = "out @ 0x2e # escapes l"
  have e: "ntop_loop dstsiz (wire (l # ls) @ post) out = (if length out + 1 + length l \<ge> dstsiz then None
      else if length ?o \<le> dstsiz then ntop_loop dstsiz (wire ls @ post) ?o else None)"
    using ntop_label [OF l Cons.prems(3), of "wire ls @ post"] Cons.prems(2) by (simp add: wire_Cons Let_def)
  have len: "length out + 1 + length l \<le> length ?o" using escapes_longer [of l] by simp
  show ?case
  proof (cases "length ?o \<le> dstsiz \<and> length out + 1 + length l < dstsiz")
    case True
    then show ?thesis using e Cons.IH [OF ls, of ?o] by (simp add: Let_def)
  next
    case False
    then have "ntop_loop dstsiz (wire (l # ls) @ post) out = None" using e by auto
    then show ?thesis using False len by (auto simp: Let_def)
  qed
qed

lemma dotted_Cons: "dotted (l # ls) = l @ concat (map (\<lambda>l. 0x2e # l) ls)"
  by (induction ls arbitrary: l) auto

lemma ntop_wire:
  assumes "labels_ok ls"
  shows "ns_name_ntop (wire ls @ post) dstsiz = (if length (present ls) < dstsiz then Some (present ls @ [0]) else None)"
proof (cases ls)
  case Nil
  then show ?thesis by (auto simp: ns_name_ntop_def wire_def ntop_end_def present_def Let_def)
next
  case (Cons l ls')
  have l: "l \<noteq> []" "length l < 64" and ls: "labels_ok ls'" using assms Cons by (auto simp: labels_ok_def)
  have p: "present ls = escapes l @ concat (map (\<lambda>l. 0x2e # escapes l) ls')"
    by (simp add: present_def Cons dotted_Cons comp_def)
  have ne: "escapes l \<noteq> []" using escapes_longer [of l] l(1) by auto
  have e: "ns_name_ntop (wire ls @ post) dstsiz = (if length l \<ge> dstsiz then None
      else if length (escapes l) \<le> dstsiz then ntop_loop dstsiz (wire ls' @ post) (escapes l) else None)"
    using ntop_label [OF l, of "[]" dstsiz "wire ls' @ post"] by (simp add: ns_name_ntop_def Cons wire_Cons Let_def)
  show ?thesis
    using e ntop_rest [OF ls ne, of dstsiz post] escapes_longer [of l] unfolding p by (auto simp: Let_def)
qed

lemma dname_labels_ok: "dname msg off ls k adj v \<Longrightarrow> labels_ok ls"
  by (induction rule: dname.induct) (auto simp: labels_ok_def)

lemma present_dot: "labels_ok ls \<Longrightarrow> (present ls @ [0]) ! 0 = 0x2e \<longleftrightarrow> ls = []"
proof (cases ls)
  case (Cons l ls')
  assume "labels_ok ls"
  then obtain c cs where "l = c # cs" using Cons by (cases l) (auto simp: labels_ok_def)
  then show ?thesis using Cons by (auto simp: present_def dotted_Cons escapes_def escape_def special_def)
qed (simp add: present_def)

section \<open>Loops\<close>

lemma decode_loop_returns:
  assumes "\<And>i. i + 1 < length p \<Longrightarrow> 192 \<le> unat (p ! i) \<Longrightarrow> unat (p ! i) mod 64 * 256 + unat (p ! (i + 1)) < i"
  shows "\<exists>r w. decode_loop p dest_len off measuring tot out = Some (r, w) \<and> length w \<le> max dest_len (length out)"
proof -
  have "wf (inv_image (less_than <*lex*> less_than) (\<lambda>(off, out :: byte list). (dest_len - length out, off)))"
    by (intro wf_inv_image wf_lex_prod wf_less_than)
  then show ?thesis
  proof (induction "(off, out)" arbitrary: off out measuring tot rule: wf_induct_rule)
    case less
    let ?b = "p ! off"
    show ?case
    proof (cases "off < length p \<and> ?b \<noteq> 0")
      case False
      then show ?thesis by (subst decode_loop.simps) (auto simp: Let_def)
    next
      case t: True
      let ?t = "unat (?b AND 0x3f) * 256 + unat (p ! (off + 1))"
      let ?w = "out @ take (unat ?b) (drop (off + 1) p) @ [if p ! (off + 1 + unat ?b) \<noteq> 0 then 0x2e else 0]"
      show ?thesis
      proof (cases "?b AND 0xc0 = 0xc0")
        case True
        then have b: "192 \<le> unat ?b" by (simp add: byte_class)
        show ?thesis
        proof (cases "off + 1 < length p")
          case o: True
          have "?t < off" using assms [OF o b] by (simp add: and_mask6)
          then have "\<exists>r w. decode_loop p dest_len ?t False (if measuring then Suc (Suc tot) else tot) out = Some (r, w) \<and>
              length w \<le> max dest_len (length out)" by (intro less) simp
          then show ?thesis using t True o by (subst decode_loop.simps) (cases measuring; simp add: Let_def)
        qed (use t True in \<open>subst decode_loop.simps, auto simp: Let_def\<close>)
      next
        case False
        have n: "0 < unat ?b" using t by (simp add: unat_gt_0)
        show ?thesis
        proof (cases "length out + unat ?b + 1 < dest_len \<and> off + 1 + unat ?b < length p")
          case c: True
          then have lw: "length ?w = length out + unat ?b + 1" by (auto simp: min_def)
          have "\<exists>r w. decode_loop p dest_len (off + 1 + unat ?b) measuring (if measuring then tot + 1 + unat ?b else tot) ?w = Some (r, w) \<and>
              length w \<le> max dest_len (length ?w)"
            using c lw n by (intro less) (simp, linarith)
          then show ?thesis using t False c lw by (subst decode_loop.simps) (cases measuring; auto simp: Let_def not_le)
        qed (use t False in \<open>subst decode_loop.simps, auto simp: Let_def\<close>)
      qed
    qed
  qed
qed

lemma decode_loop_circle:
  assumes "off + 1 < length p" "192 \<le> unat (p ! off)" "unat (p ! off) mod 64 * 256 + unat (p ! (off + 1)) = off"
  shows "decode_loop p dest_len off measuring tot out = None"
proof (rule ccontr)
  assume "decode_loop p dest_len off measuring tot out \<noteq> None"
  then obtain r where "decode_loop p dest_len off measuring tot out = Some r" by auto
  then have "\<not> (p = p \<and> off = off)"
  proof (rule decode_loop.raw_induct [of "\<lambda>p' d o' m t w r. \<not> (p' = p \<and> o' = off)", rotated])
    fix f :: "byte list \<Rightarrow> nat \<Rightarrow> nat \<Rightarrow> bool \<Rightarrow> nat \<Rightarrow> byte list \<Rightarrow> (int \<times> byte list) option" and p' d o' m t w r
    assume ih: "\<And>p' d o' m t w r. f p' d o' m t w = Some r \<Longrightarrow> \<not> (p' = p \<and> o' = off)"
    assume step: "(if o' \<ge> length p' then Some (- 1, w)
      else (let b = p' ! o' in if b = 0 then Some (int (if m then t + 1 else t), w)
        else (let tot1 = (if m then t + 1 else t)
          in if b AND 0xc0 = 0xc0 then
               (if o' + 1 \<ge> length p' then Some (- 1, w)
                else f p' d (unat (b AND 0x3f) * 256 + unat (p' ! (o' + 1))) False (if m then tot1 + 1 else tot1) w)
             else if length w + unat b + 1 \<ge> d then Some (- 1, w)
             else if o' + 1 + unat b \<ge> length p' then Some (- 1, w)
             else f p' d (o' + 1 + unat b) m (if m then tot1 + unat b else tot1)
               (w @ take (unat b) (drop (o' + 1) p') @ [if p' ! (o' + 1 + unat b) \<noteq> 0 then 0x2e else 0])))) = Some r"
    show "\<not> (p' = p \<and> o' = off)"
    proof
      assume c: "p' = p \<and> o' = off"
      note b = pointer_byte [OF assms(2)]
      have "f p d off False (if m then t + 1 + 1 else t) w = Some r"
        using step c assms(1,3) b by (simp add: Let_def split: if_splits)
      then show False using ih by blast
    qed
  qed
  then show False by simp
qed

section \<open>Records\<close>

lemma skip_question_wire:
  "labels_ok ls \<Longrightarrow> int (length (wire ls)) - 1 < maxlen \<Longrightarrow>
   skip_question (pre @ wire ls @ post) (length pre) maxlen =
     Some (length pre + length (wire ls), maxlen - (int (length (wire ls)) - 1))"
proof (induction ls arbitrary: pre maxlen)
  case Nil
  then show ?case by (subst skip_question.simps) (simp add: wire_def Let_def)
next
  case (Cons l ls)
  have l: "0 < length l" "length l < 64" and ls: "labels_ok ls" using Cons.prems(1) by (auto simp: labels_ok_def)
  have u: "unat (of_nat (length l) :: byte) = length l" using l by (intro unat_byte) simp
  note b = label_byte [OF u l]
  let ?m = "pre @ wire (l # ls) @ post" and ?pre = "pre @ of_nat (length l) # l"
  have m: "?m = ?pre @ wire ls @ post" by (simp add: wire_Cons)
  have w: "length (wire (l # ls)) = length l + 1 + length (wire ls)" by (simp add: wire_Cons)
  have p: "1 \<le> length (wire ls)" by (simp add: length_wire)
  have h: "?m ! length pre = of_nat (length l)" by (simp add: wire_Cons)
  have "skip_question ?m (length pre) maxlen = skip_question ?m (length pre + 1 + length l) (maxlen - (int (length l) + 1))"
    using Cons.prems(2) b u w p h by (subst skip_question.simps) (simp add: Let_def)
  also have "\<dots> = Some (length ?pre + length (wire ls), (maxlen - (int (length l) + 1)) - (int (length (wire ls)) - 1))"
    unfolding m using Cons.IH [OF ls, of "maxlen - (int (length l) + 1)" ?pre] Cons.prems(2) w by simp
  finally show ?case using w by simp
qed

lemma dotted_no_zero: "host_labels ls \<Longrightarrow> 0 \<notin> set (dotted ls)"
  by (induction ls rule: dotted.induct) (auto simp: host_labels_def)

lemma c_string_terminated: "0 \<notin> set s \<Longrightarrow> c_string (s @ 0 # r) = s"
  unfolding c_string_def by (subst takeWhile_append2) auto

definition answer_ok :: "resolv_answer \<Rightarrow> bool" where
  "answer_ok a \<longleftrightarrow> atype a < 65536 \<and> aclass a < 65536 \<and> rdlength a < 65536 \<and> length (rdata a) = rdlength a"

lemma encode_answer_bytes:
  assumes "answer_ok a" "adotted a = Some (dotted ls)" "host_labels ls"
    and "int (length (wire ls)) + 10 + int (rdlength a) \<le> maxlen" "maxlen < 2 ^ 31"
  shows "encode_answer a maxlen = (int (length (wire ls)) + 10 + int (rdlength a),
    wire ls @ put16 (atype a) @ put16 (aclass a) @ put32 (unat (ttl a)) @ put16 (rdlength a) @ rdata a)"
proof -
  have "int (length (wire ls)) \<le> maxlen" using assms(4) by linarith
  from encode_dotted_wire [OF assms(3) this assms(5)] show ?thesis
    using assms(1,2,4) by (simp add: encode_answer_def RRFIXEDSZ_def answer_ok_def)
qed

lemma fields_at:
  fixes x :: "byte list"
  assumes "answer_ok a" "length x = m"
    and "d = x @ put16 (atype a) @ put16 (aclass a) @ put32 (unat (ttl a)) @ put16 (rdlength a) @ rdata a @ post"
  shows "get16 d m = atype a" "get16 d (m + 2) = aclass a" "of_nat (get32 d (m + 4)) = ttl a" "get16 d (m + 8) = rdlength a"
    "drop (m + 10) d = rdata a @ post"
proof -
  have a: "atype a < 65536" "aclass a < 65536" "unat (ttl a) < 2 ^ 32" "rdlength a < 65536"
    using assms(1) unsigned_less [of "ttl a"] by (simp_all add: answer_ok_def)
  show "get16 d m = atype a" unfolding assms(3) by (rule get16_put16 [OF a(1) assms(2)])
  show "get16 d (m + 2) = aclass a"
    using get16_put16 [OF a(2), of "x @ put16 (atype a)" "m + 2"] assms(2) unfolding assms(3) by simp
  show "of_nat (get32 d (m + 4)) = ttl a"
    using get32_put32 [OF a(3), of "x @ put16 (atype a) @ put16 (aclass a)" "m + 4"] assms(2) unfolding assms(3) by simp
  show "get16 d (m + 8) = rdlength a"
    using get16_put16 [OF a(4), of "x @ put16 (atype a) @ put16 (aclass a) @ put32 (unat (ttl a))" "m + 8"] assms(2) unfolding assms(3) by simp
  show "drop (m + 10) d = rdata a @ post" unfolding assms(3) using assms(2) by simp
qed

text \<open>Compression pointers.\<close>

definition is_pointer :: "byte list \<Rightarrow> nat \<Rightarrow> nat \<Rightarrow> bool" where
  "is_pointer p i t \<longleftrightarrow> i + 1 < length p \<and> 192 \<le> unat (p ! i) \<and> unat (p ! i) mod 64 * 256 + unat (p ! (i + 1)) = t"

definition backward_pointers :: "byte list \<Rightarrow> bool" where
  "backward_pointers p \<longleftrightarrow> (\<forall>i t. is_pointer p i t \<longrightarrow> t < i)"

section \<open>Properties\<close>

text \<open>\<open>__decode_dotted\<close> on a message that has a name at the offset, compressed or not, returns the length of the name there
  and writes its labels with dots between them and a terminator; when the end of the name is reached through a
  pointer right behind a label, or the name is the root, the terminator is missing.\<close>

theorem decode_dotted_correct:
  assumes "dname msg off ls k adj v" "ls = [] \<or> length (dotted ls) + 1 < dest_len"
  shows "decode_dotted (Some msg) off dest_len =
    Some (int k, if ls = [] then [] else if adj then dotted ls @ [0] else dotted ls @ [0x2e])"
  using decode_loop_name [OF assms(1), of "[]" dest_len True 0] assms(2) by (simp add: decode_dotted_def)

text \<open>The decoder follows a compression pointer that points at itself for ever; when every pointer leads to an earlier
  place it returns, and never writes more than the buffer holds.\<close>

theorem decode_dotted_termination:
  "(backward_pointers p \<longrightarrow> (\<exists>r w. decode_dotted (Some p) off dest_len = Some (r, w) \<and> length w \<le> dest_len)) \<and>
   (is_pointer p off off \<longrightarrow> decode_dotted (Some p) off dest_len = None)"
proof (intro conjI impI)
  assume "backward_pointers p"
  then have "\<And>i. i + 1 < length p \<Longrightarrow> 192 \<le> unat (p ! i) \<Longrightarrow> unat (p ! i) mod 64 * 256 + unat (p ! (i + 1)) < i"
    by (auto simp: backward_pointers_def is_pointer_def)
  from decode_loop_returns [OF this, of dest_len off True 0 "[]"]
  show "\<exists>r w. decode_dotted (Some p) off dest_len = Some (r, w) \<and> length w \<le> dest_len" by (simp add: decode_dotted_def)
next
  assume "is_pointer p off off"
  then show "decode_dotted (Some p) off dest_len = None"
    using decode_loop_circle [of off p] by (simp add: decode_dotted_def is_pointer_def)
qed

text \<open>C33: a resource record that \<open>__encode_answer\<close> has put anywhere into a message is read back by \<open>__decode_answer\<close>
  with the same name, type, class, time to live and data, and the same length. The name is not the root, has labels of 1 to
  63 bytes without dots and zero bytes and fewer than 255 bytes when printed; type, class and length of the data fit into 16
  bits, the data have that length, and the record fits into the buffer of \<open>__encode_answer\<close>. The root name, which
  \<open>__decode_dotted\<close> leaves without a terminator, is excluded.\<close>

theorem answer_roundtrip:
  assumes "answer_ok a" "adotted a = Some (dotted ls)" "host_labels ls" "ls \<noteq> []" "length (dotted ls) < 255"
    and "int (length (wire ls)) + 10 + int (rdlength a) \<le> maxlen" "maxlen < 2 ^ 31"
    and "encode_answer a maxlen = (n, bs)"
  shows "\<exists>b. decode_answer temp (pre @ bs @ post) (length pre) = Some (n, Some b) \<and> n = int (length bs) \<and>
    adotted b = adotted a \<and> atype b = atype a \<and> aclass b = aclass a \<and> ttl b = ttl a \<and> rdlength b = rdlength a \<and>
    take (rdlength b) (rdata b) = rdata a"
proof -
  let ?w = "length (wire ls)"
  have e: "n = int ?w + 10 + int (rdlength a)" "bs = wire ls @ put16 (atype a) @ put16 (aclass a) @ put32 (unat (ttl a)) @ put16 (rdlength a) @ rdata a"
    using encode_answer_bytes [OF assms(1-3,6,7)] assms(8) by simp_all
  let ?m = "pre @ bs @ post"
  have m: "?m = (pre @ wire ls) @ put16 (atype a) @ put16 (aclass a) @ put32 (unat (ttl a)) @ put16 (rdlength a) @ rdata a @ post"
    by (simp add: e(2))
  have "dname ?m (length pre) ls ?w True (?w - 1)"
    using wire_dname [OF host_labels_ok [OF assms(3)], of pre] by (simp add: e(2))
  then have d: "decode_loop ?m 256 (length pre) True 0 [] = Some (int ?w, dotted ls @ [0])"
    using decode_loop_name [of ?m "length pre" ls ?w True "?w - 1" "[]" 256 True 0] assms(4,5) by simp
  note f = fields_at [OF assms(1) _ m, where m = "length pre + ?w", simplified]
  have rd: "length (rdata a) = rdlength a" using assms(1) by (simp add: answer_ok_def)
  have len: "int (length ?m) - (int ?w + RRFIXEDSZ + int (length pre)) = int (rdlength a) + int (length post)"
    by (simp add: e(2) RRFIXEDSZ_def rd)
  have c: "c_string ((dotted ls @ [0]) @ r) = dotted ls" for r
    using c_string_terminated [OF dotted_no_zero [OF assms(3)], of r] by simp
  show ?thesis
    unfolding decode_answer_def decode_dotted_def
    using d f len c assms(2) e(1) rd by (simp add: Let_def RRFIXEDSZ_def e(2))
qed

text \<open>A message header that \<open>__encode_header\<close> has written is read back by \<open>__decode_header\<close>, with all its fields.\<close>

theorem header_encode_decode:
  assumes "header_ok h" "12 \<le> maxlen" "encode_header h maxlen = (n, bs)"
  shows "n = 12 \<and> length bs = 12 \<and> decode_header (bs @ rest) = h"
  using header_roundtrip(1,2) [OF assms(1,2)] header_roundtrip(3) [OF assms(1,2), of rest] assms(3) by simp

text \<open>C34: \<open>dn_expand\<close> always returns; it succeeds only on names of the message, and expands such a name to its printed form,
  with special and unprintable bytes escaped, when the name is at most 255 bytes long, fits into the buffer and was
  not longer to follow than the message itself.\<close>

theorem dn_expand_exact:
  shows "(dn_expand msg src dstsiz = Some (k, dst) \<longrightarrow>
      (\<exists>ls adj v. dname msg src ls k adj v \<and> length (wire ls) \<le> 255 \<and> length dst \<le> dstsiz \<and>
        dst = (if ls = [] then [0, 0] else present ls @ [0]))) \<and>
    (dname msg src ls k adj v \<and> v < length msg \<and> length (wire ls) \<le> 255 \<and> length (present ls) < dstsiz \<longrightarrow>
      dn_expand msg src dstsiz = Some (k, if ls = [] then [0, 0] else present ls @ [0]))"
proof (intro conjI impI)
  have fin: "dn_expand msg src dstsiz = (if length (present ls') < dstsiz then Some (k', if ls' = [] then [0, 0] else present ls' @ [0]) else None)"
    if "ns_name_unpack msg src NS_MAXCDNAME = Some (k', wire ls')" "dname msg src ls' k' adj' v'" for ls' k' adj' v'
  proof -
    have ok: "labels_ok ls'" by (rule dname_labels_ok [OF that(2)])
    have pos: "0 < k'" using that(2) by (cases rule: dname.cases) auto
    show ?thesis
      using ntop_wire [OF ok, of "[]" dstsiz] present_dot [OF ok] pos that(1)
      by (auto simp: dn_expand_def ns_name_uncompress_def present_def)
  qed
  show "\<exists>ls adj v. dname msg src ls k adj v \<and> length (wire ls) \<le> 255 \<and> length dst \<le> dstsiz \<and> dst = (if ls = [] then [0, 0] else present ls @ [0])"
    if d: "dn_expand msg src dstsiz = Some (k, dst)"
  proof -
    obtain n tmp where u: "ns_name_unpack msg src NS_MAXCDNAME = Some (n, tmp)"
      using d by (auto simp: dn_expand_def ns_name_uncompress_def split: option.splits)
    then obtain ls' k' adj' v' where dn: "dname msg src ls' k' adj' v'" "tmp = wire ls'" "n = k'" "length tmp \<le> 255"
      using unpack_sound [of msg src NS_MAXCDNAME src 0 None "[]" n tmp] by (auto simp: ns_name_unpack_def NS_MAXCDNAME_def)
    then show ?thesis using fin [of k' ls' adj' v'] u d by (auto simp: present_def split: if_splits)
  qed
  assume a: "dname msg src ls k adj v \<and> v < length msg \<and> length (wire ls) \<le> 255 \<and> length (present ls) < dstsiz"
  then have "ns_name_unpack msg src NS_MAXCDNAME = Some (k, wire ls)"
    using unpack_complete [of msg src ls k adj v 0 "[]" 255 src None] by (simp add: ns_name_unpack_def NS_MAXCDNAME_def)
  with fin a show "dn_expand msg src dstsiz = Some (k, if ls = [] then [0, 0] else present ls @ [0])" by auto
qed

text \<open>\<open>__encode_dotted\<close> never writes more than \<open>maxlen\<close> bytes when \<open>maxlen\<close> is positive, and encodes a name that fits;
  with \<open>maxlen\<close> 0 it writes the first label all the same, because the remaining length wraps around, and reports an
  error only then.\<close>

theorem encode_dotted_bounds:
  shows "(0 < maxlen \<and> maxlen < 2 ^ 31 \<longrightarrow> int (length (snd (encode_dotted s maxlen))) \<le> maxlen) \<and>
    (host_labels ls \<and> int (length (wire ls)) \<le> maxlen \<and> maxlen < 2 ^ 31 \<longrightarrow>
      encode_dotted (Some (dotted ls)) maxlen = (int (length (wire ls)), wire ls)) \<and>
    (host_labels [l] \<longrightarrow> encode_dotted (Some l) 0 = (- 1, of_nat (length l) # l))"
proof (intro conjI impI)
  show "int (length (snd (encode_dotted s maxlen))) \<le> maxlen" if "0 < maxlen \<and> maxlen < 2 ^ 31"
    using that encode_labels_bound [of maxlen "[]"] by (simp add: encode_dotted_def)
  show "encode_dotted (Some (dotted ls)) maxlen = (int (length (wire ls)), wire ls)"
    if "host_labels ls \<and> int (length (wire ls)) \<le> maxlen \<and> maxlen < 2 ^ 31"
    using that encode_dotted_wire by blast
  assume "host_labels [l]"
  then have l: "l \<noteq> []" "0x2e \<notin> set l" "length l < 64" by (simp_all add: host_labels_def)
  show "encode_dotted (Some l) 0 = (- 1, of_nat (length l) # l)"
    using l by (simp add: encode_dotted_def encode_labels_Cons takeWhile_label(2) encode_end_def Let_def)
qed

text \<open>\<open>__length_question\<close> gives the length of a question that \<open>__encode_question\<close> has written; it also accepts one whose
  last byte lies behind the end of the buffer.\<close>

theorem length_question_correct:
  assumes "host_labels ls" "qdotted q = Some (dotted ls)" "int (length (wire ls)) + 4 \<le> maxlen" "maxlen < 2 ^ 31"
    and "encode_question q maxlen = (n, bs)"
  shows "n = int (length bs) \<and> length_question (Some (bs @ rest)) (n + int k) = n \<and> length_question (Some (bs @ rest)) (n - 1) = n"
proof -
  let ?w = "length (wire ls)"
  have "int ?w \<le> maxlen" using assms(3) by linarith
  from encode_dotted_wire [OF assms(1) this assms(4)]
  have e: "n = int ?w + 4" "bs = wire ls @ put16 (qtype q) @ put16 (qclass q)"
    using assms(2,3,5) by (simp_all add: encode_question_def)
  have "length_question (Some (bs @ rest)) m = (if m - (int ?w - 1) < 4 then - 1 else int ?w + 4)" if "int ?w - 1 < m" for m
    using skip_question_wire [OF host_labels_ok [OF assms(1)] that, of "[]" "put16 (qtype q) @ put16 (qclass q) @ rest"]
    by (simp add: length_question_def e(2))
  then show ?thesis by (simp add: e)
qed

section \<open>Witnesses\<close>

text \<open>The name \<open>ww.x\<close> at 0 and the name \<open>a.ww.x\<close> at 6, compressed.\<close>

definition sample_msg :: "byte list" where
  "sample_msg = [2, 0x77, 0x77, 1, 0x78, 0, 1, 0x61, 0xc0, 0]"

definition sample_labels :: "byte list list" where
  "sample_labels = [[0x77, 0x77], [0x78]]"

lemma sample_label_facts: "host_labels sample_labels" "wire sample_labels = [2, 0x77, 0x77, 1, 0x78, 0]"
  "dotted sample_labels = [0x77, 0x77, 0x2e, 0x78]" "sample_labels \<noteq> []"
  by (simp_all add: sample_labels_def host_labels_def wire_def)

lemma sample_dname: "dname sample_msg 6 ([0x61] # sample_labels) 4 True 9"
proof -
  have "dname sample_msg 0 sample_labels 6 True 5"
    using wire_dname [OF host_labels_ok [OF sample_label_facts(1)], of "[]" "[1, 0x61, 0xc0, 0]"]
    by (simp add: sample_label_facts sample_msg_def numeral_eq_Suc)
  then have "dname sample_msg 8 sample_labels 2 True 7"
    using dname_ptr [of 8 sample_msg sample_labels 6 True 5] sample_label_facts(4) by (simp add: sample_msg_def)
  then show ?thesis
    using dname_label [of 6 sample_msg 1 "[0x61]" sample_labels 2 True 7] by (simp add: sample_msg_def numeral_eq_Suc)
qed

theorem decode_dotted_correct_witness:
  "decode_dotted (Some sample_msg) 6 256 = Some (4, [0x61, 0x2e, 0x77, 0x77, 0x2e, 0x78, 0])"
  using decode_dotted_correct [OF sample_dname, of 256] by (simp add: sample_labels_def)

theorem decode_dotted_termination_witness:
  "is_pointer [0xc0, 0] 0 0 \<and> decode_dotted (Some [0xc0, 0]) 0 256 = None"
  using decode_dotted_termination [of "[0xc0, 0]" 0 256] by (simp add: is_pointer_def)

definition sample_answer :: resolv_answer where
  "sample_answer = \<lparr>adotted = Some (dotted sample_labels), atype = 1, aclass = 1, ttl = 3600, rdlength = 4,
     rdata = [127, 0, 0, 1], rdoffset = 0\<rparr>"

theorem answer_roundtrip_witness:
  "\<exists>n bs b. encode_answer sample_answer 512 = (n, bs) \<and> decode_answer [] ([7] @ bs @ [9]) 1 = Some (n, Some b) \<and>
     adotted b = Some [0x77, 0x77, 0x2e, 0x78] \<and> ttl b = 3600 \<and> take 4 (rdata b) = [127, 0, 0, 1]"
proof -
  obtain n bs where e: "encode_answer sample_answer 512 = (n, bs)" by (cases "encode_answer sample_answer 512")
  have "answer_ok sample_answer" "adotted sample_answer = Some (dotted sample_labels)"
    by (simp_all add: answer_ok_def sample_answer_def)
  from answer_roundtrip [OF this sample_label_facts(1,4) _ _ _ e, of "[]" "[7]" "[9]"] show ?thesis
    using e sample_label_facts by (auto simp: sample_answer_def)
qed

theorem header_encode_decode_witness:
  "\<exists>n bs. encode_header \<lparr>hid = 4660, qdcount = 1, ancount = 0, nscount = 0, arcount = 2, qr = False, opcode = 5, aa = False,
      tc = False, rd = True, ra = True, rcode = 3\<rparr> 512 = (n, bs) \<and> n = 12 \<and> opcode (decode_header bs) = 5"
proof -
  define h where "h = \<lparr>hid = 4660, qdcount = 1, ancount = 0, nscount = 0, arcount = 2, qr = False, opcode = 5, aa = False,
      tc = False, rd = True, ra = True, rcode = 3\<rparr>"
  obtain n bs where e: "encode_header h 512 = (n, bs)" by (cases "encode_header h 512")
  have "header_ok h" by (simp add: header_ok_def h_def)
  from header_encode_decode [OF this _ e, of "[]"] show ?thesis using e by (auto simp: h_def)
qed

theorem dn_expand_exact_witness:
  "dn_expand sample_msg 6 100 = Some (4, [0x61, 0x2e, 0x77, 0x77, 0x2e, 0x78, 0])"
proof -
  have "wire ([0x61] # sample_labels) = [1, 0x61, 2, 0x77, 0x77, 1, 0x78, 0]" by (simp add: wire_Cons sample_label_facts)
  moreover have "present ([0x61] # sample_labels) = [0x61, 0x2e, 0x77, 0x77, 0x2e, 0x78]"
    by (simp add: present_def sample_labels_def escapes_def escape_def special_def printable_def)
  ultimately show ?thesis
    using dn_expand_exact [of sample_msg 6 100 4 "[]" "[0x61] # sample_labels" True 9] sample_dname
    by (simp add: sample_msg_def)
qed

theorem encode_dotted_bounds_witness:
  "encode_dotted (Some (dotted sample_labels)) 20 = (6, [2, 0x77, 0x77, 1, 0x78, 0]) \<and> encode_dotted (Some [0x78]) 0 = (- 1, [1, 0x78])"
  using encode_dotted_bounds [of 20 None sample_labels "[0x78]"] sample_label_facts by (simp add: host_labels_def)

theorem length_question_correct_witness:
  "length_question (Some [2, 0x77, 0x77, 1, 0x78, 0, 0, 1, 0, 1]) 10 = 10"
proof -
  define q where "q = \<lparr>qdotted = Some (dotted sample_labels), qtype = 1, qclass = 1\<rparr>"
  obtain n bs where e: "encode_question q 100 = (n, bs)" by (cases "encode_question q 100")
  have "bs = [2, 0x77, 0x77, 1, 0x78, 0, 0, 1, 0, 1]"
    using e encode_dotted_wire [OF sample_label_facts(1), of 100] sample_label_facts(2)
    by (simp add: q_def encode_question_def put16_def)
  with length_question_correct [OF sample_label_facts(1) _ _ _ e, of "[]" 0] show ?thesis
    using sample_label_facts(2) by (auto simp: q_def)
qed

end
