(* ===== verification/Dns_Pack_Proofs.thy ===== *)
theory Dns_Pack_Proofs
  imports Dns_Pack Dns_Proofs
begin

text \<open>
  DNS names: the proofs about the parser and the compressor. Printing and parsing are inverse; a compressed name
  is unpacked to the same labels up to the case of letters, because \<open>dn_find\<close> finds exactly such names; and the
  message keeps the names it had, so that names can be packed one after the other.
\<close>

section \<open>Reading a printed name\<close>

lemma isdigit_b_iff: "isdigit_b c \<longleftrightarrow> 48 \<le> unat c \<and> unat c \<le> 57"
  by (simp add: isdigit_b_def word_le_nat_alt)

lemma digit_char_facts: "d < 10 \<Longrightarrow> isdigit_b (digit_char d)" "d < 10 \<Longrightarrow> unat (digit_char d - 0x30) = d"
proof -
  assume d: "d < 10"
  have u: "unat (digit_char d) = 48 + d" unfolding digit_char_def using d by (intro unat_byte) simp
  then show "isdigit_b (digit_char d)" using d by (simp add: isdigit_b_iff)
  have "digit_char d - 0x30 = of_nat d" by (simp add: digit_char_def)
  then show "unat (digit_char d - 0x30) = d" using d unat_byte [of d] by simp
qed

lemma unat_lt_256: "unat (c :: byte) < 256"
proof -
  have "unat c < 2 ^ LENGTH(8)" by (rule unsigned_less)
  then show ?thesis by simp
qed

lemma decimal_digits:
  "unat (c :: byte) div 100 < 10" "unat c mod 100 div 10 < 10" "unat c mod 100 mod 10 < 10"
  "unat c div 100 * 100 + unat c mod 100 div 10 * 10 + unat c mod 100 mod 10 = unat c"
proof -
  show "unat c div 100 < 10" using unat_lt_256 [of c] by (simp add: div_less_iff_less_mult)
  show "unat c mod 100 div 10 < 10" by (simp add: div_less_iff_less_mult)
  show "unat c mod 100 mod 10 < 10" by simp
  show "unat c div 100 * 100 + unat c mod 100 div 10 * 10 + unat c mod 100 mod 10 = unat c"
    using div_mult_mod_eq [of "unat c" 100] div_mult_mod_eq [of "unat c mod 100" 10] by linarith
qed

lemma pton_escape_decimal:
  "pton_escape (digit_char (unat c div 100)) (digit_char (unat c mod 100 div 10) # digit_char (unat c mod 100 mod 10) # src) =
     Some (c, src)"
proof -
  have "unat c \<le> 255" using unat_lt_256 [of c] by simp
  then show ?thesis
    unfolding pton_escape_def
    by (simp add: digit_char_facts decimal_digits(1-3) decimal_digits(4) [of c, simplified] del: of_nat_add)
qed

lemma special_cases: "special c \<Longrightarrow> \<not> isdigit_b c \<and> c \<noteq> 0x5b"
  by (auto simp: special_def isdigit_b_def)

lemma pton_char:
  assumes "length out < dstsiz"
  shows "pton_loop L dstsiz (escape c @ src) False label out = pton_loop L dstsiz src False label (out @ [c])"
proof (cases "special c")
  case True
  then show ?thesis using assms special_cases [OF True] by (simp add: escape_def pton_escape_def)
next
  case ns: False
  show ?thesis
  proof (cases "printable c")
    case True
    have "c \<noteq> 0x5c" "c \<noteq> 0x2e" using ns by (auto simp: special_def)
    then show ?thesis using True ns assms by (simp add: escape_def)
  next
    case False
    have "digit_char (unat c div 100) \<noteq> 0x5b" using digit_char_facts(1) [OF decimal_digits(1) [of c]] by (auto simp: isdigit_b_def)
    then show ?thesis using False ns assms by (simp add: escape_def pton_escape_decimal)
  qed
qed

lemma pton_chars:
  "length out + length l \<le> dstsiz \<Longrightarrow>
   pton_loop L dstsiz (escapes l @ src) False label out = pton_loop L dstsiz src False label (out @ l)"
proof (induction l arbitrary: out)
  case (Cons c l)
  then show ?case using pton_char [of out dstsiz L c "escapes l @ src" label] by (simp add: escapes_def)
qed (simp add: escapes_def)

lemma and_c0_small: "n < 64 \<Longrightarrow> (n AND 0xc0) = (0 :: nat)"
proof -
  assume "n < 64"
  then have "of_nat n AND 0xc0 = (0 :: byte)" using byte_class(1) [of "of_nat n"] unat_byte [of n] by simp
  moreover have "unat (of_nat n AND 0xc0 :: byte) = n AND 0xc0"
    using \<open>n < 64\<close> unat_byte [of n] by (simp add: unsigned_and_eq)
  ultimately show ?thesis by simp
qed

lemma escapes_hd: "l \<noteq> [] \<Longrightarrow> escapes l \<noteq> [] \<and> hd (escapes l) \<noteq> 0x2e"
  by (cases l) (auto simp: escapes_def escape_def special_def)

lemma list_update_end: "(xs @ y # ys)[length xs := z] = xs @ z # ys"
  by simp

lemma pton_labels:
  "labels_ok ls \<Longrightarrow> ls \<noteq> [] \<Longrightarrow> length out + length (wire ls) \<le> dstsiz \<Longrightarrow> length out + length (wire ls) \<le> 255 \<Longrightarrow>
   pton_loop L dstsiz (dotted (map escapes ls)) False (length out) (out @ [0]) = Inr (0, out @ wire ls)"
proof (induction ls arbitrary: out rule: dotted.induct)
  case (2 l)
  have l: "l \<noteq> []" "length l < 64" using 2(1) by (auto simp: labels_ok_def)
  have "pton_loop L dstsiz (escapes l @ []) False (length out) (out @ [0]) = pton_loop L dstsiz [] False (length out) ((out @ [0]) @ l)"
    using 2 by (intro pton_chars) (simp add: wire_def)
  then show ?case using l 2 and_c0_small [OF l(2)]
    by (simp add: pton_end_def pton_done_def wire_def NS_MAXCDNAME_def)
next
  case (3 l l' ls)
  have l: "l \<noteq> []" "length l < 64" "l' \<noteq> []" using 3(2) by (auto simp: labels_ok_def)
  let ?d = "dotted (map escapes (l' # ls))"
  have h: "?d \<noteq> []" "hd ?d \<noteq> 0x2e" using escapes_hd [OF l(3)] by (auto simp: dotted_Cons)
  have w: "wire (l # l' # ls) = of_nat (length l) # l @ wire (l' # ls)" by (rule wire_Cons)
  let ?o = "out @ of_nat (length l) # l"
  have "pton_loop L dstsiz (escapes l @ 0x2e # ?d) False (length out) (out @ [0]) =
      pton_loop L dstsiz (0x2e # ?d) False (length out) ((out @ [0]) @ l)"
    using 3(4) w by (intro pton_chars) simp
  also have "\<dots> = pton_loop L dstsiz ?d False (length ?o) (?o @ [0])"
    using l and_c0_small [OF l(2)] h 3(4) w by (simp add: Let_def)
  also have "\<dots> = Inr (0, ?o @ wire (l' # ls))"
    using 3(2,4,5) w by (intro 3(1)) (auto simp: labels_ok_def)
  finally show ?case using w by simp
qed simp

lemma pton_present:
  assumes "labels_ok ls" "length (wire ls) \<le> dstsiz" "length (wire ls) \<le> 255"
  shows "ns_name_pton L (present ls) dstsiz = Inr (if ls = [] then 1 else 0, wire ls)"
proof (cases "ls = []")
  case True
  then show ?thesis using assms by (simp add: ns_name_pton_def present_def wire_def pton_qualified_def NS_MAXCDNAME_def)
next
  case False
  then show ?thesis using pton_labels [OF assms(1) False, of "[]" dstsiz L] assms by (simp add: ns_name_pton_def present_def)
qed

section \<open>Finding a name in the message\<close>

definition lower :: "byte list list \<Rightarrow> byte list list" where
  "lower ls = map (map mklower) ls"

lemma wire_first: "labels_ok ls \<Longrightarrow> wire ls ! 0 = 0 \<longleftrightarrow> ls = []"
proof (cases ls)
  case (Cons l ls')
  assume "labels_ok ls"
  then have l: "0 < length l" "length l < 64" using Cons by (auto simp: labels_ok_def)
  have "unat (of_nat (length l) :: byte) = length l" using l by (intro unat_byte) simp
  from label_byte(1) [OF this l] show ?thesis using Cons by (simp add: wire_Cons)
qed (simp add: wire_def)

lemma wire_nonempty: "wire ls \<noteq> []"
  by (simp add: wire_def)

text \<open>A name of the message matches exactly when it has the same labels up to case and does not end in a
  pointer to the root.\<close>

lemma dn_match_name:
  "dname msg cp ls k adj v \<Longrightarrow> labels_ok ds \<Longrightarrow> ds \<noteq> [] \<Longrightarrow>
   dn_match msg (wire ds @ post) cp = Some (if lower ls = lower ds \<and> adj then Cmp_found else Cmp_next)"
proof (induction arbitrary: ds rule: dname.induct)
  case (dname_end off)
  then show ?case by (subst dn_match.simps) (auto simp: lower_def)
next
  case (dname_label off n l ls k adj v)
  obtain d ds' where ds: "ds = d # ds'" using dname_label.prems(2) by (cases ds) auto
  have d: "d \<noteq> []" "length d < 64" "labels_ok ds'" using dname_label.prems(1) ds by (auto simp: labels_ok_def)
  have ud: "unat (of_nat (length d) :: byte) = length d" using d by (intro unat_byte) simp
  note b = label_byte [OF dname_label(2) [symmetric] dname_label(3,4)]
  have ll: "length l = n" using dname_label(5,6) by simp
  have w: "wire ds @ post = of_nat (length d) # d @ wire ds' @ post" by (simp add: ds wire_Cons)
  have first: "(wire ds' @ post) ! 0 = 0 \<longleftrightarrow> ds' = []"
    using wire_first [OF d(3)] wire_nonempty [of ds'] by (simp add: nth_append)
  have ne: "msg ! off = of_nat (length d) \<longleftrightarrow> n = length d"
    using ud dname_label(2) by (auto simp: word_unat_eq_iff)
  have step: "dn_match msg (wire ds @ post) off =
      (if n \<noteq> length d \<or> map mklower d \<noteq> map mklower l then Some Cmp_next
       else if ds' = [] \<and> msg ! (off + 1 + n) = 0 then Some Cmp_found
       else if ds' \<noteq> [] then dn_match msg (wire ds' @ post) (off + 1 + n) else Some Cmp_next)"
    using b ne first dname_label(2,6) unfolding w by (subst dn_match.simps) (auto simp: Let_def)
  have len: "map mklower d = map mklower l \<Longrightarrow> n = length d" using ll by (metis length_map)
  show ?case
  proof (cases "ds' = []")
    case True
    have "msg ! (off + 1 + n) = 0 \<longleftrightarrow> ls = [] \<and> adj"
      using dname_zero [OF dname_label(7)] dname_nonzero dname_label(7) by blast
    then show ?thesis unfolding step using True len by (auto simp: ds lower_def)
  next
    case False
    then show ?thesis unfolding step using dname_label.IH [OF d(3) False] len by (auto simp: ds lower_def)
  qed
next
  case (dname_ptr off ls k adj v)
  note b = pointer_byte [OF dname_ptr(2)]
  have "dn_match msg (wire ds @ post) off =
      dn_match msg (wire ds @ post) (unat (msg ! off) mod 64 * 256 + unat (msg ! (off + 1)))"
    using b by (subst dn_match.simps) (simp add: Let_def)
  then show ?case using dname_ptr.IH [OF dname_ptr.prems] dname_ptr.prems(2) by (auto simp: lower_def)
qed

lemma dname_append: "dname m off ls k adj v \<Longrightarrow> dname (m @ x) off ls k adj v"
proof (induction rule: dname.induct)
  case (dname_end off)
  then show ?case using dname.dname_end [of off "m @ x"] by (simp add: nth_append)
next
  case (dname_label off n l ls k adj v)
  then show ?case using dname.dname_label [of off "m @ x" n l ls k adj v] by (simp add: nth_append)
next
  case (dname_ptr off ls k adj v)
  then show ?case using dname.dname_ptr [of off "m @ x" ls k adj v] by (simp add: nth_append)
qed

text \<open>The search along the labels of one name.\<close>

lemma dn_suffixes_name:
  "dname msg sp ls k adj v \<Longrightarrow> labels_ok ds \<Longrightarrow> ds \<noteq> [] \<Longrightarrow>
   \<exists>r. dn_suffixes msg (wire ds @ post) sp = Some r \<and> r \<noteq> Dn_illegal \<and>
     (r = Dn_absent \<or> (\<exists>q ls' k' v'. r = Dn_found q \<and> q < 0x4000 \<and> dname msg q ls' k' True v' \<and> v' \<le> v \<and> lower ls' = lower ds))"
proof (induction rule: dname.induct)
  case (dname_end off)
  then show ?case by (subst dn_suffixes.simps) auto
next
  case (dname_label off n l ls k adj v)
  note b = label_byte [OF dname_label(2) [symmetric] dname_label(3,4)]
  have dn: "dname msg off (l # ls) (1 + n + k) adj (1 + n + v)"
    by (rule dname.dname_label [OF dname_label(1-7)])
  note m = dn_match_name [OF dn dname_label.prems, of post]
  obtain r where r: "dn_suffixes msg (wire ds @ post) (off + 1 + n) = Some r" "r \<noteq> Dn_illegal"
    "r = Dn_absent \<or> (\<exists>q ls' k' v'. r = Dn_found q \<and> q < 0x4000 \<and> dname msg q ls' k' True v' \<and> v' \<le> v \<and> lower ls' = lower ds)"
    using dname_label.IH [OF dname_label.prems] by blast
  show ?case
  proof (cases "off < 0x4000")
    case False
    then show ?thesis by (subst dn_suffixes.simps) auto
  next
    case lt: True
    show ?thesis
    proof (cases "lower (l # ls) = lower ds \<and> adj")
      case True
      then show ?thesis using m b lt dn by (subst dn_suffixes.simps) auto
    next
      case False
      have "dn_suffixes msg (wire ds @ post) off = Some r"
        using m b lt False r(1) dname_label(2) by (subst dn_suffixes.simps) (auto simp: add.commute add.left_commute)
      moreover have "v' \<le> 1 + n + v" if "v' \<le> v" for v' using that by simp
      ultimately show ?thesis using r(2,3) by blast
    qed
  qed
next
  case (dname_ptr off ls k adj v)
  then show ?case using pointer_byte [OF dname_ptr(2)] by (subst dn_suffixes.simps) auto
qed

text \<open>The names a message may be searched for: whole, and not longer to follow than the message.\<close>

definition name_at :: "byte list \<Rightarrow> nat \<Rightarrow> bool" where
  "name_at m p \<longleftrightarrow> (\<exists>ls k adj v. dname m p ls k adj v \<and> v < length m)"

lemma name_at_append: "name_at m p \<Longrightarrow> name_at (m @ x) p"
  unfolding name_at_def using dname_append by (metis length_append trans_less_add1)

lemma dn_find_name:
  assumes "list_all (name_at m) ps" "labels_ok ds" "ds \<noteq> []"
  shows "\<exists>r. dn_find (m @ x) (wire ds @ post) ps = Some r \<and> r \<noteq> Dn_illegal \<and>
    (r = Dn_absent \<or> (\<exists>q ls' k' v'. r = Dn_found q \<and> q < 0x4000 \<and> dname (m @ x) q ls' k' True v' \<and> v' < length m \<and> lower ls' = lower ds))"
  using assms(1)
proof (induction ps)
  case (Cons p ps)
  obtain ls k adj v where n: "dname m p ls k adj v" "v < length m" using Cons.prems by (auto simp: name_at_def)
  obtain r where r: "dn_suffixes (m @ x) (wire ds @ post) p = Some r" "r \<noteq> Dn_illegal"
    "r = Dn_absent \<or> (\<exists>q ls' k' v'. r = Dn_found q \<and> q < 0x4000 \<and> dname (m @ x) q ls' k' True v' \<and> v' \<le> v \<and> lower ls' = lower ds)"
    using dn_suffixes_name [OF dname_append [OF n(1), of x] assms(2,3), of post] by blast
  show ?case
  proof (cases r)
    case (Dn_found q)
    then show ?thesis using r n(2) by (auto intro: le_less_trans)
  next
    case Dn_absent
    then show ?thesis using r(1) Cons by simp
  qed (use r(2) in simp)
qed simp

section \<open>Packing a name\<close>

lemma labellen_label:
  assumes "unat (msg ! lp) < 64"
  shows "labellen msg lp = Some (unat (msg ! lp))"
proof -
  have "msg ! lp AND 0xc0 = 0" using byte_class(1) assms by blast
  then show ?thesis by (simp add: labellen_def)
qed

lemma wire_byte:
  assumes "labels_ok (l # ls)"
  shows "unat ((pre @ wire (l # ls) @ post) ! length pre) = length l"
    "(pre @ wire (l # ls) @ post) ! length pre AND 0xc0 = 0" "(pre @ wire (l # ls) @ post) ! length pre \<noteq> 0"
proof -
  have l: "0 < length l" "length l < 64" using assms by (auto simp: labels_ok_def)
  have u: "unat (of_nat (length l) :: byte) = length l" using l by (intro unat_byte) simp
  then show "unat ((pre @ wire (l # ls) @ post) ! length pre) = length l" by (simp add: wire_Cons)
  show "(pre @ wire (l # ls) @ post) ! length pre AND 0xc0 = 0" "(pre @ wire (l # ls) @ post) ! length pre \<noteq> 0"
    using label_byte [OF u l] by (simp_all add: wire_Cons)
qed

lemma wire_split: "pre @ wire (l # ls) @ post = (pre @ of_nat (length l) # l) @ wire ls @ post"
  by (simp add: wire_Cons)

lemma legal_wire:
  "labels_ok ls \<Longrightarrow>
   legal_loop (pre @ wire ls @ post) (length pre) l = (if l + length (wire ls) \<le> 255 then None else Some EMSGSIZE)"
proof (induction ls arbitrary: pre l)
  case Nil
  have "labellen (pre @ wire [] @ post) (length pre) = Some 0"
    by (subst labellen_label) (simp_all add: wire_def nth_append)
  then show ?case by (subst legal_loop.simps) (simp add: wire_def NS_MAXCDNAME_def nth_append Let_def)
next
  case (Cons a ls)
  have ls: "labels_ok ls" and a: "length a < 64" using Cons.prems by (auto simp: labels_ok_def)
  note b = wire_byte [OF Cons.prems, of pre post]
  have "labellen (pre @ wire (a # ls) @ post) (length pre) = Some (length a)"
    using labellen_label [of "pre @ wire (a # ls) @ post" "length pre"] b(1) a by simp
  then have "legal_loop (pre @ wire (a # ls) @ post) (length pre) l =
      (if l + length a + 1 > 255 then Some EMSGSIZE
       else legal_loop (pre @ wire (a # ls) @ post) (length (pre @ of_nat (length a) # a)) (l + length a + 1))"
    using b by (subst legal_loop.simps) (simp add: NS_MAXCDNAME_def Let_def)
  also have "\<dots> = (if l + length a + 1 > 255 then Some EMSGSIZE
       else if l + length a + 1 + length (wire ls) \<le> 255 then None else Some EMSGSIZE)"
    unfolding wire_split using Cons.IH [OF ls, of "pre @ of_nat (length a) # a"] by simp
  finally show ?case by (simp add: wire_Cons)
qed

lemma pointer_table: "list_all (\<lambda>d. unat (of_nat d OR 0xc0 :: byte) = 192 + d) [0..<64]"
  by code_simp

lemma pointer_bytes:
  assumes "q < 0x4000"
  shows "unat (of_nat (q div 256) OR 0xc0 :: byte) = 192 + q div 256" "unat (of_nat (q mod 256) :: byte) = q mod 256"
proof -
  have "q div 256 < 64" using assms by (simp add: div_less_iff_less_mult)
  then show "unat (of_nat (q div 256) OR 0xc0 :: byte) = 192 + q div 256" using pointer_table by (simp add: list_all_iff)
  show "unat (of_nat (q mod 256) :: byte) = q mod 256" by (rule unat_byte) simp
qed

lemma dname_pointer:
  assumes "q < 0x4000" "dname m q ls k True v" "ls \<noteq> []"
  shows "dname (m @ [of_nat (q div 256) OR 0xc0, of_nat (q mod 256)]) (length m) ls 2 True (2 + v)"
proof -
  let ?m = "m @ [of_nat (q div 256) OR 0xc0, of_nat (q mod 256)]"
  have "(192 + q div 256) mod 64 = q div 256"
    using assms(1) by (simp add: mod_add_left_eq [symmetric, of 192] div_less_iff_less_mult)
  then have "unat (?m ! length m) mod 64 * 256 + unat (?m ! (length m + 1)) = q"
    using pointer_bytes [OF assms(1)] by (simp add: nth_append)
  moreover have "192 \<le> unat (?m ! length m)" using pointer_bytes(1) [OF assms(1)] by simp
  ultimately show ?thesis
    using dname_ptr [of "length m" ?m ls k True v] dname_append [OF assms(2)] assms(3) by simp
qed

lemma dname_prepend_label:
  assumes "a \<noteq> []" "length a < 64" "dname (m @ of_nat (length a) # a @ x) (length m + length a + 1) ls k adj v"
  shows "dname (m @ of_nat (length a) # a @ x) (length m) (a # ls) (1 + length a + k) adj (1 + length a + v)"
proof -
  let ?m = "m @ of_nat (length a) # a @ x"
  have u: "unat (of_nat (length a) :: byte) = length a" using assms(2) by (intro unat_byte) simp
  have "length m + 1 + length a < length ?m" using dname_bound [OF assms(3)] by simp
  then show ?thesis
    using dname_label [of "length m" ?m "length a" a ls k adj v] u assms by (simp add: add.commute add.left_commute)
qed

lemma map_nth_append: "map ((!) (xs @ ys)) [0..<length xs] = xs"
  by (rule nth_equalityI) (simp_all add: nth_append del: upt_Suc)

lemma memcpy_label: "map ((!) (wire (a # ls) @ post)) [0..<Suc (length a)] = of_nat (length a) # a"
  using map_nth_append [of "of_nat (length a) # a" "wire ls @ post"] by (simp add: wire_Cons del: upt_Suc)

lemma pack_save_set: "set (pack_save dstp n ptrs cap added) \<subseteq> set added \<union> {dstp}"
  by (auto simp: pack_save_def split: option.splits if_splits)

definition names_ok :: "byte list \<Rightarrow> nat list option \<Rightarrow> bool" where
  "names_ok m ptrs \<longleftrightarrow> (case ptrs of None \<Rightarrow> True | Some ps \<Rightarrow> list_all (name_at m) ps)"

lemma pack_search_name:
  assumes "names_ok m ptrs" "labels_ok ds" "ds \<noteq> []"
  shows "\<exists>r. pack_search (m @ x) (wire ds @ post) ptrs = Some r \<and> r \<noteq> Dn_illegal \<and>
    (r = Dn_absent \<or> (\<exists>q ls' k' v'. r = Dn_found q \<and> q < 0x4000 \<and> dname (m @ x) q ls' k' True v' \<and> v' < length m \<and> lower ls' = lower ds))"
proof (cases ptrs)
  case (Some ps)
  have "(wire ds @ post) ! 0 \<noteq> 0" using wire_first [OF assms(2)] assms(3) wire_nonempty [of ds] by (simp add: nth_append)
  then show ?thesis using dn_find_name [of m ps ds x post] assms Some by (simp add: pack_search_def names_ok_def)
qed (simp add: pack_search_def)

text \<open>What the loop does from some place of the name on: it appends a name with the same labels up to case.\<close>

definition packed :: "byte list \<Rightarrow> byte list list \<Rightarrow> nat \<Rightarrow> nat list option \<Rightarrow> nat list \<Rightarrow> byte list \<Rightarrow> pack_result \<Rightarrow> bool" where
  "packed m ls dstsiz ptrs added out res \<longleftrightarrow>
     (\<exists>x added' ls' v. res = (Inr (length out + length x), out @ x, pack_ptrs ptrs added') \<and> length out + length x \<le> dstsiz \<and>
        length x \<le> length (wire ls) \<and> lower ls' = lower ls \<and>
        dname (m @ out @ x) (length m + length out) ls' (length x) True v \<and> v < length m + length x \<and>
        set added' \<subseteq> set added \<union> {q. name_at (m @ out @ x) q}) \<or>
     (\<exists>o1. res = (Inl EMSGSIZE, o1, ptrs) \<and> dstsiz \<le> length out + length (wire ls))"

lemma pack_step:
  assumes "labels_ok (a # ls)"
  shows "pack_loop m (pre @ wire (a # ls) @ post) dstsiz ptrs cap (length pre) added out =
    (case pack_search (m @ out) (wire (a # ls) @ post) ptrs of
       None \<Rightarrow> None
     | Some (Dn_found l) \<Rightarrow>
         if length out + 1 \<ge> dstsiz then Some (Inl EMSGSIZE, out, ptrs)
         else Some (Inr (length out + 2), out @ [of_nat (l div 256) OR 0xc0, of_nat (l mod 256)], pack_ptrs ptrs added)
     | Some _ \<Rightarrow>
         if length out + 1 + length a \<ge> dstsiz then Some (Inl EMSGSIZE, out, ptrs)
         else pack_loop m ((pre @ of_nat (length a) # a) @ wire ls @ post) dstsiz ptrs cap (length (pre @ of_nat (length a) # a))
                (pack_save (length m + length out) (of_nat (length a)) ptrs cap added) (out @ of_nat (length a) # a))"
proof -
  note b = wire_byte [OF assms, of pre post]
  have a: "a \<noteq> []" "length a < 64" using assms by (auto simp: labels_ok_def)
  have l: "labellen (pre @ wire (a # ls) @ post) (length pre) = Some (length a)"
    using labellen_label [of "pre @ wire (a # ls) @ post" "length pre"] b(1) a by simp
  have n: "(pre @ wire (a # ls) @ post) ! length pre = of_nat (length a)" by (simp add: wire_Cons)
  have d: "drop (length pre) (pre @ wire (a # ls) @ post) = wire (a # ls) @ post" by simp
  show ?thesis
    using a b(2)
    by (subst pack_loop.simps)
      (simp add: l n d memcpy_label pack_cleanup_def Let_def wire_split [symmetric] del: append_assoc upt_Suc split: option.split dn_result.split)
qed

lemma packed_label:
  assumes "a \<noteq> []" "length a < 64" "packed m ls dstsiz ptrs ad (out @ of_nat (length a) # a) res"
    and "set ad \<subseteq> set added \<union> {length m + length out}"
  shows "packed m (a # ls) dstsiz ptrs added out res"
  using assms(3) unfolding packed_def
proof (elim disjE exE conjE)
  fix x added' ls' v
  let ?o = "out @ of_nat (length a) # a" and ?y = "of_nat (length a) # a @ x"
  assume r: "res = (Inr (length ?o + length x), ?o @ x, pack_ptrs ptrs added')" "length ?o + length x \<le> dstsiz"
    "length x \<le> length (wire ls)" "lower ls' = lower ls" "v < length m + length x"
    and d: "dname (m @ ?o @ x) (length m + length ?o) ls' (length x) True v"
    and ad: "set added' \<subseteq> set ad \<union> {q. name_at (m @ ?o @ x) q}"
  have m: "m @ ?o @ x = (m @ out) @ of_nat (length a) # a @ x" by simp
  have "dname (m @ out @ ?y) (length m + length out) (a # ls') (1 + length a + length x) True (1 + length a + v)"
    using dname_prepend_label [OF assms(1,2), of "m @ out" x ls' "length x" True v] d unfolding m
    by (simp add: add.commute add.left_commute)
  moreover from this have "name_at (m @ out @ ?y) (length m + length out)"
    unfolding name_at_def using r(5) by (intro exI conjI) (assumption, simp)
  ultimately have "\<exists>x added' ls' v. res = (Inr (length out + length x), out @ x, pack_ptrs ptrs added') \<and>
      length out + length x \<le> dstsiz \<and> length x \<le> length (wire (a # ls)) \<and> lower ls' = lower (a # ls) \<and>
      dname (m @ out @ x) (length m + length out) ls' (length x) True v \<and> v < length m + length x \<and>
      set added' \<subseteq> set added \<union> {q. name_at (m @ out @ x) q}"
    using r ad assms(4)
    by (intro exI [of _ ?y] exI [of _ added'] exI [of _ "a # ls'"] exI [of _ "1 + length a + v"])
      (auto simp: wire_Cons lower_def)
  then show "(\<exists>x added' ls' v. res = (Inr (length out + length x), out @ x, pack_ptrs ptrs added') \<and>
      length out + length x \<le> dstsiz \<and> length x \<le> length (wire (a # ls)) \<and> lower ls' = lower (a # ls) \<and>
      dname (m @ out @ x) (length m + length out) ls' (length x) True v \<and> v < length m + length x \<and>
      set added' \<subseteq> set added \<union> {q. name_at (m @ out @ x) q}) \<or>
    (\<exists>o1. res = (Inl EMSGSIZE, o1, ptrs) \<and> dstsiz \<le> length out + length (wire (a # ls)))" ..
next
  fix o1 assume "res = (Inl EMSGSIZE, o1, ptrs)" "dstsiz \<le> length (out @ of_nat (length a) # a) + length (wire ls)"
  then show "(\<exists>x added' ls' v. res = (Inr (length out + length x), out @ x, pack_ptrs ptrs added') \<and>
      length out + length x \<le> dstsiz \<and> length x \<le> length (wire (a # ls)) \<and> lower ls' = lower (a # ls) \<and>
      dname (m @ out @ x) (length m + length out) ls' (length x) True v \<and> v < length m + length x \<and>
      set added' \<subseteq> set added \<union> {q. name_at (m @ out @ x) q}) \<or>
    (\<exists>o1. res = (Inl EMSGSIZE, o1, ptrs) \<and> dstsiz \<le> length out + length (wire (a # ls)))"
    by (simp add: wire_Cons)
qed

lemma pack_loop_name:
  "labels_ok ls \<Longrightarrow> names_ok m ptrs \<Longrightarrow> length out \<le> dstsiz \<Longrightarrow>
   \<exists>res. pack_loop m (pre @ wire ls @ post) dstsiz ptrs cap (length pre) added out = Some res \<and> packed m ls dstsiz ptrs added out res"
proof (induction ls arbitrary: pre added out)
  case Nil
  have w: "(pre @ wire [] @ post) ! length pre = 0" "(wire [] @ post) ! 0 = 0" by (simp_all add: wire_def)
  have l: "labellen (pre @ wire [] @ post) (length pre) = Some 0" using labellen_label w(1) by (metis unat_0 zero_less_numeral)
  have s: "pack_search (m @ out) (wire [] @ post) ptrs = Some Dn_absent"
    by (simp add: pack_search_def wire_def split: option.split)
  have p: "pack_save d 0 ptrs cap added = added" for d by (simp add: pack_save_def split: option.split)
  have "pack_loop m (pre @ wire [] @ post) dstsiz ptrs cap (length pre) added out =
      (if length out + 1 \<ge> dstsiz then Some (Inl EMSGSIZE, out, ptrs) else Some (Inr (length out + 1), out @ [0], pack_ptrs ptrs added))"
    by (subst pack_loop.simps) (simp add: l w s p pack_cleanup_def Let_def del: append_assoc)
  moreover have "dname (m @ out @ [0]) (length m + length out) [] 1 True 0"
    using dname_end [of "length m + length out" "m @ out @ [0]"] by (simp add: nth_append)
  then have "packed m [] dstsiz ptrs added out (Inr (length out + 1), out @ [0], pack_ptrs ptrs added)" if "length out + 1 < dstsiz"
    unfolding packed_def using that
    by (intro disjI1 exI [of _ "[0]"] exI [of _ added] exI [of _ "[]"] exI [of _ 0]) (simp add: lower_def wire_def)
  moreover have "packed m [] dstsiz ptrs added out (Inl EMSGSIZE, out, ptrs)" if "dstsiz \<le> length out + 1"
    unfolding packed_def using that by (simp add: wire_def)
  ultimately show ?case by (metis leI)
next
  case (Cons a ls)
  have a: "a \<noteq> []" "length a < 64" and ls: "labels_ok ls" using Cons.prems(1) by (auto simp: labels_ok_def)
  note step = pack_step [OF Cons.prems(1), of m pre post dstsiz ptrs cap added out]
  have w: "length (wire (a # ls)) = 1 + length a + length (wire ls)" by (simp add: wire_Cons)
  have "0 < length a" "0 < length (wire ls)" using a wire_nonempty [of ls] by simp_all
  then have w3: "2 < length (wire (a # ls))" unfolding w by linarith
  obtain r where r: "pack_search (m @ out) (wire (a # ls) @ post) ptrs = Some r" "r \<noteq> Dn_illegal"
    "r = Dn_absent \<or> (\<exists>q ls' k' v'. r = Dn_found q \<and> q < 0x4000 \<and> dname (m @ out) q ls' k' True v' \<and> v' < length m \<and>
       lower ls' = lower (a # ls))"
    using pack_search_name [OF Cons.prems(2,1), of out post] by blast
  have full: "packed m (a # ls) dstsiz ptrs added out (Inl EMSGSIZE, out, ptrs)" if "dstsiz \<le> length out + 1 + length a"
    unfolding packed_def using that by (intro disjI2 exI [of _ out]) (simp add: w)
  from r(3) show ?case
  proof (elim disjE exE conjE)
    fix q ls' k' v' assume q: "r = Dn_found q" "q < 0x4000" "dname (m @ out) q ls' k' True v'" "v' < length m"
      and l: "lower ls' = lower (a # ls)"
    let ?x = "[of_nat (q div 256) OR 0xc0, of_nat (q mod 256)] :: byte list"
    have "ls' \<noteq> []" using l by (auto simp: lower_def)
    from dname_pointer [OF q(2,3) this] have d: "dname (m @ out @ ?x) (length m + length out) ls' 2 True (2 + v')" by simp
    have "packed m (a # ls) dstsiz ptrs added out (Inr (length out + 2), out @ ?x, pack_ptrs ptrs added)" if "length out + 1 < dstsiz"
      unfolding packed_def using that d l q(4) w3
      by (intro disjI1 exI [of _ ?x] exI [of _ added] exI [of _ ls'] exI [of _ "2 + v'"]) (simp add: numeral_2_eq_2)
    moreover have "packed m (a # ls) dstsiz ptrs added out (Inl EMSGSIZE, out, ptrs)" if "dstsiz \<le> length out + 1"
      using that full a by simp
    ultimately show ?thesis unfolding step using r(1) q(1) by simp
  next
    assume absent: "r = Dn_absent"
    let ?o = "out @ of_nat (length a) # a" and ?p = "pre @ of_nat (length a) # a"
      and ?ad = "pack_save (length m + length out) (of_nat (length a)) ptrs cap added"
    have s: "pack_loop m (pre @ wire (a # ls) @ post) dstsiz ptrs cap (length pre) added out =
        (if length out + 1 + length a \<ge> dstsiz then Some (Inl EMSGSIZE, out, ptrs)
         else pack_loop m (?p @ wire ls @ post) dstsiz ptrs cap (length ?p) ?ad ?o)"
      unfolding step using r(1) absent by simp
    show ?thesis
    proof (cases "length out + 1 + length a \<ge> dstsiz")
      case True
      then show ?thesis using s full by simp
    next
      case False
      then obtain res where res: "pack_loop m (?p @ wire ls @ post) dstsiz ptrs cap (length ?p) ?ad ?o = Some res"
        "packed m ls dstsiz ptrs ?ad ?o res"
        using Cons.IH [OF ls Cons.prems(2), of ?o ?p ?ad] by auto
      have "packed m (a # ls) dstsiz ptrs added out res" by (rule packed_label [OF a res(2)]) (rule pack_save_set)
      then show ?thesis using s False res(1) by simp
    qed
  qed
qed


lemma ns_name_pack_name:
  assumes "labels_ok ls" "names_ok m ptrs" "length (wire ls) \<le> 255"
  shows "\<exists>res. ns_name_pack m (wire ls @ post) dstsiz ptrs cap = Some res \<and> packed m ls dstsiz ptrs [] [] res"
  using legal_wire [OF assms(1), of "[]" post 0] assms(3) pack_loop_name [OF assms(1,2), of "[]" dstsiz "[]" post cap "[]"]
  by (simp add: ns_name_pack_def)

lemma names_ok_append:
  assumes "names_ok m ptrs" "set added \<subseteq> {q. name_at (m @ x) q}"
  shows "names_ok (m @ x) (pack_ptrs ptrs added)"
  using assms name_at_append by (cases ptrs) (auto simp: names_ok_def pack_ptrs_def list_all_iff)

lemma lower_labels_ok: "lower ls = lower ls' \<Longrightarrow> labels_ok ls \<Longrightarrow> labels_ok ls'"
proof -
  assume e: "lower ls = lower ls'" and ok: "labels_ok ls"
  have p: "labels_ok ks \<longleftrightarrow> list_all (\<lambda>n. n \<noteq> 0 \<and> n < 64) (map length (lower ks))" for ks
    by (auto simp: labels_ok_def lower_def list_all_iff)
  show ?thesis using ok unfolding p e .
qed

lemma lower_wire_length: "lower ls = lower ls' \<Longrightarrow> length (wire ls) = length (wire ls')"
proof -
  assume e: "lower ls = lower ls'"
  have "length (wire ks) = sum_list (map (\<lambda>n. n + 1) (map length (lower ks))) + 1" for ks
    unfolding length_wire lower_def by (simp add: comp_def)
  then show ?thesis by (simp only: e)
qed

lemma unpack_name:
  assumes "dname msg src ls k adj v" "v < length msg" "length (wire ls) \<le> dstsiz"
  shows "ns_name_unpack msg src dstsiz = Some (k, wire ls)"
  using unpack_complete [OF assms(1), of 0 "[]" dstsiz src None] assms(2,3) by (simp add: ns_name_unpack_def)

lemma escapes_length: "length (escapes l) \<le> 4 * length l"
proof (induction l)
  case (Cons c l)
  have "length (escape c) \<le> 4" by (simp add: escape_def)
  then show ?case using Cons by (simp add: escapes_def)
qed (simp add: escapes_def)

lemma present_length: "ls \<noteq> [] \<Longrightarrow> length (present ls) \<le> 4 * length (wire ls)"
proof -
  assume "ls \<noteq> []"
  have "length (concat (map (\<lambda>l. 0x2e # l) (map escapes ls))) \<le> 4 * length (wire ls)" for ls
  proof (induction ls)
    case (Cons l ls)
    then show ?case using escapes_length [of l] by (simp add: wire_Cons)
  qed simp
  from this [of ls] show ?thesis using \<open>ls \<noteq> []\<close> by (cases ls) (auto simp: present_def dotted_Cons)
qed

lemma pton_done_bound: "pton_done dstsiz label out c = Inr (k, t) \<Longrightarrow> c \<noteq> 0 \<or> length out = label + 1 \<Longrightarrow> length t \<le> dstsiz \<and> length t \<le> 255"
  by (auto simp: pton_done_def Let_def NS_MAXCDNAME_def split: if_splits)

lemma pton_loop_bound:
  "pton_loop L dstsiz src escaped label out = Inr (k, t) \<Longrightarrow> label < length out \<Longrightarrow> length t \<le> dstsiz \<and> length t \<le> 255"
proof (induction L dstsiz src escaped label out rule: pton_loop.induct)
  case (1 L dstsiz escaped label out)
  show ?case by (rule pton_done_bound [of _ label out "length out - label - 1"]) (use 1 in \<open>auto simp: pton_end_def Let_def split: if_splits\<close>)
next
  case (2 L dstsiz c src escaped label out)
  have q: "pton_qualified dstsiz o1 n = Inr (k, t) \<Longrightarrow> length o1 = length out \<Longrightarrow> n = length out - label - 1 \<Longrightarrow> label < dstsiz \<Longrightarrow>
      length t \<le> dstsiz \<and> length t \<le> 255" for o1 n
    using 2(7) by (auto simp: pton_qualified_def Let_def NS_MAXCDNAME_def split: if_splits)
  show ?case
  proof (cases escaped)
    case True
    note e = True
    show ?thesis
    proof (cases "c = 0x5b")
      case True
      then show ?thesis
        using 2(1) [OF e True] 2(6) e pton_done_bound
        by (auto split: if_splits sum.splits prod.splits list.splits)
    next
      case False
      then show ?thesis using 2(2) [OF e False] 2(6,7) e by (auto split: if_splits option.splits prod.splits)
    qed
  next
    case False
    then show ?thesis
      using 2(3) [OF False] 2(4) [OF False] 2(5) [OF False] 2(6,7) q by (auto simp: Let_def split: if_splits)
  qed
qed

text \<open>Whatever the text is, \<open>ns_name_pton\<close> returns, and what it stores fits into the buffer and into 255 bytes.\<close>

lemma ns_name_pton_bound: "ns_name_pton L src dstsiz = Inr (k, t) \<Longrightarrow> length t \<le> dstsiz \<and> length t \<le> 255"
  unfolding ns_name_pton_def by (erule pton_loop_bound) simp

section \<open>Properties\<close>

text \<open>A name that \<open>ns_name_pack\<close> appends to a message, compressed against the names before it, is unpacked to a name with the
  same labels up to the case of letters; all names that were known before stay names of the message, and a name that
  is remembered is one. It takes no more room than the uncompressed name, and fails only for want of room.\<close>

theorem pack_unpack_roundtrip:
  assumes "labels_ok ls" "length (wire ls) \<le> 255" "names_ok m ptrs"
  shows "\<exists>r x ptrs'. ns_name_pack m (wire ls @ post) dstsiz ptrs cap = Some (r, x, ptrs') \<and>
    (if length (wire ls) < dstsiz \<or> r \<noteq> Inl EMSGSIZE
     then r = Inr (length x) \<and> length x \<le> dstsiz \<and> length x \<le> length (wire ls) \<and> names_ok (m @ x) ptrs' \<and>
       (\<exists>ls'. ns_name_unpack (m @ x @ rest) (length m) 255 = Some (length x, wire ls') \<and> lower ls' = lower ls)
     else ptrs' = ptrs)"
proof -
  obtain res where n: "ns_name_pack m (wire ls @ post) dstsiz ptrs cap = Some res" and p: "packed m ls dstsiz ptrs [] [] res"
    using ns_name_pack_name [OF assms(1,3,2)] by blast
  from p show ?thesis unfolding packed_def
  proof (elim disjE exE conjE)
    fix x added' ls' v
    assume r: "res = (Inr (length ([] :: byte list) + length x), [] @ x, pack_ptrs ptrs added')" "length ([] :: byte list) + length x \<le> dstsiz"
      "length x \<le> length (wire ls)" "lower ls' = lower ls" "v < length m + length x"
      "set added' \<subseteq> set [] \<union> {q. name_at (m @ [] @ x) q}"
      and d: "dname (m @ [] @ x) (length m + length ([] :: byte list)) ls' (length x) True v"
    have "length (wire ls') \<le> 255" using lower_wire_length [OF r(4)] assms(2) by simp
    then have u: "ns_name_unpack (m @ x @ rest) (length m) 255 = Some (length x, wire ls')"
      using unpack_name [of "m @ x @ rest" "length m" ls' "length x" True v 255] dname_append [OF d, of rest] r(5) by simp
    have "names_ok (m @ x) (pack_ptrs ptrs added')" using names_ok_append [OF assms(3)] r(6) by simp
    then show ?thesis using n r u by (intro exI [of _ "Inr (length x)"] exI [of _ x] exI [of _ "pack_ptrs ptrs added'"]) auto
  next
    fix o1 assume "res = (Inl EMSGSIZE, o1, ptrs)" "dstsiz \<le> length ([] :: byte list) + length (wire ls)"
    then show ?thesis using n by auto
  qed
qed

text \<open>A printed name, as \<open>ns_name_ntop\<close> writes it with its escapes, is read by \<open>ns_name_pton\<close> into the encoding it was printed
  from.\<close>

theorem ntop_pton_roundtrip:
  assumes "labels_ok ls" "length (wire ls) \<le> 255" "ns_name_ntop (wire ls @ post) dstsiz = Some t" "length (wire ls) \<le> n"
  shows "ns_name_pton L (butlast t) n = Inr (if ls = [] then 1 else 0, wire ls)"
  using ntop_wire [OF assms(1), of post dstsiz] assms(3) pton_present [OF assms(1,4,2)] by (auto split: if_splits)

text \<open>C35: \<open>dn_comp\<close> and \<open>dn_expand\<close> together: a printed name that is compressed into a message is expanded there to the same
  printed form up to the case of letters.\<close>

theorem dn_comp_expand_roundtrip:
  assumes "labels_ok ls" "length (wire ls) \<le> 255" "length (wire ls) < dstsiz" "names_ok m ptrs" "ls \<noteq> []" "4 * length (wire ls) < n"
  shows "\<exists>x ptrs' ls'. dn_comp L m (present ls) dstsiz ptrs cap = Some (Inr (length x), x, ptrs') \<and> names_ok (m @ x) ptrs' \<and>
    dn_expand (m @ x @ rest) (length m) n = Some (length x, present ls' @ [0]) \<and> lower ls' = lower ls"
proof -
  obtain res where c: "ns_name_pack m (wire ls) dstsiz ptrs cap = Some res" and p: "packed m ls dstsiz ptrs [] [] res"
    using ns_name_pack_name [OF assms(1,4,2), of "[]" dstsiz cap] by auto
  have dc: "dn_comp L m (present ls) dstsiz ptrs cap = Some res"
    using pton_present [OF assms(1) _ assms(2), of 255 L] assms(2) c by (simp add: dn_comp_def ns_name_compress_def NS_MAXCDNAME_def)
  from p assms(3) obtain x added' ls' v where r: "res = (Inr (length x), x, pack_ptrs ptrs added')" "lower ls' = lower ls"
      "v < length m + length x" "set added' \<subseteq> {q. name_at (m @ x) q}" "dname (m @ x) (length m) ls' (length x) True v"
    unfolding packed_def by auto
  have ok: "labels_ok ls'" "ls' \<noteq> []" "length (wire ls') = length (wire ls)"
    using lower_labels_ok [OF r(2) [symmetric] assms(1)] assms(5) r(2) lower_wire_length [OF r(2)] by (auto simp: lower_def)
  have u: "ns_name_unpack (m @ x @ rest) (length m) 255 = Some (length x, wire ls')"
    using unpack_name [of "m @ x @ rest" "length m" ls' "length x" True v 255] dname_append [OF r(5), of rest] r(3) ok(3) assms(2) by simp
  have "length (present ls') < n" using present_length [OF ok(2)] ok(3) assms(6) by simp
  then have t: "ns_name_ntop (wire ls') n = Some (present ls' @ [0])" using ntop_wire [OF ok(1), of "[]" n] by simp
  have "dn_expand (m @ x @ rest) (length m) n = Some (length x, present ls' @ [0])"
    using u t present_dot [OF ok(1)] ok(2) by (simp add: dn_expand_def ns_name_uncompress_def NS_MAXCDNAME_def)
  then show ?thesis using dc r(1,2) names_ok_append [OF assms(4) r(4)] by auto
qed


section \<open>Witnesses\<close>

text \<open>The message has the name \<open>ww.x\<close> at 0; the name \<open>a.WW.x\<close> is added to it.\<close>

definition big_labels :: "byte list list" where
  "big_labels = [[0x61], [0x57, 0x57], [0x78]]"

lemma big_labels_facts: "labels_ok big_labels" "wire big_labels = [1, 0x61, 2, 0x57, 0x57, 1, 0x78, 0]"
  "present big_labels = [0x61, 0x2e, 0x57, 0x57, 0x2e, 0x78]" "big_labels \<noteq> []"
  by (simp_all add: big_labels_def labels_ok_def wire_def present_def escapes_def escape_def special_def printable_def)

definition small_msg :: "byte list" where
  "small_msg = [2, 0x77, 0x77, 1, 0x78, 0]"

lemma small_msg_facts: "length small_msg = 6" "names_ok small_msg (Some [0])"
proof -
  show "length small_msg = 6" by (simp add: small_msg_def)
  have "dname ([] @ wire sample_labels @ []) (length ([] :: byte list)) sample_labels (length (wire sample_labels)) True
      (length (wire sample_labels) - 1)"
    by (rule wire_dname [OF host_labels_ok [OF sample_label_facts(1)]])
  moreover have "length (wire sample_labels) - 1 < length small_msg" by (simp add: sample_label_facts small_msg_def)
  ultimately show "names_ok small_msg (Some [0])"
    unfolding names_ok_def name_at_def by (auto simp: sample_label_facts(2) small_msg_def)
qed

theorem pack_unpack_roundtrip_witness:
  "\<exists>x ptrs'. ns_name_pack small_msg [1, 0x61, 2, 0x57, 0x57, 1, 0x78, 0] 20 (Some [0]) (Some 5) = Some (Inr (length x), x, ptrs') \<and>
     (\<exists>ls'. ns_name_unpack (small_msg @ x) 6 255 = Some (length x, wire ls') \<and> lower ls' = lower big_labels)"
  using pack_unpack_roundtrip [OF big_labels_facts(1) _ small_msg_facts(2), of "[]" 20 "Some 5" "[]"] big_labels_facts(2)
  by (auto simp: small_msg_facts(1))

theorem ntop_pton_roundtrip_witness:
  "ns_name_pton 32 [0x61, 0x2e, 0x57, 0x57, 0x2e, 0x78] 40 = Inr (0, [1, 0x61, 2, 0x57, 0x57, 1, 0x78, 0])"
proof -
  have "ns_name_ntop (wire big_labels @ []) 40 = Some ([0x61, 0x2e, 0x57, 0x57, 0x2e, 0x78] @ [0])"
    using ntop_wire [OF big_labels_facts(1), of "[]" 40] big_labels_facts(3) by simp
  from ntop_pton_roundtrip [OF big_labels_facts(1) _ this, of 40 32] show ?thesis
    using big_labels_facts(2,4) by simp
qed

theorem dn_comp_expand_roundtrip_witness:
  "\<exists>x ptrs' ls'. dn_comp 32 small_msg [0x61, 0x2e, 0x57, 0x57, 0x2e, 0x78] 20 (Some [0]) (Some 5) = Some (Inr (length x), x, ptrs') \<and>
     dn_expand (small_msg @ x) 6 100 = Some (length x, present ls' @ [0]) \<and> lower ls' = lower big_labels"
  using dn_comp_expand_roundtrip [OF big_labels_facts(1) _ _ small_msg_facts(2) big_labels_facts(4), of 20 100 32 "Some 5" "[]"]
    big_labels_facts(2,3) by (auto simp: small_msg_facts(1))

end
