(* ===== verification/Waitq.thy ===== *)
theory Waitq
  imports Prelude "HOL-Library.Multiset"
begin

text \<open>
  Waiting threads of LinuxThreads: the queues of \<open>queue.h\<close>, and the accounting of \<open>suspend\<close> and \<open>restart\<close>
  (\<open>restart.h\<close>, \<open>pthread.c\<close>), which the locks and semaphores share.

  Threads are numbers. A queue is the list of the threads that are linked through \<open>p_nextwaiting\<close>. \<open>restart\<close> adds one
  to the resume count of a thread, \<open>suspend\<close> waits until the count is positive and takes one off: the signals
  queue, or are counted where they do not. The code between \<open>__pthread_lock\<close> and \<open>__pthread_unlock\<close> of an object runs
  as one step.
\<close>

type_synonym tid = nat

definition EBUSY :: nat where "EBUSY = 16"
definition ETIMEDOUT :: nat where "ETIMEDOUT = 110"

section \<open>Queues\<close>

fun enqueue :: "(tid \<Rightarrow> int) \<Rightarrow> tid list \<Rightarrow> tid \<Rightarrow> tid list" where
  "enqueue prio [] th = [th]"
| "enqueue prio (q # qs) th = (if prio th > prio q then th # q # qs else q # enqueue prio qs th)"

definition dequeue :: "tid list \<Rightarrow> tid option \<times> tid list" where
  "dequeue q = (case q of [] \<Rightarrow> (None, []) | th # q' \<Rightarrow> (Some th, q'))"

fun remove_from_queue :: "tid list \<Rightarrow> tid \<Rightarrow> bool \<times> tid list" where
  "remove_from_queue [] th = (False, [])"
| "remove_from_queue (q # qs) th =
     (if q = th then (True, qs) else (let (r, qs') = remove_from_queue qs th in (r, q # qs')))"

definition queue_is_empty :: "tid list \<Rightarrow> bool" where
  "queue_is_empty q \<longleftrightarrow> q = []"

text \<open>\<open>suspend\<close> and \<open>restart\<close> on the resume counts; \<open>None\<close> while the thread has to wait.\<close>

definition restart :: "tid \<Rightarrow> (tid \<Rightarrow> nat) \<Rightarrow> tid \<Rightarrow> nat" where
  "restart th resume = resume(th := resume th + 1)"

definition suspend :: "tid \<Rightarrow> (tid \<Rightarrow> nat) \<Rightarrow> (tid \<Rightarrow> nat) option" where
  "suspend self resume = (if resume self = 0 then None else Some (resume(self := resume self - 1)))"

lemma mset_enqueue [simp]: "mset (enqueue prio q th) = add_mset th (mset q)"
  by (induction q) auto

lemma set_enqueue [simp]: "set (enqueue prio q th) = insert th (set q)"
  by (induction q) auto

lemma enqueue_nonempty [simp]: "enqueue prio q th \<noteq> []"
  by (cases q) auto

lemma remove_from_queue_iff: "fst (remove_from_queue q th) \<longleftrightarrow> th \<in> set q"
  by (induction q) (auto simp: split_beta)

lemma mset_remove_from_queue: "mset (snd (remove_from_queue q th)) = mset q - {#th#}"
  by (induction q) (auto simp: split_beta)

lemma set_remove_from_queue: "set (snd (remove_from_queue q th)) \<subseteq> set q"
  by (induction q) (auto simp: split_beta)

lemma remove_from_queue_absent: "th \<notin> set q \<Longrightarrow> snd (remove_from_queue q th) = q"
  by (induction q) (auto simp: split_beta)

lemma remove_queue_facts:
  assumes "remove_from_queue q t = (b, q')"
  shows "b = (t \<in> set q)" "set q' \<subseteq> set q" "\<not> b \<Longrightarrow> q' = q" "b \<Longrightarrow> mset q = add_mset t (mset q')"
    "b \<Longrightarrow> count (mset q') x + (if x = t then 1 else 0) = count (mset q) x"
proof -
  have b: "b = (t \<in> set q)" and q': "q' = snd (remove_from_queue q t)"
    using remove_from_queue_iff [of q t] assms by (simp_all only: fst_conv snd_conv)
  show "b = (t \<in> set q)" by (rule b)
  show "set q' \<subseteq> set q" unfolding q' by (rule set_remove_from_queue)
  show "\<not> b \<Longrightarrow> q' = q" unfolding b q' by (rule remove_from_queue_absent)
  show "b \<Longrightarrow> mset q = add_mset t (mset q')" unfolding b q' mset_remove_from_queue by simp
  then show "b \<Longrightarrow> count (mset q') x + (if x = t then 1 else 0) = count (mset q) x" by auto
qed

text \<open>A queue stays sorted by falling priority, and threads of the same priority stay in the order of their arrival.\<close>

definition prio_sorted :: "(tid \<Rightarrow> int) \<Rightarrow> tid list \<Rightarrow> bool" where
  "prio_sorted prio q \<longleftrightarrow> sorted_wrt (\<lambda>a b. prio a \<ge> prio b) q"

lemma enqueue_split:
  "prio_sorted prio q \<Longrightarrow> enqueue prio q th = filter (\<lambda>x. prio x \<ge> prio th) q @ th # filter (\<lambda>x. prio x < prio th) q"
proof (induction q)
  case (Cons a q)
  show ?case
  proof (cases "prio th > prio a")
    case True
    then have "\<forall>x \<in> set q. prio x < prio th" using Cons.prems by (auto simp: prio_sorted_def)
    then have "filter (\<lambda>x. prio x \<ge> prio th) q = []" "filter (\<lambda>x. prio x < prio th) q = q"
      by (auto simp: filter_empty_conv filter_id_conv)
    then show ?thesis using True by simp
  next
    case False
    then show ?thesis using Cons by (simp add: prio_sorted_def)
  qed
qed simp

lemma enqueue_sorted: "prio_sorted prio q \<Longrightarrow> prio_sorted prio (enqueue prio q th)"
proof -
  assume s: "prio_sorted prio q"
  have "sorted_wrt (\<lambda>a b. prio a \<ge> prio b) (filter P q)" for P
    using s sorted_wrt_filter unfolding prio_sorted_def by blast
  then show ?thesis unfolding enqueue_split [OF s] prio_sorted_def by (auto simp: sorted_wrt_append)
qed

section \<open>Accounting of restarts\<close>

text \<open>
  In a system of \<open>N\<close> threads with program points \<open>pc\<close> let \<open>restarts p\<close> be the threads that a thread at \<open>p\<close> is about to
  restart, and \<open>waiting p\<close> hold where a thread waits to be restarted. Then a waiting thread is in one queue, or is
  about to be restarted by one thread, or has one restart outstanding; any other thread has none of these.
\<close>

definition balanced ::
  "nat \<Rightarrow> ('p \<Rightarrow> tid list) \<Rightarrow> ('p \<Rightarrow> bool) \<Rightarrow> tid list \<Rightarrow> (tid \<Rightarrow> 'p) \<Rightarrow> (tid \<Rightarrow> nat) \<Rightarrow> bool" where
  "balanced N restarts waiting qs pc resume \<longleftrightarrow>
     (\<forall>x. count (mset qs + (\<Sum>u<N. mset (restarts (pc u)))) x + resume x = (if waiting (pc x) then 1 else 0))"

lemma sum_pc_upd:
  assumes "(t :: nat) < N"
  shows "(\<Sum>u<N. mset (restarts ((pc(t := p)) u))) + mset (restarts (pc t)) = (\<Sum>u<N. mset (restarts (pc u))) + mset (restarts p)"
proof -
  have t: "t \<in> {..<N}" using assms by simp
  have "(\<Sum>u\<in>{..<N} - {t}. mset (restarts ((pc(t := p)) u))) = (\<Sum>u\<in>{..<N} - {t}. mset (restarts (pc u)))"
    by (rule sum.cong) auto
  then have "(\<Sum>u<N. mset (restarts ((pc(t := p)) u))) = mset (restarts p) + (\<Sum>u\<in>{..<N} - {t}. mset (restarts (pc u)))"
    using sum.remove [OF _ t, of "\<lambda>u. mset (restarts ((pc(t := p)) u))"] by simp
  moreover have "(\<Sum>u<N. mset (restarts (pc u))) = mset (restarts (pc t)) + (\<Sum>u\<in>{..<N} - {t}. mset (restarts (pc u)))"
    using sum.remove [OF _ t, of "\<lambda>u. mset (restarts (pc u))"] by simp
  ultimately show ?thesis by (simp only: ac_simps)
qed

lemma balanced_move:
  assumes "balanced N restarts waiting qs pc resume" "t < N"
    and "\<And>x. count (mset qs') x + count (mset (restarts p)) x + resume' x + (if x = t \<and> waiting (pc t) then 1 else 0) =
      count (mset qs) x + count (mset (restarts (pc t))) x + resume x + (if x = t \<and> waiting p then 1 else 0)"
  shows "balanced N restarts waiting qs' (pc(t := p)) resume'"
  unfolding balanced_def
proof
  fix x
  let ?S = "\<lambda>pc. count (\<Sum>u<N. mset (restarts (pc u))) x" and ?w = "\<lambda>b. if b then 1 else 0 :: nat"
  have s: "?S (pc(t := p)) + count (mset (restarts (pc t))) x = ?S pc + count (mset (restarts p)) x"
    using arg_cong [OF sum_pc_upd [OF assms(2), of restarts pc p], of "\<lambda>M. count M x"] by (simp only: count_union)
  have b: "count (mset qs) x + ?S pc + resume x = ?w (waiting (pc x))"
    using assms(1) by (simp only: balanced_def count_union)
  have w: "?w (waiting (pc x)) + ?w (x = t \<and> waiting p) = ?w (waiting ((pc(t := p)) x)) + ?w (x = t \<and> waiting (pc t))"
    by simp
  show "count (mset qs' + (\<Sum>u<N. mset (restarts ((pc(t := p)) u)))) x + resume' x = ?w (waiting ((pc(t := p)) x))"
    unfolding count_union using s b w assms(3) [of x] by linarith
qed

lemma balanced_queue:
  assumes "balanced N restarts waiting qs pc resume" "x \<in> set qs"
  shows "waiting (pc x)" "resume x = 0" "count (mset qs) x = 1"
proof -
  have p: "0 < count (mset qs) x" using assms(2) by simp
  have e: "count (mset qs) x + count (\<Sum>u<N. mset (restarts (pc u))) x + resume x = (if waiting (pc x) then 1 else 0)"
    using assms(1) by (simp only: balanced_def count_union)
  show "waiting (pc x)" using p e by (cases "waiting (pc x)") auto
  then have "count (mset qs) x + count (\<Sum>u<N. mset (restarts (pc u))) x + resume x = 1" using e by (simp only: if_True)
  then show "resume x = 0" "count (mset qs) x = 1" using p by linarith+
qed

lemma balanced_distinct: "balanced N restarts waiting qs pc resume \<Longrightarrow> distinct qs"
  unfolding distinct_count_atmost_1 using balanced_queue(3) by (metis count_mset_0_iff)

lemma queue_without:
  assumes "balanced N restarts waiting qs pc resume" "mset qs = add_mset t (mset q)"
  shows "set qs = insert t (set q)" "t \<notin> set q"
proof -
  show "set qs = insert t (set q)" using arg_cong [OF assms(2), of set_mset] by simp
  then have "count (mset qs) t = 1" using balanced_queue(3) [OF assms(1), of t] by simp
  then show "t \<notin> set q" using assms(2) by simp
qed

text \<open>When no thread is about to restart another one, a thread that waits is in a queue or can go on.\<close>

lemma balanced_asleep:
  assumes "balanced N restarts waiting qs pc resume" "\<And>u. u < N \<Longrightarrow> restarts (pc u) = []" "waiting (pc x)" "resume x = 0"
  shows "x \<in> set qs"
proof -
  have "(\<Sum>u<N. mset (restarts (pc u))) = {#}" using assms(2) by simp
  moreover have "count (mset qs + (\<Sum>u<N. mset (restarts (pc u)))) x + resume x = 1"
    using assms(1,3) by (simp add: balanced_def)
  ultimately have "count (mset qs) x = 1" using assms(4) by simp
  then show ?thesis by (metis count_mset_0_iff zero_neq_one)
qed

text \<open>A waiting thread outside the queues is owed a restart: it has come, or some thread is about to make it.\<close>

lemma balanced_owed:
  assumes "balanced N restarts waiting qs pc resume" "waiting (pc x)" "x \<notin> set qs"
  shows "(\<exists>u<N. x \<in> set (restarts (pc u))) \<or> resume x > 0"
proof (rule ccontr)
  assume n: "\<not> ?thesis"
  then have "count (\<Sum>u<N. mset (restarts (pc u))) x = 0" by (simp add: count_sum)
  moreover have "x \<notin># mset qs" using assms(3) by simp
  ultimately have "count (mset qs + (\<Sum>u<N. mset (restarts (pc u)))) x + resume x = 0"
    using n by (simp only: count_union not_in_iff) simp
  moreover have "count (mset qs + (\<Sum>u<N. mset (restarts (pc u)))) x + resume x = 1"
    using assms(1,2) by (simp add: balanced_def)
  ultimately show False by linarith
qed

text \<open>A thread that is about to be restarted waits, outside the queues.\<close>

lemma one_token: "(a :: nat) + b + c = (if P then 1 else 0) \<Longrightarrow> 0 < b \<Longrightarrow> P \<and> a = 0 \<and> c = 0"
  by (cases P) auto

lemma balanced_pending:
  assumes "balanced N restarts waiting qs pc resume" "u < N" "x \<in> set (restarts (pc u))"
  shows "waiting (pc x)" "x \<notin> set qs" "resume x = 0"
proof -
  have "(\<Sum>v<N. mset (restarts (pc v))) = mset (restarts (pc u)) + (\<Sum>v\<in>{..<N} - {u}. mset (restarts (pc v)))"
    using assms(2) by (intro sum.remove) auto
  then have "0 < count (\<Sum>v<N. mset (restarts (pc v))) x" using assms(3) by simp
  moreover have "count (mset qs) x + count (\<Sum>v<N. mset (restarts (pc v))) x + resume x = (if waiting (pc x) then 1 else 0)"
    using assms(1) by (simp only: balanced_def count_union)
  ultimately have "waiting (pc x) \<and> count (mset qs) x = 0 \<and> resume x = 0" using one_token by blast
  then show "waiting (pc x)" "x \<notin> set qs" "resume x = 0" by simp_all
qed

section \<open>Places where threads wait\<close>

text \<open>The contract of the program points of an object with waiting threads: a thread that waits restarts nobody. Then the
  accounting survives the steps that all these objects are made of.\<close>

locale wait_places =
  fixes restarts :: "'p \<Rightarrow> tid list" and waiting :: "'p \<Rightarrow> bool"
  assumes waiting_restarts: "waiting p \<Longrightarrow> restarts p = []"
begin

lemma enters_queue:
  assumes "balanced N restarts waiting qs pc resume" "t < N" "\<not> waiting (pc t)" "restarts (pc t) = []" "waiting p"
    and "mset qs' = add_mset t (mset qs)"
  shows "balanced N restarts waiting qs' (pc(t := p)) resume"
  by (rule balanced_move [OF assms(1,2)]) (use assms(3-6) waiting_restarts [OF assms(5)] in auto)

lemma takes_over:
  assumes "balanced N restarts waiting qs pc resume" "t < N" "\<not> waiting (pc t)" "restarts (pc t) = []" "\<not> waiting p"
    and "mset qs = mset qs' + mset (restarts p)"
  shows "balanced N restarts waiting qs' (pc(t := p)) resume"
  by (rule balanced_move [OF assms(1,2)]) (use assms(3-6) in auto)

lemma restarts_one:
  assumes "balanced N restarts waiting qs pc resume" "t < N" "restarts (pc t) = th # restarts p" "\<not> waiting p"
  shows "balanced N restarts waiting qs (pc(t := p)) (restart th resume)"
proof -
  have "\<not> waiting (pc t)" using waiting_restarts [of "pc t"] assms(3) by auto
  then show ?thesis by (intro balanced_move [OF assms(1,2)]) (use assms(3,4) in \<open>auto simp: restart_def\<close>)
qed

lemma goes_on:
  assumes "balanced N restarts waiting qs pc resume" "t < N" "waiting (pc t)" "suspend t resume = Some resume'"
    and "\<not> waiting p" "restarts p = []"
  shows "balanced N restarts waiting qs (pc(t := p)) resume'"
  by (rule balanced_move [OF assms(1,2)])
    (use assms(3-6) waiting_restarts [OF assms(3)] in \<open>auto simp: suspend_def split: if_splits\<close>)

lemma leaves_queue:
  assumes "balanced N restarts waiting qs pc resume" "t < N" "waiting (pc t)" "mset qs = add_mset t (mset qs')"
    and "\<not> waiting p" "restarts p = []"
  shows "balanced N restarts waiting qs' (pc(t := p)) resume"
  by (rule balanced_move [OF assms(1,2)]) (use assms(3-6) waiting_restarts [OF assms(3)] in auto)

lemma stays:
  assumes "balanced N restarts waiting qs pc resume" "t < N" "waiting p = waiting (pc t)" "restarts p = restarts (pc t)"
  shows "balanced N restarts waiting qs (pc(t := p)) resume"
  by (rule balanced_move [OF assms(1,2)]) (use assms(3,4) in auto)

text \<open>When nobody has a restart to make, a waiting thread that cannot go on is in a queue.\<close>

lemma asleep:
  assumes "balanced N restarts waiting qs pc resume" "\<And>u. u < N \<Longrightarrow> restarts (pc u) = []"
    and "waiting (pc x)" "suspend x resume = None"
  shows "x \<in> set qs"
  by (rule balanced_asleep [OF assms(1-3)]) (use assms(4) in \<open>auto simp: suspend_def split: if_splits\<close>)

end

end
