(* ===== verification/Rwlock.thy ===== *)
theory Rwlock
  imports Waitq
begin

text \<open>
  Read-write locks of LinuxThreads (\<open>libpthread/linuxthreads/rwlock.c\<close>) as a system of threads.

  The state of the system has the lock, for every thread its place in the operation it is in, its resume count, its
  list of read locks and the result of its last operation, and the multisets \<open>readers_held\<close> and \<open>writers_held\<close> of the
  threads that hold read locks and write locks, which the code does not store and the operations do not touch: the
  step relation keeps them from what a caller sees. A thread holds a lock from the return of 0 by a lock operation
  until it calls \<open>pthread_rwlock_unlock\<close> and that does not return an error. A step is one thread that
  runs up to the next call of \<open>__pthread_lock\<close>, \<open>suspend\<close> or \<open>restart\<close>; what a thread does to its own list is part of the
  step before or after.
\<close>

section \<open>The lock and the lists of read locks\<close>

datatype rw_kind = PREFER_READER | PREFER_WRITER | PREFER_WRITER_NONRECURSIVE

record rwlock =
  rw_readers :: nat
  rw_writer :: "tid option"
  rw_read_waiting :: "tid list"
  rw_write_waiting :: "tid list"
  rw_kind :: rw_kind

text \<open>The fields of a thread descriptor: the read locks with their counts, by the address of the lock, the number of free
  entries, and the number of locks that are in no list.\<close>

record readlocks =
  p_readlock_list :: "(nat \<times> nat) list"
  p_readlock_free :: nat
  p_untracked_readlock_count :: nat

definition EPERM :: nat where "EPERM = 1"

definition rwlock_is_in_list :: "readlocks \<Rightarrow> nat \<Rightarrow> bool" where
  "rwlock_is_in_list self rwlock \<longleftrightarrow> list_ex (\<lambda>info. fst info = rwlock) (p_readlock_list self)"

text \<open>\<open>mem\<close> says if \<open>malloc\<close> succeeds.\<close>

definition rwlock_add_to_list :: "bool \<Rightarrow> readlocks \<Rightarrow> nat \<Rightarrow> readlocks option" where
  "rwlock_add_to_list mem self rwlock =
     (if p_readlock_free self > 0 then
        Some (self\<lparr>p_readlock_free := p_readlock_free self - 1, p_readlock_list := (rwlock, 1) # p_readlock_list self\<rparr>)
      else if mem then Some (self\<lparr>p_readlock_list := (rwlock, 1) # p_readlock_list self\<rparr>)
      else None)"

text \<open>The new list, with the count of the entry that was found.\<close>

fun remove_info :: "(nat \<times> nat) list \<Rightarrow> nat \<Rightarrow> (nat \<times> (nat \<times> nat) list) option" where
  "remove_info [] rwlock = None"
| "remove_info ((k, c) # infos) rwlock =
     (if k = rwlock then Some (c - 1, if c - 1 = 0 then infos else (k, c - 1) # infos)
      else map_option (\<lambda>(n, r). (n, (k, c) # r)) (remove_info infos rwlock))"

definition rwlock_remove_from_list :: "readlocks \<Rightarrow> nat \<Rightarrow> (nat \<times> readlocks) option" where
  "rwlock_remove_from_list self rwlock =
     map_option (\<lambda>(n, r). (n, self\<lparr>p_readlock_list := r\<rparr>)) (remove_info (p_readlock_list self) rwlock)"

definition rwlock_can_rdlock :: "rwlock \<Rightarrow> bool \<Rightarrow> bool" where
  "rwlock_can_rdlock rwlock have_lock_already =
     (if rw_writer rwlock \<noteq> None then False
      else if rw_kind rwlock = PREFER_READER then True
      else if queue_is_empty (rw_write_waiting rwlock) then True
      else have_lock_already)"

text \<open>\<open>have_lock_already\<close>, if an entry exists, \<open>out_of_mem\<close>, and the lists of the thread.\<close>

definition rwlock_have_already :: "bool \<Rightarrow> rw_kind \<Rightarrow> readlocks \<Rightarrow> nat \<Rightarrow> (bool \<times> bool \<times> bool) \<times> readlocks" where
  "rwlock_have_already mem kind self rwlock =
     (if kind = PREFER_WRITER then
        (if rwlock_is_in_list self rwlock then ((True, True, False), self)
         else if p_untracked_readlock_count self > 0 then ((True, False, False), self)
         else (case rwlock_add_to_list mem self rwlock of
                 None \<Rightarrow> ((False, False, True), self)
               | Some self' \<Rightarrow> ((False, True, False), self')))
      else ((False, False, False), self))"

fun bump_info :: "(nat \<times> nat) list \<Rightarrow> nat \<Rightarrow> (nat \<times> nat) list" where
  "bump_info [] rwlock = []"
| "bump_info ((k, c) # infos) rwlock = (if k = rwlock then (k, c + 1) # infos else (k, c) # bump_info infos rwlock)"

text \<open>What a thread does to its lists after it got a read lock, and after it gave one back.\<close>

definition rd_fixup :: "bool \<times> bool \<times> bool \<Rightarrow> readlocks \<Rightarrow> nat \<Rightarrow> readlocks" where
  "rd_fixup a self rwlock =
     (case a of (have_lock_already, existing, out_of_mem) \<Rightarrow>
        if have_lock_already \<or> out_of_mem then
          (if existing then self\<lparr>p_readlock_list := bump_info (p_readlock_list self) rwlock\<rparr>
           else self\<lparr>p_untracked_readlock_count := p_untracked_readlock_count self + 1\<rparr>)
        else self)"

definition unlock_fixup :: "rw_kind \<Rightarrow> readlocks \<Rightarrow> nat \<Rightarrow> readlocks" where
  "unlock_fixup kind self rwlock =
     (if kind = PREFER_WRITER then
        (case rwlock_remove_from_list self rwlock of
           Some (n, self') \<Rightarrow> if n = 0 then self'\<lparr>p_readlock_free := p_readlock_free self' + 1\<rparr> else self'
         | None \<Rightarrow> self\<lparr>p_untracked_readlock_count := p_untracked_readlock_count self - 1\<rparr>)
      else self)"

definition rwlock_init :: "rw_kind option \<Rightarrow> rwlock" where
  "rwlock_init attr = \<lparr>rw_readers = 0, rw_writer = None, rw_read_waiting = [], rw_write_waiting = [],
     rw_kind = (case attr of None \<Rightarrow> PREFER_WRITER | Some k \<Rightarrow> k)\<rparr>"

definition rwlock_destroy :: "rwlock \<Rightarrow> nat" where
  "rwlock_destroy rwlock = (if rw_readers rwlock > 0 \<or> rw_writer rwlock \<noteq> None then EBUSY else 0)"

section \<open>The system\<close>

text \<open>The places where a thread can be: before \<open>__pthread_lock\<close> in the loop, in \<open>suspend\<close> or \<open>timedsuspend\<close>, behind a
  \<open>timedsuspend\<close> that has timed out, in the \<open>suspend\<close> after that, and before the calls of \<open>restart\<close> of an unlock, which
  has released a read lock if the flag is set. The first argument of the places of a lock operation is true for
  the timed versions.\<close>

datatype rw_pc =
    Idle
  | Rd_loop bool "bool \<times> bool \<times> bool"
  | Rd_suspended bool "bool \<times> bool \<times> bool"
  | Rd_expired "bool \<times> bool \<times> bool"
  | Rd_eat "bool \<times> bool \<times> bool"
  | Wr_loop bool
  | Wr_suspended bool
  | Wr_expired
  | Wr_eat
  | Restarting "tid list" bool

record rw_sys =
  rw :: rwlock
  rw_at :: "tid \<Rightarrow> rw_pc"
  resume :: "tid \<Rightarrow> nat"
  locks_of :: "tid \<Rightarrow> readlocks"
  ret :: "tid \<Rightarrow> nat"
  readers_held :: "tid multiset"
  writers_held :: "tid multiset"

datatype rw_op = Rdlock | Wrlock | Timedrdlock bool | Timedwrlock bool | Tryrdlock | Trywrlock | Unlock | Destroy

definition RWLOCK :: nat where "RWLOCK = 0"

definition go :: "tid \<Rightarrow> rw_pc \<Rightarrow> rw_sys \<Rightarrow> rw_sys" where
  "go t p s = s\<lparr>rw_at := (rw_at s)(t := p)\<rparr>"

definition return :: "tid \<Rightarrow> nat \<Rightarrow> rw_sys \<Rightarrow> rw_sys" where
  "return t r s = (go t Idle s)\<lparr>ret := (ret s)(t := r)\<rparr>"

definition rd_grant :: "tid \<Rightarrow> bool \<times> bool \<times> bool \<Rightarrow> rw_sys \<Rightarrow> rw_sys" where
  "rd_grant t a s = s\<lparr>rw := (rw s)\<lparr>rw_readers := rw_readers (rw s) + 1\<rparr>,
     locks_of := (locks_of s)(t := rd_fixup a (locks_of s t) RWLOCK)\<rparr>"

definition rd_attempt :: "(tid \<Rightarrow> int) \<Rightarrow> tid \<Rightarrow> bool \<Rightarrow> bool \<times> bool \<times> bool \<Rightarrow> rw_sys \<Rightarrow> rw_sys" where
  "rd_attempt prio t timed a s =
     (if rwlock_can_rdlock (rw s) (fst a) then return t 0 (rd_grant t a s)
      else go t (Rd_suspended timed a) (s\<lparr>rw := (rw s)\<lparr>rw_read_waiting := enqueue prio (rw_read_waiting (rw s)) t\<rparr>\<rparr>))"

definition wr_free :: "rwlock \<Rightarrow> bool" where
  "wr_free rwlock \<longleftrightarrow> rw_readers rwlock = 0 \<and> rw_writer rwlock = None"

definition wr_attempt :: "(tid \<Rightarrow> int) \<Rightarrow> tid \<Rightarrow> bool \<Rightarrow> rw_sys \<Rightarrow> rw_sys" where
  "wr_attempt prio t timed s =
     (if wr_free (rw s) then return t 0 (s\<lparr>rw := (rw s)\<lparr>rw_writer := Some t\<rparr>\<rparr>)
      else go t (Wr_suspended timed) (s\<lparr>rw := (rw s)\<lparr>rw_write_waiting := enqueue prio (rw_write_waiting (rw s)) t\<rparr>\<rparr>))"

definition rd_extricate :: "tid \<Rightarrow> bool \<times> bool \<times> bool \<Rightarrow> rw_sys \<Rightarrow> rw_sys" where
  "rd_extricate t a s =
     (case remove_from_queue (rw_read_waiting (rw s)) t of
        (was_on_queue, q) \<Rightarrow>
          (let s1 = s\<lparr>rw := (rw s)\<lparr>rw_read_waiting := q\<rparr>\<rparr>
           in if was_on_queue then return t ETIMEDOUT s1 else go t (Rd_eat a) s1))"

definition wr_extricate :: "tid \<Rightarrow> rw_sys \<Rightarrow> rw_sys" where
  "wr_extricate t s =
     (case remove_from_queue (rw_write_waiting (rw s)) t of
        (was_on_queue, q) \<Rightarrow>
          (let s1 = s\<lparr>rw := (rw s)\<lparr>rw_write_waiting := q\<rparr>\<rparr>
           in if was_on_queue then return t ETIMEDOUT s1 else go t Wr_eat s1))"

text \<open>A suspended thread at \<open>t\<close> goes on at \<open>p\<close> if it has been restarted; \<open>timedsuspend\<close> may also give up, at \<open>e\<close>.\<close>

definition resumed :: "tid \<Rightarrow> rw_pc \<Rightarrow> rw_pc option \<Rightarrow> rw_sys \<Rightarrow> rw_sys option" where
  "resumed t p e s =
     (case suspend t (resume s) of
        Some r \<Rightarrow> Some (go t p (s\<lparr>resume := r\<rparr>))
      | None \<Rightarrow> map_option (\<lambda>q. go t q s) e)"

text \<open>The next step of a thread that is in an operation; \<open>expire\<close> says that a timeout is over. \<open>None\<close> while the thread
  has to wait, or when it is in no operation.\<close>

definition rw_advance :: "(tid \<Rightarrow> int) \<Rightarrow> bool \<Rightarrow> tid \<Rightarrow> rw_sys \<Rightarrow> rw_sys option" where
  "rw_advance prio expire t s =
     (case rw_at s t of
        Idle \<Rightarrow> None
      | Rd_loop timed a \<Rightarrow> Some (rd_attempt prio t timed a s)
      | Rd_suspended timed a \<Rightarrow> resumed t (Rd_loop timed a) (if timed \<and> expire then Some (Rd_expired a) else None) s
      | Rd_expired a \<Rightarrow> Some (rd_extricate t a s)
      | Rd_eat a \<Rightarrow> resumed t (Rd_loop True a) None s
      | Wr_loop timed \<Rightarrow> Some (wr_attempt prio t timed s)
      | Wr_suspended timed \<Rightarrow> resumed t (Wr_loop timed) (if timed \<and> expire then Some Wr_expired else None) s
      | Wr_expired \<Rightarrow> Some (wr_extricate t s)
      | Wr_eat \<Rightarrow> resumed t (Wr_loop True) None s
      | Restarting (th # ths) rd \<Rightarrow> Some (go t (Restarting ths rd) (s\<lparr>resume := restart th (resume s)\<rparr>))
      | Restarting [] rd \<Rightarrow>
          Some (return t 0 (if rd then s\<lparr>locks_of := (locks_of s)(t := unlock_fixup (rw_kind (rw s)) (locks_of s t) RWLOCK)\<rparr>
                            else s)))"

definition rd_enter :: "bool \<Rightarrow> tid \<Rightarrow> rw_sys \<Rightarrow> (bool \<times> bool \<times> bool) \<times> rw_sys" where
  "rd_enter mem t s =
     (case rwlock_have_already mem (rw_kind (rw s)) (locks_of s t) RWLOCK of
        (a, self) \<Rightarrow> (a, s\<lparr>locks_of := (locks_of s)(t := self)\<rparr>))"

definition tryrdlock :: "bool \<Rightarrow> tid \<Rightarrow> rw_sys \<Rightarrow> rw_sys" where
  "tryrdlock mem t s =
     (case rd_enter mem t s of
        (a, s1) \<Rightarrow> if rwlock_can_rdlock (rw s1) False then return t 0 (rd_grant t a s1) else return t EBUSY s1)"

definition trywrlock :: "tid \<Rightarrow> rw_sys \<Rightarrow> rw_sys" where
  "trywrlock t s =
     (if wr_free (rw s) then return t 0 (s\<lparr>rw := (rw s)\<lparr>rw_writer := Some t\<rparr>\<rparr>) else return t EBUSY s)"

definition unlock_write :: "tid \<Rightarrow> rw_sys \<Rightarrow> rw_sys" where
  "unlock_write t s =
     (let l = (rw s)\<lparr>rw_writer := None\<rparr>;
          readers = (l\<lparr>rw_read_waiting := []\<rparr>, rw_read_waiting l)
      in if rw_kind l = PREFER_READER \<and> \<not> queue_is_empty (rw_read_waiting l) then
           go t (Restarting (snd readers) False) (s\<lparr>rw := fst readers\<rparr>)
         else (case dequeue (rw_write_waiting l) of
                 (None, _) \<Rightarrow> go t (Restarting (snd readers) False) (s\<lparr>rw := fst readers\<rparr>)
               | (Some th, q) \<Rightarrow> go t (Restarting [th] False) (s\<lparr>rw := l\<lparr>rw_write_waiting := q\<rparr>\<rparr>)))"

definition unlock_read :: "tid \<Rightarrow> rw_sys \<Rightarrow> rw_sys" where
  "unlock_read t s =
     (let l = (rw s)\<lparr>rw_readers := rw_readers (rw s) - 1\<rparr>
      in if rw_readers l = 0 then
           (case dequeue (rw_write_waiting l) of
              (None, q) \<Rightarrow> go t (Restarting [] True) (s\<lparr>rw := l\<lparr>rw_write_waiting := q\<rparr>\<rparr>)
            | (Some th, q) \<Rightarrow> go t (Restarting [th] True) (s\<lparr>rw := l\<lparr>rw_write_waiting := q\<rparr>\<rparr>))
         else go t (Restarting [] True) (s\<lparr>rw := l\<rparr>))"

definition unlock :: "tid \<Rightarrow> rw_sys \<Rightarrow> rw_sys" where
  "unlock t s =
     (case rw_writer (rw s) of
        Some w \<Rightarrow> if w \<noteq> t then return t EPERM s else unlock_write t s
      | None \<Rightarrow> if rw_readers (rw s) = 0 then return t EPERM s else unlock_read t s)"

text \<open>A call of an operation; \<open>mem\<close> says if \<open>malloc\<close> succeeds in it, the argument of the timed operations if the time is
  valid.\<close>

definition rw_call :: "bool \<Rightarrow> tid \<Rightarrow> rw_op \<Rightarrow> rw_sys \<Rightarrow> rw_sys" where
  "rw_call mem t c s =
     (case c of
        Rdlock \<Rightarrow> (case rd_enter mem t s of (a, s1) \<Rightarrow> go t (Rd_loop False a) s1)
      | Wrlock \<Rightarrow> go t (Wr_loop False) s
      | Timedrdlock valid \<Rightarrow>
          if valid then (case rd_enter mem t s of (a, s1) \<Rightarrow> go t (Rd_loop True a) s1) else return t EINVAL s
      | Timedwrlock valid \<Rightarrow> if valid then go t (Wr_loop True) s else return t EINVAL s
      | Tryrdlock \<Rightarrow> tryrdlock mem t s
      | Trywrlock \<Rightarrow> trywrlock t s
      | Unlock \<Rightarrow> unlock t s
      | Destroy \<Rightarrow> return t (rwlock_destroy (rw s)) s)"

text \<open>A thread that holds no lock does not unlock while others hold read locks: the code would give back one of theirs.\<close>

definition may_call :: "tid \<Rightarrow> rw_op \<Rightarrow> rw_sys \<Rightarrow> bool" where
  "may_call t c s \<longleftrightarrow> rw_at s t = Idle \<and>
     (c = Unlock \<longrightarrow> writers_held s \<noteq> {#} \<or> readers_held s = {#} \<or> t \<in># readers_held s)"

definition timed_op :: "rw_op \<Rightarrow> bool" where
  "timed_op c \<longleftrightarrow> (case c of Timedrdlock _ \<Rightarrow> True | Timedwrlock _ \<Rightarrow> True | _ \<Rightarrow> False)"

text \<open>The locks that are held, from the calls and their results.\<close>

fun rd_op :: "rw_op \<Rightarrow> bool" where
  "rd_op Rdlock = True"
| "rd_op (Timedrdlock valid) = True"
| "rd_op Tryrdlock = True"
| "rd_op c = False"

fun wr_op :: "rw_op \<Rightarrow> bool" where
  "wr_op Wrlock = True"
| "wr_op (Timedwrlock valid) = True"
| "wr_op Trywrlock = True"
| "wr_op c = False"

fun in_rd :: "rw_pc \<Rightarrow> bool" where
  "in_rd (Rd_loop timed a) = True"
| "in_rd (Rd_suspended timed a) = True"
| "in_rd (Rd_expired a) = True"
| "in_rd (Rd_eat a) = True"
| "in_rd p = False"

fun in_wr :: "rw_pc \<Rightarrow> bool" where
  "in_wr (Wr_loop timed) = True"
| "in_wr (Wr_suspended timed) = True"
| "in_wr Wr_expired = True"
| "in_wr Wr_eat = True"
| "in_wr p = False"

definition granted :: "tid \<Rightarrow> rw_sys \<Rightarrow> bool" where
  "granted t s \<longleftrightarrow> rw_at s t = Idle \<and> ret s t = 0"

definition note_lock :: "tid \<Rightarrow> bool \<Rightarrow> bool \<Rightarrow> rw_sys \<Rightarrow> rw_sys" where
  "note_lock t rd wr s =
     (if granted t s then
        s\<lparr>readers_held := (if rd then add_mset t (readers_held s) else readers_held s),
          writers_held := (if wr then add_mset t (writers_held s) else writers_held s)\<rparr>
      else s)"

definition note_unlock :: "tid \<Rightarrow> rw_sys \<Rightarrow> rw_sys" where
  "note_unlock t s =
     (if rw_at s t = Idle \<and> ret s t \<noteq> 0 then s
      else if t \<in># writers_held s then s\<lparr>writers_held := writers_held s - {#t#}\<rparr>
      else s\<lparr>readers_held := readers_held s - {#t#}\<rparr>)"

definition note_call :: "tid \<Rightarrow> rw_op \<Rightarrow> rw_sys \<Rightarrow> rw_sys" where
  "note_call t c s = (if c = Unlock then note_unlock t s else note_lock t (rd_op c) (wr_op c) s)"

definition note_run :: "tid \<Rightarrow> rw_pc \<Rightarrow> rw_sys \<Rightarrow> rw_sys" where
  "note_run t p s = note_lock t (in_rd p) (in_wr p) s"

inductive rw_step :: "nat \<Rightarrow> (tid \<Rightarrow> int) \<Rightarrow> bool \<Rightarrow> rw_sys \<Rightarrow> rw_sys \<Rightarrow> bool" for N prio timed where
  rw_calls: "t < N \<Longrightarrow> may_call t c s \<Longrightarrow> timed_op c \<longrightarrow> timed \<Longrightarrow> 
    rw_step N prio timed s (note_call t c (rw_call mem t c s))"
| rw_runs: "t < N \<Longrightarrow> rw_advance prio expire t s = Some s' \<Longrightarrow>
    rw_step N prio timed s (note_run t (rw_at s t) s')"

definition rw_start :: "rw_kind \<Rightarrow> rw_sys" where
  "rw_start kind = \<lparr>rw = rwlock_init (Some kind), rw_at = (\<lambda>_. Idle), resume = (\<lambda>_. 0),
     locks_of = (\<lambda>_. \<lparr>p_readlock_list = [], p_readlock_free = 0, p_untracked_readlock_count = 0\<rparr>), ret = (\<lambda>_. 0), readers_held = {#},
     writers_held = {#}\<rparr>"

inductive rw_reachable :: "nat \<Rightarrow> (tid \<Rightarrow> int) \<Rightarrow> bool \<Rightarrow> rw_kind \<Rightarrow> rw_sys \<Rightarrow> bool" for N prio timed kind where
  rw_initial: "rw_reachable N prio timed kind (rw_start kind)"
| rw_further: "rw_reachable N prio timed kind s \<Longrightarrow> rw_step N prio timed s s' \<Longrightarrow> rw_reachable N prio timed kind s'"

end
