(* ===== verification/Rwlock_Proofs.thy ===== *)
theory Rwlock_Proofs
  imports Rwlock
begin

text \<open>
  Read-write locks: the proofs. Two invariants over all interleavings: exclusion with the accounting of restarts, which holds
  with and without timed operations, and that no wakeup is lost, which holds without them; and two runs in which the code
  does not do what it should.
\<close>

section \<open>Invariants\<close>

fun restarts :: "rw_pc \<Rightarrow> tid list" where
  "restarts (Restarting ths rd) = ths"
| "restarts p = []"

fun waiting :: "rw_pc \<Rightarrow> bool" where
  "waiting Idle = False"
| "waiting (Rd_loop timed a) = False"
| "waiting (Wr_loop timed) = False"
| "waiting (Restarting ths rd) = False"
| "waiting p = True"

interpretation rw_places: wait_places restarts waiting
proof
  fix p assume "waiting p"
  then show "restarts p = []" by (cases p) auto
qed

fun queued_rd :: "rw_pc \<Rightarrow> bool" where
  "queued_rd (Rd_suspended timed a) = True"
| "queued_rd (Rd_expired a) = True"
| "queued_rd p = False"

fun queued_wr :: "rw_pc \<Rightarrow> bool" where
  "queued_wr (Wr_suspended timed) = True"
| "queued_wr Wr_expired = True"
| "queued_wr p = False"

abbreviation read_queue :: "rw_sys \<Rightarrow> tid list" where
  "read_queue s \<equiv> rw_read_waiting (rw s)"

abbreviation write_queue :: "rw_sys \<Rightarrow> tid list" where
  "write_queue s \<equiv> rw_write_waiting (rw s)"

text \<open>The lock says how many read locks \<open>R\<close> and which write locks \<open>W\<close> are held.\<close>

definition excl :: "tid multiset \<Rightarrow> tid multiset \<Rightarrow> rw_sys \<Rightarrow> bool" where
  "excl R W s \<longleftrightarrow> rw_readers (rw s) = size R \<and> W = (case rw_writer (rw s) of None \<Rightarrow> {#} | Some w \<Rightarrow> {#w#}) \<and> (rw_writer (rw s) = None \<or> R = {#})"

definition rw_inv :: "nat \<Rightarrow> tid multiset \<Rightarrow> tid multiset \<Rightarrow> rw_sys \<Rightarrow> bool" where
  "rw_inv N R W s \<longleftrightarrow> excl R W s \<and> balanced N restarts waiting (read_queue s @ write_queue s) (rw_at s) (resume s) \<and>
     (\<forall>x \<in> set (read_queue s). queued_rd (rw_at s x)) \<and> (\<forall>x \<in> set (write_queue s). queued_wr (rw_at s x))"

lemma queued_waiting: "queued_rd p \<Longrightarrow> waiting p" "queued_wr p \<Longrightarrow> waiting p" "\<not> (queued_rd p \<and> queued_wr p)"
  by (cases p; simp)+

text \<open>How the invariant is kept when the thread \<open>t\<close> moves to \<open>p\<close>.\<close>

lemma rw_inv_move:
  assumes "rw_inv N R W s" "t < N" "rw_at s' = (rw_at s)(t := p)" "excl R' W' s'"
    and "\<And>x. count (mset (read_queue s')) x + count (mset (write_queue s')) x + count (mset (restarts p)) x + resume s' x +
        (if x = t \<and> waiting (rw_at s t) then 1 else 0) =
      count (mset (read_queue s)) x + count (mset (write_queue s)) x + count (mset (restarts (rw_at s t))) x + resume s x +
        (if x = t \<and> waiting p then 1 else 0)"
    and "set (read_queue s') \<subseteq> set (read_queue s) \<union> {t}" "t \<in> set (read_queue s') \<Longrightarrow> queued_rd p"
    and "set (write_queue s') \<subseteq> set (write_queue s) \<union> {t}" "t \<in> set (write_queue s') \<Longrightarrow> queued_wr p"
  shows "rw_inv N R' W' s'"
proof -
  have "balanced N restarts waiting (read_queue s' @ write_queue s') ((rw_at s)(t := p)) (resume s')"
    by (rule balanced_move [of _ _ _ "read_queue s @ write_queue s" _ "resume s"])
      (use assms(1,2,5) in \<open>simp_all add: rw_inv_def add.assoc\<close>)
  then show ?thesis using assms unfolding rw_inv_def by (auto simp del: set_append)
qed

text \<open>A thread that does not wait is in no queue.\<close>

lemma not_queued:
  assumes "rw_inv N R W s" "\<not> waiting (rw_at s t)"
  shows "t \<notin> set (read_queue s)" "t \<notin> set (write_queue s)"
  using assms queued_waiting unfolding rw_inv_def by blast+

lemma queue_counts:
  assumes "rw_inv N R W s"
  shows "t \<in> set (read_queue s) \<Longrightarrow> count (mset (read_queue s)) t = 1 \<and> t \<notin> set (write_queue s) \<and> resume s t = 0"
    "t \<in> set (write_queue s) \<Longrightarrow> count (mset (write_queue s)) t = 1 \<and> t \<notin> set (read_queue s) \<and> resume s t = 0"
proof -
  have b: "balanced N restarts waiting (read_queue s @ write_queue s) (rw_at s) (resume s)" using assms by (simp add: rw_inv_def)
  have d: "distinct (read_queue s)" "distinct (write_queue s)" "set (read_queue s) \<inter> set (write_queue s) = {}"
    using balanced_distinct [OF b] by simp_all
  show "count (mset (read_queue s)) t = 1 \<and> t \<notin> set (write_queue s) \<and> resume s t = 0" if "t \<in> set (read_queue s)"
    using that d(1,3) balanced_queue(2) [OF b, of t] by (auto simp: distinct_count_atmost_1)
  show "count (mset (write_queue s)) t = 1 \<and> t \<notin> set (read_queue s) \<and> resume s t = 0" if "t \<in> set (write_queue s)"
    using that d(2,3) balanced_queue(2) [OF b, of t] by (auto simp: distinct_count_atmost_1)
qed

section \<open>Every step keeps them\<close>

lemmas rw_simps = go_def return_def rd_grant_def

lemma rw_inv_local:
  assumes "rw_inv N R W s" "t < N" "rw_at s' = (rw_at s)(t := p)" "excl R' W' s'"
    and "read_queue s' = read_queue s" "write_queue s' = write_queue s" "resume s' = resume s"
    and "restarts p = restarts (rw_at s t)" "waiting p = waiting (rw_at s t)"
    and "t \<in> set (read_queue s) \<Longrightarrow> queued_rd p" "t \<in> set (write_queue s) \<Longrightarrow> queued_wr p"
  shows "rw_inv N R' W' s'"
  by (rule rw_inv_move [OF assms(1-4)]) (use assms in auto)

lemma rw_inv_excl: "rw_inv N R W s \<Longrightarrow> excl R W s"
  by (simp add: rw_inv_def)

lemma rd_grant_inv:
  assumes "rw_inv N R W s" "t < N" "\<not> waiting (rw_at s t)" "restarts (rw_at s t) = []" "rw_writer (rw s) = None"
  shows "rw_inv N (add_mset t R) W (return t 0 (rd_grant t a s))"
  by (rule rw_inv_local [OF assms(1,2), where p = Idle])
    (simp_all add: rw_simps not_queued [OF assms(1,3)] assms(3-5), use rw_inv_excl [OF assms(1)] assms(5) in \<open>simp add: excl_def\<close>)

lemma rd_attempt_inv:
  assumes "rw_inv N R W s" "t < N" "rw_at s t = Rd_loop timed a"
  shows "rw_inv N (if rwlock_can_rdlock (rw s) (fst a) then add_mset t R else R) W (rd_attempt prio t timed a s)"
proof -
  have nw: "\<not> waiting (rw_at s t)" "restarts (rw_at s t) = []" using assms(3) by simp_all
  note nq = not_queued [OF assms(1) nw(1)]
  show ?thesis
  proof (cases "rwlock_can_rdlock (rw s) (fst a)")
    case True
    then have "rw_writer (rw s) = None" by (auto simp: rwlock_can_rdlock_def split: if_splits)
    then show ?thesis using True rd_grant_inv [OF assms(1,2) nw] by (simp add: rd_attempt_def)
  next
    case False
    show ?thesis
      by (rule rw_inv_move [OF assms(1,2), where p = "Rd_suspended timed a"])
        (simp_all add: rd_attempt_def False rw_simps nq nw, use rw_inv_excl [OF assms(1)] in \<open>auto simp: excl_def\<close>)
  qed
qed

lemma wr_grant_inv:
  assumes "rw_inv N R W s" "t < N" "\<not> waiting (rw_at s t)" "restarts (rw_at s t) = []" "wr_free (rw s)"
  shows "rw_inv N R (add_mset t W) (return t 0 (s\<lparr>rw := (rw s)\<lparr>rw_writer := Some t\<rparr>\<rparr>))"
  by (rule rw_inv_local [OF assms(1,2), where p = Idle])
    (simp_all add: rw_simps not_queued [OF assms(1,3)] assms(3,4), use rw_inv_excl [OF assms(1)] assms(5) in \<open>simp add: excl_def wr_free_def\<close>)

lemma wr_attempt_inv:
  assumes "rw_inv N R W s" "t < N" "rw_at s t = Wr_loop timed"
  shows "rw_inv N R (if wr_free (rw s) then add_mset t W else W) (wr_attempt prio t timed s)"
proof -
  have nw: "\<not> waiting (rw_at s t)" "restarts (rw_at s t) = []" using assms(3) by simp_all
  note nq = not_queued [OF assms(1) nw(1)]
  show ?thesis
  proof (cases "wr_free (rw s)")
    case True
    then show ?thesis using wr_grant_inv [OF assms(1,2) nw] by (simp add: wr_attempt_def)
  next
    case False
    show ?thesis
      by (rule rw_inv_move [OF assms(1,2), where p = "Wr_suspended timed"])
        (simp_all add: wr_attempt_def False rw_simps nq nw, use rw_inv_excl [OF assms(1)] in \<open>auto simp: excl_def\<close>)
  qed
qed

lemma resumed_inv:
  assumes "rw_inv N R W s" "t < N" "waiting (rw_at s t)" "\<not> waiting p" "restarts p = []" "restarts (rw_at s t) = []"
    and "\<And>q. e = Some q \<Longrightarrow> restarts q = [] \<and> waiting q \<and> (queued_rd (rw_at s t) \<longrightarrow> queued_rd q) \<and> (queued_wr (rw_at s t) \<longrightarrow> queued_wr q)"
    and "resumed t p e s = Some s'"
  shows "rw_inv N R W s'"
proof (cases "resume s t = 0")
  case True
  then obtain q where q: "e = Some q" "s' = go t q s" using assms(8) by (auto simp: resumed_def suspend_def)
  have "t \<in> set (read_queue s) \<Longrightarrow> queued_rd q" "t \<in> set (write_queue s) \<Longrightarrow> queued_wr q"
    using assms(1) assms(7) [OF q(1)] by (simp_all add: rw_inv_def)
  then show ?thesis
    unfolding q(2) by (intro rw_inv_local [OF assms(1,2), where p = q])
      (simp_all add: rw_simps assms(3,6) assms(7) [OF q(1)], use rw_inv_excl [OF assms(1)] in \<open>simp add: excl_def\<close>)
next
  case False
  then have s': "s' = go t p (s\<lparr>resume := (resume s)(t := resume s t - 1)\<rparr>)"
    using assms(8) by (simp add: resumed_def suspend_def)
  have nq: "t \<notin> set (read_queue s)" "t \<notin> set (write_queue s)" using queue_counts [OF assms(1), of t] False by auto
  show ?thesis unfolding s'
    by (rule rw_inv_move [OF assms(1,2), where p = p])
      (use False in \<open>simp_all add: rw_simps nq assms(3-6)\<close>, use rw_inv_excl [OF assms(1)] in \<open>auto simp: excl_def\<close>)
qed

lemma rd_extricate_inv:
  assumes "rw_inv N R W s" "t < N" "rw_at s t = Rd_expired a"
  shows "rw_inv N R W (rd_extricate t a s)"
proof -
  obtain b q where r: "remove_from_queue (read_queue s) t = (b, q)" by (cases "remove_from_queue (read_queue s) t")
  note rc = remove_queue_facts [OF r]
  have ex: "excl R W s" by (rule rw_inv_excl [OF assms(1)])
  have nw: "t \<notin> set (write_queue s)" using assms(1,3) unfolding rw_inv_def by force
  show ?thesis
  proof (cases b)
    case True
    then have "t \<in> set (read_queue s)" using rc(1) by simp
    then have one: "count (mset (read_queue s)) t = 1" using queue_counts(1) [OF assms(1)] by blast
    have "count (mset q) t = 0" using rc(5) [OF True, of t] one by simp
    then have tq: "t \<notin> set q" by simp
    show ?thesis
      by (rule rw_inv_move [OF assms(1,2), where p = Idle])
        (use True tq nw rc(2) rc(5) [OF True] ex in \<open>auto simp: rd_extricate_def r rw_simps assms(3) excl_def\<close>)
  next
    case False
    then have tq: "t \<notin> set (read_queue s)" "q = read_queue s" using rc(1,3) by simp_all
    show ?thesis
      by (rule rw_inv_local [OF assms(1,2), where p = "Rd_eat a"])
        (use False tq nw ex in \<open>auto simp: rd_extricate_def r rw_simps assms(3) excl_def\<close>)
  qed
qed

lemma wr_extricate_inv:
  assumes "rw_inv N R W s" "t < N" "rw_at s t = Wr_expired"
  shows "rw_inv N R W (wr_extricate t s)"
proof -
  obtain b q where r: "remove_from_queue (write_queue s) t = (b, q)" by (cases "remove_from_queue (write_queue s) t")
  note rc = remove_queue_facts [OF r]
  have ex: "excl R W s" by (rule rw_inv_excl [OF assms(1)])
  have nr: "t \<notin> set (read_queue s)" using assms(1,3) unfolding rw_inv_def by force
  show ?thesis
  proof (cases b)
    case True
    then have "t \<in> set (write_queue s)" using rc(1) by simp
    then have one: "count (mset (write_queue s)) t = 1" using queue_counts(2) [OF assms(1)] by blast
    have "count (mset q) t = 0" using rc(5) [OF True, of t] one by simp
    then have tq: "t \<notin> set q" by simp
    show ?thesis
      by (rule rw_inv_move [OF assms(1,2), where p = Idle])
        (use True tq nr rc(2) rc(5) [OF True] ex in \<open>auto simp: wr_extricate_def r rw_simps assms(3) excl_def\<close>)
  next
    case False
    then have tq: "t \<notin> set (write_queue s)" "q = write_queue s" using rc(1,3) by simp_all
    show ?thesis
      by (rule rw_inv_local [OF assms(1,2), where p = Wr_eat])
        (use False tq nr ex in \<open>auto simp: wr_extricate_def r rw_simps assms(3) excl_def\<close>)
  qed
qed

lemma restarting_inv:
  assumes "rw_inv N R W s" "t < N" "rw_at s t = Restarting (th # ths) rd"
  shows "rw_inv N R W (go t (Restarting ths rd) (s\<lparr>resume := restart th (resume s)\<rparr>))"
proof -
  have "\<not> waiting (rw_at s t)" using assms(3) by simp
  note nq = not_queued [OF assms(1) this]
  show ?thesis
    by (rule rw_inv_move [OF assms(1,2), where p = "Restarting ths rd"])
      (simp_all add: rw_simps nq assms(3) restart_def subset_insertI, use rw_inv_excl [OF assms(1)] in \<open>simp add: excl_def\<close>)
qed

lemma rw_inv_finish:
  assumes "rw_inv N R W s" "t < N" "\<not> waiting (rw_at s t)" "restarts (rw_at s t) = []" "\<not> waiting p" "restarts p = []"
    and "rw s' = rw s" "resume s' = resume s" "rw_at s' = (rw_at s)(t := p)"
  shows "rw_inv N R W s'"
  by (rule rw_inv_local [OF assms(1,2,9)])
    (simp_all add: assms(3-8) not_queued [OF assms(1,3)], use rw_inv_excl [OF assms(1)] assms(7) in \<open>simp add: excl_def\<close>)

text \<open>The invariant with the locks that are held.\<close>

definition rw_ok :: "nat \<Rightarrow> rw_sys \<Rightarrow> bool" where
  "rw_ok N s \<longleftrightarrow> rw_inv N (readers_held s) (writers_held s) s"

lemma rw_inv_held [simp]:
  "rw_inv N R W (s\<lparr>readers_held := r, writers_held := w\<rparr>) \<longleftrightarrow> rw_inv N R W s"
  "rw_inv N R W (s\<lparr>readers_held := r\<rparr>) \<longleftrightarrow> rw_inv N R W s" "rw_inv N R W (s\<lparr>writers_held := w\<rparr>) \<longleftrightarrow> rw_inv N R W s"
  by (simp_all add: rw_inv_def excl_def)

lemma note_lock_ok:
  assumes "rw_inv N (if rd \<and> granted t s then add_mset t (readers_held s) else readers_held s)
    (if wr \<and> granted t s then add_mset t (writers_held s) else writers_held s) s"
  shows "rw_ok N (note_lock t rd wr s)"
  using assms by (cases "granted t s") (simp_all add: note_lock_def rw_ok_def)

lemma advance_held:
  "rw_advance prio expire t s = Some s' \<Longrightarrow> readers_held s' = readers_held s \<and> writers_held s' = writers_held s"
  by (auto simp: rw_advance_def rd_attempt_def wr_attempt_def rd_extricate_def wr_extricate_def resumed_def rw_simps Let_def
    split: rw_pc.splits list.splits option.splits if_splits prod.splits)

text \<open>A step inside an operation that does not end it with 0.\<close>

lemma goes_on_ok:
  assumes "rw_inv N (readers_held s) (writers_held s) s'" "rw_advance prio expire t s = Some s'"
    and "\<not> ((in_rd p \<or> in_wr p) \<and> granted t s')"
  shows "rw_ok N (note_run t p s')"
  unfolding note_run_def by (rule note_lock_ok) (use assms(1,3) advance_held [OF assms(2)] in \<open>cases "granted t s'"; simp\<close>)

lemma resumed_place: "resumed t p e s = Some s' \<Longrightarrow> p \<noteq> Idle \<Longrightarrow> e \<noteq> Some Idle \<Longrightarrow> rw_at s' t \<noteq> Idle"
  by (auto simp: resumed_def rw_simps split: option.splits)

lemma rw_advance_inv:
  assumes "rw_ok N s" "t < N" "rw_advance prio expire t s = Some s'"
  shows "rw_ok N (note_run t (rw_at s t) s')"
proof -
  note inv = assms(1) [unfolded rw_ok_def] and held = advance_held [OF assms(3)]
  note goes = goes_on_ok [OF _ assms(3)]
  note res = resumed_inv [OF inv assms(2)]
  show ?thesis
  proof (cases "rw_at s t")
    case (Rd_loop timed a)
    then have s': "s' = rd_attempt prio t timed a s" using assms(3) by (simp add: rw_advance_def)
    then have "granted t s' \<longleftrightarrow> rwlock_can_rdlock (rw s) (fst a)" by (simp add: rd_attempt_def rw_simps granted_def)
    then show ?thesis unfolding note_run_def Rd_loop using rd_attempt_inv [OF inv assms(2) Rd_loop, of prio] held s'
      by (intro note_lock_ok) (simp split: if_splits)
  next
    case (Wr_loop timed)
    then have s': "s' = wr_attempt prio t timed s" using assms(3) by (simp add: rw_advance_def)
    then have "granted t s' \<longleftrightarrow> wr_free (rw s)" by (simp add: wr_attempt_def rw_simps granted_def)
    then show ?thesis unfolding note_run_def Wr_loop using wr_attempt_inv [OF inv assms(2) Wr_loop, of prio] held s'
      by (intro note_lock_ok) (simp split: if_splits)
  next
    case (Rd_suspended timed a)
    then have r: "resumed t (Rd_loop timed a) (if timed \<and> expire then Some (Rd_expired a) else None) s = Some s'"
      using assms(3) by (simp add: rw_advance_def)
    show ?thesis
      by (rule goes, rule res [OF _ _ _ _ _ r]) (use resumed_place [OF r] Rd_suspended in \<open>auto simp: granted_def split: if_splits\<close>)
  next
    case (Rd_eat a)
    then have r: "resumed t (Rd_loop True a) None s = Some s'" using assms(3) by (simp add: rw_advance_def)
    show ?thesis using res [OF _ _ _ _ _ r] resumed_place [OF r] Rd_eat by (intro goes) (auto simp: granted_def)
  next
    case (Wr_suspended timed)
    then have r: "resumed t (Wr_loop timed) (if timed \<and> expire then Some Wr_expired else None) s = Some s'"
      using assms(3) by (simp add: rw_advance_def)
    show ?thesis
      by (rule goes, rule res [OF _ _ _ _ _ r]) (use resumed_place [OF r] Wr_suspended in \<open>auto simp: granted_def split: if_splits\<close>)
  next
    case Wr_eat
    then have r: "resumed t (Wr_loop True) None s = Some s'" using assms(3) by (simp add: rw_advance_def)
    show ?thesis using res [OF _ _ _ _ _ r] resumed_place [OF r] Wr_eat by (intro goes) (auto simp: granted_def)
  next
    case (Rd_expired a)
    then have "s' = rd_extricate t a s" using assms(3) by (simp add: rw_advance_def)
    then show ?thesis using rd_extricate_inv [OF inv assms(2) Rd_expired] unfolding Rd_expired
      by (intro goes) (auto simp: granted_def rd_extricate_def rw_simps Let_def ETIMEDOUT_def split: prod.splits if_splits)
  next
    case Wr_expired
    then have "s' = wr_extricate t s" using assms(3) by (simp add: rw_advance_def)
    then show ?thesis using wr_extricate_inv [OF inv assms(2) Wr_expired] unfolding Wr_expired
      by (intro goes) (auto simp: granted_def wr_extricate_def rw_simps Let_def ETIMEDOUT_def split: prod.splits if_splits)
  next
    case (Restarting ths rd)
    have "rw_inv N (readers_held s) (writers_held s) s'"
    proof (cases ths)
      case Nil
      show ?thesis
        by (rule rw_inv_finish [OF inv assms(2), where p = Idle])
          (use assms(3) Restarting Nil in \<open>auto simp: rw_advance_def rw_simps\<close>)
    next
      case (Cons th ths')
      have "rw_at s t = Restarting (th # ths') rd" using Restarting Cons by simp
      from restarting_inv [OF inv assms(2) this] show ?thesis
        using assms(3) Restarting Cons by (auto simp: rw_advance_def)
    qed
    then show ?thesis using Restarting by (intro goes) simp_all
  qed (use assms in \<open>auto simp: rw_advance_def\<close>)
qed

lemma unlock_write_inv:
  assumes "rw_inv N R W s" "t < N" "rw_at s t = Idle" "rw_writer (rw s) = Some t"
  shows "rw_inv N R (W - {#t#}) (unlock_write t s)"
proof -
  have ex: "rw_readers (rw s) = 0" "R = {#}" "W - {#t#} = {#}"
    using rw_inv_excl [OF assms(1)] assms(4) by (simp_all add: excl_def)
  have "\<not> waiting (rw_at s t)" using assms(3) by simp
  note nq = not_queued [OF assms(1) this]
  let ?l = "(rw s)\<lparr>rw_writer := None\<rparr>"
  have rd: "rw_inv N R (W - {#t#}) (go t (Restarting (read_queue s) False) (s\<lparr>rw := ?l\<lparr>rw_read_waiting := []\<rparr>\<rparr>))"
    by (rule rw_inv_move [OF assms(1,2), where p = "Restarting (read_queue s) False"])
      (simp_all add: rw_simps nq assms(3) excl_def ex subset_insertI)
  have wr: "rw_inv N R (W - {#t#}) (go t (Restarting [th] False) (s\<lparr>rw := ?l\<lparr>rw_write_waiting := q\<rparr>\<rparr>))" if "write_queue s = th # q" for th q
    by (rule rw_inv_move [OF assms(1,2), where p = "Restarting [th] False"])
      (use nq in \<open>auto simp add: rw_simps assms(3) excl_def ex that\<close>)
  show ?thesis
    unfolding unlock_write_def Let_def dequeue_def using rd wr by (auto split: list.split)
qed

lemma unlock_read_inv:
  assumes "rw_inv N R W s" "t < N" "rw_at s t = Idle" "rw_writer (rw s) = None" "t \<in># R"
  shows "rw_inv N (R - {#t#}) W (unlock_read t s)"
proof -
  have ex: "rw_readers (rw s) - 1 = size (R - {#t#})" "W = {#}"
    using rw_inv_excl [OF assms(1)] assms(4,5) by (simp_all add: excl_def size_Diff_singleton)
  have "\<not> waiting (rw_at s t)" using assms(3) by simp
  note nq = not_queued [OF assms(1) this]
  let ?l = "(rw s)\<lparr>rw_readers := rw_readers (rw s) - 1\<rparr>"
  have keep: "rw_inv N (R - {#t#}) W (go t (Restarting [] True) (s\<lparr>rw := ?l\<rparr>))"
    by (rule rw_inv_move [OF assms(1,2), where p = "Restarting [] True"]) (use ex in \<open>auto simp: rw_simps nq assms(3,4) excl_def\<close>)
  have wr: "rw_inv N (R - {#t#}) W (go t (Restarting [th] True) (s\<lparr>rw := ?l\<lparr>rw_write_waiting := q\<rparr>\<rparr>))" if "write_queue s = th # q" for th q
    by (rule rw_inv_move [OF assms(1,2), where p = "Restarting [th] True"])
      (use nq ex in \<open>auto simp add: rw_simps assms(3,4) excl_def that\<close>)
  have none: "rw_inv N (R - {#t#}) W (go t (Restarting [] True) (s\<lparr>rw := ?l\<lparr>rw_write_waiting := []\<rparr>\<rparr>))" if "write_queue s = []"
    by (rule rw_inv_move [OF assms(1,2), where p = "Restarting [] True"])
      (use ex that in \<open>auto simp: rw_simps nq assms(3,4) excl_def\<close>)
  show ?thesis
    unfolding unlock_read_def Let_def dequeue_def using keep wr none by (auto split: list.split)
qed

lemma rd_enter_facts:
  assumes "rd_enter mem t s = (a, s1)"
  shows "rw s1 = rw s" "rw_at s1 = rw_at s" "resume s1 = resume s" "readers_held s1 = readers_held s" "writers_held s1 = writers_held s"
  using assms by (auto simp: rd_enter_def split: prod.splits)

lemma call_held:
  "readers_held (rw_call mem t c s) = readers_held s" "writers_held (rw_call mem t c s) = writers_held s"
proof -
  obtain a s1 where e: "rd_enter mem t s = (a, s1)" by (cases "rd_enter mem t s")
  show "readers_held (rw_call mem t c s) = readers_held s" "writers_held (rw_call mem t c s) = writers_held s"
    using rd_enter_facts [OF e]
    by (cases c; simp add: rw_call_def e tryrdlock_def trywrlock_def unlock_def unlock_read_def unlock_write_def Let_def dequeue_def rw_simps
      split: option.split list.split)+
qed

text \<open>A call that only moves its thread, or returns an error, and changes no lock.\<close>

lemma call_moves:
  assumes "rw_inv N R W s" "t < N" "rw_at s t = Idle" "rd_enter mem t s = (a, s1)" "\<not> waiting p" "restarts p = []"
  shows "rw_inv N R W (go t p s)" "rw_inv N R W (go t p s1)" "rw_inv N R W (return t r s)" "rw_inv N R W (return t r s1)"
proof -
  have nw: "\<not> waiting (rw_at s t)" "restarts (rw_at s t) = []" using assms(3) by simp_all
  note ef = rd_enter_facts [OF assms(4)]
  show "rw_inv N R W (go t p s)" "rw_inv N R W (go t p s1)"
    by (rule rw_inv_finish [OF assms(1,2) nw assms(5,6)], use ef in \<open>simp_all add: rw_simps\<close>)+
  show "rw_inv N R W (return t r s)" "rw_inv N R W (return t r s1)"
    by (rule rw_inv_finish [OF assms(1,2) nw, where p = Idle], use ef in \<open>simp_all add: rw_simps\<close>)+
qed

lemma tryrdlock_inv:
  assumes "rw_inv N R W s" "t < N" "rw_at s t = Idle"
  shows "rw_inv N (if granted t (tryrdlock mem t s) then add_mset t R else R) W (tryrdlock mem t s)"
proof -
  obtain a s1 where e: "rd_enter mem t s = (a, s1)" by (cases "rd_enter mem t s")
  note ef = rd_enter_facts [OF e]
  have i1: "rw_inv N R W s1" using assms(1) ef by (simp add: rw_inv_def excl_def)
  show ?thesis
  proof (cases "rwlock_can_rdlock (rw s1) False")
    case True
    then have "rw_inv N (add_mset t R) W (return t 0 (rd_grant t a s1))"
      by (intro rd_grant_inv [OF i1 assms(2)]) (use assms(3) ef in \<open>auto simp: rwlock_can_rdlock_def split: if_splits\<close>)
    then show ?thesis using True by (simp add: tryrdlock_def e granted_def rw_simps)
  next
    case False
    then show ?thesis using call_moves(4) [OF assms e, of Idle EBUSY] by (simp add: tryrdlock_def e granted_def rw_simps EBUSY_def)
  qed
qed

lemma trywrlock_inv:
  assumes "rw_inv N R W s" "t < N" "rw_at s t = Idle"
  shows "rw_inv N R (if granted t (trywrlock t s) then add_mset t W else W) (trywrlock t s)"
proof (cases "wr_free (rw s)")
  case True
  then show ?thesis using wr_grant_inv [OF assms(1,2)] assms(3) by (simp add: trywrlock_def granted_def rw_simps)
next
  case False
  obtain a s1 where e: "rd_enter True t s = (a, s1)" by (cases "rd_enter True t s")
  show ?thesis using False call_moves(3) [OF assms e, of Idle EBUSY] by (simp add: trywrlock_def granted_def rw_simps EBUSY_def)
qed

lemma unlock_ok:
  assumes "rw_ok N s" "t < N" "may_call t Unlock s"
  shows "rw_ok N (note_unlock t (unlock t s))"
proof -
  note inv = assms(1) [unfolded rw_ok_def]
  note ex = rw_inv_excl [OF inv, unfolded excl_def]
  have idle: "rw_at s t = Idle" using assms(3) by (simp add: may_call_def)
  obtain a s1 where e: "rd_enter True t s = (a, s1)" by (cases "rd_enter True t s")
  have held: "readers_held (unlock t s) = readers_held s" "writers_held (unlock t s) = writers_held s"
    using call_held [of True t Unlock s] by (simp_all add: rw_call_def)
  have refused: "rw_ok N (note_unlock t (unlock t s))" if "unlock t s = return t EPERM s"
    using call_moves(3) [OF inv assms(2) idle e, of Idle EPERM] that by (simp add: note_unlock_def rw_ok_def rw_simps EPERM_def)
  show ?thesis
  proof (cases "rw_writer (rw s)")
    case None
    show ?thesis
    proof (cases "rw_readers (rw s) = 0")
      case False
      then have t: "t \<in># readers_held s" "writers_held s = {#}" using None ex assms(3) by (auto simp: may_call_def)
      have u: "unlock t s = unlock_read t s" using None False by (simp add: unlock_def)
      have "rw_at (unlock t s) t \<noteq> Idle" by (simp add: u unlock_read_def Let_def dequeue_def rw_simps split: list.split)
      then show ?thesis using unlock_read_inv [OF inv assms(2) idle None t(1)] held t(2) u by (simp add: note_unlock_def rw_ok_def)
    qed (use None refused in \<open>simp add: unlock_def\<close>)
  next
    case (Some w)
    show ?thesis
    proof (cases "w = t")
      case True
      then have t: "writers_held s = {#t#}" using Some ex by simp
      have u: "unlock t s = unlock_write t s" using Some True by (simp add: unlock_def)
      have "rw_at (unlock t s) t \<noteq> Idle" by (simp add: u unlock_write_def Let_def dequeue_def rw_simps split: list.split)
      then show ?thesis using unlock_write_inv [OF inv assms(2) idle] Some True held t u by (simp add: note_unlock_def rw_ok_def)
    qed (use Some refused in \<open>simp add: unlock_def\<close>)
  qed
qed

lemma rw_call_inv:
  assumes "rw_ok N s" "t < N" "may_call t c s"
  shows "rw_ok N (note_call t c (rw_call mem t c s))"
proof (cases "c = Unlock")
  case True
  then show ?thesis using unlock_ok [OF assms(1,2)] assms(3) by (simp add: note_call_def rw_call_def)
next
  case False
  note inv = assms(1) [unfolded rw_ok_def]
  have idle: "rw_at s t = Idle" using assms(3) by (simp add: may_call_def)
  obtain a s1 where e: "rd_enter mem t s = (a, s1)" by (cases "rd_enter mem t s")
  note mv = call_moves [OF inv assms(2) idle e]
  have "rw_inv N (if rd_op c \<and> granted t (rw_call mem t c s) then add_mset t (readers_held s) else readers_held s)
      (if wr_op c \<and> granted t (rw_call mem t c s) then add_mset t (writers_held s) else writers_held s) (rw_call mem t c s)"
    using False e mv [of "Rd_loop False a"] mv [of "Rd_loop True a"] mv [of "Wr_loop False"] mv [of "Wr_loop True"]
      tryrdlock_inv [OF inv assms(2) idle, of mem] trywrlock_inv [OF inv assms(2) idle]
    by (cases c) (simp_all add: rw_call_def granted_def rw_simps EINVAL_def)
  then have "rw_ok N (note_lock t (rd_op c) (wr_op c) (rw_call mem t c s))" by (intro note_lock_ok) (simp only: call_held)
  then show ?thesis using False by (simp add: note_call_def)
qed

lemma rw_start_inv: "rw_ok N (rw_start kind)"
  by (simp add: rw_ok_def rw_inv_def rw_start_def rwlock_init_def excl_def balanced_def)

lemma rw_reachable_inv: "rw_reachable N prio timed kind s \<Longrightarrow> rw_ok N s"
proof (induction rule: rw_reachable.induct)
  case rw_initial
  show ?case by (rule rw_start_inv)
next
  case (rw_further s s')
  from rw_further(2,3) show ?case by (cases rule: rw_step.cases) (auto intro: rw_call_inv rw_advance_inv)
qed

section \<open>No wakeup is lost without timeouts\<close>

fun untimed :: "rw_pc \<Rightarrow> bool" where
  "untimed (Rd_loop timed a) = (\<not> timed)"
| "untimed (Rd_suspended timed a) = (\<not> timed)"
| "untimed (Wr_loop timed) = (\<not> timed)"
| "untimed (Wr_suspended timed) = (\<not> timed)"
| "untimed Idle = True"
| "untimed (Restarting ths rd) = True"
| "untimed p = False"

fun wants_rd :: "rw_pc \<Rightarrow> bool \<Rightarrow> bool" where
  "wants_rd (Rd_loop timed a) q = True"
| "wants_rd (Rd_suspended timed a) q = (\<not> q)"
| "wants_rd p q = False"

fun wants_wr :: "rw_pc \<Rightarrow> bool \<Rightarrow> bool" where
  "wants_wr (Wr_loop timed) q = True"
| "wants_wr (Wr_suspended timed) q = (\<not> q)"
| "wants_wr p q = False"

text \<open>Some thread is about to try for a lock: it is before its attempt, or suspended and in the queue no more.\<close>

definition awake_rd :: "rw_sys \<Rightarrow> bool" where
  "awake_rd s \<longleftrightarrow> (\<exists>u. wants_rd (rw_at s u) (u \<in> set (read_queue s)))"

definition awake_wr :: "rw_sys \<Rightarrow> bool" where
  "awake_wr s \<longleftrightarrow> (\<exists>u. wants_wr (rw_at s u) (u \<in> set (write_queue s)))"

definition nolost :: "rw_sys \<Rightarrow> bool" where
  "nolost s \<longleftrightarrow>
     (if rw_kind (rw s) = PREFER_READER
      then (read_queue s \<noteq> [] \<longrightarrow> rw_writer (rw s) \<noteq> None) \<and> (write_queue s \<noteq> [] \<and> wr_free (rw s) \<longrightarrow> awake_wr s \<or> awake_rd s)
      else (write_queue s \<noteq> [] \<and> wr_free (rw s) \<longrightarrow> awake_wr s) \<and>
        (read_queue s \<noteq> [] \<longrightarrow> rw_writer (rw s) \<noteq> None \<or> write_queue s \<noteq> [] \<or> awake_wr s))"

definition untimed_inv :: "nat \<Rightarrow> rw_sys \<Rightarrow> bool" where
  "untimed_inv N s \<longleftrightarrow> rw_ok N s \<and> nolost s \<and> (\<forall>u. untimed (rw_at s u) \<and> (N \<le> u \<longrightarrow> rw_at s u = Idle))"

text \<open>A thread that moves keeps the others awake.\<close>

lemma awake_wr_move:
  assumes "awake_wr s" "rw_at s' = (rw_at s)(t := p)" "set (write_queue s') \<subseteq> set (write_queue s) \<union> {t}"
    and "wants_wr (rw_at s t) (t \<in> set (write_queue s)) \<Longrightarrow> wants_wr p (t \<in> set (write_queue s'))"
  shows "awake_wr s'"
proof -
  obtain u where u: "wants_wr (rw_at s u) (u \<in> set (write_queue s))" using assms(1) by (auto simp: awake_wr_def)
  show ?thesis
  proof (cases "u = t")
    case True
    then show ?thesis using u assms(2,4) unfolding awake_wr_def by (intro exI [of _ t]) simp
  next
    case False
    then have "u \<in> set (write_queue s') \<Longrightarrow> u \<in> set (write_queue s)" using assms(3) by auto
    then show ?thesis using u assms(2) False unfolding awake_wr_def by (intro exI [of _ u]) (cases "rw_at s u"; auto)
  qed
qed

lemma awake_rd_move:
  assumes "awake_rd s" "rw_at s' = (rw_at s)(t := p)" "set (read_queue s') \<subseteq> set (read_queue s) \<union> {t}"
    and "wants_rd (rw_at s t) (t \<in> set (read_queue s)) \<Longrightarrow> wants_rd p (t \<in> set (read_queue s'))"
  shows "awake_rd s'"
proof -
  obtain u where u: "wants_rd (rw_at s u) (u \<in> set (read_queue s))" using assms(1) by (auto simp: awake_rd_def)
  show ?thesis
  proof (cases "u = t")
    case True
    then show ?thesis using u assms(2,4) unfolding awake_rd_def by (intro exI [of _ t]) simp
  next
    case False
    then have "u \<in> set (read_queue s') \<Longrightarrow> u \<in> set (read_queue s)" using assms(3) by auto
    then show ?thesis using u assms(2) False unfolding awake_rd_def by (intro exI [of _ u]) (cases "rw_at s u"; auto)
  qed
qed

text \<open>Steps that leave the lock as it is, and do not take a thread out of the race.\<close>

lemma nolost_local:
  assumes "nolost s" "rw_at s' = (rw_at s)(t := p)" "rw s' = rw s"
    and "wants_wr (rw_at s t) (t \<in> set (write_queue s)) \<Longrightarrow> wants_wr p (t \<in> set (write_queue s))"
    and "wants_rd (rw_at s t) (t \<in> set (read_queue s)) \<Longrightarrow> wants_rd p (t \<in> set (read_queue s))"
  shows "nolost s'"
  using assms(1,3) awake_wr_move [OF _ assms(2)] awake_rd_move [OF _ assms(2)] assms(4,5)
  by (auto simp: nolost_def split: if_splits)

text \<open>A grant of a read lock, and a failed attempt at one.\<close>

lemma nolost_rd_grant:
  assumes "nolost s" "rw_writer (rw s) = None" "wants_wr (rw_at s t) (t \<in> set (write_queue s)) = False"
  shows "nolost (return t 0 (rd_grant t a s))"
proof -
  let ?s = "return t 0 (rd_grant t a s)"
  have f: "rw_at ?s = (rw_at s)(t := Idle)" "write_queue ?s = write_queue s" "read_queue ?s = read_queue s"
    "rw_kind (rw ?s) = rw_kind (rw s)" "rw_writer (rw ?s) = None" "\<not> wr_free (rw ?s)"
    using assms(2) by (simp_all add: rw_simps wr_free_def)
  have "awake_wr s \<Longrightarrow> awake_wr ?s" by (rule awake_wr_move [OF _ f(1)]) (use assms(3) f(2) in auto)
  then show ?thesis using assms(1,2) f(6) unfolding nolost_def f(1-5) by (auto split: if_splits)
qed

lemma nolost_rd_attempt:
  assumes "nolost s" "rw_at s t = Rd_loop False a"
  shows "nolost (rd_attempt prio t False a s)"
proof (cases "rwlock_can_rdlock (rw s) (fst a)")
  case True
  then have "rw_writer (rw s) = None" by (auto simp: rwlock_can_rdlock_def split: if_splits)
  then show ?thesis using nolost_rd_grant [OF assms(1)] True assms(2) by (simp add: rd_attempt_def)
next
  case False
  let ?s = "rd_attempt prio t False a s"
  have f: "rw_at ?s = (rw_at s)(t := Rd_suspended False a)" "write_queue ?s = write_queue s"
    "rw_kind (rw ?s) = rw_kind (rw s)" "rw_writer (rw ?s) = rw_writer (rw s)" "wr_free (rw ?s) = wr_free (rw s)"
    using False by (simp_all add: rd_attempt_def rw_simps wr_free_def)
  have "awake_wr s \<Longrightarrow> awake_wr ?s" by (rule awake_wr_move [OF _ f(1)]) (use assms(2) f(2) in auto)
  then show ?thesis
    using assms(1) False unfolding nolost_def f by (auto simp: rwlock_can_rdlock_def queue_is_empty_def wr_free_def split: if_splits)
qed

lemma nolost_wr_grant: "nolost (return t 0 (s\<lparr>rw := (rw s)\<lparr>rw_writer := Some t\<rparr>\<rparr>))"
  by (simp add: nolost_def rw_simps wr_free_def)

lemma nolost_wr_attempt:
  assumes "nolost s" "rw_at s t = Wr_loop False"
  shows "nolost (wr_attempt prio t False s)"
proof (cases "wr_free (rw s)")
  case True
  then show ?thesis using nolost_wr_grant by (simp add: wr_attempt_def)
next
  case False
  then show ?thesis
    using assms(1) False by (auto simp: wr_attempt_def nolost_def rw_simps wr_free_def split: if_splits)
qed

lemma awake_dequeued:
  assumes "rw_inv N R W s" "write_queue s = th # q" "rw_at s' = (rw_at s)(t := p)" "write_queue s' = q" "rw_at s t = Idle"
    and "untimed (rw_at s th)"
  shows "awake_wr s'"
proof -
  have "queued_wr (rw_at s th)" using assms(1,2) by (simp add: rw_inv_def)
  then have p: "rw_at s th = Wr_suspended False" using assms(6) by (cases "rw_at s th") auto
  have "count (mset (write_queue s)) th = 1" using queue_counts(2) [OF assms(1), of th] assms(2) by simp
  then have "th \<notin> set q" using assms(2) by simp
  then show ?thesis using p assms(3-5) unfolding awake_wr_def by (intro exI [of _ th]) auto
qed

lemma awake_readers:
  assumes "rw_inv N R W s" "read_queue s \<noteq> []" "rw_at s' = (rw_at s)(t := p)" "read_queue s' = []" "rw_at s t = Idle"
    and "\<And>u. untimed (rw_at s u)"
  shows "awake_rd s'"
proof -
  obtain u where u: "u \<in> set (read_queue s)" using assms(2) by (cases "read_queue s") auto
  then have "queued_rd (rw_at s u)" using assms(1) by (simp add: rw_inv_def)
  then obtain a where "rw_at s u = Rd_suspended False a" using assms(6) [of u] by (cases "rw_at s u") auto
  then show ?thesis using assms(3-5) unfolding awake_rd_def by (intro exI [of _ u]) auto
qed

lemma nolost_unlock_write:
  assumes "rw_inv N R W s" "nolost s" "rw_at s t = Idle" "rw_writer (rw s) = Some t" "\<And>u. untimed (rw_at s u)"
  shows "nolost (unlock_write t s)"
proof -
  let ?l = "(rw s)\<lparr>rw_writer := None\<rparr>"
  let ?r = "go t (Restarting (read_queue s) False) (s\<lparr>rw := ?l\<lparr>rw_read_waiting := []\<rparr>\<rparr>)"
  let ?w = "\<lambda>th q. go t (Restarting [th] False) (s\<lparr>rw := ?l\<lparr>rw_write_waiting := q\<rparr>\<rparr>)"
  have rd: "nolost ?r" if "rw_kind (rw s) = PREFER_READER \<and> read_queue s \<noteq> [] \<or> write_queue s = []"
  proof -
    have "awake_rd ?r" if "read_queue s \<noteq> []"
      by (rule awake_readers [OF assms(1) that, where t = t]) (simp_all add: rw_simps assms(3,5))
    then show ?thesis using that by (auto simp: nolost_def rw_simps)
  qed
  have wr: "nolost (?w th q)" if "write_queue s = th # q" "rw_kind (rw s) = PREFER_READER \<longrightarrow> read_queue s = []" for th q
  proof -
    have "awake_wr (?w th q)" by (rule awake_dequeued [OF assms(1) that(1), where t = t]) (simp_all add: rw_simps assms(3,5))
    then show ?thesis using that(2) by (auto simp: nolost_def rw_simps)
  qed
  show ?thesis
    unfolding unlock_write_def Let_def dequeue_def queue_is_empty_def using rd wr by (auto split: list.split)
qed

lemma nolost_unlock_read:
  assumes "rw_inv N R W s" "nolost s" "rw_at s t = Idle" "rw_writer (rw s) = None" "\<And>u. untimed (rw_at s u)"
  shows "nolost (unlock_read t s)"
proof -
  let ?l = "(rw s)\<lparr>rw_readers := rw_readers (rw s) - 1\<rparr>"
  let ?n = "\<lambda>q. go t (Restarting [] True) (s\<lparr>rw := ?l\<lparr>rw_write_waiting := q\<rparr>\<rparr>)"
  let ?w = "\<lambda>th q. go t (Restarting [th] True) (s\<lparr>rw := ?l\<lparr>rw_write_waiting := q\<rparr>\<rparr>)"
  have rq: "rw_kind (rw s) = PREFER_READER \<Longrightarrow> read_queue s = []" using assms(2,4) by (auto simp: nolost_def)
  have keep: "nolost (?n (write_queue s))" if "rw_readers (rw s) - 1 \<noteq> 0 \<or> write_queue s = []"
  proof -
    have "awake_wr s \<Longrightarrow> awake_wr (?n (write_queue s))"
      by (rule awake_wr_move [of s _ t "Restarting [] True"]) (simp_all add: rw_simps assms(3) subset_insertI)
    then show ?thesis using assms(2,4) that rq by (auto simp: nolost_def rw_simps wr_free_def split: if_splits)
  qed
  have wr: "nolost (?w th q)" if "write_queue s = th # q" for th q
  proof -
    have "awake_wr (?w th q)" by (rule awake_dequeued [OF assms(1) that, where t = t]) (simp_all add: rw_simps assms(3,5))
    then show ?thesis using rq by (auto simp: nolost_def rw_simps)
  qed
  have same: "?l = ?l\<lparr>rw_write_waiting := write_queue s\<rparr>" by simp
  show ?thesis
  proof (cases "rw_readers (rw s) - 1 = 0")
    case True
    then show ?thesis
      unfolding unlock_read_def Let_def dequeue_def using keep wr by (cases "write_queue s") simp_all
  next
    case False
    then show ?thesis unfolding unlock_read_def Let_def using keep same by simp
  qed
qed

lemma nolost_advance:
  assumes "untimed_inv N s" "t < N" "rw_advance prio expire t s = Some s'"
  shows "nolost s'"
proof -
  have inv: "rw_inv N (readers_held s) (writers_held s) s" "nolost s" "untimed (rw_at s t)"
    using assms(1) by (simp_all add: untimed_inv_def rw_ok_def)
  have res: "nolost s'" if "resumed t p None s = Some s'" "waiting (rw_at s t)" "\<And>q. wants_wr (rw_at s t) q \<Longrightarrow> wants_wr p q"
    "\<And>q. wants_rd (rw_at s t) q \<Longrightarrow> wants_rd p q" for p
    by (rule nolost_local [OF inv(2), of _ t p])
      (use that in \<open>auto simp: resumed_def suspend_def rw_simps split: if_splits\<close>)
  show ?thesis
  proof (cases "rw_at s t")
    case (Rd_loop timed a)
    then show ?thesis using assms(3) inv nolost_rd_attempt [OF inv(2), of t a prio] by (auto simp: rw_advance_def)
  next
    case (Wr_loop timed)
    then show ?thesis using assms(3) inv nolost_wr_attempt [OF inv(2), of t prio] by (auto simp: rw_advance_def)
  next
    case (Rd_suspended timed a)
    then show ?thesis using res [of "Rd_loop timed a"] assms(3) inv(3) by (simp add: rw_advance_def)
  next
    case (Wr_suspended timed)
    then show ?thesis using res [of "Wr_loop timed"] assms(3) inv(3) by (simp add: rw_advance_def)
  next
    case (Restarting ths rd)
    show ?thesis
    proof (cases ths)
      case Nil
      then show ?thesis using Restarting assms(3) by (intro nolost_local [OF inv(2), of _ t Idle]) (auto simp: rw_advance_def rw_simps)
    next
      case (Cons th ths')
      then show ?thesis using Restarting assms(3)
        by (intro nolost_local [OF inv(2), of _ t "Restarting ths' rd"]) (auto simp: rw_advance_def rw_simps)
    qed
  qed (use inv assms(3) in \<open>auto simp: rw_advance_def\<close>)
qed

lemma nolost_call:
  assumes "untimed_inv N s" "t < N" "may_call t c s" "\<not> timed_op c"
  shows "nolost (rw_call mem t c s)"
proof -
  have inv: "rw_inv N (readers_held s) (writers_held s) s" "nolost s" "\<And>u. untimed (rw_at s u)" and idle: "rw_at s t = Idle"
    using assms by (simp_all add: untimed_inv_def rw_ok_def may_call_def)
  obtain a s1 where e: "rd_enter mem t s = (a, s1)" by (cases "rd_enter mem t s")
  note ef = rd_enter_facts [OF e]
  have n1: "nolost s1" by (rule nolost_local [OF inv(2), of _ t Idle]) (use ef idle in auto)
  have mv: "nolost (go t p s)" "nolost (go t p s1)" "nolost (return t r s)" "nolost (return t r s1)" for p r
    by (rule nolost_local [OF inv(2), of _ t p] nolost_local [OF inv(2), of _ t Idle], use ef idle in \<open>simp_all add: rw_simps\<close>)+
  show ?thesis
  proof (cases c)
    case Tryrdlock
    have "nolost (return t 0 (rd_grant t a s1))" if "rwlock_can_rdlock (rw s1) False"
      by (rule nolost_rd_grant [OF n1]) (use idle ef that in \<open>auto simp: rwlock_can_rdlock_def split: if_splits\<close>)
    then show ?thesis using Tryrdlock e mv by (simp add: rw_call_def tryrdlock_def)
  next
    case Trywrlock
    then show ?thesis using nolost_wr_grant mv by (simp add: rw_call_def trywrlock_def)
  next
    case Unlock
    show ?thesis
    proof (cases "rw_writer (rw s)")
      case None
      then show ?thesis
        using Unlock nolost_unlock_read [OF inv(1,2) idle None inv(3)] mv by (simp add: rw_call_def unlock_def)
    next
      case (Some w)
      then show ?thesis
        using Unlock nolost_unlock_write [OF inv(1,2) idle _ inv(3)] mv by (simp add: rw_call_def unlock_def)
    qed
  qed (use e mv assms(4) in \<open>simp_all add: rw_call_def timed_op_def\<close>)
qed

text \<open>The places a thread moves to in a system without timed operations.\<close>

lemma untimed_move:
  assumes "\<And>u. untimed (rw_at s u) \<and> (N \<le> u \<longrightarrow> rw_at s u = Idle)" "t < N"
    and "rw_at s' = (rw_at s)(t := p)" "untimed p"
  shows "untimed (rw_at s' u) \<and> (N \<le> u \<longrightarrow> rw_at s' u = Idle)"
  using assms by auto

lemma advance_place:
  assumes "rw_advance prio expire t s = Some s'" "untimed (rw_at s t)"
  shows "\<exists>p. rw_at s' = (rw_at s)(t := p) \<and> untimed p"
  using assms
  by (auto simp: rw_advance_def rd_attempt_def wr_attempt_def resumed_def suspend_def rw_simps split: rw_pc.splits list.splits if_splits option.splits)

lemma call_place:
  assumes "\<not> timed_op c"
  shows "\<exists>p. rw_at (rw_call mem t c s) = (rw_at s)(t := p) \<and> untimed p"
proof -
  obtain a s1 where e: "rd_enter mem t s = (a, s1)" by (cases "rd_enter mem t s")
  have "\<exists>p. rw_at (unlock t s) = (rw_at s)(t := p) \<and> untimed p"
    by (auto simp: unlock_def unlock_read_def unlock_write_def Let_def dequeue_def rw_simps split: option.split list.split)
  then show ?thesis
    using assms e rd_enter_facts(2) [OF e]
    by (cases c) (auto simp: rw_call_def tryrdlock_def trywrlock_def rw_simps timed_op_def)
qed

lemma note_fields [simp]:
  "rw (note_call t c s) = rw s" "rw_at (note_call t c s) = rw_at s" "rw (note_run t p s) = rw s" "rw_at (note_run t p s) = rw_at s"
  by (simp_all add: note_call_def note_run_def note_lock_def note_unlock_def)

lemma nolost_note [simp]: "nolost (note_call t c s) \<longleftrightarrow> nolost s" "nolost (note_run t p s) \<longleftrightarrow> nolost s"
  by (simp_all add: nolost_def awake_rd_def awake_wr_def)

lemma untimed_reachable: "rw_reachable N prio False kind s \<Longrightarrow> untimed_inv N s"
proof (induction rule: rw_reachable.induct)
  case rw_initial
  show ?case using rw_start_inv [of N kind] by (simp add: untimed_inv_def nolost_def rw_start_def rwlock_init_def)
next
  case (rw_further s s')
  note inv = rw_further.IH
  have places: "\<And>u. untimed (rw_at s u) \<and> (N \<le> u \<longrightarrow> rw_at s u = Idle)" using inv by (simp add: untimed_inv_def)
  have rwi: "rw_ok N s'" using rw_reachable_inv rw_reachable.rw_further rw_further.hyps by blast
  from rw_further.hyps(2) show ?case
  proof (cases rule: rw_step.cases)
    case (rw_calls t c mem)
    obtain p where p: "rw_at s' = (rw_at s)(t := p)" "untimed p" using call_place [of c mem t s] rw_calls(1,4) by auto
    show ?thesis unfolding untimed_inv_def
      using rwi nolost_call [OF inv rw_calls(2,3)] rw_calls untimed_move [OF places rw_calls(2) p] by simp
  next
    case (rw_runs t expire s1)
    obtain p where p: "rw_at s' = (rw_at s)(t := p)" "untimed p" using advance_place [OF rw_runs(3)] places rw_runs(1) by auto
    show ?thesis unfolding untimed_inv_def
      using rwi nolost_advance [OF inv rw_runs(2,3)] rw_runs(1) untimed_move [OF places rw_runs(2) p] by simp
  qed
qed

section \<open>Runs\<close>

datatype rw_act = Call tid rw_op | Run tid bool

fun rw_exec :: "nat \<Rightarrow> (tid \<Rightarrow> int) \<Rightarrow> bool \<Rightarrow> rw_act list \<Rightarrow> rw_sys \<Rightarrow> rw_sys option" where
  "rw_exec N prio timed [] s = Some s"
| "rw_exec N prio timed (Call t c # acts) s =
     (if t < N \<and> may_call t c s \<and> (timed_op c \<longrightarrow> timed) then rw_exec N prio timed acts (note_call t c (rw_call True t c s)) else None)"
| "rw_exec N prio timed (Run t expire # acts) s =
     (if t < N then Option.bind (rw_advance prio expire t s) (\<lambda>s'. rw_exec N prio timed acts (note_run t (rw_at s t) s')) else None)"

lemma rw_exec_reachable:
  "rw_exec N prio timed acts s = Some s' \<Longrightarrow> rw_reachable N prio timed kind s \<Longrightarrow> rw_reachable N prio timed kind s'"
proof (induction acts arbitrary: s)
  case (Cons act acts)
  show ?case
  proof (cases act)
    case (Call t c)
    then show ?thesis using Cons rw_further [OF Cons.prems(2) rw_calls] by (auto split: if_splits)
  next
    case (Run t expire)
    then show ?thesis using Cons rw_further [OF Cons.prems(2) rw_runs] by (auto split: if_splits bind_splits)
  qed
qed simp

lemmas rw_eval = may_call_def timed_op_def rw_call_def rd_enter_def rwlock_have_already_def rwlock_is_in_list_def rwlock_add_to_list_def
  rw_advance_def rd_attempt_def wr_attempt_def rwlock_can_rdlock_def queue_is_empty_def wr_free_def rd_fixup_def rw_simps resumed_def
  suspend_def wr_extricate_def unlock_def unlock_read_def unlock_write_def dequeue_def Let_def rw_start_def rwlock_init_def RWLOCK_def
  note_call_def note_run_def note_lock_def note_unlock_def granted_def ETIMEDOUT_def EBUSY_def

section \<open>Properties\<close>


text \<open>C37: no wakeup is lost when no operation has a timeout: when no thread that is in an operation can go on and some thread
  waits, then some thread holds a lock that it has not given back. Threads without a lock do not unlock while
  others hold read locks.\<close>

theorem rwlock_no_lost_wakeup:
  assumes "rw_reachable N prio False kind s" "waiting (rw_at s t)" "\<And>u. u < N \<Longrightarrow> rw_advance prio True u s = None"
  shows "writers_held s \<noteq> {#} \<or> readers_held s \<noteq> {#}"
proof (rule ccontr)
  assume "\<not> ?thesis"
  moreover have inv: "rw_inv N (readers_held s) (writers_held s) s" "nolost s"
    and pl: "\<And>u. untimed (rw_at s u) \<and> (N \<le> u \<longrightarrow> rw_at s u = Idle)"
    using untimed_reachable [OF assms(1)] by (simp_all add: untimed_inv_def rw_ok_def)
  ultimately have free: "wr_free (rw s)" "rw_writer (rw s) = None"
    using rw_inv_excl [OF inv(1)] by (auto simp: wr_free_def excl_def split: option.splits)
  have b: "balanced N restarts waiting (read_queue s @ write_queue s) (rw_at s) (resume s)" using inv(1) by (simp add: rw_inv_def)
  have stuck: "restarts (rw_at s u) = []" "\<not> (\<exists>p e. rw_at s u \<in> {Rd_loop p e, Wr_loop p})" if "u < N" for u
    using assms(3) [OF that] by (auto simp: rw_advance_def split: rw_pc.splits list.splits)
  have asleep: "x \<in> set (read_queue s @ write_queue s)" if "waiting (rw_at s x)" for x
  proof (rule rw_places.asleep [OF b stuck(1) that])
    have "x < N" using that pl [of x] by (metis not_le waiting.simps(1))
    then show "suspend x (resume s) = None" using assms(3) [of x] that pl [of x]
      by (cases "rw_at s x") (auto simp: rw_advance_def resumed_def split: option.splits if_splits)
  qed
  have q: "x \<in> set (read_queue s) \<Longrightarrow> queued_rd (rw_at s x)" "x \<in> set (write_queue s) \<Longrightarrow> queued_wr (rw_at s x)" for x
    using inv(1) by (simp_all add: rw_inv_def)
  have lt: "u < N" if "rw_at s u \<noteq> Idle" for u using that pl [of u] by (meson not_le)
  have nr: "\<not> awake_rd s"
  proof
    assume "awake_rd s"
    then obtain u where u: "wants_rd (rw_at s u) (u \<in> set (read_queue s))" by (auto simp: awake_rd_def)
    then obtain p a where "rw_at s u = Rd_suspended p a" using stuck [OF lt, of u] by (cases "rw_at s u") auto
    then show False using u asleep [of u] q(2) [of u] by simp
  qed
  have nw: "\<not> awake_wr s"
  proof
    assume "awake_wr s"
    then obtain u where u: "wants_wr (rw_at s u) (u \<in> set (write_queue s))" by (auto simp: awake_wr_def)
    then obtain p where "rw_at s u = Wr_suspended p" using stuck [OF lt, of u] by (cases "rw_at s u") auto
    then show False using u asleep [of u] q(1) [of u] by simp
  qed
  show False using asleep [OF assms(2)] inv(2) free nr nw by (auto simp: nolost_def split: if_splits)
qed

text \<open>C38: with a timeout a wakeup can be lost: a reader that had to queue behind a waiting writer stays in the queue when
  that writer gives up, and when the last reader unlocks nobody restarts it. The lock is free, the reader
  waits, and no thread is in an operation that could wake it.\<close>

theorem rwlock_timeout_lost_wakeup:
  "\<exists>s. rw_reachable 3 prio True PREFER_WRITER s \<and> wr_free (rw s) \<and> read_queue s = [2] \<and> ret s 1 = ETIMEDOUT \<and>
     rw_advance prio True 0 s = None \<and> rw_advance prio True 1 s = None \<and> rw_advance prio True 2 s = None"
proof -
  let ?acts = "[Call 0 Rdlock, Run 0 False, Call 1 (Timedwrlock True), Run 1 False, Call 2 Rdlock, Run 2 False, Run 1 True, Run 1 False,
    Call 0 Unlock, Run 0 False]"
  obtain s where s: "rw_exec 3 prio True ?acts (rw_start PREFER_WRITER) = Some s" "wr_free (rw s)" "read_queue s = [2]"
      "ret s 1 = ETIMEDOUT" "rw_advance prio True 0 s = None" "rw_advance prio True 1 s = None" "rw_advance prio True 2 s = None"
    by (simp add: rw_eval)
  then show ?thesis using rw_exec_reachable [OF s(1) rw_initial] by blast
qed

text \<open>A \<open>pthread_rwlock_tryrdlock\<close> that fails leaves the lock in the list of the thread's read locks: a later
  \<open>pthread_rwlock_rdlock\<close> of that thread goes before the waiting writers, where it would have had to wait without the failed
  attempt.\<close>

theorem tryrdlock_leaves_entry:
  assumes "rw_kind (rw s) = PREFER_WRITER" "\<not> rwlock_is_in_list (locks_of s t) RWLOCK" "p_untracked_readlock_count (locks_of s t) = 0"
    and "rw_write_waiting (rw s) \<noteq> []" "rw_writer (rw s) = None" "s1 = rw_call True t Tryrdlock s"
  shows "ret s1 t = EBUSY \<and> rw_readers (rw s1) = rw_readers (rw s) \<and>
    (\<exists>s3. rw_advance prio e t (rw_call True t Rdlock s1) = Some s3 \<and> ret s3 t = 0 \<and> rw_readers (rw s3) = rw_readers (rw s) + 1) \<and>
    (\<exists>s3. rw_advance prio e t (rw_call True t Rdlock s) = Some s3 \<and> t \<in> set (rw_read_waiting (rw s3)) \<and> rw_readers (rw s3) = rw_readers (rw s))"
  using assms
  by (simp add: rw_call_def tryrdlock_def rd_enter_def rwlock_have_already_def rwlock_add_to_list_def rwlock_can_rdlock_def
      queue_is_empty_def rw_simps rwlock_is_in_list_def rw_advance_def rd_attempt_def)

section \<open>Witnesses\<close>

text \<open>Thread 0 has the write lock and thread 1 waits for a read lock.\<close>

definition held_acts :: "rw_act list" where
  "held_acts = [Call 0 Wrlock, Run 0 False, Call 1 Rdlock, Run 1 False]"

lemma held_state:
  obtains s where "rw_exec 2 (\<lambda>_. 0) False held_acts (rw_start PREFER_READER) = Some s" "rw_at s 0 = Idle" "resume s = (\<lambda>_. 0)"
    "rw_at s 1 = Rd_suspended False (False, False, False)" "writers_held s = {#0#}"
  by (simp add: held_acts_def rw_eval)


theorem rwlock_no_lost_wakeup_witness:
  "\<exists>s. rw_exec 2 (\<lambda>_. 0) False held_acts (rw_start PREFER_READER) = Some s \<and> (writers_held s \<noteq> {#} \<or> readers_held s \<noteq> {#})"
proof -
  obtain s where s: "rw_exec 2 (\<lambda>_. 0) False held_acts (rw_start PREFER_READER) = Some s" "rw_at s 0 = Idle" "resume s = (\<lambda>_. 0)"
    "rw_at s 1 = Rd_suspended False (False, False, False)" by (rule held_state)
  have stuck: "rw_advance (\<lambda>_. 0) True u s = None" if "u < 2" for u
  proof -
    have "u = 0 \<or> u = 1" using that by auto
    then show ?thesis using s(2-4) by (auto simp: rw_advance_def resumed_def suspend_def)
  qed
  have "waiting (rw_at s 1)" using s(4) by simp
  from rwlock_no_lost_wakeup [OF rw_exec_reachable [OF s(1) rw_initial] this stuck] show ?thesis using s(1) by blast
qed

theorem tryrdlock_leaves_entry_witness:
  "\<exists>s. rw_exec 2 (\<lambda>_. 0) False [Call 0 Rdlock, Run 0 False, Call 1 Wrlock, Run 1 False] (rw_start PREFER_WRITER) = Some s \<and>
     ret (rw_call True 2 Tryrdlock s) 2 = EBUSY"
proof -
  obtain s where s: "rw_exec 2 (\<lambda>_. 0) False [Call 0 Rdlock, Run 0 False, Call 1 Wrlock, Run 1 False] (rw_start PREFER_WRITER) = Some s"
    "rw_kind (rw s) = PREFER_WRITER" "\<not> rwlock_is_in_list (locks_of s 2) RWLOCK" "p_untracked_readlock_count (locks_of s 2) = 0"
    "rw_write_waiting (rw s) \<noteq> []" "rw_writer (rw s) = None"
    by (simp add: rw_eval)
  from tryrdlock_leaves_entry [OF s(2-6) refl] show ?thesis using s(1) by blast
qed

end
