(* ===== verification/Semaphore.thy ===== *)
theory Semaphore
  imports Waitq
begin

text \<open>
  Semaphores and barriers of LinuxThreads (\<open>libpthread/linuxthreads/semaphore.c\<close>, \<open>barrier.c\<close>, and \<open>pthread_cancel\<close> of
  \<open>cancel.c\<close> as far as it concerns a thread that waits for a semaphore), as systems of threads in the way of \<open>Waitq\<close>.

  The parameter \<open>enabled\<close> says which threads have cancellation enabled. The part of \<open>pthread_cancel\<close> under \<open>h_lock\<close> is one
  step: a thread takes the same lock to set its extrication interface, so it cannot do so in between. The signal
  that \<open>pthread_cancel\<close> sends to a thread which it did not find waiting, and posting from a signal handler, are left out.

  The histories that the properties speak about are no part of the operations: the step relations keep them from what
  a caller sees, the calls and the values that they return. \<open>got\<close> and \<open>posted\<close> count the waits that returned 0 and the posts
  that did not fail; for a barrier \<open>returned\<close> collects the values returned in each round.
\<close>

section \<open>Semaphores\<close>

definition SEM_VALUE_MAX :: nat where "SEM_VALUE_MAX = 2147483647"
definition ENOSYS :: nat where "ENOSYS = 38"

record sem =
  sem_value :: nat
  sem_waiting :: "tid list"

text \<open>The places of a thread: suspended in a wait, behind a \<open>timedsuspend\<close> that timed out, in the \<open>suspend\<close> after that; before
  the grant to a thread that was taken off the queue; before a \<open>restart\<close>; and ended by cancellation.\<close>

datatype sem_pc =
    Sem_idle
  | Sem_suspended bool
  | Sem_expired
  | Sem_eat
  | Sem_grant tid
  | Sem_restart tid
  | Sem_exited

record sem_sys =
  sm :: sem
  sem_at :: "tid \<Rightarrow> sem_pc"
  sem_resume :: "tid \<Rightarrow> nat"
  p_sem_avail :: "tid \<Rightarrow> bool"
  p_woken_by_cancel :: "tid \<Rightarrow> bool"
  p_canceled :: "tid \<Rightarrow> bool"
  p_extricate :: "tid \<Rightarrow> bool"
  sem_ret :: "tid \<Rightarrow> int"
  sem_errno :: "tid \<Rightarrow> nat"
  got :: nat
  posted :: nat

definition sem_init :: "bool \<Rightarrow> nat \<Rightarrow> nat + sem" where
  "sem_init pshared val =
     (if val > SEM_VALUE_MAX then Inl EINVAL
      else if pshared then Inl ENOSYS
      else Inr \<lparr>sem_value = val, sem_waiting = []\<rparr>)"

definition sem_go :: "tid \<Rightarrow> sem_pc \<Rightarrow> sem_sys \<Rightarrow> sem_sys" where
  "sem_go t p s = s\<lparr>sem_at := (sem_at s)(t := p)\<rparr>"

definition sem_return :: "tid \<Rightarrow> sem_sys \<Rightarrow> sem_sys" where
  "sem_return t s = (sem_go t Sem_idle s)\<lparr>sem_ret := (sem_ret s)(t := 0)\<rparr>"

definition sem_fail :: "tid \<Rightarrow> nat \<Rightarrow> sem_sys \<Rightarrow> sem_sys" where
  "sem_fail t e s = (sem_go t Sem_idle s)\<lparr>sem_ret := (sem_ret s)(t := - 1), sem_errno := (sem_errno s)(t := e)\<rparr>"

definition sem_take :: "tid \<Rightarrow> sem_sys \<Rightarrow> sem_sys" where
  "sem_take t s = sem_return t (s\<lparr>sm := (sm s)\<lparr>sem_value := sem_value (sm s) - 1\<rparr>\<rparr>)"

text \<open>\<open>sem_wait\<close> and, with a valid or invalid time, \<open>sem_timedwait\<close> up to the first \<open>suspend\<close>.\<close>

definition sem_block :: "(tid \<Rightarrow> int) \<Rightarrow> (tid \<Rightarrow> bool) \<Rightarrow> tid \<Rightarrow> bool \<Rightarrow> sem_sys \<Rightarrow> sem_sys" where
  "sem_block prio enabled t timed s =
     (let s1 = s\<lparr>p_sem_avail := (p_sem_avail s)(t := False), p_extricate := (p_extricate s)(t := True)\<rparr>
      in if \<not> (p_canceled s t \<and> enabled t) then
           sem_go t (Sem_suspended timed) (s1\<lparr>sm := (sm s)\<lparr>sem_waiting := enqueue prio (sem_waiting (sm s)) t\<rparr>\<rparr>)
         else sem_go t Sem_exited (s1\<lparr>p_extricate := (p_extricate s1)(t := False)\<rparr>))"

definition sem_wait :: "(tid \<Rightarrow> int) \<Rightarrow> (tid \<Rightarrow> bool) \<Rightarrow> tid \<Rightarrow> sem_sys \<Rightarrow> sem_sys" where
  "sem_wait prio enabled t s =
     (if sem_value (sm s) > 0 then sem_take t s else sem_block prio enabled t False s)"

definition sem_timedwait :: "(tid \<Rightarrow> int) \<Rightarrow> (tid \<Rightarrow> bool) \<Rightarrow> bool \<Rightarrow> tid \<Rightarrow> sem_sys \<Rightarrow> sem_sys" where
  "sem_timedwait prio enabled valid t s =
     (if sem_value (sm s) > 0 then sem_take t s
      else if \<not> valid then sem_fail t EINVAL s
      else sem_block prio enabled t True s)"

definition sem_trywait :: "tid \<Rightarrow> sem_sys \<Rightarrow> sem_sys" where
  "sem_trywait t s = (if sem_value (sm s) = 0 then sem_fail t EAGAIN s else sem_take t s)"

definition sem_post :: "tid \<Rightarrow> sem_sys \<Rightarrow> sem_sys" where
  "sem_post t s =
     (case dequeue (sem_waiting (sm s)) of
        (None, _) \<Rightarrow>
          if sem_value (sm s) \<ge> SEM_VALUE_MAX then sem_fail t ERANGE s
          else sem_return t (s\<lparr>sm := (sm s)\<lparr>sem_value := sem_value (sm s) + 1\<rparr>\<rparr>)
      | (Some th, q) \<Rightarrow> sem_go t (Sem_grant th) (s\<lparr>sm := (sm s)\<lparr>sem_waiting := q\<rparr>\<rparr>))"

definition sem_getvalue :: "sem_sys \<Rightarrow> nat" where
  "sem_getvalue s = sem_value (sm s)"

definition sem_destroy :: "tid \<Rightarrow> sem_sys \<Rightarrow> sem_sys" where
  "sem_destroy t s = (if sem_waiting (sm s) \<noteq> [] then sem_fail t EBUSY s else sem_return t s)"

text \<open>\<open>pthread_cancel\<close> of the thread \<open>th\<close> by the thread \<open>t\<close>, with \<open>new_sem_extricate_func\<close>.\<close>

definition sem_cancel :: "(tid \<Rightarrow> bool) \<Rightarrow> tid \<Rightarrow> tid \<Rightarrow> sem_sys \<Rightarrow> sem_sys" where
  "sem_cancel enabled th t s =
     (let s1 = s\<lparr>p_canceled := (p_canceled s)(th := True)\<rparr>
      in if \<not> enabled th \<or> p_canceled s th then sem_return t s1
         else if p_extricate s th then
           (case remove_from_queue (sem_waiting (sm s)) th of
              (did_remove, q) \<Rightarrow>
                (let s2 = s1\<lparr>sm := (sm s)\<lparr>sem_waiting := q\<rparr>, p_woken_by_cancel := (p_woken_by_cancel s)(th := did_remove)\<rparr>
                 in if did_remove then sem_go t (Sem_restart th) s2 else sem_return t s2))
         else sem_return t s1)"

text \<open>A thread behind \<open>suspend\<close>: the loop that counts wakeups which do not belong to it, and the end of \<open>sem_wait\<close>.\<close>

definition sem_woken :: "(tid \<Rightarrow> bool) \<Rightarrow> tid \<Rightarrow> bool \<Rightarrow> sem_sys \<Rightarrow> sem_sys" where
  "sem_woken enabled t timed s =
     (if \<not> p_sem_avail s t \<and> (\<not> p_woken_by_cancel s t \<or> \<not> enabled t) then sem_go t (Sem_suspended timed) s
      else
        (let s1 = s\<lparr>p_extricate := (p_extricate s)(t := False)\<rparr>
         in if p_woken_by_cancel s t \<and> enabled t then
              sem_go t Sem_exited (s1\<lparr>p_woken_by_cancel := (p_woken_by_cancel s)(t := False)\<rparr>)
            else sem_return t s1))"

definition sem_extricate :: "tid \<Rightarrow> sem_sys \<Rightarrow> sem_sys" where
  "sem_extricate t s =
     (case remove_from_queue (sem_waiting (sm s)) t of
        (was_on_queue, q) \<Rightarrow>
          (let s1 = s\<lparr>sm := (sm s)\<lparr>sem_waiting := q\<rparr>\<rparr>
           in if was_on_queue then sem_fail t ETIMEDOUT (s1\<lparr>p_extricate := (p_extricate s)(t := False)\<rparr>)
              else sem_go t Sem_eat s1))"

text \<open>The next step of a thread in an operation, as in \<open>Rwlock\<close>.\<close>

definition sem_advance :: "(tid \<Rightarrow> bool) \<Rightarrow> bool \<Rightarrow> tid \<Rightarrow> sem_sys \<Rightarrow> sem_sys option" where
  "sem_advance enabled expire t s =
     (case sem_at s t of
        Sem_idle \<Rightarrow> None
      | Sem_suspended timed \<Rightarrow>
          (case suspend t (sem_resume s) of
             Some r \<Rightarrow> Some (sem_woken enabled t timed (s\<lparr>sem_resume := r\<rparr>))
           | None \<Rightarrow> if timed \<and> expire then Some (sem_go t Sem_expired s) else None)
      | Sem_expired \<Rightarrow> Some (sem_extricate t s)
      | Sem_eat \<Rightarrow>
          map_option (\<lambda>r. sem_woken enabled t True (s\<lparr>sem_resume := r\<rparr>)) (suspend t (sem_resume s))
      | Sem_grant th \<Rightarrow> Some (sem_go t (Sem_restart th) (s\<lparr>p_sem_avail := (p_sem_avail s)(th := True)\<rparr>))
      | Sem_restart th \<Rightarrow> Some (sem_return t (s\<lparr>sem_resume := restart th (sem_resume s)\<rparr>))
      | Sem_exited \<Rightarrow> None)"

datatype sem_op = Sem_wait | Sem_timedwait bool | Sem_trywait | Sem_post | Sem_destroy | Sem_cancel tid

definition sem_call :: "(tid \<Rightarrow> int) \<Rightarrow> (tid \<Rightarrow> bool) \<Rightarrow> tid \<Rightarrow> sem_op \<Rightarrow> sem_sys \<Rightarrow> sem_sys" where
  "sem_call prio enabled t c s =
     (case c of
        Sem_wait \<Rightarrow> sem_wait prio enabled t s
      | Sem_timedwait valid \<Rightarrow> sem_timedwait prio enabled valid t s
      | Sem_trywait \<Rightarrow> sem_trywait t s
      | Sem_post \<Rightarrow> sem_post t s
      | Sem_destroy \<Rightarrow> sem_destroy t s
      | Sem_cancel th \<Rightarrow> sem_cancel enabled th t s)"

text \<open>A wait has succeeded when its call returns 0; a post has when it does not return with an error. The call of a thread
  that is suspended, or that a timeout brought out of \<open>suspend\<close>, is a wait.\<close>

fun is_wait :: "sem_op \<Rightarrow> bool" where
  "is_wait Sem_wait = True"
| "is_wait (Sem_timedwait valid) = True"
| "is_wait Sem_trywait = True"
| "is_wait c = False"

fun sem_waits :: "sem_pc \<Rightarrow> bool" where
  "sem_waits (Sem_suspended timed) = True"
| "sem_waits Sem_expired = True"
| "sem_waits Sem_eat = True"
| "sem_waits p = False"

definition sem_count_call :: "tid \<Rightarrow> sem_op \<Rightarrow> sem_sys \<Rightarrow> sem_sys" where
  "sem_count_call t c s =
     s\<lparr>got := got s + (if is_wait c \<and> sem_at s t = Sem_idle \<and> sem_ret s t = 0 then 1 else 0),
       posted := posted s + (if c = Sem_post \<and> \<not> (sem_at s t = Sem_idle \<and> sem_ret s t \<noteq> 0) then 1 else 0)\<rparr>"

definition sem_count_run :: "tid \<Rightarrow> bool \<Rightarrow> sem_sys \<Rightarrow> sem_sys" where
  "sem_count_run t waiting s =
     s\<lparr>got := got s + (if waiting \<and> sem_at s t = Sem_idle \<and> sem_ret s t = 0 then 1 else 0)\<rparr>"

inductive sem_step :: "nat \<Rightarrow> (tid \<Rightarrow> int) \<Rightarrow> (tid \<Rightarrow> bool) \<Rightarrow> sem_sys \<Rightarrow> sem_sys \<Rightarrow> bool" for N prio enabled where
  sem_calls: "t < N \<Longrightarrow> sem_at s t = Sem_idle \<Longrightarrow> 
    sem_step N prio enabled s (sem_count_call t c (sem_call prio enabled t c s))"
| sem_runs: "t < N \<Longrightarrow> sem_advance enabled expire t s = Some s' \<Longrightarrow>
    sem_step N prio enabled s (sem_count_run t (sem_waits (sem_at s t)) s')"

definition sem_start :: "nat \<Rightarrow> sem_sys" where
  "sem_start val = \<lparr>sm = \<lparr>sem_value = val, sem_waiting = []\<rparr>, sem_at = (\<lambda>_. Sem_idle), sem_resume = (\<lambda>_. 0),
     p_sem_avail = (\<lambda>_. False), p_woken_by_cancel = (\<lambda>_. False), p_canceled = (\<lambda>_. False), p_extricate = (\<lambda>_. False),
     sem_ret = (\<lambda>_. 0), sem_errno = (\<lambda>_. 0), got = 0, posted = 0\<rparr>"

inductive sem_reachable :: "nat \<Rightarrow> (tid \<Rightarrow> int) \<Rightarrow> (tid \<Rightarrow> bool) \<Rightarrow> nat \<Rightarrow> sem_sys \<Rightarrow> bool" for N prio enabled val where
  sem_initial: "sem_reachable N prio enabled val (sem_start val)"
| sem_further: "sem_reachable N prio enabled val s \<Longrightarrow> sem_step N prio enabled s s' \<Longrightarrow> sem_reachable N prio enabled val s'"

section \<open>Barriers\<close>

record barrier =
  ba_required :: nat
  ba_present :: nat
  ba_waiting :: "tid list"

datatype ba_pc = Ba_idle | Ba_suspended | Ba_waking "tid list"

text \<open>\<open>arrived\<close> counts the calls of \<open>pthread_barrier_wait\<close>, \<open>ba_round\<close> is the round that the last call of a thread belongs to (the
  first \<open>ba_required\<close> calls are round 0, the next ones round 1, and so on), and \<open>returned\<close> has for each call that has
  returned its round and the value it returned.\<close>

record ba_sys =
  ba :: barrier
  ba_at :: "tid \<Rightarrow> ba_pc"
  ba_resume :: "tid \<Rightarrow> nat"
  ba_ret :: "tid \<Rightarrow> int"
  arrived :: nat
  ba_round :: "tid \<Rightarrow> nat"
  returned :: "(nat \<times> int) multiset"

definition PTHREAD_BARRIER_SERIAL_THREAD :: int where "PTHREAD_BARRIER_SERIAL_THREAD = - 1"

definition barrier_init :: "nat \<Rightarrow> nat + barrier" where
  "barrier_init cnt = (if cnt = 0 then Inl EINVAL else Inr \<lparr>ba_required = cnt, ba_present = 0, ba_waiting = []\<rparr>)"

definition barrier_destroy :: "barrier \<Rightarrow> nat" where
  "barrier_destroy b = (if ba_waiting b \<noteq> [] then EBUSY else 0)"

text \<open>The part under the lock. The place that the thread goes to stands for the local variable \<open>result\<close>.\<close>

definition barrier_wait :: "(tid \<Rightarrow> int) \<Rightarrow> tid \<Rightarrow> ba_sys \<Rightarrow> ba_sys" where
  "barrier_wait prio t s =
     (let b = ba s
      in if int (ba_present b) \<ge> int (ba_required b) - 1 then
           s\<lparr>ba := b\<lparr>ba_waiting := [], ba_present := 0\<rparr>, ba_at := (ba_at s)(t := Ba_waking (ba_waiting b))\<rparr>
         else
           s\<lparr>ba := b\<lparr>ba_present := ba_present b + 1, ba_waiting := enqueue prio (ba_waiting b) t\<rparr>,
             ba_at := (ba_at s)(t := Ba_suspended)\<rparr>)"

definition barrier_leave :: "tid \<Rightarrow> int \<Rightarrow> ba_sys \<Rightarrow> ba_sys" where
  "barrier_leave t r s = s\<lparr>ba_at := (ba_at s)(t := Ba_idle), ba_ret := (ba_ret s)(t := r)\<rparr>"

definition ba_advance :: "tid \<Rightarrow> ba_sys \<Rightarrow> ba_sys option" where
  "ba_advance t s =
     (case ba_at s t of
        Ba_idle \<Rightarrow> None
      | Ba_suspended \<Rightarrow> map_option (\<lambda>r. barrier_leave t 0 (s\<lparr>ba_resume := r\<rparr>)) (suspend t (ba_resume s))
      | Ba_waking [] \<Rightarrow> Some (barrier_leave t PTHREAD_BARRIER_SERIAL_THREAD s)
      | Ba_waking (th # ths) \<Rightarrow>
          Some (s\<lparr>ba_at := (ba_at s)(t := Ba_waking ths), ba_resume := restart th (ba_resume s)\<rparr>))"

definition ba_arrive :: "tid \<Rightarrow> ba_sys \<Rightarrow> ba_sys" where
  "ba_arrive t s = s\<lparr>arrived := arrived s + 1, ba_round := (ba_round s)(t := arrived s div ba_required (ba s))\<rparr>"

definition ba_observe :: "tid \<Rightarrow> ba_sys \<Rightarrow> ba_sys" where
  "ba_observe t s =
     (if ba_at s t = Ba_idle then s\<lparr>returned := add_mset (ba_round s t, ba_ret s t) (returned s)\<rparr> else s)"

inductive ba_step :: "nat \<Rightarrow> (tid \<Rightarrow> int) \<Rightarrow> ba_sys \<Rightarrow> ba_sys \<Rightarrow> bool" for N prio where
  ba_calls: "t < N \<Longrightarrow> ba_at s t = Ba_idle \<Longrightarrow> ba_step N prio s (barrier_wait prio t (ba_arrive t s))"
| ba_runs: "t < N \<Longrightarrow> ba_advance t s = Some s' \<Longrightarrow> ba_step N prio s (ba_observe t s')"

definition ba_start :: "barrier \<Rightarrow> ba_sys" where
  "ba_start b = \<lparr>ba = b, ba_at = (\<lambda>_. Ba_idle), ba_resume = (\<lambda>_. 0), ba_ret = (\<lambda>_. 0), arrived = 0, ba_round = (\<lambda>_. 0), returned = {#}\<rparr>"

inductive ba_reachable :: "nat \<Rightarrow> (tid \<Rightarrow> int) \<Rightarrow> nat \<Rightarrow> ba_sys \<Rightarrow> bool" for N prio cnt where
  ba_initial: "barrier_init cnt = Inr b \<Longrightarrow> ba_reachable N prio cnt (ba_start b)"
| ba_further: "ba_reachable N prio cnt s \<Longrightarrow> ba_step N prio s s' \<Longrightarrow> ba_reachable N prio cnt s'"

end
