(* ===== verification/Semaphore_Proofs.thy ===== *)
theory Semaphore_Proofs
  imports Semaphore
begin

text \<open>
  Semaphores and barriers: the proofs. Over all interleavings of waits, timed waits, posts and cancellations no unit of a
  semaphore is lost or made up, and none is left while a thread waits; the rounds of a barrier do not overlap.
\<close>

section \<open>Semaphores: the invariant\<close>

fun sem_restarts :: "sem_pc \<Rightarrow> tid list" where
  "sem_restarts (Sem_grant th) = [th]"
| "sem_restarts (Sem_restart th) = [th]"
| "sem_restarts p = []"

abbreviation sem_queue :: "sem_sys \<Rightarrow> tid list" where
  "sem_queue s \<equiv> sem_waiting (sm s)"

text \<open>The threads that the semaphore was given to and that have not returned yet.\<close>

definition flight :: "sem_sys \<Rightarrow> tid set" where
  "flight s = {x. sem_waits (sem_at s x) \<and> x \<notin> set (sem_queue s) \<and> \<not> p_woken_by_cancel s x}"

definition sem_flags :: "nat \<Rightarrow> (tid \<Rightarrow> bool) \<Rightarrow> sem_sys \<Rightarrow> bool" where
  "sem_flags N enabled s \<longleftrightarrow>
     (\<forall>x. (x \<in> set (sem_queue s) \<longrightarrow> \<not> p_sem_avail s x \<and> \<not> p_woken_by_cancel s x) \<and>
       (x \<in> flight s \<longrightarrow> p_sem_avail s x \<or> (\<exists>u<N. sem_at s u = Sem_grant x)) \<and>
       (p_woken_by_cancel s x \<longrightarrow> enabled x \<and> p_canceled s x \<and> sem_waits (sem_at s x) \<and> x \<notin> set (sem_queue s) \<and> \<not> p_sem_avail s x) \<and>
       (\<forall>u. sem_at s u = Sem_grant x \<longrightarrow> \<not> p_woken_by_cancel s x) \<and> (N \<le> x \<longrightarrow> sem_at s x = Sem_idle))"

text \<open>\<open>units\<close> is the number of units that are with the semaphore or on their way to a thread.\<close>

definition sem_inv :: "nat \<Rightarrow> (tid \<Rightarrow> bool) \<Rightarrow> nat \<Rightarrow> sem_sys \<Rightarrow> bool" where
  "sem_inv N enabled units s \<longleftrightarrow> (sem_value (sm s) = 0 \<or> sem_queue s = []) \<and>
     balanced N sem_restarts sem_waits (sem_queue s) (sem_at s) (sem_resume s) \<and> sem_flags N enabled s \<and>
     sem_value (sm s) + card (flight s) = units"

lemma sem_invD:
  assumes "sem_inv N enabled units s"
  shows "sem_value (sm s) = 0 \<or> sem_queue s = []" "balanced N sem_restarts sem_waits (sem_queue s) (sem_at s) (sem_resume s)"
    "sem_flags N enabled s" "sem_value (sm s) + card (flight s) = units"
  using assms by (simp_all add: sem_inv_def)

lemma flight_finite: "sem_flags N enabled s \<Longrightarrow> finite (flight s)"
proof -
  assume f: "sem_flags N enabled s"
  have "flight s \<subseteq> {..<N}"
  proof
    fix x assume "x \<in> flight s"
    then have "sem_at s x \<noteq> Sem_idle" by (auto simp: flight_def)
    then show "x \<in> {..<N}" using f unfolding sem_flags_def by (meson lessThan_iff not_le)
  qed
  then show ?thesis by (rule finite_subset) simp
qed

text \<open>A thread that does not wait is in no queue; one that is in the queue has no restart outstanding or coming.\<close>

lemma sem_not_queued:
  assumes "balanced N sem_restarts sem_waits (sem_queue s) (sem_at s) (sem_resume s)" "\<not> sem_waits (sem_at s t)"
  shows "t \<notin> set (sem_queue s)"
  using balanced_queue(1) [OF assms(1)] assms(2) by blast


lemma sem_flagsD:
  assumes "sem_flags N enabled s"
  shows "x \<in> set (sem_queue s) \<Longrightarrow> \<not> p_sem_avail s x" "x \<in> set (sem_queue s) \<Longrightarrow> \<not> p_woken_by_cancel s x"
    "x \<in> flight s \<Longrightarrow> p_sem_avail s x \<or> (\<exists>u<N. sem_at s u = Sem_grant x)"
    "p_woken_by_cancel s x \<Longrightarrow> enabled x" "p_woken_by_cancel s x \<Longrightarrow> p_canceled s x"
    "p_woken_by_cancel s x \<Longrightarrow> sem_waits (sem_at s x)" "p_woken_by_cancel s x \<Longrightarrow> x \<notin> set (sem_queue s)"
    "p_woken_by_cancel s x \<Longrightarrow> \<not> p_sem_avail s x" "sem_at s u = Sem_grant x \<Longrightarrow> \<not> p_woken_by_cancel s x"
    "N \<le> x \<Longrightarrow> sem_at s x = Sem_idle"
  using assms unfolding sem_flags_def by blast+

lemma sem_flagsI:
  assumes "\<And>x. x \<in> set (sem_queue s) \<Longrightarrow> \<not> p_sem_avail s x \<and> \<not> p_woken_by_cancel s x"
    and "\<And>x. x \<in> flight s \<Longrightarrow> p_sem_avail s x \<or> (\<exists>u<N. sem_at s u = Sem_grant x)"
    and "\<And>x. p_woken_by_cancel s x \<Longrightarrow> enabled x \<and> p_canceled s x \<and> sem_waits (sem_at s x) \<and> x \<notin> set (sem_queue s) \<and> \<not> p_sem_avail s x"
    and "\<And>x u. sem_at s u = Sem_grant x \<Longrightarrow> \<not> p_woken_by_cancel s x" "\<And>x. N \<le> x \<Longrightarrow> sem_at s x = Sem_idle"
  shows "sem_flags N enabled s"
  unfolding sem_flags_def using assms by blast

lemma sem_inv_move:
  assumes "sem_inv N enabled units s" "t < N" "sem_at s' = (sem_at s)(t := p)" "sem_value (sm s') = 0 \<or> sem_queue s' = []"
    and "\<And>x. count (mset (sem_queue s')) x + count (mset (sem_restarts p)) x + sem_resume s' x +
        (if x = t \<and> sem_waits (sem_at s t) then 1 else 0) =
      count (mset (sem_queue s)) x + count (mset (sem_restarts (sem_at s t))) x + sem_resume s x + (if x = t \<and> sem_waits p then 1 else 0)"
    and "sem_flags N enabled s'" "sem_value (sm s') + card (flight s') = units'"
  shows "sem_inv N enabled units' s'"
proof -
  have "balanced N sem_restarts sem_waits (sem_queue s') ((sem_at s)(t := p)) (sem_resume s')"
    by (rule balanced_move [OF sem_invD(2) [OF assms(1)] assms(2,5)])
  then show ?thesis using assms(3,4,6,7) by (simp add: sem_inv_def)
qed

lemmas sem_simps = sem_go_def sem_return_def sem_fail_def

text \<open>A thread that neither waits nor restarts another one before or after, and leaves the queue.\<close>

lemma sem_inv_local:
  assumes "sem_inv N enabled units s" "t < N" "\<not> sem_waits (sem_at s t)" "sem_restarts (sem_at s t) = []"
    and "sem_at s' = (sem_at s)(t := p)" "\<not> sem_waits p" "sem_restarts p = []"
    and "sem_queue s' = sem_queue s" "sem_resume s' = sem_resume s" "p_woken_by_cancel s' = p_woken_by_cancel s"
    and "\<And>x. p_canceled s x \<Longrightarrow> p_canceled s' x" "\<And>x. x \<noteq> t \<Longrightarrow> p_sem_avail s' x = p_sem_avail s x"
    and "sem_value (sm s') = 0 \<or> sem_queue s = []" "sem_value (sm s') + units = sem_value (sm s) + units'"
  shows "sem_inv N enabled units' s'"
proof -
  note b = sem_invD(2) [OF assms(1)] and f = sem_invD(3) [OF assms(1)]
  have nq: "t \<notin> set (sem_queue s)" by (rule sem_not_queued [OF b assms(3)])
  have fl: "flight s' = flight s" using assms(3,5,6,8,10) by (auto simp: flight_def)
  have "sem_flags N enabled s'"
    unfolding sem_flags_def fl assms(8,10)
  proof (intro allI conjI impI)
    fix x
    have fx: "x \<noteq> t" if "x \<in> flight s" using that assms(3) by (auto simp: flight_def)
    have gr: "(sem_at s' u = Sem_grant x) = (sem_at s u = Sem_grant x)" for u x
      using assms(4,5,7) by (cases "u = t") auto
    show "\<not> p_sem_avail s' x" "\<not> p_woken_by_cancel s x" if "x \<in> set (sem_queue s)"
      using that f nq assms(12) [of x] by (auto simp: sem_flags_def)
    show "p_sem_avail s' x \<or> (\<exists>u<N. sem_at s' u = Sem_grant x)" if "x \<in> flight s"
      using that f fx [OF that] assms(12) [of x] by (simp add: sem_flags_def gr)
    assume "p_woken_by_cancel s x"
    then have "enabled x" "p_canceled s x" "sem_waits (sem_at s x)" "x \<notin> set (sem_queue s)" "\<not> p_sem_avail s x"
      using f by (simp_all add: sem_flags_def)
    moreover from this have "x \<noteq> t" using assms(3) by auto
    ultimately show "enabled x" "p_canceled s' x" "sem_waits (sem_at s' x)" "x \<notin> set (sem_queue s)" "\<not> p_sem_avail s' x"
      using assms(5,11,12) by auto
  next
    fix x u assume "sem_at s' u = Sem_grant x"
    then have "sem_at s u = Sem_grant x" using assms(5,7) by (cases "u = t") auto
    then show "\<not> p_woken_by_cancel s x" using f by (auto simp: sem_flags_def)
  next
    fix x assume "N \<le> x"
    then show "sem_at s' x = Sem_idle" using f assms(2,5) by (auto simp: sem_flags_def)
  qed
  then show ?thesis
    by (rule sem_inv_move [OF assms(1,2,5), rotated 2])
      (use assms(3,4,6-9,13,14) fl sem_invD(4) [OF assms(1)] in simp_all)
qed

lemma sem_idle_inv:
  assumes "sem_inv N enabled units s" "t < N" "sem_at s t = Sem_idle"
  shows "sem_inv N enabled units (sem_return t s)" "sem_inv N enabled units (sem_fail t e s)"
    "sem_value (sm s) > 0 \<Longrightarrow> sem_inv N enabled (units - 1) (sem_take t s)"
    "sem_queue s = [] \<Longrightarrow> sem_inv N enabled (units + 1) (sem_return t (s\<lparr>sm := (sm s)\<lparr>sem_value := sem_value (sm s) + 1\<rparr>\<rparr>))"
    "sem_inv N enabled units (sem_return t (s\<lparr>p_canceled := (p_canceled s)(th := True)\<rparr>))"
proof -
  have i: "\<not> sem_waits (sem_at s t)" "sem_restarts (sem_at s t) = []" using assms(3) by simp_all
  note a = sem_invD(1,4) [OF assms(1)]
  show "sem_inv N enabled units (sem_return t s)" "sem_inv N enabled units (sem_fail t e s)"
    "sem_inv N enabled units (sem_return t (s\<lparr>p_canceled := (p_canceled s)(th := True)\<rparr>))"
    by (rule sem_inv_local [OF assms(1,2) i, where p = Sem_idle], use a in \<open>simp_all add: sem_simps\<close>)+
  show "sem_inv N enabled (units - 1) (sem_take t s)" if "sem_value (sm s) > 0"
    by (rule sem_inv_local [OF assms(1,2) i, where p = Sem_idle]) (use a that in \<open>simp_all add: sem_simps sem_take_def\<close>)
  show "sem_inv N enabled (units + 1) (sem_return t (s\<lparr>sm := (sm s)\<lparr>sem_value := sem_value (sm s) + 1\<rparr>\<rparr>))"
    if "sem_queue s = []"
    by (rule sem_inv_local [OF assms(1,2) i, where p = Sem_idle]) (use a that in \<open>simp_all add: sem_simps\<close>)
qed

lemma sem_block_inv:
  assumes "sem_inv N enabled units s" "t < N" "sem_at s t = Sem_idle" "sem_value (sm s) = 0"
  shows "sem_inv N enabled units (sem_block prio enabled t timed s)"
proof (cases "p_canceled s t \<and> enabled t")
  case True
  show ?thesis
    by (rule sem_inv_local [OF assms(1,2), where p = Sem_exited])
      (use True assms(3,4) in \<open>simp_all add: sem_block_def sem_simps Let_def\<close>)
next
  case False
  let ?s = "sem_block prio enabled t timed s"
  note b = sem_invD(2) [OF assms(1)] and f = sem_invD(3) [OF assms(1)]
  have s': "sem_at ?s = (sem_at s)(t := Sem_suspended timed)" "sem_queue ?s = enqueue prio (sem_queue s) t"
    "sem_value (sm ?s) = 0" "sem_resume ?s = sem_resume s" "p_woken_by_cancel ?s = p_woken_by_cancel s" "p_canceled ?s = p_canceled s"
    "p_sem_avail ?s = (p_sem_avail s)(t := False)"
    using False assms(4) by (simp_all add: sem_block_def sem_simps Let_def)
  have nw: "\<not> p_woken_by_cancel s t" using f assms(3) by (metis sem_flags_def sem_waits.simps(4))
  have fl: "flight ?s = flight s" using assms(3) by (auto simp: flight_def s')
  have nf: "t \<notin> flight s" using assms(3) by (simp add: flight_def)
  have gr: "sem_at ?s u = Sem_grant x \<longleftrightarrow> sem_at s u = Sem_grant x" for u x using assms(3) by (simp add: s')
  have "sem_flags N enabled ?s"
    using f nw nf assms(2,3) unfolding sem_flags_def fl gr s'(2,5-7) by (auto simp: s'(1))
  then show ?thesis
    by (rule sem_inv_move [OF assms(1,2) s'(1), rotated 2])
      (use assms(3) fl s' sem_invD(4) [OF assms(1)] assms(4) in simp_all)
qed

lemma sem_post_inv:
  assumes "sem_inv N enabled units s" "t < N" "sem_at s t = Sem_idle"
  shows "sem_inv N enabled (if sem_queue s = [] \<and> sem_value (sm s) \<ge> SEM_VALUE_MAX then units else units + 1) (sem_post t s)"
proof (cases "sem_queue s")
  case Nil
  then show ?thesis using sem_idle_inv [OF assms] by (simp add: sem_post_def dequeue_def)
next
  case (Cons th q)
  let ?s = "sem_post t s"
  note b = sem_invD(2) [OF assms(1)] and f = sem_invD(3) [OF assms(1)]
  have s': "sem_at ?s = (sem_at s)(t := Sem_grant th)" "sem_queue ?s = q" "sem_value (sm ?s) = sem_value (sm s)"
    "sem_resume ?s = sem_resume s" "p_woken_by_cancel ?s = p_woken_by_cancel s" "p_canceled ?s = p_canceled s"
    "p_sem_avail ?s = p_sem_avail s"
    by (simp_all add: sem_post_def dequeue_def Cons sem_simps)
  have q: "set (sem_queue s) = insert th (set q)" "th \<notin> set q" using queue_without [OF b, of th q] Cons by simp_all
  have th: "sem_waits (sem_at s th)" "\<not> p_woken_by_cancel s th" using balanced_queue(1) [OF b, of th] f q(1) by (auto simp: sem_flags_def)
  have tn: "t \<noteq> th" "\<not> sem_waits (sem_at s t)" using th(1) assms(3) by auto
  have fl: "flight ?s = insert th (flight s)" "th \<notin> flight s"
    unfolding flight_def s'(1,2,5) q(1) using q(2) th tn by (auto split: if_splits)
  have gr: "sem_at ?s u = Sem_grant x \<longleftrightarrow> (if u = t then x = th else sem_at s u = Sem_grant x)" for u x by (auto simp: s')
  have "sem_flags N enabled ?s"
    unfolding sem_flags_def fl gr s'(2,5-7)
  proof (intro allI conjI impI)
    fix x
    show "p_sem_avail s x \<or> (\<exists>u<N. if u = t then x = th else sem_at s u = Sem_grant x)" if "x \<in> insert th (flight s)"
    proof (cases "x = th")
      case True
      then show ?thesis using assms(2) by auto
    next
      case False
      then have "p_sem_avail s x \<or> (\<exists>u<N. sem_at s u = Sem_grant x)" using that f by (simp add: sem_flags_def)
      then show ?thesis using assms(3) by (metis sem_pc.distinct(7))
    qed
  qed (use f q th assms(2,3) in \<open>auto simp: sem_flags_def s'(1) split: if_splits\<close>)
  then show ?thesis
    by (rule sem_inv_move [OF assms(1,2) s'(1), rotated 2])
      (use assms(3) fl s' sem_invD(1,4) [OF assms(1)] flight_finite [OF f] Cons in simp_all)
qed

lemma sem_cancel_inv:
  assumes "sem_inv N enabled units s" "t < N" "sem_at s t = Sem_idle"
  shows "sem_inv N enabled units (sem_cancel enabled th t s)"
proof (cases "enabled th \<and> \<not> p_canceled s th \<and> p_extricate s th")
  case False
  then show ?thesis using sem_idle_inv(5) [OF assms, of th] by (auto simp: sem_cancel_def Let_def)
next
  case True
  let ?s = "sem_cancel enabled th t s"
  obtain d q where r: "remove_from_queue (sem_queue s) th = (d, q)" by (cases "remove_from_queue (sem_queue s) th")
  note rf = remove_queue_facts [OF r]
  note b = sem_invD(2) [OF assms(1)] and f = sem_invD(3) [OF assms(1)]
  have nw: "\<not> p_woken_by_cancel s th" using f True by (auto simp: sem_flags_def)
  show ?thesis
  proof (cases d)
    case False
    then have "(p_woken_by_cancel s)(th := False) = p_woken_by_cancel s" "q = sem_queue s" using nw rf(3) by (auto simp: fun_upd_idem_iff)
    then have "?s = sem_return t (s\<lparr>p_canceled := (p_canceled s)(th := True), sm := (sm s)\<lparr>sem_waiting := sem_queue s\<rparr>, p_woken_by_cancel := p_woken_by_cancel s\<rparr>)"
      using True False by (simp add: sem_cancel_def r Let_def)
    also have "\<dots> = sem_return t (s\<lparr>p_canceled := (p_canceled s)(th := True)\<rparr>)" by simp
    finally show ?thesis using sem_idle_inv(5) [OF assms, of th] by simp
  next
    case d: True
    have s': "sem_at ?s = (sem_at s)(t := Sem_restart th)" "sem_queue ?s = q" "sem_value (sm ?s) = sem_value (sm s)"
      "sem_resume ?s = sem_resume s" "p_woken_by_cancel ?s = (p_woken_by_cancel s)(th := True)"
      "p_canceled ?s = (p_canceled s)(th := True)" "p_sem_avail ?s = p_sem_avail s"
      using True d by (simp_all add: sem_cancel_def r sem_simps Let_def)
    have q: "set (sem_queue s) = insert th (set q)" "th \<notin> set q" using queue_without [OF b rf(4) [OF d]] by simp_all
    have th: "sem_waits (sem_at s th)" "\<not> p_sem_avail s th" using balanced_queue(1) [OF b, of th] f q(1) by (auto simp: sem_flags_def)
    have tn: "t \<noteq> th" "\<not> sem_waits (sem_at s t)" using th(1) assms(3) by auto
    have fl: "flight ?s = flight s" unfolding flight_def s'(1,2,5) q(1) using q(2) tn by (auto split: if_splits)
    have ng: "sem_at s u \<noteq> Sem_grant th" for u
    proof
      assume g: "sem_at s u = Sem_grant th"
      then have "u < N" using f by (metis not_le sem_flags_def sem_pc.distinct(7))
      then show False using balanced_pending(2) [OF b, of u th] g q(1) by simp
    qed
    have gr: "sem_at ?s u = Sem_grant x \<longleftrightarrow> sem_at s u = Sem_grant x" for u x using assms(3) by (simp add: s')
    note fd = sem_flagsD [OF f]
    have "sem_flags N enabled ?s"
    proof (rule sem_flagsI, unfold fl gr s'(2,5-7))
      show "\<not> p_sem_avail s x \<and> \<not> ((p_woken_by_cancel s)(th := True)) x" if "x \<in> set q" for x
        using that fd(1,2) [of x] q by auto
      show "p_sem_avail s x \<or> (\<exists>u<N. sem_at s u = Sem_grant x)" if "x \<in> flight s" for x using that by (rule fd(3))
      show "enabled x \<and> ((p_canceled s)(th := True)) x \<and> sem_waits (sem_at ?s x) \<and> x \<notin> set q \<and> \<not> p_sem_avail s x"
        if "((p_woken_by_cancel s)(th := True)) x" for x
        using that True q th tn fd(4-8) [of x] by (cases "x = th") (auto simp: s'(1))
      show "\<not> ((p_woken_by_cancel s)(th := True)) x" if "sem_at s u = Sem_grant x" for x u using that fd(9) ng by auto
      show "sem_at ?s x = Sem_idle" if "N \<le> x" for x using that fd(10) [OF that] assms(2) by (simp add: s'(1))
    qed
    then show ?thesis
      by (rule sem_inv_move [OF assms(1,2) s'(1), rotated 2])
        (use assms(3) fl s' sem_invD(1,4) [OF assms(1)] rf(2) rf(4) [OF d] in auto)
  qed
qed

text \<open>The histories are no matter of the invariant.\<close>

lemma sem_inv_history [simp]: "sem_inv N enabled units (s\<lparr>got := g, posted := p\<rparr>) \<longleftrightarrow> sem_inv N enabled units s"
  "sem_inv N enabled units (s\<lparr>got := g\<rparr>) \<longleftrightarrow> sem_inv N enabled units s"
  by (simp_all add: sem_inv_def sem_flags_def flight_def)

definition sem_counts :: "nat \<Rightarrow> (tid \<Rightarrow> bool) \<Rightarrow> nat \<Rightarrow> sem_sys \<Rightarrow> bool" where
  "sem_counts N enabled val s \<longleftrightarrow> (\<exists>units. sem_inv N enabled units s \<and> units + got s = val + posted s)"

lemma sem_countsI: "sem_inv N enabled units s \<Longrightarrow> units + got s = val + posted s \<Longrightarrow> sem_counts N enabled val s"
  by (auto simp: sem_counts_def)

lemma sem_call_history:
  "got (sem_call prio enabled t c s) = got s" "posted (sem_call prio enabled t c s) = posted s"
  by (cases c; simp add: sem_call_def sem_wait_def sem_timedwait_def sem_trywait_def sem_post_def sem_destroy_def sem_cancel_def
    sem_take_def sem_block_def sem_simps dequeue_def Let_def split: list.split prod.split)+

lemma sem_call_inv:
  assumes "sem_inv N enabled units s" "t < N" "sem_at s t = Sem_idle"
  shows "sem_inv N enabled
    (units + (if c = Sem_post \<and> \<not> (sem_at (sem_call prio enabled t c s) t = Sem_idle \<and> sem_ret (sem_call prio enabled t c s) t \<noteq> 0) then 1 else 0)
      - (if is_wait c \<and> sem_at (sem_call prio enabled t c s) t = Sem_idle \<and> sem_ret (sem_call prio enabled t c s) t = 0 then 1 else 0))
    (sem_call prio enabled t c s)"
proof -
  have blocked: "sem_at (sem_block prio enabled t timed s) t \<noteq> Sem_idle" for timed by (simp add: sem_block_def sem_simps Let_def)
  have taken: "sem_at (sem_take t s) t = Sem_idle" "sem_ret (sem_take t s) t = 0" by (simp_all add: sem_take_def sem_simps)
  have failed: "sem_ret (sem_fail t e s) t = - 1" for e by (simp add: sem_simps)
  have post: "(sem_at (sem_post t s) t = Sem_idle \<and> sem_ret (sem_post t s) t \<noteq> 0) \<longleftrightarrow> sem_queue s = [] \<and> sem_value (sm s) \<ge> SEM_VALUE_MAX"
    by (cases "sem_queue s") (simp_all add: sem_post_def dequeue_def sem_simps)
  have posted: "sem_queue s = [] \<and> sem_value (sm s) \<ge> SEM_VALUE_MAX \<Longrightarrow> sem_inv N enabled units (sem_post t s)"
    "\<not> (sem_queue s = [] \<and> sem_value (sm s) \<ge> SEM_VALUE_MAX) \<Longrightarrow> sem_inv N enabled (Suc units) (sem_post t s)"
    using sem_post_inv [OF assms] by (simp_all split: if_splits)
  show ?thesis
    using sem_idle_inv [OF assms] sem_block_inv [OF assms] posted sem_cancel_inv [OF assms]
    by (cases c) (simp_all add: sem_call_def sem_wait_def sem_timedwait_def sem_trywait_def sem_destroy_def blocked taken failed post del: not_less)
qed

text \<open>A thread that is restarted has been given the semaphore or has been cancelled: there are no other restarts.\<close>

lemma resumed_reason:
  assumes "sem_inv N enabled units s" "sem_waits (sem_at s t)" "sem_resume s t \<noteq> 0"
  shows "t \<notin> set (sem_queue s)" "p_woken_by_cancel s t \<or> p_sem_avail s t"
proof -
  note b = sem_invD(2) [OF assms(1)] and f = sem_invD(3) [OF assms(1)]
  show nq: "t \<notin> set (sem_queue s)" using balanced_queue(2) [OF b, of t] assms(3) by auto
  show "p_woken_by_cancel s t \<or> p_sem_avail s t"
  proof (rule ccontr)
    assume n: "\<not> ?thesis"
    then have "t \<in> flight s" using assms(2) nq by (simp add: flight_def)
    then obtain u where "u < N" "sem_at s u = Sem_grant t" using sem_flagsD(3) [OF f, of t] n by blast
    then show False using balanced_pending(3) [OF b, of u t] assms(3) by simp
  qed
qed

lemma sem_woken_inv:
  assumes "sem_inv N enabled units s" "t < N" "sem_waits (sem_at s t)" "sem_resume s t \<noteq> 0"
  shows "sem_inv N enabled (if p_woken_by_cancel s t then units else units - 1)
    (sem_woken enabled t timed (s\<lparr>sem_resume := (sem_resume s)(t := sem_resume s t - 1)\<rparr>))"
proof -
  define w where "w = sem_woken enabled t timed (s\<lparr>sem_resume := (sem_resume s)(t := sem_resume s t - 1)\<rparr>)"
  note b = sem_invD(2) [OF assms(1)] and f = sem_invD(3) [OF assms(1)]
  note fd = sem_flagsD [OF f] and rr = resumed_reason [OF assms(1,3,4)]
  let ?w = "p_woken_by_cancel s t" and ?p = "if p_woken_by_cancel s t then Sem_exited else Sem_idle"
  have np: "sem_restarts (sem_at s t) = []" using assms(3) by (cases "sem_at s t") auto
  have s': "sem_at w = (sem_at s)(t := ?p)" "sem_queue w = sem_queue s" "sem_value (sm w) = sem_value (sm s)"
    "sem_resume w = (sem_resume s)(t := sem_resume s t - 1)" "p_woken_by_cancel w = (p_woken_by_cancel s)(t := False)"
    "p_canceled w = p_canceled s" "p_sem_avail w = p_sem_avail s" 
    using rr(2) fd(4,8) [of t] by (auto simp: w_def sem_woken_def sem_simps Let_def fun_eq_iff)
  have fl: "flight w = flight s - {t}" unfolding flight_def s'(1,2,5) by (auto split: if_splits)
  have gr: "sem_at w u = Sem_grant x \<longleftrightarrow> sem_at s u = Sem_grant x" for u x using assms(3) by (auto simp: s'(1))
  have inf: "t \<in> flight s \<longleftrightarrow> \<not> ?w" using rr(1) assms(3) by (simp add: flight_def)
  have "sem_flags N enabled w"
  proof (rule sem_flagsI, unfold fl gr s'(2,5-7))
    show "\<not> p_sem_avail s x \<and> \<not> ((p_woken_by_cancel s)(t := False)) x" if "x \<in> set (sem_queue s)" for x
      using fd(1,2) [OF that] by simp
    show "p_sem_avail s x \<or> (\<exists>u<N. sem_at s u = Sem_grant x)" if "x \<in> flight s - {t}" for x using that fd(3) by blast
    show "enabled x \<and> p_canceled s x \<and> sem_waits (sem_at w x) \<and> x \<notin> set (sem_queue s) \<and> \<not> p_sem_avail s x"
      if "((p_woken_by_cancel s)(t := False)) x" for x
      using that fd(4-8) [of x] by (cases "x = t") (auto simp: s'(1))
    show "\<not> ((p_woken_by_cancel s)(t := False)) x" if "sem_at s u = Sem_grant x" for x u using fd(9) [OF that] by simp
    show "sem_at w x = Sem_idle" if "N \<le> x" for x using fd(10) [OF that] that assms(2) by (simp add: s'(1))
  qed
  moreover have "sem_value (sm w) + card (flight w) = (if ?w then units else units - 1)"
  proof -
    have "card (flight s - {t}) + (if ?w then 0 else 1) = card (flight s)"
      using inf card.remove [OF flight_finite [OF f], of t] by (cases ?w) auto
    then show ?thesis unfolding fl s'(3) using sem_invD(4) [OF assms(1)] by (auto split: if_splits)
  qed
  ultimately show ?thesis unfolding w_def [symmetric]
    by (intro sem_inv_move [OF assms(1,2) s'(1)]) (use s' assms(3,4) np sem_invD(1) [OF assms(1)] in auto)
qed

text \<open>A thread that goes from one place of waiting to another.\<close>

lemma sem_still_waiting:
  assumes "sem_inv N enabled units s" "t < N" "sem_waits (sem_at s t)" "sem_waits p"
  shows "sem_inv N enabled units (sem_go t p s)"
proof -
  let ?s = "sem_go t p s"
  note f = sem_invD(3) [OF assms(1)]
  note fd = sem_flagsD [OF f]
  have s': "sem_at ?s = (sem_at s)(t := p)" "sm ?s = sm s" "sem_resume ?s = sem_resume s" "p_woken_by_cancel ?s = p_woken_by_cancel s"
    "p_canceled ?s = p_canceled s" "p_sem_avail ?s = p_sem_avail s"
    by (simp_all add: sem_simps)
  have r: "sem_restarts q = []" if "sem_waits q" for q using that by (cases q) auto
  have fl: "flight ?s = flight s" unfolding flight_def s'(1,2,4) using assms(3,4) by auto
  have gr: "sem_at ?s u = Sem_grant x \<longleftrightarrow> sem_at s u = Sem_grant x" for u x using assms(3,4) by (auto simp: s'(1))
  have "sem_flags N enabled ?s"
  proof (rule sem_flagsI, unfold fl gr s'(2,4-6))
    show "enabled x \<and> p_canceled s x \<and> sem_waits (sem_at ?s x) \<and> x \<notin> set (sem_queue s) \<and> \<not> p_sem_avail s x"
      if "p_woken_by_cancel s x" for x using fd(4-8) [OF that] assms(4) by (auto simp: s'(1))
    show "sem_at ?s x = Sem_idle" if "N \<le> x" for x using fd(10) [OF that] that assms(2) by (simp add: s'(1))
  qed (use fd in blast)+
  then show ?thesis
    by (rule sem_inv_move [OF assms(1,2) s'(1), rotated 2]) (use s' r [OF assms(3)] r [OF assms(4)] assms(3,4) fl sem_invD(1,4) [OF assms(1)] in simp_all)
qed

lemma sem_extricate_inv:
  assumes "sem_inv N enabled units s" "t < N" "sem_at s t = Sem_expired"
  shows "sem_inv N enabled units (sem_extricate t s)"
proof -
  obtain d q where r: "remove_from_queue (sem_queue s) t = (d, q)" by (cases "remove_from_queue (sem_queue s) t")
  note rf = remove_queue_facts [OF r] and b = sem_invD(2) [OF assms(1)] and f = sem_invD(3) [OF assms(1)]
  note fd = sem_flagsD [OF f]
  show ?thesis
  proof (cases d)
    case False
    then have "sem_extricate t s = sem_go t Sem_eat s" using r rf(3) by (simp add: sem_extricate_def sem_simps)
    then show ?thesis using sem_still_waiting [OF assms(1,2), of Sem_eat] assms(3) by simp
  next
    case d: True
    let ?s = "sem_extricate t s"
    have s': "sem_at ?s = (sem_at s)(t := Sem_idle)" "sem_queue ?s = q" "sem_value (sm ?s) = sem_value (sm s)"
      "sem_resume ?s = sem_resume s" "p_woken_by_cancel ?s = p_woken_by_cancel s"
      "p_canceled ?s = p_canceled s" "p_sem_avail ?s = p_sem_avail s"
      using d by (simp_all add: sem_extricate_def r sem_simps Let_def)
    have q: "set (sem_queue s) = insert t (set q)" "t \<notin> set q" using queue_without [OF b rf(4) [OF d]] by simp_all
    have nw: "\<not> p_woken_by_cancel s t" using fd(2) [of t] q(1) by simp
    have fl: "flight ?s = flight s" unfolding flight_def s'(1,2,5) q(1) by (auto split: if_splits)
    have gr: "sem_at ?s u = Sem_grant x \<longleftrightarrow> sem_at s u = Sem_grant x" for u x using assms(3) by (auto simp: s'(1))
    have "sem_flags N enabled ?s"
    proof (rule sem_flagsI, unfold fl gr s'(2,5-7))
      show "\<not> p_sem_avail s x \<and> \<not> p_woken_by_cancel s x" if "x \<in> set q" for x using fd(1,2) [of x] that q(1) by simp
      show "enabled x \<and> p_canceled s x \<and> sem_waits (sem_at ?s x) \<and> x \<notin> set q \<and> \<not> p_sem_avail s x"
        if "p_woken_by_cancel s x" for x using fd(4-8) [OF that] nw that q(1) by (cases "x = t") (auto simp: s'(1))
      show "sem_at ?s x = Sem_idle" if "N \<le> x" for x using fd(10) [OF that] that assms(2) by (simp add: s'(1))
    qed (use fd in blast)+
    then show ?thesis
      by (rule sem_inv_move [OF assms(1,2) s'(1), rotated 2])
        (use assms(3) fl s' sem_invD(1,4) [OF assms(1)] rf(4) [OF d] in auto)
  qed
qed

lemma sem_grant_inv:
  assumes "sem_inv N enabled units s" "t < N" "sem_at s t = Sem_grant th"
  shows "sem_inv N enabled units (sem_go t (Sem_restart th) (s\<lparr>p_sem_avail := (p_sem_avail s)(th := True)\<rparr>))"
proof -
  let ?s = "sem_go t (Sem_restart th) (s\<lparr>p_sem_avail := (p_sem_avail s)(th := True)\<rparr>)"
  note b = sem_invD(2) [OF assms(1)] and f = sem_invD(3) [OF assms(1)]
  note fd = sem_flagsD [OF f]
  have s': "sem_at ?s = (sem_at s)(t := Sem_restart th)" "sm ?s = sm s" "sem_resume ?s = sem_resume s"
    "p_woken_by_cancel ?s = p_woken_by_cancel s" "p_canceled ?s = p_canceled s" "p_sem_avail ?s = (p_sem_avail s)(th := True)"
    by (simp_all add: sem_simps)
  have th: "sem_waits (sem_at s th)" "th \<notin> set (sem_queue s)" using balanced_pending [OF b assms(2), of th] assms(3) by simp_all
  have nw: "\<not> p_woken_by_cancel s th" by (rule fd(9) [OF assms(3)])
  have fl: "flight ?s = flight s" unfolding flight_def s'(1,2,4) using assms(3) by auto
  have "sem_flags N enabled ?s"
  proof (rule sem_flagsI, unfold fl s'(2,4-6))
    show "\<not> ((p_sem_avail s)(th := True)) x \<and> \<not> p_woken_by_cancel s x" if "x \<in> set (sem_queue s)" for x
      using fd(1,2) [OF that] that th(2) by auto
    show "((p_sem_avail s)(th := True)) x \<or> (\<exists>u<N. sem_at ?s u = Sem_grant x)" if "x \<in> flight s" for x
    proof (cases "x = th")
      case False
      from fd(3) [OF that] show ?thesis
      proof
        assume "\<exists>u<N. sem_at s u = Sem_grant x"
        then obtain u where "u < N" "sem_at s u = Sem_grant x" by blast
        moreover from this have "u \<noteq> t" using assms(3) False by auto
        ultimately show ?thesis unfolding s'(1) by auto
      qed (use False in simp)
    qed simp
    show "enabled x \<and> p_canceled s x \<and> sem_waits (sem_at ?s x) \<and> x \<notin> set (sem_queue s) \<and> \<not> ((p_sem_avail s)(th := True)) x"
      if "p_woken_by_cancel s x" for x using fd(4-8) [OF that] that nw assms(3) by (cases "x = th"; cases "x = t") (auto simp: s'(1))
    show "\<not> p_woken_by_cancel s x" if "sem_at ?s u = Sem_grant x" for x u using that fd(9) by (cases "u = t") (auto simp: s'(1))
    show "sem_at ?s x = Sem_idle" if "N \<le> x" for x using fd(10) [OF that] that assms(2) by (simp add: s'(1))
  qed
  then show ?thesis
    by (rule sem_inv_move [OF assms(1,2) s'(1), rotated 2]) (use s' assms(3) fl sem_invD(1,4) [OF assms(1)] in simp_all)
qed

lemma sem_restart_inv:
  assumes "sem_inv N enabled units s" "t < N" "sem_at s t = Sem_restart th"
  shows "sem_inv N enabled units (sem_return t (s\<lparr>sem_resume := restart th (sem_resume s)\<rparr>))"
proof -
  let ?s = "sem_return t (s\<lparr>sem_resume := restart th (sem_resume s)\<rparr>)"
  note f = sem_invD(3) [OF assms(1)]
  note fd = sem_flagsD [OF f]
  have s': "sem_at ?s = (sem_at s)(t := Sem_idle)" "sm ?s = sm s" "sem_resume ?s = (sem_resume s)(th := sem_resume s th + 1)"
    "p_woken_by_cancel ?s = p_woken_by_cancel s" "p_canceled ?s = p_canceled s" "p_sem_avail ?s = p_sem_avail s"
    by (simp_all add: sem_simps restart_def)
  have fl: "flight ?s = flight s" unfolding flight_def s'(1,2,4) using assms(3) by auto
  have gr: "sem_at ?s u = Sem_grant x \<longleftrightarrow> sem_at s u = Sem_grant x" for u x using assms(3) by (auto simp: s'(1))
  have "sem_flags N enabled ?s"
  proof (rule sem_flagsI, unfold fl gr s'(2,4-6))
    show "enabled x \<and> p_canceled s x \<and> sem_waits (sem_at ?s x) \<and> x \<notin> set (sem_queue s) \<and> \<not> p_sem_avail s x"
      if "p_woken_by_cancel s x" for x using fd(4-8) [OF that] assms(3) by (cases "x = t") (auto simp: s'(1))
    show "sem_at ?s x = Sem_idle" if "N \<le> x" for x using fd(10) [OF that] that assms(2) by (simp add: s'(1))
  qed (use fd in blast)+
  then show ?thesis
    by (rule sem_inv_move [OF assms(1,2) s'(1), rotated 2]) (use s' assms(3) fl sem_invD(1,4) [OF assms(1)] in simp_all)
qed

text \<open>A step inside an operation takes a unit when it makes a wait return 0.\<close>

lemma sem_advance_inv:
  assumes "sem_inv N enabled units s" "t < N" "sem_advance enabled expire t s = Some s'"
  shows "sem_inv N enabled (units - (if sem_waits (sem_at s t) \<and> sem_at s' t = Sem_idle \<and> sem_ret s' t = 0 then 1 else 0)) s'"
proof -
  let ?w = "\<lambda>timed. sem_woken enabled t timed (s\<lparr>sem_resume := (sem_resume s)(t := sem_resume s t - 1)\<rparr>)"
  have woken: "(sem_at (?w timed) t = Sem_idle \<and> sem_ret (?w timed) t = 0) \<longleftrightarrow> \<not> p_woken_by_cancel s t"
    if "sem_waits (sem_at s t)" "sem_resume s t \<noteq> 0" for timed
    using resumed_reason(2) [OF assms(1) that] sem_flagsD(4,8) [OF sem_invD(3) [OF assms(1)], of t]
    by (auto simp: sem_woken_def sem_simps Let_def)
  show ?thesis
  proof (cases "sem_at s t")
    case (Sem_suspended timed)
    then show ?thesis
      using assms(3) sem_woken_inv [OF assms(1,2), of timed] woken [of timed] sem_still_waiting [OF assms(1,2), of Sem_expired]
      by (auto simp: sem_advance_def suspend_def sem_go_def split: if_splits)
  next
    case Sem_eat
    then show ?thesis
      using assms(3) sem_woken_inv [OF assms(1,2), of True] woken [of True] by (auto simp: sem_advance_def suspend_def split: if_splits)
  next
    case Sem_expired
    then have "\<not> (sem_at s' t = Sem_idle \<and> sem_ret s' t = 0)"
      using assms(3) by (auto simp: sem_advance_def sem_extricate_def sem_simps Let_def split: prod.splits if_splits)
    then show ?thesis using sem_extricate_inv [OF assms(1,2) Sem_expired] assms(3) Sem_expired by (auto simp: sem_advance_def)
  qed (use assms sem_grant_inv [OF assms(1,2)] sem_restart_inv [OF assms(1,2)] in \<open>auto simp: sem_advance_def\<close>)
qed

lemma sem_advance_history:
  "sem_advance enabled expire t s = Some s' \<Longrightarrow> got s' = got s \<and> posted s' = posted s"
  by (auto simp: sem_advance_def sem_woken_def sem_extricate_def sem_simps Let_def split: sem_pc.splits option.splits if_splits prod.splits)

text \<open>A wait takes only a unit that is there.\<close>

lemma sem_call_units:
  assumes "sem_inv N enabled units s" "is_wait c" "sem_at (sem_call prio enabled t c s) t = Sem_idle" "sem_ret (sem_call prio enabled t c s) t = 0"
  shows "0 < units"
  using assms(2-4) sem_invD(4) [OF assms(1)]
  by (cases c) (auto simp: sem_call_def sem_wait_def sem_timedwait_def sem_trywait_def sem_block_def sem_simps Let_def split: if_splits)

lemma sem_advance_units:
  assumes "sem_inv N enabled units s" "sem_waits (sem_at s t)" "sem_advance enabled expire t s = Some s'" "sem_at s' t = Sem_idle" "sem_ret s' t = 0"
  shows "0 < units"
proof -
  have r: "sem_resume s t \<noteq> 0"
    using assms(2-5) by (cases "sem_at s t")
      (auto simp: sem_advance_def suspend_def sem_extricate_def sem_simps Let_def split: if_splits prod.splits)
  have "\<not> p_woken_by_cancel s t"
    using assms(2-5) sem_flagsD(4,8) [OF sem_invD(3) [OF assms(1)], of t] r
    by (cases "sem_at s t") (auto simp: sem_advance_def suspend_def sem_woken_def sem_extricate_def sem_simps Let_def split: if_splits prod.splits)
  then have "t \<in> flight s" using resumed_reason(1) [OF assms(1,2) r] assms(2) by (simp add: flight_def)
  then have "0 < card (flight s)" using flight_finite [OF sem_invD(3) [OF assms(1)]] by (auto simp: card_gt_0_iff)
  then show ?thesis using sem_invD(4) [OF assms(1)] by simp
qed

lemma sem_step_counts:
  assumes "sem_step N prio enabled s s'" "sem_counts N enabled val s"
  shows "sem_counts N enabled val s'"
proof -
  obtain units where u: "sem_inv N enabled units s" "units + got s = val + posted s" using assms(2) by (auto simp: sem_counts_def)
  from assms(1) show ?thesis
  proof (cases rule: sem_step.cases)
    case (sem_calls t c)
    show ?thesis
      by (rule sem_countsI, unfold sem_calls(1) sem_count_call_def sem_inv_history(1), rule sem_call_inv [OF u(1) sem_calls(2,3)])
        (use u(2) sem_call_units [OF u(1), of c prio t] in \<open>auto simp: sem_call_history\<close>)
  next
    case (sem_runs t expire s1)
    show ?thesis
      by (rule sem_countsI, unfold sem_runs(1) sem_count_run_def sem_inv_history(2), rule sem_advance_inv [OF u(1) sem_runs(2,3)])
        (use u(2) sem_advance_units [OF u(1) _ sem_runs(3)] sem_advance_history [OF sem_runs(3)] in auto)
  qed
qed

lemma sem_reachable_counts: "sem_reachable N prio enabled val s \<Longrightarrow> sem_counts N enabled val s"
proof (induction rule: sem_reachable.induct)
  case sem_initial
  have "sem_inv N enabled val (sem_start val)" by (simp add: sem_inv_def sem_start_def balanced_def sem_flags_def flight_def)
  then show ?case by (rule sem_countsI) (simp add: sem_start_def)
next
  case (sem_further s s')
  then show ?case by (blast intro: sem_step_counts)
qed

lemma sem_reachable_inv:
  assumes "sem_reachable N prio enabled val s"
  obtains units where "sem_inv N enabled units s" "units + got s = val + posted s"
  using sem_reachable_counts [OF assms] unfolding sem_counts_def by blast

interpretation sem_places: wait_places sem_restarts sem_waits
proof
  fix p assume "sem_waits p"
  then show "sem_restarts p = []" by (cases p) auto
qed

lemma sem_value_step:
  assumes "sem_step N prio enabled s s'" "sem_value (sm s) \<le> SEM_VALUE_MAX"
  shows "sem_value (sm s') \<le> SEM_VALUE_MAX"
  using assms
proof (cases rule: sem_step.cases)
  case (sem_calls t c)
  then show ?thesis using assms(2)
    by (cases c) (auto simp: sem_call_def sem_wait_def sem_timedwait_def sem_trywait_def sem_post_def sem_destroy_def sem_cancel_def
      sem_take_def sem_block_def sem_simps sem_count_call_def dequeue_def Let_def split: list.split prod.split)
next
  case (sem_runs t expire)
  then show ?thesis using assms(2)
    by (auto simp: sem_advance_def sem_woken_def sem_extricate_def sem_simps sem_count_run_def Let_def split: sem_pc.splits option.splits if_splits prod.splits)
qed

lemma sem_value_reachable: "sem_reachable N prio enabled val s \<Longrightarrow> val \<le> SEM_VALUE_MAX \<Longrightarrow> sem_value (sm s) \<le> SEM_VALUE_MAX"
  by (induction rule: sem_reachable.induct) (auto simp: sem_start_def intro: sem_value_step)

section \<open>Barriers: the invariant\<close>
























section \<open>Runs\<close>

datatype sem_act = Sem_call_of tid sem_op | Sem_run tid bool

fun sem_exec :: "nat \<Rightarrow> (tid \<Rightarrow> int) \<Rightarrow> (tid \<Rightarrow> bool) \<Rightarrow> sem_act list \<Rightarrow> sem_sys \<Rightarrow> sem_sys option" where
  "sem_exec N prio enabled [] s = Some s"
| "sem_exec N prio enabled (Sem_call_of t c # acts) s =
     (if t < N \<and> sem_at s t = Sem_idle then sem_exec N prio enabled acts (sem_count_call t c (sem_call prio enabled t c s)) else None)"
| "sem_exec N prio enabled (Sem_run t expire # acts) s =
     (if t < N then Option.bind (sem_advance enabled expire t s) (\<lambda>s'. sem_exec N prio enabled acts (sem_count_run t (sem_waits (sem_at s t)) s')) else None)"

lemma sem_exec_reachable:
  "sem_exec N prio enabled acts s = Some s' \<Longrightarrow> sem_reachable N prio enabled val s \<Longrightarrow> sem_reachable N prio enabled val s'"
proof (induction acts arbitrary: s)
  case (Cons act acts)
  show ?case
  proof (cases act)
    case (Sem_call_of t c)
    then show ?thesis using Cons sem_further [OF Cons.prems(2) sem_calls] by (auto split: if_splits)
  next
    case (Sem_run t expire)
    then show ?thesis using Cons sem_further [OF Cons.prems(2) sem_runs] by (auto split: if_splits bind_splits)
  qed
qed simp

section \<open>Properties\<close>

text \<open>A unit is on its way to a thread when a thread that posts has taken the thread off the queue and has still to give it the
  unit, or has given it and has still to call \<open>restart\<close>, or when the restart has come and the thread has still to run.\<close>

definition handed :: "nat \<Rightarrow> sem_sys \<Rightarrow> tid set" where
  "handed N s = {x. (\<exists>u<N. sem_at s u = Sem_grant x) \<or>
     p_sem_avail s x \<and> sem_waits (sem_at s x) \<and> ((\<exists>u<N. sem_at s u = Sem_restart x) \<or> sem_resume s x > 0)}"

lemma restarts_cases: "x \<in> set (sem_restarts p) \<longleftrightarrow> p = Sem_grant x \<or> p = Sem_restart x"
  by (cases p) auto

lemma handed_flight:
  assumes "sem_inv N enabled units s"
  shows "handed N s = flight s"
proof (intro set_eqI iffI)
  note b = sem_invD(2) [OF assms] and f = sem_flagsD [OF sem_invD(3) [OF assms]]
  fix x
  show "x \<in> flight s" if "x \<in> handed N s"
  proof -
    have "sem_waits (sem_at s x)" "x \<notin> set (sem_queue s)" "\<not> p_woken_by_cancel s x"
      using that balanced_pending [OF b, of _ x] balanced_queue(2) [OF b, of x] f(8) [of x] f(9) [of _ x]
      by (auto simp: handed_def restarts_cases)
    then show ?thesis by (simp add: flight_def)
  qed
  show "x \<in> handed N s" if "x \<in> flight s"
  proof (cases "\<exists>u<N. sem_at s u = Sem_grant x")
    case False
    have x: "sem_waits (sem_at s x)" "x \<notin> set (sem_queue s)" "p_sem_avail s x"
      using that f(3) [OF that] False by (auto simp: flight_def)
    have "(\<exists>u<N. sem_at s u = Sem_restart x) \<or> sem_resume s x > 0"
      using balanced_owed [OF b x(1,2)] False by (auto simp: restarts_cases)
    then show ?thesis using x by (simp add: handed_def)
  qed (simp add: handed_def)
qed

text \<open>When no thread that is in an operation can go on, every waiting thread is in the queue and no unit is on its way.\<close>

lemma sem_quiet:
  assumes "sem_inv N enabled units s" "\<And>u. u < N \<Longrightarrow> sem_advance enabled True u s = None"
  shows "sem_waits (sem_at s t) \<Longrightarrow> t \<in> set (sem_queue s)" "flight s = {}"
proof -
  note i = sem_invD [OF assms(1)]
  have lt: "x < N" if "sem_waits (sem_at s x)" for x
    using sem_flagsD(10) [OF i(3), of x] that by (cases "N \<le> x") auto
  have r: "sem_restarts (sem_at s u) = []" if "u < N" for u
    using assms(2) [OF that] by (cases "sem_at s u") (auto simp: sem_advance_def)
  have q: "x \<in> set (sem_queue s)" if "sem_waits (sem_at s x)" for x
  proof (rule sem_places.asleep [OF i(2) r that])
    show "suspend x (sem_resume s) = None"
      using assms(2) [OF lt [OF that]] that by (cases "sem_at s x") (auto simp: sem_advance_def split: option.splits)
  qed
  then show "sem_waits (sem_at s t) \<Longrightarrow> t \<in> set (sem_queue s)" by blast
  show "flight s = {}" using q by (auto simp: flight_def)
qed

text \<open>C39: in every interleaving of waits, posts, timeouts and cancellations no unit of a semaphore is lost or made twice: its
  value, the units on their way to a thread that is restarted or is about to be, and the waits that returned 0 are
  together the initial value and the posts that did not fail. Threads queue only while the value is 0, the value
  never passes its maximum, and when no thread inside an operation can go on then no unit is on its way and all the
  threads that wait are in the queue, so that later posts find them. The signal that \<open>pthread_cancel\<close> sends to a thread
  which does not wait is not part of the model.\<close>

theorem semaphore_conservation:
  assumes "sem_reachable N prio enabled val s" "val \<le> SEM_VALUE_MAX"
  shows "sem_value (sm s) + card (handed N s) + got s = val + posted s \<and> (sem_value (sm s) = 0 \<or> sem_queue s = []) \<and>
    distinct (sem_queue s) \<and> sem_value (sm s) \<le> SEM_VALUE_MAX \<and>
    ((\<forall>u<N. sem_advance enabled True u s = None) \<longrightarrow> handed N s = {} \<and> {t. sem_waits (sem_at s t)} = set (sem_queue s))"
proof -
  obtain units where u: "sem_inv N enabled units s" "units + got s = val + posted s" by (rule sem_reachable_inv [OF assms(1)])
  note i = sem_invD [OF u(1)]
  have "handed N s = {} \<and> {t. sem_waits (sem_at s t)} = set (sem_queue s)" if "\<forall>u<N. sem_advance enabled True u s = None"
    using sem_quiet [OF u(1)] that handed_flight [OF u(1)] balanced_queue(1) [OF i(2)] by auto
  then show ?thesis
    using i u(2) handed_flight [OF u(1)] balanced_distinct [OF i(2)] sem_value_reachable [OF assms] by simp
qed


section \<open>Witnesses\<close>

lemmas sem_eval = sem_call_def sem_wait_def sem_post_def sem_take_def sem_block_def sem_advance_def sem_woken_def sem_simps Let_def
  dequeue_def suspend_def sem_start_def restart_def sem_count_call_def sem_count_run_def

text \<open>Thread 0 takes the only unit, thread 1 has to wait; then thread 0 posts and is about to restart thread 1.\<close>

definition sem_acts :: "sem_act list" where
  "sem_acts = [Sem_call_of 0 Sem_wait, Sem_call_of 1 Sem_wait, Sem_call_of 0 Sem_post, Sem_run 0 False]"

lemma sem_acts_run:
  obtains s where "sem_exec 2 (\<lambda>_. 0) (\<lambda>_. True) sem_acts (sem_start 1) = Some s" "sem_at s 0 = Sem_restart 1" "sem_value (sm s) = 0"
    "got s = 1" "posted s = 1"
  by (simp add: sem_acts_def sem_eval)

theorem semaphore_conservation_witness:
  "\<exists>s. sem_exec 2 (\<lambda>_. 0) (\<lambda>_. True) sem_acts (sem_start 1) = Some s \<and> got s = 1 \<and> posted s = 1 \<and> card (handed 2 s) = 1"
proof -
  obtain s where s: "sem_exec 2 (\<lambda>_. 0) (\<lambda>_. True) sem_acts (sem_start 1) = Some s" "sem_value (sm s) = 0" "got s = 1" "posted s = 1"
    by (rule sem_acts_run)
  have "sem_reachable 2 (\<lambda>_. 0) (\<lambda>_. True) 1 s" by (rule sem_exec_reachable [OF s(1) sem_initial])
  from semaphore_conservation [OF this] show ?thesis using s by (simp add: SEM_VALUE_MAX_def)
qed







end
