(* ===== verification/Stdio.thy ===== *)
theory Stdio
  imports Prelude "HOL-Library.Monad_Syntax"
begin

text \<open>
  Buffered streams (\<open>libc/stdio\<close>), with narrow characters: the configuration with buffers, wide-character support,
  the \<open>getc\<close> and \<open>putc\<close> macros, automatic transitions between reading and writing, custom streams and 64-bit offsets.
  Locks and the list of open streams are left out.

  The bits of \<open>__modeflags\<close> are fields of the record, the two bits of \<open>__MASK_READING\<close>, which the code uses as a number, are the
  number \<open>f_reading\<close>. The buffer is a list of bytes; the pointers into it are offsets from \<open>__bufstart\<close>, and \<open>__bufend\<close> is its
  length. \<open>errno\<close> and the cookie are part of the record.

  The functions that a stream calls to read, write, seek and close are a parameter, as in \<open>struct __gcs\<close>; \<open>None\<close> is a null pointer.
  They work on the cookie, which stands for everything behind the stream. A failure (\<open>Inl\<close>) may set \<open>errno\<close>.
  \<open>flush_others\<close> is what flushing the other, line buffered, streams does there.

  An operation returns \<open>None\<close> when it does not return: a write function may write nothing for ever, and a read function
  that claims more bytes than there is room for makes the code abort.
\<close>

type_synonym 'r io_result = "nat option + 'r"

record 'c cookie_io =
  io_read :: "('c \<Rightarrow> nat \<Rightarrow> byte list io_result \<times> 'c) option"
  io_write :: "('c \<Rightarrow> byte list \<Rightarrow> nat io_result \<times> 'c) option"
  io_seek :: "('c \<Rightarrow> int \<Rightarrow> int \<Rightarrow> int io_result \<times> 'c) option"
  io_close :: "('c \<Rightarrow> unit io_result \<times> 'c) option"
  flush_others :: "'c \<Rightarrow> 'c"

datatype bufmode = FBF | LBF | NBF

record 'c FILE =
  f_reading :: nat
  f_eof :: bool
  f_error :: bool
  f_writeonly :: bool
  f_readonly :: bool
  f_writing :: bool
  f_narrow :: bool
  f_wide :: bool
  f_bufmode :: bufmode
  f_append :: bool
  f_freefile :: bool
  f_freebuf :: bool
  ungot :: "int \<times> int"
  filedes :: int
  bufdata :: "byte list"
  bufpos :: nat
  bufread :: nat
  bufgetc_u :: nat
  bufputc_u :: nat
  cookie :: 'c
  f_errno :: nat

definition SSIZE_MAX :: nat where "SSIZE_MAX = 2 ^ 31 - 1"
definition SIZE_T_MAX :: nat where "SIZE_T_MAX = 2 ^ 32 - 1"
definition EOF :: int where "EOF = - 1"
definition SEEK_SET :: int where "SEEK_SET = 0"
definition SEEK_CUR :: int where "SEEK_CUR = 1"
definition SEEK_END :: int where "SEEK_END = 2"
definition newline :: byte where "newline = 10"

section \<open>Flags and calls of the functions of a stream\<close>

abbreviation IS_FAKE_VSNPRINTF :: "'c FILE \<Rightarrow> bool" where "IS_FAKE_VSNPRINTF s \<equiv> filedes s = - 2"
abbreviation IS_FAKE_VSSCANF :: "'c FILE \<Rightarrow> bool" where "IS_FAKE_VSSCANF s \<equiv> filedes s = - 2"

definition has_ungot :: "'c FILE \<Rightarrow> bool" where
  "has_ungot s \<longleftrightarrow> odd (f_reading s div 2)"

definition IS_NARROW_READING :: "'c FILE \<Rightarrow> bool" where
  "IS_NARROW_READING s \<longleftrightarrow> f_narrow s \<and> f_reading s \<noteq> 0"

definition IS_NARROW_WRITING :: "'c FILE \<Rightarrow> bool" where
  "IS_NARROW_WRITING s \<longleftrightarrow> f_narrow s \<and> f_writing s"

definition io_error :: "nat option \<Rightarrow> 'c \<Rightarrow> 'c FILE \<Rightarrow> 'c FILE" where
  "io_error e c s = s\<lparr>cookie := c, f_errno := (case e of None \<Rightarrow> f_errno s | Some n \<Rightarrow> n)\<rparr>"

definition READ_io :: "'c cookie_io \<Rightarrow> nat \<Rightarrow> 'c FILE \<Rightarrow> byte list option \<times> 'c FILE" where
  "READ_io io n s =
     (case io_read io of
        None \<Rightarrow> (None, s)
      | Some f \<Rightarrow> (case f (cookie s) n of
          (Inl e, c) \<Rightarrow> (None, io_error e c s)
        | (Inr bs, c) \<Rightarrow> (Some bs, s\<lparr>cookie := c\<rparr>)))"

definition WRITE_io :: "'c cookie_io \<Rightarrow> byte list \<Rightarrow> 'c FILE \<Rightarrow> nat option \<times> 'c FILE" where
  "WRITE_io io d s =
     (case io_write io of
        None \<Rightarrow> (None, s)
      | Some f \<Rightarrow> (case f (cookie s) d of
          (Inl e, c) \<Rightarrow> (None, io_error e c s)
        | (Inr n, c) \<Rightarrow> (Some n, s\<lparr>cookie := c\<rparr>)))"

definition SEEK_io :: "'c cookie_io \<Rightarrow> int \<Rightarrow> int \<Rightarrow> 'c FILE \<Rightarrow> int option \<times> 'c FILE" where
  "SEEK_io io pos whence s =
     (case io_seek io of
        None \<Rightarrow> (None, s)
      | Some f \<Rightarrow> (case f (cookie s) pos whence of
          (Inl e, c) \<Rightarrow> (None, io_error e c s)
        | (Inr p, c) \<Rightarrow> (Some p, s\<lparr>cookie := c\<rparr>)))"

definition CLOSE_io :: "'c cookie_io \<Rightarrow> 'c FILE \<Rightarrow> bool \<times> 'c FILE" where
  "CLOSE_io io s =
     (case io_close io of
        None \<Rightarrow> (True, s)
      | Some f \<Rightarrow> (case f (cookie s) of
          (Inl e, c) \<Rightarrow> (False, io_error e c s)
        | (Inr _, c) \<Rightarrow> (True, s\<lparr>cookie := c\<rparr>)))"

section \<open>Writing\<close>

text \<open>The copy into the buffer after an error; \<open>lbf\<close> for a line buffered stream.\<close>

fun fill :: "bool \<Rightarrow> byte list \<Rightarrow> nat \<Rightarrow> byte list \<Rightarrow> byte list \<times> nat" where
  "fill lbf b s [] = (b, s)"
| "fill lbf b s (x # xs) = (if x = newline \<and> lbf then (b[s := x], s) else fill lbf (b[s := x]) (s + 1) xs)"

definition write_failed :: "nat \<Rightarrow> byte list \<Rightarrow> 'c FILE \<Rightarrow> nat \<times> 'c FILE" where
  "write_failed bufsize data s =
     (let s1 = s\<lparr>f_error := True\<rparr>
      in if f_errno s \<noteq> EINTR \<and> f_errno s \<noteq> EAGAIN then (bufsize, s1)
         else if bufdata s = [] then (bufsize - length data, s1)
         else (case fill (f_bufmode s = LBF) (bufdata s) 0 (take (length (bufdata s)) data) of
                 (b, k) \<Rightarrow> (bufsize - (length data - k), s1\<lparr>bufdata := b, bufpos := k\<rparr>)))"

partial_function (option) write_loop :: "'c cookie_io \<Rightarrow> nat \<Rightarrow> byte list \<Rightarrow> 'c FILE \<Rightarrow> (nat \<times> 'c FILE) option" where
  "write_loop io bufsize data s =
     (if data = [] then Some (bufsize, s)
      else (case WRITE_io io (take SSIZE_MAX data) s of
              (Some rv, s1) \<Rightarrow> if rv > length (take SSIZE_MAX data) then None else write_loop io bufsize (drop rv data) s1
            | (None, s1) \<Rightarrow> Some (write_failed bufsize data s1)))"

definition stdio_WRITE :: "'c cookie_io \<Rightarrow> byte list \<Rightarrow> 'c FILE \<Rightarrow> (nat \<times> 'c FILE) option" where
  "stdio_WRITE io data s = write_loop io (length data) data s"

definition stdio_wcommit :: "'c cookie_io \<Rightarrow> 'c FILE \<Rightarrow> (nat \<times> 'c FILE) option" where
  "stdio_wcommit io s =
     (if bufpos s \<noteq> 0 then
        do { (_, s1) \<leftarrow> stdio_WRITE io (take (bufpos s) (bufdata s)) (s\<lparr>bufpos := 0\<rparr>); Some (bufpos s1, s1) }
      else Some (bufpos s, s))"

text \<open>\<open>memcpy\<close> to \<open>__bufpos\<close>.\<close>

definition buffer_add :: "byte list \<Rightarrow> 'c FILE \<Rightarrow> 'c FILE" where
  "buffer_add d s = s\<lparr>bufdata := take (bufpos s) (bufdata s) @ d @ drop (bufpos s + length d) (bufdata s), bufpos := bufpos s + length d\<rparr>"

definition WAVAIL :: "'c FILE \<Rightarrow> nat" where
  "WAVAIL s = length (bufdata s) - bufpos s"

text \<open>The index of the first newline.\<close>

fun find_newline :: "byte list \<Rightarrow> nat option" where
  "find_newline [] = None"
| "find_newline (x # xs) = (if x = newline then Some 0 else map_option Suc (find_newline xs))"

definition stdio_fwrite :: "'c cookie_io \<Rightarrow> byte list \<Rightarrow> 'c FILE \<Rightarrow> (nat \<times> 'c FILE) option" where
  "stdio_fwrite io data s =
     (if f_bufmode s \<noteq> NBF then
        if IS_FAKE_VSNPRINTF s then Some (length data, buffer_add (take (WAVAIL s) data) s)
        else if length data \<le> WAVAIL s then
          (let s1 = buffer_add data s
           in if f_bufmode s = LBF \<and> newline \<in> set data then
                do { (pending0, s2) \<leftarrow> stdio_wcommit io s1;
                  (let pending = min pending0 (length data)
                   in if pending > 0 then
                        (case find_newline (drop (length data - pending) data) of
                           None \<Rightarrow> Some (length data, s2)
                         | Some p \<Rightarrow> Some (length data - (pending - p), s2\<lparr>bufpos := bufpos s2 - (pending - p)\<rparr>))
                      else Some (length data, s2)) }
              else Some (length data, s1))
        else if bufpos s \<noteq> 0 then
          do { (pending, s1) \<leftarrow> stdio_wcommit io s; if pending \<noteq> 0 then Some (0, s1) else stdio_WRITE io data s1 }
        else stdio_WRITE io data s
      else stdio_WRITE io data s)"

section \<open>Positions\<close>

definition wrap64 :: "int \<Rightarrow> int" where
  "wrap64 x = (x + 2 ^ 63) mod 2 ^ 64 - 2 ^ 63"

text \<open>The return value, and the corrected position.\<close>

definition adjust_position :: "int \<Rightarrow> 'c FILE \<Rightarrow> int \<times> int \<times> 'c FILE" where
  "adjust_position pos s =
     (let corr0 = int (f_reading s - 1);
          corr = corr0 + (int (if f_writing s then 0 else bufread s) - int (bufpos s));
          pos1 = wrap64 (pos - corr);
          corr1 = (if pos1 > pos then - corr else corr)
      in (corr1, pos1, if corr1 < 0 then s\<lparr>f_errno := EOVERFLOW\<rparr> else s))"

definition init_bufread_bufpos :: "'c FILE \<Rightarrow> 'c FILE" where
  "init_bufread_bufpos s = s\<lparr>bufread := 0, bufpos := 0\<rparr>"

definition seek_reset :: "'c FILE \<Rightarrow> 'c FILE" where
  "seek_reset s = init_bufread_bufpos (s\<lparr>f_reading := 0, f_writing := False, f_eof := False, bufgetc_u := 0, bufputc_u := 0\<rparr>)"

definition fseeko64 :: "'c cookie_io \<Rightarrow> int \<Rightarrow> int \<Rightarrow> 'c FILE \<Rightarrow> (int \<times> 'c FILE) option" where
  "fseeko64 io offset whence s =
     (if whence < 0 \<or> whence > 2 then Some (- 1, s\<lparr>f_errno := EINVAL\<rparr>)
      else do {
        (pending, s1) \<leftarrow> (if f_writing s then stdio_wcommit io s else Some (0, s));
        if pending \<noteq> 0 then Some (- 1, s1)
        else
          (let (corr, pos, s2) = (if whence \<noteq> SEEK_CUR then (0, offset, s1) else adjust_position offset s1)
           in if corr < 0 then Some (- 1, s2)
              else (case SEEK_io io pos whence s2 of
                      (None, s3) \<Rightarrow> Some (- 1, s3)
                    | (Some _, s3) \<Rightarrow> Some (0, seek_reset s3))) })"

definition ftello64 :: "'c cookie_io \<Rightarrow> 'c FILE \<Rightarrow> int \<times> 'c FILE" where
  "ftello64 io s =
     (case SEEK_io io 0 (if f_writing s \<and> f_append s then SEEK_END else SEEK_CUR) s of
        (None, s1) \<Rightarrow> (- 1, s1)
      | (Some pos, s1) \<Rightarrow> (case adjust_position pos s1 of (corr, pos1, s2) \<Rightarrow> (if corr < 0 then - 1 else pos1, s2)))"

definition rewind :: "'c cookie_io \<Rightarrow> 'c FILE \<Rightarrow> 'c FILE option" where
  "rewind io s = do { (_, s1) \<leftarrow> fseeko64 io 0 SEEK_SET (s\<lparr>f_error := False\<rparr>); Some s1 }"

section \<open>Transitions between reading and writing\<close>

definition set_ebadf :: "'c FILE \<Rightarrow> 'c FILE" where
  "set_ebadf s = s\<lparr>f_errno := EBADF, f_error := True\<rparr>"

text \<open>The orientation of the stream: \<open>None\<close> for a stream of wide characters.\<close>

definition set_narrow :: "'c FILE \<Rightarrow> 'c FILE option" where
  "set_narrow s = (if f_narrow s then Some s else if f_wide s then None else Some (s\<lparr>f_narrow := True\<rparr>))"

definition stop_reading :: "'c FILE \<Rightarrow> 'c FILE" where
  "stop_reading s = init_bufread_bufpos (s\<lparr>f_reading := 0, bufgetc_u := 0\<rparr>)"

definition start_writing :: "'c FILE \<Rightarrow> 'c FILE" where
  "start_writing s =
     (let s1 = s\<lparr>f_writing := True\<rparr>
      in if f_bufmode s = FBF \<and> \<not> f_wide s then s1\<lparr>bufputc_u := length (bufdata s)\<rparr> else s1)"

text \<open>The transitions return true on success.\<close>

definition stdio_trans2w :: "'c cookie_io \<Rightarrow> 'c FILE \<Rightarrow> (bool \<times> 'c FILE) option" where
  "stdio_trans2w io s =
     (case set_narrow s of
        None \<Rightarrow> Some (False, set_ebadf s)
      | Some s1 \<Rightarrow>
          if f_readonly s1 then Some (False, set_ebadf s1)
          else do {
            (retval, s2) \<leftarrow>
              (if f_reading s1 \<noteq> 0 \<and> \<not> f_eof s1 \<and> (bufread s1 - bufpos s1 \<noteq> 0 \<or> has_ungot s1)
               then fseeko64 io 0 (if f_append s1 then SEEK_END else SEEK_CUR) s1
               else Some (0, s1));
            if retval \<noteq> 0 then Some (False, s2\<lparr>f_error := True\<rparr>)
            else Some (True, start_writing (if f_reading s1 \<noteq> 0 then stop_reading s2 else s2)) })"

definition stdio_trans2r :: "'c cookie_io \<Rightarrow> 'c FILE \<Rightarrow> (bool \<times> 'c FILE) option" where
  "stdio_trans2r io s =
     (case set_narrow s of
        None \<Rightarrow> Some (False, set_ebadf s)
      | Some s1 \<Rightarrow>
          if f_writeonly s1 then Some (False, set_ebadf s1)
          else do {
            (pending, s2) \<leftarrow> (if f_writing s1 then stdio_wcommit io s1 else Some (0, s1));
            if pending \<noteq> 0 then Some (False, s2\<lparr>f_error := True\<rparr>)
            else
              (let s3 = (if f_writing s1 then s2\<lparr>bufputc_u := 0, f_writing := False\<rparr> else s2)
               in Some (True, s3\<lparr>f_reading := (if even (f_reading s3) then f_reading s3 + 1 else f_reading s3)\<rparr>)) })"

section \<open>Output functions\<close>

definition fputc_put :: "'c cookie_io \<Rightarrow> byte \<Rightarrow> 'c FILE \<Rightarrow> (int \<times> 'c FILE) option" where
  "fputc_put io uc s =
     (if bufdata s \<noteq> [] then do {
        (pending, s1) \<leftarrow> (if WAVAIL s = 0 then stdio_wcommit io s else Some (0, s));
        if pending \<noteq> 0 then Some (EOF, s1)
        else
          (let s2 = buffer_add [uc] s1
           in if f_bufmode s2 = LBF \<and> uc = newline then do {
                (pending, s3) \<leftarrow> stdio_wcommit io s2;
                if pending \<noteq> 0 then Some (EOF, s3\<lparr>bufpos := bufpos s3 - 1\<rparr>) else Some (uint uc, s3) }
              else Some (uint uc, s2)) }
      else do { (n, s1) \<leftarrow> stdio_WRITE io [uc] s; Some (if n = 0 then EOF else uint uc, s1) })"

definition fputc_unlocked :: "'c cookie_io \<Rightarrow> int \<Rightarrow> 'c FILE \<Rightarrow> (int \<times> 'c FILE) option" where
  "fputc_unlocked io c s =
     (let uc = word_of_int c :: byte
      in if bufpos s < bufputc_u s then Some (uint uc, buffer_add [uc] s)
         else do {
           (writing, s1) \<leftarrow> (if IS_NARROW_WRITING s then Some (True, s) else stdio_trans2w io s);
           if \<not> writing then Some (EOF, s1)
           else if IS_FAKE_VSNPRINTF s1 then Some (uint uc, s1)
           else fputc_put io uc s1 })"

text \<open>\<open>ptr\<close> is the memory that starts at the pointer.\<close>

definition fwrite_unlocked :: "'c cookie_io \<Rightarrow> byte list \<Rightarrow> nat \<Rightarrow> nat \<Rightarrow> 'c FILE \<Rightarrow> (nat \<times> 'c FILE) option" where
  "fwrite_unlocked io ptr size' nmemb s =
     do {
       (writing, s1) \<leftarrow> (if IS_NARROW_WRITING s then Some (True, s) else stdio_trans2w io s);
       if writing \<and> size' \<noteq> 0 \<and> nmemb \<noteq> 0 then
         if nmemb \<le> SIZE_T_MAX div size' then
           do { (n, s2) \<leftarrow> stdio_fwrite io (take (size' * nmemb) ptr) s1; Some (n div size', s2) }
         else Some (0, s1\<lparr>f_error := True, f_errno := EINVAL\<rparr>)
       else Some (0, s1) }"

text \<open>\<open>str\<close> is the string without its terminator. The number of its bytes is the result as it stands; the code converts it
  to \<open>int\<close>, which changes it for strings of \<open>2 ^ 31\<close> bytes and more.\<close>

definition fputs_unlocked :: "'c cookie_io \<Rightarrow> byte list \<Rightarrow> 'c FILE \<Rightarrow> (int \<times> 'c FILE) option" where
  "fputs_unlocked io str s =
     do { (n, s1) \<leftarrow> fwrite_unlocked io str 1 (length str) s; Some (if n = length str then int n else EOF, s1) }"

definition fflush_unlocked :: "'c cookie_io \<Rightarrow> 'c FILE \<Rightarrow> (int \<times> 'c FILE) option" where
  "fflush_unlocked io s =
     (if f_writing s then do {
        (pending, s1) \<leftarrow> stdio_wcommit io s;
        if pending = 0 then Some (0, s1\<lparr>bufputc_u := 0, f_writing := False\<rparr>) else Some (EOF, s1) }
      else Some (0, s))"

text \<open>\<open>fclose\<close>, up to the release of the memory.\<close>

definition fclose :: "'c cookie_io \<Rightarrow> 'c FILE \<Rightarrow> (int \<times> 'c FILE) option" where
  "fclose io s =
     do {
       (rv, s1) \<leftarrow> (if f_writing s then fflush_unlocked io s else Some (0, s));
       (case CLOSE_io io s1 of (closed, s2) \<Rightarrow>
          Some (if closed then rv else EOF,
            s2\<lparr>filedes := - 1, f_reading := 0, f_eof := False, f_error := False, f_writing := False, f_narrow := False, f_wide := False,
              f_bufmode := FBF, f_append := False, f_readonly := True, f_writeonly := True\<rparr>)) }"

section \<open>Input functions\<close>

definition stdio_READ :: "'c cookie_io \<Rightarrow> nat \<Rightarrow> 'c FILE \<Rightarrow> (byte list \<times> 'c FILE) option" where
  "stdio_READ io bufsize s =
     (if f_eof s then Some ([], s)
      else (case READ_io io (min bufsize SSIZE_MAX) s of
              (None, s1) \<Rightarrow> Some ([], s1\<lparr>f_error := True\<rparr>)
            | (Some bs, s1) \<Rightarrow>
                if bs = [] then Some ([], s1\<lparr>f_eof := True\<rparr>)
                else if length bs > min bufsize SSIZE_MAX then None
                else Some (bs, s1)))"

definition stdio_rfill :: "'c cookie_io \<Rightarrow> 'c FILE \<Rightarrow> (nat \<times> 'c FILE) option" where
  "stdio_rfill io s =
     do { (bs, s1) \<leftarrow> stdio_READ io (length (bufdata s)) s;
       Some (length bs, s1\<lparr>bufdata := bs @ drop (length bs) (bufdata s1), bufpos := 0, bufread := length bs\<rparr>) }"

definition buffer_get :: "'c FILE \<Rightarrow> byte \<times> 'c FILE" where
  "buffer_get s = (bufdata s ! bufpos s, s\<lparr>bufpos := bufpos s + 1\<rparr>)"

text \<open>The character pushed back last.\<close>

definition take_ungot :: "'c FILE \<Rightarrow> byte \<times> 'c FILE" where
  "take_ungot s =
     (word_of_int (if odd (f_reading s) then snd (ungot s) else fst (ungot s)),
      s\<lparr>f_reading := f_reading s - 1, ungot := (fst (ungot s), 0)\<rparr>)"

definition flush_lbf_streams :: "'c cookie_io \<Rightarrow> 'c FILE \<Rightarrow> 'c FILE" where
  "flush_lbf_streams io s = (if f_bufmode s \<noteq> FBF then s\<lparr>cookie := flush_others io (cookie s)\<rparr> else s)"

definition fgetc_fill :: "'c cookie_io \<Rightarrow> 'c FILE \<Rightarrow> (int \<times> 'c FILE) option" where
  "fgetc_fill io s =
     (if bufdata s \<noteq> [] then do {
        (n, s1) \<leftarrow> stdio_rfill io (s\<lparr>bufgetc_u := 0\<rparr>);
        if n \<noteq> 0 then Some (apfst uint (buffer_get (s1\<lparr>bufgetc_u := bufread s1\<rparr>))) else Some (EOF, s1) }
      else do {
        (bs, s1) \<leftarrow> stdio_READ io 1 s;
        Some (if bs \<noteq> [] then uint (hd bs) else EOF, s1) })"

definition fgetc_unlocked :: "'c cookie_io \<Rightarrow> 'c FILE \<Rightarrow> (int \<times> 'c FILE) option" where
  "fgetc_unlocked io s =
     (if bufpos s < bufgetc_u s then Some (apfst uint (buffer_get s))
      else do {
        (reading, s1) \<leftarrow> (if IS_NARROW_READING s then Some (True, s) else stdio_trans2r io s);
        if \<not> reading then Some (EOF, s1)
        else if has_ungot s1 then Some (apfst uint (take_ungot s1))
        else if bufread s1 - bufpos s1 \<noteq> 0 then Some (apfst uint (buffer_get s1))
        else if IS_FAKE_VSSCANF s1 then Some (EOF, s1\<lparr>f_eof := True\<rparr>)
        else fgetc_fill io (flush_lbf_streams io s1) })"

text \<open>The bytes that are stored are part of the result.\<close>

fun fread_ungots :: "nat \<Rightarrow> 'c FILE \<Rightarrow> byte list \<times> 'c FILE" where
  "fread_ungots 0 s = ([], s)"
| "fread_ungots (Suc todo) s =
     (if has_ungot s then
        (let (b, s1) = take_ungot s; (bs, s2) = fread_ungots todo s1 in (b # bs, s2))
      else ([], s))"

partial_function (option) fread_loop :: "'c cookie_io \<Rightarrow> nat \<Rightarrow> 'c FILE \<Rightarrow> (byte list \<times> 'c FILE) option" where
  "fread_loop io todo s =
     do { (bs, s1) \<leftarrow> stdio_READ io todo s;
       if bs = [] \<or> todo - length bs = 0 then Some (bs, s1)
       else do { (rest, s2) \<leftarrow> fread_loop io (todo - length bs) s1; Some (bs @ rest, s2) } }"

definition fread_bytes :: "'c cookie_io \<Rightarrow> nat \<Rightarrow> 'c FILE \<Rightarrow> (byte list \<times> 'c FILE) option" where
  "fread_bytes io bytes s =
     (case fread_ungots bytes s of (us, s1) \<Rightarrow>
        if bytes - length us = 0 then Some (us, s1)
        else
          (let todo = bytes - length us;
               avail = min (bufread s1 - bufpos s1) todo;
               bs = take avail (drop (bufpos s1) (bufdata s1));
               s2 = s1\<lparr>bufpos := bufpos s1 + avail\<rparr>
           in if todo - avail = 0 then Some (us @ bs, s2)
              else do { (rest, s3) \<leftarrow> fread_loop io (todo - avail) (flush_lbf_streams io s2); Some (us @ bs @ rest, s3) }))"

definition fread_unlocked :: "'c cookie_io \<Rightarrow> nat \<Rightarrow> nat \<Rightarrow> 'c FILE \<Rightarrow> ((nat \<times> byte list) \<times> 'c FILE) option" where
  "fread_unlocked io size' nmemb s =
     do {
       (reading, s1) \<leftarrow> (if IS_NARROW_READING s then Some (True, s) else stdio_trans2r io s);
       if reading \<and> size' \<noteq> 0 \<and> nmemb \<noteq> 0 then
         if nmemb \<le> SIZE_T_MAX div size' then
           do { (bs, s2) \<leftarrow> fread_bytes io (size' * nmemb) s1; Some ((length bs div size', bs), s2) }
         else Some ((0, []), s1\<lparr>f_error := True, f_errno := EINVAL\<rparr>)
       else Some ((0, []), s1) }"

text \<open>The loop of \<open>fgets\<close> with room for \<open>n\<close> more characters; \<open>None\<close> in the result for a null pointer.\<close>

primrec fgets_loop :: "'c cookie_io \<Rightarrow> nat \<Rightarrow> byte list \<Rightarrow> 'c FILE \<Rightarrow> (byte list option \<times> 'c FILE) option" where
  "fgets_loop io 0 p s = Some (if p \<noteq> [] then Some p else None, s)"
| "fgets_loop io (Suc n) p s =
     (if bufpos s < bufgetc_u s then
        (case buffer_get s of (b, s1) \<Rightarrow> if b = newline then Some (Some (p @ [b]), s1) else fgets_loop io n (p @ [b]) s1)
      else do {
        (c, s1) \<leftarrow> fgetc_unlocked io s;
        if c = EOF then Some (if \<not> f_error s1 \<and> p \<noteq> [] then Some p else None, s1)
        else if word_of_int c = newline then Some (Some (p @ [word_of_int c]), s1)
        else fgets_loop io n (p @ [word_of_int c]) s1 })"

definition fgets_unlocked :: "'c cookie_io \<Rightarrow> int \<Rightarrow> 'c FILE \<Rightarrow> (byte list option \<times> 'c FILE) option" where
  "fgets_unlocked io n s = (if n \<le> 0 then Some (None, s) else fgets_loop io (nat n - 1) [] s)"

definition ungetc :: "'c cookie_io \<Rightarrow> int \<Rightarrow> 'c FILE \<Rightarrow> (int \<times> 'c FILE) option" where
  "ungetc io c s =
     (if bufpos s < bufgetc_u s \<and> c \<noteq> EOF \<and> bufpos s > 0 \<and> bufdata s ! (bufpos s - 1) = word_of_int c then
        Some (c, s\<lparr>bufpos := bufpos s - 1, f_eof := False\<rparr>)
      else do {
        (reading, s1) \<leftarrow> (if IS_NARROW_READING s then Some (True, s) else stdio_trans2r io s);
        if \<not> reading \<or> has_ungot s1 \<and> (odd (f_reading s1) \<or> snd (ungot s1) \<noteq> 0) then Some (EOF, s1)
        else if c \<noteq> EOF then
          Some (c, s1\<lparr>bufgetc_u := 0, f_reading := f_reading s1 + 1, f_eof := False,
            ungot := (if odd (f_reading s1 + 1) then (fst (ungot s1), c) else (c, 1))\<rparr>)
        else Some (c, s1) })"

text \<open>\<open>getdelim\<close> with the size \<open>n\<close> of the buffer; \<open>mem\<close> says for which sizes \<open>realloc\<close> succeeds. The result, the size and the
  bytes in the buffer.\<close>

partial_function (option) getdelim_loop ::
  "'c cookie_io \<Rightarrow> (nat \<Rightarrow> bool) \<Rightarrow> int \<Rightarrow> nat \<Rightarrow> byte list \<Rightarrow> 'c FILE \<Rightarrow> ((int \<times> nat \<times> byte list) \<times> 'c FILE) option" where
  "getdelim_loop io mem delimiter n p s =
     (if length p + 1 \<ge> n \<and> \<not> mem (n + 64) then Some ((- 1, n, p), s)
      else do {
        (c, s1) \<leftarrow> fgetc_unlocked io s;
        (let n1 = (if length p + 1 \<ge> n then n + 64 else n);
             p1 = p @ [word_of_int c]
         in if c \<noteq> EOF then
              if c \<noteq> delimiter then getdelim_loop io mem delimiter n1 p1 s1 else Some ((int (length p1), n1, p1), s1)
            else Some ((if p = [] then - 1 else int (length p), n1, p), s1)) })"

definition getdelim :: "'c cookie_io \<Rightarrow> (nat \<Rightarrow> bool) \<Rightarrow> nat option \<Rightarrow> int \<Rightarrow> 'c FILE \<Rightarrow> ((int \<times> nat \<times> byte list) \<times> 'c FILE) option" where
  "getdelim io mem lineptr delimiter s = getdelim_loop io mem delimiter (case lineptr of None \<Rightarrow> 0 | Some n \<Rightarrow> n) [] s"

section \<open>Opening, buffers and the check of a stream\<close>

definition BUFSIZ :: nat where "BUFSIZ = 4096"

text \<open>The access mode and \<open>O_APPEND\<close> of a mode string; the letters after them only concern \<open>open\<close>.\<close>

definition fopen_mode :: "byte list \<Rightarrow> (nat \<times> bool) option" where
  "fopen_mode mode =
     (case mode of
        [] \<Rightarrow> None
      | m # ms \<Rightarrow>
          (let rest = (case ms of [] \<Rightarrow> [] | b # r \<Rightarrow> if b = 0x62 then r else ms);
               plus = (rest \<noteq> [] \<and> hd rest = 0x2b)
           in if m = 0x72 then Some (if plus then 2 else 0, False)
              else if m = 0x77 then Some (if plus then 2 else 1, False)
              else if m = 0x61 then Some (if plus then 2 else 1, True)
              else None))"

text \<open>As \<open>fopencookie\<close> calls it: for a new stream, with a descriptor that is not one (\<open>INT_MAX\<close>), so that nothing is opened and \<open>isatty\<close> is not
  asked. \<open>alloc\<close> is the block that \<open>malloc\<close> returns; the first argument says if there is memory for the stream itself.\<close>

definition stdio_fopen :: "bool \<Rightarrow> (nat \<Rightarrow> byte list option) \<Rightarrow> nat \<Rightarrow> 'c \<Rightarrow> int \<Rightarrow> byte list \<Rightarrow> nat + 'c FILE" where
  "stdio_fopen mem alloc e c fd mode =
     (case fopen_mode mode of
        None \<Rightarrow> Inl EINVAL
      | Some (acc, app) \<Rightarrow>
          if \<not> mem then Inl ENOMEM
          else
            (let block = alloc BUFSIZ
             in Inr \<lparr>f_reading = 0, f_eof = False, f_error = False, f_writeonly = (acc = 1), f_readonly = (acc = 0), f_writing = False,
                  f_narrow = False, f_wide = False, f_bufmode = FBF, f_append = app, f_freefile = True, f_freebuf = (block \<noteq> None),
                  ungot = (0, 0), filedes = fd, bufdata = (case block of None \<Rightarrow> [] | Some b \<Rightarrow> b),
                  bufpos = 0, bufread = 0, bufgetc_u = 0, bufputc_u = 0, cookie = c, f_errno = e\<rparr>))"

definition fopencookie :: "bool \<Rightarrow> (nat \<Rightarrow> byte list option) \<Rightarrow> nat \<Rightarrow> 'c \<Rightarrow> byte list \<Rightarrow> nat + 'c FILE" where
  "fopencookie mem alloc e c mode =
     (case stdio_fopen mem alloc e c (2 ^ 31 - 1) mode of
        Inl n \<Rightarrow> Inl n
      | Inr s \<Rightarrow> Inr (s\<lparr>filedes := - 1, cookie := c\<rparr>))"

text \<open>\<open>ubuf\<close> is the memory at \<open>buf\<close> when it is not null.\<close>

definition setvbuf :: "(nat \<Rightarrow> byte list option) \<Rightarrow> byte list option \<Rightarrow> int \<Rightarrow> nat \<Rightarrow> 'c FILE \<Rightarrow> int \<times> 'c FILE" where
  "setvbuf alloc ubuf mode size' s =
     (if mode < 0 \<or> mode > 2 then (EOF, s\<lparr>f_errno := EINVAL\<rparr>)
      else if f_reading s \<noteq> 0 \<or> f_writing s \<or> f_narrow s \<or> f_wide s \<or> f_error s \<or> f_eof s then (EOF, s)
      else
        (let s1 = s\<lparr>f_bufmode := (if mode = 0 then FBF else if mode = 1 then LBF else NBF)\<rparr>;
             change = (\<lambda>b fr. init_bufread_bufpos (s1\<lparr>f_freebuf := fr, bufdata := b, bufgetc_u := 0, bufputc_u := 0\<rparr>))
         in if mode = 2 \<or> size' = 0 then (0, change [] False)
            else (case ubuf of
                    Some m \<Rightarrow> (0, change (take size' m) False)
                  | None \<Rightarrow>
                      if length (bufdata s) = size' then (0, s1)
                      else (case alloc size' of None \<Rightarrow> (0, s1) | Some b \<Rightarrow> (0, change b True)))))"

definition clearerr_unlocked :: "'c FILE \<Rightarrow> 'c FILE" where
  "clearerr_unlocked s = s\<lparr>f_eof := False, f_error := False\<rparr>"

text \<open>The assertions of \<open>_stdio_validate_FILE\<close>, without the one about the address of the cookie and that of closed streams.\<close>

definition validate_FILE :: "'c FILE \<Rightarrow> bool" where
  "validate_FILE s \<longleftrightarrow>
     filedes s \<ge> - 3 \<and>
     (filedes s = - 2 \<longrightarrow> f_narrow s) \<and> (filedes s = - 3 \<longrightarrow> f_wide s) \<and>
     \<not> (f_narrow s \<and> f_wide s) \<and>
     (f_readonly s \<longrightarrow> \<not> f_writing s \<and> (has_ungot s \<longrightarrow> snd (ungot s) \<in> {0, 1} \<and> \<not> f_eof s)) \<and>
     (f_writeonly s \<longrightarrow> f_reading s = 0) \<and>
     (f_bufmode s = NBF \<longrightarrow> bufdata s = []) \<and>
     bufpos s \<le> length (bufdata s) \<and> bufread s \<le> length (bufdata s) \<and>
     (f_eof s \<longrightarrow> bufpos s = bufread s \<and> \<not> has_ungot s) \<and>
     (\<not> f_writing s \<longrightarrow> bufputc_u s = 0) \<and>
     (f_reading s = 0 \<longrightarrow> bufread s = 0 \<and> bufgetc_u s = 0) \<and>
     (f_reading s \<noteq> 0 \<longrightarrow> \<not> f_writing s \<and> bufpos s \<le> bufread s \<and> bufgetc_u s \<le> bufread s) \<and>
     (f_writing s \<longrightarrow> bufputc_u s \<le> length (bufdata s)) \<and>
     (has_ungot s \<or> f_wide s \<longrightarrow> bufputc_u s = 0 \<and> bufgetc_u s = 0)"

end
