(* ===== verification/Stdio_Proofs.thy ===== *)
theory Stdio_Proofs
  imports Stdio
begin

text \<open>
  What the functions behind a stream promise when they write (the locale \<open>cookie_writer\<close>), and the invariant of a stream: every operation keeps it,
  whatever these functions do, and it implies the assertions of \<open>_stdio_validate_FILE\<close>.
\<close>

section \<open>Files\<close>

text \<open>What a write at a position does to the bytes of a file: a gap before it is filled with zeros.\<close>

definition overwrite :: "nat \<Rightarrow> byte list \<Rightarrow> byte list \<Rightarrow> byte list" where
  "overwrite p d x = (if d = [] then x else take p (x @ replicate (p - length x) 0) @ d @ drop (p + length d) x)"

lemma overwrite_Nil [simp]: "overwrite p [] x = x"
  by (simp add: overwrite_def)

lemma length_overwrite: "length (overwrite p d x) = (if d = [] then length x else max (length x) (p + length d))"
  by (auto simp: overwrite_def)

lemma overwrite_append: "overwrite (p + length d1) d2 (overwrite p d1 x) = overwrite p (d1 @ d2) x"
proof (cases "d1 = [] \<or> d2 = []")
  case False
  then have "take (p + length d1) (overwrite p d1 x @ replicate (p + length d1 - length (overwrite p d1 x)) 0) =
      take p (x @ replicate (p - length x) 0) @ d1"
    by (simp add: overwrite_def)
  moreover have "drop (p + length d1 + length d2) (overwrite p d1 x) = drop (p + length d1 + length d2) x"
  proof -
    have "length (take p (x @ replicate (p - length x) 0)) = p" by simp
    then show ?thesis using False by (simp only: overwrite_def drop_append drop_drop if_False) (simp add: ac_simps)
  qed
  ultimately show ?thesis
    using False by (simp add: overwrite_def [of "p + length d1"] overwrite_def [of p "d1 @ d2"] add.assoc)
qed auto

lemma overwrite_end: "overwrite (length x) d x = x @ d"
  by (simp add: overwrite_def)

lemma overwrite_step:
  "overwrite (p + m) (take n (drop m d)) (overwrite p (take m d) x) = overwrite p (take (m + n) d) x" if "m \<le> length d"
  using overwrite_append [of p "take m d" "take n (drop m d)" x] that by (simp add: take_add min_absorb2)

section \<open>The functions of a stream\<close>

text \<open>
  What a stream relies on. The state behind a stream is a file: its bytes \<open>fdata\<close> and the position \<open>fpos\<close>. A write puts at
  least one byte at the position, or at the end of the file in append mode, or fails and leaves the file alone.
\<close>

definition wpos :: "bool \<Rightarrow> ('c \<Rightarrow> byte list) \<Rightarrow> ('c \<Rightarrow> nat) \<Rightarrow> 'c \<Rightarrow> nat" where
  "wpos app fdata fpos c = (if app then length (fdata c) else fpos c)"

definition write_law :: "bool \<Rightarrow> ('c \<Rightarrow> bool) \<Rightarrow> ('c \<Rightarrow> byte list) \<Rightarrow> ('c \<Rightarrow> nat) \<Rightarrow> 'c \<Rightarrow> byte list \<Rightarrow> nat io_result \<times> 'c \<Rightarrow> bool" where
  "write_law app ok fdata fpos c d r \<longleftrightarrow>
     ok (snd r) \<and>
     (case fst r of
        Inl _ \<Rightarrow> fdata (snd r) = fdata c \<and> wpos app fdata fpos (snd r) = wpos app fdata fpos c
      | Inr n \<Rightarrow> 0 < n \<and> n \<le> length d \<and> fdata (snd r) = overwrite (wpos app fdata fpos c) (take n d) (fdata c) \<and>
          fpos (snd r) = wpos app fdata fpos c + n)"

text \<open>Errors after which the data stays in the buffer.\<close>

definition soft_errors :: "'c cookie_io \<Rightarrow> bool" where
  "soft_errors io \<longleftrightarrow>
     (\<forall>w c d e. io_write io = Some w \<longrightarrow> fst (w c d) = Inl e \<longrightarrow> e = Some EINTR \<or> e = Some EAGAIN)"

lemma io_error_cookie [simp]: "io_error e c' (s\<lparr>cookie := c\<rparr>) = io_error e c' s"
  by (cases e) (simp_all add: io_error_def)

lemma write_loop_Nil: "write_loop io n [] s = Some (n, s)"
  by (subst write_loop.simps) simp

text \<open>Functions that do not fail.\<close>

definition no_errors :: "'c cookie_io \<Rightarrow> bool" where
  "no_errors io \<longleftrightarrow> (\<forall>w c d e. io_write io = Some w \<longrightarrow> fst (w c d) \<noteq> Inl e)"

lemma no_errors_soft: "no_errors io \<Longrightarrow> soft_errors io"
  by (simp add: no_errors_def soft_errors_def)

locale cookie_writer =
  fixes io :: "'c cookie_io" and app :: bool and ok :: "'c \<Rightarrow> bool" and fdata :: "'c \<Rightarrow> byte list" and fpos :: "'c \<Rightarrow> nat"
  assumes writes: "\<exists>w. io_write io = Some w \<and> (\<forall>c d. ok c \<longrightarrow> d \<noteq> [] \<longrightarrow> write_law app ok fdata fpos c d (w c d))"
begin

definition written :: "'c \<Rightarrow> byte list \<Rightarrow> nat \<Rightarrow> 'c \<Rightarrow> bool" where
  "written c d m c' \<longleftrightarrow> ok c' \<and> m \<le> length d \<and> fdata c' = overwrite (wpos app fdata fpos c) (take m d) (fdata c) \<and>
     wpos app fdata fpos c' = wpos app fdata fpos c + m"

lemma written_0: "ok c \<Longrightarrow> written c d 0 c"
  by (simp add: written_def)

lemma written_trans: "written c d m c1 \<Longrightarrow> written c1 (drop m d) n c2 \<Longrightarrow> written c d (m + n) c2"
  unfolding written_def using overwrite_step [of m d "wpos app fdata fpos c" n "fdata c"] by auto

lemma WRITE_io_cases:
  assumes "ok (cookie s)" "d \<noteq> []"
  obtains n c where "WRITE_io io d s = (Some n, s\<lparr>cookie := c\<rparr>)" "0 < n" "written (cookie s) d n c"
    | e c where "WRITE_io io d s = (None, io_error e c s)" "written (cookie s) d 0 c"
      "soft_errors io \<Longrightarrow> e = Some EINTR \<or> e = Some EAGAIN" "\<not> no_errors io"
proof -
  obtain w where w: "io_write io = Some w" "write_law app ok fdata fpos (cookie s) d (w (cookie s) d)"
    using writes assms by blast
  obtain r c where r: "w (cookie s) d = (r, c)" by fastforce
  show ?thesis
  proof (cases r)
    case (Inl e)
    have "WRITE_io io d s = (None, io_error e c s)" using w(1) r Inl by (simp add: WRITE_io_def)
    moreover have "written (cookie s) d 0 c" using w(2) r Inl by (simp add: write_law_def written_def)
    moreover have "soft_errors io \<Longrightarrow> e = Some EINTR \<or> e = Some EAGAIN"
      using w(1) r Inl unfolding soft_errors_def by (metis fst_conv)
    moreover have "\<not> no_errors io" using w(1) r Inl unfolding no_errors_def by (metis fst_conv)
    ultimately show ?thesis by (rule that(2))
  next
    case (Inr n)
    have "WRITE_io io d s = (Some n, s\<lparr>cookie := c\<rparr>)" using w(1) r Inr by (simp add: WRITE_io_def)
    moreover have l: "0 < n" "n \<le> length d" "fdata c = overwrite (wpos app fdata fpos (cookie s)) (take n d) (fdata (cookie s))"
      "fpos c = wpos app fdata fpos (cookie s) + n" "ok c"
      using w(2) r Inr by (simp_all add: write_law_def)
    moreover have "written (cookie s) d n c"
      using l assms(2) by (auto simp: written_def wpos_def length_overwrite)
    ultimately show ?thesis by (intro that(1))
  qed
qed

text \<open>The loop of \<open>__stdio_WRITE\<close> returns: all is written, or there is an error after some part.\<close>

lemma write_loop_result:
  assumes "ok (cookie s)"
  obtains c where "write_loop io n d s = Some (n, s\<lparr>cookie := c\<rparr>)" "written (cookie s) d (length d) c"
    | m e c where "write_loop io n d s = Some (write_failed n (drop m d) (io_error e c s))" "written (cookie s) d m c" "m < length d"
      "soft_errors io \<Longrightarrow> e = Some EINTR \<or> e = Some EAGAIN" "\<not> no_errors io"
  using assms
proof (induction d arbitrary: s thesis rule: length_induct)
  case (1 d)
  let ?d = "take SSIZE_MAX d"
  show ?case
  proof (cases "d = []")
    case True
    then show ?thesis using "1.prems"(1) [of "cookie s"] "1.prems"(3) by (simp add: write_loop_Nil written_0)
  next
    case False
    then have ne: "?d \<noteq> []" by (simp add: SSIZE_MAX_def)
    have cut: "written (cookie s) d k c" if "written (cookie s) ?d k c" for k c
      using that by (auto simp: written_def min_def split: if_splits)
    from "1.prems"(3) ne show ?thesis
    proof (cases rule: WRITE_io_cases)
      case (1 k c)
      have k: "k \<le> length ?d" "k \<le> length d" "0 < k" "ok c" using 1 by (auto simp: written_def)
      have eq: "write_loop io n d s = write_loop io n (drop k d) (s\<lparr>cookie := c\<rparr>)"
        using False 1(1) k by (subst write_loop.simps) auto
      have sh: "length (drop k d) < length d" using k by simp
      note wk = cut [OF 1(3)]
      have tr: "written (cookie s) d (k + m) c'" if "written c (drop k d) m c'" for m c'
        using written_trans [OF wk that] .
      have pr: "ok (cookie (s\<lparr>cookie := c\<rparr>))" using k by simp
      show ?thesis
      proof (rule "1.IH" [rule_format, OF sh _ _ pr])
        fix c' assume "write_loop io n (drop k d) (s\<lparr>cookie := c\<rparr>) = Some (n, s\<lparr>cookie := c, cookie := c'\<rparr>)"
          and "written (cookie (s\<lparr>cookie := c\<rparr>)) (drop k d) (length (drop k d)) c'"
        then show ?thesis using "1.prems"(1) [of c'] tr [of "length (drop k d)" c'] k eq by simp
      next
        fix m e c' assume a: "write_loop io n (drop k d) (s\<lparr>cookie := c\<rparr>) =
            Some (write_failed n (drop m (drop k d)) (io_error e c' (s\<lparr>cookie := c\<rparr>)))"
          and b: "written (cookie (s\<lparr>cookie := c\<rparr>)) (drop k d) m c'" "m < length (drop k d)"
          and e: "soft_errors io \<Longrightarrow> e = Some EINTR \<or> e = Some EAGAIN" "\<not> no_errors io"
        have "write_loop io n d s = Some (write_failed n (drop (k + m) d) (io_error e c' s))"
          using a eq by (simp add: add.commute)
        then show ?thesis using "1.prems"(2) [of "k + m" e c'] tr b e by simp
      qed
    next
      case (2 e c)
      have "write_loop io n d s = Some (write_failed n (drop 0 d) (io_error e c s))"
        using False 2(1) by (simp add: write_loop.simps [of io n d])
      moreover have "written (cookie s) d 0 c" by (rule cut [OF 2(2)])
      ultimately show ?thesis using "1.prems"(2) [of 0 e c] False 2(3,4) by blast
    qed
  qed
qed

end

section \<open>The invariant of a stream\<close>

text \<open>
  A stream writes, reads, or does neither; then its buffer is empty. The \<open>putc\<close> macro is on for fully buffered
  streams only, and the \<open>getc\<close> macro is off while a character is pushed back. (The pushed back characters are those of \<open>ungetc\<close>;
  \<open>scanf\<close> may add one more.)
\<close>

definition base_ok :: "'c FILE \<Rightarrow> bool" where
  "base_ok s \<longleftrightarrow> filedes s \<ge> - 3 \<and> (filedes s = - 2 \<longrightarrow> f_narrow s) \<and> (filedes s = - 3 \<longrightarrow> f_wide s) \<and> \<not> (f_narrow s \<and> f_wide s) \<and>
     (f_bufmode s = NBF \<longrightarrow> bufdata s = [])"

definition writing_ok :: "'c FILE \<Rightarrow> bool" where
  "writing_ok s \<longleftrightarrow> f_reading s = 0 \<and> \<not> f_readonly s \<and> bufread s = 0 \<and> bufgetc_u s = 0 \<and> bufpos s \<le> length (bufdata s) \<and>
     bufputc_u s \<le> length (bufdata s) \<and> (bufputc_u s \<noteq> 0 \<longrightarrow> f_bufmode s = FBF \<and> f_narrow s)"

definition reading_ok :: "'c FILE \<Rightarrow> bool" where
  "reading_ok s \<longleftrightarrow> \<not> f_writeonly s \<and> bufputc_u s = 0 \<and> bufpos s \<le> bufread s \<and> bufread s \<le> length (bufdata s) \<and> bufgetc_u s \<le> bufread s \<and>
     (f_reading s = 1 \<or> f_reading s = 2 \<and> f_narrow s \<and> snd (ungot s) = 1 \<and> bufgetc_u s = 0 \<and> \<not> f_eof s) \<and>
     (f_eof s \<longrightarrow> bufpos s = bufread s) \<and> (bufgetc_u s \<noteq> 0 \<longrightarrow> f_narrow s)"

definition stream_ok :: "'c FILE \<Rightarrow> bool" where
  "stream_ok s \<longleftrightarrow> base_ok s \<and>
     (if f_writing s then writing_ok s
      else if f_reading s = 0 then bufpos s = 0 \<and> bufread s = 0 \<and> bufgetc_u s = 0 \<and> bufputc_u s = 0
      else reading_ok s)"

lemmas stream_ok_defs = stream_ok_def base_ok_def writing_ok_def reading_ok_def

text \<open>The assertions of \<open>validate_FILE\<close> hold, except that a stream which was at the end of the file when it started to write keeps
  its flag.\<close>

lemma stream_ok_validate:
  assumes "stream_ok s" "\<not> (f_eof s \<and> f_writing s)"
  shows "validate_FILE s"
proof -
  consider "f_writing s" | "\<not> f_writing s" "f_reading s = 0" | "\<not> f_writing s" "f_reading s \<noteq> 0" by blast
  then show ?thesis
    by cases (use assms in \<open>auto simp: validate_FILE_def stream_ok_defs has_ungot_def\<close>)
qed

text \<open>What writing changes: the cookie, \<open>errno\<close>, the error flag and the buffer.\<close>

definition same_flags :: "'c FILE \<Rightarrow> 'c FILE \<Rightarrow> bool" where
  "same_flags s s' \<longleftrightarrow> f_reading s' = f_reading s \<and> f_eof s' = f_eof s \<and> f_writeonly s' = f_writeonly s \<and> f_readonly s' = f_readonly s \<and>
     f_writing s' = f_writing s \<and> f_narrow s' = f_narrow s \<and> f_wide s' = f_wide s \<and> f_bufmode s' = f_bufmode s \<and>
     f_append s' = f_append s \<and> f_freefile s' = f_freefile s \<and> f_freebuf s' = f_freebuf s \<and> ungot s' = ungot s \<and> filedes s' = filedes s \<and>
     bufread s' = bufread s \<and> bufgetc_u s' = bufgetc_u s \<and> bufputc_u s' = bufputc_u s \<and> length (bufdata s') = length (bufdata s)"

definition wframe :: "'c FILE \<Rightarrow> 'c FILE \<Rightarrow> bool" where
  "wframe s s' \<longleftrightarrow> same_flags s s' \<and> (bufpos s \<le> length (bufdata s) \<longrightarrow> bufpos s' \<le> length (bufdata s)) \<and> (f_error s \<longrightarrow> f_error s')"

lemma wframe_refl [simp]: "wframe s s"
  by (simp add: wframe_def same_flags_def)

lemma wframe_trans: "wframe s s1 \<Longrightarrow> wframe s1 s2 \<Longrightarrow> wframe s s2"
  unfolding wframe_def same_flags_def by simp

lemma wframe_cookie: "wframe s (s\<lparr>cookie := c\<rparr>)" and wframe_io_error: "wframe s (io_error e c s)"
  by (simp_all add: wframe_def same_flags_def io_error_def)

lemma wframe_flags:
  assumes "wframe s s'"
  shows "f_reading s' = f_reading s" "f_eof s' = f_eof s" "f_writeonly s' = f_writeonly s" "f_readonly s' = f_readonly s"
    "f_writing s' = f_writing s" "f_narrow s' = f_narrow s" "f_wide s' = f_wide s" "f_bufmode s' = f_bufmode s" "f_append s' = f_append s"
    "ungot s' = ungot s" "filedes s' = filedes s" "bufread s' = bufread s" "bufgetc_u s' = bufgetc_u s" "bufputc_u s' = bufputc_u s"
    "length (bufdata s') = length (bufdata s)" "bufpos s \<le> length (bufdata s) \<Longrightarrow> bufpos s' \<le> length (bufdata s)"
    "bufdata s' = [] \<longleftrightarrow> bufdata s = []"
  using assms by (simp_all flip: length_0_conv add: wframe_def same_flags_def)

lemma wframe_less:
  assumes "wframe s s'"
  shows "wframe s (s'\<lparr>bufpos := bufpos s' - x\<rparr>)"
proof -
  have "bufpos s \<le> length (bufdata s) \<Longrightarrow> bufpos s' - x \<le> length (bufdata s)" using wframe_flags(16) [OF assms] by linarith
  then show ?thesis using assms by (simp add: wframe_def same_flags_def)
qed

lemma wframe_ok: "stream_ok s \<Longrightarrow> f_writing s \<Longrightarrow> wframe s s' \<Longrightarrow> stream_ok s'"
  by (simp add: stream_ok_defs wframe_flags)

lemma fill_result:
  "k + length xs \<le> length b \<Longrightarrow> fill lbf b k xs = (b', k') \<Longrightarrow> length b' = length b \<and> k \<le> k' \<and> k' \<le> k + length xs"
proof (induction xs arbitrary: b k)
  case (Cons x xs)
  then show ?case using Cons.IH [of "k + 1" "b[k := x]"] by (auto split: if_splits)
qed simp

lemma fill_all:
  "k + length xs \<le> length b \<Longrightarrow> lbf \<longrightarrow> newline \<notin> set xs \<Longrightarrow>
     fill lbf b k xs = (take k b @ xs @ drop (k + length xs) b, k + length xs)"
proof (induction xs arbitrary: b k)
  case (Cons x xs)
  have "fill lbf b k (x # xs) = fill lbf (b[k := x]) (k + 1) xs" using Cons.prems by auto
  also have "\<dots> = (take (k + 1) (b[k := x]) @ xs @ drop (k + 1 + length xs) (b[k := x]), k + 1 + length xs)"
    using Cons.prems by (intro Cons.IH) auto
  also have "take (k + 1) (b[k := x]) = take k b @ [x]" using Cons.prems by (simp add: take_Suc_conv_app_nth)
  finally show ?case by simp
qed simp

lemma write_failed_frame:
  assumes "write_failed n d s = (k, s')"
  shows "wframe s s'"
proof -
  obtain b k' where f: "fill (f_bufmode s = LBF) (bufdata s) 0 (take (length (bufdata s)) d) = (b, k')" by fastforce
  have "length b = length (bufdata s) \<and> k' \<le> length (bufdata s)"
    using fill_result [OF _ f] by simp
  then show ?thesis
    using assms by (auto simp: write_failed_def f wframe_def same_flags_def Let_def split: if_splits)
qed

lemma WRITE_io_frame: "WRITE_io io d s = (r, s') \<Longrightarrow> wframe s s'"
  by (auto simp: WRITE_io_def wframe_cookie wframe_io_error split: option.splits prod.splits sum.splits)

lemma write_loop_frame: "write_loop io n d s = Some r \<Longrightarrow> wframe s (snd r)"
proof (rule write_loop.raw_induct [of "\<lambda>io n d s r. wframe s (snd r)"])
  fix f :: "'c cookie_io \<Rightarrow> nat \<Rightarrow> byte list \<Rightarrow> 'c FILE \<Rightarrow> (nat \<times> 'c FILE) option" and io n d s r
  assume ih: "\<And>io n d s r. f io n d s = Some r \<Longrightarrow> wframe s (snd r)"
    and st: "(if d = [] then Some (n, s)
      else (case WRITE_io io (take SSIZE_MAX d) s of
        (None, s1) \<Rightarrow> Some (write_failed n d s1)
      | (Some rv, s1) \<Rightarrow> if length (take SSIZE_MAX d) < rv then None else f io n (drop rv d) s1)) = Some r"
  obtain w s1 where w: "WRITE_io io (take SSIZE_MAX d) s = (w, s1)" by fastforce
  then have "wframe s s1" by (rule WRITE_io_frame)
  moreover have "wframe s1 (snd r)" if "d \<noteq> []"
    using st w that ih [of io n _ s1 r] write_failed_frame [of n d s1 "fst r" "snd r"] by (auto split: option.splits if_splits)
  ultimately show "wframe s (snd r)"
    using st wframe_trans [of s s1 "snd r"] by (cases "d = []") auto
qed

lemma stdio_WRITE_frame: "stdio_WRITE io d s = Some (k, s') \<Longrightarrow> wframe s s'"
  unfolding stdio_WRITE_def using write_loop_frame by fastforce

lemma wcommit_frame:
  assumes "stdio_wcommit io s = Some (k, s')"
  shows "wframe s s' \<and> k = bufpos s'"
proof (cases "bufpos s = 0")
  case False
  then obtain n where w: "stdio_WRITE io (take (bufpos s) (bufdata s)) (s\<lparr>bufpos := 0\<rparr>) = Some (n, s')" and k: "k = bufpos s'"
    using assms by (auto simp: stdio_wcommit_def split: bind_splits)
  show ?thesis using stdio_WRITE_frame [OF w] k by (auto simp: wframe_def same_flags_def)
qed (use assms in \<open>simp add: stdio_wcommit_def\<close>)

lemma buffer_add_frame: "length d \<le> WAVAIL s \<Longrightarrow> bufpos s \<le> length (bufdata s) \<Longrightarrow> wframe s (buffer_add d s)"
  by (auto simp: wframe_def same_flags_def buffer_add_def WAVAIL_def)

lemma stdio_fwrite_frame:
  assumes "stdio_fwrite io d s = Some (k, s')" "bufpos s \<le> length (bufdata s)"
  shows "wframe s s'"
proof -
  have add: "wframe s (buffer_add d s)" if "length d \<le> WAVAIL s" by (rule buffer_add_frame [OF that assms(2)])
  have fake: "wframe s (buffer_add (take (WAVAIL s) d) s)" by (rule buffer_add_frame) (use assms(2) in simp_all)
  show ?thesis
  proof (cases "f_bufmode s = NBF \<or> IS_FAKE_VSNPRINTF s")
    case True
    then show ?thesis
      using assms(1) fake stdio_WRITE_frame [of io d s k s'] by (cases "f_bufmode s = NBF") (simp_all add: stdio_fwrite_def)
  next
    case buffered: False
    show ?thesis
    proof (cases "length d \<le> WAVAIL s")
      case True
      show ?thesis
      proof (cases "f_bufmode s = LBF \<and> newline \<in> set d")
        case True
        obtain p s2 where c: "stdio_wcommit io (buffer_add d s) = Some (p, s2)"
          using assms(1) buffered \<open>length d \<le> WAVAIL s\<close> True by (auto simp: stdio_fwrite_def split: bind_splits)
        have "wframe s s2" using wframe_trans [OF add] wcommit_frame [OF c] \<open>length d \<le> WAVAIL s\<close> by blast
        moreover have "s' = s2 \<or> (\<exists>x. s' = s2\<lparr>bufpos := bufpos s2 - x\<rparr>)"
          using assms(1) buffered \<open>length d \<le> WAVAIL s\<close> True c
          by (auto simp: stdio_fwrite_def Let_def split: if_splits option.splits)
        ultimately show ?thesis using wframe_less by blast
      next
        case False
        then have "s' = buffer_add d s" using assms(1) buffered True by (simp add: stdio_fwrite_def Let_def split: if_splits)
        then show ?thesis using add True by simp
      qed
    next
      case False
      show ?thesis
      proof (cases "bufpos s = 0")
        case True
        then show ?thesis using assms(1) buffered False stdio_WRITE_frame [of io d s k s'] by (simp add: stdio_fwrite_def)
      next
        case full: False
        obtain p s1 where c: "stdio_wcommit io s = Some (p, s1)"
          using assms(1) buffered False full by (auto simp: stdio_fwrite_def split: bind_splits)
        have "s' = s1 \<or> stdio_WRITE io d s1 = Some (k, s')"
          using assms(1) buffered False full c by (auto simp: stdio_fwrite_def split: if_splits)
        then show ?thesis using wcommit_frame [OF c] stdio_WRITE_frame [of io d s1 k s'] wframe_trans by blast
      qed
    qed
  qed
qed

lemma stream_ok_upd [simp]:
  "stream_ok (s\<lparr>cookie := c\<rparr>) = stream_ok s" "stream_ok (s\<lparr>f_errno := e\<rparr>) = stream_ok s" "stream_ok (s\<lparr>f_error := x\<rparr>) = stream_ok s"
  by (simp_all add: stream_ok_defs)

lemma io_error_ok [simp]: "stream_ok (io_error e c s) = stream_ok s"
  by (simp add: io_error_def)

lemma set_ebadf_ok [simp]: "stream_ok (set_ebadf s) = stream_ok s"
  by (simp add: set_ebadf_def)

lemma adjust_position_result: "adjust_position pos s = (corr, p, s') \<Longrightarrow> s' = s\<lparr>f_errno := f_errno s'\<rparr>"
  by (auto simp: adjust_position_def Let_def)

lemma SEEK_io_result: "SEEK_io io pos w s = (r, s') \<Longrightarrow> s' = s\<lparr>cookie := cookie s', f_errno := f_errno s'\<rparr>"
  by (auto simp: SEEK_io_def io_error_def split: option.splits prod.splits sum.splits)

lemma seek_reset_ok: "stream_ok s \<Longrightarrow> stream_ok (seek_reset s)"
  by (simp add: init_bufread_bufpos_def seek_reset_def stream_ok_defs)

lemma wcommit_ok: "stream_ok s \<Longrightarrow> f_writing s \<Longrightarrow> stdio_wcommit io s = Some (k, s') \<Longrightarrow> stream_ok s'"
  using wcommit_frame wframe_ok by blast

text \<open>The ways in which \<open>fseek\<close> ends.\<close>

lemma fseeko64_cases:
  assumes "fseeko64 io off wh s = Some (r, s')"
  obtains (inval) "r = - 1" "s' = s\<lparr>f_errno := EINVAL\<rparr>"
    | (pending) p where "f_writing s" "stdio_wcommit io s = Some (p, s')" "p \<noteq> 0" "r = - 1"
    | (failed) s1 e c where "if f_writing s then stdio_wcommit io s = Some (0, s1) else s1 = s" "r = - 1" "s' = s1\<lparr>cookie := c, f_errno := e\<rparr>"
    | (moved) s1 corr pos s2 q s3 where "if f_writing s then stdio_wcommit io s = Some (0, s1) else s1 = s"
      "(if wh \<noteq> SEEK_CUR then (0, off, s1) else adjust_position off s1) = (corr, pos, s2)" "0 \<le> corr"
      "SEEK_io io pos wh s2 = (Some q, s3)" "r = 0" "s' = seek_reset s3"
proof (cases "wh < 0 \<or> wh > 2")
  case True
  then show ?thesis using assms inval by (auto simp: fseeko64_def)
next
  case False
  obtain p s1 where c: "(if f_writing s then stdio_wcommit io s else Some (0, s)) = Some (p, s1)"
    using assms(1) False by (auto simp: fseeko64_def split: bind_splits)
  obtain corr pos s2 where a: "(if wh \<noteq> SEEK_CUR then (0, off, s1) else adjust_position off s1) = (corr, pos, s2)"
    by (metis prod_cases3)
  obtain q s3 where k: "SEEK_io io pos wh s2 = (q, s3)" by fastforce
  note eq = assms False c a k
  have s2: "s2 = s1\<lparr>f_errno := f_errno s2\<rparr>"
    using a adjust_position_result [of off s1 corr pos s2] by (cases "wh = SEEK_CUR") auto
  have s3: "s3 = s2\<lparr>cookie := cookie s3, f_errno := f_errno s3\<rparr>" by (rule SEEK_io_result [OF k])
  have s23: "s2 = s1\<lparr>cookie := cookie s1, f_errno := f_errno s2\<rparr>" "s3 = s1\<lparr>cookie := cookie s3, f_errno := f_errno s3\<rparr>"
    using s2 by simp (subst s3, subst s2, simp)
  show ?thesis
  proof (cases "p = 0")
    case False
    then have "f_writing s" "s' = s1" "r = - 1" using eq by (auto simp: fseeko64_def split: if_splits)
    then show ?thesis using c False pending by simp
  next
    case True
    have c0: "if f_writing s then stdio_wcommit io s = Some (0, s1) else s1 = s" using c True by (auto split: if_splits)
    consider "corr < 0" "s' = s2" "r = - 1" | "0 \<le> corr" "q = None" "s' = s3" "r = - 1"
      | q' where "0 \<le> corr" "q = Some q'" "s' = seek_reset s3" "r = 0"
      using eq True by (auto simp: fseeko64_def split: if_splits option.splits)
    then show ?thesis
    proof cases
      case 1
      then show ?thesis using failed [OF c0, of "f_errno s2" "cookie s1"] s23(1) by simp
    next
      case 2
      then show ?thesis using failed [OF c0, of "f_errno s3" "cookie s3"] s23(2) by simp
    next
      case (3 q')
      then show ?thesis using moved [OF c0 a, of q' s3] k by simp
    qed
  qed
qed

lemma fseeko64_ok:
  assumes "stream_ok s" "fseeko64 io off wh s = Some (r, s')"
  shows "stream_ok s'"
  using assms(2)
proof (cases rule: fseeko64_cases)
  case (failed s1 e c)
  then have "stream_ok s1" using assms(1) wcommit_ok by (auto split: if_splits)
  then show ?thesis using failed by simp
next
  case (moved s1 corr pos s2 q s3)
  then have "stream_ok s1" using assms(1) wcommit_ok by (auto split: if_splits)
  then have "stream_ok s2" using moved(2) adjust_position_result [of off s1 corr pos s2] by (cases "wh = SEEK_CUR") (auto, metis stream_ok_upd(2))
  then have "stream_ok s3" using SEEK_io_result [OF moved(4)] by (metis stream_ok_upd(1,2))
  then show ?thesis using seek_reset_ok moved(6) by simp
qed (use assms(1) wcommit_ok in auto)

lemma seek_reset_flags [simp]:
  "f_reading (seek_reset s) = 0" "\<not> f_writing (seek_reset s)" "\<not> f_eof (seek_reset s)" "bufpos (seek_reset s) = 0" "bufread (seek_reset s) = 0"
  "f_readonly (seek_reset s) = f_readonly s" "f_writeonly (seek_reset s) = f_writeonly s" "f_narrow (seek_reset s) = f_narrow s"
  "f_wide (seek_reset s) = f_wide s" "f_append (seek_reset s) = f_append s" "f_bufmode (seek_reset s) = f_bufmode s"
  "filedes (seek_reset s) = filedes s" "bufdata (seek_reset s) = bufdata s" "cookie (seek_reset s) = cookie s" "f_error (seek_reset s) = f_error s"
  by (simp_all add: seek_reset_def init_bufread_bufpos_def)

lemma fseeko64_success:
  assumes "fseeko64 io off wh s = Some (0, s')"
  shows "f_reading s' = 0" "\<not> f_writing s'" "f_readonly s' = f_readonly s" "f_narrow s' = f_narrow s"
proof -
  from assms obtain s1 corr pos s2 q s3 where m: "if f_writing s then stdio_wcommit io s = Some (0, s1) else s1 = s"
      "(if wh \<noteq> SEEK_CUR then (0, off, s1) else adjust_position off s1) = (corr, pos, s2)"
      "SEEK_io io pos wh s2 = (Some q, s3)" "s' = seek_reset s3"
    by (cases rule: fseeko64_cases) auto
  have "wframe s s1" using m(1) wcommit_frame [of io s 0 s1] by (auto split: if_splits)
  then have f: "f_readonly s1 = f_readonly s" "f_narrow s1 = f_narrow s" by (simp_all add: wframe_flags)
  have s2: "s2 = s1\<lparr>f_errno := f_errno s2\<rparr>"
    using m(2) adjust_position_result [of off s1 corr pos s2] by (cases "wh = SEEK_CUR") auto
  have "f_readonly s2 = f_readonly s1" "f_narrow s2 = f_narrow s1" by (subst s2, simp)+
  moreover have "f_readonly s3 = f_readonly s2" "f_narrow s3 = f_narrow s2" by (subst SEEK_io_result [OF m(3)], simp)+
  ultimately show "f_reading s' = 0" "\<not> f_writing s'" "f_readonly s' = f_readonly s" "f_narrow s' = f_narrow s"
    using f m(4) by simp_all
qed

lemma narrow_ok: "stream_ok s \<Longrightarrow> \<not> f_wide s \<Longrightarrow> stream_ok (s\<lparr>f_narrow := True\<rparr>)"
  by (cases "f_writing s"; cases "f_reading s = 0") (auto simp: stream_ok_defs)

lemma set_narrow_ok: "stream_ok s \<Longrightarrow> set_narrow s = Some s' \<Longrightarrow> stream_ok s' \<and> f_narrow s'"
  using narrow_ok [of s] by (auto simp: set_narrow_def split: if_splits)

lemma start_writing_ok:
  assumes "stream_ok s" "f_reading s = 0" "\<not> f_readonly s" "f_narrow s"
  shows "stream_ok (start_writing s)"
  using assms by (cases "f_writing s"; cases "f_bufmode s = FBF \<and> \<not> f_wide s") (simp_all add: stream_ok_defs start_writing_def)

lemma stop_reading_ok:
  assumes "stream_ok s" "f_reading s \<noteq> 0 \<or> \<not> f_writing s"
  shows "stream_ok (stop_reading s)"
  using assms by (cases "f_writing s"; cases "f_reading s = 0") (auto simp: stream_ok_defs stop_reading_def init_bufread_bufpos_def)

lemma start_writing_flags [simp]:
  "f_writing (start_writing s)" "f_narrow (start_writing s) = f_narrow s"
  by (simp_all add: start_writing_def Let_def)

lemma stop_reading_flags [simp]:
  "f_reading (stop_reading s) = 0" "f_readonly (stop_reading s) = f_readonly s" "f_narrow (stop_reading s) = f_narrow s"
  by (simp_all add: stop_reading_def init_bufread_bufpos_def)

lemma trans2w_ok:
  assumes "stream_ok s" "stdio_trans2w io s = Some (b, s')"
  shows "stream_ok s'" "b \<Longrightarrow> f_writing s' \<and> f_narrow s'"
proof -
  have "stream_ok s' \<and> (b \<longrightarrow> f_writing s' \<and> f_narrow s')"
  proof (cases "set_narrow s")
    case None
    then show ?thesis using assms by (auto simp: stdio_trans2w_def)
  next
    case (Some s1)
    have ok1: "stream_ok s1" "f_narrow s1" using set_narrow_ok [OF assms(1) Some] by auto
    show ?thesis
    proof (cases "f_readonly s1")
      case True
      then show ?thesis using assms(2) Some ok1 by (auto simp: stdio_trans2w_def)
    next
      case rw: False
      let ?seek = "f_reading s1 \<noteq> 0 \<and> \<not> f_eof s1 \<and> (bufread s1 - bufpos s1 \<noteq> 0 \<or> has_ungot s1)"
      obtain r s2 where k: "(if ?seek then fseeko64 io 0 (if f_append s1 then SEEK_END else SEEK_CUR) s1 else Some (0, s1)) = Some (r, s2)"
        using assms(2) Some rw by (auto simp: stdio_trans2w_def split: bind_splits)
      have ok2: "stream_ok s2" using k ok1 fseeko64_ok [OF ok1(1)] by (auto split: if_splits)
      show ?thesis
      proof (cases "r = 0")
        case False
        then show ?thesis using assms(2) Some rw k ok2 by (auto simp: stdio_trans2w_def)
      next
        case True
        define s3 where "s3 = (if f_reading s1 \<noteq> 0 then stop_reading s2 else s2)"
        have k2: "f_reading s2 = 0 \<and> \<not> f_writing s2 \<or> s2 = s1" "f_readonly s2 = f_readonly s1" "f_narrow s2 = f_narrow s1"
          using k True fseeko64_success [of io 0 _ s1 s2] by (auto split: if_splits)
        have "stream_ok s3"
          using stop_reading_ok [OF ok2] k2(1) ok2 by (auto simp: s3_def)
        moreover have "f_reading s3 = 0" "\<not> f_readonly s3" "f_narrow s3"
          using k2 rw ok1(2) by (auto simp: s3_def)
        moreover have "b \<and> s' = start_writing s3"
          using assms(2) Some rw k True unfolding s3_def by (simp add: stdio_trans2w_def)
        ultimately show ?thesis using start_writing_ok [of s3] by simp
      qed
    qed
  qed
  then show "stream_ok s'" "b \<Longrightarrow> f_writing s' \<and> f_narrow s'" by auto
qed

lemma stop_writing_ok: "stream_ok s \<Longrightarrow> f_writing s \<Longrightarrow> bufpos s = 0 \<Longrightarrow> stream_ok (s\<lparr>bufputc_u := 0, f_writing := False\<rparr>)"
  by (simp add: stream_ok_defs)

lemma start_reading_ok:
  "stream_ok s \<Longrightarrow> \<not> f_writing s \<Longrightarrow> \<not> f_writeonly s \<Longrightarrow> f_reading s = 0 \<Longrightarrow> stream_ok (s\<lparr>f_reading := 1\<rparr>)"
  by (simp add: stream_ok_defs)

lemma trans2r_ok:
  assumes "stream_ok s" "\<not> IS_NARROW_READING s" "stdio_trans2r io s = Some (b, s')"
  shows "stream_ok s'" "b \<Longrightarrow> f_reading s' = 1 \<and> f_narrow s' \<and> \<not> f_writing s'"
proof -
  have "stream_ok s' \<and> (b \<longrightarrow> f_reading s' = 1 \<and> f_narrow s' \<and> \<not> f_writing s')"
  proof (cases "set_narrow s")
    case None
    then show ?thesis using assms by (auto simp: stdio_trans2r_def)
  next
    case (Some s1)
    have ok1: "stream_ok s1" "f_narrow s1" using set_narrow_ok [OF assms(1) Some] by auto
    show ?thesis
    proof (cases "f_writeonly s1")
      case True
      then show ?thesis using assms(3) Some ok1 by (auto simp: stdio_trans2r_def)
    next
      case rw: False
      obtain p s2 where c: "(if f_writing s1 then stdio_wcommit io s1 else Some (0, s1)) = Some (p, s2)"
        using assms(3) Some rw by (auto simp: stdio_trans2r_def split: bind_splits)
      have fr: "wframe s1 s2" "f_writing s1 \<Longrightarrow> p = bufpos s2"
        using c wcommit_frame [of io s1 p s2] by (auto split: if_splits)
      have ok2: "stream_ok s2" using c ok1(1) wcommit_ok by (auto split: if_splits)
      note f2 = wframe_flags [OF fr(1)]
      show ?thesis
      proof (cases "p = 0")
        case False
        then show ?thesis using assms(3) Some rw c ok2 by (auto simp: stdio_trans2r_def)
      next
        case True
        define s3 where "s3 = (if f_writing s1 then s2\<lparr>bufputc_u := 0, f_writing := False\<rparr> else s2)"
        have ok3: "stream_ok s3" using stop_writing_ok [OF ok2] ok2 fr(2) True f2(5) by (simp add: s3_def)
        have n3: "\<not> f_writing s3" "\<not> f_writeonly s3" "f_narrow s3" "f_reading s3 = f_reading s1"
          using f2 rw ok1(2) by (simp_all add: s3_def)
        have r1: "f_reading s1 = f_reading s" using Some by (auto simp: set_narrow_def split: if_splits)
        have res: "b \<and> s' = s3\<lparr>f_reading := (if even (f_reading s3) then f_reading s3 + 1 else f_reading s3)\<rparr>"
          using assms(3) Some rw c True by (simp add: stdio_trans2r_def s3_def Let_def split: if_splits)
        show ?thesis
        proof (cases "f_reading s3 = 0")
          case True
          then show ?thesis using res start_reading_ok [OF ok3 n3(1,2)] n3 by simp
        next
          case False
          then have "f_reading s \<noteq> 0" "\<not> f_narrow s" using n3(4) r1 assms(2) by (auto simp: IS_NARROW_READING_def)
          moreover from this have "\<not> f_writing s" using assms(1) by (auto simp: stream_ok_defs)
          ultimately have "f_reading s = 1" using assms(1) by (auto simp: stream_ok_defs)
          then have "f_reading s3 = 1" using n3(4) r1 by simp
          then have "s' = s3" using res by (cases s3) simp
          then show ?thesis using ok3 n3 \<open>f_reading s3 = 1\<close> by simp
        qed
      qed
    qed
  qed
  then show "stream_ok s'" "b \<Longrightarrow> f_reading s' = 1 \<and> f_narrow s' \<and> \<not> f_writing s'" by auto
qed

text \<open>The writing functions start with a stream that writes.\<close>

lemma to_writing:
  assumes "stream_ok s" "(if IS_NARROW_WRITING s then Some (True, s) else stdio_trans2w io s) = Some (b, s1)"
  shows "stream_ok s1" "b \<Longrightarrow> f_writing s1 \<and> f_narrow s1 \<and> bufpos s1 \<le> length (bufdata s1)"
proof -
  have "stream_ok s1 \<and> (b \<longrightarrow> f_writing s1 \<and> f_narrow s1)"
    using assms trans2w_ok [OF assms(1), of io b s1] by (auto simp: IS_NARROW_WRITING_def split: if_splits)
  then show "stream_ok s1" "b \<Longrightarrow> f_writing s1 \<and> f_narrow s1 \<and> bufpos s1 \<le> length (bufdata s1)"
    by (auto simp: stream_ok_def writing_ok_def)
qed

lemma to_reading:
  assumes "stream_ok s" "(if IS_NARROW_READING s then Some (True, s) else stdio_trans2r io s) = Some (b, s1)"
  shows "stream_ok s1" "b \<Longrightarrow> f_reading s1 \<noteq> 0 \<and> f_narrow s1 \<and> \<not> f_writing s1"
proof -
  have "stream_ok s1 \<and> (b \<longrightarrow> f_reading s1 \<noteq> 0 \<and> f_narrow s1)"
    using assms trans2r_ok [of s io b s1] by (auto simp: IS_NARROW_READING_def split: if_splits)
  then show "stream_ok s1" "b \<Longrightarrow> f_reading s1 \<noteq> 0 \<and> f_narrow s1 \<and> \<not> f_writing s1"
    by (auto simp: stream_ok_def writing_ok_def)
qed

lemma fwrite_unlocked_ok:
  assumes "stream_ok s" "fwrite_unlocked io ptr sz nm s = Some (r, s')"
  shows "stream_ok s'"
proof -
  obtain b s1 where t: "(if IS_NARROW_WRITING s then Some (True, s) else stdio_trans2w io s) = Some (b, s1)"
    using assms(2) by (auto simp: fwrite_unlocked_def split: bind_splits)
  note w = to_writing [OF assms(1) t]
  have "stream_ok s2" if "b" "stdio_fwrite io d s1 = Some (n, s2)" for n s2 d
    using stdio_fwrite_frame [OF that(2)] w that(1) wframe_ok by blast
  then show ?thesis using assms(2) t w by (auto simp: fwrite_unlocked_def split: if_splits bind_splits)
qed

lemma fputc_put_frame:
  assumes "bufpos s \<le> length (bufdata s)" "fputc_put io uc s = Some (r, s')"
  shows "wframe s s'"
proof (cases "bufdata s = []")
  case True
  then show ?thesis using assms(2) stdio_WRITE_frame [of io "[uc]" s] by (auto simp: fputc_put_def split: bind_splits)
next
  case False
  obtain p s2 where c: "(if WAVAIL s = 0 then stdio_wcommit io s else Some (0, s)) = Some (p, s2)"
    using assms(2) False by (auto simp: fputc_put_def split: bind_splits)
  have f2: "wframe s s2" "p = 0 \<Longrightarrow> 1 \<le> WAVAIL s2" "bufpos s2 \<le> length (bufdata s2)"
  proof -
    show f: "wframe s s2" using c wcommit_frame [of io s p s2] by (auto split: if_splits)
    have "length (bufdata s2) = length (bufdata s)" using wframe_flags(15) [OF f] .
    then show "p = 0 \<Longrightarrow> 1 \<le> WAVAIL s2"
      using c wcommit_frame [of io s p s2] False by (auto simp: WAVAIL_def Suc_le_eq split: if_splits)
    show "bufpos s2 \<le> length (bufdata s2)" using wframe_flags(15,16) [OF f] assms(1) by simp
  qed
  show ?thesis
  proof (cases "p = 0")
    case True
    have f3: "wframe s (buffer_add [uc] s2)" using wframe_trans [OF f2(1) buffer_add_frame] f2(2,3) True by simp
    have "s' = buffer_add [uc] s2 \<or> (\<exists>q s4. stdio_wcommit io (buffer_add [uc] s2) = Some (q, s4) \<and> (s' = s4 \<or> s' = s4\<lparr>bufpos := bufpos s4 - 1\<rparr>))"
      using assms(2) False c True by (auto simp: fputc_put_def Let_def split: if_splits bind_splits)
    moreover have "wframe s s4" if "stdio_wcommit io (buffer_add [uc] s2) = Some (q, s4)" for q s4
      using wframe_trans [OF f3] wcommit_frame [OF that] by blast
    ultimately show ?thesis using f3 wframe_less by blast
  qed (use assms(2) False c f2(1) in \<open>auto simp: fputc_put_def\<close>)
qed

lemma fputc_unlocked_ok:
  assumes "stream_ok s" "fputc_unlocked io c s = Some (r, s')"
  shows "stream_ok s'"
proof (cases "bufpos s < bufputc_u s")
  case True
  then have w: "f_writing s" "bufputc_u s \<le> length (bufdata s)" using assms(1) by (auto simp: stream_ok_defs split: if_splits)
  then have "s' = buffer_add [word_of_int c] s" "wframe s (buffer_add [word_of_int c] s)"
    using assms(2) True buffer_add_frame [of "[word_of_int c]" s] by (auto simp: fputc_unlocked_def WAVAIL_def Let_def)
  then show ?thesis using wframe_ok assms(1) w by blast
next
  case False
  obtain b s1 where t: "(if IS_NARROW_WRITING s then Some (True, s) else stdio_trans2w io s) = Some (b, s1)"
    using assms(2) False by (auto simp: fputc_unlocked_def Let_def split: bind_splits)
  note w = to_writing [OF assms(1) t]
  show ?thesis
  proof (cases "b \<and> \<not> IS_FAKE_VSNPRINTF s1")
    case True
    then have "wframe s1 s'"
      using assms(2) False t w fputc_put_frame [of s1 io "word_of_int c" r s'] by (simp add: fputc_unlocked_def Let_def)
    then show ?thesis using wframe_ok w True by blast
  next
    case fake: False
    then have "s' = s1" using assms(2) False t by (auto simp: fputc_unlocked_def Let_def split: if_splits)
    then show ?thesis using w by simp
  qed
qed

lemma fflush_unlocked_ok:
  assumes "stream_ok s" "fflush_unlocked io s = Some (r, s')"
  shows "stream_ok s'"
proof (cases "f_writing s")
  case True
  then obtain p s1 where c: "stdio_wcommit io s = Some (p, s1)" using assms(2) by (auto simp: fflush_unlocked_def split: bind_splits)
  have w: "wframe s s1" "p = bufpos s1" using wcommit_frame [OF c] by auto
  show ?thesis
    using assms(2) True c stop_writing_ok [of s1] wcommit_ok [OF assms(1) True c] w wframe_flags(5) [OF w(1)]
    by (auto simp: fflush_unlocked_def split: if_splits)
qed (use assms in \<open>simp add: fflush_unlocked_def\<close>)

text \<open>What reading from the file changes.\<close>

lemma stdio_READ_result:
  assumes "stdio_READ io n s = Some (bs, s')"
  shows "s' = s\<lparr>cookie := cookie s', f_errno := f_errno s', f_error := f_error s', f_eof := f_eof s'\<rparr>" "length bs \<le> n"
    "f_eof s \<Longrightarrow> f_eof s'" "bs \<noteq> [] \<Longrightarrow> \<not> f_eof s'"
proof -
  have r: "s1 = s\<lparr>cookie := cookie s1, f_errno := f_errno s1\<rparr>" if "READ_io io k s = (r, s1)" for k r s1
    using that by (auto simp: READ_io_def io_error_def split: option.splits prod.splits sum.splits)
  have "s' = s\<lparr>cookie := cookie s', f_errno := f_errno s', f_error := f_error s', f_eof := f_eof s'\<rparr> \<and> length bs \<le> n \<and>
      (f_eof s \<longrightarrow> f_eof s') \<and> (bs \<noteq> [] \<longrightarrow> \<not> f_eof s')"
  proof (cases "f_eof s")
    case True
    then show ?thesis using assms by (simp add: stdio_READ_def)
  next
    case False
    obtain q s1 where k: "READ_io io (min n SSIZE_MAX) s = (q, s1)" by fastforce
    have s1: "s1 = s\<lparr>cookie := cookie s1, f_errno := f_errno s1\<rparr>" by (rule r [OF k])
    have e: "f_eof s1 = f_eof s" "f_error s1 = f_error s" by (subst s1, simp)+
    consider "bs = []" "s' = s1\<lparr>f_error := True\<rparr>" | "bs = []" "s' = s1\<lparr>f_eof := True\<rparr>" | "s' = s1" "length bs \<le> n"
      using assms False k by (auto simp: stdio_READ_def split: if_splits option.splits)
    then show ?thesis
    proof cases
      case 1
      then show ?thesis using e False by (simp, subst s1, simp)
    next
      case 2
      then show ?thesis using e False by (simp, subst s1, simp)
    next
      case 3
      then show ?thesis using e False by (simp, subst s1, simp)
    qed
  qed
  then show "s' = s\<lparr>cookie := cookie s', f_errno := f_errno s', f_error := f_error s', f_eof := f_eof s'\<rparr>" "length bs \<le> n"
    "f_eof s \<Longrightarrow> f_eof s'" "bs \<noteq> [] \<Longrightarrow> \<not> f_eof s'" by blast+
qed

lemma eof_ok: "stream_ok s \<Longrightarrow> f_reading s = 1 \<Longrightarrow> bufpos s = bufread s \<Longrightarrow> \<not> f_writing s \<Longrightarrow> stream_ok (s\<lparr>f_eof := e\<rparr>)"
  by (simp add: stream_ok_defs)

lemma stdio_READ_ok:
  assumes "stream_ok s" "f_reading s = 1" "bufpos s = bufread s" "\<not> f_writing s" "stdio_READ io n s = Some (bs, s')"
  shows "stream_ok s'"
proof -
  have "stream_ok (s\<lparr>cookie := cookie s', f_errno := f_errno s', f_error := f_error s', f_eof := f_eof s'\<rparr>)"
    by (rule eof_ok) (use assms in simp_all)
  then show ?thesis by (subst stdio_READ_result(1) [OF assms(5)])
qed

lemma buffer_get_ok:
  assumes "stream_ok s" "f_reading s \<noteq> 0" "\<not> f_writing s" "bufpos s < bufread s"
  shows "stream_ok (snd (buffer_get s))"
  using assms by (auto simp: stream_ok_defs buffer_get_def)

lemma take_ungot_ok:
  assumes "stream_ok s" "\<not> f_writing s" "has_ungot s"
  shows "stream_ok (snd (take_ungot s))" "f_reading s = 2"
proof -
  show r: "f_reading s = 2" using assms by (auto simp: stream_ok_defs has_ungot_def split: if_splits)
  show "stream_ok (snd (take_ungot s))" using assms(1,2) r by (simp add: stream_ok_defs take_ungot_def)
qed

lemma no_ungot: "stream_ok s \<Longrightarrow> f_reading s \<noteq> 0 \<Longrightarrow> \<not> f_writing s \<Longrightarrow> \<not> has_ungot s \<Longrightarrow> f_reading s = 1"
  by (auto simp: stream_ok_defs has_ungot_def)

lemma reading_pos: "stream_ok s \<Longrightarrow> f_reading s \<noteq> 0 \<Longrightarrow> bufpos s \<le> bufread s \<and> bufread s \<le> length (bufdata s)"
  by (auto simp: stream_ok_defs split: if_splits)

lemma rfill_ok:
  assumes "stream_ok s" "f_reading s = 1" "bufpos s = bufread s" "\<not> f_writing s" "bufgetc_u s = 0" "f_narrow s"
    and "stdio_rfill io s = Some (n, s')"
  shows "stream_ok s'" "stream_ok (s'\<lparr>bufgetc_u := bufread s'\<rparr>)" "bufpos s' = 0" "bufread s' = n" "f_reading s' = 1" "\<not> f_writing s'"
    "f_narrow s'" "n \<le> length (bufdata s')" "length (bufdata s') = length (bufdata s)"
proof -
  obtain bs s1 where r: "stdio_READ io (length (bufdata s)) s = Some (bs, s1)" and n: "n = length bs"
      and s': "s' = s1\<lparr>bufdata := bs @ drop (length bs) (bufdata s1), bufpos := 0, bufread := length bs\<rparr>"
    using assms(7) by (auto simp: stdio_rfill_def split: bind_splits)
  note rr = stdio_READ_result [OF r]
  have f: "f_reading s1 = 1" "\<not> f_writing s1" "f_narrow s1" "bufdata s1 = bufdata s" "bufgetc_u s1 = 0"
    by (subst rr(1), use assms in simp)+
  have ok: "stream_ok s1" by (rule stdio_READ_ok [OF assms(1-4) r])
  have l: "length bs \<le> length (bufdata s)" by (rule rr(2))
  have nb: "bs = []" if "f_bufmode s1 = NBF" using ok that l f(4) by (simp add: stream_ok_defs)
  have eo: "bs = []" if "f_eof s1" using rr(4) that by blast
  show "stream_ok s'" "stream_ok (s'\<lparr>bufgetc_u := bufread s'\<rparr>)"
    using ok f l nb eo by (auto simp: stream_ok_defs s')
  show "bufpos s' = 0" "bufread s' = n" "f_reading s' = 1" "\<not> f_writing s'" "f_narrow s'" "n \<le> length (bufdata s')"
    "length (bufdata s') = length (bufdata s)"
    using f l n by (simp_all add: s')
qed

lemma flush_lbf_streams_ok [simp]: "stream_ok (flush_lbf_streams io s) = stream_ok s"
  by (simp add: flush_lbf_streams_def)

lemma flush_lbf_streams_flags [simp]:
  "f_reading (flush_lbf_streams io s) = f_reading s" "f_writing (flush_lbf_streams io s) = f_writing s" "f_narrow (flush_lbf_streams io s) = f_narrow s"
  "bufpos (flush_lbf_streams io s) = bufpos s" "bufread (flush_lbf_streams io s) = bufread s" "bufdata (flush_lbf_streams io s) = bufdata s"
  "bufgetc_u (flush_lbf_streams io s) = bufgetc_u s" "f_eof (flush_lbf_streams io s) = f_eof s" "f_error (flush_lbf_streams io s) = f_error s"
  by (simp_all add: flush_lbf_streams_def)

lemma getc_off_ok: "stream_ok s \<Longrightarrow> stream_ok (s\<lparr>bufgetc_u := 0\<rparr>)"
  by (cases "f_writing s"; cases "f_reading s = 0") (auto simp: stream_ok_defs)

lemma fgetc_fill_ok:
  assumes "stream_ok s" "f_reading s = 1" "bufpos s = bufread s" "\<not> f_writing s" "f_narrow s" "fgetc_fill io s = Some (r, s')"
  shows "stream_ok s'"
proof (cases "bufdata s = []")
  case True
  then obtain bs where "stdio_READ io 1 s = Some (bs, s')" using assms(6) by (auto simp: fgetc_fill_def split: bind_splits)
  then show ?thesis by (rule stdio_READ_ok [OF assms(1-4)])
next
  case False
  obtain n s1 where f: "stdio_rfill io (s\<lparr>bufgetc_u := 0\<rparr>) = Some (n, s1)"
    using assms(6) False by (auto simp: fgetc_fill_def split: bind_splits)
  note rf = rfill_ok [OF getc_off_ok [OF assms(1)] _ _ _ _ _ f]
  have "stream_ok (snd (buffer_get (s1\<lparr>bufgetc_u := bufread s1\<rparr>)))" if "n \<noteq> 0"
    by (rule buffer_get_ok) (use rf assms that in simp_all)
  then show ?thesis
    using assms(6) False f rf(1) assms(2-5) by (auto simp: fgetc_fill_def buffer_get_def split: if_splits)
qed

lemma fgetc_unlocked_ok:
  assumes "stream_ok s" "fgetc_unlocked io s = Some (r, s')"
  shows "stream_ok s'"
proof (cases "bufpos s < bufgetc_u s")
  case True
  then have "f_reading s \<noteq> 0" "\<not> f_writing s" "bufpos s < bufread s"
    using assms(1) by (auto simp: stream_ok_defs split: if_splits)
  then show ?thesis using assms(2) True buffer_get_ok [OF assms(1)] by (cases "buffer_get s") (simp add: fgetc_unlocked_def)
next
  case False
  obtain b s1 where t: "(if IS_NARROW_READING s then Some (True, s) else stdio_trans2r io s) = Some (b, s1)"
    using assms(2) False by (auto simp: fgetc_unlocked_def split: bind_splits)
  note w = to_reading [OF assms(1) t]
  show ?thesis
  proof (cases b)
    case b: True
    note rd = w(1) w(2) [OF b]
    consider "has_ungot s1" | "\<not> has_ungot s1" "bufread s1 - bufpos s1 \<noteq> 0" | "\<not> has_ungot s1" "bufread s1 - bufpos s1 = 0" by blast
    then show ?thesis
    proof cases
      case 1
      then show ?thesis using assms(2) False t b take_ungot_ok [of s1] rd
        by (cases "take_ungot s1") (simp add: fgetc_unlocked_def)
    next
      case 2
      then show ?thesis using assms(2) False t b buffer_get_ok [of s1] rd
        by (cases "buffer_get s1") (simp add: fgetc_unlocked_def)
    next
      case 3
      have r1: "f_reading s1 = 1" "bufpos s1 = bufread s1"
        using no_ungot [OF rd(1)] reading_pos [OF rd(1)] rd(2) 3 by auto
      have "s' = s1\<lparr>f_eof := True\<rparr> \<or> fgetc_fill io (flush_lbf_streams io s1) = Some (r, s')"
        using assms(2) False t b 3 by (auto simp: fgetc_unlocked_def split: if_splits)
      then show ?thesis
        using eof_ok [OF rd(1) r1, of True] fgetc_fill_ok [of "flush_lbf_streams io s1" io r s'] rd r1 by auto
    qed
  qed (use assms(2) False t w in \<open>auto simp: fgetc_unlocked_def\<close>)
qed

lemma fread_ungots_ok:
  assumes "stream_ok s" "f_reading s \<noteq> 0" "\<not> f_writing s" "fread_ungots n s = (us, s')"
  shows "stream_ok s' \<and> f_reading s' \<noteq> 0 \<and> \<not> f_writing s' \<and> f_narrow s' = f_narrow s \<and> length us \<le> n \<and> (length us < n \<longrightarrow> \<not> has_ungot s')"
  using assms
proof (induction n arbitrary: s us s')
  case (Suc n)
  show ?case
  proof (cases "has_ungot s")
    case True
    obtain b s1 where t: "take_ungot s = (b, s1)" by fastforce
    obtain us1 where u: "fread_ungots n s1 = (us1, s')" "us = b # us1"
      using Suc.prems(4) True t by (auto split: prod.splits)
    have "stream_ok s1" "f_reading s1 \<noteq> 0" "\<not> f_writing s1" "f_narrow s1 = f_narrow s"
      using take_ungot_ok [OF Suc.prems(1,3) True] t Suc.prems(3) by (auto simp: take_ungot_def)
    then show ?thesis using Suc.IH [OF _ _ _ u(1)] u(2) by simp
  qed (use Suc.prems in auto)
qed auto

lemma fread_loop_ok:
  assumes "fread_loop io n s = Some r"
  shows "stream_ok s \<longrightarrow> f_reading s = 1 \<longrightarrow> bufpos s = bufread s \<longrightarrow> \<not> f_writing s \<longrightarrow> stream_ok (snd r)"
  using assms
proof (rule fread_loop.raw_induct [of "\<lambda>io n s r. stream_ok s \<longrightarrow> f_reading s = 1 \<longrightarrow> bufpos s = bufread s \<longrightarrow> \<not> f_writing s \<longrightarrow> stream_ok (snd r)", rotated])
  fix f :: "'a cookie_io \<Rightarrow> nat \<Rightarrow> 'a FILE \<Rightarrow> (byte list \<times> 'a FILE) option" and io n s r
  assume ih: "\<And>io n s r. f io n s = Some r \<Longrightarrow>
      stream_ok s \<longrightarrow> f_reading s = 1 \<longrightarrow> bufpos s = bufread s \<longrightarrow> \<not> f_writing s \<longrightarrow> stream_ok (snd r)"
    and st: "(stdio_READ io n s \<bind> (\<lambda>(bs, s1). if bs = [] \<or> n - length bs = 0 then Some (bs, s1)
      else f io (n - length bs) s1 \<bind> (\<lambda>(rest, s2). Some (bs @ rest, s2)))) = Some r"
  show "stream_ok s \<longrightarrow> f_reading s = 1 \<longrightarrow> bufpos s = bufread s \<longrightarrow> \<not> f_writing s \<longrightarrow> stream_ok (snd r)"
  proof (intro impI)
    assume s: "stream_ok s" "f_reading s = 1" "bufpos s = bufread s" "\<not> f_writing s"
    obtain bs s1 where k: "stdio_READ io n s = Some (bs, s1)" using st by (auto split: bind_splits)
    have ok: "stream_ok s1" by (rule stdio_READ_ok [OF s k])
    have fl: "f_reading s1 = 1" "bufpos s1 = bufread s1" "\<not> f_writing s1" by (subst stdio_READ_result(1) [OF k], use s in simp)+
    show "stream_ok (snd r)"
      using st k ok fl ih [of io "n - length bs" s1] by (auto split: if_splits bind_splits)
  qed
qed

lemma fread_bytes_ok:
  assumes "stream_ok s" "f_reading s \<noteq> 0" "\<not> f_writing s" "fread_bytes io n s = Some (bs, s')"
  shows "stream_ok s'"
proof -
  obtain us s1 where u: "fread_ungots n s = (us, s1)" by fastforce
  note ok1 = fread_ungots_ok [OF assms(1-3) u]
  show ?thesis
  proof (cases "n - length us = 0")
    case True
    then show ?thesis using assms(4) u ok1 by (simp add: fread_bytes_def)
  next
    case False
    define avail where "avail = min (bufread s1 - bufpos s1) (n - length us)"
    define s2 where "s2 = s1\<lparr>bufpos := bufpos s1 + avail\<rparr>"
    have r1: "f_reading s1 = 1" using no_ungot [of s1] ok1 False by simp
    have p: "bufpos s1 \<le> bufread s1" using reading_pos [of s1] ok1 by simp
    have ok2: "stream_ok s2" using ok1 r1 p by (auto simp: s2_def avail_def stream_ok_defs)
    have full: "bufpos s2 = bufread s2" if "n - length us - avail \<noteq> 0" using that p by (auto simp: s2_def avail_def)
    have "stream_ok s3" if "fread_loop io (n - length us - avail) (flush_lbf_streams io s2) = Some (rest, s3)" "n - length us - avail \<noteq> 0" for rest s3
      using fread_loop_ok [OF that(1)] ok2 full [OF that(2)] r1 ok1 by (simp add: s2_def)
    then show ?thesis
      using assms(4) u False ok2 unfolding fread_bytes_def Let_def s2_def avail_def
      by (auto split: if_splits bind_splits)
  qed
qed

lemma fread_unlocked_ok:
  assumes "stream_ok s" "fread_unlocked io sz nm s = Some (r, s')"
  shows "stream_ok s'"
proof -
  obtain b s1 where t: "(if IS_NARROW_READING s then Some (True, s) else stdio_trans2r io s) = Some (b, s1)"
    using assms(2) by (auto simp: fread_unlocked_def split: bind_splits)
  note w = to_reading [OF assms(1) t]
  have "stream_ok s2" if "b" "fread_bytes io n s1 = Some (bs, s2)" for n bs s2
    using fread_bytes_ok [OF w(1) _ _ that(2)] w(2) [OF that(1)] by simp
  then show ?thesis using assms(2) t w by (auto simp: fread_unlocked_def split: if_splits bind_splits)
qed

lemma fast_get_ok:
  assumes "stream_ok s" "bufpos s < bufgetc_u s"
  shows "stream_ok (snd (buffer_get s))"
proof -
  have "f_reading s \<noteq> 0" "\<not> f_writing s" "bufpos s < bufread s"
    using assms by (auto simp: stream_ok_defs split: if_splits)
  then show ?thesis by (intro buffer_get_ok [OF assms(1)])
qed

lemma fgets_loop_ok: "stream_ok s \<Longrightarrow> fgets_loop io n p s = Some (r, s') \<Longrightarrow> stream_ok s'"
proof (induction n arbitrary: p s)
  case (Suc n)
  show ?case
  proof (cases "bufpos s < bufgetc_u s")
    case True
    then show ?thesis
      using Suc.prems(2) Suc.IH fast_get_ok [OF Suc.prems(1) True] by (cases "buffer_get s") (auto split: if_splits)
  next
    case False
    then obtain c s1 where g: "fgetc_unlocked io s = Some (c, s1)" using Suc.prems(2) by (auto split: bind_splits)
    then show ?thesis
      using Suc.prems(2) Suc.IH False fgetc_unlocked_ok [OF Suc.prems(1) g] by (auto split: if_splits)
  qed
qed auto

lemma ungetc_ok:
  assumes "stream_ok s" "ungetc io c s = Some (r, s')"
  shows "stream_ok s'"
proof (cases "bufpos s < bufgetc_u s \<and> c \<noteq> EOF \<and> bufpos s > 0 \<and> bufdata s ! (bufpos s - 1) = word_of_int c")
  case True
  then have "s' = s\<lparr>bufpos := bufpos s - 1, f_eof := False\<rparr>" using assms(2) by (auto simp: ungetc_def)
  moreover have "f_reading s \<noteq> 0" "\<not> f_writing s" using True assms(1) by (auto simp: stream_ok_defs split: if_splits)
  ultimately show ?thesis using assms(1) by (auto simp: stream_ok_defs)
next
  case False
  obtain b s1 where t: "(if IS_NARROW_READING s then Some (True, s) else stdio_trans2r io s) = Some (b, s1)"
    using assms(2) False by (auto simp: ungetc_def split: bind_splits if_splits)
  note w = to_reading [OF assms(1) t]
  have push: "stream_ok (s1\<lparr>bufgetc_u := 0, f_reading := f_reading s1 + 1, f_eof := False,
      ungot := (if odd (f_reading s1 + 1) then (fst (ungot s1), c) else (c, 1))\<rparr>)"
    if "b" "\<not> (has_ungot s1 \<and> (odd (f_reading s1) \<or> snd (ungot s1) \<noteq> 0))"
  proof -
    have r1: "f_reading s1 = 1"
      using w that by (auto simp: stream_ok_defs has_ungot_def)
    then show ?thesis using w(1) w(2) [OF that(1)] by (auto simp: stream_ok_defs)
  qed
  show ?thesis
    using assms(2) False t w(1) push unfolding ungetc_def by (simp split: if_splits) auto
qed

lemma setvbuf_ok:
  assumes "stream_ok s" "setvbuf alloc ub m n s = (r, s')"
  shows "stream_ok s'"
proof (cases "m < 0 \<or> m > 2 \<or> f_reading s \<noteq> 0 \<or> f_writing s \<or> f_narrow s \<or> f_wide s \<or> f_error s \<or> f_eof s")
  case True
  then show ?thesis using assms by (auto simp: setvbuf_def split: if_splits)
next
  case False
  then have i: "f_reading s = 0" "\<not> f_writing s" by auto
  have ch: "stream_ok (init_bufread_bufpos (s\<lparr>f_bufmode := k, f_freebuf := fr, bufdata := b, bufgetc_u := 0, bufputc_u := 0\<rparr>))"
    if "k = NBF \<longrightarrow> b = []" for k fr b
    using assms(1) i that by (simp add: stream_ok_defs init_bufread_bufpos_def)
  have kp: "stream_ok (s\<lparr>f_bufmode := k\<rparr>)" if "k \<noteq> NBF" for k
    using assms(1) i that by (simp add: stream_ok_defs)
  show ?thesis
    using assms(2) False ch kp by (auto simp: setvbuf_def Let_def split: if_splits option.splits)
qed

lemma clearerr_ok: "stream_ok s \<Longrightarrow> stream_ok (clearerr_unlocked s)"
  by (cases "f_writing s"; cases "f_reading s = 0") (auto simp: stream_ok_defs clearerr_unlocked_def)

lemma getdelim_loop_ok: "getdelim_loop io mem delim n p s = Some r \<Longrightarrow> stream_ok s \<longrightarrow> stream_ok (snd r)"
proof (rule getdelim_loop.raw_induct [of "\<lambda>io mem delim n p s r. stream_ok s \<longrightarrow> stream_ok (snd r)"])
  fix f :: "'a cookie_io \<Rightarrow> (nat \<Rightarrow> bool) \<Rightarrow> int \<Rightarrow> nat \<Rightarrow> byte list \<Rightarrow> 'a FILE \<Rightarrow> ((int \<times> nat \<times> byte list) \<times> 'a FILE) option"
    and io mem delim n p s r
  assume ih: "\<And>io mem delim n p s r. f io mem delim n p s = Some r \<Longrightarrow> stream_ok s \<longrightarrow> stream_ok (snd r)"
    and st: "(if n \<le> length p + 1 \<and> \<not> mem (n + 64) then Some ((- 1, n, p), s)
       else fgetc_unlocked io s \<bind> (\<lambda>(c, s1).
          let n1 = if n \<le> length p + 1 then n + 64 else n; p1 = p @ [word_of_int c]
          in if c \<noteq> EOF then if c \<noteq> delim then f io mem delim n1 p1 s1 else Some ((int (length p1), n1, p1), s1)
             else Some ((if p = [] then - 1 else int (length p), n1, p), s1))) = Some r"
  show "stream_ok s \<longrightarrow> stream_ok (snd r)"
  proof
    assume s: "stream_ok s"
    show "stream_ok (snd r)"
    proof (cases "n \<le> length p + 1 \<and> \<not> mem (n + 64)")
      case False
      then obtain c s1 where g: "fgetc_unlocked io s = Some (c, s1)"
        using st by (cases "fgetc_unlocked io s") (auto simp only: if_False Option.bind.bind_lzero)
      have "stream_ok s1" by (rule fgetc_unlocked_ok [OF s g])
      moreover have "snd r = s1 \<or> (\<exists>n1 p1. f io mem delim n1 p1 s1 = Some r)"
        using st False g by (auto simp: Let_def split: if_splits)
      ultimately show ?thesis using ih by blast
    qed (use st s in auto)
  qed
qed

text \<open>Sequences of calls on a stream.\<close>

datatype stdio_op =
    Fputc int | Fputs "byte list" | Fwrite "byte list" nat nat | Fflush | Fseek int int | Rewind
  | Fgetc | Fread nat nat | Fgets int | Getdelim "nat option" int | Ungetc int | Clearerr | Setvbuf "byte list option" int nat

fun stdio_call :: "'c cookie_io \<Rightarrow> (nat \<Rightarrow> bool) \<Rightarrow> (nat \<Rightarrow> byte list option) \<Rightarrow> stdio_op \<Rightarrow> 'c FILE \<Rightarrow> 'c FILE option" where
  "stdio_call io mem alloc (Fputc c) s = map_option snd (fputc_unlocked io c s)"
| "stdio_call io mem alloc (Fputs d) s = map_option snd (fputs_unlocked io d s)"
| "stdio_call io mem alloc (Fwrite d n m) s = map_option snd (fwrite_unlocked io d n m s)"
| "stdio_call io mem alloc Fflush s = map_option snd (fflush_unlocked io s)"
| "stdio_call io mem alloc (Fseek p w) s = map_option snd (fseeko64 io p w s)"
| "stdio_call io mem alloc Rewind s = rewind io s"
| "stdio_call io mem alloc Fgetc s = map_option snd (fgetc_unlocked io s)"
| "stdio_call io mem alloc (Fread n m) s = map_option snd (fread_unlocked io n m s)"
| "stdio_call io mem alloc (Fgets n) s = map_option snd (fgets_unlocked io n s)"
| "stdio_call io mem alloc (Getdelim l d) s = map_option snd (getdelim io mem l d s)"
| "stdio_call io mem alloc (Ungetc c) s = map_option snd (ungetc io c s)"
| "stdio_call io mem alloc Clearerr s = Some (clearerr_unlocked s)"
| "stdio_call io mem alloc (Setvbuf b m n) s = Some (snd (setvbuf alloc b m n s))"

primrec stdio_calls :: "'c cookie_io \<Rightarrow> (nat \<Rightarrow> bool) \<Rightarrow> (nat \<Rightarrow> byte list option) \<Rightarrow> stdio_op list \<Rightarrow> 'c FILE \<Rightarrow> 'c FILE option" where
  "stdio_calls io mem alloc [] s = Some s"
| "stdio_calls io mem alloc (c # cs) s = do { s1 \<leftarrow> stdio_call io mem alloc c s; stdio_calls io mem alloc cs s1 }"

lemma rewind_ok: "stream_ok s \<Longrightarrow> rewind io s = Some s' \<Longrightarrow> stream_ok s'"
  using fseeko64_ok [of "s\<lparr>f_error := False\<rparr>" io 0 SEEK_SET] by (auto simp: rewind_def split: bind_splits)

lemma fputs_ok: "stream_ok s \<Longrightarrow> fputs_unlocked io d s = Some (r, s') \<Longrightarrow> stream_ok s'"
  using fwrite_unlocked_ok [of s io d 1 "length d"] by (auto simp: fputs_unlocked_def split: bind_splits)

lemma fgets_ok: "stream_ok s \<Longrightarrow> fgets_unlocked io n s = Some (r, s') \<Longrightarrow> stream_ok s'"
  using fgets_loop_ok [of s io "nat n - 1" "[]" r s'] by (auto simp: fgets_unlocked_def split: if_splits)

lemma getdelim_ok: "stream_ok s \<Longrightarrow> getdelim io mem l d s = Some (r, s') \<Longrightarrow> stream_ok s'"
  using getdelim_loop_ok unfolding getdelim_def by fastforce

lemmas stdio_ok = fputc_unlocked_ok fputs_ok fwrite_unlocked_ok fflush_unlocked_ok fseeko64_ok rewind_ok fgetc_unlocked_ok
  fread_unlocked_ok fgets_ok getdelim_ok ungetc_ok clearerr_ok

lemma stdio_call_ok: "stream_ok s \<Longrightarrow> stdio_call io mem alloc c s = Some s' \<Longrightarrow> stream_ok s'"
  by (cases c) (auto dest: stdio_ok setvbuf_ok [OF _ surjective_pairing])

lemma stdio_calls_ok: "stream_ok s \<Longrightarrow> stdio_calls io mem alloc cs s = Some s' \<Longrightarrow> stream_ok s'"
  by (induction cs arbitrary: s) (auto split: bind_splits dest: stdio_call_ok)

lemma fopencookie_eq:
  "fopencookie mem alloc e c mode =
     (case fopen_mode mode of
        None \<Rightarrow> Inl EINVAL
      | Some (acc, app) \<Rightarrow>
          if \<not> mem then Inl ENOMEM
          else
            (let block = alloc BUFSIZ
             in Inr \<lparr>f_reading = 0, f_eof = False, f_error = False, f_writeonly = (acc = 1), f_readonly = (acc = 0), f_writing = False,
                  f_narrow = False, f_wide = False, f_bufmode = FBF, f_append = app, f_freefile = True, f_freebuf = (block \<noteq> None),
                  ungot = (0, 0), filedes = - 1, bufdata = (case block of None \<Rightarrow> [] | Some b \<Rightarrow> b),
                  bufpos = 0, bufread = 0, bufgetc_u = 0, bufputc_u = 0, cookie = c, f_errno = e\<rparr>))"
  by (simp add: fopencookie_def stdio_fopen_def Let_def split: option.splits)

lemma fopencookie_ok: "fopencookie m alloc e c mode = Inr s \<Longrightarrow> stream_ok s"
  by (auto simp: fopencookie_eq stream_ok_defs Let_def split: option.splits if_splits)

text \<open>C8: in every state that any sequence of calls leads to from a newly opened stream, whatever the functions behind the stream do,
  the assertions of \<open>_stdio_validate_FILE\<close> hold, where a stream that writes does not count as being at the end of the
  file.\<close>

theorem stdio_validated:
  assumes "fopencookie m alloc e c mode = Inr s0" "stdio_calls io mem alloc calls s0 = Some s"
  shows "validate_FILE (s\<lparr>f_eof := f_eof s \<and> \<not> f_writing s\<rparr>)"
proof -
  have "stream_ok s" using stdio_calls_ok [OF fopencookie_ok [OF assms(1)] assms(2)] .
  then have "stream_ok (s\<lparr>f_eof := f_eof s \<and> \<not> f_writing s\<rparr>)"
    by (cases "f_writing s"; cases "f_reading s = 0") (auto simp: stream_ok_defs)
  then show ?thesis by (intro stream_ok_validate) auto
qed

text \<open>A file of one byte for the witnesses: it reads that byte for ever, and writes and seeks succeed without an effect.\<close>

definition one_byte_io :: "unit cookie_io" where
  "one_byte_io = \<lparr>io_read = Some (\<lambda>c n. (Inr [65], c)), io_write = Some (\<lambda>c d. (Inr (length d), c)),
     io_seek = Some (\<lambda>c p w. (Inr p, c)), io_close = None, flush_others = (\<lambda>c. c)\<rparr>"

lemmas stdio_defs = fputc_unlocked_def fputc_put_def fputs_unlocked_def fwrite_unlocked_def stdio_fwrite_def fflush_unlocked_def fseeko64_def
  rewind_def fgetc_unlocked_def fgetc_fill_def stdio_rfill_def stdio_READ_def fread_unlocked_def fread_bytes_def fgets_unlocked_def ungetc_def
  stdio_wcommit_def stdio_WRITE_def write_loop.simps WRITE_io_def READ_io_def SEEK_io_def buffer_add_def buffer_get_def take_ungot_def
  flush_lbf_streams_def stdio_trans2w_def stdio_trans2r_def set_narrow_def start_writing_def stop_reading_def init_bufread_bufpos_def seek_reset_def
  has_ungot_def IS_NARROW_READING_def IS_NARROW_WRITING_def WAVAIL_def adjust_position_def Let_def

lemmas stdio_eval = stdio_defs fopencookie_eq fopen_mode_def EOF_def SSIZE_MAX_def SIZE_T_MAX_def SEEK_SET_def SEEK_CUR_def SEEK_END_def newline_def

theorem stdio_validated_witness:
  "\<exists>s0 s. fopencookie True (\<lambda>n. Some [0, 0]) 0 () [0x72, 0x2b] = Inr s0 \<and>
     stdio_calls one_byte_io (\<lambda>_. True) (\<lambda>n. Some [0, 0]) [Fgetc, Ungetc 66, Fgetc, Fputc 67, Fflush, Fputc 10, Rewind] s0 = Some s \<and>
     validate_FILE (s\<lparr>f_eof := f_eof s \<and> \<not> f_writing s\<rparr>)"
proof -
  have "\<exists>s0 s. fopencookie True (\<lambda>n. Some [0, 0]) 0 () [0x72, 0x2b] = Inr s0 \<and>
      stdio_calls one_byte_io (\<lambda>_. True) (\<lambda>n. Some [0, 0]) [Fgetc, Ungetc 66, Fgetc, Fputc 67, Fflush, Fputc 10, Rewind] s0 = Some s"
    by (simp add: stdio_eval one_byte_io_def)
  then obtain s0 s where r: "fopencookie True (\<lambda>n. Some [0, 0]) 0 () [0x72, 0x2b] = Inr s0"
      "stdio_calls one_byte_io (\<lambda>_. True) (\<lambda>n. Some [0, 0]) [Fgetc, Ungetc 66, Fgetc, Fputc 67, Fflush, Fputc 10, Rewind] s0 = Some s"
    by blast
  then show ?thesis using stdio_validated [OF r] by blast
qed

text \<open>A stream at the end of its file that starts to write keeps its end-of-file flag: after the first byte the assertion that such a stream
  has nothing in its buffer is violated.\<close>

theorem write_at_eof_violates:
  assumes "stream_ok s" "f_reading s = 1" "f_eof s" "f_narrow s" "\<not> f_readonly s" "\<not> IS_FAKE_VSNPRINTF s" "f_bufmode s = FBF" "bufdata s \<noteq> []"
  shows "\<exists>s'. fputc_unlocked io c s = Some (uint (word_of_int c :: byte), s') \<and> f_eof s' \<and> \<not> validate_FILE s'"
proof -
  have n: "\<not> f_writing s" "\<not> f_wide s" "bufputc_u s = 0" using assms by (auto simp: stream_ok_defs split: if_splits)
  have t: "stdio_trans2w io s = Some (True, start_writing (stop_reading s))"
    using assms n by (simp add: stdio_trans2w_def set_narrow_def)
  have "fputc_unlocked io c s = Some (uint (word_of_int c :: byte), buffer_add [word_of_int c] (start_writing (stop_reading s)))"
    using assms n t
    by (simp add: fputc_unlocked_def IS_NARROW_WRITING_def fputc_put_def start_writing_def stop_reading_def init_bufread_bufpos_def
        WAVAIL_def buffer_add_def Let_def)
  then show ?thesis
    using assms(3) by (auto simp: validate_FILE_def buffer_add_def start_writing_def stop_reading_def init_bufread_bufpos_def Let_def)
qed

theorem write_at_eof_violates_witness:
  "\<exists>s s' :: unit FILE. f_eof s \<and> fputc_unlocked one_byte_io 67 s = Some (67, s') \<and> f_eof s' \<and> \<not> validate_FILE s'"
proof -
  let ?s = "\<lparr>f_reading = 1, f_eof = True, f_error = False, f_writeonly = False, f_readonly = False, f_writing = False,
    f_narrow = True, f_wide = False, f_bufmode = FBF, f_append = False, f_freefile = True, f_freebuf = True, ungot = (0, 0), filedes = 3,
    bufdata = [1, 2], bufpos = 2, bufread = 2, bufgetc_u = 2, bufputc_u = 0, cookie = (), f_errno = 0\<rparr> :: unit FILE"
  have "stream_ok ?s" by (simp add: stream_ok_defs)
  then obtain s' where "fputc_unlocked one_byte_io 67 ?s = Some (67, s')" "f_eof s'" "\<not> validate_FILE s'"
    using write_at_eof_violates [of ?s one_byte_io 67] by auto
  then show ?thesis by (intro exI [of _ ?s] exI [of _ s']) simp
qed

end
