(* ===== verification/Stdio_Output.thy ===== *)
theory Stdio_Output
  imports Stdio_Proofs
begin

text \<open>
  Output: what \<open>fwrite\<close>, \<open>fputc\<close> and \<open>fflush\<close> do to the file behind a stream, seen together with the bytes that are still in the buffer. It is
  the write of the first bytes of the data at the position of the stream. At the end, two cases in which it is not: an error that is not temporary,
  and line buffered streams with errors.
\<close>

section \<open>Output\<close>

text \<open>The file as it will be when the buffer of a stream that writes is written, and the position where the next byte goes.\<close>

definition stream_view :: "bool \<Rightarrow> ('c \<Rightarrow> byte list) \<Rightarrow> ('c \<Rightarrow> nat) \<Rightarrow> 'c FILE \<Rightarrow> byte list" where
  "stream_view app fdata fpos s = overwrite (wpos app fdata fpos (cookie s)) (take (bufpos s) (bufdata s)) (fdata (cookie s))"

definition stream_wpos :: "bool \<Rightarrow> ('c \<Rightarrow> byte list) \<Rightarrow> ('c \<Rightarrow> nat) \<Rightarrow> 'c FILE \<Rightarrow> nat" where
  "stream_wpos app fdata fpos s = wpos app fdata fpos (cookie s) + bufpos s"

text \<open>What a full or unbuffered stream can stand, or any stream without errors.\<close>

definition reliable :: "'c cookie_io \<Rightarrow> 'c FILE \<Rightarrow> bool" where
  "reliable io s \<longleftrightarrow> no_errors io \<or> soft_errors io \<and> f_bufmode s \<noteq> LBF"

context cookie_writer
begin

abbreviation "view \<equiv> stream_view app fdata fpos"
abbreviation "wp \<equiv> stream_wpos app fdata fpos"

text \<open>The first \<open>k\<close> bytes of \<open>d\<close> have been taken.\<close>

definition accepted :: "'c FILE \<Rightarrow> byte list \<Rightarrow> nat \<Rightarrow> 'c FILE \<Rightarrow> bool" where
  "accepted s d k s' \<longleftrightarrow> ok (cookie s') \<and> k \<le> length d \<and> view s' = overwrite (wp s) (take k d) (view s) \<and> wp s' = wp s + k \<and>
     (k < length d \<longrightarrow> f_error s')"

lemma acceptedI_written:
  assumes "written (cookie s) d m c" "bufpos s = 0" "cookie s' = c" "k \<le> length d" "m \<le> k" "bufpos s' = k - m"
    and "take (k - m) (bufdata s') = take (k - m) (drop m d)" "k < length d \<Longrightarrow> f_error s'"
  shows "accepted s d k s'"
proof -
  have w: "ok c" "m \<le> length d" "fdata c = overwrite (wpos app fdata fpos (cookie s)) (take m d) (fdata (cookie s))"
    "wpos app fdata fpos c = wpos app fdata fpos (cookie s) + m"
    using assms(1) by (auto simp: written_def)
  have "view s' = overwrite (wpos app fdata fpos (cookie s)) (take (m + (k - m)) d) (fdata (cookie s))"
    using overwrite_step [OF w(2), of "wpos app fdata fpos (cookie s)" "k - m" "fdata (cookie s)"] w assms(3,6,7)
    by (simp add: stream_view_def)
  then show ?thesis using w assms by (simp add: accepted_def stream_view_def stream_wpos_def)
qed

lemma write_failed_soft:
  assumes "f_errno s = EINTR \<or> f_errno s = EAGAIN" "f_bufmode s \<noteq> LBF" "length d \<le> n" "bufpos s = 0"
  shows "\<exists>s'. write_failed n d s = (n - (length d - bufpos s'), s') \<and> cookie s' = cookie s \<and> f_error s' \<and>
    bufpos s' = min (length (bufdata s)) (length d) \<and> take (bufpos s') (bufdata s') = take (bufpos s') d"
proof (cases "bufdata s = []")
  case True
  then show ?thesis using assms by (intro exI [of _ "s\<lparr>f_error := True\<rparr>"]) (auto simp: write_failed_def)
next
  case False
  let ?x = "take (length (bufdata s)) d"
  let ?s = "s\<lparr>f_error := True, bufdata := ?x @ drop (length ?x) (bufdata s), bufpos := length ?x\<rparr>"
  have f: "fill False (bufdata s) 0 ?x = (?x @ drop (length ?x) (bufdata s), length ?x)"
    using fill_all [of 0 ?x "bufdata s" False] by simp
  have "write_failed n d s = (n - (length d - length ?x), ?s)"
    using assms False by (auto simp only: write_failed_def f Let_def if_False simp_thms prod.case)
  then show ?thesis by (intro exI [of _ ?s]) (simp add: min_def)
qed

text \<open>\<open>__stdio_WRITE\<close> returns the number of bytes that it has written or buffered.\<close>

lemma WRITE_accepts:
  assumes "ok (cookie s)" "bufpos s = 0" "reliable io s"
  shows "\<exists>k s'. stdio_WRITE io d s = Some (k, s') \<and> accepted s d k s' \<and> (no_errors io \<or> length d \<le> length (bufdata s) \<longrightarrow> k = length d) \<and>
    (no_errors io \<longrightarrow> bufpos s' = 0) \<and> (bufpos s' \<noteq> 0 \<longrightarrow> f_error s')"
proof -
  from assms(1) show ?thesis
  proof (cases rule: write_loop_result [of s "length d" d])
    case (1 c)
    have "accepted s d (length d) (s\<lparr>cookie := c\<rparr>)"
      by (rule acceptedI_written [OF 1(2) assms(2)]) (simp_all add: assms(2))
    then show ?thesis using 1(1) assms(2) by (simp add: stdio_WRITE_def)
  next
    case (2 m e c)
    have soft: "soft_errors io" "\<not> no_errors io"
    proof -
      show "soft_errors io" using assms(3) no_errors_soft by (auto simp: reliable_def)
      show "\<not> no_errors io" using 2(5) by simp
    qed
    then have lbf: "f_bufmode s \<noteq> LBF" using assms(3) by (auto simp: reliable_def)
    let ?s = "io_error e c s"
    have e: "f_errno ?s = EINTR \<or> f_errno ?s = EAGAIN" using 2(4) [OF soft(1)] by (auto simp: io_error_def)
    obtain s' where s': "write_failed (length d) (drop m d) ?s = (length d - (length (drop m d) - bufpos s'), s')" "cookie s' = c" "f_error s'"
        "bufpos s' = min (length (bufdata s)) (length (drop m d))" "take (bufpos s') (bufdata s') = take (bufpos s') (drop m d)"
      using write_failed_soft [OF e, of "drop m d" "length d"] lbf assms(2) by (auto simp: io_error_def)
    define k where "k = length d - (length (drop m d) - bufpos s')"
    have k: "m \<le> k" "k \<le> length d" "bufpos s' = k - m" using 2(3) s'(4) by (auto simp: k_def)
    have "accepted s d k s'"
      by (rule acceptedI_written [OF 2(2) assms(2) s'(2) k(2,1,3)]) (use s'(3,5) k(3) in simp_all)
    moreover have "k = length d" if "length d \<le> length (bufdata s)" using that s'(4) 2(3) by (auto simp: k_def)
    ultimately show ?thesis using 2(1) s'(1,3) soft(2) by (simp add: stdio_WRITE_def k_def)
  qed
qed

end

context cookie_writer
begin

lemma accepted_trans0: "accepted s [] 0 s1 \<Longrightarrow> accepted s1 d k s2 \<Longrightarrow> accepted s d k s2"
  by (simp add: accepted_def)

lemma accepted_then_none: "accepted s d k s1 \<Longrightarrow> accepted s1 [] 0 s2 \<Longrightarrow> k = length d \<or> f_error s2 \<Longrightarrow> accepted s d k s2"
  by (auto simp: accepted_def)

lemma wcommit_accepts:
  assumes "ok (cookie s)" "bufpos s \<le> length (bufdata s)" "reliable io s"
  shows "\<exists>s'. stdio_wcommit io s = Some (bufpos s', s') \<and> accepted s [] 0 s' \<and> (no_errors io \<longrightarrow> bufpos s' = 0) \<and> (bufpos s' \<noteq> 0 \<longrightarrow> f_error s')"
proof (cases "bufpos s = 0")
  case True
  then show ?thesis using assms(1) by (simp add: stdio_wcommit_def accepted_def stream_view_def stream_wpos_def)
next
  case False
  let ?d = "take (bufpos s) (bufdata s)" and ?s = "s\<lparr>bufpos := 0\<rparr>"
  obtain k s' where w: "stdio_WRITE io ?d ?s = Some (k, s')" "accepted ?s ?d k s'" "length ?d \<le> length (bufdata ?s) \<longrightarrow> k = length ?d"
      "no_errors io \<longrightarrow> bufpos s' = 0" "bufpos s' \<noteq> 0 \<longrightarrow> f_error s'"
    using WRITE_accepts [of ?s ?d] assms by (auto simp: reliable_def)
  have "k = length ?d" using w(3) by simp
  then have "accepted s [] 0 s'" using w(2) assms(2) by (simp add: accepted_def stream_view_def stream_wpos_def)
  then show ?thesis using w False by (simp add: stdio_wcommit_def)
qed

lemma buffer_add_accepts:
  assumes "ok (cookie s)" "bufpos s \<le> length (bufdata s)"
  shows "accepted s d (length d) (buffer_add d s)"
proof -
  have "overwrite (wpos app fdata fpos (cookie s)) (take (bufpos s) (bufdata s) @ d) (fdata (cookie s)) =
      overwrite (wpos app fdata fpos (cookie s) + bufpos s) d
        (overwrite (wpos app fdata fpos (cookie s)) (take (bufpos s) (bufdata s)) (fdata (cookie s)))"
    using overwrite_append [of "wpos app fdata fpos (cookie s)" "take (bufpos s) (bufdata s)" d] assms(2) by simp
  then show ?thesis using assms by (simp add: accepted_def buffer_add_def stream_view_def stream_wpos_def)
qed

lemma reliable_frame: "wframe s s' \<Longrightarrow> reliable io s \<Longrightarrow> reliable io s'"
  by (simp add: reliable_def wframe_flags)

lemma stdio_fwrite_accepts:
  assumes "ok (cookie s)" "bufpos s \<le> length (bufdata s)" "reliable io s" "\<not> IS_FAKE_VSNPRINTF s" "f_bufmode s = NBF \<longrightarrow> bufdata s = []"
  shows "\<exists>k s'. stdio_fwrite io d s = Some (k, s') \<and> accepted s d k s' \<and> (no_errors io \<longrightarrow> k = length d)"
proof -
  have direct: "\<exists>k s'. stdio_WRITE io d s1 = Some (k, s') \<and> accepted s d k s' \<and> (no_errors io \<longrightarrow> k = length d)"
    if "accepted s [] 0 s1" "bufpos s1 = 0" "reliable io s1" for s1
    using WRITE_accepts [of s1 d] that accepted_trans0 [OF that(1)] by (auto simp: accepted_def)
  have self: "accepted s [] 0 s" using assms(1) by (simp add: accepted_def)
  show ?thesis
  proof (cases "f_bufmode s = NBF")
    case True
    then show ?thesis using direct [OF self] assms by (simp add: stdio_fwrite_def)
  next
    case buf: False
    show ?thesis
    proof (cases "length d \<le> WAVAIL s")
      case fits: True
      note add = buffer_add_accepts [OF assms(1,2), of d]
      show ?thesis
      proof (cases "f_bufmode s = LBF \<and> newline \<in> set d")
        case True
        then have ne: "no_errors io" using assms(3) by (auto simp: reliable_def)
        have "ok (cookie (buffer_add d s))" "reliable io (buffer_add d s)" "bufpos (buffer_add d s) \<le> length (bufdata (buffer_add d s))"
          using add ne assms(2) by (simp_all add: accepted_def reliable_def buffer_add_def)
        then obtain s2 where c: "stdio_wcommit io (buffer_add d s) = Some (0, s2)" "accepted (buffer_add d s) [] 0 s2"
          using wcommit_accepts ne by fastforce
        then show ?thesis using buf fits True assms(4) accepted_then_none [OF add c(2)] by (simp add: stdio_fwrite_def)
      next
        case False
        then have "stdio_fwrite io d s = Some (length d, buffer_add d s)"
          using buf fits assms(4) unfolding stdio_fwrite_def Let_def by auto
        then show ?thesis using add by simp
      qed
    next
      case big: False
      then have d: "d \<noteq> []" by auto
      obtain s1 where c: "stdio_wcommit io s = Some (bufpos s1, s1)" "accepted s [] 0 s1" "no_errors io \<longrightarrow> bufpos s1 = 0"
          "bufpos s1 \<noteq> 0 \<longrightarrow> f_error s1"
        using wcommit_accepts [OF assms(1-3)] by blast
      have r1: "reliable io s1" using wcommit_frame [OF c(1)] reliable_frame assms(3) by blast
      show ?thesis
      proof (cases "bufpos s = 0 \<or> bufpos s1 = 0")
        case True
        have "stdio_fwrite io d s = (if bufpos s = 0 then stdio_WRITE io d s else stdio_WRITE io d s1)"
          using buf big assms(4) c(1) True by (auto simp: stdio_fwrite_def)
        then show ?thesis using direct [OF self] direct [OF c(2)] r1 assms(3) True by auto
      next
        case False
        then have "accepted s d 0 s1" using c(2,4) by (simp add: accepted_def)
        moreover have "stdio_fwrite io d s = Some (0, s1)" using buf big assms(4) c(1) False by (simp add: stdio_fwrite_def)
        ultimately show ?thesis using False c(3) by (intro exI [of _ 0] exI [of _ s1]) simp
      qed
    qed
  qed
qed

lemma fputc_put_accepts:
  assumes "ok (cookie s)" "bufpos s \<le> length (bufdata s)" "reliable io s"
  shows "\<exists>k s'. fputc_put io uc s = Some (if k = 0 then EOF else uint uc, s') \<and> accepted s [uc] k s' \<and> (no_errors io \<longrightarrow> k = 1)"
proof (cases "bufdata s = []")
  case True
  then obtain k s' where "stdio_WRITE io [uc] s = Some (k, s')" "accepted s [uc] k s'" "no_errors io \<longrightarrow> k = 1"
    using WRITE_accepts [of s "[uc]"] assms by auto
  then show ?thesis by (intro exI [of _ k] exI [of _ s']) (simp add: fputc_put_def True)
next
  case False
  obtain p s1 where c: "(if WAVAIL s = 0 then stdio_wcommit io s else Some (0, s)) = Some (p, s1)" "accepted s [] 0 s1"
      "no_errors io \<longrightarrow> p = 0" "p \<noteq> 0 \<longrightarrow> f_error s1" "p = 0 \<longrightarrow> bufpos s1 < length (bufdata s1)" "reliable io s1"
  proof (cases "WAVAIL s = 0")
    case True
    obtain s1 where w: "stdio_wcommit io s = Some (bufpos s1, s1)" "accepted s [] 0 s1" "no_errors io \<longrightarrow> bufpos s1 = 0"
        "bufpos s1 \<noteq> 0 \<longrightarrow> f_error s1"
      using wcommit_accepts [OF assms] by blast
    have "wframe s s1" using wcommit_frame [OF w(1)] by blast
    then have "bufpos s1 = 0 \<longrightarrow> bufpos s1 < length (bufdata s1)" "reliable io s1"
      using wframe_flags(17) False reliable_frame assms(3) by auto
    then show ?thesis using that [of "bufpos s1" s1] True w by simp
  next
    case room: False
    then show ?thesis using that [of 0 s] assms by (auto simp: accepted_def WAVAIL_def)
  qed
  show ?thesis
  proof (cases "p = 0")
    case fail: False
    then have "accepted s [uc] 0 s1" using c(2,4) by (simp add: accepted_def)
    moreover have "fputc_put io uc s = Some (EOF, s1)" using c(1) False fail by (simp add: fputc_put_def)
    ultimately show ?thesis using c(3) fail by (intro exI [of _ 0] exI [of _ s1]) simp
  next
    case True
    let ?s2 = "buffer_add [uc] s1"
    have ok1: "ok (cookie s1)" "bufpos s1 \<le> length (bufdata s1)" using c(2,5) True by (simp_all add: accepted_def)
    have add: "accepted s [uc] 1 ?s2" using accepted_trans0 [OF c(2)] buffer_add_accepts [OF ok1, of "[uc]"] by simp
    show ?thesis
    proof (cases "f_bufmode ?s2 = LBF \<and> uc = newline")
      case lbf: True
      then have ne: "no_errors io" using c(6) by (auto simp: reliable_def buffer_add_def)
      have "ok (cookie ?s2)" "reliable io ?s2" "bufpos ?s2 \<le> length (bufdata ?s2)"
        using add ne c(5) True by (simp_all add: accepted_def reliable_def buffer_add_def)
      then obtain s3 where w: "stdio_wcommit io ?s2 = Some (0, s3)" "accepted ?s2 [] 0 s3" using wcommit_accepts ne by fastforce
      have "fputc_put io uc s = Some (uint uc, s3)" using c(1) False True lbf w(1) by (auto simp: fputc_put_def Let_def)
      moreover have "accepted s [uc] 1 s3" using accepted_then_none [OF add w(2)] by simp
      ultimately show ?thesis by (intro exI [of _ 1] exI [of _ s3]) simp
    next
      case nl: False
      then have "fputc_put io uc s = Some (uint uc, ?s2)" using c(1) False True unfolding fputc_put_def Let_def by auto
      then show ?thesis using add by (intro exI [of _ 1] exI [of _ ?s2]) simp
    qed
  qed
qed

end

text \<open>A stream that can write: it is not reading, or it has been opened for reading and writing and is idle.\<close>

definition can_write :: "'c FILE \<Rightarrow> bool" where
  "can_write s \<longleftrightarrow> stream_ok s \<and> f_reading s = 0 \<and> \<not> f_readonly s \<and> \<not> f_wide s \<and> \<not> IS_FAKE_VSNPRINTF s"

lemma can_write_frame: "can_write s \<Longrightarrow> f_writing s \<Longrightarrow> wframe s s' \<Longrightarrow> can_write s'"
  using wframe_ok [of s s'] by (simp add: can_write_def wframe_flags)

text \<open>The transition to writing changes nothing for a stream that does not read.\<close>

lemma trans2w_idle:
  assumes "can_write s" "\<not> IS_NARROW_WRITING s"
  shows "\<exists>s1. stdio_trans2w io s = Some (True, s1) \<and> can_write s1 \<and> f_writing s1 \<and> f_narrow s1 \<and> cookie s1 = cookie s \<and> bufpos s1 = bufpos s \<and>
    bufdata s1 = bufdata s \<and> f_bufmode s1 = f_bufmode s"
proof -
  let ?n = "if f_narrow s then s else s\<lparr>f_narrow := True\<rparr>"
  have n: "set_narrow s = Some ?n" using assms(1) by (simp add: set_narrow_def can_write_def)
  have t: "stdio_trans2w io s = Some (True, start_writing ?n)"
    using assms(1) n by (simp add: stdio_trans2w_def can_write_def)
  have "stream_ok (start_writing ?n)" using trans2w_ok(1) [of s io True] assms(1) t by (simp add: can_write_def)
  then show ?thesis using assms(1) t by (auto simp: can_write_def start_writing_def Let_def)
qed

lemma writing_start:
  assumes "can_write s"
  shows "\<exists>s1. (if IS_NARROW_WRITING s then Some (True, s) else stdio_trans2w io s) = Some (True, s1) \<and> can_write s1 \<and> f_writing s1 \<and> f_narrow s1 \<and>
    cookie s1 = cookie s \<and> bufpos s1 = bufpos s \<and> bufdata s1 = bufdata s \<and> f_bufmode s1 = f_bufmode s \<and>
    bufpos s1 \<le> length (bufdata s1) \<and> (f_bufmode s1 = NBF \<longrightarrow> bufdata s1 = [])"
proof -
  obtain s1 where "(if IS_NARROW_WRITING s then Some (True, s) else stdio_trans2w io s) = Some (True, s1)" "can_write s1" "f_writing s1"
      "f_narrow s1" "cookie s1 = cookie s" "bufpos s1 = bufpos s" "bufdata s1 = bufdata s" "f_bufmode s1 = f_bufmode s"
  proof (cases "IS_NARROW_WRITING s")
    case True
    then show ?thesis using that [of s] assms by (simp add: IS_NARROW_WRITING_def)
  next
    case False
    then show ?thesis using that trans2w_idle [OF assms False, of io] by auto
  qed
  moreover from this have "bufpos s1 \<le> length (bufdata s1) \<and> (f_bufmode s1 = NBF \<longrightarrow> bufdata s1 = [])"
    by (simp add: can_write_def stream_ok_defs)
  ultimately show ?thesis by blast
qed

lemma fwrite_effect:
  assumes "cookie_writer io app ok fdata fpos" "can_write s" "ok (cookie s)" "reliable io s"
    and "n \<noteq> 0" "m \<noteq> 0" "m \<le> SIZE_T_MAX div n" "length d = n * m"
  shows "\<exists>k s'. fwrite_unlocked io d n m s = Some (k div n, s') \<and> k \<le> length d \<and>
    stream_view app fdata fpos s' = overwrite (stream_wpos app fdata fpos s) (take k d) (stream_view app fdata fpos s) \<and>
    stream_wpos app fdata fpos s' = stream_wpos app fdata fpos s + k \<and>
    (k < length d \<longrightarrow> f_error s') \<and> (no_errors io \<longrightarrow> k = length d) \<and> can_write s' \<and> ok (cookie s')"
proof -
  obtain s1 where t: "(if IS_NARROW_WRITING s then Some (True, s) else stdio_trans2w io s) = Some (True, s1)" and
      s1: "can_write s1" "f_writing s1" "cookie s1 = cookie s" "bufpos s1 = bufpos s" "bufdata s1 = bufdata s" "f_bufmode s1 = f_bufmode s"
        "bufpos s1 \<le> length (bufdata s1)" "f_bufmode s1 = NBF \<longrightarrow> bufdata s1 = []"
    using writing_start [OF assms(2), of io] by blast
  have o1: "ok (cookie s1)" "reliable io s1" "\<not> IS_FAKE_VSNPRINTF s1" using s1 assms(3,4) by (simp_all add: reliable_def can_write_def)
  obtain k s' where w: "stdio_fwrite io d s1 = Some (k, s')" "cookie_writer.accepted app ok fdata fpos s1 d k s'" "no_errors io \<longrightarrow> k = length d"
    using cookie_writer.stdio_fwrite_accepts [OF assms(1) o1(1) s1(7) o1(2,3) s1(8)] by blast
  have "can_write s'" using can_write_frame [OF s1(1,2)] stdio_fwrite_frame [OF w(1) s1(7)] by blast
  moreover have "fwrite_unlocked io d n m s = Some (k div n, s')" using t w(1) assms(5-8) by (simp add: fwrite_unlocked_def)
  moreover have "stream_view app fdata fpos s1 = stream_view app fdata fpos s" "stream_wpos app fdata fpos s1 = stream_wpos app fdata fpos s"
    using s1 by (simp_all add: stream_view_def stream_wpos_def)
  ultimately show ?thesis using w(2,3) by (auto simp: cookie_writer.accepted_def [OF assms(1)])
qed

text \<open>C9: \<open>fwrite\<close> on a stream that can be written returns, and what it does to the file and the buffer together is the write of
  some first part of its bytes at the position of the stream: no byte is lost, doubled or moved, whatever part of the data
  the file takes at a time. Errors of the file are covered when the stream is fully buffered or unbuffered and the errors
  are temporary, \<open>EINTR\<close> or \<open>EAGAIN\<close>, in any number; line buffered streams are covered only when the file makes no errors,
  and other errors not at all (\<open>line_buffer_loses_bytes\<close> and \<open>hard_error_reported_as_success\<close> show what happens then). It takes
  fewer bytes than it was given only with the error flag set, and all of them when there is no error.\<close>

theorem fwrite_refines:
  assumes "cookie_writer io app ok fdata fpos" "can_write s" "ok (cookie s)" "reliable io s"
    and "n \<noteq> 0" "m \<noteq> 0" "m \<le> SIZE_T_MAX div n" "length d = n * m"
  shows "\<exists>k s'. fwrite_unlocked io d n m s = Some (k div n, s') \<and> k \<le> length d \<and>
    stream_view app fdata fpos s' = overwrite (stream_wpos app fdata fpos s) (take k d) (stream_view app fdata fpos s) \<and>
    stream_wpos app fdata fpos s' = stream_wpos app fdata fpos s + k \<and>
    (k < length d \<longrightarrow> f_error s') \<and> (no_errors io \<longrightarrow> k = length d) \<and> can_write s' \<and> ok (cookie s')"
  by (rule fwrite_effect [OF assms])


text \<open>The same for \<open>fputc\<close>, which returns the byte or \<open>EOF\<close>.\<close>

lemma fputc_refines:
  assumes "cookie_writer io app ok fdata fpos" "can_write s" "ok (cookie s)" "reliable io s"
  shows "\<exists>k s'. fputc_unlocked io c s = Some (if k = 0 then EOF else uint (word_of_int c :: byte), s') \<and> k \<le> 1 \<and>
    stream_view app fdata fpos s' = overwrite (stream_wpos app fdata fpos s) (take k [word_of_int c]) (stream_view app fdata fpos s) \<and>
    stream_wpos app fdata fpos s' = stream_wpos app fdata fpos s + k \<and>
    (k = 0 \<longrightarrow> f_error s') \<and> (no_errors io \<longrightarrow> k = 1) \<and> can_write s' \<and> ok (cookie s')"
proof (cases "bufpos s < bufputc_u s")
  case True
  then have w: "f_writing s" "bufpos s \<le> length (bufdata s)" "1 \<le> WAVAIL s"
    using assms(2) by (auto simp: can_write_def stream_ok_defs WAVAIL_def split: if_splits)
  let ?s = "buffer_add [word_of_int c] s"
  have "fputc_unlocked io c s = Some (uint (word_of_int c :: byte), ?s)" using True by (simp add: fputc_unlocked_def Let_def)
  moreover have "cookie_writer.accepted app ok fdata fpos s [word_of_int c] 1 ?s"
    using cookie_writer.buffer_add_accepts [OF assms(1,3) w(2), of "[word_of_int c]"] by simp
  moreover have "can_write ?s" using can_write_frame [OF assms(2) w(1) buffer_add_frame] w by simp
  ultimately show ?thesis by (intro exI [of _ 1] exI [of _ ?s]) (simp add: cookie_writer.accepted_def [OF assms(1)])
next
  case False
  obtain s1 where t: "(if IS_NARROW_WRITING s then Some (True, s) else stdio_trans2w io s) = Some (True, s1)" and
      s1: "can_write s1" "f_writing s1" "cookie s1 = cookie s" "bufpos s1 = bufpos s" "bufdata s1 = bufdata s" "f_bufmode s1 = f_bufmode s"
        "bufpos s1 \<le> length (bufdata s1)"
    using writing_start [OF assms(2), of io] by blast
  have o1: "ok (cookie s1)" "reliable io s1" "\<not> IS_FAKE_VSNPRINTF s1" using s1 assms(3,4) by (simp_all add: reliable_def can_write_def)
  obtain k s' where w: "fputc_put io (word_of_int c) s1 = Some (if k = 0 then EOF else uint (word_of_int c :: byte), s')"
      "cookie_writer.accepted app ok fdata fpos s1 [word_of_int c] k s'" "no_errors io \<longrightarrow> k = 1"
    using cookie_writer.fputc_put_accepts [OF assms(1) o1(1) s1(7) o1(2)] by blast
  have "can_write s'" using can_write_frame [OF s1(1,2)] fputc_put_frame [OF s1(7) w(1)] by blast
  moreover have "fputc_unlocked io c s = Some (if k = 0 then EOF else uint (word_of_int c :: byte), s')"
    using False t w(1) o1(3) by (simp add: fputc_unlocked_def Let_def)
  moreover have "stream_view app fdata fpos s1 = stream_view app fdata fpos s" "stream_wpos app fdata fpos s1 = stream_wpos app fdata fpos s"
    using s1 by (simp_all add: stream_view_def stream_wpos_def)
  ultimately show ?thesis using w(2,3) by (intro exI [of _ k] exI [of _ s']) (simp add: cookie_writer.accepted_def [OF assms(1)])
qed

lemma fflush_refines:
  assumes "cookie_writer io app ok fdata fpos" "can_write s" "ok (cookie s)" "reliable io s"
  shows "\<exists>r s'. fflush_unlocked io s = Some (r, s') \<and> stream_view app fdata fpos s' = stream_view app fdata fpos s \<and>
    (r = 0 \<and> fdata (cookie s') = stream_view app fdata fpos s \<and> \<not> f_writing s' \<or> r = EOF \<and> f_error s') \<and>
    (no_errors io \<longrightarrow> r = 0) \<and> can_write s' \<and> ok (cookie s')"
proof (cases "f_writing s")
  case True
  have p: "bufpos s \<le> length (bufdata s)" using assms(2) True by (simp add: can_write_def stream_ok_defs)
  obtain s1 where c: "stdio_wcommit io s = Some (bufpos s1, s1)" "cookie_writer.accepted app ok fdata fpos s [] 0 s1"
      "no_errors io \<longrightarrow> bufpos s1 = 0" "bufpos s1 \<noteq> 0 \<longrightarrow> f_error s1"
    using cookie_writer.wcommit_accepts [OF assms(1,3) p assms(4)] by blast
  have w: "can_write s1" "f_writing s1"
    using can_write_frame [OF assms(2) True] wcommit_frame [OF c(1)] wframe_flags(5) True by blast+
  have v: "stream_view app fdata fpos s1 = stream_view app fdata fpos s" "ok (cookie s1)"
    using c(2) by (simp_all add: cookie_writer.accepted_def [OF assms(1)])
  show ?thesis
  proof (cases "bufpos s1 = 0")
    case empty: True
    let ?s = "s1\<lparr>bufputc_u := 0, f_writing := False\<rparr>"
    have "can_write ?s" using w stop_writing_ok [of s1] empty by (simp add: can_write_def)
    moreover have "fflush_unlocked io s = Some (0, ?s)" using True c(1) empty by (simp add: fflush_unlocked_def)
    ultimately show ?thesis using v empty by (intro exI [of _ 0] exI [of _ ?s]) (simp add: stream_view_def)
  next
    case False
    have "fflush_unlocked io s = Some (EOF, s1)" using True c(1) False by (simp add: fflush_unlocked_def)
    then show ?thesis using v w c(3,4) False by (intro exI [of _ EOF] exI [of _ s1]) simp
  qed
next
  case False
  then have "bufpos s = 0" using assms(2) by (simp add: can_write_def stream_ok_defs)
  then show ?thesis using False assms(2,3) by (simp add: fflush_unlocked_def stream_view_def)
qed

section \<open>Errors that lose output\<close>

text \<open>A file whose write function fails, leaving everything as it is.\<close>

definition write_fails :: "'c cookie_io \<Rightarrow> 'c \<Rightarrow> nat \<Rightarrow> bool" where
  "write_fails io c e \<longleftrightarrow> (\<exists>w. io_write io = Some w \<and> (\<forall>d. w c d = (Inl (Some e), c)))"

lemma write_fails_WRITE:
  assumes "write_fails io (cookie s) e" "d \<noteq> []"
  shows "stdio_WRITE io d s = Some (write_failed (length d) d (s\<lparr>f_errno := e\<rparr>))"
proof -
  have "WRITE_io io (take SSIZE_MAX d) s = (None, s\<lparr>f_errno := e\<rparr>)"
    using assms(1) by (auto simp: write_fails_def WRITE_io_def io_error_def)
  then show ?thesis using assms(2) by (subst stdio_WRITE_def, subst write_loop.simps) simp
qed

text \<open>After an error other than an interruption the data is dropped and reported as written: \<open>fflush\<close> returns success with nothing
  written, and \<open>fwrite\<close> to a stream without a buffer returns the full count.\<close>

theorem hard_error_reported_as_success:
  assumes "write_fails io (cookie s) e" "e \<noteq> EINTR" "e \<noteq> EAGAIN" "can_write s" "f_writing s" "f_narrow s"
  shows "(\<exists>s'. fflush_unlocked io s = Some (0, s') \<and> cookie s' = cookie s \<and> bufpos s' = 0) \<and>
    (bufdata s = [] \<and> d \<noteq> [] \<and> length d \<le> SIZE_T_MAX \<longrightarrow>
      (\<exists>s'. fwrite_unlocked io d 1 (length d) s = Some (length d, s') \<and> cookie s' = cookie s \<and> bufpos s' = 0))"
proof -
  have p: "bufpos s \<le> length (bufdata s)" using assms(4,5) by (simp add: can_write_def stream_ok_defs)
  have f: "stdio_WRITE io x s1 = Some (length x, s1\<lparr>f_errno := e, f_error := True\<rparr>)" if "x \<noteq> []" "cookie s1 = cookie s" for x s1
    using write_fails_WRITE [of io s1 e x] assms(1-3) that by (simp add: write_failed_def)
  have "\<exists>s'. fflush_unlocked io s = Some (0, s') \<and> cookie s' = cookie s \<and> bufpos s' = 0"
  proof (cases "bufpos s = 0")
    case False
    then have "take (bufpos s) (bufdata s) \<noteq> []" using p by auto
    then show ?thesis
      using assms(5) False f [of "take (bufpos s) (bufdata s)" "s\<lparr>bufpos := 0\<rparr>"]
      by (auto simp: fflush_unlocked_def stdio_wcommit_def)
  qed (use assms(5) in \<open>auto simp: fflush_unlocked_def stdio_wcommit_def\<close>)
  moreover have "\<exists>s'. fwrite_unlocked io d 1 (length d) s = Some (length d, s') \<and> cookie s' = cookie s \<and> bufpos s' = 0"
    if d: "bufdata s = []" "d \<noteq> []" "length d \<le> SIZE_T_MAX"
  proof -
    have "stdio_fwrite io d s = Some (length d, s\<lparr>f_errno := e, f_error := True\<rparr>)"
      using d p f [of d s] assms(4) by (auto simp: stdio_fwrite_def can_write_def WAVAIL_def)
    then show ?thesis using d p assms(5,6) by (auto simp: fwrite_unlocked_def IS_NARROW_WRITING_def)
  qed
  ultimately show ?thesis by blast
qed

lemma fill_newline:
  "newline \<notin> set xs \<Longrightarrow> k + length xs < length b \<Longrightarrow>
     fill True b k (xs @ newline # ys) = (take k b @ xs @ newline # drop (k + length xs + 1) b, k + length xs)"
proof (induction xs arbitrary: b k)
  case Nil
  then show ?case by (simp add: upd_conv_take_nth_drop)
next
  case (Cons x xs)
  have "fill True b k ((x # xs) @ newline # ys) = fill True (b[k := x]) (k + 1) (xs @ newline # ys)" using Cons.prems by auto
  also have "\<dots> = (take (k + 1) (b[k := x]) @ xs @ newline # drop (k + 1 + length xs + 1) (b[k := x]), k + 1 + length xs)"
    using Cons.prems by (intro Cons.IH) auto
  also have "take (k + 1) (b[k := x]) = take k b @ [x]" using Cons.prems by (simp add: take_Suc_conv_app_nth)
  finally show ?case by simp
qed

text \<open>A write of a line buffered stream that has to wait keeps what comes before the newline.\<close>

lemma lbf_WRITE_again:
  assumes "write_fails io (cookie s) EAGAIN" "f_bufmode s = LBF" "newline \<notin> set xs" "length xs < length (bufdata s)"
  shows "\<exists>n s'. stdio_WRITE io (xs @ newline # ys) s = Some (n, s') \<and> cookie s' = cookie s \<and> bufpos s' = length xs \<and>
    take (length xs) (bufdata s') = xs \<and> f_bufmode s' = LBF"
proof -
  obtain n where n: "take (length (bufdata s)) (xs @ newline # ys) = xs @ newline # take n ys"
    using assms(4) by (cases "length (bufdata s) - length xs") (auto simp: take_all)
  have "fill True (bufdata s) 0 (xs @ newline # take n ys) = (xs @ newline # drop (length xs + 1) (bufdata s), length xs)"
    using fill_newline [OF assms(3), of 0 "bufdata s" "take n ys"] assms(4) by simp
  moreover have "bufdata s \<noteq> []" using assms(4) by auto
  ultimately have "write_failed (length (xs @ newline # ys)) (xs @ newline # ys) (s\<lparr>f_errno := EAGAIN\<rparr>) =
      (length xs, s\<lparr>f_errno := EAGAIN, f_error := True, bufdata := xs @ newline # drop (length xs + 1) (bufdata s), bufpos := length xs\<rparr>)"
    using assms(2) n by (simp add: write_failed_def del: take_append)
  then show ?thesis using write_fails_WRITE [OF assms(1), of "xs @ newline # ys"] assms(2) by simp
qed

text \<open>A line buffered stream loses output when the file cannot take it at once. When \<open>fputc\<close> fails to write a newline, the byte before it,
  which was accepted by an earlier call, is dropped from the buffer too. And \<open>fwrite\<close> of some lines reports all its bytes as taken,
  when only those before the first newline are kept.\<close>

theorem line_buffer_loses_bytes:
  assumes "write_fails io (cookie s) EAGAIN" "can_write s" "f_writing s" "f_narrow s" "f_bufmode s = LBF"
    and "newline \<notin> set (take (bufpos s) (bufdata s))" "bufpos s < length (bufdata s)"
  shows "(0 < bufpos s \<longrightarrow> (\<exists>s'. fputc_unlocked io 10 s = Some (EOF, s') \<and> cookie s' = cookie s \<and>
      take (bufpos s') (bufdata s') = butlast (take (bufpos s) (bufdata s)))) \<and>
    (bufpos s = 0 \<and> xs \<noteq> [] \<and> newline \<notin> set xs \<and> newline \<notin> set ys \<and> length xs \<le> length ys \<and>
      length (xs @ newline # ys) \<le> length (bufdata s) \<longrightarrow>
      (\<exists>s'. stdio_fwrite io (xs @ newline # ys) s = Some (length (xs @ newline # ys), s') \<and> cookie s' = cookie s \<and>
        take (bufpos s') (bufdata s') = xs))"
proof -
  have bp: "bufputc_u s = 0" using assms(2,3,5) by (auto simp: can_write_def stream_ok_defs)
  have nf: "\<not> IS_FAKE_VSNPRINTF s" using assms(2) by (simp add: can_write_def)
  have "\<exists>s'. fputc_unlocked io 10 s = Some (EOF, s') \<and> cookie s' = cookie s \<and>
      take (bufpos s') (bufdata s') = butlast (take (bufpos s) (bufdata s))" if "0 < bufpos s"
  proof -
    let ?x = "take (bufpos s) (bufdata s)" and ?s = "buffer_add [newline] s"
    have l: "length ?x = bufpos s" "bufpos s \<le> length (bufdata s) - Suc 0" using assms(7) by simp_all
    have "take (bufpos ?s) (bufdata ?s) = ?x @ newline # []" using assms(7) by (simp add: buffer_add_def)
    moreover obtain n s' where w: "stdio_WRITE io (?x @ newline # []) (?s\<lparr>bufpos := 0\<rparr>) = Some (n, s')" "cookie s' = cookie s"
        "bufpos s' = bufpos s" "take (bufpos s) (bufdata s') = ?x"
      using lbf_WRITE_again [of io "?s\<lparr>bufpos := 0\<rparr>" ?x "[]"] assms(1,5-7) l by (auto simp: buffer_add_def less_Suc_eq_le)
    ultimately have "stdio_wcommit io ?s = Some (bufpos s, s')" by (simp add: stdio_wcommit_def buffer_add_def)
    moreover have "f_bufmode ?s = LBF" "bufdata s \<noteq> []" using assms(5,7) by (auto simp: buffer_add_def)
    ultimately have "fputc_unlocked io 10 s = Some (EOF, s'\<lparr>bufpos := bufpos s' - 1\<rparr>)"
      using that assms(3,4,7) bp nf w(3)
      by (simp add: fputc_unlocked_def IS_NARROW_WRITING_def fputc_put_def WAVAIL_def Let_def newline_def [symmetric])
    moreover have "take (bufpos s - 1) (bufdata s') = butlast ?x"
      using arg_cong [OF w(4), of "take (bufpos s - 1)"] assms(7) by (simp add: butlast_take min_def)
    ultimately show ?thesis using w by simp
  qed
  moreover have "\<exists>s'. stdio_fwrite io (xs @ newline # ys) s = Some (length (xs @ newline # ys), s') \<and> cookie s' = cookie s \<and>
        take (bufpos s') (bufdata s') = xs"
    if h: "bufpos s = 0" "xs \<noteq> []" "newline \<notin> set xs" "newline \<notin> set ys" "length xs \<le> length ys" "length (xs @ newline # ys) \<le> length (bufdata s)"
  proof -
    let ?d = "xs @ newline # ys" and ?s = "buffer_add (xs @ newline # ys) s"
    obtain n s' where w: "stdio_WRITE io ?d (?s\<lparr>bufpos := 0\<rparr>) = Some (n, s')" "cookie s' = cookie s" "bufpos s' = length xs"
        "take (length xs) (bufdata s') = xs"
      using lbf_WRITE_again [of io "?s\<lparr>bufpos := 0\<rparr>" xs ys] assms h by (auto simp: buffer_add_def)
    have c: "stdio_wcommit io ?s = Some (length xs, s')" using w h by (simp add: stdio_wcommit_def buffer_add_def)
    have "find_newline zs = None" if "newline \<notin> set zs" for zs using that by (induction zs) auto
    moreover have "newline \<notin> set (drop (length ?d - length xs) ?d)"
      using h by (auto simp: Suc_diff_le dest: in_set_dropD)
    ultimately have "find_newline (drop (length ?d - length xs) ?d) = None" by blast
    then have "stdio_fwrite io ?d s = Some (length ?d, s')"
      using c h assms(5) nf unfolding stdio_fwrite_def Let_def by (simp add: WAVAIL_def min_def)
    then show ?thesis using w by simp
  qed
  ultimately show ?thesis by blast
qed


text \<open>Witnesses: a file that fails with a given error, and streams with a buffer of eight bytes.\<close>

definition failing_io :: "nat \<Rightarrow> unit cookie_io" where
  "failing_io e = \<lparr>io_read = None, io_write = Some (\<lambda>c d. (Inl (Some e), c)), io_seek = None, io_close = None, flush_others = (\<lambda>c. c)\<rparr>"

definition writing_stream :: "bufmode \<Rightarrow> byte list \<Rightarrow> nat \<Rightarrow> unit FILE" where
  "writing_stream mode b p = \<lparr>f_reading = 0, f_eof = False, f_error = False, f_writeonly = True, f_readonly = False, f_writing = True,
    f_narrow = True, f_wide = False, f_bufmode = mode, f_append = False, f_freefile = True, f_freebuf = True, ungot = (0, 0), filedes = 1,
    bufdata = b, bufpos = p, bufread = 0, bufgetc_u = 0, bufputc_u = 0, cookie = (), f_errno = 0\<rparr>"

lemma failing_io_fails: "write_fails (failing_io e) c e"
  by (simp add: write_fails_def failing_io_def)

lemma writing_stream_simps [simp]:
  "cookie (writing_stream m b p) = ()" "f_writing (writing_stream m b p)" "f_narrow (writing_stream m b p)" "f_bufmode (writing_stream m b p) = m"
  "bufdata (writing_stream m b p) = b" "bufpos (writing_stream m b p) = p"
  by (simp_all add: writing_stream_def)

lemma writing_stream_can: "p \<le> length b \<Longrightarrow> m \<noteq> NBF \<or> b = [] \<Longrightarrow> can_write (writing_stream m b p)"
  by (auto simp: can_write_def stream_ok_defs writing_stream_def)

theorem hard_error_reported_as_success_witness:
  "(\<exists>s'. fflush_unlocked (failing_io 5) (writing_stream FBF [65, 66] 2) = Some (0, s') \<and> bufpos s' = 0) \<and>
   (\<exists>s'. fwrite_unlocked (failing_io 5) [65] 1 1 (writing_stream NBF [] 0) = Some (1, s'))"
  using hard_error_reported_as_success [of "failing_io 5" "writing_stream FBF [65, 66] 2" 5 "[]"]
    hard_error_reported_as_success [of "failing_io 5" "writing_stream NBF [] 0" 5 "[65]"]
  by (auto simp: failing_io_fails EINTR_def EAGAIN_def writing_stream_can SIZE_T_MAX_def)

theorem line_buffer_loses_bytes_witness:
  "(\<exists>s'. fputc_unlocked (failing_io EAGAIN) 10 (writing_stream LBF [65, 66, 0, 0] 2) = Some (EOF, s') \<and> take (bufpos s') (bufdata s') = [65]) \<and>
   (\<exists>s'. stdio_fwrite (failing_io EAGAIN) [65, 10, 66] (writing_stream LBF [0, 0, 0, 0] 0) = Some (3, s') \<and> take (bufpos s') (bufdata s') = [65])"
proof -
  have a: "\<exists>s'. fputc_unlocked (failing_io EAGAIN) 10 (writing_stream LBF [65, 66, 0, 0] 2) = Some (EOF, s') \<and> take (bufpos s') (bufdata s') = [65]"
    using line_buffer_loses_bytes [of "failing_io EAGAIN" "writing_stream LBF [65, 66, 0, 0] 2" "[]" "[]"]
    by (auto simp: failing_io_fails writing_stream_can newline_def)
  have b: "\<exists>s'. stdio_fwrite (failing_io EAGAIN) [65, 10, 66] (writing_stream LBF [0, 0, 0, 0] 0) = Some (3, s') \<and> take (bufpos s') (bufdata s') = [65]"
    using line_buffer_loses_bytes [of "failing_io EAGAIN" "writing_stream LBF [0, 0, 0, 0] 0" "[65]" "[66]"]
    by (auto simp: failing_io_fails writing_stream_can newline_def)
  show ?thesis using a b by blast
qed

end
