(* ===== verification/Stdio_Input.thy ===== *)
theory Stdio_Input
  imports Stdio_Output
begin

text \<open>
  Input and positions: the locales \<open>cookie_reader\<close> and \<open>cookie_seeker\<close> say what the functions behind a stream promise when they read and seek. What is
  left to be read of a stream is the characters pushed back, the rest of the buffer and the rest of the file: \<open>fgetc\<close>, \<open>fread\<close>
  and \<open>fgets\<close> take bytes from its front, \<open>ungetc\<close> adds one. \<open>ftell\<close> and \<open>fseek\<close> report and set the position of the stream, and what has been
  written is read back. The locale \<open>cookie_file\<close> joins the three contracts.
\<close>

section \<open>Input\<close>

text \<open>A read returns the next bytes of the file, at most as many as are asked for, and none only at the end. Flushing the other
  streams leaves the file alone.\<close>

definition read_law :: "('c \<Rightarrow> bool) \<Rightarrow> ('c \<Rightarrow> byte list) \<Rightarrow> ('c \<Rightarrow> nat) \<Rightarrow> 'c \<Rightarrow> nat \<Rightarrow> byte list io_result \<times> 'c \<Rightarrow> bool" where
  "read_law ok fdata fpos c n r \<longleftrightarrow>
     ok (snd r) \<and> fdata (snd r) = fdata c \<and>
     (case fst r of
        Inl _ \<Rightarrow> fpos (snd r) = fpos c
      | Inr bs \<Rightarrow> length bs \<le> n \<and> bs = take (length bs) (drop (fpos c) (fdata c)) \<and> (bs = [] \<longrightarrow> length (fdata c) \<le> fpos c) \<and>
          fpos (snd r) = fpos c + length bs)"

locale cookie_reader =
  fixes io :: "'c cookie_io" and ok :: "'c \<Rightarrow> bool" and fdata :: "'c \<Rightarrow> byte list" and fpos :: "'c \<Rightarrow> nat"
  assumes reads: "\<exists>r. io_read io = Some r \<and> (\<forall>c n. ok c \<longrightarrow> 0 < n \<longrightarrow> read_law ok fdata fpos c n (r c n))"
    and flushes: "ok c \<Longrightarrow> ok (flush_others io c) \<and> fdata (flush_others io c) = fdata c \<and> fpos (flush_others io c) = fpos c"

text \<open>What is left to be read: characters pushed back, the rest of the buffer, the rest of the file; and the position of its
  first byte.\<close>

definition ungots :: "'c FILE \<Rightarrow> byte list" where
  "ungots s = (if f_reading s = 2 then [word_of_int (fst (ungot s))] else [])"

definition buffered :: "'c FILE \<Rightarrow> byte list" where
  "buffered s = take (bufread s - bufpos s) (drop (bufpos s) (bufdata s))"

definition stream_rest :: "('c \<Rightarrow> byte list) \<Rightarrow> ('c \<Rightarrow> nat) \<Rightarrow> 'c FILE \<Rightarrow> byte list" where
  "stream_rest fdata fpos s = ungots s @ buffered s @ drop (fpos (cookie s)) (fdata (cookie s))"

definition stream_rpos :: "('c \<Rightarrow> nat) \<Rightarrow> 'c FILE \<Rightarrow> int" where
  "stream_rpos fpos s = int (fpos (cookie s)) - int (bufread s - bufpos s) - int (f_reading s - 1)"

definition can_read :: "('c \<Rightarrow> byte list) \<Rightarrow> ('c \<Rightarrow> nat) \<Rightarrow> 'c FILE \<Rightarrow> bool" where
  "can_read fdata fpos s \<longleftrightarrow> stream_ok s \<and> \<not> f_writing s \<and> \<not> f_writeonly s \<and> \<not> f_wide s \<and> \<not> IS_FAKE_VSSCANF s \<and>
     (f_eof s \<longrightarrow> stream_rest fdata fpos s = [])"

context cookie_reader
begin

abbreviation "rest \<equiv> stream_rest fdata fpos"
abbreviation "rpos \<equiv> stream_rpos fpos"

definition took :: "'c FILE \<Rightarrow> byte list \<Rightarrow> 'c FILE \<Rightarrow> bool" where
  "took s bs s' \<longleftrightarrow> ok (cookie s') \<and> fdata (cookie s') = fdata (cookie s) \<and> rest s = bs @ rest s' \<and> rpos s' = rpos s + int (length bs) \<and>
     (f_eof s' \<longrightarrow> rest s' = [])"

lemma took_trans: "took s bs s1 \<Longrightarrow> took s1 cs s2 \<Longrightarrow> took s (bs @ cs) s2"
  by (simp add: took_def)

lemma READ_io_cases:
  assumes "ok (cookie s)" "0 < n"
  obtains bs c where "READ_io io n s = (Some bs, s\<lparr>cookie := c\<rparr>)" "ok c" "fdata c = fdata (cookie s)" "length bs \<le> n"
      "drop (fpos (cookie s)) (fdata (cookie s)) = bs @ drop (fpos c) (fdata c)" "fpos c = fpos (cookie s) + length bs"
      "bs = [] \<longrightarrow> length (fdata (cookie s)) \<le> fpos (cookie s)"
    | e c where "READ_io io n s = (None, io_error e c s)" "ok c" "fdata c = fdata (cookie s)" "fpos c = fpos (cookie s)"
proof -
  obtain r where r: "io_read io = Some r" "read_law ok fdata fpos (cookie s) n (r (cookie s) n)" using reads assms by blast
  obtain q c where q: "r (cookie s) n = (q, c)" by fastforce
  show ?thesis
  proof (cases q)
    case (Inl e)
    then show ?thesis using that(2) [of e c] r q by (simp add: READ_io_def read_law_def)
  next
    case (Inr bs)
    have l: "ok c" "fdata c = fdata (cookie s)" "length bs \<le> n" "bs = take (length bs) (drop (fpos (cookie s)) (fdata (cookie s)))"
      "fpos c = fpos (cookie s) + length bs" "bs = [] \<longrightarrow> length (fdata (cookie s)) \<le> fpos (cookie s)"
      using r(2) q Inr by (simp_all add: read_law_def)
    have "drop (fpos (cookie s)) (fdata (cookie s)) = bs @ drop (fpos c) (fdata c)"
      using l(4) append_take_drop_id [of "length bs" "drop (fpos (cookie s)) (fdata (cookie s))"] by (simp add: l(2,5) add.commute)
    then show ?thesis using that(1) [of bs c] r(1) q Inr l by (simp add: READ_io_def)
  qed
qed

text \<open>The next bytes straight from the file.\<close>

lemma stdio_READ_takes:
  assumes "ok (cookie s)" "0 < n" "f_eof s \<longrightarrow> drop (fpos (cookie s)) (fdata (cookie s)) = []"
  shows "\<exists>bs s'. stdio_READ io n s = Some (bs, s') \<and> ok (cookie s') \<and> fdata (cookie s') = fdata (cookie s) \<and>
    drop (fpos (cookie s)) (fdata (cookie s)) = bs @ drop (fpos (cookie s')) (fdata (cookie s')) \<and> fpos (cookie s') = fpos (cookie s) + length bs \<and>
    (bs = [] \<longrightarrow> f_error s' \<or> f_eof s') \<and> (f_eof s' \<longrightarrow> drop (fpos (cookie s')) (fdata (cookie s')) = [])"
proof (cases "f_eof s")
  case True
  then show ?thesis using assms by (simp add: stdio_READ_def)
next
  case False
  have p: "0 < min n SSIZE_MAX" using assms(2) by (simp add: SSIZE_MAX_def)
  from assms(1) p show ?thesis
  proof (cases rule: READ_io_cases)
    case (1 bs c)
    show ?thesis
    proof (cases "bs = []")
      case True
      then show ?thesis using 1 False by (intro exI [of _ "[]"] exI [of _ "s\<lparr>cookie := c, f_eof := True\<rparr>"]) (simp add: stdio_READ_def)
    next
      case nonempty: False
      then show ?thesis using 1 False by (intro exI [of _ bs] exI [of _ "s\<lparr>cookie := c\<rparr>"]) (simp add: stdio_READ_def not_less)
    qed
  next
    case (2 e c)
    then show ?thesis using False
      by (intro exI [of _ "[]"] exI [of _ "io_error e c s\<lparr>f_error := True\<rparr>"]) (simp add: stdio_READ_def io_error_def)
  qed
qed

lemma flush_took: "ok (cookie s) \<Longrightarrow> (f_eof s \<longrightarrow> rest s = []) \<Longrightarrow> took s [] (flush_lbf_streams io s)"
  using flushes [of "cookie s"]
  by (auto simp: took_def flush_lbf_streams_def stream_rest_def stream_rpos_def ungots_def buffered_def split: if_splits)

lemma buffer_get_took:
  assumes "ok (cookie s)" "f_reading s = 1" "bufpos s < bufread s" "bufread s \<le> length (bufdata s)" "\<not> f_eof s" "buffer_get s = (b, s')"
  shows "took s [b] s'"
proof -
  have "buffered s = b # buffered s'"
    using assms(3,4,6) by (auto simp: buffered_def buffer_get_def Cons_nth_drop_Suc [symmetric] take_Cons' Suc_diff_Suc)
  then show ?thesis using assms by (auto simp: took_def stream_rest_def stream_rpos_def ungots_def buffer_get_def)
qed

lemma take_ungot_took:
  assumes "ok (cookie s)" "f_reading s = 2" "\<not> f_eof s" "take_ungot s = (b, s')"
  shows "took s [b] s'"
  using assms by (auto simp: took_def stream_rest_def stream_rpos_def ungots_def buffered_def take_ungot_def)

end

text \<open>The transition to reading.\<close>

lemma reading_start:
  assumes "can_read fdata fpos s"
  shows "\<exists>s1. (if IS_NARROW_READING s then Some (True, s) else stdio_trans2r io s) = Some (True, s1) \<and> can_read fdata fpos s1 \<and> f_narrow s1 \<and>
    (f_reading s1 = 1 \<or> f_reading s1 = 2) \<and> cookie s1 = cookie s \<and> stream_rest fdata fpos s1 = stream_rest fdata fpos s \<and>
    stream_rpos fpos s1 = stream_rpos fpos s \<and> f_error s1 = f_error s \<and> bufdata s1 = bufdata s \<and> bufpos s1 = bufpos s \<and> bufread s1 = bufread s \<and>
    f_reading s \<le> f_reading s1"
proof (cases "IS_NARROW_READING s")
  case True
  then show ?thesis using assms by (auto simp: IS_NARROW_READING_def can_read_def stream_ok_defs)
next
  case False
  let ?n = "if f_narrow s then s else s\<lparr>f_narrow := True\<rparr>"
  let ?s = "?n\<lparr>f_reading := 1\<rparr>"
  have n: "set_narrow s = Some ?n" using assms by (simp add: set_narrow_def can_read_def)
  have r: "f_reading s = 0 \<or> f_reading s = 1" using assms False by (auto simp: can_read_def stream_ok_defs IS_NARROW_READING_def split: if_splits)
  have t: "stdio_trans2r io s = Some (True, ?s)"
    using assms n r by (auto simp: stdio_trans2r_def can_read_def)
  have "stream_ok ?s" using trans2r_ok(1) [of s io True ?s] assms False t by (simp add: can_read_def)
  then show ?thesis
    using assms t False r by (auto simp: can_read_def stream_rest_def stream_rpos_def ungots_def buffered_def)
qed

context cookie_reader
begin

lemma fgetc_fill_unbuffered:
  assumes "can_read fdata fpos s" "ok (cookie s)" "f_reading s = 1" "f_narrow s" "bufpos s = bufread s" "bufdata s = []"
  shows "\<exists>r s'. fgetc_fill io s = Some (r, s') \<and> can_read fdata fpos s' \<and>
    (r = EOF \<and> took s [] s' \<and> (f_error s' \<or> f_eof s') \<or> (\<exists>b. r = uint b \<and> took s [b] s'))"
proof -
  have e: "f_eof s \<longrightarrow> drop (fpos (cookie s)) (fdata (cookie s)) = []" using assms(1) by (simp add: can_read_def stream_rest_def)
  have ok: "stream_ok s" "\<not> f_writing s" using assms(1) by (simp_all add: can_read_def)
  have rs: "rest s = drop (fpos (cookie s)) (fdata (cookie s))" "rpos s = int (fpos (cookie s))"
    using assms(3,5) by (simp_all add: stream_rest_def ungots_def buffered_def stream_rpos_def)
  obtain bs s' where r: "stdio_READ io 1 s = Some (bs, s')" "ok (cookie s')" "fdata (cookie s') = fdata (cookie s)"
      "drop (fpos (cookie s)) (fdata (cookie s)) = bs @ drop (fpos (cookie s')) (fdata (cookie s'))" "fpos (cookie s') = fpos (cookie s) + length bs"
      "bs = [] \<longrightarrow> f_error s' \<or> f_eof s'" "f_eof s' \<longrightarrow> drop (fpos (cookie s')) (fdata (cookie s')) = []"
    using stdio_READ_takes [OF assms(2) _ e, of 1] by auto
  note rr = stdio_READ_result [OF r(1)]
  have fl: "f_reading s' = 1" "bufpos s' = bufread s'" "\<not> f_writing s'" "f_writeonly s' = f_writeonly s" "f_wide s' = f_wide s" "filedes s' = filedes s"
    by (subst rr(1), use assms(3,5) ok(2) in simp)+
  have rs': "rest s' = drop (fpos (cookie s')) (fdata (cookie s'))" "rpos s' = int (fpos (cookie s'))"
    using fl(1,2) by (simp_all add: stream_rest_def ungots_def buffered_def stream_rpos_def)
  have t: "took s bs s'" using r rs rs' by (simp add: took_def)
  have "can_read fdata fpos s'"
    using stdio_READ_ok [OF ok(1) assms(3,5) ok(2) r(1)] assms(1) fl r(7) rs' by (simp add: can_read_def)
  moreover have "bs = [] \<or> (\<exists>b. bs = [b])" using rr(2) by (cases bs) auto
  ultimately show ?thesis using assms(6) r(1,6) t by (auto simp: fgetc_fill_def)
qed

lemma fgetc_fill_buffered:
  assumes "can_read fdata fpos s" "ok (cookie s)" "f_reading s = 1" "f_narrow s" "bufpos s = bufread s" "bufdata s \<noteq> []"
  shows "\<exists>r s'. fgetc_fill io s = Some (r, s') \<and> can_read fdata fpos s' \<and>
    (r = EOF \<and> took s [] s' \<and> (f_error s' \<or> f_eof s') \<or> (\<exists>b. r = uint b \<and> took s [b] s'))"
proof -
  have e: "f_eof s \<longrightarrow> drop (fpos (cookie s)) (fdata (cookie s)) = []" using assms(1) by (simp add: can_read_def stream_rest_def)
  have ok: "stream_ok s" "\<not> f_writing s" using assms(1) by (simp_all add: can_read_def)
  have rs: "rest s = drop (fpos (cookie s)) (fdata (cookie s))" "rpos s = int (fpos (cookie s))"
    using assms(3,5) by (simp_all add: stream_rest_def ungots_def buffered_def stream_rpos_def)
  let ?s = "s\<lparr>bufgetc_u := 0\<rparr>"
  have n: "0 < length (bufdata s)" using assms(6) by simp
  obtain bs s1 where r: "stdio_READ io (length (bufdata s)) ?s = Some (bs, s1)" "ok (cookie s1)" "fdata (cookie s1) = fdata (cookie s)"
      "drop (fpos (cookie s)) (fdata (cookie s)) = bs @ drop (fpos (cookie s1)) (fdata (cookie s1))" "fpos (cookie s1) = fpos (cookie s) + length bs"
      "bs = [] \<longrightarrow> f_error s1 \<or> f_eof s1" "f_eof s1 \<longrightarrow> drop (fpos (cookie s1)) (fdata (cookie s1)) = []"
    using stdio_READ_takes [of ?s "length (bufdata s)"] assms(2) e n by auto
  note rr = stdio_READ_result [OF r(1)]
  let ?s2 = "s1\<lparr>bufdata := bs @ drop (length bs) (bufdata s1), bufpos := 0, bufread := length bs\<rparr>"
  have fill: "stdio_rfill io ?s = Some (length bs, ?s2)" using r(1) by (simp add: stdio_rfill_def)
  note rf = rfill_ok [OF getc_off_ok [OF ok(1)] _ _ _ _ _ fill]
  have fl: "f_reading s1 = 1" "\<not> f_writing s1" "f_writeonly s1 = f_writeonly s" "f_wide s1 = f_wide s" "filedes s1 = filedes s"
    by (subst rr(1), use assms(3) ok(2) in simp)+
  have r2: "rest (?s2\<lparr>bufgetc_u := x\<rparr>) = bs @ drop (fpos (cookie s1)) (fdata (cookie s1))"
      "rpos (?s2\<lparr>bufgetc_u := x\<rparr>) = int (fpos (cookie s1)) - int (length bs)" for x
    using fl(1) by (simp_all add: stream_rest_def ungots_def buffered_def stream_rpos_def)
  have eo: "f_eof s1 \<longrightarrow> bs = []" using rr(4) by blast
  have rq: "rest s = bs @ drop (fpos (cookie s1)) (fdata (cookie s1))" using rs(1) r(4) by (rule trans)
  have pq: "rpos s = int (fpos (cookie s1)) - int (length bs)" using rs(2) r(5) by simp
  have t2: "took s [] (?s2\<lparr>bufgetc_u := x\<rparr>)" for x
    unfolding took_def r2 rq pq using r(2,3,7) eo by auto
  show ?thesis
  proof (cases "bs = []")
    case True
    have t': "rest ?s2 = drop (fpos (cookie s1)) (fdata (cookie s1))" "rpos ?s2 = int (fpos (cookie s1))"
      using fl(1) True by (simp_all add: stream_rest_def ungots_def buffered_def stream_rpos_def)
    have t: "took s [] ?s2" "rest ?s2 = drop (fpos (cookie s1)) (fdata (cookie s1))" unfolding took_def t' rq pq using r(2,3,7) True by auto
    have "can_read fdata fpos ?s2"
      using rf(1) assms(1,3,4,5) ok(2) fl r(7) t(2) by (simp add: can_read_def)
    moreover have "fgetc_fill io s = Some (EOF, ?s2)" using assms(6) fill True by (simp add: fgetc_fill_def)
    ultimately show ?thesis using t(1) r(6) True by (intro exI [of _ EOF] exI [of _ ?s2]) simp
  next
    case nonempty: False
    let ?s3 = "?s2\<lparr>bufgetc_u := length bs\<rparr>"
    obtain b s4 where g: "buffer_get ?s3 = (b, s4)" by fastforce
    have ok3: "stream_ok ?s3" using rf(2) assms(3,4,5) ok(2) by simp
    have ne: "\<not> f_eof s1" using rr(4) nonempty by blast
    have t3: "took ?s3 [b] s4" using buffer_get_took [of ?s3 b s4] g nonempty fl(1) r(2) ne by simp
    have "took s [b] s4" using took_trans [OF t2 t3] by simp
    moreover have "can_read fdata fpos s4"
    proof -
      have "stream_ok s4" using buffer_get_ok [OF ok3] g nonempty fl by simp
      then show ?thesis using assms(1) g fl ne by (auto simp: can_read_def buffer_get_def)
    qed
    moreover have "fgetc_fill io s = Some (uint b, s4)" using assms(6) fill nonempty g by (simp add: fgetc_fill_def)
    ultimately show ?thesis by (intro exI [of _ "uint b"] exI [of _ s4]) blast
  qed
qed

lemma fgetc_fill_takes:
  assumes "can_read fdata fpos s" "ok (cookie s)" "f_reading s = 1" "f_narrow s" "bufpos s = bufread s"
  shows "\<exists>r s'. fgetc_fill io s = Some (r, s') \<and> can_read fdata fpos s' \<and>
    (r = EOF \<and> took s [] s' \<and> (f_error s' \<or> f_eof s') \<or> (\<exists>b. r = uint b \<and> took s [b] s'))"
  using fgetc_fill_unbuffered [OF assms] fgetc_fill_buffered [OF assms] by blast

lemma fgetc_takes:
  assumes "can_read fdata fpos s" "ok (cookie s)"
  shows "\<exists>r s'. fgetc_unlocked io s = Some (r, s') \<and> can_read fdata fpos s' \<and>
    (r = EOF \<and> took s [] s' \<and> (f_error s' \<or> f_eof s') \<or> (\<exists>b. r = uint b \<and> took s [b] s'))"
proof -
  have get: "can_read fdata fpos (snd (buffer_get s0)) \<and> took s0 [fst (buffer_get s0)] (snd (buffer_get s0))"
    if s0: "can_read fdata fpos s0" "f_reading s0 = 1" "bufpos s0 < bufread s0" "ok (cookie s0)" for s0
  proof -
    have sok: "stream_ok s0" "\<not> f_writing s0" "bufread s0 \<le> length (bufdata s0)"
      using s0 reading_pos [of s0] by (simp_all add: can_read_def)
    have ne: "\<not> f_eof s0" using sok s0(2,3) by (auto simp: stream_ok_defs)
    have "took s0 [fst (buffer_get s0)] (snd (buffer_get s0))" using buffer_get_took [OF s0(4,2,3) sok(3) ne] by simp
    moreover have "stream_ok (snd (buffer_get s0))" by (rule buffer_get_ok) (use sok s0 in simp_all)
    ultimately show ?thesis using s0(1) ne by (simp add: can_read_def buffer_get_def)
  qed
  show ?thesis
  proof (cases "bufpos s < bufgetc_u s")
    case True
    then have "f_reading s = 1" "bufpos s < bufread s" using assms(1) by (auto simp: can_read_def stream_ok_defs split: if_splits)
    then show ?thesis using get [OF assms(1)] assms(2) True by (cases "buffer_get s") (auto simp: fgetc_unlocked_def)
  next
    case False
    obtain s1 where t: "(if IS_NARROW_READING s then Some (True, s) else stdio_trans2r io s) = Some (True, s1)" and
        s1: "can_read fdata fpos s1" "f_narrow s1" "f_reading s1 = 1 \<or> f_reading s1 = 2" "cookie s1 = cookie s" "rest s1 = rest s" "rpos s1 = rpos s"
      using reading_start [OF assms(1), of io] by blast
    have ok1: "ok (cookie s1)" using s1(4) assms(2) by simp
    have tk: "took s bs s'" if "took s1 bs s'" for bs s' using that s1(4-6) by (simp add: took_def)
    have sok: "stream_ok s1" "\<not> f_writing s1" "\<not> IS_FAKE_VSSCANF s1" using s1(1) by (simp_all add: can_read_def)
    show ?thesis
    proof (cases "f_reading s1 = 2")
      case True
      obtain b s2 where u: "take_ungot s1 = (b, s2)" by fastforce
      have hu: "has_ungot s1" using True by (simp add: has_ungot_def)
      have ne: "\<not> f_eof s1" using sok True by (simp add: stream_ok_defs)
      have "stream_ok s2" using take_ungot_ok(1) [OF sok(1,2) hu] u by simp
      then have "can_read fdata fpos s2" using s1(1) u ne by (auto simp: can_read_def take_ungot_def)
      moreover have "fgetc_unlocked io s = Some (uint b, s2)" using False t hu u by (simp add: fgetc_unlocked_def)
      ultimately show ?thesis using tk [OF take_ungot_took [OF ok1 True ne u]] by blast
    next
      case one: False
      then have r1: "f_reading s1 = 1" "\<not> has_ungot s1" using s1(3) by (simp_all add: has_ungot_def)
      show ?thesis
      proof (cases "bufpos s1 < bufread s1")
        case True
        then show ?thesis using get [OF s1(1) r1(1) True ok1] tk False t r1(2)
          by (cases "buffer_get s1") (auto simp: fgetc_unlocked_def)
      next
        case empty: False
        let ?s2 = "flush_lbf_streams io s1"
        have be: "bufpos s1 = bufread s1" using reading_pos [OF sok(1)] r1 empty by simp
        have e1: "f_eof s1 \<longrightarrow> rest s1 = []" using s1(1) by (simp add: can_read_def)
        have f: "took s1 [] ?s2" by (rule flush_took [OF ok1 e1])
        have "can_read fdata fpos ?s2" using s1(1) f sok e1 by (auto simp: can_read_def took_def flush_lbf_streams_def split: if_splits)
        moreover have "ok (cookie ?s2)" using f by (simp add: took_def)
        ultimately obtain r s' where g: "fgetc_fill io ?s2 = Some (r, s')" "can_read fdata fpos s'"
            "r = EOF \<and> took ?s2 [] s' \<and> (f_error s' \<or> f_eof s') \<or> (\<exists>b. r = uint b \<and> took ?s2 [b] s')"
          using fgetc_fill_takes [of ?s2] r1(1) s1(2) be by auto
        have "took s bs s'" if "took ?s2 bs s'" for bs using tk took_trans [OF f that] by simp
        moreover have "fgetc_unlocked io s = Some (r, s')" using False t r1(2) empty sok(3) g(1) by (simp add: fgetc_unlocked_def)
        ultimately show ?thesis using g(2,3) by blast
      qed
    qed
  qed
qed

end

text \<open>The first line of some bytes, or as much of it as fits.\<close>

fun cut_line :: "nat \<Rightarrow> byte list \<Rightarrow> byte list" where
  "cut_line 0 xs = []"
| "cut_line (Suc n) [] = []"
| "cut_line (Suc n) (x # xs) = (if x = newline then [x] else x # cut_line n xs)"

lemma uint_not_EOF [simp]: "uint (b :: byte) \<noteq> EOF" "EOF \<noteq> uint (b :: byte)"
  using uint_nonnegative [of b] unfolding EOF_def by linarith+

context cookie_reader
begin

lemma fread_loop_takes:
  assumes "can_read fdata fpos s" "ok (cookie s)" "f_reading s = 1" "bufpos s = bufread s" "0 < n"
  shows "\<exists>bs s'. fread_loop io n s = Some (bs, s') \<and> took s bs s' \<and> can_read fdata fpos s' \<and> length bs \<le> n \<and>
    (length bs < n \<longrightarrow> f_error s' \<or> f_eof s')"
  using assms
proof (induction n arbitrary: s rule: less_induct)
  case (less n)
  have ok: "stream_ok s" "\<not> f_writing s" using less.prems(1) by (simp_all add: can_read_def)
  have rs: "rest s = drop (fpos (cookie s)) (fdata (cookie s))" "rpos s = int (fpos (cookie s))"
    using less.prems(3,4) by (simp_all add: stream_rest_def ungots_def buffered_def stream_rpos_def)
  have e: "f_eof s \<longrightarrow> drop (fpos (cookie s)) (fdata (cookie s)) = []" using less.prems(1) rs by (simp add: can_read_def)
  obtain bs s1 where r: "stdio_READ io n s = Some (bs, s1)" "ok (cookie s1)" "fdata (cookie s1) = fdata (cookie s)"
      "drop (fpos (cookie s)) (fdata (cookie s)) = bs @ drop (fpos (cookie s1)) (fdata (cookie s1))" "fpos (cookie s1) = fpos (cookie s) + length bs"
      "bs = [] \<longrightarrow> f_error s1 \<or> f_eof s1" "f_eof s1 \<longrightarrow> drop (fpos (cookie s1)) (fdata (cookie s1)) = []"
    using stdio_READ_takes [OF less.prems(2,5) e] by blast
  note rr = stdio_READ_result [OF r(1)]
  have fl: "f_reading s1 = 1" "bufpos s1 = bufread s1" "\<not> f_writing s1" "f_writeonly s1 = f_writeonly s" "f_wide s1 = f_wide s" "filedes s1 = filedes s"
    by (subst rr(1), use less.prems(3,4) ok(2) in simp)+
  have rs1: "rest s1 = drop (fpos (cookie s1)) (fdata (cookie s1))" "rpos s1 = int (fpos (cookie s1))"
    using fl(1,2) by (simp_all add: stream_rest_def ungots_def buffered_def stream_rpos_def)
  have t: "took s bs s1" unfolding took_def rs rs1 using r by auto
  have cr: "can_read fdata fpos s1"
    using stdio_READ_ok [OF ok(1) less.prems(3,4) ok(2) r(1)] less.prems(1) fl r(7) rs1 by (simp add: can_read_def)
  show ?case
  proof (cases "bs = [] \<or> n - length bs = 0")
    case True
    then have "fread_loop io n s = Some (bs, s1)" using r(1) by (subst fread_loop.simps) simp
    then show ?thesis using t cr rr(2) r(6) True by auto
  next
    case False
    then have l: "n - length bs < n" "0 < n - length bs" using rr(2) less.prems(5) by (cases bs; simp)+
    obtain cs s2 where c: "fread_loop io (n - length bs) s1 = Some (cs, s2)" "took s1 cs s2" "can_read fdata fpos s2" "length cs \<le> n - length bs"
        "length cs < n - length bs \<longrightarrow> f_error s2 \<or> f_eof s2"
      using less.IH [OF l(1) cr r(2) fl(1,2) l(2)] by blast
    have "fread_loop io n s = Some (bs @ cs, s2)" using False r(1) c(1) by (subst fread_loop.simps) simp
    then show ?thesis using took_trans [OF t c(2)] c(3-5) rr(2) by auto
  qed
qed

lemma fread_ungots_takes:
  assumes "can_read fdata fpos s" "ok (cookie s)" "f_reading s = 1 \<or> f_reading s = 2" "0 < n"
  shows "\<exists>us s1. fread_ungots n s = (us, s1) \<and> took s us s1 \<and> can_read fdata fpos s1 \<and> f_reading s1 = 1 \<and> length us \<le> 1 \<and> f_error s1 = f_error s"
proof (cases "f_reading s = 2")
  case True
  obtain m where n: "n = Suc m" using assms(4) by (cases n) auto
  obtain b s1 where u: "take_ungot s = (b, s1)" by fastforce
  have hu: "has_ungot s" using True by (simp add: has_ungot_def)
  have sok: "stream_ok s" "\<not> f_writing s" using assms(1) by (simp_all add: can_read_def)
  have ne: "\<not> f_eof s" using sok True by (simp add: stream_ok_defs)
  have "stream_ok s1" using take_ungot_ok(1) [OF sok hu] u by simp
  then have cr: "can_read fdata fpos s1" using assms(1) u ne by (auto simp: can_read_def take_ungot_def)
  have r1: "f_reading s1 = 1" "f_error s1 = f_error s" using u True by (auto simp: take_ungot_def)
  then have "fread_ungots m s1 = ([], s1)" by (cases m) (simp_all add: has_ungot_def)
  then have "fread_ungots n s = ([b], s1)" using n hu u by simp
  then show ?thesis using take_ungot_took [OF assms(2) True ne u] cr r1 by simp
next
  case False
  then have r: "f_reading s = 1" "\<not> has_ungot s" using assms(3) by (simp_all add: has_ungot_def)
  then have "fread_ungots n s = ([], s)" by (cases n) simp_all
  moreover have "took s [] s" using assms(1,2) by (simp add: took_def can_read_def)
  ultimately show ?thesis using r assms(1) by simp
qed

lemma fread_bytes_takes:
  assumes "can_read fdata fpos s" "ok (cookie s)" "f_reading s = 1 \<or> f_reading s = 2" "0 < n"
  shows "\<exists>bs s'. fread_bytes io n s = Some (bs, s') \<and> took s bs s' \<and> can_read fdata fpos s' \<and> length bs \<le> n \<and>
    (length bs < n \<longrightarrow> f_error s' \<or> f_eof s')"
proof -
  obtain us s1 where u: "fread_ungots n s = (us, s1)" "took s us s1" "can_read fdata fpos s1" "f_reading s1 = 1" "length us \<le> 1"
    using fread_ungots_takes [OF assms] by blast
  have sok: "stream_ok s1" "\<not> f_writing s1" "bufpos s1 \<le> bufread s1" "bufread s1 \<le> length (bufdata s1)"
    using u(3,4) reading_pos [of s1] by (simp_all add: can_read_def)
  show ?thesis
  proof (cases "n - length us = 0")
    case True
    then show ?thesis using u assms(4) by (auto simp: fread_bytes_def)
  next
    case False
    define todo where "todo = n - length us"
    define avail where "avail = min (bufread s1 - bufpos s1) todo"
    define bs where "bs = take avail (drop (bufpos s1) (bufdata s1))"
    define s2 where "s2 = s1\<lparr>bufpos := bufpos s1 + avail\<rparr>"
    have lb: "length bs = avail" using sok(3,4) by (simp add: bs_def avail_def)
    have "buffered s1 = bs @ buffered s2"
    proof -
      have "avail + (bufread s1 - (avail + bufpos s1)) = bufread s1 - bufpos s1" using sok(3) by (simp add: avail_def)
      then show ?thesis
        using take_add [of avail "bufread s1 - bufpos s1 - avail" "drop (bufpos s1) (bufdata s1)"]
        by (simp add: buffered_def bs_def s2_def add.commute)
    qed
    then have t2: "took s1 bs s2" using u(2-4) lb sok(3)
      by (auto simp: took_def stream_rest_def stream_rpos_def ungots_def can_read_def s2_def avail_def)
    have ok2: "stream_ok s2" using sok u(4) by (auto simp: s2_def avail_def stream_ok_defs)
    have e1: "f_eof s1 \<longrightarrow> rest s1 = []" using u(3) by (simp add: can_read_def)
    have cr2: "can_read fdata fpos s2" using ok2 u(3) t2 by (auto simp: can_read_def took_def s2_def)
    show ?thesis
    proof (cases "todo - avail = 0")
      case True
      have "fread_bytes io n s = Some (us @ bs, s2)"
        using u(1) False True unfolding fread_bytes_def Let_def todo_def avail_def bs_def s2_def by simp
      moreover have "length (us @ bs) = n" using lb True False by (simp add: todo_def avail_def)
      ultimately show ?thesis using took_trans [OF u(2) t2] cr2 by auto
    next
      case more: False
      let ?s3 = "flush_lbf_streams io s2"
      have be: "bufpos s2 = bufread s2" using more sok(3) by (auto simp: s2_def avail_def)
      have e2: "f_eof s2 \<longrightarrow> rest s2 = []" using cr2 by (simp add: can_read_def)
      have f: "took s2 [] ?s3" using flush_took [of s2] t2 e2 by (simp add: took_def)
      have cr3: "can_read fdata fpos ?s3" using cr2 f by (auto simp: can_read_def took_def flush_lbf_streams_def split: if_splits)
      have o3: "ok (cookie ?s3)" and f3: "f_reading ?s3 = 1" "bufpos ?s3 = bufread ?s3" and m3: "0 < todo - avail"
        using f u(4) be more by (simp_all add: took_def s2_def)
      obtain cs s4 where c: "fread_loop io (todo - avail) ?s3 = Some (cs, s4)" "took ?s3 cs s4" "can_read fdata fpos s4" "length cs \<le> todo - avail"
          "length cs < todo - avail \<longrightarrow> f_error s4 \<or> f_eof s4"
        using fread_loop_takes [OF cr3 o3 f3 m3] by blast
      have "fread_bytes io n s = Some (us @ bs @ cs, s4)"
        using False more c(1) unfolding fread_bytes_def u(1) prod.case Let_def todo_def [symmetric] avail_def [symmetric] bs_def [symmetric] s2_def [symmetric]
        by simp
      moreover have "took s (us @ bs @ cs) s4" using took_trans [OF u(2) took_trans [OF t2 took_trans [OF f c(2)]]] by simp
      ultimately show ?thesis using c(3-5) lb False more by (auto simp: todo_def)
    qed
  qed
qed

lemma fgets_loop_Suc:
  "fgets_loop io (Suc n) p s =
     do { (c, s1) \<leftarrow> fgetc_unlocked io s;
       if c = EOF then Some (if \<not> f_error s1 \<and> p \<noteq> [] then Some p else None, s1)
       else if word_of_int c = newline then Some (Some (p @ [word_of_int c]), s1)
       else fgets_loop io n (p @ [word_of_int c]) s1 }"
  by (cases "buffer_get s") (simp add: fgetc_unlocked_def)

lemma fgets_loop_takes:
  assumes "can_read fdata fpos s" "ok (cookie s)"
  shows "\<exists>bs res s'. fgets_loop io n p s = Some (res, s') \<and> took s bs s' \<and> can_read fdata fpos s' \<and>
    (f_error s' \<or> bs = cut_line n (rest s) \<and> res = (if p @ bs = [] then None else Some (p @ bs)))"
  using assms
proof (induction n arbitrary: p s)
  case 0
  then show ?case by (auto simp: took_def can_read_def)
next
  case (Suc n)
  obtain r s1 where g: "fgetc_unlocked io s = Some (r, s1)" "can_read fdata fpos s1"
      "r = EOF \<and> took s [] s1 \<and> (f_error s1 \<or> f_eof s1) \<or> (\<exists>b. r = uint b \<and> took s [b] s1)"
    using fgetc_takes [OF Suc.prems] by blast
  show ?case
  proof (cases "r = EOF")
    case True
    then have t: "took s [] s1" "f_error s1 \<or> f_eof s1" using g(3) by auto
    let ?res = "if \<not> f_error s1 \<and> p \<noteq> [] then Some p else None"
    have "fgets_loop io (Suc n) p s = Some (?res, s1)" using True g(1) by (simp add: fgets_loop_Suc del: fgets_loop.simps)
    moreover have "rest s = []" if "f_eof s1" using t(1) that by (simp add: took_def)
    then have "f_error s1 \<or> [] = cut_line (Suc n) (rest s)" using t(2) by auto
    ultimately show ?thesis using t(1) g(2) by (intro exI [of _ "[]"] exI [of _ ?res] exI [of _ s1]) auto
  next
    case False
    then obtain b where b: "r = uint b" "took s [b] s1" using g(3) by auto
    have rs: "rest s = b # rest s1" "ok (cookie s1)" using b(2) by (simp_all add: took_def)
    show ?thesis
    proof (cases "b = newline")
      case True
      then show ?thesis using b g(1,2) rs by (intro exI [of _ "[b]"]) (simp add: fgets_loop_Suc del: fgets_loop.simps)
    next
      case nl: False
      obtain bs res s' where c: "fgets_loop io n (p @ [b]) s1 = Some (res, s')" "took s1 bs s'" "can_read fdata fpos s'"
          "f_error s' \<or> bs = cut_line n (rest s1) \<and> res = (if (p @ [b]) @ bs = [] then None else Some ((p @ [b]) @ bs))"
        using Suc.IH [OF g(2) rs(2), of "p @ [b]"] by blast
      have "fgets_loop io (Suc n) p s = Some (res, s')" using b g(1) nl c(1) by (simp add: fgets_loop_Suc del: fgets_loop.simps)
      then show ?thesis using took_trans [OF b(2) c(2)] c(3,4) rs(1) nl by auto
    qed
  qed
qed

lemma ungetc_pushes:
  assumes "can_read fdata fpos s" "ok (cookie s)" "c \<noteq> EOF" "f_reading s \<noteq> 2"
  shows "\<exists>s'. ungetc io c s = Some (c, s') \<and> rest s' = word_of_int c # rest s \<and> rpos s' = rpos s - 1 \<and> cookie s' = cookie s \<and> can_read fdata fpos s' \<and>
    \<not> f_eof s' \<and> (bufpos s' < bufgetc_u s' \<or> f_narrow s' \<and> f_reading s' = 2)"
proof (cases "bufpos s < bufgetc_u s \<and> bufpos s > 0 \<and> bufdata s ! (bufpos s - 1) = word_of_int c")
  case True
  let ?s = "s\<lparr>bufpos := bufpos s - 1, f_eof := False\<rparr>"
  have r: "f_reading s = 1" "bufpos s < bufread s" "bufread s \<le> length (bufdata s)" "\<not> f_writing s"
    using assms(1) True by (auto simp: can_read_def stream_ok_defs split: if_splits)
  have u: "ungetc io c s = Some (c, ?s)" using True assms(3) by (simp add: ungetc_def)
  obtain p where p: "bufpos s = Suc p" using True by (cases "bufpos s") auto
  have "buffered ?s = word_of_int c # buffered s"
    using True r p by (simp add: buffered_def Cons_nth_drop_Suc [symmetric] Suc_diff_Suc [symmetric])
  then have "rest ?s = word_of_int c # rest s" "rpos ?s = rpos s - 1"
    using r p by (auto simp: stream_rest_def ungots_def stream_rpos_def)
  moreover have "stream_ok ?s" using ungetc_ok [OF _ u] assms(1) by (simp add: can_read_def)
  ultimately show ?thesis using u assms(1) True by (intro exI [of _ ?s]) (auto simp: can_read_def)
next
  case False
  obtain s1 where t: "(if IS_NARROW_READING s then Some (True, s) else stdio_trans2r io s) = Some (True, s1)" and
      s1: "can_read fdata fpos s1" "f_narrow s1" "f_reading s1 = 1 \<or> f_reading s1 = 2" "cookie s1 = cookie s" "rest s1 = rest s" "rpos s1 = rpos s"
    using reading_start [OF assms(1), of io] by blast
  have r1: "f_reading s1 = 1"
  proof (cases "IS_NARROW_READING s")
    case True
    then show ?thesis using t s1(3) assms(4) by simp
  next
    case nr: False
    then show ?thesis using trans2r_ok(2) [of s io True s1] t assms(1) by (simp add: can_read_def)
  qed
  let ?s = "s1\<lparr>bufgetc_u := 0, f_reading := 2, f_eof := False, ungot := (c, 1)\<rparr>"
  have u: "ungetc io c s = Some (c, ?s)"
    using False t assms(3) r1 by (auto simp: ungetc_def has_ungot_def numeral_2_eq_2)
  have "rest ?s = word_of_int c # rest s" "rpos ?s = rpos s - 1"
    using r1 s1(5,6) by (simp_all add: stream_rest_def ungots_def buffered_def stream_rpos_def)
  moreover have "stream_ok ?s" using ungetc_ok [OF _ u] assms(1) by (simp add: can_read_def)
  ultimately show ?thesis using u s1(1,2,4) by (intro exI [of _ ?s]) (simp add: can_read_def)
qed

end

section \<open>Positions\<close>

text \<open>A seek goes to the position, counted from the start, the current position or the end of the file, or fails and leaves the position
  alone. It does not fail within the file.\<close>

definition seek_target :: "('c \<Rightarrow> byte list) \<Rightarrow> ('c \<Rightarrow> nat) \<Rightarrow> 'c \<Rightarrow> int \<Rightarrow> int \<Rightarrow> int" where
  "seek_target fdata fpos c p w = p + (if w = SEEK_SET then 0 else if w = SEEK_CUR then int (fpos c) else int (length (fdata c)))"

definition off64 :: "int \<Rightarrow> bool" where
  "off64 p \<longleftrightarrow> - (2 ^ 63) \<le> p \<and> p < 2 ^ 63"

definition seek_law :: "('c \<Rightarrow> bool) \<Rightarrow> ('c \<Rightarrow> byte list) \<Rightarrow> ('c \<Rightarrow> nat) \<Rightarrow> 'c \<Rightarrow> int \<Rightarrow> int \<Rightarrow> int io_result \<times> 'c \<Rightarrow> bool" where
  "seek_law ok fdata fpos c p w r \<longleftrightarrow>
     ok (snd r) \<and> fdata (snd r) = fdata c \<and>
     (case fst r of
        Inl _ \<Rightarrow> fpos (snd r) = fpos c \<and> \<not> (0 \<le> seek_target fdata fpos c p w \<and> seek_target fdata fpos c p w \<le> int (length (fdata c)))
      | Inr q \<Rightarrow> q = seek_target fdata fpos c p w \<and> 0 \<le> q \<and> fpos (snd r) = nat q)"

locale cookie_seeker =
  fixes io :: "'c cookie_io" and ok :: "'c \<Rightarrow> bool" and fdata :: "'c \<Rightarrow> byte list" and fpos :: "'c \<Rightarrow> nat"
  assumes seeks: "\<exists>f. io_seek io = Some f \<and>
    (\<forall>c p w. ok c \<longrightarrow> off64 p \<longrightarrow> w \<in> {SEEK_SET, SEEK_CUR, SEEK_END} \<longrightarrow> seek_law ok fdata fpos c p w (f c p w))"
begin

lemma SEEK_io_cases:
  assumes "ok (cookie s)" "off64 p" "w \<in> {SEEK_SET, SEEK_CUR, SEEK_END}"
  obtains c where "SEEK_io io p w s = (Some (seek_target fdata fpos (cookie s) p w), s\<lparr>cookie := c\<rparr>)" "ok c" "fdata c = fdata (cookie s)"
      "0 \<le> seek_target fdata fpos (cookie s) p w" "fpos c = nat (seek_target fdata fpos (cookie s) p w)"
    | e c where "SEEK_io io p w s = (None, io_error e c s)" "ok c" "fdata c = fdata (cookie s)" "fpos c = fpos (cookie s)"
      "\<not> (0 \<le> seek_target fdata fpos (cookie s) p w \<and> seek_target fdata fpos (cookie s) p w \<le> int (length (fdata (cookie s))))"
proof -
  obtain f where f: "io_seek io = Some f" "seek_law ok fdata fpos (cookie s) p w (f (cookie s) p w)" using seeks assms by blast
  obtain q c where q: "f (cookie s) p w = (q, c)" by fastforce
  show ?thesis using that(2) [of _ c] that(1) [of c] f q by (cases q) (simp_all add: SEEK_io_def seek_law_def)
qed

end

text \<open>The correction of a position is exact where nothing overflows.\<close>

lemma wrap64_id: "off64 p \<Longrightarrow> wrap64 p = p"
  by (simp add: wrap64_def off64_def)

lemma adjust_position_exact:
  assumes "off64 pos" "off64 (pos - corr)" "corr = int (f_reading s - 1) + (int (if f_writing s then 0 else bufread s) - int (bufpos s))"
  shows "\<exists>r. adjust_position pos s = (r, pos - corr, s) \<and> 0 \<le> r"
proof -
  have "adjust_position pos s = (let r = (if pos - corr > pos then - corr else corr) in (r, pos - corr, if r < 0 then s\<lparr>f_errno := EOVERFLOW\<rparr> else s))"
    unfolding adjust_position_def Let_def assms(3) [symmetric] wrap64_id [OF assms(2)] by (rule refl)
  then show ?thesis by (cases "corr < 0") auto
qed

text \<open>The position of a stream, and its file with the buffered output.\<close>

definition stream_pos :: "bool \<Rightarrow> ('c \<Rightarrow> byte list) \<Rightarrow> ('c \<Rightarrow> nat) \<Rightarrow> 'c FILE \<Rightarrow> int" where
  "stream_pos app fdata fpos s = (if f_writing s then int (stream_wpos app fdata fpos s) else stream_rpos fpos s)"

text \<open>\<open>ftell\<close> returns the position of the stream, buffered output, input and pushed back characters included, in every
  mode, and moves nothing.\<close>

theorem ftell_correct:
  assumes "cookie_seeker io ok fdata fpos" "stream_ok s" "ok (cookie s)" "f_append s = app" "fpos (cookie s) \<le> length (fdata (cookie s))"
    and "length (fdata (cookie s)) + length (bufdata s) < 2 ^ 62"
  shows "\<exists>s'. ftello64 io s = (stream_pos app fdata fpos s, s') \<and> ok (cookie s') \<and> fdata (cookie s') = fdata (cookie s) \<and>
    stream_pos app fdata fpos s' = stream_pos app fdata fpos s \<and> stream_ok s'"
proof -
  define w where "w = (if f_writing s \<and> f_append s then SEEK_END else SEEK_CUR)"
  define t where "t = seek_target fdata fpos (cookie s) 0 w"
  have t: "t = int (if f_writing s \<and> app then length (fdata (cookie s)) else fpos (cookie s))"
    using assms(4) by (auto simp: t_def w_def seek_target_def SEEK_END_def SEEK_CUR_def SEEK_SET_def)
  then have t0: "0 \<le> t" "t \<le> int (length (fdata (cookie s)))" using assms(5) by auto
  have w: "w \<in> {SEEK_SET, SEEK_CUR, SEEK_END}" "off64 0" by (auto simp: w_def off64_def)
  obtain c where c: "SEEK_io io 0 w s = (Some t, s\<lparr>cookie := c\<rparr>)" "ok c" "fdata c = fdata (cookie s)" "fpos c = nat t"
    using cookie_seeker.SEEK_io_cases [OF assms(1,3) w(2,1)] t0 unfolding t_def by metis
  let ?s = "s\<lparr>cookie := c\<rparr>"
  define corr where "corr = int (f_reading ?s - 1) + (int (if f_writing ?s then 0 else bufread ?s) - int (bufpos ?s))"
  have b: "bufpos s \<le> length (bufdata s)" "bufread s \<le> length (bufdata s)" "f_reading s \<le> 2" "\<not> f_writing s \<Longrightarrow> bufpos s \<le> bufread s"
    "f_writing s \<Longrightarrow> f_reading s = 0"
    using assms(2) by (auto simp: stream_ok_defs split: if_splits)
  have "off64 t" "off64 (t - corr)"
    using b t0 assms(6) unfolding off64_def corr_def by auto
  then obtain r where a: "adjust_position t ?s = (r, t - corr, ?s)" "0 \<le> r"
    using adjust_position_exact [of t corr ?s] by (auto simp: corr_def)
  have p: "t - corr = stream_pos app fdata fpos s"
    using t b(4,5) by (auto simp: stream_pos_def stream_wpos_def wpos_def stream_rpos_def corr_def)
  moreover have "stream_pos app fdata fpos ?s = stream_pos app fdata fpos s"
    using c(3,4) t by (auto simp: stream_pos_def stream_wpos_def wpos_def stream_rpos_def)
  ultimately show ?thesis using c a assms(2) by (simp add: ftello64_def w_def)
qed

locale cookie_file = cookie_writer io app ok fdata fpos + cookie_reader io ok fdata fpos + cookie_seeker io ok fdata fpos
  for io :: "'c cookie_io" and app :: bool and ok :: "'c \<Rightarrow> bool" and fdata :: "'c \<Rightarrow> byte list" and fpos :: "'c \<Rightarrow> nat"

text \<open>The file as a program sees it, with output that is still in the buffer.\<close>

definition stream_file :: "('c \<Rightarrow> byte list) \<Rightarrow> ('c \<Rightarrow> nat) \<Rightarrow> 'c FILE \<Rightarrow> byte list" where
  "stream_file fdata fpos s = (if f_writing s then stream_view False fdata fpos s else fdata (cookie s))"

text \<open>The position that \<open>fseek\<close> aims at.\<close>

definition fseek_target :: "('c \<Rightarrow> byte list) \<Rightarrow> ('c \<Rightarrow> nat) \<Rightarrow> 'c FILE \<Rightarrow> int \<Rightarrow> int \<Rightarrow> int" where
  "fseek_target fdata fpos s off w = off + (if w = SEEK_SET then 0 else if w = SEEK_CUR then stream_pos False fdata fpos s
     else int (length (stream_file fdata fpos s)))"

definition small_offset :: "int \<Rightarrow> bool" where
  "small_offset p \<longleftrightarrow> - (2 ^ 62) \<le> p \<and> p < 2 ^ 62"

lemma seek_from:
  assumes "cookie_seeker io ok fdata fpos" "ok (cookie s1)" "w \<in> {SEEK_SET, SEEK_CUR, SEEK_END}" "small_offset off"
    and "f_writing s1 \<Longrightarrow> bufpos s1 = 0 \<and> f_reading s1 = 0" "f_reading s1 \<le> 2" "bufpos s1 \<le> length (bufdata s1)" "bufread s1 \<le> length (bufdata s1)"
    and "\<not> f_writing s1 \<Longrightarrow> bufpos s1 \<le> bufread s1" "length (bufdata s1) < 2 ^ 61"
    and "stdio_wcommit io s = Some (0, s1) \<and> f_writing s \<or> s1 = s \<and> \<not> f_writing s"
  shows "\<exists>r s'. fseeko64 io off w s = Some (r, s') \<and> ok (cookie s') \<and> fdata (cookie s') = fdata (cookie s1) \<and>
    (r = 0 \<and> 0 \<le> fseek_target fdata fpos s1 off w \<and> int (fpos (cookie s')) = fseek_target fdata fpos s1 off w \<and> (\<exists>s3. s' = seek_reset s3)
     \<or> r = - 1 \<and> (\<exists>e. s' = io_error e (cookie s') s1) \<and> fpos (cookie s') = fpos (cookie s1) \<and>
       \<not> (0 \<le> fseek_target fdata fpos s1 off w \<and> fseek_target fdata fpos s1 off w \<le> int (length (fdata (cookie s1)))))"
proof -
  define corr where "corr = (if w = SEEK_CUR then int (f_reading s1 - 1) + (int (if f_writing s1 then 0 else bufread s1) - int (bufpos s1)) else 0)"
  have cb: "- (2 ^ 61) \<le> corr" "corr < 2 ^ 61 + 2" using assms(5-10) by (auto simp: corr_def)
  have o: "off64 off" "off64 (off - corr)" using assms(4) cb by (auto simp: off64_def small_offset_def)
  obtain r0 where a: "(if w \<noteq> SEEK_CUR then (0, off, s1) else adjust_position off s1) = (r0, off - corr, s1)" "0 \<le> r0"
    using adjust_position_exact [OF o, of s1] by (cases "w = SEEK_CUR") (auto simp: corr_def)
  have w: "\<not> (w < 0 \<or> w > 2)" using assms(3) by (auto simp: SEEK_SET_def SEEK_CUR_def SEEK_END_def)
  have t: "seek_target fdata fpos (cookie s1) (off - corr) w = fseek_target fdata fpos s1 off w"
    using assms(3,5,9)
    by (auto simp: seek_target_def fseek_target_def corr_def stream_pos_def stream_wpos_def wpos_def stream_rpos_def stream_file_def stream_view_def
        SEEK_SET_def SEEK_CUR_def SEEK_END_def)
  have c0: "(if f_writing s then stdio_wcommit io s else Some (0, s)) = Some (0, s1)" using assms(11) by auto
  show ?thesis
  proof (rule cookie_seeker.SEEK_io_cases [OF assms(1,2) o(2) assms(3)], goal_cases)
    case (1 c)
    have "fseeko64 io off w s = Some (0, seek_reset (s1\<lparr>cookie := c\<rparr>))"
      using w c0 a 1(1) by (simp add: fseeko64_def)
    then show ?thesis using 1 t by (intro exI [of _ 0] exI [of _ "seek_reset (s1\<lparr>cookie := c\<rparr>)"]) auto
  next
    case (2 e c)
    have "fseeko64 io off w s = Some (- 1, io_error e c s1)" using w c0 a 2(1) by (simp add: fseeko64_def)
    moreover have "cookie (io_error e c s1) = c" by (simp add: io_error_def)
    ultimately show ?thesis using 2 t by (intro exI [of _ "- 1"] exI [of _ "io_error e c s1"]) auto
  qed
qed

lemma fseek_idle:
  assumes "cookie_writer io False ok fdata fpos" "cookie_seeker io ok fdata fpos" "stream_ok s" "ok (cookie s)" "reliable io s"
    and "w \<in> {SEEK_SET, SEEK_CUR, SEEK_END}" "small_offset off" "length (bufdata s) < 2 ^ 61" "\<not> f_writing s"
  shows "\<exists>r s'. fseeko64 io off w s = Some (r, s') \<and> ok (cookie s') \<and> stream_ok s' \<and> stream_file fdata fpos s' = stream_file fdata fpos s \<and>
    (r = 0 \<and> fdata (cookie s') = stream_file fdata fpos s \<and> int (fpos (cookie s')) = fseek_target fdata fpos s off w \<and>
       f_reading s' = 0 \<and> \<not> f_writing s' \<and> \<not> f_eof s'
     \<or> r = - 1 \<and> stream_pos False fdata fpos s' = stream_pos False fdata fpos s) \<and>
    (0 \<le> fseek_target fdata fpos s off w \<and> fseek_target fdata fpos s off w \<le> int (length (stream_file fdata fpos s)) \<and>
       (f_writing s \<longrightarrow> no_errors io) \<longrightarrow> r = 0)"
proof -
  note False = assms(9)
  have b: "f_reading s \<le> 2" "bufpos s \<le> length (bufdata s)" "bufread s \<le> length (bufdata s)" "bufpos s \<le> bufread s"
    using assms(3) False by (auto simp: stream_ok_defs split: if_splits)
  obtain r s' where f: "fseeko64 io off w s = Some (r, s')" "ok (cookie s')" "fdata (cookie s') = fdata (cookie s)"
      "r = 0 \<and> 0 \<le> fseek_target fdata fpos s off w \<and> int (fpos (cookie s')) = fseek_target fdata fpos s off w \<and> (\<exists>s3. s' = seek_reset s3)
       \<or> r = - 1 \<and> (\<exists>e. s' = io_error e (cookie s') s) \<and> fpos (cookie s') = fpos (cookie s) \<and>
         \<not> (0 \<le> fseek_target fdata fpos s off w \<and> fseek_target fdata fpos s off w \<le> int (length (fdata (cookie s))))"
    using seek_from [OF assms(2,4,6,7) _ b(1,2,3) _ assms(8), of s] False b(4) by auto
  have ok: "stream_ok s'" by (rule fseeko64_ok [OF assms(3) f(1)])
  have "f_writing s' = f_writing s" if "s' = io_error e (cookie s') s" for e by (subst that, simp add: io_error_def)
  then have nw: "\<not> f_writing s'" using f(4) False by auto
  have fl: "stream_file fdata fpos s' = fdata (cookie s)" "stream_file fdata fpos s = fdata (cookie s)"
    using f(3) nw False by (auto simp: stream_file_def)
  have e: "stream_pos False fdata fpos s' = stream_pos False fdata fpos s" if "s' = io_error e (cookie s') s" "fpos (cookie s') = fpos (cookie s)" for e
  proof -
    have "f_writing s' = f_writing s" "bufread s' = bufread s" "bufpos s' = bufpos s" "f_reading s' = f_reading s"
      by (subst that(1), simp add: io_error_def)+
    then show ?thesis using False that(2) by (simp add: stream_pos_def stream_rpos_def)
  qed
  show ?thesis using f ok fl e False by auto
qed

lemma fseek_writing:
  assumes "cookie_writer io False ok fdata fpos" "cookie_seeker io ok fdata fpos" "stream_ok s" "ok (cookie s)" "reliable io s"
    and "w \<in> {SEEK_SET, SEEK_CUR, SEEK_END}" "small_offset off" "length (bufdata s) < 2 ^ 61" "f_writing s"
  shows "\<exists>r s'. fseeko64 io off w s = Some (r, s') \<and> ok (cookie s') \<and> stream_ok s' \<and> stream_file fdata fpos s' = stream_file fdata fpos s \<and>
    (r = 0 \<and> fdata (cookie s') = stream_file fdata fpos s \<and> int (fpos (cookie s')) = fseek_target fdata fpos s off w \<and>
       f_reading s' = 0 \<and> \<not> f_writing s' \<and> \<not> f_eof s'
     \<or> r = - 1 \<and> stream_pos False fdata fpos s' = stream_pos False fdata fpos s) \<and>
    (0 \<le> fseek_target fdata fpos s off w \<and> fseek_target fdata fpos s off w \<le> int (length (stream_file fdata fpos s)) \<and>
       (f_writing s \<longrightarrow> no_errors io) \<longrightarrow> r = 0)"
proof -
  note True = assms(9)
  have b: "f_reading s = 0" "bufpos s \<le> length (bufdata s)" "bufread s = 0" using assms(3) True by (auto simp: stream_ok_defs)
  obtain s1 where c: "stdio_wcommit io s = Some (bufpos s1, s1)" "cookie_writer.accepted False ok fdata fpos s [] 0 s1" "no_errors io \<longrightarrow> bufpos s1 = 0"
    using cookie_writer.wcommit_accepts [OF assms(1,4) b(2) assms(5)] by blast
  have fr: "wframe s s1" using wcommit_frame [OF c(1)] by blast
  note f1 = wframe_flags [OF fr]
  have v: "ok (cookie s1)" "stream_view False fdata fpos s1 = stream_view False fdata fpos s" "stream_wpos False fdata fpos s1 = stream_wpos False fdata fpos s"
    using c(2) by (simp_all add: cookie_writer.accepted_def [OF assms(1)])
  have same: "stream_file fdata fpos s1 = stream_file fdata fpos s" "stream_pos False fdata fpos s1 = stream_pos False fdata fpos s"
    "fseek_target fdata fpos s1 off w = fseek_target fdata fpos s off w"
    using v f1(5) True by (simp_all add: stream_file_def stream_pos_def fseek_target_def)
  show ?thesis
  proof (cases "bufpos s1 = 0")
    case False
    have w: "\<not> (w < 0 \<or> w > 2)" using assms(6) by (auto simp: SEEK_SET_def SEEK_CUR_def SEEK_END_def)
    have "fseeko64 io off w s = Some (- 1, s1)" using w True c(1) False by (simp add: fseeko64_def)
    then show ?thesis using v same c(3) False True fseeko64_ok [OF assms(3)] by (intro exI [of _ "- 1"] exI [of _ s1]) simp
  next
    case empty: True
    have fd: "fdata (cookie s1) = stream_file fdata fpos s" using v(2) empty True by (simp add: stream_file_def stream_view_def)
    obtain r s' where f: "fseeko64 io off w s = Some (r, s')" "ok (cookie s')" "fdata (cookie s') = fdata (cookie s1)"
        "r = 0 \<and> 0 \<le> fseek_target fdata fpos s1 off w \<and> int (fpos (cookie s')) = fseek_target fdata fpos s1 off w \<and> (\<exists>s3. s' = seek_reset s3)
         \<or> r = - 1 \<and> (\<exists>e. s' = io_error e (cookie s') s1) \<and> fpos (cookie s') = fpos (cookie s1) \<and>
           \<not> (0 \<le> fseek_target fdata fpos s1 off w \<and> fseek_target fdata fpos s1 off w \<le> int (length (fdata (cookie s1))))"
      using seek_from [OF assms(2) v(1) assms(6,7), of s] empty f1 b c(1) True assms(8) by auto
    have ok: "stream_ok s'" by (rule fseeko64_ok [OF assms(3) f(1)])
    have e: "stream_pos False fdata fpos s' = stream_pos False fdata fpos s" "stream_file fdata fpos s' = stream_file fdata fpos s"
      if "s' = io_error e (cookie s') s1" "fpos (cookie s') = fpos (cookie s1)" for e
    proof -
      have x: "f_writing s'" "bufpos s' = 0" by (subst that(1), use f1(5) True empty in \<open>simp add: io_error_def\<close>)+
      then show "stream_pos False fdata fpos s' = stream_pos False fdata fpos s"
        using same(2) [symmetric] f1(5) True empty that(2) by (simp add: stream_pos_def stream_wpos_def wpos_def)
      show "stream_file fdata fpos s' = stream_file fdata fpos s" using x fd f(3) by (simp add: stream_file_def stream_view_def)
    qed
    show ?thesis using f ok e same(3) fd by (auto simp: stream_file_def)
  qed
qed

lemma fseek_effect:
  assumes "cookie_writer io False ok fdata fpos" "cookie_seeker io ok fdata fpos" "stream_ok s" "ok (cookie s)" "reliable io s"
    and "w \<in> {SEEK_SET, SEEK_CUR, SEEK_END}" "small_offset off" "length (bufdata s) < 2 ^ 61"
  shows "\<exists>r s'. fseeko64 io off w s = Some (r, s') \<and> ok (cookie s') \<and> stream_ok s' \<and> stream_file fdata fpos s' = stream_file fdata fpos s \<and>
    (r = 0 \<and> fdata (cookie s') = stream_file fdata fpos s \<and> int (fpos (cookie s')) = fseek_target fdata fpos s off w \<and>
       f_reading s' = 0 \<and> \<not> f_writing s' \<and> \<not> f_eof s'
     \<or> r = - 1 \<and> stream_pos False fdata fpos s' = stream_pos False fdata fpos s) \<and>
    (0 \<le> fseek_target fdata fpos s off w \<and> fseek_target fdata fpos s off w \<le> int (length (stream_file fdata fpos s)) \<and>
       (f_writing s \<longrightarrow> no_errors io) \<longrightarrow> r = 0)"
  using fseek_idle [OF assms] fseek_writing [OF assms] by blast

text \<open>C12: \<open>fseek\<close> returns 0 with all output in the file and the file at the position that was asked for, counted from the
  position of the stream or the end of its data, buffered or not; or it fails with the file and the output as they were. It fails
  within the file only when output cannot be written.\<close>

theorem fseek_correct:
  assumes "cookie_writer io False ok fdata fpos" "cookie_seeker io ok fdata fpos" "stream_ok s" "ok (cookie s)" "reliable io s"
    and "w \<in> {SEEK_SET, SEEK_CUR, SEEK_END}" "small_offset off" "length (bufdata s) < 2 ^ 61"
  shows "\<exists>r s'. fseeko64 io off w s = Some (r, s') \<and> ok (cookie s') \<and> stream_ok s' \<and> stream_file fdata fpos s' = stream_file fdata fpos s \<and>
    (r = 0 \<and> fdata (cookie s') = stream_file fdata fpos s \<and> int (fpos (cookie s')) = fseek_target fdata fpos s off w \<and>
       f_reading s' = 0 \<and> \<not> f_writing s' \<and> \<not> f_eof s'
     \<or> r = - 1 \<and> stream_pos False fdata fpos s' = stream_pos False fdata fpos s) \<and>
    (0 \<le> fseek_target fdata fpos s off w \<and> fseek_target fdata fpos s off w \<le> int (length (stream_file fdata fpos s)) \<and>
       (f_writing s \<longrightarrow> no_errors io) \<longrightarrow> r = 0)"
  by (rule fseek_effect [OF assms])

section \<open>Reading a file\<close>

lemma fread_effect:
  assumes "cookie_reader io ok fdata fpos" "can_read fdata fpos s" "ok (cookie s)" "n \<noteq> 0" "m \<noteq> 0" "m \<le> SIZE_T_MAX div n"
  shows "\<exists>bs s'. fread_unlocked io n m s = Some ((length bs div n, bs), s') \<and> length bs \<le> n * m \<and>
    stream_rest fdata fpos s = bs @ stream_rest fdata fpos s' \<and> stream_rpos fpos s' = stream_rpos fpos s + int (length bs) \<and>
    (length bs < n * m \<longrightarrow> f_error s' \<or> f_eof s' \<and> stream_rest fdata fpos s' = []) \<and>
    fdata (cookie s') = fdata (cookie s) \<and> can_read fdata fpos s' \<and> ok (cookie s')"
proof -
  obtain s1 where t: "(if IS_NARROW_READING s then Some (True, s) else stdio_trans2r io s) = Some (True, s1)" and
      s1: "can_read fdata fpos s1" "f_reading s1 = 1 \<or> f_reading s1 = 2" "cookie s1 = cookie s"
        "stream_rest fdata fpos s1 = stream_rest fdata fpos s" "stream_rpos fpos s1 = stream_rpos fpos s"
    using reading_start [OF assms(2), of io] by blast
  obtain bs s' where b: "fread_bytes io (n * m) s1 = Some (bs, s')" "cookie_reader.took ok fdata fpos s1 bs s'" "can_read fdata fpos s'"
      "length bs \<le> n * m" "length bs < n * m \<longrightarrow> f_error s' \<or> f_eof s'"
    using cookie_reader.fread_bytes_takes [OF assms(1) s1(1) _ s1(2), of "n * m"] assms(3-5) s1(3) by auto
  have "fread_unlocked io n m s = Some ((length bs div n, bs), s')" using t b(1) assms(4-6) by (simp add: fread_unlocked_def)
  then show ?thesis using b s1(3-5) by (auto simp: cookie_reader.took_def [OF assms(1)])
qed

text \<open>C10: \<open>fread\<close> returns the next bytes of the stream: characters pushed back, the rest of the buffer and then the file, in order, none
  left out or doubled, whatever number of bytes the file gives at a time. It returns fewer than it was asked for only after
  an error or at the end of the file, when nothing is left.\<close>

theorem fread_correct:
  assumes "cookie_reader io ok fdata fpos" "can_read fdata fpos s" "ok (cookie s)" "n \<noteq> 0" "m \<noteq> 0" "m \<le> SIZE_T_MAX div n"
  shows "\<exists>bs s'. fread_unlocked io n m s = Some ((length bs div n, bs), s') \<and> length bs \<le> n * m \<and>
    stream_rest fdata fpos s = bs @ stream_rest fdata fpos s' \<and> stream_rpos fpos s' = stream_rpos fpos s + int (length bs) \<and>
    (length bs < n * m \<longrightarrow> f_error s' \<or> f_eof s' \<and> stream_rest fdata fpos s' = []) \<and>
    fdata (cookie s') = fdata (cookie s) \<and> can_read fdata fpos s' \<and> ok (cookie s')"
  by (rule fread_effect [OF assms])

text \<open>C11: \<open>fgets\<close> returns the first line of what is left, with its newline, or as much of it as fits in the buffer of the caller
  with a terminator, or a null pointer when nothing is left; it reads no byte beyond that. Errors of the file apart.\<close>

theorem fgets_correct:
  assumes "cookie_reader io ok fdata fpos" "can_read fdata fpos s" "ok (cookie s)" "0 < n"
  shows "\<exists>bs res s'. fgets_unlocked io n s = Some (res, s') \<and> stream_rest fdata fpos s = bs @ stream_rest fdata fpos s' \<and>
    (f_error s' \<or> bs = cut_line (nat n - 1) (stream_rest fdata fpos s) \<and> res = (if bs = [] then None else Some bs)) \<and>
    stream_rpos fpos s' = stream_rpos fpos s + int (length bs) \<and> can_read fdata fpos s' \<and> ok (cookie s')"
proof -
  obtain bs res s' where f: "fgets_loop io (nat n - 1) [] s = Some (res, s')" "cookie_reader.took ok fdata fpos s bs s'" "can_read fdata fpos s'"
      "f_error s' \<or> bs = cut_line (nat n - 1) (stream_rest fdata fpos s) \<and> res = (if [] @ bs = [] then None else Some ([] @ bs))"
    using cookie_reader.fgets_loop_takes [OF assms(1-3), of "nat n - 1" "[]"] by blast
  then show ?thesis using assms(4) by (auto simp: fgets_unlocked_def cookie_reader.took_def [OF assms(1)])
qed

lemma fgetc_not_EOF:
  assumes "bufpos s < bufgetc_u s \<or> f_narrow s \<and> f_reading s = 2" "fgetc_unlocked io s = Some (r, s')"
  shows "r \<noteq> EOF"
proof -
  have "\<exists>b :: byte. r = uint b"
    using assms by (auto simp: fgetc_unlocked_def IS_NARROW_READING_def has_ungot_def buffer_get_def take_ungot_def split: if_splits)
  then show ?thesis by auto
qed

text \<open>A character that is pushed back is the next one that is read, and after it the stream is where it was.\<close>

theorem ungetc_fgetc:
  assumes "cookie_reader io ok fdata fpos" "can_read fdata fpos s" "ok (cookie s)" "0 \<le> c" "c < 256" "f_reading s \<noteq> 2"
  shows "\<exists>s1 s2. ungetc io c s = Some (c, s1) \<and> stream_rpos fpos s1 = stream_rpos fpos s - 1 \<and> fgetc_unlocked io s1 = Some (c, s2) \<and>
    stream_rest fdata fpos s2 = stream_rest fdata fpos s \<and> stream_rpos fpos s2 = stream_rpos fpos s"
proof -
  have c: "c \<noteq> EOF" "uint (word_of_int c :: byte) = c" using assms(4,5) by (auto simp: EOF_def uint_word_of_int)
  obtain s1 where u: "ungetc io c s = Some (c, s1)" "stream_rest fdata fpos s1 = word_of_int c # stream_rest fdata fpos s"
      "stream_rpos fpos s1 = stream_rpos fpos s - 1" "cookie s1 = cookie s" "can_read fdata fpos s1"
      "bufpos s1 < bufgetc_u s1 \<or> f_narrow s1 \<and> f_reading s1 = 2"
    using cookie_reader.ungetc_pushes [OF assms(1-3) c(1) assms(6)] by blast
  have ok1: "ok (cookie s1)" using u(4) assms(3) by simp
  obtain r s2 where g: "fgetc_unlocked io s1 = Some (r, s2)"
      "r = EOF \<and> cookie_reader.took ok fdata fpos s1 [] s2 \<and> (f_error s2 \<or> f_eof s2) \<or> (\<exists>b. r = uint b \<and> cookie_reader.took ok fdata fpos s1 [b] s2)"
    using cookie_reader.fgetc_takes [OF assms(1) u(5) ok1] by blast
  show ?thesis using u(1-4) g c(2) fgetc_not_EOF [OF u(6) g(1)] by (auto simp: cookie_reader.took_def [OF assms(1)])
qed

section \<open>Writing and reading back\<close>

text \<open>What stays as it is while a stream is open.\<close>

definition opened_as :: "'c FILE \<Rightarrow> bool \<times> bool \<times> bool \<times> int \<times> nat" where
  "opened_as s = (f_writeonly s, f_readonly s, f_wide s, filedes s, length (bufdata s))"

lemma wframe_opened: "wframe s s' \<Longrightarrow> opened_as s' = opened_as s"
  by (simp add: opened_as_def wframe_flags)

lemma wcommit_opened: "stdio_wcommit io s = Some (k, s') \<Longrightarrow> opened_as s' = opened_as s"
  using wcommit_frame wframe_opened by blast

lemma fseeko64_opened: "fseeko64 io off w s = Some (r, s') \<Longrightarrow> opened_as s' = opened_as s"
proof (erule fseeko64_cases)
  fix s1 assume c: "if f_writing s then stdio_wcommit io s = Some (0, s1) else s1 = s"
  have o1: "opened_as s1 = opened_as s" using c wcommit_opened by (metis (full_types))
  show "opened_as s' = opened_as s" if "s' = s1\<lparr>cookie := x, f_errno := e\<rparr>" for x e
    using that o1 by (simp add: opened_as_def)
  show "opened_as s' = opened_as s" if m: "(if w \<noteq> SEEK_CUR then (0, off, s1) else adjust_position off s1) = (corr, pos, s2)"
      "SEEK_io io pos w s2 = (Some q, s3)" "s' = seek_reset s3" for corr pos s2 q s3
  proof -
    have "opened_as s2 = opened_as s1" using m(1) by (auto simp: adjust_position_def opened_as_def Let_def split: if_splits)
    moreover have "opened_as s3 = opened_as s2" by (subst SEEK_io_result [OF m(2)]) (simp add: opened_as_def)
    moreover have "opened_as s' = opened_as s3" using m(3) by (simp add: opened_as_def seek_reset_def init_bufread_bufpos_def)
    ultimately show ?thesis using o1 by simp
  qed
qed (simp_all add: wcommit_opened, simp add: opened_as_def)

lemma fwrite_opened:
  assumes "can_write s" "fwrite_unlocked io d n m s = Some (k, s')"
  shows "opened_as s' = opened_as s"
proof -
  obtain s1 where t: "(if IS_NARROW_WRITING s then Some (True, s) else stdio_trans2w io s) = Some (True, s1)" "can_write s1" "f_writing s1"
      "bufpos s1 \<le> length (bufdata s1)" using writing_start [OF assms(1), of io] by blast
  have "opened_as s1 = opened_as s"
    using t(1) assms(1) by (auto simp: stdio_trans2w_def set_narrow_def start_writing_def can_write_def opened_as_def Let_def split: if_splits)
  moreover have "opened_as s' = opened_as s1"
    using assms(2) t(1,4) stdio_fwrite_frame wframe_opened
    by (fastforce simp: fwrite_unlocked_def opened_as_def split: if_splits bind_splits)
  ultimately show ?thesis by simp
qed

lemma overwrite_part: "take (length d) (drop p (overwrite p d x)) = d"
  by (simp add: overwrite_def)

text \<open>C13: what \<open>fwrite\<close> writes at some position of a file, \<open>fread\<close> reads there after \<open>fseek\<close> to that position, through whatever part of it
  has been in the buffer; bytes are missing only after an error while reading.\<close>

theorem fwrite_fseek_fread:
  assumes "cookie_file io False ok fdata fpos" "no_errors io" "can_write s" "\<not> f_writeonly s" "ok (cookie s)"
    and "n \<noteq> 0" "m \<noteq> 0" "m \<le> SIZE_T_MAX div n" "length d = n * m"
    and "p = stream_wpos False fdata fpos s" "p < 2 ^ 62" "length (bufdata s) < 2 ^ 61"
  shows "\<exists>s1 s2 bs s3. fwrite_unlocked io d n m s = Some (m, s1) \<and> fseeko64 io (int p) SEEK_SET s1 = Some (0, s2) \<and>
    fread_unlocked io n m s2 = Some ((length bs div n, bs), s3) \<and> bs = take (length bs) d \<and> (bs = d \<or> f_error s3)"
proof -
  have cw: "cookie_writer io False ok fdata fpos" and cr: "cookie_reader io ok fdata fpos" and cs: "cookie_seeker io ok fdata fpos"
    using assms(1) by (simp_all add: cookie_file_def)
  have rel: "reliable io x" for x using assms(2) by (simp add: reliable_def)
  obtain s1 where w: "fwrite_unlocked io d n m s = Some (m, s1)"
      "stream_view False fdata fpos s1 = overwrite p d (stream_view False fdata fpos s)" "can_write s1" "ok (cookie s1)"
    using fwrite_effect [OF cw assms(3,5) rel assms(6-9)] assms(2,6,9,10) by auto
  have o1: "opened_as s1 = opened_as s" by (rule fwrite_opened [OF assms(3) w(1)])
  have sf: "stream_file fdata fpos s1 = overwrite p d (stream_view False fdata fpos s)"
    using w(2,3) by (auto simp: stream_file_def stream_view_def can_write_def stream_ok_defs)
  have ne: "d \<noteq> []" using assms(6,7,9) by auto
  have tg: "fseek_target fdata fpos s1 (int p) SEEK_SET = int p" by (simp add: fseek_target_def)
  have ln: "int p \<le> int (length (stream_file fdata fpos s1))" using ne by (simp add: sf length_overwrite)
  have pre: "stream_ok s1" "SEEK_SET \<in> {SEEK_SET, SEEK_CUR, SEEK_END}" "small_offset (int p)" "length (bufdata s1) < 2 ^ 61"
    using w(3) assms(11,12) o1 by (simp_all add: can_write_def small_offset_def opened_as_def)
  obtain s2 where k: "fseeko64 io (int p) SEEK_SET s1 = Some (0, s2)" "ok (cookie s2)" "stream_ok s2" "fdata (cookie s2) = stream_file fdata fpos s1"
      "int (fpos (cookie s2)) = int p" "f_reading s2 = 0" "\<not> f_writing s2" "\<not> f_eof s2"
    using fseek_effect [OF cw cs pre(1) w(4) rel pre(2-4)] tg ln assms(2) by auto
  have o2: "opened_as s2 = opened_as s" using fseeko64_opened [OF k(1)] o1 by simp
  have r2: "bufread s2 = 0" "ungots s2 = []" using k(3,6,7) by (auto simp: stream_ok_defs ungots_def)
  have c2: "can_read fdata fpos s2" using k o2 assms(3,4) by (simp add: can_read_def opened_as_def can_write_def)
  have rest: "stream_rest fdata fpos s2 = drop p (overwrite p d (stream_view False fdata fpos s))"
    using r2 k(4,5) sf by (simp add: stream_rest_def buffered_def)
  obtain bs s3 where f: "fread_unlocked io n m s2 = Some ((length bs div n, bs), s3)" "length bs \<le> n * m"
      "stream_rest fdata fpos s2 = bs @ stream_rest fdata fpos s3" "length bs < n * m \<longrightarrow> f_error s3 \<or> stream_rest fdata fpos s3 = []"
    using fread_effect [OF cr c2 k(2) assms(6-8)] by blast
  have b: "bs = take (length bs) d"
    using f(2,3) rest overwrite_part [of d p "stream_view False fdata fpos s"] assms(9) by (metis append_eq_conv_conj min.absorb1 take_take)
  have "f_error s3" if "bs \<noteq> d"
  proof (rule ccontr)
    assume "\<not> f_error s3"
    moreover have "length bs < n * m" using that b f(2) assms(9) by (metis le_neq_implies_less take_all order.refl)
    ultimately have "bs = drop p (overwrite p d (stream_view False fdata fpos s))" using f(3,4) rest by simp
    then show False using that b overwrite_part [of d p "stream_view False fdata fpos s"] \<open>length bs < n * m\<close> assms(9) by simp
  qed
  then show ?thesis using w(1) k(1) f(1) b by blast
qed

section \<open>A file to run them on\<close>

text \<open>A regular file, as the system calls work on it: its bytes and the position. The witnesses below apply the theorems to streams on it,
  with a buffer of two bytes.\<close>

definition disk_io :: "(byte list \<times> nat) cookie_io" where
  "disk_io =
     \<lparr>io_read = Some (\<lambda>(x, p) n. (Inr (take n (drop p x)), (x, p + length (take n (drop p x))))),
      io_write = Some (\<lambda>(x, p) d. (Inr (length d), (overwrite p d x, p + length d))),
      io_seek = Some (\<lambda>c p w. let t = seek_target fst snd c p w in if t < 0 then (Inl (Some EINVAL), c) else (Inr t, (fst c, nat t))),
      io_close = None, flush_others = (\<lambda>c. c)\<rparr>"

interpretation disk: cookie_file disk_io False "\<lambda>_. True" fst snd
  by unfold_locales (auto simp: disk_io_def write_law_def read_law_def seek_law_def wpos_def min_def Let_def)

definition disk_stream :: "byte list \<Rightarrow> nat \<Rightarrow> (byte list \<times> nat) FILE" where
  "disk_stream x p = \<lparr>f_reading = 0, f_eof = False, f_error = False, f_writeonly = False, f_readonly = False, f_writing = False,
     f_narrow = False, f_wide = False, f_bufmode = FBF, f_append = False, f_freefile = True, f_freebuf = True, ungot = (0, 0), filedes = - 1,
     bufdata = [0, 0], bufpos = 0, bufread = 0, bufgetc_u = 0, bufputc_u = 0, cookie = (x, p), f_errno = 0\<rparr>"

lemma disk_opened: "fopencookie True (\<lambda>_. Some [0, 0]) 0 (x, p) [0x72, 0x2b] = Inr (disk_stream x p)"
  by (simp add: fopencookie_eq fopen_mode_def disk_stream_def)

lemma disk_stream_ok: "stream_ok (disk_stream x p)"
  by (rule fopencookie_ok [OF disk_opened])

lemma disk_no_errors: "no_errors disk_io"
  by (simp add: no_errors_def disk_io_def)

lemma disk_stream_simps [simp]:
  "can_write (disk_stream x p)" "can_read fst snd (disk_stream x p)" "reliable disk_io (disk_stream x p)"
  "cookie (disk_stream x p) = (x, p)" "f_writing (disk_stream x p) = False" "f_writeonly (disk_stream x p) = False" "f_append (disk_stream x p) = False"
  "f_reading (disk_stream x p) = 0" "bufdata (disk_stream x p) = [0, 0]"
  "stream_view False fst snd (disk_stream x p) = x" "stream_wpos False fst snd (disk_stream x p) = p" "stream_file fst snd (disk_stream x p) = x"
  "stream_rest fst snd (disk_stream x p) = drop p x" "stream_rpos snd (disk_stream x p) = int p" "stream_pos False fst snd (disk_stream x p) = int p"
  using disk_stream_ok [of x p] disk_no_errors
  by (simp_all add: disk_stream_def can_write_def can_read_def reliable_def stream_view_def stream_wpos_def stream_file_def stream_rest_def
      stream_rpos_def stream_pos_def wpos_def ungots_def buffered_def)

theorem fwrite_refines_witness:
  "\<exists>s'. fwrite_unlocked disk_io [1, 2, 3] 1 3 (disk_stream [9] 1) = Some (3, s') \<and> stream_view False fst snd s' = [9, 1, 2, 3]"
  using fwrite_refines [OF disk.cookie_writer_axioms, of "disk_stream [9] 1" 1 3 "[1, 2, 3]"] disk_no_errors
  by (auto simp: SIZE_T_MAX_def overwrite_def)

theorem ftell_correct_witness:
  "\<exists>s'. ftello64 disk_io (disk_stream [7, 8, 9] 2) = (2, s') \<and> stream_pos False fst snd s' = 2"
  using ftell_correct [OF disk.cookie_seeker_axioms, of "disk_stream [7, 8, 9] 2" False] disk_stream_ok by auto

theorem fseek_correct_witness:
  "\<exists>s'. fseeko64 disk_io (- 1) SEEK_END (disk_stream [7, 8, 9] 0) = Some (0, s') \<and> snd (cookie s') = 2"
  using fseek_correct [OF disk.cookie_writer_axioms disk.cookie_seeker_axioms, of "disk_stream [7, 8, 9] 0" SEEK_END "- 1"] disk_stream_ok
  by (auto simp: small_offset_def fseek_target_def SEEK_END_def SEEK_SET_def SEEK_CUR_def)

theorem fread_correct_witness:
  "\<exists>bs s'. fread_unlocked disk_io 1 3 (disk_stream [1, 2, 3, 4, 5] 1) = Some ((length bs div 1, bs), s') \<and>
     [2, 3, 4, 5] = bs @ stream_rest fst snd s'"
  using fread_correct [OF disk.cookie_reader_axioms, of "disk_stream [1, 2, 3, 4, 5] 1" 1 3] by (auto simp: SIZE_T_MAX_def)

theorem fgets_correct_witness:
  "\<exists>bs res s'. fgets_unlocked disk_io 4 (disk_stream [65, 66, 10, 67] 0) = Some (res, s') \<and> [65, 66, 10, 67] = bs @ stream_rest fst snd s' \<and>
     (f_error s' \<or> bs = [65, 66, 10] \<and> res = Some [65, 66, 10])"
proof -
  have "cut_line (nat 4 - 1) [65, 66, 10, 67] = [65, 66, 10]" by (simp add: newline_def numeral_3_eq_3)
  then show ?thesis using fgets_correct [OF disk.cookie_reader_axioms, of "disk_stream [65, 66, 10, 67] 0" 4] by auto
qed

theorem ungetc_fgetc_witness:
  "\<exists>s1 s2. ungetc disk_io 66 (disk_stream [1, 2] 1) = Some (66, s1) \<and> fgetc_unlocked disk_io s1 = Some (66, s2) \<and> stream_rest fst snd s2 = [2]"
  using ungetc_fgetc [OF disk.cookie_reader_axioms, of "disk_stream [1, 2] 1" 66] by auto

theorem fwrite_fseek_fread_witness:
  "\<exists>s1 s2 bs s3. fwrite_unlocked disk_io [1, 2, 3] 1 3 (disk_stream [9, 9] 1) = Some (3, s1) \<and> fseeko64 disk_io 1 SEEK_SET s1 = Some (0, s2) \<and>
     fread_unlocked disk_io 1 3 s2 = Some ((length bs div 1, bs), s3) \<and> (bs = [1, 2, 3] \<or> f_error s3)"
  using fwrite_fseek_fread [OF disk.cookie_file_axioms disk_no_errors, of "disk_stream [9, 9] 1" 1 3 "[1, 2, 3]" 1]
  by (auto simp: SIZE_T_MAX_def)

end
