(* ===== verification/Memstream.thy ===== *)
theory Memstream
  imports Stdio
begin

text \<open>
  Streams on memory (\<open>libc/stdio/fmemopen.c\<close>, \<open>open_memstream.c\<close>): the functions that they give to \<open>fopencookie\<close>, on a record of the
  fields of their cookies. The block at \<open>buf\<close> is the list of its bytes, and \<open>len\<close> is its length.

  \<open>fmo_append\<close> is the flag \<open>__FLAG_APPEND\<close> of the stream, which \<open>fmo_write\<close> reads through the pointer \<open>fp\<close>; it does not change while the stream
  is open. \<open>*bufloc\<close> is the address of \<open>oms_buf\<close> at any time, since each change of one is a change of the other, and has no
  field of its own. Sizes are natural numbers: \<open>len + bufsize - count\<close> is below \<open>2 ^ 32\<close> as long as no block is larger than half the address space.

  \<open>mem\<close> says for which sizes \<open>realloc\<close> succeeds, \<open>junk\<close> is what it leaves in the new part of a block.
\<close>

section \<open>A block of fixed size\<close>

record fmo_cookie =
  fmo_pos :: nat
  fmo_eof :: nat
  fmo_dynbuf :: bool
  fmo_buf :: "byte list"
  fmo_append :: bool

definition fmo_read :: "fmo_cookie \<Rightarrow> nat \<Rightarrow> byte list io_result \<times> fmo_cookie" where
  "fmo_read c bufsize =
     (let count = length (fmo_buf c) - fmo_pos c
      in if count = 0 then (Inr [], c)
         else
           (let n = (if bufsize > count then count else bufsize)
            in (Inr (take n (drop (fmo_pos c) (fmo_buf c))), c\<lparr>fmo_pos := fmo_pos c + n\<rparr>)))"

text \<open>\<open>memcpy\<close> to \<open>buf + pos\<close>.\<close>

definition put_bytes :: "nat \<Rightarrow> byte list \<Rightarrow> byte list \<Rightarrow> byte list" where
  "put_bytes p d b = take p b @ d @ drop (p + length d) b"

definition fmo_write :: "fmo_cookie \<Rightarrow> byte list \<Rightarrow> nat io_result \<times> fmo_cookie" where
  "fmo_write c0 d =
     (let c = (if fmo_append c0 then c0\<lparr>fmo_pos := fmo_eof c0\<rparr> else c0);
          count = length (fmo_buf c) - fmo_pos c
      in if length d > count \<and> count = 0 then (Inl (Some EFBIG), c)
         else
           (let n = (if length d > count then count else length d);
                c1 = c\<lparr>fmo_buf := put_bytes (fmo_pos c) (take n d) (fmo_buf c), fmo_pos := fmo_pos c + n\<rparr>;
                c2 = (if fmo_pos c1 > fmo_eof c1 then
                        (if n < count then c1\<lparr>fmo_eof := fmo_pos c1, fmo_buf := (fmo_buf c1)[fmo_pos c1 := 0]\<rparr> else c1\<lparr>fmo_eof := fmo_pos c1\<rparr>)
                      else c1)
            in (Inr n, c2)))"

text \<open>The conversion to \<open>uintmax_t\<close>.\<close>

definition as_uintmax :: "int \<Rightarrow> int" where
  "as_uintmax p = p mod 2 ^ 64"

definition fmo_seek :: "fmo_cookie \<Rightarrow> int \<Rightarrow> int \<Rightarrow> int io_result \<times> fmo_cookie" where
  "fmo_seek c pos whence =
     (let p = (if whence \<noteq> SEEK_SET then wrap64 (pos + (if whence = SEEK_CUR then int (fmo_pos c) else int (fmo_eof c))) else pos)
      in if as_uintmax p > int (fmo_eof c) then (Inl None, c) else (Inr p, c\<lparr>fmo_pos := nat p\<rparr>))"

definition fmo_close :: "fmo_cookie \<Rightarrow> unit io_result \<times> fmo_cookie" where
  "fmo_close c = (Inr (), c)"

definition fmo_io :: "fmo_cookie cookie_io" where
  "fmo_io = \<lparr>io_read = Some fmo_read, io_write = Some fmo_write, io_seek = Some fmo_seek, io_close = Some fmo_close, flush_others = (\<lambda>c. c)\<rparr>"

text \<open>The fields that are set once the stream is open.\<close>

definition fmo_opened :: "bool \<Rightarrow> bool \<Rightarrow> fmo_cookie \<Rightarrow> fmo_cookie" where
  "fmo_opened readonly app c =
     (let c1 = (if readonly then c\<lparr>fmo_eof := length (fmo_buf c)\<rparr> else c);
          i = length (takeWhile (\<lambda>b. b \<noteq> 0) (fmo_buf c))
      in (if app \<and> fmo_buf c \<noteq> [] then c1\<lparr>fmo_eof := i, fmo_pos := i\<rparr> else c1)\<lparr>fmo_append := app\<rparr>)"

text \<open>\<open>memc\<close> and \<open>mem\<close> say if there is memory for the cookie and the stream, \<open>balloc\<close> is the allocation of the block, \<open>s\<close> the block of the caller
  when it gives one. Without memory for the cookie and without a block, the code reads through the null pointer: the result is \<open>None\<close>.\<close>

definition fmemopen :: "bool \<Rightarrow> bool \<Rightarrow> (nat \<Rightarrow> byte list option) \<Rightarrow> (nat \<Rightarrow> byte list option) \<Rightarrow> nat \<Rightarrow> byte list option \<Rightarrow> nat \<Rightarrow> byte list
    \<Rightarrow> (nat + fmo_cookie FILE) option" where
  "fmemopen memc mem balloc alloc e s len modes =
     (if \<not> memc then (if s = None then None else Some (Inl ENOMEM))
      else
        (let block = (case s of
                 Some b \<Rightarrow> Some (take len b, False)
               | None \<Rightarrow> if len > 0 then map_option (\<lambda>b. ((take len b)[0 := 0], True)) (balloc len) else Some ([], False))
         in (case block of
               None \<Rightarrow> Some (Inl ENOMEM)
             | Some (b, dyn) \<Rightarrow>
                 (case fopencookie mem alloc e \<lparr>fmo_pos = 0, fmo_eof = 0, fmo_dynbuf = dyn, fmo_buf = b, fmo_append = False\<rparr> modes of
                    Inl n \<Rightarrow> Some (Inl n)
                  | Inr fp \<Rightarrow> Some (Inr (fp\<lparr>cookie := fmo_opened (f_readonly fp) (f_append fp) (cookie fp)\<rparr>))))))"

section \<open>A block that grows\<close>

record oms_cookie =
  oms_buf :: "byte list"
  oms_pos :: nat
  oms_eof :: nat
  oms_size :: nat

definition realloc_block :: "(nat \<Rightarrow> bool) \<Rightarrow> (nat \<Rightarrow> byte) \<Rightarrow> byte list \<Rightarrow> nat \<Rightarrow> byte list option" where
  "realloc_block mem junk b n = (if mem n then Some (take n b @ map junk [length b..<n]) else None)"

definition oms_put :: "byte list \<Rightarrow> oms_cookie \<Rightarrow> oms_cookie" where
  "oms_put d c =
     (let c1 = c\<lparr>oms_buf := put_bytes (oms_pos c) d (oms_buf c), oms_pos := oms_pos c + length d\<rparr>
      in if oms_pos c1 > oms_eof c1 then
           c1\<lparr>oms_eof := oms_pos c1, oms_size := oms_pos c1, oms_buf := (oms_buf c1)[oms_pos c1 := 0]\<rparr>
         else c1)"

definition oms_write :: "(nat \<Rightarrow> bool) \<Rightarrow> (nat \<Rightarrow> byte) \<Rightarrow> oms_cookie \<Rightarrow> byte list \<Rightarrow> nat io_result \<times> oms_cookie" where
  "oms_write mem junk c d =
     (let count = length (oms_buf c) - oms_pos c - 1
      in if length d > count then
           (case realloc_block mem junk (oms_buf c) (length (oms_buf c) + length d - count) of
              Some b \<Rightarrow> (Inr (length d), oms_put d (c\<lparr>oms_buf := b\<rparr>))
            | None \<Rightarrow> if count = 0 then (Inl (Some EFBIG), c) else (Inr count, oms_put (take count d) c))
         else (Inr (length d), oms_put d c))"

text \<open>\<open>memset\<close> with zeros from \<open>eof\<close> up to \<open>n\<close>.\<close>

definition zero_fill :: "nat \<Rightarrow> nat \<Rightarrow> byte list \<Rightarrow> byte list" where
  "zero_fill p n b = put_bytes p (replicate (n - p) 0) b"

definition oms_seek :: "(nat \<Rightarrow> bool) \<Rightarrow> (nat \<Rightarrow> byte) \<Rightarrow> oms_cookie \<Rightarrow> int \<Rightarrow> int \<Rightarrow> int io_result \<times> oms_cookie" where
  "oms_seek mem junk c pos whence =
     (let p = (if whence \<noteq> SEEK_SET then wrap64 (pos + (if whence = SEEK_CUR then int (oms_pos c) else int (oms_eof c))) else pos)
      in if as_uintmax p \<ge> int SIZE_T_MAX - 1 then (Inl None, c)
         else
           (let leastlen = nat p + 1;
                grown = (if leastlen \<ge> length (oms_buf c) then
                    map_option (\<lambda>b. c\<lparr>oms_buf := zero_fill (oms_eof c) leastlen b\<rparr>) (realloc_block mem junk (oms_buf c) leastlen)
                  else Some c)
            in (case grown of
                  None \<Rightarrow> (Inl None, c)
                | Some c1 \<Rightarrow>
                    (let c2 = c1\<lparr>oms_pos := nat p\<rparr>
                     in (Inr p,
                         if nat p > oms_eof c2 then c2\<lparr>oms_buf := zero_fill (oms_eof c2) (nat p) (oms_buf c2), oms_size := oms_eof c2\<rparr> else c2)))))"

definition oms_close :: "oms_cookie \<Rightarrow> unit io_result \<times> oms_cookie" where
  "oms_close c = (Inr (), c)"

definition oms_io :: "(nat \<Rightarrow> bool) \<Rightarrow> (nat \<Rightarrow> byte) \<Rightarrow> oms_cookie cookie_io" where
  "oms_io mem junk =
     \<lparr>io_read = None, io_write = Some (oms_write mem junk), io_seek = Some (oms_seek mem junk), io_close = Some oms_close, flush_others = (\<lambda>c. c)\<rparr>"

text \<open>As in \<open>fmemopen\<close>; the mode is the string \<open>w\<close>. Without memory for the cookie the code reads through the null pointer.\<close>

definition open_memstream :: "bool \<Rightarrow> bool \<Rightarrow> (nat \<Rightarrow> byte list option) \<Rightarrow> (nat \<Rightarrow> byte list option) \<Rightarrow> nat \<Rightarrow> (nat + oms_cookie FILE) option" where
  "open_memstream memc mem balloc alloc e =
     (if \<not> memc then None
      else (case balloc BUFSIZ of
              None \<Rightarrow> Some (Inl ENOMEM)
            | Some b \<Rightarrow> Some (fopencookie mem alloc e \<lparr>oms_buf = b[0 := 0], oms_pos = 0, oms_eof = 0, oms_size = 0\<rparr> [0x77])))"

end
