(* ===== verification/Memstream_Proofs.thy ===== *)
theory Memstream_Proofs
  imports Stdio_Input Memstream
begin

text \<open>
  The streams on memory keep the contracts that the theorems on streams rest on: the functions of \<open>fmemopen\<close> and \<open>open_memstream\<close> interpret the
  locales of writers and seekers, and a block that is all data is a file. A stream of \<open>open_memstream\<close> collects what is
  written to it.
\<close>

section \<open>Streams on memory\<close>

lemma length_put_bytes: "p + length d \<le> length b \<Longrightarrow> length (put_bytes p d b) = length b"
  by (simp add: put_bytes_def)

text \<open>The copy into the block is the write to the file that it holds.\<close>

lemma put_overwrite:
  assumes "p + length d \<le> length b" "e \<le> length b" "d \<noteq> []" "take p b = take p (take e b @ replicate (p - e) 0)"
  shows "take (max e (p + length d)) (put_bytes p d b) = overwrite p d (take e b)"
proof -
  have "take (max e (p + length d)) (put_bytes p d b) = take p b @ d @ take (max e (p + length d) - (p + length d)) (drop (p + length d) b)"
    using assms(1) by (cases "e \<le> p + length d") (simp_all add: put_bytes_def max_def)
  also have "take (max e (p + length d) - (p + length d)) (drop (p + length d) b) = drop (p + length d) (take e b)"
    by (simp add: drop_take max_def)
  finally show ?thesis using assms by (simp add: overwrite_def min_absorb2)
qed

definition fmo_data :: "fmo_cookie \<Rightarrow> byte list" where
  "fmo_data c = take (fmo_eof c) (fmo_buf c)"

definition fmo_ok :: "bool \<Rightarrow> fmo_cookie \<Rightarrow> bool" where
  "fmo_ok app c \<longleftrightarrow> fmo_append c = app \<and> fmo_pos c \<le> fmo_eof c \<and> fmo_eof c \<le> length (fmo_buf c) \<and> length (fmo_buf c) \<le> SIZE_T_MAX"

text \<open>A block that is all data, as for a stream that only reads.\<close>

definition fmo_full :: "bool \<Rightarrow> fmo_cookie \<Rightarrow> bool" where
  "fmo_full app c \<longleftrightarrow> fmo_ok app c \<and> fmo_eof c = length (fmo_buf c)"

lemma fmo_write_law:
  assumes "fmo_ok app c" "d \<noteq> []"
  shows "write_law app (fmo_ok app) fmo_data fmo_pos c d (fmo_write c d)" "fmo_full app c \<Longrightarrow> fmo_full app (snd (fmo_write c d))"
proof -
  define c1 where "c1 = (if fmo_append c then c\<lparr>fmo_pos := fmo_eof c\<rparr> else c)"
  have c1: "fmo_ok app c1" "fmo_buf c1 = fmo_buf c" "fmo_eof c1 = fmo_eof c" "fmo_pos c1 = wpos app fmo_data fmo_pos c" "fmo_data c1 = fmo_data c"
    "wpos app fmo_data fmo_pos c1 = wpos app fmo_data fmo_pos c"
    using assms(1) by (auto simp: c1_def fmo_ok_def wpos_def fmo_data_def)
  define n where "n = min (length d) (length (fmo_buf c) - fmo_pos c1)"
  let ?b = "put_bytes (fmo_pos c1) (take n d) (fmo_buf c)"
  let ?e = "max (fmo_eof c) (fmo_pos c1 + n)"
  have p: "fmo_pos c1 \<le> fmo_eof c" "fmo_eof c \<le> length (fmo_buf c)" "length (take n d) = n" "fmo_pos c1 + n \<le> length (fmo_buf c)"
    using c1(1-3) by (auto simp: fmo_ok_def n_def)
  let ?b' = "if fmo_pos c1 + n > fmo_eof c \<and> n < length (fmo_buf c) - fmo_pos c1 then ?b[fmo_pos c1 + n := 0] else ?b"
  have f: "fmo_write c d = (Inl (Some EFBIG), c1)" if "n = 0"
  proof -
    have "length d > length (fmo_buf c1) - fmo_pos c1 \<and> length (fmo_buf c1) - fmo_pos c1 = 0"
      using that assms(2) c1(2) by (cases d) (auto simp: n_def min_def split: if_splits)
    then show ?thesis using assms(2) by (simp add: fmo_write_def c1_def [symmetric] Let_def)
  qed
  have w: "fmo_write c d = (Inr n, c1\<lparr>fmo_buf := ?b', fmo_pos := fmo_pos c1 + n, fmo_eof := ?e\<rparr>)" if "n \<noteq> 0"
  proof -
    have n: "(if length d > length (fmo_buf c) - fmo_pos c1 then length (fmo_buf c) - fmo_pos c1 else length d) = n" by (simp add: n_def)
    have nz: "\<not> (length d > length (fmo_buf c) - fmo_pos c1 \<and> length (fmo_buf c) - fmo_pos c1 = 0)" using that by (simp add: n_def)
    show ?thesis unfolding fmo_write_def c1_def [symmetric] Let_def c1(2) if_not_P [OF nz] n by (simp add: c1(2,3) max_def)
  qed
  have b': "take ?e ?b' = take ?e ?b" "length ?b' = length (fmo_buf c)"
    using p length_put_bytes [of "fmo_pos c1" "take n d" "fmo_buf c"] by (simp_all add: max_def)
  have b: "take ?e ?b = overwrite (fmo_pos c1) (take n d) (fmo_data c)" if "n \<noteq> 0"
    using put_overwrite [of "fmo_pos c1" "take n d" "fmo_buf c" "fmo_eof c"] p that assms(2) by (simp add: fmo_data_def min_absorb1)
  show "write_law app (fmo_ok app) fmo_data fmo_pos c d (fmo_write c d)"
  proof (cases "n = 0")
    case True
    then show ?thesis unfolding f [OF True] using c1 by (simp add: write_law_def)
  next
    case False
    have "n \<le> length d" by (simp add: n_def)
    then show ?thesis
      unfolding w [OF False] write_law_def using b [OF False] b' c1(1,2,4) p False by (simp add: fmo_data_def fmo_ok_def)
  qed
  show "fmo_full app (snd (fmo_write c d))" if "fmo_full app c"
  proof (cases "n = 0")
    case True
    then show ?thesis unfolding f [OF True] using c1(1-3) that by (simp add: fmo_full_def)
  next
    case False
    have "fmo_eof c = length (fmo_buf c)" using that by (simp add: fmo_full_def)
    then show ?thesis unfolding w [OF False] using c1(1,2) b'(2) p by (simp add: fmo_full_def fmo_ok_def)
  qed
qed

lemma as_uintmax_le:
  assumes "- (2 ^ 63) \<le> p" "p < 2 ^ 63" "m < 2 ^ 63"
  shows "as_uintmax p > m \<longleftrightarrow> \<not> (0 \<le> p \<and> p \<le> m)" 
proof (cases "0 \<le> p")
  case True
  then show ?thesis using assms by (auto simp: as_uintmax_def)
next
  case False
  have "as_uintmax p = p + 2 ^ 64" using False assms(1) using mod_add_self2 [of p "2 ^ 64"] mod_pos_pos_trivial [of "p + 2 ^ 64" "2 ^ 64"] by (simp add: as_uintmax_def)
  then show ?thesis using False assms by auto
qed

lemma wrap64_off64: "off64 (wrap64 x)"
  by (simp add: off64_def wrap64_def)

text \<open>Within the range of sizes, the sum that may wrap around and the comparison as unsigned numbers find the target or reject it.\<close>

lemma wrap64_over:
  assumes "2 ^ 63 \<le> x" "x < 2 ^ 63 + 2 ^ 63"
  shows "wrap64 x < 0"
proof -
  have "(x + 2 ^ 63) mod 2 ^ 64 = (x + 2 ^ 63 - 2 ^ 64) mod 2 ^ 64" by (rule minus_mod_self2 [symmetric])
  also have "\<dots> = x + 2 ^ 63 - 2 ^ 64" using assms by (intro mod_pos_pos_trivial) simp_all
  finally show ?thesis using assms(2) by (simp add: wrap64_def)
qed

lemma seek_sum:
  assumes "off64 p" "0 \<le> q" "q \<le> int SIZE_T_MAX" "m \<le> int SIZE_T_MAX"
  shows "as_uintmax (wrap64 (p + q)) > m \<longleftrightarrow> \<not> (0 \<le> p + q \<and> p + q \<le> m)" "0 \<le> p + q \<Longrightarrow> p + q \<le> m \<Longrightarrow> wrap64 (p + q) = p + q"
proof -
  have w: "wrap64 (p + q) = p + q" if "p + q < 2 ^ 63" using that assms(1,2) by (intro wrap64_id) (simp add: off64_def)
  have v: "wrap64 (p + q) < 0" if "2 ^ 63 \<le> p + q"
    using that assms(1,3) by (intro wrap64_over) (simp_all add: off64_def SIZE_T_MAX_def)
  have m: "m < 2 ^ 63" using assms(4) by (simp add: SIZE_T_MAX_def)
  have r: "- (2 ^ 63) \<le> wrap64 (p + q)" "wrap64 (p + q) < 2 ^ 63" using wrap64_off64 [of "p + q"] by (simp_all only: off64_def)
  have e: "0 \<le> wrap64 (p + q) \<and> wrap64 (p + q) \<le> m \<longleftrightarrow> 0 \<le> p + q \<and> p + q \<le> m"
  proof (cases "p + q < 2 ^ 63")
    case True
    show ?thesis unfolding w [OF True] by (rule refl)
  next
    case False
    then show ?thesis using v m by simp
  qed
  show "as_uintmax (wrap64 (p + q)) > m \<longleftrightarrow> \<not> (0 \<le> p + q \<and> p + q \<le> m)"
    using as_uintmax_le [OF r m] e by blast
  show "0 \<le> p + q \<Longrightarrow> p + q \<le> m \<Longrightarrow> wrap64 (p + q) = p + q" using w m by simp
qed

lemma fmo_seek_law:
  assumes "fmo_ok app c" "off64 p" "w \<in> {SEEK_SET, SEEK_CUR, SEEK_END}"
  shows "seek_law (fmo_ok app) fmo_data fmo_pos c p w (fmo_seek c p w)"
proof -
  define q where "q = (if w = SEEK_SET then 0 else if w = SEEK_CUR then int (fmo_pos c) else int (fmo_eof c))"
  have b: "fmo_pos c \<le> fmo_eof c" "fmo_eof c \<le> length (fmo_buf c)" "int (fmo_eof c) \<le> int SIZE_T_MAX" using assms(1) by (auto simp: fmo_ok_def)
  then have q: "0 \<le> q" "q \<le> int SIZE_T_MAX" by (auto simp: q_def)
  have t: "seek_target fmo_data fmo_pos c p w = p + q" using b(2) by (simp add: seek_target_def q_def fmo_data_def)
  have f: "fmo_seek c p w = (if as_uintmax (wrap64 (p + q)) > int (fmo_eof c) then (Inl None, c)
      else (Inr (wrap64 (p + q)), c\<lparr>fmo_pos := nat (wrap64 (p + q))\<rparr>))"
    using wrap64_id [OF assms(2)] by (simp add: fmo_seek_def q_def Let_def)
  show ?thesis
    using seek_sum [OF assms(2) q b(3)] assms(1) b(2) unfolding f seek_law_def t
    by (auto simp: fmo_data_def fmo_ok_def)
qed

lemma fmo_read_law:
  assumes "fmo_full app c" "0 < n"
  shows "read_law (fmo_full app) fmo_data fmo_pos c n (fmo_read c n)"
  using assms by (auto simp: read_law_def fmo_read_def fmo_full_def fmo_ok_def fmo_data_def Let_def)

interpretation fmo_writer: cookie_writer fmo_io app "fmo_ok app" fmo_data fmo_pos for app
  by unfold_locales (simp add: fmo_io_def fmo_write_law(1))

interpretation fmo_seeker: cookie_seeker fmo_io "fmo_ok app" fmo_data fmo_pos for app
  by unfold_locales (use fmo_seek_law in \<open>simp add: fmo_io_def\<close>)

text \<open>A block that is all data is a file to read, write and seek in.\<close>

lemma write_law_strengthen:
  assumes "write_law app ok fdata fpos c d r" "ok' (snd r)"
  shows "write_law app ok' fdata fpos c d r"
  using assms by (simp add: write_law_def)

lemma seek_law_strengthen:
  assumes "seek_law ok fdata fpos c p w r" "ok' (snd r)"
  shows "seek_law ok' fdata fpos c p w r"
  using assms by (simp add: seek_law_def)

lemma fmo_seek_full:
  assumes "fmo_full app c" "off64 p" "w \<in> {SEEK_SET, SEEK_CUR, SEEK_END}"
  shows "fmo_full app (snd (fmo_seek c p w))"
proof -
  have "fmo_eof (snd (fmo_seek c p w)) = fmo_eof c \<and> fmo_buf (snd (fmo_seek c p w)) = fmo_buf c"
    by (simp add: fmo_seek_def Let_def)
  then show ?thesis using fmo_seek_law [of app c p w] assms by (simp add: fmo_full_def seek_law_def)
qed

lemma fmo_full_laws:
  assumes "fmo_full app c"
  shows "d \<noteq> [] \<Longrightarrow> write_law app (fmo_full app) fmo_data fmo_pos c d (fmo_write c d)"
    and "off64 p \<Longrightarrow> w \<in> {SEEK_SET, SEEK_CUR, SEEK_END} \<Longrightarrow> seek_law (fmo_full app) fmo_data fmo_pos c p w (fmo_seek c p w)"
proof -
  have ok: "fmo_ok app c" using assms by (simp add: fmo_full_def)
  show "write_law app (fmo_full app) fmo_data fmo_pos c d (fmo_write c d)" if "d \<noteq> []"
    by (rule write_law_strengthen [where ok' = "fmo_full app", OF fmo_write_law(1) [OF ok that] fmo_write_law(2) [OF ok that assms]])
  show "seek_law (fmo_full app) fmo_data fmo_pos c p w (fmo_seek c p w)" if "off64 p" "w \<in> {SEEK_SET, SEEK_CUR, SEEK_END}"
    by (rule seek_law_strengthen [where ok' = "fmo_full app", OF fmo_seek_law [OF ok that] fmo_seek_full [OF assms that]])
qed

interpretation fmo_file: cookie_file fmo_io app "fmo_full app" fmo_data fmo_pos for app
  by (unfold_locales; unfold fmo_io_def) (simp_all add: fmo_full_laws fmo_read_law)

text \<open>The block of \<open>open_memstream\<close>: the data ends with a zero, a gap before the position is filled with zeros, and the size that
  the program sees is that of the data.\<close>

definition oms_data :: "oms_cookie \<Rightarrow> byte list" where
  "oms_data c = take (oms_eof c) (oms_buf c)"

definition oms_ok :: "oms_cookie \<Rightarrow> bool" where
  "oms_ok c \<longleftrightarrow> oms_pos c < length (oms_buf c) \<and> oms_eof c < length (oms_buf c) \<and> oms_size c = oms_eof c \<and> oms_buf c ! oms_eof c = 0 \<and>
     take (oms_pos c) (oms_buf c) = take (oms_pos c) (oms_data c @ replicate (oms_pos c - oms_eof c) 0)"

lemma nth_put_bytes: "p + length d \<le> i \<Longrightarrow> i < length b \<Longrightarrow> put_bytes p d b ! i = b ! i"
  by (auto simp: put_bytes_def nth_append)

lemma oms_put_ok:
  assumes "oms_ok c" "oms_pos c + length d < length (oms_buf c)" "d \<noteq> []"
  shows "oms_ok (oms_put d c)" "oms_data (oms_put d c) = overwrite (oms_pos c) d (oms_data c)" "oms_pos (oms_put d c) = oms_pos c + length d"
proof -
  let ?b = "put_bytes (oms_pos c) d (oms_buf c)" and ?p = "oms_pos c + length d"
  let ?e = "max (oms_eof c) ?p"
  let ?b' = "if ?p > oms_eof c then ?b[?p := 0] else ?b"
  have p: "oms_put d c = c\<lparr>oms_buf := ?b', oms_pos := ?p, oms_eof := ?e, oms_size := ?e\<rparr>"
    using assms(1) by (simp add: oms_put_def Let_def max_def oms_ok_def)
  have l: "length ?b = length (oms_buf c)" using assms(2) by (simp add: length_put_bytes)
  have t: "take ?e ?b' = overwrite (oms_pos c) d (oms_data c)"
  proof -
    have "take ?e ?b' = take ?e ?b" by (simp add: max_def)
    also have "\<dots> = overwrite (oms_pos c) d (take (oms_eof c) (oms_buf c))"
      using assms by (intro put_overwrite) (simp_all add: oms_ok_def oms_data_def)
    finally show ?thesis by (simp add: oms_data_def)
  qed
  have z: "?b' ! ?e = 0"
  proof (cases "?p > oms_eof c")
    case True
    then show ?thesis using l assms(2) by (simp add: max_def)
  next
    case False
    then show ?thesis using assms(1) nth_put_bytes [of "oms_pos c" d "oms_eof c" "oms_buf c"] by (simp add: max_def oms_ok_def)
  qed
  show "oms_data (oms_put d c) = overwrite (oms_pos c) d (oms_data c)" unfolding p using t by (simp add: oms_data_def)
  show "oms_pos (oms_put d c) = ?p" unfolding p by simp
  have "?p < length ?b'" "?e < length ?b'" "take ?p ?b' = take ?p (take ?e ?b')" using l assms(1,2) by (auto simp: oms_ok_def min_absorb1)
  then show "oms_ok (oms_put d c)" unfolding p oms_ok_def oms_data_def using z by simp
qed

text \<open>A block that grows keeps its data.\<close>

lemma oms_grow:
  assumes "oms_ok c" "length (oms_buf c) \<le> n" "realloc_block mem junk (oms_buf c) n = Some b"
  shows "oms_ok (c\<lparr>oms_buf := b\<rparr>)" "oms_data (c\<lparr>oms_buf := b\<rparr>) = oms_data c" "length b = n"
proof -
  have b: "b = oms_buf c @ map junk [length (oms_buf c)..<n]" using assms(2,3) by (simp add: realloc_block_def split: if_splits)
  show d: "oms_data (c\<lparr>oms_buf := b\<rparr>) = oms_data c" using assms(1) b by (simp add: oms_data_def oms_ok_def)
  show "length b = n" using b assms(2) by simp
  show "oms_ok (c\<lparr>oms_buf := b\<rparr>)" using assms(1) d b unfolding oms_ok_def by (simp add: nth_append)
qed

lemma oms_write_law:
  assumes "oms_ok c" "d \<noteq> []"
  shows "write_law False oms_ok oms_data oms_pos c d (oms_write mem junk c d)"
proof -
  define count where "count = length (oms_buf c) - oms_pos c - 1"
  have p: "oms_pos c < length (oms_buf c)" using assms(1) by (simp add: oms_ok_def)
  have put: "write_law False oms_ok oms_data oms_pos c d (Inr n, oms_put (take n d) c1)"
    if "oms_ok c1" "oms_data c1 = oms_data c" "oms_pos c1 = oms_pos c" "oms_pos c + n < length (oms_buf c1)" "0 < n" "n \<le> length d" for c1 n
    using oms_put_ok [of c1 "take n d"] that assms(2) by (simp add: write_law_def wpos_def min_absorb2)
  have w: "oms_write mem junk c d =
      (if length d > count then
         (case realloc_block mem junk (oms_buf c) (length (oms_buf c) + length d - count) of
            Some b \<Rightarrow> (Inr (length d), oms_put d (c\<lparr>oms_buf := b\<rparr>))
          | None \<Rightarrow> if count = 0 then (Inl (Some EFBIG), c) else (Inr count, oms_put (take count d) c))
       else (Inr (length d), oms_put d c))"
    unfolding oms_write_def count_def Let_def by (rule refl)
  show ?thesis
  proof (cases "length d > count")
    case False
    then show ?thesis unfolding w using put [OF assms(1), of "length d"] p assms(2) by (simp add: count_def)
  next
    case big: True
    show ?thesis
    proof (cases "realloc_block mem junk (oms_buf c) (length (oms_buf c) + length d - count)")
      case None
      have "write_law False oms_ok oms_data oms_pos c d (Inr count, oms_put (take count d) c)" if "count \<noteq> 0"
        using put [OF assms(1), of count] p big that by (simp add: count_def)
      moreover have "write_law False oms_ok oms_data oms_pos c d (Inl (Some EFBIG), c)" using assms(1) by (simp add: write_law_def)
      ultimately show ?thesis unfolding w using None big by simp
    next
      case (Some b)
      note g = oms_grow [OF assms(1) _ Some]
      have "oms_pos c + length d < length b" using g(3) big p by (simp add: count_def)
      then show ?thesis unfolding w using put [of "c\<lparr>oms_buf := b\<rparr>" "length d"] g big Some assms(2) by simp
    qed
  qed
qed

interpretation oms_writer: cookie_writer "oms_io mem junk" False oms_ok oms_data oms_pos for mem junk
  by unfold_locales (simp add: oms_io_def oms_write_law)

lemma oms_no_errors: "no_errors (oms_io (\<lambda>_. True) junk)"
  by (simp add: no_errors_def oms_io_def oms_write_def realloc_block_def Let_def)

lemma zero_fill_simps:
  assumes "e \<le> length b" "n \<le> length b"
  shows "length (zero_fill e n b) = length b" "take e (zero_fill e n b) = take e b"
    and "e \<le> n \<Longrightarrow> take n (zero_fill e n b) = take e b @ replicate (n - e) 0" "e < n \<Longrightarrow> zero_fill e n b ! e = 0"
proof -
  show l: "length (zero_fill e n b) = length b" using assms by (cases "e \<le> n") (simp_all add: zero_fill_def put_bytes_def)
  show "take e (zero_fill e n b) = take e b" using assms(1) by (simp add: zero_fill_def put_bytes_def)
  show t: "take n (zero_fill e n b) = take e b @ replicate (n - e) 0" if "e \<le> n"
    using assms(1) that by (simp add: zero_fill_def put_bytes_def)
  show "zero_fill e n b ! e = 0" if "e < n"
    using assms(1) that by (simp add: zero_fill_def put_bytes_def nth_append)
qed

lemma oms_at:
  assumes "oms_eof c < length (oms_buf c)" "t < length (oms_buf c)" "oms_buf c ! oms_eof c = 0" "oms_size c = oms_eof c"
  defines "c2 \<equiv> (if t > oms_eof c then c\<lparr>oms_pos := t, oms_buf := zero_fill (oms_eof c) t (oms_buf c), oms_size := oms_eof c\<rparr>
    else c\<lparr>oms_pos := t\<rparr>)"
  shows "oms_ok c2" "oms_data c2 = oms_data c" "oms_pos c2 = t"
proof -
  note z = zero_fill_simps [of "oms_eof c" "oms_buf c" t]
  show d: "oms_data c2 = oms_data c" using assms(1,2) z(2) by (simp add: c2_def oms_data_def)
  show "oms_pos c2 = t" by (simp add: c2_def)
  show "oms_ok c2"
  proof (cases "t > oms_eof c")
    case True
    then show ?thesis using assms(1-4) z d by (simp add: oms_ok_def c2_def oms_data_def)
  next
    case False
    then show ?thesis using assms(1-4) by (simp add: oms_ok_def c2_def oms_data_def min_absorb1)
  qed
qed

text \<open>Positions are found as long as there is memory.\<close>

definition oms_small :: "oms_cookie \<Rightarrow> bool" where
  "oms_small c \<longleftrightarrow> oms_ok c \<and> oms_eof c < SIZE_T_MAX - 1 \<and> oms_pos c < SIZE_T_MAX - 1"

lemma oms_seek_law:
  assumes "oms_small c" "off64 p" "w \<in> {SEEK_SET, SEEK_CUR, SEEK_END}"
  shows "seek_law oms_small oms_data oms_pos c p w (oms_seek (\<lambda>_. True) junk c p w)"
proof -
  define q where "q = (if w = SEEK_SET then 0 else if w = SEEK_CUR then int (oms_pos c) else int (oms_eof c))"
  define t where "t = nat (p + q)"
  have ok: "oms_ok c" and b: "oms_eof c < length (oms_buf c)" "oms_eof c < SIZE_T_MAX - 1" "oms_pos c < SIZE_T_MAX - 1"
    "oms_buf c ! oms_eof c = 0" "oms_size c = oms_eof c"
    using assms(1) by (auto simp: oms_small_def oms_ok_def)
  have q: "0 \<le> q" "q \<le> int SIZE_T_MAX" using b(2,3) by (auto simp: q_def)
  have m: "int SIZE_T_MAX - 2 \<le> int SIZE_T_MAX" by simp
  have tg: "seek_target oms_data oms_pos c p w = p + q" using b(1) by (simp add: seek_target_def q_def oms_data_def)
  have pw: "(if w \<noteq> SEEK_SET then wrap64 (p + (if w = SEEK_CUR then int (oms_pos c) else int (oms_eof c))) else p) = wrap64 (p + q)"
    using wrap64_id [OF assms(2)] by (simp add: q_def)
  show ?thesis
  proof (cases "0 \<le> p + q \<and> p + q \<le> int SIZE_T_MAX - 2")
    case False
    then have "as_uintmax (wrap64 (p + q)) > int SIZE_T_MAX - 2" using seek_sum(1) [OF assms(2) q m] by blast
    then have "oms_seek (\<lambda>_. True) junk c p w = (Inl None, c)" by (simp add: oms_seek_def pw)
    moreover have "int (length (oms_data c)) \<le> int SIZE_T_MAX - 2" using b(1,2) by (simp add: oms_data_def SIZE_T_MAX_def)
    then have "\<not> (0 \<le> p + q \<and> p + q \<le> int (length (oms_data c)))" using False by auto
    ultimately show ?thesis using assms(1) by (simp add: seek_law_def tg)
  next
    case True
    then have x: "wrap64 (p + q) = p + q" "\<not> as_uintmax (wrap64 (p + q)) \<ge> int SIZE_T_MAX - 1" using seek_sum [OF assms(2) q m] by auto
    have t: "p + q = int t" "t < SIZE_T_MAX - 1" using True by (auto simp: t_def)
    define c1 where "c1 = (if t + 1 \<ge> length (oms_buf c)
        then c\<lparr>oms_buf := zero_fill (oms_eof c) (t + 1) (oms_buf c @ map junk [length (oms_buf c)..<t + 1])\<rparr> else c)"
    define c2 where "c2 = (if t > oms_eof c1
        then c1\<lparr>oms_pos := t, oms_buf := zero_fill (oms_eof c1) t (oms_buf c1), oms_size := oms_eof c1\<rparr> else c1\<lparr>oms_pos := t\<rparr>)"
    have e: "oms_seek (\<lambda>_. True) junk c p w = (Inr (int t), c2)"
      using x t by (simp add: oms_seek_def pw c1_def c2_def realloc_block_def Let_def)
    have c1: "oms_eof c1 = oms_eof c" "oms_size c1 = oms_eof c" "oms_eof c < length (oms_buf c1)" "t < length (oms_buf c1)"
      "oms_buf c1 ! oms_eof c = 0" "oms_data c1 = oms_data c"
      using b zero_fill_simps [of "oms_eof c" "oms_buf c @ map junk [length (oms_buf c)..<t + 1]" "t + 1"]
      by (auto simp: c1_def oms_data_def)
    have "oms_ok c2" "oms_data c2 = oms_data c" "oms_pos c2 = t" "oms_eof c2 = oms_eof c"
      using oms_at [of c1 t, folded c2_def] c1 by (simp_all add: c2_def)
    then show ?thesis using b t by (simp add: seek_law_def e tg oms_small_def)
  qed
qed

interpretation oms_seeker: cookie_seeker "oms_io (\<lambda>_. True) junk" oms_small oms_data oms_pos for junk
  by unfold_locales (use oms_seek_law in \<open>simp add: oms_io_def\<close>)

section \<open>Streams on memory, opened and used\<close>

text \<open>A sequence of \<open>fputs\<close>; the result says if all of them have succeeded.\<close>

primrec fputs_all :: "'c cookie_io \<Rightarrow> byte list list \<Rightarrow> 'c FILE \<Rightarrow> (bool \<times> 'c FILE) option" where
  "fputs_all io [] s = Some (True, s)"
| "fputs_all io (d # ds) s = do { (r, s1) \<leftarrow> fputs_unlocked io d s; (okay, s2) \<leftarrow> fputs_all io ds s1; Some (r \<noteq> EOF \<and> okay, s2) }"

lemma fputs_effect:
  assumes "cookie_writer io app ok fdata fpos" "can_write s" "ok (cookie s)" "no_errors io" "length d \<le> SIZE_T_MAX"
  shows "\<exists>s'. fputs_unlocked io d s = Some (int (length d), s') \<and>
    stream_view app fdata fpos s' = overwrite (stream_wpos app fdata fpos s) d (stream_view app fdata fpos s) \<and>
    stream_wpos app fdata fpos s' = stream_wpos app fdata fpos s + length d \<and> can_write s' \<and> ok (cookie s')"
proof (cases "d = []")
  case True
  obtain s1 where t: "(if IS_NARROW_WRITING s then Some (True, s) else stdio_trans2w io s) = Some (True, s1)" "can_write s1"
      "cookie s1 = cookie s" "bufpos s1 = bufpos s" "bufdata s1 = bufdata s"
    using writing_start [OF assms(2), of io] by blast
  have "fputs_unlocked io d s = Some (0, s1)" using t(1) True by (simp add: fputs_unlocked_def fwrite_unlocked_def)
  then show ?thesis using t(2-5) assms(3) True by (simp add: stream_view_def stream_wpos_def)
next
  case False
  then obtain s' where "fwrite_unlocked io d 1 (length d) s = Some (length d, s')"
      "stream_view app fdata fpos s' = overwrite (stream_wpos app fdata fpos s) d (stream_view app fdata fpos s)"
      "stream_wpos app fdata fpos s' = stream_wpos app fdata fpos s + length d" "can_write s'" "ok (cookie s')"
    using fwrite_effect [OF assms(1-3), of 1 "length d" d] assms(4,5) by (auto simp: reliable_def)
  then show ?thesis by (simp add: fputs_unlocked_def)
qed

lemma fputs_all_effect:
  assumes "cookie_writer io app ok fdata fpos" "can_write s" "ok (cookie s)" "no_errors io" "\<forall>d \<in> set ds. length d \<le> SIZE_T_MAX"
    and "stream_wpos app fdata fpos s = length (stream_view app fdata fpos s)"
  shows "\<exists>s'. fputs_all io ds s = Some (True, s') \<and> stream_view app fdata fpos s' = stream_view app fdata fpos s @ concat ds \<and>
    can_write s' \<and> ok (cookie s')"
  using assms(2,3,5,6)
proof (induction ds arbitrary: s)
  case (Cons d ds)
  obtain s1 where p: "fputs_unlocked io d s = Some (int (length d), s1)" "can_write s1" "ok (cookie s1)"
      "stream_view app fdata fpos s1 = overwrite (stream_wpos app fdata fpos s) d (stream_view app fdata fpos s)"
      "stream_wpos app fdata fpos s1 = stream_wpos app fdata fpos s + length d"
    using fputs_effect [OF assms(1) Cons.prems(1,2) assms(4), of d] Cons.prems(3) by auto
  have v: "stream_view app fdata fpos s1 = stream_view app fdata fpos s @ d" using p(4) Cons.prems(4) by (simp add: overwrite_end)
  obtain s' where "fputs_all io ds s1 = Some (True, s')" "stream_view app fdata fpos s' = stream_view app fdata fpos s1 @ concat ds"
      "can_write s'" "ok (cookie s')"
    using Cons.IH [OF p(2,3)] Cons.prems(3,4) p(5) v by auto
  then show ?case using p(1) v by (simp add: EOF_def)
qed simp

lemma open_memstream_stream:
  assumes "open_memstream memc mem balloc alloc e = Some (Inr s)" "\<And>b. balloc BUFSIZ = Some b \<Longrightarrow> length b = BUFSIZ"
  shows "can_write s" "oms_ok (cookie s)" "stream_view False oms_data oms_pos s = []" "stream_wpos False oms_data oms_pos s = 0"
proof -
  obtain b where b: "balloc BUFSIZ = Some b" "length b = BUFSIZ"
      "fopencookie mem alloc e \<lparr>oms_buf = b[0 := 0], oms_pos = 0, oms_eof = 0, oms_size = 0\<rparr> [0x77] = Inr s"
    using assms by (auto simp: open_memstream_def split: if_splits option.splits)
  have s: "f_reading s = 0" "\<not> f_readonly s" "\<not> f_wide s" "filedes s = - 1" "bufpos s = 0"
    "cookie s = \<lparr>oms_buf = b[0 := 0], oms_pos = 0, oms_eof = 0, oms_size = 0\<rparr>"
    using b(3) by (auto simp: fopencookie_eq fopen_mode_def Let_def split: if_splits)
  show "can_write s" using s fopencookie_ok [OF b(3)] by (simp add: can_write_def)
  show "oms_ok (cookie s)" using s(6) b(2) by (simp add: oms_ok_def oms_data_def BUFSIZ_def)
  show "stream_view False oms_data oms_pos s = []" "stream_wpos False oms_data oms_pos s = 0"
    using s(5,6) by (simp_all add: stream_view_def stream_wpos_def wpos_def oms_data_def)
qed

text \<open>C14: strings written to a stream of \<open>open_memstream\<close>, any number of any length, are in the block of the caller after \<open>fclose\<close>, one
  after the other and with a terminator, and their length is in the variable for the size, as long as there is memory for the block to
  grow.\<close>

theorem memstream_collects:
  assumes "open_memstream memc mem balloc alloc e = Some (Inr s)" "\<And>b. balloc BUFSIZ = Some b \<Longrightarrow> length b = BUFSIZ"
    and "\<forall>d \<in> set ds. length d \<le> SIZE_T_MAX"
  shows "\<exists>s1 s2. fputs_all (oms_io (\<lambda>_. True) junk) ds s = Some (True, s1) \<and> fclose (oms_io (\<lambda>_. True) junk) s1 = Some (0, s2) \<and>
    oms_size (cookie s2) = length (concat ds) \<and> take (oms_size (cookie s2)) (oms_buf (cookie s2)) = concat ds \<and>
    oms_size (cookie s2) < length (oms_buf (cookie s2)) \<and> oms_buf (cookie s2) ! oms_size (cookie s2) = 0"
proof -
  let ?io = "oms_io (\<lambda>_. True) junk"
  note st = open_memstream_stream [OF assms(1,2)]
  note cw = oms_writer.cookie_writer_axioms [of "\<lambda>_. True" junk]
  obtain s1 where a: "fputs_all ?io ds s = Some (True, s1)" "stream_view False oms_data oms_pos s1 = concat ds" "can_write s1" "oms_ok (cookie s1)"
    using fputs_all_effect [OF cw st(1,2) oms_no_errors assms(3)] st(3,4) by auto
  obtain s2 where f: "fflush_unlocked ?io s1 = Some (0, s2)" "oms_data (cookie s2) = concat ds" "oms_ok (cookie s2)"
    using fflush_refines [OF cw a(3,4)] oms_no_errors [of junk] a(2) by (auto simp: reliable_def EOF_def)
  have fl: "(if f_writing s1 then fflush_unlocked ?io s1 else Some (0, s1)) = Some (0, s2)"
    using f(1) by (cases "f_writing s1") (auto simp: fflush_unlocked_def)
  have "CLOSE_io ?io s2 = (True, s2)" by (simp add: CLOSE_io_def oms_io_def oms_close_def)
  then obtain s3 where g: "fclose ?io s1 = Some (0, s3)" "oms_data (cookie s3) = concat ds" "oms_ok (cookie s3)"
    using f(2,3) by (simp add: fclose_def fl)
  then have "oms_size (cookie s3) = length (concat ds)" by (auto simp: oms_ok_def oms_data_def simp flip: g(2))
  then show ?thesis using a(1) g by (auto simp: oms_ok_def oms_data_def)
qed

section \<open>An update stream on a block\<close>

lemma fmo_first_read:
  assumes "cookie x = c" "fmo_pos c = 0" "fmo_buf c = h # t" "\<not> f_eof x" "0 < n"
  shows "\<exists>k. stdio_READ fmo_io n x = Some (h # take k t, x\<lparr>cookie := c\<lparr>fmo_pos := Suc k\<rparr>\<rparr>) \<and> k \<le> length t"
proof -
  obtain m where m: "min n SSIZE_MAX = Suc m" using assms(5) by (cases "min n SSIZE_MAX") (auto simp: SSIZE_MAX_def min_def split: if_splits)
  have "fmo_read c (Suc m) = (Inr (h # take (min m (length t)) t), c\<lparr>fmo_pos := Suc (min m (length t))\<rparr>)"
    using assms(2,3) by (cases "length t < m") (simp_all add: fmo_read_def min_def)
  then have "stdio_READ fmo_io n x = Some (h # take (min m (length t)) t, x\<lparr>cookie := c\<lparr>fmo_pos := Suc (min m (length t))\<rparr>\<rparr>)"
    using assms(1,4) m by (simp add: stdio_READ_def READ_io_def fmo_io_def)
  then show ?thesis by (intro exI [of _ "min m (length t)"]) simp
qed

text \<open>A stream that \<open>fmemopen\<close> opens for reading and writing on the data of the caller (mode \<open>r+\<close>) reads that data, but its end of file
  is 0: after the first character has been read, \<open>ftell\<close> fails, and no position after the start can be found with \<open>fseek\<close>.\<close>

theorem fmemopen_update_positions:
  assumes "fmemopen memc mem balloc alloc e (Some b) (length b) [0x72, 0x2b] = Some (Inr s)" "b \<noteq> []" "length b \<le> SIZE_T_MAX" "0 < p" "off64 p"
  shows "\<exists>s1 s2. fgetc_unlocked fmo_io s = Some (uint (hd b), s1) \<and> fst (ftello64 fmo_io s1) = - 1 \<and>
    fseeko64 fmo_io p SEEK_SET s = Some (- 1, s2)"
proof -
  let ?c = "\<lparr>fmo_pos = 0, fmo_eof = 0, fmo_dynbuf = False, fmo_buf = b, fmo_append = False\<rparr>"
  obtain x where x: "fopencookie mem alloc e ?c [0x72, 0x2b] = Inr x" "s = x\<lparr>cookie := fmo_opened (f_readonly x) (f_append x) (cookie x)\<rparr>"
    using assms(1) by (auto simp: fmemopen_def Let_def split: if_splits sum.splits)
  have s: "f_reading s = 0" "\<not> f_eof s" "\<not> f_error s" "\<not> f_writeonly s" "\<not> f_writing s" "\<not> f_narrow s" "\<not> f_wide s" "f_bufmode s = FBF"
    "\<not> f_append s" "filedes s = - 1" "bufpos s = 0" "bufread s = 0" "bufgetc_u s = 0" "cookie s = ?c"
    using x by (auto simp: fopencookie_eq fopen_mode_def fmo_opened_def Let_def split: if_splits)
  obtain h t where b: "b = h # t" using assms(2) by (cases b) auto
  have rd: "\<exists>k. stdio_READ fmo_io n x = Some (h # take k t, x\<lparr>cookie := ?c\<lparr>fmo_pos := Suc k\<rparr>\<rparr>) \<and> k \<le> length t"
    if "cookie x = ?c" "\<not> f_eof x" "0 < n" for x n
    using fmo_first_read [OF that(1) _ _ that(2,3)] b by simp
  let ?s = "s\<lparr>f_narrow := True, f_reading := 1\<rparr>"
  have tr: "stdio_trans2r fmo_io s = Some (True, ?s)" using s by (simp add: stdio_trans2r_def set_narrow_def)
  have fc: "fgetc_unlocked fmo_io s = fgetc_fill fmo_io ?s"
    using s tr by (simp add: fgetc_unlocked_def IS_NARROW_READING_def has_ungot_def flush_lbf_streams_def)
  have "\<exists>s1. fgetc_unlocked fmo_io s = Some (uint h, s1) \<and> fmo_eof (cookie s1) = 0 \<and> 0 < fmo_pos (cookie s1) \<and>
      fmo_pos (cookie s1) \<le> length b \<and> \<not> f_writing s1"
  proof (cases "bufdata s = []")
    case True
    then show ?thesis using rd [of ?s 1] s b by (auto simp: fc fgetc_fill_def)
  next
    case False
    then show ?thesis using rd [of "?s\<lparr>bufgetc_u := 0\<rparr>" "length (bufdata s)"] s b by (auto simp: fc fgetc_fill_def stdio_rfill_def buffer_get_def)
  qed
  then obtain s1 where g: "fgetc_unlocked fmo_io s = Some (uint h, s1)" "fmo_eof (cookie s1) = 0" "0 < fmo_pos (cookie s1)"
      "fmo_pos (cookie s1) \<le> length b" "\<not> f_writing s1"
    by blast
  have ft: "fst (ftello64 fmo_io s1) = - 1"
  proof -
    have "as_uintmax (wrap64 (0 + int (fmo_pos (cookie s1)))) > 0"
      using seek_sum(1) [of 0 "int (fmo_pos (cookie s1))" 0] g(3,4) assms(3) by (simp add: off64_def)
    then show ?thesis using g(2,5) by (simp add: ftello64_def SEEK_io_def fmo_io_def fmo_seek_def SEEK_CUR_def SEEK_SET_def Let_def)
  qed
  have "fseeko64 fmo_io p SEEK_SET s = Some (- 1, io_error None (cookie s) s)"
    using s as_uintmax_le [of p 0] assms(4,5)
    by (simp add: fseeko64_def SEEK_io_def fmo_io_def fmo_seek_def SEEK_CUR_def SEEK_SET_def off64_def)
  then show ?thesis using g(1) ft b by auto
qed

theorem memstream_collects_witness:
  "\<exists>s s1 s2. open_memstream True True (\<lambda>n. Some (replicate n 1)) (\<lambda>n. Some (replicate n 1)) 0 = Some (Inr s) \<and>
     fputs_all (oms_io (\<lambda>_. True) (\<lambda>_. 1)) [[65], [66, 67]] s = Some (True, s1) \<and> fclose (oms_io (\<lambda>_. True) (\<lambda>_. 1)) s1 = Some (0, s2) \<and>
     take (oms_size (cookie s2)) (oms_buf (cookie s2)) = [65, 66, 67]"
proof -
  obtain s where s: "open_memstream True True (\<lambda>n. Some (replicate n 1)) (\<lambda>n. Some (replicate n 1)) 0 = Some (Inr s)"
    by (simp add: open_memstream_def fopencookie_eq fopen_mode_def)
  show ?thesis using memstream_collects [OF s, of "[[65], [66, 67]]" "\<lambda>_. 1"] s by (auto simp: SIZE_T_MAX_def)
qed

theorem fmemopen_update_positions_witness:
  "\<exists>s s1. fmemopen True True (\<lambda>_. None) (\<lambda>_. None) 0 (Some [65, 66]) 2 [0x72, 0x2b] = Some (Inr s) \<and>
     fgetc_unlocked fmo_io s = Some (65, s1) \<and> fst (ftello64 fmo_io s1) = - 1"
proof -
  obtain s where s: "fmemopen True True (\<lambda>_. None) (\<lambda>_. None) 0 (Some [65, 66]) 2 [0x72, 0x2b] = Some (Inr s)"
    by (simp add: fmemopen_def fopencookie_eq fopen_mode_def)
  have l: "length [65, 66 :: byte] = 2" by simp
  show ?thesis using fmemopen_update_positions [OF s [folded l], of 1] s by (auto simp: SIZE_T_MAX_def off64_def)
qed

end
