(* ===== verification/Spec2Isabelle.thy ===== *)
theory Spec2Isabelle
  imports Malloc_Client XdrMem Hsearch Tsearch Numeric Sort Inet_Text Strings_Proofs Calendar_Proofs Utf8_Proofs
    Exit Environ Dns_Pack_Proofs Rwlock_Proofs Semaphore_Proofs Memstream_Proofs
begin

text \<open>
  A verification development for the C library uClibc.

  \<^bold>\<open>The program.\<close> uClibc is a C library for small Linux systems. Its parts are mostly independent of
  each other; what they share is memory (the allocator, the string functions), \<open>errno\<close>, and the
  conventions of the C language. The development models parts that carry algorithms of their own,
  one group of theories each, on the configuration that \<open>Prelude\<close> states: a 32-bit target with
  4-byte \<open>size_t\<close> and 8-byte alignment of \<open>double\<close>; where the source is written for more than one
  width of \<open>long\<close> the width is a type variable.

  \<^bold>\<open>The allocator\<close> (\<open>libc/stdlib/malloc\<close>, \<open>brk.c\<close>, \<open>sbrk.c\<close>). Theory \<open>Heap\<close> is \<open>heap.h\<close>,
  \<open>heap_alloc.c\<close>, \<open>heap_alloc_at.c\<close> and \<open>heap_free.c\<close>: the state is a word memory and the list
  head, the list of free areas lives in that memory as in the code. Its refinement lemmas relate
  \<open>__heap_alloc\<close> and \<open>__heap_free\<close> to first fit and merging insertion on a sorted list of areas.
  Theory \<open>Malloc\<close> is \<open>malloc.c\<close>, \<open>free.c\<close>, \<open>realloc.c\<close>, \<open>calloc.c\<close>, \<open>memalign.c\<close> and the checker of
  \<open>heap_debug.c\<close> over the break; the kernel is the parameter \<open>kern\<close>, a function from the requested
  to the new break, of which the proofs use only that it either grants the request or leaves the
  break. Theory \<open>Malloc_Client\<close> has the contract of an allocator as a locale, its interpretation,
  and the safety of client runs. A call may fail only for a size of 0 or above \<open>2 ^ 32 - 16\<close>, or when no free area has
  room and the kernel refused the pages. The break is a multiple of 8 (so the branch of \<open>malloc\<close> for an unaligned
  result of \<open>sbrk\<close> is modelled but not entered), and the theorems leave out requests that make the break plus the size pass
  \<open>2 ^ 32\<close>: \<open>malloc_grow_wraparound\<close> shows what goes wrong there.

  \<^bold>\<open>XDR\<close> (\<open>libc/inet/rpc/xdr*.c\<close>). Theory \<open>Xdr\<close> models the filters over a record of stream
  operations, as in \<open>struct xdr_ops\<close>, and states what a stream promises as the locale \<open>xdr_stream\<close>;
  \<open>XdrMem\<close> models the memory stream, interprets the locale on it for both widths of \<open>long\<close>, and
  proves the round trips of the filters. The allocator the decoders call is a parameter.

  \<^bold>\<open>Search tables\<close> (\<open>libc/misc/search\<close>). \<open>Hsearch\<close> is the double-hashing table, \<open>Tsearch\<close> the
  binary trees, the linear search and the linked queues. Both tables interpret the locale
  \<open>dictionary\<close> of theory \<open>Dictionary\<close>, where the client lemmas are proved once. The comparison
  function of the trees and of the linear search, the success of \<open>calloc\<close> and the contents of
  fresh memory are parameters.

  \<^bold>\<open>Numbers\<close> (\<open>libc/stdlib/stdlib.c\<close>, \<open>libc/stdio/_uintmaxtostr.c\<close>). \<open>Numeric\<close> has the \<open>strtol\<close>
  family for every width of \<open>long\<close> and the printing of integers: saturation and end pointers,
  equivalence of the two implementations of each routine, and the round trip.

  \<^bold>\<open>Sorting\<close> (\<open>libc/stdlib/stdlib.c\<close>). \<open>Sort\<close> has \<open>qsort\<close> (a shell sort that swaps elements byte by
  byte) and \<open>bsearch\<close> on byte arrays: termination, bounds, sorted permutation, search.

  \<^bold>\<open>Internet addresses\<close> (\<open>libc/inet/addr.c\<close>, \<open>ntop.c\<close>, \<open>ntohl.c\<close>, \<open>ether_addr.c\<close>). \<open>Inet\<close> has the
  operations for either byte order, \<open>Inet_Text\<close> the round trips between text and binary form.

  \<^bold>\<open>Strings\<close> (\<open>libc/string/*.c\<close>, \<open>libc/string/generic/strlen.c\<close>). \<open>Strings\<close> has the portable
  routines on a byte memory, \<open>Strings_Proofs\<close> what they compute and which bytes they write.

  \<^bold>\<open>Calendar\<close> (\<open>libc/misc/time/time.c\<close>). \<open>Calendar\<close> has \<open>gmtime\<close>, \<open>localtime\<close> with its table of rules, \<open>mktime\<close>,
  \<open>timegm\<close>, \<open>asctime\<close> and \<open>dysize\<close>, on integers with the width of \<open>time_t\<close> and \<open>int\<close> written out where it
  matters; \<open>Calendar_Proofs\<close> relates them to the Gregorian calendar, whose months are stated apart from the tables of the
  code, and to the rules of daylight saving time.

  \<^bold>\<open>Multibyte characters\<close> (\<open>libc/misc/wchar/wchar.c\<close>). \<open>Utf8\<close> has the UTF-8 decoder and encoder with their
  state, the single-byte encodings, and the functions of \<open>wchar.h\<close> that call them; the tables of a locale are a
  parameter. \<open>Utf8_Proofs\<close> shows that exactly the shortest encodings of valid characters are accepted, round
  trips, that the input may be cut anywhere, and the bounds of what is stored.

  \<^bold>\<open>Process exit\<close> (\<open>libc/stdlib/_atexit.c\<close>). \<open>Exit\<close> has the table of exit functions with the operations that
  register, run and remove them. What a function does when it is called is a parameter, so functions may
  register and finalize others while they run; the abstract state is the list of registered functions.

  \<^bold>\<open>Environment\<close> (\<open>libc/stdlib/setenv.c\<close>, \<open>getenv.c\<close>). \<open>Environ\<close> is built on the string functions of \<open>Strings\<close> and uses
  their lemmas: what each operation does to the list of strings of the environment, and what \<open>getenv\<close> then finds.

  \<^bold>\<open>DNS messages\<close> (\<open>libc/inet/resolv.c\<close>). \<open>Dns\<close> has the encoders and decoders of headers, names, questions and
  resource records, and the expansion of compressed names; \<open>Dns_Proofs\<close> defines the names of a message by rules and
  shows that the decoders return exactly these, when they end, and the round trips. \<open>Dns_Pack\<close> has the parser of
  printed names and the compressor, \<open>Dns_Pack_Proofs\<close> that printing and parsing are inverse and that a compressed name
  expands to the name it was made from, whatever names it was compressed against.

  \<^bold>\<open>Threads\<close> (\<open>libpthread/linuxthreads\<close>: \<open>queue.h\<close>, \<open>rwlock.c\<close>, \<open>semaphore.c\<close>, \<open>barrier.c\<close>, \<open>pthread_cancel\<close> of \<open>cancel.c\<close>). An
  object and the threads that use it are a transition system: what a thread does between two calls of
  \<open>__pthread_lock\<close>, \<open>suspend\<close> or \<open>restart\<close> is one step, and any thread may make the next one. \<open>Waitq\<close> has the queues and the
  accounting of restarts, with the locale \<open>wait_places\<close> that the three objects interpret; \<open>Rwlock\<close> and \<open>Semaphore\<close> have
  the objects. What the properties say of threads, the locks held, the units taken and posted, the values that each
  round of a barrier returned, is kept by the step relations from the calls and the values that they return, and not by the
  operations. \<open>Rwlock_Proofs\<close> and \<open>Semaphore_Proofs\<close> have the invariants by induction over the reachable states: exclusion,
  conservation of the units of a semaphore, rounds of a barrier, and that nobody sleeps who could go on.

  \<^bold>\<open>Streams\<close> (\<open>libc/stdio\<close>: \<open>_WRITE.c\<close>, \<open>_READ.c\<close>, \<open>_wcommit.c\<close>, \<open>_fwrite.c\<close>, \<open>_rfill.c\<close>, \<open>_trans2r.c\<close>, \<open>_trans2w.c\<close>, \<open>_adjust_pos.c\<close>, \<open>fopencookie.c\<close> and the
  functions of \<open>stdio.h\<close> on top of them). \<open>Stdio\<close> has buffered streams of narrow characters as a record with the flags, the buffer and its
  pointers; the functions that read, write, seek and close are a parameter, as in \<open>struct __gcs\<close>, and so is all that is behind them.
  \<open>Stdio_Proofs\<close> has the invariant that the code asserts, for any such functions. The locales \<open>cookie_writer\<close>, \<open>cookie_reader\<close>, \<open>cookie_seeker\<close> and
  \<open>cookie_file\<close> state what a file promises; \<open>Stdio_Output\<close> and \<open>Stdio_Input\<close> show under them that a stream with its buffer is the file
  that a program means: bytes written, read, pushed back, positions, and writing followed by reading. \<open>Memstream\<close> has the two kinds of streams on
  memory, \<open>fmemopen.c\<close> and \<open>open_memstream.c\<close>, and \<open>Memstream_Proofs\<close> interprets the locales on them.

  \<^bold>\<open>Conventions.\<close> A loop that could run for ever is a \<open>partial_function (option)\<close>, where \<open>None\<close> is
  the run that does not end; the theorems state the value it returns, never only what holds if it
  does. No definition uses fuel. Errors are values: null pointers are \<open>None\<close>, \<open>errno\<close> is part of
  the result. Arithmetic that can wrap is written on words, or with \<open>mod\<close> (\<open>sz_add\<close>).

  \<^bold>\<open>Not modelled.\<close> System calls and their wrappers (\<open>libc/sysdeps\<close>), signals, terminals, processes
  and the dynamic linker (\<open>ldso\<close>) depend on the kernel and on machine code. Of \<open>stdio\<close>, the formatted functions
  (\<open>printf\<close>, \<open>scanf\<close>), streams of wide characters, locks and the list of open streams are left out; so are the
  resolver (the queries and files of \<open>libc/inet/resolv.c\<close>), the parsing of \<open>TZ\<close>, \<open>strftime\<close>, \<open>strptime\<close>, locales, regular expressions, \<open>glob\<close>
  and \<open>wordexp\<close>. The rest of \<open>libpthread\<close> (the thread manager, mutexes, condition variables, the implementation of \<open>__pthread_lock\<close>, \<open>suspend\<close> and \<open>restart\<close> by
  atomic operations and signals, and all of \<open>nptl\<close>), \<open>libcrypt\<close> and \<open>libm\<close> are not modelled yet or, for the
  floating-point code of \<open>libm\<close>, outside what the kernel library here supports. The assembler and
  per-machine versions of the string functions, the other two allocators, and the tools under
  \<open>extra\<close> are left out.
\<close>

end
